(* ===== verification/Prelude.thy ===== *)
theory Prelude
  imports Main "HOL-Library.Word" "HOL-Library.Monad_Syntax"
begin

text \<open>
  Shared vocabulary of the development.

  Sizes and counts of the C++ code are natural numbers with the wrap-around of their C type
  written out by \<open>dword\<close> (DWORD, UINT, ULONG: 32 bits) and \<open>qword\<close> (SIZE_T, ULONGLONG:
  64 bits, the code is read for the 64-bit Windows target). Characters are words: \<open>CHAR_t\<close> has
  8 bits, \<open>WCHAR\<close> has 16. An HRESULT or LONG is an integer.

  Memory behind a pointer is the list of its elements. Reads and writes that the C++ does
  through a pointer return \<open>None\<close> when they would leave that list, so \<open>None\<close> is an
  out-of-bounds access, and a theorem whose conclusion is \<open>Some\<close> says there is none.
\<close>

section \<open>Fact collections\<close>

named_theorems mem_simps \<open>reading and writing bounded memory\<close>
named_theorems cstr_simps \<open>NUL-terminated strings\<close>
named_theorems width_simps \<open>C integer widths\<close>

section \<open>C types\<close>

type_synonym CHAR_t = "8 word"
type_synonym WCHAR = "16 word"
type_synonym BYTE = "8 word"
type_synonym HRESULT = int

abbreviation (input) sizeof_CHAR :: nat where "sizeof_CHAR \<equiv> 1"
abbreviation (input) sizeof_WCHAR :: nat where "sizeof_WCHAR \<equiv> 2"
abbreviation (input) sizeof_pointer :: nat where "sizeof_pointer \<equiv> 8"

definition MAXDWORD :: nat where
  "MAXDWORD = 4294967295"

definition dword :: "nat \<Rightarrow> nat" where
  "dword n = n mod 4294967296"

definition qword :: "nat \<Rightarrow> nat" where
  "qword n = n mod 18446744073709551616"

text \<open>Subtraction of DWORDs wraps below zero.\<close>

definition dword_sub :: "nat \<Rightarrow> nat \<Rightarrow> nat" where
  "dword_sub a b = dword (a + 4294967296 - b)"

text \<open>A DWORD stored in a LONG: two's complement.\<close>

definition long_of_dword :: "nat \<Rightarrow> int" where
  "long_of_dword n = (if n < 2147483648 then int n else int n - 4294967296)"

lemma dword_id [width_simps]: "n \<le> MAXDWORD \<Longrightarrow> dword n = n"
  by (simp add: dword_def MAXDWORD_def)

lemma dword_le [simp]: "dword n \<le> MAXDWORD"
  by (simp add: dword_def MAXDWORD_def)

lemma dword_idem [simp]: "dword (dword n) = dword n"
  by (simp add: dword_def)

lemma dword_le_self: "dword n \<le> n"
  by (simp add: dword_def)

lemma dword_0 [simp]: "dword 0 = 0"
  by (simp add: dword_def)

lemma qword_id [width_simps]: "n < 18446744073709551616 \<Longrightarrow> qword n = n"
  by (simp add: qword_def)

lemma qword_le_self: "qword n \<le> n"
  by (simp add: qword_def)

lemma dword_sub_id: "b \<le> a \<Longrightarrow> a \<le> MAXDWORD \<Longrightarrow> dword_sub a b = a - b"
proof -
  assume h: "b \<le> a" "a \<le> MAXDWORD"
  then have e: "a + 4294967296 - b = (a - b) + 4294967296" by simp
  have "a - b < 4294967296" using h by (simp add: MAXDWORD_def)
  then show ?thesis unfolding dword_sub_def dword_def e by (simp only: mod_add_self2 mod_less)
qed

section \<open>Bounded memory\<close>

definition mem_read :: "nat \<Rightarrow> nat \<Rightarrow> 'c list \<Rightarrow> 'c list option" where
  "mem_read off n m = (if off + n \<le> length m then Some (take n (drop off m)) else None)"

definition mem_write :: "nat \<Rightarrow> 'c list \<Rightarrow> 'c list \<Rightarrow> 'c list option" where
  "mem_write off src m =
     (if off + length src \<le> length m
      then Some (take off m @ src @ drop (off + length src) m) else None)"

definition mem_get :: "nat \<Rightarrow> 'c list \<Rightarrow> 'c option" where
  "mem_get i m = (if i < length m then Some (m ! i) else None)"

definition mem_put :: "nat \<Rightarrow> 'c \<Rightarrow> 'c list \<Rightarrow> 'c list option" where
  "mem_put i v m = (if i < length m then Some (m[i := v]) else None)"

lemma mem_write_length: "mem_write off src m = Some m' \<Longrightarrow> length m' = length m"
  by (auto simp: mem_write_def split: if_splits)

lemma mem_write_Some [mem_simps]:
  "off + length src \<le> length m \<Longrightarrow>
   mem_write off src m = Some (take off m @ src @ drop (off + length src) m)"
  by (simp add: mem_write_def)

lemma mem_put_length: "mem_put i v m = Some m' \<Longrightarrow> length m' = length m"
  by (auto simp: mem_put_def split: if_splits)

lemma mem_put_Some [mem_simps]: "i < length m \<Longrightarrow> mem_put i v m = Some (m[i := v])"
  by (simp add: mem_put_def)

lemma mem_get_Some [mem_simps]: "i < length m \<Longrightarrow> mem_get i m = Some (m ! i)"
  by (simp add: mem_get_def)

lemma mem_read_Some [mem_simps]:
  "off + n \<le> length m \<Longrightarrow> mem_read off n m = Some (take n (drop off m))"
  by (simp add: mem_read_def)

lemma take_update_below [simp]: "n \<le> i \<Longrightarrow> take n (xs[i := v]) = take n xs"
  by (simp add: take_update_cancel)

section \<open>NUL-terminated strings\<close>

text \<open>
  The memory from a string pointer on is a list; the string is what precedes its first zero
  element.
\<close>

definition cstr :: "'a::len word list \<Rightarrow> 'a word list" where
  "cstr m = takeWhile (\<lambda>c. c \<noteq> 0) m"

definition strlen :: "'a::len word list \<Rightarrow> nat" where
  "strlen m = length (cstr m)"

definition terminated :: "'a::len word list \<Rightarrow> bool" where
  "terminated m \<longleftrightarrow> 0 \<in> set m"

lemma cstr_append_nul [cstr_simps]: "0 \<notin> set s \<Longrightarrow> cstr (s @ 0 # r) = s"
  unfolding cstr_def by (induction s) auto

lemma cstr_no_nul [cstr_simps]: "0 \<notin> set s \<Longrightarrow> cstr s = s"
  unfolding cstr_def by (induction s) auto

lemma cstr_nonzero: "0 \<notin> set (cstr m)"
  unfolding cstr_def by (metis (mono_tags, lifting) set_takeWhileD)

lemma cstr_Nil [simp]: "cstr [] = []"
  by (simp add: cstr_def)

lemma cstr_Cons [cstr_simps]: "cstr (c # m) = (if c = 0 then [] else c # cstr m)"
  by (simp add: cstr_def)

lemma strlen_le: "strlen m \<le> length m"
  by (simp add: strlen_def cstr_def length_takeWhile_le)

lemma cstr_take: "cstr m = take (strlen m) m"
  unfolding strlen_def cstr_def by (rule takeWhile_eq_take)

lemma terminated_strlen: "terminated m \<Longrightarrow> strlen m < length m \<and> m ! strlen m = 0"
proof -
  assume t: "terminated m"
  have "takeWhile (\<lambda>c. c \<noteq> 0) m \<noteq> m"
    using t unfolding terminated_def by (metis (mono_tags, lifting) set_takeWhileD)
  then have l: "strlen m < length m"
    unfolding strlen_def cstr_def
    by (metis (no_types, lifting) length_takeWhile_le nat_less_le takeWhile_eq_take take_all)
  then have "m ! strlen m = 0"
    unfolding strlen_def cstr_def using nth_length_takeWhile by blast
  with l show ?thesis by simp
qed

lemma terminated_split:
  assumes "terminated m"
  obtains r where "m = cstr m @ 0 # r"
proof -
  from terminated_strlen [OF assms]
  have l: "strlen m < length m" and z: "m ! strlen m = 0" by auto
  have "m = take (strlen m) m @ m ! strlen m # drop (Suc (strlen m)) m"
    using l by (rule id_take_nth_drop)
  with z that show thesis by (metis cstr_take)
qed

lemma cstr_at_first_nul:
  assumes "n < length m" "m ! n = 0" "0 \<notin> set (take n m)"
  shows "cstr m = take n m"
proof -
  have "m = take n m @ 0 # drop (Suc n) m"
    using assms(1,2) by (metis id_take_nth_drop)
  then show ?thesis using assms(3) by (metis cstr_append_nul)
qed

lemma strlen_append_nul [cstr_simps]: "0 \<notin> set s \<Longrightarrow> strlen (s @ 0 # r) = length s"
  by (simp add: strlen_def cstr_append_nul)

lemma terminated_append_nul [simp]: "terminated (s @ 0 # r)"
  by (simp add: terminated_def)

end
