(* ===== verification/Win32.thy ===== *)
theory Win32
  imports Prelude
begin

text \<open>
  The platform the library runs on: result codes, the process heap and the C run-time and
  strsafe string primitives the sources call.

  The heap is a parameter. \<open>heap_grants k n\<close> says whether the \<open>k\<close>-th request of the run, for
  \<open>n\<close> bytes, succeeds, and \<open>heap_junk k i\<close> is what the \<open>i\<close>-th element of that block holds
  before anything is written to it; \<open>heap_live\<close> counts the blocks allocated and not yet
  freed. A theorem for every \<open>world\<close> is a theorem for every
  behaviour of the allocator, failures included.
\<close>

section \<open>Result codes\<close>

definition S_OK :: HRESULT where "S_OK = 0"
definition E_OUTOFMEMORY :: HRESULT where "E_OUTOFMEMORY = 14 + 458752 - 2147483648"
definition E_INVALIDARG :: HRESULT where "E_INVALIDARG = 87 + 458752 - 2147483648"

definition ERROR_SUCCESS :: nat where "ERROR_SUCCESS = 0"
definition ERROR_NOT_ENOUGH_MEMORY :: nat where "ERROR_NOT_ENOUGH_MEMORY = 8"
definition ERROR_INVALID_DATA :: nat where "ERROR_INVALID_DATA = 13"
definition ERROR_INVALID_PARAMETER :: nat where "ERROR_INVALID_PARAMETER = 87"
definition ERROR_BUFFER_OVERFLOW :: nat where "ERROR_BUFFER_OVERFLOW = 111"
definition ERROR_INSUFFICIENT_BUFFER :: nat where "ERROR_INSUFFICIENT_BUFFER = 122"
definition ERROR_ALREADY_EXISTS :: nat where "ERROR_ALREADY_EXISTS = 183"
definition ERROR_ARITHMETIC_OVERFLOW :: nat where "ERROR_ARITHMETIC_OVERFLOW = 534"

named_theorems error_codes \<open>the numeric values of the result codes\<close>
declare S_OK_def [error_codes] E_OUTOFMEMORY_def [error_codes] E_INVALIDARG_def [error_codes]
  ERROR_SUCCESS_def [error_codes] ERROR_NOT_ENOUGH_MEMORY_def [error_codes]
  ERROR_INVALID_DATA_def [error_codes] ERROR_INVALID_PARAMETER_def [error_codes]
  ERROR_BUFFER_OVERFLOW_def [error_codes] ERROR_INSUFFICIENT_BUFFER_def [error_codes]
  ERROR_ALREADY_EXISTS_def [error_codes] ERROR_ARITHMETIC_OVERFLOW_def [error_codes]

text \<open>The HRESULT_FROM_WIN32 macro: zero and negative values pass through, others get the
  Win32 facility and the severity bit.\<close>

definition HRESULT_FROM_WIN32 :: "nat \<Rightarrow> HRESULT" where
  "HRESULT_FROM_WIN32 x =
     (let s = long_of_dword x in
      if s \<le> 0 then s else int (x mod 65536) + 458752 - 2147483648)"

definition FAILED :: "HRESULT \<Rightarrow> bool" where "FAILED hr \<longleftrightarrow> hr < 0"
definition SUCCEEDED :: "HRESULT \<Rightarrow> bool" where "SUCCEEDED hr \<longleftrightarrow> 0 \<le> hr"

lemmas hresult_defs = HRESULT_FROM_WIN32_def FAILED_def SUCCEEDED_def long_of_dword_def

lemma not_FAILED_S_OK [simp]: "\<not> FAILED S_OK" and SUCCEEDED_S_OK [simp]: "SUCCEEDED S_OK"
  by (simp_all add: hresult_defs error_codes)

lemma FAILED_codes [simp]:
  "FAILED E_OUTOFMEMORY" "FAILED E_INVALIDARG"
  "FAILED (HRESULT_FROM_WIN32 ERROR_NOT_ENOUGH_MEMORY)"
  "FAILED (HRESULT_FROM_WIN32 ERROR_INVALID_DATA)"
  "FAILED (HRESULT_FROM_WIN32 ERROR_INVALID_PARAMETER)"
  "FAILED (HRESULT_FROM_WIN32 ERROR_INSUFFICIENT_BUFFER)"
  "FAILED (HRESULT_FROM_WIN32 ERROR_ALREADY_EXISTS)"
  "FAILED (HRESULT_FROM_WIN32 ERROR_ARITHMETIC_OVERFLOW)"
  by (simp_all add: hresult_defs error_codes)

lemma SUCCEEDED_not_FAILED: "SUCCEEDED hr \<longleftrightarrow> \<not> FAILED hr"
  by (auto simp: hresult_defs)

lemma FAILED_not_S_OK: "FAILED hr \<Longrightarrow> hr \<noteq> S_OK"
  by auto

lemma HRESULT_FROM_WIN32_FAILED: "0 < e \<Longrightarrow> e < 2147483648 \<Longrightarrow> FAILED (HRESULT_FROM_WIN32 e)"
proof -
  assume "0 < e" "e < 2147483648"
  then show ?thesis by (simp add: hresult_defs Let_def)
qed

lemma HRESULT_distinct [simp]:
  "S_OK \<noteq> E_OUTOFMEMORY" "E_OUTOFMEMORY \<noteq> S_OK"
  "S_OK \<noteq> HRESULT_FROM_WIN32 ERROR_ARITHMETIC_OVERFLOW"
  "HRESULT_FROM_WIN32 ERROR_ARITHMETIC_OVERFLOW \<noteq> S_OK"
  "S_OK \<noteq> HRESULT_FROM_WIN32 ERROR_INVALID_PARAMETER"
  "HRESULT_FROM_WIN32 ERROR_INVALID_PARAMETER \<noteq> S_OK"
  "S_OK \<noteq> HRESULT_FROM_WIN32 ERROR_INSUFFICIENT_BUFFER"
  "HRESULT_FROM_WIN32 ERROR_INSUFFICIENT_BUFFER \<noteq> S_OK"
  "S_OK \<noteq> HRESULT_FROM_WIN32 ERROR_NOT_ENOUGH_MEMORY"
  "HRESULT_FROM_WIN32 ERROR_NOT_ENOUGH_MEMORY \<noteq> S_OK"
  "S_OK \<noteq> HRESULT_FROM_WIN32 ERROR_ALREADY_EXISTS"
  "HRESULT_FROM_WIN32 ERROR_ALREADY_EXISTS \<noteq> S_OK"
  "S_OK \<noteq> HRESULT_FROM_WIN32 ERROR_INVALID_DATA"
  "HRESULT_FROM_WIN32 ERROR_INVALID_DATA \<noteq> S_OK"
  "S_OK \<noteq> E_INVALIDARG" "E_INVALIDARG \<noteq> S_OK"
  by (simp_all add: hresult_defs error_codes)

section \<open>The process heap and the thread's last error\<close>

record world =
  heap_grants :: "nat \<Rightarrow> nat \<Rightarrow> bool"
  heap_junk :: "nat \<Rightarrow> nat \<Rightarrow> nat"
  heap_calls :: nat
  heap_live :: int
  last_error :: nat

definition SetLastError :: "nat \<Rightarrow> world \<Rightarrow> world" where
  "SetLastError e w = w\<lparr>last_error := e\<rparr>"

definition GetLastError :: "world \<Rightarrow> nat" where
  "GetLastError w = last_error w"

text \<open>A fresh block of \<open>cb\<close> bytes seen as \<open>cb div sz\<close> elements of \<open>sz\<close> bytes.\<close>

definition fresh_block :: "nat \<Rightarrow> bool \<Rightarrow> nat \<Rightarrow> world \<Rightarrow> 'a::len word list" where
  "fresh_block sz zero cb w =
     map (\<lambda>i. if zero then 0 else of_nat (heap_junk w (heap_calls w) i)) [0..<cb div sz]"

definition HeapAlloc :: "nat \<Rightarrow> bool \<Rightarrow> nat \<Rightarrow> world \<Rightarrow> 'a::len word list option \<times> world" where
  "HeapAlloc sz zero cb w =
     (if heap_grants w (heap_calls w) cb
      then (Some (fresh_block sz zero cb w),
            w\<lparr>heap_calls := Suc (heap_calls w), heap_live := heap_live w + 1\<rparr>)
      else (None, w\<lparr>heap_calls := Suc (heap_calls w)\<rparr>))"

definition HeapFree :: "world \<Rightarrow> world" where
  "HeapFree w = w\<lparr>heap_live := heap_live w - 1\<rparr>"

text \<open>Growing a block keeps what it held; the rest is fresh (zero with HEAP_ZERO_MEMORY).\<close>

definition HeapReAlloc ::
  "nat \<Rightarrow> bool \<Rightarrow> 'a::len word list \<Rightarrow> nat \<Rightarrow> world \<Rightarrow> 'a word list option \<times> world" where
  "HeapReAlloc sz zero old cb w =
     (if heap_grants w (heap_calls w) cb
      then (Some (take (cb div sz) old @ drop (length old) (fresh_block sz zero cb w)),
            w\<lparr>heap_calls := Suc (heap_calls w)\<rparr>)
      else (None, w\<lparr>heap_calls := Suc (heap_calls w)\<rparr>))"

text \<open>A request whose contents are not words (nodes, arrays of pointers): only whether it is granted.\<close>

definition heap_request :: "nat \<Rightarrow> world \<Rightarrow> bool \<times> world" where
  "heap_request cb w =
     (if heap_grants w (heap_calls w) cb
      then (True, w\<lparr>heap_calls := Suc (heap_calls w), heap_live := heap_live w + 1\<rparr>)
      else (False, w\<lparr>heap_calls := Suc (heap_calls w)\<rparr>))"

lemma length_fresh_block [simp]: "length (fresh_block sz zero cb w) = cb div sz"
  by (simp add: fresh_block_def)

text \<open>A heap that never refuses, and the run that starts with it.\<close>

definition generous :: "world \<Rightarrow> bool" where
  "generous w \<longleftrightarrow> (\<forall>k n. heap_grants w k n)"

definition plenty :: world where
  "plenty = \<lparr>heap_grants = (\<lambda>_ _. True), heap_junk = (\<lambda>_ i. i), heap_calls = 0,
     heap_live = 0, last_error = 0\<rparr>"

lemma generous_plenty [simp]: "generous plenty"
  by (simp add: generous_def plenty_def)

lemma SetLastError_simps [simp]:
  "last_error (SetLastError e w) = e" "heap_grants (SetLastError e w) = heap_grants w"
  "heap_junk (SetLastError e w) = heap_junk w" "heap_calls (SetLastError e w) = heap_calls w"
  "heap_live (SetLastError e w) = heap_live w"
  by (simp_all add: SetLastError_def)

section \<open>C run-time and strsafe primitives\<close>

definition STRSAFE_MAX_CCH :: nat where "STRSAFE_MAX_CCH = 2147483647"
definition STRSAFE_E_INVALID_PARAMETER :: HRESULT where
  "STRSAFE_E_INVALID_PARAMETER = 87 + 458752 - 2147483648"

text \<open>StringCchLength (StringCbLengthA for one-byte characters): the string length when a
  terminator lies within the first \<open>cchMax\<close> characters, an error otherwise.\<close>

definition StringCchLength :: "'a::len word list \<Rightarrow> nat \<Rightarrow> HRESULT + nat" where
  "StringCchLength m cchMax =
     (if cchMax > STRSAFE_MAX_CCH then Inl STRSAFE_E_INVALID_PARAMETER
      else if strlen m < cchMax then Inr (strlen m)
      else Inl STRSAFE_E_INVALID_PARAMETER)"

lemma FAILED_strsafe [simp]: "FAILED STRSAFE_E_INVALID_PARAMETER"
  by (simp add: STRSAFE_E_INVALID_PARAMETER_def FAILED_def)

lemma StringCchLength_Inl: "StringCchLength m n = Inl hr \<Longrightarrow> FAILED hr"
  by (auto simp: StringCchLength_def split: if_splits)

lemma StringCchLength_Inr:
  "StringCchLength m n = Inr k \<longleftrightarrow> n \<le> STRSAFE_MAX_CCH \<and> k = strlen m \<and> strlen m < n"
  by (auto simp: StringCchLength_def split: if_splits)

text \<open>Classification in the C locale.\<close>

definition isspace :: "'a::len word \<Rightarrow> bool" where
  "isspace c \<longleftrightarrow> c = 32 \<or> c \<in> {9, 10, 11, 12, 13}"

definition isdigit :: "'a::len word \<Rightarrow> bool" where
  "isdigit c \<longleftrightarrow> 48 \<le> c \<and> c \<le> 57"

definition isxdigit :: "'a::len word \<Rightarrow> bool" where
  "isxdigit c \<longleftrightarrow> (48 \<le> c \<and> c \<le> 57) \<or> (65 \<le> c \<and> c \<le> 70) \<or> (97 \<le> c \<and> c \<le> 102)"

definition tolower :: "'a::len word \<Rightarrow> 'a word" where
  "tolower c = (if 65 \<le> c \<and> c \<le> 90 then c + 32 else c)"

text \<open>Comparisons report equality only: that is all the sources ask of them.\<close>

definition strcmp_eq :: "'a::len word list \<Rightarrow> 'a word list \<Rightarrow> bool" where
  "strcmp_eq a b \<longleftrightarrow> cstr a = cstr b"

definition stricmp_eq :: "'a::len word list \<Rightarrow> 'a word list \<Rightarrow> bool" where
  "stricmp_eq a b \<longleftrightarrow> map tolower (cstr a) = map tolower (cstr b)"

definition strncmp_eq :: "'a::len word list \<Rightarrow> 'a word list \<Rightarrow> nat \<Rightarrow> bool" where
  "strncmp_eq a b n \<longleftrightarrow> take n (cstr a) = take n (cstr b)"

definition strnicmp_eq :: "'a::len word list \<Rightarrow> 'a word list \<Rightarrow> nat \<Rightarrow> bool" where
  "strnicmp_eq a b n \<longleftrightarrow> map tolower (take n (cstr a)) = map tolower (take n (cstr b))"

text \<open>strchr also finds the terminator when asked for it; offsets stand for pointers.\<close>

fun find_index :: "('c \<Rightarrow> bool) \<Rightarrow> 'c list \<Rightarrow> nat option" where
  "find_index p [] = None"
| "find_index p (x # xs) = (if p x then Some 0 else map_option Suc (find_index p xs))"

definition strchr :: "'a::len word list \<Rightarrow> 'a word \<Rightarrow> nat option" where
  "strchr m c = find_index (\<lambda>x. x = c) (cstr m @ [0])"

definition strrchr :: "'a::len word list \<Rightarrow> 'a word \<Rightarrow> nat option" where
  "strrchr m c =
     map_option (\<lambda>i. strlen m - i) (find_index (\<lambda>x. x = c) (rev (cstr m @ [0])))"

fun find_sub :: "'c list \<Rightarrow> 'c list \<Rightarrow> nat option" where
  "find_sub pat xs =
     (if take (length pat) xs = pat then Some 0
      else (case xs of [] \<Rightarrow> None | _ # ys \<Rightarrow> map_option Suc (find_sub pat ys)))"

declare find_sub.simps [simp del]

definition strstr :: "'a::len word list \<Rightarrow> 'a word list \<Rightarrow> nat option" where
  "strstr m pat = find_sub (cstr pat) (cstr m)"

lemma find_index_Some:
  "find_index p xs = Some i \<longleftrightarrow> i < length xs \<and> p (xs ! i) \<and> (\<forall>j<i. \<not> p (xs ! j))"
proof (induction xs arbitrary: i)
  case (Cons x xs)
  then show ?case by (cases i) (auto simp: less_Suc_eq_0_disj All_less_Suc2)
qed simp

lemma find_index_None: "find_index p xs = None \<longleftrightarrow> (\<forall>x \<in> set xs. \<not> p x)"
  by (induction xs) auto

lemma find_sub_Some:
  "find_sub pat xs = Some i \<longleftrightarrow>
     i \<le> length xs \<and> take (length pat) (drop i xs) = pat \<and>
     (\<forall>j<i. take (length pat) (drop j xs) \<noteq> pat)"
proof (induction xs arbitrary: i)
  case Nil
  then show ?case by (subst find_sub.simps) auto
next
  case (Cons x xs)
  then show ?case
    by (subst find_sub.simps) (cases i; auto simp: less_Suc_eq_0_disj All_less_Suc2)
qed

lemma find_sub_None:
  "find_sub pat xs = None \<longleftrightarrow> (\<forall>j\<le>length xs. take (length pat) (drop j xs) \<noteq> pat)"
proof (induction xs)
  case Nil
  then show ?case by (subst find_sub.simps) auto
next
  case (Cons x xs)
  then show ?case
    by (subst find_sub.simps) (auto simp flip: less_Suc_eq_le simp: All_less_Suc2)
qed

text \<open>SizeTToInt: the value, or minus one when it does not fit an INT.\<close>

definition SizeTToInt :: "nat \<Rightarrow> int" where
  "SizeTToInt n = (if n \<le> 2147483647 then int n else -1)"

section \<open>LONG counters\<close>

text \<open>A LONG: an integer of 32 bits.\<close>

definition is_long :: "int \<Rightarrow> bool" where
  "is_long x \<longleftrightarrow> -2147483648 \<le> x \<and> x \<le> 2147483647"

text \<open>InterlockedIncrement and InterlockedDecrement: the largest value is followed by the smallest.\<close>

definition long_incr :: "int \<Rightarrow> int" where
  "long_incr x = (if x = 2147483647 then -2147483648 else x + 1)"

definition long_decr :: "int \<Rightarrow> int" where
  "long_decr x = (if x = -2147483648 then 2147483647 else x - 1)"

end
