(* ===== verification/Buffer.thy ===== *)
theory Buffer
  imports Win32
begin

text \<open>
  \<^verbatim>\<open>BUFFER_T<T,LENGTH>\<close> of buffer.h: an array that starts in inline or caller-supplied
  memory and moves to the process heap when it has to grow. The object is generic in the element
  width; \<open>sz\<close> is \<^verbatim>\<open>sizeof(T)\<close>. STRA, STRU, MULTISZ and MULTISZA are its clients,
  and the locale \<open>growable\<close> states what they rely on.
\<close>

section \<open>State and operations\<close>

record 'a buffer =
  m_pBuffer :: "'a list"
  m_fHeapAllocated :: bool
  m_cbBuffer :: nat

text \<open>The default constructor points at the inline array, whose contents are \<open>inline\<close>.\<close>

definition buffer_inline :: "nat \<Rightarrow> 'a::len word list \<Rightarrow> 'a word buffer" where
  "buffer_inline sz inline =
     \<lparr>m_pBuffer = inline, m_fHeapAllocated = False, m_cbBuffer = dword (length inline * sz)\<rparr>"

definition buffer_init :: "'a::len word list \<Rightarrow> nat \<Rightarrow> 'a word buffer" where
  "buffer_init pbInit cbInit =
     \<lparr>m_pBuffer = pbInit, m_fHeapAllocated = False, m_cbBuffer = cbInit\<rparr>"

definition buffer_dtor :: "'a buffer \<Rightarrow> world \<Rightarrow> 'a buffer \<times> world" where
  "buffer_dtor b w =
     (if m_fHeapAllocated b
      then (b\<lparr>m_pBuffer := [], m_cbBuffer := 0, m_fHeapAllocated := False\<rparr>, HeapFree w)
      else (b, w))"

definition QueryPtr :: "'a buffer \<Rightarrow> 'a list" where
  "QueryPtr b = m_pBuffer b"

definition buffer_QuerySize :: "'a buffer \<Rightarrow> nat" where
  "buffer_QuerySize b = m_cbBuffer b"

definition buffer_Resize ::
  "nat \<Rightarrow> 'a::len word buffer \<Rightarrow> nat \<Rightarrow> bool \<Rightarrow> world \<Rightarrow> bool \<times> 'a word buffer \<times> world" where
  "buffer_Resize sz b cbNewSize fZero w =
     (if cbNewSize \<le> m_cbBuffer b then (True, b, w)
      else if cbNewSize > MAXDWORD then (False, b, SetLastError ERROR_INVALID_PARAMETER w)
      else
        (case (if m_fHeapAllocated b then HeapReAlloc sz fZero (m_pBuffer b) cbNewSize w
               else HeapAlloc sz fZero cbNewSize w) of
           (None, w1) \<Rightarrow> (False, b, SetLastError ERROR_NOT_ENOUGH_MEMORY w1)
         | (Some pNewMem, w1) \<Rightarrow>
             (True,
              \<lparr>m_pBuffer =
                 (if m_fHeapAllocated b then pNewMem
                  else m_pBuffer b @ drop (length (m_pBuffer b)) pNewMem),
               m_fHeapAllocated = True,
               m_cbBuffer = dword cbNewSize\<rparr>,
              w1)))"

text \<open>The doubling helper: DWORD multiplication wraps, and any failure is E_OUTOFMEMORY.\<close>

definition ResizeBufferByTwo ::
  "nat \<Rightarrow> 'a::len word buffer \<Rightarrow> nat \<Rightarrow> bool \<Rightarrow> world \<Rightarrow> HRESULT \<times> 'a word buffer \<times> world" where
  "ResizeBufferByTwo sz b cbIdealSize fZero w =
     (if cbIdealSize > buffer_QuerySize b then
        (case buffer_Resize sz b (max cbIdealSize (dword (buffer_QuerySize b * 2))) fZero w of
           (ok, b1, w1) \<Rightarrow> (if ok then S_OK else E_OUTOFMEMORY, b1, w1))
      else (S_OK, b, w))"

section \<open>Invariant\<close>

text \<open>The array has exactly the elements that fit the recorded byte size.\<close>

definition buffer_ok :: "nat \<Rightarrow> 'a buffer \<Rightarrow> bool" where
  "buffer_ok sz b \<longleftrightarrow>
     0 < sz \<and> m_cbBuffer b \<le> MAXDWORD \<and> length (m_pBuffer b) = m_cbBuffer b div sz"

lemma buffer_okD:
  assumes "buffer_ok sz b"
  shows "0 < sz" "m_cbBuffer b \<le> MAXDWORD" "length (m_pBuffer b) = m_cbBuffer b div sz"
  using assms by (auto simp: buffer_ok_def)

lemma buffer_inline_ok:
  "0 < sz \<Longrightarrow> length inline * sz \<le> MAXDWORD \<Longrightarrow> buffer_ok sz (buffer_inline sz inline)"
  by (simp add: buffer_ok_def buffer_inline_def width_simps)

lemma buffer_Resize_grows:
  assumes ok: "buffer_ok sz b" and r: "buffer_Resize sz b n z w = (True, b', w')"
  shows "buffer_ok sz b' \<and> n \<le> m_cbBuffer b' \<and> m_cbBuffer b \<le> m_cbBuffer b' \<and>
    take (length (m_pBuffer b)) (m_pBuffer b') = m_pBuffer b"
proof (cases "n \<le> m_cbBuffer b")
  case True
  with assms show ?thesis by (simp add: buffer_Resize_def)
next
  case False
  note okD = buffer_okD [OF ok]
  from False r have n: "n \<le> MAXDWORD"
    by (auto simp: buffer_Resize_def split: if_splits)
  have le: "m_cbBuffer b div sz \<le> n div sz" using False by (simp add: div_le_mono)
  from False n r obtain blk where
    blk: "b' = \<lparr>m_pBuffer = blk, m_fHeapAllocated = True, m_cbBuffer = dword n\<rparr>"
    and len: "length blk = n div sz"
    and pre: "take (length (m_pBuffer b)) blk = m_pBuffer b"
    using okD le
    by (auto simp: buffer_Resize_def HeapAlloc_def HeapReAlloc_def split: if_splits)
  from False n len okD(1) blk pre show ?thesis
    by (simp add: buffer_ok_def width_simps)
qed

lemma buffer_Resize_fails:
  "buffer_Resize sz b n z w = (False, b', w') \<Longrightarrow> b' = b"
  by (auto simp: buffer_Resize_def split: if_splits prod.splits option.splits)

lemma buffer_Resize_length:
  assumes "buffer_ok sz b" "buffer_Resize sz b n z w = (True, b', w')"
  shows "n div sz \<le> length (m_pBuffer b') \<and> length (m_pBuffer b) \<le> length (m_pBuffer b')"
  using buffer_Resize_grows [OF assms] assms(1)
  by (simp add: buffer_ok_def div_le_mono)

lemma buffer_Resize_generous:
  assumes "generous w" "n \<le> MAXDWORD"
  obtains b' w' where "buffer_Resize sz b n z w = (True, b', w')" "generous w'"
proof -
  obtain r b' w' where e: "buffer_Resize sz b n z w = (r, b', w')" by (metis prod_cases3)
  with assms have "r \<and> generous w'"
    by (auto simp: buffer_Resize_def generous_def HeapAlloc_def HeapReAlloc_def split: if_splits)
  with e that show thesis by auto
qed

lemma buffer_Resize_live:
  "buffer_Resize sz b n z w = (r, b', w') \<Longrightarrow>
   heap_live w' - (if m_fHeapAllocated b' then 1 else 0)
     = heap_live w - (if m_fHeapAllocated b then 1 else 0)"
  by (auto simp: buffer_Resize_def HeapAlloc_def HeapReAlloc_def split: if_splits)

lemma buffer_dtor_live:
  "buffer_dtor b w = (b', w') \<Longrightarrow>
   heap_live w' = heap_live w - (if m_fHeapAllocated b then 1 else 0) \<and> \<not> m_fHeapAllocated b'"
  by (auto simp: buffer_dtor_def HeapFree_def split: if_splits)

section \<open>The interface its clients use\<close>

text \<open>
  What the string classes rely on: after a successful request for \<open>n\<close> bytes there are at least
  \<open>n\<close> bytes and the old elements are unchanged, after a failed one the object is unchanged.
\<close>

locale growable =
  fixes grow :: "'b \<Rightarrow> nat \<Rightarrow> world \<Rightarrow> bool \<times> 'b \<times> world"
    and cells :: "'b \<Rightarrow> 'a::len word list"
    and bytes :: "'b \<Rightarrow> nat"
    and width :: nat
    and good :: "'b \<Rightarrow> bool"
  assumes good_bytes: "good b \<Longrightarrow> 0 < width \<and> bytes b \<le> MAXDWORD \<and> length (cells b) = bytes b div width"
    and grow_ok: "good b \<Longrightarrow> grow b n w = (True, b', w') \<Longrightarrow>
      good b' \<and> n \<le> bytes b' \<and> take (length (cells b)) (cells b') = cells b"
    and grow_fail: "grow b n w = (False, b', w') \<Longrightarrow> b' = b"
begin

text \<open>Reserving \<open>n\<close> bytes makes room for \<open>n div width\<close> elements.\<close>

lemma room:
  assumes "good b" "grow b n w = (True, b', w')"
  shows "n div width \<le> length (cells b')"
  using grow_ok [OF assms] good_bytes by (metis div_le_mono)

lemma never_shrinks:
  assumes "good b" "grow b n w = (True, b', w')"
  shows "length (cells b) \<le> length (cells b')"
proof -
  have "take (length (cells b)) (cells b') = cells b" using grow_ok [OF assms] by blast
  then have "length (take (length (cells b)) (cells b')) = length (cells b)" by simp
  then show ?thesis by simp
qed

lemma prefix_kept:
  assumes "good b" "grow b n w = (True, b', w')" "k \<le> length (cells b)"
  shows "take k (cells b') = take k (cells b)"
proof -
  have "take k (cells b') = take k (take (length (cells b)) (cells b'))"
    using assms(3) by (simp add: min_absorb1)
  then show ?thesis using grow_ok [OF assms(1,2)] by simp
qed

text \<open>The append of every client: reserve, copy at an offset inside the old contents, and put a
  terminator behind the copy. No access leaves the memory and the part before the offset stays.\<close>

lemma append_fits:
  assumes g: "good b" "grow b n w = (True, b', w')"
    and n: "(off + length src + 1) * width \<le> n"
    and off: "off \<le> length (cells b)"
  obtains m1 m2 where
    "mem_write off src (cells b') = Some m1" "mem_put (off + length src) 0 m1 = Some m2"
    "length m2 = length (cells b')"
    "take (off + length src) m2 = take off (cells b) @ src"
    "m2 ! (off + length src) = 0"
proof -
  have pos: "0 < width" using good_bytes [OF g(1)] by blast
  have "off + length src + 1 \<le> n div width"
    using n pos by (simp add: less_eq_div_iff_mult_less_eq)
  with room [OF g] have fit: "off + length src < length (cells b')" by simp
  define m1 where "m1 = take off (cells b') @ src @ drop (off + length src) (cells b')"
  have w1: "mem_write off src (cells b') = Some m1"
    using fit by (simp add: mem_simps m1_def)
  have l1: "length m1 = length (cells b')" using fit by (simp add: m1_def)
  have t1: "take (off + length src) m1 = take off (cells b) @ src"
    using prefix_kept [OF g off] fit off by (simp add: m1_def)
  show thesis
  proof (rule that [OF w1, of "m1[off + length src := 0]"])
    show "mem_put (off + length src) 0 m1 = Some (m1[off + length src := 0])"
      using fit l1 by (simp add: mem_simps)
  qed (use fit l1 t1 in auto)
qed

end

interpretation buf: growable
  "\<lambda>b n. buffer_Resize sz b n z" m_pBuffer m_cbBuffer sz "buffer_ok sz"
  for sz z
proof unfold_locales
  fix b :: "'a word buffer" and n w b' w'
  show "buffer_ok sz b \<Longrightarrow> 0 < sz \<and> m_cbBuffer b \<le> MAXDWORD \<and> length (m_pBuffer b) = m_cbBuffer b div sz"
    by (simp add: buffer_ok_def)
  show "buffer_ok sz b \<Longrightarrow> buffer_Resize sz b n z w = (True, b', w') \<Longrightarrow>
      buffer_ok sz b' \<and> n \<le> m_cbBuffer b' \<and> take (length (m_pBuffer b)) (m_pBuffer b') = m_pBuffer b"
    using buffer_Resize_grows by blast
  show "buffer_Resize sz b n z w = (False, b', w') \<Longrightarrow> b' = b"
    by (rule buffer_Resize_fails)
qed

end
