(* ===== verification/Str.thy ===== *)
theory Str
  imports Buffer
begin

text \<open>
  The string object shared by STRA (stringa.cpp) and STRU (stringu.cpp): a buffer and a cached
  length \<open>m_cchLen\<close>, with a terminator at that index. The two classes are the same code at
  two character widths; what is common is defined here over the width \<open>sz\<close>, and the theories
  Stra and Stru instantiate it and add what differs.

  Every operation that writes returns an \<open>option\<close>: \<open>None\<close> is an access outside the buffer or
  outside the caller's memory. \<open>str_ok\<close> is the class invariant and \<open>str_text\<close> the
  string an object stands for.
\<close>

section \<open>State and queries\<close>

record 'a str =
  m_Buff :: "'a buffer"
  m_cchLen :: nat

type_synonym STRA = "CHAR_t str"
type_synonym STRU = "WCHAR str"

definition QueryStr :: "'a str \<Rightarrow> 'a list" where
  "QueryStr s = QueryPtr (m_Buff s)"

definition str_with :: "'a str \<Rightarrow> 'a list \<Rightarrow> 'a str" where
  "str_with s m = s\<lparr>m_Buff := (m_Buff s)\<lparr>m_pBuffer := m\<rparr>\<rparr>"

definition str_ctor :: "nat \<Rightarrow> 'a::len word \<Rightarrow> 'a word str" where
  "str_ctor sz x = \<lparr>m_Buff = buffer_inline sz ([x][0 := 0]), m_cchLen = 0\<rparr>"

definition str_ctor_buf :: "nat \<Rightarrow> 'a::len word list \<Rightarrow> nat \<Rightarrow> 'a word str" where
  "str_ctor_buf sz pbInit cchInit =
     \<lparr>m_Buff = buffer_init pbInit (dword (cchInit * sz)), m_cchLen = 0\<rparr>"

definition IsEmpty :: "'a str \<Rightarrow> bool" where
  "IsEmpty s \<longleftrightarrow> m_cchLen s = 0"

definition QueryCB :: "nat \<Rightarrow> 'a str \<Rightarrow> nat" where
  "QueryCB sz s = dword (m_cchLen s * sz)"

definition QueryCCH :: "'a str \<Rightarrow> nat" where
  "QueryCCH s = m_cchLen s"

definition QuerySizeCCH :: "nat \<Rightarrow> 'a str \<Rightarrow> nat" where
  "QuerySizeCCH sz s = buffer_QuerySize (m_Buff s) div sz"

definition QuerySize :: "'a str \<Rightarrow> nat" where
  "QuerySize s = buffer_QuerySize (m_Buff s)"

section \<open>Operations common to both widths\<close>

definition str_Reset :: "'a::len word str \<Rightarrow> 'a word str option" where
  "str_Reset s = do {
     m \<leftarrow> mem_put 0 0 (QueryStr s);
     Some ((str_with s m)\<lparr>m_cchLen := 0\<rparr>) }"

definition str_SyncWithBuffer :: "nat \<Rightarrow> 'a::len word str \<Rightarrow> HRESULT \<times> 'a word str" where
  "str_SyncWithBuffer sz s =
     (case StringCchLength (QueryStr s) (QuerySizeCCH sz s) of
        Inl hr \<Rightarrow> (hr, s)
      | Inr n \<Rightarrow> (S_OK, s\<lparr>m_cchLen := dword n\<rparr>))"

definition str_SetLen ::
  "nat \<Rightarrow> 'a::len word str \<Rightarrow> nat \<Rightarrow> (HRESULT \<times> 'a word str) option" where
  "str_SetLen sz s cchLen =
     (if cchLen \<ge> QuerySizeCCH sz s then Some (HRESULT_FROM_WIN32 ERROR_INVALID_PARAMETER, s)
      else do {
        m \<leftarrow> mem_put cchLen 0 (QueryStr s);
        Some (S_OK, (str_with s m)\<lparr>m_cchLen := cchLen\<rparr>) })"

text \<open>CopyToBuffer: the result is the code, the caller's buffer and the byte count stored back.\<close>

definition str_CopyToBuffer ::
  "nat \<Rightarrow> 'a::len word str \<Rightarrow> 'a word list \<Rightarrow> nat \<Rightarrow> (HRESULT \<times> 'a word list \<times> nat) option" where
  "str_CopyToBuffer sz s pszBuffer pcb =
     (let cbNeeded = dword (QueryCB sz s + sz) in
      if pcb < cbNeeded
      then Some (HRESULT_FROM_WIN32 ERROR_INSUFFICIENT_BUFFER, pszBuffer, cbNeeded)
      else do {
        src \<leftarrow> mem_read 0 (cbNeeded div sz) (QueryStr s);
        m \<leftarrow> mem_write 0 src pszBuffer;
        Some (S_OK, m, cbNeeded) })"

text \<open>
  AuxAppend: copy \<open>cbStr\<close> bytes of the caller's string behind the first \<open>cbOffset\<close>
  bytes and terminate. All sizes are in bytes, as in the code; every caller passes multiples of
  the character width.
\<close>

definition str_AuxAppend ::
  "nat \<Rightarrow> 'a::len word str \<Rightarrow> 'a word list \<Rightarrow> nat \<Rightarrow> nat \<Rightarrow> world \<Rightarrow>
     (HRESULT \<times> 'a word str \<times> world) option" where
  "str_AuxAppend sz s pStr cbStr cbOffset w =
     (let cb64NewSize = qword (cbOffset + cbStr + sz) in
      if cb64NewSize > MAXDWORD
      then Some (HRESULT_FROM_WIN32 ERROR_ARITHMETIC_OVERFLOW, s, w)
      else
        (case (if buffer_QuerySize (m_Buff s) < cb64NewSize
               then buffer_Resize sz (m_Buff s) cb64NewSize False w
               else (True, m_Buff s, w)) of
           (False, b, w1) \<Rightarrow> Some (E_OUTOFMEMORY, s\<lparr>m_Buff := b\<rparr>, w1)
         | (True, b, w1) \<Rightarrow> do {
             src \<leftarrow> mem_read 0 (cbStr div sz) pStr;
             m1 \<leftarrow> mem_write (cbOffset div sz) src (m_pBuffer b);
             let cch = dword (dword cbStr + cbOffset) div sz;
             m2 \<leftarrow> mem_put cch 0 m1;
             Some (S_OK, \<lparr>m_Buff = b\<lparr>m_pBuffer := m2\<rparr>, m_cchLen = cch\<rparr>, w1) }))"

text \<open>
  Trim: the first loop walks a LONG index down from the end writing terminators over white space,
  the second counts leading white space; then the rest is moved to the front.
\<close>

fun trim_tail :: "('a::len word \<Rightarrow> bool) \<Rightarrow> 'a word list \<Rightarrow> nat \<Rightarrow> 'a word list \<times> nat" where
  "trim_tail sp m 0 = (m, 0)"
| "trim_tail sp m (Suc n) =
     (if sp (m ! n) then trim_tail sp (m[n := 0]) n else (m, Suc n))"

fun count_leading :: "('a \<Rightarrow> bool) \<Rightarrow> 'a list \<Rightarrow> nat" where
  "count_leading sp [] = 0"
| "count_leading sp (x # xs) = (if sp x then Suc (count_leading sp xs) else 0)"

definition str_Trim ::
  "nat \<Rightarrow> ('a::len word \<Rightarrow> bool) \<Rightarrow> 'a word str \<Rightarrow> 'a word str option" where
  "str_Trim sz sp s =
     (let (m, cchTempLength) =
            (if long_of_dword (dword_sub (m_cchLen s) 1) \<ge> 0
             then trim_tail sp (QueryStr s) (m_cchLen s) else (QueryStr s, m_cchLen s));
          cchLeading = count_leading sp (take cchTempLength m);
          cchNewLength = cchTempLength - cchLeading
      in do {
        s1 \<leftarrow> (if cchNewLength = 0 then str_Reset (str_with s m)
              else if cchLeading > 0 then do {
                src \<leftarrow> mem_read cchLeading cchNewLength m;
                m1 \<leftarrow> mem_write 0 src m;
                m2 \<leftarrow> mem_put cchNewLength 0 m1;
                Some (str_with s m2) }
              else Some (str_with s m));
        Some (snd (str_SyncWithBuffer sz s1)) })"

text \<open>The searches return a character index, or minus one.\<close>

definition str_IndexOf_char :: "'a::len word str \<Rightarrow> 'a word \<Rightarrow> nat \<Rightarrow> int" where
  "str_IndexOf_char s c dwStartIndex =
     (if dwStartIndex \<ge> QueryCCH s then -1
      else (case strchr (drop dwStartIndex (QueryStr s)) c of
              None \<Rightarrow> -1 | Some i \<Rightarrow> SizeTToInt (dwStartIndex + i)))"

definition str_IndexOf_str :: "'a::len word str \<Rightarrow> 'a word list option \<Rightarrow> nat \<Rightarrow> int" where
  "str_IndexOf_str s pszValue dwStartIndex =
     (case pszValue of
        None \<Rightarrow> -1
      | Some v \<Rightarrow>
          if dwStartIndex \<ge> QueryCCH s then -1
          else (case strstr (drop dwStartIndex (QueryStr s)) v of
                  None \<Rightarrow> -1 | Some i \<Rightarrow> SizeTToInt (dwStartIndex + i)))"

definition str_LastIndexOf :: "'a::len word str \<Rightarrow> 'a word \<Rightarrow> nat \<Rightarrow> int" where
  "str_LastIndexOf s c dwStartIndex =
     (if dwStartIndex \<ge> QueryCCH s then -1
      else (case strrchr (drop dwStartIndex (QueryStr s)) c of
              None \<Rightarrow> -1 | Some i \<Rightarrow> SizeTToInt (dwStartIndex + i)))"

section \<open>Formatted output\<close>

text \<open>The bounded printf of the C run-time: it writes the rendered text and a terminator when the
  text fits \<open>count\<close> characters, otherwise the first \<open>count\<close> characters and a
  terminator, and then returns minus one.\<close>

definition vsnprintf_s :: "'a::len word list \<Rightarrow> nat \<Rightarrow> 'a word list \<Rightarrow> ('a word list \<times> int) option" where
  "vsnprintf_s m count rendered =
     (if length rendered \<le> count
      then map_option (\<lambda>m1. (m1, int (length rendered))) (mem_write 0 (rendered @ [0]) m)
      else map_option (\<lambda>m1. (m1, -1)) (mem_write 0 (take count rendered @ [0]) m))"

text \<open>SafeVsnprintf over the rendered text, parametric in the class's Resize and width.\<close>

definition str_SafeVsnprintf ::
  "nat \<Rightarrow> ('a::len word str \<Rightarrow> nat \<Rightarrow> world \<Rightarrow> HRESULT \<times> 'a word str \<times> world) \<Rightarrow>
   'a word str \<Rightarrow> 'a word list \<Rightarrow> world \<Rightarrow> (HRESULT \<times> 'a word str \<times> world) option" where
  "str_SafeVsnprintf sz resize s rendered w = do {
     (m, cchOutput) \<leftarrow> vsnprintf_s (QueryStr s) (dword_sub (QuerySizeCCH sz s) 1) rendered;
     (hr, s1, w1) \<leftarrow>
       (if cchOutput = -1 then
          if length rendered > 64 * 1024
          then Some (HRESULT_FROM_WIN32 ERROR_INVALID_DATA, str_with s m, w)
          else
            (case resize (str_with s m) (length rendered + 1) w of
               (hr, s1, w1) \<Rightarrow>
                 if FAILED hr then Some (hr, s1, w1)
                 else do {
                   (m1, cchOutput1) \<leftarrow> vsnprintf_s (QueryStr s1) (dword_sub (QuerySizeCCH sz s1) 1) rendered;
                   Some (if cchOutput1 = -1 then HRESULT_FROM_WIN32 ERROR_INVALID_DATA else S_OK,
                         str_with s1 m1, w1) })
        else Some (S_OK, str_with s m, w));
     (hr2, s2) \<leftarrow>
       (if FAILED hr then Some (hr, s1)
        else do {
          m2 \<leftarrow> mem_put (dword_sub (QuerySizeCCH sz s1) 1) 0 (QueryStr s1);
          Some (str_SyncWithBuffer sz (str_with s1 m2)) });
     s3 \<leftarrow> (if FAILED hr2 then str_Reset s2 else Some s2);
     Some (hr2, s3, w1) }"

section \<open>Invariant and abstraction\<close>

definition str_ok :: "nat \<Rightarrow> 'a::len word str \<Rightarrow> bool" where
  "str_ok sz s \<longleftrightarrow>
     buffer_ok sz (m_Buff s) \<and> m_cchLen s < length (QueryStr s) \<and> QueryStr s ! m_cchLen s = 0"

definition str_text :: "'a str \<Rightarrow> 'a list" where
  "str_text s = take (m_cchLen s) (QueryStr s)"

text \<open>A proper string has no terminator before its end, so the C functions see all of it.\<close>

definition str_plain :: "'a::len word str \<Rightarrow> bool" where
  "str_plain s \<longleftrightarrow> 0 \<notin> set (str_text s)"

lemma str_okD:
  assumes "str_ok sz s"
  shows "buffer_ok sz (m_Buff s)" "0 < sz" "m_cchLen s < length (QueryStr s)"
    "QueryStr s ! m_cchLen s = 0" "m_cbBuffer (m_Buff s) \<le> MAXDWORD"
    "length (QueryStr s) = m_cbBuffer (m_Buff s) div sz"
  using assms by (auto simp: str_ok_def buffer_ok_def QueryStr_def QueryPtr_def)

lemma str_ok_bytes:
  assumes "str_ok sz s"
  shows "Suc (m_cchLen s) * sz \<le> MAXDWORD"
proof -
  note D = str_okD [OF assms]
  have "Suc (m_cchLen s) \<le> m_cbBuffer (m_Buff s) div sz" using D(3,6) by simp
  then have "Suc (m_cchLen s) * sz \<le> m_cbBuffer (m_Buff s)"
    using D(2) by (simp add: less_eq_div_iff_mult_less_eq)
  with D(5) show ?thesis by simp
qed

lemma QueryCB_ok: "str_ok sz s \<Longrightarrow> QueryCB sz s = m_cchLen s * sz"
  using str_ok_bytes [of sz s] by (simp add: QueryCB_def width_simps)

lemma length_str_text: "str_ok sz s \<Longrightarrow> length (str_text s) = m_cchLen s"
  using str_okD(3) [of sz s] by (simp add: str_text_def)

lemma str_split:
  assumes "str_ok sz s"
  shows "QueryStr s = str_text s @ 0 # drop (Suc (m_cchLen s)) (QueryStr s)"
  using id_take_nth_drop [OF str_okD(3) [OF assms]] str_okD(4) [OF assms]
  by (simp add: str_text_def)

lemma str_terminated: "str_ok sz s \<Longrightarrow> terminated (QueryStr s)"
  by (metis str_split terminated_append_nul)

lemma cstr_plain: "str_ok sz s \<Longrightarrow> str_plain s \<Longrightarrow> cstr (QueryStr s) = str_text s"
  by (metis str_split str_plain_def cstr_append_nul)

lemma QueryStr_with [simp]: "QueryStr (str_with s m) = m" "m_cchLen (str_with s m) = m_cchLen s"
  "m_cbBuffer (m_Buff (str_with s m)) = m_cbBuffer (m_Buff s)"
  "QuerySizeCCH sz (str_with s m) = QuerySizeCCH sz s"
  "QueryStr (s\<lparr>m_cchLen := n\<rparr>) = QueryStr s"
  "QuerySizeCCH sz (s\<lparr>m_cchLen := n\<rparr>) = QuerySizeCCH sz s"
  "str_with (str_with s m) m' = str_with s m'"
  "m_Buff (str_with s m) = (m_Buff s)\<lparr>m_pBuffer := m\<rparr>"
  by (simp_all add: str_with_def QueryStr_def QueryPtr_def QuerySizeCCH_def buffer_QuerySize_def)

text \<open>Overwriting the buffer with equally many characters keeps the invariant, when the
  terminator is where the length says.\<close>

lemma str_ok_with:
  assumes "str_ok sz s" "length m = length (QueryStr s)" "n < length m" "m ! n = 0"
  shows "str_ok sz ((str_with s m)\<lparr>m_cchLen := n\<rparr>)"
    and "str_text ((str_with s m)\<lparr>m_cchLen := n\<rparr>) = take n m"
  using assms
  by (auto simp: str_ok_def buffer_ok_def str_text_def str_with_def QueryStr_def QueryPtr_def)

lemma QuerySizeCCH_ok: "str_ok sz s \<Longrightarrow> QuerySizeCCH sz s = length (QueryStr s)"
  using str_okD(6) [of sz s] by (simp add: QuerySizeCCH_def buffer_QuerySize_def)

lemma str_ctor_ok: "0 < sz \<Longrightarrow> sz \<le> 2 \<Longrightarrow> str_ok sz (str_ctor sz x) \<and> str_text (str_ctor sz x) = []"
  by (simp add: str_ok_def buffer_ok_def str_ctor_def buffer_inline_def str_text_def
      QueryStr_def QueryPtr_def width_simps MAXDWORD_def)

lemma str_ctor_buf_ok:
  assumes "0 < sz" "cchInit = length pbInit" "cchInit * sz \<le> MAXDWORD" "0 < cchInit" "pbInit ! 0 = 0"
  shows "str_ok sz (str_ctor_buf sz pbInit cchInit) \<and> str_text (str_ctor_buf sz pbInit cchInit) = []"
  using assms
  by (simp add: str_ok_def buffer_ok_def str_ctor_buf_def buffer_init_def str_text_def
      QueryStr_def QueryPtr_def width_simps)

end
