(* ===== verification/StrFacts.thy ===== *)
theory StrFacts
  imports Str
begin

text \<open>
  What the shared string operations do, on every branch: no access leaves the memory, the class
  invariant is kept, and the text is the one the operation promises. The append is proved through
  the \<open>growable\<close> interface of the buffer; \<open>delivers\<close> is the contract of every
  operation that replaces or extends the text.
\<close>

section \<open>Reset, SetLen, SyncWithBuffer, CopyToBuffer\<close>

lemma str_Reset_correct:
  assumes "str_ok sz s"
  shows "\<exists>s'. str_Reset s = Some s' \<and> str_ok sz s' \<and> str_text s' = [] \<and>
    QuerySizeCCH sz s' = QuerySizeCCH sz s"
proof -
  have l: "0 < length (QueryStr s)" using str_okD(3) [OF assms] by linarith
  define m where "m = (QueryStr s)[0 := 0]"
  have "str_Reset s = Some ((str_with s m)\<lparr>m_cchLen := 0\<rparr>)"
    using l by (simp add: str_Reset_def mem_simps m_def)
  moreover have "str_ok sz ((str_with s m)\<lparr>m_cchLen := 0\<rparr>)"
    and "str_text ((str_with s m)\<lparr>m_cchLen := 0\<rparr>) = []"
    using str_ok_with [OF assms, of m 0] l by (auto simp: m_def)
  ultimately show ?thesis by simp
qed

lemma str_SetLen_correct:
  assumes "str_ok sz s"
  shows "str_SetLen sz s n =
     (if n < QuerySizeCCH sz s
      then Some (S_OK, (str_with s ((QueryStr s)[n := 0]))\<lparr>m_cchLen := n\<rparr>)
      else Some (HRESULT_FROM_WIN32 ERROR_INVALID_PARAMETER, s))"
    and "n < QuerySizeCCH sz s \<Longrightarrow>
      str_ok sz ((str_with s ((QueryStr s)[n := 0]))\<lparr>m_cchLen := n\<rparr>) \<and>
      str_text ((str_with s ((QueryStr s)[n := 0]))\<lparr>m_cchLen := n\<rparr>) = take n (QueryStr s)"
  using str_ok_with [OF assms, of "(QueryStr s)[n := 0]" n]
  by (simp_all add: str_SetLen_def QuerySizeCCH_ok [OF assms] mem_simps)

lemma str_SyncWithBuffer_correct:
  assumes b: "buffer_ok sz (m_Buff s)" and t: "terminated (QueryStr s)"
    and small: "QuerySizeCCH sz s \<le> STRSAFE_MAX_CCH"
  shows "str_SyncWithBuffer sz s = (S_OK, s\<lparr>m_cchLen := strlen (QueryStr s)\<rparr>)"
    and "str_ok sz (s\<lparr>m_cchLen := strlen (QueryStr s)\<rparr>)"
    and "str_text (s\<lparr>m_cchLen := strlen (QueryStr s)\<rparr>) = cstr (QueryStr s)"
proof -
  note T = terminated_strlen [OF t]
  have q: "QuerySizeCCH sz s = length (QueryStr s)"
    using b by (simp add: QuerySizeCCH_def buffer_QuerySize_def buffer_ok_def QueryStr_def QueryPtr_def)
  have "strlen (QueryStr s) \<le> MAXDWORD"
    using T small q by (simp add: STRSAFE_MAX_CCH_def MAXDWORD_def)
  with T q small show "str_SyncWithBuffer sz s = (S_OK, s\<lparr>m_cchLen := strlen (QueryStr s)\<rparr>)"
    by (simp add: str_SyncWithBuffer_def StringCchLength_def width_simps)
  show "str_ok sz (s\<lparr>m_cchLen := strlen (QueryStr s)\<rparr>)"
    using T b by (simp add: str_ok_def)
  show "str_text (s\<lparr>m_cchLen := strlen (QueryStr s)\<rparr>) = cstr (QueryStr s)"
    by (simp add: str_text_def flip: cstr_take)
qed

lemma str_SyncWithBuffer_plain:
  assumes "str_ok sz s" "str_plain s" "QuerySizeCCH sz s \<le> STRSAFE_MAX_CCH"
  shows "str_SyncWithBuffer sz s = (S_OK, s)"
proof -
  have "strlen (QueryStr s) = m_cchLen s"
    using cstr_plain [OF assms(1,2)] length_str_text [OF assms(1)] by (simp add: strlen_def)
  then show ?thesis
    using str_SyncWithBuffer_correct(1) [OF str_okD(1) [OF assms(1)] str_terminated [OF assms(1)] assms(3)]
    by simp
qed

lemma str_CopyToBuffer_correct:
  assumes "str_ok sz s"
  shows "str_CopyToBuffer sz s out pcb =
     (if pcb < Suc (m_cchLen s) * sz
      then Some (HRESULT_FROM_WIN32 ERROR_INSUFFICIENT_BUFFER, out, Suc (m_cchLen s) * sz)
      else if Suc (m_cchLen s) \<le> length out
      then Some (S_OK, str_text s @ 0 # drop (Suc (m_cchLen s)) out, Suc (m_cchLen s) * sz)
      else None)"
proof -
  note D = str_okD [OF assms]
  have q: "dword (QueryCB sz s + sz) = Suc (m_cchLen s) * sz"
    using str_ok_bytes [OF assms] by (simp add: QueryCB_ok [OF assms] width_simps add.commute)
  have "take (Suc (m_cchLen s)) (QueryStr s) = str_text s @ [0]"
    using D(3,4) by (simp add: str_text_def take_Suc_conv_app_nth)
  then show ?thesis
    using D(2,3) length_str_text [OF assms]
    by (simp add: str_CopyToBuffer_def q mem_read_def mem_write_def Let_def)
qed

section \<open>AuxAppend\<close>

lemma str_AuxAppend_correct:
  assumes ok: "str_ok sz s" and o: "off \<le> m_cchLen s" and n: "n \<le> length p"
    and small: "(off + n + 1) * sz < 18446744073709551616"
  obtains
    (overflow) "(off + n + 1) * sz > MAXDWORD"
      "str_AuxAppend sz s p (n * sz) (off * sz) w = Some (HRESULT_FROM_WIN32 ERROR_ARITHMETIC_OVERFLOW, s, w)"
  | (nomem) w' where "(off + n + 1) * sz \<le> MAXDWORD"
      "buffer_QuerySize (m_Buff s) < (off + n + 1) * sz"
      "buffer_Resize sz (m_Buff s) ((off + n + 1) * sz) False w = (False, m_Buff s, w')"
      "str_AuxAppend sz s p (n * sz) (off * sz) w = Some (E_OUTOFMEMORY, s, w')"
  | (appended) s' w' where "(off + n + 1) * sz \<le> MAXDWORD"
      "str_AuxAppend sz s p (n * sz) (off * sz) w = Some (S_OK, s', w')"
      "str_ok sz s'" "str_text s' = take off (str_text s) @ take n p"
      "m_cbBuffer (m_Buff s) \<le> m_cbBuffer (m_Buff s')"
      "(off + n + 1) * sz \<le> m_cbBuffer (m_Buff s) \<Longrightarrow> w' = w"
proof -
  note D = str_okD [OF ok]
  let ?N = "(off + n + 1) * sz"
  have N: "qword (off * sz + n * sz + sz) = ?N"
    using small by (simp add: width_simps algebra_simps)
  consider (ov) "?N > MAXDWORD" | (fits) "?N \<le> MAXDWORD" by linarith
  then show thesis
  proof cases
    case ov
    then show ?thesis by (intro overflow) (simp_all add: str_AuxAppend_def N Let_def)
  next
    case fits
    obtain r b w1 where R:
      "(if buffer_QuerySize (m_Buff s) < ?N then buffer_Resize sz (m_Buff s) ?N False w
        else (True, m_Buff s, w)) = (r, b, w1)" by (metis prod_cases3)
    have RS: "buffer_Resize sz (m_Buff s) ?N False w = (r, b, w1)"
      using R by (auto simp: buffer_Resize_def buffer_QuerySize_def split: if_splits)
    show ?thesis
    proof (cases r)
      case False
      with RS have "buffer_Resize sz (m_Buff s) ?N False w = (False, b, w1)" by simp
      then have b: "b = m_Buff s" by (rule buffer_Resize_fails)
      moreover have "buffer_QuerySize (m_Buff s) < ?N" using R False by (auto split: if_splits)
      moreover have "str_AuxAppend sz s p (n * sz) (off * sz) w = Some (E_OUTOFMEMORY, s, w1)"
        unfolding str_AuxAppend_def N Let_def R using fits False b by simp
      ultimately show ?thesis using nomem [of w1] fits RS False by simp
    next
      case True
      with RS have RT: "buffer_Resize sz (m_Buff s) ?N False w = (True, b, w1)" by simp
      have off: "off \<le> length (m_pBuffer (m_Buff s))"
        using o D(3) by (simp add: QueryStr_def QueryPtr_def)
      have "(off + length (take n p) + 1) * sz \<le> ?N" by simp
      from buf.append_fits [OF D(1) RT this off]
      obtain m1 m2 where m: "mem_write off (take n p) (m_pBuffer b) = Some m1"
        "mem_put (off + length (take n p)) 0 m1 = Some m2" "length m2 = length (m_pBuffer b)"
        "take (off + length (take n p)) m2 = take off (m_pBuffer (m_Buff s)) @ take n p"
        "m2 ! (off + length (take n p)) = 0" by metis
      have ln: "length (take n p) = n" using n by simp
      have "n * sz \<le> MAXDWORD" "(off + n) * sz \<le> MAXDWORD"
        using fits by (simp_all add: algebra_simps)
      then have c: "dword (dword (n * sz) + off * sz) div sz = off + n"
        using D(2) by (simp add: width_simps algebra_simps flip: add_mult_distrib2)
      let ?s = "\<lparr>m_Buff = b\<lparr>m_pBuffer := m2\<rparr>, m_cchLen = off + n\<rparr>"
      have res: "str_AuxAppend sz s p (n * sz) (off * sz) w = Some (S_OK, ?s, w1)"
        unfolding str_AuxAppend_def N Let_def R c
        using fits True m(1,2) n D(2) ln by (simp add: mem_simps not_less)
      have bok: "buffer_ok sz b" and le: "?N \<le> m_cbBuffer b" "m_cbBuffer (m_Buff s) \<le> m_cbBuffer b"
        using buffer_Resize_grows [OF D(1) RT] by auto
      have room: "off + n < length (m_pBuffer b)"
        using buf.room [OF D(1) RT] D(2) by simp
      have ok': "str_ok sz ?s"
        using bok m(3,5) ln room by (simp add: str_ok_def buffer_ok_def QueryStr_def QueryPtr_def)
      have "take off (m_pBuffer (m_Buff s)) = take off (str_text s)"
        using o by (simp add: str_text_def QueryStr_def QueryPtr_def min_absorb1)
      then have tx: "str_text ?s = take off (str_text s) @ take n p"
        using m(4) ln by (simp add: str_text_def QueryStr_def QueryPtr_def)
      have w1: "?N \<le> m_cbBuffer (m_Buff s) \<Longrightarrow> w1 = w"
        using RS by (simp add: buffer_Resize_def)
      show ?thesis using appended [OF fits res ok' tx _ w1] le by simp
    qed
  qed
qed

section \<open>Searching\<close>

lemma drop_str_text:
  assumes "str_ok sz s" "str_plain s" "k \<le> m_cchLen s"
  shows "cstr (drop k (QueryStr s)) = drop k (str_text s)"
proof -
  have "drop k (QueryStr s) = drop k (str_text s) @ 0 # drop (Suc (m_cchLen s)) (QueryStr s)"
    using str_split [OF assms(1)] assms(3) length_str_text [OF assms(1)]
    by (metis append_Nil2 diff_is_0_eq drop0 drop_append)
  moreover have "0 \<notin> set (drop k (str_text s))"
    using assms(2) in_set_dropD by (fastforce simp: str_plain_def)
  ultimately show ?thesis by (simp add: cstr_append_nul)
qed

lemma str_IndexOf_char_correct:
  assumes "str_ok sz s" "str_plain s" "k < m_cchLen s" "c \<noteq> 0" "m_cchLen s \<le> 2147483647"
  shows "str_IndexOf_char s c k =
    (case find_index (\<lambda>x. x = c) (drop k (str_text s)) of None \<Rightarrow> -1 | Some i \<Rightarrow> int (k + i))"
proof -
  have e: "find_index (\<lambda>x. x = c) (xs @ [0]) = find_index (\<lambda>x. x = c) xs" for xs
    using assms(4) by (induction xs) auto
  have "find_index (\<lambda>x. x = c) (drop k (str_text s)) = Some i \<Longrightarrow> k + i \<le> 2147483647" for i
    using assms(3,5) length_str_text [OF assms(1)] by (auto simp: find_index_Some)
  then show ?thesis
    using assms(3)
    by (auto simp: str_IndexOf_char_def QueryCCH_def strchr_def drop_str_text [OF assms(1,2)] e
        SizeTToInt_def split: option.splits)
qed

lemma str_IndexOf_str_correct:
  assumes "str_ok sz s" "str_plain s" "k < m_cchLen s" "m_cchLen s \<le> 2147483647"
  shows "str_IndexOf_str s (Some v) k =
    (case find_sub (cstr v) (drop k (str_text s)) of None \<Rightarrow> -1 | Some i \<Rightarrow> int (k + i))"
proof -
  have "find_sub (cstr v) (drop k (str_text s)) = Some i \<Longrightarrow> k + i \<le> 2147483647" for i
    using assms(3,4) length_str_text [OF assms(1)] by (auto simp: find_sub_Some)
  then show ?thesis
    using assms(3)
    by (auto simp: str_IndexOf_str_def QueryCCH_def strstr_def drop_str_text [OF assms(1,2)]
        SizeTToInt_def split: option.splits)
qed

section \<open>Trim\<close>

lemma trim_tail_correct:
  assumes "trim_tail sp m n = (m', k)" "n < length m" "m ! n = 0"
  shows "k \<le> n \<and> length m' = length m \<and> take k m' = take k m \<and> m' ! k = 0 \<and>
    take k m = rev (dropWhile sp (rev (take n m)))"
  using assms
proof (induction sp m n rule: trim_tail.induct)
  case (1 sp m)
  then show ?case by simp
next
  case (2 sp m n)
  have n: "n < length m" using "2.prems" by simp
  have t: "take (Suc n) m = take n m @ [m ! n]" using n by (rule take_Suc_conv_app_nth)
  show ?case
  proof (cases "sp (m ! n)")
    case True
    with "2.prems" have h: "trim_tail sp (m[n := 0]) n = (m', k)" by simp
    have n': "n < length (m[n := 0])" "m[n := 0] ! n = 0" using n by auto
    note IH = "2.IH" [OF True h n']
    then have k: "k \<le> n" by blast
    then have e: "take k (m[n := 0]) = take k m" "take n (m[n := 0]) = take n m" by simp_all
    have r: "rev (dropWhile sp (rev (take (Suc n) m))) = rev (dropWhile sp (rev (take n m)))"
      unfolding t using True by simp
    show ?thesis using IH k unfolding e r by simp
  next
    case False
    then have "m' = m" "k = Suc n" using "2.prems"(1) by auto
    moreover have "rev (dropWhile sp (rev (take (Suc n) m))) = take (Suc n) m"
      unfolding t using False by simp
    ultimately show ?thesis using "2.prems"(2,3) by simp
  qed
qed

lemma count_leading_takeWhile: "count_leading sp xs = length (takeWhile sp xs)"
  by (induction xs) auto

lemma drop_count_leading: "drop (count_leading sp xs) xs = dropWhile sp xs"
  by (simp add: count_leading_takeWhile dropWhile_eq_drop)

definition trim_spec :: "('a \<Rightarrow> bool) \<Rightarrow> 'a list \<Rightarrow> 'a list" where
  "trim_spec sp xs = dropWhile sp (rev (dropWhile sp (rev xs)))"

lemma set_trim_spec: "set (trim_spec sp xs) \<subseteq> set xs"
  unfolding trim_spec_def by (metis set_dropWhileD set_rev subsetI)

lemma str_Trim_correct:
  assumes ok: "str_ok sz s" and plain: "str_plain s"
    and size: "QuerySizeCCH sz s \<le> STRSAFE_MAX_CCH"
  shows "\<exists>s'. str_Trim sz sp s = Some s' \<and> str_ok sz s' \<and> str_text s' = trim_spec sp (str_text s)"
proof -
  note D = str_okD [OF ok]
  have len: "m_cchLen s \<le> 2147483646"
    using D(3) size by (simp add: QuerySizeCCH_ok [OF ok] STRSAFE_MAX_CCH_def)
  have start: "(if long_of_dword (dword_sub (m_cchLen s) 1) \<ge> 0
      then trim_tail sp (QueryStr s) (m_cchLen s) else (QueryStr s, m_cchLen s))
    = trim_tail sp (QueryStr s) (m_cchLen s)"
    using len by (cases "m_cchLen s") (auto simp: dword_sub_id long_of_dword_def MAXDWORD_def)
  obtain m k where mk: "trim_tail sp (QueryStr s) (m_cchLen s) = (m, k)" by fastforce
  from trim_tail_correct [OF mk D(3,4)] have T: "k \<le> m_cchLen s" "length m = length (QueryStr s)"
    "take k m = take k (QueryStr s)" "m ! k = 0"
    "take k (QueryStr s) = rev (dropWhile sp (rev (str_text s)))" by (simp_all add: str_text_def)
  define lead where "lead = count_leading sp (take k m)"
  have lead: "lead \<le> k"
    using length_takeWhile_le [of sp "take k m"] T(1,2) D(3) by (simp add: lead_def count_leading_takeWhile)
  have spec: "drop lead (take k m) = trim_spec sp (str_text s)"
    by (simp add: lead_def drop_count_leading trim_spec_def T(3,5))
  have sl: "length (trim_spec sp (str_text s)) = k - lead"
    using T(1,2) D(3) by (simp flip: spec)
  have pl: "0 \<notin> set (trim_spec sp (str_text s))"
    using plain set_trim_spec by (fastforce simp: str_plain_def)
  have sync: "str_SyncWithBuffer sz (str_with s m') = (S_OK, (str_with s m')\<lparr>m_cchLen := k - lead\<rparr>)
      \<and> str_ok sz ((str_with s m')\<lparr>m_cchLen := k - lead\<rparr>)
      \<and> str_text ((str_with s m')\<lparr>m_cchLen := k - lead\<rparr>) = trim_spec sp (str_text s)"
    if m': "length m' = length (QueryStr s)" "take (k - lead) m' = trim_spec sp (str_text s)"
      "m' ! (k - lead) = 0" for m'
  proof -
    have kl: "k - lead < length m'" using T(1) D(3) m'(1) by simp
    have c: "cstr m' = trim_spec sp (str_text s)"
      using cstr_at_first_nul [OF kl m'(3)] pl m'(2) by simp
    have b: "buffer_ok sz (m_Buff (str_with s m'))" using D(1) m'(1)
      by (simp add: buffer_ok_def QueryStr_def QueryPtr_def)
    have t: "terminated m'" using kl m'(3) by (metis nth_mem terminated_def)
    show ?thesis
      using str_SyncWithBuffer_correct [OF b, unfolded QueryStr_with, OF t size] c sl
      by (simp add: strlen_def)
  qed
  show ?thesis
  proof (cases "k - lead = 0")
    case True
    have l0: "0 < length m" using T(2) D(3) by linarith
    then have "str_Reset (str_with s m) = Some ((str_with s (m[0 := 0]))\<lparr>m_cchLen := 0\<rparr>)"
      by (simp add: str_Reset_def mem_simps)
    moreover have "trim_spec sp (str_text s) = []" using sl True by simp
    moreover have "str_SyncWithBuffer sz ((str_with s (m[0 := 0]))\<lparr>m_cchLen := 0\<rparr>)
        = (S_OK, (str_with s (m[0 := 0]))\<lparr>m_cchLen := 0\<rparr>)"
      using str_ok_with [OF ok, of "m[0 := 0]" 0] l0 T(2) size
      by (intro str_SyncWithBuffer_plain) (auto simp: str_plain_def)
    moreover have "str_ok sz ((str_with s (m[0 := 0]))\<lparr>m_cchLen := 0\<rparr>)"
      "str_text ((str_with s (m[0 := 0]))\<lparr>m_cchLen := 0\<rparr>) = []"
      using str_ok_with [OF ok, of "m[0 := 0]" 0] l0 T(2) by auto
    ultimately show ?thesis
      using True mk start by (simp add: str_Trim_def Let_def lead_def)
  next
    case False
    show ?thesis
    proof (cases "lead > 0")
      case True
      define m2 where "m2 = (drop lead (take k m) @ drop (k - lead) m)[k - lead := 0]"
      have src: "take (k - lead) (drop lead m) = drop lead (take k m)"
        using lead by (simp add: take_drop)
      have L: "length (drop lead (take k m)) = k - lead" using T(1,2) D(3) by simp
      have m2: "length m2 = length (QueryStr s)" "take (k - lead) m2 = trim_spec sp (str_text s)"
        "m2 ! (k - lead) = 0"
        using T(1,2) D(3) lead L spec by (simp_all add: m2_def)
      have "str_Trim sz sp s = Some (snd (str_SyncWithBuffer sz (str_with s m2)))"
        using False True mk start T(1,2) D(3) lead L
        by (simp add: str_Trim_def Let_def lead_def [symmetric] mem_simps src m2_def)
      then show ?thesis using sync [OF m2] by simp
    next
      case False2: False
      then have "lead = 0" by simp
      then have m: "take (k - lead) m = trim_spec sp (str_text s)" "m ! (k - lead) = 0"
        using spec T(4) by simp_all
      have "str_Trim sz sp s = Some (snd (str_SyncWithBuffer sz (str_with s m)))"
        using False False2 mk start by (simp add: str_Trim_def Let_def lead_def [symmetric])
      then show ?thesis using sync [OF T(2) m] by simp
    qed
  qed
qed

section \<open>Ownership of the heap block and the contract of the text operations\<close>

text \<open>
  \<open>delivers sz s t w r\<close>: the result \<open>r\<close> of an operation on \<open>s\<close> is in bounds, the object
  keeps its invariant, on success its text is \<open>t\<close> and otherwise it is unchanged; the operation
  cannot fail when the heap refuses nothing and the text fits 32-bit sizes, and does not ask the
  heap when the text fits the buffer; heap blocks are neither leaked nor freed twice.
\<close>

definition owned :: "'a str \<Rightarrow> int" where
  "owned s = (if m_fHeapAllocated (m_Buff s) then 1 else 0)"

definition delivers ::
  "nat \<Rightarrow> 'a::len word str \<Rightarrow> 'a word list \<Rightarrow> world \<Rightarrow> (HRESULT \<times> 'a word str \<times> world) option \<Rightarrow> bool" where
  "delivers sz s t w r =
     (case r of None \<Rightarrow> False
      | Some (hr, s', w') \<Rightarrow>
          str_ok sz s' \<and> (if hr = S_OK then str_text s' = t else FAILED hr \<and> s' = s) \<and>
          m_cbBuffer (m_Buff s) \<le> m_cbBuffer (m_Buff s') \<and>
          heap_live w' - owned s' = heap_live w - owned s \<and>
          (generous w \<longrightarrow> generous w' \<and> ((length t + 1) * sz \<le> MAXDWORD \<longrightarrow> hr = S_OK)) \<and>
          ((length t + 1) * sz \<le> m_cbBuffer (m_Buff s) \<longrightarrow> hr = S_OK \<and> w' = w))"

lemma deliversE:
  assumes "delivers sz s t w r"
  obtains (ok) s' w' where "r = Some (S_OK, s', w')" "str_ok sz s'" "str_text s' = t"
      "m_cbBuffer (m_Buff s) \<le> m_cbBuffer (m_Buff s')"
      "heap_live w' - owned s' = heap_live w - owned s" "generous w \<Longrightarrow> generous w'"
  | (failed) hr w' where "r = Some (hr, s, w')" "FAILED hr" "str_ok sz s"
      "heap_live w' = heap_live w" "\<not> (generous w \<and> (length t + 1) * sz \<le> MAXDWORD)"
      "m_cbBuffer (m_Buff s) < (length t + 1) * sz"
proof -
  obtain hr s' w' where r: "r = Some (hr, s', w')"
    using assms by (auto simp: delivers_def split: option.splits)
  show thesis
  proof (cases "hr = S_OK")
    case True
    then show ?thesis using assms r ok [of s' w'] by (simp add: delivers_def)
  next
    case False
    then show ?thesis using assms r by (intro failed [of hr w']) (auto simp: delivers_def)
  qed
qed

lemma delivers_keep:
  assumes "str_ok sz s" "str_text s = t"
  shows "delivers sz s t w (Some (S_OK, s, w))"
  using assms by (simp add: delivers_def)

lemma delivers_refuse:
  assumes "str_ok sz s" "FAILED hr" "\<not> (length t + 1) * sz \<le> MAXDWORD"
  shows "delivers sz s t w (Some (hr, s, w))"
  using assms str_okD(5) [OF assms(1)] by (auto simp: delivers_def)

lemma str_AuxAppend_delivers:
  assumes ok: "str_ok sz s" and o: "off \<le> m_cchLen s" and n: "n \<le> length p"
    and small: "(off + n + 1) * sz < 18446744073709551616"
  shows "delivers sz s (take off (str_text s) @ take n p) w (str_AuxAppend sz s p (n * sz) (off * sz) w)"
proof -
  let ?N = "(off + n + 1) * sz" and ?t = "take off (str_text s) @ take n p"
  have lt: "length ?t = off + n" using o n length_str_text [OF ok] by simp
  show ?thesis
  proof (rule str_AuxAppend_correct [OF ok o n small, of w])
    assume "?N > MAXDWORD" and r: "str_AuxAppend sz s p (n * sz) (off * sz) w
      = Some (HRESULT_FROM_WIN32 ERROR_ARITHMETIC_OVERFLOW, s, w)"
    then have "\<not> (length ?t + 1) * sz \<le> MAXDWORD" unfolding lt by simp
    from delivers_refuse [OF ok _ this] show ?thesis unfolding r by simp
  next
    fix w'
    assume "?N \<le> MAXDWORD" "buffer_QuerySize (m_Buff s) < ?N"
      and R: "buffer_Resize sz (m_Buff s) ?N False w = (False, m_Buff s, w')"
      and r: "str_AuxAppend sz s p (n * sz) (off * sz) w = Some (E_OUTOFMEMORY, s, w')"
    moreover have "\<not> generous w"
      using buffer_Resize_generous [of w ?N sz "m_Buff s" False] R calculation(1) by fastforce
    ultimately show ?thesis
      using buffer_Resize_live [OF R] ok unfolding delivers_def r option.case prod.case lt
      by (simp add: buffer_QuerySize_def FAILED_not_S_OK)
  next
    fix s' w'
    assume N: "?N \<le> MAXDWORD" and r: "str_AuxAppend sz s p (n * sz) (off * sz) w = Some (S_OK, s', w')"
      and k: "str_ok sz s'" "str_text s' = ?t" "m_cbBuffer (m_Buff s) \<le> m_cbBuffer (m_Buff s')"
        "?N \<le> m_cbBuffer (m_Buff s) \<Longrightarrow> w' = w"
    have q: "qword (off * sz + n * sz + sz) = ?N"
      using small by (simp add: width_simps algebra_simps)
    have bal: "heap_live w' - owned s' = heap_live w - owned s \<and> (generous w \<longrightarrow> generous w')"
      using r unfolding str_AuxAppend_def q Let_def
      by (auto simp: owned_def buffer_Resize_def HeapAlloc_def HeapReAlloc_def generous_def
          split: if_splits prod.splits option.splits bind_splits)
    show ?thesis
      using bal k unfolding delivers_def r option.case prod.case lt by simp
  qed
qed

section \<open>Formatted output\<close>

lemma vsnprintf_s_fits:
  "length r < length m \<Longrightarrow> length r \<le> c \<Longrightarrow>
   vsnprintf_s m c r = Some (r @ 0 # drop (Suc (length r)) m, int (length r))"
  by (simp add: vsnprintf_s_def mem_simps)

lemma vsnprintf_s_truncates:
  "c < length r \<Longrightarrow> c < length m \<Longrightarrow>
   vsnprintf_s m c r = Some (take c r @ 0 # drop (Suc c) m, -1)"
  by (simp add: vsnprintf_s_def mem_simps min_absorb2)

lemma put_behind_nul:
  assumes "length r \<le> k"
  shows "\<exists>rest'. (r @ 0 # rest)[k := 0] = r @ 0 # rest'"
  using assms by (cases "k - length r") (auto simp: list_update_append)

text \<open>
  What SafeVsnprintf relies on: a resize to at most 64K characters either succeeds, and then
  there is room and no more than was asked or was there, or fails and leaves the object alone.
\<close>

locale resizable =
  fixes sz :: nat
    and resize :: "'a::len word str \<Rightarrow> nat \<Rightarrow> world \<Rightarrow> HRESULT \<times> 'a word str \<times> world"
  assumes resize_ok: "buffer_ok sz (m_Buff s) \<Longrightarrow> n \<le> 65537 \<Longrightarrow> resize s n w = (S_OK, s', w') \<Longrightarrow>
      buffer_ok sz (m_Buff s') \<and> n \<le> QuerySizeCCH sz s' \<and>
      QuerySizeCCH sz s' \<le> max (QuerySizeCCH sz s) n"
    and resize_fail: "resize s n w = (hr, s', w') \<Longrightarrow> hr \<noteq> S_OK \<Longrightarrow> FAILED hr \<and> s' = s"
begin

lemma finish:
  assumes b: "buffer_ok sz (m_Buff s)" and q: "QueryStr s = r @ 0 # rest" and r: "0 \<notin> set r"
    and small: "QuerySizeCCH sz s \<le> STRSAFE_MAX_CCH"
  shows "\<exists>m s'. mem_put (dword_sub (QuerySizeCCH sz s) 1) 0 (QueryStr s) = Some m \<and>
    str_SyncWithBuffer sz (str_with s m) = (S_OK, s') \<and> str_ok sz s' \<and> str_text s' = r"
proof -
  have L: "QuerySizeCCH sz s = length (QueryStr s)"
    using b by (simp add: QuerySizeCCH_def buffer_QuerySize_def buffer_ok_def QueryStr_def QueryPtr_def)
  then have L1: "length r < QuerySizeCCH sz s" by (simp add: q)
  have d: "dword_sub (QuerySizeCCH sz s) 1 = QuerySizeCCH sz s - 1"
    using L1 small by (intro dword_sub_id) (auto simp: STRSAFE_MAX_CCH_def MAXDWORD_def)
  define m where "m = (QueryStr s)[QuerySizeCCH sz s - 1 := 0]"
  have p: "mem_put (dword_sub (QuerySizeCCH sz s) 1) 0 (QueryStr s) = Some m"
    unfolding d m_def using L1 L by (intro mem_put_Some) linarith
  obtain rest' where m: "m = r @ 0 # rest'"
  proof -
    have "length r \<le> QuerySizeCCH sz s - 1" using L1 by linarith
    from put_behind_nul [OF this] that show thesis by (metis m_def q)
  qed
  have "buffer_ok sz (m_Buff (str_with s m))"
    using b by (simp add: buffer_ok_def m_def QueryStr_def QueryPtr_def)
  moreover have "terminated (QueryStr (str_with s m))" "cstr m = r"
    using r by (simp_all add: m cstr_append_nul)
  moreover have "QuerySizeCCH sz (str_with s m) \<le> STRSAFE_MAX_CCH" using small by simp
  ultimately show ?thesis using p str_SyncWithBuffer_correct [of sz "str_with s m"] by auto
qed

lemma formatted:
  assumes ok: "str_ok sz s" and r: "0 \<notin> set r" and small: "QuerySizeCCH sz s \<le> STRSAFE_MAX_CCH"
  shows "\<exists>hr s' w'. str_SafeVsnprintf sz resize s r w = Some (hr, s', w') \<and> str_ok sz s' \<and>
    (if hr = S_OK then str_text s' = r else FAILED hr \<and> str_text s' = []) \<and>
    (length r < QuerySizeCCH sz s \<longrightarrow> hr = S_OK \<and> w' = w) \<and>
    (QuerySizeCCH sz s \<le> length r \<and> 65536 < length r \<longrightarrow> hr = HRESULT_FROM_WIN32 ERROR_INVALID_DATA)"
proof -
  define L where "L = QuerySizeCCH sz s"
  have L: "L = length (QueryStr s)" "0 < L" "L \<le> STRSAFE_MAX_CCH"
    using QuerySizeCCH_ok [OF ok] str_okD(3) [OF ok] small by (auto simp: L_def)
  have d: "dword_sub L 1 = L - 1"
    using L(2,3) by (intro dword_sub_id) (auto simp: STRSAFE_MAX_CCH_def MAXDWORD_def)
  show ?thesis
  proof (cases "length r < L")
    case True
    define m where "m = r @ 0 # drop (Suc (length r)) (QueryStr s)"
    have v: "vsnprintf_s (QueryStr s) (L - 1) r = Some (m, int (length r))"
      unfolding m_def using True L by (intro vsnprintf_s_fits) auto
    have b: "buffer_ok sz (m_Buff (str_with s m))"
      using True L str_okD(1) [OF ok] by (simp add: buffer_ok_def m_def QueryStr_def QueryPtr_def)
    obtain m2 s' where "mem_put (dword_sub L 1) 0 m = Some m2"
        "str_SyncWithBuffer sz (str_with s m2) = (S_OK, s')" "str_ok sz s'" "str_text s' = r"
      using finish [OF b _ r] small by (auto simp: m_def L_def)
    then have "str_SafeVsnprintf sz resize s r w = Some (S_OK, s', w)"
      using v d by (simp del: One_nat_def add: str_SafeVsnprintf_def flip: L_def)
    then show ?thesis using True \<open>str_ok sz s'\<close> \<open>str_text s' = r\<close> by (simp flip: L_def)
  next
    case False
    define m where "m = take (L - 1) r @ 0 # drop L (QueryStr s)"
    have v: "vsnprintf_s (QueryStr s) (L - 1) r = Some (m, -1)"
    proof -
      have "L - 1 < length r" "L - 1 < length (QueryStr s)" using False L(1,2) by linarith+
      from vsnprintf_s_truncates [OF this] show ?thesis using L(2) by (simp add: m_def)
    qed
    have lm: "length m = length (QueryStr s)" using False L by (simp add: m_def min_absorb2)
    define s1 where "s1 = str_with s m"
    have s1: "buffer_ok sz (m_Buff s1)" "QuerySizeCCH sz s1 = L"
      using str_okD(1) [OF ok] lm by (simp_all add: buffer_ok_def s1_def L_def QueryStr_def QueryPtr_def)
    obtain sr where sr: "str_Reset s1 = Some sr" "str_ok sz sr" "str_text sr = []"
    proof -
      have "str_ok sz (s1\<lparr>m_cchLen := L - 1\<rparr>)"
        using False L lm s1 by (simp add: str_ok_def s1_def m_def nth_append min_absorb2)
      from str_Reset_correct [OF this] that show thesis
        by (auto simp: str_Reset_def bind_eq_Some_conv str_with_def)
    qed
    note unf = str_SafeVsnprintf_def L_def [symmetric] d v s1_def [symmetric]
    show ?thesis
    proof (cases "65536 < length r")
      case True
      then have "str_SafeVsnprintf sz resize s r w = Some (HRESULT_FROM_WIN32 ERROR_INVALID_DATA, sr, w)"
        using sr(1) by (simp del: One_nat_def add: unf)
      then show ?thesis using False sr by (simp flip: L_def)
    next
      case short: False
      obtain hr s2 w2 where R: "resize s1 (length r + 1) w = (hr, s2, w2)" by (metis prod_cases3)
      show ?thesis
      proof (cases "hr = S_OK")
        case True
        then have R2: "buffer_ok sz (m_Buff s2)" "length r + 1 \<le> QuerySizeCCH sz s2"
            "QuerySizeCCH sz s2 \<le> max L (length r + 1)"
          using resize_ok [OF s1(1) _ R [unfolded True]] s1(2) short by simp_all
        define L2 where "L2 = QuerySizeCCH sz s2"
        have l2: "L2 = length (QueryStr s2)" "length r < L2" "L2 \<le> STRSAFE_MAX_CCH"
          using R2 L(3) short
          by (auto simp: L2_def QuerySizeCCH_def buffer_QuerySize_def buffer_ok_def QueryStr_def
              QueryPtr_def STRSAFE_MAX_CCH_def)
        have d2: "dword_sub L2 1 = L2 - 1"
          using l2 by (intro dword_sub_id) (auto simp: STRSAFE_MAX_CCH_def MAXDWORD_def)
        define m1 where "m1 = r @ 0 # drop (Suc (length r)) (QueryStr s2)"
        have v2: "vsnprintf_s (QueryStr s2) (L2 - 1) r = Some (m1, int (length r))"
          unfolding m1_def using l2 by (intro vsnprintf_s_fits) auto
        have b: "buffer_ok sz (m_Buff (str_with s2 m1))"
          using l2 R2(1) by (simp add: buffer_ok_def m1_def QueryStr_def QueryPtr_def)
        obtain m2 s' where "mem_put (dword_sub L2 1) 0 m1 = Some m2"
            "str_SyncWithBuffer sz (str_with s2 m2) = (S_OK, s')" "str_ok sz s'" "str_text s' = r"
          using finish [OF b _ r] l2(3) by (auto simp: m1_def L2_def)
        then have "str_SafeVsnprintf sz resize s r w = Some (S_OK, s', w2)"
          using short R True v2 d2 by (simp del: One_nat_def add: unf flip: L2_def)
        then show ?thesis using False short \<open>str_ok sz s'\<close> \<open>str_text s' = r\<close> by (simp flip: L_def)
      next
        case bad: False
        with resize_fail [OF R] have "FAILED hr" "s2 = s1" by auto
        then have "str_SafeVsnprintf sz resize s r w = Some (hr, sr, w2)"
          using short R sr(1) by (simp del: One_nat_def add: unf)
        then show ?thesis using False short bad sr \<open>FAILED hr\<close> by (simp flip: L_def)
      qed
    qed
  qed
qed

end

section \<open>Growing the buffer of a string\<close>

lemma str_grow:
  assumes ok: "str_ok sz s" and R: "buffer_Resize sz (m_Buff s) n z w = (r, b, w')"
  shows "str_ok sz (s\<lparr>m_Buff := b\<rparr>)" "str_text (s\<lparr>m_Buff := b\<rparr>) = str_text s"
    "heap_live w' - owned (s\<lparr>m_Buff := b\<rparr>) = heap_live w - owned s"
    "generous w \<Longrightarrow> generous w' \<and> (n \<le> MAXDWORD \<longrightarrow> r)"
    "m_cbBuffer (m_Buff s) \<le> m_cbBuffer b" "\<not> r \<Longrightarrow> b = m_Buff s" "r \<Longrightarrow> n \<le> m_cbBuffer b"
proof -
  note D = str_okD [OF ok]
  have *: "str_ok sz (s\<lparr>m_Buff := b\<rparr>) \<and> str_text (s\<lparr>m_Buff := b\<rparr>) = str_text s \<and>
      m_cbBuffer (m_Buff s) \<le> m_cbBuffer b \<and> (r \<longrightarrow> n \<le> m_cbBuffer b)"
  proof (cases r)
    case True
    note R' = R [unfolded eqTrueI [OF True]]
    have l: "Suc (m_cchLen s) \<le> length (m_pBuffer (m_Buff s))"
      using D(3) by (simp add: QueryStr_def QueryPtr_def)
    then have "m_cchLen s \<le> length (m_pBuffer (m_Buff s))" by simp
    note t = buf.prefix_kept [OF D(1) R' l] buf.prefix_kept [OF D(1) R' this]
    have "m_cchLen s < length (m_pBuffer b)" using buf.never_shrinks [OF D(1) R'] l by linarith
    moreover have "m_pBuffer b ! m_cchLen s = m_pBuffer (m_Buff s) ! m_cchLen s"
      using t(1) by (metis lessI nth_take)
    ultimately show ?thesis
      using buffer_Resize_grows [OF D(1) R'] D(4) t(2)
      by (simp add: str_ok_def str_text_def QueryStr_def QueryPtr_def)
  next
    case False
    then have "b = m_Buff s" using buffer_Resize_fails [of sz "m_Buff s" n z w b w'] R by simp
    then show ?thesis using ok False by simp
  qed
  then show "str_ok sz (s\<lparr>m_Buff := b\<rparr>)" "str_text (s\<lparr>m_Buff := b\<rparr>) = str_text s"
    "m_cbBuffer (m_Buff s) \<le> m_cbBuffer b" "r \<Longrightarrow> n \<le> m_cbBuffer b" by auto
  show "heap_live w' - owned (s\<lparr>m_Buff := b\<rparr>) = heap_live w - owned s"
    using buffer_Resize_live [OF R] by (simp add: owned_def)
  show "\<not> r \<Longrightarrow> b = m_Buff s" using buffer_Resize_fails [of sz "m_Buff s" n z w b w'] R by simp
  show "generous w \<Longrightarrow> generous w' \<and> (n \<le> MAXDWORD \<longrightarrow> r)"
    using R by (auto simp: buffer_Resize_def generous_def HeapAlloc_def HeapReAlloc_def
        split: if_splits prod.splits option.splits)
qed

end
