(* ===== verification/Stra.thy ===== *)
theory Stra
  imports StrFacts
begin

text \<open>
  STRA (stringa.cpp, stringa.h): the byte string class. The operations shared with STRU are the
  ones of Str at width one; this theory names them, and adds copying from memory and from wide
  strings, comparison and formatted output.

  The output of the printf engine for a format and its arguments is a parameter (Str).
\<close>

section \<open>The class at width one\<close>

definition STRA_ctor :: "CHAR_t \<Rightarrow> STRA" where
  "STRA_ctor = str_ctor sizeof_CHAR"

definition STRA_ctor_buf :: "CHAR_t list \<Rightarrow> nat \<Rightarrow> STRA" where
  "STRA_ctor_buf = str_ctor_buf sizeof_CHAR"

definition STRA_QueryCB :: "STRA \<Rightarrow> nat" where
  "STRA_QueryCB = QueryCB sizeof_CHAR"

definition STRA_QuerySizeCCH :: "STRA \<Rightarrow> nat" where
  "STRA_QuerySizeCCH = QuerySizeCCH sizeof_CHAR"

definition STRA_Reset :: "STRA \<Rightarrow> STRA option" where
  "STRA_Reset = str_Reset"

definition STRA_SyncWithBuffer :: "STRA \<Rightarrow> HRESULT \<times> STRA" where
  "STRA_SyncWithBuffer = str_SyncWithBuffer sizeof_CHAR"

definition STRA_SetLen :: "STRA \<Rightarrow> nat \<Rightarrow> (HRESULT \<times> STRA) option" where
  "STRA_SetLen = str_SetLen sizeof_CHAR"

definition STRA_CopyToBuffer :: "STRA \<Rightarrow> CHAR_t list \<Rightarrow> nat \<Rightarrow> (HRESULT \<times> CHAR_t list \<times> nat) option" where
  "STRA_CopyToBuffer = str_CopyToBuffer sizeof_CHAR"

definition STRA_Trim :: "STRA \<Rightarrow> STRA option" where
  "STRA_Trim = str_Trim sizeof_CHAR isspace"

definition STRA_IndexOf_char :: "STRA \<Rightarrow> CHAR_t \<Rightarrow> nat \<Rightarrow> int" where
  "STRA_IndexOf_char = str_IndexOf_char"

definition STRA_IndexOf_str :: "STRA \<Rightarrow> CHAR_t list option \<Rightarrow> nat \<Rightarrow> int" where
  "STRA_IndexOf_str = str_IndexOf_str"

definition STRA_LastIndexOf :: "STRA \<Rightarrow> CHAR_t \<Rightarrow> nat \<Rightarrow> int" where
  "STRA_LastIndexOf = str_LastIndexOf"

definition STRA_Resize :: "STRA \<Rightarrow> nat \<Rightarrow> world \<Rightarrow> HRESULT \<times> STRA \<times> world" where
  "STRA_Resize s cchSize w =
     (case buffer_Resize sizeof_CHAR (m_Buff s) (cchSize * sizeof_CHAR) False w of
        (ok, b, w1) \<Rightarrow> (if ok then S_OK else E_OUTOFMEMORY, s\<lparr>m_Buff := b\<rparr>, w1))"

section \<open>Comparison\<close>

definition STRA_Equals_psz :: "STRA \<Rightarrow> CHAR_t list \<Rightarrow> bool \<Rightarrow> bool" where
  "STRA_Equals_psz s pszRhs fIgnoreCase =
     (if fIgnoreCase then stricmp_eq (QueryStr s) pszRhs else strcmp_eq (QueryStr s) pszRhs)"

definition STRA_Equals_ptr :: "STRA \<Rightarrow> STRA \<Rightarrow> bool \<Rightarrow> bool" where
  "STRA_Equals_ptr s pstrRhs fIgnoreCase = STRA_Equals_psz s (QueryStr pstrRhs) fIgnoreCase"

definition STRA_Equals_ref :: "STRA \<Rightarrow> STRA \<Rightarrow> bool \<Rightarrow> bool" where
  "STRA_Equals_ref s strRhs fIgnoreCase = STRA_Equals_psz s (QueryStr strRhs) fIgnoreCase"

definition STRA_Equals_static :: "CHAR_t list option \<Rightarrow> CHAR_t list option \<Rightarrow> bool \<Rightarrow> bool" where
  "STRA_Equals_static pszLhs pszRhs fIgnoreCase =
     (case (pszLhs, pszRhs) of
        (Some l, Some r) \<Rightarrow> if fIgnoreCase then stricmp_eq l r else strcmp_eq l r
      | _ \<Rightarrow> False)"

definition STRA_StartsWith_psz :: "STRA \<Rightarrow> CHAR_t list option \<Rightarrow> bool \<Rightarrow> bool" where
  "STRA_StartsWith_psz s pszPrefix fIgnoreCase =
     (case pszPrefix of
        None \<Rightarrow> False
      | Some p \<Rightarrow>
          (case StringCchLength p STRSAFE_MAX_CCH of
             Inl hr \<Rightarrow> False
           | Inr cchPrefix \<Rightarrow>
               if cchPrefix > m_cchLen s then False
               else if fIgnoreCase then strnicmp_eq (QueryStr s) p cchPrefix
               else strncmp_eq (QueryStr s) p cchPrefix))"

definition STRA_StartsWith_ptr :: "STRA \<Rightarrow> STRA \<Rightarrow> bool \<Rightarrow> bool" where
  "STRA_StartsWith_ptr s pStraPrefix fIgnoreCase =
     STRA_StartsWith_psz s (Some (QueryStr pStraPrefix)) fIgnoreCase"

definition STRA_StartsWith_ref :: "STRA \<Rightarrow> STRA \<Rightarrow> bool \<Rightarrow> bool" where
  "STRA_StartsWith_ref s straPrefix fIgnoreCase =
     STRA_StartsWith_psz s (Some (QueryStr straPrefix)) fIgnoreCase"

definition STRA_EndsWith_psz :: "STRA \<Rightarrow> CHAR_t list option \<Rightarrow> bool \<Rightarrow> bool" where
  "STRA_EndsWith_psz s pszSuffix fIgnoreCase =
     (case pszSuffix of
        None \<Rightarrow> False
      | Some p \<Rightarrow>
          (case StringCchLength p STRSAFE_MAX_CCH of
             Inl hr \<Rightarrow> False
           | Inr cchSuffix \<Rightarrow>
               if cchSuffix > m_cchLen s then False
               else
                 let ixOffset = m_cchLen s - cchSuffix in
                 if fIgnoreCase then strnicmp_eq (drop ixOffset (QueryStr s)) p cchSuffix
                 else strncmp_eq (drop ixOffset (QueryStr s)) p cchSuffix))"

definition STRA_EndsWith_ptr :: "STRA \<Rightarrow> STRA \<Rightarrow> bool \<Rightarrow> bool" where
  "STRA_EndsWith_ptr s pStraSuffix fIgnoreCase =
     STRA_EndsWith_psz s (Some (QueryStr pStraSuffix)) fIgnoreCase"

definition STRA_EndsWith_ref :: "STRA \<Rightarrow> STRA \<Rightarrow> bool \<Rightarrow> bool" where
  "STRA_EndsWith_ref s straSuffix fIgnoreCase =
     STRA_EndsWith_psz s (Some (QueryStr straSuffix)) fIgnoreCase"

section \<open>Copy and append bytes\<close>

definition STRA_AuxAppend ::
  "STRA \<Rightarrow> CHAR_t list \<Rightarrow> nat \<Rightarrow> nat \<Rightarrow> world \<Rightarrow> (HRESULT \<times> STRA \<times> world) option" where
  "STRA_AuxAppend s pStr cbLen cbOffset w = str_AuxAppend sizeof_CHAR s pStr cbLen cbOffset w"

definition STRA_Copy_len :: "STRA \<Rightarrow> CHAR_t list \<Rightarrow> nat \<Rightarrow> world \<Rightarrow> (HRESULT \<times> STRA \<times> world) option" where
  "STRA_Copy_len s pszCopy cbLen w = STRA_AuxAppend s pszCopy (dword cbLen) 0 w"

definition STRA_Copy_psz :: "STRA \<Rightarrow> CHAR_t list \<Rightarrow> world \<Rightarrow> (HRESULT \<times> STRA \<times> world) option" where
  "STRA_Copy_psz s pszCopy w =
     (case StringCchLength pszCopy STRSAFE_MAX_CCH of
        Inl hr \<Rightarrow> Some (hr, s, w)
      | Inr cbLen \<Rightarrow> STRA_Copy_len s pszCopy cbLen w)"

definition STRA_Copy_ptr :: "STRA \<Rightarrow> STRA \<Rightarrow> world \<Rightarrow> (HRESULT \<times> STRA \<times> world) option" where
  "STRA_Copy_ptr s pstrRhs w = STRA_Copy_len s (QueryStr pstrRhs) (QueryCCH pstrRhs) w"

definition STRA_Copy_ref :: "STRA \<Rightarrow> STRA \<Rightarrow> world \<Rightarrow> (HRESULT \<times> STRA \<times> world) option" where
  "STRA_Copy_ref s strRhs w = STRA_Copy_len s (QueryStr strRhs) (QueryCCH strRhs) w"

definition STRA_Append_len :: "STRA \<Rightarrow> CHAR_t list \<Rightarrow> nat \<Rightarrow> world \<Rightarrow> (HRESULT \<times> STRA \<times> world) option" where
  "STRA_Append_len s pszAppend cbLen w =
     (if cbLen = 0 then Some (S_OK, s, w)
      else STRA_AuxAppend s pszAppend (dword cbLen) (STRA_QueryCB s) w)"

definition STRA_Append_psz :: "STRA \<Rightarrow> CHAR_t list \<Rightarrow> world \<Rightarrow> (HRESULT \<times> STRA \<times> world) option" where
  "STRA_Append_psz s pszAppend w =
     (case StringCchLength pszAppend STRSAFE_MAX_CCH of
        Inl hr \<Rightarrow> Some (hr, s, w)
      | Inr cbLen \<Rightarrow> STRA_Append_len s pszAppend cbLen w)"

definition STRA_Append_ptr :: "STRA \<Rightarrow> STRA \<Rightarrow> world \<Rightarrow> (HRESULT \<times> STRA \<times> world) option" where
  "STRA_Append_ptr s pstrRhs w = STRA_Append_len s (QueryStr pstrRhs) (QueryCCH pstrRhs) w"

definition STRA_Append_ref :: "STRA \<Rightarrow> STRA \<Rightarrow> world \<Rightarrow> (HRESULT \<times> STRA \<times> world) option" where
  "STRA_Append_ref s strRhs w = STRA_Append_len s (QueryStr strRhs) (QueryCCH strRhs) w"

section \<open>Copy and append wide characters, truncating each to a byte\<close>

text \<open>\<open>None\<close> for the source is the null pointer the code tests for.\<close>

definition STRA_AuxAppendWTruncate ::
  "STRA \<Rightarrow> WCHAR list option \<Rightarrow> nat \<Rightarrow> nat \<Rightarrow> world \<Rightarrow> (HRESULT \<times> STRA \<times> world) option" where
  "STRA_AuxAppendWTruncate s pszAppendW cchAppendW cbOffset w =
     (case pszAppendW of
        None \<Rightarrow> Some (HRESULT_FROM_WIN32 ERROR_INVALID_PARAMETER, s, w)
      | Some p \<Rightarrow>
          let cbNeeded = qword (cbOffset + cchAppendW + sizeof_CHAR) in
          if cbNeeded > MAXDWORD then Some (HRESULT_FROM_WIN32 ERROR_ARITHMETIC_OVERFLOW, s, w)
          else
            (case buffer_Resize sizeof_CHAR (m_Buff s) cbNeeded False w of
               (False, b, w1) \<Rightarrow> Some (E_OUTOFMEMORY, s\<lparr>m_Buff := b\<rparr>, w1)
             | (True, b, w1) \<Rightarrow> do {
                 src \<leftarrow> mem_read 0 cchAppendW p;
                 m1 \<leftarrow> mem_write cbOffset (map ucast src) (m_pBuffer b);
                 let cch = dword (cchAppendW + cbOffset);
                 m2 \<leftarrow> mem_put cch 0 m1;
                 Some (S_OK, \<lparr>m_Buff = b\<lparr>m_pBuffer := m2\<rparr>, m_cchLen = cch\<rparr>, w1) }))"

definition STRA_CopyWTruncate_len ::
  "STRA \<Rightarrow> WCHAR list \<Rightarrow> nat \<Rightarrow> world \<Rightarrow> (HRESULT \<times> STRA \<times> world) option" where
  "STRA_CopyWTruncate_len s p cchLen w = STRA_AuxAppendWTruncate s (Some p) (dword cchLen) 0 w"

definition STRA_CopyWTruncate_psz ::
  "STRA \<Rightarrow> WCHAR list \<Rightarrow> world \<Rightarrow> (HRESULT \<times> STRA \<times> world) option" where
  "STRA_CopyWTruncate_psz s p w =
     (case StringCchLength p STRSAFE_MAX_CCH of
        Inl hr \<Rightarrow> Some (hr, s, w)
      | Inr cchLen \<Rightarrow> STRA_CopyWTruncate_len s p cchLen w)"

definition STRA_AppendWTruncate_len ::
  "STRA \<Rightarrow> WCHAR list \<Rightarrow> nat \<Rightarrow> world \<Rightarrow> (HRESULT \<times> STRA \<times> world) option" where
  "STRA_AppendWTruncate_len s p cchLen w =
     (if cchLen = 0 then Some (S_OK, s, w)
      else STRA_AuxAppendWTruncate s (Some p) (dword cchLen) (STRA_QueryCB s) w)"

definition STRA_AppendWTruncate_psz ::
  "STRA \<Rightarrow> WCHAR list \<Rightarrow> world \<Rightarrow> (HRESULT \<times> STRA \<times> world) option" where
  "STRA_AppendWTruncate_psz s p w =
     (case StringCchLength p STRSAFE_MAX_CCH of
        Inl hr \<Rightarrow> Some (hr, s, w)
      | Inr cchLen \<Rightarrow> STRA_AppendWTruncate_len s p cchLen w)"

section \<open>Formatted output\<close>

definition STRA_SafeVsnprintf :: "STRA \<Rightarrow> CHAR_t list \<Rightarrow> world \<Rightarrow> (HRESULT \<times> STRA \<times> world) option" where
  "STRA_SafeVsnprintf = str_SafeVsnprintf sizeof_CHAR STRA_Resize"

definition STRA_SafeSnprintf :: "STRA \<Rightarrow> CHAR_t list \<Rightarrow> world \<Rightarrow> (HRESULT \<times> STRA \<times> world) option" where
  "STRA_SafeSnprintf s rendered w = STRA_SafeVsnprintf s rendered w"

text \<open>AppendToString(ULONGLONG): the decimal digits never exceed the 31 characters on offer.\<close>

fun decimal_digits :: "nat \<Rightarrow> CHAR_t list" where
  "decimal_digits n =
     (if n < 10 then [of_nat (48 + n)] else decimal_digits (n div 10) @ [of_nat (48 + n mod 10)])"

declare decimal_digits.simps [simp del]

definition AppendToString :: "nat \<Rightarrow> STRA \<Rightarrow> world \<Rightarrow> (HRESULT \<times> STRA \<times> world) option" where
  "AppendToString Number String w =
     (let digits = decimal_digits (qword Number) in
      if length digits + 1 > 31 then Some (E_INVALIDARG, String, w)
      else STRA_Append_psz String (digits @ replicate (32 - length digits) 0) w)"

end
