(* ===== verification/StraFacts.thy ===== *)
theory StraFacts
  imports Stra
begin

text \<open>
  What the operations of STRA guarantee: every copy and append, from bytes or from truncated wide
  characters, meets the contract \<open>delivers\<close>; comparison and prefix tests decide equality
  of texts; formatted output yields the rendered text or an empty string.
\<close>

section \<open>The text operations meet the contract\<close>

lemma STRA_Copy_len_delivers:
  assumes "str_ok sizeof_CHAR s" "n \<le> length p" "n \<le> MAXDWORD"
  shows "delivers sizeof_CHAR s (take n p) w (STRA_Copy_len s p n w)"
  using str_AuxAppend_delivers [OF assms(1), of 0 n p w] assms
  by (simp add: STRA_Copy_len_def STRA_AuxAppend_def width_simps MAXDWORD_def)

lemma STRA_Append_len_delivers:
  assumes "str_ok sizeof_CHAR s" "n \<le> length p" "n \<le> MAXDWORD"
  shows "delivers sizeof_CHAR s (str_text s @ take n p) w (STRA_Append_len s p n w)"
proof (cases "n = 0")
  case True
  then show ?thesis using delivers_keep [OF assms(1)] by (simp add: STRA_Append_len_def)
next
  case False
  have "m_cchLen s \<le> MAXDWORD" using str_ok_bytes [OF assms(1)] by simp
  then have "(m_cchLen s + n + 1) * sizeof_CHAR < 18446744073709551616"
    using assms(3) by (simp add: MAXDWORD_def)
  from str_AuxAppend_delivers [OF assms(1) order.refl assms(2) this, of w] show ?thesis
    using False assms(3) length_str_text [OF assms(1)]
    by (simp add: STRA_Append_len_def STRA_AuxAppend_def STRA_QueryCB_def QueryCB_ok [OF assms(1), simplified]
        dword_id)
qed

lemma STRA_Copy_psz_delivers:
  assumes "str_ok sizeof_CHAR s" "strlen p < STRSAFE_MAX_CCH"
  shows "delivers sizeof_CHAR s (cstr p) w (STRA_Copy_psz s p w)"
proof -
  have "StringCchLength p STRSAFE_MAX_CCH = Inr (strlen p)" using assms(2) by (simp add: StringCchLength_Inr)
  moreover have "strlen p \<le> MAXDWORD" using assms(2) by (simp add: STRSAFE_MAX_CCH_def MAXDWORD_def)
  ultimately show ?thesis
    using STRA_Copy_len_delivers [OF assms(1) strlen_le [of p], of w]
    by (simp add: STRA_Copy_psz_def cstr_take [of p])
qed

lemma STRA_Append_psz_delivers:
  assumes "str_ok sizeof_CHAR s" "strlen p < STRSAFE_MAX_CCH"
  shows "delivers sizeof_CHAR s (str_text s @ cstr p) w (STRA_Append_psz s p w)"
proof -
  have "StringCchLength p STRSAFE_MAX_CCH = Inr (strlen p)" using assms(2) by (simp add: StringCchLength_Inr)
  moreover have "strlen p \<le> MAXDWORD" using assms(2) by (simp add: STRSAFE_MAX_CCH_def MAXDWORD_def)
  ultimately show ?thesis
    using STRA_Append_len_delivers [OF assms(1) strlen_le [of p], of w]
    by (simp add: STRA_Append_psz_def cstr_take [of p])
qed

lemma STRA_Copy_ref_delivers:
  assumes "str_ok sizeof_CHAR s" "str_ok sizeof_CHAR r"
  shows "delivers sizeof_CHAR s (str_text r) w (STRA_Copy_ref s r w)"
    and "STRA_Copy_ptr s r w = STRA_Copy_ref s r w"
proof -
  have "m_cchLen r \<le> length (QueryStr r)" "m_cchLen r \<le> MAXDWORD"
    using str_okD(3) [OF assms(2)] str_ok_bytes [OF assms(2)] by auto
  from STRA_Copy_len_delivers [OF assms(1) this, of w]
  show "delivers sizeof_CHAR s (str_text r) w (STRA_Copy_ref s r w)"
    by (simp add: STRA_Copy_ref_def QueryCCH_def str_text_def)
qed (simp add: STRA_Copy_ref_def STRA_Copy_ptr_def)

lemma STRA_Append_ref_delivers:
  assumes "str_ok sizeof_CHAR s" "str_ok sizeof_CHAR r"
  shows "delivers sizeof_CHAR s (str_text s @ str_text r) w (STRA_Append_ref s r w)"
    and "STRA_Append_ptr s r w = STRA_Append_ref s r w"
proof -
  have "m_cchLen r \<le> length (QueryStr r)" "m_cchLen r \<le> MAXDWORD"
    using str_okD(3) [OF assms(2)] str_ok_bytes [OF assms(2)] by auto
  from STRA_Append_len_delivers [OF assms(1) this, of w]
  show "delivers sizeof_CHAR s (str_text s @ str_text r) w (STRA_Append_ref s r w)"
    by (simp add: STRA_Append_ref_def QueryCCH_def str_text_def)
qed (simp add: STRA_Append_ref_def STRA_Append_ptr_def)

text \<open>The truncating copy is the byte copy of the low bytes, except that it always goes through
  Resize, which returns at once when the buffer is large enough.\<close>

lemma STRA_AuxAppendWTruncate_as_bytes:
  assumes "n \<le> length p" "n \<le> MAXDWORD" "off \<le> MAXDWORD"
  shows "STRA_AuxAppendWTruncate s (Some p) n off w = STRA_AuxAppend s (map ucast p) n off w"
proof -
  have r: "mem_read 0 n p = Some (take n p)" "mem_read 0 n (map ucast p) = Some (map ucast (take n p))"
    using assms(1) by (auto simp: mem_simps take_map)
  have c: "dword (n + off) = dword (dword n + off)" using assms(2) by (simp add: dword_id)
  have e: "(if buffer_QuerySize (m_Buff s) < k then buffer_Resize 1 (m_Buff s) k False w
      else (True, m_Buff s, w)) = buffer_Resize 1 (m_Buff s) k False w" for k
    by (simp add: buffer_Resize_def buffer_QuerySize_def)
  show ?thesis
    unfolding STRA_AuxAppendWTruncate_def STRA_AuxAppend_def str_AuxAppend_def Let_def e div_by_1 c
    by (simp add: r split: prod.split bool.split)
qed

lemma STRA_CopyWTruncate_psz_delivers:
  assumes "str_ok sizeof_CHAR s" "strlen p < STRSAFE_MAX_CCH"
  shows "delivers sizeof_CHAR s (map ucast (cstr p)) w (STRA_CopyWTruncate_psz s p w)"
proof -
  have l: "StringCchLength p STRSAFE_MAX_CCH = Inr (strlen p)" using assms(2) by (simp add: StringCchLength_Inr)
  have m: "strlen p \<le> MAXDWORD" using assms(2) by (simp add: STRSAFE_MAX_CCH_def MAXDWORD_def)
  have "STRA_CopyWTruncate_psz s p w = STRA_Copy_len s (map ucast p) (strlen p) w"
    using STRA_AuxAppendWTruncate_as_bytes [OF strlen_le m, of 0]
    by (simp add: STRA_CopyWTruncate_psz_def l STRA_CopyWTruncate_len_def STRA_Copy_len_def dword_id m)
  then show ?thesis
    using STRA_Copy_len_delivers [OF assms(1) _ m, of "map ucast p" w] strlen_le [of p]
    by (simp add: cstr_take [of p] take_map)
qed

lemma STRA_AppendWTruncate_psz_delivers:
  assumes "str_ok sizeof_CHAR s" "strlen p < STRSAFE_MAX_CCH"
  shows "delivers sizeof_CHAR s (str_text s @ map ucast (cstr p)) w (STRA_AppendWTruncate_psz s p w)"
proof -
  have l: "StringCchLength p STRSAFE_MAX_CCH = Inr (strlen p)" using assms(2) by (simp add: StringCchLength_Inr)
  have m: "strlen p \<le> MAXDWORD" using assms(2) by (simp add: STRSAFE_MAX_CCH_def MAXDWORD_def)
  have q: "STRA_QueryCB s \<le> MAXDWORD" by (simp add: STRA_QueryCB_def QueryCB_def)
  have "STRA_AppendWTruncate_psz s p w = STRA_Append_len s (map ucast p) (strlen p) w"
    using STRA_AuxAppendWTruncate_as_bytes [OF strlen_le m q]
    by (simp add: STRA_AppendWTruncate_psz_def l STRA_AppendWTruncate_len_def STRA_Append_len_def dword_id m)
  then show ?thesis
    using STRA_Append_len_delivers [OF assms(1) _ m, of "map ucast p" w] strlen_le [of p]
    by (simp add: cstr_take [of p] take_map)
qed

section \<open>Formatted output\<close>

interpretation stra_fmt: resizable sizeof_CHAR STRA_Resize
proof unfold_locales
  fix s s' :: STRA and n w w' hr
  assume ok: "buffer_ok sizeof_CHAR (m_Buff s)" and n: "n \<le> 65537"
    and r: "STRA_Resize s n w = (S_OK, s', w')"
  obtain k b w1 where R: "buffer_Resize sizeof_CHAR (m_Buff s) n False w = (k, b, w1)" by (metis prod_cases3)
  with r have k: "k" and s': "s' = s\<lparr>m_Buff := b\<rparr>"
    by (auto simp: STRA_Resize_def split: if_splits)
  have "m_cbBuffer b \<le> max (m_cbBuffer (m_Buff s)) n"
    using R k dword_le_self by (auto simp: buffer_Resize_def split: if_splits prod.splits option.splits)
  then show "buffer_ok sizeof_CHAR (m_Buff s') \<and> n \<le> QuerySizeCCH sizeof_CHAR s' \<and>
      QuerySizeCCH sizeof_CHAR s' \<le> max (QuerySizeCCH sizeof_CHAR s) n"
    using buffer_Resize_grows [OF ok R [unfolded eqTrueI [OF k]]] s'
    by (simp add: QuerySizeCCH_def buffer_QuerySize_def)
next
  fix s s' :: STRA and n w w' hr
  assume "STRA_Resize s n w = (hr, s', w')" "hr \<noteq> S_OK"
  then show "FAILED hr \<and> s' = s"
    using buffer_Resize_fails [of sizeof_CHAR "m_Buff s" n False w]
    by (auto simp: STRA_Resize_def split: if_splits prod.splits)
qed

section \<open>Comparison decides equality of the texts\<close>

lemma plain_views:
  assumes "str_ok sz s" "str_plain s"
  shows "cstr (QueryStr s) = str_text s" "strlen (QueryStr s) = m_cchLen s"
  using cstr_plain [OF assms] length_str_text [OF assms(1)] by (simp_all add: strlen_def)

lemma STRA_Equals_ref_correct:
  assumes "str_ok sizeof_CHAR s" "str_plain s" "str_ok sizeof_CHAR r" "str_plain r"
  shows "STRA_Equals_ref s r ic \<longleftrightarrow>
    (if ic then map tolower (str_text s) = map tolower (str_text r) else str_text s = str_text r)"
  using plain_views(1) [OF assms(1,2)] plain_views(1) [OF assms(3,4)]
  by (simp add: STRA_Equals_ref_def STRA_Equals_psz_def strcmp_eq_def stricmp_eq_def)

lemma STRA_StartsWith_psz_correct:
  assumes "str_ok sizeof_CHAR s" "str_plain s" "strlen p < STRSAFE_MAX_CCH"
  shows "STRA_StartsWith_psz s (Some p) ic \<longleftrightarrow>
    (if ic then \<exists>rest. map tolower (str_text s) = map tolower (cstr p) @ rest
     else \<exists>rest. str_text s = cstr p @ rest)"
proof -
  have l: "StringCchLength p STRSAFE_MAX_CCH = Inr (strlen p)" using assms(3) by (simp add: StringCchLength_Inr)
  have e: "(\<exists>rest. xs = ys @ rest) \<longleftrightarrow> length ys \<le> length xs \<and> take (length ys) xs = ys"
    for xs ys :: "CHAR_t list"
    by (metis append_eq_conv_conj append_take_drop_id length_append le_add1)
  show ?thesis
    using plain_views(1) [OF assms(1,2)] length_str_text [OF assms(1)]
    by (auto simp: STRA_StartsWith_psz_def l strncmp_eq_def strnicmp_eq_def e strlen_def take_map)
qed

lemma STRA_EndsWith_psz_correct:
  assumes "str_ok sizeof_CHAR s" "str_plain s" "strlen p < STRSAFE_MAX_CCH"
  shows "STRA_EndsWith_psz s (Some p) ic \<longleftrightarrow>
    (if ic then \<exists>front. map tolower (str_text s) = front @ map tolower (cstr p)
     else \<exists>front. str_text s = front @ cstr p)"
proof -
  have l: "StringCchLength p STRSAFE_MAX_CCH = Inr (strlen p)" using assms(3) by (simp add: StringCchLength_Inr)
  have e: "(\<exists>front. xs = front @ ys) \<longleftrightarrow> length ys \<le> length xs \<and> drop (length xs - length ys) xs = ys"
    for xs ys :: "CHAR_t list"
    by (metis append_eq_conv_conj append_take_drop_id diff_diff_cancel length_append length_drop le_add2 add_diff_cancel_right')
  have t: "take (strlen p) (drop (m_cchLen s - strlen p) (str_text s)) = drop (m_cchLen s - strlen p) (str_text s)"
    if "strlen p \<le> m_cchLen s" using that length_str_text [OF assms(1)] by simp
  show ?thesis
    using drop_str_text [OF assms(1,2), of "m_cchLen s - strlen p"] length_str_text [OF assms(1)] t
    by (auto simp: STRA_EndsWith_psz_def l strncmp_eq_def strnicmp_eq_def e strlen_def drop_map)
qed

section \<open>AppendToString\<close>

lemma decimal_digits_nonzero: "c \<in> set (decimal_digits n) \<Longrightarrow> c \<noteq> 0"
proof (induction n rule: decimal_digits.induct)
  case (1 n)
  have d: "(of_nat (48 + k) :: CHAR_t) \<noteq> 0" if "k < 10" for k
  proof -
    have "unat (of_nat (48 + k) :: CHAR_t) = (48 + k) mod 256" by (simp only: unat_of_nat) simp
    then have "unat (of_nat (48 + k) :: CHAR_t) \<noteq> 0" using that by simp
    then show ?thesis by force
  qed
  show ?case using 1 d [of n] d [of "n mod 10"]
    by (subst (asm) decimal_digits.simps) (auto split: if_splits)
qed

lemma length_decimal_digits: "n < 10 ^ Suc k \<Longrightarrow> length (decimal_digits n) \<le> Suc k"
proof (induction k arbitrary: n)
  case 0
  then show ?case by (subst decimal_digits.simps) simp
next
  case (Suc k)
  have "n div 10 < 10 ^ Suc k" using Suc.prems by (simp add: less_mult_imp_div_less mult.commute)
  from Suc.IH [OF this] show ?case by (subst decimal_digits.simps) auto
qed

lemma AppendToString_delivers:
  assumes "str_ok sizeof_CHAR s"
  shows "delivers sizeof_CHAR s (str_text s @ decimal_digits (qword n)) w (AppendToString n s w)"
proof -
  let ?d = "decimal_digits (qword n)"
  have "length ?d \<le> Suc 19" by (rule length_decimal_digits) (simp add: qword_def)
  moreover have z: "0 \<notin> set ?d" using decimal_digits_nonzero by blast
  moreover have "?d @ replicate (32 - length ?d) 0 = ?d @ 0 # replicate (31 - length ?d) 0"
    using \<open>length ?d \<le> Suc 19\<close> by (simp flip: replicate_Suc add: Suc_diff_le)
  ultimately show ?thesis
    using STRA_Append_psz_delivers [OF assms, of "?d @ replicate (32 - length ?d) 0" w]
    by (simp add: AppendToString_def Let_def cstr_append_nul strlen_append_nul STRSAFE_MAX_CCH_def)
qed

end
