(* ===== verification/CodePage.thy ===== *)
theory CodePage
  imports Win32
begin

text \<open>
  WideCharToMultiByte and MultiByteToWideChar. The mapping between characters and bytes belongs to
  the system and is a parameter: \<open>wc_convert cp flags src cch\<close> is the result of converting
  \<open>cch\<close> characters (the zero-terminated string when \<open>cch\<close> is negative) at \<open>src\<close>,
  an error code or the bytes. What these functions do with the destination is written out: a size
  of zero asks for the length, a destination that is too small is an error
  (ERROR_INSUFFICIENT_BUFFER), and after any failure the part of the destination that was on offer
  holds unspecified characters (\<open>wc_spill\<close>).
\<close>

record converter =
  wc_convert :: "nat \<Rightarrow> nat \<Rightarrow> WCHAR list \<Rightarrow> int \<Rightarrow> nat + CHAR_t list"
  wc_spill :: "WCHAR list \<Rightarrow> CHAR_t list"
  mb_convert :: "nat \<Rightarrow> nat \<Rightarrow> CHAR_t list \<Rightarrow> int \<Rightarrow> nat + WCHAR list"
  mb_spill :: "CHAR_t list \<Rightarrow> WCHAR list"

definition CP_ACP :: nat where "CP_ACP = 0"
definition CP_UTF8 :: nat where "CP_UTF8 = 65001"
definition WC_NO_BEST_FIT_CHARS :: nat where "WC_NO_BEST_FIT_CHARS = 1024"
definition WC_ERR_INVALID_CHARS :: nat where "WC_ERR_INVALID_CHARS = 128"
definition MB_ERR_INVALID_CHARS :: nat where "MB_ERR_INVALID_CHARS = 8"

lemmas code_pages = CP_ACP_def CP_UTF8_def WC_NO_BEST_FIT_CHARS_def WC_ERR_INVALID_CHARS_def
  MB_ERR_INVALID_CHARS_def

text \<open>Store a conversion result at an offset of the destination, of which \<open>avail\<close> characters
  are on offer; the result is the count returned, the destination and the last error.\<close>

definition store_conversion ::
  "nat + 'd list \<Rightarrow> 'd list \<Rightarrow> 'd list \<Rightarrow> nat \<Rightarrow> int \<Rightarrow> world \<Rightarrow> (nat \<times> 'd list \<times> world) option" where
  "store_conversion r spill dst off avail w =
     (if avail < 0 then Some (0, dst, SetLastError ERROR_INVALID_PARAMETER w)
      else (case r of
              Inl e \<Rightarrow>
                map_option (\<lambda>m. (0, m, SetLastError e w)) (mem_write off (take (nat avail) spill) dst)
            | Inr out \<Rightarrow>
                if avail = 0 then Some (length out, dst, w)
                else if int (length out) \<le> avail
                then map_option (\<lambda>m. (length out, m, w)) (mem_write off out dst)
                else map_option (\<lambda>m. (0, m, SetLastError ERROR_INSUFFICIENT_BUFFER w))
                       (mem_write off (take (nat avail) spill) dst)))"

definition WideCharToMultiByte ::
  "converter \<Rightarrow> nat \<Rightarrow> nat \<Rightarrow> WCHAR list \<Rightarrow> int \<Rightarrow> CHAR_t list \<Rightarrow> nat \<Rightarrow> int \<Rightarrow> world \<Rightarrow>
     (nat \<times> CHAR_t list \<times> world) option" where
  "WideCharToMultiByte cv cp flags src cch dst off avail w =
     (if cch \<ge> 0 \<and> length src < nat cch then None
      else store_conversion
             (if cch = 0 then Inl ERROR_INVALID_PARAMETER else wc_convert cv cp flags src cch)
             (wc_spill cv src) dst off avail w)"

definition MultiByteToWideChar ::
  "converter \<Rightarrow> nat \<Rightarrow> nat \<Rightarrow> CHAR_t list \<Rightarrow> int \<Rightarrow> WCHAR list \<Rightarrow> nat \<Rightarrow> int \<Rightarrow> world \<Rightarrow>
     (nat \<times> WCHAR list \<times> world) option" where
  "MultiByteToWideChar cv cp flags src cb dst off avail w =
     (if cb \<ge> 0 \<and> length src < nat cb then None
      else store_conversion
             (if cb = 0 then Inl ERROR_INVALID_PARAMETER else mb_convert cv cp flags src cb)
             (mb_spill cv src) dst off avail w)"

text \<open>A successful conversion of a non-empty string is not empty, and failures carry an error code
  other than the one for a short destination. This is the documented behaviour the sources rely
  on.\<close>

definition converter_ok :: "converter \<Rightarrow> bool" where
  "converter_ok cv \<longleftrightarrow>
     (\<forall>cp fl src n. case wc_convert cv cp fl src n of
        Inl e \<Rightarrow> 0 < e \<and> e < 2147483648 \<and> e \<noteq> ERROR_INSUFFICIENT_BUFFER | Inr out \<Rightarrow> out \<noteq> []) \<and>
     (\<forall>cp fl src n. case mb_convert cv cp fl src n of
        Inl e \<Rightarrow> 0 < e \<and> e < 2147483648 \<and> e \<noteq> ERROR_INSUFFICIENT_BUFFER | Inr out \<Rightarrow> out \<noteq> [])"

text \<open>A concrete converter for evaluation: ISO 8859-1, with a question mark for what it lacks.\<close>

definition latin1 :: converter where
  "latin1 = \<lparr>
     wc_convert = (\<lambda>cp fl src n.
        if n \<le> 0 \<or> src = [] then Inl ERROR_INVALID_PARAMETER
        else Inr (map (\<lambda>c. if c < 256 then ucast c else 63) (take (nat n) src))),
     wc_spill = (\<lambda>src. []),
     mb_convert = (\<lambda>cp fl src n.
        if n \<le> 0 \<or> src = [] then Inl ERROR_INVALID_PARAMETER else Inr (map ucast (take (nat n) src))),
     mb_spill = (\<lambda>src. [])\<rparr>"

lemma latin1_ok: "converter_ok latin1"
  by (auto simp: converter_ok_def latin1_def error_codes)

lemma store_conversion_Some:
  assumes "off + nat avail \<le> length dst"
  shows "\<exists>n m w'. store_conversion r spill dst off avail w = Some (n, m, w') \<and> length m = length dst \<and>
    take off m = take off dst \<and> heap_live w' = heap_live w \<and> (generous w \<longrightarrow> generous w') \<and>
    (0 < avail \<longrightarrow> n \<le> nat avail \<and> (n \<noteq> 0 \<longrightarrow> r = Inr (take n (drop off m))))"
proof -
  have "length (take (nat avail) spill) \<le> nat avail" by simp
  then show ?thesis
    using assms by (auto simp: store_conversion_def mem_simps generous_def split: sum.splits)
qed

lemma WideCharToMultiByte_Some:
  assumes "off + nat avail \<le> length dst" "nat cch \<le> length src"
  shows "\<exists>n m w'. WideCharToMultiByte cv cp fl src cch dst off avail w = Some (n, m, w') \<and>
    length m = length dst \<and> take off m = take off dst \<and> heap_live w' = heap_live w \<and>
    (generous w \<longrightarrow> generous w') \<and>
    (0 < avail \<longrightarrow> n \<le> nat avail \<and> (n \<noteq> 0 \<longrightarrow> wc_convert cv cp fl src cch = Inr (take n (drop off m))))"
  using store_conversion_Some [OF assms(1), of
      "if cch = 0 then Inl ERROR_INVALID_PARAMETER else wc_convert cv cp fl src cch" "wc_spill cv src" w]
    assms(2)
  by (auto simp: WideCharToMultiByte_def split: if_splits)

end
