(* ===== verification/StraConv.thy ===== *)
theory StraConv
  imports StraFacts CodePage
begin

text \<open>
  Copying wide text into a STRA through a code page: AuxAppendW and its callers (CopyW, AppendW),
  and the direct conversions into the buffer behind CopyWToUTF8Unescaped.
\<close>

section \<open>AuxAppendW\<close>

text \<open>The common exit: record the new length after a success, and terminate in any case.\<close>

definition AuxAppendW_Finished ::
  "STRA \<Rightarrow> HRESULT \<Rightarrow> nat \<Rightarrow> nat \<Rightarrow> world \<Rightarrow> (HRESULT \<times> STRA \<times> world) option" where
  "AuxAppendW_Finished s hr cbRet cbOffset w =
     (let len = (if SUCCEEDED hr \<and> cbRet \<noteq> 0 then dword (cbRet + cbOffset) else m_cchLen s) in do {
        m \<leftarrow> mem_put len 0 (QueryStr s);
        Some (hr, (str_with s m)\<lparr>m_cchLen := len\<rparr>, w) })"

text \<open>The second attempt, after the destination turned out too small: ask for the size, grow, and
  convert again.\<close>

definition AuxAppendW_Retry ::
  "converter \<Rightarrow> STRA \<Rightarrow> WCHAR list \<Rightarrow> nat \<Rightarrow> nat \<Rightarrow> nat \<Rightarrow> nat \<Rightarrow> world \<Rightarrow>
     (HRESULT \<times> STRA \<times> world) option" where
  "AuxAppendW_Retry cv s pszAppendW cchAppendW cbOffset CodePage dwFlags w = do {
     (cbRet, _, w1) \<leftarrow> WideCharToMultiByte cv CodePage dwFlags pszAppendW
       (long_of_dword cchAppendW) [] 0 0 w;
     if cbRet = 0
     then AuxAppendW_Finished s (HRESULT_FROM_WIN32 (GetLastError w1)) 0 cbOffset w1
     else
       (case buffer_Resize sizeof_CHAR (m_Buff s) (dword (cbOffset + cbRet + 1)) False w1 of
          (False, b, w2) \<Rightarrow> AuxAppendW_Finished (s\<lparr>m_Buff := b\<rparr>) E_OUTOFMEMORY cbRet cbOffset w2
        | (True, b, w2) \<Rightarrow> do {
            (cbRet, m, w3) \<leftarrow> WideCharToMultiByte cv CodePage dwFlags pszAppendW
              (long_of_dword cchAppendW) (m_pBuffer b) cbOffset
              (long_of_dword (dword_sub (buffer_QuerySize b) cbOffset)) w2;
            AuxAppendW_Finished (s\<lparr>m_Buff := b\<lparr>m_pBuffer := m\<rparr>\<rparr>)
              (if cbRet = 0 then HRESULT_FROM_WIN32 (GetLastError w3) else S_OK)
              cbRet cbOffset w3 }) }"

definition STRA_AuxAppendW ::
  "converter \<Rightarrow> STRA \<Rightarrow> WCHAR list \<Rightarrow> nat \<Rightarrow> nat \<Rightarrow> nat \<Rightarrow> nat \<Rightarrow> world \<Rightarrow>
     (HRESULT \<times> STRA \<times> world) option" where
  "STRA_AuxAppendW cv s pszAppendW cchAppendW cbOffset CodePage dwFlags w =
     (if cchAppendW = 0 then AuxAppendW_Finished s S_OK 0 cbOffset w
      else
        (case buffer_Resize sizeof_CHAR (m_Buff s) (dword (cbOffset + cchAppendW) + sizeof_CHAR) False w of
           (False, b, w1) \<Rightarrow> AuxAppendW_Finished (s\<lparr>m_Buff := b\<rparr>) E_OUTOFMEMORY 0 cbOffset w1
         | (True, b, w1) \<Rightarrow> do {
             (cbRet, m, w2) \<leftarrow> WideCharToMultiByte cv CodePage dwFlags pszAppendW (long_of_dword cchAppendW)
               (m_pBuffer b) cbOffset (long_of_dword (dword_sub (buffer_QuerySize b) cbOffset)) w1;
             let s2 = s\<lparr>m_Buff := b\<lparr>m_pBuffer := m\<rparr>\<rparr>;
             if cbRet \<noteq> 0 then
               (case buffer_Resize sizeof_CHAR (m_Buff s2) (dword (cbOffset + cbRet + 1)) False w2 of
                  (ok, b3, w3) \<Rightarrow>
                    AuxAppendW_Finished (s2\<lparr>m_Buff := b3\<rparr>) (if ok then S_OK else E_OUTOFMEMORY) cbRet cbOffset w3)
             else
               let hr = HRESULT_FROM_WIN32 (GetLastError w2) in
               if hr \<noteq> HRESULT_FROM_WIN32 ERROR_INSUFFICIENT_BUFFER
               then AuxAppendW_Finished s2 hr 0 cbOffset w2
               else AuxAppendW_Retry cv s2 pszAppendW cchAppendW cbOffset CodePage dwFlags w2 }))"

text \<open>The inline overload picks the conversion flags.\<close>

definition AuxAppendW_flags :: "nat \<Rightarrow> bool \<Rightarrow> nat" where
  "AuxAppendW_flags CodePage fFailIfNoTranslation =
     (if CodePage = CP_ACP then WC_NO_BEST_FIT_CHARS
      else if fFailIfNoTranslation \<and> CodePage = CP_UTF8 then WC_ERR_INVALID_CHARS else 0)"

definition STRA_CopyW_len ::
  "converter \<Rightarrow> STRA \<Rightarrow> WCHAR list \<Rightarrow> nat \<Rightarrow> nat \<Rightarrow> bool \<Rightarrow> world \<Rightarrow> (HRESULT \<times> STRA \<times> world) option" where
  "STRA_CopyW_len cv s pszCopyW cchLen CodePage fFail w =
     STRA_AuxAppendW cv s pszCopyW (dword cchLen) 0 CodePage (AuxAppendW_flags CodePage fFail) w"

definition STRA_CopyW_psz ::
  "converter \<Rightarrow> STRA \<Rightarrow> WCHAR list \<Rightarrow> world \<Rightarrow> (HRESULT \<times> STRA \<times> world) option" where
  "STRA_CopyW_psz cv s pszCopyW w =
     (case StringCchLength pszCopyW STRSAFE_MAX_CCH of
        Inl hr \<Rightarrow> Some (hr, s, w)
      | Inr cchLen \<Rightarrow> STRA_CopyW_len cv s pszCopyW cchLen CP_UTF8 False w)"

definition STRA_AppendW_len ::
  "converter \<Rightarrow> STRA \<Rightarrow> WCHAR list \<Rightarrow> nat \<Rightarrow> nat \<Rightarrow> bool \<Rightarrow> world \<Rightarrow> (HRESULT \<times> STRA \<times> world) option" where
  "STRA_AppendW_len cv s pszAppendW cchLen CodePage fFail w =
     (if cchLen = 0 then Some (S_OK, s, w)
      else STRA_AuxAppendW cv s pszAppendW (dword cchLen) (STRA_QueryCB s) CodePage
             (AuxAppendW_flags CodePage fFail) w)"

definition STRA_AppendW_psz ::
  "converter \<Rightarrow> STRA \<Rightarrow> WCHAR list \<Rightarrow> world \<Rightarrow> (HRESULT \<times> STRA \<times> world) option" where
  "STRA_AppendW_psz cv s pszAppendW w =
     (case StringCchLength pszAppendW STRSAFE_MAX_CCH of
        Inl hr \<Rightarrow> Some (hr, s, w)
      | Inr cchLen \<Rightarrow> STRA_AppendW_len cv s pszAppendW cchLen CP_UTF8 False w)"

section \<open>Direct conversion into a buffer\<close>

definition ConvertUnicodeToCodePage ::
  "converter \<Rightarrow> WCHAR list \<Rightarrow> CHAR_t buffer \<Rightarrow> nat \<Rightarrow> nat \<Rightarrow> world \<Rightarrow> (int \<times> CHAR_t buffer \<times> world) option" where
  "ConvertUnicodeToCodePage cv src b dwStringLen uCodePage w =
     (let dwFlags = (if uCodePage = CP_ACP then WC_NO_BEST_FIT_CHARS else 0);
          n = long_of_dword dwStringLen
      in do {
        (iStrLen, m, w1) \<leftarrow> WideCharToMultiByte cv uCodePage dwFlags src n (QueryPtr b) 0
          (long_of_dword (buffer_QuerySize b)) w;
        let b1 = b\<lparr>m_pBuffer := m\<rparr>;
        (iStrLen, b2, w2) \<leftarrow>
          (if iStrLen = 0 \<and> GetLastError w1 = ERROR_INSUFFICIENT_BUFFER then do {
             (iStrLen, _, w2) \<leftarrow> WideCharToMultiByte cv uCodePage dwFlags src n [] 0 0 w1;
             if iStrLen \<noteq> 0 then
               (case buffer_Resize sizeof_CHAR b1 (iStrLen + 1) False w2 of
                  (False, b2, w3) \<Rightarrow> Some (0, b2, w3)
                | (True, b2, w3) \<Rightarrow> do {
                    (iStrLen, m3, w4) \<leftarrow> WideCharToMultiByte cv uCodePage dwFlags src n (QueryPtr b2) 0
                      (long_of_dword (buffer_QuerySize b2)) w3;
                    Some (iStrLen, b2\<lparr>m_pBuffer := m3\<rparr>, w4) })
             else Some (0, b1, w2) }
           else Some (iStrLen, b1, w1));
        if iStrLen \<noteq> 0 then
          (case buffer_Resize sizeof_CHAR b2 (iStrLen + 1) False w2 of
             (True, b3, w3) \<Rightarrow> do {
               m4 \<leftarrow> mem_put iStrLen 0 (QueryPtr b3);
               Some (int iStrLen, b3\<lparr>m_pBuffer := m4\<rparr>, w3) }
           | (False, b3, w3) \<Rightarrow> Some (-1, b3, w3))
        else Some (-1, b2, w2) })"

definition ConvertUnicodeToMultiByte ::
  "converter \<Rightarrow> WCHAR list \<Rightarrow> CHAR_t buffer \<Rightarrow> nat \<Rightarrow> world \<Rightarrow> (int \<times> CHAR_t buffer \<times> world) option" where
  "ConvertUnicodeToMultiByte cv src b dwStringLen w = ConvertUnicodeToCodePage cv src b dwStringLen CP_ACP w"

definition ConvertUnicodeToUTF8 ::
  "converter \<Rightarrow> WCHAR list \<Rightarrow> CHAR_t buffer \<Rightarrow> nat \<Rightarrow> world \<Rightarrow> (int \<times> CHAR_t buffer \<times> world) option" where
  "ConvertUnicodeToUTF8 cv src b dwStringLen w = ConvertUnicodeToCodePage cv src b dwStringLen CP_UTF8 w"

definition CopyWToUTF8Unescaped_len ::
  "converter \<Rightarrow> STRA \<Rightarrow> WCHAR list \<Rightarrow> nat \<Rightarrow> world \<Rightarrow> (HRESULT \<times> STRA \<times> world) option" where
  "CopyWToUTF8Unescaped_len cv s cpchStr cch w =
     (if cch = 0 then map_option (\<lambda>s1. (S_OK, s1, w)) (STRA_Reset s)
      else do {
        (iRet, b, w1) \<leftarrow> ConvertUnicodeToUTF8 cv cpchStr (m_Buff s) cch w;
        if iRet = -1 then Some (HRESULT_FROM_WIN32 (GetLastError w1), s\<lparr>m_Buff := b\<rparr>, w1)
        else Some (S_OK, \<lparr>m_Buff = b, m_cchLen = dword (nat iRet)\<rparr>, w1) })"

definition CopyWToUTF8Unescaped_psz ::
  "converter \<Rightarrow> STRA \<Rightarrow> WCHAR list \<Rightarrow> world \<Rightarrow> (HRESULT \<times> STRA \<times> world) option" where
  "CopyWToUTF8Unescaped_psz cv s cpchStr w =
     CopyWToUTF8Unescaped_len cv s cpchStr (dword (strlen cpchStr)) w"

section \<open>Correctness of AuxAppendW\<close>

text \<open>\<open>midway off s w s2 w2\<close>: during the operation the buffer may have grown and its part behind
  the offset may hold anything, but what precedes the offset and the length are untouched.\<close>

definition midway :: "nat \<Rightarrow> STRA \<Rightarrow> world \<Rightarrow> STRA \<Rightarrow> world \<Rightarrow> bool" where
  "midway off s w s2 w2 \<longleftrightarrow>
     buffer_ok sizeof_CHAR (m_Buff s2) \<and> m_cchLen s2 = m_cchLen s \<and>
     m_cchLen s < length (QueryStr s2) \<and> take off (QueryStr s2) = take off (str_text s) \<and>
     m_cbBuffer (m_Buff s) \<le> m_cbBuffer (m_Buff s2) \<and>
     heap_live w2 - owned s2 = heap_live w - owned s \<and> (generous w \<longrightarrow> generous w2)"

lemma midway_start:
  assumes "str_ok sizeof_CHAR s" "off \<le> m_cchLen s"
  shows "midway off s w s w"
  using assms str_okD(1,3) [OF assms(1)] by (simp add: midway_def str_text_def min_absorb1)

lemma midway_resize:
  assumes m: "midway off s w s2 w2" and off: "off \<le> m_cchLen s"
    and R: "buffer_Resize sizeof_CHAR (m_Buff s2) n z w2 = (r, b, w3)"
  shows "midway off s w (s2\<lparr>m_Buff := b\<rparr>) w3"
proof (cases r)
  case True
  note R' = R [unfolded eqTrueI [OF True]]
  have ok: "buffer_ok sizeof_CHAR (m_Buff s2)" using m by (simp add: midway_def)
  have l: "off \<le> length (m_pBuffer (m_Buff s2))" using m off by (simp add: midway_def QueryStr_def QueryPtr_def)
  have g: "generous w2 \<Longrightarrow> generous w3"
    using R by (auto simp: buffer_Resize_def generous_def HeapAlloc_def HeapReAlloc_def
        split: if_splits prod.splits option.splits)
  show ?thesis
    using m g buffer_Resize_grows [OF ok R'] buf.never_shrinks [OF ok R'] buf.prefix_kept [OF ok R' l]
      buffer_Resize_live [OF R]
    by (simp add: midway_def QueryStr_def QueryPtr_def owned_def)
next
  case False
  then have b: "b = m_Buff s2" using buffer_Resize_fails [of sizeof_CHAR "m_Buff s2" n z w2 b w3] R by simp
  have g: "generous w2 \<Longrightarrow> generous w3"
    using R by (auto simp: buffer_Resize_def generous_def HeapAlloc_def HeapReAlloc_def
        split: if_splits prod.splits option.splits)
  show ?thesis using m g b buffer_Resize_live [OF R] by (simp add: midway_def owned_def)
qed

lemma midway_write:
  assumes "midway off s w (s2\<lparr>m_Buff := b\<rparr>) w2" "length m = length (m_pBuffer b)"
    "take off m = take off (m_pBuffer b)" "heap_live w3 = heap_live w2" "generous w2 \<longrightarrow> generous w3"
  shows "midway off s w (s2\<lparr>m_Buff := b\<lparr>m_pBuffer := m\<rparr>\<rparr>) w3"
  using assms by (auto simp: midway_def QueryStr_def QueryPtr_def buffer_ok_def owned_def)

text \<open>The contract: \<open>conv\<close> is what the converter makes of the input.\<close>

definition converts ::
  "nat \<Rightarrow> nat + CHAR_t list \<Rightarrow> STRA \<Rightarrow> world \<Rightarrow> (HRESULT \<times> STRA \<times> world) option \<Rightarrow> bool" where
  "converts off conv s w r =
     (case r of None \<Rightarrow> False
      | Some (hr, s', w') \<Rightarrow>
          str_ok sizeof_CHAR s' \<and> heap_live w' - owned s' = heap_live w - owned s \<and>
          (if hr = S_OK
           then \<exists>out. conv = Inr out \<and> str_text s' = take off (str_text s) @ out
           else FAILED hr \<and> m_cchLen s' = m_cchLen s \<and> take off (str_text s') = take off (str_text s)))"

lemma finished_failed:
  assumes m: "midway off s w s2 w2" and hr: "FAILED hr" and off: "off \<le> m_cchLen s"
  shows "converts off conv s w (AuxAppendW_Finished s2 hr k off w2)"
proof -
  have l: "m_cchLen s < length (QueryStr s2)" using m by (simp add: midway_def)
  have "take off (take (m_cchLen s) ((QueryStr s2)[m_cchLen s := 0])) = take off (QueryStr s2)"
    using off by (simp add: min_absorb1)
  then show ?thesis
    using m l hr off
    by (auto simp: converts_def AuxAppendW_Finished_def Let_def mem_simps SUCCEEDED_not_FAILED
        midway_def str_ok_def str_text_def buffer_ok_def QueryStr_def QueryPtr_def str_with_def owned_def)
qed

lemma finished_ok:
  assumes m: "midway off s w s2 w2" and off: "off \<le> m_cchLen s" and k: "k \<noteq> 0"
    and room: "off + k < length (QueryStr s2)" "off + k \<le> MAXDWORD"
    and out: "conv = Inr (take k (drop off (QueryStr s2)))"
  shows "converts off conv s w (AuxAppendW_Finished s2 S_OK k off w2)"
proof -
  have d: "dword (k + off) = off + k" using room(2) by (simp add: dword_id add.commute)
  have t: "take (off + k) (QueryStr s2) = take off (str_text s) @ take k (drop off (QueryStr s2))"
    using m by (simp add: midway_def take_add)
  show ?thesis
    using m k room out t
    by (auto simp: converts_def AuxAppendW_Finished_def Let_def mem_simps d
        midway_def str_ok_def str_text_def buffer_ok_def QueryStr_def QueryPtr_def str_with_def owned_def)
qed

lemma WideCharToMultiByte_error:
  assumes "converter_ok cv" "WideCharToMultiByte cv cp fl src cch dst off avail w = Some (0, m, w')" "avail \<ge> 0"
  shows "FAILED (HRESULT_FROM_WIN32 (GetLastError w'))"
proof -
  have "0 < last_error w' \<and> last_error w' < 2147483648"
  proof (cases "wc_convert cv cp fl src cch")
    case (Inl e)
    then have "0 < e \<and> e < 2147483648" using assms(1) unfolding converter_ok_def by (metis (mono_tags, lifting) sum.simps(5))
    then show ?thesis using assms(2,3) Inl
      by (auto simp: WideCharToMultiByte_def store_conversion_def error_codes split: if_splits)
  next
    case (Inr out)
    then have "out \<noteq> []" using assms(1) unfolding converter_ok_def by (metis (mono_tags, lifting) sum.simps(6))
    then show ?thesis using assms(2,3) Inr
      by (auto simp: WideCharToMultiByte_def store_conversion_def error_codes split: if_splits)
  qed
  then show ?thesis by (simp add: GetLastError_def HRESULT_FROM_WIN32_FAILED)
qed

lemma midway_convert:
  assumes m: "midway off s w (s2\<lparr>m_Buff := b\<rparr>) w2" and off: "off \<le> m_cchLen s"
    and cv: "converter_ok cv" and n: "nat cch \<le> length p"
  obtains k m w3 where
    "WideCharToMultiByte cv cp fl p cch (m_pBuffer b) off
       (long_of_dword (dword_sub (buffer_QuerySize b) off)) w2 = Some (k, m, w3)"
    "midway off s w (s2\<lparr>m_Buff := b\<lparr>m_pBuffer := m\<rparr>\<rparr>) w3"
    "k \<noteq> 0 \<Longrightarrow> wc_convert cv cp fl p cch = Inr (take k (drop off m)) \<and>
       length (take k (drop off m)) = k \<and> off + k \<le> length m"
    "k = 0 \<Longrightarrow> FAILED (HRESULT_FROM_WIN32 (GetLastError w3))"
    "m_cbBuffer b = length m"
proof -
  let ?av = "long_of_dword (dword_sub (buffer_QuerySize b) off)"
  have sz: "length (m_pBuffer b) = m_cbBuffer b" "m_cbBuffer b \<le> MAXDWORD" "off < m_cbBuffer b"
    using m off by (auto simp: midway_def buffer_ok_def QueryStr_def QueryPtr_def)
  then have d: "dword_sub (buffer_QuerySize b) off = m_cbBuffer b - off"
    by (simp add: buffer_QuerySize_def dword_sub_id)
  have av: "nat ?av \<le> m_cbBuffer b - off" "?av \<noteq> 0" "0 \<le> ?av \<longrightarrow> 0 < ?av"
    using sz by (auto simp: d long_of_dword_def MAXDWORD_def)
  have "off + nat ?av \<le> length (m_pBuffer b)" using av(1) sz by simp
  from WideCharToMultiByte_Some [OF this n, of cv cp fl w2] obtain k m w3 where
    W: "WideCharToMultiByte cv cp fl p cch (m_pBuffer b) off ?av w2 = Some (k, m, w3)"
    and c: "length m = length (m_pBuffer b)" "take off m = take off (m_pBuffer b)"
      "heap_live w3 = heap_live w2" "generous w2 \<longrightarrow> generous w3"
      "0 < ?av \<Longrightarrow> k \<le> nat ?av \<and> (k \<noteq> 0 \<longrightarrow> wc_convert cv cp fl p cch = Inr (take k (drop off m)))"
    by auto
  have mid: "midway off s w (s2\<lparr>m_Buff := b\<lparr>m_pBuffer := m\<rparr>\<rparr>) w3"
    by (rule midway_write [OF m c(1-4)])
  show thesis
  proof (cases "0 \<le> ?av")
    case True
    then have p: "0 < ?av" using av(3) by simp
    from c(5) [OF p] av(1) c(1) sz
    have "off + k \<le> length m" by linarith
    then have "length (take k (drop off m)) = k" by simp
    show thesis
    proof (rule that [OF W mid])
      show "k \<noteq> 0 \<Longrightarrow> wc_convert cv cp fl p cch = Inr (take k (drop off m)) \<and>
          length (take k (drop off m)) = k \<and> off + k \<le> length m"
        using c(5) [OF p] \<open>length (take k (drop off m)) = k\<close> \<open>off + k \<le> length m\<close> by blast
      show "k = 0 \<Longrightarrow> FAILED (HRESULT_FROM_WIN32 (GetLastError w3))"
        using WideCharToMultiByte_error [OF cv _ True] W by blast
      show "m_cbBuffer b = length m" using c(1) sz by simp
    qed
  next
    case False
    have "k = 0" "w3 = SetLastError ERROR_INVALID_PARAMETER w2"
      using W False n by (auto simp: WideCharToMultiByte_def store_conversion_def split: if_splits)
    then have "FAILED (HRESULT_FROM_WIN32 (GetLastError w3))" by (simp add: GetLastError_def)
    with \<open>k = 0\<close> c(1) sz show ?thesis by (intro that [OF W mid]) auto
  qed
qed

text \<open>A conversion that fits is finished by making room for the terminator.\<close>

lemma converted_fits:
  assumes mid: "midway off s w s2 w2" and off: "off \<le> m_cchLen s" and k: "k \<noteq> 0"
    and out: "conv = Inr (take k (drop off (QueryStr s2)))" "off + k \<le> length (QueryStr s2)" "off + k < MAXDWORD"
    and R: "buffer_Resize sizeof_CHAR (m_Buff s2) (dword (off + k + 1)) False w2 = (r, b, w3)"
  shows "converts off conv s w
    (AuxAppendW_Finished (s2\<lparr>m_Buff := b\<rparr>) (if r then S_OK else E_OUTOFMEMORY) k off w3)"
proof -
  have d: "dword (off + k + 1) = off + k + 1" using out(3) by (simp add: dword_id)
  note mid3 = midway_resize [OF mid off R]
  have ok: "buffer_ok sizeof_CHAR (m_Buff s2)" using mid by (simp add: midway_def)
  show ?thesis
  proof (cases r)
    case True
    note R' = R [unfolded eqTrueI [OF True] d]
    have room: "off + k < length (QueryStr (s2\<lparr>m_Buff := b\<rparr>))"
      using buf.room [OF ok R'] by (simp add: QueryStr_def QueryPtr_def)
    have "take (off + k) (QueryStr (s2\<lparr>m_Buff := b\<rparr>)) = take (off + k) (QueryStr s2)"
      using buf.prefix_kept [OF ok R', of "off + k"] out(2) by (simp add: QueryStr_def QueryPtr_def)
    then have "conv = Inr (take k (drop off (QueryStr (s2\<lparr>m_Buff := b\<rparr>))))"
      unfolding out(1) by (metis add.commute take_drop)
    from finished_ok [OF mid3 off k room _ this] out(3) True show ?thesis by simp
  next
    case False
    then show ?thesis using finished_failed [OF mid3 FAILED_codes(1) off] by simp
  qed
qed

lemma AuxAppendW_Retry_correct:
  assumes mid: "midway off s w s2 w2" and off: "off \<le> m_cchLen s" and cv: "converter_ok cv"
    and n: "n \<le> length p" "n < 2147483648"
    and fits: "\<And>out. wc_convert cv cp fl p (int n) = Inr out \<Longrightarrow> off + length out < MAXDWORD"
  shows "converts off (wc_convert cv cp fl p (int n)) s w (AuxAppendW_Retry cv s2 p n off cp fl w2)"
proof -
  let ?conv = "wc_convert cv cp fl p (int n)"
  have cch: "long_of_dword n = int n" "nat (long_of_dword n) \<le> length p"
    using n by (simp_all add: long_of_dword_def)
  have ok: "buffer_ok sizeof_CHAR (m_Buff s2)" using mid by (simp add: midway_def)
  obtain k m' w3 where W: "WideCharToMultiByte cv cp fl p (long_of_dword n) [] 0 0 w2 = Some (k, m', w3)"
    and w3: "heap_live w3 = heap_live w2" "generous w2 \<longrightarrow> generous w3"
    using WideCharToMultiByte_Some [of 0 0 "[]" "long_of_dword n" p cv cp fl w2] cch(2) by auto
  have mid3: "midway off s w s2 w3" using mid w3 by (auto simp: midway_def)
  note unf = AuxAppendW_Retry_def W bind.bind_lunit prod.case
  show ?thesis
  proof (cases "k = 0")
    case True
    then show ?thesis
      using finished_failed [OF mid3 _ off] WideCharToMultiByte_error [OF cv, of cp fl p "long_of_dword n" "[]" 0 0 w2 m' w3] W
      by (simp add: unf)
  next
    case False
    have C: "\<exists>out. ?conv = Inr out \<and> k = length out"
      using W False cch(1) by (auto simp: WideCharToMultiByte_def store_conversion_def split: if_splits sum.splits)
    then have small: "off + k < MAXDWORD" using fits by auto
    then have d: "dword (off + k + 1) = off + k + 1" by (simp add: dword_id)
    obtain r b w4 where R: "buffer_Resize sizeof_CHAR (m_Buff s2) (dword (off + k + 1)) False w3 = (r, b, w4)"
      by (metis prod_cases3)
    note mid4 = midway_resize [OF mid3 off R]
    show ?thesis
    proof (cases r)
      case r: False
      then show ?thesis
        using finished_failed [OF mid4 FAILED_codes(1) off] R False by (simp del: One_nat_def add: unf)
    next
      case r: True
      obtain k5 m5 w5 where W5: "WideCharToMultiByte cv cp fl p (long_of_dword n) (m_pBuffer b) off
          (long_of_dword (dword_sub (buffer_QuerySize b) off)) w4 = Some (k5, m5, w5)"
        and mid5: "midway off s w (s2\<lparr>m_Buff := b\<lparr>m_pBuffer := m5\<rparr>\<rparr>) w5"
        and k5: "k5 \<noteq> 0 \<Longrightarrow> ?conv = Inr (take k5 (drop off m5)) \<and> length (take k5 (drop off m5)) = k5 \<and> off + k5 \<le> length m5"
        and e5: "k5 = 0 \<Longrightarrow> FAILED (HRESULT_FROM_WIN32 (GetLastError w5))"
        and l5: "m_cbBuffer b = length m5"
        using midway_convert [OF mid4 off cv cch(2)] unfolding cch(1) by metis
      have e: "AuxAppendW_Retry cv s2 p n off cp fl w2 =
          AuxAppendW_Finished (s2\<lparr>m_Buff := b\<lparr>m_pBuffer := m5\<rparr>\<rparr>)
            (if k5 = 0 then HRESULT_FROM_WIN32 (GetLastError w5) else S_OK) k5 off w5"
        using False R r W5 by (simp del: One_nat_def add: unf)
      have "off + k + 1 \<le> m_cbBuffer b"
        using buffer_Resize_grows [OF ok R [unfolded eqTrueI [OF r] d]] by blast
      moreover have "k5 \<noteq> 0 \<Longrightarrow> k5 = k" using C k5 by auto
      ultimately show ?thesis
        unfolding e using k5 small l5 finished_failed [OF mid5 e5 off] finished_ok [OF mid5 off, of k5 ?conv]
        by (cases "k5 = 0") (simp_all add: QueryStr_def QueryPtr_def)
    qed
  qed
qed

lemma STRA_AuxAppendW_correct:
  assumes ok: "str_ok sizeof_CHAR s" and off: "off \<le> m_cchLen s" and cv: "converter_ok cv"
    and n: "0 < n" "n \<le> length p" "n < 2147483648"
    and fits: "\<And>out. wc_convert cv cp fl p (int n) = Inr out \<Longrightarrow> off + length out < MAXDWORD"
  shows "converts off (wc_convert cv cp fl p (int n)) s w (STRA_AuxAppendW cv s p n off cp fl w)"
proof -
  let ?conv = "wc_convert cv cp fl p (int n)"
  have cch: "long_of_dword n = int n" "nat (long_of_dword n) \<le> length p"
    using n by (simp_all add: long_of_dword_def)
  obtain r b w1 where R: "buffer_Resize sizeof_CHAR (m_Buff s) (dword (off + n) + sizeof_CHAR) False w = (r, b, w1)"
    by (metis prod_cases3)
  note mid1 = midway_resize [OF midway_start [OF ok off, of w] off R]
  note unf = STRA_AuxAppendW_def if_not_P [OF gr_implies_not0 [OF n(1)]] R prod.case
  show ?thesis
  proof (cases r)
    case False
    show ?thesis unfolding unf
      using finished_failed [OF mid1 FAILED_codes(1) off] False by simp
  next
    case True
    obtain k m w2 where W: "WideCharToMultiByte cv cp fl p (long_of_dword n) (m_pBuffer b) off
        (long_of_dword (dword_sub (buffer_QuerySize b) off)) w1 = Some (k, m, w2)"
      and mid2: "midway off s w (s\<lparr>m_Buff := b\<lparr>m_pBuffer := m\<rparr>\<rparr>) w2"
      and k: "k \<noteq> 0 \<Longrightarrow> ?conv = Inr (take k (drop off m)) \<and> length (take k (drop off m)) = k \<and> off + k \<le> length m"
      and e: "k = 0 \<Longrightarrow> FAILED (HRESULT_FROM_WIN32 (GetLastError w2))"
      using midway_convert [OF mid1 off cv cch(2)] unfolding cch(1) by metis
    let ?s2 = "s\<lparr>m_Buff := b\<lparr>m_pBuffer := m\<rparr>\<rparr>"
    show ?thesis
    proof (cases "k = 0")
      case False
      obtain r3 b3 w3 where R3: "buffer_Resize sizeof_CHAR (m_Buff ?s2) (dword (off + k + 1)) False w2 = (r3, b3, w3)"
        by (metis prod_cases3)
      have "off + k < MAXDWORD" using k [OF False] fits by fastforce
      with converted_fits [OF mid2 off False _ _ _ R3] k [OF False] show ?thesis
        unfolding unf using True W R3 False
        by (simp del: One_nat_def add: Let_def QueryStr_def QueryPtr_def)
    next
      case k0: True
      then show ?thesis
        unfolding unf using True W finished_failed [OF mid2 e [OF k0] off]
          AuxAppendW_Retry_correct [OF mid2 off cv n(2,3) fits]
        by (simp del: One_nat_def add: Let_def)
    qed
  qed
qed

section \<open>When AuxAppendW succeeds\<close>

text \<open>What a conversion returns, by what the converter makes of the input and the room on offer.\<close>

lemma WideCharToMultiByte_result:
  assumes "WideCharToMultiByte cv cp fl p (int n) dst off avail w = Some (k, m, w')" "0 < n" "0 \<le> avail"
  shows "wc_convert cv cp fl p (int n) = Inl e \<Longrightarrow> k = 0 \<and> GetLastError w' = e"
    and "wc_convert cv cp fl p (int n) = Inr out \<Longrightarrow> avail = 0 \<or> int (length out) \<le> avail \<Longrightarrow> k = length out"
    and "wc_convert cv cp fl p (int n) = Inr out \<Longrightarrow> 0 < avail \<Longrightarrow> avail < int (length out) \<Longrightarrow>
      k = 0 \<and> GetLastError w' = ERROR_INSUFFICIENT_BUFFER"
  using assms
  by (auto simp: WideCharToMultiByte_def store_conversion_def GetLastError_def split: if_splits sum.splits)

lemma Finished_result: "AuxAppendW_Finished s hr k off w = Some x \<Longrightarrow> fst x = hr"
  by (auto simp: AuxAppendW_Finished_def Let_def bind_eq_Some_conv)

lemma buffer_Resize_size:
  assumes "buffer_Resize sz b n z w = (True, b', w')"
  shows "m_cbBuffer b' \<le> max (m_cbBuffer b) n"
  using assms dword_le_self by (auto simp: buffer_Resize_def split: if_splits prod.splits option.splits)

definition conversion_result :: "nat + CHAR_t list \<Rightarrow> HRESULT" where
  "conversion_result conv = (case conv of Inl e \<Rightarrow> HRESULT_FROM_WIN32 e | Inr _ \<Rightarrow> S_OK)"

text \<open>The sizes below 2 GB that the calls need: they pass lengths as signed integers.\<close>

definition conversion_fits :: "nat \<Rightarrow> nat \<Rightarrow> nat + CHAR_t list \<Rightarrow> STRA \<Rightarrow> bool" where
  "conversion_fits off n conv s \<longleftrightarrow>
     m_cbBuffer (m_Buff s) < 2147483648 \<and> off + n + 1 < 2147483648 \<and>
     (case conv of Inl _ \<Rightarrow> True | Inr out \<Rightarrow> off + length out + 1 < 2147483648)"

lemma room_left:
  assumes "buffer_ok sizeof_CHAR b" "off < m_cbBuffer b" "m_cbBuffer b < 2147483648"
  shows "long_of_dword (dword_sub (buffer_QuerySize b) off) = int (m_cbBuffer b - off)"
  using assms by (simp add: buffer_ok_def buffer_QuerySize_def dword_sub_id long_of_dword_def MAXDWORD_def)

lemma AuxAppendW_Retry_result:
  assumes cv: "converter_ok cv" and n: "0 < n" "n \<le> length p" "n < 2147483648"
    and g: "generous w" and ok: "buffer_ok sizeof_CHAR (m_Buff s)" "m_cbBuffer (m_Buff s) < 2147483648"
    and fits: "\<And>out. wc_convert cv cp fl p (int n) = Inr out \<Longrightarrow> off + length out + 1 < 2147483648"
    and r: "AuxAppendW_Retry cv s p n off cp fl w = Some x"
  shows "fst x = conversion_result (wc_convert cv cp fl p (int n))"
proof -
  let ?conv = "wc_convert cv cp fl p (int n)"
  have cch: "long_of_dword n = int n" "nat (int n) \<le> length p" using n by (simp_all add: long_of_dword_def)
  obtain k m' w3 where W: "WideCharToMultiByte cv cp fl p (int n) [] 0 0 w = Some (k, m', w3)" and g3: "generous w3"
    using WideCharToMultiByte_Some [of 0 0 "[]" "int n" p cv cp fl w] cch(2) g by auto
  note res = WideCharToMultiByte_result [OF W n(1) order.refl]
  show ?thesis
  proof (cases ?conv)
    case (Inl e)
    then show ?thesis
      using r res(1) [OF Inl] W Finished_result [of s "HRESULT_FROM_WIN32 e"]
      by (auto simp: AuxAppendW_Retry_def cch(1) conversion_result_def)
  next
    case (Inr out)
    have k: "k = length out" using res(2) [OF Inr] by simp
    have k0: "k \<noteq> 0" using cv Inr unfolding k converter_ok_def by (metis (mono_tags, lifting) length_0_conv sum.simps(6))
    have d: "dword (off + k + 1) = off + k + 1" using fits [OF Inr] k by (simp add: dword_id MAXDWORD_def)
    have "off + k + 1 \<le> MAXDWORD" using fits [OF Inr] k by (simp add: MAXDWORD_def)
    from buffer_Resize_generous [OF g3 this] obtain b w4 where
      R: "buffer_Resize sizeof_CHAR (m_Buff s) (off + k + 1) False w3 = (True, b, w4)" by metis
    have B: "buffer_ok sizeof_CHAR b" "off + k + 1 \<le> m_cbBuffer b" "m_cbBuffer b < 2147483648"
      using buffer_Resize_grows [OF ok(1) R] buffer_Resize_size [OF R] ok(2) fits [OF Inr] k by auto
    have av: "long_of_dword (dword_sub (buffer_QuerySize b) off) = int (m_cbBuffer b - off)"
      using room_left [OF B(1) _ B(3)] B(2) by simp
    have "AuxAppendW_Retry cv s p n off cp fl w = do {
        (cbRet, m, w5) \<leftarrow> WideCharToMultiByte cv cp fl p (int n) (m_pBuffer b) off (int (m_cbBuffer b - off)) w4;
        AuxAppendW_Finished (s\<lparr>m_Buff := b\<lparr>m_pBuffer := m\<rparr>\<rparr>)
          (if cbRet = 0 then HRESULT_FROM_WIN32 (GetLastError w5) else S_OK) cbRet off w5 }"
      using W k0 R by (simp del: One_nat_def add: AuxAppendW_Retry_def cch(1) d av)
    with r obtain k5 m5 w5 where W5:
      "WideCharToMultiByte cv cp fl p (int n) (m_pBuffer b) off (int (m_cbBuffer b - off)) w4 = Some (k5, m5, w5)"
      "AuxAppendW_Finished (s\<lparr>m_Buff := b\<lparr>m_pBuffer := m5\<rparr>\<rparr>)
          (if k5 = 0 then HRESULT_FROM_WIN32 (GetLastError w5) else S_OK) k5 off w5 = Some x"
      by (auto simp: bind_eq_Some_conv)
    have "k5 = k" using WideCharToMultiByte_result(2) [OF W5(1) n(1) _ Inr] B(2) k by simp
    then show ?thesis using Finished_result [OF W5(2)] k0 Inr by (simp add: conversion_result_def)
  qed
qed

lemma STRA_AuxAppendW_result:
  assumes ok: "str_ok sizeof_CHAR s" and off: "off \<le> m_cchLen s" and cv: "converter_ok cv"
    and n: "0 < n" "n \<le> length p" "n < 2147483648" and g: "generous w"
    and fits: "conversion_fits off n (wc_convert cv cp fl p (int n)) s"
    and r: "STRA_AuxAppendW cv s p n off cp fl w = Some x"
  shows "fst x = conversion_result (wc_convert cv cp fl p (int n))"
proof -
  let ?conv = "wc_convert cv cp fl p (int n)"
  have cch: "long_of_dword n = int n" "nat (int n) \<le> length p" using n by (simp_all add: long_of_dword_def)
  have F: "m_cbBuffer (m_Buff s) < 2147483648" "off + n + 1 < 2147483648"
    "\<And>out. ?conv = Inr out \<Longrightarrow> off + length out + 1 < 2147483648"
    using fits by (auto simp: conversion_fits_def)
  have sb: "buffer_ok sizeof_CHAR (m_Buff s)" using str_okD(1) [OF ok] .
  have d: "dword (off + n) + 1 = off + n + 1" using F(2) by (simp add: dword_id MAXDWORD_def)
  have "off + n + 1 \<le> MAXDWORD" using F(2) by (simp add: MAXDWORD_def)
  from buffer_Resize_generous [OF g this] obtain b w1 where
    R: "buffer_Resize sizeof_CHAR (m_Buff s) (off + n + 1) False w = (True, b, w1)" and g1: "generous w1" by metis
  have B: "buffer_ok sizeof_CHAR b" "off + n + 1 \<le> m_cbBuffer b" "m_cbBuffer b < 2147483648"
    using buffer_Resize_grows [OF sb R] buffer_Resize_size [OF R] F(1,2) by auto
  have av: "long_of_dword (dword_sub (buffer_QuerySize b) off) = int (m_cbBuffer b - off)"
    using room_left [OF B(1) _ B(3)] B(2) by simp
  have "off + nat (int (m_cbBuffer b - off)) \<le> length (m_pBuffer b)" using B(1,2) by (simp add: buffer_ok_def)
  from WideCharToMultiByte_Some [OF this cch(2), of cv cp fl w1] g1 obtain k m w2 where
    W: "WideCharToMultiByte cv cp fl p (int n) (m_pBuffer b) off (int (m_cbBuffer b - off)) w1 = Some (k, m, w2)"
    and lm: "length m = length (m_pBuffer b)" and g2: "generous w2" by blast
  have pos: "0 \<le> int (m_cbBuffer b - off)" "0 < int (m_cbBuffer b - off)" using B(2) by simp_all
  note res = WideCharToMultiByte_result [OF W n(1) pos(1)]
  let ?s2 = "s\<lparr>m_Buff := b\<lparr>m_pBuffer := m\<rparr>\<rparr>"
  have b2: "buffer_ok sizeof_CHAR (m_Buff ?s2)" "m_cbBuffer (m_Buff ?s2) < 2147483648"
    using B lm by (simp_all add: buffer_ok_def)
  have E: "STRA_AuxAppendW cv s p n off cp fl w =
     (if k \<noteq> 0 then
        (case buffer_Resize sizeof_CHAR (m_Buff ?s2) (dword (off + k + 1)) False w2 of
           (ok, b3, w3) \<Rightarrow> AuxAppendW_Finished (?s2\<lparr>m_Buff := b3\<rparr>) (if ok then S_OK else E_OUTOFMEMORY) k off w3)
      else if HRESULT_FROM_WIN32 (GetLastError w2) \<noteq> HRESULT_FROM_WIN32 ERROR_INSUFFICIENT_BUFFER
      then AuxAppendW_Finished ?s2 (HRESULT_FROM_WIN32 (GetLastError w2)) 0 off w2
      else AuxAppendW_Retry cv ?s2 p n off cp fl w2)"
    using n(1) R W by (simp del: One_nat_def add: STRA_AuxAppendW_def d cch(1) av Let_def)
  have retry: "AuxAppendW_Retry cv ?s2 p n off cp fl w2 = Some x \<Longrightarrow> ?thesis"
    using AuxAppendW_Retry_result [OF cv n g2 b2 F(3)] by blast
  show ?thesis
  proof (cases ?conv)
    case (Inl e)
    then show ?thesis using r E retry res(1) [OF Inl] Finished_result [of ?s2 "HRESULT_FROM_WIN32 e" 0 off w2 x]
      by (auto simp: conversion_result_def split: if_splits)
  next
    case (Inr out)
    show ?thesis
    proof (cases "int (length out) \<le> int (m_cbBuffer b - off)")
      case False
      then have "k = 0" "GetLastError w2 = ERROR_INSUFFICIENT_BUFFER" using res(3) [OF Inr pos(2)] by auto
      then show ?thesis using r E retry by simp
    next
      case True
      then have k: "k = length out" using res(2) [OF Inr] by blast
      have k0: "k \<noteq> 0" using cv Inr unfolding k converter_ok_def by (metis (mono_tags, lifting) length_0_conv sum.simps(6))
      have "dword (off + k + 1) \<le> MAXDWORD" by simp
      from buffer_Resize_generous [OF g2 this] obtain b3 w3 where
        "buffer_Resize sizeof_CHAR (m_Buff ?s2) (dword (off + k + 1)) False w2 = (True, b3, w3)" by metis
      then show ?thesis using r E k0 Inr Finished_result by (auto simp: conversion_result_def)
    qed
  qed
qed

section \<open>Direct conversion\<close>

text \<open>What ConvertUnicodeToCodePage leaves: on success the bytes and a terminator, on failure minus
  one and an error code for the caller; the buffer's shape survives either way.\<close>

definition codepage_post ::
  "STRA \<Rightarrow> world \<Rightarrow> nat + CHAR_t list \<Rightarrow> (int \<times> CHAR_t buffer \<times> world) option \<Rightarrow> bool" where
  "codepage_post s w conv r =
     (case r of None \<Rightarrow> False
      | Some (i, b, w') \<Rightarrow>
          midway 0 s w (s\<lparr>m_Buff := b\<rparr>) w' \<and>
          (if i = -1 then FAILED (HRESULT_FROM_WIN32 (GetLastError w'))
           else \<exists>out. conv = Inr out \<and> i = int (length out) \<and> length out < length (m_pBuffer b) \<and>
             take (length out) (m_pBuffer b) = out \<and> m_pBuffer b ! length out = 0))"

lemma Resize_error: "buffer_Resize sz b n z w = (False, b', w') \<Longrightarrow> FAILED (HRESULT_FROM_WIN32 (GetLastError w'))"
  by (auto simp: buffer_Resize_def GetLastError_def split: if_splits prod.splits option.splits)

lemma codepage_last:
  assumes mid: "midway 0 s w (s\<lparr>m_Buff := b\<rparr>) w2" and k: "k \<noteq> 0"
    and out: "conv = Inr (take k (m_pBuffer b))" "k \<le> length (m_pBuffer b)"
  shows "codepage_post s w conv
    (case buffer_Resize sizeof_CHAR b (k + 1) False w2 of
       (True, b3, w3) \<Rightarrow> do {
         m4 \<leftarrow> mem_put k 0 (QueryPtr b3);
         Some (int k, b3\<lparr>m_pBuffer := m4\<rparr>, w3) }
     | (False, b3, w3) \<Rightarrow> Some (-1, b3, w3))"
proof -
  obtain r b3 w3 where R: "buffer_Resize sizeof_CHAR b (k + 1) False w2 = (r, b3, w3)" by (metis prod_cases3)
  have ok: "buffer_ok sizeof_CHAR b" using mid by (simp add: midway_def)
  have mid3: "midway 0 s w (s\<lparr>m_Buff := b3\<rparr>) w3" using midway_resize [OF mid _, of "k + 1" False r b3 w3] R by simp
  show ?thesis
  proof (cases r)
    case True
    note R' = R [unfolded eqTrueI [OF True]]
    have room: "k < length (m_pBuffer b3)" using buf.room [OF ok R'] by simp
    have t: "take k (m_pBuffer b3) = take k (m_pBuffer b)" using buf.prefix_kept [OF ok R' out(2)] .
    let ?b = "b3\<lparr>m_pBuffer := (m_pBuffer b3)[k := 0]\<rparr>"
    have "midway 0 s w (s\<lparr>m_Buff := ?b\<rparr>) w3" using mid3
      by (auto simp: midway_def QueryStr_def QueryPtr_def buffer_ok_def owned_def)
    then show ?thesis
      using R True room t k out by (simp add: codepage_post_def mem_simps QueryPtr_def min_absorb2)
  next
    case False
    then show ?thesis using R mid3 Resize_error by (auto simp: codepage_post_def)
  qed
qed

lemma ConvertUnicodeToCodePage_correct:
  assumes ok: "str_ok sizeof_CHAR s" and cv: "converter_ok cv"
    and n: "0 < n" "n \<le> length p" "n < 2147483648"
  shows "codepage_post s w
    (wc_convert cv cp (if cp = CP_ACP then WC_NO_BEST_FIT_CHARS else 0) p (int n))
    (ConvertUnicodeToCodePage cv p (m_Buff s) n cp w)"
proof -
  define fl where "fl = (if cp = CP_ACP then WC_NO_BEST_FIT_CHARS else 0)"
  let ?conv = "wc_convert cv cp fl p (int n)"
  have cch: "long_of_dword n = int n" "nat (int n) \<le> length p" using n by (simp_all add: long_of_dword_def)
  have sub0: "dword_sub (buffer_QuerySize b) 0 = buffer_QuerySize b" if "midway 0 s w (s\<lparr>m_Buff := b\<rparr>) w'" for b w'
    using that by (intro trans [OF dword_sub_id]) (auto simp: midway_def buffer_ok_def buffer_QuerySize_def)
  note mid0 = midway_start [OF ok, of 0 w, simplified]
  then have mid0: "midway 0 s w (s\<lparr>m_Buff := m_Buff s\<rparr>) w" by simp
  obtain k m w1 where W: "WideCharToMultiByte cv cp fl p (int n) (m_pBuffer (m_Buff s)) 0
        (long_of_dword (buffer_QuerySize (m_Buff s))) w = Some (k, m, w1)"
    and mid1: "midway 0 s w (s\<lparr>m_Buff := (m_Buff s)\<lparr>m_pBuffer := m\<rparr>\<rparr>) w1"
    and k: "k \<noteq> 0 \<Longrightarrow> ?conv = Inr (take k m) \<and> k \<le> length m"
    and e: "k = 0 \<Longrightarrow> FAILED (HRESULT_FROM_WIN32 (GetLastError w1))"
    using midway_convert [OF mid0 _ cv cch(2), of cp fl] unfolding sub0 [OF mid0] drop_0 add_0 by (metis le0)
  let ?b1 = "(m_Buff s)\<lparr>m_pBuffer := m\<rparr>"
  note unf = ConvertUnicodeToCodePage_def Let_def fl_def [symmetric] cch(1) QueryPtr_def W bind.bind_lunit prod.case
  show ?thesis
  proof (cases "k = 0 \<and> GetLastError w1 = ERROR_INSUFFICIENT_BUFFER")
    case False
    have "ConvertUnicodeToCodePage cv p (m_Buff s) n cp w =
        (if k \<noteq> 0 then (case buffer_Resize sizeof_CHAR ?b1 (k + 1) False w1 of
             (True, b3, w3) \<Rightarrow> do { m4 \<leftarrow> mem_put k 0 (QueryPtr b3); Some (int k, b3\<lparr>m_pBuffer := m4\<rparr>, w3) }
           | (False, b3, w3) \<Rightarrow> Some (-1, b3, w3))
         else Some (-1, ?b1, w1))"
      unfolding unf using False by (auto simp del: One_nat_def simp: QueryPtr_def)
    then show ?thesis
      using codepage_last [OF mid1, of k ?conv] k e mid1 unfolding fl_def [symmetric]
      by (cases "k = 0") (simp_all del: One_nat_def add: codepage_post_def)
  next
    case True
    obtain k2 m' w2 where W2: "WideCharToMultiByte cv cp fl p (int n) [] 0 0 w1 = Some (k2, m', w2)"
      and w2: "heap_live w2 = heap_live w1" "generous w1 \<longrightarrow> generous w2"
      using WideCharToMultiByte_Some [of 0 0 "[]" "int n" p cv cp fl w1] cch(2) by auto
    have mid2: "midway 0 s w (s\<lparr>m_Buff := ?b1\<rparr>) w2" using mid1 w2 by (auto simp: midway_def)
    obtain r b3 w3 where R: "buffer_Resize sizeof_CHAR ?b1 (k2 + 1) False w2 = (r, b3, w3)" by (metis prod_cases3)
    have mid3: "midway 0 s w (s\<lparr>m_Buff := b3\<rparr>) w3"
      using midway_resize [OF mid2 _, of "k2 + 1" False r b3 w3] R by simp
    obtain k5 m5 w5 where W5: "WideCharToMultiByte cv cp fl p (int n) (m_pBuffer b3) 0
        (long_of_dword (buffer_QuerySize b3)) w3 = Some (k5, m5, w5)"
      and mid5: "midway 0 s w (s\<lparr>m_Buff := b3\<lparr>m_pBuffer := m5\<rparr>\<rparr>) w5"
      and k5: "k5 \<noteq> 0 \<Longrightarrow> ?conv = Inr (take k5 m5) \<and> k5 \<le> length m5"
      and e5: "k5 = 0 \<Longrightarrow> FAILED (HRESULT_FROM_WIN32 (GetLastError w5))"
      using midway_convert [OF mid3 _ cv cch(2), of cp fl] unfolding sub0 [OF mid3] drop_0 add_0 by (metis le0)
    consider "k2 = 0" | "k2 \<noteq> 0" "\<not> r" | "k2 \<noteq> 0" r by blast
    then show ?thesis
    proof cases
      case 1
      then have "FAILED (HRESULT_FROM_WIN32 (GetLastError w2))"
        using WideCharToMultiByte_error [OF cv, of cp fl p "int n" "[]" 0 0 w1 m' w2] W2 by simp
      then show ?thesis unfolding unf using True W2 1 mid2
        by (simp add: codepage_post_def)
    next
      case 2
      then have "FAILED (HRESULT_FROM_WIN32 (GetLastError w3))" using Resize_error R by auto
      then show ?thesis unfolding unf using True W2 2 R mid3
        by (simp del: One_nat_def add: codepage_post_def)
    next
      case 3
      have "ConvertUnicodeToCodePage cv p (m_Buff s) n cp w =
        (if k5 \<noteq> 0 then (case buffer_Resize sizeof_CHAR (b3\<lparr>m_pBuffer := m5\<rparr>) (k5 + 1) False w5 of
             (True, b3, w3) \<Rightarrow> do { m4 \<leftarrow> mem_put k5 0 (QueryPtr b3); Some (int k5, b3\<lparr>m_pBuffer := m4\<rparr>, w3) }
           | (False, b3, w3) \<Rightarrow> Some (-1, b3, w3))
         else Some (-1, b3\<lparr>m_pBuffer := m5\<rparr>, w5))"
        unfolding unf using True W2 3 R W5 by (simp del: One_nat_def add: QueryPtr_def)
      then show ?thesis
        using codepage_last [OF mid5, of k5 ?conv] k5 e5 mid5 unfolding fl_def [symmetric]
        by (cases "k5 = 0") (simp_all del: One_nat_def add: codepage_post_def)
    qed
  qed
qed

lemma CopyWToUTF8Unescaped_correct:
  assumes ok: "str_ok sizeof_CHAR s" and cv: "converter_ok cv"
    and n: "n \<le> length p" "n < 2147483648"
  shows "\<exists>hr s' w'. CopyWToUTF8Unescaped_len cv s p n w = Some (hr, s', w') \<and>
    heap_live w' - owned s' = heap_live w - owned s \<and>
    (if hr = S_OK
     then str_ok sizeof_CHAR s' \<and>
       (if n = 0 then str_text s' = [] else wc_convert cv CP_UTF8 0 p (int n) = Inr (str_text s'))
     else FAILED hr)"
proof (cases "n = 0")
  case True
  obtain s' where R: "str_Reset s = Some s'" "str_ok sizeof_CHAR s'" "str_text s' = []"
    using str_Reset_correct [OF ok] by auto
  have "owned s' = owned s" using R(1) by (auto simp: str_Reset_def owned_def str_with_def bind_eq_Some_conv)
  with R True show ?thesis by (simp add: CopyWToUTF8Unescaped_len_def STRA_Reset_def)
next
  case False
  have cp: "(if CP_UTF8 = CP_ACP then WC_NO_BEST_FIT_CHARS else 0) = 0" by (simp add: code_pages)
  have post: "codepage_post s w (wc_convert cv CP_UTF8 0 p (int n))
      (ConvertUnicodeToUTF8 cv p (m_Buff s) n w)"
    using ConvertUnicodeToCodePage_correct [OF ok cv _ n, of w CP_UTF8] False
    unfolding cp by (simp add: ConvertUnicodeToUTF8_def)
  then obtain i b w' where C: "ConvertUnicodeToUTF8 cv p (m_Buff s) n w = Some (i, b, w')"
    by (auto simp: codepage_post_def split: option.splits)
  show ?thesis
  proof (cases "i = -1")
    case True
    then show ?thesis using post C False
      by (auto simp: CopyWToUTF8Unescaped_len_def codepage_post_def midway_def owned_def)
  next
    case i: False
    obtain out where out: "wc_convert cv CP_UTF8 0 p (int n) = Inr out" "i = int (length out)"
      "length out < length (m_pBuffer b)" "take (length out) (m_pBuffer b) = out" "m_pBuffer b ! length out = 0"
      and b: "midway 0 s w (s\<lparr>m_Buff := b\<rparr>) w'"
      using post C i by (auto simp: codepage_post_def)
    have "length out \<le> MAXDWORD" using b out(3) by (simp add: midway_def buffer_ok_def)
    then show ?thesis using C False i out b
      by (simp add: CopyWToUTF8Unescaped_len_def midway_def owned_def str_ok_def str_text_def
          QueryStr_def QueryPtr_def dword_id)
  qed
qed

end
