(* ===== verification/StraEscape.thy ===== *)
theory StraEscape
  imports StraConv "HOL-Library.Sublist"
begin

text \<open>
  URL escaping in STRA: EscapeInternal with its two predicates, and the in-place Unescape. The
  temporary string of EscapeInternal lives in a 512-byte stack buffer whose initial contents are
  the argument \<open>InlineBuffer\<close>; its destructor runs on every return.
\<close>

section \<open>Hexadecimal digits (macros.h)\<close>

definition TOHEX :: "CHAR_t \<Rightarrow> int" where
  "TOHEX ch =
     (let c = sint ch in
      if c > 57 then if c \<ge> 97 then c - 97 + 10 else c - 65 + 10 else c - 48)"

definition TODIGIT :: "nat \<Rightarrow> CHAR_t" where
  "TODIGIT nDigit = (if nDigit > 9 then of_nat (nDigit - 10 + 65) else of_nat (nDigit + 48))"

section \<open>Escape\<close>

definition FShouldEscapeUtf8 :: "BYTE \<Rightarrow> bool" where
  "FShouldEscapeUtf8 ch \<longleftrightarrow> 128 \<le> ch"

definition FShouldEscapeUrl :: "BYTE \<Rightarrow> bool" where
  "FShouldEscapeUrl ch \<longleftrightarrow>
     (128 \<le> ch \<or> ch \<le> 32 \<or> ch = 60 \<or> ch = 62 \<or> ch = 37 \<or> ch = 63 \<or> ch = 35) \<and>
     \<not> (ch = 10 \<or> ch = 13)"

text \<open>One character: the result says whether the function returned from inside the loop, and with
  what.\<close>

definition escape_begin ::
  "STRA \<Rightarrow> nat \<Rightarrow> STRA \<Rightarrow> world \<Rightarrow> (HRESULT \<times> STRA \<times> world) option" where
  "escape_begin s i straTemp w =
     (let NewSize = dword (QueryCCH s * 2) in
      if NewSize > MAXDWORD then Some (HRESULT_FROM_WIN32 ERROR_ARITHMETIC_OVERFLOW, straTemp, w)
      else
        (case STRA_Resize straTemp (dword NewSize) w of
           (hr, t1, w1) \<Rightarrow>
             if FAILED hr then Some (hr, t1, w1)
             else if i > 0 then STRA_Copy_len t1 (QueryStr s) (i * sizeof_CHAR) w1
             else Some (hr, t1, w1)))"

definition escape_append ::
  "STRA \<Rightarrow> CHAR_t \<Rightarrow> STRA \<Rightarrow> world \<Rightarrow> (HRESULT \<times> STRA \<times> world) option" where
  "escape_append s ch straTemp w =
     (let NewSize = qword (QueryCCH s + 2 * sizeof_CHAR + 1 * sizeof_CHAR) in
      if NewSize > MAXDWORD then Some (HRESULT_FROM_WIN32 ERROR_ARITHMETIC_OVERFLOW, straTemp, w)
      else
        (case buffer_Resize sizeof_CHAR (m_Buff straTemp) NewSize False w of
           (False, b, w1) \<Rightarrow> Some (HRESULT_FROM_WIN32 (GetLastError w1), straTemp\<lparr>m_Buff := b\<rparr>, w1)
         | (True, b, w1) \<Rightarrow>
             STRA_Append_len (straTemp\<lparr>m_Buff := b\<rparr>)
               [37, TODIGIT (unat ch div 16 mod 16), TODIGIT (unat ch mod 16)] 3 w1))"

text \<open>The position is a signed int: counting past 2147483647 is undefined, and \<open>None\<close> here.\<close>

definition int_incr :: "nat \<Rightarrow> nat option" where
  "int_incr i = (if i < 2147483647 then Some (Suc i) else None)"

fun escape_loop ::
  "(BYTE \<Rightarrow> bool) \<Rightarrow> STRA \<Rightarrow> CHAR_t list \<Rightarrow> nat \<Rightarrow> bool \<Rightarrow> STRA \<Rightarrow> world \<Rightarrow>
     (HRESULT \<times> bool \<times> STRA \<times> world) option" where
  "escape_loop f s [] i fEscapingDone straTemp w = None"
| "escape_loop f s (ch # pch) i fEscapingDone straTemp w =
     (if ch = 0 then Some (S_OK, fEscapingDone, straTemp, w)
      else if f ch then do {
        (hr, t1, w1) \<leftarrow> (if \<not> fEscapingDone then escape_begin s i straTemp w else Some (S_OK, straTemp, w));
        if FAILED hr then Some (hr, True, t1, w1)
        else do {
          (hr, t2, w2) \<leftarrow> escape_append s ch t1 w1;
          if FAILED hr then Some (hr, True, t2, w2)
          else do { j \<leftarrow> int_incr i; escape_loop f s pch j True t2 w2 } } }
      else if fEscapingDone then do {
        (_, t1, w1) \<leftarrow> STRA_Append_len straTemp (ch # pch) 1 w;
        j \<leftarrow> int_incr i;
        escape_loop f s pch j fEscapingDone t1 w1 }
      else do { j \<leftarrow> int_incr i; escape_loop f s pch j fEscapingDone straTemp w })"

definition EscapeInternal ::
  "(BYTE \<Rightarrow> bool) \<Rightarrow> STRA \<Rightarrow> CHAR_t list \<Rightarrow> world \<Rightarrow> (HRESULT \<times> STRA \<times> world) option" where
  "EscapeInternal f s InlineBuffer w = do {
     let straTemp = STRA_ctor_buf (InlineBuffer[0 := 0]) 512;
     (hr, fEscapingDone, t, w1) \<leftarrow> escape_loop f s (QueryStr s) 0 False straTemp w;
     (hr, s1, w2) \<leftarrow>
       (if FAILED hr then Some (hr, s, w1)
        else if fEscapingDone then STRA_Copy_ref s t w1 else Some (hr, s, w1));
     Some (hr, s1, snd (buffer_dtor (m_Buff t) w2)) }"

definition STRA_Escape :: "STRA \<Rightarrow> CHAR_t list \<Rightarrow> world \<Rightarrow> (HRESULT \<times> STRA \<times> world) option" where
  "STRA_Escape = EscapeInternal FShouldEscapeUrl"

definition STRA_EscapeUtf8 :: "STRA \<Rightarrow> CHAR_t list \<Rightarrow> world \<Rightarrow> (HRESULT \<times> STRA \<times> world) option" where
  "STRA_EscapeUtf8 = EscapeInternal FShouldEscapeUtf8"

definition CopyWToUTF8Escaped_len ::
  "converter \<Rightarrow> STRA \<Rightarrow> WCHAR list \<Rightarrow> nat \<Rightarrow> CHAR_t list \<Rightarrow> world \<Rightarrow> (HRESULT \<times> STRA \<times> world) option" where
  "CopyWToUTF8Escaped_len cv s cpchStr cch InlineBuffer w = do {
     (hr, s1, w1) \<leftarrow> CopyWToUTF8Unescaped_len cv s cpchStr cch w;
     if FAILED hr then Some (hr, s1, w1)
     else do {
       (hr, s2, w2) \<leftarrow> STRA_Escape s1 InlineBuffer w1;
       if FAILED hr then Some (hr, s2, w2) else Some (S_OK, s2, w2) } }"

definition CopyWToUTF8Escaped_psz ::
  "converter \<Rightarrow> STRA \<Rightarrow> WCHAR list \<Rightarrow> CHAR_t list \<Rightarrow> world \<Rightarrow> (HRESULT \<times> STRA \<times> world) option" where
  "CopyWToUTF8Escaped_psz cv s cpchStr InlineBuffer w =
     CopyWToUTF8Escaped_len cv s cpchStr (dword (strlen cpchStr)) InlineBuffer w"

section \<open>Unescape\<close>

text \<open>The hexadecimal tests read the buffer one character at a time and stop at the first that
  fails. \<open>None\<close> would be a read past the buffer.\<close>

fun xdigits_at :: "CHAR_t list \<Rightarrow> nat \<Rightarrow> nat \<Rightarrow> bool option" where
  "xdigits_at m k 0 = Some True"
| "xdigits_at m k (Suc n) = do {
     c \<leftarrow> mem_get k m;
     if isxdigit c then xdigits_at m (Suc k) n else Some False }"

definition is_unicode_escape :: "CHAR_t list \<Rightarrow> nat \<Rightarrow> bool option" where
  "is_unicode_escape m pScan = do {
     c \<leftarrow> mem_get (pScan + 1) m;
     if c = 117 \<or> c = 85 then xdigits_at m (pScan + 2) 4 else Some False }"

text \<open>The body up to the search for the next percent sign: new buffer, scan and destination
  positions, and fChanged.\<close>

definition unescape_char ::
  "converter \<Rightarrow> CHAR_t list \<Rightarrow> nat \<Rightarrow> nat \<Rightarrow> bool \<Rightarrow> world \<Rightarrow> (CHAR_t list \<times> nat \<times> nat \<times> bool \<times> world) option" where
  "unescape_char cv m pScan pDest fChanged w = do {
     u \<leftarrow> is_unicode_escape m pScan;
     if u then do {
       let wch = TOHEX (m ! (pScan + 2)) * 4096 + TOHEX (m ! (pScan + 3)) * 256
             + TOHEX (m ! (pScan + 4)) * 16 + TOHEX (m ! (pScan + 5));
       (dwLen, m1, w1) \<leftarrow> WideCharToMultiByte cv CP_ACP WC_NO_BEST_FIT_CHARS [of_int wch] 1 m pDest 6 w;
       Some (m1, pScan + 6, pDest + dwLen, True, w1) }
     else do {
       x \<leftarrow> xdigits_at m (pScan + 1) 2;
       if x then do {
         m1 \<leftarrow> mem_put pDest (of_int (TOHEX (m ! (pScan + 1)) * 16 + TOHEX (m ! (pScan + 2)))) m;
         Some (m1, pScan + 3, pDest + 1, True, w) }
       else do {
         m1 \<leftarrow> (if fChanged then mem_put pDest (m ! pScan) m else Some m);
         Some (m1, pScan + 1, pDest + 1, fChanged, w) } } }"

definition memmove :: "nat \<Rightarrow> nat \<Rightarrow> nat \<Rightarrow> 'c list \<Rightarrow> 'c list option" where
  "memmove dst src n m = do { x \<leftarrow> mem_read src n m; mem_write dst x m }"

text \<open>The loop terminates because each round moves the scan position forward inside the buffer; the
  first argument counts the rounds still allowed, and the buffer length is always enough.\<close>

fun unescape_loop ::
  "nat \<Rightarrow> converter \<Rightarrow> nat \<Rightarrow> CHAR_t list \<Rightarrow> nat \<Rightarrow> nat \<Rightarrow> bool \<Rightarrow> world \<Rightarrow>
     (CHAR_t list \<times> bool \<times> world) option" where
  "unescape_loop 0 cv cch m pScan pDest fChanged w = None"
| "unescape_loop (Suc fuel) cv cch m pScan pDest fChanged w = do {
     (m1, pScan1, pDest1, fChanged1, w1) \<leftarrow> unescape_char cv m pScan pDest fChanged w;
     (case strchr (drop pScan1 m1) 37 of
        None \<Rightarrow>
          if fChanged1 then do {
            m2 \<leftarrow> memmove pDest1 pScan1 (qword (cch + 18446744073709551616 - pScan1 + 1)) m1;
            Some (m2, fChanged1, w1) }
          else Some (m1, fChanged1, w1)
      | Some dwLen \<Rightarrow>
          if fChanged1 \<and> dwLen \<noteq> 0 then do {
            m2 \<leftarrow> memmove pDest1 pScan1 dwLen m1;
            unescape_loop fuel cv cch m2 (pScan1 + dwLen) (pDest1 + dwLen) fChanged1 w1 }
          else unescape_loop fuel cv cch m1 (pScan1 + dwLen) pDest1 fChanged1 w1) }"

definition STRA_Unescape :: "converter \<Rightarrow> STRA \<Rightarrow> world \<Rightarrow> (STRA \<times> world) option" where
  "STRA_Unescape cv s w =
     (case strchr (QueryStr s) 37 of
        None \<Rightarrow> Some (s, w)
      | Some p \<Rightarrow> do {
          (m, fChanged, w1) \<leftarrow>
            unescape_loop (length (QueryStr s)) cv (QueryCCH s) (QueryStr s) p p False w;
          let s1 = str_with s m;
          Some (if fChanged then s1\<lparr>m_cchLen := dword (strlen m)\<rparr> else s1, w1) })"

section \<open>What Escape computes\<close>

definition hex_escape :: "CHAR_t \<Rightarrow> CHAR_t list" where
  "hex_escape c = [37, TODIGIT (unat c div 16 mod 16), TODIGIT (unat c mod 16)]"

definition escape_text :: "(BYTE \<Rightarrow> bool) \<Rightarrow> CHAR_t list \<Rightarrow> CHAR_t list" where
  "escape_text f xs = concat (map (\<lambda>c. if f c then hex_escape c else [c]) xs)"

lemma escape_text_simps [simp]:
  "escape_text f [] = []"
  "escape_text f (c # xs) = (if f c then hex_escape c else [c]) @ escape_text f xs"
  "escape_text f (xs @ ys) = escape_text f xs @ escape_text f ys"
  by (simp_all add: escape_text_def)

lemma length_hex_escape [simp]: "length (hex_escape c) = 3"
  by (simp add: hex_escape_def)

lemma length_escape_text: "length xs \<le> length (escape_text f xs)"
  by (induction xs) auto

section \<open>Escaping the text\<close>

text \<open>What a step on the temporary string guarantees: \<open>good\<close> says when it must succeed.\<close>

definition temp_step ::
  "STRA \<Rightarrow> world \<Rightarrow> bool \<Rightarrow> CHAR_t list \<Rightarrow> (HRESULT \<times> STRA \<times> world) option \<Rightarrow> bool" where
  "temp_step t w good txt r =
     (case r of None \<Rightarrow> False
      | Some (hr, t', w') \<Rightarrow>
          str_ok sizeof_CHAR t' \<and> heap_live w' - owned t' = heap_live w - owned t \<and>
          (hr = S_OK \<and> str_text t' = txt \<or> FAILED hr) \<and>
          (generous w \<longrightarrow> generous w' \<and> (good \<longrightarrow> hr = S_OK)))"

lemma temp_stepE:
  assumes "temp_step t w good txt r"
  obtains hr t' w' where "r = Some (hr, t', w')" "str_ok sizeof_CHAR t'"
    "heap_live w' - owned t' = heap_live w - owned t"
    "hr = S_OK \<and> str_text t' = txt \<or> FAILED hr" "generous w \<Longrightarrow> generous w' \<and> (good \<longrightarrow> hr = S_OK)"
  using assms by (auto simp: temp_step_def split: option.splits)

lemma delivers_temp_step:
  assumes "delivers sizeof_CHAR s t w r" "heap_live w - owned s = heap_live w0 - owned s0"
    "generous w0 \<Longrightarrow> generous w" "good \<Longrightarrow> length t + 1 \<le> MAXDWORD"
  shows "temp_step s0 w0 good t r"
  using assms by (auto simp: delivers_def temp_step_def split: option.splits if_splits)

lemma STRA_Resize_step:
  assumes "str_ok sizeof_CHAR t" "n \<le> MAXDWORD"
  shows "temp_step t w True (str_text t) (Some (STRA_Resize t n w))"
proof -
  obtain r b w' where R: "buffer_Resize sizeof_CHAR (m_Buff t) n False w = (r, b, w')" by (metis prod_cases3)
  with str_grow [OF assms(1) R] assms(2) show ?thesis
    by (auto simp: temp_step_def STRA_Resize_def)
qed

lemma escape_begin_step:
  assumes s: "str_ok sizeof_CHAR s" and t: "str_ok sizeof_CHAR t" "str_text t = []"
    and i: "i \<le> m_cchLen s"
  shows "temp_step t w True (take i (str_text s)) (escape_begin s i t w)"
proof -
  have n: "\<not> dword (QueryCCH s * 2) > MAXDWORD" by (simp add: not_less)
  obtain hr t1 w1 where R: "STRA_Resize t (dword (QueryCCH s * 2)) w = (hr, t1, w1)" by (metis prod_cases3)
  from STRA_Resize_step [OF t(1) dword_le [of "QueryCCH s * 2"], of w]
  have st: "str_ok sizeof_CHAR t1" "heap_live w1 - owned t1 = heap_live w - owned t"
    "hr = S_OK \<and> str_text t1 = [] \<or> FAILED hr" "generous w \<Longrightarrow> generous w1 \<and> hr = S_OK"
    using t(2) by (auto simp: R temp_step_def)
  have i': "i \<le> length (QueryStr s)" "i + 1 \<le> MAXDWORD"
    using i str_okD(3) [OF s] str_ok_bytes [OF s] by auto
  have tx: "take i (QueryStr s) = take i (str_text s)" using i by (simp add: str_text_def min_absorb1)
  have len: "length (take i (str_text s)) = i" using i length_str_text [OF s] by simp
  show ?thesis
  proof (cases "FAILED hr")
    case True
    then show ?thesis using st n R by (simp add: escape_begin_def temp_step_def Let_def)
  next
    case ok: False
    then have h: "hr = S_OK" "str_text t1 = []" using st(3) by auto
    show ?thesis
    proof (cases "i > 0")
      case True
      have D: "delivers sizeof_CHAR t1 (take i (str_text s)) w1 (STRA_Copy_len t1 (QueryStr s) i w1)"
        using STRA_Copy_len_delivers [OF st(1) i'(1), of w1] i'(2) unfolding tx by simp
      have "temp_step t w True (take i (str_text s)) (STRA_Copy_len t1 (QueryStr s) i w1)"
        using i'(2) st(4) len by (intro delivers_temp_step [OF D st(2)]) auto
      then show ?thesis using True ok R n by (simp add: escape_begin_def Let_def)
    next
      case False
      then show ?thesis using ok R st h n by (simp add: escape_begin_def Let_def temp_step_def)
    qed
  qed
qed

lemma escape_append_step:
  assumes t: "str_ok sizeof_CHAR t" and s: "str_ok sizeof_CHAR s"
  shows "temp_step t w (m_cchLen s + 3 \<le> MAXDWORD \<and> length (str_text t) + 4 \<le> MAXDWORD)
    (str_text t @ hex_escape c) (escape_append s c t w)"
proof -
  have q: "qword (QueryCCH s + 2 * 1 + 1 * 1) = m_cchLen s + 3"
    using str_ok_bytes [OF s] by (simp add: QueryCCH_def qword_id MAXDWORD_def)
  obtain r b w1 where R: "buffer_Resize sizeof_CHAR (m_Buff t) (m_cchLen s + 3) False w = (r, b, w1)"
    by (metis prod_cases3)
  note g = str_grow [OF t R]
  note unf = escape_append_def Let_def q
  consider "MAXDWORD < m_cchLen s + 3" | "m_cchLen s + 3 \<le> MAXDWORD" "\<not> r" | "m_cchLen s + 3 \<le> MAXDWORD" r
    by linarith
  then show ?thesis
  proof cases
    case 1
    then show ?thesis unfolding unf using t by (simp add: temp_step_def)
  next
    case 2
    then have "FAILED (HRESULT_FROM_WIN32 (GetLastError w1))" using Resize_error R by auto
    then show ?thesis unfolding unf using 2 R g t by (auto simp: temp_step_def)
  next
    case 3
    have D: "delivers sizeof_CHAR (t\<lparr>m_Buff := b\<rparr>) (str_text t @ hex_escape c) w1
        (STRA_Append_len (t\<lparr>m_Buff := b\<rparr>) (hex_escape c) 3 w1)"
      using STRA_Append_len_delivers [OF g(1), of 3 "hex_escape c" w1] g(2)
      by (simp add: MAXDWORD_def)
    then have "temp_step t w (m_cchLen s + 3 \<le> MAXDWORD \<and> length (str_text t) + 4 \<le> MAXDWORD)
        (str_text t @ hex_escape c) (STRA_Append_len (t\<lparr>m_Buff := b\<rparr>) (hex_escape c) 3 w1)"
      using g(4) by (intro delivers_temp_step [OF D g(3)]) auto
    then show ?thesis unfolding unf using 3 R by (simp add: hex_escape_def not_less)
  qed
qed

text \<open>One round of the loop: it either returns an error, which a heap that grants everything rules
  out, or goes on with the next character.\<close>

definition escape_room :: "STRA \<Rightarrow> nat \<Rightarrow> bool" where
  "escape_room s k \<longleftrightarrow> m_cchLen s + 3 \<le> MAXDWORD \<and> k + 4 \<le> MAXDWORD"

lemma int_incr_Some: "i < 2147483647 \<Longrightarrow> int_incr i = Some (Suc i)"
  by (simp add: int_incr_def)

lemma escape_round_hex:
  assumes s: "str_ok sizeof_CHAR s" and t: "str_ok sizeof_CHAR t" and i: "i \<le> m_cchLen s" "i < 2147483647"
    and e: "\<not> e \<Longrightarrow> str_text t = []" and c: "c \<noteq> 0" "f c"
    and d: "done_part = (if e then str_text t else take i (str_text s))"
  obtains (failed) hr t' w' where "escape_loop f s (c # pch) i e t w = Some (hr, True, t', w')" "FAILED hr"
      "str_ok sizeof_CHAR t'" "heap_live w' - owned t' = heap_live w - owned t"
      "\<not> (generous w \<and> escape_room s (length done_part))"
  | (next_char) t' w' where "escape_loop f s (c # pch) i e t w = escape_loop f s pch (Suc i) True t' w'"
      "str_ok sizeof_CHAR t'" "heap_live w' - owned t' = heap_live w - owned t"
      "generous w \<Longrightarrow> generous w'" "str_text t' = done_part @ hex_escape c"
proof -
  obtain hr t1 w1 where R1: "(if \<not> e then escape_begin s i t w else Some (S_OK, t, w)) = Some (hr, t1, w1)"
    and p1: "str_ok sizeof_CHAR t1" "heap_live w1 - owned t1 = heap_live w - owned t"
      "hr = S_OK \<and> str_text t1 = done_part \<or> FAILED hr" "generous w \<Longrightarrow> generous w1 \<and> hr = S_OK"
  proof (cases e)
    case True
    then show ?thesis using that [of S_OK t w] t by (simp add: d)
  next
    case False
    from escape_begin_step [OF s t e [OF False] i(1), of w] False that show ?thesis
      by (auto elim!: temp_stepE simp: d)
  qed
  show thesis
  proof (cases "FAILED hr")
    case True
    then have "hr \<noteq> S_OK" by auto
    with True show ?thesis using c R1 p1 by (intro failed [of hr t1 w1]) auto
  next
    case h1: False
    then have tx: "hr = S_OK" "str_text t1 = done_part" using p1(3) by auto
    obtain hr2 t2 w2 where R2: "escape_append s c t1 w1 = Some (hr2, t2, w2)"
      and p2: "str_ok sizeof_CHAR t2" "heap_live w2 - owned t2 = heap_live w1 - owned t1"
        "hr2 = S_OK \<and> str_text t2 = done_part @ hex_escape c \<or> FAILED hr2"
        "generous w1 \<Longrightarrow> generous w2 \<and> (escape_room s (length done_part) \<longrightarrow> hr2 = S_OK)"
      using temp_stepE [OF escape_append_step [OF p1(1) s, of w1 c, unfolded tx(2)
          escape_room_def [symmetric]]] by metis
    show ?thesis
    proof (cases "FAILED hr2")
      case True
      then have "hr2 \<noteq> S_OK" by auto
      with True show ?thesis
        using c R1 h1 R2 p2 p1(2,4) by (intro failed [of hr2 t2 w2]) auto
    next
      case h2: False
      then show ?thesis
        using c R1 h1 R2 p2 p1(2,4) int_incr_Some [OF i(2)] by (intro next_char [of t2 w2]) auto
    qed
  qed
qed

lemma escape_round_plain:
  assumes t: "str_ok sizeof_CHAR t" and c: "c \<noteq> 0" "\<not> f c" and e: e and i: "i < 2147483647"
  obtains t' w' where "escape_loop f s (c # pch) i e t w = escape_loop f s pch (Suc i) True t' w'"
      "str_ok sizeof_CHAR t'" "heap_live w' - owned t' = heap_live w - owned t"
      "generous w \<Longrightarrow> generous w' \<and> (length (str_text t) + 2 \<le> MAXDWORD \<longrightarrow> str_text t' = str_text t @ [c])"
      "str_text t' \<in> {str_text t, str_text t @ [c]}"
proof -
  have "delivers sizeof_CHAR t (str_text t @ [c]) w (STRA_Append_len t (c # pch) 1 w)"
    using STRA_Append_len_delivers [OF t, of 1 "c # pch" w] by (simp add: MAXDWORD_def)
  then obtain hr t' w' where "STRA_Append_len t (c # pch) 1 w = Some (hr, t', w')" "str_ok sizeof_CHAR t'"
    "heap_live w' - owned t' = heap_live w - owned t"
    "generous w \<Longrightarrow> generous w' \<and> (length (str_text t) + 2 \<le> MAXDWORD \<longrightarrow> str_text t' = str_text t @ [c])"
    "str_text t' \<in> {str_text t, str_text t @ [c]}"
    by (auto simp: delivers_def split: option.splits if_splits)
  then show thesis using c e int_incr_Some [OF i] by (intro that [of t' w']) auto
qed

text \<open>The loop ignores a failure to append a character that needs no escape, so characters of that kind
  may be missing when memory is refused: \<open>escape_keeps f xs zs\<close> says that \<open>zs\<close> is \<open>xs\<close> less some
  characters that need no escape.\<close>

definition escape_keeps :: "(BYTE \<Rightarrow> bool) \<Rightarrow> CHAR_t list \<Rightarrow> CHAR_t list \<Rightarrow> bool" where
  "escape_keeps f xs zs \<longleftrightarrow> subseq zs xs \<and> filter f zs = filter f xs"

lemma escape_keeps_simps [simp]:
  "escape_keeps f xs xs" "escape_keeps f xs zs \<Longrightarrow> escape_keeps f (c # xs) (c # zs)"
  "\<not> f c \<Longrightarrow> escape_keeps f xs zs \<Longrightarrow> escape_keeps f (c # xs) zs"
  by (auto simp: escape_keeps_def)

text \<open>The loop. Whatever the heap does there is no access outside the buffers, no block is lost, and every
  character that needs an escape is there escaped, in order; when the heap grants every request the
  temporary holds the escaped text.\<close>

definition escape_post ::
  "(BYTE \<Rightarrow> bool) \<Rightarrow> STRA \<Rightarrow> bool \<Rightarrow> CHAR_t list \<Rightarrow> CHAR_t list \<Rightarrow> STRA \<Rightarrow> world \<Rightarrow>
     (HRESULT \<times> bool \<times> STRA \<times> world) option \<Rightarrow> bool" where
  "escape_post f s e sofar ys t w r =
     (case r of None \<Rightarrow> False
      | Some (hr, e', t', w') \<Rightarrow>
          str_ok sizeof_CHAR t' \<and> heap_live w' - owned t' = heap_live w - owned t \<and>
          (hr = S_OK \<or> FAILED hr) \<and>
          (hr = S_OK \<and> e' \<longrightarrow> (\<exists>zs. escape_keeps f ys zs \<and> str_text t' = sofar @ escape_text f zs)) \<and>
          (\<not> e' \<longrightarrow> \<not> e \<and> hr = S_OK \<and> t' = t \<and> w' = w \<and> escape_text f ys = ys) \<and>
          (generous w \<and> m_cchLen s + 3 \<le> MAXDWORD \<and> length (sofar @ escape_text f ys) + 1 \<le> MAXDWORD \<longrightarrow>
             hr = S_OK \<and> generous w' \<and> (e' \<longrightarrow> str_text t' = sofar @ escape_text f ys)))"

lemma escape_post_next:
  assumes "escape_post f s True (sofar @ x) ys t' w' r" "heap_live w' - owned t' = heap_live w - owned t"
    "generous w \<Longrightarrow> generous w'" "x = (if f c then hex_escape c else [c])"
  shows "escape_post f s e sofar (c # ys) t w r"
proof -
  have "\<exists>zs'. escape_keeps f (c # ys) zs' \<and> (sofar @ x) @ escape_text f zs = sofar @ escape_text f zs'"
    if "escape_keeps f ys zs" for zs
    using that assms(4) by (intro exI [of _ "c # zs"]) simp
  then show ?thesis using assms by (fastforce simp: escape_post_def split: option.splits)
qed

lemma escape_post_dropped:
  assumes "escape_post f s True sofar ys t' w' r" "heap_live w' - owned t' = heap_live w - owned t" "\<not> f c"
    "\<not> (generous w \<and> length (sofar @ escape_text f (c # ys)) + 1 \<le> MAXDWORD)"
  shows "escape_post f s e sofar (c # ys) t w r"
proof -
  have "\<exists>zs'. escape_keeps f (c # ys) zs' \<and> sofar @ escape_text f zs = sofar @ escape_text f zs'"
    if "escape_keeps f ys zs" for zs
    using that assms(3) by (intro exI [of _ zs]) simp
  then show ?thesis using assms by (fastforce simp: escape_post_def split: option.splits)
qed

lemma escape_post_first:
  assumes "escape_post f s False (sofar @ [c]) ys t w r" "\<not> f c"
  shows "escape_post f s False sofar (c # ys) t w r"
proof -
  have "\<exists>zs'. escape_keeps f (c # ys) zs' \<and> (sofar @ [c]) @ escape_text f zs = sofar @ escape_text f zs'"
    if "escape_keeps f ys zs" for zs
    using that assms(2) by (intro exI [of _ "c # zs"]) simp
  then show ?thesis using assms by (fastforce simp: escape_post_def split: option.splits)
qed

lemma escape_loop_correct:
  assumes s: "str_ok sizeof_CHAR s" and ys: "str_text s = take i (str_text s) @ ys" "i \<le> m_cchLen s" "0 \<notin> set ys"
    and t: "str_ok sizeof_CHAR t" and e: "\<not> e \<Longrightarrow> str_text t = [] \<and> sofar = take i (str_text s)"
    and te: "e \<Longrightarrow> str_text t = sofar" and small: "m_cchLen s < 2147483648"
  shows "escape_post f s e sofar ys t w (escape_loop f s (ys @ 0 # rest) i e t w)"
  using assms
proof (induction ys arbitrary: i e t w sofar)
  case Nil
  then show ?case by (auto simp: escape_post_def intro: exI [of _ "[]"])
next
  case (Cons c ys)
  let ?x = "str_text s"
  have c0: "c \<noteq> 0" "0 \<notin> set ys" using Cons.prems(4) by auto
  have i: "Suc i \<le> m_cchLen s"
    using arg_cong [OF Cons.prems(2), of length] length_str_text [OF s] by simp
  have i31: "i < 2147483647" using i Cons.prems(8) by simp
  have ti: "take (Suc i) ?x = take i ?x @ [c]"
    using Cons.prems(2) i length_str_text [OF s]
    by (metis take_Suc_conv_app_nth nth_append_length Suc_le_lessD length_take min.absorb2 Suc_leD)
  have ys': "?x = take (Suc i) ?x @ ys" unfolding ti using Cons.prems(2) by simp
  have d: "(if e then str_text t else take i ?x) = sofar" using Cons.prems(6,7) by auto
  show ?case
  proof (cases "f c")
    case f: True
    have et: "\<not> e \<Longrightarrow> str_text t = []" using Cons.prems(6) by blast
    show ?thesis
    proof (rule escape_round_hex [where f = f, OF s Cons.prems(5,3) i31 et c0(1) f d [symmetric], where pch = "ys @ 0 # rest" and w = w])
      fix hr t' w'
      assume "escape_loop f s (c # ys @ 0 # rest) i e t w = Some (hr, True, t', w')" "FAILED hr"
        "str_ok sizeof_CHAR t'" "heap_live w' - owned t' = heap_live w - owned t"
        "\<not> (generous w \<and> escape_room s (length sofar))"
      then show ?thesis using f by (auto simp: escape_post_def escape_room_def)
    next
      fix t' w'
      assume L: "escape_loop f s (c # ys @ 0 # rest) i e t w = escape_loop f s (ys @ 0 # rest) (Suc i) True t' w'"
        "str_ok sizeof_CHAR t'" "heap_live w' - owned t' = heap_live w - owned t"
        "generous w \<Longrightarrow> generous w'" "str_text t' = sofar @ hex_escape c"
      have "escape_post f s True (sofar @ hex_escape c) ys t' w' (escape_loop f s (ys @ 0 # rest) (Suc i) True t' w')"
        by (rule Cons.IH [OF s ys' i c0(2) L(2)]) (simp_all add: L(5) Cons.prems(8))
      from escape_post_next [OF this L(3,4)] f L(1) show ?thesis by simp
    qed
  next
    case f: False
    show ?thesis
    proof (cases e)
      case False
      then have sf: "take (Suc i) ?x = sofar @ [c]" unfolding ti using Cons.prems(6) by simp
      have "escape_post f s False (sofar @ [c]) ys t w (escape_loop f s (ys @ 0 # rest) (Suc i) False t w)"
        using Cons.prems(6,8) False by (intro Cons.IH [OF s ys' i c0(2) Cons.prems(5)]) (auto simp: sf)
      from escape_post_first [OF this f] show ?thesis using f False c0 int_incr_Some [OF i31] by simp
    next
      case True
      obtain t' w' where L: "escape_loop f s (c # ys @ 0 # rest) i e t w = escape_loop f s (ys @ 0 # rest) (Suc i) True t' w'"
        "str_ok sizeof_CHAR t'" "heap_live w' - owned t' = heap_live w - owned t"
        "generous w \<Longrightarrow> generous w' \<and> (length (str_text t) + 2 \<le> MAXDWORD \<longrightarrow> str_text t' = str_text t @ [c])"
        "str_text t' \<in> {str_text t, str_text t @ [c]}"
        using escape_round_plain [where f = f, OF Cons.prems(5) c0(1) f True i31, where s = s and pch = "ys @ 0 # rest" and w = w] by blast
      have I: "escape_post f s True (str_text t') ys t' w' (escape_loop f s (ys @ 0 # rest) (Suc i) True t' w')"
        by (rule Cons.IH [OF s ys' i c0(2) L(2)]) (use Cons.prems(8) in auto)
      have l: "length sofar + 2 \<le> length (sofar @ escape_text f (c # ys)) + 1" using f by simp
      show ?thesis
      proof (cases "str_text t' = sofar @ [c]")
        case True
        with I have "escape_post f s True (sofar @ [c]) ys t' w' (escape_loop f s (ys @ 0 # rest) (Suc i) True t' w')"
          by simp
        from escape_post_next [OF this L(3)] L(1,4) f show ?thesis by simp
      next
        case False
        then have d: "str_text t' = sofar" using L(5) Cons.prems(7) [OF True] by simp
        have "\<not> (generous w \<and> length (sofar @ escape_text f (c # ys)) + 1 \<le> MAXDWORD)"
          using L(4) l False Cons.prems(7) [OF True] by auto
        from escape_post_dropped [OF I [unfolded d] L(3) f this] show ?thesis using L(1) by simp
      qed
    qed
  qed
qed

lemma EscapeInternal_correct:
  assumes s: "str_ok sizeof_CHAR s" "str_plain s" and b: "length InlineBuffer = 512"
    and small: "m_cchLen s < 2147483648"
  shows "\<exists>hr s' w'. EscapeInternal f s InlineBuffer w = Some (hr, s', w') \<and> str_ok sizeof_CHAR s' \<and>
    heap_live w' - owned s' = heap_live w - owned s \<and>
    (if hr = S_OK then \<exists>zs. escape_keeps f (str_text s) zs \<and> str_text s' = escape_text f zs
     else FAILED hr \<and> s' = s) \<and>
    (generous w \<and> m_cchLen s + 3 \<le> MAXDWORD \<and> length (escape_text f (str_text s)) + 1 \<le> MAXDWORD \<longrightarrow>
       hr = S_OK \<and> str_text s' = escape_text f (str_text s))"
proof -
  define t where "t = STRA_ctor_buf (InlineBuffer[0 := 0]) 512"
  have t: "str_ok sizeof_CHAR t" "str_text t = []" "owned t = 0"
    using str_ctor_buf_ok [of 1 512 "InlineBuffer[0 := 0]"] b
    by (simp_all add: t_def STRA_ctor_buf_def MAXDWORD_def owned_def str_ctor_buf_def buffer_init_def)
  have post: "escape_post f s False [] (str_text s) t w (escape_loop f s (QueryStr s) 0 False t w)"
    using escape_loop_correct [OF s(1), of 0 "str_text s" t False "[]" f w] t s small
    by (subst str_split [OF s(1)]) (auto simp: str_plain_def)
  then obtain hr e t' w1 where L: "escape_loop f s (QueryStr s) 0 False t w = Some (hr, e, t', w1)"
    by (auto simp: escape_post_def split: option.splits)
  from post [unfolded L] t have P: "str_ok sizeof_CHAR t'" "heap_live w1 - owned t' = heap_live w"
    "hr = S_OK \<or> FAILED hr"
    "hr = S_OK \<Longrightarrow> e \<Longrightarrow> \<exists>zs. escape_keeps f (str_text s) zs \<and> str_text t' = escape_text f zs"
    "\<not> e \<Longrightarrow> hr = S_OK \<and> t' = t \<and> w1 = w \<and> escape_text f (str_text s) = str_text s"
    "generous w \<and> m_cchLen s + 3 \<le> MAXDWORD \<and> length (escape_text f (str_text s)) + 1 \<le> MAXDWORD \<Longrightarrow>
       hr = S_OK \<and> generous w1 \<and> (e \<longrightarrow> str_text t' = escape_text f (str_text s))"
    by (auto simp: escape_post_def)
  have D: "heap_live (snd (buffer_dtor (m_Buff t') w2)) = heap_live w2 - owned t'" for w2
    by (simp add: buffer_dtor_def owned_def HeapFree_def)
  note unf = EscapeInternal_def Let_def t_def [symmetric] L
  consider (bad) "FAILED hr" | (copy) "\<not> FAILED hr" e | (keep) "\<not> FAILED hr" "\<not> e" by blast
  then show ?thesis
  proof cases
    case bad
    then have "hr \<noteq> S_OK" by auto
    then show ?thesis unfolding unf using bad s(1) P(2,6) by (simp add: D) blast
  next
    case keep
    then have q: "hr = S_OK" "t' = t" "w1 = w" "escape_text f (str_text s) = str_text s" using P(5) by auto
    then have "heap_live (snd (buffer_dtor (m_Buff t) w)) = heap_live w" using D [of w] t(3) by simp
    then show ?thesis unfolding unf using keep s(1) q by (auto intro: exI [of _ "str_text s"])
  next
    case copy
    have "delivers sizeof_CHAR s (str_text t') w1 (STRA_Copy_ref s t' w1)"
      by (rule STRA_Copy_ref_delivers(1) [OF s(1) P(1)])
    then show ?thesis
    proof (rule deliversE)
      fix s' w2
      assume C: "STRA_Copy_ref s t' w1 = Some (S_OK, s', w2)" "str_ok sizeof_CHAR s'" "str_text s' = str_text t'"
        "heap_live w2 - owned s' = heap_live w1 - owned s"
      then show ?thesis unfolding unf using copy P(2-4,6) by (auto simp: D)
    next
      fix hr' w2
      assume C: "STRA_Copy_ref s t' w1 = Some (hr', s, w2)" "FAILED hr'" "heap_live w2 = heap_live w1"
        "\<not> (generous w1 \<and> (length (str_text t') + 1) * sizeof_CHAR \<le> MAXDWORD)"
      then show ?thesis unfolding unf using copy P(2,6) s(1) by (auto simp: D)
    qed
  qed
qed

section \<open>What Unescape computes\<close>

definition char_at :: "CHAR_t list \<Rightarrow> nat \<Rightarrow> CHAR_t" where
  "char_at ys k = (if k < length ys then ys ! k else 0)"

definition unicode_escape :: "CHAR_t list \<Rightarrow> bool" where
  "unicode_escape ys \<longleftrightarrow> (char_at ys 1 = 117 \<or> char_at ys 1 = 85) \<and> (\<forall>i<4. isxdigit (char_at ys (2 + i)))"

definition hex_escaped :: "CHAR_t list \<Rightarrow> bool" where
  "hex_escaped ys \<longleftrightarrow> (\<forall>i<2. isxdigit (char_at ys (1 + i)))"

definition unicode_bytes :: "converter \<Rightarrow> CHAR_t list \<Rightarrow> CHAR_t list" where
  "unicode_bytes cv ys =
     (case wc_convert cv CP_ACP WC_NO_BEST_FIT_CHARS
        [of_int (TOHEX (ys ! 2) * 4096 + TOHEX (ys ! 3) * 256 + TOHEX (ys ! 4) * 16 + TOHEX (ys ! 5))] 1 of
        Inl _ \<Rightarrow> [] | Inr out \<Rightarrow> if length out \<le> 6 then out else [])"

fun decode :: "converter \<Rightarrow> CHAR_t list \<Rightarrow> CHAR_t list" where
  "decode cv [] = []"
| "decode cv (c # r) =
     (if c \<noteq> 37 then c # decode cv r
      else if unicode_escape (c # r) then unicode_bytes cv (c # r) @ decode cv (drop 5 r)
      else if hex_escaped (c # r)
      then of_int (TOHEX (r ! 0) * 16 + TOHEX (r ! 1)) # decode cv (drop 2 r)
      else c # decode cv r)"

lemma isxdigit_0 [simp]: "\<not> isxdigit (0 :: CHAR_t)"
  by (simp add: isxdigit_def)

lemma char_at_nonzero: "char_at ys k \<noteq> 0 \<Longrightarrow> k < length ys"
  by (simp add: char_at_def split: if_splits)

lemma unicode_escape_length: "unicode_escape ys \<Longrightarrow> 6 \<le> length ys"
proof -
  assume "unicode_escape ys"
  then have "isxdigit (char_at ys (2 + 3))" unfolding unicode_escape_def by (elim conjE allE [where x = 3]) simp
  then have "char_at ys 5 \<noteq> 0" by auto
  then show ?thesis using char_at_nonzero by fastforce
qed

lemma hex_escaped_length: "hex_escaped ys \<Longrightarrow> 3 \<le> length ys"
proof -
  assume "hex_escaped ys"
  then have "isxdigit (char_at ys (1 + 1))" unfolding hex_escaped_def by (elim allE [where x = 1]) simp
  then have "char_at ys 2 \<noteq> 0" by (metis isxdigit_0 one_add_one)
  then show ?thesis using char_at_nonzero by fastforce
qed

lemma length_unicode_bytes: "length (unicode_bytes cv ys) \<le> 6"
  by (auto simp: unicode_bytes_def split: sum.splits)

lemma length_decode: "length (decode cv ys) \<le> length ys"
proof (induction cv ys rule: decode.induct)
  case (2 cv c r)
  consider "c \<noteq> 37" | "c = 37" "unicode_escape (c # r)" | "c = 37" "\<not> unicode_escape (c # r)" "hex_escaped (c # r)"
    | "c = 37" "\<not> unicode_escape (c # r)" "\<not> hex_escaped (c # r)" by blast
  then show ?case
  proof cases
    case 2
    then show ?thesis
      using "2.IH"(2) unicode_escape_length [of "c # r"] length_unicode_bytes [of cv "c # r"] by simp
  next
    case 3
    then show ?thesis using "2.IH"(3) hex_escaped_length [of "c # r"] by simp
  qed (use "2.IH" in simp_all)
qed simp

lemma decode_plain: "37 \<notin> set x \<Longrightarrow> decode cv (x @ y) = x @ decode cv y"
  by (induction x) auto

section \<open>One round of Unescape\<close>

lemma mem_at:
  assumes "drop p m = ys @ 0 # rest" "j \<le> length ys"
  shows "mem_get (p + j) m = Some (char_at ys j)" "p + j < length m" "m ! (p + j) = char_at ys j"
proof -
  have l: "length m - p = length ys + Suc (length rest)"
    using arg_cong [OF assms(1), of length] by simp
  then show "p + j < length m" using assms(2) by linarith
  moreover have "m ! (p + j) = (ys @ 0 # rest) ! j"
    using assms l by (metis add_leD1 calculation less_imp_le_nat nth_drop)
  ultimately show "m ! (p + j) = char_at ys j" "mem_get (p + j) m = Some (char_at ys j)"
    using assms(2) by (auto simp: char_at_def nth_append mem_simps)
qed

lemma xdigits_at_correct:
  assumes "drop p m = ys @ 0 # rest" "j \<le> length ys"
  shows "xdigits_at m (p + j) n = Some (\<forall>i<n. isxdigit (char_at ys (j + i)))"
  using assms(2)
proof (induction n arbitrary: j)
  case (Suc n)
  note a = mem_at [OF assms(1) Suc.prems]
  show ?case
  proof (cases "isxdigit (char_at ys j)")
    case True
    then have "char_at ys j \<noteq> 0" by auto
    then have "Suc j \<le> length ys" using char_at_nonzero by (metis Suc_leI)
    from Suc.IH [OF this] True a show ?thesis by (simp add: All_less_Suc2)
  next
    case False
    then show ?thesis using a by (auto intro: exI [of _ 0])
  qed
qed simp

lemma is_unicode_escape_correct:
  assumes "drop p m = ys @ 0 # rest" "ys \<noteq> []"
  shows "is_unicode_escape m p = Some (unicode_escape ys)"
proof -
  have "1 \<le> length ys" using assms(2) by (cases ys) auto
  note a = mem_at [OF assms(1) this]
  show ?thesis
  proof (cases "char_at ys 1 = 117 \<or> char_at ys 1 = 85")
    case True
    then have "char_at ys 1 \<noteq> 0" by auto
    then have "2 \<le> length ys" using char_at_nonzero by fastforce
    from xdigits_at_correct [OF assms(1) this, of 4] True a show ?thesis
      by (simp add: is_unicode_escape_def unicode_escape_def)
  next
    case False
    then show ?thesis using a by (simp add: is_unicode_escape_def unicode_escape_def)
  qed
qed

lemma written:
  assumes "mem_write d x m = Some m1" "d + length x \<le> q" "q \<le> length m"
  shows "length m1 = length m" "drop q m1 = drop q m" "take (d + length x) m1 = take d m @ x"
  using assms by (auto simp: mem_write_def split: if_splits)

text \<open>An escape sequence starts here, of either form.\<close>

definition escape_here :: "CHAR_t list \<Rightarrow> bool" where
  "escape_here ys \<longleftrightarrow> unicode_escape ys \<or> hex_escaped ys"

lemma unescape_unicode:
  assumes z: "drop p m = ys @ 0 # rest" and u: "unicode_escape ys" and d: "d \<le> p"
  shows "\<exists>m1 w1. unescape_char cv m p d ch w = Some (m1, p + 6, d + length (unicode_bytes cv ys), True, w1) \<and>
    length m1 = length m \<and> drop (p + 6) m1 = drop (p + 6) m \<and>
    take (d + length (unicode_bytes cv ys)) m1 = take d m @ unicode_bytes cv ys \<and> heap_live w1 = heap_live w"
proof -
  have l6: "6 \<le> length ys" using unicode_escape_length [OF u] .
  have lm: "p + 6 \<le> length m" using arg_cong [OF z, of length] l6 by simp
  have ix: "m ! (p + 2) = ys ! 2" "m ! (p + 3) = ys ! 3" "m ! (p + 4) = ys ! 4" "m ! (p + 5) = ys ! 5"
    using mem_at(3) [OF z, of 2] mem_at(3) [OF z, of 3] mem_at(3) [OF z, of 4] mem_at(3) [OF z, of 5] l6
    by (simp_all add: char_at_def)
  have ne: "ys \<noteq> []" using l6 by auto
  let ?wch = "of_int (TOHEX (ys ! 2) * 4096 + TOHEX (ys ! 3) * 256 + TOHEX (ys ! 4) * 16 + TOHEX (ys ! 5)) :: WCHAR"
  let ?B = "unicode_bytes cv ys"
  have "\<exists>m1 w1. WideCharToMultiByte cv CP_ACP WC_NO_BEST_FIT_CHARS [?wch] 1 m d 6 w = Some (length ?B, m1, w1) \<and>
    length m1 = length m \<and> drop (p + 6) m1 = drop (p + 6) m \<and> take (d + length ?B) m1 = take d m @ ?B \<and>
    heap_live w1 = heap_live w"
  proof -
    let ?c = "wc_convert cv CP_ACP WC_NO_BEST_FIT_CHARS [?wch] 1"
    define x where "x = (case ?c of Inr out \<Rightarrow> if length out \<le> 6 then out else take 6 (wc_spill cv [?wch])
      | Inl e \<Rightarrow> take 6 (wc_spill cv [?wch]))"
    have "length x \<le> 6" by (simp add: x_def split: sum.split)
    then have x: "d + length x \<le> p + 6" using d by linarith
    obtain m1 where W: "mem_write d x m = Some m1" using x lm by (simp add: mem_simps)
    note wr = written [OF W x lm]
    have tk: "take d m1 = take d m"
      using arg_cong [OF wr(3), of "take d"] d lm by (simp add: min_absorb1)
    consider (inl) e where "?c = Inl e" | (fit) out where "?c = Inr out" "length out \<le> 6"
      | (big) out where "?c = Inr out" "\<not> length out \<le> 6" by (cases ?c) auto
    then show ?thesis
    proof cases
      case fit
      then have "x = out" "?B = out" by (simp_all add: x_def unicode_bytes_def)
      then show ?thesis using fit W wr by (simp add: WideCharToMultiByte_def store_conversion_def)
    next
      case inl
      then have "x = take 6 (wc_spill cv [?wch])" "?B = []" by (simp_all add: x_def unicode_bytes_def)
      then show ?thesis using inl W wr(1,2) tk
        by (simp add: WideCharToMultiByte_def store_conversion_def)
    next
      case big
      then have "x = take 6 (wc_spill cv [?wch])" "?B = []" by (simp_all add: x_def unicode_bytes_def)
      then show ?thesis using big W wr(1,2) tk
        by (simp add: WideCharToMultiByte_def store_conversion_def)
    qed
  qed
  then show ?thesis
    using is_unicode_escape_correct [OF z ne] u unfolding unescape_char_def Let_def ix by auto
qed

lemma unescape_hex:
  assumes z: "drop p m = ys @ 0 # rest" and u: "\<not> unicode_escape ys" "hex_escaped ys" and d: "d \<le> p"
  defines "b \<equiv> of_int (TOHEX (ys ! 1) * 16 + TOHEX (ys ! 2)) :: CHAR_t"
  shows "unescape_char cv m p d ch w = Some (m[d := b], p + 3, d + 1, True, w)"
    "length (m[d := b]) = length m" "drop (p + 3) (m[d := b]) = drop (p + 3) m"
    "take (d + 1) (m[d := b]) = take d m @ [b]"
proof -
  have l3: "3 \<le> length ys" using hex_escaped_length [OF u(2)] .
  have lm: "p + 3 \<le> length m" using arg_cong [OF z, of length] l3 by simp
  have ix: "m ! (p + 1) = ys ! 1" "m ! (p + 2) = ys ! 2"
    using mem_at(3) [OF z, of 1] mem_at(3) [OF z, of 2] l3 by (simp_all add: char_at_def)
  have ne: "ys \<noteq> []" "1 \<le> length ys" using l3 by auto
  show "unescape_char cv m p d ch w = Some (m[d := b], p + 3, d + 1, True, w)"
    using is_unicode_escape_correct [OF z ne(1)] xdigits_at_correct [OF z ne(2), of 2] u d lm
    unfolding unescape_char_def ix b_def by (simp add: hex_escaped_def mem_simps)
  show "take (d + 1) (m[d := b]) = take d m @ [b]" using d lm by (simp add: take_Suc_conv_app_nth)
qed (use d in simp_all)

lemma unescape_plain:
  assumes z: "drop p m = ys @ 0 # rest" and u: "\<not> unicode_escape ys" "\<not> hex_escaped ys" and ne: "ys \<noteq> []" and d: "d \<le> p"
  shows "unescape_char cv m p d ch w = Some (if ch then m[d := ys ! 0] else m, p + 1, d + 1, ch, w)"
    "drop (p + 1) (m[d := ys ! 0]) = drop (p + 1) m"
    "take (d + 1) (m[d := ys ! 0]) = take d m @ [ys ! 0]"
proof -
  have l: "1 \<le> length ys" using ne by (cases ys) auto
  have lm: "p + 1 \<le> length m" using arg_cong [OF z, of length] l by simp
  have ix: "m ! p = ys ! 0" using mem_at(3) [OF z, of 0] ne by (simp add: char_at_def)
  show "unescape_char cv m p d ch w = Some (if ch then m[d := ys ! 0] else m, p + 1, d + 1, ch, w)"
    using is_unicode_escape_correct [OF z ne] xdigits_at_correct [OF z l, of 2] u d lm
    unfolding unescape_char_def ix by (simp add: hex_escaped_def mem_simps)
  show "take (d + 1) (m[d := ys ! 0]) = take d m @ [ys ! 0]" using d lm by (simp add: take_Suc_conv_app_nth)
qed (use d in simp)

text \<open>A round that has an escape sequence in front of it, or comes after one, consumes \<open>j\<close>
  characters of the text and moves what they stand for to the destination.\<close>

lemma unescape_round:
  assumes z: "drop p m = ys @ 0 # rest" and y: "ys \<noteq> []" "ys ! 0 = 37" and d: "d \<le> p"
    and e: "ch \<or> escape_here ys"
  obtains m1 j bytes w1 where "unescape_char cv m p d ch w = Some (m1, p + j, d + length bytes, True, w1)"
    "1 \<le> j" "j \<le> length ys" "decode cv ys = bytes @ decode cv (drop j ys)" "length bytes \<le> j"
    "length m1 = length m" "drop (p + j) m1 = drop (p + j) m" "take (d + length bytes) m1 = take d m @ bytes"
    "heap_live w1 = heap_live w"
proof -
  obtain r where r: "ys = 37 # r" using y by (cases ys) auto
  consider (u) "unicode_escape ys" | (h) "\<not> unicode_escape ys" "hex_escaped ys"
    | (n) "\<not> unicode_escape ys" "\<not> hex_escaped ys" ch
    using e by (auto simp: escape_here_def)
  then show thesis
  proof cases
    case u
    from unescape_unicode [OF z u d, of cv ch w] obtain m1 w1 where *:
      "unescape_char cv m p d ch w = Some (m1, p + 6, d + length (unicode_bytes cv ys), True, w1)"
      "length m1 = length m" "drop (p + 6) m1 = drop (p + 6) m"
      "take (d + length (unicode_bytes cv ys)) m1 = take d m @ unicode_bytes cv ys" "heap_live w1 = heap_live w"
      by blast
    show ?thesis
      by (rule that [OF *(1)]) (use * u r unicode_escape_length [OF u] length_unicode_bytes in simp_all)
  next
    case h
    note * = unescape_hex [OF z h d]
    show ?thesis
      by (rule that [of _ 3 "[of_int (TOHEX (ys ! 1) * 16 + TOHEX (ys ! 2))]" w])
        (use * h r hex_escaped_length [OF h(2)] in simp_all)
  next
    case n
    note * = unescape_plain [OF z n(1,2) y(1) d]
    show ?thesis
      by (rule that [of _ 1 "[37]" w]) (use * n r y in simp_all)
  qed
qed

lemma strchr_percent:
  fixes ys :: "CHAR_t list"
  assumes "0 \<notin> set ys"
  shows "strchr (ys @ 0 # rest) 37 = find_index (\<lambda>x. x = 37) ys"
proof -
  have "find_index (\<lambda>x. x = 37) (ys @ [0 :: CHAR_t]) = find_index (\<lambda>x. x = 37) ys" for ys
    by (induction ys) auto
  then show ?thesis using assms by (simp add: strchr_def cstr_append_nul)
qed

lemma find_percent:
  assumes "find_index (\<lambda>x. x = (37 :: CHAR_t)) ys = Some k"
  shows "k < length ys" "drop k ys \<noteq> []" "drop k ys ! 0 = 37" "37 \<notin> set (take k ys)"
    "decode cv ys = take k ys @ decode cv (drop k ys)"
proof -
  have k: "k < length ys" "ys ! k = 37" "\<forall>j<k. ys ! j \<noteq> 37" using assms by (auto simp: find_index_Some)
  then show "k < length ys" "drop k ys \<noteq> []" "drop k ys ! 0 = 37" by (auto simp: hd_drop_conv_nth)
  show n: "37 \<notin> set (take k ys)" using k by (auto simp: in_set_conv_nth)
  show "decode cv ys = take k ys @ decode cv (drop k ys)"
    using decode_plain [OF n, of cv "drop k ys"] by simp
qed

lemma memmove_down:
  assumes z: "drop p m = ys" and p: "p \<le> length m" and d: "d \<le> p" and k: "k \<le> length ys"
  obtains m2 where "memmove d p k m = Some m2" "length m2 = length m" "drop (p + k) m2 = drop (p + k) m"
    "take (d + k) m2 = take d m @ take k ys"
proof -
  have l: "p + k \<le> length m" using arg_cong [OF z, of length] k p by simp
  have r: "mem_read p k m = Some (take k ys)" using l z k by (simp add: mem_simps)
  obtain m2 where w: "mem_write d (take k ys) m = Some m2" using d l k by (simp add: mem_simps)
  have "d + length (take k ys) \<le> p + k" using d k by simp
  from written [OF w this l] that [of m2] r w k show thesis by (simp add: memmove_def min_absorb2)
qed

definition decoded :: "nat \<Rightarrow> CHAR_t list \<Rightarrow> CHAR_t list \<Rightarrow> CHAR_t list \<Rightarrow> bool" where
  "decoded d m bytes m2 \<longleftrightarrow>
     length m2 = length m \<and> d + length bytes < length m \<and>
     take (d + length bytes) m2 = take d m @ bytes \<and> m2 ! (d + length bytes) = 0"

lemma unescape_loop_decodes:
  assumes "drop p m = ys @ 0 # rest" "ys \<noteq> []" "ys ! 0 = 37" "0 \<notin> set ys" "d \<le> p"
    "ch \<or> escape_here ys" "cch = p + length ys" "cch < MAXDWORD" "length ys \<le> fuel"
  shows "\<exists>m2 w2. unescape_loop fuel cv cch m p d ch w = Some (m2, True, w2) \<and>
    decoded d m (decode cv ys) m2 \<and> heap_live w2 = heap_live w"
  using assms
proof (induction fuel arbitrary: m p d ys ch w)
  case (Suc fuel)
  note prems = Suc.prems
  obtain m1 j bytes w1 where R: "unescape_char cv m p d ch w = Some (m1, p + j, d + length bytes, True, w1)"
    "1 \<le> j" "j \<le> length ys" "decode cv ys = bytes @ decode cv (drop j ys)" "length bytes \<le> j"
    "length m1 = length m" "drop (p + j) m1 = drop (p + j) m" "take (d + length bytes) m1 = take d m @ bytes"
    "heap_live w1 = heap_live w"
    by (rule unescape_round [OF prems(1,2,3,5,6), of cv w])
  define ys1 where "ys1 = drop j ys"
  define p1 where "p1 = p + j"
  define d1 where "d1 = d + length bytes"
  have z1: "drop p1 m1 = ys1 @ 0 # rest"
    using R(3,7) prems(1) unfolding p1_def ys1_def
    by (metis (no_types, lifting) add.commute append_Nil2 diff_is_0_eq drop0 drop_append drop_drop)
  have n1: "0 \<notin> set ys1" using prems(4) in_set_dropD unfolding ys1_def by fastforce
  have d1: "d1 \<le> p1" using R(5) prems(5) by (simp add: d1_def p1_def)
  have len: "p1 + length ys1 = cch" using R(3) prems(7) by (simp add: p1_def ys1_def)
  have lm: "p1 + length ys1 < length m" using arg_cong [OF z1, of length] R(6) by simp
  have dec: "decode cv ys = bytes @ decode cv ys1" using R(4) by (simp add: ys1_def)
  have E: "unescape_loop (Suc fuel) cv cch m p d ch w =
      (case find_index (\<lambda>x. x = 37) ys1 of
         None \<Rightarrow> do {
           m2 \<leftarrow> memmove d1 p1 (qword (cch + 18446744073709551616 - p1 + 1)) m1;
           Some (m2, True, w1) }
       | Some k \<Rightarrow>
           if k \<noteq> 0 then do {
             m2 \<leftarrow> memmove d1 p1 k m1;
             unescape_loop fuel cv cch m2 (p1 + k) (d1 + k) True w1 }
           else unescape_loop fuel cv cch m1 (p1 + k) d1 True w1)"
    using R(1) strchr_percent [OF n1, of rest] z1 by (simp add: p1_def d1_def split: option.splits)
  have base: "take d1 m1 = take d m @ bytes" using R(8) by (simp add: d1_def)
  show ?case
  proof (cases "find_index (\<lambda>x. x = 37) ys1")
    case None
    then have np: "37 \<notin> set ys1" by (auto simp: find_index_None)
    have q: "qword (cch + 18446744073709551616 - p1 + 1) = length ys1 + 1"
    proof -
      have "cch + 18446744073709551616 - p1 + 1 = (length ys1 + 1) + 18446744073709551616" using len by simp
      moreover have "length ys1 + 1 < 18446744073709551616" using len prems(8) by (simp add: MAXDWORD_def)
      ultimately show ?thesis unfolding qword_def by (simp only: mod_add_self2 mod_less)
    qed
    obtain m2 where M: "memmove d1 p1 (length ys1 + 1) m1 = Some m2" "length m2 = length m1"
      "take (d1 + (length ys1 + 1)) m2 = take d1 m1 @ take (length ys1 + 1) (ys1 @ 0 # rest)"
      using memmove_down [OF z1 _ d1, of "length ys1 + 1"] lm R(6) by auto
    have dl: "d1 + length ys1 < length m2" using d1 lm M(2) R(6) by linarith
    have "take (d1 + length ys1) m2 = take d1 m1 @ ys1"
      using arg_cong [OF M(3), of "take (d1 + length ys1)"] d1 lm R(6) by (simp add: min_absorb1)
    moreover have "m2 ! (d1 + length ys1) = 0"
    proof -
      have "length (take d1 m1) = d1" using d1 lm R(6) by simp
      then have "take (d1 + (length ys1 + 1)) m2 ! (d1 + length ys1) = 0"
        unfolding M(3) by (simp add: nth_append)
      then show ?thesis by simp
    qed
    ultimately have "decoded d m (decode cv ys) m2"
      using dl base M(2) R(6) decode_plain [OF np, of cv "[]"] by (simp add: decoded_def dec d1_def add.assoc)
    then show ?thesis unfolding E using None q M(1) R(9) by simp
  next
    case (Some k)
    note F = find_percent [OF Some]
    obtain m2 where M: "(if k \<noteq> 0 then memmove d1 p1 k m1 else Some m1) = Some m2" "length m2 = length m1"
      "drop (p1 + k) m2 = drop (p1 + k) m1" "take (d1 + k) m2 = take d1 m1 @ take k ys1"
    proof (cases "k = 0")
      case False
      then show ?thesis using memmove_down [OF z1 _ d1, of k] F(1) lm R(6) that by auto
    qed (use that in simp)
    have z2: "drop (p1 + k) m2 = drop k ys1 @ 0 # rest"
      unfolding M(3) using arg_cong [OF z1, of "drop k"] F(1) by (simp add: add.commute)
    have n2: "0 \<notin> set (drop k ys1)" using n1 in_set_dropD by fastforce
    have l2: "cch = (p1 + k) + length (drop k ys1)" "length (drop k ys1) \<le> fuel"
      using len F(1) prems(9) R(2) by (simp_all add: ys1_def)
    have d2: "d1 + k \<le> p1 + k" using d1 by simp
    from Suc.IH [OF z2 F(2,3) n2 d2 _ l2(1) prems(8) l2(2), of True w1] obtain m3 w3 where
      L: "unescape_loop fuel cv cch m2 (p1 + k) (d1 + k) True w1 = Some (m3, True, w3)"
      "decoded (d1 + k) m2 (decode cv (drop k ys1)) m3" "heap_live w3 = heap_live w1" by auto
    have tk: "take (d1 + k) m2 = take d m @ bytes @ take k ys1" using M(4) base by simp
    have lb: "d + length (decode cv ys) = d1 + k + length (decode cv (drop k ys1))"
      using F(1) unfolding dec F(5) by (simp add: d1_def)
    have "decoded d m (decode cv ys) m3"
      using L(2) R(6) M(2) unfolding decoded_def lb tk unfolding dec F(5) [of cv] by simp
    then show ?thesis unfolding E using Some M(1) L R(9) by (cases "k = 0") auto
  qed
qed simp

text \<open>Before the first escape sequence a round that finds only a percent sign moves the scan position
  to the next one, and the destination by one character.\<close>

fun first_escape :: "CHAR_t list \<Rightarrow> nat option" where
  "first_escape [] = None"
| "first_escape (c # r) = (if c = 37 \<and> escape_here (c # r) then Some 0 else map_option Suc (first_escape r))"

lemma first_escape_skip: "37 \<notin> set x \<Longrightarrow> first_escape (x @ y) = map_option ((+) (length x)) (first_escape y)"
  by (induction x) (cases "first_escape y"; auto)+

lemma unescape_loop_correct:
  assumes "drop p m = ys @ 0 # rest" "ys \<noteq> []" "ys ! 0 = 37" "0 \<notin> set ys" "d \<le> p"
    "cch = p + length ys" "cch < MAXDWORD" "length ys \<le> fuel"
  shows "\<exists>m2 w2. unescape_loop fuel cv cch m p d False w = Some (m2, first_escape ys \<noteq> None, w2) \<and>
    heap_live w2 = heap_live w \<and>
    (case first_escape ys of None \<Rightarrow> m2 = m
     | Some q \<Rightarrow> decoded (d + count_list (take q ys) 37) m (decode cv (drop q ys)) m2)"
  using assms
proof (induction fuel arbitrary: p d ys w)
  case (Suc fuel)
  note prems = Suc.prems
  obtain r where r: "ys = 37 # r" using prems(2,3) by (cases ys) auto
  show ?case
  proof (cases "escape_here ys")
    case True
    from unescape_loop_decodes [OF prems(1-5) disjI2 [OF True] prems(6-8), of cv False w] True r
    show ?thesis by auto
  next
    case False
    then have R: "unescape_char cv m p d False w = Some (m, p + 1, d + 1, False, w)"
      using unescape_plain(1) [OF prems(1) _ _ prems(2,5), of cv False w] by (auto simp: escape_here_def)
    have z1: "drop (p + 1) m = r @ 0 # rest" using arg_cong [OF prems(1), of "drop 1"] r by simp
    have n1: "0 \<notin> set r" using prems(4) r by simp
    have E: "unescape_loop (Suc fuel) cv cch m p d False w =
        (case find_index (\<lambda>x. x = 37) r of
           None \<Rightarrow> Some (m, False, w)
         | Some k \<Rightarrow> unescape_loop fuel cv cch m (p + 1 + k) (d + 1) False w)"
      using R strchr_percent [OF n1, of rest] z1 by (simp split: option.splits)
    show ?thesis
    proof (cases "find_index (\<lambda>x. x = 37) r")
      case None
      then have "37 \<notin> set r" by (auto simp: find_index_None)
      from first_escape_skip [OF this, of "[]"] show ?thesis using E None False r by simp
    next
      case (Some k)
      note F = find_percent [OF Some]
      have fe: "first_escape ys = map_option (\<lambda>q. Suc (k + q)) (first_escape (drop k r))"
        using first_escape_skip [OF F(4), of "drop k r"] F(1) False r
        by (simp add: option.map_comp comp_def)
      have cnt: "count_list (take (Suc (k + q)) ys) 37 = Suc (count_list (take q (drop k r)) 37)" for q
        using F(4) unfolding r by (simp add: take_add count_notin)
      have z2: "drop (p + 1 + k) m = drop k r @ 0 # rest"
        using arg_cong [OF z1, of "drop k"] F(1) by (simp add: add.commute)
      have n2: "0 \<notin> set (drop k r)" using n1 in_set_dropD by fastforce
      have l: "d + 1 \<le> p + 1 + k" "cch = p + 1 + k + length (drop k r)" "length (drop k r) \<le> fuel"
        using prems(5,6,8) F(1) r by simp_all
      from Suc.IH [OF z2 F(2,3) n2 l(1,2) prems(7) l(3), of w] show ?thesis
        unfolding E fe using Some cnt
        by (cases "first_escape (drop k r)") (simp_all add: r add.assoc add.commute [of k])
    qed
  qed
qed simp

section \<open>Unescape as a whole\<close>

definition unescape_text :: "converter \<Rightarrow> CHAR_t list \<Rightarrow> CHAR_t list" where
  "unescape_text cv xs =
     (case first_escape xs of
        None \<Rightarrow> xs
      | Some q \<Rightarrow>
          cstr (take (length (takeWhile (\<lambda>c. c \<noteq> 37) xs) + count_list (take q xs) 37) xs
                @ decode cv (drop q xs)))"

lemma cstr_append_nul_any: "cstr (x @ 0 # r) = cstr x"
  by (induction x) (auto simp: cstr_Cons)

lemma decoded_cstr:
  assumes "decoded d m bytes m2"
  shows "cstr m2 = cstr (take d m @ bytes)" "terminated m2"
proof -
  have "m2 = take (d + length bytes) m2 @ m2 ! (d + length bytes) # drop (Suc (d + length bytes)) m2"
    using assms by (intro id_take_nth_drop) (simp add: decoded_def)
  moreover have "take (d + length bytes) m2 = take d m @ bytes" "m2 ! (d + length bytes) = 0"
    using assms by (simp_all add: decoded_def)
  ultimately have e: "m2 = (take d m @ bytes) @ 0 # drop (Suc (d + length bytes)) m2" by simp
  show "cstr m2 = cstr (take d m @ bytes)" by (subst e) (rule cstr_append_nul_any)
  show "terminated m2" by (subst e) (rule terminated_append_nul)
qed

lemma takeWhile_percent: "37 \<notin> set x \<Longrightarrow> takeWhile (\<lambda>c :: CHAR_t. c \<noteq> 37) (x @ 37 # r) = x"
  by (induction x) auto

lemma STRA_Unescape_correct:
  assumes ok: "str_ok sizeof_CHAR s" and plain: "str_plain s"
  shows "\<exists>s' w'. STRA_Unescape cv s w = Some (s', w') \<and> str_ok sizeof_CHAR s' \<and>
    str_text s' = unescape_text cv (str_text s) \<and> m_Buff s' = (m_Buff s)\<lparr>m_pBuffer := QueryStr s'\<rparr> \<and>
    heap_live w' = heap_live w"
proof -
  let ?x = "str_text s" and ?m = "QueryStr s"
  define rest where "rest = drop (Suc (m_cchLen s)) ?m"
  have m: "?m = ?x @ 0 # rest" using str_split [OF ok] by (simp add: rest_def)
  have x0: "0 \<notin> set ?x" using plain by (simp add: str_plain_def)
  have st: "strchr ?m 37 = find_index (\<lambda>c. c = 37) ?x" unfolding m by (rule strchr_percent [OF x0])
  show ?thesis
  proof (cases "find_index (\<lambda>c. c = 37) ?x")
    case None
    then have "37 \<notin> set ?x" by (auto simp: find_index_None)
    from first_escape_skip [OF this, of "[]"] show ?thesis
      using None st ok by (simp add: STRA_Unescape_def unescape_text_def QueryStr_def QueryPtr_def)
  next
    case (Some p)
    note F = find_percent [OF Some]
    define ys where "ys = drop p ?x"
    have z: "drop p ?m = ys @ 0 # rest" unfolding m ys_def using F(1) by simp
    have y0: "0 \<notin> set ys" using x0 in_set_dropD unfolding ys_def by fastforce
    have len: "QueryCCH s = p + length ys" using F(1) length_str_text [OF ok] by (simp add: ys_def QueryCCH_def)
    have small: "QueryCCH s < MAXDWORD" using str_ok_bytes [OF ok] by (simp add: QueryCCH_def)
    have fuel: "length ys \<le> length ?m" by (simp add: m ys_def)
    obtain m2 w2 where L: "unescape_loop (length ?m) cv (QueryCCH s) ?m p p False w = Some (m2, first_escape ys \<noteq> None, w2)"
      "heap_live w2 = heap_live w"
      "case first_escape ys of None \<Rightarrow> m2 = ?m
       | Some q \<Rightarrow> decoded (p + count_list (take q ys) 37) ?m (decode cv (drop q ys)) m2"
      using unescape_loop_correct [OF z F(2,3) [folded ys_def] y0 order.refl len small fuel, of cv w] by auto
    have x: "?x = take p ?x @ ys" by (simp add: ys_def)
    have fe: "first_escape ?x = map_option ((+) p) (first_escape ys)"
      using first_escape_skip [OF F(4), of ys] F(1) by (metis x length_take min.absorb2 less_imp_le_nat)
    show ?thesis
    proof (cases "first_escape ys")
      case None
      then show ?thesis using L st Some fe ok
        by (simp add: STRA_Unescape_def unescape_text_def str_with_def QueryStr_def QueryPtr_def)
    next
      case q: (Some q)
      define n where "n = p + count_list (take q ys) 37"
      have D: "decoded n ?m (decode cv (drop q ys)) m2" using L(3) q by (simp add: n_def)
      have tw: "length (takeWhile (\<lambda>c. c \<noteq> 37) ?x) = p"
      proof -
        have "takeWhile (\<lambda>c. c \<noteq> 37) (take p ?x @ ys) = take p ?x"
          using F(2-4) takeWhile_percent unfolding ys_def [symmetric] by (cases ys) auto
        then show ?thesis using x F(1) by simp
      qed
      have cnt: "count_list (take (p + q) ?x) 37 = count_list (take q ys) 37"
        using F(4) by (simp add: take_add ys_def count_notin)
      have "count_list (take q ys) 37 \<le> length ys"
        using count_le_length [of "take q ys" 37] by simp
      then have "n \<le> length ?x" using F(1) by (simp add: n_def ys_def)
      then have "take n ?m = take n ?x" unfolding m by simp
      then have c: "cstr m2 = unescape_text cv ?x" "terminated m2"
        using decoded_cstr [OF D] fe q tw cnt by (simp_all add: unescape_text_def n_def ys_def drop_drop add.commute)
      note T = terminated_strlen [OF c(2)]
      have l2: "length m2 = length ?m" using D by (simp add: decoded_def)
      have "strlen m2 \<le> MAXDWORD" using T l2 str_okD(5,6) [OF ok] by simp
      then have s': "STRA_Unescape cv s w = Some ((str_with s m2)\<lparr>m_cchLen := strlen m2\<rparr>, w2)"
        using L(1) st Some q by (simp add: STRA_Unescape_def Let_def dword_id)
      have ok': "str_ok sizeof_CHAR ((str_with s m2)\<lparr>m_cchLen := strlen m2\<rparr>)"
        "str_text ((str_with s m2)\<lparr>m_cchLen := strlen m2\<rparr>) = take (strlen m2) m2"
        using str_ok_with [OF ok l2] T by auto
      show ?thesis using s' ok' c(1) L(2) by (simp add: str_with_def QueryStr_def QueryPtr_def flip: cstr_take)
    qed
  qed
qed

section \<open>Escape and Unescape are inverse\<close>

lemma hex_digit_values:
  assumes "k < 16"
  shows "isxdigit (TODIGIT k)" "TODIGIT k \<noteq> 117" "TODIGIT k \<noteq> 85" "TODIGIT k \<noteq> 0" "TOHEX (TODIGIT k) = int k"
proof -
  have "k \<in> set [0..<16]" using assms by simp
  moreover have "\<forall>k \<in> set [0..<16]. isxdigit (TODIGIT k) \<and> TODIGIT k \<noteq> 117 \<and> TODIGIT k \<noteq> 85 \<and> TODIGIT k \<noteq> 0 \<and>
      TOHEX (TODIGIT k) = int k"
    by (simp add: upt_conv_Cons TODIGIT_def TOHEX_def isxdigit_def Let_def)
  ultimately show "isxdigit (TODIGIT k)" "TODIGIT k \<noteq> 117" "TODIGIT k \<noteq> 85" "TODIGIT k \<noteq> 0" "TOHEX (TODIGIT k) = int k"
    by blast+
qed

lemma decode_hex_escape: "decode cv (hex_escape c @ ys) = c # decode cv ys"
proof -
  let ?h = "unat c div 16 mod 16" and ?l = "unat c mod 16"
  note H = hex_digit_values [of ?h] and L = hex_digit_values [of ?l]
  have u: "\<not> unicode_escape (hex_escape c @ ys)"
    using H by (simp add: unicode_escape_def hex_escape_def char_at_def)
  have h: "hex_escaped (hex_escape c @ ys)"
    using H L by (auto simp: hex_escaped_def hex_escape_def char_at_def less_2_cases_iff)
  have "unat c < 256" using unsigned_less [of c] by simp
  then have n: "?h * 16 + ?l = unat c" by simp
  have "of_int (TOHEX (TODIGIT ?h) * 16 + TOHEX (TODIGIT ?l)) = (of_nat (?h * 16 + ?l) :: CHAR_t)"
    using H(5) L(5) by simp
  then have v: "of_int (TOHEX (TODIGIT ?h) * 16 + TOHEX (TODIGIT ?l)) = c" unfolding n by simp
  show ?thesis using u h v by (simp add: hex_escape_def)
qed

lemma decode_escape_text:
  assumes "\<And>c. \<not> f c \<Longrightarrow> c \<noteq> 37"
  shows "decode cv (escape_text f xs) = xs"
  using assms by (induction xs) (auto simp: decode_hex_escape)

lemma unescape_text_clean:
  assumes "37 \<notin> set x" "y = [] \<or> (y \<noteq> [] \<and> y ! 0 = 37 \<and> escape_here y)" "0 \<notin> set (x @ y)"
  shows "unescape_text cv (x @ y) = cstr (decode cv (x @ y))"
proof (cases "y = []")
  case True
  have "0 \<notin> set x" using assms(3) by simp
  with True show ?thesis using first_escape_skip [OF assms(1), of "[]"] decode_plain [OF assms(1), of cv "[]"]
    by (simp add: unescape_text_def cstr_no_nul)
next
  case False
  then obtain r where r: "y = 37 # r" "escape_here y" using assms(2) by (cases y) auto
  have "takeWhile (\<lambda>c. c \<noteq> 37) (x @ y) = x" using takeWhile_percent [OF assms(1)] r(1) by simp
  then show ?thesis
    using first_escape_skip [OF assms(1), of y] r decode_plain [OF assms(1), of cv y] assms(1)
    by (simp add: unescape_text_def count_notin)
qed

lemma escape_here_hex: "escape_here (hex_escape c @ ys)"
  using hex_digit_values [of "unat c div 16 mod 16"] hex_digit_values [of "unat c mod 16"]
  by (auto simp: escape_here_def hex_escaped_def hex_escape_def char_at_def less_2_cases_iff)

lemma escape_text_nonzero: "0 \<notin> set xs \<Longrightarrow> 0 \<notin> set (escape_text f xs)"
  using hex_digit_values(4) by (induction xs) (auto simp: hex_escape_def)

lemma unescape_escape_text:
  assumes "\<And>c. \<not> f c \<Longrightarrow> c \<noteq> 37" "0 \<notin> set xs"
  shows "unescape_text cv (escape_text f xs) = xs"
proof -
  define x where "x = takeWhile (\<lambda>c. \<not> f c) xs"
  define y where "y = escape_text f (dropWhile (\<lambda>c. \<not> f c) xs)"
  have "escape_text f (takeWhile (\<lambda>c. \<not> f c) xs) = takeWhile (\<lambda>c. \<not> f c) xs"
    by (induction xs) auto
  then have e: "escape_text f xs = x @ y"
    unfolding x_def y_def by (metis escape_text_simps(3) takeWhile_dropWhile_id)
  have "\<not> f c" if "c \<in> set x" for c using that set_takeWhileD unfolding x_def by force
  then have x: "37 \<notin> set x" using assms(1) by blast
  have "y = [] \<or> (y \<noteq> [] \<and> y ! 0 = 37 \<and> escape_here y)"
  proof (cases "dropWhile (\<lambda>c. \<not> f c) xs")
    case (Cons c r)
    then have "f c" by (metis hd_dropWhile list.distinct(1) list.sel(1))
    then show ?thesis unfolding y_def using Cons escape_here_hex by (auto simp: hex_escape_def)
  next
    case Nil
    show ?thesis unfolding y_def Nil by simp
  qed
  from unescape_text_clean [OF x this, of cv] escape_text_nonzero [OF assms(2), of f] show ?thesis
    using decode_escape_text [OF assms(1), of f cv xs] assms by (simp add: e cstr_no_nul)
qed

end
