(* ===== verification/Stru.thy ===== *)
theory Stru
  imports StrFacts CodePage
begin

text \<open>
  STRU (stringu.cpp, stringu.h): the wide string class, the operations of Str at width two and
  what is its own: Resize with an overflow check, appending an array of strings, conversion from a
  code page, environment expansion and ordinal comparison.

  CompareStringOrdinal is the parameter \<open>ord_eq\<close>, which gets the flag to ignore case and the
  two counted strings; iswspace is the parameter \<open>wspace\<close>. The environment is the record
  \<open>expander\<close>: what the \<open>k\<close>-th expansion of a string yields, and what it leaves in a
  buffer that was too small.
\<close>

section \<open>The class at width two\<close>

definition STRU_ctor :: "WCHAR \<Rightarrow> STRU" where
  "STRU_ctor = str_ctor sizeof_WCHAR"

definition STRU_ctor_buf :: "WCHAR list \<Rightarrow> nat \<Rightarrow> STRU" where
  "STRU_ctor_buf = str_ctor_buf sizeof_WCHAR"

definition STRU_IsEmpty :: "STRU \<Rightarrow> bool" where
  "STRU_IsEmpty = IsEmpty"

definition STRU_QueryCB :: "STRU \<Rightarrow> nat" where
  "STRU_QueryCB = QueryCB sizeof_WCHAR"

definition STRU_QueryCCH :: "STRU \<Rightarrow> nat" where
  "STRU_QueryCCH = QueryCCH"

definition STRU_QuerySizeCCH :: "STRU \<Rightarrow> nat" where
  "STRU_QuerySizeCCH = QuerySizeCCH sizeof_WCHAR"

definition STRU_QueryStr :: "STRU \<Rightarrow> WCHAR list" where
  "STRU_QueryStr = QueryStr"

definition STRU_Reset :: "STRU \<Rightarrow> STRU option" where
  "STRU_Reset = str_Reset"

definition STRU_Resize :: "STRU \<Rightarrow> nat \<Rightarrow> world \<Rightarrow> HRESULT \<times> STRU \<times> world" where
  "STRU_Resize s cchSize w =
     (let cbSize = qword (cchSize * sizeof_WCHAR) in
      if cbSize > MAXDWORD then (HRESULT_FROM_WIN32 ERROR_ARITHMETIC_OVERFLOW, s, w)
      else
        (case buffer_Resize sizeof_WCHAR (m_Buff s) cbSize False w of
           (ok, b, w1) \<Rightarrow> (if ok then S_OK else E_OUTOFMEMORY, s\<lparr>m_Buff := b\<rparr>, w1)))"

definition STRU_SyncWithBuffer :: "STRU \<Rightarrow> HRESULT \<times> STRU" where
  "STRU_SyncWithBuffer = str_SyncWithBuffer sizeof_WCHAR"

definition STRU_SetLen :: "STRU \<Rightarrow> nat \<Rightarrow> (HRESULT \<times> STRU) option" where
  "STRU_SetLen = str_SetLen sizeof_WCHAR"

definition STRU_CopyToBuffer :: "STRU \<Rightarrow> WCHAR list \<Rightarrow> nat \<Rightarrow> (HRESULT \<times> WCHAR list \<times> nat) option" where
  "STRU_CopyToBuffer = str_CopyToBuffer sizeof_WCHAR"

definition STRU_Trim :: "(WCHAR \<Rightarrow> bool) \<Rightarrow> STRU \<Rightarrow> STRU option" where
  "STRU_Trim wspace = str_Trim sizeof_WCHAR wspace"

definition STRU_IndexOf_char :: "STRU \<Rightarrow> WCHAR \<Rightarrow> nat \<Rightarrow> int" where
  "STRU_IndexOf_char = str_IndexOf_char"

definition STRU_IndexOf_str :: "STRU \<Rightarrow> WCHAR list option \<Rightarrow> nat \<Rightarrow> int" where
  "STRU_IndexOf_str = str_IndexOf_str"

definition STRU_LastIndexOf :: "STRU \<Rightarrow> WCHAR \<Rightarrow> nat \<Rightarrow> int" where
  "STRU_LastIndexOf = str_LastIndexOf"

section \<open>Comparison\<close>

definition STRU_Equals_psz ::
  "(bool \<Rightarrow> WCHAR list \<Rightarrow> WCHAR list \<Rightarrow> bool) \<Rightarrow> STRU \<Rightarrow> WCHAR list option \<Rightarrow> bool \<Rightarrow> bool" where
  "STRU_Equals_psz ord_eq s pszRhs fIgnoreCase =
     (case pszRhs of
        None \<Rightarrow> False
      | Some r \<Rightarrow> ord_eq fIgnoreCase (take (QueryCCH s) (QueryStr s)) (cstr r))"

definition STRU_Equals_ref ::
  "(bool \<Rightarrow> WCHAR list \<Rightarrow> WCHAR list \<Rightarrow> bool) \<Rightarrow> STRU \<Rightarrow> STRU \<Rightarrow> bool \<Rightarrow> bool" where
  "STRU_Equals_ref ord_eq s strRhs fIgnoreCase =
     STRU_Equals_psz ord_eq s (Some (QueryStr strRhs)) fIgnoreCase"

definition STRU_Equals_static ::
  "(bool \<Rightarrow> WCHAR list \<Rightarrow> WCHAR list \<Rightarrow> bool) \<Rightarrow> WCHAR list option \<Rightarrow> WCHAR list option \<Rightarrow> bool \<Rightarrow> bool" where
  "STRU_Equals_static ord_eq pwszLhs pwszRhs fIgnoreCase =
     (case (pwszLhs, pwszRhs) of
        (Some l, Some r) \<Rightarrow> ord_eq fIgnoreCase (cstr l) (cstr r) | _ \<Rightarrow> False)"

definition STRU_StartsWith_psz ::
  "(bool \<Rightarrow> WCHAR list \<Rightarrow> WCHAR list \<Rightarrow> bool) \<Rightarrow> STRU \<Rightarrow> WCHAR list option \<Rightarrow> bool \<Rightarrow> bool" where
  "STRU_StartsWith_psz ord_eq s pwszPrefix fIgnoreCase =
     (case pwszPrefix of
        None \<Rightarrow> False
      | Some p \<Rightarrow>
          (case StringCchLength p STRSAFE_MAX_CCH of
             Inl hr \<Rightarrow> False
           | Inr cchPrefix \<Rightarrow>
               if cchPrefix > m_cchLen s then False
               else ord_eq fIgnoreCase (take cchPrefix (QueryStr s)) (take cchPrefix p)))"

definition STRU_StartsWith_ref ::
  "(bool \<Rightarrow> WCHAR list \<Rightarrow> WCHAR list \<Rightarrow> bool) \<Rightarrow> STRU \<Rightarrow> STRU \<Rightarrow> bool \<Rightarrow> bool" where
  "STRU_StartsWith_ref ord_eq s struPrefix fIgnoreCase =
     STRU_StartsWith_psz ord_eq s (Some (QueryStr struPrefix)) fIgnoreCase"

definition STRU_EndsWith_psz ::
  "(bool \<Rightarrow> WCHAR list \<Rightarrow> WCHAR list \<Rightarrow> bool) \<Rightarrow> STRU \<Rightarrow> WCHAR list option \<Rightarrow> bool \<Rightarrow> bool" where
  "STRU_EndsWith_psz ord_eq s pwszSuffix fIgnoreCase =
     (case pwszSuffix of
        None \<Rightarrow> False
      | Some p \<Rightarrow>
          (case StringCchLength p STRSAFE_MAX_CCH of
             Inl hr \<Rightarrow> False
           | Inr cchSuffix \<Rightarrow>
               if cchSuffix > m_cchLen s then False
               else
                 let ixOffset = m_cchLen s - cchSuffix in
                 ord_eq fIgnoreCase (take cchSuffix (drop ixOffset (QueryStr s))) (take cchSuffix p)))"

definition STRU_EndsWith_ref ::
  "(bool \<Rightarrow> WCHAR list \<Rightarrow> WCHAR list \<Rightarrow> bool) \<Rightarrow> STRU \<Rightarrow> STRU \<Rightarrow> bool \<Rightarrow> bool" where
  "STRU_EndsWith_ref ord_eq s struSuffix fIgnoreCase =
     STRU_EndsWith_psz ord_eq s (Some (QueryStr struSuffix)) fIgnoreCase"

section \<open>Copy and append wide strings\<close>

definition STRU_AuxAppend ::
  "STRU \<Rightarrow> WCHAR list \<Rightarrow> nat \<Rightarrow> nat \<Rightarrow> world \<Rightarrow> (HRESULT \<times> STRU \<times> world) option" where
  "STRU_AuxAppend s pStr cbStr cbOffset w = str_AuxAppend sizeof_WCHAR s pStr cbStr cbOffset w"

definition STRU_Copy_len :: "STRU \<Rightarrow> WCHAR list \<Rightarrow> nat \<Rightarrow> world \<Rightarrow> (HRESULT \<times> STRU \<times> world) option" where
  "STRU_Copy_len s pszCopy cchLen w = STRU_AuxAppend s pszCopy (qword (cchLen * sizeof_WCHAR)) 0 w"

definition STRU_Copy_psz :: "STRU \<Rightarrow> WCHAR list \<Rightarrow> world \<Rightarrow> (HRESULT \<times> STRU \<times> world) option" where
  "STRU_Copy_psz s pszCopy w =
     (case StringCchLength pszCopy STRSAFE_MAX_CCH of
        Inl hr \<Rightarrow> Some (hr, s, w)
      | Inr cchStr \<Rightarrow> STRU_Copy_len s pszCopy cchStr w)"

definition STRU_Copy_ptr :: "STRU \<Rightarrow> STRU \<Rightarrow> world \<Rightarrow> (HRESULT \<times> STRU \<times> world) option" where
  "STRU_Copy_ptr s pstrRhs w = STRU_Copy_len s (QueryStr pstrRhs) (QueryCCH pstrRhs) w"

definition STRU_Copy_ref :: "STRU \<Rightarrow> STRU \<Rightarrow> world \<Rightarrow> (HRESULT \<times> STRU \<times> world) option" where
  "STRU_Copy_ref s strRhs w = STRU_Copy_len s (QueryStr strRhs) (QueryCCH strRhs) w"

definition STRU_Append_len :: "STRU \<Rightarrow> WCHAR list \<Rightarrow> nat \<Rightarrow> world \<Rightarrow> (HRESULT \<times> STRU \<times> world) option" where
  "STRU_Append_len s pszAppend cchLen w =
     (if cchLen = 0 then Some (S_OK, s, w)
      else STRU_AuxAppend s pszAppend (qword (cchLen * sizeof_WCHAR)) (STRU_QueryCB s) w)"

definition STRU_Append_psz :: "STRU \<Rightarrow> WCHAR list \<Rightarrow> world \<Rightarrow> (HRESULT \<times> STRU \<times> world) option" where
  "STRU_Append_psz s pszAppend w =
     (case StringCchLength pszAppend STRSAFE_MAX_CCH of
        Inl hr \<Rightarrow> Some (hr, s, w)
      | Inr cchStr \<Rightarrow> STRU_Append_len s pszAppend cchStr w)"

definition STRU_Append_ptr :: "STRU \<Rightarrow> STRU \<Rightarrow> world \<Rightarrow> (HRESULT \<times> STRU \<times> world) option" where
  "STRU_Append_ptr s pstrRhs w = STRU_Append_len s (QueryStr pstrRhs) (QueryCCH pstrRhs) w"

definition STRU_Append_ref :: "STRU \<Rightarrow> STRU \<Rightarrow> world \<Rightarrow> (HRESULT \<times> STRU \<times> world) option" where
  "STRU_Append_ref s strRhs w = STRU_Append_len s (QueryStr strRhs) (QueryCCH strRhs) w"

section \<open>Appending an array of strings\<close>

text \<open>StringCbLengthW, and StringCchCopyEx with the destination given by a position; the result is
  the code, the memory, the new end and the room that is left.\<close>

definition StringCbLengthW :: "WCHAR list \<Rightarrow> nat \<Rightarrow> HRESULT + nat" where
  "StringCbLengthW m cbMax =
     (case StringCchLength m (cbMax div sizeof_WCHAR) of
        Inl hr \<Rightarrow> Inl hr | Inr n \<Rightarrow> Inr (n * sizeof_WCHAR))"

definition STRSAFE_E_INSUFFICIENT_BUFFER :: HRESULT where
  "STRSAFE_E_INSUFFICIENT_BUFFER = 122 + 458752 - 2147483648"

definition StringCchCopyExW ::
  "WCHAR list \<Rightarrow> nat \<Rightarrow> nat \<Rightarrow> WCHAR list \<Rightarrow> (HRESULT \<times> WCHAR list \<times> nat \<times> nat) option" where
  "StringCchCopyExW m pos cchDest src =
     (if cchDest = 0 \<or> cchDest > STRSAFE_MAX_CCH then Some (STRSAFE_E_INVALID_PARAMETER, m, pos, cchDest)
      else if strlen src < cchDest then do {
        m1 \<leftarrow> mem_write pos (cstr src @ [0]) m;
        Some (S_OK, m1, pos + strlen src, cchDest - strlen src) }
      else do {
        m1 \<leftarrow> mem_write pos (take (cchDest - 1) src @ [0]) m;
        Some (STRSAFE_E_INSUFFICIENT_BUFFER, m1, pos + (cchDest - 1), 1) })"

text \<open>The first loop adds up the sizes, the second copies the pieces one behind the other.\<close>

fun array_total :: "WCHAR list option list \<Rightarrow> nat \<Rightarrow> HRESULT + nat" where
  "array_total [] cbStringsTotal = Inr cbStringsTotal"
| "array_total (p # ps) cbStringsTotal =
     (case p of
        None \<Rightarrow> Inl E_INVALIDARG
      | Some psz \<Rightarrow>
          (case StringCbLengthW psz (STRSAFE_MAX_CCH * sizeof_WCHAR) of
             Inl hr \<Rightarrow> Inl hr
           | Inr cbString \<Rightarrow>
               let t = cbStringsTotal + cbString in
               if t > MAXDWORD then Inl (HRESULT_FROM_WIN32 ERROR_ARITHMETIC_OVERFLOW)
               else array_total ps t))"

fun array_copy ::
  "WCHAR list option list \<Rightarrow> WCHAR list \<Rightarrow> nat \<Rightarrow> nat \<Rightarrow> (HRESULT \<times> WCHAR list) option" where
  "array_copy [] m pszStringEnd cchRemaining = Some (S_OK, m)"
| "array_copy (p # ps) m pszStringEnd cchRemaining = do {
     src \<leftarrow> p;
     (hr, m1, e, r) \<leftarrow> StringCchCopyExW m pszStringEnd cchRemaining src;
     if FAILED hr then Some (hr, m1) else array_copy ps m1 e r }"

definition STRU_AuxAppend_array ::
  "STRU \<Rightarrow> WCHAR list option list \<Rightarrow> world \<Rightarrow> (HRESULT \<times> STRU \<times> world) option" where
  "STRU_AuxAppend_array s rgpszStrings w =
     (case array_total rgpszStrings sizeof_WCHAR of
        Inl hr \<Rightarrow> Some (hr, s, w)
      | Inr cbStringsTotal \<Rightarrow>
          let cbBufSizeRequired = qword (STRU_QueryCB s + cbStringsTotal) in
          if cbBufSizeRequired > MAXDWORD
          then Some (HRESULT_FROM_WIN32 ERROR_ARITHMETIC_OVERFLOW, s, w)
          else
            (case (if buffer_QuerySize (m_Buff s) < cbBufSizeRequired
                   then buffer_Resize sizeof_WCHAR (m_Buff s) cbBufSizeRequired False w
                   else (True, m_Buff s, w)) of
               (False, b, w1) \<Rightarrow> Some (E_OUTOFMEMORY, s\<lparr>m_Buff := b\<rparr>, w1)
             | (True, b, w1) \<Rightarrow>
                 let s1 = s\<lparr>m_Buff := b\<rparr> in do {
                   (hr, m) \<leftarrow> array_copy rgpszStrings (QueryStr s1) (QueryCCH s1)
                     (STRU_QuerySizeCCH s1 - QueryCCH s1);
                   if FAILED hr then
                     (case STRU_SyncWithBuffer (str_with s1 m) of
                        (hr2, s2) \<Rightarrow> Some (if FAILED hr2 then hr2 else hr, s2, w1))
                   else Some (S_OK, (str_with s1 m)\<lparr>m_cchLen := dword cbBufSizeRequired div sizeof_WCHAR - 1\<rparr>, w1) }))"

definition STRU_Append_array :: "STRU \<Rightarrow> WCHAR list option list \<Rightarrow> world \<Rightarrow> (HRESULT \<times> STRU \<times> world) option" where
  "STRU_Append_array s rgpszStrings w = STRU_AuxAppend_array s rgpszStrings w"

definition STRU_Copy_array :: "STRU \<Rightarrow> WCHAR list option list \<Rightarrow> world \<Rightarrow> (HRESULT \<times> STRU \<times> world) option" where
  "STRU_Copy_array s rgpszStrings w = do {
     s1 \<leftarrow> STRU_Reset s;
     STRU_AuxAppend_array s1 rgpszStrings w }"

section \<open>Conversion from a code page\<close>

definition STRU_AuxAppendA ::
  "converter \<Rightarrow> STRU \<Rightarrow> CHAR_t list option \<Rightarrow> nat \<Rightarrow> nat \<Rightarrow> nat \<Rightarrow> world \<Rightarrow> (HRESULT \<times> STRU \<times> world) option" where
  "STRU_AuxAppendA cv s pStr cbStr cbOffset CodePage w =
     (case pStr of
        None \<Rightarrow> Some (E_INVALIDARG, s, w)
      | Some p \<Rightarrow>
          if cbStr = 0 then Some (S_OK, s, w)
          else
            let cb64NewSize = qword (cbOffset + qword (cbStr * sizeof_WCHAR) + sizeof_WCHAR);
                grow = buffer_QuerySize (m_Buff s) < cb64NewSize
            in
            if grow \<and> cb64NewSize > MAXDWORD
            then Some (HRESULT_FROM_WIN32 ERROR_ARITHMETIC_OVERFLOW, s, w)
            else
              (case (if grow then buffer_Resize sizeof_WCHAR (m_Buff s) cb64NewSize False w
                     else (True, m_Buff s, w)) of
                 (False, b, w1) \<Rightarrow> Some (E_OUTOFMEMORY, s\<lparr>m_Buff := b\<rparr>, w1)
               | (True, b, w1) \<Rightarrow>
                   let cchBuffer = dword (qword (dword_sub (buffer_QuerySize b) cbOffset
                                            + 18446744073709551616 - sizeof_WCHAR) div sizeof_WCHAR)
                   in do {
                     (cchCharsCopied, m, w2) \<leftarrow> MultiByteToWideChar cv CodePage MB_ERR_INVALID_CHARS p
                       (long_of_dword (dword cbStr)) (m_pBuffer b) (cbOffset div sizeof_WCHAR)
                       (long_of_dword cchBuffer) w1;
                     let s1 = s\<lparr>m_Buff := b\<lparr>m_pBuffer := m\<rparr>\<rparr>;
                     if cchCharsCopied = 0 then Some (HRESULT_FROM_WIN32 (GetLastError w2), s1, w2)
                     else do {
                       let len = dword (cchCharsCopied + cbOffset div sizeof_WCHAR);
                       m1 \<leftarrow> mem_put len 0 m;
                       Some (S_OK, (str_with s1 m1)\<lparr>m_cchLen := len\<rparr>, w2) } }))"

definition STRU_CopyA_len ::
  "converter \<Rightarrow> STRU \<Rightarrow> CHAR_t list \<Rightarrow> nat \<Rightarrow> nat \<Rightarrow> world \<Rightarrow> (HRESULT \<times> STRU \<times> world) option" where
  "STRU_CopyA_len cv s pszCopyA cchLen CodePage w = STRU_AuxAppendA cv s (Some pszCopyA) cchLen 0 CodePage w"

definition STRU_CopyA_psz :: "converter \<Rightarrow> STRU \<Rightarrow> CHAR_t list \<Rightarrow> world \<Rightarrow> (HRESULT \<times> STRU \<times> world) option" where
  "STRU_CopyA_psz cv s pszCopyA w =
     (case StringCchLength pszCopyA STRSAFE_MAX_CCH of
        Inl hr \<Rightarrow> Some (hr, s, w)
      | Inr cbStr \<Rightarrow> STRU_CopyA_len cv s pszCopyA cbStr CP_UTF8 w)"

definition STRU_AppendA_len ::
  "converter \<Rightarrow> STRU \<Rightarrow> CHAR_t list \<Rightarrow> nat \<Rightarrow> nat \<Rightarrow> world \<Rightarrow> (HRESULT \<times> STRU \<times> world) option" where
  "STRU_AppendA_len cv s pszAppendA cchLen CodePage w =
     (if cchLen = 0 then Some (S_OK, s, w)
      else STRU_AuxAppendA cv s (Some pszAppendA) cchLen (STRU_QueryCB s) CodePage w)"

definition STRU_AppendA_psz :: "converter \<Rightarrow> STRU \<Rightarrow> CHAR_t list \<Rightarrow> world \<Rightarrow> (HRESULT \<times> STRU \<times> world) option" where
  "STRU_AppendA_psz cv s pszAppendA w =
     (case StringCchLength pszAppendA STRSAFE_MAX_CCH of
        Inl hr \<Rightarrow> Some (hr, s, w)
      | Inr cbStr \<Rightarrow> STRU_AppendA_len cv s pszAppendA cbStr CP_UTF8 w)"

section \<open>Formatted output and environment expansion\<close>

definition STRU_SafeVsnwprintf :: "STRU \<Rightarrow> WCHAR list \<Rightarrow> world \<Rightarrow> (HRESULT \<times> STRU \<times> world) option" where
  "STRU_SafeVsnwprintf = str_SafeVsnprintf sizeof_WCHAR STRU_Resize"

definition STRU_SafeSnwprintf :: "STRU \<Rightarrow> WCHAR list \<Rightarrow> world \<Rightarrow> (HRESULT \<times> STRU \<times> world) option" where
  "STRU_SafeSnwprintf s rendered w = STRU_SafeVsnwprintf s rendered w"

record expander =
  ex_result :: "nat \<Rightarrow> WCHAR list \<Rightarrow> nat + WCHAR list"
  ex_spill :: "WCHAR list \<Rightarrow> WCHAR list"

text \<open>The count returned includes the terminator; zero is a failure.\<close>

definition ExpandEnvironmentStrings ::
  "expander \<Rightarrow> nat \<Rightarrow> WCHAR list \<Rightarrow> WCHAR list \<Rightarrow> nat \<Rightarrow> world \<Rightarrow> (nat \<times> WCHAR list \<times> world) option" where
  "ExpandEnvironmentStrings ex k src dst nSize w =
     (case ex_result ex k src of
        Inl e \<Rightarrow> Some (0, dst, SetLastError e w)
      | Inr t \<Rightarrow>
          if length t + 1 \<le> nSize
          then map_option (\<lambda>m. (length t + 1, m, w)) (mem_write 0 (t @ [0]) dst)
          else map_option (\<lambda>m. (length t + 1, m, w)) (mem_write 0 (take nSize (ex_spill ex src)) dst))"

definition CopyAndExpandEnvironmentStrings ::
  "expander \<Rightarrow> STRU \<Rightarrow> WCHAR list \<Rightarrow> world \<Rightarrow> (HRESULT \<times> STRU \<times> world) option" where
  "CopyAndExpandEnvironmentStrings ex s pszSource w = do {
     s1 \<leftarrow> STRU_Reset s;
     (cch, m, w1) \<leftarrow> ExpandEnvironmentStrings ex 0 pszSource (QueryStr s1) (STRU_QuerySizeCCH s1) w;
     let s2 = str_with s1 m;
     if cch = 0 then Some (HRESULT_FROM_WIN32 (GetLastError w1), s2, w1)
     else if cch > STRU_QuerySizeCCH s2 then
       (case STRU_Resize s2 cch w1 of
          (hr, s3, w2) \<Rightarrow>
            if FAILED hr then Some (hr, s3, w2)
            else do {
              (cch, m, w3) \<leftarrow> ExpandEnvironmentStrings ex 1 pszSource (QueryStr s3) (STRU_QuerySizeCCH s3) w2;
              let s4 = str_with s3 m;
              if cch = 0 \<or> cch > STRU_QuerySizeCCH s4
              then Some (HRESULT_FROM_WIN32 (GetLastError w3), s4, w3)
              else (case STRU_SyncWithBuffer s4 of (hr, s5) \<Rightarrow> Some (hr, s5, w3)) })
     else (case STRU_SyncWithBuffer s2 of (hr, s3) \<Rightarrow> Some (hr, s3, w1)) }"

definition ExpandEnvironmentVariables ::
  "expander \<Rightarrow> WCHAR list option \<Rightarrow> STRU option \<Rightarrow> world \<Rightarrow> (HRESULT \<times> STRU option \<times> world) option" where
  "ExpandEnvironmentVariables ex pszString pstrExpandedString w =
     (case (pszString, pstrExpandedString) of
        (Some src, Some s) \<Rightarrow> do {
          (cch, m, w1) \<leftarrow> ExpandEnvironmentStrings ex 0 src (QueryStr s) (STRU_QuerySizeCCH s) w;
          let s2 = str_with s m;
          if cch = 0 then Some (HRESULT_FROM_WIN32 (GetLastError w1), Some s2, w1)
          else if cch > STRU_QuerySizeCCH s2 then
            (case STRU_Resize s2 (dword ((cch + 1) * sizeof_WCHAR)) w1 of
               (hr, s3, w2) \<Rightarrow>
                 if FAILED hr then Some (hr, Some s3, w2)
                 else do {
                   (cch, m, w3) \<leftarrow> ExpandEnvironmentStrings ex 1 src (QueryStr s3) (STRU_QuerySizeCCH s3) w2;
                   let s4 = str_with s3 m;
                   if cch = 0 \<or> cch > STRU_QuerySizeCCH s4
                   then Some (HRESULT_FROM_WIN32 (GetLastError w3), Some s4, w3)
                   else Some (S_OK, Some (snd (STRU_SyncWithBuffer s4)), w3) })
          else Some (S_OK, Some (snd (STRU_SyncWithBuffer s2)), w1) }
      | _ \<Rightarrow> Some (HRESULT_FROM_WIN32 ERROR_INVALID_PARAMETER, pstrExpandedString, w))"

section \<open>MakePathCanonicalizationProof (util.cxx)\<close>

text \<open>Prefix a path so that Windows does not parse it: the string constants are the extended-length
  prefixes for UNC and for other paths.\<close>

definition prefix_unc :: "WCHAR list" where
  "prefix_unc = [92, 92, 63, 92, 85, 78, 67, 92, 0]"

definition prefix_plain :: "WCHAR list" where
  "prefix_plain = [92, 92, 63, 92, 0]"

text \<open>The tests on the first four characters, which stop at the first one that fails.\<close>

definition path_is_unc :: "WCHAR list \<Rightarrow> bool option" where
  "path_is_unc pszName = do {
     c0 \<leftarrow> mem_get 0 pszName;
     if c0 = 92 then map_option (\<lambda>c1. c1 = 92) (mem_get 1 pszName) else Some False }"

definition path_is_canonical :: "WCHAR list \<Rightarrow> bool option" where
  "path_is_canonical pszName = do {
     c2 \<leftarrow> mem_get 2 pszName;
     if c2 = 63 \<or> c2 = 46 then map_option (\<lambda>c3. c3 = 92) (mem_get 3 pszName) else Some False }"

definition MakePathCanonicalizationProof ::
  "WCHAR list \<Rightarrow> STRU \<Rightarrow> world \<Rightarrow> (HRESULT \<times> STRU \<times> world) option" where
  "MakePathCanonicalizationProof pszName pstrPath w = do {
     unc \<leftarrow> path_is_unc pszName;
     if unc then do {
       canonical \<leftarrow> path_is_canonical pszName;
       if canonical then do {
         (hr, s1, w1) \<leftarrow> STRU_Copy_psz pstrPath pszName w;
         if SUCCEEDED hr then do {
           m \<leftarrow> mem_put 2 63 (QueryStr s1);
           Some (hr, str_with s1 m, w1) }
         else Some (hr, s1, w1) }
       else do {
         (hr, s1, w1) \<leftarrow> STRU_Copy_psz pstrPath prefix_unc w;
         if FAILED hr then Some (hr, s1, w1) else STRU_Append_psz s1 (drop 2 pszName) w1 } }
     else do {
       (hr, s1, w1) \<leftarrow> STRU_Copy_psz pstrPath prefix_plain w;
       if FAILED hr then Some (hr, s1, w1) else STRU_Append_psz s1 pszName w1 } }"

end
