(* ===== verification/StruFacts.thy ===== *)
theory StruFacts
  imports Stru
begin

text \<open>
  What the operations of STRU guarantee: the copies and appends, the array append included, meet
  the contract \<open>delivers\<close>; code-page conversion appends what the converter makes of the
  bytes; environment expansion, formatted output and the path prefixing of util.cxx.
\<close>

section \<open>Copy and append\<close>

lemma STRU_Copy_len_delivers:
  assumes "str_ok sizeof_WCHAR s" "n \<le> length p" "n \<le> MAXDWORD"
  shows "delivers sizeof_WCHAR s (take n p) w (STRU_Copy_len s p n w)"
  using str_AuxAppend_delivers [OF assms(1), of 0 n p w] assms
  by (simp add: STRU_Copy_len_def STRU_AuxAppend_def qword_id MAXDWORD_def)

lemma STRU_Append_len_delivers:
  assumes "str_ok sizeof_WCHAR s" "n \<le> length p" "n \<le> MAXDWORD"
  shows "delivers sizeof_WCHAR s (str_text s @ take n p) w (STRU_Append_len s p n w)"
proof (cases "n = 0")
  case True
  then show ?thesis using delivers_keep [OF assms(1)] by (simp add: STRU_Append_len_def)
next
  case False
  have "m_cchLen s \<le> MAXDWORD" using str_ok_bytes [OF assms(1)] by simp
  then have "(m_cchLen s + n + 1) * sizeof_WCHAR < 18446744073709551616"
    using assms(3) by (simp add: MAXDWORD_def)
  from str_AuxAppend_delivers [OF assms(1) order.refl assms(2) this, of w] show ?thesis
    using False assms(3) length_str_text [OF assms(1)]
    by (simp add: STRU_Append_len_def STRU_AuxAppend_def STRU_QueryCB_def QueryCB_ok [OF assms(1)]
        qword_id MAXDWORD_def)
qed

lemma short_string:
  assumes "strlen p < STRSAFE_MAX_CCH"
  shows "StringCchLength p STRSAFE_MAX_CCH = Inr (strlen p)" "strlen p \<le> MAXDWORD"
  using assms by (simp_all add: StringCchLength_Inr STRSAFE_MAX_CCH_def MAXDWORD_def)

lemma STRU_Copy_psz_delivers:
  assumes "str_ok sizeof_WCHAR s" "strlen p < STRSAFE_MAX_CCH"
  shows "delivers sizeof_WCHAR s (cstr p) w (STRU_Copy_psz s p w)"
  using STRU_Copy_len_delivers [OF assms(1) strlen_le short_string(2) [OF assms(2)], of w]
  by (simp add: STRU_Copy_psz_def short_string(1) [OF assms(2)] cstr_take [of p])

lemma STRU_Append_psz_delivers:
  assumes "str_ok sizeof_WCHAR s" "strlen p < STRSAFE_MAX_CCH"
  shows "delivers sizeof_WCHAR s (str_text s @ cstr p) w (STRU_Append_psz s p w)"
  using STRU_Append_len_delivers [OF assms(1) strlen_le short_string(2) [OF assms(2)], of w]
  by (simp add: STRU_Append_psz_def short_string(1) [OF assms(2)] cstr_take [of p])

lemma STRU_Copy_ref_delivers:
  assumes "str_ok sizeof_WCHAR s" "str_ok sizeof_WCHAR r"
  shows "delivers sizeof_WCHAR s (str_text r) w (STRU_Copy_ref s r w)"
    and "STRU_Copy_ptr s r w = STRU_Copy_ref s r w"
proof -
  have "m_cchLen r \<le> length (QueryStr r)" "m_cchLen r \<le> MAXDWORD"
    using str_okD(3) [OF assms(2)] str_ok_bytes [OF assms(2)] by auto
  from STRU_Copy_len_delivers [OF assms(1) this, of w]
  show "delivers sizeof_WCHAR s (str_text r) w (STRU_Copy_ref s r w)"
    by (simp add: STRU_Copy_ref_def QueryCCH_def str_text_def)
qed (simp add: STRU_Copy_ref_def STRU_Copy_ptr_def)

lemma STRU_Append_ref_delivers:
  assumes "str_ok sizeof_WCHAR s" "str_ok sizeof_WCHAR r"
  shows "delivers sizeof_WCHAR s (str_text s @ str_text r) w (STRU_Append_ref s r w)"
    and "STRU_Append_ptr s r w = STRU_Append_ref s r w"
proof -
  have "m_cchLen r \<le> length (QueryStr r)" "m_cchLen r \<le> MAXDWORD"
    using str_okD(3) [OF assms(2)] str_ok_bytes [OF assms(2)] by auto
  from STRU_Append_len_delivers [OF assms(1) this, of w]
  show "delivers sizeof_WCHAR s (str_text s @ str_text r) w (STRU_Append_ref s r w)"
    by (simp add: STRU_Append_ref_def QueryCCH_def str_text_def)
qed (simp add: STRU_Append_ref_def STRU_Append_ptr_def)

section \<open>The array append\<close>

definition pieces_length :: "WCHAR list list \<Rightarrow> nat" where
  "pieces_length ps = sum_list (map strlen ps)"

lemma pieces_length_concat: "pieces_length ps = length (concat (map cstr ps))"
  by (induction ps) (auto simp: pieces_length_def strlen_def)

lemma array_total_correct:
  assumes "\<forall>p \<in> set ps. strlen p < STRSAFE_MAX_CCH" "t \<le> MAXDWORD"
  shows "array_total (map Some ps) t =
    (if t + pieces_length ps * sizeof_WCHAR \<le> MAXDWORD then Inr (t + pieces_length ps * sizeof_WCHAR)
     else Inl (HRESULT_FROM_WIN32 ERROR_ARITHMETIC_OVERFLOW))"
  using assms
proof (induction ps arbitrary: t)
  case (Cons p ps)
  have l: "StringCbLengthW p (STRSAFE_MAX_CCH * sizeof_WCHAR) = Inr (strlen p * sizeof_WCHAR)"
    using Cons.prems(1) by (simp add: StringCbLengthW_def short_string)
  show ?case
    using Cons.IH [of "t + strlen p * sizeof_WCHAR"] Cons.prems l
    by (auto simp: Let_def pieces_length_def algebra_simps)
qed (simp add: pieces_length_def)

lemma array_copy_correct:
  assumes "pos + pieces_length ps < length m" "length m \<le> STRSAFE_MAX_CCH" "m ! pos = 0"
  shows "\<exists>m'. array_copy (map Some ps) m pos (length m - pos) = Some (S_OK, m') \<and> length m' = length m \<and>
    take (pos + pieces_length ps) m' = take pos m @ concat (map cstr ps) \<and> m' ! (pos + pieces_length ps) = 0"
  using assms
proof (induction ps arbitrary: m pos)
  case (Cons p ps)
  let ?e = "pos + strlen p"
  have r: "strlen p < length m - pos" "length m - pos \<noteq> 0" "length m - pos \<le> STRSAFE_MAX_CCH"
    using Cons.prems by (auto simp: pieces_length_def)
  define m1 where "m1 = take pos m @ (cstr p @ [0]) @ drop (pos + length (cstr p @ [0])) m"
  have l: "length (cstr p) = strlen p" by (simp add: strlen_def)
  have W: "mem_write pos (cstr p @ [0]) m = Some m1"
    unfolding m1_def using r by (intro mem_write_Some) (simp add: l)
  have C: "StringCchCopyExW m pos (length m - pos) p = Some (S_OK, m1, ?e, length m - ?e)"
    using r W by (simp add: StringCchCopyExW_def not_less)
  have m1: "length m1 = length m" "take ?e m1 = take pos m @ cstr p" "m1 ! ?e = 0"
    using r by (simp_all add: m1_def l nth_append)
  have "?e + pieces_length ps < length m1" "length m1 \<le> STRSAFE_MAX_CCH"
    using Cons.prems by (simp_all add: m1 pieces_length_def)
  from Cons.IH [OF this m1(3)] obtain m' where
    "array_copy (map Some ps) m1 ?e (length m - ?e) = Some (S_OK, m')" "length m' = length m"
    "take (?e + pieces_length ps) m' = take ?e m1 @ concat (map cstr ps)" "m' ! (?e + pieces_length ps) = 0"
    unfolding m1(1) by auto
  then show ?case using C m1(2) by (simp add: pieces_length_def add.assoc)
qed (simp add: pieces_length_def)

text \<open>The copying loop and the new length, when the buffer has room for everything.\<close>

lemma array_copy_text:
  assumes ok: "str_ok sizeof_WCHAR s" and room: "(m_cchLen s + pieces_length ps + 1) * sizeof_WCHAR \<le> m_cbBuffer (m_Buff s)"
  obtains m' where
    "array_copy (map Some ps) (QueryStr s) (QueryCCH s) (STRU_QuerySizeCCH s - QueryCCH s) = Some (S_OK, m')"
    "str_ok sizeof_WCHAR ((str_with s m')\<lparr>m_cchLen := m_cchLen s + pieces_length ps\<rparr>)"
    "str_text ((str_with s m')\<lparr>m_cchLen := m_cchLen s + pieces_length ps\<rparr>)
       = str_text s @ concat (map cstr ps)"
proof -
  have len: "length (QueryStr s) = m_cbBuffer (m_Buff s) div 2" "m_cbBuffer (m_Buff s) \<le> MAXDWORD"
    using str_okD(5,6) [OF ok] by simp_all
  have l: "m_cchLen s + pieces_length ps < length (QueryStr s)" using room len by simp
  have "length (QueryStr s) \<le> STRSAFE_MAX_CCH" using len by (simp add: MAXDWORD_def STRSAFE_MAX_CCH_def)
  from array_copy_correct [OF l this str_okD(4) [OF ok]] obtain m' where
    M: "array_copy (map Some ps) (QueryStr s) (m_cchLen s) (length (QueryStr s) - m_cchLen s) = Some (S_OK, m')"
      "length m' = length (QueryStr s)"
      "take (m_cchLen s + pieces_length ps) m' = take (m_cchLen s) (QueryStr s) @ concat (map cstr ps)"
      "m' ! (m_cchLen s + pieces_length ps) = 0" by blast
  have "m_cchLen s + pieces_length ps < length m'" using M(2) l by simp
  note S = str_ok_with [OF ok M(2) this M(4)]
  show thesis
    by (rule that [of m']) (use M S QuerySizeCCH_ok [OF ok] in \<open>simp_all add: STRU_QuerySizeCCH_def QueryCCH_def str_text_def\<close>)
qed

lemma array_append_sizes:
  assumes ok: "str_ok sizeof_WCHAR s" and ps: "\<forall>p \<in> set ps. strlen p < STRSAFE_MAX_CCH"
  defines "n \<equiv> (m_cchLen s + pieces_length ps + 1) * sizeof_WCHAR"
  shows "n \<le> MAXDWORD \<Longrightarrow> array_total (map Some ps) sizeof_WCHAR = Inr (2 + pieces_length ps * 2)"
    "n \<le> MAXDWORD \<Longrightarrow> qword (STRU_QueryCB s + (2 + pieces_length ps * 2)) = n"
    "\<not> n \<le> MAXDWORD \<Longrightarrow>
       STRU_AuxAppend_array s (map Some ps) w = Some (HRESULT_FROM_WIN32 ERROR_ARITHMETIC_OVERFLOW, s, w)"
proof -
  have tot: "array_total (map Some ps) sizeof_WCHAR =
    (if 2 + pieces_length ps * 2 \<le> MAXDWORD then Inr (2 + pieces_length ps * 2)
     else Inl (HRESULT_FROM_WIN32 ERROR_ARITHMETIC_OVERFLOW))"
    using array_total_correct [OF ps, of 2] by (simp add: MAXDWORD_def)
  have cb: "STRU_QueryCB s = m_cchLen s * 2" by (simp add: STRU_QueryCB_def QueryCB_ok [OF ok])
  have ml: "m_cchLen s * 2 \<le> MAXDWORD" using str_ok_bytes [OF ok] by simp
  show "n \<le> MAXDWORD \<Longrightarrow> array_total (map Some ps) sizeof_WCHAR = Inr (2 + pieces_length ps * 2)"
    unfolding tot by (simp add: n_def)
  show "n \<le> MAXDWORD \<Longrightarrow> qword (STRU_QueryCB s + (2 + pieces_length ps * 2)) = n"
    by (simp add: n_def qword_id cb MAXDWORD_def)
  have q: "2 + pieces_length ps * 2 \<le> MAXDWORD \<Longrightarrow> qword (STRU_QueryCB s + (2 + pieces_length ps * 2)) = n"
    using ml by (simp add: n_def qword_id cb MAXDWORD_def)
  show "\<not> n \<le> MAXDWORD \<Longrightarrow>
      STRU_AuxAppend_array s (map Some ps) w = Some (HRESULT_FROM_WIN32 ERROR_ARITHMETIC_OVERFLOW, s, w)"
    using q unfolding STRU_AuxAppend_array_def tot by (auto simp: Let_def)
qed

lemma STRU_AuxAppend_array_delivers:
  assumes ok: "str_ok sizeof_WCHAR s" and ps: "\<forall>p \<in> set ps. strlen p < STRSAFE_MAX_CCH"
  shows "delivers sizeof_WCHAR s (str_text s @ concat (map cstr ps)) w
    (STRU_AuxAppend_array s (map Some ps) w)"
proof -
  let ?n = "pieces_length ps" and ?t = "str_text s @ concat (map cstr ps)"
  let ?N = "(m_cchLen s + ?n + 1) * sizeof_WCHAR"
  note sizes = array_append_sizes [OF ok ps]
  have lt: "length ?t = m_cchLen s + ?n" by (simp add: length_str_text [OF ok] pieces_length_concat)
  show ?thesis
  proof (cases "?N \<le> MAXDWORD")
    case False
    then have "\<not> (length ?t + 1) * sizeof_WCHAR \<le> MAXDWORD" unfolding lt by simp
    then show ?thesis unfolding sizes(3) [OF False] by (rule delivers_refuse [OF ok FAILED_codes(8)])
  next
    case N: True
    obtain r b w1 where R: "buffer_Resize sizeof_WCHAR (m_Buff s) ?N False w = (r, b, w1)" by (metis prod_cases3)
    have e: "(if buffer_QuerySize (m_Buff s) < ?N then buffer_Resize sizeof_WCHAR (m_Buff s) ?N False w
        else (True, m_Buff s, w)) = (r, b, w1)"
      using R by (auto simp: buffer_Resize_def buffer_QuerySize_def)
    note g = str_grow [OF ok R]
    define s1 where "s1 = s\<lparr>m_Buff := b\<rparr>"
    note unf = STRU_AuxAppend_array_def sizes(1,2) [OF N] sum.case Let_def e prod.case s1_def [symmetric]
    show ?thesis
    proof (cases r)
      case False
      have "STRU_AuxAppend_array s (map Some ps) w = Some (E_OUTOFMEMORY, s, w1)"
        unfolding unf using N False g(6) by (simp add: s1_def)
      moreover have "\<not> generous w" using g(4) N False by auto
      moreover have "m_cbBuffer (m_Buff s) < ?N" using R False by (auto simp: buffer_Resize_def split: if_splits)
      moreover have "heap_live w1 = heap_live w" using g(3,6) False by (simp add: owned_def)
      ultimately show ?thesis using ok unfolding delivers_def lt by (simp add: FAILED_not_S_OK)
    next
      case True
      have ok1: "str_ok sizeof_WCHAR s1" and tx: "str_text s1 = str_text s" and ml: "m_cchLen s1 = m_cchLen s"
        using g(1,2) by (simp_all add: s1_def)
      obtain m' where M: "array_copy (map Some ps) (QueryStr s1) (QueryCCH s1) (STRU_QuerySizeCCH s1 - QueryCCH s1) = Some (S_OK, m')"
        "str_ok sizeof_WCHAR ((str_with s1 m')\<lparr>m_cchLen := m_cchLen s + ?n\<rparr>)"
        "str_text ((str_with s1 m')\<lparr>m_cchLen := m_cchLen s + ?n\<rparr>) = ?t"
        using array_copy_text [OF ok1, of ps] g(7) [OF True] unfolding ml tx by (auto simp: s1_def)
      let ?s' = "(str_with s1 m')\<lparr>m_cchLen := m_cchLen s + ?n\<rparr>"
      have c: "dword ?N div 2 - 1 = m_cchLen s + ?n" using N by (simp add: dword_id)
      have res: "STRU_AuxAppend_array s (map Some ps) w = Some (S_OK, ?s', w1)"
        unfolding unf using N True M(1) c by simp
      have "heap_live w1 - owned ?s' = heap_live w - owned s" "m_cbBuffer (m_Buff s) \<le> m_cbBuffer (m_Buff ?s')"
        using g(3,5) by (simp_all add: s1_def owned_def str_with_def)
      moreover have "?N \<le> m_cbBuffer (m_Buff s) \<Longrightarrow> w1 = w" using R by (simp add: buffer_Resize_def)
      ultimately show ?thesis
        unfolding res delivers_def lt option.case prod.case if_P [OF refl] using M(2,3) g(4) by blast
    qed
  qed
qed

lemma STRU_Copy_array_correct:
  assumes ok: "str_ok sizeof_WCHAR s" and ps: "\<forall>p \<in> set ps. strlen p < STRSAFE_MAX_CCH"
  shows "\<exists>hr s' w'. STRU_Copy_array s (map Some ps) w = Some (hr, s', w') \<and> str_ok sizeof_WCHAR s' \<and>
    (if hr = S_OK then str_text s' = concat (map cstr ps) else FAILED hr \<and> str_text s' = []) \<and>
    heap_live w' - owned s' = heap_live w - owned s \<and>
    (generous w \<and> (length (concat (map cstr ps)) + 1) * sizeof_WCHAR \<le> MAXDWORD \<longrightarrow> hr = S_OK)"
proof -
  obtain s1 where R: "str_Reset s = Some s1" "str_ok sizeof_WCHAR s1" "str_text s1 = []"
    using str_Reset_correct [OF ok] by auto
  have "owned s1 = owned s" using R(1) by (auto simp: str_Reset_def owned_def str_with_def bind_eq_Some_conv)
  note D = STRU_AuxAppend_array_delivers [OF R(2) ps, of w, unfolded R(3) append_Nil]
  show ?thesis
  proof (rule deliversE [OF D])
    fix s' w'
    assume "STRU_AuxAppend_array s1 (map Some ps) w = Some (S_OK, s', w')" "str_ok sizeof_WCHAR s'"
      "str_text s' = concat (map cstr ps)" "heap_live w' - owned s' = heap_live w - owned s1"
    then show ?thesis using R \<open>owned s1 = owned s\<close> by (simp add: STRU_Copy_array_def STRU_Reset_def)
  next
    fix hr w'
    assume "STRU_AuxAppend_array s1 (map Some ps) w = Some (hr, s1, w')" "FAILED hr" "heap_live w' = heap_live w"
      "\<not> (generous w \<and> (length (concat (map cstr ps)) + 1) * sizeof_WCHAR \<le> MAXDWORD)"
    then show ?thesis using R \<open>owned s1 = owned s\<close>
      by (simp add: STRU_Copy_array_def STRU_Reset_def FAILED_not_S_OK)
  qed
qed

section \<open>Conversion from a code page\<close>

lemma MultiByteToWideChar_Some:
  assumes "off + nat avail \<le> length dst" "nat cb \<le> length src"
  shows "\<exists>n m w'. MultiByteToWideChar cv cp fl src cb dst off avail w = Some (n, m, w') \<and>
    length m = length dst \<and> take off m = take off dst \<and> heap_live w' = heap_live w \<and>
    (generous w \<longrightarrow> generous w') \<and>
    (0 < avail \<longrightarrow> n \<le> nat avail \<and> (n \<noteq> 0 \<longrightarrow> mb_convert cv cp fl src cb = Inr (take n (drop off m))))"
  using store_conversion_Some [OF assms(1), of
      "if cb = 0 then Inl ERROR_INVALID_PARAMETER else mb_convert cv cp fl src cb" "mb_spill cv src" w]
    assms(2)
  by (auto simp: MultiByteToWideChar_def split: if_splits)

lemma MultiByteToWideChar_error:
  assumes "converter_ok cv" "MultiByteToWideChar cv cp fl src cb dst off avail w = Some (0, m, w')" "avail \<ge> 0"
  shows "FAILED (HRESULT_FROM_WIN32 (GetLastError w'))"
    and "mb_convert cv cp fl src cb = Inr out \<Longrightarrow> cb \<noteq> 0 \<Longrightarrow> avail < int (length out)"
proof -
  have "0 < last_error w' \<and> last_error w' < 2147483648"
  proof (cases "mb_convert cv cp fl src cb")
    case (Inl e)
    then have "0 < e \<and> e < 2147483648" using assms(1) unfolding converter_ok_def by (metis (mono_tags, lifting) sum.simps(5))
    then show ?thesis using assms(2,3) Inl
      by (auto simp: MultiByteToWideChar_def store_conversion_def error_codes split: if_splits)
  next
    case (Inr out)
    then have "out \<noteq> []" using assms(1) unfolding converter_ok_def by (metis (mono_tags, lifting) sum.simps(6))
    then show ?thesis using assms(2,3) Inr
      by (auto simp: MultiByteToWideChar_def store_conversion_def error_codes split: if_splits)
  qed
  then show "FAILED (HRESULT_FROM_WIN32 (GetLastError w'))"
    using HRESULT_FROM_WIN32_FAILED by (simp add: GetLastError_def)
  assume i: "mb_convert cv cp fl src cb = Inr out" "cb \<noteq> 0"
  then have "out \<noteq> []" using assms(1) unfolding converter_ok_def by (metis (mono_tags, lifting) sum.simps(6))
  then show "avail < int (length out)"
    using assms(2,3) i by (auto simp: MultiByteToWideChar_def store_conversion_def split: if_splits)
qed

text \<open>The contract of the conversion: on success the text before the offset is followed by what the
  converter makes of the bytes. On failure only the shape of the object is certain: unlike
  \<open>STRA::AuxAppendW\<close> the code does not terminate the string again.\<close>

definition widens ::
  "nat \<Rightarrow> nat \<Rightarrow> nat + WCHAR list \<Rightarrow> STRU \<Rightarrow> world \<Rightarrow> (HRESULT \<times> STRU \<times> world) option \<Rightarrow> bool" where
  "widens off n conv s w r =
     (case r of None \<Rightarrow> False
      | Some (hr, s', w') \<Rightarrow>
          buffer_ok sizeof_WCHAR (m_Buff s') \<and> heap_live w' - owned s' = heap_live w - owned s \<and>
          (if hr = S_OK
           then str_ok sizeof_WCHAR s' \<and> (\<exists>out. conv = Inr out \<and> str_text s' = take off (str_text s) @ out)
           else FAILED hr \<and> m_cchLen s' = m_cchLen s) \<and>
          (generous w \<and> (off + n + 1) * sizeof_WCHAR \<le> MAXDWORD \<and> (\<exists>out. conv = Inr out \<and> length out \<le> n) \<longrightarrow>
             hr = S_OK))"

lemma widens_convert:
  assumes ok: "str_ok sizeof_WCHAR s" and off: "off \<le> m_cchLen s" and cv: "converter_ok cv"
    and n: "0 < n" "n \<le> length p"
    and room: "(off + n + 1) * sizeof_WCHAR \<le> m_cbBuffer (m_Buff s)"
  defines "avail \<equiv> m_cbBuffer (m_Buff s) div sizeof_WCHAR - off - 1"
  shows "widens off n (mb_convert cv cp fl p (int n)) s w
    (do { (k, m, w2) \<leftarrow> MultiByteToWideChar cv cp fl p (int n) (m_pBuffer (m_Buff s)) off (int avail) w;
          let s1 = s\<lparr>m_Buff := (m_Buff s)\<lparr>m_pBuffer := m\<rparr>\<rparr>;
          if k = 0 then Some (HRESULT_FROM_WIN32 (GetLastError w2), s1, w2)
          else do {
            let len = dword (k + off);
            m1 \<leftarrow> mem_put len 0 m;
            Some (S_OK, (str_with s1 m1)\<lparr>m_cchLen := len\<rparr>, w2) } })"
proof -
  note D = str_okD [OF ok]
  have len: "length (m_pBuffer (m_Buff s)) = m_cbBuffer (m_Buff s) div 2"
    using D(6) by (simp add: QueryStr_def QueryPtr_def)
  have av: "off + avail + 1 = m_cbBuffer (m_Buff s) div 2" "n \<le> avail" using room by (simp_all add: avail_def)
  have "off + nat (int avail) \<le> length (m_pBuffer (m_Buff s))" using av len by simp
  from MultiByteToWideChar_Some [OF this, of "int n" p cv cp fl w] n obtain k m w2 where
    W: "MultiByteToWideChar cv cp fl p (int n) (m_pBuffer (m_Buff s)) off (int avail) w = Some (k, m, w2)"
    and m: "length m = length (m_pBuffer (m_Buff s))" "take off m = take off (m_pBuffer (m_Buff s))"
      "heap_live w2 = heap_live w" "k \<le> avail" "k \<noteq> 0 \<Longrightarrow> mb_convert cv cp fl p (int n) = Inr (take k (drop off m))"
    using av by auto
  let ?s1 = "s\<lparr>m_Buff := (m_Buff s)\<lparr>m_pBuffer := m\<rparr>\<rparr>"
  have b1: "buffer_ok sizeof_WCHAR (m_Buff ?s1)" using D(1) m(1) by (simp add: buffer_ok_def)
  show ?thesis
  proof (cases "k = 0")
    case True
    note E = MultiByteToWideChar_error [OF cv W [unfolded True]]
    have "\<not> (\<exists>out. mb_convert cv cp fl p (int n) = Inr out \<and> length out \<le> n)"
      using E(2) n(1) av(2) by fastforce
    then show ?thesis using W True E(1) b1 m(3) by (auto simp: widens_def owned_def)
  next
    case False
    have dl: "dword (k + off) = off + k"
      using m(4) av D(5) by (intro trans [OF dword_id]) (auto simp: MAXDWORD_def)
    have lt: "off + k < length m" using m(1,4) av len by simp
    have ln: "length m = length (QueryStr s)" using m(1) by (simp add: QueryStr_def QueryPtr_def)
    have e: "str_with ?s1 (m[off + k := 0]) = str_with s (m[off + k := 0])" by (simp add: str_with_def)
    have "length (m[off + k := 0]) = length (QueryStr s)" "off + k < length (m[off + k := 0])"
      "m[off + k := 0] ! (off + k) = 0" using ln lt by simp_all
    note S = str_ok_with [OF ok this]
    have "take off m = take off (str_text s)"
      using m(2) off by (simp add: str_text_def QueryStr_def QueryPtr_def min_absorb1)
    then have "take (off + k) m = take off (str_text s) @ take k (drop off m)" by (simp add: take_add)
    then have "take (off + k) (m[off + k := 0]) = take off (str_text s) @ take k (drop off m)" by simp
    then show ?thesis
      using W False dl lt S m(3) m(5) [OF False] str_okD(1) [OF S(1)]
      by (simp add: widens_def Let_def mem_simps owned_def str_with_def)
  qed
qed

lemma STRU_AuxAppendA_correct:
  assumes ok: "str_ok sizeof_WCHAR s" and off: "off \<le> m_cchLen s" and cv: "converter_ok cv"
    and n: "0 < n" "n \<le> length p" "n < 2147483648"
  shows "widens off n (mb_convert cv cp MB_ERR_INVALID_CHARS p (int n)) s w
    (STRU_AuxAppendA cv s (Some p) n (off * sizeof_WCHAR) cp w)"
proof -
  let ?N = "(off + n + 1) * sizeof_WCHAR"
  have ml: "m_cchLen s * 2 \<le> MAXDWORD" using str_ok_bytes [OF ok] by simp
  have q: "qword (off * 2 + qword (n * 2) + 2) = ?N"
    using off ml n(3) by (simp add: qword_id MAXDWORD_def algebra_simps)
  have ln: "long_of_dword (dword n) = int n" using n(3) by (simp add: dword_id MAXDWORD_def long_of_dword_def)
  obtain r b w1 where R: "buffer_Resize sizeof_WCHAR (m_Buff s) ?N False w = (r, b, w1)" by (metis prod_cases3)
  have e: "(if buffer_QuerySize (m_Buff s) < ?N then buffer_Resize sizeof_WCHAR (m_Buff s) ?N False w
      else (True, m_Buff s, w)) = (r, b, w1)"
    using R by (auto simp: buffer_Resize_def buffer_QuerySize_def)
  note g = str_grow [OF ok R]
  have size: "m_cbBuffer (m_Buff s) \<le> MAXDWORD" using str_okD(5) [OF ok] .
  note unf = STRU_AuxAppendA_def option.case if_not_P [OF gr_implies_not0 [OF n(1)]] Let_def q e prod.case
  consider (ov) "\<not> ?N \<le> MAXDWORD" | (oom) "?N \<le> MAXDWORD" "\<not> r" | (go) "?N \<le> MAXDWORD" r by blast
  then show ?thesis
  proof cases
    case ov
    then have "buffer_QuerySize (m_Buff s) < ?N" using size by (simp add: buffer_QuerySize_def)
    then show ?thesis unfolding unf using ov str_okD(1) [OF ok] by (simp add: widens_def)
  next
    case oom
    then have "\<not> generous w" using g(4) by blast
    then show ?thesis unfolding unf using oom g(3,6) str_okD(1) [OF ok]
      by (simp add: widens_def owned_def not_less)
  next
    case go
    let ?s1 = "s\<lparr>m_Buff := b\<rparr>"
    have room: "?N \<le> m_cbBuffer (m_Buff ?s1)" using g(7) [OF go(2)] by simp
    have sb: "m_cbBuffer b \<le> MAXDWORD" using str_okD(5) [OF g(1)] by simp
    have ds: "dword_sub (buffer_QuerySize b) (off * 2) = m_cbBuffer b - off * 2"
      using room sb by (simp add: buffer_QuerySize_def dword_sub_id)
    have "m_cbBuffer b - off * 2 + 18446744073709551616 - 2 = (m_cbBuffer b - off * 2 - 2) + 18446744073709551616"
      using room by simp
    moreover have "m_cbBuffer b - off * 2 - 2 < 18446744073709551616" using sb by (simp add: MAXDWORD_def)
    ultimately have qs: "qword (m_cbBuffer b - off * 2 + 18446744073709551616 - 2) = m_cbBuffer b - off * 2 - 2"
      unfolding qword_def by (simp only: mod_add_self2 mod_less)
    have dv: "(m_cbBuffer b - off * 2 - 2) div 2 = m_cbBuffer b div 2 - off - 1" by simp
    have av: "long_of_dword (dword (m_cbBuffer b div 2 - off - 1)) = int (m_cbBuffer b div 2 - off - 1)"
      using sb by (simp add: dword_id MAXDWORD_def long_of_dword_def)
    have W: "widens off n (mb_convert cv cp MB_ERR_INVALID_CHARS p (int n)) ?s1 w1
        (STRU_AuxAppendA cv s (Some p) n (off * sizeof_WCHAR) cp w)"
      using widens_convert [OF g(1) _ cv n(1,2) room, of cp MB_ERR_INVALID_CHARS w1] off go
      unfolding unf ds qs dv av ln by (simp add: not_less cong: if_cong)
    then show ?thesis using g(2-4) by (auto simp: widens_def split: option.splits)
  qed
qed

section \<open>Formatted output\<close>

interpretation stru_fmt: resizable sizeof_WCHAR STRU_Resize
proof unfold_locales
  fix s s' :: STRU and n w w' hr
  assume ok: "buffer_ok sizeof_WCHAR (m_Buff s)" and n: "n \<le> 65537"
    and r: "STRU_Resize s n w = (S_OK, s', w')"
  obtain k b w1 where R: "buffer_Resize sizeof_WCHAR (m_Buff s) (n * 2) False w = (k, b, w1)" by (metis prod_cases3)
  have q: "qword (n * 2) = n * 2" "n * 2 \<le> MAXDWORD" using n by (simp_all add: qword_id MAXDWORD_def)
  with R r have k: "k" and s': "s' = s\<lparr>m_Buff := b\<rparr>"
    by (auto simp: STRU_Resize_def Let_def split: if_splits)
  have "m_cbBuffer b \<le> max (m_cbBuffer (m_Buff s)) (n * 2)"
    using R k dword_le_self by (auto simp: buffer_Resize_def split: if_splits prod.splits option.splits)
  then show "buffer_ok sizeof_WCHAR (m_Buff s') \<and> n \<le> QuerySizeCCH sizeof_WCHAR s' \<and>
      QuerySizeCCH sizeof_WCHAR s' \<le> max (QuerySizeCCH sizeof_WCHAR s) n"
    using buffer_Resize_grows [OF ok R [unfolded eqTrueI [OF k]]] s'
    by (auto simp: QuerySizeCCH_def buffer_QuerySize_def max_def split: if_splits)
next
  fix s s' :: STRU and n w w' hr
  assume "STRU_Resize s n w = (hr, s', w')" "hr \<noteq> S_OK"
  then show "FAILED hr \<and> s' = s"
    using buffer_Resize_fails [of sizeof_WCHAR "m_Buff s" "qword (n * 2)" False w]
    by (auto simp: STRU_Resize_def Let_def split: if_splits prod.splits)
qed

section \<open>Comparison\<close>

lemma STRU_StartsWith_psz_correct:
  assumes "str_ok sizeof_WCHAR s" "strlen p < STRSAFE_MAX_CCH"
  shows "STRU_StartsWith_psz ord_eq s (Some p) ic \<longleftrightarrow>
    strlen p \<le> m_cchLen s \<and> ord_eq ic (take (strlen p) (str_text s)) (cstr p)"
  using short_string(1) [OF assms(2)]
  by (auto simp: STRU_StartsWith_psz_def str_text_def min_absorb1 cstr_take [of p])

lemma STRU_EndsWith_psz_correct:
  assumes "str_ok sizeof_WCHAR s" "strlen p < STRSAFE_MAX_CCH"
  shows "STRU_EndsWith_psz ord_eq s (Some p) ic \<longleftrightarrow>
    strlen p \<le> m_cchLen s \<and> ord_eq ic (drop (m_cchLen s - strlen p) (str_text s)) (cstr p)"
  using short_string(1) [OF assms(2)]
  by (auto simp: STRU_EndsWith_psz_def str_text_def drop_take cstr_take [of p] Let_def)

section \<open>Environment expansion\<close>

lemma expand_fits:
  assumes "ex_result ex k src = Inr t" "length t < length dst"
  shows "ExpandEnvironmentStrings ex k src dst (length dst) w = Some (length t + 1, t @ 0 # drop (length t + 1) dst, w)"
  using assms by (simp add: ExpandEnvironmentStrings_def mem_simps)

lemma expand_short:
  assumes "ex_result ex k src = Inr t" "length dst \<le> length t"
  obtains m where "ExpandEnvironmentStrings ex k src dst (length dst) w = Some (length t + 1, m, w)" "length m = length dst"
proof -
  have "length (take (length dst) (ex_spill ex src)) \<le> length dst" by simp
  then obtain m where "mem_write 0 (take (length dst) (ex_spill ex src)) dst = Some m" by (simp add: mem_simps)
  with assms mem_write_length [OF this] that [of m] show thesis by (simp add: ExpandEnvironmentStrings_def)
qed

text \<open>Text and terminator at the front of a well-formed buffer are the string after SyncWithBuffer.\<close>

lemma sync_text:
  assumes b: "buffer_ok sizeof_WCHAR (m_Buff s)" and q: "QueryStr s = t @ 0 # r" and t: "0 \<notin> set t"
  shows "STRU_SyncWithBuffer s = (S_OK, s\<lparr>m_cchLen := length t\<rparr>) \<and>
    str_ok sizeof_WCHAR (s\<lparr>m_cchLen := length t\<rparr>) \<and> str_text (s\<lparr>m_cchLen := length t\<rparr>) = t"
proof -
  have "QuerySizeCCH sizeof_WCHAR s \<le> STRSAFE_MAX_CCH"
    using b div_le_mono [of "m_cbBuffer (m_Buff s)" 4294967295 2]
    by (simp add: QuerySizeCCH_def buffer_QuerySize_def buffer_ok_def STRSAFE_MAX_CCH_def MAXDWORD_def)
  from str_SyncWithBuffer_correct [OF b _ this] show ?thesis
    using t by (simp add: q STRU_SyncWithBuffer_def strlen_append_nul cstr_append_nul)
qed

lemma owned_with [simp]: "owned (str_with s m) = owned s" "owned (s\<lparr>m_cchLen := n\<rparr>) = owned s"
  by (simp_all add: owned_def str_with_def)

text \<open>The second attempt: grow to the size that was reported, and expand again.\<close>

lemma expand_retry:
  assumes b: "buffer_ok sizeof_WCHAR (m_Buff s)" and t: "ex_result ex k src = Inr t" "0 \<notin> set t"
    and len: "(length t + 1) * sizeof_WCHAR \<le> MAXDWORD"
  obtains (nomem) w1 where "STRU_Resize s (length t + 1) w = (E_OUTOFMEMORY, s, w1)" "heap_live w1 = heap_live w"
      "\<not> generous w"
  | (expanded) s3 w1 m s' where "STRU_Resize s (length t + 1) w = (S_OK, s3, w1)"
      "ExpandEnvironmentStrings ex k src (QueryStr s3) (STRU_QuerySizeCCH s3) w1 = Some (length t + 1, m, w1)"
      "length t + 1 \<le> STRU_QuerySizeCCH s3" "STRU_SyncWithBuffer (str_with s3 m) = (S_OK, s')"
      "str_ok sizeof_WCHAR s'" "str_text s' = t" "heap_live w1 - owned s' = heap_live w - owned s"
proof -
  have qc: "qword ((length t + 1) * 2) = (length t + 1) * 2" using len by (simp add: qword_id MAXDWORD_def)
  obtain r b3 w1 where B: "buffer_Resize sizeof_WCHAR (m_Buff s) ((length t + 1) * 2) False w = (r, b3, w1)"
    by (metis prod_cases3)
  have RS: "STRU_Resize s (length t + 1) w = (if r then S_OK else E_OUTOFMEMORY, s\<lparr>m_Buff := b3\<rparr>, w1)"
    unfolding STRU_Resize_def qc Let_def B using len by (simp add: not_less)
  define s3 where "s3 = s\<lparr>m_Buff := b3\<rparr>"
  have bal: "heap_live w1 - owned s3 = heap_live w - owned s"
    using buffer_Resize_live [OF B] by (simp add: s3_def owned_def)
  show thesis
  proof (cases r)
    case False
    then have "b3 = m_Buff s" using B buffer_Resize_fails [of sizeof_WCHAR "m_Buff s" "(length t + 1) * 2" False w b3 w1] by simp
    moreover have "\<not> generous w" using buffer_Resize_generous [of w _ sizeof_WCHAR "m_Buff s" False] B len False by fastforce
    ultimately show ?thesis using nomem [of w1] RS False bal by (simp add: s3_def owned_def)
  next
    case True
    note B' = B [unfolded eqTrueI [OF True]]
    have b3: "buffer_ok sizeof_WCHAR (m_Buff s3)" using buffer_Resize_grows [OF b B'] by (simp add: s3_def)
    have fit: "length t < length (QueryStr s3)"
      using buf.room [OF b B'] by (simp add: s3_def QueryStr_def QueryPtr_def)
    have q3: "STRU_QuerySizeCCH s3 = length (QueryStr s3)"
      using b3 by (simp add: STRU_QuerySizeCCH_def QuerySizeCCH_def buffer_QuerySize_def buffer_ok_def QueryStr_def QueryPtr_def)
    let ?m = "t @ 0 # drop (length t + 1) (QueryStr s3)"
    have b4: "buffer_ok sizeof_WCHAR (m_Buff (str_with s3 ?m))"
      using b3 fit by (simp add: buffer_ok_def QueryStr_def QueryPtr_def)
    have q4: "QueryStr (str_with s3 ?m) = ?m" by simp
    show ?thesis
      by (rule expanded [of s3 w1 ?m "(str_with s3 ?m)\<lparr>m_cchLen := length t\<rparr>"])
        (use RS True expand_fits [OF t(1) fit] q3 fit sync_text [OF b4 q4 t(2)] bal in \<open>auto simp: s3_def\<close>)
  qed
qed

lemma CopyAndExpand_correct:
  assumes ok: "str_ok sizeof_WCHAR s" and t: "ex_result ex 0 src = Inr t" "ex_result ex 1 src = Inr t" "0 \<notin> set t"
    and len: "(length t + 1) * sizeof_WCHAR \<le> MAXDWORD"
  shows "\<exists>hr s' w'. CopyAndExpandEnvironmentStrings ex s src w = Some (hr, s', w') \<and>
    heap_live w' - owned s' = heap_live w - owned s \<and>
    (if hr = S_OK then str_ok sizeof_WCHAR s' \<and> str_text s' = t else hr = E_OUTOFMEMORY \<and> m_cchLen s' = 0) \<and>
    (generous w \<longrightarrow> hr = S_OK)"
proof -
  obtain s1 where R: "str_Reset s = Some s1" "str_ok sizeof_WCHAR s1" "str_text s1 = []"
    using str_Reset_correct [OF ok] by auto
  have o1: "owned s1 = owned s" and m0: "m_cchLen s1 = 0"
    using R(1) by (auto simp: str_Reset_def bind_eq_Some_conv)
  note q1 = QuerySizeCCH_ok [OF R(2)]
  note unf = CopyAndExpandEnvironmentStrings_def STRU_Reset_def R(1) STRU_QuerySizeCCH_def q1 bind.bind_lunit
  show ?thesis
  proof (cases "length t < length (QueryStr s1)")
    case True
    let ?m = "t @ 0 # drop (length t + 1) (QueryStr s1)"
    have b2: "buffer_ok sizeof_WCHAR (m_Buff (str_with s1 ?m))" and q2: "QueryStr (str_with s1 ?m) = ?m"
      using str_okD(1) [OF R(2)] True by (simp_all add: buffer_ok_def QueryStr_def QueryPtr_def)
    from sync_text [OF b2 q2 t(3)] show ?thesis
      unfolding unf using expand_fits [OF t(1) True] True o1 q1 by (simp add: Let_def)
  next
    case False
    obtain m where E: "ExpandEnvironmentStrings ex 0 src (QueryStr s1) (length (QueryStr s1)) w = Some (length t + 1, m, w)"
      and lm: "length m = length (QueryStr s1)"
      using expand_short [OF t(1), of "QueryStr s1" w] False by auto
    have b2: "buffer_ok sizeof_WCHAR (m_Buff (str_with s1 m))"
      using str_okD(1) [OF R(2)] lm by (simp add: buffer_ok_def QueryStr_def QueryPtr_def)
    have big: "length t + 1 > length (QueryStr s1)" using False by simp
    show ?thesis
    proof (rule expand_retry [OF b2 t(2,3) len, where w = w])
      fix w1
      assume "STRU_Resize (str_with s1 m) (length t + 1) w = (E_OUTOFMEMORY, str_with s1 m, w1)"
        "heap_live w1 = heap_live w" "\<not> generous w"
      then show ?thesis unfolding unf E using big o1 m0 q1 by (simp add: Let_def)
    next
      fix s3 w1 m3 s'
      assume "STRU_Resize (str_with s1 m) (length t + 1) w = (S_OK, s3, w1)"
        "ExpandEnvironmentStrings ex 1 src (QueryStr s3) (STRU_QuerySizeCCH s3) w1 = Some (length t + 1, m3, w1)"
        "length t + 1 \<le> STRU_QuerySizeCCH s3" "STRU_SyncWithBuffer (str_with s3 m3) = (S_OK, s')"
        "str_ok sizeof_WCHAR s'" "str_text s' = t" "heap_live w1 - owned s' = heap_live w - owned (str_with s1 m)"
      then show ?thesis unfolding unf E using big o1 q1
        by (simp add: Let_def STRU_QuerySizeCCH_def not_less)
    qed
  qed
qed

section \<open>MakePathCanonicalizationProof\<close>

text \<open>The specification: paths that already carry an extended-length or device prefix get the
  Win32 form of it, UNC paths lose their two slashes to the UNC prefix, others get the plain one.\<close>

definition canonical_path :: "WCHAR list \<Rightarrow> WCHAR list" where
  "canonical_path xs =
     (if take 2 xs = [92, 92] then
        if 4 \<le> length xs \<and> (xs ! 2 = 63 \<or> xs ! 2 = 46) \<and> xs ! 3 = 92 then xs[2 := 63]
        else cstr prefix_unc @ drop 2 xs
      else cstr prefix_plain @ xs)"

lemma mem_get_cstr:
  assumes "terminated m" "j \<le> strlen m"
  shows "mem_get j m = Some (if j < strlen m then cstr m ! j else 0)"
proof -
  note T = terminated_strlen [OF assms(1)]
  have "cstr m ! j = m ! j" if "j < strlen m" using that by (subst cstr_take) simp
  with T assms(2) show ?thesis by (auto simp: mem_get_def le_less)
qed

lemma cstr_drop:
  assumes "terminated m" "k \<le> strlen m"
  shows "cstr (drop k m) = drop k (cstr m)" "strlen (drop k m) = strlen m - k"
proof -
  obtain r where r: "m = cstr m @ 0 # r" using terminated_split [OF assms(1)] .
  have "drop k m = drop k (cstr m) @ 0 # r"
    using assms(2) by (subst r) (simp add: strlen_def)
  moreover have "0 \<notin> set (drop k (cstr m))" using cstr_nonzero in_set_dropD by fastforce
  ultimately show "cstr (drop k m) = drop k (cstr m)" by (simp add: cstr_append_nul)
  then show "strlen (drop k m) = strlen m - k" by (simp add: strlen_def)
qed

definition path_post :: "STRU \<Rightarrow> world \<Rightarrow> WCHAR list \<Rightarrow> (HRESULT \<times> STRU \<times> world) option \<Rightarrow> bool" where
  "path_post s w t r =
     (case r of None \<Rightarrow> False
      | Some (hr, s', w') \<Rightarrow>
          str_ok sizeof_WCHAR s' \<and> heap_live w' - owned s' = heap_live w - owned s \<and>
          (hr = S_OK \<and> str_text s' = t \<or> FAILED hr) \<and>
          (generous w \<and> (length t + 1) * sizeof_WCHAR \<le> MAXDWORD \<longrightarrow> hr = S_OK))"

text \<open>Copy a prefix, then append the rest.\<close>

lemma copy_then_append:
  assumes ok: "str_ok sizeof_WCHAR s" and p: "strlen p < STRSAFE_MAX_CCH" and q: "strlen q < STRSAFE_MAX_CCH"
  shows "path_post s w (cstr p @ cstr q)
    (do { (hr, s1, w1) \<leftarrow> STRU_Copy_psz s p w;
          if FAILED hr then Some (hr, s1, w1) else STRU_Append_psz s1 q w1 })"
proof (rule deliversE [OF STRU_Copy_psz_delivers [OF ok p, of w]])
  fix s1 w1
  assume A: "STRU_Copy_psz s p w = Some (S_OK, s1, w1)" "str_ok sizeof_WCHAR s1" "str_text s1 = cstr p"
    "heap_live w1 - owned s1 = heap_live w - owned s" "generous w \<Longrightarrow> generous w1"
  have "delivers sizeof_WCHAR s1 (cstr p @ cstr q) w1 (STRU_Append_psz s1 q w1)"
    using STRU_Append_psz_delivers [OF A(2) q, of w1] A(3) by simp
  then have "path_post s w (cstr p @ cstr q) (STRU_Append_psz s1 q w1)"
    using A(4,5) by (auto simp: delivers_def path_post_def split: option.splits if_splits)
  then show ?thesis using A(1) by simp
next
  fix hr w1
  assume "STRU_Copy_psz s p w = Some (hr, s, w1)" "FAILED hr" "str_ok sizeof_WCHAR s" "heap_live w1 = heap_live w"
    "\<not> (generous w \<and> (length (cstr p) + 1) * sizeof_WCHAR \<le> MAXDWORD)"
  then show ?thesis by (auto simp: path_post_def)
qed

lemma device_path:
  assumes ok: "str_ok sizeof_WCHAR s" and p: "strlen p < STRSAFE_MAX_CCH" "4 \<le> strlen p"
  shows "path_post s w ((cstr p)[2 := 63])
    (do { (hr, s1, w1) \<leftarrow> STRU_Copy_psz s p w;
          if SUCCEEDED hr then do {
            m \<leftarrow> mem_put 2 63 (QueryStr s1);
            Some (hr, str_with s1 m, w1) }
          else Some (hr, s1, w1) })"
proof (rule deliversE [OF STRU_Copy_psz_delivers [OF ok p(1), of w]])
  fix s1 w1
  assume A: "STRU_Copy_psz s p w = Some (S_OK, s1, w1)" "str_ok sizeof_WCHAR s1" "str_text s1 = cstr p"
    "heap_live w1 - owned s1 = heap_live w - owned s"
  have l: "m_cchLen s1 = strlen p" using length_str_text [OF A(2)] A(3) by (simp add: strlen_def)
  have i: "2 < length (QueryStr s1)" "2 \<noteq> m_cchLen s1" "m_cchLen s1 < length ((QueryStr s1)[2 := 63])"
    using str_okD(3) [OF A(2)] l p(2) by simp_all
  have z: "(QueryStr s1)[2 := 63] ! m_cchLen s1 = 0" using i str_okD(4) [OF A(2)] by simp
  note S = str_ok_with [OF A(2) _ i(3) z]
  have "str_text (str_with s1 ((QueryStr s1)[2 := 63])) = (cstr p)[2 := 63]"
    using S(2) A(3) by (simp add: str_text_def take_update_swap)
  moreover have e: "(str_with s1 ((QueryStr s1)[2 := 63]))\<lparr>m_cchLen := m_cchLen s1\<rparr> = str_with s1 ((QueryStr s1)[2 := 63])"
    by (simp add: str_with_def)
  ultimately show ?thesis using A i S(1) [unfolded e] by (simp add: path_post_def mem_simps)
next
  fix hr w1
  assume "STRU_Copy_psz s p w = Some (hr, s, w1)" "FAILED hr" "str_ok sizeof_WCHAR s" "heap_live w1 = heap_live w"
    "\<not> (generous w \<and> (length (cstr p) + 1) * sizeof_WCHAR \<le> MAXDWORD)"
  then show ?thesis by (auto simp: path_post_def SUCCEEDED_not_FAILED)
qed

lemma prefix_strings: "cstr prefix_unc = [92, 92, 63, 92, 85, 78, 67, 92]" "cstr prefix_plain = [92, 92, 63, 92]"
  "strlen prefix_unc < STRSAFE_MAX_CCH" "strlen prefix_plain < STRSAFE_MAX_CCH"
  by (simp_all add: prefix_unc_def prefix_plain_def cstr_simps strlen_def STRSAFE_MAX_CCH_def)

lemma MakePathCanonicalizationProof_correct:
  assumes ok: "str_ok sizeof_WCHAR s" and t: "terminated p" and p: "strlen p < STRSAFE_MAX_CCH"
  shows "path_post s w (canonical_path (cstr p)) (MakePathCanonicalizationProof p s w)"
proof -
  note g = mem_get_cstr [OF t]
  let ?x = "cstr p"
  have lx: "length ?x = strlen p" by (simp add: strlen_def)
  have two: "take 2 ?x = [92, 92] \<longleftrightarrow> 2 \<le> strlen p \<and> ?x ! 0 = 92 \<and> ?x ! 1 = 92"
    by (cases ?x; cases "tl ?x") (auto simp: lx [symmetric])
  have unc: "path_is_unc p = Some (take 2 ?x = [92, 92])"
    using g [of 0] g [of 1] unfolding two path_is_unc_def by auto
  show ?thesis
  proof (cases "take 2 ?x = [92, 92]")
    case False
    then show ?thesis
      using copy_then_append [OF ok prefix_strings(4) p, of w] unc
      by (simp add: canonical_path_def MakePathCanonicalizationProof_def)
  next
    case True
    then have l2: "2 \<le> strlen p" unfolding two by blast
    have canon: "path_is_canonical p = Some (4 \<le> strlen p \<and> (?x ! 2 = 63 \<or> ?x ! 2 = 46) \<and> ?x ! 3 = 92)"
      using g [of 2] g [of 3] l2 unfolding path_is_canonical_def by auto
    show ?thesis
    proof (cases "4 \<le> strlen p \<and> (?x ! 2 = 63 \<or> ?x ! 2 = 46) \<and> ?x ! 3 = 92")
      case c: True
      then show ?thesis
        using device_path [OF ok p conjunct1 [OF c], of w] True unc canon
        unfolding canonical_path_def MakePathCanonicalizationProof_def lx if_P [OF True] if_P [OF c] eqTrueI [OF c] by simp
    next
      case False
      have "strlen (drop 2 p) < STRSAFE_MAX_CCH" using cstr_drop(2) [OF t l2] p by simp
      then show ?thesis
        using copy_then_append [OF ok prefix_strings(3), of "drop 2 p" w] True unc canon
        unfolding cstr_drop(1) [OF t l2] canonical_path_def lx MakePathCanonicalizationProof_def
          if_P [OF True] if_not_P [OF False] Eq_FalseI [OF False] by simp
    qed
  qed
qed

end
