(* ===== verification/Multisz.thy ===== *)
theory Multisz
  imports Str
begin

text \<open>
  MULTISZA (multisza.cpp, multisza.h) and MULTISZ (multisz.cpp, multisz.h): a list of strings
  stored one after another in a growable buffer, each with its terminator and one more behind the
  last. The two classes are the same code at two character widths and are defined over the width
  \<open>sz\<close>; MULTISZ is the instance at two bytes.

  A pointer into the buffer is the memory from there on. \<open>None\<close> is an access outside the
  buffer or through a null pointer, and for \<open>CalcLength\<close>, whose step is a DWORD, also a loop that
  does not end. \<open>multi\<close> is the memory image of a list of strings and \<open>msz_ok\<close> the
  class invariant.
\<close>

section \<open>State\<close>

record 'a multisz =
  msz_Buff :: "'a buffer"
  msz_cchLen :: nat
  m_cStrings :: nat

type_synonym MULTISZA = "CHAR_t multisz"
type_synonym MULTISZ = "WCHAR multisz"

definition msz_QueryStr :: "'a multisz \<Rightarrow> 'a list" where
  "msz_QueryStr s = QueryPtr (msz_Buff s)"

definition msz_with :: "'a multisz \<Rightarrow> 'a list \<Rightarrow> 'a multisz" where
  "msz_with s m = s\<lparr>msz_Buff := (msz_Buff s)\<lparr>m_pBuffer := m\<rparr>\<rparr>"

definition msz_QueryCB :: "nat \<Rightarrow> 'a multisz \<Rightarrow> nat" where
  "msz_QueryCB sz s = dword (msz_cchLen s * sz)"

definition msz_QueryCCH :: "'a multisz \<Rightarrow> nat" where
  "msz_QueryCCH s = msz_cchLen s"

definition msz_QueryStringCount :: "'a multisz \<Rightarrow> nat" where
  "msz_QueryStringCount s = m_cStrings s"

definition msz_IsEmpty :: "'a::len word multisz \<Rightarrow> bool option" where
  "msz_IsEmpty s = do { c \<leftarrow> mem_get 0 (msz_QueryStr s); Some (c = 0) }"

section \<open>Operations\<close>

definition msz_Reset :: "'a::len word multisz \<Rightarrow> 'a word multisz option" where
  "msz_Reset s = do {
     m \<leftarrow> mem_put 0 0 (msz_QueryStr s);
     m1 \<leftarrow> mem_put 1 0 m;
     Some ((msz_with s m1)\<lparr>msz_cchLen := 2, m_cStrings := 0\<rparr>) }"

text \<open>The default constructor resets; its inline array holds INLINED_BUFFER_LEN bytes. The
  constructor on caller-supplied memory does not.\<close>

definition msz_ctor :: "nat \<Rightarrow> 'a::len word list \<Rightarrow> 'a word multisz option" where
  "msz_ctor sz inline = msz_Reset \<lparr>msz_Buff = buffer_inline sz inline, msz_cchLen = 0, m_cStrings = 0\<rparr>"

definition msz_ctor_buf :: "'a::len word list \<Rightarrow> nat \<Rightarrow> 'a word multisz" where
  "msz_ctor_buf pbInit cbInit =
     \<lparr>msz_Buff = buffer_init pbInit cbInit, msz_cchLen = 0, m_cStrings = 0\<rparr>"

text \<open>The result is the total and the count; \<open>len\<close>, \<open>total\<close> and \<open>count\<close> are DWORDs.\<close>

partial_function (option) CalcLength_loop ::
  "'a::len word list \<Rightarrow> nat \<Rightarrow> nat \<Rightarrow> (nat \<times> nat) option" where
  "CalcLength_loop str tot count = do {
     c \<leftarrow> mem_get 0 str;
     if c = 0 then Some (tot, count)
     else if \<not> terminated str then None
     else (let len = dword (strlen str + 1) in
       CalcLength_loop (drop len str) (dword (tot + len)) (dword (count + 1))) }"

definition msz_CalcLength :: "'a::len word list \<Rightarrow> (nat \<times> nat) option" where
  "msz_CalcLength str = CalcLength_loop str 1 0"

definition msz_RecalcLen :: "'a::len word multisz \<Rightarrow> 'a word multisz option" where
  "msz_RecalcLen s = do {
     (tot, count) \<leftarrow> msz_CalcLength (msz_QueryStr s);
     Some (s\<lparr>msz_cchLen := tot, m_cStrings := count\<rparr>) }"

function find_loop ::
  "('a::len word list \<Rightarrow> 'a word list \<Rightarrow> bool) \<Rightarrow> 'a word list \<Rightarrow> 'a word list \<Rightarrow> bool option" where
  "find_loop same multisz str =
     (case multisz of
        [] \<Rightarrow> None
      | c # _ \<Rightarrow>
          if c = 0 then Some False
          else if \<not> terminated multisz then None
          else if same multisz str then Some True
          else find_loop same (drop (strlen multisz + 1) multisz) str)"
  by pat_completeness auto
termination by (relation "measure (\<lambda>(_, m, _). length m)") auto

declare find_loop.simps [simp del]

definition msz_FindString :: "'a::len word multisz \<Rightarrow> 'a word list \<Rightarrow> bool option" where
  "msz_FindString s str = find_loop strcmp_eq (msz_QueryStr s) str"

definition msz_FindStringNoCase :: "'a::len word multisz \<Rightarrow> 'a word list \<Rightarrow> bool option" where
  "msz_FindStringNoCase s str = find_loop stricmp_eq (msz_QueryStr s) str"

text \<open>The converting constructors: \<open>cbCopy\<close> is an int, and a negative one becomes a huge SIZE_T.\<close>

definition msz_AuxInit ::
  "nat \<Rightarrow> 'a::len word multisz \<Rightarrow> 'a word list option \<Rightarrow> world \<Rightarrow> ('a word multisz \<times> world) option" where
  "msz_AuxInit sz s pInit w =
     (case pInit of
        None \<Rightarrow> do { s1 \<leftarrow> msz_Reset s; Some (s1, w) }
      | Some p \<Rightarrow> do {
          (tot, cStrings) \<leftarrow> msz_CalcLength p;
          let cbCopy = long_of_dword (dword (tot * sz));
          let request = (if cbCopy < 0 then nat (cbCopy + 18446744073709551616) else nat cbCopy);
          (case buffer_Resize sz (msz_Buff s) request False w of
             (False, b, w1) \<Rightarrow> Some (s\<lparr>msz_Buff := b\<rparr>, w1)
           | (True, b, w1) \<Rightarrow> do {
               src \<leftarrow> mem_read 0 (request div sz) p;
               m \<leftarrow> mem_write 0 src (m_pBuffer b);
               Some (s\<lparr>msz_Buff := b\<lparr>m_pBuffer := m\<rparr>, msz_cchLen := request div sz,
                       m_cStrings := cStrings\<rparr>, w1) }) })"

definition msz_ctor_psz ::
  "nat \<Rightarrow> 'a::len word list \<Rightarrow> 'a word list option \<Rightarrow> world \<Rightarrow> ('a word multisz \<times> world) option" where
  "msz_ctor_psz sz inline pchInit w =
     msz_AuxInit sz \<lparr>msz_Buff = buffer_inline sz inline, msz_cchLen = 0, m_cStrings = 0\<rparr> pchInit w"

definition msz_ctor_copy ::
  "nat \<Rightarrow> 'a::len word list \<Rightarrow> 'a word multisz \<Rightarrow> world \<Rightarrow> ('a word multisz \<times> world) option" where
  "msz_ctor_copy sz inline str w =
     msz_AuxInit sz \<lparr>msz_Buff = buffer_inline sz inline, msz_cchLen = 0, m_cStrings = 0\<rparr>
       (Some (msz_QueryStr str)) w"

text \<open>The end of AuxAppend: the copy, the double terminator and the new length.\<close>

definition AuxAppend_copy ::
  "nat \<Rightarrow> 'a::len word multisz \<Rightarrow> 'a word buffer \<Rightarrow> nat \<Rightarrow> 'a word list \<Rightarrow> nat \<Rightarrow> 'a word multisz option" where
  "AuxAppend_copy sz s b cbThis pStr cbStr = do {
     src \<leftarrow> mem_read 0 (cbStr div sz) pStr;
     m1 \<leftarrow> mem_write (cbThis div sz) src (m_pBuffer b);
     m2 \<leftarrow> mem_put ((cbThis + cbStr) div sz) 0 m1;
     m3 \<leftarrow> mem_put ((cbThis + cbStr + sz) div sz) 0 m2;
     (tot, count) \<leftarrow> msz_CalcLength m3;
     Some (s\<lparr>msz_Buff := b\<lparr>m_pBuffer := m3\<rparr>, msz_cchLen := tot, m_cStrings := count\<rparr>) }"

text \<open>An object of two terminators is empty and is written from the start; otherwise the final
  terminator is overwritten. All sizes are bytes.\<close>

definition msz_AuxAppend ::
  "nat \<Rightarrow> 'a::len word multisz \<Rightarrow> 'a word list \<Rightarrow> nat \<Rightarrow> bool \<Rightarrow> world \<Rightarrow>
     (bool \<times> 'a word multisz \<times> world) option" where
  "msz_AuxAppend sz s pStr cbStr fAddSlop w =
     (let cb = msz_QueryCB sz s;
          cbThis = (if cb = 2 * sz then 0 else dword_sub cb sz);
          cb64Required = qword (cbThis + cbStr + 2 * sz);
          cb64AllocSize = qword (cb64Required + (if fAddSlop then 128 else 0))
      in if cb64Required > MAXDWORD then Some (False, s, SetLastError ERROR_ARITHMETIC_OVERFLOW w)
         else if buffer_QuerySize (msz_Buff s) < cb64Required then
           (if cb64AllocSize > MAXDWORD
            then Some (False, s, SetLastError ERROR_ARITHMETIC_OVERFLOW w)
            else
              (case buffer_Resize sz (msz_Buff s) cb64AllocSize False w of
                 (False, b, w1) \<Rightarrow> Some (False, s\<lparr>msz_Buff := b\<rparr>, w1)
               | (True, b, w1) \<Rightarrow> do {
                   s1 \<leftarrow> AuxAppend_copy sz s b cbThis pStr cbStr;
                   Some (True, s1, w1) }))
         else do {
           s1 \<leftarrow> AuxAppend_copy sz s (msz_Buff s) cbThis pStr cbStr;
           Some (True, s1, w) })"

definition msz_Append_psz ::
  "nat \<Rightarrow> 'a::len word multisz \<Rightarrow> 'a word list option \<Rightarrow> world \<Rightarrow> (bool \<times> 'a word multisz \<times> world) option" where
  "msz_Append_psz sz s pchInit w =
     (case pchInit of None \<Rightarrow> Some (True, s, w)
      | Some p \<Rightarrow> msz_AuxAppend sz s p (dword (dword (strlen p) * sz)) True w)"

definition msz_Append_len ::
  "nat \<Rightarrow> 'a::len word multisz \<Rightarrow> 'a word list option \<Rightarrow> nat \<Rightarrow> world \<Rightarrow>
     (bool \<times> 'a word multisz \<times> world) option" where
  "msz_Append_len sz s pchInit cchLen w =
     (case pchInit of None \<Rightarrow> Some (True, s, w)
      | Some p \<Rightarrow> msz_AuxAppend sz s p (dword (cchLen * sz)) True w)"

definition msz_Append_str ::
  "nat \<Rightarrow> 'a::len word multisz \<Rightarrow> 'a word str \<Rightarrow> world \<Rightarrow> (bool \<times> 'a word multisz \<times> world) option" where
  "msz_Append_str sz s str w = msz_AuxAppend sz s (QueryStr str) (dword (QueryCCH str * sz)) True w"

definition msz_Copy_len ::
  "nat \<Rightarrow> 'a::len word multisz \<Rightarrow> 'a word list option \<Rightarrow> nat \<Rightarrow> world \<Rightarrow>
     (bool \<times> 'a word multisz \<times> world) option" where
  "msz_Copy_len sz s pchInit cbLen w = do {
     s1 \<leftarrow> msz_Reset s;
     (case pchInit of None \<Rightarrow> Some (True, s1, w)
      | Some p \<Rightarrow> msz_AuxAppend sz s1 p cbLen False w) }"

definition msz_Copy ::
  "nat \<Rightarrow> 'a::len word multisz \<Rightarrow> 'a word multisz \<Rightarrow> world \<Rightarrow> (bool \<times> 'a word multisz \<times> world) option" where
  "msz_Copy sz s str w = msz_Copy_len sz s (Some (msz_QueryStr str)) (msz_QueryCB sz str) w"

definition msz_Clone ::
  "nat \<Rightarrow> 'a::len word multisz \<Rightarrow> 'a word multisz option \<Rightarrow> world \<Rightarrow>
     (bool \<times> 'a word multisz option \<times> world) option" where
  "msz_Clone sz s pstrClone w =
     (case pstrClone of
        None \<Rightarrow> Some (False, None, SetLastError ERROR_INVALID_PARAMETER w)
      | Some t \<Rightarrow> do { (ok, t1, w1) \<leftarrow> msz_Copy sz t s w; Some (ok, Some t1, w1) })"

text \<open>CopyToBuffer: result, the caller's buffer, the count stored back.\<close>

definition msz_CopyToBuffer ::
  "'a::len word multisz \<Rightarrow> 'a word list \<Rightarrow> nat option \<Rightarrow> world \<Rightarrow>
     (bool \<times> 'a word list \<times> nat option \<times> world) option" where
  "msz_CopyToBuffer s lpszBuffer lpcch w =
     (case lpcch of
        None \<Rightarrow> Some (False, lpszBuffer, None, SetLastError ERROR_INVALID_PARAMETER w)
      | Some n \<Rightarrow>
          (let cch = msz_QueryCCH s in
           if n \<ge> cch then do {
             src \<leftarrow> mem_read 0 cch (msz_QueryStr s);
             m \<leftarrow> mem_write 0 src lpszBuffer;
             Some (True, m, Some cch, w) }
           else Some (False, lpszBuffer, Some cch, SetLastError ERROR_INSUFFICIENT_BUFFER w)))"

text \<open>Scanning: the inner option is the C pointer, null at the end.\<close>

definition msz_First :: "'a::len word multisz \<Rightarrow> 'a word list option option" where
  "msz_First s = do {
     c \<leftarrow> mem_get 0 (msz_QueryStr s);
     Some (if c = 0 then None else Some (msz_QueryStr s)) }"

definition msz_Next :: "'a::len word list \<Rightarrow> 'a word list option option" where
  "msz_Next Current =
     (if \<not> terminated Current then None
      else do {
        c \<leftarrow> mem_get (strlen Current + 1) Current;
        Some (if c = 0 then None else Some (drop (strlen Current + 1) Current)) })"

function Equals_loop :: "'a::len word list option \<Rightarrow> 'a word list option \<Rightarrow> bool option" where
  "Equals_loop None r = Some True"
| "Equals_loop (Some l) None = None"
| "Equals_loop (Some l) (Some r) =
     (if \<not> strcmp_eq l r then Some False
      else do { l1 \<leftarrow> msz_Next l; r1 \<leftarrow> msz_Next r; Equals_loop l1 r1 })"
  by pat_completeness auto
termination
  by (relation "measure (\<lambda>(l, _). case l of None \<Rightarrow> 0 | Some x \<Rightarrow> Suc (length x))")
     (auto simp: msz_Next_def mem_get_def split: if_splits)

definition msz_Equals :: "'a::len word multisz \<Rightarrow> 'a word multisz \<Rightarrow> bool option" where
  "msz_Equals s rhs = do {
     l \<leftarrow> msz_First s;
     r \<leftarrow> msz_First rhs;
     if m_cStrings s \<noteq> m_cStrings rhs then Some False else Equals_loop l r }"

section \<open>Splitting a comma-delimited string\<close>

definition ISWHITE :: "'a::len word \<Rightarrow> bool" where
  "ISWHITE ch \<longleftrightarrow> ch = 32 \<or> ch = 9 \<or> ch = 13"

function trim_start :: "'a::len word list \<Rightarrow> nat \<Rightarrow> nat \<Rightarrow> nat" where
  "trim_start m i e = (if i < e \<and> ISWHITE (m ! i) then trim_start m (i + 1) e else i)"
  by pat_completeness auto
termination by (relation "measure (\<lambda>(_, i, e). e - i)") auto

fun trim_end :: "'a::len word list \<Rightarrow> nat \<Rightarrow> nat \<Rightarrow> nat" where
  "trim_end m i e = (if e > i \<and> ISWHITE (m ! (e - 1)) then trim_end m i (e - 1) else e)"

declare trim_start.simps [simp del] trim_end.simps [simp del]

text \<open>One round handles the entry at \<open>cur\<close>; \<open>i\<close> and \<open>e\<close> are pszCurrent and pszEnd as offsets
  from it.\<close>

function split_loop ::
  "nat \<Rightarrow> 'a::len word list \<Rightarrow> bool \<Rightarrow> bool \<Rightarrow> 'a word multisz \<Rightarrow> world \<Rightarrow>
     (HRESULT \<times> 'a word multisz \<times> world) option" where
  "split_loop sz cur fTrimEntries fRemoveEmptyEntries s w =
     (let pszNext = strchr cur 44;
          end0 = (case pszNext of Some n \<Rightarrow> n | None \<Rightarrow> strlen cur);
          i = (if fTrimEntries then trim_start cur 0 end0 else 0);
          e = (if fTrimEntries then trim_end cur i end0 else end0)
      in do {
        (ok, s1, w1) \<leftarrow>
          (if i \<noteq> e \<or> \<not> fRemoveEmptyEntries
           then msz_Append_len sz s (Some (drop i cur)) (dword (e - i)) w
           else Some (True, s, w));
        if \<not> ok then Some (HRESULT_FROM_WIN32 (GetLastError w1), s1, w1)
        else (case pszNext of
                None \<Rightarrow> Some (S_OK, s1, w1)
              | Some n \<Rightarrow>
                  if n < length cur
                  then split_loop sz (drop (n + 1) cur) fTrimEntries fRemoveEmptyEntries s1 w1
                  else None) })"
  by pat_completeness auto
termination by (relation "measure (\<lambda>(_, m, _). length m)") auto

declare split_loop.simps [simp del]

definition msz_Split ::
  "nat \<Rightarrow> 'a::len word list option \<Rightarrow> bool \<Rightarrow> bool \<Rightarrow> 'a word multisz option \<Rightarrow> world \<Rightarrow>
     (HRESULT \<times> 'a word multisz option \<times> world) option" where
  "msz_Split sz pszList fTrimEntries fRemoveEmptyEntries pmszList w =
     (case (pszList, pmszList) of
        (Some p, Some s) \<Rightarrow> do {
          s0 \<leftarrow> msz_Reset s;
          (hr, s1, w1) \<leftarrow> split_loop sz p fTrimEntries fRemoveEmptyEntries s0 w;
          Some (hr, Some s1, w1) }
      | _ \<Rightarrow> Some (HRESULT_FROM_WIN32 ERROR_INVALID_PARAMETER, pmszList, w))"

section \<open>The wide class\<close>

definition MULTISZ_CalcLength :: "WCHAR list \<Rightarrow> (nat \<times> nat) option" where
  "MULTISZ_CalcLength = msz_CalcLength"

definition MULTISZ_FindString :: "MULTISZ \<Rightarrow> WCHAR list \<Rightarrow> bool option" where
  "MULTISZ_FindString = msz_FindString"

definition MULTISZ_FindStringNoCase :: "MULTISZ \<Rightarrow> WCHAR list \<Rightarrow> bool option" where
  "MULTISZ_FindStringNoCase = msz_FindStringNoCase"

definition MULTISZ_AuxInit :: "MULTISZ \<Rightarrow> WCHAR list option \<Rightarrow> world \<Rightarrow> (MULTISZ \<times> world) option" where
  "MULTISZ_AuxInit = msz_AuxInit sizeof_WCHAR"

definition MULTISZ_AuxAppend ::
  "MULTISZ \<Rightarrow> WCHAR list \<Rightarrow> nat \<Rightarrow> bool \<Rightarrow> world \<Rightarrow> (bool \<times> MULTISZ \<times> world) option" where
  "MULTISZ_AuxAppend = msz_AuxAppend sizeof_WCHAR"

definition MULTISZ_CopyToBuffer ::
  "MULTISZ \<Rightarrow> WCHAR list \<Rightarrow> nat option \<Rightarrow> world \<Rightarrow> (bool \<times> WCHAR list \<times> nat option \<times> world) option" where
  "MULTISZ_CopyToBuffer = msz_CopyToBuffer"

definition MULTISZ_Equals :: "MULTISZ \<Rightarrow> MULTISZ \<Rightarrow> bool option" where
  "MULTISZ_Equals = msz_Equals"

definition MULTISZ_Split ::
  "WCHAR list option \<Rightarrow> bool \<Rightarrow> bool \<Rightarrow> MULTISZ option \<Rightarrow> world \<Rightarrow> (HRESULT \<times> MULTISZ option \<times> world) option" where
  "MULTISZ_Split = msz_Split sizeof_WCHAR"

definition MULTISZ_Reset :: "MULTISZ \<Rightarrow> MULTISZ option" where
  "MULTISZ_Reset = msz_Reset"

definition MULTISZ_Append_psz :: "MULTISZ \<Rightarrow> WCHAR list option \<Rightarrow> world \<Rightarrow> (bool \<times> MULTISZ \<times> world) option" where
  "MULTISZ_Append_psz = msz_Append_psz sizeof_WCHAR"

definition MULTISZ_Append_len ::
  "MULTISZ \<Rightarrow> WCHAR list option \<Rightarrow> nat \<Rightarrow> world \<Rightarrow> (bool \<times> MULTISZ \<times> world) option" where
  "MULTISZ_Append_len = msz_Append_len sizeof_WCHAR"

definition MULTISZ_Append_str :: "MULTISZ \<Rightarrow> STRU \<Rightarrow> world \<Rightarrow> (bool \<times> MULTISZ \<times> world) option" where
  "MULTISZ_Append_str = msz_Append_str sizeof_WCHAR"

definition MULTISZ_Copy :: "MULTISZ \<Rightarrow> MULTISZ \<Rightarrow> world \<Rightarrow> (bool \<times> MULTISZ \<times> world) option" where
  "MULTISZ_Copy = msz_Copy sizeof_WCHAR"

definition MULTISZ_Clone ::
  "MULTISZ \<Rightarrow> MULTISZ option \<Rightarrow> world \<Rightarrow> (bool \<times> MULTISZ option \<times> world) option" where
  "MULTISZ_Clone = msz_Clone sizeof_WCHAR"

definition MULTISZ_First :: "MULTISZ \<Rightarrow> WCHAR list option option" where
  "MULTISZ_First = msz_First"

definition MULTISZ_Next :: "WCHAR list \<Rightarrow> WCHAR list option option" where
  "MULTISZ_Next = msz_Next"

end
