(* ===== verification/MultiszFacts.thy ===== *)
theory MultiszFacts
  imports Multisz
begin

text \<open>
  What the MULTISZ operations guarantee. \<open>multi\<close> is the memory image of a list of strings,
  \<open>unmulti\<close> reads one back, \<open>msz_ok sz s ss\<close> says that the object \<open>s\<close> holds exactly the
  strings \<open>ss\<close>. Appending, copying and splitting are described on lists of strings, for every
  behaviour of the heap; the queries are decided on them.
\<close>

section \<open>The memory image of a list of strings\<close>

definition joined :: "'a::len word list list \<Rightarrow> 'a word list" where
  "joined ss = concat (map (\<lambda>s. s @ [0]) ss)"

definition multi :: "'a::len word list list \<Rightarrow> 'a word list" where
  "multi ss = joined ss @ [0]"

definition proper :: "'a::len word list \<Rightarrow> bool" where
  "proper s \<longleftrightarrow> s \<noteq> [] \<and> 0 \<notin> set s"

lemma joined_simps [simp]:
  "joined [] = []" "joined (s # ss) = s @ 0 # joined ss" "joined (xs @ ys) = joined xs @ joined ys"
  by (simp_all add: joined_def)

lemma multi_simps [simp]: "multi [] = [0]" "multi (s # ss) = s @ 0 # multi ss"
  by (simp_all add: multi_def)

lemma multi_append: "multi (xs @ ys) = joined xs @ multi ys"
  by (simp add: multi_def)

lemma length_multi [simp]: "length (multi ss) = length (joined ss) + 1"
  by (simp add: multi_def)

text \<open>The strings a memory holds: up to the first empty one.\<close>

function unmulti :: "'a::len word list \<Rightarrow> 'a word list list" where
  "unmulti m =
     (case m of [] \<Rightarrow> [] | c # _ \<Rightarrow> if c = 0 then [] else cstr m # unmulti (drop (strlen m + 1) m))"
  by pat_completeness auto
termination by (relation "measure length") auto

declare unmulti.simps [simp del]

lemma unmulti_simps [simp]:
  "unmulti [] = []" "unmulti (0 # r) = []"
  by (simp_all add: unmulti.simps)

lemma drop_string: "0 \<notin> set s \<Longrightarrow> drop (strlen (s @ 0 # r) + 1) (s @ 0 # r) = r"
  by (simp add: strlen_append_nul)

lemma unmulti_Cons: "proper s \<Longrightarrow> unmulti (s @ 0 # r) = s # unmulti r"
  by (cases s; subst unmulti.simps)
    (auto simp: proper_def cstr_append_nul strlen_append_nul cstr_Cons strlen_def)

lemma unmulti_multi: "\<forall>s\<in>set ss. proper s \<Longrightarrow> unmulti (multi ss @ r) = ss"
  by (induction ss) (simp_all add: unmulti_Cons)

lemma unmulti_joined: "\<forall>s\<in>set ss. proper s \<Longrightarrow> unmulti (joined ss @ r) = ss @ unmulti r"
  by (induction ss) (simp_all add: unmulti_Cons)

lemma unmulti_proper: "s \<in> set (unmulti m) \<Longrightarrow> proper s"
proof (induction m rule: unmulti.induct)
  case (1 m)
  show ?case
  proof (cases m)
    case (Cons c r)
    have p: "c \<noteq> 0 \<Longrightarrow> proper (cstr m)" using Cons cstr_nonzero [of m] by (simp add: proper_def cstr_Cons)
    from "1.prems" Cons have "c \<noteq> 0 \<and> (s = cstr m \<or> s \<in> set (unmulti (drop (strlen m + 1) m)))"
      by (subst (asm) unmulti.simps) (auto split: if_splits)
    then show ?thesis using p "1.IH" [OF Cons] by auto
  qed (use "1.prems" in simp)
qed

text \<open>Any text followed by two terminators is an image followed by something.\<close>

lemma unmulti_image: "\<exists>q. src @ [0, 0] = multi (unmulti (src @ [0, 0])) @ q"
proof (induction src rule: length_induct)
  case (1 src)
  show ?case
  proof (cases "src = [] \<or> hd src = 0")
    case True
    then show ?thesis by (cases src) auto
  next
    case False
    show ?thesis
    proof (cases "0 \<in> set src")
      case True
      then obtain r where s: "src = cstr src @ 0 # r"
        using terminated_split [of src] by (auto simp: terminated_def)
      have p: "proper (cstr src)" using False cstr_nonzero [of src]
        by (cases src) (auto simp: proper_def cstr_Cons)
      have "length r < length src" using arg_cong [OF s, of length] by simp
      with "1" obtain q where q: "r @ [0, 0] = multi (unmulti (r @ [0, 0])) @ q" by blast
      have e: "src @ [0, 0] = cstr src @ 0 # (r @ [0, 0])" by (subst s) simp
      have "unmulti (src @ [0, 0]) = cstr src # unmulti (r @ [0, 0])"
        unfolding e by (rule unmulti_Cons [OF p])
      then show ?thesis using e q by (metis append_Cons append_assoc multi_simps(2))
    next
      case nz: False
      then have "unmulti (src @ [0, 0]) = [src]" using False unmulti_Cons [of src "[0]"] by (simp add: proper_def)
      then show ?thesis by simp
    qed
  qed
qed

lemma unmulti_text: "proper src \<Longrightarrow> unmulti (src @ [0, 0]) = [src]"
  using unmulti_Cons [of src "[0]"] by simp

lemma unmulti_again: "\<forall>s\<in>set ss. proper s \<Longrightarrow> unmulti (multi ss @ r) = ss"
  by (rule unmulti_multi)

section \<open>Walking the image\<close>

lemma CalcLength_loop_multi:
  assumes "\<forall>s\<in>set ss. proper s" "tot + length (joined ss) \<le> MAXDWORD" "count + length ss \<le> MAXDWORD"
  shows "CalcLength_loop (multi ss @ r) tot count = Some (tot + length (joined ss), count + length ss)"
  using assms
proof (induction ss arbitrary: tot count)
  case Nil
  then show ?case by (simp add: CalcLength_loop.simps mem_get_def)
next
  case (Cons s ss)
  obtain c s' where s: "s = c # s'" "c \<noteq> 0" using Cons.prems(1) by (cases s) (auto simp: proper_def)
  have nz: "0 \<notin> set s" using Cons.prems(1) by (simp add: proper_def)
  let ?m = "multi (s # ss) @ r"
  have m: "?m = s @ 0 # (multi ss @ r)" by simp
  have l: "strlen ?m = length s" unfolding m by (rule strlen_append_nul [OF nz])
  have d: "drop (dword (strlen ?m + 1)) ?m = multi ss @ r" "dword (strlen ?m + 1) = length s + 1"
    using Cons.prems(2) unfolding l by (simp_all add: dword_id)
  have "CalcLength_loop ?m tot count =
      CalcLength_loop (multi ss @ r) (dword (tot + (length s + 1))) (dword (count + 1))"
    using s d by (subst CalcLength_loop.simps) (simp add: mem_get_def terminated_def Let_def)
  also have "\<dots> = CalcLength_loop (multi ss @ r) (tot + (length s + 1)) (count + 1)"
    using Cons.prems by (simp add: dword_id)
  finally show ?case using Cons by simp
qed

lemma length_le_joined: "\<forall>s\<in>set ss. proper s \<Longrightarrow> 2 * length ss \<le> length (joined ss)"
proof (induction ss)
  case (Cons s ss)
  then show ?case by (cases s) (simp_all add: proper_def)
qed simp

lemma CalcLength_multi:
  assumes "\<forall>s\<in>set ss. proper s" "length (multi ss) \<le> MAXDWORD"
  shows "msz_CalcLength (multi ss @ r) = Some (length (multi ss), length ss)"
  using CalcLength_loop_multi [OF assms(1), of 1 0 r] length_le_joined [OF assms(1)] assms(2)
  by (simp add: msz_CalcLength_def)

lemma find_loop_multi:
  assumes "\<forall>s\<in>set ss. proper s" and same: "\<And>s r. proper s \<Longrightarrow> same (s @ 0 # r) str = P s"
  shows "find_loop same (multi ss @ r) str = Some (\<exists>s\<in>set ss. P s)"
  using assms(1)
proof (induction ss)
  case Nil
  then show ?case by (simp add: find_loop.simps)
next
  case (Cons s ss)
  then have s: "proper s" by simp
  then obtain c s' where c: "s = c # s'" "c \<noteq> 0" by (cases s) (auto simp: proper_def)
  have d: "drop (strlen (s @ 0 # (multi ss @ r)) + 1) (s @ 0 # (multi ss @ r)) = multi ss @ r"
    using s by (intro drop_string) (simp add: proper_def)
  have "find_loop same (s @ 0 # (multi ss @ r)) str =
      (if same (s @ 0 # (multi ss @ r)) str then Some True else find_loop same (multi ss @ r) str)"
    by (subst find_loop.simps) (use c d in \<open>simp add: terminated_def\<close>)
  then show ?case using Cons same [OF s] by simp
qed

section \<open>Invariant\<close>

text \<open>The object holds the strings \<open>ss\<close>. An empty object may count one terminator (after
  CalcLength) or two (after Reset).\<close>

definition msz_ok :: "nat \<Rightarrow> 'a::len word multisz \<Rightarrow> 'a word list list \<Rightarrow> bool" where
  "msz_ok sz s ss \<longleftrightarrow>
     buffer_ok sz (msz_Buff s) \<and> (\<forall>x\<in>set ss. proper x) \<and> m_cStrings s = length ss \<and>
     2 \<le> length (msz_QueryStr s) \<and>
     (\<exists>r. msz_QueryStr s = multi ss @ r \<and>
       (msz_cchLen s = length (multi ss) \<or> ss = [] \<and> msz_cchLen s = 2 \<and> (\<exists>q. r = 0 # q)))"

lemma msz_okD:
  assumes "msz_ok sz s ss"
  shows "buffer_ok sz (msz_Buff s)" "0 < sz" "\<forall>x\<in>set ss. proper x" "m_cStrings s = length ss"
    "length (msz_QueryStr s) = m_cbBuffer (msz_Buff s) div sz" "m_cbBuffer (msz_Buff s) \<le> MAXDWORD"
    "2 \<le> length (msz_QueryStr s)"
  using assms by (auto simp: msz_ok_def buffer_ok_def msz_QueryStr_def QueryPtr_def)

lemma msz_ok_strings: "msz_ok sz s ss \<Longrightarrow> unmulti (msz_QueryStr s) = ss"
  using unmulti_multi by (auto simp: msz_ok_def)

lemma fits_bytes: "0 < sz \<Longrightarrow> n \<le> b div sz \<Longrightarrow> n * sz \<le> (b::nat)"
  by (simp add: less_eq_div_iff_mult_less_eq)

lemma msz_ok_bytes:
  assumes "msz_ok sz s ss"
  shows "length (multi ss) * sz \<le> m_cbBuffer (msz_Buff s)" "msz_cchLen s * sz \<le> m_cbBuffer (msz_Buff s)"
    "msz_cchLen s * sz \<le> MAXDWORD" "length (multi ss) * sz \<le> MAXDWORD"
proof -
  note D = msz_okD [OF assms]
  obtain r where "msz_QueryStr s = multi ss @ r"
    "msz_cchLen s = length (multi ss) \<or> ss = [] \<and> msz_cchLen s = 2 \<and> (\<exists>q. r = 0 # q)"
    using assms by (auto simp: msz_ok_def)
  then have "length (multi ss) \<le> length (msz_QueryStr s)" "msz_cchLen s \<le> length (msz_QueryStr s)" by auto
  then show 1: "length (multi ss) * sz \<le> m_cbBuffer (msz_Buff s)" "msz_cchLen s * sz \<le> m_cbBuffer (msz_Buff s)"
    using fits_bytes [OF D(2)] D(5) by metis+
  show "msz_cchLen s * sz \<le> MAXDWORD" "length (multi ss) * sz \<le> MAXDWORD"
    using 1 D(6) by (meson le_trans)+
qed

lemma le_mult_pos: "0 < sz \<Longrightarrow> n * sz \<le> b \<Longrightarrow> n \<le> (b::nat)"
  by (metis le_trans mult_le_mono2 nat_mult_1_right Suc_leI One_nat_def)

text \<open>Where an append starts.\<close>

lemma append_start:
  assumes "msz_ok sz s ss"
  shows "(if msz_QueryCB sz s = 2 * sz then 0 else dword_sub (msz_QueryCB sz s) sz) = length (joined ss) * sz"
proof -
  note D = msz_okD [OF assms] and B = msz_ok_bytes [OF assms]
  have q: "msz_QueryCB sz s = msz_cchLen s * sz" using B(3) by (simp add: msz_QueryCB_def dword_id)
  have j: "2 * length ss \<le> length (joined ss)" by (rule length_le_joined [OF D(3)])
  from assms consider (many) "msz_cchLen s = length (multi ss)" | (two) "ss = []" "msz_cchLen s = 2"
    by (auto simp: msz_ok_def)
  then show ?thesis
  proof cases
    case many
    have "length (multi ss) = 2 \<Longrightarrow> False" using j by (cases ss) auto
    then have "msz_QueryCB sz s \<noteq> 2 * sz" using q many D(2) by auto
    moreover have "dword_sub (msz_QueryCB sz s) sz = length (joined ss) * sz"
      using q many B(3) by (subst dword_sub_id) auto
    ultimately show ?thesis by simp
  qed (simp add: q)
qed

section \<open>Append\<close>

lemma AuxAppend_copy_correct:
  assumes ok: "msz_ok sz s ss" and b: "buffer_ok sz b" "take (length (msz_QueryStr s)) (m_pBuffer b) = msz_QueryStr s"
    and room: "(length (joined ss) + k + 2) * sz \<le> m_cbBuffer b" and k: "k \<le> length p"
  obtains s' where "AuxAppend_copy sz s b (length (joined ss) * sz) p (k * sz) = Some s'"
    "msz_ok sz s' (ss @ unmulti (take k p @ [0, 0]))"
proof -
  note D = msz_okD [OF ok] and bD = buffer_okD [OF b(1)]
  let ?o = "length (joined ss)" let ?src = "take k p" let ?ts = "ss @ unmulti (take k p @ [0, 0])"
  obtain r where r: "msz_QueryStr s = multi ss @ r" using ok by (auto simp: msz_ok_def)
  have len: "?o + k + 2 \<le> length (m_pBuffer b)"
    using room bD(1,3) by (simp add: less_eq_div_iff_mult_less_eq)
  have pre: "take ?o (m_pBuffer b) = joined ss"
  proof -
    have "take ?o (m_pBuffer b) = take ?o (take (length (msz_QueryStr s)) (m_pBuffer b))"
      by (simp add: r min_absorb1)
    also have "\<dots> = joined ss" by (simp only: b(2)) (simp add: r multi_def)
    finally show ?thesis .
  qed
  define Y where "Y = drop (?o + k + 2) (m_pBuffer b)"
  define m3 where "m3 = joined ss @ ?src @ 0 # 0 # Y"
  have w1: "mem_write ?o ?src (m_pBuffer b) = Some (joined ss @ ?src @ drop (?o + k) (m_pBuffer b))"
    using len k pre by (simp add: mem_simps min_absorb2)
  obtain x y where xy: "drop (?o + k) (m_pBuffer b) = x # y # Y"
  proof -
    have "drop (?o + k) (m_pBuffer b) = m_pBuffer b ! (?o + k) # m_pBuffer b ! (Suc (?o + k)) # Y"
      using len unfolding Y_def by (simp add: Cons_nth_drop_Suc)
    then show thesis by (rule that)
  qed
  have w2: "mem_put (?o + k) 0 (joined ss @ ?src @ x # y # Y) = Some (joined ss @ ?src @ 0 # y # Y)"
    using k by (simp add: mem_put_def list_update_append min_absorb2)
  have w3: "mem_put (Suc (?o + k)) 0 (joined ss @ ?src @ 0 # y # Y) = Some m3"
    using k by (simp add: mem_put_def list_update_append min_absorb2 m3_def Suc_diff_le)
  obtain q where q: "?src @ [0, 0] = multi (unmulti (?src @ [0, 0])) @ q" using unmulti_image by blast
  have img: "m3 = multi ?ts @ q @ Y"
    unfolding m3_def multi_append using arg_cong [OF q, of "\<lambda>z. joined ss @ z @ Y"] by simp
  have prp: "\<forall>x\<in>set ?ts. proper x" using D(3) unmulti_proper by auto
  have lm: "length m3 = length (m_pBuffer b)" using len k by (simp add: m3_def Y_def min_absorb2)
  have "length (multi ?ts) \<le> length m3" unfolding img by simp
  also have "\<dots> \<le> MAXDWORD" using lm bD by (metis div_le_dividend le_trans)
  finally have C: "msz_CalcLength m3 = Some (length (multi ?ts), length ?ts)"
    unfolding img using CalcLength_multi [OF prp] by blast
  let ?s = "s\<lparr>msz_Buff := b\<lparr>m_pBuffer := m3\<rparr>, msz_cchLen := length (multi ?ts), m_cStrings := length ?ts\<rparr>"
  have idx: "(?o * sz + k * sz) div sz = ?o + k" "(?o * sz + k * sz + sz) div sz = Suc (?o + k)"
    using bD(1) by (simp_all flip: add_mult_distrib)
  have "AuxAppend_copy sz s b (?o * sz) p (k * sz) = Some ?s"
    using k bD(1) w1 w2 w3 C by (simp add: AuxAppend_copy_def mem_read_def idx xy)
  moreover have "msz_ok sz ?s ?ts"
    using bD lm len prp img by (auto simp: msz_ok_def buffer_ok_def msz_QueryStr_def QueryPtr_def)
  ultimately show thesis by (rule that)
qed


text \<open>
  The contract of every operation that changes the strings to \<open>ts\<close> when it succeeds: it stays
  inside the buffer, a failure leaves the object as \<open>ss0\<close> and records the error.
\<close>

definition msz_delivers ::
  "nat \<Rightarrow> 'a::len word list list \<Rightarrow> 'a word list list \<Rightarrow> world \<Rightarrow> (bool \<times> 'a word multisz \<times> world) option \<Rightarrow> bool" where
  "msz_delivers sz ss0 ts w r \<longleftrightarrow>
     (\<exists>ok s w'. r = Some (ok, s, w') \<and> msz_ok sz s (if ok then ts else ss0) \<and>
        (\<not> ok \<longrightarrow> last_error w' \<in> {ERROR_NOT_ENOUGH_MEMORY, ERROR_ARITHMETIC_OVERFLOW}) \<and>
        (generous w \<longrightarrow> generous w' \<and> (ok \<or> last_error w' = ERROR_ARITHMETIC_OVERFLOW)))"

lemma msz_deliversE:
  assumes "msz_delivers sz ss0 ts w r"
  obtains ok s w' where "r = Some (ok, s, w')" "msz_ok sz s (if ok then ts else ss0)"
    "\<not> ok \<Longrightarrow> last_error w' \<in> {ERROR_NOT_ENOUGH_MEMORY, ERROR_ARITHMETIC_OVERFLOW}"
  using assms by (auto simp: msz_delivers_def)

lemma generous_SetLastError [simp]: "generous (SetLastError e w) = generous w"
  by (simp add: generous_def)

lemma msz_delivers_overflow:
  "msz_ok sz s ss \<Longrightarrow> msz_delivers sz ss ts w (Some (False, s, SetLastError ERROR_ARITHMETIC_OVERFLOW w))"
  by (simp add: msz_delivers_def) blast

lemma buffer_Resize_error:
  "buffer_Resize sz b n z w = (False, b', w') \<Longrightarrow> n \<le> MAXDWORD \<Longrightarrow> last_error w' = ERROR_NOT_ENOUGH_MEMORY"
  by (auto simp: buffer_Resize_def split: if_splits prod.splits option.splits)

text \<open>Which outcome an append has, in terms of the bytes it needs: it reports an overflow exactly when
  they are not there already and do not fit 32 bits with the slop, and fails otherwise only when memory
  is refused.\<close>

definition append_too_large :: "'a multisz \<Rightarrow> nat \<Rightarrow> bool \<Rightarrow> bool" where
  "append_too_large s n slop \<longleftrightarrow>
     m_cbBuffer (msz_Buff s) < n \<and> MAXDWORD < n + (if slop then 128 else 0)"

definition append_outcome ::
  "'a multisz \<Rightarrow> nat \<Rightarrow> bool \<Rightarrow> world \<Rightarrow> (bool \<times> 'a multisz \<times> world) option \<Rightarrow> bool" where
  "append_outcome s n slop w r \<longleftrightarrow>
     (\<exists>ok s' w'. r = Some (ok, s', w') \<and>
        (\<not> ok \<and> last_error w' = ERROR_ARITHMETIC_OVERFLOW \<longleftrightarrow> append_too_large s n slop) \<and>
        (n \<le> m_cbBuffer (msz_Buff s) \<longrightarrow> ok \<and> w' = w) \<and>
        (generous w \<longrightarrow> ok \<or> append_too_large s n slop))"

lemma AuxAppend_correct:
  fixes s :: "'a::len word multisz"
  assumes ok: "msz_ok sz s ss" and k: "k \<le> length p" "k * sz \<le> MAXDWORD"
  shows "msz_delivers sz ss (ss @ unmulti (take k p @ [0, 0])) w (msz_AuxAppend sz s p (k * sz) slop w)"
    and "generous w \<Longrightarrow> (length (joined ss) + k + 2) * sz + 128 \<le> MAXDWORD \<Longrightarrow>
      \<exists>s' w'. msz_AuxAppend sz s p (k * sz) slop w = Some (True, s', w')"
    and "append_outcome s ((length (joined ss) + k + 2) * sz) slop w (msz_AuxAppend sz s p (k * sz) slop w)"
proof -
  note D = msz_okD [OF ok] and B = msz_ok_bytes [OF ok]
  let ?o = "length (joined ss) * sz"
  let ?ts = "ss @ unmulti (take k p @ [0, 0])"
  define N where "N = (length (joined ss) + k + 2) * sz"
  define A where "A = N + (if slop then 128 else 0)"
  have "?o \<le> MAXDWORD" "sz \<le> MAXDWORD" using B(4) by (simp_all add: add_mult_distrib)
  then have bound: "N + 128 < 18446744073709551616"
    using k(2) by (simp add: MAXDWORD_def add_mult_distrib N_def)
  then have qN: "qword (?o + k * sz + 2 * sz) = N"
    by (simp add: qword_id add_mult_distrib N_def)
  have qA: "qword (N + (if slop then 128 else 0)) = A" using bound by (auto simp: qword_id A_def)
  have AN: "A \<le> N + 128" "N \<le> A" by (simp_all add: A_def)
  have unf: "msz_AuxAppend sz s p (k * sz) slop w =
     (if N > MAXDWORD then Some (False, s, SetLastError ERROR_ARITHMETIC_OVERFLOW w)
      else if m_cbBuffer (msz_Buff s) < N then
        (if A > MAXDWORD then Some (False, s, SetLastError ERROR_ARITHMETIC_OVERFLOW w)
         else (case buffer_Resize sz (msz_Buff s) A False w of
                 (False, b, w1) \<Rightarrow> Some (False, s\<lparr>msz_Buff := b\<rparr>, w1)
               | (True, b, w1) \<Rightarrow> do {
                   s1 \<leftarrow> AuxAppend_copy sz s b ?o p (k * sz);
                   Some (True, s1, w1) }))
      else do { s1 \<leftarrow> AuxAppend_copy sz s (msz_Buff s) ?o p (k * sz); Some (True, s1, w) })"
    unfolding msz_AuxAppend_def Let_def append_start [OF ok] qN qA buffer_QuerySize_def by (rule refl)
  consider (over) "N > MAXDWORD" | (fit) "N \<le> m_cbBuffer (msz_Buff s)"
    | (over2) "N \<le> MAXDWORD" "\<not> N \<le> m_cbBuffer (msz_Buff s)" "A > MAXDWORD"
    | (grow) "\<not> N \<le> m_cbBuffer (msz_Buff s)" "A \<le> MAXDWORD" by linarith
  note cases = this
  note outcome = append_outcome_def append_too_large_def A_def [symmetric]
  have both: "msz_delivers sz ss ?ts w (msz_AuxAppend sz s p (k * sz) slop w) \<and>
    (generous w \<longrightarrow> N + 128 \<le> MAXDWORD \<longrightarrow> (\<exists>s' w'. msz_AuxAppend sz s p (k * sz) slop w = Some (True, s', w'))) \<and>
    append_outcome s N slop w (msz_AuxAppend sz s p (k * sz) slop w)"
    using cases
  proof cases
    case over
    then have "msz_AuxAppend sz s p (k * sz) slop w = Some (False, s, SetLastError ERROR_ARITHMETIC_OVERFLOW w)"
      by (simp add: unf)
    then show ?thesis using over msz_delivers_overflow [OF ok] D(6) AN by (auto simp: outcome)
  next
    case over2
    then have "msz_AuxAppend sz s p (k * sz) slop w = Some (False, s, SetLastError ERROR_ARITHMETIC_OVERFLOW w)"
      by (simp add: unf)
    then show ?thesis using over2 AN msz_delivers_overflow [OF ok] by (auto simp: outcome)
  next
    case fit
    then have "N \<le> MAXDWORD" using D(6) by simp
    have "take (length (msz_QueryStr s)) (m_pBuffer (msz_Buff s)) = msz_QueryStr s"
      by (simp add: msz_QueryStr_def QueryPtr_def)
    from AuxAppend_copy_correct [OF ok D(1) this _ k(1)] fit obtain s' where
      "AuxAppend_copy sz s (msz_Buff s) ?o p (k * sz) = Some s'" "msz_ok sz s' ?ts" unfolding N_def by blast
    then show ?thesis using fit \<open>N \<le> MAXDWORD\<close> by (auto simp: unf msz_delivers_def outcome)
  next
    case grow
    then have n: "N \<le> MAXDWORD" using AN by simp
    obtain g b w1 where R: "buffer_Resize sz (msz_Buff s) A False w = (g, b, w1)" by (metis prod_cases3)
    have gen: "generous w \<Longrightarrow> g \<and> generous w1"
      using buffer_Resize_generous [of w A sz "msz_Buff s" False] grow(2) R by (metis fst_conv snd_conv)
    show ?thesis
    proof (cases g)
      case False
      with R have b: "b = msz_Buff s" "last_error w1 = ERROR_NOT_ENOUGH_MEMORY"
        using buffer_Resize_fails buffer_Resize_error grow(2) by metis+
      then show ?thesis using ok grow n R False gen by (auto simp: unf msz_delivers_def outcome error_codes)
    next
      case True
      with R have R: "buffer_Resize sz (msz_Buff s) A False w = (True, b, w1)" by simp
      have G: "buffer_ok sz b" "A \<le> m_cbBuffer b"
        "take (length (m_pBuffer (msz_Buff s))) (m_pBuffer b) = m_pBuffer (msz_Buff s)"
        using buffer_Resize_grows [OF D(1) R] by auto
      then have "take (length (msz_QueryStr s)) (m_pBuffer b) = msz_QueryStr s"
        by (simp add: msz_QueryStr_def QueryPtr_def)
      moreover have "N \<le> m_cbBuffer b" using G(2) AN by simp
      ultimately obtain s' where
        "AuxAppend_copy sz s b ?o p (k * sz) = Some s'" "msz_ok sz s' ?ts"
        using AuxAppend_copy_correct [OF ok G(1) _ _ k(1)] unfolding N_def by blast
      then show ?thesis using grow n R gen True by (auto simp: unf msz_delivers_def outcome)
    qed
  qed
  from both show "msz_delivers sz ss ?ts w (msz_AuxAppend sz s p (k * sz) slop w)" by blast
  from both show "generous w \<Longrightarrow> (length (joined ss) + k + 2) * sz + 128 \<le> MAXDWORD \<Longrightarrow>
    \<exists>s' w'. msz_AuxAppend sz s p (k * sz) slop w = Some (True, s', w')" unfolding N_def by blast
  from both show "append_outcome s ((length (joined ss) + k + 2) * sz) slop w (msz_AuxAppend sz s p (k * sz) slop w)"
    unfolding N_def by blast
qed


section \<open>The operations on lists of strings\<close>

lemma Reset_correct:
  assumes "buffer_ok sz (msz_Buff s)" "2 \<le> length (msz_QueryStr s)"
  obtains s' where "msz_Reset s = Some s'" "msz_ok sz s' []"
proof -
  obtain a b r where m: "msz_QueryStr s = a # b # r"
    using assms(2) by (metis Suc_le_length_iff numeral_2_eq_2)
  let ?s = "(msz_with s (0 # 0 # r))\<lparr>msz_cchLen := 2, m_cStrings := 0\<rparr>"
  have "msz_Reset s = Some ?s" by (simp add: msz_Reset_def m mem_put_def)
  moreover have "msz_ok sz ?s []"
    using assms(1) m by (auto simp: msz_ok_def msz_with_def buffer_ok_def msz_QueryStr_def QueryPtr_def)
  ultimately show thesis by (rule that)
qed

text \<open>A piece of text without terminators is appended as one string, unless it is empty.\<close>

definition piece :: "'a list \<Rightarrow> 'a list list" where
  "piece x = (if x = [] then [] else [x])"

lemma unmulti_piece: "0 \<notin> set x \<Longrightarrow> unmulti (x @ [0, 0]) = piece x"
  by (simp add: piece_def unmulti_text proper_def)

lemma take_strlen: "take (strlen p) p = cstr p"
  by (simp add: cstr_take [of p])

lemma Append_psz_delivers:
  assumes "msz_ok sz s ss" "strlen p * sz \<le> MAXDWORD"
  shows "msz_delivers sz ss (ss @ piece (cstr p)) w (msz_Append_psz sz s (Some p) w)"
proof -
  have "strlen p \<le> MAXDWORD" using le_mult_pos [OF msz_okD(2) [OF assms(1)] assms(2)] .
  then show ?thesis
    using AuxAppend_correct(1) [OF assms(1) strlen_le assms(2), of w True] assms(2)
    by (simp add: msz_Append_psz_def dword_id take_strlen unmulti_piece cstr_nonzero)
qed

lemma Append_psz_outcome:
  assumes "msz_ok sz s ss" "strlen p * sz \<le> MAXDWORD"
  shows "append_outcome s ((length (joined ss) + strlen p + 2) * sz) True w (msz_Append_psz sz s (Some p) w)"
proof -
  have "strlen p \<le> MAXDWORD" using le_mult_pos [OF msz_okD(2) [OF assms(1)] assms(2)] .
  then show ?thesis
    using AuxAppend_correct(3) [OF assms(1) strlen_le assms(2), of True w] assms(2)
    by (simp add: msz_Append_psz_def dword_id)
qed

lemma Append_str_delivers:
  assumes "msz_ok sz s ss" "str_ok sz str"
  shows "msz_delivers sz ss (ss @ unmulti (str_text str @ [0, 0])) w (msz_Append_str sz s str w)"
proof -
  have l: "m_cchLen str \<le> length (QueryStr str)" "m_cchLen str * sz \<le> MAXDWORD"
    using str_okD(3) [OF assms(2)] str_ok_bytes [OF assms(2)] by simp_all
  from AuxAppend_correct(1) [OF assms(1) l, of w True] l show ?thesis
    by (simp add: msz_Append_str_def QueryCCH_def dword_id str_text_def)
qed

lemma take_image:
  assumes "msz_ok sz s ss"
  shows "unmulti (take (msz_cchLen s) (msz_QueryStr s) @ [0, 0]) = ss"
    and "msz_cchLen s \<le> length (msz_QueryStr s)"
proof -
  obtain r where r: "msz_QueryStr s = multi ss @ r"
    "msz_cchLen s = length (multi ss) \<or> ss = [] \<and> msz_cchLen s = 2 \<and> (\<exists>q. r = 0 # q)"
    using assms by (auto simp: msz_ok_def)
  then show "msz_cchLen s \<le> length (msz_QueryStr s)" by auto
  have "take (msz_cchLen s) (msz_QueryStr s) = multi ss \<or> ss = [] \<and> take (msz_cchLen s) (msz_QueryStr s) = [0, 0]"
    using r by auto
  then show "unmulti (take (msz_cchLen s) (msz_QueryStr s) @ [0, 0]) = ss"
    using unmulti_multi [OF msz_okD(3) [OF assms], of "[0, 0]"] by (elim disjE conjE) simp_all
qed

lemma Copy_delivers:
  assumes s: "msz_ok sz s ss" and t: "msz_ok sz t ts"
  shows "msz_delivers sz [] ts w (msz_Copy sz s t w)"
proof -
  obtain s1 where s1: "msz_Reset s = Some s1" "msz_ok sz s1 []"
    using Reset_correct [OF msz_okD(1,7) [OF s]] .
  have cb: "msz_QueryCB sz t = msz_cchLen t * sz" using msz_ok_bytes(3) [OF t] by (simp add: msz_QueryCB_def dword_id)
  from AuxAppend_correct(1) [OF s1(2) take_image(2) [OF t] msz_ok_bytes(3) [OF t], of w False] s1(1) show ?thesis
    by (simp add: msz_Copy_def msz_Copy_len_def cb take_image(1) [OF t])
qed

lemma Clone_delivers:
  assumes s: "msz_ok sz s ss" and t: "msz_ok sz t ts"
  obtains ok t' w' where "msz_Clone sz s (Some t) w = Some (ok, Some t', w')" "msz_ok sz t' (if ok then ss else [])"
proof -
  obtain ok t' w' where "msz_Copy sz t s w = Some (ok, t', w')" "msz_ok sz t' (if ok then ss else [])"
    using msz_deliversE [OF Copy_delivers [OF t s, of w]] by metis
  then show thesis using that by (simp add: msz_Clone_def)
qed

lemma nat_int_mult: "nat (int a * int b) = a * b" "(int a * int b < 0) = False"
  by (simp_all add: nat_mult_distrib flip: of_nat_mult)

text \<open>The copy constructor, for an image of less than two gigabytes.\<close>

lemma AuxInit_correct:
  assumes b: "buffer_ok sz (msz_Buff s)" "2 \<le> length (msz_QueryStr s)"
    and ss: "\<forall>x\<in>set ss. proper x" "length (multi ss) * sz < 2147483648"
  obtains s' w' where "msz_AuxInit sz s (Some (multi ss @ r)) w = Some (s', w')" "msz_ok sz s' ss"
  | w' where "msz_AuxInit sz s (Some (multi ss @ r)) w = Some (s, w')" "last_error w' = ERROR_NOT_ENOUGH_MEMORY"
proof -
  let ?L = "length (multi ss)"
  have sz: "0 < sz" using b(1) by (simp add: buffer_ok_def)
  have Lz: "?L \<le> MAXDWORD" using le_mult_pos [OF sz, of ?L MAXDWORD] ss(2) by (simp add: MAXDWORD_def)
  have C: "msz_CalcLength (multi ss @ r) = Some (?L, length ss)"
    using ss(1) Lz by (rule CalcLength_multi)
  have cb: "long_of_dword (dword (?L * sz)) = int (?L * sz)"
    using ss(2) by (simp add: long_of_dword_def dword_id MAXDWORD_def del: length_multi)
  obtain g b' w1 where R: "buffer_Resize sz (msz_Buff s) (?L * sz) False w = (g, b', w1)" by (metis prod_cases3)
  show thesis
  proof (cases g)
    case False
    with R have "b' = msz_Buff s" by (auto intro: buffer_Resize_fails)
    moreover have "last_error w1 = ERROR_NOT_ENOUGH_MEMORY"
      using R False ss(2) by (intro buffer_Resize_error) (auto simp: MAXDWORD_def)
    moreover have "msz_AuxInit sz s (Some (multi ss @ r)) w = Some (s\<lparr>msz_Buff := b'\<rparr>, w1)"
      using R False by (simp add: msz_AuxInit_def C cb Let_def nat_int_mult del: length_multi)
    ultimately show ?thesis using that(2) by simp
  next
    case True
    with R have R: "buffer_Resize sz (msz_Buff s) (?L * sz) False w = (True, b', w1)" by simp
    note G = buffer_Resize_grows [OF b(1) R] buffer_Resize_length [OF b(1) R]
    have room: "?L \<le> length (m_pBuffer b')" using G(2) sz by simp
    let ?m = "multi ss @ drop ?L (m_pBuffer b')"
    let ?s = "s\<lparr>msz_Buff := b'\<lparr>m_pBuffer := ?m\<rparr>, msz_cchLen := ?L, m_cStrings := length ss\<rparr>"
    have "msz_AuxInit sz s (Some (multi ss @ r)) w = Some (?s, w1)"
      using R room sz by (simp add: msz_AuxInit_def C cb Let_def nat_int_mult mem_simps mem_read_def del: length_multi)
    moreover have "msz_ok sz ?s ss"
      using G b ss(1) room by (auto simp: msz_ok_def buffer_ok_def msz_QueryStr_def QueryPtr_def)
    ultimately show ?thesis using that(1) by blast
  qed
qed

section \<open>Queries\<close>

lemma FindString_correct:
  assumes "msz_ok sz s ss"
  shows "msz_FindString s str = Some (cstr str \<in> set ss)"
    and "msz_FindStringNoCase s str = Some (\<exists>x\<in>set ss. map tolower x = map tolower (cstr str))"
proof -
  obtain r where r: "msz_QueryStr s = multi ss @ r" using assms by (auto simp: msz_ok_def)
  have "strcmp_eq (x @ 0 # q) str = (x = cstr str)" "stricmp_eq (x @ 0 # q) str = (map tolower x = map tolower (cstr str))"
    if "proper x" for x q
    using that by (simp_all add: strcmp_eq_def stricmp_eq_def proper_def cstr_append_nul)
  note P = this
  show "msz_FindString s str = Some (cstr str \<in> set ss)"
    using find_loop_multi [OF msz_okD(3) [OF assms], of strcmp_eq str "\<lambda>x. x = cstr str"] P(1)
    by (auto simp: msz_FindString_def r)
  show "msz_FindStringNoCase s str = Some (\<exists>x\<in>set ss. map tolower x = map tolower (cstr str))"
    using find_loop_multi [OF msz_okD(3) [OF assms], of stricmp_eq str "\<lambda>x. map tolower x = map tolower (cstr str)"] P(2)
    by (auto simp: msz_FindStringNoCase_def r)
qed

lemma CopyToBuffer_msz:
  assumes "msz_ok sz s ss"
  shows "msz_CopyToBuffer s out (Some n) w =
     (if n < msz_cchLen s then Some (False, out, Some (msz_cchLen s), SetLastError ERROR_INSUFFICIENT_BUFFER w)
      else if msz_cchLen s \<le> length out
      then Some (True, take (msz_cchLen s) (msz_QueryStr s) @ drop (msz_cchLen s) out, Some (msz_cchLen s), w)
      else None)"
  using take_image(2) [OF assms]
  by (simp add: msz_CopyToBuffer_def msz_QueryCCH_def mem_read_def mem_write_def Let_def)

text \<open>The pointer to the strings \<open>ss\<close>, null when there is none.\<close>

definition scan_at :: "'a::len word list \<Rightarrow> 'a word list list \<Rightarrow> 'a word list option" where
  "scan_at r ss = (if ss = [] then None else Some (multi ss @ r))"

lemma scan_at_Cons: "scan_at r (s # ss) = Some (multi (s # ss) @ r)"
  by (simp add: scan_at_def)

lemma image_head: "\<forall>x\<in>set ss. proper x \<Longrightarrow> (multi ss @ r) ! 0 = 0 \<longleftrightarrow> ss = []"
proof (cases ss)
  case (Cons s ts)
  moreover assume "\<forall>x\<in>set ss. proper x"
  ultimately show ?thesis by (cases s) (auto simp: proper_def)
qed simp

lemma First_correct:
  assumes "msz_ok sz s ss"
  obtains r where "msz_First s = Some (scan_at r ss)"
proof -
  obtain r where r: "msz_QueryStr s = multi ss @ r" using assms by (auto simp: msz_ok_def)
  have "msz_First s = Some (scan_at r ss)"
    using image_head [OF msz_okD(3) [OF assms]] by (simp add: msz_First_def r mem_get_def scan_at_def)
  then show thesis by (rule that)
qed

lemma Next_correct:
  assumes "\<forall>x\<in>set (s # ss). proper x"
  shows "msz_Next (multi (s # ss) @ r) = Some (scan_at r ss)"
proof -
  have z: "0 \<notin> set s" using assms by (simp add: proper_def)
  have m: "multi (s # ss) @ r = s @ 0 # (multi ss @ r)" by simp
  have g: "mem_get (length s + 1) (s @ 0 # (multi ss @ r)) = Some ((multi ss @ r) ! 0)"
    by (simp add: mem_get_def nth_append)
  have "(multi ss @ r) ! 0 = 0 \<longleftrightarrow> ss = []" using assms by (intro image_head) simp
  then show ?thesis
    unfolding m using z g by (simp add: msz_Next_def strlen_append_nul scan_at_def)
qed

lemma Equals_loop_correct:
  assumes "\<forall>x\<in>set ss. proper x" "\<forall>x\<in>set ts. proper x" "length ss = length ts"
  shows "Equals_loop (scan_at r ss) (scan_at q ts) = Some (ss = ts)"
  using assms
proof (induction ss arbitrary: ts)
  case Nil
  then show ?case by (simp add: scan_at_def)
next
  case (Cons s ss)
  then obtain t ts' where t: "ts = t # ts'" by (cases ts) auto
  have "strcmp_eq (multi (s # ss) @ r) (multi (t # ts') @ q) = (s = t)"
    using Cons.prems t by (simp add: strcmp_eq_def proper_def cstr_append_nul)
  moreover have "Equals_loop (scan_at r ss) (scan_at q ts') = Some (ss = ts')"
    using Cons t by simp
  ultimately show ?case
    using Next_correct [of s ss r] Next_correct [of t ts' q] Cons.prems t
    by (cases "s = t") (simp_all add: scan_at_Cons del: multi_simps)
qed

lemma Equals_correct:
  assumes "msz_ok sz s ss" "msz_ok sz t ts"
  shows "msz_Equals s t = Some (ss = ts)"
proof -
  note S = msz_okD [OF assms(1)] and T = msz_okD [OF assms(2)]
  obtain r q where "msz_First s = Some (scan_at r ss)" "msz_First t = Some (scan_at q ts)"
    using First_correct [OF assms(1)] First_correct [OF assms(2)] by metis
  then show ?thesis
    using Equals_loop_correct [OF S(3) T(3)] S(4) T(4) by (auto simp: msz_Equals_def)
qed


section \<open>Splitting at commas\<close>

fun commas :: "'a::len word list \<Rightarrow> 'a word list list" where
  "commas [] = [[]]"
| "commas (c # cs) =
     (if c = 44 then [] # commas cs
      else (case commas cs of [] \<Rightarrow> [[c]] | x # xs \<Rightarrow> (c # x) # xs))"

definition trim_white :: "'a::len word list \<Rightarrow> 'a word list" where
  "trim_white x = rev (dropWhile ISWHITE (rev (dropWhile ISWHITE x)))"

definition split_strings :: "bool \<Rightarrow> 'a::len word list \<Rightarrow> 'a word list list" where
  "split_strings fTrim text =
     filter (\<lambda>x. x \<noteq> []) (map (if fTrim then trim_white else id) (commas text))"

lemma commas_no: "44 \<notin> set x \<Longrightarrow> commas x = [x]"
  by (induction x) auto

lemma commas_at: "44 \<notin> set x \<Longrightarrow> commas (x @ 44 # y) = x # commas y"
  by (induction x) auto

lemma trim_start_eq:
  "i \<le> e \<Longrightarrow> e \<le> length m \<Longrightarrow>
   i \<le> trim_start m i e \<and> trim_start m i e \<le> e \<and>
   drop (trim_start m i e) (take e m) = dropWhile ISWHITE (drop i (take e m))"
proof (induction m i e rule: trim_start.induct)
  case (1 m i e)
  show ?case
  proof (cases "i < e \<and> ISWHITE (m ! i)")
    case True
    then have "drop i (take e m) = m ! i # drop (Suc i) (take e m)"
      using "1.prems" by (metis Cons_nth_drop_Suc length_take min.absorb2 nth_take)
    then show ?thesis using "1.IH" True "1.prems" by (subst (1 2 3) trim_start.simps) simp
  next
    case False
    show ?thesis
    proof (cases "i < e")
      case True
      then have "drop i (take e m) = m ! i # drop (Suc i) (take e m)"
        using "1.prems" by (metis Cons_nth_drop_Suc length_take min.absorb2 nth_take)
      then show ?thesis using False True "1.prems" by (subst (1 2 3) trim_start.simps) simp
    next
      case ge: False
      then show ?thesis using "1.prems" by (subst (1 2 3) trim_start.simps) simp
    qed
  qed
qed

lemma trim_end_eq:
  "i \<le> e \<Longrightarrow> e \<le> length m \<Longrightarrow>
   i \<le> trim_end m i e \<and> trim_end m i e \<le> e \<and>
   drop i (take (trim_end m i e) m) = rev (dropWhile ISWHITE (rev (drop i (take e m))))"
proof (induction m i e rule: trim_end.induct)
  case (1 m i e)
  have last: "drop i (take e m) = drop i (take (e - 1) m) @ [m ! (e - 1)]" if "i < e"
  proof -
    have "take e m = take (e - 1) m @ [m ! (e - 1)]"
      using that "1.prems" by (metis Suc_pred' le_less_trans less_eq_Suc_le take_Suc_conv_app_nth zero_le)
    then show ?thesis using that "1.prems" by simp
  qed
  show ?case
  proof (cases "i < e \<and> ISWHITE (m ! (e - 1))")
    case True
    then have e: "trim_end m i e = trim_end m i (e - 1)" by (subst trim_end.simps) simp
    have "i \<le> e - 1" "e - 1 \<le> length m" using True "1.prems" by auto
    then have "trim_end m i (e - 1) \<le> e" using "1.IH" [OF True] by linarith
    then show ?thesis unfolding e using "1.IH" [OF True] True "1.prems" last by auto
  next
    case False
    then show ?thesis using "1.prems" last
      by (subst (1 2 3) trim_end.simps) (cases "i < e"; auto)
  qed
qed

text \<open>The entry of one round.\<close>

lemma entry_eq:
  fixes cur :: "'a::len word list" and fTrim :: bool
  assumes "e0 \<le> length cur"
  defines "i \<equiv> if fTrim then trim_start cur 0 e0 else 0"
  defines "e \<equiv> if fTrim then trim_end cur i e0 else e0"
  shows "i \<le> e" "e \<le> e0" "take (e - i) (drop i cur) = (if fTrim then trim_white else id) (take e0 cur)"
proof -
  note s = trim_start_eq [of 0 e0 cur, OF _ assms(1), simplified]
  have i: "i \<le> e0" "drop i (take e0 cur) = (if fTrim then dropWhile ISWHITE else id) (take e0 cur)"
    using s by (simp_all add: i_def)
  have "i \<le> e \<and> e \<le> e0 \<and> drop i (take e cur) = (if fTrim then trim_white else id) (take e0 cur)"
    using trim_end_eq [OF i(1) assms(1)] i by (simp add: e_def trim_white_def)
  then show "i \<le> e" "e \<le> e0" "take (e - i) (drop i cur) = (if fTrim then trim_white else id) (take e0 cur)"
    by (auto simp: take_drop)
qed


lemma split_strings_one: "44 \<notin> set x \<Longrightarrow> split_strings f x = piece ((if f then trim_white else id) x)"
  by (simp add: split_strings_def commas_no piece_def)

lemma split_strings_at:
  "44 \<notin> set x \<Longrightarrow> split_strings f (x @ 44 # y) = piece ((if f then trim_white else id) x) @ split_strings f y"
  by (simp add: split_strings_def commas_at piece_def)

lemma cstr_append: "0 \<notin> set a \<Longrightarrow> cstr (a @ r) = a @ cstr r"
  by (induction a) (auto simp: cstr_Cons)

lemma strchr_comma:
  fixes cur :: "'a::len word list"
  assumes wide: "(44::'a word) \<noteq> 0"
  shows
  "strchr cur 44 = None \<Longrightarrow> 44 \<notin> set (cstr cur)"
  "strchr cur 44 = Some n \<Longrightarrow> n < strlen cur \<and> 44 \<notin> set (take n cur) \<and>
     cstr cur = take n cur @ 44 # cstr (drop (n + 1) cur)"
proof -
  show "strchr cur 44 = None \<Longrightarrow> 44 \<notin> set (cstr cur)" by (auto simp: strchr_def find_index_None)
  assume "strchr cur 44 = Some n"
  then have n: "n < length (cstr cur @ [0])" "(cstr cur @ [0]) ! n = 44" "\<forall>j<n. (cstr cur @ [0]) ! j \<noteq> 44"
    by (auto simp: strchr_def find_index_Some)
  have l: "n < strlen cur"
    using n(1,2) wide by (auto simp: strlen_def nth_append less_Suc_eq simp del: word_eq_numeral_iff_iszero split: if_splits)
  then have tk: "take n (cstr cur) = take n cur" unfolding cstr_take [of cur] by (simp add: min_absorb1)
  have nz: "0 \<notin> set (take n cur)" using cstr_nonzero [of cur] tk by (metis in_set_takeD)
  have "cstr cur ! n = cur ! n" using l by (metis cstr_take nth_take)
  then have c: "cur ! n = 44" using n(2) l by (simp add: nth_append strlen_def)
  have "cur = take n cur @ 44 # drop (n + 1) cur"
    using id_take_nth_drop [of n cur] l strlen_le [of cur] c by simp
  moreover have "cstr (take n cur @ 44 # r) = take n cur @ 44 # cstr r" for r
    using cstr_append [OF nz] wide by (simp add: cstr_Cons del: word_eq_numeral_iff_iszero)
  ultimately have "cstr cur = take n cur @ 44 # cstr (drop (n + 1) cur)" by metis
  moreover have "44 \<notin> set (take n cur)"
    using n(3) l unfolding tk [symmetric] by (auto simp: in_set_conv_nth nth_append strlen_def)
  ultimately show "n < strlen cur \<and> 44 \<notin> set (take n cur) \<and>
     cstr cur = take n cur @ 44 # cstr (drop (n + 1) cur)" using l by blast
qed

lemma piece_length: "length (joined (piece x)) \<le> length x + 1"
  by (simp add: piece_def)

text \<open>One round appends its entry, whatever \<open>fRemoveEmptyEntries\<close> says.\<close>

lemma entry_append:
  fixes fR :: bool and w :: world
  assumes ok: "msz_ok sz s ss" and e: "i \<le> e" "e \<le> strlen cur" and small: "strlen cur * sz \<le> MAXDWORD"
  defines "R \<equiv> (if i \<noteq> e \<or> \<not> fR then msz_Append_len sz s (Some (drop i cur)) (dword (e - i)) w else Some (True, s, w))"
  shows "msz_delivers sz ss (ss @ piece (take (e - i) (drop i cur))) w R"
    and "generous w \<Longrightarrow> (length (joined ss) + (e - i) + 2) * sz + 128 \<le> MAXDWORD \<Longrightarrow> \<exists>s' w'. R = Some (True, s', w')"
proof -
  have "(e - i) * sz \<le> strlen cur * sz" using e by (intro mult_le_mono1) simp
  then have k: "(e - i) * sz \<le> MAXDWORD" using small by (rule le_trans)
  have d: "dword (dword (e - i) * sz) = (e - i) * sz"
    using k le_mult_pos [OF msz_okD(2) [OF ok] k] by (simp add: dword_id)
  have l: "e - i \<le> length (drop i cur)" using e strlen_le [of cur] by simp
  have "take (e - i) (drop i cur) = drop i (take e cur)" using e by (simp add: take_drop)
  then have "set (take (e - i) (drop i cur)) \<subseteq> set (take (strlen cur) cur)"
    using e by (metis set_drop_subset set_take_subset_set_take subset_trans)
  then have nz: "0 \<notin> set (take (e - i) (drop i cur))"
    using cstr_nonzero [of cur] by (auto simp: take_strlen)
  note A = AuxAppend_correct [OF ok l k, where w = w and slop = True]
  have eq: "i \<noteq> e \<or> \<not> fR \<Longrightarrow> R = msz_AuxAppend sz s (drop i cur) ((e - i) * sz) True w"
    by (simp add: R_def msz_Append_len_def d)
  have skip: "\<not> (i \<noteq> e \<or> \<not> fR) \<Longrightarrow> R = Some (True, s, w) \<and> piece (take (e - i) (drop i cur)) = []"
    by (simp add: R_def piece_def)
  show "msz_delivers sz ss (ss @ piece (take (e - i) (drop i cur))) w R"
  proof (cases "i \<noteq> e \<or> \<not> fR")
    case True
    then show ?thesis using A(1) eq unmulti_piece [OF nz] by simp
  next
    case False
    then show ?thesis using skip ok by (auto simp: msz_delivers_def)
  qed
  show "generous w \<Longrightarrow> (length (joined ss) + (e - i) + 2) * sz + 128 \<le> MAXDWORD \<Longrightarrow> \<exists>s' w'. R = Some (True, s', w')"
    using A(2) eq skip by (cases "i \<noteq> e \<or> \<not> fR") auto
qed

lemma split_error [simp]: "e \<in> {ERROR_NOT_ENOUGH_MEMORY, ERROR_ARITHMETIC_OVERFLOW} \<Longrightarrow> FAILED (HRESULT_FROM_WIN32 e)"
  by auto


lemma split_loop_correct:
  fixes s :: "'a::len word multisz"
  assumes wide: "(44::'a word) \<noteq> 0" and "msz_ok sz s ss" "strlen cur * sz \<le> MAXDWORD"
  shows "\<exists>hr s' w' k. split_loop sz cur fT fR s w = Some (hr, s', w') \<and>
    msz_ok sz s' (ss @ take k (split_strings fT (cstr cur))) \<and>
    (hr = S_OK \<and> length (split_strings fT (cstr cur)) \<le> k \<or> FAILED hr) \<and>
    (generous w \<longrightarrow> (length (joined ss) + strlen cur + 3) * sz + 128 \<le> MAXDWORD \<longrightarrow> hr = S_OK)"
  using assms(2,3)
proof (induction "length cur" arbitrary: cur s ss w rule: less_induct)
  case less
  note ok = less.prems(1) and small = less.prems(2)
  define n0 where "n0 = strchr cur 44"
  define e0 where "e0 = (case n0 of Some n \<Rightarrow> n | None \<Rightarrow> strlen cur)"
  define i where "i = (if fT then trim_start cur 0 e0 else 0)"
  define e where "e = (if fT then trim_end cur i e0 else e0)"
  define x where "x = (if fT then trim_white else id) (take e0 cur)"
  define R where "R = (if i \<noteq> e \<or> \<not> fR then msz_Append_len sz s (Some (drop i cur)) (dword (e - i)) w else Some (True, s, w))"
  have e0: "e0 \<le> strlen cur" using strchr_comma(2) [OF wide, of cur] by (auto simp: e0_def n0_def split: option.split)
  have E: "i \<le> e" "e \<le> e0" "take (e - i) (drop i cur) = x"
    using entry_eq [of e0 cur fT] e0 strlen_le [of cur] unfolding i_def e_def x_def by simp_all
  have es: "e \<le> strlen cur" using E(2) e0 by simp
  note A = entry_append [OF ok E(1) es small, of w fR, folded R_def, unfolded E(3)]
  obtain g s1 w1 where R: "R = Some (g, s1, w1)" "msz_ok sz s1 (if g then ss @ piece x else ss)"
    "\<not> g \<Longrightarrow> last_error w1 \<in> {ERROR_NOT_ENOUGH_MEMORY, ERROR_ARITHMETIC_OVERFLOW}"
    using msz_deliversE [OF A(1)] by blast
  have gen: "generous w \<Longrightarrow> generous w1" using A(1) R(1) by (auto simp: msz_delivers_def)
  let ?fits = "(length (joined ss) + strlen cur + 3) * sz + 128 \<le> MAXDWORD"
  have g: "generous w \<Longrightarrow> ?fits \<Longrightarrow> g"
  proof -
    assume "generous w" ?fits
    moreover have "(length (joined ss) + (e - i) + 2) * sz \<le> (length (joined ss) + strlen cur + 3) * sz"
      using es by (intro mult_le_mono1) simp
    ultimately show g using A(2) R(1) by fastforce
  qed
  have step: "split_loop sz cur fT fR s w =
     (if \<not> g then Some (HRESULT_FROM_WIN32 (GetLastError w1), s1, w1)
      else (case n0 of None \<Rightarrow> Some (S_OK, s1, w1)
        | Some n \<Rightarrow> if n < length cur then split_loop sz (drop (n + 1) cur) fT fR s1 w1 else None))"
    by (subst split_loop.simps)
       (simp only: Let_def n0_def [symmetric] e0_def [symmetric] i_def [symmetric] e_def [symmetric]
         R_def [symmetric] R(1) Option.bind.bind_lunit case_prod_conv)
  show ?case
  proof (cases g)
    case False
    have "FAILED (HRESULT_FROM_WIN32 (GetLastError w1))" using R(3) [OF False] by (auto simp: GetLastError_def)
    then show ?thesis using step False R(2) g by (intro exI [of _ 0] exI) auto
  next
    case True
    then have ok1: "msz_ok sz s1 (ss @ piece x)" using R(2) by simp
    show ?thesis
    proof (cases n0)
      case None
      then have "44 \<notin> set (cstr cur)" using strchr_comma(1) [OF wide] n0_def by simp
      moreover have "take e0 cur = cstr cur" using None by (simp add: e0_def take_strlen)
      ultimately have sp: "split_strings fT (cstr cur) = piece x" by (simp add: split_strings_one x_def)
      then show ?thesis using step True None ok1
        by (intro exI [of _ S_OK] exI [of _ s1] exI [of _ w1] exI [of _ "length (piece x)"]) simp
    next
      case (Some n)
      note S = strchr_comma(2) [OF wide, of cur n, folded n0_def, OF Some]
      let ?rest = "drop (n + 1) cur"
      have n: "n < length cur" using S strlen_le [of cur] by simp
      have sp: "split_strings fT (cstr cur) = piece x @ split_strings fT (cstr ?rest)"
        using S split_strings_at [of "take n cur" fT] Some by (simp add: x_def e0_def)
      have sl: "strlen cur = n + 1 + strlen ?rest"
      proof -
        have "length (cstr cur) = length (take n cur @ 44 # cstr ?rest)" using S by metis
        then show ?thesis using n by (simp add: strlen_def)
      qed
      have "strlen ?rest * sz \<le> MAXDWORD" using small sl by (simp add: add_mult_distrib)
      moreover have "length ?rest < length cur" using n by simp
      ultimately obtain hr s' w' k where I:
        "split_loop sz ?rest fT fR s1 w1 = Some (hr, s', w')"
        "msz_ok sz s' ((ss @ piece x) @ take k (split_strings fT (cstr ?rest)))"
        "hr = S_OK \<and> length (split_strings fT (cstr ?rest)) \<le> k \<or> FAILED hr"
        "generous w1 \<longrightarrow> (length (joined (ss @ piece x)) + strlen ?rest + 3) * sz + 128 \<le> MAXDWORD \<longrightarrow> hr = S_OK"
        using less.hyps [OF _ ok1, of ?rest w1] by blast
      have xl: "length (joined (piece x)) \<le> n + 1"
        using piece_length [of x] E(2) Some arg_cong [OF E(3), of length] by (simp add: e0_def)
      have "hr = S_OK" if "generous w" ?fits
      proof -
        have "(length (joined (ss @ piece x)) + strlen ?rest + 3) * sz \<le> (length (joined ss) + strlen cur + 3) * sz"
          using xl sl by (intro mult_le_mono1) simp
        then show ?thesis using I(4) gen that by linarith
      qed
      then show ?thesis using step True Some n I sp
        by (intro exI [of _ hr] exI [of _ s'] exI [of _ w'] exI [of _ "length (piece x) + k"]) auto
    qed
  qed
qed


lemma Split_correct:
  fixes s :: "'a::len word multisz"
  assumes wide: "(44::'a word) \<noteq> 0" and s: "msz_ok sz s ss" and p: "strlen p * sz \<le> MAXDWORD"
  shows "\<exists>hr s' w' k. msz_Split sz (Some p) fT fR (Some s) w = Some (hr, Some s', w') \<and>
    msz_ok sz s' (take k (split_strings fT (cstr p))) \<and>
    (hr = S_OK \<and> length (split_strings fT (cstr p)) \<le> k \<or> FAILED hr) \<and>
    (generous w \<longrightarrow> (strlen p + 3) * sz + 128 \<le> MAXDWORD \<longrightarrow> hr = S_OK)"
proof -
  obtain s0 where "msz_Reset s = Some s0" "msz_ok sz s0 []"
    using Reset_correct [OF msz_okD(1,7) [OF s]] .
  moreover from split_loop_correct [OF wide this(2) p, of fT fR w] obtain hr s' w' k where
    "split_loop sz p fT fR s0 w = Some (hr, s', w')" "msz_ok sz s' (take k (split_strings fT (cstr p)))"
    "hr = S_OK \<and> length (split_strings fT (cstr p)) \<le> k \<or> FAILED hr"
    "generous w \<longrightarrow> (strlen p + 3) * sz + 128 \<le> MAXDWORD \<longrightarrow> hr = S_OK"
    by auto
  ultimately show ?thesis
    by (intro exI [of _ hr] exI [of _ s'] exI [of _ w'] exI [of _ k] conjI) (simp_all add: msz_Split_def)
qed

section \<open>An object on caller-supplied memory\<close>

text \<open>It starts with the length zero, from which AuxAppend subtracts one terminator.\<close>

lemma ctor_buf_append:
  assumes "0 < sz" "sz \<le> 2" "cbStr \<le> MAXDWORD"
  shows "msz_AuxAppend sz (msz_ctor_buf mem cbInit) p cbStr slop w =
    Some (False, msz_ctor_buf mem cbInit, SetLastError ERROR_ARITHMETIC_OVERFLOW w)"
proof -
  have "dword_sub 0 sz = 4294967296 - sz" using assms by (simp add: dword_sub_def dword_def)
  then have "MAXDWORD < qword (dword_sub 0 sz + cbStr + 2 * sz)"
    using assms by (simp add: qword_id MAXDWORD_def)
  then show ?thesis
    using assms(1) by (simp add: msz_AuxAppend_def msz_ctor_buf_def msz_QueryCB_def Let_def)
qed

lemma ctor_buf_reset:
  assumes "0 < sz" "cbInit = length mem * sz" "cbInit \<le> MAXDWORD" "2 \<le> length mem"
  obtains s where "msz_Reset (msz_ctor_buf mem cbInit) = Some s" "msz_ok sz s []"
  using Reset_correct [of sz "msz_ctor_buf mem cbInit"] assms
  by (auto simp: msz_ctor_buf_def buffer_init_def buffer_ok_def msz_QueryStr_def QueryPtr_def)

lemma ctor_ok:
  assumes "0 < sz" "length inline * sz = 32" "2 \<le> length inline"
  obtains s where "msz_ctor sz inline = Some s" "msz_ok sz s []"
proof -
  let ?s = "\<lparr>msz_Buff = buffer_inline sz inline, msz_cchLen = 0, m_cStrings = 0\<rparr>"
  have "buffer_ok sz (msz_Buff ?s)" using buffer_inline_ok [of sz inline] assms by (simp add: MAXDWORD_def)
  moreover have "2 \<le> length (msz_QueryStr ?s)"
    using assms(3) by (simp add: msz_QueryStr_def QueryPtr_def buffer_inline_def)
  ultimately show thesis using Reset_correct [of sz ?s] that by (auto simp: msz_ctor_def)
qed

end
