(* ===== verification/Base64.thy ===== *)
theory Base64
  imports Win32
begin

text \<open>
  Base64Encode and Base64Decode of base64.cpp. The wide and the narrow versions are the same code
  at two character widths, so the definitions are polymorphic in the width and the two C++
  overloads are instances. A null pointer is \<open>None\<close>; the out parameters are returned.
\<close>

unbundle bit_operations_syntax

section \<open>Encoding\<close>

definition rgchEncodeTable :: "nat list" where
  "rgchEncodeTable = [65..<91] @ [97..<123] @ [48..<58] @ [43, 47]"

definition encode_char :: "BYTE \<Rightarrow> 'a::len word" where
  "encode_char x = of_nat (rgchEncodeTable ! unat x)"

text \<open>The four table indices of three data bytes.\<close>

definition cluster :: "BYTE \<Rightarrow> BYTE \<Rightarrow> BYTE \<Rightarrow> BYTE list" where
  "cluster b0 b1 b2 =
     [drop_bit 2 b0,
      (push_bit 4 b0 AND 0x30) OR (drop_bit 4 b1 AND 0x0f),
      (push_bit 2 b1 AND 0x3c) OR (drop_bit 6 b2 AND 0x03),
      b2 AND 0x3f]"

text \<open>Writing the characters of a cluster: after each one the code checks that there is room for
  another.\<close>

fun emit :: "nat \<Rightarrow> 'a::len word list \<Rightarrow> 'a word list \<Rightarrow> nat \<Rightarrow> (bool \<times> 'a word list \<times> nat) option" where
  "emit cchEncodedStringSize [] out ich = Some (False, out, ich)"
| "emit cchEncodedStringSize (c # cs) out ich = do {
     out1 \<leftarrow> mem_put ich c out;
     if ich + 1 \<ge> cchEncodedStringSize then Some (True, out1, ich + 1)
     else emit cchEncodedStringSize cs out1 (ich + 1) }"

fun encode_loop ::
  "nat \<Rightarrow> BYTE list \<Rightarrow> 'a::len word list \<Rightarrow> nat \<Rightarrow> (nat \<times> 'a word list \<times> nat) option" where
  "encode_loop cchEncodedStringSize [] out ich = Some (ERROR_SUCCESS, out, ich)"
| "encode_loop cchEncodedStringSize (b0 # data) out ich = do {
     let b1 = (case data of [] \<Rightarrow> 0 | b # _ \<Rightarrow> b);
     let b2 = (case drop 1 data of [] \<Rightarrow> 0 | b # _ \<Rightarrow> b);
     (overflow, out1, ich1) \<leftarrow> emit cchEncodedStringSize (map encode_char (cluster b0 b1 b2)) out ich;
     if overflow then Some (ERROR_BUFFER_OVERFLOW, out1, ich1)
     else encode_loop cchEncodedStringSize (drop 2 data) out1 ich1 }"

definition encode_pad :: "nat \<Rightarrow> 'a::len word list \<Rightarrow> nat \<Rightarrow> 'a word list option" where
  "encode_pad cb out ich =
     (if cb mod 3 = 0 then Some out
      else do {
        out1 \<leftarrow> (if cb mod 3 = 1 then mem_put (ich - 2) 61 out else Some out);
        mem_put (ich - 1) 61 out1 })"

definition cch_encoded :: "nat \<Rightarrow> nat" where
  "cch_encoded cbDecodedBufferSize = dword (1 + dword (dword (cbDecodedBufferSize + 2) div 3 * 4))"

text \<open>The result is the code, the output buffer and what is stored through pcchEncoded.\<close>

definition Base64Encode ::
  "BYTE list \<Rightarrow> nat \<Rightarrow> 'a::len word list option \<Rightarrow> nat \<Rightarrow> (nat \<times> 'a word list option \<times> nat) option" where
  "Base64Encode pDecodedBuffer cbDecodedBufferSize pszEncodedString cchEncodedStringSize =
     (let cchEncoded = cch_encoded cbDecodedBufferSize in
      if cchEncodedStringSize = 0 \<and> pszEncodedString = None
      then Some (ERROR_SUCCESS, pszEncodedString, cchEncoded)
      else if cchEncodedStringSize < cchEncoded
      then Some (ERROR_INSUFFICIENT_BUFFER, pszEncodedString, cchEncoded)
      else do {
        out \<leftarrow> pszEncodedString;
        data \<leftarrow> mem_read 0 cbDecodedBufferSize pDecodedBuffer;
        (err, out1, ich) \<leftarrow> encode_loop cchEncodedStringSize data out 0;
        if err \<noteq> ERROR_SUCCESS then Some (err, Some out1, cchEncoded)
        else do {
          out2 \<leftarrow> encode_pad cbDecodedBufferSize out1 ich;
          out3 \<leftarrow> mem_put ich 0 out2;
          Some (ERROR_SUCCESS, Some out3, cchEncoded) } })"

definition Base64EncodeW ::
  "BYTE list \<Rightarrow> nat \<Rightarrow> WCHAR list option \<Rightarrow> nat \<Rightarrow> (nat \<times> WCHAR list option \<times> nat) option" where
  "Base64EncodeW = Base64Encode"

definition Base64EncodeA ::
  "BYTE list \<Rightarrow> nat \<Rightarrow> CHAR_t list option \<Rightarrow> nat \<Rightarrow> (nat \<times> CHAR_t list option \<times> nat) option" where
  "Base64EncodeA = Base64Encode"

section \<open>Decoding\<close>

definition NA :: BYTE where "NA = 255"

definition rgbDecodeTable :: "BYTE list" where
  "rgbDecodeTable =
     replicate 43 NA @ [62, NA, NA, NA, 63] @ map of_nat [52..<62] @ [NA, NA, NA, 0, NA, NA, NA] @
     map of_nat [0..<26] @ replicate 6 NA @ map of_nat [26..<52] @ replicate 5 NA"

text \<open>DECODE: a sign-extended negative character is at least 128 as well.\<close>

definition DECODE :: "'a::len word \<Rightarrow> BYTE" where
  "DECODE x = (if unat x < length rgbDecodeTable then rgbDecodeTable ! unat x else NA)"

definition decode_bytes :: "BYTE \<Rightarrow> BYTE \<Rightarrow> BYTE \<Rightarrow> BYTE \<Rightarrow> BYTE list" where
  "decode_bytes b0 b1 b2 b3 =
     [push_bit 2 b0 OR drop_bit 4 b1, push_bit 4 b1 OR drop_bit 2 b2, push_bit 6 b2 OR b3]"

text \<open>The first byte of a cluster is stored unconditionally, the other two while \<open>ib\<close> is below
  the decoded size.\<close>

fun decode_store :: "nat \<Rightarrow> BYTE list \<Rightarrow> BYTE list \<Rightarrow> nat \<Rightarrow> (BYTE list \<times> nat) option" where
  "decode_store cbDecoded [] out ib = Some (out, ib)"
| "decode_store cbDecoded (b # bs) out ib =
     (if ib < cbDecoded then do {
        out1 \<leftarrow> mem_put ib b out;
        decode_store cbDecoded bs out1 (ib + 1) }
      else Some (out, ib))"

fun decode_loop :: "nat \<Rightarrow> 'a::len word list \<Rightarrow> BYTE list \<Rightarrow> nat \<Rightarrow> (nat \<times> BYTE list \<times> nat) option" where
  "decode_loop cbDecoded (c0 # c1 # c2 # c3 # cs) out ib =
     (let b0 = DECODE c0; b1 = DECODE c1; b2 = DECODE c2; b3 = DECODE c3 in
      if b0 = NA \<or> b1 = NA \<or> b2 = NA \<or> b3 = NA then Some (ERROR_INVALID_PARAMETER, out, ib)
      else
        (case decode_bytes b0 b1 b2 b3 of
           [] \<Rightarrow> None
         | d0 # ds \<Rightarrow> do {
             out1 \<leftarrow> mem_put ib d0 out;
             (out2, ib2) \<leftarrow> decode_store cbDecoded ds out1 (ib + 1);
             decode_loop cbDecoded cs out2 ib2 }))"
| "decode_loop cbDecoded [] out ib = Some (ERROR_SUCCESS, out, ib)"
| "decode_loop cbDecoded _ out ib = None"

definition cb_decoded :: "'a::len word list \<Rightarrow> nat" where
  "cb_decoded s =
     (let n = length s; cb = dword (dword (n + 3) div 4 * 3) in
      if s ! (n - 1) = 61 then if s ! (n - 2) = 61 then cb - 2 else cb - 1 else cb)"

text \<open>The result is the code, the output buffer and what is stored through pcbDecoded.\<close>

definition Base64Decode ::
  "'a::len word list \<Rightarrow> BYTE list option \<Rightarrow> nat \<Rightarrow> (nat \<times> BYTE list option \<times> nat) option" where
  "Base64Decode pszEncodedString pDecodeBuffer cbDecodeBufferSize =
     (let cchEncodedSize = dword (strlen pszEncodedString);
          s = take cchEncodedSize pszEncodedString
      in
      if cchEncodedSize = 0 \<or> cchEncodedSize mod 4 \<noteq> 0
      then Some (ERROR_INVALID_PARAMETER, pDecodeBuffer, 0)
      else
        let cbDecoded = cb_decoded s in
        if cbDecodeBufferSize = 0 \<and> pDecodeBuffer = None
        then Some (ERROR_SUCCESS, pDecodeBuffer, cbDecoded)
        else if cbDecoded > cbDecodeBufferSize
        then Some (ERROR_INSUFFICIENT_BUFFER, pDecodeBuffer, cbDecoded)
        else do {
          out \<leftarrow> pDecodeBuffer;
          (err, out1, ib) \<leftarrow> decode_loop cbDecoded s out 0;
          Some (err, Some out1, cbDecoded) })"

definition Base64DecodeW ::
  "WCHAR list \<Rightarrow> BYTE list option \<Rightarrow> nat \<Rightarrow> (nat \<times> BYTE list option \<times> nat) option" where
  "Base64DecodeW = Base64Decode"

definition Base64DecodeA ::
  "CHAR_t list \<Rightarrow> BYTE list option \<Rightarrow> nat \<Rightarrow> (nat \<times> BYTE list option \<times> nat) option" where
  "Base64DecodeA = Base64Decode"

section \<open>The bits\<close>

lemma below_8: "n < 8 \<Longrightarrow> n = 0 \<or> n = 1 \<or> n = 2 \<or> n = 3 \<or> n = 4 \<or> n = 5 \<or> n = 6 \<or> n = (7::nat)"
  by arith

lemmas bit_cases = bit_or_iff bit_and_iff bit_push_bit_iff bit_drop_bit_eq

lemma first_byte:
  "push_bit 2 (drop_bit 2 b0) OR drop_bit 4 ((push_bit 4 b0 AND 0x30) OR (drop_bit 4 b1 AND 0x0f)) = (b0 :: BYTE)"
  (is "?l = _")
proof (rule bit_word_eqI)
  fix n assume "n < LENGTH(8)"
  then have "n < 8" by simp
  from below_8 [OF this] show "bit ?l n = bit b0 n" by (elim disjE) (simp_all add: bit_cases)
qed

lemma second_byte:
  "push_bit 4 ((push_bit 4 b0 AND 0x30) OR (drop_bit 4 b1 AND 0x0f)) OR
   drop_bit 2 ((push_bit 2 b1 AND 0x3c) OR (drop_bit 6 b2 AND 0x03)) = (b1 :: BYTE)" (is "?l = _")
proof (rule bit_word_eqI)
  fix n assume "n < LENGTH(8)"
  then have "n < 8" by simp
  from below_8 [OF this] show "bit ?l n = bit b1 n" by (elim disjE) (simp_all add: bit_cases)
qed

lemma third_byte:
  "push_bit 6 ((push_bit 2 b1 AND 0x3c) OR (drop_bit 6 b2 AND 0x03)) OR (b2 AND 0x3f) = (b2 :: BYTE)"
  (is "?l = _")
proof (rule bit_word_eqI)
  fix n assume "n < LENGTH(8)"
  then have "n < 8" by simp
  from below_8 [OF this] show "bit ?l n = bit b2 n" by (elim disjE) (simp_all add: bit_cases)
qed

lemma six_bits: "x AND 0x3f = x \<Longrightarrow> unat (x :: BYTE) < 64"
proof -
  assume "x AND 0x3f = x"
  then have "x = take_bit 6 x" by (simp add: take_bit_eq_mask mask_eq_exp_minus_1)
  then have "unat x = take_bit 6 (unat x)" by (metis unsigned_take_bit_eq)
  also have "\<dots> < 2 ^ 6" by (rule take_bit_nat_less_exp)
  finally show ?thesis by simp
qed

lemma cluster_index: "x \<in> set (cluster b0 b1 b2) \<Longrightarrow> unat x < 64"
proof (rule six_bits, rule bit_word_eqI)
  fix n assume x: "x \<in> set (cluster b0 b1 b2)" and "n < LENGTH(8)"
  then have "n < 8" by simp
  have h: "\<not> bit b 8" "\<not> bit b 9" for b :: BYTE by (auto dest: bit_imp_le_length)
  from below_8 [OF \<open>n < 8\<close>] x show "bit (x AND 0x3f) n = bit x n"
    by (elim disjE) (auto simp: cluster_def bit_cases h)
qed

lemma length_cluster [simp]: "length (cluster b0 b1 b2) = 4"
  by (simp add: cluster_def)

section \<open>The tables\<close>

lemma encode_table: "length rgchEncodeTable = 64" "\<forall>i \<in> set [0..<64]. rgchEncodeTable ! i < 128 \<and>
    rgchEncodeTable ! i \<noteq> 0 \<and> rgchEncodeTable ! i \<noteq> 61 \<and> rgbDecodeTable ! (rgchEncodeTable ! i) = of_nat i"
  by (simp add: rgchEncodeTable_def) code_simp

lemma decode_table: "length rgbDecodeTable = 128"
  by (simp add: rgbDecodeTable_def)

lemma pad_index: "rgbDecodeTable ! 61 = 0"
  by code_simp

lemma unat_encode_char:
  assumes "unat x < 64" "8 \<le> LENGTH('a)"
  shows "unat (encode_char x :: 'a::len word) = rgchEncodeTable ! unat x"
proof -
  have "rgchEncodeTable ! unat x < 128" using encode_table(2) assms(1) by simp
  also have "(128 :: nat) \<le> 2 ^ 8" by simp
  also have "(2 :: nat) ^ 8 \<le> 2 ^ LENGTH('a)" using assms(2) by (intro power_increasing) auto
  finally show ?thesis by (simp add: encode_char_def unat_of_nat)
qed

lemma DECODE_encode_char:
  assumes "unat x < 64" "8 \<le> LENGTH('a)"
  shows "DECODE (encode_char x :: 'a::len word) = x"
  using encode_table(2) assms(1)
  by (simp add: DECODE_def unat_encode_char [OF assms] decode_table)

lemma encode_char_ne:
  assumes "unat x < 64" "8 \<le> LENGTH('a)"
  shows "(encode_char x :: 'a::len word) \<noteq> 0" "(encode_char x :: 'a word) \<noteq> 61"
proof -
  have u: "unat (encode_char x :: 'a word) \<noteq> 0" "unat (encode_char x :: 'a word) \<noteq> 61"
    using encode_table(2) assms(1) by (simp_all add: unat_encode_char [OF assms])
  then show "(encode_char x :: 'a word) \<noteq> 0" by auto
  have "(61 :: nat) < 2 ^ 8" by simp
  also have "(2 :: nat) ^ 8 \<le> 2 ^ LENGTH('a)" using assms(2) by (intro power_increasing) auto
  finally have "unat (61 :: 'a word) = 61" by (simp add: unat_numeral take_bit_nat_eq_self)
  then show "(encode_char x :: 'a word) \<noteq> 61" using u(2) by metis
qed

lemma six_bits_not_NA: "unat x < 64 \<Longrightarrow> x \<noteq> NA"
  by (auto simp: NA_def)

lemma DECODE_pad: assumes "8 \<le> LENGTH('a)" shows "DECODE (61 :: 'a::len word) = 0"
proof -
  have "(61 :: nat) < 2 ^ 8" by simp
  also have "(2 :: nat) ^ 8 \<le> 2 ^ LENGTH('a)" using assms by (intro power_increasing) auto
  finally have "unat (61 :: 'a word) = 61" by (simp add: unat_numeral take_bit_nat_eq_self)
  then show ?thesis by (simp add: DECODE_def decode_table pad_index)
qed

section \<open>The encoding as a function of the data\<close>

fun b64 :: "BYTE list \<Rightarrow> 'a::len word list" where
  "b64 [] = []"
| "b64 [a] = map encode_char (take 2 (cluster a 0 0)) @ [61, 61]"
| "b64 [a, b] = map encode_char (take 3 (cluster a b 0)) @ [61]"
| "b64 (a # b # c # r) = map encode_char (cluster a b c) @ b64 r"

text \<open>What the loop writes before the last cluster is padded.\<close>

fun b64_raw :: "BYTE list \<Rightarrow> 'a::len word list" where
  "b64_raw [] = []"
| "b64_raw [a] = map encode_char (cluster a 0 0)"
| "b64_raw [a, b] = map encode_char (cluster a b 0)"
| "b64_raw (a # b # c # r) = map encode_char (cluster a b c) @ b64_raw r"

lemma clusters_step [simp]: "(5 + n) div 3 = Suc (Suc (Suc n) div 3)"
  by presburger

lemma length_b64_raw: "length (b64_raw data :: 'a::len word list) = (length data + 2) div 3 * 4"
  by (induction data rule: b64_raw.induct) auto

lemma length_b64: "length (b64 data :: 'a::len word list) = (length data + 2) div 3 * 4"
  by (induction data rule: b64.induct) (auto simp: cluster_def)

lemma emit_fits:
  assumes "ich + length cs < room" "room \<le> length out"
  shows "emit room cs out ich = Some (False, take ich out @ cs @ drop (ich + length cs) out, ich + length cs)"
  using assms
proof (induction cs arbitrary: out ich)
  case (Cons c cs)
  have i: "ich < length out" using Cons.prems by simp
  have "emit room cs (out[ich := c]) (ich + 1) =
      Some (False, take (ich + 1) (out[ich := c]) @ cs @ drop (ich + 1 + length cs) (out[ich := c]), ich + 1 + length cs)"
    using Cons.prems by (intro Cons.IH) auto
  then show ?case using Cons.prems i by (simp add: mem_simps take_Suc_conv_app_nth)
qed simp

lemma encode_loop_fits:
  assumes "ich + length (b64_raw data :: 'a word list) < room" "room \<le> length (out :: 'a::len word list)"
  shows "encode_loop room data out ich = Some (ERROR_SUCCESS,
    take ich out @ b64_raw data @ drop (ich + length (b64_raw data :: 'a word list)) out,
    ich + length (b64_raw data :: 'a word list))"
  using assms
proof (induction data arbitrary: out ich rule: b64_raw.induct)
  case (2 a)
  then show ?case using emit_fits [of ich "map encode_char (cluster a 0 0)" room out] by simp
next
  case (3 a b)
  then show ?case using emit_fits [of ich "map encode_char (cluster a b 0)" room out] by simp
next
  case (4 a b c r)
  let ?cs = "map encode_char (cluster a b c) :: 'a word list"
  let ?o = "take ich out @ ?cs @ drop (ich + 4) out"
  have l: "length ?o = length out" using "4.prems" by simp
  have E: "emit room ?cs out ich = Some (False, ?o, ich + 4)"
    using emit_fits [of ich ?cs room out] "4.prems" by simp
  have "ich + 4 + length (b64_raw r :: 'a word list) < room" using "4.prems"(1) by simp
  moreover have "room \<le> length ?o" using l "4.prems"(2) by simp
  ultimately have I: "encode_loop room r ?o (ich + 4) = Some (ERROR_SUCCESS, take (ich + 4) ?o @ b64_raw r @
       drop (ich + 4 + length (b64_raw r :: 'a word list)) ?o, ich + 4 + length (b64_raw r :: 'a word list))"
    by (rule "4.IH")
  have tk: "take (ich + 4) ?o = take ich out @ ?cs" using "4.prems" by simp
  have dr: "drop (ich + 4 + k) ?o = drop (ich + (4 + k)) out" for k
    using "4.prems" by (simp add: ac_simps)
  have st: "encode_loop room (a # b # c # r) out ich = encode_loop room r ?o (ich + 4)" using E by simp
  show ?case unfolding st I tk dr by (simp add: add.assoc)
qed simp

text \<open>Whatever the sizes, also when the size computation wraps around: all writes stay below the
  size given by the caller.\<close>

lemma emit_safe:
  assumes "ich < room" "room \<le> length out"
  shows "\<exists>ov out' ich'. emit room cs out ich = Some (ov, out', ich') \<and> length out' = length out \<and>
    drop room out' = drop room out \<and> (\<not> ov \<longrightarrow> ich' < room \<and> ich' = ich + length cs)"
  using assms
proof (induction cs arbitrary: out ich)
  case (Cons c cs)
  have i: "ich < length out" using Cons.prems by simp
  show ?case
  proof (cases "ich + 1 \<ge> room")
    case False
    with Cons.IH [of "ich + 1" "out[ich := c]"] Cons.prems i show ?thesis by (auto simp: mem_simps)
  next
    case True
    with Cons.prems i show ?thesis by (auto simp: mem_simps)
  qed
qed auto

lemma encode_loop_safe:
  assumes "ich < room" "room \<le> length out"
  shows "\<exists>err out' ich'. encode_loop room data out ich = Some (err, out', ich') \<and> length out' = length out \<and>
    drop room out' = drop room out \<and>
    (err = ERROR_SUCCESS \<and> ich' < room \<and> ich' = ich + (length data + 2) div 3 * 4 \<or> err = ERROR_BUFFER_OVERFLOW)"
  using assms
proof (induction room data out ich rule: encode_loop.induct)
  case (2 room b0 data out ich)
  let ?b1 = "case data of [] \<Rightarrow> 0 | b # _ \<Rightarrow> b" and ?b2 = "case drop 1 data of [] \<Rightarrow> 0 | b # _ \<Rightarrow> b"
  from emit_safe [OF "2.prems", of "map encode_char (cluster b0 ?b1 ?b2)"]
  obtain ov out1 ich1 where E: "emit room (map encode_char (cluster b0 ?b1 ?b2)) out ich = Some (ov, out1, ich1)"
    "length out1 = length out" "drop room out1 = drop room out" "\<not> ov \<longrightarrow> ich1 < room \<and> ich1 = ich + 4" by auto
  show ?case
  proof (cases ov)
    case True
    then show ?thesis using E by (simp add: Let_def)
  next
    case False
    have l: "(length (drop 2 data) + 2) div 3 * 4 + 4 = (length (b0 # data) + 2) div 3 * 4"
      by (cases data; cases "tl data") auto
    have "ich1 < room" "room \<le> length out1" using E False "2.prems" by auto
    from "2.IH" [OF refl refl E(1) refl refl False this] obtain err out' ich' where
      "encode_loop room (drop 2 data) out1 ich1 = Some (err, out', ich')" "length out' = length out1"
      "drop room out' = drop room out1"
      "err = ERROR_SUCCESS \<and> ich' < room \<and> ich' = ich1 + (length (drop 2 data) + 2) div 3 * 4 \<or> err = ERROR_BUFFER_OVERFLOW"
      by auto
    then show ?thesis using E False l by (auto simp: Let_def)
  qed
qed (simp add: error_codes)

lemma four_mult_bound: "(j :: nat) < 1073741824 \<Longrightarrow> j * 4 + 1 < 4294967296"
  by arith

lemma cch_encoded_pos: "0 < cch_encoded cb"
proof -
  have "dword (k * 4) = (k mod 1073741824) * 4" for k
    using mod_mult_mult2 [of k 4 1073741824] by (simp add: dword_def)
  moreover have "k mod 1073741824 < 1073741824" for k :: nat by simp
  ultimately have "dword (k * 4) + 1 < 4294967296" for k by (metis (no_types) four_mult_bound)
  then have "1 + dword (dword (cb + 2) div 3 * 4) < 4294967296" by (simp add: add.commute)
  then show ?thesis by (simp add: cch_encoded_def dword_def)
qed

lemma encode_pad_safe:
  assumes "cb mod 3 \<noteq> 0 \<Longrightarrow> 2 \<le> ich" "ich < room" "room \<le> length out"
  shows "\<exists>out'. encode_pad cb out ich = Some out' \<and> length out' = length out \<and> drop room out' = drop room out"
  using assms by (auto simp: encode_pad_def mem_simps)

lemma Base64Encode_safe:
  assumes "room \<le> length out" "cb \<le> length data"
  shows "\<exists>err out'. Base64Encode data cb (Some out) room = Some (err, Some out', cch_encoded cb) \<and>
    length out' = length out \<and> drop room out' = drop room out \<and>
    err \<in> {ERROR_SUCCESS, ERROR_INSUFFICIENT_BUFFER, ERROR_BUFFER_OVERFLOW}"
proof (cases "room < cch_encoded cb")
  case True
  then show ?thesis by (simp add: Base64Encode_def Let_def)
next
  case False
  then have "0 < room" using cch_encoded_pos [of cb] by simp
  have r: "mem_read 0 cb data = Some (take cb data)" using assms(2) by (simp add: mem_simps)
  from encode_loop_safe [OF \<open>0 < room\<close> assms(1), of "take cb data"] assms(2)
  obtain err out1 ich where L: "encode_loop room (take cb data) out 0 = Some (err, out1, ich)" "length out1 = length out"
    "drop room out1 = drop room out"
    "err = ERROR_SUCCESS \<and> ich < room \<and> ich = (cb + 2) div 3 * 4 \<or> err = ERROR_BUFFER_OVERFLOW" by auto
  show ?thesis
  proof (cases "err = ERROR_SUCCESS")
    case True
    then have i: "ich < room" "ich = (cb + 2) div 3 * 4" using L(4) by (auto simp: error_codes)
    have c: "cb mod 3 \<noteq> 0 \<Longrightarrow> 2 \<le> ich" unfolding i(2) by (cases "cb = 0") auto
    obtain out2 where P: "encode_pad cb out1 ich = Some out2" "length out2 = length out" "drop room out2 = drop room out"
      using encode_pad_safe [where out = out1, OF c i(1)] L(2,3) assms(1) by auto
    have "mem_put ich 0 out2 = Some (out2[ich := 0])" using i(1) P(2) assms(1) by (simp add: mem_simps)
    then show ?thesis using L(1) True P False r i(1) \<open>0 < room\<close>
      by (auto simp: Base64Encode_def Let_def)
  next
    case e: False
    then show ?thesis using L False r \<open>0 < room\<close> by (auto simp: Base64Encode_def Let_def)
  qed
qed

lemma b64_pads:
  "length d mod 3 = 0 \<Longrightarrow> b64 d = (b64_raw d :: 'a::len word list)"
  "length d mod 3 = 1 \<Longrightarrow> b64 d = (b64_raw d :: 'a::len word list)
     [length (b64_raw d :: 'a word list) - 2 := 61, length (b64_raw d :: 'a word list) - 1 := 61]"
  "length d mod 3 = 2 \<Longrightarrow> b64 d = (b64_raw d :: 'a::len word list)[length (b64_raw d :: 'a word list) - 1 := 61]"
proof (induction d rule: b64_raw.induct)
  case (4 a b c r)
  have m: "length (a # b # c # r) mod 3 = length r mod 3" by simp
  have l: "length r mod 3 \<noteq> 0 \<Longrightarrow> 4 \<le> length (b64_raw r :: 'a word list)"
    by (cases "r = []") (auto simp: length_b64_raw)
  { case 1 then show ?case using 4(1) m by simp }
  { case 2
    then have "length r mod 3 = 1" unfolding m .
    with 4(2) l show ?case by (auto simp: list_update_append) }
  { case 3
    then have "length r mod 3 = 2" unfolding m .
    with 4(3) l show ?case by (auto simp: list_update_append) }
qed (simp_all add: cluster_def)

lemma encode_pad_b64:
  fixes rest :: "'a::len word list"
  shows "encode_pad (length d) (b64_raw d @ rest) (length (b64_raw d :: 'a word list)) = Some (b64 d @ rest)"
proof -
  let ?r = "b64_raw d :: 'a word list"
  consider "length d mod 3 = 0" | "length d mod 3 = 1" | "length d mod 3 = 2" by linarith
  then show ?thesis
  proof cases
    case 1
    then show ?thesis using b64_pads(1) [of d, where 'a = 'a] by (simp add: encode_pad_def)
  next
    case 2
    then have "4 \<le> length ?r" by (cases "d = []") (auto simp: length_b64_raw)
    then show ?thesis using 2 b64_pads(2) [of d, where 'a = 'a]
      by (auto simp: encode_pad_def mem_simps list_update_append)
  next
    case 3
    then have "4 \<le> length ?r" by (cases "d = []") (auto simp: length_b64_raw)
    then show ?thesis using 3 b64_pads(3) [of d, where 'a = 'a]
      by (auto simp: encode_pad_def mem_simps list_update_append)
  qed
qed

lemma cch_encoded_exact:
  assumes "(cb + 2) div 3 * 4 + 1 \<le> MAXDWORD"
  shows "cch_encoded cb = (cb + 2) div 3 * 4 + 1"
proof -
  have "cb + 2 \<le> (cb + 2) div 3 * 3 + 2" by presburger
  moreover have "(cb + 2) div 3 \<le> 1073741823" using assms by (simp add: MAXDWORD_def)
  ultimately have "dword (cb + 2) = cb + 2" by (intro dword_id) (simp add: MAXDWORD_def)
  then show ?thesis using assms by (simp add: cch_encoded_def dword_id)
qed

lemma Base64Encode_correct:
  assumes cb: "cb \<le> length data" "(cb + 2) div 3 * 4 + 1 \<le> MAXDWORD"
    and room: "(cb + 2) div 3 * 4 + 1 \<le> room" "room \<le> length (out :: 'a::len word list)"
  shows "Base64Encode data cb (Some out) room =
    Some (ERROR_SUCCESS, Some (b64 (take cb data) @ 0 # drop ((cb + 2) div 3 * 4 + 1) out), (cb + 2) div 3 * 4 + 1)"
proof -
  let ?d = "take cb data" and ?n = "(cb + 2) div 3 * 4"
  have d: "length ?d = cb" using cb(1) by simp
  then have lr: "length (b64_raw ?d :: 'a word list) = ?n" "length (b64 ?d :: 'a word list) = ?n"
    by (simp_all add: length_b64_raw length_b64)
  have L: "encode_loop room ?d out 0 = Some (ERROR_SUCCESS, b64_raw ?d @ drop ?n out, ?n)"
    using encode_loop_fits [of 0 ?d room out] room lr by simp
  have P: "encode_pad cb (b64_raw ?d @ drop ?n out) ?n = Some (b64 ?d @ drop ?n out)"
    using encode_pad_b64 [of ?d "drop ?n out"] unfolding d lr(1) .
  have dr: "drop ?n out = out ! ?n # drop (?n + 1) out"
    using room by (simp add: Cons_nth_drop_Suc)
  have Z: "mem_put ?n 0 (b64 ?d @ drop ?n out) = Some (b64 ?d @ 0 # drop (?n + 1) out)"
    unfolding dr using lr(2) by (simp add: mem_put_def list_update_append)
  have "mem_read 0 cb data = Some ?d" using cb(1) by (simp add: mem_simps)
  then show ?thesis
    using L P Z room by (simp add: Base64Encode_def cch_encoded_exact [OF cb(2)] Let_def)
qed

section \<open>Decoding\<close>

lemma decode_cluster:
  assumes "8 \<le> LENGTH('a)"
  shows "map DECODE (map encode_char (cluster a b c) :: 'a::len word list) = cluster a b c"
  using DECODE_encode_char [OF cluster_index assms] by (simp add: map_idI)

lemma decode_indices:
  assumes "8 \<le> LENGTH('a)" "x \<in> set (cluster a b c)"
  shows "DECODE (encode_char x :: 'a::len word) = x" "x \<noteq> NA"
  using DECODE_encode_char [OF cluster_index [OF assms(2)] assms(1)]
    six_bits_not_NA [OF cluster_index [OF assms(2)]] by auto

lemma store_at:
  assumes "i < length out"
  shows "take i out @ x # drop (Suc i) out = out[i := x]"
  using assms by (simp add: upd_conv_take_nth_drop)

lemma store_two:
  assumes "Suc i < length out"
  shows "out[i := x, Suc i := y] = take i out @ x # y # drop (Suc (Suc i)) out"
proof -
  have "drop i out = out ! i # out ! Suc i # drop (Suc (Suc i)) out"
    using assms by (simp add: Cons_nth_drop_Suc)
  then have "out = take i out @ out ! i # out ! Suc i # drop (Suc (Suc i)) out"
    by (metis append_take_drop_id)
  moreover have "length (take i out) = i" using assms by simp
  ultimately show ?thesis
    by (metis list_update_append list_update_length append.assoc append_Cons append_Nil length_append_singleton)
qed

lemma decode_loop_b64:
  assumes w: "8 \<le> LENGTH('a)"
  shows "ib + length d \<le> length out \<Longrightarrow> cb = ib + length d \<Longrightarrow>
    decode_loop cb (b64 d :: 'a::len word list) out ib =
    Some (ERROR_SUCCESS, take ib out @ d @ drop (ib + length d) out, ib + length d)"
proof (induction d arbitrary: out ib rule: b64.induct)
  case (2 a)
  note ix = decode_indices [OF w, of _ a 0 0]
  have "ib < length out" using 2 by simp
  then show ?case using 2 ix first_byte [of a 0] DECODE_pad [OF w]
    by (simp add: cluster_def decode_bytes_def mem_simps NA_def store_at)
next
  case (3 a b)
  note ix = decode_indices [OF w, of _ a b 0]
  have "ib < length out" "Suc ib < length out" using 3 by simp_all
  then show ?case using 3 ix first_byte [of a b] second_byte [of a b 0] DECODE_pad [OF w]
    by (simp add: cluster_def decode_bytes_def mem_simps NA_def store_two)
next
  case (4 a b c r)
  note ix = decode_indices [OF w, of _ a b c]
  let ?o = "take ib out @ [a, b, c] @ drop (ib + 3) out"
  have i: "ib < length out" "Suc ib < length out" "Suc (Suc ib) < length out" using "4.prems" by simp_all
  have o: "out[ib := a, Suc ib := b, Suc (Suc ib) := c] = ?o"
    using store_two [of ib out a b] i
    by (simp add: list_update_append Cons_nth_drop_Suc [symmetric, of "Suc (Suc ib)"] numeral_3_eq_3)
  have st: "decode_loop cb (b64 (a # b # c # r) :: 'a word list) out ib = decode_loop cb (b64 r :: 'a word list) ?o (ib + 3)"
    using "4.prems" i ix first_byte [of a b] second_byte [of a b c] third_byte [of b c]
    by (simp add: cluster_def decode_bytes_def mem_simps NA_def o numeral_3_eq_3)
  have "ib + 3 + length r \<le> length ?o" "cb = ib + 3 + length r" using "4.prems" by simp_all
  note I = "4.IH" [OF this]
  have tk: "take (ib + 3) ?o = take ib out @ [a, b, c]" using i by simp
  have dr: "drop (ib + 3 + k) ?o = drop (ib + (3 + k)) out" for k using i by (simp add: ac_simps numeral_3_eq_3)
  show ?case unfolding st I tk dr by (simp add: numeral_3_eq_3)
qed simp

lemma b64_last:
  assumes w: "8 \<le> LENGTH('a)"
  shows "d \<noteq> [] \<Longrightarrow> 4 \<le> length (b64 d :: 'a::len word list) \<and>
    ((b64 d :: 'a word list) ! (length (b64 d :: 'a word list) - 1) = 61 \<longleftrightarrow> length d mod 3 \<noteq> 0) \<and>
    (length d mod 3 \<noteq> 0 \<longrightarrow>
      ((b64 d :: 'a word list) ! (length (b64 d :: 'a word list) - 2) = 61 \<longleftrightarrow> length d mod 3 = 1))"
proof (induction d rule: b64.induct)
  case (3 a b)
  have "(encode_char ((push_bit 2 b AND 0x3c) OR (drop_bit 6 0 AND 0x03)) :: 'a word) \<noteq> 61"
    using encode_char_ne(2) [OF cluster_index [of _ a b 0] w] by (simp add: cluster_def)
  then show ?case by (simp add: cluster_def)
next
  case (4 a b c r)
  have "(encode_char (c AND 0x3f) :: 'a word) \<noteq> 61"
    using encode_char_ne(2) [OF cluster_index [of _ a b c] w] by (simp add: cluster_def)
  then show ?case using "4.IH" by (cases "r = []") (auto simp: cluster_def nth_append nth_Cons' numeral_2_eq_2)
qed (simp_all add: cluster_def)

lemma b64_nonzero:
  assumes w: "8 \<le> LENGTH('a)"
  shows "0 \<notin> set (b64 d :: 'a::len word list)"
proof -
  have z: "x \<in> set (cluster a b c) \<Longrightarrow> (encode_char x :: 'a word) \<noteq> 0" for x a b c
    using encode_char_ne(1) [OF cluster_index w] by blast
  have "(61 :: 'a word) \<noteq> 0"
  proof -
    have "(61 :: nat) < 2 ^ 8" by simp
    also have "(2 :: nat) ^ 8 \<le> 2 ^ LENGTH('a)" using w by (intro power_increasing) auto
    finally have "unat (61 :: 'a word) = 61" by (simp add: unat_numeral take_bit_nat_eq_self)
    then show ?thesis by (metis unat_0 zero_neq_numeral)
  qed
  then show ?thesis by (induction d rule: b64.induct) (use z in_set_takeD in fastforce)+
qed

lemma cb_decoded_b64:
  assumes w: "8 \<le> LENGTH('a)" and d: "d \<noteq> []" "length (b64 d :: 'a::len word list) \<le> MAXDWORD"
  shows "cb_decoded (b64 d :: 'a word list) = length d"
proof -
  have n: "length (b64 d :: 'a word list) = (length d + 2) div 3 * 4" by (rule length_b64)
  let ?k = "(length d + 2) div 3"
  have k: "?k \<le> 1073741823" using d(2) by (simp add: n MAXDWORD_def)
  then have "dword (?k * 4 + 3) = ?k * 4 + 3" by (intro dword_id) (simp add: MAXDWORD_def)
  moreover have "dword (?k * 3) = ?k * 3" using k by (intro dword_id) (simp add: MAXDWORD_def)
  ultimately have c: "dword (dword (length (b64 d :: 'a word list) + 3) div 4 * 3) = ?k * 3" by (simp add: n)
  consider "length d mod 3 = 0" | "length d mod 3 = 1" | "length d mod 3 = 2" by linarith
  then show ?thesis
  proof cases
    case 1
    then have "?k * 3 = length d" by presburger
    then show ?thesis using b64_last [OF w d(1)] 1 unfolding cb_decoded_def Let_def c by (simp add: diff_le_mono2)
  next
    case 2
    then have "?k * 3 - 2 = length d" by presburger
    then show ?thesis using b64_last [OF w d(1)] 2 unfolding cb_decoded_def Let_def c by (simp add: diff_le_mono2)
  next
    case 3
    then have "?k * 3 - 1 = length d" by presburger
    then show ?thesis using b64_last [OF w d(1)] 3 unfolding cb_decoded_def Let_def c by (simp add: diff_le_mono2)
  qed
qed

lemma Base64Decode_b64:
  assumes w: "8 \<le> LENGTH('a)" and d: "d \<noteq> []" "length (b64 d :: 'a::len word list) \<le> MAXDWORD"
    and out: "length d \<le> room" "room \<le> length out"
  shows "Base64Decode (b64 d @ 0 # r :: 'a word list) (Some out) room =
    Some (ERROR_SUCCESS, Some (d @ drop (length d) out), length d)"
proof -
  let ?e = "b64 d :: 'a word list"
  have s: "strlen (?e @ 0 # r) = length ?e" by (rule strlen_append_nul [OF b64_nonzero [OF w]])
  have n: "length ?e mod 4 = 0" "length ?e \<noteq> 0" using b64_last [OF w d(1)] by (auto simp: length_b64)
  have "decode_loop (length d) ?e out 0 = Some (ERROR_SUCCESS, d @ drop (length d) out, length d)"
    using decode_loop_b64 [OF w, of 0 d out "length d"] out by simp
  then show ?thesis
    using s n d(2) out cb_decoded_b64 [OF w d]
    by (simp add: Base64Decode_def Let_def dword_id)
qed

section \<open>Decoding anything\<close>

lemma decode_store_safe:
  "cb \<le> length out \<Longrightarrow> \<exists>out'. decode_store cb bs out ib = Some (out', min (ib + length bs) (max ib cb)) \<and>
     length out' = length out \<and> drop cb out' = drop cb out"
proof (induction bs arbitrary: out ib)
  case (Cons b bs)
  show ?case
  proof (cases "ib < cb")
    case True
    with Cons.IH [of "out[ib := b]" "ib + 1"] Cons.prems show ?thesis by (auto simp: mem_simps)
  next
    case False
    then show ?thesis by simp
  qed
qed simp

lemma decode_loop_safe:
  assumes "length cs mod 4 = 0" "cs \<noteq> [] \<Longrightarrow> ib + length cs div 4 * 3 < cb + 3" "cb \<le> length out"
  shows "\<exists>err out' ib'. decode_loop cb cs out ib = Some (err, out', ib') \<and> length out' = length out \<and>
    drop cb out' = drop cb out \<and>
    err = (if \<forall>c \<in> set cs. DECODE c \<noteq> NA then ERROR_SUCCESS else ERROR_INVALID_PARAMETER)"
  using assms
proof (induction cb cs out ib rule: decode_loop.induct)
  case (1 cb c0 c1 c2 c3 cs out ib)
  let ?ds = "decode_bytes (DECODE c0) (DECODE c1) (DECODE c2) (DECODE c3)"
  show ?case
  proof (cases "\<forall>c \<in> {c0, c1, c2, c3}. DECODE c \<noteq> NA")
    case False
    then show ?thesis by (auto simp: Let_def)
  next
    case True
    obtain d0 d1 d2 where ds: "?ds = [d0, d1, d2]" by (simp add: decode_bytes_def)
    have d4: "(4 + length cs) div 4 = Suc (length cs div 4)" by simp
    have p2: "ib + Suc (length cs div 4) * 3 < cb + 3" using "1.prems"(2) by (simp add: d4)
    then have ib: "ib < cb" by simp
    have "cb \<le> length (out[ib := d0])" using "1.prems"(3) by simp
    from decode_store_safe [OF this, of "[d1, d2]" "ib + 1"] obtain out2 where
      S: "decode_store cb [d1, d2] (out[ib := d0]) (ib + 1) = Some (out2, min (ib + 3) cb)"
      "length out2 = length out" "drop cb out2 = drop cb (out[ib := d0])"
      using ib by (auto simp: max_def numeral_3_eq_3)
    have st: "decode_loop cb (c0 # c1 # c2 # c3 # cs) out ib = decode_loop cb cs out2 (min (ib + 3) cb)"
      using True ib "1.prems"(3) S(1) ds by (simp add: mem_simps)
    have m: "length cs mod 4 = 0" using "1.prems"(1) by simp
    have p2': "cs \<noteq> [] \<Longrightarrow> min (ib + 3) cb + length cs div 4 * 3 < cb + 3" using p2 by (simp add: min_def)
    have cb2: "cb \<le> length out2" using "1.prems"(3) S(2) by simp
    have ne: "\<not> (DECODE c0 = NA \<or> DECODE c1 = NA \<or> DECODE c2 = NA \<or> DECODE c3 = NA)" using True by auto
    have put: "mem_put ib d0 out = Some (out[ib := d0])" using ib "1.prems"(3) by (simp add: mem_simps)
    have "\<exists>err out' ib'. decode_loop cb cs out2 (min (ib + 3) cb) = Some (err, out', ib') \<and> length out' = length out2 \<and>
      drop cb out' = drop cb out2 \<and> err = (if \<forall>c \<in> set cs. DECODE c \<noteq> NA then ERROR_SUCCESS else ERROR_INVALID_PARAMETER)"
      by (rule "1.IH" [OF refl refl refl refl ne ds put, of _ out2 "min (ib + 3) cb"]) (use S m p2' cb2 in auto)
    then show ?thesis unfolding st using S(2,3) ib True by auto
  qed
qed auto

lemma cb_decoded_bound:
  assumes "length s \<le> MAXDWORD" "length s mod 4 = 0" "s \<noteq> []"
  shows "length s div 4 * 3 < cb_decoded s + 3"
proof -
  define k where "k = length s div 4"
  have n: "length s = 4 * k" using assms(2) mult_div_mod_eq [of 4 "length s"] by (simp add: k_def)
  then have kl: "k \<le> 1073741823" using assms(1) by (simp add: MAXDWORD_def)
  have k0: "0 < k" using assms(3) n by (cases "k = 0") auto
  have "dword (4 * k + 3) = 4 * k + 3" using kl by (intro dword_id) (simp add: MAXDWORD_def)
  moreover have "(4 * k + 3) div 4 = k" by simp
  moreover have "dword (k * 3) = k * 3" using kl by (intro dword_id) (simp add: MAXDWORD_def)
  ultimately have c: "dword (dword (length s + 3) div 4 * 3) = k * 3" unfolding n by simp
  have "k * 3 - 2 \<le> cb_decoded s" unfolding cb_decoded_def Let_def c by (simp add: diff_le_mono2)
  then show ?thesis using k0 unfolding k_def [symmetric] by linarith
qed

lemma Base64Decode_safe:
  assumes "room \<le> length out"
  shows "\<exists>err out' n. Base64Decode s (Some out) room = Some (err, Some out', n) \<and> length out' = length out \<and>
    drop room out' = drop room out \<and>
    err \<in> {ERROR_SUCCESS, ERROR_INVALID_PARAMETER, ERROR_INSUFFICIENT_BUFFER} \<and>
    (err = ERROR_SUCCESS \<longrightarrow> n \<le> room \<and> (\<forall>c \<in> set (take (dword (strlen s)) s). DECODE c \<noteq> NA))"
proof -
  let ?n = "dword (strlen s)" and ?t = "take (dword (strlen s)) s"
  have lt: "length ?t = ?n" using dword_le_self [of "strlen s"] strlen_le [of s] by simp
  consider "?n = 0 \<or> ?n mod 4 \<noteq> 0" | "\<not> (?n = 0 \<or> ?n mod 4 \<noteq> 0)" "cb_decoded ?t > room"
    | "\<not> (?n = 0 \<or> ?n mod 4 \<noteq> 0)" "cb_decoded ?t \<le> room" by linarith
  then show ?thesis
  proof cases
    case 3
    have t: "length ?t mod 4 = 0" "length ?t \<le> MAXDWORD" "?t \<noteq> []" using 3(1) lt by auto
    have b: "?t \<noteq> [] \<Longrightarrow> 0 + length ?t div 4 * 3 < cb_decoded ?t + 3" using cb_decoded_bound [OF t(2,1)] by simp
    have "cb_decoded ?t \<le> length out" using 3(2) assms by simp
    from decode_loop_safe [OF t(1) b this] obtain err out' ib where
      L: "decode_loop (cb_decoded ?t) ?t out 0 = Some (err, out', ib)" "length out' = length out"
      "drop (cb_decoded ?t) out' = drop (cb_decoded ?t) out"
      "err = (if \<forall>c \<in> set ?t. DECODE c \<noteq> NA then ERROR_SUCCESS else ERROR_INVALID_PARAMETER)" by blast
    have "drop room out' = drop room out"
      using arg_cong [OF L(3), of "drop (room - cb_decoded ?t)"] 3(2) by simp
    then show ?thesis using 3 L(1,2,4) by (auto simp: Base64Decode_def Let_def error_codes)
  qed (auto simp: Base64Decode_def Let_def error_codes)
qed

end
