(* ===== verification/Prime.thy ===== *)
theory Prime
  imports Complex_Main Win32
begin

unbundle bit_operations_syntax

text \<open>
  \<open>prime.h\<close>: the bucket counts of the hash tables. \<open>GetPrime\<close> looks a number up in the table
  \<open>g_Primes\<close> and, above the table, searches the odd numbers with \<open>IsPrime\<close>. DWORD values
  are natural numbers; the loop never passes MAXDWORD, so nothing wraps.
\<close>

section \<open>The code\<close>

definition g_Primes :: "nat list" where
  "g_Primes = [
    3, 7, 11, 17, 23, 29, 37, 47, 59, 71, 89, 107, 131, 163, 197, 239, 293, 353, 431, 521, 631,
    761, 919, 1103, 1327, 1597, 1931, 2333, 2801, 3371, 4049, 4861, 5839, 7013, 8419, 10103,
    12143, 14591, 17519, 21023, 25229, 30293, 36353, 43627, 52361, 62851, 75431, 90523, 108631,
    130363, 156437, 187751, 225307, 270371, 324449, 389357, 467237, 560689, 672827, 807403,
    968897, 1162687, 1395263, 1674319, 2009191, 2411033, 2893249, 3471899, 4166287, 4999559,
    5999471, 7199369, 7849369, 8649369, 9249369, 10049369]"

text \<open>The DWORD part of the square root computed in double precision. A DWORD and, when it is a
  square, its root are exact in a double, and no other DWORD is close enough to a square for
  the rounded root to reach the next integer, so this is the floor of the real square root
  (\<open>isqrt_floor\<close>).\<close>

fun isqrt :: "nat \<Rightarrow> nat" where
  "isqrt 0 = 0"
| "isqrt (Suc n) = (let r = isqrt n in if (r + 1) * (r + 1) \<le> Suc n then r + 1 else r)"

function trial_division :: "nat \<Rightarrow> nat \<Rightarrow> nat \<Rightarrow> bool" where
  "trial_division dwCandidate dwMax Index =
     (if Index \<le> dwMax
      then (if dwCandidate mod Index = 0 then False
            else trial_division dwCandidate dwMax (Index + 2))
      else True)"
  by pat_completeness auto
termination by (relation "measure (\<lambda>(_, m, i). m + 1 - i)") auto

declare trial_division.simps [simp del]

definition IsPrime :: "nat \<Rightarrow> bool" where
  "IsPrime dwCandidate =
     (if dwCandidate AND 1 = 0 then dwCandidate = 2
      else trial_division dwCandidate (isqrt dwCandidate) 3)"

function search_prime :: "nat \<Rightarrow> nat \<Rightarrow> nat" where
  "search_prime dwMinimum dwCandidate =
     (if dwCandidate < MAXDWORD
      then (if IsPrime dwCandidate then dwCandidate
            else search_prime dwMinimum (dwCandidate + 2))
      else dwMinimum)"
  by pat_completeness auto
termination by (relation "measure (\<lambda>(_, c). MAXDWORD - c)") auto

declare search_prime.simps [simp del]

definition GetPrime :: "nat \<Rightarrow> nat" where
  "GetPrime dwMinimum =
     (case find (\<lambda>dwCandidate. dwCandidate \<ge> dwMinimum) g_Primes of
        Some dwCandidate \<Rightarrow> dwCandidate
      | None \<Rightarrow> search_prime dwMinimum (dwMinimum OR 1))"

section \<open>Square roots and trial division\<close>

lemma isqrt_bounds: "isqrt n * isqrt n \<le> n \<and> n < (isqrt n + 1) * (isqrt n + 1)"
  by (induction n) (auto simp: Let_def)

lemma isqrt_unique: "r * r \<le> n \<Longrightarrow> n < (r + 1) * (r + 1) \<Longrightarrow> isqrt n = r"
proof -
  assume a: "r * r \<le> n" "n < (r + 1) * (r + 1)"
  have "r < isqrt n + 1" using a(1) isqrt_bounds [of n]
    by (meson le_less_trans linorder_not_less mult_le_mono)
  moreover have "isqrt n < r + 1" using a(2) isqrt_bounds [of n]
    by (meson le_less_trans linorder_not_less mult_le_mono)
  ultimately show ?thesis by simp
qed

lemma isqrt_floor: "isqrt n = nat \<lfloor>sqrt (real n)\<rfloor>"
proof -
  have "real (isqrt n) \<le> sqrt (real n)"
    using isqrt_bounds [of n] by (intro real_le_rsqrt) (simp add: power2_eq_square flip: of_nat_mult)
  moreover have "sqrt (real n) < real (isqrt n) + 1"
  proof (rule real_less_lsqrt)
    have "real n < real ((isqrt n + 1) * (isqrt n + 1))"
      using isqrt_bounds [of n] by (simp only: of_nat_less_iff)
    then show "real n < (real (isqrt n) + 1)\<^sup>2" by (simp add: power2_eq_square algebra_simps)
  qed auto
  ultimately have "\<lfloor>sqrt (real n)\<rfloor> = int (isqrt n)" by (intro floor_unique) auto
  then show ?thesis by simp
qed

lemma le_isqrt: "k \<le> isqrt n \<longleftrightarrow> k * k \<le> n"
proof
  assume "k \<le> isqrt n" then show "k * k \<le> n" using isqrt_bounds [of n] by (meson le_trans mult_le_mono)
next
  assume "k * k \<le> n" then show "k \<le> isqrt n"
    using isqrt_bounds [of n] by (metis Suc_eq_plus1 le_less_trans linorder_not_less mult_le_mono not_less_eq_eq)
qed

lemma trial_division_iff:
  "trial_division c m i \<longleftrightarrow> (\<forall>k. i + 2 * k \<le> m \<longrightarrow> \<not> (i + 2 * k) dvd c)"
proof (induction c m i rule: trial_division.induct)
  case (1 c m i)
  have split: "(\<forall>k. P (i + 2 * k)) \<longleftrightarrow> P i \<and> (\<forall>k. P (i + 2 + 2 * k))" for P :: "nat \<Rightarrow> bool"
  proof (intro iffI allI conjI)
    fix k assume "P i \<and> (\<forall>k. P (i + 2 + 2 * k))"
    then show "P (i + 2 * k)" by (cases k) (auto simp: algebra_simps)
  next
    fix k assume a: "\<forall>k. P (i + 2 * k)"
    from a [THEN spec, of "Suc k"] show "P (i + 2 + 2 * k)" by (simp add: algebra_simps)
  qed (metis add_0_right mult_0_right)
  show ?case
  proof (cases "i \<le> m")
    case True
    then show ?thesis using 1
      by (subst trial_division.simps, subst split) (auto simp: dvd_eq_mod_eq_0)
  next
    case False then show ?thesis by (subst trial_division.simps) auto
  qed
qed

section \<open>Primality\<close>

definition is_prime :: "nat \<Rightarrow> bool" where
  "is_prime n \<longleftrightarrow> 1 < n \<and> (\<forall>d. d dvd n \<longrightarrow> d = 1 \<or> d = n)"

lemma composite_small_divisor:
  assumes "1 < n" "\<not> is_prime n"
  obtains d where "1 < d" "d * d \<le> n" "d dvd n"
proof -
  from assms obtain a b where ab: "n = a * b" "a \<noteq> 1" "a \<noteq> n"
    by (auto simp: is_prime_def elim: dvdE)
  have z: "a \<noteq> 0" "b \<noteq> 0" using ab(1) assms(1) by (auto dest: gr_implies_not0)
  have "b \<noteq> 1" using ab(1,3) by (metis mult.right_neutral)
  then have g: "1 < a" "1 < b" using ab(2) z by arith+
  show thesis
  proof (cases "a \<le> b")
    case True then have "a * a \<le> n" unfolding ab(1) by (rule mult_le_mono2)
    moreover have "a dvd n" unfolding ab(1) by (rule dvd_triv_left)
    ultimately show thesis using that g(1) by blast
  next
    case False then have "b * b \<le> n" unfolding ab(1) by (intro mult_le_mono1) simp
    moreover have "b dvd n" unfolding ab(1) by (rule dvd_triv_right)
    ultimately show thesis using that g(2) by blast
  qed
qed

lemma IsPrime_correct: "1 < n \<Longrightarrow> IsPrime n \<longleftrightarrow> is_prime n"
proof (cases "even n")
  case True
  assume n: "1 < n"
  have "is_prime n \<longleftrightarrow> n = 2"
  proof
    assume "is_prime n" then show "n = 2" using True by (auto simp: is_prime_def)
  next
    assume e: "n = 2"
    have "d dvd 2 \<Longrightarrow> d = 1 \<or> d = 2" for d :: nat
      using dvd_imp_le [of d 2] by (cases "d = 0") auto
    then show "is_prime n" using e by (auto simp: is_prime_def)
  qed
  then show ?thesis using True by (simp add: IsPrime_def and_one_eq)
next
  case False
  assume n: "1 < n"
  have I: "IsPrime n \<longleftrightarrow> (\<forall>k. 3 + 2 * k \<le> isqrt n \<longrightarrow> \<not> (3 + 2 * k) dvd n)"
    using False by (simp add: IsPrime_def and_one_eq trial_division_iff odd_iff_mod_2_eq_one)
  show ?thesis
  proof (cases "is_prime n")
    case True
    have "\<not> (3 + 2 * k) dvd n" if "3 + 2 * k \<le> isqrt n" for k
    proof
      assume "(3 + 2 * k) dvd n"
      then have e: "3 + 2 * k = n" using True by (auto simp: is_prime_def)
      have "(3 + 2 * k) * (3 + 2 * k) \<le> n" using that le_isqrt by blast
      with e have "n * n \<le> n" by simp
      then show False using n by simp
    qed
    with I True show ?thesis by blast
  next
    case np: False
    from composite_small_divisor [OF n np] obtain d where d: "1 < d" "d * d \<le> n" "d dvd n" by blast
    have "odd d" using False d(3) by (meson dvd_trans)
    with d(1) obtain k where "d = 3 + 2 * k"
    proof -
      from \<open>odd d\<close> obtain j where "d = 2 * j + 1" by (elim oddE)
      with d(1) have "d = 3 + 2 * (j - 1)" by auto
      then show thesis by (rule that)
    qed
    with I d(2,3) np le_isqrt show ?thesis by blast
  qed
qed

section \<open>GetPrime\<close>

lemma search_prime_cases:
  assumes "odd c" "c \<le> MAXDWORD"
  shows "(\<exists>k. search_prime m c = c + 2 * k \<and> c + 2 * k < MAXDWORD \<and> IsPrime (c + 2 * k) \<and>
            (\<forall>j<k. \<not> IsPrime (c + 2 * j))) \<or>
         search_prime m c = m \<and> (\<forall>j. c + 2 * j < MAXDWORD \<longrightarrow> \<not> IsPrime (c + 2 * j))"
  using assms
proof (induction m c rule: search_prime.induct)
  case (1 m c)
  show ?case
  proof (cases "c < MAXDWORD")
    case False
    then show ?thesis by (subst (2) search_prime.simps) (auto simp: search_prime.simps [of m c])
  next
    case lt: True
    show ?thesis
    proof (cases "IsPrime c")
      case True
      then have "search_prime m c = c + 2 * 0" using lt by (simp add: search_prime.simps [of m c])
      with True lt show ?thesis by (intro disjI1 exI [of _ 0]) simp
    next
      case False
      have "odd MAXDWORD" by (simp add: MAXDWORD_def)
      with lt 1(2) have le: "c + 2 \<le> MAXDWORD" by presburger
      have e: "search_prime m c = search_prime m (c + 2)"
        using lt False by (simp add: search_prime.simps [of m c])
      from 1(1) [OF lt False _ le] 1(2)
      consider k where "search_prime m (c + 2) = c + 2 + 2 * k" "c + 2 + 2 * k < MAXDWORD"
          "IsPrime (c + 2 + 2 * k)" "\<forall>j<k. \<not> IsPrime (c + 2 + 2 * j)"
        | "search_prime m (c + 2) = m" "\<forall>j. c + 2 + 2 * j < MAXDWORD \<longrightarrow> \<not> IsPrime (c + 2 + 2 * j)"
        by auto
      then show ?thesis
      proof cases
        case (1 k)
        have "\<forall>j<Suc k. \<not> IsPrime (c + 2 * j)"
        proof (intro allI impI)
          fix j assume "j < Suc k" then show "\<not> IsPrime (c + 2 * j)"
            using False 1(4) by (cases j) auto
        qed
        with 1 e show ?thesis by (intro disjI1 exI [of _ "Suc k"]) simp
      next
        case 2
        have "\<not> IsPrime (c + 2 * j)" if "c + 2 * j < MAXDWORD" for j
          using False 2(2) that by (cases j) auto
        with 2(1) e show ?thesis by simp
      qed
    qed
  qed
qed


section \<open>The table\<close>

text \<open>The entries up to 36353 with their square roots, which trial division checks.\<close>

definition prime_rows :: "(nat \<times> nat) list" where
  "prime_rows = [
     (3, 1), (7, 2), (11, 3), (17, 4), (23, 4), (29, 5), (37, 6), (47, 6), (59, 7), (71, 8),
     (89, 9), (107, 10), (131, 11), (163, 12), (197, 14), (239, 15), (293, 17), (353, 18),
     (431, 20), (521, 22), (631, 25), (761, 27), (919, 30), (1103, 33), (1327, 36), (1597, 39),
     (1931, 43), (2333, 48), (2801, 52), (3371, 58), (4049, 63), (4861, 69), (5839, 76), (7013,
     83), (8419, 91), (10103, 100), (12143, 110), (14591, 120), (17519, 132), (21023, 144),
     (25229, 158), (30293, 174), (36353, 190)]"

lemma prime_rows_checked:
  "list_all (\<lambda>(p, r). odd p \<and> 1 < p \<and> r * r \<le> p \<and> p < (r + 1) * (r + 1) \<and> trial_division p r 3) prime_rows"
  by (simp add: prime_rows_def trial_division.simps)

lemma prime_rows_prime:
  assumes "(p, r) \<in> set prime_rows"
  shows "is_prime p"
proof -
  have r: "odd p" "1 < p" "r * r \<le> p" "p < (r + 1) * (r + 1)" "trial_division p r 3"
    using prime_rows_checked assms unfolding list_all_iff by auto
  have "IsPrime p"
    using r(1,5) isqrt_unique [OF r(3,4)] by (simp add: IsPrime_def and_one_eq odd_iff_mod_2_eq_one)
  then show ?thesis using IsPrime_correct [OF r(2)] by simp
qed

lemma g_Primes_rows: "\<exists>rest. g_Primes = map fst prime_rows @ rest"
  by (simp add: g_Primes_def prime_rows_def)

lemma or1 [simp]: "n OR Suc 0 = n + (if even n then 1 else 0)" for n :: nat
  using or_one_eq [of n] by simp

lemma find_append: "find P (xs @ ys) = (case find P xs of None \<Rightarrow> find P ys | Some x \<Rightarrow> Some x)"
  by (induction xs) auto

lemma GetPrime_ge: "n \<le> GetPrime n"
proof (cases "find (\<lambda>c. n \<le> c) g_Primes")
  case (Some p)
  then have "n \<le> p" by (auto simp: find_Some_iff)
  with Some show ?thesis by (simp add: GetPrime_def)
next
  case None
  have "n \<le> n OR 1" by simp
  show ?thesis
  proof (cases "n OR 1 \<le> MAXDWORD")
    case True
    have "odd (n OR 1)" by simp
    from search_prime_cases [OF this True, of n] \<open>n \<le> n OR 1\<close>
    show ?thesis using None by (auto simp: GetPrime_def)
  next
    case False
    then show ?thesis using None by (simp add: GetPrime_def search_prime.simps)
  qed
qed

lemma GetPrime_table: "n \<le> 36353 \<Longrightarrow> is_prime (GetPrime n)"
proof -
  assume n: "n \<le> 36353"
  obtain rest where e: "g_Primes = map fst prime_rows @ rest" using g_Primes_rows by blast
  have "(36353, 190) \<in> set prime_rows" by (simp add: prime_rows_def)
  then have "36353 \<in> set (map fst prime_rows)" by force
  with n obtain p where p: "find (\<lambda>c. n \<le> c) (map fst prime_rows) = Some p"
    by (cases "find (\<lambda>c. n \<le> c) (map fst prime_rows)") (auto simp: find_None_iff)
  then have "p \<in> set (map fst prime_rows)" by (auto simp: find_Some_iff)
  then have "is_prime p" using prime_rows_prime by auto
  then show ?thesis using p by (simp add: GetPrime_def e find_append)
qed

lemma GetPrime_above:
  assumes "10049369 < n" "n \<le> MAXDWORD"
  shows "(is_prime (GetPrime n) \<and> GetPrime n < MAXDWORD \<and> (\<forall>p. is_prime p \<and> n \<le> p \<longrightarrow> GetPrime n \<le> p)) \<or>
         GetPrime n = n \<and> (\<forall>p. is_prime p \<and> n \<le> p \<longrightarrow> MAXDWORD \<le> p)"
proof -
  have "find (\<lambda>c. n \<le> c) g_Primes = None"
    using assms(1) by (simp add: g_Primes_def find_None_iff)
  then have G: "GetPrime n = search_prime n (n OR 1)" by (simp add: GetPrime_def)
  have o: "odd (n OR 1)" "n OR 1 \<le> MAXDWORD" "n \<le> n OR 1"
    using assms(2) unfolding One_nat_def or1 MAXDWORD_def by (presburger, presburger, simp)
  have pr: "\<exists>j. p = (n OR 1) + 2 * j" if "is_prime p" "n \<le> p" for p
  proof -
    have "odd p"
    proof
      assume "even p"
      then have "2 = p" using that(1) unfolding is_prime_def by (metis One_nat_def num.simps(4) numeral_One numeral_eq_iff)
      then show False using that(2) assms(1) by simp
    qed
    then have "n OR 1 \<le> p" "even (p - (n OR 1))" using that(2) by (auto simp: le_less)
    then show ?thesis by (metis evenE le_add_diff_inverse)
  qed
  have big: "IsPrime ((n OR 1) + 2 * k) \<longleftrightarrow> is_prime ((n OR 1) + 2 * k)" for k
    using o(3) assms(1) by (intro IsPrime_correct) simp
  from search_prime_cases [OF o(1,2), of n] show ?thesis
  proof (elim disjE exE conjE)
    fix k assume k: "search_prime n (n OR 1) = (n OR 1) + 2 * k" "(n OR 1) + 2 * k < MAXDWORD"
      "IsPrime ((n OR 1) + 2 * k)" "\<forall>j<k. \<not> IsPrime ((n OR 1) + 2 * j)"
    have "(n OR 1) + 2 * k \<le> p" if "is_prime p" "n \<le> p" for p
      using pr [OF that] k(4) that(1) big by (metis add_le_cancel_left linorder_not_less mult_le_mono2)
    with k G big show ?thesis by auto
  next
    assume k: "search_prime n (n OR 1) = n" "\<forall>j. (n OR 1) + 2 * j < MAXDWORD \<longrightarrow> \<not> IsPrime ((n OR 1) + 2 * j)"
    have "MAXDWORD \<le> p" if "is_prime p" "n \<le> p" for p
      using pr [OF that] k(2) that(1) big by (metis linorder_not_less)
    with k(1) G show ?thesis by auto
  qed
qed

end
