(* ===== verification/HashFn.thy ===== *)
theory HashFn
  imports Win32
begin

unbundle bit_operations_syntax

text \<open>
  \<open>hashfn.h\<close>: the hash functions. A DWORD is a 32-bit word, so the products wrap as they do in
  the code. The loops that stop at the terminator run over \<open>cstr\<close>; the overloads with a count
  read exactly that many elements and return \<open>None\<close> when they would leave the memory behind the
  pointer.
\<close>

type_synonym DWORD = "32 word"

section \<open>The code\<close>

definition HashScramble :: "DWORD \<Rightarrow> DWORD" where
  "HashScramble dwHash = (314159269 * dwHash) mod 1000000007"

definition HashRandomizeBits :: "DWORD \<Rightarrow> DWORD" where
  "HashRandomizeBits dw =
     drop_bit 16 (dw * 1103515245 + 12345) OR ((dw * 69069 + 1) AND 0xffff0000)"

definition HASH_MULTIPLIER :: DWORD where "HASH_MULTIPLIER = 101"

definition HASH_MULTIPLY :: "DWORD \<Rightarrow> DWORD" where
  "HASH_MULTIPLY dw = dw * HASH_MULTIPLIER"

text \<open>One pass over the elements, each masked with \<open>keep\<close>: the body all string loops share.\<close>

fun hash_loop :: "'a::len word \<Rightarrow> 'a word list \<Rightarrow> DWORD \<Rightarrow> DWORD" where
  "hash_loop keep [] dwHash = dwHash"
| "hash_loop keep (c # cs) dwHash = hash_loop keep cs (HASH_MULTIPLY dwHash + ucast (c AND keep))"

definition HashString :: "CHAR_t list \<Rightarrow> DWORD \<Rightarrow> DWORD" where
  "HashString psz dwHash = hash_loop (- 1) (cstr psz) dwHash"

definition HashString_len :: "CHAR_t list \<Rightarrow> nat \<Rightarrow> DWORD \<Rightarrow> DWORD option" where
  "HashString_len psz cch dwHash =
     do { cs \<leftarrow> mem_read 0 cch psz; Some (hash_loop (- 1) cs dwHash) }"

definition HashStringW :: "WCHAR list \<Rightarrow> DWORD \<Rightarrow> DWORD" where
  "HashStringW pwsz dwHash = hash_loop (- 1) (cstr pwsz) dwHash"

definition HashStringW_len :: "WCHAR list \<Rightarrow> nat \<Rightarrow> DWORD \<Rightarrow> DWORD option" where
  "HashStringW_len pwsz cch dwHash =
     do { cs \<leftarrow> mem_read 0 cch pwsz; Some (hash_loop (- 1) cs dwHash) }"

definition HashStringNoCase :: "CHAR_t list \<Rightarrow> DWORD \<Rightarrow> DWORD" where
  "HashStringNoCase psz dwHash = hash_loop 0xDF (cstr psz) dwHash"

definition HashStringNoCase_len :: "CHAR_t list \<Rightarrow> nat \<Rightarrow> DWORD \<Rightarrow> DWORD option" where
  "HashStringNoCase_len psz cch dwHash =
     do { cs \<leftarrow> mem_read 0 cch psz; Some (hash_loop 0xDF cs dwHash) }"

definition HashStringNoCaseW :: "WCHAR list \<Rightarrow> DWORD \<Rightarrow> DWORD" where
  "HashStringNoCaseW pwsz dwHash = hash_loop 0xFFDF (cstr pwsz) dwHash"

definition HashStringNoCaseW_len :: "WCHAR list \<Rightarrow> nat \<Rightarrow> DWORD \<Rightarrow> DWORD option" where
  "HashStringNoCaseW_len pwsz cch dwHash =
     do { cs \<leftarrow> mem_read 0 cch pwsz; Some (hash_loop 0xFFDF cs dwHash) }"

definition HashBlob :: "BYTE list \<Rightarrow> nat \<Rightarrow> DWORD \<Rightarrow> DWORD option" where
  "HashBlob pv cb dwHash = do { bs \<leftarrow> mem_read 0 cb pv; Some (hash_loop (- 1) bs dwHash) }"

text \<open>The overloads of Hash for the string and integer types. Signed values are sign-extended.\<close>

definition Hash_psz :: "CHAR_t list \<Rightarrow> DWORD" where "Hash_psz psz = HashString psz 0"
definition Hash_pwsz :: "WCHAR list \<Rightarrow> DWORD" where "Hash_pwsz pwsz = HashStringW pwsz 0"

text \<open>A GUID is four 32-bit words in memory; only the first is used.\<close>

definition Hash_guid :: "DWORD list \<Rightarrow> DWORD \<Rightarrow> DWORD option" where
  "Hash_guid pguid dwHash = do { d \<leftarrow> mem_get 0 pguid; Some (d + dwHash) }"

definition Hash_schar :: "8 word \<Rightarrow> DWORD" where "Hash_schar c = scast c"
definition Hash_uchar :: "8 word \<Rightarrow> DWORD" where "Hash_uchar uc = ucast uc"
definition Hash_short :: "16 word \<Rightarrow> DWORD" where "Hash_short sh = scast sh"
definition Hash_ushort :: "16 word \<Rightarrow> DWORD" where "Hash_ushort ush = ucast ush"
definition Hash_int :: "32 word \<Rightarrow> DWORD" where "Hash_int i = i"

text \<open>The two halves of a double as they lie in memory.\<close>

definition Hash_double :: "DWORD \<Rightarrow> DWORD \<Rightarrow> DWORD" where
  "Hash_double dw0 dw1 = dw0 * HASH_MULTIPLIER + dw1"

lemmas hash_defs = HashString_def HashStringW_def HashStringNoCase_def HashStringNoCaseW_def

section \<open>Facts\<close>

lemma hash_loop_append: "hash_loop m (a @ b) h = hash_loop m b (hash_loop m a h)"
  by (induction a arbitrary: h) auto

text \<open>Multiplying by 101 can be undone modulo \<open>2 ^ 32\<close>.\<close>

lemma HASH_MULTIPLY_inj: "HASH_MULTIPLY a = HASH_MULTIPLY b \<Longrightarrow> a = b"
proof -
  assume e: "HASH_MULTIPLY a = HASH_MULTIPLY b"
  have "101 * 2083697005 = (1 :: 32 word)" by simp
  then have "HASH_MULTIPLY x * 2083697005 = x" for x
    unfolding HASH_MULTIPLY_def HASH_MULTIPLIER_def by (simp only: mult.assoc mult_1_right)
  with e show ?thesis by metis
qed

lemma hash_loop_seed_inj: "hash_loop m cs a = hash_loop m cs b \<Longrightarrow> a = b"
proof (induction cs arbitrary: a b)
  case (Cons c cs)
  from Cons.IH [of "HASH_MULTIPLY a + ucast (c AND m)" "HASH_MULTIPLY b + ucast (c AND m)"] Cons.prems
  show ?case using HASH_MULTIPLY_inj by simp
qed simp

text \<open>Changing one character changes the hash.\<close>

lemma hash_loop_one_char:
  fixes c d :: "'a::len word"
  assumes "LENGTH('a) \<le> 32" "hash_loop m (a @ c # b) h = hash_loop m (a @ d # b) h"
  shows "c AND m = d AND m"
proof -
  have small: "unat x < 2 ^ 32" for x :: "'a word"
    using unsigned_less [of x, where 'a=nat] power_increasing [OF assms(1), of "2 :: nat"] by linarith
  from assms(2) have "(ucast (c AND m) :: 32 word) = ucast (d AND m)"
    by (auto simp: hash_loop_append dest: hash_loop_seed_inj)
  then have "unat (ucast (c AND m) :: 32 word) = unat (ucast (d AND m) :: 32 word)" by (rule arg_cong)
  then have "unat (c AND m) = unat (d AND m)"
    using small [of "c AND m"] small [of "d AND m"] by (simp add: unsigned_ucast_eq take_bit_nat_eq_self)
  then show ?thesis by (rule unsigned_word_eqI)
qed

lemma hash_loop_cong:
  "map (\<lambda>c. c AND m) a = map (\<lambda>c. c AND m) b \<Longrightarrow> hash_loop m a h = hash_loop m b h"
proof (induction a arbitrary: b h)
  case (Cons x xs)
  then obtain d ds where b: "b = d # ds" "x AND m = d AND m"
    "map (\<lambda>c. c AND m) xs = map (\<lambda>c. c AND m) ds" by auto
  show ?case unfolding b(1) hash_loop.simps b(2) by (rule Cons.IH [OF b(3)])
qed simp

text \<open>Clearing bit 5 identifies at least the characters that tolower identifies.\<close>

lemma tolower_mask8: "tolower c = tolower d \<Longrightarrow> c AND 0xDF = d AND (0xDF :: 8 word)"
proof -
  assume e: "tolower c = tolower d"
  have m: "x AND 0xDF = tolower x AND (0xDF :: 8 word)" for x
  proof (cases "65 \<le> x \<and> x \<le> 90")
    case True
    then have "unat x \<in> {65..90}" by (simp add: word_le_nat_alt)
    then have "unat x \<in> set [65..<91]" by (simp only: set_upt) simp
    then have "word_of_nat (unat x) \<in> set (map word_of_nat [65..<91] :: 8 word list)"
      unfolding set_map by (rule imageI)
    then have "x \<in> set (map word_of_nat [65..<91])" by simp
    then show ?thesis by (auto simp: upt_rec tolower_def)
  next
    case False
    then show ?thesis unfolding tolower_def by (simp only: if_False)
  qed
  show ?thesis using m [of c] m [of d] e by simp
qed

end
