(* ===== verification/HashTable.thy ===== *)
theory HashTable
  imports Prime HashFn "HOL-Library.Multiset"
begin

text \<open>
  \<open>hashtable.h\<close>: HASH_TABLE, a chained hash table whose chains are kept in increasing order of
  hash.

  A chain of \<open>HASH_NODE\<close>s is the list of its nodes, so a pointer to some node's \<open>_pNext\<close> (or to the
  bucket itself) is a position in that list. A record pointer is an option, \<open>None\<close> being NULL. The
  pure virtual methods are the record \<open>methods\<close>; what the table calls on its records and on its
  lock is appended to \<open>calls\<close>, so reference counting and locking can be stated. An operation
  is \<open>None\<close> when the code divides by a zero bucket count or goes through a NULL bucket array.
  The operations run alone here; concurrent insertions are in the theory HashTableConc.
\<close>

section \<open>Data\<close>

record ('r, 'k) methods =
  ExtractKey :: "'r option \<Rightarrow> 'k"
  CalcKeyHash :: "'k \<Rightarrow> DWORD"
  EqualKeys :: "'k \<Rightarrow> 'k \<Rightarrow> bool"

record 'r hash_node =
  pRecord :: "'r option"
  dwHash :: DWORD

datatype 'r call =
    ReferenceRecord 'r | DereferenceRecord 'r
  | SharedAcquire | SharedRelease | ExclusiveAcquire | ExclusiveRelease

record 'r hash_table =
  ppBuckets :: "'r hash_node list list option"
  nBuckets :: nat
  nItems :: nat
  lockInited :: bool
  calls :: "'r call list"

abbreviation (input) sizeof_hash_node :: nat where "sizeof_hash_node \<equiv> 24"

definition emit :: "'r call list \<Rightarrow> 'r hash_table \<Rightarrow> 'r hash_table" where
  "emit cs t = t\<lparr>calls := calls t @ cs\<rparr>"

section \<open>Operations\<close>

text \<open>\<open>inited\<close> is whether the lock needs no Init (the Vista lock) or waits for it (the XP lock).\<close>

definition hash_table_ctor :: "bool \<Rightarrow> 'r hash_table" where
  "hash_table_ctor inited =
     \<lparr>ppBuckets = None, nBuckets = 0, nItems = 0, lockInited = inited, calls = []\<rparr>"

text \<open>The Failed label of Initialize.\<close>

definition Initialize_Failed ::
  "HRESULT \<Rightarrow> 'r hash_table \<Rightarrow> world \<Rightarrow> HRESULT \<times> 'r hash_table \<times> world" where
  "Initialize_Failed hr t w =
     (case ppBuckets t of
        Some _ \<Rightarrow> (hr, t\<lparr>ppBuckets := None\<rparr>, HeapFree w)
      | None \<Rightarrow> (hr, t, w))"

text \<open>\<open>lock_hr\<close> is the result of \<open>_tableLock.Init()\<close>.\<close>

definition Initialize ::
  "HRESULT \<Rightarrow> nat \<Rightarrow> 'r hash_table \<Rightarrow> world \<Rightarrow> HRESULT \<times> 'r hash_table \<times> world" where
  "Initialize lock_hr n t w =
     (if n = 0 then Initialize_Failed E_INVALIDARG t w
      else if n \<ge> MAXDWORD div sizeof_pointer then Initialize_Failed E_INVALIDARG t w
      else if ppBuckets t \<noteq> None then Initialize_Failed E_INVALIDARG t w
      else if FAILED lock_hr then Initialize_Failed lock_hr t w
      else
        (let t1 = t\<lparr>lockInited := True\<rparr>;
             (granted, w1) = heap_request (n * sizeof_pointer) w
         in if \<not> granted
            then Initialize_Failed (HRESULT_FROM_WIN32 ERROR_NOT_ENOUGH_MEMORY) t1 w1
            else (S_OK, t1\<lparr>ppBuckets := Some (replicate n []), nBuckets := n\<rparr>, w1)))"

definition hash_table_dtor :: "'r hash_table \<Rightarrow> world \<Rightarrow> 'r hash_table \<times> world" where
  "hash_table_dtor t w =
     (case ppBuckets t of
        None \<Rightarrow> (t, w)
      | Some _ \<Rightarrow> (t\<lparr>ppBuckets := None, nBuckets := 0\<rparr>, HeapFree w))"

definition Count :: "'r hash_table \<Rightarrow> nat" where
  "Count t = nItems t"

definition IsInitialized :: "'r hash_table \<Rightarrow> bool" where
  "IsInitialized t \<longleftrightarrow> ppBuckets t \<noteq> None"

text \<open>DeleteNode drops the table's reference and frees the node.\<close>

definition DeleteNode :: "'r hash_node \<Rightarrow> 'r hash_table \<Rightarrow> world \<Rightarrow> 'r hash_table \<times> world" where
  "DeleteNode nd t w =
     (case pRecord nd of
        Some r \<Rightarrow> (emit [DereferenceRecord r] t, HeapFree w)
      | None \<Rightarrow> (t, HeapFree w))"

fun delete_chain :: "'r hash_node list \<Rightarrow> 'r hash_table \<Rightarrow> world \<Rightarrow> 'r hash_table \<times> world" where
  "delete_chain [] t w = (t, w)"
| "delete_chain (pCurrent # pNext) t w =
     (let (t1, w1) = DeleteNode pCurrent t w in delete_chain pNext t1 w1)"

text \<open>One round of Clear's loop empties bucket \<open>i\<close> before it deletes the nodes.\<close>

fun clear_loop :: "nat \<Rightarrow> nat \<Rightarrow> 'r hash_table \<Rightarrow> world \<Rightarrow> ('r hash_table \<times> world) option" where
  "clear_loop i 0 t w = Some (t, w)"
| "clear_loop i (Suc left) t w =
     do { bs \<leftarrow> ppBuckets t;
          pCurrent \<leftarrow> mem_get i bs;
          let (t1, w1) = delete_chain pCurrent (t\<lparr>ppBuckets := Some (bs[i := []])\<rparr>) w;
          clear_loop (Suc i) left t1 w1 }"

definition Clear :: "'r hash_table \<Rightarrow> world \<Rightarrow> ('r hash_table \<times> world) option" where
  "Clear t w =
     (if \<not> lockInited t then Some (t, w)
      else do { (t1, w1) \<leftarrow> clear_loop 0 (nBuckets t) (emit [ExclusiveAcquire] t) w;
                Some (emit [ExclusiveRelease] (t1\<lparr>nItems := 0\<rparr>), w1) })"

text \<open>The walk down a chain: whether the key was found, and the position where it stopped.\<close>

fun find_in_chain ::
  "('r, 'k) methods \<Rightarrow> 'k \<Rightarrow> DWORD \<Rightarrow> 'r hash_node list \<Rightarrow> nat \<Rightarrow> bool \<times> nat" where
  "find_in_chain M key h [] pos = (False, pos)"
| "find_in_chain M key h (pNode # rest) pos =
     (if dwHash pNode = h
      then (if EqualKeys M key (ExtractKey M (pRecord pNode)) then (True, pos)
            else find_in_chain M key h rest (pos + 1))
      else if dwHash pNode > h then (False, pos)
      else find_in_chain M key h rest (pos + 1))"

definition FindNodeInternal ::
  "('r, 'k) methods \<Rightarrow> 'k \<Rightarrow> DWORD \<Rightarrow> 'r hash_table \<Rightarrow> (bool \<times> nat \<times> nat) option" where
  "FindNodeInternal M key h t =
     (if nBuckets t = 0 then None
      else do { bs \<leftarrow> ppBuckets t;
                let b = unat h mod nBuckets t;
                chain \<leftarrow> mem_get b bs;
                let (found, pos) = find_in_chain M key h chain 0;
                Some (found, b, pos) })"

definition FindKey ::
  "('r, 'k) methods \<Rightarrow> 'k \<Rightarrow> 'r hash_table \<Rightarrow> ('r option \<times> 'r hash_table) option" where
  "FindKey M key t =
     do { let h = CalcKeyHash M key;
          let t1 = emit [SharedAcquire] t;
          (found, b, pos) \<leftarrow> FindNodeInternal M key h t1;
          bs \<leftarrow> ppBuckets t1;
          let (r, t2) =
            (if found
             then (case pRecord (bs ! b ! pos) of
                     Some r \<Rightarrow> (Some r, emit [ReferenceRecord r] t1)
                   | None \<Rightarrow> (None, t1))
             else (None, t1));
          Some (r, emit [SharedRelease] t2) }"

text \<open>A new node linked in at a position of a chain.\<close>

definition link_node :: "nat \<Rightarrow> nat \<Rightarrow> 'r hash_node \<Rightarrow> 'r hash_node list list \<Rightarrow> 'r hash_node list list" where
  "link_node b pos nd bs = bs[b := take pos (bs ! b) @ nd # drop pos (bs ! b)]"

definition unlink_node :: "nat \<Rightarrow> nat \<Rightarrow> 'r hash_node list list \<Rightarrow> 'r hash_node list list" where
  "unlink_node b pos bs = bs[b := take pos (bs ! b) @ drop (Suc pos) (bs ! b)]"

fun rehash_link :: "'r hash_node \<Rightarrow> 'r hash_node list \<Rightarrow> 'r hash_node list" where
  "rehash_link nd [] = [nd]"
| "rehash_link nd (x # xs) = (if dwHash x \<le> dwHash nd then x # rehash_link nd xs else nd # x # xs)"

definition rehash_node :: "nat \<Rightarrow> 'r hash_node \<Rightarrow> 'r hash_node list list \<Rightarrow> 'r hash_node list list" where
  "rehash_node n nd bs = (let b = unat (dwHash nd) mod n in bs[b := rehash_link nd (bs ! b)])"

definition RehashTableIfNeeded :: "'r hash_table \<Rightarrow> world \<Rightarrow> ('r hash_table \<times> world) option" where
  "RehashTableIfNeeded t w =
     (if nItems t \<le> GetPrime (dword (2 * nBuckets t)) then Some (t, w)
      else
        (let t1 = emit [ExclusiveAcquire] t;
             nNewBuckets = GetPrime (dword (2 * nBuckets t1))
         in if nItems t1 \<le> nNewBuckets then Some (emit [ExclusiveRelease] t1, w)
            else if nNewBuckets \<ge> MAXDWORD div sizeof_pointer then Some (emit [ExclusiveRelease] t1, w)
            else
              (let (granted, w1) = heap_request (nNewBuckets * sizeof_pointer) w
               in if \<not> granted then Some (emit [ExclusiveRelease] t1, w1)
                  else
                    do { bs \<leftarrow> ppBuckets t1;
                         old \<leftarrow> mem_read 0 (nBuckets t1) bs;
                         let new = fold (rehash_node nNewBuckets) (concat old) (replicate nNewBuckets []);
                         Some (emit [ExclusiveRelease]
                                 (t1\<lparr>ppBuckets := Some new, nBuckets := nNewBuckets\<rparr>), HeapFree w1) })))"

text \<open>The compare-and-swap succeeds at the first attempt when nothing else inserts.\<close>

definition InsertRecord ::
  "('r, 'k) methods \<Rightarrow> 'r option \<Rightarrow> 'r hash_table \<Rightarrow> world \<Rightarrow> (HRESULT \<times> 'r hash_table \<times> world) option"
where
  "InsertRecord M r t w =
     (let key = ExtractKey M r;
          h = CalcKeyHash M key;
          (granted, w1) = heap_request sizeof_hash_node w
      in if \<not> granted then Some (HRESULT_FROM_WIN32 ERROR_NOT_ENOUGH_MEMORY, t, w1)
         else
           do { let t1 = emit [SharedAcquire] t;
                (found, b, pos) \<leftarrow> FindNodeInternal M key h t1;
                if found
                then (let (t2, w2) = DeleteNode \<lparr>pRecord = None, dwHash = h\<rparr> t1 w1
                      in Some (HRESULT_FROM_WIN32 ERROR_ALREADY_EXISTS, emit [SharedRelease] t2, w2))
                else
                  do { bs \<leftarrow> ppBuckets t1;
                       let t2 = t1\<lparr>ppBuckets := Some (link_node b pos \<lparr>pRecord = r, dwHash = h\<rparr> bs)\<rparr>;
                       let t3 = (case r of Some x \<Rightarrow> emit [ReferenceRecord x] t2 | None \<Rightarrow> t2);
                       let t4 = emit [SharedRelease] (t3\<lparr>nItems := dword (nItems t3 + 1)\<rparr>);
                       (t5, w2) \<leftarrow> RehashTableIfNeeded t4 w1;
                       Some (S_OK, t5, w2) } })"

definition DeleteKey ::
  "('r, 'k) methods \<Rightarrow> 'k \<Rightarrow> 'r hash_table \<Rightarrow> world \<Rightarrow> ('r hash_table \<times> world) option" where
  "DeleteKey M key t w =
     do { let h = CalcKeyHash M key;
          let t1 = emit [ExclusiveAcquire] t;
          (found, b, pos) \<leftarrow> FindNodeInternal M key h t1;
          if found
          then do { bs \<leftarrow> ppBuckets t1;
                    let (t2, w2) = DeleteNode (bs ! b ! pos) (t1\<lparr>ppBuckets := Some (unlink_node b pos bs)\<rparr>) w;
                    Some (emit [ExclusiveRelease] (t2\<lparr>nItems := dword_sub (nItems t2) 1\<rparr>), w2) }
          else Some (emit [ExclusiveRelease] t1, w) }"

text \<open>The callback of DeleteIf sees the record and a context it may change. The chain is the part
  before the pointer (\<open>kept\<close>, in order) and the part still to visit.\<close>

fun delete_if_chain ::
  "('r option \<Rightarrow> 'c \<Rightarrow> bool \<times> 'c) \<Rightarrow> nat \<Rightarrow> 'r hash_node list \<Rightarrow> 'r hash_node list \<Rightarrow>
   'r hash_table \<Rightarrow> 'c \<Rightarrow> world \<Rightarrow> 'r hash_table \<times> 'c \<times> world" where
  "delete_if_chain f i kept [] t c w = (t, c, w)"
| "delete_if_chain f i kept (pNode # rest) t c w =
     (let (del, c1) = f (pRecord pNode) c
      in if del
         then (let t1 = t\<lparr>ppBuckets := map_option (\<lambda>bs. bs[i := kept @ rest]) (ppBuckets t)\<rparr>;
                   (t2, w2) = DeleteNode pNode t1 w
               in delete_if_chain f i kept rest (t2\<lparr>nItems := dword_sub (nItems t2) 1\<rparr>) c1 w2)
         else delete_if_chain f i (kept @ [pNode]) rest t c1 w)"

fun delete_if_loop ::
  "('r option \<Rightarrow> 'c \<Rightarrow> bool \<times> 'c) \<Rightarrow> nat \<Rightarrow> nat \<Rightarrow> 'r hash_table \<Rightarrow> 'c \<Rightarrow> world \<Rightarrow>
   ('r hash_table \<times> 'c \<times> world) option" where
  "delete_if_loop f i 0 t c w = Some (t, c, w)"
| "delete_if_loop f i (Suc left) t c w =
     do { bs \<leftarrow> ppBuckets t;
          chain \<leftarrow> mem_get i bs;
          let (t1, c1, w1) = delete_if_chain f i [] chain t c w;
          delete_if_loop f (Suc i) left t1 c1 w1 }"

definition DeleteIf ::
  "('r option \<Rightarrow> 'c \<Rightarrow> bool \<times> 'c) \<Rightarrow> 'c \<Rightarrow> 'r hash_table \<Rightarrow> world \<Rightarrow>
   ('r hash_table \<times> 'c \<times> world) option" where
  "DeleteIf f c t w =
     do { (t1, c1, w1) \<leftarrow> delete_if_loop f 0 (nBuckets t) (emit [ExclusiveAcquire] t) c w;
          Some (emit [ExclusiveRelease] t1, c1, w1) }"

fun apply_chain :: "('r \<Rightarrow> 'c \<Rightarrow> 'c) \<Rightarrow> 'r hash_node list \<Rightarrow> 'c \<Rightarrow> 'c" where
  "apply_chain f [] c = c"
| "apply_chain f (pNode # rest) c =
     apply_chain f rest (case pRecord pNode of Some r \<Rightarrow> f r c | None \<Rightarrow> c)"

fun apply_loop :: "('r \<Rightarrow> 'c \<Rightarrow> 'c) \<Rightarrow> nat \<Rightarrow> nat \<Rightarrow> 'r hash_table \<Rightarrow> 'c \<Rightarrow> 'c option" where
  "apply_loop f i 0 t c = Some c"
| "apply_loop f i (Suc left) t c =
     do { bs \<leftarrow> ppBuckets t;
          chain \<leftarrow> mem_get i bs;
          apply_loop f (Suc i) left t (apply_chain f chain c) }"

definition Apply ::
  "('r \<Rightarrow> 'c \<Rightarrow> 'c) \<Rightarrow> 'c \<Rightarrow> 'r hash_table \<Rightarrow> ('c \<times> 'r hash_table) option" where
  "Apply f c t =
     do { let t1 = emit [SharedAcquire] t;
          c1 \<leftarrow> apply_loop f 0 (nBuckets t1) t1 c;
          Some (c1, emit [SharedRelease] t1) }"

end
