(* ===== verification/HashTableFacts.thy ===== *)
theory HashTableFacts
  imports HashTable
begin

unbundle bit_operations_syntax

text \<open>
  Correctness of HASH_TABLE for every client whose keys meet the contract \<open>key_contract\<close>: EqualKeys
  is an equivalence and equal keys hash alike. The contents of a table are the multiset of its
  records; \<open>ht_ok\<close> is the representation invariant. Three quantities are conserved by every
  operation: the references the table holds on its records, its heap blocks, and the lock
  (acquired in the right mode around every call and released at the end).
\<close>

section \<open>Invariant and abstraction\<close>

abbreviation (input) node_key :: "('r, 'k) methods \<Rightarrow> 'r hash_node \<Rightarrow> 'k" where
  "node_key M nd \<equiv> ExtractKey M (pRecord nd)"

definition chain_ok :: "('r, 'k) methods \<Rightarrow> nat \<Rightarrow> nat \<Rightarrow> 'r hash_node list \<Rightarrow> bool" where
  "chain_ok M n i c \<longleftrightarrow> sorted (map dwHash c) \<and>
     (\<forall>nd\<in>set c. unat (dwHash nd) mod n = i \<and> dwHash nd = CalcKeyHash M (node_key M nd))"

definition keys_unique :: "('r, 'k) methods \<Rightarrow> 'r hash_node multiset \<Rightarrow> bool" where
  "keys_unique M ns \<longleftrightarrow> (\<forall>k. size {#nd \<in># ns. EqualKeys M k (node_key M nd)#} \<le> 1)"

definition buckets_ok :: "('r, 'k) methods \<Rightarrow> 'r hash_node list list \<Rightarrow> bool" where
  "buckets_ok M bs \<longleftrightarrow> (\<forall>i<length bs. chain_ok M (length bs) i (bs ! i)) \<and>
     keys_unique M (mset (concat bs))"

datatype lock_mode = Free | Shared | Exclusive

text \<open>Calls must find the lock in the right mode: references are taken under the shared lock and
  dropped under the exclusive lock.\<close>

fun lock_step :: "lock_mode \<Rightarrow> 'r call \<Rightarrow> lock_mode option" where
  "lock_step Free SharedAcquire = Some Shared"
| "lock_step Shared SharedRelease = Some Free"
| "lock_step Free ExclusiveAcquire = Some Exclusive"
| "lock_step Exclusive ExclusiveRelease = Some Free"
| "lock_step Shared (ReferenceRecord r) = Some Shared"
| "lock_step Exclusive (DereferenceRecord r) = Some Exclusive"
| "lock_step _ _ = None"

fun lock_run :: "lock_mode \<Rightarrow> 'r call list \<Rightarrow> lock_mode option" where
  "lock_run m [] = Some m"
| "lock_run m (c # cs) = (case lock_step m c of Some m' \<Rightarrow> lock_run m' cs | None \<Rightarrow> None)"

definition ht_ok :: "('r, 'k) methods \<Rightarrow> 'r hash_table \<Rightarrow> bool" where
  "ht_ok M t \<longleftrightarrow> lockInited t \<and> 0 < nBuckets t \<and> nBuckets t < MAXDWORD div sizeof_pointer \<and>
     (case ppBuckets t of None \<Rightarrow> False
      | Some bs \<Rightarrow> length bs = nBuckets t \<and> buckets_ok M bs \<and> nItems t = dword (length (concat bs))) \<and>
     lock_run Free (calls t) = Some Free"

definition nodes :: "'r hash_table \<Rightarrow> 'r hash_node multiset" where
  "nodes t = (case ppBuckets t of None \<Rightarrow> {#} | Some bs \<Rightarrow> mset (concat bs))"

definition records :: "'r hash_table \<Rightarrow> 'r option multiset" where
  "records t = image_mset pRecord (nodes t)"

definition matching :: "('r, 'k) methods \<Rightarrow> 'k \<Rightarrow> 'r hash_table \<Rightarrow> 'r option multiset" where
  "matching M key t = {#r \<in># records t. EqualKeys M key (ExtractKey M r)#}"

text \<open>References taken minus references dropped.\<close>

definition balance :: "'r \<Rightarrow> 'r call list \<Rightarrow> int" where
  "balance r cs = int (count_list cs (ReferenceRecord r)) - int (count_list cs (DereferenceRecord r))"

text \<open>What the log and the heap hold beyond the table's own share.\<close>

definition foreign_refs :: "'r \<Rightarrow> 'r hash_table \<Rightarrow> int" where
  "foreign_refs r t = balance r (calls t) - int (count (records t) (Some r))"

definition foreign_blocks :: "'r hash_table \<Rightarrow> world \<Rightarrow> int" where
  "foreign_blocks t w = heap_live w - int (size (nodes t)) - (if ppBuckets t = None then 0 else 1)"

section \<open>Multisets of chains\<close>

lemma mset_concat_update:
  "b < length bs \<Longrightarrow> mset (concat (bs[b := c])) + mset (bs ! b) = mset (concat bs) + mset c"
proof -
  assume b: "b < length bs"
  have "mset (concat bs) = mset (concat (take b bs)) + mset (bs ! b) + mset (concat (drop (Suc b) bs))"
    using id_take_nth_drop [OF b] by (metis concat_append concat.simps(2) mset_append add.assoc)
  moreover have "mset (concat (bs[b := c])) = mset (concat (take b bs)) + mset c + mset (concat (drop (Suc b) bs))"
    using b by (simp add: upd_conv_take_nth_drop)
  ultimately show ?thesis by simp
qed

lemma mset_link_node:
  "b < length bs \<Longrightarrow> mset (concat (link_node b pos nd bs)) = add_mset nd (mset (concat bs))"
proof -
  assume b: "b < length bs"
  have "mset (take pos (bs ! b) @ nd # drop pos (bs ! b)) = add_mset nd (mset (bs ! b))"
    by (metis append_take_drop_id mset.simps(2) mset_append union_mset_add_mset_right)
  with mset_concat_update [OF b, of "take pos (bs ! b) @ nd # drop pos (bs ! b)"]
  show ?thesis unfolding link_node_def by simp
qed

lemma mset_unlink_node:
  "b < length bs \<Longrightarrow> pos < length (bs ! b) \<Longrightarrow>
   add_mset (bs ! b ! pos) (mset (concat (unlink_node b pos bs))) = mset (concat bs)"
proof -
  assume b: "b < length bs" and p: "pos < length (bs ! b)"
  have "mset (bs ! b) = add_mset (bs ! b ! pos) (mset (take pos (bs ! b) @ drop (Suc pos) (bs ! b)))"
    by (subst id_take_nth_drop [OF p]) simp
  with mset_concat_update [OF b, of "take pos (bs ! b) @ drop (Suc pos) (bs ! b)"]
  show ?thesis unfolding unlink_node_def by simp
qed

lemma in_concat_nth:
  fixes bs :: "'r hash_node list list"
  assumes "b < length bs" "pos < length (bs ! b)"
  shows "bs ! b ! pos \<in># mset (concat bs)"
proof -
  have "mset (concat bs) = add_mset (bs ! b ! pos) (mset (concat (unlink_node b pos bs)))"
    using mset_unlink_node [OF assms] by simp
  then show ?thesis by (simp del: mset_concat)
qed

lemma length_link_node [simp]: "length (link_node b pos nd bs) = length bs"
  by (simp add: link_node_def)

lemma length_unlink_node [simp]: "length (unlink_node b pos bs) = length bs"
  by (simp add: unlink_node_def)

lemma keys_unique_subset: "keys_unique M ns \<Longrightarrow> ms \<subseteq># ns \<Longrightarrow> keys_unique M ms"
  unfolding keys_unique_def by (meson le_trans multiset_filter_mono size_mset_mono)

section \<open>The lock and the ledger\<close>

lemma lock_run_append:
  "lock_run m (a @ b) = (case lock_run m a of Some m' \<Rightarrow> lock_run m' b | None \<Rightarrow> None)"
  by (induction a arbitrary: m) (auto split: option.splits)

lemma balance_append [simp]: "balance r (a @ b) = balance r a + balance r b"
  by (simp add: balance_def)

lemma balance_simps [simp]:
  "balance r [] = 0" "balance r (SharedAcquire # cs) = balance r cs"
  "balance r (SharedRelease # cs) = balance r cs"
  "balance r (ExclusiveAcquire # cs) = balance r cs"
  "balance r (ExclusiveRelease # cs) = balance r cs"
  "balance r (ReferenceRecord x # cs) = (if x = r then 1 else 0) + balance r cs"
  "balance r (DereferenceRecord x # cs) = (if x = r then - 1 else 0) + balance r cs"
  by (simp_all add: balance_def)

lemma emit_simps [simp]:
  "ppBuckets (emit cs t) = ppBuckets t" "nBuckets (emit cs t) = nBuckets t"
  "nItems (emit cs t) = nItems t" "lockInited (emit cs t) = lockInited t"
  "calls (emit cs t) = calls t @ cs" "nodes (emit cs t) = nodes t" "records (emit cs t) = records t"
  by (simp_all add: emit_def nodes_def records_def)

lemma heap_request_simps:
  "heap_request n w = (True, w1) \<Longrightarrow> heap_live w1 = heap_live w + 1"
  "heap_request n w = (False, w1) \<Longrightarrow> heap_live w1 = heap_live w"
  "heap_request n w = (g, w1) \<Longrightarrow> g \<longleftrightarrow> heap_grants w (heap_calls w) n"
  by (auto simp: heap_request_def split: if_splits)

section \<open>Chains\<close>

lemma chain_ok_take_drop:
  assumes "chain_ok M n i c"
  shows "chain_ok M n i (take p c @ drop q c) \<or> q < p"
proof (cases "p \<le> q")
  case True
  have "sorted (map dwHash (take p c @ drop q c))"
  proof -
    have s: "sorted (map dwHash c)" using assms by (simp add: chain_ok_def)
    have "sorted (map dwHash (take p c))" "sorted (map dwHash (drop q c))"
      using s by (simp_all add: sorted_wrt_take sorted_wrt_drop flip: take_map drop_map)
    moreover have "dwHash x \<le> dwHash y" if "x \<in> set (take p c)" "y \<in> set (drop q c)" for x y
    proof -
      have "set (drop q c) \<subseteq> set (drop p c)" using True by (rule set_drop_subset_set_drop)
      then have "y \<in> set (drop p c)" using that(2) by blast
      moreover have "sorted (map dwHash (take p c) @ map dwHash (drop p c))"
        using s by (simp flip: map_append)
      ultimately show ?thesis using that(1) unfolding sorted_append by auto
    qed
    ultimately show ?thesis unfolding map_append sorted_append by auto
  qed
  then show ?thesis using assms by (auto simp: chain_ok_def dest: in_set_takeD in_set_dropD)
qed simp

lemma chain_ok_link:
  assumes "chain_ok M n i c" "unat (dwHash nd) mod n = i" "dwHash nd = CalcKeyHash M (node_key M nd)"
    "\<forall>x\<in>set (take p c). dwHash x \<le> dwHash nd" "\<forall>x\<in>set (drop p c). dwHash nd \<le> dwHash x"
  shows "chain_ok M n i (take p c @ nd # drop p c)"
proof -
  have s: "sorted (map dwHash (take p c) @ map dwHash (drop p c))"
    using assms(1) by (simp add: chain_ok_def flip: map_append)
  have "sorted (map dwHash (take p c @ nd # drop p c))"
    using s assms(4,5) unfolding map_append list.map sorted_append by auto
  then show ?thesis using assms(1-3)
    by (auto simp: chain_ok_def dest: in_set_takeD in_set_dropD)
qed

lemma rehash_link_mset [simp]: "mset (rehash_link nd c) = add_mset nd (mset c)"
  by (induction c) auto

lemma rehash_link_set [simp]: "set (rehash_link nd c) = insert nd (set c)"
  by (induction c) auto

lemma rehash_link_sorted: "sorted (map dwHash c) \<Longrightarrow> sorted (map dwHash (rehash_link nd c))"
  by (induction c) auto

section \<open>The invariant taken apart\<close>

definition same_ledger :: "'r hash_table \<Rightarrow> world \<Rightarrow> 'r hash_table \<Rightarrow> world \<Rightarrow> bool" where
  "same_ledger t w t' w' \<longleftrightarrow>
     (\<forall>r. foreign_refs r t' = foreign_refs r t) \<and> foreign_blocks t' w' = foreign_blocks t w"

lemma ht_ok_iff:
  "ht_ok M t \<longleftrightarrow> (\<exists>bs. ppBuckets t = Some bs \<and> length bs = nBuckets t \<and> buckets_ok M bs \<and>
     nItems t = dword (size (mset (concat bs)))) \<and>
     lockInited t \<and> 0 < nBuckets t \<and> nBuckets t < MAXDWORD div sizeof_pointer \<and>
     lock_run Free (calls t) = Some Free"
  by (cases "ppBuckets t") (auto simp: ht_ok_def simp del: mset_concat)

lemma nodes_Some: "ppBuckets t = Some bs \<Longrightarrow> nodes t = mset (concat bs)"
  by (simp add: nodes_def)

lemma size_records [simp]: "size (records t) = size (nodes t)"
  by (simp add: records_def)

lemma dword_plus_1: "dword (dword n + 1) = dword (n + 1)"
  by (simp add: dword_def mod_simps)

lemma dword_minus_1: "0 < n \<Longrightarrow> dword_sub (dword n) 1 = dword (n - 1)"
proof -
  assume "0 < n"
  then have "n + 4294967295 = (n - 1) + 4294967296" by simp
  then have "(n mod 4294967296 + 4294967295) mod 4294967296 = (n - 1) mod 4294967296"
    by (metis mod_add_left_eq mod_add_self2)
  moreover have "n mod 4294967296 + 4294967296 - 1 = n mod 4294967296 + 4294967295" by simp
  ultimately show ?thesis by (simp only: dword_sub_def dword_def)
qed

section \<open>Growing the table\<close>

lemma chain_ok_rehash_link:
  assumes "chain_ok M n i c" "unat (dwHash nd) mod n = i" "dwHash nd = CalcKeyHash M (node_key M nd)"
  shows "chain_ok M n i (rehash_link nd c)"
  unfolding chain_ok_def rehash_link_set
proof (rule conjI)
  show "sorted (map dwHash (rehash_link nd c))"
    using assms(1) by (simp add: chain_ok_def rehash_link_sorted)
  show "\<forall>x\<in>insert nd (set c). unat (dwHash x) mod n = i \<and> dwHash x = CalcKeyHash M (node_key M x)"
    using assms unfolding chain_ok_def by blast
qed

lemma rehash_fold:
  assumes "\<forall>nd\<in>set ns. dwHash nd = CalcKeyHash M (node_key M nd)" "length bs = n" "0 < n"
    "\<forall>i<n. chain_ok M n i (bs ! i)"
  shows "length (fold (rehash_node n) ns bs) = n \<and> (\<forall>i<n. chain_ok M n i (fold (rehash_node n) ns bs ! i)) \<and>
    mset (concat (fold (rehash_node n) ns bs)) = mset (concat bs) + mset ns"
  using assms
proof (induction ns arbitrary: bs)
  case (Cons nd ns)
  let ?b = "unat (dwHash nd) mod n"
  let ?c = "rehash_link nd (bs ! ?b)"
  have b: "?b < length bs" using Cons.prems(2,3) by simp
  have e: "rehash_node n nd bs = bs[?b := ?c]" by (simp add: rehash_node_def Let_def)
  have cb: "chain_ok M n ?b (bs ! ?b)" using Cons.prems(2,4) b by simp
  have h: "dwHash nd = CalcKeyHash M (node_key M nd)" using Cons.prems(1) by simp
  have "chain_ok M n ?b ?c" by (rule chain_ok_rehash_link [OF cb refl h])
  then have "\<forall>i<n. chain_ok M n i (rehash_node n nd bs ! i)"
    using Cons.prems(2,4) by (auto simp: e nth_list_update)
  moreover have "mset (concat (rehash_node n nd bs)) = add_mset nd (mset (concat bs))"
    using mset_concat_update [OF b, of ?c] unfolding e rehash_link_mset by (simp del: mset_concat)
  ultimately show ?case
    using Cons.IH [of "rehash_node n nd bs"] Cons.prems by (simp add: e del: mset_concat)
qed simp

lemma chain_ok_Nil [simp]: "chain_ok M n i []"
  by (simp add: chain_ok_def)

lemma rehash_buckets:
  assumes "buckets_ok M bs" "0 < n"
  defines "bs' \<equiv> fold (rehash_node n) (concat bs) (replicate n [])"
  shows "length bs' = n" "buckets_ok M bs'" "mset (concat bs') = mset (concat bs)"
proof -
  have "\<forall>nd\<in>set (concat bs). dwHash nd = CalcKeyHash M (node_key M nd)"
  proof
    fix nd assume "nd \<in> set (concat bs)"
    then obtain c where "c \<in> set bs" "nd \<in> set c" by auto
    then obtain i where "i < length bs" "bs ! i = c" by (auto simp: in_set_conv_nth)
    with \<open>nd \<in> set c\<close> show "dwHash nd = CalcKeyHash M (node_key M nd)"
      using assms(1) by (auto simp: buckets_ok_def chain_ok_def)
  qed
  from rehash_fold [OF this _ assms(2), of "replicate n []"]
  have r: "length bs' = n" "\<forall>i<n. chain_ok M n i (bs' ! i)" "mset (concat bs') = mset (concat bs)"
    unfolding bs'_def by (simp_all del: mset_concat add: concat_replicate_trivial)
  show "length bs' = n" "mset (concat bs') = mset (concat bs)" by (fact r)+
  show "buckets_ok M bs'" using r assms(1) by (simp add: buckets_ok_def del: mset_concat)
qed

lemma Rehash_correct:
  assumes "ht_ok M t"
  shows "\<exists>t' w'. RehashTableIfNeeded t w = Some (t', w') \<and> ht_ok M t' \<and> nodes t' = nodes t \<and>
    nItems t' = nItems t \<and> nBuckets t \<le> nBuckets t' \<and> same_ledger t w t' w'"
proof -
  obtain bs where t: "ppBuckets t = Some bs" "length bs = nBuckets t" "buckets_ok M bs"
    "nItems t = dword (size (mset (concat bs)))" "lockInited t" "0 < nBuckets t"
    "nBuckets t < MAXDWORD div sizeof_pointer" "lock_run Free (calls t) = Some Free"
    using assms unfolding ht_ok_iff by blast
  let ?n = "GetPrime (dword (2 * nBuckets t))"
  have n: "2 * nBuckets t \<le> ?n"
    using GetPrime_ge [of "dword (2 * nBuckets t)"] t(7) by (simp add: dword_id MAXDWORD_def)
  let ?t1 = "emit [ExclusiveAcquire, ExclusiveRelease] t"
  have skip: "ht_ok M ?t1" "same_ledger t w ?t1 w" for w
    using t unfolding ht_ok_iff
    by (simp_all add: lock_run_append same_ledger_def foreign_refs_def foreign_blocks_def balance_def del: mset_concat)
  show ?thesis
  proof (cases "nItems t \<le> ?n \<or> MAXDWORD div sizeof_pointer \<le> ?n")
    case True
    then show ?thesis using assms skip
      by (auto simp: RehashTableIfNeeded_def same_ledger_def emit_def Let_def nodes_def)
  next
    case False
    obtain g w1 where g: "heap_request (?n * sizeof_pointer) w = (g, w1)" by fastforce
    show ?thesis
    proof (cases g)
      case False' : False
      then have "foreign_blocks t w1 = foreign_blocks t w"
        using heap_request_simps(2) [of _ w w1] g by (simp add: foreign_blocks_def)
      with False False' g skip show ?thesis
        by (auto simp: RehashTableIfNeeded_def same_ledger_def emit_def Let_def foreign_blocks_def nodes_def)
    next
      case True
      let ?bs = "fold (rehash_node ?n) (concat bs) (replicate ?n [])"
      let ?t2 = "emit [ExclusiveRelease] ((emit [ExclusiveAcquire] t)\<lparr>ppBuckets := Some ?bs, nBuckets := ?n\<rparr>)"
      have E: "RehashTableIfNeeded t w = Some (?t2, HeapFree w1)"
        using False g True t(1,2) by (simp add: RehashTableIfNeeded_def Let_def mem_read_Some)
      have r: "length ?bs = ?n" "buckets_ok M ?bs" "mset (concat ?bs) = mset (concat bs)"
        using rehash_buckets [OF t(3), of ?n] n t(6) by simp_all
      have N: "nodes ?t2 = nodes t" using r(3) t(1) by (simp add: nodes_def emit_def del: mset_concat)
      have sz: "length (concat ?bs) = length (concat bs)" using r(3) by (metis size_mset)
      have "ht_ok M ?t2" unfolding ht_ok_iff
        using t r(1,2) sz n False by (simp add: emit_def lock_run_append del: mset_concat)
      moreover have "same_ledger t w ?t2 (HeapFree w1)"
        using heap_request_simps(1) [of _ w w1] g True t(1) N
        by (simp add: same_ledger_def foreign_refs_def foreign_blocks_def records_def HeapFree_def)
      ultimately show ?thesis using E N n by (simp add: emit_def)
    qed
  qed
qed

section \<open>Deleting nodes\<close>

definition derefs :: "'r hash_node list \<Rightarrow> 'r call list" where
  "derefs c = concat (map (\<lambda>nd. case pRecord nd of Some r \<Rightarrow> [DereferenceRecord r] | None \<Rightarrow> []) c)"

lemma derefs_simps [simp]:
  "derefs [] = []"
  "derefs (nd # c) = (case pRecord nd of Some r \<Rightarrow> [DereferenceRecord r] | None \<Rightarrow> []) @ derefs c"
  "derefs (c @ d) = derefs c @ derefs d"
  by (simp_all add: derefs_def)

lemma lock_run_derefs [simp]: "lock_run Exclusive (derefs c) = Some Exclusive"
  by (induction c) (auto split: option.splits)

lemma balance_derefs [simp]: "balance r (derefs c) = - int (count (image_mset pRecord (mset c)) (Some r))"
  by (induction c) (auto split: option.splits)

lemma emit_twice [simp]: "emit [] t = t" "emit cs (emit ds t) = emit (ds @ cs) t"
  by (simp_all add: emit_def)

lemma HeapFree_live [simp]: "heap_live (HeapFree w) = heap_live w - 1"
  "heap_live ((HeapFree ^^ n) w) = heap_live w - int n"
  by (induction n) (simp_all add: HeapFree_def)

lemma DeleteNode_eq: "DeleteNode nd t w = (emit (derefs [nd]) t, HeapFree w)"
  by (simp add: DeleteNode_def split: option.splits)

lemma delete_chain_eq: "delete_chain c t w = (emit (derefs c) t, (HeapFree ^^ length c) w)"
proof (induction c arbitrary: t w)
  case (Cons nd c)
  then show ?case by (simp add: DeleteNode_eq funpow_swap1)
qed simp

text \<open>What a callback keeps and drops of a list of nodes, and the context it leaves.\<close>

fun keep_if :: "('r option \<Rightarrow> 'c \<Rightarrow> bool \<times> 'c) \<Rightarrow> 'r hash_node list \<Rightarrow> 'c \<Rightarrow>
    'r hash_node list \<times> 'r hash_node list \<times> 'c" where
  "keep_if f [] c = ([], [], c)"
| "keep_if f (nd # ns) c =
     (let (del, c1) = f (pRecord nd) c; (k, d, c2) = keep_if f ns c1
      in if del then (k, nd # d, c2) else (nd # k, d, c2))"

lemma keep_if_append:
  "keep_if f (a @ b) c =
     (let (k1, d1, c1) = keep_if f a c; (k2, d2, c2) = keep_if f b c1 in (k1 @ k2, d1 @ d2, c2))"
  by (induction a arbitrary: c) (auto simp: Let_def split: prod.splits)

lemma keep_if_mset: "keep_if f ns c = (k, d, c') \<Longrightarrow> mset ns = mset k + mset d"
  by (induction ns arbitrary: c k d c') (auto simp: Let_def split: prod.splits if_splits)

lemma keep_if_subset: "keep_if f ns c = (k, d, c') \<Longrightarrow> set k \<subseteq> set ns"
  by (induction ns arbitrary: c k d c') (fastforce simp: Let_def split: prod.splits if_splits)+

lemma keep_if_sorted: "keep_if f ns c = (k, d, c') \<Longrightarrow> sorted (map dwHash ns) \<Longrightarrow> sorted (map dwHash k)"
proof (induction ns arbitrary: c k d c')
  case (Cons nd ns)
  obtain del c1 k1 d1 c2 where e: "f (pRecord nd) c = (del, c1)" "keep_if f ns c1 = (k1, d1, c2)"
    by (metis prod.exhaust)
  have "sorted (map dwHash k1)" using Cons.IH [OF e(2)] Cons.prems(2) by simp
  moreover have "\<forall>x\<in>set k1. dwHash nd \<le> dwHash x"
    using keep_if_subset [OF e(2)] Cons.prems(2) by auto
  ultimately show ?case using Cons.prems(1) e by (auto split: if_splits)
qed simp

lemma keep_if_pure: "keep_if (\<lambda>r c. (P r, c)) ns c = (filter (\<lambda>nd. \<not> P (pRecord nd)) ns, filter (\<lambda>nd. P (pRecord nd)) ns, c)"
  by (induction ns) auto

lemma delete_if_chain_spec:
  assumes "ppBuckets t = Some bs" "i < length bs" "bs ! i = kept @ rest" "keep_if f rest c = (k, d, c')"
  shows "\<exists>t' w'. delete_if_chain f i kept rest t c w = (t', c', w') \<and>
    ppBuckets t' = Some (bs[i := kept @ k]) \<and> nBuckets t' = nBuckets t \<and> lockInited t' = lockInited t \<and>
    calls t' = calls t @ derefs d \<and> heap_live w' = heap_live w - int (length d) \<and>
    (\<forall>n. length d \<le> n \<and> nItems t = dword n \<longrightarrow> nItems t' = dword (n - length d))"
  using assms
proof (induction rest arbitrary: kept t bs c k d c' w)
  case Nil
  then show ?case by (auto simp: list_update_same_conv)
next
  case (Cons nd rest)
  obtain del c1 k1 d1 c2 where e: "f (pRecord nd) c = (del, c1)" "keep_if f rest c1 = (k1, d1, c2)"
    by (metis prod.exhaust)
  show ?case
  proof (cases del)
    case False
    then have r: "k = nd # k1" "d = d1" "c' = c2" using Cons.prems(4) e by auto
    from Cons.IH [OF Cons.prems(1,2) _ e(2), of "kept @ [nd]" w] Cons.prems(3)
    show ?thesis using False e(1) r by simp
  next
    case True
    then have r: "k = k1" "d = nd # d1" "c' = c2" using Cons.prems(4) e by auto
    let ?t = "emit (derefs [nd]) (t\<lparr>ppBuckets := Some (bs[i := kept @ rest])\<rparr>)"
    let ?t' = "?t\<lparr>nItems := dword_sub (nItems ?t) 1\<rparr>"
    have "ppBuckets ?t' = Some (bs[i := kept @ rest])" "i < length (bs[i := kept @ rest])"
      "bs[i := kept @ rest] ! i = kept @ rest" using Cons.prems(2) by simp_all
    from Cons.IH [OF this e(2), of "HeapFree w"]
    obtain t' w' where I: "delete_if_chain f i kept rest ?t' c1 (HeapFree w) = (t', c2, w')"
      "ppBuckets t' = Some (bs[i := kept @ k1])" "nBuckets t' = nBuckets t" "lockInited t' = lockInited t"
      "calls t' = calls t @ derefs [nd] @ derefs d1" "heap_live w' = heap_live w - 1 - int (length d1)"
      "\<forall>n. length d1 \<le> n \<and> nItems ?t' = dword n \<longrightarrow> nItems t' = dword (n - length d1)"
      by (auto simp: emit_def)
    have "nItems t' = dword (n - length d)" if n: "length d \<le> n" "nItems t = dword n" for n
    proof -
      have "nItems ?t' = dword (n - 1)" using n r(2) dword_minus_1 [of n] by (simp add: emit_def)
      moreover have "length d1 \<le> n - 1" using n(1) r(2) by simp
      ultimately show ?thesis using I(7) r(2) by auto
    qed
    with I True e(1) r Cons.prems(1) show ?thesis by (simp add: DeleteNode_eq)
  qed
qed

text \<open>The buckets after DeleteIf: each chain filtered, the context threaded through.\<close>

fun keep_buckets :: "('r option \<Rightarrow> 'c \<Rightarrow> bool \<times> 'c) \<Rightarrow> 'r hash_node list list \<Rightarrow> 'c \<Rightarrow> 'r hash_node list list" where
  "keep_buckets f [] c = []"
| "keep_buckets f (b # bs) c = (let (k, d, c') = keep_if f b c in k # keep_buckets f bs c')"

lemma keep_buckets_concat: "concat (keep_buckets f bs c) = fst (keep_if f (concat bs) c)"
  by (induction bs arbitrary: c) (auto simp: keep_if_append Let_def split: prod.splits)

lemma length_keep_buckets [simp]: "length (keep_buckets f bs c) = length bs"
  by (induction bs arbitrary: c) (auto split: prod.splits)

lemma keep_buckets_nth: "i < length bs \<Longrightarrow> \<exists>c0. keep_buckets f bs c ! i = fst (keep_if f (bs ! i) c0)"
proof (induction bs arbitrary: i c)
  case (Cons b bs)
  show ?case
  proof (cases i)
    case 0
    then show ?thesis by (cases "keep_if f b c") (auto intro!: exI [of _ c])
  next
    case (Suc j)
    with Cons show ?thesis by (cases "keep_if f b c") auto
  qed
qed simp

lemma delete_if_loop_spec:
  assumes "ppBuckets t = Some (pre @ bs)" "keep_if f (concat bs) c = (k, d, c')"
  shows "\<exists>t' w'. delete_if_loop f (length pre) (length bs) t c w = Some (t', c', w') \<and>
    ppBuckets t' = Some (pre @ keep_buckets f bs c) \<and> nBuckets t' = nBuckets t \<and> lockInited t' = lockInited t \<and>
    calls t' = calls t @ derefs d \<and> heap_live w' = heap_live w - int (length d) \<and>
    (\<forall>n. length d \<le> n \<and> nItems t = dword n \<longrightarrow> nItems t' = dword (n - length d))"
  using assms
proof (induction bs arbitrary: pre t c k d c' w)
  case (Cons b bs)
  obtain k1 d1 c1 where e1: "keep_if f b c = (k1, d1, c1)" by (metis prod.exhaust)
  obtain k2 d2 c2 where e2: "keep_if f (concat bs) c1 = (k2, d2, c2)" by (metis prod.exhaust)
  have r: "k = k1 @ k2" "d = d1 @ d2" "c' = c2" using Cons.prems(2) e1 e2 by (auto simp: keep_if_append)
  obtain t1 w1 where C: "delete_if_chain f (length pre) [] b t c w = (t1, c1, w1)"
    "ppBuckets t1 = Some (pre @ k1 # bs)" "nBuckets t1 = nBuckets t" "lockInited t1 = lockInited t"
    "calls t1 = calls t @ derefs d1" "heap_live w1 = heap_live w - int (length d1)"
    "\<forall>n. length d1 \<le> n \<and> nItems t = dword n \<longrightarrow> nItems t1 = dword (n - length d1)"
    using delete_if_chain_spec [OF Cons.prems(1) _ _ e1, of "length pre" "[]" w] by auto
  have p: "ppBuckets t1 = Some ((pre @ [k1]) @ bs)" using C(2) by simp
  from Cons.IH [OF p e2, of w1]
  obtain t2 w2 where L: "delete_if_loop f (Suc (length pre)) (length bs) t1 c1 w1 = Some (t2, c2, w2)"
    "ppBuckets t2 = Some (pre @ k1 # keep_buckets f bs c1)" "nBuckets t2 = nBuckets t1" "lockInited t2 = lockInited t1"
    "calls t2 = calls t1 @ derefs d2" "heap_live w2 = heap_live w1 - int (length d2)"
    "\<forall>n. length d2 \<le> n \<and> nItems t1 = dword n \<longrightarrow> nItems t2 = dword (n - length d2)"
    by auto
  have "nItems t2 = dword (n - length d)" if "length d \<le> n" "nItems t = dword n" for n
    using C(7) L(7) [THEN spec, of "n - length d1"] that r(2) by auto
  with C L r e1 Cons.prems(1) show ?case by (simp add: mem_get_def nth_append)
qed auto

text \<open>Clear empties every bucket and drops one reference per record.\<close>

lemma clear_loop_spec:
  assumes "ppBuckets t = Some (pre @ bs)"
  shows "\<exists>t' w'. clear_loop (length pre) (length bs) t w = Some (t', w') \<and>
    ppBuckets t' = Some (pre @ replicate (length bs) []) \<and> nBuckets t' = nBuckets t \<and>
    lockInited t' = lockInited t \<and> calls t' = calls t @ derefs (concat bs) \<and>
    heap_live w' = heap_live w - int (length (concat bs))"
  using assms
proof (induction bs arbitrary: pre t w)
  case (Cons b bs)
  let ?t1 = "emit (derefs b) (t\<lparr>ppBuckets := Some (pre @ [] # bs)\<rparr>)"
  have "ppBuckets ?t1 = Some ((pre @ [[]]) @ bs)" by (simp add: emit_def)
  from Cons.IH [OF this, of "(HeapFree ^^ length b) w"] Cons.prems
  show ?case by (auto simp: mem_get_def nth_append delete_chain_eq emit_def)
qed auto

lemma nodes_replicate: "ppBuckets t = Some (replicate n []) \<Longrightarrow> nodes t = {#}"
  by (simp add: nodes_def concat_replicate_trivial)

lemma Clear_correct:
  assumes "ht_ok M t"
  shows "\<exists>t' w'. Clear t w = Some (t', w') \<and> ht_ok M t' \<and> records t' = {#} \<and> nItems t' = 0 \<and>
    nBuckets t' = nBuckets t \<and> same_ledger t w t' w'"
proof -
  obtain bs where t: "ppBuckets t = Some bs" "length bs = nBuckets t" "buckets_ok M bs"
    "nItems t = dword (size (mset (concat bs)))" "lockInited t" "0 < nBuckets t"
    "nBuckets t < MAXDWORD div sizeof_pointer" "lock_run Free (calls t) = Some Free"
    using assms unfolding ht_ok_iff by blast
  have "ppBuckets (emit [ExclusiveAcquire] t) = Some ([] @ bs)" using t(1) by simp
  from clear_loop_spec [OF this, of w]
  obtain t1 w1 where C: "clear_loop 0 (nBuckets t) (emit [ExclusiveAcquire] t) w = Some (t1, w1)"
    "ppBuckets t1 = Some (replicate (nBuckets t) [])" "nBuckets t1 = nBuckets t" "lockInited t1"
    "calls t1 = calls t @ [ExclusiveAcquire] @ derefs (concat bs)"
    "heap_live w1 = heap_live w - int (length (concat bs))"
    using t(2,5) by auto
  let ?t' = "emit [ExclusiveRelease] (t1\<lparr>nItems := 0\<rparr>)"
  have B: "buckets_ok M (replicate n [])" for n
    by (simp add: buckets_ok_def keys_unique_def)
  have N: "nodes ?t' = {#}" using C(2) by (simp add: nodes_def concat_replicate_trivial emit_def)
  have "ht_ok M ?t'"
    unfolding ht_ok_iff using C t B by (simp add: emit_def lock_run_append)
  moreover have "same_ledger t w ?t' w1"
    using C t(1) N by (simp add: same_ledger_def foreign_refs_def foreign_blocks_def records_def nodes_Some del: mset_concat)
  ultimately show ?thesis using C(1,3) t(5) N by (simp add: Clear_def records_def emit_def)
qed

lemma DeleteIf_correct:
  assumes "ht_ok M t"
  defines "bs \<equiv> the (ppBuckets t)"
  assumes "keep_if f (concat bs) c = (k, d, c')"
  shows "\<exists>t' w'. DeleteIf f c t w = Some (t', c', w') \<and> ht_ok M t' \<and> nodes t' = mset k \<and>
    nodes t = mset k + mset d \<and> nBuckets t' = nBuckets t \<and> same_ledger t w t' w'"
proof -
  have t: "ppBuckets t = Some bs" "length bs = nBuckets t" "buckets_ok M bs"
    "nItems t = dword (size (mset (concat bs)))" "lockInited t" "0 < nBuckets t"
    "nBuckets t < MAXDWORD div sizeof_pointer" "lock_run Free (calls t) = Some Free"
    using assms(1) unfolding ht_ok_iff bs_def by auto
  have sp: "mset (concat bs) = mset k + mset d" using keep_if_mset [OF assms(3)] .
  then have len: "length (concat bs) = length k + length d" by (metis size_mset size_union)
  have "ppBuckets (emit [ExclusiveAcquire] t) = Some ([] @ bs)" using t(1) by simp
  from delete_if_loop_spec [OF this assms(3), of w]
  obtain t1 w1 where C: "delete_if_loop f 0 (nBuckets t) (emit [ExclusiveAcquire] t) c w = Some (t1, c', w1)"
    "ppBuckets t1 = Some (keep_buckets f bs c)" "nBuckets t1 = nBuckets t" "lockInited t1"
    "calls t1 = calls t @ [ExclusiveAcquire] @ derefs d"
    "heap_live w1 = heap_live w - int (length d)"
    "\<forall>n. length d \<le> n \<and> nItems t = dword n \<longrightarrow> nItems t1 = dword (n - length d)"
    using t(2,5) by auto
  let ?t' = "emit [ExclusiveRelease] t1"
  have K: "concat (keep_buckets f bs c) = k" using assms(3) by (simp add: keep_buckets_concat)
  have N: "nodes ?t' = mset k" using C(2) K by (simp add: nodes_Some)
  have I: "nItems t1 = dword (length k)" using C(7) t(4) len by (metis add_diff_cancel_right' le_add2 size_mset)
  have "chain_ok M (length bs) i (keep_buckets f bs c ! i)" if i: "i < length bs" for i
  proof -
    obtain c0 where e: "keep_buckets f bs c ! i = fst (keep_if f (bs ! i) c0)" using keep_buckets_nth [OF i, of f c] by blast
    obtain k0 d0 c1 where kd: "keep_if f (bs ! i) c0 = (k0, d0, c1)" by (metis prod.exhaust)
    show ?thesis using keep_if_sorted [OF kd] keep_if_subset [OF kd] t(3) i e kd
      by (auto simp: buckets_ok_def chain_ok_def)
  qed
  moreover have "keys_unique M (mset k)"
    using t(3) sp by (auto simp: buckets_ok_def simp del: mset_concat intro: keys_unique_subset)
  ultimately have "buckets_ok M (keep_buckets f bs c)" by (simp add: buckets_ok_def K del: mset_concat)
  then have "ht_ok M ?t'"
    unfolding ht_ok_iff using C t I K by (simp add: lock_run_append del: mset_concat)
  moreover have "same_ledger t w ?t' w1"
    using C t(1) N sp by (simp add: same_ledger_def foreign_refs_def foreign_blocks_def records_def nodes_Some del: mset_concat)
  ultimately show ?thesis using C(1,3) N sp t(1) by (simp add: DeleteIf_def nodes_Some del: mset_concat)
qed

section \<open>Setting up, visiting and tearing down\<close>

lemma Initialize_correct:
  fixes M :: "('r, 'k) methods"
  assumes "ppBuckets t = None" "nItems t = 0" "lock_run Free (calls t) = Some Free"
  shows "\<exists>hr t' w'. Initialize lock_hr n t w = (hr, t', w') \<and> same_ledger t w t' w' \<and>
    (if n = 0 \<or> MAXDWORD div sizeof_pointer \<le> n then hr = E_INVALIDARG \<and> t' = t
     else if FAILED lock_hr then hr = lock_hr \<and> t' = t
     else if \<not> heap_grants w (heap_calls w) (n * sizeof_pointer)
     then hr = HRESULT_FROM_WIN32 ERROR_NOT_ENOUGH_MEMORY \<and> t' = t\<lparr>lockInited := True\<rparr>
     else hr = S_OK \<and> ht_ok M t' \<and> records t' = {#} \<and> nBuckets t' = n)"
proof -
  obtain g w1 where g: "heap_request (n * sizeof_pointer) w = (g, w1)" by fastforce
  have gr: "g \<longleftrightarrow> heap_grants w (heap_calls w) (n * sizeof_pointer)" using heap_request_simps(3) [OF g] .
  consider (arg) "n = 0 \<or> MAXDWORD div sizeof_pointer \<le> n"
    | (lock) "0 < n" "n < MAXDWORD div sizeof_pointer" "FAILED lock_hr"
    | (mem) "0 < n" "n < MAXDWORD div sizeof_pointer" "\<not> FAILED lock_hr" "\<not> g"
    | (ok) "0 < n" "n < MAXDWORD div sizeof_pointer" "\<not> FAILED lock_hr" "g" by fastforce
  then show ?thesis
  proof cases
    case arg
    then show ?thesis using assms(1) by (auto simp: Initialize_def Initialize_Failed_def same_ledger_def)
  next
    case lock
    then show ?thesis using assms(1) by (simp add: Initialize_def Initialize_Failed_def same_ledger_def)
  next
    case mem
    then have "heap_live w1 = heap_live w" using heap_request_simps(2) [of "n * sizeof_pointer" w w1] g by simp
    then show ?thesis using mem assms(1) g gr
      by (simp add: Initialize_def Initialize_Failed_def same_ledger_def Let_def foreign_refs_def
          foreign_blocks_def nodes_def records_def)
  next
    case ok
    let ?t = "t\<lparr>lockInited := True, ppBuckets := Some (replicate n []), nBuckets := n\<rparr>"
    have I: "Initialize lock_hr n t w = (S_OK, ?t, w1)" using ok g assms(1) by (simp add: Initialize_def)
    have "heap_live w1 = heap_live w + 1" using heap_request_simps(1) [of "n * sizeof_pointer" w w1] g ok(4) by simp
    then have "same_ledger t w ?t w1" using assms(1)
      by (simp add: same_ledger_def foreign_refs_def foreign_blocks_def nodes_def records_def concat_replicate_trivial)
    moreover have "ht_ok M ?t"
      using ok(1,2) assms(2,3) unfolding ht_ok_iff
      by (simp add: buckets_ok_def keys_unique_def concat_replicate_trivial)
    ultimately show ?thesis using I ok gr by (simp add: records_def nodes_def concat_replicate_trivial)
  qed
qed

text \<open>Initialize on a table that is in use frees the bucket array under it.\<close>

lemma Initialize_live:
  assumes "ht_ok M t"
  shows "Initialize lock_hr n t w = (E_INVALIDARG, t\<lparr>ppBuckets := None\<rparr>, HeapFree w)"
  using assms by (auto simp: ht_ok_iff Initialize_def Initialize_Failed_def)

lemma dtor_ledger:
  assumes "nodes t = {#}"
  shows "same_ledger t w (fst (hash_table_dtor t w)) (snd (hash_table_dtor t w))"
    "ppBuckets (fst (hash_table_dtor t w)) = None"
  using assms by (auto simp: hash_table_dtor_def same_ledger_def foreign_refs_def foreign_blocks_def
      records_def nodes_def split: option.splits)

lemma apply_chain_fold:
  "apply_chain f c x = fold (\<lambda>nd. case pRecord nd of Some r \<Rightarrow> f r | None \<Rightarrow> id) c x"
  by (induction c arbitrary: x) (auto split: option.splits)

lemma apply_loop_spec:
  "ppBuckets t = Some (pre @ bs) \<Longrightarrow>
   apply_loop f (length pre) (length bs) t c =
     Some (fold (\<lambda>nd. case pRecord nd of Some r \<Rightarrow> f r | None \<Rightarrow> id) (concat bs) c)"
proof (induction bs arbitrary: pre c)
  case (Cons b bs)
  have "ppBuckets t = Some ((pre @ [b]) @ bs)" using Cons.prems by simp
  from Cons.IH [OF this] Cons.prems show ?case
    by (simp add: mem_get_def nth_append apply_chain_fold)
qed simp

text \<open>Apply calls the callback once for every record, the records in bucket order.\<close>

lemma Apply_correct:
  assumes "ht_ok M t"
  shows "\<exists>rs. mset rs = {#r \<in># records t. r \<noteq> None#} \<and>
    Apply f c t = Some (fold (f \<circ> the) rs c, emit [SharedAcquire, SharedRelease] t)"
proof -
  obtain bs where t: "ppBuckets t = Some bs" "length bs = nBuckets t" using assms unfolding ht_ok_iff by blast
  let ?rs = "filter (\<lambda>r. r \<noteq> None) (map pRecord (concat bs))"
  have F: "fold (\<lambda>nd. case pRecord nd of Some r \<Rightarrow> f r | None \<Rightarrow> id) ns x =
      fold (f \<circ> the) (filter (\<lambda>r. r \<noteq> None) (map pRecord ns)) x" for ns x
    by (induction ns arbitrary: x) (auto split: option.splits)
  have "ppBuckets (emit [SharedAcquire] t) = Some ([] @ bs)" using t(1) by simp
  from apply_loop_spec [OF this, of f c] t(2)
  have "Apply f c t = Some (fold (f \<circ> the) ?rs c, emit [SharedAcquire, SharedRelease] t)"
    by (simp add: Apply_def F)
  moreover have "mset ?rs = {#r \<in># records t. r \<noteq> None#}"
    unfolding mset_filter mset_map records_def nodes_Some [OF t(1)] by (rule refl)
  ultimately show ?thesis by blast
qed

section \<open>Key contract\<close>

locale key_contract =
  fixes M :: "('r, 'k) methods"
  assumes eq_refl: "EqualKeys M k k"
    and eq_sym: "EqualKeys M a b \<Longrightarrow> EqualKeys M b a"
    and eq_trans: "EqualKeys M a b \<Longrightarrow> EqualKeys M b c \<Longrightarrow> EqualKeys M a c"
    and eq_hash: "EqualKeys M a b \<Longrightarrow> CalcKeyHash M a = CalcKeyHash M b"
begin

lemma find_in_chain_spec:
  assumes "sorted (map dwHash c)" "\<forall>nd\<in>set c. dwHash nd = CalcKeyHash M (node_key M nd)"
  shows "(\<exists>i<length c. find_in_chain M key (CalcKeyHash M key) c p = (True, p + i) \<and>
            EqualKeys M key (node_key M (c ! i))) \<or>
         (\<exists>i\<le>length c. find_in_chain M key (CalcKeyHash M key) c p = (False, p + i) \<and>
            (\<forall>nd\<in>set c. \<not> EqualKeys M key (node_key M nd)) \<and>
            (\<forall>nd\<in>set (take i c). dwHash nd \<le> CalcKeyHash M key) \<and>
            (\<forall>nd\<in>set (drop i c). CalcKeyHash M key < dwHash nd))"
  using assms
proof (induction c arbitrary: p)
  case (Cons nd c)
  have h: "dwHash nd = CalcKeyHash M (node_key M nd)" using Cons.prems by simp
  have IH: "(\<exists>i<length c. find_in_chain M key (CalcKeyHash M key) c (p + 1) = (True, p + 1 + i) \<and>
            EqualKeys M key (node_key M (c ! i))) \<or>
         (\<exists>i\<le>length c. find_in_chain M key (CalcKeyHash M key) c (p + 1) = (False, p + 1 + i) \<and>
            (\<forall>nd\<in>set c. \<not> EqualKeys M key (node_key M nd)) \<and>
            (\<forall>nd\<in>set (take i c). dwHash nd \<le> CalcKeyHash M key) \<and>
            (\<forall>nd\<in>set (drop i c). CalcKeyHash M key < dwHash nd))"
    by (rule Cons.IH) (use Cons.prems in auto)
  consider (hit) "EqualKeys M key (node_key M nd)"
    | (walk) "\<not> EqualKeys M key (node_key M nd)" "dwHash nd \<le> CalcKeyHash M key"
    | (past) "CalcKeyHash M key < dwHash nd" by fastforce
  then show ?case
  proof cases
    case hit
    then show ?thesis using h eq_hash [OF hit] by (intro disjI1 exI [of _ 0]) simp
  next
    case walk
    then have e: "find_in_chain M key (CalcKeyHash M key) (nd # c) p = find_in_chain M key (CalcKeyHash M key) c (p + 1)"
      by auto
    from IH show ?thesis
    proof (elim disjE exE conjE)
      fix i assume "i < length c" "find_in_chain M key (CalcKeyHash M key) c (p + 1) = (True, p + 1 + i)"
        "EqualKeys M key (node_key M (c ! i))"
      then show ?thesis unfolding e by (intro disjI1 exI [of _ "Suc i"]) simp
    next
      fix i assume "i \<le> length c" "find_in_chain M key (CalcKeyHash M key) c (p + 1) = (False, p + 1 + i)"
        "\<forall>nd\<in>set c. \<not> EqualKeys M key (node_key M nd)" "\<forall>nd\<in>set (take i c). dwHash nd \<le> CalcKeyHash M key"
        "\<forall>nd\<in>set (drop i c). CalcKeyHash M key < dwHash nd"
      then show ?thesis unfolding e using walk by (intro disjI2 exI [of _ "Suc i"]) simp
    qed
  next
    case past
    have gt: "CalcKeyHash M key < dwHash x" if "x \<in> set (nd # c)" for x
      using past Cons.prems(1) that by fastforce
    have ne: "\<not> EqualKeys M key (node_key M x)" if "x \<in> set (nd # c)" for x
    proof
      assume "EqualKeys M key (node_key M x)"
      then have "CalcKeyHash M key = dwHash x" using Cons.prems(2) that eq_hash by metis
      with gt [OF that] show False by simp
    qed
    have "find_in_chain M key (CalcKeyHash M key) (nd # c) p = (False, p + 0)" using past by auto
    then show ?thesis using gt ne by (intro disjI2 exI [of _ 0] conjI ballI) simp_all
  qed
qed simp

lemma find_node_spec:
  fixes key
  assumes "ppBuckets t = Some bs" "length bs = nBuckets t" "0 < nBuckets t" "buckets_ok M bs"
  defines "b \<equiv> unat (CalcKeyHash M key) mod nBuckets t"
  shows "b < length bs \<and>
    ((\<exists>pos<length (bs ! b). FindNodeInternal M key (CalcKeyHash M key) t = Some (True, b, pos) \<and>
        EqualKeys M key (node_key M (bs ! b ! pos))) \<or>
     (\<exists>pos\<le>length (bs ! b). FindNodeInternal M key (CalcKeyHash M key) t = Some (False, b, pos) \<and>
        (\<forall>nd\<in>#mset (concat bs). \<not> EqualKeys M key (node_key M nd)) \<and>
        (\<forall>nd\<in>set (take pos (bs ! b)). dwHash nd \<le> CalcKeyHash M key) \<and>
        (\<forall>nd\<in>set (drop pos (bs ! b)). CalcKeyHash M key < dwHash nd)))"
proof -
  have b: "b < length bs" unfolding b_def using assms(2,3) by simp
  have F: "FindNodeInternal M key (CalcKeyHash M key) t =
      (let (found, pos) = find_in_chain M key (CalcKeyHash M key) (bs ! b) 0 in Some (found, b, pos))"
    using assms(1,3) b unfolding FindNodeInternal_def b_def by (simp add: mem_get_Some Let_def)
  have c: "chain_ok M (length bs) i (bs ! i)" if "i < length bs" for i
    using assms(4) that by (simp add: buckets_ok_def)
  have away: "\<not> EqualKeys M key (node_key M nd)" if "nd \<in> set (bs ! i)" "i < length bs" "i \<noteq> b" for nd i
  proof
    assume "EqualKeys M key (node_key M nd)"
    then have "dwHash nd = CalcKeyHash M key" using c [OF that(2)] that(1) eq_hash by (force simp: chain_ok_def)
    then have "i = b" using c [OF that(2)] that(1) assms(2) by (auto simp: chain_ok_def b_def)
    with that(3) show False by simp
  qed
  from c [OF b] have "sorted (map dwHash (bs ! b))" "\<forall>nd\<in>set (bs ! b). dwHash nd = CalcKeyHash M (node_key M nd)"
    by (auto simp: chain_ok_def)
  from find_in_chain_spec [OF this, of key 0] show ?thesis
  proof (elim disjE exE conjE)
    fix i assume "i < length (bs ! b)" "find_in_chain M key (CalcKeyHash M key) (bs ! b) 0 = (True, 0 + i)"
      "EqualKeys M key (node_key M (bs ! b ! i))"
    with b F show ?thesis by auto
  next
    fix i assume i: "i \<le> length (bs ! b)" "find_in_chain M key (CalcKeyHash M key) (bs ! b) 0 = (False, 0 + i)"
      "\<forall>nd\<in>set (bs ! b). \<not> EqualKeys M key (node_key M nd)"
      "\<forall>nd\<in>set (take i (bs ! b)). dwHash nd \<le> CalcKeyHash M key"
      "\<forall>nd\<in>set (drop i (bs ! b)). CalcKeyHash M key < dwHash nd"
    have "\<not> EqualKeys M key (node_key M nd)" if "nd \<in># mset (concat bs)" for nd
    proof -
      from that obtain c where "c \<in> set bs" "nd \<in> set c" by auto
      then obtain j where "j < length bs" "nd \<in> set (bs ! j)" by (metis in_set_conv_nth)
      then show ?thesis using away i(3) by (cases "j = b") auto
    qed
    with b F i show ?thesis by auto
  qed
qed

lemma matching_found:
  assumes "keys_unique M (nodes t)" "nd \<in># nodes t" "EqualKeys M key (node_key M nd)"
  shows "matching M key t = {#pRecord nd#}"
proof -
  let ?F = "{#x \<in># nodes t. EqualKeys M key (node_key M x)#}"
  have "nd \<in># ?F" using assms(2,3) by simp
  moreover have "size ?F \<le> 1" using assms(1) by (simp add: keys_unique_def)
  ultimately have "?F = {#nd#}" by (auto dest!: multi_member_split)
  then show ?thesis
    by (simp add: matching_def records_def filter_mset_image_mset)
qed

lemma matching_none:
  "(\<forall>nd\<in>#nodes t. \<not> EqualKeys M key (node_key M nd)) \<Longrightarrow> matching M key t = {#}"
  by (auto simp: matching_def records_def filter_mset_eq_conv)

lemma keys_unique_add:
  assumes "keys_unique M ns" "\<forall>x\<in>#ns. \<not> EqualKeys M (node_key M nd) (node_key M x)"
  shows "keys_unique M (add_mset nd ns)"
  unfolding keys_unique_def
proof
  fix k
  show "size {#x \<in># add_mset nd ns. EqualKeys M k (node_key M x)#} \<le> 1"
  proof (cases "EqualKeys M k (node_key M nd)")
    case True
    have "\<not> EqualKeys M k (node_key M x)" if "x \<in># ns" for x
      using assms(2) that True eq_sym eq_trans by blast
    then have "{#x \<in># ns. EqualKeys M k (node_key M x)#} = {#}" by (simp add: filter_mset_eq_conv)
    then show ?thesis using True by simp
  next
    case False
    then show ?thesis using assms(1) by (simp add: keys_unique_def)
  qed
qed

lemma in_matching: "r \<in># matching M key t \<longleftrightarrow> r \<in># records t \<and> EqualKeys M key (ExtractKey M r)"
  by (simp add: matching_def)

lemma FindKey_correct:
  assumes "ht_ok M t"
  shows "\<exists>r t'. FindKey M key t = Some (r, t') \<and> ht_ok M t' \<and> ppBuckets t' = ppBuckets t \<and>
    (case r of
       Some x \<Rightarrow> matching M key t = {#Some x#} \<and>
         calls t' = calls t @ [SharedAcquire, ReferenceRecord x, SharedRelease]
     | None \<Rightarrow> (\<forall>x. Some x \<notin># matching M key t) \<and> calls t' = calls t @ [SharedAcquire, SharedRelease])"
proof -
  obtain bs where t: "ppBuckets t = Some bs" "length bs = nBuckets t" "buckets_ok M bs"
    "nItems t = dword (size (mset (concat bs)))" "lockInited t" "0 < nBuckets t"
    "nBuckets t < MAXDWORD div sizeof_pointer" "lock_run Free (calls t) = Some Free"
    using assms unfolding ht_ok_iff by blast
  let ?t1 = "emit [SharedAcquire] t" and ?b = "unat (CalcKeyHash M key) mod nBuckets t"
  have ok: "ht_ok M (emit cs t)" if "lock_run Free cs = Some Free" for cs
    using t that unfolding ht_ok_iff by (simp add: lock_run_append)
  have "ppBuckets ?t1 = Some bs" "length bs = nBuckets ?t1" "0 < nBuckets ?t1" using t by simp_all
  from find_node_spec [OF this t(3), of key] show ?thesis
  proof (elim conjE disjE exE)
    fix pos assume b: "unat (CalcKeyHash M key) mod nBuckets ?t1 < length bs" and
      p: "pos < length (bs ! (unat (CalcKeyHash M key) mod nBuckets ?t1))" and
      F: "FindNodeInternal M key (CalcKeyHash M key) ?t1 = Some (True, unat (CalcKeyHash M key) mod nBuckets ?t1, pos)" and
      e: "EqualKeys M key (node_key M (bs ! (unat (CalcKeyHash M key) mod nBuckets ?t1) ! pos))"
    let ?nd = "bs ! ?b ! pos"
    have "?nd \<in># nodes t" using in_concat_nth [of ?b bs pos] b p t(1) by (simp add: nodes_Some del: mset_concat)
    moreover have "keys_unique M (nodes t)" using t(1,3) by (simp add: buckets_ok_def nodes_Some del: mset_concat)
    ultimately have m: "matching M key t = {#pRecord ?nd#}" using matching_found e by simp
    show ?thesis
      using F t(1) m ok by (cases "pRecord ?nd") (auto simp: FindKey_def Let_def)
  next
    fix pos assume
      F: "FindNodeInternal M key (CalcKeyHash M key) ?t1 = Some (False, unat (CalcKeyHash M key) mod nBuckets ?t1, pos)" and
      n: "\<forall>nd\<in>#mset (concat bs). \<not> EqualKeys M key (node_key M nd)"
    have "matching M key t = {#}" using matching_none n t(1) by (simp add: nodes_Some del: mset_concat)
    then show ?thesis using F t(1) ok by (auto simp: FindKey_def Let_def)
  qed
qed

lemma DeleteKey_correct:
  assumes "ht_ok M t"
  shows "\<exists>t' w'. DeleteKey M key t w = Some (t', w') \<and> ht_ok M t' \<and>
    records t' = records t - matching M key t \<and> nBuckets t' = nBuckets t \<and> same_ledger t w t' w'"
proof -
  obtain bs where t: "ppBuckets t = Some bs" "length bs = nBuckets t" "buckets_ok M bs"
    "nItems t = dword (size (mset (concat bs)))" "lockInited t" "0 < nBuckets t"
    "nBuckets t < MAXDWORD div sizeof_pointer" "lock_run Free (calls t) = Some Free"
    using assms unfolding ht_ok_iff by blast
  let ?t1 = "emit [ExclusiveAcquire] t" and ?b = "unat (CalcKeyHash M key) mod nBuckets t"
  have "ppBuckets ?t1 = Some bs" "length bs = nBuckets ?t1" "0 < nBuckets ?t1" using t by simp_all
  from find_node_spec [OF this t(3), of key] show ?thesis
  proof (elim conjE disjE exE)
    fix pos assume b: "unat (CalcKeyHash M key) mod nBuckets ?t1 < length bs" and
      p: "pos < length (bs ! (unat (CalcKeyHash M key) mod nBuckets ?t1))" and
      F: "FindNodeInternal M key (CalcKeyHash M key) ?t1 = Some (True, unat (CalcKeyHash M key) mod nBuckets ?t1, pos)" and
      e: "EqualKeys M key (node_key M (bs ! (unat (CalcKeyHash M key) mod nBuckets ?t1) ! pos))"
    let ?nd = "bs ! ?b ! pos" and ?bs = "unlink_node ?b pos bs"
    let ?t' = "emit ([ExclusiveAcquire] @ derefs [?nd] @ [ExclusiveRelease])
      (t\<lparr>ppBuckets := Some ?bs, nItems := dword_sub (nItems t) 1\<rparr>)"
    have E: "DeleteKey M key t w = Some (?t', HeapFree w)"
      using F t(1) by (simp add: DeleteKey_def Let_def DeleteNode_eq)
    have sp: "mset (concat bs) = add_mset ?nd (mset (concat ?bs))"
      using mset_unlink_node [of ?b bs pos] b p by simp
    have "?nd \<in># nodes t" using in_concat_nth [of ?b bs pos] b p t(1) by (simp add: nodes_Some del: mset_concat)
    moreover have "keys_unique M (nodes t)" using t(1,3) by (simp add: buckets_ok_def nodes_Some del: mset_concat)
    ultimately have m: "matching M key t = {#pRecord ?nd#}" using matching_found e by simp
    have N: "nodes ?t' = mset (concat ?bs)" by (simp add: nodes_def emit_def)
    then have R: "records ?t' = records t - matching M key t"
      using m sp t(1) by (simp add: records_def nodes_Some del: mset_concat)
    have "chain_ok M (length bs) ?b (take pos (bs ! ?b) @ drop (Suc pos) (bs ! ?b))"
      using chain_ok_take_drop [of M "length bs" ?b "bs ! ?b" pos "Suc pos"] t(3) b by (auto simp: buckets_ok_def)
    then have "buckets_ok M ?bs"
      using t(3) b sp keys_unique_subset [of M "mset (concat bs)" "mset (concat ?bs)"]
      by (auto simp: buckets_ok_def unlink_node_def nth_list_update simp del: mset_concat)
    moreover have "dword_sub (nItems t) 1 = dword (size (mset (concat ?bs)))"
      using t(4) sp dword_minus_1 [of "size (mset (concat bs))"] by (simp del: mset_concat)
    ultimately have "ht_ok M ?t'"
      unfolding ht_ok_iff using t by (simp add: emit_def lock_run_append del: mset_concat split: option.splits)
    moreover have "same_ledger t w ?t' (HeapFree w)"
      using N sp t(1) R m by (simp add: same_ledger_def foreign_refs_def foreign_blocks_def records_def nodes_Some del: mset_concat)
        (auto split: option.splits)
    ultimately show ?thesis using E R by (simp add: emit_def)
  next
    fix pos assume
      F: "FindNodeInternal M key (CalcKeyHash M key) ?t1 = Some (False, unat (CalcKeyHash M key) mod nBuckets ?t1, pos)" and
      n: "\<forall>nd\<in>#mset (concat bs). \<not> EqualKeys M key (node_key M nd)"
    have m: "matching M key t = {#}" using matching_none n t(1) by (simp add: nodes_Some del: mset_concat)
    have "ht_ok M (emit [ExclusiveAcquire, ExclusiveRelease] t)"
      using t unfolding ht_ok_iff by (simp add: lock_run_append)
    then show ?thesis using F m
      by (auto simp: DeleteKey_def Let_def same_ledger_def foreign_refs_def foreign_blocks_def)
  qed
qed

lemma insert_linked:
  assumes "buckets_ok M bs" "b < length bs" "unat (dwHash nd) mod length bs = b"
    "dwHash nd = CalcKeyHash M (node_key M nd)"
    "\<forall>x\<in>#mset (concat bs). \<not> EqualKeys M (node_key M nd) (node_key M x)"
    "\<forall>x\<in>set (take pos (bs ! b)). dwHash x \<le> dwHash nd" "\<forall>x\<in>set (drop pos (bs ! b)). dwHash nd < dwHash x"
  shows "buckets_ok M (link_node b pos nd bs)"
proof -
  have c: "chain_ok M (length bs) b (bs ! b)" using assms(1,2) by (simp add: buckets_ok_def)
  have "\<forall>x\<in>set (drop pos (bs ! b)). dwHash nd \<le> dwHash x" using assms(7) by auto
  from chain_ok_link [OF c assms(3,4,6) this]
  have "chain_ok M (length bs) i (link_node b pos nd bs ! i)" if "i < length bs" for i
    using assms(1,2) that by (cases "i = b") (simp_all add: link_node_def buckets_ok_def)
  moreover have "keys_unique M (mset (concat (link_node b pos nd bs)))"
    unfolding mset_link_node [OF assms(2)] using assms(1,5) by (intro keys_unique_add) (simp_all add: buckets_ok_def del: mset_concat)
  ultimately show ?thesis by (simp add: buckets_ok_def del: mset_concat)
qed

lemma InsertRecord_correct:
  assumes "ht_ok M t"
  shows "\<exists>hr t' w'. InsertRecord M r t w = Some (hr, t', w') \<and> ht_ok M t' \<and> same_ledger t w t' w' \<and>
    (if \<not> heap_grants w (heap_calls w) sizeof_hash_node
     then hr = HRESULT_FROM_WIN32 ERROR_NOT_ENOUGH_MEMORY \<and> t' = t
     else if matching M (ExtractKey M r) t \<noteq> {#}
     then hr = HRESULT_FROM_WIN32 ERROR_ALREADY_EXISTS \<and> records t' = records t
     else hr = S_OK \<and> records t' = add_mset r (records t) \<and> nItems t' = dword (nItems t + 1))"
proof -
  obtain bs where t: "ppBuckets t = Some bs" "length bs = nBuckets t" "buckets_ok M bs"
    "nItems t = dword (size (mset (concat bs)))" "lockInited t" "0 < nBuckets t"
    "nBuckets t < MAXDWORD div sizeof_pointer" "lock_run Free (calls t) = Some Free"
    using assms unfolding ht_ok_iff by blast
  let ?key = "ExtractKey M r"
  let ?h = "CalcKeyHash M ?key"
  let ?t1 = "emit [SharedAcquire] t" and ?b = "unat (CalcKeyHash M ?key) mod nBuckets t"
  obtain g w1 where g: "heap_request sizeof_hash_node w = (g, w1)" by fastforce
  have gr: "g \<longleftrightarrow> heap_grants w (heap_calls w) sizeof_hash_node" using heap_request_simps(3) [OF g] .
  show ?thesis
  proof (cases g)
    case False
    then have "heap_live w1 = heap_live w" using heap_request_simps(2) [of sizeof_hash_node w w1] g by simp
    then show ?thesis using False g gr assms
      by (simp add: InsertRecord_def Let_def same_ledger_def foreign_blocks_def)
  next
    case True
    have live: "heap_live w1 = heap_live w + 1" using heap_request_simps(1) [of sizeof_hash_node w w1] g True by simp
    have "ppBuckets ?t1 = Some bs" "length bs = nBuckets ?t1" "0 < nBuckets ?t1" using t by simp_all
    from find_node_spec [OF this t(3), of ?key] show ?thesis
    proof (elim conjE disjE exE)
      fix pos assume b: "unat ?h mod nBuckets ?t1 < length bs" and
        p: "pos < length (bs ! (unat ?h mod nBuckets ?t1))" and
        F: "FindNodeInternal M ?key ?h ?t1 = Some (True, unat ?h mod nBuckets ?t1, pos)" and
        e: "EqualKeys M ?key (node_key M (bs ! (unat ?h mod nBuckets ?t1) ! pos))"
      have "bs ! ?b ! pos \<in># nodes t" using in_concat_nth [of ?b bs pos] b p t(1) by (simp add: nodes_Some del: mset_concat)
      then have "pRecord (bs ! ?b ! pos) \<in># matching M ?key t" using e by (simp add: in_matching records_def)
      then have m: "matching M ?key t \<noteq> {#}" by auto
      have "ht_ok M (emit [SharedAcquire, SharedRelease] t)"
        using t unfolding ht_ok_iff by (simp add: lock_run_append)
      then show ?thesis using F m True gr g live
        by (simp add: InsertRecord_def Let_def same_ledger_def foreign_refs_def foreign_blocks_def DeleteNode_def)
    next
      fix pos assume b: "unat ?h mod nBuckets ?t1 < length bs" and
        F: "FindNodeInternal M ?key ?h ?t1 = Some (False, unat ?h mod nBuckets ?t1, pos)" and
        n: "\<forall>nd\<in>#mset (concat bs). \<not> EqualKeys M ?key (node_key M nd)" and
        le: "\<forall>nd\<in>set (take pos (bs ! (unat ?h mod nBuckets ?t1))). dwHash nd \<le> ?h" and
        gt: "\<forall>nd\<in>set (drop pos (bs ! (unat ?h mod nBuckets ?t1))). ?h < dwHash nd"
      let ?nd = "\<lparr>pRecord = r, dwHash = ?h\<rparr>"
      let ?bs = "link_node ?b pos ?nd bs"
      let ?ref = "case r of Some x \<Rightarrow> [ReferenceRecord x] | None \<Rightarrow> []"
      let ?t4 = "emit ([SharedAcquire] @ ?ref @ [SharedRelease]) (t\<lparr>ppBuckets := Some ?bs, nItems := dword (nItems t + 1)\<rparr>)"
      have m: "matching M ?key t = {#}" using matching_none n t(1) by (simp add: nodes_Some del: mset_concat)
      have M': "mset (concat ?bs) = add_mset ?nd (mset (concat bs))" using mset_link_node [of ?b bs] b by simp
      have B: "buckets_ok M ?bs"
        using insert_linked [OF t(3), of ?b ?nd pos] b t(2) n le gt by (simp del: mset_concat)
      have sz: "length (concat ?bs) = Suc (length (concat bs))"
        using M' by (metis size_mset size_add_mset)
      have ok: "ht_ok M ?t4" unfolding ht_ok_iff
        using t B sz dword_plus_1 by (auto simp: emit_def lock_run_append simp del: mset_concat split: option.splits)
      obtain t' w' where R: "RehashTableIfNeeded ?t4 w1 = Some (t', w')" "ht_ok M t'" "nodes t' = nodes ?t4"
        "nItems t' = nItems ?t4" "same_ledger ?t4 w1 t' w'" using Rehash_correct [OF ok] by blast
      have E: "InsertRecord M r t w = Some (S_OK, t', w')"
        using F g True t(1) R(1) by (cases r) (simp_all add: InsertRecord_def Let_def emit_def)
      have N: "nodes ?t4 = add_mset ?nd (nodes t)" using M' t(1) by (simp add: nodes_def emit_def del: mset_concat)
      then have rec: "records t' = add_mset r (records t)" using R(3) by (simp add: records_def)
      have "same_ledger t w ?t4 w1"
        using N live t(1) by (auto simp: same_ledger_def foreign_refs_def foreign_blocks_def records_def split: option.splits)
      then have "same_ledger t w t' w'" using R(5) by (simp add: same_ledger_def)
      then show ?thesis using E R(2,4) rec m True gr by (simp add: emit_def)
    qed
  qed
qed

end

section \<open>Clients that meet the contract\<close>

text \<open>The client of \<open>IISLibTest.cpp\<close>: a key is the address of a RecordKey, compared as a pointer and
  hashed by its text, which \<open>text\<close> reads.\<close>

definition Test_methods :: "('r option \<Rightarrow> 'p) \<Rightarrow> ('p \<Rightarrow> WCHAR list) \<Rightarrow> ('r, 'p) methods" where
  "Test_methods GetKey txt =
     \<lparr>ExtractKey = GetKey, CalcKeyHash = (\<lambda>k. Hash_pwsz (txt k)), EqualKeys = (=)\<rparr>"

text \<open>Keys compared without regard to case, as \<open>hashfn.h\<close> asks of a client of HashStringNoCase.\<close>

definition nocase_methods :: "('r option \<Rightarrow> CHAR_t list) \<Rightarrow> ('r, CHAR_t list) methods" where
  "nocase_methods ext =
     \<lparr>ExtractKey = ext, CalcKeyHash = (\<lambda>k. HashStringNoCase k 0), EqualKeys = stricmp_eq\<rparr>"

lemma stricmp_hash: "stricmp_eq a b \<Longrightarrow> HashStringNoCase a h = HashStringNoCase b h"
proof -
  assume "stricmp_eq a b"
  then have e: "map tolower (cstr a) = map tolower (cstr b)" by (simp add: stricmp_eq_def)
  have "map (\<lambda>c. c AND 0xDF) (cstr a) = map (\<lambda>c. c AND 0xDF) (cstr b)"
  proof (rule nth_equalityI)
    show l: "length (map (\<lambda>c. c AND 0xDF) (cstr a)) = length (map (\<lambda>c. c AND 0xDF) (cstr b))"
      using e by (metis length_map)
    fix i assume "i < length (map (\<lambda>c. c AND 0xDF) (cstr a))"
    with l have i: "i < length (cstr a)" "i < length (cstr b)" by simp_all
    then have "tolower (cstr a ! i) = tolower (cstr b ! i)" using e by (metis nth_map)
    from tolower_mask8 [OF this] i
    show "map (\<lambda>c. c AND 0xDF) (cstr a) ! i = map (\<lambda>c. c AND 0xDF) (cstr b) ! i" by simp
  qed
  then show ?thesis unfolding HashStringNoCase_def by (rule hash_loop_cong)
qed

interpretation ht_test: key_contract "Test_methods GetKey txt"
  by unfold_locales (auto simp: Test_methods_def)

interpretation ht_nocase: key_contract "nocase_methods ext"
  by unfold_locales (auto simp: nocase_methods_def stricmp_hash, auto simp: stricmp_eq_def)

end
