(* ===== verification/HashTableConc.thy ===== *)
theory HashTableConc
  imports HashTableFacts "HOL-Library.Sublist"
begin

text \<open>
  \<open>HASH_TABLE::InsertRecord\<close> called by any number of threads at once. They hold the table lock in
  shared mode, so nothing is deleted and the table is not rehashed, and each inserts with a
  compare-and-swap. The state is the memory the loop of lines 444 to 471 works on: the bucket,
  the \<open>_pNext\<close> field of every node address, the item count, and where each thread stands. A
  thread is named by the address of the node it allocated; \<open>N\<close> gives the record and hash at an
  address. A step is one access to shared memory.
\<close>

section \<open>The steps\<close>

text \<open>A \<open>ppPreviousNodeNextPointer\<close>: the bucket itself or the field of a node.\<close>

datatype location = Bucket | NextOf nat

datatype thread_pc =
    Begin
  | Walk location "nat option" \<comment> \<open>the pointer and the pNode read through it\<close>
  | Swap location "nat option" \<comment> \<open>about to compare and swap\<close>
  | Linked | Finished | AlreadyExists

record conc =
  bucket :: "nat option"
  pNext :: "nat \<Rightarrow> nat option"
  items :: DWORD
  thread :: "nat \<Rightarrow> thread_pc"

definition read_loc :: "conc \<Rightarrow> location \<Rightarrow> nat option" where
  "read_loc s l = (case l of Bucket \<Rightarrow> bucket s | NextOf c \<Rightarrow> pNext s c)"

definition write_loc :: "location \<Rightarrow> nat option \<Rightarrow> conc \<Rightarrow> conc" where
  "write_loc l v s =
     (case l of Bucket \<Rightarrow> s\<lparr>bucket := v\<rparr> | NextOf c \<Rightarrow> s\<lparr>pNext := (pNext s)(c := v)\<rparr>)"

definition goto :: "nat \<Rightarrow> thread_pc \<Rightarrow> conc \<Rightarrow> conc" where
  "goto a p s = s\<lparr>thread := (thread s)(a := p)\<rparr>"

inductive insert_step :: "('r, 'k) methods \<Rightarrow> (nat \<Rightarrow> 'r hash_node) \<Rightarrow> conc \<Rightarrow> conc \<Rightarrow> bool"
  for M N where
  start: "thread s a = Begin \<Longrightarrow> insert_step M N s (goto a (Walk Bucket (bucket s)) s)"
| found: "thread s a = Walk l (Some c) \<Longrightarrow> dwHash (N c) = dwHash (N a) \<Longrightarrow>
    EqualKeys M (node_key M (N a)) (node_key M (N c)) \<Longrightarrow> insert_step M N s (goto a AlreadyExists s)"
| advance: "thread s a = Walk l (Some c) \<Longrightarrow>
    dwHash (N c) = dwHash (N a) \<and> \<not> EqualKeys M (node_key M (N a)) (node_key M (N c)) \<or>
      dwHash (N c) < dwHash (N a) \<Longrightarrow>
    insert_step M N s (goto a (Walk (NextOf c) (pNext s c)) s)"
| stop: "thread s a = Walk l p \<Longrightarrow> (case p of None \<Rightarrow> True | Some c \<Rightarrow> dwHash (N c) > dwHash (N a)) \<Longrightarrow>
    insert_step M N s (goto a (Swap l p) (s\<lparr>pNext := (pNext s)(a := p)\<rparr>))"
| swapped: "thread s a = Swap l p \<Longrightarrow> read_loc s l = p \<Longrightarrow>
    insert_step M N s (goto a Linked (write_loc l (Some a) s))"
| retry: "thread s a = Swap l p \<Longrightarrow> read_loc s l \<noteq> p \<Longrightarrow> insert_step M N s (goto a Begin s)"
| count: "thread s a = Linked \<Longrightarrow> insert_step M N s (goto a Finished (s\<lparr>items := items s + 1\<rparr>))"

inductive insert_run :: "('r, 'k) methods \<Rightarrow> (nat \<Rightarrow> 'r hash_node) \<Rightarrow> conc \<Rightarrow> conc \<Rightarrow> bool"
  for M N where
  refl: "insert_run M N s s"
| step: "insert_run M N s s' \<Longrightarrow> insert_step M N s' s'' \<Longrightarrow> insert_run M N s s''"

section \<open>The chain in memory\<close>

fun path :: "(nat \<Rightarrow> nat option) \<Rightarrow> nat option \<Rightarrow> nat list \<Rightarrow> bool" where
  "path nx p [] \<longleftrightarrow> p = None"
| "path nx p (x # xs) \<longleftrightarrow> p = Some x \<and> path nx (nx x) xs"

definition loc_after :: "nat list \<Rightarrow> location" where
  "loc_after ps = (if ps = [] then Bucket else NextOf (last ps))"

definition first :: "nat list \<Rightarrow> nat option" where
  "first qs = (case qs of [] \<Rightarrow> None | q # _ \<Rightarrow> Some q)"

lemma path_update [simp]: "a \<notin> set xs \<Longrightarrow> path (nx(a := v)) p xs \<longleftrightarrow> path nx p xs"
  by (induction xs arbitrary: p) auto

lemma path_append: "path nx p (ps @ qs) \<Longrightarrow>
  (if ps = [] then path nx p qs else path nx (nx (last ps)) qs)"
  by (induction ps arbitrary: p) (auto split: if_splits)

lemma path_first: "path nx p qs \<Longrightarrow> p = first qs"
  by (cases qs) (auto simp: first_def)

lemma read_loc_after:
  "path (pNext s) (bucket s) (ps @ qs) \<Longrightarrow> read_loc s (loc_after ps) = first qs"
  using path_append [of "pNext s" "bucket s" ps qs] path_first [of _ _ qs]
  by (auto simp: read_loc_def loc_after_def split: if_splits)

text \<open>Linking \<open>a\<close> in behind \<open>ps\<close>.\<close>

lemma path_link:
  assumes "path (pNext s) (bucket s) (ps @ qs)" "a \<notin> set (ps @ qs)" "distinct (ps @ qs)"
    "pNext s a = first qs"
  shows "path (pNext (write_loc (loc_after ps) (Some a) s)) (bucket (write_loc (loc_after ps) (Some a) s))
    (ps @ a # qs)"
proof -
  have link: "path (nx(last ps := Some a)) p (ps @ a # qs)"
    if "ps \<noteq> []" "path nx p (ps @ qs)" "a \<notin> set (ps @ qs)" "distinct (ps @ qs)" "nx a = first qs" for nx p
    using that
  proof (induction ps arbitrary: p)
    case (Cons x ps)
    show ?case
    proof (cases "ps = []")
      case True
      then have q: "path nx (nx x) qs" "x \<notin> set qs" "x \<noteq> a" using Cons.prems by auto
      moreover have "nx a = nx x" using path_first [OF q(1)] Cons.prems(5) by simp
      moreover have "path (nx(x := Some a)) (nx x) qs" using path_update [OF q(2)] q(1) by blast
      ultimately show ?thesis using True Cons.prems by (simp del: fun_upd_apply) (simp add: fun_upd_def)
    next
      case False
      then have "x \<noteq> last ps" using Cons.prems(4) by auto
      then show ?thesis using Cons.IH [OF False, of "nx x"] Cons.prems False by simp
    qed
  qed simp
  show ?thesis
  proof (cases "ps = []")
    case True
    then show ?thesis using assms path_first [of "pNext s" "bucket s" qs]
      by (simp add: write_loc_def loc_after_def)
  next
    case False
    then show ?thesis using link [OF False, of "pNext s" "bucket s"] assms
      by (simp add: write_loc_def loc_after_def)
  qed
qed

section \<open>The invariant\<close>

text \<open>What thread \<open>a\<close> knows about the chain \<open>ps @ qs\<close> when its pointer is behind \<open>ps\<close>.\<close>

definition passed :: "('r, 'k) methods \<Rightarrow> (nat \<Rightarrow> 'r hash_node) \<Rightarrow> nat \<Rightarrow> nat list \<Rightarrow> bool" where
  "passed M N a ps \<longleftrightarrow>
     (\<forall>x\<in>set ps. dwHash (N x) \<le> dwHash (N a) \<and> \<not> EqualKeys M (node_key M (N a)) (node_key M (N x)))"

definition ahead :: "(nat \<Rightarrow> 'r hash_node) \<Rightarrow> nat list \<Rightarrow> nat option \<Rightarrow> bool" where
  "ahead N qs p \<longleftrightarrow>
     (case p of None \<Rightarrow> True
      | Some c \<Rightarrow> \<exists>us vs. qs = us @ c # vs \<and> (\<forall>x\<in>set us. dwHash (N x) < dwHash (N c)))"

fun thread_ok :: "('r, 'k) methods \<Rightarrow> (nat \<Rightarrow> 'r hash_node) \<Rightarrow> conc \<Rightarrow> nat list \<Rightarrow> nat \<Rightarrow> thread_pc \<Rightarrow> bool" where
  "thread_ok M N s xs a Begin \<longleftrightarrow> a \<notin> set xs"
| "thread_ok M N s xs a (Walk l p) \<longleftrightarrow> a \<notin> set xs \<and>
     (\<exists>ps qs. xs = ps @ qs \<and> l = loc_after ps \<and> passed M N a ps \<and> ahead N qs p)"
| "thread_ok M N s xs a (Swap l p) \<longleftrightarrow> a \<notin> set xs \<and> pNext s a = p \<and>
     (case p of None \<Rightarrow> True | Some c \<Rightarrow> dwHash (N a) < dwHash (N c)) \<and>
     (\<exists>ps qs. xs = ps @ qs \<and> l = loc_after ps \<and> passed M N a ps)"
| "thread_ok M N s xs a Linked \<longleftrightarrow> a \<in> set xs"
| "thread_ok M N s xs a Finished \<longleftrightarrow> a \<in> set xs"
| "thread_ok M N s xs a AlreadyExists \<longleftrightarrow> a \<notin> set xs \<and>
     (\<exists>x\<in>set xs. EqualKeys M (node_key M (N a)) (node_key M (N x)))"

definition chain_inv :: "('r, 'k) methods \<Rightarrow> (nat \<Rightarrow> 'r hash_node) \<Rightarrow> nat list \<Rightarrow> bool" where
  "chain_inv M N xs \<longleftrightarrow> distinct xs \<and> sorted (map (dwHash \<circ> N) xs) \<and>
     (\<forall>x\<in>set xs. \<forall>y\<in>set xs. x \<noteq> y \<longrightarrow> \<not> EqualKeys M (node_key M (N x)) (node_key M (N y)))"

definition conc_inv :: "('r, 'k) methods \<Rightarrow> (nat \<Rightarrow> 'r hash_node) \<Rightarrow> conc \<Rightarrow> nat list \<Rightarrow> bool" where
  "conc_inv M N s xs \<longleftrightarrow> path (pNext s) (bucket s) xs \<and> chain_inv M N xs \<and>
     (\<forall>a. thread_ok M N s xs a (thread s a))"

text \<open>Node hashes are the hashes of their keys, as the constructor call of line 434 makes them.\<close>

definition hashed :: "('r, 'k) methods \<Rightarrow> (nat \<Rightarrow> 'r hash_node) \<Rightarrow> bool" where
  "hashed M N \<longleftrightarrow> (\<forall>a. dwHash (N a) = CalcKeyHash M (node_key M (N a)))"

lemma thread_ok_cong: "pNext s a = pNext s' a \<Longrightarrow> thread_ok M N s xs a p \<longleftrightarrow> thread_ok M N s' xs a p"
  by (cases p) auto

lemma goto_simps [simp]:
  "bucket (goto a p s) = bucket s" "pNext (goto a p s) = pNext s" "items (goto a p s) = items s"
  "thread (goto a p s) = (thread s)(a := p)"
  by (simp_all add: goto_def)

lemma write_loc_simps [simp]:
  "items (write_loc l v s) = items s" "thread (write_loc l v s) = thread s"
  by (simp_all add: write_loc_def split: location.splits)

section \<open>Every step keeps the invariant\<close>

lemma first_above:
  assumes "sorted (map (dwHash \<circ> N) (ps @ qs))"
    "case first qs of None \<Rightarrow> True | Some c \<Rightarrow> dwHash (N a) < dwHash (N c)"
  shows "\<forall>x\<in>set qs. dwHash (N a) < dwHash (N x)"
  using assms by (cases qs) (fastforce simp: first_def sorted_append)+

lemma ahead_link:
  assumes "ahead N qs p" "qs = ms @ rs" "\<forall>x\<in>set rs. dwHash (N a) < dwHash (N x)"
  shows "ahead N (ms @ a # rs) p"
proof (cases p)
  case (Some c)
  with assms(1,2) obtain us vs where u: "ms @ rs = us @ c # vs" "\<forall>x\<in>set us. dwHash (N x) < dwHash (N c)"
    by (auto simp: ahead_def)
  from u(1) consider (l) ws where "ms = us @ c # ws" "vs = ws @ rs"
    | (r) ws where "us = ms @ ws" "rs = ws @ c # vs"
    by (auto simp: append_eq_append_conv2 append_eq_Cons_conv)
  then show ?thesis
  proof cases
    case l
    then have "ms @ a # rs = us @ c # (ws @ a # rs)" by simp
    with u(2) show ?thesis unfolding ahead_def Some option.case by blast
  next
    case r
    then have "ms @ a # rs = (ms @ a # ws) @ c # vs" by simp
    moreover have "\<forall>x\<in>set (ms @ a # ws). dwHash (N x) < dwHash (N c)"
      using u(2) r assms(3) by auto
    ultimately show ?thesis unfolding ahead_def Some option.case by blast
  qed
qed (simp add: ahead_def)

context key_contract
begin

lemma hash_differs:
  "hashed M N \<Longrightarrow> dwHash (N a) < dwHash (N x) \<Longrightarrow>
   \<not> EqualKeys M (node_key M (N a)) (node_key M (N x)) \<and> \<not> EqualKeys M (node_key M (N x)) (node_key M (N a))"
  unfolding hashed_def using eq_hash by (metis order_less_irrefl)

lemma chain_inv_link:
  assumes "chain_inv M N (ps @ qs)" "a \<notin> set (ps @ qs)" "passed M N a ps"
    "\<forall>x\<in>set qs. dwHash (N a) < dwHash (N x)" "hashed M N"
  shows "chain_inv M N (ps @ a # qs)"
proof -
  have s: "sorted (map (dwHash \<circ> N) ps @ map (dwHash \<circ> N) qs)" and d: "distinct (ps @ qs)"
    and u: "\<forall>x\<in>set (ps @ qs). \<forall>y\<in>set (ps @ qs). x \<noteq> y \<longrightarrow> \<not> EqualKeys M (node_key M (N x)) (node_key M (N y))"
    using assms(1) by (auto simp: chain_inv_def)
  have "sorted (map (dwHash \<circ> N) (ps @ a # qs))"
    using s assms(3,4) unfolding map_append list.map sorted_append by (auto simp: passed_def intro: less_imp_le)
  moreover have new: "\<not> EqualKeys M (node_key M (N a)) (node_key M (N x)) \<and> \<not> EqualKeys M (node_key M (N x)) (node_key M (N a))"
    if "x \<in> set (ps @ qs)" for x
    using that assms(3,4) hash_differs [OF assms(5), of a x] eq_sym by (auto simp: passed_def)
  have "\<forall>x\<in>set (ps @ a # qs). \<forall>y\<in>set (ps @ a # qs). x \<noteq> y \<longrightarrow>
      \<not> EqualKeys M (node_key M (N x)) (node_key M (N y))"
    using u new by simp
  ultimately show ?thesis using d assms(2) by (simp add: chain_inv_def)
qed

lemma passed_link:
  assumes "passed M N b (ps @ ms)" "ms \<noteq> []" "\<forall>x\<in>set ms. dwHash (N a) < dwHash (N x)" "hashed M N"
  shows "passed M N b (ps @ a # ms)"
proof -
  obtain m where m: "m \<in> set ms" using assms(2) by (cases ms) auto
  then have "dwHash (N a) < dwHash (N m)" "dwHash (N m) \<le> dwHash (N b)"
    using assms(1,3) by (auto simp: passed_def)
  then have lt: "dwHash (N a) < dwHash (N b)" by simp
  then show ?thesis using assms(1) hash_differs [OF assms(4) lt] by (auto simp: passed_def)
qed

text \<open>A thread elsewhere in the chain keeps its knowledge when \<open>a\<close> is linked in behind \<open>ps\<close>.\<close>

lemma where_link:
  assumes "ps @ qs = pb @ qb" "passed M N b pb" "\<forall>x\<in>set qs. dwHash (N a) < dwHash (N x)" "hashed M N"
  obtains pb' qb' where "ps @ a # qs = pb' @ qb'" "loc_after pb' = loc_after pb" "passed M N b pb'"
    "\<And>p. ahead N qb p \<Longrightarrow> ahead N qb' p"
proof -
  from assms(1) consider (l) ms where "ps = pb @ ms" "qb = ms @ qs" | (r) ms where "pb = ps @ ms" "qs = ms @ qb"
    by (auto simp: append_eq_append_conv2)
  then show thesis
  proof cases
    case l
    show thesis
      by (rule that [of pb "ms @ a # qs"]) (use l assms in \<open>auto intro: ahead_link\<close>)
  next
    case r
    show thesis
    proof (cases "ms = []")
      case True
      then show thesis using r assms ahead_link [of N qb _ "[]" qb a]
        by (intro that [of pb "a # qb"]) auto
    next
      case False
      have "passed M N b (ps @ a # ms)"
        by (rule passed_link) (use assms r False in auto)
      then show thesis using r False
        by (intro that [of "ps @ a # ms" qb]) (auto simp: loc_after_def)
    qed
  qed
qed

lemma thread_ok_link:
  assumes "thread_ok M N s (ps @ qs) b p" "b \<noteq> a" "\<forall>x\<in>set qs. dwHash (N a) < dwHash (N x)" "hashed M N"
    "b \<notin> set (ps @ qs) \<longrightarrow> pNext s' b = pNext s b"
  shows "thread_ok M N s' (ps @ a # qs) b p"
proof (cases p)
  case (Walk l cur)
  from assms(1) [unfolded Walk thread_ok.simps]
  obtain pb qb where w: "ps @ qs = pb @ qb" "l = loc_after pb" "passed M N b pb" "ahead N qb cur"
    "b \<notin> set (ps @ qs)" by blast
  from where_link [OF w(1,3) assms(3,4)] obtain pb' qb' where "ps @ a # qs = pb' @ qb'"
    "l = loc_after pb'" "passed M N b pb'" "ahead N qb' cur" using w(2,4) by metis
  moreover have "b \<notin> set (ps @ a # qs)" using w(5) assms(2) by simp
  ultimately show ?thesis unfolding Walk thread_ok.simps by blast
next
  case (Swap l cur)
  from assms(1) [unfolded Swap thread_ok.simps]
  obtain pb qb where w: "ps @ qs = pb @ qb" "l = loc_after pb" "passed M N b pb" "pNext s b = cur"
    "case cur of None \<Rightarrow> True | Some c \<Rightarrow> dwHash (N b) < dwHash (N c)" "b \<notin> set (ps @ qs)" by blast
  from where_link [OF w(1,3) assms(3,4)] obtain pb' qb' where "ps @ a # qs = pb' @ qb'"
    "l = loc_after pb'" "passed M N b pb'" using w(2) by metis
  moreover have "b \<notin> set (ps @ a # qs)" "pNext s' b = cur" using w(4,6) assms(2,5) by simp_all
  ultimately show ?thesis using w(5) unfolding Swap thread_ok.simps by blast
qed (use assms(1,2) in auto)

lemma conc_invI:
  assumes "path (pNext s') (bucket s') xs" "chain_inv M N xs"
    "\<And>b. b \<noteq> a \<Longrightarrow> thread_ok M N s' xs b (thread s b)" "thread_ok M N s' xs a pc"
    "thread s' = (thread s)(a := pc)"
  shows "conc_inv M N s' xs"
  using assms by (auto simp: conc_inv_def)

lemma ahead_first: "ahead N qs (first qs)"
  by (cases qs) (auto simp: ahead_def first_def intro: exI [of _ "[]"])

text \<open>A step that only moves thread \<open>a\<close> between private states.\<close>

lemma conc_inv_goto:
  assumes "conc_inv M N s xs" "thread_ok M N s xs a p"
  shows "conc_inv M N (goto a p s) xs"
  using assms by (auto simp: conc_inv_def intro: thread_ok_cong [THEN iffD1, of s _ "goto a p s"])

lemma conc_inv_items: "conc_inv M N (s\<lparr>items := n\<rparr>) xs \<longleftrightarrow> conc_inv M N s xs"
proof -
  have "thread_ok M N (s\<lparr>items := n\<rparr>) xs a p = thread_ok M N s xs a p" for a p by (rule thread_ok_cong) simp
  then show ?thesis by (simp add: conc_inv_def)
qed

lemma insert_step_inv:
  assumes "insert_step M N s s'" "conc_inv M N s xs" "hashed M N"
  shows "conc_inv M N s' xs \<or>
    (\<exists>a ps qs. xs = ps @ qs \<and> a \<notin> set xs \<and> conc_inv M N s' (ps @ a # qs) \<and>
       (\<exists>l p. thread s a = Swap l p) \<and> thread s' a = Linked)"
  using assms(1)
proof cases
  case (start a)
  have "thread_ok M N s xs a Begin" "path (pNext s) (bucket s) xs"
    using assms(2) start(2) by (metis conc_inv_def)+
  then have n: "a \<notin> set xs" "bucket s = first xs" using path_first by auto
  have "xs = [] @ xs" "Bucket = loc_after []" "passed M N a []"
    by (simp_all add: loc_after_def passed_def)
  then have "thread_ok M N s xs a (Walk Bucket (bucket s))"
    unfolding thread_ok.simps n(2) using n(1) ahead_first by blast
  then show ?thesis using conc_inv_goto [OF assms(2)] start(1) by blast
next
  case (found a l c)
  have t: "thread_ok M N s xs a (Walk l (Some c))" using assms(2) found(2) by (metis conc_inv_def)
  then have "c \<in> set xs" by (auto simp: ahead_def)
  then have "thread_ok M N s xs a AlreadyExists" using t found(4) by auto
  then show ?thesis using conc_inv_goto [OF assms(2)] found(1) by blast
next
  case (advance a l c)
  have t: "thread_ok M N s xs a (Walk l (Some c))" using assms(2) advance(2) by (metis conc_inv_def)
  then obtain ps us vs where w: "xs = ps @ us @ c # vs" "passed M N a ps"
    "\<forall>x\<in>set us. dwHash (N x) < dwHash (N c)" "a \<notin> set xs" by (auto simp: ahead_def)
  have "passed M N a (ps @ us @ [c])"
  proof -
    have "\<forall>x\<in>set us. dwHash (N x) < dwHash (N a)" using w(3) advance(3) by fastforce
    then show ?thesis using w(2) advance(3) hash_differs [OF assms(3)]
      by (auto simp: passed_def intro: less_imp_le)
  qed
  moreover have "pNext s c = first vs"
    using path_append [of "pNext s" "bucket s" "ps @ us @ [c]" vs] path_first [of "pNext s" _ vs] assms(2) w(1)
    by (simp add: conc_inv_def)
  moreover have "xs = (ps @ us @ [c]) @ vs" "NextOf c = loc_after (ps @ us @ [c])"
    using w(1) by (simp_all add: loc_after_def)
  ultimately have "thread_ok M N s xs a (Walk (NextOf c) (pNext s c))"
    using w(4) ahead_first [of N vs] unfolding thread_ok.simps by metis
  then show ?thesis using conc_inv_goto [OF assms(2)] advance(1) by blast
next
  case (stop a l p)
  let ?s = "s\<lparr>pNext := (pNext s)(a := p)\<rparr>"
  have t: "thread_ok M N s xs a (Walk l p)" using assms(2) stop(2) by (metis conc_inv_def)
  then have na: "a \<notin> set xs" by simp
  have "conc_inv M N (goto a (Swap l p) ?s) xs"
  proof (rule conc_invI [where a = a and pc = "Swap l p" and s = s])
    show "path (pNext (goto a (Swap l p) ?s)) (bucket (goto a (Swap l p) ?s)) xs" "chain_inv M N xs"
      using assms(2) na by (simp_all add: conc_inv_def)
    show "thread_ok M N (goto a (Swap l p) ?s) xs b (thread s b)" if "b \<noteq> a" for b
    proof -
      have "pNext s b = pNext (goto a (Swap l p) ?s) b" using that by simp
      moreover have "thread_ok M N s xs b (thread s b)" using assms(2) unfolding conc_inv_def by blast
      ultimately show ?thesis using thread_ok_cong by blast
    qed
    show "thread_ok M N (goto a (Swap l p) ?s) xs a (Swap l p)"
      using t stop(3) by auto
  qed (simp add: goto_def)
  then show ?thesis using stop(1) by blast
next
  case (swapped a l p)
  have t: "thread_ok M N s xs a (Swap l p)" using assms(2) swapped(2) by (metis conc_inv_def)
  then obtain ps qs where w: "xs = ps @ qs" "l = loc_after ps" "passed M N a ps" "a \<notin> set (ps @ qs)"
    "pNext s a = p" "case p of None \<Rightarrow> True | Some c \<Rightarrow> dwHash (N a) < dwHash (N c)"
    unfolding thread_ok.simps by blast
  have P: "path (pNext s) (bucket s) (ps @ qs)" and C: "chain_inv M N (ps @ qs)"
    using assms(2) w(1) by (simp_all add: conc_inv_def)
  have p: "p = first qs" using read_loc_after [OF P] swapped(3) w(2) by simp
  have above: "\<forall>x\<in>set qs. dwHash (N a) < dwHash (N x)"
    by (rule first_above [of N ps]) (use C w(6) p in \<open>simp_all add: chain_inv_def\<close>)
  let ?s = "write_loc l (Some a) s"
  have "conc_inv M N (goto a Linked ?s) (ps @ a # qs)"
  proof (rule conc_invI [where a = a and pc = Linked and s = s])
    show "path (pNext (goto a Linked ?s)) (bucket (goto a Linked ?s)) (ps @ a # qs)"
      using path_link [OF P w(4)] C w(2,5) p by (simp add: chain_inv_def)
    show "chain_inv M N (ps @ a # qs)" by (rule chain_inv_link [OF C w(4,3) above assms(3)])
    show "thread_ok M N (goto a Linked ?s) (ps @ a # qs) b (thread s b)" if "b \<noteq> a" for b
    proof (rule thread_ok_link [OF _ that above assms(3)])
      show "thread_ok M N s (ps @ qs) b (thread s b)" using assms(2) w(1) by (simp add: conc_inv_def)
      show "b \<notin> set (ps @ qs) \<longrightarrow> pNext (goto a Linked ?s) b = pNext s b"
        using w(2) by (auto simp: write_loc_def loc_after_def dest: last_in_set)
    qed
  qed (simp_all add: goto_def)
  then show ?thesis using swapped(1,2) w(1,4) by (intro disjI2 exI [of _ a] exI [of _ ps] exI [of _ qs]) auto
next
  case (retry a l p)
  have "thread_ok M N s xs a (Swap l p)" using assms(2) retry(2) by (metis conc_inv_def)
  then have "thread_ok M N s xs a Begin" by simp
  then show ?thesis using conc_inv_goto [OF assms(2)] retry(1) by blast
next
  case (count a)
  let ?s = "s\<lparr>items := items s + 1\<rparr>"
  have i: "conc_inv M N ?s xs" using assms(2) by (simp add: conc_inv_items)
  then have "thread_ok M N ?s xs a Linked" using count(2) unfolding conc_inv_def by (metis conc.select_convs(4) conc.surjective conc.update_convs(3))
  then have "conc_inv M N (goto a Finished ?s) xs" by (intro conc_inv_goto [OF i]) simp
  then show ?thesis using count(1) by blast
qed

text \<open>The nodes in the chain are those of the threads that have linked theirs.\<close>

lemma conc_inv_members: "conc_inv M N s xs \<Longrightarrow> set xs = {a. thread s a \<in> {Linked, Finished}}"
proof (rule set_eqI)
  fix a assume "conc_inv M N s xs"
  then have "thread_ok M N s xs a (thread s a)" by (simp add: conc_inv_def)
  then show "a \<in> set xs \<longleftrightarrow> a \<in> {a. thread s a \<in> {Linked, Finished}}" by (cases "thread s a") auto
qed

lemma finite_finished: "conc_inv M N s xs \<Longrightarrow> finite {a. thread s a = Finished}"
  by (rule finite_subset [of _ "set xs"]) (auto dest: conc_inv_members)

lemma insert_step_items:
  assumes "insert_step M N s s'" "finite {a. thread s a = Finished}"
  shows "items s' + of_nat (card {a. thread s a = Finished}) = items s + of_nat (card {a. thread s' a = Finished})"
proof -
  have keep: "{b. ((thread s)(a := p)) b = Finished} = {b. thread s b = Finished}"
    if "thread s a \<noteq> Finished" "p \<noteq> Finished" for a p using that by auto
  from assms(1) show ?thesis
  proof cases
    case (count a)
    have "{b. ((thread s)(a := Finished)) b = Finished} = insert a {b. thread s b = Finished}"
      by auto
    moreover have "a \<notin> {b. thread s b = Finished}" using count(2) by simp
    ultimately have "card {b. ((thread s)(a := Finished)) b = Finished} = Suc (card {b. thread s b = Finished})"
      using assms(2) by (metis card_insert_disjoint)
    then show ?thesis unfolding count(1) goto_simps by simp
  next
    case (start a)
    then show ?thesis using keep [of a "Walk Bucket (bucket s)"] unfolding start(1) goto_simps by simp
  next
    case (found a l c)
    then show ?thesis using keep [of a AlreadyExists] unfolding found(1) goto_simps by simp
  next
    case (advance a l c)
    then show ?thesis using keep [of a "Walk (NextOf c) (pNext s c)"] unfolding advance(1) goto_simps by simp
  next
    case (stop a l p)
    then show ?thesis using keep [of a "Swap l p"] unfolding stop(1) goto_simps by simp
  next
    case (swapped a l p)
    then show ?thesis using keep [of a Linked] unfolding swapped(1) goto_simps by simp
  next
    case (retry a l p)
    then show ?thesis using keep [of a Begin] unfolding retry(1) goto_simps by simp
  qed
qed

lemma count_trans:
  assumes "x2 + b = x1 + (c :: 'w :: ab_group_add)" "x1 + a = x + b"
  shows "x2 + a = x + c"
proof -
  have "x2 = x1 + c - b" "x1 = x + b - a" using assms by (simp_all add: eq_diff_eq)
  then show ?thesis by simp
qed

lemma insert_run_inv:
  assumes "insert_run M N s s'" "conc_inv M N s xs" "hashed M N"
  shows "\<exists>ys. conc_inv M N s' ys \<and> subseq xs ys \<and>
    items s' + of_nat (card {a. thread s a = Finished}) = items s + of_nat (card {a. thread s' a = Finished})"
  using assms
proof (induction rule: insert_run.induct)
  case (refl s)
  then show ?case by auto
next
  case (step s s' s'')
  then obtain ys where y: "conc_inv M N s' ys" "subseq xs ys"
    "items s' + of_nat (card {a. thread s a = Finished}) = items s + of_nat (card {a. thread s' a = Finished})" by blast
  have i: "items s'' + of_nat (card {a. thread s' a = Finished}) = items s' + of_nat (card {a. thread s'' a = Finished})"
    by (rule insert_step_items [OF step.hyps(2) finite_finished [OF y(1)]])
  from insert_step_inv [OF step.hyps(2) y(1) step.prems(2)] obtain zs where "conc_inv M N s'' zs" "subseq ys zs"
  proof (elim disjE exE conjE)
    assume "conc_inv M N s'' ys" then show thesis using that by blast
  next
    fix a ps qs assume "ys = ps @ qs" "conc_inv M N s'' (ps @ a # qs)"
    moreover have "subseq (ps @ qs) (ps @ a # qs)" unfolding subseq_append' by (rule list_emb_Cons) simp
    ultimately show thesis using that by blast
  qed
  moreover have "subseq xs zs" using y(2) \<open>subseq ys zs\<close> by (rule subseq_order.order_trans)
  moreover have "items s'' + of_nat (card {a. thread s a = Finished}) = items s + of_nat (card {a. thread s'' a = Finished})"
    by (rule count_trans [OF i y(3)])
  ultimately show ?case by blast
qed

end

end
