(* ===== verification/HashTableLive.thy ===== *)
theory HashTableLive
  imports HashTableConc
begin

text \<open>
  Progress of concurrent InsertRecord: finitely many threads \<open>T\<close> cannot run forever, and each of them that is
  not done has a step, so every execution of them ends with every thread done. The argument is a
  lexicographic measure: a compare-and-swap that succeeds leaves fewer threads to link; any other step
  keeps the chain and lowers the sum of the \<open>cost\<close>s, a bound on the steps a thread has left. A thread is
  behind when the pointer it read has been overwritten since; it may then have to retry once.
\<close>

definition unlinked :: "conc \<Rightarrow> nat set" where
  "unlinked s = {a. thread s a \<notin> {Linked, Finished, AlreadyExists}}"

definition busy :: "conc \<Rightarrow> nat set" where
  "busy s = {a. thread s a \<notin> {Finished, AlreadyExists}}"

text \<open>A step of one of the threads \<open>T\<close>.\<close>

definition step_of :: "('r, 'k) methods \<Rightarrow> (nat \<Rightarrow> 'r hash_node) \<Rightarrow> nat set \<Rightarrow> conc \<Rightarrow> conc \<Rightarrow> bool" where
  "step_of M N T s s' \<longleftrightarrow> insert_step M N s s' \<and> (\<forall>a. a \<notin> T \<longrightarrow> thread s' a = thread s a)"

definition position :: "nat list \<Rightarrow> location \<Rightarrow> nat" where
  "position xs l = (case l of Bucket \<Rightarrow> 0 | NextOf c \<Rightarrow> Suc (length (takeWhile (\<lambda>x. x \<noteq> c) xs)))"

definition late :: "conc \<Rightarrow> location \<Rightarrow> nat option \<Rightarrow> nat \<Rightarrow> nat" where
  "late s l p n = (if read_loc s l = p then 0 else n)"

fun cost :: "conc \<Rightarrow> nat list \<Rightarrow> thread_pc \<Rightarrow> nat" where
  "cost s xs Begin = length xs + 4"
| "cost s xs (Walk l p) = length xs - position xs l + 3 + late s l p (length xs + 5)"
| "cost s xs (Swap l p) = 2 + late s l p (length xs + 3)"
| "cost s xs Linked = 1"
| "cost s xs Finished = 0"
| "cost s xs AlreadyExists = 0"

lemma position_loc_after:
  assumes "distinct (ps @ qs)"
  shows "position (ps @ qs) (loc_after ps) = length ps"
proof (cases ps rule: rev_cases)
  case (snoc us c)
  have "takeWhile (\<lambda>x. x \<noteq> c) (us @ c # qs) = us"
    using assms snoc by (subst takeWhile_append2) auto
  then show ?thesis using snoc by (simp add: position_def loc_after_def)
qed (simp add: position_def loc_after_def)

lemma loc_after_inside: "loc_after ps = NextOf a \<Longrightarrow> a \<in> set ps"
  by (auto simp: loc_after_def split: if_splits)

text \<open>Whatever the state, a thread that is not done has a step.\<close>

lemma busy_step:
  assumes "a \<in> busy s"
  shows "\<exists>s' pc. insert_step M N s s' \<and> thread s' = (thread s)(a := pc)"
proof (cases "thread s a")
  case Begin
  then show ?thesis using insert_step.start [OF Begin] by (metis goto_simps(4))
next
  case (Walk l p)
  show ?thesis
  proof (cases "case p of None \<Rightarrow> True | Some c \<Rightarrow> dwHash (N c) > dwHash (N a)")
    case True
    from insert_step.stop [OF Walk this] show ?thesis by fastforce
  next
    case False
    then obtain c where c: "p = Some c" "\<not> dwHash (N a) < dwHash (N c)" by (cases p) auto
    then have "dwHash (N c) = dwHash (N a) \<or> dwHash (N c) < dwHash (N a)" by force
    then have "insert_step M N s (goto a AlreadyExists s) \<or> insert_step M N s (goto a (Walk (NextOf c) (pNext s c)) s)"
      using insert_step.found [of s a l c N M] insert_step.advance [of s a l c N M] Walk c(1) by blast
    then show ?thesis by (metis goto_simps(4))
  qed
next
  case (Swap l p)
  show ?thesis
  proof (cases "read_loc s l = p")
    case True
    from insert_step.swapped [OF Swap this] show ?thesis by fastforce
  next
    case False
    from insert_step.retry [OF Swap this] show ?thesis by (metis goto_simps(4))
  qed
next
  case Linked
  from insert_step.count [OF this] show ?thesis by fastforce
qed (use assms in \<open>simp_all add: busy_def\<close>)

lemma busy_moves:
  assumes "a \<in> busy s \<inter> T"
  shows "\<exists>s' pc. step_of M N T s s' \<and> thread s' = (thread s)(a := pc)"
proof -
  obtain s' pc where "insert_step M N s s'" "thread s' = (thread s)(a := pc)" using busy_step assms by blast
  then show ?thesis using assms by (intro exI [of _ s'] exI [of _ pc]) (auto simp: step_of_def)
qed

definition mover :: "(nat \<Rightarrow> 'r hash_node) \<Rightarrow> nat list \<Rightarrow> conc \<Rightarrow> conc \<Rightarrow> nat \<Rightarrow> bool" where
  "mover N xs s s' a \<longleftrightarrow> thread s' a \<noteq> thread s a \<and> cost s' xs (thread s' a) < cost s xs (thread s a) \<and>
     (\<forall>b. b \<noteq> a \<longrightarrow> thread s' b = thread s b \<and> cost s' xs (thread s b) = cost s xs (thread s b)) \<and>
     unlinked s' \<subseteq> unlinked s"

definition work :: "nat set \<Rightarrow> conc \<times> nat list \<Rightarrow> nat \<times> nat" where
  "work T = (\<lambda>(s, xs). (card (unlinked s \<inter> T), \<Sum>b\<in>T. cost s xs (thread s b)))"

context key_contract
begin

lemma walk_cost:
  assumes "conc_inv M N s xs" "thread_ok M N s xs a (Walk l (Some c))"
  shows "cost s xs (Walk (NextOf c) (pNext s c)) < cost s xs (Walk l (Some c))"
proof -
  have d: "distinct xs" using assms(1) by (simp add: conc_inv_def chain_inv_def)
  obtain ps us vs where w: "xs = ps @ us @ c # vs" "l = loc_after ps" using assms(2) by (auto simp: ahead_def)
  have "position xs l = length ps" using position_loc_after [of ps "us @ c # vs"] d w by simp
  moreover have "position xs (NextOf c) = length ps + length us + 1"
    using position_loc_after [of "ps @ us @ [c]" vs] d w(1) by (simp add: loc_after_def)
  ultimately show ?thesis using w(1) by (simp add: late_def read_loc_def)
qed

text \<open>A step that links nothing lowers the cost of the thread that takes it and leaves the others alone.\<close>

lemma read_elsewhere:
  assumes "thread_ok M N s xs b (thread s b)" "a \<notin> set xs" "thread s b = Walk l p \<or> thread s b = Swap l p"
  shows "read_loc (s\<lparr>pNext := (pNext s)(a := v)\<rparr>) l = read_loc s l"
proof -
  obtain ps qs where "xs = ps @ qs" "l = loc_after ps" using assms(1,3) by auto
  then have "l \<noteq> NextOf a" using assms(2) loc_after_inside by auto
  then show ?thesis by (auto simp: read_loc_def split: location.splits)
qed

lemma read_goto [simp]: "read_loc (goto a pc s) l = read_loc s l"
  by (simp add: read_loc_def cong: location.case_cong)

lemma goto_cost: "cost (goto a pc s) xs p = cost s xs p"
  by (cases p) (simp_all add: late_def read_loc_def cong: location.case_cong)

lemma items_cost: "cost (s\<lparr>items := n\<rparr>) xs p = cost s xs p"
  by (cases p) (simp_all add: late_def read_loc_def cong: location.case_cong)

lemma pNext_cost:
  assumes "thread_ok M N s xs b (thread s b)" "a \<notin> set xs"
  shows "cost (s\<lparr>pNext := (pNext s)(a := v)\<rparr>) xs (thread s b) = cost s xs (thread s b)"
  using read_elsewhere [OF assms] by (cases "thread s b") (simp_all add: late_def)

lemma other_step_cost:
  assumes "insert_step M N s s'" "conc_inv M N s xs" "\<And>a l p. thread s a = Swap l p \<Longrightarrow> thread s' a \<noteq> Linked"
  shows "\<exists>a. mover N xs s s' a"
proof -
  have ok: "thread_ok M N s xs b (thread s b)" for b using assms(2) by (simp add: conc_inv_def)
  have alone: "mover N xs s (goto a pc s) a" if "cost s xs pc < cost s xs (thread s a)" "a \<in> unlinked s" for a pc
    using that by (auto simp: mover_def goto_cost unlinked_def)
  from assms(1) show ?thesis
  proof cases
    case (start a)
    have "cost s xs (Walk Bucket (bucket s)) < cost s xs (thread s a)"
      using start by (simp add: position_def late_def read_loc_def)
    then have "mover N xs s s' a" using alone [where a = a and pc = "Walk Bucket (bucket s)"] start by (simp add: busy_def unlinked_def)
    then show ?thesis by blast
  next
    case (found a l c)
    then show ?thesis using alone [where a = a and pc = AlreadyExists] by (auto simp: busy_def unlinked_def)
  next
    case (advance a l c)
    have "cost s xs (Walk (NextOf c) (pNext s c)) < cost s xs (thread s a)"
      using walk_cost [OF assms(2)] ok [of a] unfolding advance(2) by blast
    then have "mover N xs s s' a"
      using alone [where a = a and pc = "Walk (NextOf c) (pNext s c)"] advance(1,2) by (simp add: unlinked_def)
    then show ?thesis by blast
  next
    case (stop a l p)
    let ?s = "s\<lparr>pNext := (pNext s)(a := p)\<rparr>"
    have na: "a \<notin> set xs" using ok [of a] stop by simp
    have "read_loc ?s l = read_loc s l" using read_elsewhere [OF ok na] stop by blast
    then have "cost (goto a (Swap l p) ?s) xs (Swap l p) < cost s xs (thread s a)"
      using stop by (simp add: goto_cost late_def)
    moreover have "cost (goto a (Swap l p) ?s) xs (thread s b) = cost s xs (thread s b)" for b
      using pNext_cost [OF ok na] by (simp add: goto_cost)
    ultimately have "mover N xs s s' a" using stop by (auto simp: mover_def busy_def unlinked_def)
    then show ?thesis by blast
  next
    case (swapped a l p)
    then show ?thesis using assms(3) [of a l p] by simp
  next
    case (retry a l p)
    then show ?thesis using alone [where a = a and pc = Begin] by (auto simp: busy_def unlinked_def late_def)
  next
    case (count a)
    have "mover N xs s s' a" using count by (auto simp: mover_def busy_def unlinked_def goto_cost items_cost)
    then show ?thesis by blast
  qed
qed

lemma step_works:
  assumes "step_of M N T s s'" "conc_inv M N s xs" "hashed M N" "finite T"
  shows "\<exists>xs'. conc_inv M N s' xs' \<and> (work T (s', xs'), work T (s, xs)) \<in> less_than <*lex*> less_than"
proof -
  have st: "insert_step M N s s'" and out: "\<And>a. thread s' a \<noteq> thread s a \<Longrightarrow> a \<in> T"
    using assms(1) by (auto simp: step_of_def)
  have fin: "finite (unlinked s \<inter> T)" using assms(4) by simp
  show ?thesis
  proof (cases "\<exists>a l p. thread s a = Swap l p \<and> thread s' a = Linked")
    case True
    then obtain a l p where a: "thread s a = Swap l p" "thread s' a = Linked" by blast
    from st have th: "thread s' = (thread s)(a := Linked)"
      by cases (use a in \<open>auto split: if_splits\<close>)
    have "unlinked s' \<inter> T = (unlinked s \<inter> T) - {a}" "a \<in> unlinked s \<inter> T" using a th out [of a] by (auto simp: unlinked_def)
    then have "card (unlinked s' \<inter> T) < card (unlinked s \<inter> T)" using fin card_Diff1_less by metis
    moreover obtain xs' where "conc_inv M N s' xs'" using insert_step_inv [OF st assms(2,3)] by blast
    ultimately show ?thesis by (auto simp: work_def)
  next
    case False
    then obtain a where a: "mover N xs s s' a" using other_step_cost [OF st assms(2)] by blast
    then have m: "a \<in> T" "cost s' xs (thread s' a) < cost s xs (thread s a)" "unlinked s' \<subseteq> unlinked s"
      "\<And>b. b \<noteq> a \<Longrightarrow> cost s' xs (thread s' b) = cost s xs (thread s b)"
      using out by (auto simp: mover_def)
    have "(\<Sum>b\<in>T. cost s' xs (thread s' b)) < (\<Sum>b\<in>T. cost s xs (thread s b))"
      using m by (intro sum_strict_mono_ex1 [OF assms(4)] ballI bexI [of _ a])
        (metis order.strict_implies_order order_refl, simp_all)
    moreover have "card (unlinked s' \<inter> T) \<le> card (unlinked s \<inter> T)" by (rule card_mono [OF fin]) (use m(3) in blast)
    moreover have "conc_inv M N s' xs" using insert_step_inv [OF st assms(2,3)] False by blast
    ultimately show ?thesis by (intro exI [of _ xs]) (auto simp: work_def)
  qed
qed

lemma no_infinite_run:
  assumes "conc_inv M N (fst sx) (snd sx)" "hashed M N" "finite T"
  shows "\<not> (\<exists>f. f 0 = fst sx \<and> (\<forall>i. step_of M N T (f i) (f (Suc i))))"
  using assms(1)
proof (induction "work T sx" arbitrary: sx rule: wf_induct_rule [OF wf_lex_prod [OF wf_less_than wf_less_than]])
  case (1 sx)
  show ?case
  proof (rule notI, elim exE conjE)
    fix f assume f: "f 0 = fst sx" "\<forall>i. step_of M N T (f i) (f (Suc i))"
    then have "step_of M N T (fst sx) (f 1)" by (metis One_nat_def)
    from step_works [OF this 1(2) assms(2,3)] obtain xs' where
      "conc_inv M N (f 1) xs'" "(work T (f 1, xs'), work T sx) \<in> less_than <*lex*> less_than" by auto
    from 1(1) [OF this(2)] this(1) show False
      using f(2) by (auto intro!: exI [of _ "\<lambda>i. f (Suc i)"])
  qed
qed

lemma run_finishes:
  assumes "conc_inv M N (fst sx) (snd sx)" "hashed M N" "finite T"
  shows "\<exists>s'. (step_of M N T)\<^sup>*\<^sup>* (fst sx) s' \<and> busy s' \<inter> T = {}"
  using assms(1)
proof (induction "work T sx" arbitrary: sx rule: wf_induct_rule [OF wf_lex_prod [OF wf_less_than wf_less_than]])
  case (1 sx)
  show ?case
  proof (cases "busy (fst sx) \<inter> T = {}")
    case False
    then obtain s' where st: "step_of M N T (fst sx) s'" using busy_moves by blast
    from step_works [OF st 1(2) assms(2,3)] obtain xs' where
      "conc_inv M N s' xs'" "(work T (s', xs'), work T sx) \<in> less_than <*lex*> less_than" by auto
    from 1(1) [OF this(2)] this(1) obtain s2 where "(step_of M N T)\<^sup>*\<^sup>* s' s2" "busy s2 \<inter> T = {}" by auto
    then show ?thesis using converse_rtranclp_into_rtranclp [where r = "step_of M N T", OF st] by blast
  qed blast
qed

end

end
