(* ===== verification/HashTableRuns.thy ===== *)
theory HashTableRuns
  imports HashTableFacts
begin

text \<open>
  The life of a HASH_TABLE: every state that the public operations can reach after a successful
  Initialize, together with the references FindKey has handed out (\<open>given\<close>). The accounts
  always balance: each record in the table carries one reference of the table's, each
  handed-out reference was taken once, and the heap holds one block per node and the array.
\<close>

inductive table_run ::
  "('r, 'k) methods \<Rightarrow> world \<Rightarrow> 'r hash_table \<Rightarrow> world \<Rightarrow> ('r \<Rightarrow> int) \<Rightarrow> bool" for M w0 where
  init: "Initialize lock_hr n (hash_table_ctor inited) w0 = (S_OK, t, w) \<Longrightarrow>
    table_run M w0 t w (\<lambda>_. 0)"
| findKey: "table_run M w0 t w given \<Longrightarrow> FindKey M key t = Some (Some r, t') \<Longrightarrow>
    table_run M w0 t' w (given(r := given r + 1))"
| miss: "table_run M w0 t w given \<Longrightarrow> FindKey M key t = Some (None, t') \<Longrightarrow> table_run M w0 t' w given"
| insert: "table_run M w0 t w given \<Longrightarrow> InsertRecord M r t w = Some (hr, t', w') \<Longrightarrow>
    table_run M w0 t' w' given"
| deleteKey: "table_run M w0 t w given \<Longrightarrow> DeleteKey M key t w = Some (t', w') \<Longrightarrow>
    table_run M w0 t' w' given"
| deleteIf: "table_run M w0 t w given \<Longrightarrow> DeleteIf f (c :: nat) t w = Some (t', c', w') \<Longrightarrow>
    table_run M w0 t' w' given"
| visit: "table_run M w0 t w given \<Longrightarrow> Apply f (c :: nat) t = Some (c', t') \<Longrightarrow> table_run M w0 t' w given"
| clear: "table_run M w0 t w given \<Longrightarrow> Clear t w = Some (t', w') \<Longrightarrow> table_run M w0 t' w' given"

definition accounts :: "world \<Rightarrow> 'r hash_table \<Rightarrow> world \<Rightarrow> ('r \<Rightarrow> int) \<Rightarrow> bool" where
  "accounts w0 t w given \<longleftrightarrow>
     (\<forall>r. balance r (calls t) = int (count (records t) (Some r)) + given r) \<and>
     heap_live w = heap_live w0 + int (size (records t)) + 1"

lemma accounts_iff:
  "ht_ok M t \<Longrightarrow> accounts w0 t w given \<longleftrightarrow>
     (\<forall>r. foreign_refs r t = given r) \<and> foreign_blocks t w = heap_live w0"
  by (auto simp: accounts_def foreign_refs_def foreign_blocks_def ht_ok_iff algebra_simps)

lemma accounts_keep:
  "ht_ok M t \<Longrightarrow> ht_ok M t' \<Longrightarrow> same_ledger t w t' w' \<Longrightarrow> accounts w0 t w given \<Longrightarrow> accounts w0 t' w' given"
  by (simp add: accounts_iff same_ledger_def)

lemma records_cong: "ppBuckets t' = ppBuckets t \<Longrightarrow> records t' = records t \<and> nodes t' = nodes t"
  by (simp add: records_def nodes_def)

context key_contract
begin

lemma table_run_ok: "table_run M w0 t w given \<Longrightarrow> ht_ok M t \<and> accounts w0 t w given"
proof (induction rule: table_run.induct)
  case (init lock_hr n inited t w)
  let ?c = "hash_table_ctor inited :: 'r hash_table"
  from Initialize_correct [where M = M and t = ?c and lock_hr = lock_hr and n = n and w = w0] init
  have ok: "ht_ok M t" "same_ledger ?c w0 t w" "records t = {#}"
    by (auto simp: hash_table_ctor_def FAILED_not_S_OK split: if_splits)
  moreover have "foreign_refs r ?c = 0" "foreign_blocks ?c w0 = heap_live w0" for r
    by (simp_all add: hash_table_ctor_def foreign_refs_def foreign_blocks_def records_def nodes_def)
  ultimately show ?case by (simp add: accounts_iff [OF ok(1)] same_ledger_def)
next
  case (findKey t w given key r t')
  from FindKey_correct [OF findKey.IH [THEN conjunct1], of key] findKey.hyps(2)
  have "ht_ok M t'" "ppBuckets t' = ppBuckets t" "calls t' = calls t @ [SharedAcquire, ReferenceRecord r, SharedRelease]"
    by auto
  then show ?case using findKey.IH records_cong [of t' t] by (auto simp: accounts_def)
next
  case (miss t w given key t')
  from FindKey_correct [OF miss.IH [THEN conjunct1], of key] miss.hyps(2)
  have "ht_ok M t'" "ppBuckets t' = ppBuckets t" "calls t' = calls t @ [SharedAcquire, SharedRelease]"
    by auto
  then show ?case using miss.IH records_cong [of t' t] by (auto simp: accounts_def)
next
  case (insert t w given r hr t' w')
  from InsertRecord_correct [OF insert.IH [THEN conjunct1], of r w] insert.hyps(2)
  have "ht_ok M t'" "same_ledger t w t' w'" by auto
  then show ?case using insert.IH accounts_keep by blast
next
  case (deleteKey t w given key t' w')
  from DeleteKey_correct [OF deleteKey.IH [THEN conjunct1], of key w] deleteKey.hyps(2)
  have "ht_ok M t'" "same_ledger t w t' w'" by auto
  then show ?case using deleteKey.IH accounts_keep by blast
next
  case (deleteIf t w given f c t' c' w')
  obtain k d c1 where "keep_if f (concat (the (ppBuckets t))) c = (k, d, c1)" by (metis prod.exhaust)
  from DeleteIf_correct [OF deleteIf.IH [THEN conjunct1] this, of w] deleteIf.hyps(2)
  have "ht_ok M t'" "same_ledger t w t' w'" by auto
  then show ?case using deleteIf.IH accounts_keep by blast
next
  case (visit t w given f c c' t')
  have ok: "ht_ok M t" using visit.IH by simp
  from Apply_correct [OF ok, of f c] visit.hyps(2) have t': "t' = emit [SharedAcquire, SharedRelease] t" by auto
  have "ht_ok M t'" using ok unfolding t' ht_ok_iff by (simp add: lock_run_append)
  then show ?case using visit.IH by (auto simp: accounts_def t')
next
  case (clear t w given t' w')
  from Clear_correct [OF clear.IH [THEN conjunct1], of w] clear.hyps(2)
  have "ht_ok M t'" "same_ledger t w t' w'" by auto
  then show ?case using clear.IH accounts_keep by blast
qed

end

end
