(* ===== verification/RwLock.thy ===== *)
theory RwLock
  imports Win32
begin

text \<open>
  \<open>rwlock.h\<close>: the reader/writer lock CWSDRWLock. The Vista version wraps SRWLOCK; the XP version
  is built from a critical section, an interlocked counter and an auto-reset event, and is
  modelled here as a transition system: each thread has a program counter, and a step is one
  access to the shared lock (an interlocked operation, a field write, entering or leaving the
  critical section, waiting for or setting the event).
\<close>

section \<open>Set-up and tear-down\<close>

record rw_lock =
  m_bInited :: bool
  fWriterWaiting :: bool
  LockCount :: int
  critsec :: "nat option"   \<comment> \<open>the owning thread\<close>
  ReadersDoneEvent :: bool  \<comment> \<open>signalled\<close>

definition CWSDRWLock_ctor :: "rw_lock \<Rightarrow> rw_lock" where
  "CWSDRWLock_ctor l = l\<lparr>m_bInited := False\<rparr>"

definition QueryInited :: "rw_lock \<Rightarrow> bool" where
  "QueryInited l = m_bInited l"

text \<open>\<open>cs_error\<close> and \<open>event_error\<close> are the Win32 errors with which
  InitializeCriticalSectionAndSpinCount and CreateEvent fail, if they do. The last component
  lists the kernel objects created and released.\<close>

datatype lock_object = InitCS | DeleteCS | OpenEvent | CloseEvent

definition Init :: "nat option \<Rightarrow> nat option \<Rightarrow> rw_lock \<Rightarrow> HRESULT \<times> rw_lock \<times> lock_object list" where
  "Init cs_error event_error l =
     (if m_bInited l then (S_OK, l, [])
      else
        (let l1 = l\<lparr>fWriterWaiting := False, LockCount := 0\<rparr>
         in case cs_error of
              Some e \<Rightarrow> (HRESULT_FROM_WIN32 e, l1, [])
            | None \<Rightarrow>
                (let l2 = l1\<lparr>critsec := None\<rparr>
                 in case event_error of
                      Some e \<Rightarrow> (HRESULT_FROM_WIN32 e, l2, [InitCS, DeleteCS])
                    | None \<Rightarrow> (S_OK, l2\<lparr>ReadersDoneEvent := False, m_bInited := True\<rparr>, [InitCS, OpenEvent]))))"

definition CWSDRWLock_dtor :: "rw_lock \<Rightarrow> lock_object list" where
  "CWSDRWLock_dtor l = (if m_bInited l then [DeleteCS, CloseEvent] else [])"

section \<open>Threads\<close>

datatype lock_pc =
    Idle
  | S_Entered | S_Counted | Reading          \<comment> \<open>SharedAcquire\<close>
  | X_Entered | X_Flagged | X_Waiting | X_Granted | Writing  \<comment> \<open>ExclusiveAcquire\<close>
  | Released int | Signalling                \<comment> \<open>ReleaseRWLock, with its local Count\<close>
  | W_Zero | W_Flag | W_Leave

record lock_state =
  lock :: rw_lock
  pc :: "nat \<Rightarrow> lock_pc"

definition moves :: "nat \<Rightarrow> lock_pc \<Rightarrow> (rw_lock \<Rightarrow> rw_lock) \<Rightarrow> lock_state \<Rightarrow> lock_state" where
  "moves t p f s = s\<lparr>lock := f (lock s), pc := (pc s)(t := p)\<rparr>"

text \<open>A thread's number stands for its identifier, which is a DWORD and a multiple of four.\<close>

definition lock_threads :: nat where
  "lock_threads = 1073741824"

text \<open>One step of thread \<open>t\<close>: its program counter and the lock determine it; \<open>None\<close> when it has to
  wait. \<open>exclusive\<close> is what an idle thread wants.\<close>

fun thread_step :: "bool \<Rightarrow> nat \<Rightarrow> lock_pc \<Rightarrow> lock_state \<Rightarrow> lock_state option" where
  "thread_step exclusive t Idle s =
     (if critsec (lock s) = None
      then Some (moves t (if exclusive then X_Entered else S_Entered) (\<lambda>l. l\<lparr>critsec := Some t\<rparr>) s)
      else None)"
| "thread_step _ t S_Entered s = Some (moves t S_Counted (\<lambda>l. l\<lparr>LockCount := long_incr (LockCount l)\<rparr>) s)"
| "thread_step _ t S_Counted s = Some (moves t Reading (\<lambda>l. l\<lparr>critsec := None\<rparr>) s)"
| "thread_step _ t Reading s =
     Some (moves t (Released (long_decr (LockCount (lock s)))) (\<lambda>l. l\<lparr>LockCount := long_decr (LockCount l)\<rparr>) s)"
| "thread_step _ t X_Entered s = Some (moves t X_Flagged (\<lambda>l. l\<lparr>fWriterWaiting := True\<rparr>) s)"
| "thread_step _ t X_Flagged s =
     Some (moves t (if LockCount (lock s) > 0 then X_Waiting else X_Granted) id s)"
| "thread_step _ t X_Waiting s =
     (if ReadersDoneEvent (lock s)
      then Some (moves t X_Granted (\<lambda>l. l\<lparr>ReadersDoneEvent := False\<rparr>) s) else None)"
| "thread_step _ t X_Granted s = Some (moves t Writing (\<lambda>l. l\<lparr>LockCount := - 1\<rparr>) s)"
| "thread_step _ t Writing s =
     Some (moves t (Released (long_decr (LockCount (lock s)))) (\<lambda>l. l\<lparr>LockCount := long_decr (LockCount l)\<rparr>) s)"
| "thread_step _ t (Released Count) s =
     (if 0 \<le> Count
      then Some (moves t (if fWriterWaiting (lock s) \<and> Count = 0 then Signalling else Idle) id s)
      else Some (moves t W_Zero id s))"
| "thread_step _ t Signalling s = Some (moves t Idle (\<lambda>l. l\<lparr>ReadersDoneEvent := True\<rparr>) s)"
| "thread_step _ t W_Zero s = Some (moves t W_Flag (\<lambda>l. l\<lparr>LockCount := 0\<rparr>) s)"
| "thread_step _ t W_Flag s = Some (moves t W_Leave (\<lambda>l. l\<lparr>fWriterWaiting := False\<rparr>) s)"
| "thread_step _ t W_Leave s = Some (moves t Idle (\<lambda>l. l\<lparr>critsec := None\<rparr>) s)"

text \<open>A schedule says which thread moves next, and what it asks for when it is idle.\<close>

fun schedule_run :: "(nat \<times> bool) list \<Rightarrow> lock_state \<Rightarrow> lock_state option" where
  "schedule_run [] s = Some s"
| "schedule_run ((t, x) # sched) s =
     (if t < lock_threads
      then case thread_step x t (pc s t) s of Some s' \<Rightarrow> schedule_run sched s' | None \<Rightarrow> None
      else None)"

text \<open>The lock after Init, all threads idle.\<close>

definition lock_start :: lock_state where
  "lock_start = \<lparr>lock = \<lparr>m_bInited = True, fWriterWaiting = False, LockCount = 0, critsec = None,
     ReadersDoneEvent = False\<rparr>, pc = (\<lambda>_. Idle)\<rparr>"

inductive lock_reach :: "lock_state \<Rightarrow> bool" where
  start: "lock_reach lock_start"
| step: "lock_reach s \<Longrightarrow> t < lock_threads \<Longrightarrow> thread_step x t (pc s t) s = Some s' \<Longrightarrow> lock_reach s'"

lemma schedule_run_reach: "lock_reach s \<Longrightarrow> schedule_run sched s = Some s' \<Longrightarrow> lock_reach s'"
proof (induction sched arbitrary: s)
  case (Cons a sched)
  then show ?case by (cases a) (auto split: option.splits if_splits intro: lock_reach.step)
qed simp

section \<open>The two windows\<close>

text \<open>Between its decrement and SetEvent a releasing reader acts on what it saw before, and so does
  a writer between setting the flag and reading the counter.\<close>

fun window :: "lock_pc \<Rightarrow> bool" where
  "window (Released c) \<longleftrightarrow> 0 \<le> c"
| "window Signalling \<longleftrightarrow> True"
| "window X_Flagged \<longleftrightarrow> True"
| "window _ \<longleftrightarrow> False"

text \<open>Runs in which no other thread moves inside a window.\<close>

inductive calm_reach :: "lock_state \<Rightarrow> bool" where
  start: "calm_reach lock_start"
| step: "calm_reach s \<Longrightarrow> t < lock_threads \<Longrightarrow> thread_step x t (pc s t) s = Some s' \<Longrightarrow> \<forall>u. window (pc s u) \<longrightarrow> u = t \<Longrightarrow>
    calm_reach s'"

text \<open>Threads inside the critical section, and threads counted as readers.\<close>

fun inside :: "lock_pc \<Rightarrow> bool" where
  "inside Idle \<longleftrightarrow> False" | "inside Reading \<longleftrightarrow> False" | "inside Signalling \<longleftrightarrow> False"
| "inside (Released c) \<longleftrightarrow> c < 0"
| "inside _ \<longleftrightarrow> True"

definition readers :: "lock_state \<Rightarrow> nat set" where
  "readers s = {t. pc s t \<in> {S_Counted, Reading}}"

text \<open>What the lock looks like from a thread at each point.\<close>

fun granted :: "lock_pc \<Rightarrow> bool" where
  "granted X_Granted \<longleftrightarrow> True" | "granted Writing \<longleftrightarrow> True" | "granted W_Zero \<longleftrightarrow> True"
| "granted W_Flag \<longleftrightarrow> True" | "granted (Released c) \<longleftrightarrow> c < 0" | "granted _ \<longleftrightarrow> False"

fun view :: "lock_pc \<Rightarrow> lock_state \<Rightarrow> bool" where
  "view X_Flagged s \<longleftrightarrow> fWriterWaiting (lock s)"
| "view X_Waiting s \<longleftrightarrow> fWriterWaiting (lock s)"
| "view X_Granted s \<longleftrightarrow> fWriterWaiting (lock s) \<and> readers s = {}"
| "view Writing s \<longleftrightarrow> fWriterWaiting (lock s) \<and> readers s = {} \<and> LockCount (lock s) = - 1"
| "view (Released c) s \<longleftrightarrow> (if 0 \<le> c then c = LockCount (lock s) \<and> (\<forall>u. \<not> granted (pc s u))
     else c = - 2 \<and> fWriterWaiting (lock s) \<and> readers s = {} \<and> LockCount (lock s) = - 2)"
| "view Signalling s \<longleftrightarrow> LockCount (lock s) = 0 \<and> (\<exists>u. pc s u = X_Waiting)"
| "view W_Zero s \<longleftrightarrow> fWriterWaiting (lock s) \<and> readers s = {} \<and> LockCount (lock s) = - 2"
| "view W_Flag s \<longleftrightarrow> fWriterWaiting (lock s) \<and> readers s = {} \<and> LockCount (lock s) = 0"
| "view W_Leave s \<longleftrightarrow> \<not> fWriterWaiting (lock s)"
| "view S_Entered s \<longleftrightarrow> \<not> fWriterWaiting (lock s)"
| "view S_Counted s \<longleftrightarrow> \<not> fWriterWaiting (lock s)"
| "view X_Entered s \<longleftrightarrow> \<not> fWriterWaiting (lock s)"
| "view _ s \<longleftrightarrow> True"

definition lock_inv :: "lock_state \<Rightarrow> bool" where
  "lock_inv s \<longleftrightarrow>
     (\<forall>t. inside (pc s t) \<longleftrightarrow> critsec (lock s) = Some t) \<and>
     finite (readers s) \<and>
     ((\<forall>t. pc s t \<noteq> Writing \<and> pc s t \<noteq> W_Zero \<and> (\<forall>c<0. pc s t \<noteq> Released c)) \<longrightarrow>
        LockCount (lock s) = int (card (readers s))) \<and>
     (ReadersDoneEvent (lock s) \<longrightarrow> (\<exists>t. pc s t = X_Waiting) \<and> LockCount (lock s) = 0) \<and>
     (critsec (lock s) = None \<longrightarrow> \<not> fWriterWaiting (lock s)) \<and>
     (\<forall>t u. window (pc s t) \<and> window (pc s u) \<longrightarrow> t = u) \<and>
     (\<forall>t. view (pc s t) s) \<and> readers s \<subseteq> {..<lock_threads}"


lemma moves_simps [simp]:
  "lock (moves t p f s) = f (lock s)" "pc (moves t p f s) = (pc s)(t := p)"
  by (simp_all add: moves_def)

lemma readers_moves:
  "readers (moves t p f s) = (if p \<in> {S_Counted, Reading} then insert t (readers s) else readers s - {t})"
  by (auto simp: readers_def)

lemma inv_D:
  assumes "lock_inv s"
  shows "inside (pc s t) \<longleftrightarrow> critsec (lock s) = Some t" "finite (readers s)"
    "(\<forall>t. pc s t \<noteq> Writing \<and> pc s t \<noteq> W_Zero \<and> (\<forall>c<0. pc s t \<noteq> Released c)) \<Longrightarrow>
        LockCount (lock s) = int (card (readers s))"
    "ReadersDoneEvent (lock s) \<Longrightarrow> \<exists>t. pc s t = X_Waiting" "ReadersDoneEvent (lock s) \<Longrightarrow> LockCount (lock s) = 0"
    "critsec (lock s) = None \<Longrightarrow> \<not> fWriterWaiting (lock s)"
    "window (pc s t) \<Longrightarrow> window (pc s u) \<Longrightarrow> t = u" "view (pc s t) s"
    "readers s \<subseteq> {..<lock_threads}"
  using assms unfolding lock_inv_def by blast+

lemma granted_inside: "granted p \<Longrightarrow> inside p"
  by (cases p) auto

lemma inside_unique: "lock_inv s \<Longrightarrow> inside (pc s t) \<Longrightarrow> inside (pc s u) \<Longrightarrow> t = u"
  using inv_D(1) by (metis option.inject)

lemma lock_inv_start: "lock_inv lock_start"
  by (simp add: lock_inv_def lock_start_def readers_def)

lemma granted_readers: "lock_inv s \<Longrightarrow> granted (pc s u) \<Longrightarrow> readers s = {}"
  using inv_D(8) [of s u] by (cases "pc s u") auto

lemma count_readers:
  assumes "lock_inv s" "\<forall>u. \<not> granted (pc s u)"
  shows "LockCount (lock s) = int (card (readers s))"
proof (rule inv_D(3) [OF assms(1)], intro allI conjI impI)
  fix u show "pc s u \<noteq> Writing" "pc s u \<noteq> W_Zero" using assms(2) [THEN spec, of u] by auto
next
  fix u c assume "c < (0 :: int)" then show "pc s u \<noteq> Released c" using assms(2) [THEN spec, of u] by auto
qed

lemma reading_count:
  assumes "lock_inv s" "t \<in> readers s"
  shows "\<forall>u. \<not> granted (pc s u)" "LockCount (lock s) = int (card (readers s))" "0 < LockCount (lock s)"
proof -
  show g: "\<forall>u. \<not> granted (pc s u)" using granted_readers [OF assms(1)] assms(2) by blast
  show c: "LockCount (lock s) = int (card (readers s))" by (rule count_readers [OF assms(1) g])
  show "0 < LockCount (lock s)" using c assms(2) inv_D(2) [OF assms(1)] card_gt_0_iff by fastforce
qed

lemma holder_count:
  assumes "lock_inv s" "inside (pc s w)" "\<not> granted (pc s w)"
  shows "\<forall>u. \<not> granted (pc s u)" "LockCount (lock s) = int (card (readers s))"
proof -
  show g: "\<forall>u. \<not> granted (pc s u)"
    using inside_unique [OF assms(1,2)] granted_inside assms(3) by metis
  show "LockCount (lock s) = int (card (readers s))" by (rule count_readers [OF assms(1) g])
qed

text \<open>There are too few threads for the counter to wrap.\<close>

lemma long_small [simp]: "x \<le> 1073741824 \<Longrightarrow> long_incr x = x + 1" "- 2 \<le> x \<Longrightarrow> long_decr x = x - 1"
  by (simp_all add: long_incr_def long_decr_def)

lemma count_range:
  assumes "lock_inv s"
  shows "- 2 \<le> LockCount (lock s)" "LockCount (lock s) \<le> 1073741824"
proof -
  have c: "card (readers s) \<le> lock_threads" using card_mono [OF _ inv_D(9) [OF assms]] by simp
  have "- 2 \<le> LockCount (lock s) \<and> LockCount (lock s) \<le> 1073741824"
  proof (cases "\<exists>u. granted (pc s u) \<and> pc s u \<noteq> X_Granted")
    case True
    then obtain u where u: "granted (pc s u)" "pc s u \<noteq> X_Granted" by blast
    then show ?thesis using inv_D(8) [OF assms, of u] by (cases "pc s u") auto
  next
    case False
    have "LockCount (lock s) = int (card (readers s))"
    proof (rule inv_D(3) [OF assms], intro allI)
      fix u show "pc s u \<noteq> Writing \<and> pc s u \<noteq> W_Zero \<and> (\<forall>c<0. pc s u \<noteq> Released c)"
        using False by (cases "pc s u") (metis granted.simps lock_pc.distinct lock_pc.simps)+
    qed
    then show ?thesis using c by (simp add: lock_threads_def)
  qed
  then show "- 2 \<le> LockCount (lock s)" "LockCount (lock s) \<le> 1073741824" by simp_all
qed

lemma step_small:
  assumes "lock_inv s" "thread_step x t (pc s t) s = Some s'" "t < lock_threads"
  shows "readers s' \<subseteq> {..<lock_threads}"
  using assms(2,3) inv_D(9) [OF assms(1)] by (cases "pc s t") (auto simp: readers_moves split: if_splits)

lemma step_inside:
  assumes "lock_inv s" "thread_step x t (pc s t) s = Some s'"
  shows "inside (pc s' u) \<longleftrightarrow> critsec (lock s') = Some u"
  using assms(2) count_range [OF assms(1)] inv_D(1) [OF assms(1), of t] inv_D(1) [OF assms(1), of u] inv_D(8) [OF assms(1), of t]
    reading_count(3) [OF assms(1), of t]
  by (cases "pc s t") (auto simp: readers_def split: if_splits)

lemma step_finite:
  assumes "lock_inv s" "thread_step x t (pc s t) s = Some s'"
  shows "finite (readers s')"
  using assms(2) count_range [OF assms(1)] inv_D(2) [OF assms(1)]
  by (cases "pc s t") (auto simp: readers_moves split: if_splits)

lemma step_window:
  assumes "lock_inv s" "thread_step x t (pc s t) s = Some s'" "\<forall>u. window (pc s u) \<longrightarrow> u = t"
  shows "window (pc s' u) \<Longrightarrow> window (pc s' v) \<Longrightarrow> u = v"
  using assms(2) count_range [OF assms(1)] assms(3) [THEN spec, of u] assms(3) [THEN spec, of v]
  by (cases "pc s t") (auto split: if_splits)

lemma step_flag:
  assumes "lock_inv s" "thread_step x t (pc s t) s = Some s'"
  shows "critsec (lock s') = None \<Longrightarrow> \<not> fWriterWaiting (lock s')"
  using assms(2) count_range [OF assms(1)] inv_D(1) [OF assms(1), of t] inv_D(6) [OF assms(1)] inv_D(8) [OF assms(1), of t]
  by (cases "pc s t") (auto split: if_splits)

lemma step_event:
  assumes "lock_inv s" "thread_step x t (pc s t) s = Some s'"
  shows "ReadersDoneEvent (lock s') \<Longrightarrow> (\<exists>t. pc s' t = X_Waiting) \<and> LockCount (lock s') = 0"
proof -
  assume e: "ReadersDoneEvent (lock s')"
  note I = inv_D [OF assms(1)]
  show ?thesis
  proof (cases "ReadersDoneEvent (lock s)")
    case True
    then obtain w where w: "pc s w = X_Waiting" using I(4) by blast
    have "pc s t \<noteq> X_Waiting" using assms(2) count_range [OF assms(1)] e True by auto
    then have "w \<noteq> t" using w by auto
    then have ni: "\<not> inside (pc s t)" using inside_unique [OF assms(1), of w t] w by auto
    have "critsec (lock s) \<noteq> None" using I(1) [of w] w by simp
    moreover have "t \<notin> readers s" using reading_count(3) [OF assms(1), of t] I(5) [OF True] by auto
    ultimately show ?thesis using assms(2) count_range [OF assms(1)] e w \<open>w \<noteq> t\<close> I(5) [OF True] ni
      by (cases "pc s t") (auto simp: readers_def split: if_splits intro!: exI [of _ w])
  next
    case False
    then have "pc s t = Signalling" using assms(2) count_range [OF assms(1)] e by (cases "pc s t") (auto split: if_splits)
    moreover from this obtain u where "pc s u = X_Waiting" "LockCount (lock s) = 0" using I(8) [of t] by auto
    moreover from calculation have "u \<noteq> t" by auto
    ultimately show ?thesis using assms(2) count_range [OF assms(1)] by (auto intro!: exI [of _ u])
  qed
qed


lemma step_count:
  assumes "lock_inv s" "thread_step x t (pc s t) s = Some s'"
    "\<forall>t. pc s' t \<noteq> Writing \<and> pc s' t \<noteq> W_Zero \<and> (\<forall>c<0. pc s' t \<noteq> Released c)"
  shows "LockCount (lock s') = int (card (readers s'))"
proof -
  note I = inv_D [OF assms(1)]
  have keep: "readers s - {t} = readers s" if "pc s t \<notin> {S_Counted, Reading}"
    using that by (auto simp: readers_def)
  have other: "pc s' u = pc s u" if "u \<noteq> t" for u
    using assms(2) count_range [OF assms(1)] that by (cases "pc s t") (auto split: if_splits)
  have old: "LockCount (lock s) = int (card (readers s))"
    if "pc s t \<noteq> Writing" "pc s t \<noteq> W_Zero" "\<forall>c<0. pc s t \<noteq> Released c"
  proof (rule I(3), rule allI)
    fix u show "pc s u \<noteq> Writing \<and> pc s u \<noteq> W_Zero \<and> (\<forall>c<0. pc s u \<noteq> Released c)"
      using that assms(3) [THEN spec, of u] other [of u] by (cases "u = t") simp_all
  qed
  show ?thesis
  proof (cases "pc s t")
    case Reading
    have "t \<in> readers s" using Reading by (simp add: readers_def)
    moreover from this have "0 < card (readers s)" using I(2) by (auto simp: card_gt_0_iff)
    ultimately show ?thesis using Reading assms(2) old by (auto simp: readers_moves card_Diff_singleton)
  next
    case S_Entered
    then have "t \<notin> readers s" by (simp add: readers_def)
    then show ?thesis using S_Entered assms(2) count_range [OF assms(1)] old I(2) by (auto simp: readers_moves)
  next
    case S_Counted
    then have "insert t (readers s) = readers s" by (auto simp: readers_def)
    then show ?thesis using S_Counted assms(2) old by (auto simp: readers_moves)
  next
    case Writing
    then show ?thesis using assms(2) count_range [OF assms(1)] assms(3) [THEN spec, of t] I(8) [of t]
      by (auto dest!: spec [of _ "- 2 :: int"])
  next
    case (Released c)
    then have "readers s - {t} = readers s" by (auto simp: readers_def)
    then show ?thesis using Released assms(2) assms(3) [THEN spec, of t] old
      by (auto simp: readers_moves split: if_splits)
  next
    case W_Zero
    then show ?thesis using assms(2) count_range [OF assms(1)] I(8) [of t] by (auto simp: readers_moves)
  next
    case X_Granted
    then show ?thesis using assms(2) count_range [OF assms(1)] assms(3) [THEN spec, of t] by auto
  qed (use assms(2) count_range [OF assms(1)] old in \<open>auto simp: readers_moves keep split: if_splits\<close>)
qed

lemma step_view_self:
  assumes "lock_inv s" "thread_step x t (pc s t) s = Some s'" "\<forall>u. window (pc s u) \<longrightarrow> u = t"
  shows "view (pc s' t) s'"
proof -
  note I = inv_D [OF assms(1)]
  show ?thesis
  proof (cases "pc s t")
    case (Released c)
    show ?thesis
    proof (cases "0 \<le> c \<and> fWriterWaiting (lock s) \<and> c = 0")
      case True
      then obtain u where u: "critsec (lock s) = Some u" using I(6) by (cases "critsec (lock s)") auto
      then have "inside (pc s u)" using I(1) by simp
      moreover have "u \<noteq> t" using u I(1) [of t] Released True by auto
      moreover have "\<not> granted (pc s u)" using I(8) [of t] Released True by auto
      moreover have "\<not> window (pc s u)" using assms(3) \<open>u \<noteq> t\<close> by blast
      ultimately have "pc s u = X_Waiting" using I(8) [of u] True by (cases "pc s u") auto
      then show ?thesis using Released True assms(2) I(8) [of t] \<open>u \<noteq> t\<close> by (auto intro!: exI [of _ u])
    next
      case False
      then show ?thesis using Released assms(2) I(8) [of t] by (auto simp: readers_moves split: if_splits)
    qed
  next
    case Reading
    then have "t \<in> readers s" by (simp add: readers_def)
    from reading_count [OF assms(1) this] show ?thesis using Reading assms(2) by auto
  next
    case X_Flagged
    then show ?thesis using assms(2) count_range [OF assms(1)] I(8) [of t] holder_count [OF assms(1), of t] I(2)
      by (auto simp: readers_moves split: if_splits)
  next
    case X_Waiting
    then show ?thesis using assms(2) count_range [OF assms(1)] I(8) [of t] I(5) holder_count [OF assms(1), of t] I(2)
      by (auto simp: readers_moves split: if_splits)
  qed (use assms(2) count_range [OF assms(1)] I(6) I(8) [of t] in \<open>auto simp: readers_moves split: if_splits\<close>)
qed

lemma step_view_other:
  assumes "lock_inv s" "thread_step x t (pc s t) s = Some s'" "\<forall>u. window (pc s u) \<longrightarrow> u = t" "u \<noteq> t"
  shows "view (pc s' u) s'"
proof -
  have n: "\<not> window (pc s u)" using assms(3,4) by blast
  have i: "inside (pc s t) \<Longrightarrow> \<not> inside (pc s u)" using inside_unique [OF assms(1)] assms(4) by blast
  have g: "granted (pc s u) \<Longrightarrow> t \<notin> readers s" using granted_readers [OF assms(1)] by blast
  have e: "pc s' u = pc s u" using assms(2,4) by (cases "pc s t") (auto split: if_splits)
  have c: "inside (pc s u) \<Longrightarrow> critsec (lock s) = Some u" using inv_D(1) [OF assms(1)] by simp
  show ?thesis
    unfolding e using assms(2) count_range [OF assms(1)] n i g c inv_D(8) [OF assms(1), of u] inv_D(8) [OF assms(1), of t]
    by (cases "pc s u"; cases "pc s t") (auto simp: readers_moves readers_def split: if_splits)
qed

lemma calm_step_inv:
  assumes "lock_inv s" "thread_step x t (pc s t) s = Some s'" "\<forall>u. window (pc s u) \<longrightarrow> u = t" "t < lock_threads"
  shows "lock_inv s'"
  unfolding lock_inv_def
proof (intro conjI)
  show "\<forall>t. inside (pc s' t) \<longleftrightarrow> critsec (lock s') = Some t" using step_inside [OF assms(1,2)] by blast
  show "\<forall>u. view (pc s' u) s'"
  proof
    fix u show "view (pc s' u) s'"
      using step_view_self [OF assms(1-3)] step_view_other [OF assms(1-3)] by (cases "u = t") auto
  qed
qed (use step_finite [OF assms(1,2)] step_count [OF assms(1,2)] step_event [OF assms(1,2)]
    step_flag [OF assms(1,2)] step_window [OF assms(1-3)] step_small [OF assms(1,2,4)] in blast)+

lemma calm_reach_inv: "calm_reach s \<Longrightarrow> lock_inv s"
  by (induction rule: calm_reach.induct) (auto intro: lock_inv_start calm_step_inv)

lemma lock_inv_exclusion:
  assumes "lock_inv s" "pc s t = Writing"
  shows "pc s u \<noteq> Reading" "pc s u = Writing \<Longrightarrow> u = t"
  using granted_readers [OF assms(1), of t] inside_unique [OF assms(1), of u t] assms(2)
  by (auto simp: readers_def)


text \<open>The interrupted release: reader 1 has counted itself out but not yet looked at the flag when
  writer 2 comes and goes; its SetEvent then wakes writer 4 although reader 3 is in.\<close>

definition stale_schedule :: "(nat \<times> bool) list" where
  "stale_schedule =
     [(1, False), (1, False), (1, False),                       \<comment> \<open>reader 1 in\<close>
      (1, False),                                               \<comment> \<open>its decrement\<close>
      (2, True), (2, True),                                     \<comment> \<open>writer 2 sets the flag\<close>
      (1, False), (1, False),                                   \<comment> \<open>reader 1 sets the event\<close>
      (2, True), (2, True),                                     \<comment> \<open>writer 2 does not wait\<close>
      (2, True), (2, True), (2, True), (2, True), (2, True),    \<comment> \<open>and leaves\<close>
      (3, False), (3, False), (3, False),                       \<comment> \<open>reader 3 in\<close>
      (4, True), (4, True), (4, True), (4, True), (4, True)]"

lemma stale_run:
  "\<exists>s. schedule_run stale_schedule lock_start = Some s \<and> pc s 3 = Reading \<and> pc s 4 = Writing"
  by (simp add: stale_schedule_def lock_start_def moves_def lock_threads_def)

end
