(* ===== verification/ListEntry.thy ===== *)
theory ListEntry
  imports Prelude
begin

text \<open>
  The list macros of listentry.h: circular doubly-linked lists of LIST_ENTRY links embedded in their
  records, with a head that is itself a link, and singly-linked lists of SINGLE_LIST_ENTRY.

  An address is a natural number, the links are functions from addresses, and the null pointer is 0.
  \<open>ring m h xs\<close> says that from the head \<open>h\<close> the memory holds exactly the entries \<open>xs\<close>, in both
  directions; the locale \<open>deque\<close> states what users of the lists rely on.
\<close>

section \<open>State and operations\<close>

record list_memory =
  Flink :: "nat \<Rightarrow> nat"
  Blink :: "nat \<Rightarrow> nat"
  Next :: "nat \<Rightarrow> nat"

definition set_Flink :: "nat \<Rightarrow> nat \<Rightarrow> list_memory \<Rightarrow> list_memory" where
  "set_Flink p v m = m\<lparr>Flink := (Flink m)(p := v)\<rparr>"

definition set_Blink :: "nat \<Rightarrow> nat \<Rightarrow> list_memory \<Rightarrow> list_memory" where
  "set_Blink p v m = m\<lparr>Blink := (Blink m)(p := v)\<rparr>"

definition set_Next :: "nat \<Rightarrow> nat \<Rightarrow> list_memory \<Rightarrow> list_memory" where
  "set_Next p v m = m\<lparr>Next := (Next m)(p := v)\<rparr>"

definition InitializeListHead :: "nat \<Rightarrow> list_memory \<Rightarrow> list_memory" where
  "InitializeListHead ListHead m = set_Flink ListHead ListHead (set_Blink ListHead ListHead m)"

definition IsListEmpty :: "nat \<Rightarrow> list_memory \<Rightarrow> bool" where
  "IsListEmpty ListHead m \<longleftrightarrow> Flink m ListHead = ListHead"

definition RemoveEntryList :: "nat \<Rightarrow> list_memory \<Rightarrow> bool \<times> list_memory" where
  "RemoveEntryList Entry m =
     (let flink = Flink m Entry;
          blink = Blink m Entry;
          m1 = set_Flink blink flink m;
          m2 = set_Blink flink blink m1
      in (flink = blink, m2))"

definition RemoveHeadList :: "nat \<Rightarrow> list_memory \<Rightarrow> nat \<times> list_memory" where
  "RemoveHeadList ListHead m =
     (let Entry = Flink m ListHead;
          flink = Flink m Entry;
          m1 = set_Flink ListHead flink m;
          m2 = set_Blink flink ListHead m1
      in (Entry, m2))"

definition RemoveTailList :: "nat \<Rightarrow> list_memory \<Rightarrow> nat \<times> list_memory" where
  "RemoveTailList ListHead m =
     (let Entry = Blink m ListHead;
          blink = Blink m Entry;
          m1 = set_Blink ListHead blink m;
          m2 = set_Flink blink ListHead m1
      in (Entry, m2))"

definition InsertTailList :: "nat \<Rightarrow> nat \<Rightarrow> list_memory \<Rightarrow> list_memory" where
  "InsertTailList ListHead Entry m =
     (let blink = Blink m ListHead;
          m1 = set_Flink Entry ListHead m;
          m2 = set_Blink Entry blink m1;
          m3 = set_Flink blink Entry m2
      in set_Blink ListHead Entry m3)"

definition InsertHeadList :: "nat \<Rightarrow> nat \<Rightarrow> list_memory \<Rightarrow> list_memory" where
  "InsertHeadList ListHead Entry m =
     (let flink = Flink m ListHead;
          m1 = set_Flink Entry flink m;
          m2 = set_Blink Entry ListHead m1;
          m3 = set_Blink flink Entry m2
      in set_Flink ListHead Entry m3)"

definition AppendTailList :: "nat \<Rightarrow> nat \<Rightarrow> list_memory \<Rightarrow> list_memory" where
  "AppendTailList ListHead ListToAppend m =
     (let ListEnd = Blink m ListHead;
          m1 = set_Flink (Blink m ListHead) ListToAppend m;
          m2 = set_Blink ListHead (Blink m1 ListToAppend) m1;
          m3 = set_Flink (Blink m2 ListToAppend) ListHead m2
      in set_Blink ListToAppend ListEnd m3)"

definition PopEntryList :: "nat \<Rightarrow> list_memory \<Rightarrow> nat \<times> list_memory" where
  "PopEntryList ListHead m =
     (let FirstEntry = Next m ListHead in
      (FirstEntry, if FirstEntry \<noteq> 0 then set_Next ListHead (Next m FirstEntry) m else m))"

definition PushEntryList :: "nat \<Rightarrow> nat \<Rightarrow> list_memory \<Rightarrow> list_memory" where
  "PushEntryList ListHead Entry m =
     (let m1 = set_Next Entry (Next m ListHead) m in set_Next ListHead Entry m1)"

section \<open>Chains of links\<close>

definition linked :: "list_memory \<Rightarrow> nat \<Rightarrow> nat \<Rightarrow> bool" where
  "linked m a b \<longleftrightarrow> Flink m a = b \<and> Blink m b = a"

fun chain :: "list_memory \<Rightarrow> nat \<Rightarrow> nat list \<Rightarrow> nat \<Rightarrow> bool" where
  "chain m a [] b = linked m a b"
| "chain m a (x # xs) b = (linked m a x \<and> chain m x xs b)"

definition ring :: "list_memory \<Rightarrow> nat \<Rightarrow> nat list \<Rightarrow> bool" where
  "ring m h xs \<longleftrightarrow> distinct (h # xs) \<and> chain m h xs h"

lemma set_simps [simp]:
  "Flink (set_Flink p v m) = (Flink m)(p := v)" "Blink (set_Flink p v m) = Blink m"
  "Flink (set_Blink p v m) = Flink m" "Blink (set_Blink p v m) = (Blink m)(p := v)"
  "Next (set_Flink p v m) = Next m" "Next (set_Blink p v m) = Next m"
  "Next (set_Next p v m) = (Next m)(p := v)" "Flink (set_Next p v m) = Flink m"
  "Blink (set_Next p v m) = Blink m"
  by (simp_all add: set_Flink_def set_Blink_def set_Next_def)

lemma chain_append: "chain m a (xs @ y # ys) b \<longleftrightarrow> chain m a xs y \<and> chain m y ys b"
  by (induction xs arbitrary: a) auto

lemma chain_first: "chain m a xs b \<Longrightarrow> Flink m a = hd (xs @ [b])"
  by (cases xs) (auto simp: linked_def)

lemma chain_last: "chain m a xs b \<Longrightarrow> Blink m b = last (a # xs)"
  by (induction xs arbitrary: a) (auto simp: linked_def)

text \<open>A chain only depends on the forward links of its sources and the backward links of its targets.\<close>

lemma chain_cong:
  assumes "\<And>p. p \<in> set (a # xs) \<Longrightarrow> Flink m' p = Flink m p" "\<And>p. p \<in> set (xs @ [b]) \<Longrightarrow> Blink m' p = Blink m p"
  shows "chain m' a xs b = chain m a xs b"
  using assms by (induction xs arbitrary: a) (auto simp: linked_def)

lemma ring_first: "ring m h xs \<Longrightarrow> Flink m h = hd (xs @ [h])"
  unfolding ring_def by (blast intro: chain_first)

lemma ring_last: "ring m h xs \<Longrightarrow> Blink m h = last (h # xs)"
  unfolding ring_def by (blast intro: chain_last)

text \<open>Frame: lists with no link in common do not disturb each other.\<close>

lemma ring_frame:
  assumes "ring m h xs" "\<And>p. p \<in> set (h # xs) \<Longrightarrow> Flink m' p = Flink m p \<and> Blink m' p = Blink m p"
  shows "ring m' h xs"
proof -
  have "chain m' h xs h = chain m h xs h" by (rule chain_cong) (use assms(2) in auto)
  then show ?thesis using assms(1) by (simp add: ring_def)
qed

section \<open>The operations on rings\<close>

lemma InitializeListHead_ring: "ring (InitializeListHead h m) h []"
  by (simp add: ring_def InitializeListHead_def linked_def)

lemma IsListEmpty_ring: "ring m h xs \<Longrightarrow> IsListEmpty h m \<longleftrightarrow> xs = []"
  using ring_first [of m h xs] by (cases xs) (auto simp: IsListEmpty_def ring_def)

lemma insert_tail_chain:
  assumes "chain m h xs h" "distinct (h # xs)" "e \<notin> set (h # xs)"
  shows "chain (InsertTailList h e m) h (xs @ [e]) h"
proof -
  have b: "Blink m h = last (h # xs)" using assms(1) by (rule chain_last)
  show ?thesis
  proof (cases xs rule: rev_cases)
    case Nil
    then show ?thesis using b assms by (auto simp: InsertTailList_def Let_def linked_def)
  next
    case (snoc ys y)
    then have c: "chain m h ys y" "linked m y h" using assms(1) by (auto simp: chain_append)
    have "chain (InsertTailList h e m) h ys y = chain m h ys y"
      by (rule chain_cong) (use snoc b assms in \<open>auto simp: InsertTailList_def Let_def\<close>)
    then show ?thesis using snoc b c assms by (auto simp: chain_append InsertTailList_def Let_def linked_def)
  qed
qed

lemma insert_head_chain:
  assumes "chain m h xs h" "distinct (h # xs)" "e \<notin> set (h # xs)"
  shows "chain (InsertHeadList h e m) h (e # xs) h"
proof (cases xs)
  case Nil
  then show ?thesis using assms by (auto simp: InsertHeadList_def Let_def linked_def)
next
  case (Cons y ys)
  then have c: "linked m h y" "chain m y ys h" using assms(1) by auto
  have "chain (InsertHeadList h e m) y ys h = chain m y ys h"
    by (rule chain_cong) (use Cons c assms in \<open>auto simp: InsertHeadList_def Let_def linked_def\<close>)
  then show ?thesis using Cons c assms by (auto simp: InsertHeadList_def Let_def linked_def)
qed

lemma InsertTailList_ring: "ring m h xs \<Longrightarrow> e \<notin> set (h # xs) \<Longrightarrow> ring (InsertTailList h e m) h (xs @ [e])"
  using insert_tail_chain [of m h xs e] by (auto simp: ring_def)

lemma InsertHeadList_ring: "ring m h xs \<Longrightarrow> e \<notin> set (h # xs) \<Longrightarrow> ring (InsertHeadList h e m) h (e # xs)"
  using insert_head_chain [of m h xs e] by (auto simp: ring_def)

text \<open>Unlinking an entry joins its neighbours; the result says whether the list became empty.\<close>

lemma RemoveEntryList_ring:
  assumes "ring m h (xs @ e # ys)"
  shows "ring (snd (RemoveEntryList e m)) h (xs @ ys)" "fst (RemoveEntryList e m) \<longleftrightarrow> xs @ ys = []"
proof -
  let ?m = "snd (RemoveEntryList e m)"
  have d: "distinct (h # xs @ e # ys)" and c: "chain m h xs e" "chain m e ys h"
    using assms by (auto simp: ring_def chain_append)
  have b: "Blink m e = last (h # xs)" and f: "Flink m e = hd (ys @ [h])"
    using chain_last [OF c(1)] chain_first [OF c(2)] by auto
  have F: "Flink ?m = (Flink m)(last (h # xs) := hd (ys @ [h]))"
    and B: "Blink ?m = (Blink m)(hd (ys @ [h]) := last (h # xs))"
    using b f by (simp_all add: RemoveEntryList_def Let_def)
  have "chain ?m h (xs @ ys) h"
  proof (cases xs rule: rev_cases; cases ys)
    assume "xs = []" "ys = []" then show ?thesis by (simp add: F B linked_def)
  next
    fix z zs assume e: "xs = []" "ys = z # zs"
    have "chain ?m z zs h = chain m z zs h" by (rule chain_cong) (use e d in \<open>auto simp: F B\<close>)
    then show ?thesis using e c d by (auto simp: F B linked_def)
  next
    fix ws w assume e: "xs = ws @ [w]" "ys = []"
    have "chain ?m h ws w = chain m h ws w" by (rule chain_cong) (use e d in \<open>auto simp: F B\<close>)
    then show ?thesis using e c d by (auto simp: F B linked_def chain_append)
  next
    fix ws w z zs assume e: "xs = ws @ [w]" "ys = z # zs"
    have "chain ?m h ws w = chain m h ws w" by (rule chain_cong) (use e d in \<open>auto simp: F B\<close>)
    moreover have "chain ?m z zs h = chain m z zs h" by (rule chain_cong) (use e d in \<open>auto simp: F B\<close>)
    ultimately show ?thesis using e c d by (auto simp: F B linked_def chain_append)
  qed
  then show "ring ?m h (xs @ ys)" using d by (auto simp: ring_def)
  have "hd (ys @ [h]) = last (h # xs) \<longleftrightarrow> xs @ ys = []"
    using d by (cases xs rule: rev_cases; cases ys) auto
  then show "fst (RemoveEntryList e m) \<longleftrightarrow> xs @ ys = []" using b f by (simp add: RemoveEntryList_def Let_def)
qed

text \<open>Removing at an end is unlinking the entry there; on an empty list the head itself comes back.\<close>

lemma RemoveHeadList_ring: "ring m h (e # xs) \<Longrightarrow> fst (RemoveHeadList h m) = e \<and> ring (snd (RemoveHeadList h m)) h xs"
proof -
  assume r: "ring m h (e # xs)"
  then have "Flink m h = e" "Blink m e = h" by (auto simp: ring_def linked_def)
  then have "RemoveHeadList h m = (e, snd (RemoveEntryList e m))"
    by (simp add: RemoveHeadList_def RemoveEntryList_def Let_def)
  then show ?thesis using RemoveEntryList_ring(1) [of m h "[]" e xs] r by simp
qed

lemma RemoveTailList_ring: "ring m h (xs @ [e]) \<Longrightarrow> fst (RemoveTailList h m) = e \<and> ring (snd (RemoveTailList h m)) h xs"
proof -
  assume r: "ring m h (xs @ [e])"
  then have e: "Blink m h = e" "Flink m e = h" by (auto simp: ring_def linked_def chain_append)
  have "snd (RemoveTailList h m) = snd (RemoveEntryList e m)"
    using e by (simp add: RemoveTailList_def RemoveEntryList_def Let_def set_Flink_def set_Blink_def)
  then show ?thesis
    using RemoveEntryList_ring(1) [of m h xs e "[]"] r e by (simp add: RemoveTailList_def Let_def)
qed

lemma RemoveHeadList_empty: "ring m h [] \<Longrightarrow> fst (RemoveHeadList h m) = h \<and> ring (snd (RemoveHeadList h m)) h []"
  by (auto simp: ring_def RemoveHeadList_def Let_def linked_def)

text \<open>The appended list loses its head: its link becomes an entry.\<close>

lemma AppendTailList_ring:
  assumes "ring m h xs" "ring m l ys" "set (h # xs) \<inter> set (l # ys) = {}"
  shows "ring (AppendTailList h l m) h (xs @ l # ys)"
proof -
  let ?m = "AppendTailList h l m"
  have d: "distinct (h # xs)" "distinct (l # ys)" and c: "chain m h xs h" "chain m l ys l"
    using assms(1,2) by (auto simp: ring_def)
  have b: "Blink m h = last (h # xs)" "Blink m l = last (l # ys)" using c by (auto dest: chain_last)
  have F: "Flink ?m = (Flink m)(last (h # xs) := l, last (l # ys) := h)"
    and B: "Blink ?m = (Blink m)(h := last (l # ys), l := last (h # xs))"
    using b assms(3) by (auto simp: AppendTailList_def Let_def)
  have l: "last (h # xs) \<in> set (h # xs)" "last (l # ys) \<in> set (l # ys)" by (rule last_in_set; simp)+
  have "chain ?m h xs l"
  proof (cases xs rule: rev_cases)
    case (snoc ws w)
    have "last (h # xs) = w" using snoc by simp
    note W = F [unfolded this] B [unfolded this] and lw = l [unfolded this]
    have "chain ?m h ws w = chain m h ws w"
      by (rule chain_cong) (use snoc d assms(3) lw(2) in \<open>auto simp: W simp del: last.simps\<close>)
    then show ?thesis using snoc c lw(2) assms(3) d by (auto simp: chain_append W linked_def simp del: last.simps)
  qed (use l(2) assms(3) in \<open>auto simp: F B linked_def\<close>)
  moreover have "chain ?m l ys h"
  proof (cases ys rule: rev_cases)
    case (snoc ws w)
    have "last (l # ys) = w" using snoc by simp
    note W = F [unfolded this] B [unfolded this] and lw = l [unfolded this]
    have "chain ?m l ws w = chain m l ws w"
      by (rule chain_cong) (use snoc d assms(3) lw(1) in \<open>auto simp: W simp del: last.simps\<close>)
    then show ?thesis using snoc c lw(1) assms(3) d by (auto simp: chain_append W linked_def simp del: last.simps)
  qed (use l(1) assms(3) in \<open>auto simp: F B linked_def\<close>)
  ultimately show ?thesis using d assms(3) by (auto simp: ring_def chain_append)
qed


text \<open>What the operations on one list write lies inside it, so other lists keep their contents.\<close>

lemma ends_inside:
  assumes "ring m h xs"
  shows "Blink m h \<in> set (h # xs)" "Flink m h \<in> set (h # xs)"
    "x \<in> set xs \<Longrightarrow> Flink m x \<in> set (h # xs) \<and> Blink m x \<in> set (h # xs)"
proof -
  show "Blink m h \<in> set (h # xs)" using ring_last [OF assms] by (metis last_in_set list.distinct(1))
  show "Flink m h \<in> set (h # xs)" using ring_first [OF assms] by (cases xs) auto
  assume "x \<in> set xs"
  then obtain us vs where "xs = us @ x # vs" by (auto simp: in_set_conv_decomp)
  then have "chain m h us x" "chain m x vs h" using assms by (auto simp: ring_def chain_append)
  then have "Blink m x = last (h # us)" "Flink m x = hd (vs @ [h])" by (auto dest: chain_first chain_last)
  moreover have "last (h # us) \<in> set (h # us)" "hd (vs @ [h]) \<in> set (vs @ [h])" by (rule last_in_set, simp) (rule hd_in_set, simp)
  ultimately show "Flink m x \<in> set (h # xs) \<and> Blink m x \<in> set (h # xs)" using \<open>xs = us @ x # vs\<close> by auto
qed

lemma other_ring:
  assumes "ring m h xs" "ring m g zs" "set (h # xs) \<inter> set (g # zs) = {}"
  shows "e \<notin> set (g # zs) \<Longrightarrow> ring (InsertTailList h e m) g zs"
    and "e \<notin> set (g # zs) \<Longrightarrow> ring (InsertHeadList h e m) g zs"
    and "x \<in> set xs \<Longrightarrow> ring (snd (RemoveEntryList x m)) g zs"
proof -
  note E = ends_inside [OF assms(1)]
  show "e \<notin> set (g # zs) \<Longrightarrow> ring (InsertTailList h e m) g zs"
    by (rule ring_frame [OF assms(2)]) (use E(1) assms(3) in \<open>auto simp: InsertTailList_def Let_def\<close>)
  show "e \<notin> set (g # zs) \<Longrightarrow> ring (InsertHeadList h e m) g zs"
    by (rule ring_frame [OF assms(2)]) (use E(2) assms(3) in \<open>auto simp: InsertHeadList_def Let_def\<close>)
  show "x \<in> set xs \<Longrightarrow> ring (snd (RemoveEntryList x m)) g zs"
    by (rule ring_frame [OF assms(2)]) (use E(3) assms(3) in \<open>fastforce simp: RemoveEntryList_def Let_def\<close>)
qed

section \<open>Singly-linked lists\<close>

fun singly :: "list_memory \<Rightarrow> nat \<Rightarrow> nat list \<Rightarrow> bool" where
  "singly m h [] = (Next m h = 0)"
| "singly m h (x # xs) = (x \<noteq> 0 \<and> Next m h = x \<and> singly m x xs)"

definition stack :: "list_memory \<Rightarrow> nat \<Rightarrow> nat list \<Rightarrow> bool" where
  "stack m h xs \<longleftrightarrow> distinct (h # xs) \<and> singly m h xs"

lemma singly_cong: "(\<And>p. p \<in> set (h # xs) \<Longrightarrow> Next m' p = Next m p) \<Longrightarrow> singly m' h xs = singly m h xs"
  by (induction xs arbitrary: h) auto

lemma PushEntryList_stack:
  assumes "stack m h xs" "e \<notin> set (h # xs)" "e \<noteq> 0"
  shows "stack (PushEntryList h e m) h (e # xs)"
proof -
  have "singly (PushEntryList h e m) e xs"
  proof (cases xs)
    case Nil
    then show ?thesis using assms by (auto simp: stack_def PushEntryList_def Let_def)
  next
    case (Cons y ys)
    have "singly (PushEntryList h e m) y ys = singly m y ys"
      by (rule singly_cong) (use Cons assms in \<open>auto simp: stack_def PushEntryList_def Let_def\<close>)
    then show ?thesis using Cons assms by (auto simp: stack_def PushEntryList_def Let_def)
  qed
  then show ?thesis using assms by (auto simp: stack_def PushEntryList_def Let_def)
qed

lemma PopEntryList_stack: "stack m h (e # xs) \<Longrightarrow> fst (PopEntryList h m) = e \<and> stack (snd (PopEntryList h m)) h xs"
proof -
  assume s: "stack m h (e # xs)"
  let ?m = "snd (PopEntryList h m)"
  have "?m = set_Next h (Next m e) m" "fst (PopEntryList h m) = e" using s by (auto simp: stack_def PopEntryList_def Let_def)
  moreover have "singly (set_Next h (Next m e) m) h xs"
  proof (cases xs)
    case (Cons y ys)
    have "singly (set_Next h (Next m e) m) y ys = singly m y ys"
      by (rule singly_cong) (use Cons s in \<open>auto simp: stack_def\<close>)
    then show ?thesis using Cons s by (auto simp: stack_def)
  qed (use s in \<open>auto simp: stack_def\<close>)
  ultimately show ?thesis using s by (auto simp: stack_def)
qed

lemma PopEntryList_empty: "stack m h [] \<Longrightarrow> PopEntryList h m = (0, m)"
  by (simp add: stack_def PopEntryList_def)

section \<open>The interface of a double-ended queue\<close>

text \<open>Taking \<open>n\<close> entries, one after another.\<close>

primrec pops :: "('m \<Rightarrow> 'e \<times> 'm) \<Rightarrow> nat \<Rightarrow> 'm \<Rightarrow> 'e list \<times> 'm" where
  "pops pop 0 m = ([], m)"
| "pops pop (Suc n) m = (let (e, m1) = pop m; (es, m2) = pops pop n m1 in (e # es, m2))"

text \<open>\<open>ready\<close> is what a client has to know before it makes a queue, and \<open>usable\<close> which entries
  it may put in; \<open>holds\<close> says what is in the queue.\<close>

locale deque =
  fixes new :: "'h \<Rightarrow> 'm \<Rightarrow> 'm"
    and no_entry :: "'h \<Rightarrow> 'm \<Rightarrow> bool"
    and push_tail push_head :: "'h \<Rightarrow> 'e \<Rightarrow> 'm \<Rightarrow> 'm"
    and pop_head pop_tail :: "'h \<Rightarrow> 'm \<Rightarrow> 'e \<times> 'm"
    and ready :: "'m \<Rightarrow> 'h \<Rightarrow> bool"
    and holds :: "'m \<Rightarrow> 'h \<Rightarrow> 'e list \<Rightarrow> bool"
    and usable :: "'h \<Rightarrow> 'e \<Rightarrow> bool"
  assumes holds_new: "ready m h \<Longrightarrow> holds (new h m) h []"
    and no_entry: "holds m h xs \<Longrightarrow> no_entry h m \<longleftrightarrow> xs = []"
    and push_tail: "holds m h xs \<Longrightarrow> usable h e \<Longrightarrow> e \<notin> set xs \<Longrightarrow> holds (push_tail h e m) h (xs @ [e])"
    and push_head: "holds m h xs \<Longrightarrow> usable h e \<Longrightarrow> e \<notin> set xs \<Longrightarrow> holds (push_head h e m) h (e # xs)"
    and pop_head: "holds m h (e # xs) \<Longrightarrow> fst (pop_head h m) = e \<and> holds (snd (pop_head h m)) h xs"
    and pop_tail: "holds m h (xs @ [e]) \<Longrightarrow> fst (pop_tail h m) = e \<and> holds (snd (pop_tail h m)) h xs"
begin

lemma fill_holds:
  "holds m h xs \<Longrightarrow> distinct (xs @ es) \<Longrightarrow> \<forall>e\<in>set es. usable h e \<Longrightarrow> holds (fold (push_tail h) es m) h (xs @ es)"
proof (induction es arbitrary: m xs)
  case (Cons e es)
  then have "holds (push_tail h e m) h (xs @ [e])" by (intro push_tail) auto
  then have "holds (fold (push_tail h) es (push_tail h e m)) h ((xs @ [e]) @ es)" using Cons by (intro Cons.IH) auto
  then show ?case by simp
qed simp

lemma drain_head: "holds m h (xs @ ys) \<Longrightarrow> \<exists>m'. pops (pop_head h) (length xs) m = (xs, m') \<and> holds m' h ys"
proof (induction xs arbitrary: m)
  case (Cons x xs)
  then show ?case using pop_head [of m h x "xs @ ys"] by (cases "pop_head h m") fastforce
qed simp

lemma drain_tail: "holds m h (ys @ rev xs) \<Longrightarrow> \<exists>m'. pops (pop_tail h) (length xs) m = (xs, m') \<and> holds m' h ys"
proof (induction xs arbitrary: m)
  case (Cons x xs)
  then show ?case using pop_tail [of m h "ys @ rev xs" x] by (cases "pop_tail h m") fastforce
qed simp

text \<open>First in, first out from the head; last in, first out from the tail.\<close>

lemma fifo:
  assumes "ready m h" "distinct es" "\<forall>e\<in>set es. usable h e"
  shows "\<exists>m'. pops (pop_head h) (length es) (fold (push_tail h) es (new h m)) = (es, m') \<and> no_entry h m' \<and> holds m' h []"
proof -
  have "holds (fold (push_tail h) es (new h m)) h (es @ [])" using fill_holds [OF holds_new, of m h es] assms by simp
  from drain_head [OF this] show ?thesis using no_entry by blast
qed

lemma lifo:
  assumes "ready m h" "distinct es" "\<forall>e\<in>set es. usable h e"
  shows "\<exists>m'. pops (pop_tail h) (length es) (fold (push_tail h) es (new h m)) = (rev es, m') \<and> no_entry h m' \<and> holds m' h []"
proof -
  have "holds (fold (push_tail h) es (new h m)) h ([] @ rev (rev es))" using fill_holds [OF holds_new, of m h es] assms by simp
  from drain_tail [OF this] show ?thesis using no_entry by auto
qed

end

text \<open>Two lists in one memory: the operations on the list at \<open>h\<close> leave the list at \<open>g\<close> alone.\<close>

definition beside :: "nat \<Rightarrow> nat list \<Rightarrow> list_memory \<Rightarrow> nat \<Rightarrow> nat list \<Rightarrow> bool" where
  "beside g zs m h xs \<longleftrightarrow> ring m h xs \<and> ring m g zs \<and> set (h # xs) \<inter> set (g # zs) = {}"

lemma InitializeListHead_beside: "ring m g zs \<Longrightarrow> h \<notin> set (g # zs) \<Longrightarrow> beside g zs (InitializeListHead h m) h []"
proof -
  assume r: "ring m g zs" "h \<notin> set (g # zs)"
  have "ring (InitializeListHead h m) g zs"
    by (rule ring_frame [OF r(1)]) (use r(2) in \<open>auto simp: InitializeListHead_def\<close>)
  then show ?thesis using r(2) InitializeListHead_ring by (auto simp: beside_def)
qed

lemma pop_head_beside:
  assumes "beside g zs m h (e # xs)"
  shows "fst (RemoveHeadList h m) = e \<and> beside g zs (snd (RemoveHeadList h m)) h xs"
proof -
  have r: "ring m h (e # xs)" "ring m g zs" "set (h # e # xs) \<inter> set (g # zs) = {}"
    using assms by (auto simp: beside_def)
  have "snd (RemoveHeadList h m) = snd (RemoveEntryList e m)"
    using r(1) by (auto simp: ring_def linked_def RemoveHeadList_def RemoveEntryList_def Let_def)
  then have "ring (snd (RemoveHeadList h m)) g zs" using other_ring(3) [OF r] by simp
  then show ?thesis using RemoveHeadList_ring [OF r(1)] r(3) unfolding beside_def by auto
qed

lemma pop_tail_beside:
  assumes "beside g zs m h (xs @ [e])"
  shows "fst (RemoveTailList h m) = e \<and> beside g zs (snd (RemoveTailList h m)) h xs"
proof -
  have r: "ring m h (xs @ [e])" "ring m g zs" "set (h # xs @ [e]) \<inter> set (g # zs) = {}"
    using assms by (auto simp: beside_def)
  have "Blink m h = e" "Flink m e = h" using r(1) by (auto simp: ring_def linked_def chain_append)
  then have "snd (RemoveTailList h m) = snd (RemoveEntryList e m)"
    by (simp add: RemoveTailList_def RemoveEntryList_def Let_def set_Flink_def set_Blink_def)
  then have "ring (snd (RemoveTailList h m)) g zs" using other_ring(3) [OF r] by simp
  then show ?thesis using RemoveTailList_ring [OF r(1)] r(3) unfolding beside_def by auto
qed

interpretation entries: deque InitializeListHead IsListEmpty InsertTailList InsertHeadList RemoveHeadList RemoveTailList
  "\<lambda>m h. ring m g zs \<and> h \<notin> set (g # zs)" "beside g zs" "\<lambda>h e. e \<noteq> h \<and> e \<notin> set (g # zs)" for g zs
proof unfold_locales
  fix m h xs e
  show "ring m g zs \<and> h \<notin> set (g # zs) \<Longrightarrow> beside g zs (InitializeListHead h m) h []"
    by (blast intro: InitializeListHead_beside)
  show "beside g zs m h xs \<Longrightarrow> IsListEmpty h m = (xs = [])" by (auto simp: beside_def IsListEmpty_ring)
  show "beside g zs m h xs \<Longrightarrow> e \<noteq> h \<and> e \<notin> set (g # zs) \<Longrightarrow> e \<notin> set xs \<Longrightarrow> beside g zs (InsertTailList h e m) h (xs @ [e])"
    using InsertTailList_ring [of m h xs e] other_ring(1) [of m h xs g zs e] by (auto simp: beside_def)
  show "beside g zs m h xs \<Longrightarrow> e \<noteq> h \<and> e \<notin> set (g # zs) \<Longrightarrow> e \<notin> set xs \<Longrightarrow> beside g zs (InsertHeadList h e m) h (e # xs)"
    using InsertHeadList_ring [of m h xs e] other_ring(2) [of m h xs g zs e] by (auto simp: beside_def)
  show "beside g zs m h (e # xs) \<Longrightarrow> fst (RemoveHeadList h m) = e \<and> beside g zs (snd (RemoveHeadList h m)) h xs"
    by (rule pop_head_beside)
  show "beside g zs m h (xs @ [e]) \<Longrightarrow> fst (RemoveTailList h m) = e \<and> beside g zs (snd (RemoveTailList h m)) h xs"
    by (rule pop_tail_beside)
qed

end
