(* ===== verification/TraceLog.thy ===== *)
theory TraceLog
  imports Win32
begin

text \<open>
  The circular trace log of tracelog.c and the reference-count trace of reftrace.c on top of it.

  A log is one heap block: the header fields, then the caller's extra header bytes and the entries.
  \<open>log_bytes\<close> is the block from behind the header fields (the address \<open>Log + 1\<close>), and the pointer
  \<open>LogBuffer\<close> is the offset of the entries in it. A LONG is an integer, \<open>ulong\<close> its value
  as an ULONG. \<open>None\<close> is an access outside the block or a division by zero.
\<close>

section \<open>State\<close>

record trace_log =
  Signature :: nat
  LogSize :: int
  NextEntry :: int
  EntrySize :: int
  LogBuffer :: nat
  log_bytes :: "BYTE list"

definition TRACE_LOG_SIGNATURE :: nat where "TRACE_LOG_SIGNATURE = 1733258324"
definition TRACE_LOG_SIGNATURE_X :: nat where "TRACE_LOG_SIGNATURE_X = 1735355480"
definition sizeof_TRACE_LOG :: nat where "sizeof_TRACE_LOG = 24"

definition ulong :: "int \<Rightarrow> nat" where
  "ulong x = nat (x mod 4294967296)"

definition ULongMult :: "nat \<Rightarrow> nat \<Rightarrow> nat option" where
  "ULongMult a b = (if a * b \<le> MAXDWORD then Some (a * b) else None)"

definition ULongAdd :: "nat \<Rightarrow> nat \<Rightarrow> nat option" where
  "ULongAdd a b = (if a + b \<le> MAXDWORD then Some (a + b) else None)"

section \<open>Operations\<close>

definition CreateTraceLog :: "int \<Rightarrow> int \<Rightarrow> int \<Rightarrow> world \<Rightarrow> trace_log option \<times> world" where
  "CreateTraceLog logSize extraBytesInHeader entrySize w =
     (case do {
        ulTotalSize \<leftarrow> ULongMult (ulong logSize) (ulong entrySize);
        ulTmpResult \<leftarrow> ULongAdd sizeof_TRACE_LOG (ulong extraBytesInHeader);
        ulTotalSize2 \<leftarrow> ULongAdd ulTmpResult ulTotalSize;
        if ulTotalSize2 > 2147483647 then None else Some ulTotalSize2 } of
        None \<Rightarrow> (None, SetLastError ERROR_ARITHMETIC_OVERFLOW w)
      | Some ulTotalSize \<Rightarrow>
          (case heap_request ulTotalSize w of
             (False, w1) \<Rightarrow> (None, w1)
           | (True, w1) \<Rightarrow>
               (Some \<lparr>Signature = TRACE_LOG_SIGNATURE, LogSize = logSize, NextEntry = -1,
                  EntrySize = entrySize, LogBuffer = nat extraBytesInHeader,
                  log_bytes = replicate (ulTotalSize - sizeof_TRACE_LOG) 0\<rparr>, w1)))"

definition DestroyTraceLog :: "trace_log option \<Rightarrow> world \<Rightarrow> trace_log option \<times> world" where
  "DestroyTraceLog lg w =
     (case lg of
        None \<Rightarrow> (None, w)
      | Some l \<Rightarrow> (Some (l\<lparr>Signature := TRACE_LOG_SIGNATURE_X\<rparr>), HeapFree w))"

definition WriteTraceLog :: "trace_log \<Rightarrow> BYTE list \<Rightarrow> (nat \<times> trace_log) option" where
  "WriteTraceLog lg entry =
     (let lg1 = lg\<lparr>NextEntry := long_incr (NextEntry lg)\<rparr> in
      if ulong (LogSize lg1) = 0 then None
      else
        (let index = ulong (NextEntry lg1) mod ulong (LogSize lg1);
             target = LogBuffer lg1 + dword (index * ulong (EntrySize lg1))
         in if EntrySize lg1 < 0 then None
            else do {
              src \<leftarrow> mem_read 0 (nat (EntrySize lg1)) entry;
              m \<leftarrow> mem_write target src (log_bytes lg1);
              Some (index, lg1\<lparr>log_bytes := m\<rparr>) }))"

definition ResetTraceLog :: "trace_log \<Rightarrow> trace_log option" where
  "ResetTraceLog lg =
     (if LogSize lg * EntrySize lg < 0 then None
      else do {
        m \<leftarrow> mem_write 0 (replicate (nat (LogSize lg * EntrySize lg)) 0) (log_bytes lg);
        Some (lg\<lparr>log_bytes := m, NextEntry := -1\<rparr>) })"

section \<open>The reference trace\<close>

definition REF_TRACE_LOG_STACK_DEPTH :: nat where "REF_TRACE_LOG_STACK_DEPTH = 9"

record ref_trace_entry =
  NewRefCount :: int
  Context :: nat
  Context1 :: nat
  Context2 :: nat
  Context3 :: nat
  Thread :: nat
  Stack :: "nat list"

definition sizeof_REF_TRACE_LOG_ENTRY :: nat where "sizeof_REF_TRACE_LOG_ENTRY = 120"

text \<open>The image of an entry in memory on the 64-bit target: little-endian fields at their
  alignment, zero between them.\<close>

definition le_bytes :: "nat \<Rightarrow> nat \<Rightarrow> BYTE list" where
  "le_bytes k n = map (\<lambda>i. of_nat (n div 256 ^ i)) [0..<k]"

definition entry_bytes :: "ref_trace_entry \<Rightarrow> BYTE list" where
  "entry_bytes e =
     le_bytes 4 (ulong (NewRefCount e)) @ replicate 4 0 @ le_bytes 8 (Context e) @
     le_bytes 8 (Context1 e) @ le_bytes 8 (Context2 e) @ le_bytes 8 (Context3 e) @
     le_bytes 4 (Thread e) @ replicate 4 0 @ concat (map (le_bytes 8) (Stack e))"

definition CreateRefTraceLog :: "int \<Rightarrow> int \<Rightarrow> world \<Rightarrow> trace_log option \<times> world" where
  "CreateRefTraceLog logSize extraBytesInHeader w =
     CreateTraceLog logSize extraBytesInHeader (int sizeof_REF_TRACE_LOG_ENTRY) w"

definition DestroyRefTraceLog :: "trace_log option \<Rightarrow> world \<Rightarrow> trace_log option \<times> world" where
  "DestroyRefTraceLog lg w = DestroyTraceLog lg w"

text \<open>The thread id and the stack walk are what the system returns: \<open>backtrace skip depth\<close> is the
  list of at most \<open>depth\<close> return addresses above the skipped frames.\<close>

definition WriteRefTraceLogEx ::
  "nat \<Rightarrow> (nat \<Rightarrow> nat \<Rightarrow> nat list) \<Rightarrow> trace_log \<Rightarrow> int \<Rightarrow> nat \<Rightarrow> nat \<Rightarrow> nat \<Rightarrow> nat \<Rightarrow> (nat \<times> trace_log) option" where
  "WriteRefTraceLogEx threadId backtrace lg newRefCount c c1 c2 c3 =
     (let cStackFramesSkipped = (if c1 = 0 \<and> c2 = 0 \<and> c3 = 0 then 2 else 1);
          frames = backtrace cStackFramesSkipped REF_TRACE_LOG_STACK_DEPTH
      in if length frames > REF_TRACE_LOG_STACK_DEPTH then None
         else WriteTraceLog lg (entry_bytes
           \<lparr>NewRefCount = newRefCount, Context = c, Context1 = c1, Context2 = c2, Context3 = c3,
            Thread = threadId,
            Stack = frames @ replicate (REF_TRACE_LOG_STACK_DEPTH - length frames) 0\<rparr>))"

definition WriteRefTraceLog ::
  "nat \<Rightarrow> (nat \<Rightarrow> nat \<Rightarrow> nat list) \<Rightarrow> trace_log \<Rightarrow> int \<Rightarrow> nat \<Rightarrow> (nat \<times> trace_log) option" where
  "WriteRefTraceLog threadId backtrace lg newRefCount c =
     WriteRefTraceLogEx threadId backtrace lg newRefCount c 0 0 0"

section \<open>Invariant\<close>

definition log_ok :: "trace_log \<Rightarrow> bool" where
  "log_ok lg \<longleftrightarrow>
     0 \<le> LogSize lg \<and> 0 \<le> EntrySize lg \<and> LogSize lg \<le> 2147483647 \<and> EntrySize lg \<le> 2147483647 \<and>
     length (log_bytes lg) = LogBuffer lg + nat (LogSize lg) * nat (EntrySize lg) \<and>
     sizeof_TRACE_LOG + length (log_bytes lg) \<le> 2147483647"

text \<open>The bytes of slot \<open>i\<close>, and the caller's extra header.\<close>

definition log_slot :: "trace_log \<Rightarrow> nat \<Rightarrow> BYTE list" where
  "log_slot lg i = take (nat (EntrySize lg)) (drop (LogBuffer lg + i * nat (EntrySize lg)) (log_bytes lg))"

definition log_extra :: "trace_log \<Rightarrow> BYTE list" where
  "log_extra lg = take (LogBuffer lg) (log_bytes lg)"

lemma ulong_id [simp]: "0 \<le> x \<Longrightarrow> x < 4294967296 \<Longrightarrow> ulong x = nat x"
  by (simp add: ulong_def)

lemma ulong_neg_eq: "x < 0 \<Longrightarrow> -2147483648 \<le> x \<Longrightarrow> ulong x = nat (x + 4294967296)"
proof -
  assume x: "x < 0" "-2147483648 \<le> x"
  have "x mod 4294967296 = (x + 4294967296) mod 4294967296" by simp
  also have "\<dots> = x + 4294967296" using x by (intro mod_pos_pos_trivial) auto
  finally show ?thesis by (simp add: ulong_def)
qed

lemma ulong_neg: "x < 0 \<Longrightarrow> -2147483648 \<le> x \<Longrightarrow> 2147483648 \<le> ulong x"
  using ulong_neg_eq [of x] by simp

lemma ulong_small: "is_long x \<Longrightarrow> ulong x < 2147483648 \<Longrightarrow> 0 \<le> x \<and> ulong x = nat x"
  using ulong_neg [of x] by (cases "x < 0") (auto simp: is_long_def)

lemma ulong_pos: "is_long x \<Longrightarrow> x \<noteq> 0 \<Longrightarrow> 0 < ulong x"
  using ulong_neg [of x] by (cases "x < 0") (auto simp: is_long_def)

lemma CreateTraceLog_Some:
  assumes "CreateTraceLog n e s w = (Some lg, w')"
  shows "ulong n * ulong s + ulong e + 24 \<le> 2147483647 \<and> generous w = generous w' \<and>
    lg = \<lparr>Signature = TRACE_LOG_SIGNATURE, LogSize = n, NextEntry = -1, EntrySize = s,
      LogBuffer = nat e, log_bytes = replicate (ulong n * ulong s + ulong e) 0\<rparr>"
  using assms
  by (auto simp: CreateTraceLog_def ULongMult_def ULongAdd_def sizeof_TRACE_LOG_def bind_eq_Some_conv heap_request_def generous_def
      algebra_simps split: if_splits option.splits prod.splits)

lemma product_small: "0 < a \<Longrightarrow> 0 < b \<Longrightarrow> a * b \<le> c \<Longrightarrow> a \<le> c \<and> b \<le> (c::nat)"
  by (metis dual_order.trans nat_mult_1 nat_mult_1_right mult_le_mono Suc_leI One_nat_def order_refl)

lemma CreateTraceLog_correct:
  assumes l: "is_long n" "is_long e" "is_long s" and pos: "n \<noteq> 0" "s \<noteq> 0"
    and c: "CreateTraceLog n e s w = (Some lg, w')"
  shows "log_ok lg \<and> LogSize lg = n \<and> EntrySize lg = s \<and> NextEntry lg = -1 \<and> 0 < n \<and> 0 < s \<and> 0 \<le> e \<and>
    LogBuffer lg = nat e \<and> set (log_bytes lg) \<subseteq> {0}"
proof -
  note C = CreateTraceLog_Some [OF c]
  have "0 < ulong n" "0 < ulong s" using ulong_pos l pos by auto
  then have "ulong n \<le> 2147483647" "ulong s \<le> 2147483647" "ulong e \<le> 2147483647"
    using product_small [of "ulong n" "ulong s" 2147483647] C by auto
  then have p: "0 \<le> n" "ulong n = nat n" "0 \<le> s" "ulong s = nat s" "0 \<le> e" "ulong e = nat e"
    using ulong_small l by (auto simp: le_imp_less_Suc)
  then show ?thesis
    using C l pos by (auto simp: log_ok_def sizeof_TRACE_LOG_def is_long_def)
qed

section \<open>Writing\<close>

text \<open>The \<open>k\<close>-th write to a log that started empty goes to slot \<open>k mod LogSize\<close>, as long as the
  counter has not come round to the start.\<close>

definition written_before :: "trace_log \<Rightarrow> nat \<Rightarrow> bool" where
  "written_before lg k \<longleftrightarrow> is_long (NextEntry lg) \<and> ulong (NextEntry lg + 1) = k mod 4294967296"

lemma long_incr_ulong: "is_long x \<Longrightarrow> is_long (long_incr x) \<and> ulong (long_incr x) = ulong (x + 1)"
  by (auto simp: is_long_def long_incr_def ulong_def)

lemma ulong_Suc: "ulong (x + 1) = (ulong x + 1) mod 4294967296"
proof -
  have i: "int (ulong y) = y mod 4294967296" for y by (simp add: ulong_def)
  have "int (ulong (x + 1)) = (x mod 4294967296 + 1) mod 4294967296" unfolding i by (simp only: mod_add_left_eq)
  also have "\<dots> = int ((ulong x + 1) mod 4294967296)" by (simp only: zmod_int of_nat_add i of_nat_1 of_nat_numeral)
  finally show ?thesis by (simp only: of_nat_eq_iff)
qed

lemma same_bytes_elsewhere:
  assumes "t + length src \<le> length b" "p + q \<le> t \<or> t + length src \<le> p" "p + q \<le> length b"
  shows "take q (drop p (take t b @ src @ drop (t + length src) b)) = take q (drop p b)"
  using assms(2)
proof
  assume "p + q \<le> t"
  then show ?thesis using assms(1) by (simp add: drop_take min_absorb1 min_absorb2)
next
  assume "t + length src \<le> p"
  then obtain d where "p = t + length src + d" using le_Suc_ex by blast
  then show ?thesis using assms(1) by (simp add: min_absorb2 add.commute)
qed

lemma same_bytes_before: "t + length src \<le> length b \<Longrightarrow> p \<le> t \<Longrightarrow> take p (take t b @ src @ drop (t + length src) b) = take p b"
  using same_bytes_elsewhere [of t src b 0 p] by simp

lemma slot_apart: "(i::nat) \<noteq> j \<Longrightarrow> i * s + s \<le> j * s \<or> j * s + s \<le> i * s"
proof -
  assume "i \<noteq> j"
  then have "Suc i \<le> j \<or> Suc j \<le> i" by auto
  then have "Suc i * s \<le> j * s \<or> Suc j * s \<le> i * s" by (meson mult_le_mono1)
  then show ?thesis by (simp add: add.commute)
qed

lemma WriteTraceLog_correct:
  assumes ok: "log_ok lg" "0 < LogSize lg" and k: "written_before lg k" and e: "length entry = nat (EntrySize lg)"
  defines "n \<equiv> nat (LogSize lg)"
  obtains lg' where "WriteTraceLog lg entry = Some (k mod 4294967296 mod n, lg')"
    "log_ok lg'" "LogSize lg' = LogSize lg" "EntrySize lg' = EntrySize lg" "written_before lg' (Suc k)"
    "log_slot lg' (k mod 4294967296 mod n) = entry" "log_extra lg' = log_extra lg"
    "\<And>i. i < n \<Longrightarrow> i \<noteq> k mod 4294967296 mod n \<Longrightarrow> log_slot lg' i = log_slot lg i"
proof -
  define i where "i = k mod 4294967296 mod n"
  let ?s = "nat (EntrySize lg)" let ?b = "log_bytes lg"
  let ?t = "LogBuffer lg + i * ?s"
  have nx: "is_long (long_incr (NextEntry lg))" "ulong (long_incr (NextEntry lg)) = k mod 4294967296"
    using k long_incr_ulong [of "NextEntry lg"] by (auto simp: written_before_def)
  have n: "0 < n" "ulong (LogSize lg) = n" "ulong (EntrySize lg) = ?s" "0 \<le> EntrySize lg"
    and len: "length ?b = LogBuffer lg + n * ?s" "length ?b \<le> 2147483647"
    using ok by (auto simp: log_ok_def n_def)
  have slot: "j * ?s + ?s \<le> n * ?s" if "j < n" for j
    using mult_le_mono1 [of "Suc j" n ?s] that by simp
  have i: "i < n" using n(1) by (simp add: i_def)
  have fit: "?t + length entry \<le> length ?b" using slot [OF i] e len by simp
  have "dword (i * ?s) = i * ?s" using slot [OF i] len by (intro dword_id) (simp add: MAXDWORD_def)
  moreover define lg' where
    "lg' = lg\<lparr>NextEntry := long_incr (NextEntry lg), log_bytes := take ?t ?b @ entry @ drop (?t + length entry) ?b\<rparr>"
  ultimately have w: "WriteTraceLog lg entry = Some (i, lg')"
    using n(1,4) fit by (simp add: WriteTraceLog_def Let_def nx(2) n(2,3) e mem_read_def mem_write_def flip: i_def)
  have "ulong (long_incr (NextEntry lg) + 1) = Suc k mod 4294967296"
    unfolding ulong_Suc nx(2) by (simp add: mod_simps)
  then have "written_before lg' (Suc k)" using nx by (simp add: written_before_def lg'_def)
  moreover have "log_ok lg'"
  proof -
    have "length (log_bytes lg') = length ?b" using fit by (simp add: lg'_def)
    moreover have "LogSize lg' = LogSize lg" "EntrySize lg' = EntrySize lg" "LogBuffer lg' = LogBuffer lg"
      by (simp_all add: lg'_def)
    ultimately show ?thesis using ok(1) by (simp add: log_ok_def)
  qed
  moreover have "log_slot lg' i = entry" using fit e by (simp add: log_slot_def lg'_def)
  moreover have "log_extra lg' = log_extra lg"
    using same_bytes_before [OF fit] by (simp add: log_extra_def lg'_def)
  moreover have "log_slot lg' j = log_slot lg j" if j: "j < n" "j \<noteq> i" for j
    using same_bytes_elsewhere [OF fit, of "LogBuffer lg + j * ?s" ?s] slot_apart [OF j(2), of ?s] slot [OF j(1)] len e
    by (simp add: log_slot_def lg'_def)
  ultimately show thesis using w by (intro that [of lg']) (simp_all add: lg'_def i_def)
qed


text \<open>A run of writes, with the indices they return.\<close>

fun write_all :: "trace_log \<Rightarrow> BYTE list list \<Rightarrow> (nat list \<times> trace_log) option" where
  "write_all lg [] = Some ([], lg)"
| "write_all lg (e # es) = do {
     (i, lg1) \<leftarrow> WriteTraceLog lg e;
     (is, lg2) \<leftarrow> write_all lg1 es;
     Some (i # is, lg2) }"

lemma mod_apart: "0 < j \<Longrightarrow> j < n \<Longrightarrow> (k + j) mod n \<noteq> k mod (n::nat)"
  by (metis add.commute add_diff_cancel_left' dvd_imp_le le_add1 linorder_not_less mod_eq_dvd_iff_nat)

lemma write_all_correct:
  assumes "log_ok lg" "0 < LogSize lg" "written_before lg k" "\<forall>e\<in>set es. length e = nat (EntrySize lg)"
    "k + length es \<le> 4294967296"
  defines "n \<equiv> nat (LogSize lg)"
  shows "\<exists>lg'. write_all lg es = Some (map (\<lambda>j. j mod n) [k..<k + length es], lg') \<and> log_ok lg' \<and>
    LogSize lg' = LogSize lg \<and> EntrySize lg' = EntrySize lg \<and> log_extra lg' = log_extra lg \<and>
    (\<forall>j<length es. length es \<le> j + n \<longrightarrow> log_slot lg' ((k + j) mod n) = es ! j) \<and>
    (\<forall>i<n. (\<forall>j<length es. (k + j) mod n \<noteq> i) \<longrightarrow> log_slot lg' i = log_slot lg i)"
  using assms(1-5) unfolding n_def
proof (induction es arbitrary: lg k)
  case (Cons e es)
  let ?n = "nat (LogSize lg)"
  have k: "k mod 4294967296 = k" using Cons.prems(5) by simp
  obtain lg1 where W: "WriteTraceLog lg e = Some (k mod ?n, lg1)" "log_ok lg1" "LogSize lg1 = LogSize lg"
    "EntrySize lg1 = EntrySize lg" "written_before lg1 (Suc k)" "log_slot lg1 (k mod ?n) = e"
    "log_extra lg1 = log_extra lg" "\<And>i. i < ?n \<Longrightarrow> i \<noteq> k mod ?n \<Longrightarrow> log_slot lg1 i = log_slot lg i"
    using WriteTraceLog_correct [OF Cons.prems(1,2,3), of e] Cons.prems(4) unfolding k by auto
  from Cons.IH [OF W(2) _ W(5)] Cons.prems W(3,4) obtain lg' where I:
    "write_all lg1 es = Some (map (\<lambda>j. j mod ?n) [Suc k..<Suc k + length es], lg')" "log_ok lg'"
    "LogSize lg' = LogSize lg" "EntrySize lg' = EntrySize lg" "log_extra lg' = log_extra lg1"
    "\<And>j. j < length es \<Longrightarrow> length es \<le> j + ?n \<Longrightarrow> log_slot lg' ((Suc k + j) mod ?n) = es ! j"
    "\<And>i. i < ?n \<Longrightarrow> \<forall>j<length es. (Suc k + j) mod ?n \<noteq> i \<Longrightarrow> log_slot lg' i = log_slot lg1 i"
    by auto
  have n: "0 < ?n" using Cons.prems(2) by simp
  have "write_all lg (e # es) = Some (map (\<lambda>j. j mod ?n) [k..<k + length (e # es)], lg')"
    using W(1) I(1) by (simp add: upt_conv_Cons del: upt_Suc)
  moreover have "log_slot lg' ((k + j) mod ?n) = (e # es) ! j" if j: "j < length (e # es)" "length (e # es) \<le> j + ?n" for j
  proof (cases j)
    case 0
    then have "\<forall>i<length es. (Suc k + i) mod ?n \<noteq> k mod ?n" using j mod_apart [of "Suc _" ?n k] by fastforce
    then show ?thesis using I(7) [of "k mod ?n"] W(6) n 0 by simp
  next
    case (Suc i)
    then show ?thesis using I(6) [of i] j by simp
  qed
  moreover have "log_slot lg' i = log_slot lg i" if i: "i < ?n" "\<forall>j<length (e # es). (k + j) mod ?n \<noteq> i" for i
  proof -
    have "k mod ?n \<noteq> i" "\<forall>j<length es. (Suc k + j) mod ?n \<noteq> i" using i(2) by auto
    then show ?thesis using I(7) [OF i(1)] W(8) [OF i(1)] by simp
  qed
  ultimately show ?case using I W by auto
qed simp

section \<open>Reset\<close>

lemma ResetTraceLog_correct:
  assumes "log_ok lg"
  defines "N \<equiv> nat (LogSize lg) * nat (EntrySize lg)"
  shows "ResetTraceLog lg = Some (lg\<lparr>log_bytes := replicate N 0 @ drop N (log_bytes lg), NextEntry := -1\<rparr>)"
proof -
  have "nat (LogSize lg * EntrySize lg) = N" "0 \<le> LogSize lg * EntrySize lg" "N \<le> length (log_bytes lg)"
    using assms(1) by (auto simp: log_ok_def N_def nat_mult_distrib)
  then show ?thesis by (simp add: ResetTraceLog_def mem_write_def)
qed

lemma written_before_start: "NextEntry lg = -1 \<Longrightarrow> written_before lg 0"
  by (simp add: written_before_def is_long_def)

section \<open>Reading an entry of the reference trace\<close>

fun le_value :: "BYTE list \<Rightarrow> nat" where
  "le_value [] = 0"
| "le_value (b # bs) = unat b + 256 * le_value bs"

definition decode_entry :: "BYTE list \<Rightarrow> ref_trace_entry" where
  "decode_entry bs =
     \<lparr>NewRefCount = long_of_dword (le_value (take 4 bs)), Context = le_value (take 8 (drop 8 bs)),
      Context1 = le_value (take 8 (drop 16 bs)), Context2 = le_value (take 8 (drop 24 bs)),
      Context3 = le_value (take 8 (drop 32 bs)), Thread = le_value (take 4 (drop 40 bs)),
      Stack = map (\<lambda>i. le_value (take 8 (drop (48 + 8 * i) bs))) [0..<REF_TRACE_LOG_STACK_DEPTH]\<rparr>"

lemma length_le_bytes [simp]: "length (le_bytes k n) = k"
  by (simp add: le_bytes_def)

lemma le_value_bytes: "le_value (le_bytes k n) = n mod 256 ^ k"
proof (induction k arbitrary: n)
  case (Suc k)
  have e: "le_bytes (Suc k) n = of_nat n # le_bytes k (n div 256)"
    by (simp add: le_bytes_def upt_conv_Cons map_Suc_upt [symmetric] div_mult2_eq del: upt_Suc)
  have "unat (of_nat n :: BYTE) = n mod 256" by (simp add: unat_of_nat)
  then show ?case using mod_mult2_eq [of n 256 "256 ^ k"] unfolding e by (simp add: Suc.IH)
qed (simp add: le_bytes_def)

lemma long_of_ulong: "is_long x \<Longrightarrow> long_of_dword (ulong x) = x"
  using ulong_neg_eq [of x] by (cases "x < 0") (auto simp: is_long_def long_of_dword_def)

lemma concat_chunk:
  "i < length ss \<Longrightarrow> take 8 (drop (8 * i) (concat (map (le_bytes 8) ss))) = le_bytes 8 (ss ! i)"
proof (induction ss arbitrary: i)
  case (Cons s ss)
  then show ?case by (cases i) auto
qed simp

definition entry_fits :: "ref_trace_entry \<Rightarrow> bool" where
  "entry_fits e \<longleftrightarrow> is_long (NewRefCount e) \<and> length (Stack e) = REF_TRACE_LOG_STACK_DEPTH \<and> Thread e < 2 ^ 32 \<and>
     (\<forall>p \<in> set ([Context e, Context1 e, Context2 e, Context3 e] @ Stack e). p < 2 ^ 64)"

lemma length_entry_bytes: "length (Stack e) = REF_TRACE_LOG_STACK_DEPTH \<Longrightarrow> length (entry_bytes e) = sizeof_REF_TRACE_LOG_ENTRY"
  by (simp add: entry_bytes_def sizeof_REF_TRACE_LOG_ENTRY_def REF_TRACE_LOG_STACK_DEPTH_def length_concat
      comp_def sum_list_triv)

lemma ulong_less: "ulong x < 4294967296"
  by (simp add: ulong_def nat_less_iff)

lemma decode_entry_bytes:
  assumes "entry_fits e"
  shows "decode_entry (entry_bytes e) = e"
proof -
  let ?S = "concat (map (le_bytes 8) (Stack e))"
  have fields: "take 4 (entry_bytes e) = le_bytes 4 (ulong (NewRefCount e))"
    "take 8 (drop 8 (entry_bytes e)) = le_bytes 8 (Context e)"
    "take 8 (drop 16 (entry_bytes e)) = le_bytes 8 (Context1 e)"
    "take 8 (drop 24 (entry_bytes e)) = le_bytes 8 (Context2 e)"
    "take 8 (drop 32 (entry_bytes e)) = le_bytes 8 (Context3 e)"
    "take 4 (drop 40 (entry_bytes e)) = le_bytes 4 (Thread e)"
    by (simp_all add: entry_bytes_def)
  have tail: "drop (48 + k) (entry_bytes e) = drop k ?S" for k
    by (simp add: entry_bytes_def)
  have len: "length (Stack e) = REF_TRACE_LOG_STACK_DEPTH" using assms by (simp add: entry_fits_def)
  have p: "p \<in> set (Stack e) \<Longrightarrow> p mod 256 ^ 8 = p" for p using assms by (auto simp: entry_fits_def)
  have stack: "map (\<lambda>i. le_value (take 8 (drop (48 + 8 * i) (entry_bytes e)))) [0..<REF_TRACE_LOG_STACK_DEPTH] = Stack e"
    by (rule nth_equalityI) (use len concat_chunk p in \<open>auto simp: tail le_value_bytes\<close>)
  have "long_of_dword (le_value (le_bytes 4 (ulong (NewRefCount e)))) = NewRefCount e"
    using long_of_ulong [of "NewRefCount e"] ulong_less assms by (simp add: le_value_bytes entry_fits_def)
  then show ?thesis
    unfolding decode_entry_def fields stack using assms by (simp add: le_value_bytes entry_fits_def)
qed

lemma WriteRefTraceLogEx_correct:
  assumes "log_ok lg" "0 < LogSize lg" "EntrySize lg = 120" "written_before lg k"
    and frames: "length (backtrace s 9) \<le> 9" "\<forall>p\<in>set (backtrace s 9). p < 2 ^ 64" "s = (if c1 = 0 \<and> c2 = 0 \<and> c3 = 0 then 2 else 1)"
    and range: "is_long r" "c < 2 ^ 64" "c1 < 2 ^ 64" "c2 < 2 ^ 64" "c3 < 2 ^ 64" "tid < 2 ^ 32"
  obtains lg' where "WriteRefTraceLogEx tid backtrace lg r c c1 c2 c3 = Some (k mod 4294967296 mod nat (LogSize lg), lg')"
    "log_ok lg'" "written_before lg' (Suc k)"
    "decode_entry (log_slot lg' (k mod 4294967296 mod nat (LogSize lg))) =
       \<lparr>NewRefCount = r, Context = c, Context1 = c1, Context2 = c2, Context3 = c3, Thread = tid,
        Stack = backtrace s 9 @ replicate (9 - length (backtrace s 9)) 0\<rparr>"
proof -
  let ?e = "\<lparr>NewRefCount = r, Context = c, Context1 = c1, Context2 = c2, Context3 = c3, Thread = tid,
        Stack = backtrace s 9 @ replicate (9 - length (backtrace s 9)) 0\<rparr>"
  have fit: "entry_fits ?e" using frames range by (auto simp: entry_fits_def REF_TRACE_LOG_STACK_DEPTH_def)
  have "length (entry_bytes ?e) = nat (EntrySize lg)"
    using length_entry_bytes [of ?e] frames(1) assms(3)
    by (simp add: REF_TRACE_LOG_STACK_DEPTH_def sizeof_REF_TRACE_LOG_ENTRY_def)
  then obtain lg' where "WriteTraceLog lg (entry_bytes ?e) = Some (k mod 4294967296 mod nat (LogSize lg), lg')"
    "log_ok lg'" "written_before lg' (Suc k)" "log_slot lg' (k mod 4294967296 mod nat (LogSize lg)) = entry_bytes ?e"
    using WriteTraceLog_correct [OF assms(1,2,4)] by metis
  moreover from this(1) have "WriteRefTraceLogEx tid backtrace lg r c c1 c2 c3 = Some (k mod 4294967296 mod nat (LogSize lg), lg')"
    using frames(1) unfolding WriteRefTraceLogEx_def Let_def REF_TRACE_LOG_STACK_DEPTH_def frames(3) [symmetric] by simp
  ultimately show thesis using decode_entry_bytes [OF fit] that by metis
qed

end
