(* ===== verification/PerCpu.thy ===== *)
theory PerCpu
  imports Win32
begin

unbundle bit_operations_syntax

text \<open>
  \<^verbatim>\<open>PER_CPU<T>\<close> of percpu.h: one object per processor, each on its own cache line, inlined
  behind the instance in one aligned block.

  Offsets are bytes from the start of the block. The objects are a function from offsets;
  \<open>pc_get\<close> and \<open>pc_put\<close> return \<open>None\<close> outside the block. \<open>sz\<close> is \<^verbatim>\<open>sizeof(T)\<close>. The number of
  processors is what the system reports; \<open>_aligned_malloc\<close> is a heap request.
\<close>

section \<open>State and operations\<close>

record 'a per_cpu =
  m_pVariables :: nat
  m_Alignment :: nat
  m_VariablesCount :: nat
  pc_size :: nat
  pc_object :: "nat \<Rightarrow> 'a"

definition SYSTEM_CACHE_ALIGNMENT_SIZE :: nat where "SYSTEM_CACHE_ALIGNMENT_SIZE = 64"

text \<open>The cache line size and the number of processors.\<close>

definition GetProcessorInformation :: "nat \<Rightarrow> HRESULT \<times> nat \<times> nat" where
  "GetProcessorInformation dwNumberOfProcessors = (S_OK, SYSTEM_CACHE_ALIGNMENT_SIZE, dwNumberOfProcessors)"

definition GetObject :: "'a per_cpu \<Rightarrow> nat \<Rightarrow> nat" where
  "GetObject pc Index = m_pVariables pc + qword (Index * m_Alignment pc)"

text \<open>The index is the number of the processor the thread runs on.\<close>

definition GetLocal :: "'a per_cpu \<Rightarrow> nat \<Rightarrow> nat" where
  "GetLocal pc cpu = GetObject pc cpu"

definition pc_get :: "nat \<Rightarrow> 'a per_cpu \<Rightarrow> nat \<Rightarrow> 'a option" where
  "pc_get sz pc off = (if off + sz \<le> pc_size pc then Some (pc_object pc off) else None)"

definition pc_put :: "nat \<Rightarrow> 'a per_cpu \<Rightarrow> nat \<Rightarrow> 'a \<Rightarrow> 'a per_cpu option" where
  "pc_put sz pc off x =
     (if off + sz \<le> pc_size pc then Some (pc\<lparr>pc_object := (pc_object pc)(off := x)\<rparr>) else None)"

text \<open>The function called for each object may change it and a state of its own.\<close>

function for_each_loop ::
  "nat \<Rightarrow> ('a \<Rightarrow> 's \<Rightarrow> 'a \<times> 's) \<Rightarrow> 'a per_cpu \<Rightarrow> nat \<Rightarrow> 's \<Rightarrow> ('a per_cpu \<times> 's) option" where
  "for_each_loop sz Function pc Index s =
     (if Index < m_VariablesCount pc then do {
        x \<leftarrow> pc_get sz pc (GetObject pc Index);
        pc1 \<leftarrow> pc_put sz pc (GetObject pc Index) (fst (Function x s));
        for_each_loop sz Function pc1 (Index + 1) (snd (Function x s)) }
      else Some (pc, s))"
  by pat_completeness auto
termination
  by (relation "measure (\<lambda>(_, _, pc, i, _). m_VariablesCount pc - i)")
     (auto simp: pc_put_def split: if_splits)

declare for_each_loop.simps [simp del]

definition ForEach ::
  "nat \<Rightarrow> ('a \<Rightarrow> 's \<Rightarrow> 'a \<times> 's) \<Rightarrow> 'a per_cpu \<Rightarrow> 's \<Rightarrow> ('a per_cpu \<times> 's) option" where
  "ForEach sz Function pc s = for_each_loop sz Function pc 0 s"

definition pc_Initialize ::
  "nat \<Rightarrow> ('a \<Rightarrow> 'a) \<Rightarrow> 'a per_cpu \<Rightarrow> nat \<Rightarrow> nat \<Rightarrow> (HRESULT \<times> 'a per_cpu) option" where
  "pc_Initialize sz Initializer pc NumberOfVariables Alignment = do {
     (pc1, _) \<leftarrow> for_each_loop sz (\<lambda>x s. (Initializer x, s))
       (pc\<lparr>m_VariablesCount := NumberOfVariables, m_Alignment := Alignment\<rparr>) 0 ();
     Some (S_OK, pc1) }"

text \<open>The size of one slot. The rounding expression is the code's.\<close>

definition ObjectCacheLineSize :: "nat \<Rightarrow> nat \<Rightarrow> nat" where
  "ObjectCacheLineSize sz CacheLineSize =
     (if sz > CacheLineSize then dword ((sz + CacheLineSize - 1) AND (CacheLineSize - 1))
      else CacheLineSize)"

definition pc_Dispose :: "world \<Rightarrow> world" where
  "pc_Dispose w = HeapFree w"

text \<open>\<open>zero\<close> is the object whose bytes are all zero.\<close>

definition pc_Create ::
  "nat \<Rightarrow> 'a \<Rightarrow> ('a \<Rightarrow> 'a) \<Rightarrow> nat \<Rightarrow> world \<Rightarrow> (HRESULT \<times> 'a per_cpu option \<times> world) option" where
  "pc_Create sz zero Initializer dwNumberOfProcessors w =
     (case GetProcessorInformation dwNumberOfProcessors of (hr, CacheLineSize, NumberOfProcessors) \<Rightarrow>
        if FAILED hr then Some (hr, None, w)
        else
          (let line = ObjectCacheLineSize sz CacheLineSize;
               Size = dword (CacheLineSize + NumberOfProcessors * line)
           in (case heap_request Size w of
                 (False, w1) \<Rightarrow> Some (E_OUTOFMEMORY, None, w1)
               | (True, w1) \<Rightarrow> do {
                   (hr1, pc) \<leftarrow> pc_Initialize sz Initializer
                     \<lparr>m_pVariables = CacheLineSize, m_Alignment = 0, m_VariablesCount = 0,
                      pc_size = Size, pc_object = (\<lambda>_. zero)\<rparr> NumberOfProcessors line;
                   Some (if FAILED hr1 then (hr1, None, pc_Dispose w1) else (hr1, Some pc, w1)) })))"

section \<open>Invariant\<close>

text \<open>Every object lies in the block behind the header, and no two share a byte.\<close>

definition pc_ok :: "nat \<Rightarrow> 'a per_cpu \<Rightarrow> bool" where
  "pc_ok sz pc \<longleftrightarrow>
     0 < sz \<and> sz \<le> m_Alignment pc \<and> pc_size pc \<le> MAXDWORD \<and>
     m_pVariables pc + m_VariablesCount pc * m_Alignment pc \<le> pc_size pc"

definition pc_values :: "'a per_cpu \<Rightarrow> 'a list" where
  "pc_values pc = map (\<lambda>i. pc_object pc (m_pVariables pc + i * m_Alignment pc)) [0..<m_VariablesCount pc]"

lemma slot_end: "i < n \<Longrightarrow> i * a + a \<le> n * (a::nat)"
  using mult_le_mono1 [of "Suc i" n a] by simp

lemma GetObject_ok:
  assumes "pc_ok sz pc" "i < m_VariablesCount pc"
  shows "GetObject pc i = m_pVariables pc + i * m_Alignment pc" "GetObject pc i + sz \<le> pc_size pc"
proof -
  have e: "i * m_Alignment pc + m_Alignment pc \<le> m_VariablesCount pc * m_Alignment pc" using assms(2) by (rule slot_end)
  then show g: "GetObject pc i = m_pVariables pc + i * m_Alignment pc"
    using assms(1) unfolding GetObject_def by (subst qword_id) (auto simp: pc_ok_def MAXDWORD_def)
  show "GetObject pc i + sz \<le> pc_size pc" using e assms(1) unfolding g by (auto simp: pc_ok_def)
qed

lemma objects_apart:
  assumes "pc_ok sz pc" "i < m_VariablesCount pc" "j < m_VariablesCount pc" "i \<noteq> j"
  shows "GetObject pc i + sz \<le> GetObject pc j \<or> GetObject pc j + sz \<le> GetObject pc i"
proof -
  let ?a = "m_Alignment pc"
  have "i * ?a + ?a \<le> j * ?a \<or> j * ?a + ?a \<le> i * ?a"
    using assms(4) slot_end [of i j ?a] slot_end [of j i ?a] by (cases "i < j") auto
  then show ?thesis using assms by (auto simp: GetObject_ok(1) pc_ok_def)
qed

lemma pc_get_value: "pc_ok sz pc \<Longrightarrow> i < m_VariablesCount pc \<Longrightarrow> pc_get sz pc (GetObject pc i) = Some (pc_values pc ! i)"
  using GetObject_ok [of sz pc i] by (simp add: pc_get_def pc_values_def)

lemma pc_put_value:
  assumes "pc_ok sz pc" "i < m_VariablesCount pc"
  obtains pc' where "pc_put sz pc (GetObject pc i) x = Some pc'" "pc_ok sz pc'"
    "m_VariablesCount pc' = m_VariablesCount pc" "pc_values pc' = (pc_values pc)[i := x]"
    "\<And>j. GetObject pc' j = GetObject pc j"
proof -
  note G = GetObject_ok [OF assms]
  let ?pc = "pc\<lparr>pc_object := (pc_object pc)(GetObject pc i := x)\<rparr>"
  have "pc_put sz pc (GetObject pc i) x = Some ?pc" using G by (simp add: pc_put_def)
  moreover have "pc_ok sz ?pc" using assms(1) by (simp add: pc_ok_def)
  moreover have "pc_values ?pc = (pc_values pc)[i := x]"
  proof (rule nth_equalityI)
    fix j assume "j < length (pc_values ?pc)"
    then have j: "j < m_VariablesCount pc" by (simp add: pc_values_def)
    have "j \<noteq> i \<Longrightarrow> m_pVariables pc + j * m_Alignment pc \<noteq> m_pVariables pc + i * m_Alignment pc"
      using assms(1) by (simp add: pc_ok_def)
    then show "pc_values ?pc ! j = (pc_values pc)[i := x] ! j"
      using j assms(2) by (auto simp: pc_values_def G(1) nth_list_update)
  qed (simp add: pc_values_def)
  ultimately show thesis by (intro that [of ?pc]) (simp_all add: GetObject_def)
qed

lemma length_pc_values [simp]: "length (pc_values pc) = m_VariablesCount pc"
  by (simp add: pc_values_def)

section \<open>The loop over the objects\<close>

fun each :: "('a \<Rightarrow> 's \<Rightarrow> 'a \<times> 's) \<Rightarrow> 'a list \<Rightarrow> 's \<Rightarrow> 'a list \<times> 's" where
  "each f [] s = ([], s)"
| "each f (x # xs) s = (let (y, s1) = f x s; (ys, s2) = each f xs s1 in (y # ys, s2))"

lemma for_each_loop_correct:
  assumes "pc_ok sz pc" "i \<le> m_VariablesCount pc"
  shows "\<exists>pc'. for_each_loop sz f pc i s = Some (pc', snd (each f (drop i (pc_values pc)) s)) \<and> pc_ok sz pc' \<and>
    m_VariablesCount pc' = m_VariablesCount pc \<and> m_Alignment pc' = m_Alignment pc \<and>
    pc_values pc' = take i (pc_values pc) @ fst (each f (drop i (pc_values pc)) s)"
  using assms
proof (induction "m_VariablesCount pc - i" arbitrary: pc i s)
  case 0
  then show ?case by (subst for_each_loop.simps) simp
next
  case (Suc n)
  then have i: "i < m_VariablesCount pc" by simp
  let ?v = "pc_values pc"
  obtain y s1 where f: "f (?v ! i) s = (y, s1)" by fastforce
  obtain pc1 where P: "pc_put sz pc (GetObject pc i) y = Some pc1" "pc_ok sz pc1"
    "m_VariablesCount pc1 = m_VariablesCount pc" "pc_values pc1 = ?v[i := y]"
    "\<And>j. GetObject pc1 j = GetObject pc j"
    using pc_put_value [OF Suc.prems(1) i] by blast
  have a: "m_Alignment pc1 = m_Alignment pc" using P(1) by (auto simp: pc_put_def split: if_splits)
  have "n = m_VariablesCount pc1 - Suc i" "Suc i \<le> m_VariablesCount pc1" using Suc.hyps(2) P(3) i by simp_all
  from Suc.hyps(1) [OF this(1) P(2) this(2), of s1] obtain pc' where I:
    "for_each_loop sz f pc1 (Suc i) s1 = Some (pc', snd (each f (drop (Suc i) (pc_values pc1)) s1))" "pc_ok sz pc'"
    "m_VariablesCount pc' = m_VariablesCount pc1" "m_Alignment pc' = m_Alignment pc1"
    "pc_values pc' = take (Suc i) (pc_values pc1) @ fst (each f (drop (Suc i) (pc_values pc1)) s1)" by blast
  have d: "drop i ?v = ?v ! i # drop (Suc i) ?v" using i by (simp add: Cons_nth_drop_Suc)
  have "for_each_loop sz f pc i s = for_each_loop sz f pc1 (Suc i) s1"
    by (subst for_each_loop.simps) (simp add: i pc_get_value [OF Suc.prems(1) i] f P(1))
  moreover have "take (Suc i) (?v[i := y]) = take i ?v @ [y]" using i by (simp add: take_Suc_conv_app_nth)
  ultimately show ?case using I P(3,4) a d f by (simp add: split_beta)
qed

lemma ForEach_correct:
  assumes "pc_ok sz pc"
  shows "\<exists>pc'. ForEach sz f pc s = Some (pc', snd (each f (pc_values pc) s)) \<and> pc_ok sz pc' \<and>
    m_VariablesCount pc' = m_VariablesCount pc \<and> pc_values pc' = fst (each f (pc_values pc) s)"
  using for_each_loop_correct [OF assms, of 0 f s] by (auto simp: ForEach_def)

lemma each_pure: "each (\<lambda>x s. (g x, s)) xs s = (map g xs, s)"
  by (induction xs) auto

section \<open>Creation\<close>

text \<open>An object that fits a cache line gets one of its own.\<close>

lemma pc_Create_correct:
  assumes "0 < sz" "sz \<le> 64" "n < 67108863"
  shows "(\<exists>w'. pc_Create sz zero f n w = Some (E_OUTOFMEMORY, None, w') \<and> \<not> generous w) \<or>
    (\<exists>pc w'. pc_Create sz zero f n w = Some (S_OK, Some pc, w') \<and> pc_ok sz pc \<and>
      m_VariablesCount pc = n \<and> m_Alignment pc = 64 \<and> pc_values pc = replicate n (f zero))"
proof -
  have line: "ObjectCacheLineSize sz 64 = 64" using assms(2) by (simp add: ObjectCacheLineSize_def)
  have size: "dword (64 + n * 64) = 64 + n * 64" using assms(3) by (simp add: dword_id MAXDWORD_def)
  let ?pc = "\<lparr>m_pVariables = 64, m_Alignment = 64, m_VariablesCount = n, pc_size = 64 + n * 64, pc_object = (\<lambda>_. zero)\<rparr>"
  have ok: "pc_ok sz ?pc" using assms by (simp add: pc_ok_def MAXDWORD_def)
  have v: "pc_values ?pc = replicate n zero" by (simp add: pc_values_def map_replicate_const)
  obtain pc where F: "for_each_loop sz (\<lambda>x s. (f x, s)) ?pc 0 () = Some (pc, ())" "pc_ok sz pc"
    "m_VariablesCount pc = n" "m_Alignment pc = 64" "pc_values pc = replicate n (f zero)"
    using for_each_loop_correct [OF ok, of 0 "\<lambda>x s. (f x, s)" "()"] by (auto simp: each_pure v)
  show ?thesis
  proof (cases "heap_request (64 + n * 64) w")
    case (Pair g w1)
    show ?thesis
    proof (cases g)
      case True
      then show ?thesis using Pair F
        by (simp add: pc_Create_def GetProcessorInformation_def SYSTEM_CACHE_ALIGNMENT_SIZE_def Let_def line size
            pc_Initialize_def)
    next
      case False
      then have "\<not> generous w" using Pair by (auto simp: heap_request_def generous_def split: if_splits)
      then show ?thesis using False Pair
        by (simp add: pc_Create_def GetProcessorInformation_def SYSTEM_CACHE_ALIGNMENT_SIZE_def Let_def line size)
    qed
  qed
qed

text \<open>A larger object does not: the rounding mask lacks its complement, so the slot is smaller
  than the object (the remainder instead of the next multiple).\<close>

lemma rounding_remainder:
  assumes "64 < sz" "sz \<le> MAXDWORD"
  shows "ObjectCacheLineSize sz 64 = (sz + 63) mod 64"
proof -
  have "(sz + 63) AND 63 = (sz + 63) mod 64"
    using take_bit_eq_mask [of 6 "sz + 63"] by (simp add: take_bit_eq_mod Bit_Operations.mask_eq_exp_minus_1)
  then have "ObjectCacheLineSize sz 64 = dword ((sz + 63) mod 64)" using assms(1) by (simp add: ObjectCacheLineSize_def add.commute)
  also have "\<dots> = (sz + 63) mod 64"
    by (rule dword_id) (simp add: MAXDWORD_def order.trans [OF less_imp_le [OF mod_less_divisor]])
  finally show ?thesis .
qed

lemma for_each_loop_inside:
  "for_each_loop sz f pc i s = Some r \<Longrightarrow> i \<le> j \<Longrightarrow> j < m_VariablesCount pc \<Longrightarrow> GetObject pc j + sz \<le> pc_size pc"
proof (induction sz f pc i s rule: for_each_loop.induct)
  case (1 sz f pc i s)
  have i: "i < m_VariablesCount pc" using "1.prems" by simp
  from "1.prems"(1) obtain x pc1 where g: "pc_get sz pc (GetObject pc i) = Some x"
    and p: "pc_put sz pc (GetObject pc i) (fst (f x s)) = Some pc1"
    and r: "for_each_loop sz f pc1 (i + 1) (snd (f x s)) = Some r"
    by (subst (asm) for_each_loop.simps) (auto simp: i bind_eq_Some_conv)
  show ?case
  proof (cases "j = i")
    case True
    then show ?thesis using g by (simp add: pc_get_def split: if_splits)
  next
    case False
    have "pc1 = pc\<lparr>pc_object := (pc_object pc)(GetObject pc i := fst (f x s))\<rparr>"
      using p by (simp add: pc_put_def split: if_splits)
    then have same: "GetObject pc1 j = GetObject pc j" "pc_size pc1 = pc_size pc" "m_VariablesCount pc1 = m_VariablesCount pc"
      by (simp_all add: GetObject_def)
    show ?thesis using "1.IH" [OF i g p r] False "1.prems"(2,3) same by simp
  qed
qed

text \<open>So the last object sticks out of the block, and creation writes outside it.\<close>

lemma pc_Create_large:
  assumes sz: "64 < sz" "sz \<le> MAXDWORD" and n: "0 < n" "n < 67108863" and heap: "generous w"
  shows "pc_Create sz zero f n w = None"
proof (rule ccontr)
  assume not: "pc_Create sz zero f n w \<noteq> None"
  define l where "l = (sz + 63) mod 64"
  have l: "l < 64" by (simp add: l_def)
  have line: "ObjectCacheLineSize sz 64 = l" unfolding l_def by (rule rounding_remainder [OF sz])
  have "n * l \<le> n * 63" using l by (intro mult_le_mono2) simp
  then have "64 + n * l \<le> MAXDWORD" using n unfolding MAXDWORD_def by linarith
  then have size: "dword (64 + n * l) = 64 + n * l" by (rule dword_id)
  let ?pc = "\<lparr>m_pVariables = 64, m_Alignment = l, m_VariablesCount = n, pc_size = 64 + n * l, pc_object = (\<lambda>_. zero)\<rparr>"
  obtain w1 where "heap_request (64 + n * l) w = (True, w1)" using heap by (auto simp: heap_request_def generous_def)
  then obtain r where r: "for_each_loop sz (\<lambda>x s. (f x, s)) ?pc 0 () = Some r"
    using not by (auto simp: pc_Create_def GetProcessorInformation_def SYSTEM_CACHE_ALIGNMENT_SIZE_def Let_def line size
        pc_Initialize_def bind_eq_Some_conv)
  from for_each_loop_inside [OF r, of "n - 1"] n have "GetObject ?pc (n - 1) + sz \<le> 64 + n * l" by simp
  moreover have "(n - 1) * l \<le> n * 63" using l by (intro mult_le_mono) auto
  then have "(n - 1) * l < 18446744073709551616" using n by linarith
  then have "GetObject ?pc (n - 1) = 64 + (n - 1) * l" by (simp add: GetObject_def qword_id)
  moreover have "n * l = (n - 1) * l + l" using n(1) by (simp add: mult_eq_if)
  ultimately show False using l sz(1) by simp
qed

end
