(* ===== verification/AllocCache.thy ===== *)
theory AllocCache
  imports PerCpu
begin

text \<open>
  ALLOC_CACHE_HANDLER of acache.cxx and acache.h: a fixed-size allocator that keeps freed blocks on
  a lookaside list per processor, up to a threshold.

  Blocks live at addresses of the private heap; \<open>blocks\<close> holds those that are allocated, a block being
  the signature of its FREE_LIST_HEADER and the LONGs behind that header. An SLIST_HEADER is the stack of
  the addresses pushed on it. What HeapAlloc would return is an argument of \<open>Alloc\<close>, so the theorems
  hold for every behaviour of the heap. \<open>None\<close> is an access through a null pointer, to a block that is not
  allocated, or outside a block.
\<close>

section \<open>State\<close>

record block =
  dwSignature :: nat
  payload :: "int list"

type_synonym SLIST_HEADER = "nat list"

record alloc_cache =
  m_nThreshold :: int
  m_cbSize :: nat
  m_pFreeLists :: "SLIST_HEADER per_cpu option"
  m_nTotal :: int
  m_nFillPattern :: int
  blocks :: "nat \<Rightarrow> block option"

definition FREE_SIGNATURE :: nat where
  "FREE_SIGNATURE = 36 * 16777216 + 97 * 65536 + 67 * 256 + 193"

text \<open>Sizes on the 64-bit target: the header is aligned to 16 bytes.\<close>

definition sizeof_FREE_LIST_HEADER :: nat where "sizeof_FREE_LIST_HEADER = 32"
definition sizeof_SLIST_HEADER :: nat where "sizeof_SLIST_HEADER = 16"
definition sizeof_LONG :: nat where "sizeof_LONG = 4"

section \<open>Interlocked lists\<close>

text \<open>The depth is an USHORT.\<close>

definition QueryDepthSList :: "SLIST_HEADER \<Rightarrow> nat" where
  "QueryDepthSList l = length l mod 65536"

fun InterlockedPopEntrySList :: "SLIST_HEADER \<Rightarrow> nat option \<times> SLIST_HEADER" where
  "InterlockedPopEntrySList [] = (None, [])"
| "InterlockedPopEntrySList (x # xs) = (Some x, xs)"

definition InterlockedPushEntrySList :: "nat \<Rightarrow> SLIST_HEADER \<Rightarrow> SLIST_HEADER" where
  "InterlockedPushEntrySList x l = x # l"

section \<open>Operations\<close>

definition cache_ctor :: "int \<Rightarrow> (nat \<Rightarrow> block option) \<Rightarrow> alloc_cache" where
  "cache_ctor fill bs =
     \<lparr>m_nThreshold = 0, m_cbSize = 0, m_pFreeLists = None, m_nTotal = 0, m_nFillPattern = fill, blocks = bs\<rparr>"

text \<open>What the system says: whether verifier.dll is loaded, and the outcomes of HeapCreate, HeapLock and
  HeapWalk, the last with the error code when it fails.\<close>

definition IsPageheapEnabled :: "bool \<Rightarrow> bool \<Rightarrow> bool \<Rightarrow> nat option \<Rightarrow> bool" where
  "IsPageheapEnabled verifier created locked walkError =
     (if verifier then True
      else if \<not> created then False
      else if \<not> locked then False
      else (case walkError of Some e \<Rightarrow> e = 1 | None \<Rightarrow> False))"

text \<open>The heap handle shared by all caches, set to the process heap.\<close>

definition StaticInitialize :: "nat \<Rightarrow> nat option \<Rightarrow> HRESULT \<times> nat option" where
  "StaticInitialize hProcessHeap sm_hHeap = (S_OK, Some hProcessHeap)"

definition StaticTerminate :: "nat option \<Rightarrow> nat option" where
  "StaticTerminate sm_hHeap = None"

text \<open>The lists are created for the processors there are; \<open>sm\<close> is the shared fill counter.\<close>

definition cache_Initialize ::
  "bool \<Rightarrow> nat \<Rightarrow> nat \<Rightarrow> int \<Rightarrow> int \<Rightarrow> alloc_cache \<Rightarrow> world \<Rightarrow> (HRESULT \<times> alloc_cache \<times> int \<times> world) option" where
  "cache_Initialize pageheap nProcessors cbSize nThreshold sm c w =
     (let threshold = (if pageheap then 0 else if nThreshold > 65535 then 65535 else nThreshold);
          size0 = max cbSize sizeof_FREE_LIST_HEADER;
          size1 = dword (size0 + sizeof_LONG - 1 - (size0 + sizeof_LONG - 1) mod sizeof_LONG);
          c1 = c\<lparr>m_nThreshold := threshold, m_cbSize := size1\<rparr>
      in do {
        (hr, lists, w1) \<leftarrow> pc_Create sizeof_SLIST_HEADER [] (\<lambda>_. []) nProcessors w;
        Some (if FAILED hr then (hr, c1, sm, w1)
              else (hr, c1\<lparr>m_pFreeLists := lists, m_nFillPattern := long_incr sm\<rparr>, long_incr sm, w1)) })"

text \<open>Taking a block from the list of the processor.\<close>

definition pop_local :: "nat \<Rightarrow> alloc_cache \<Rightarrow> (nat option \<times> alloc_cache) option" where
  "pop_local cpu c = do {
     pc \<leftarrow> m_pFreeLists c;
     l \<leftarrow> pc_get sizeof_SLIST_HEADER pc (GetLocal pc cpu);
     pc1 \<leftarrow> pc_put sizeof_SLIST_HEADER pc (GetLocal pc cpu) (snd (InterlockedPopEntrySList l));
     Some (fst (InterlockedPopEntrySList l), c\<lparr>m_pFreeLists := Some pc1\<rparr>) }"

definition cache_Alloc ::
  "nat \<Rightarrow> (nat \<times> block) option \<Rightarrow> alloc_cache \<Rightarrow> world \<Rightarrow> (nat option \<times> alloc_cache \<times> world) option" where
  "cache_Alloc cpu heapAlloc c w = do {
     (cached, c1) \<leftarrow> (if m_nThreshold c > 0 then pop_local cpu c else Some (None, c));
     let (pMemory, c2) =
       (case cached of
          Some p \<Rightarrow> (Some p, c1)
        | None \<Rightarrow>
            (case heapAlloc of
               None \<Rightarrow> (None, c1)
             | Some (p, b) \<Rightarrow> (Some p, c1\<lparr>blocks := (blocks c1)(p \<mapsto> b), m_nTotal := long_incr (m_nTotal c1)\<rparr>)));
     (case pMemory of
        None \<Rightarrow> Some (None, c2, SetLastError ERROR_NOT_ENOUGH_MEMORY w)
      | Some p \<Rightarrow> do {
          b \<leftarrow> blocks c2 p;
          Some (Some p, c2\<lparr>blocks := (blocks c2)(p \<mapsto> b\<lparr>dwSignature := 0\<rparr>)\<rparr>, w) }) }"

text \<open>The bytes to fill: the subtraction of a size_t wraps, and its result is stored in a LONG.\<close>

definition fill_bytes :: "nat \<Rightarrow> int" where
  "fill_bytes cbSize =
     long_of_dword (dword (qword (min (6 * sizeof_LONG) cbSize + 18446744073709551616 - sizeof_FREE_LIST_HEADER)))"

function fill_loop :: "int \<Rightarrow> int list \<Rightarrow> nat \<Rightarrow> int \<Rightarrow> int list option" where
  "fill_loop pattern pl i cb =
     (if cb > 0 then do {
        pl1 \<leftarrow> mem_put i pattern pl;
        fill_loop pattern pl1 (i + 1) (cb - 4) }
      else Some pl)"
  by pat_completeness auto
termination by (relation "measure (\<lambda>(_, _, _, cb). nat cb)") auto

declare fill_loop.simps [simp del]

definition cache_Free :: "nat \<Rightarrow> nat \<Rightarrow> alloc_cache \<Rightarrow> alloc_cache option" where
  "cache_Free cpu pMemory c = do {
     b \<leftarrow> blocks c pMemory;
     pl \<leftarrow> fill_loop (m_nFillPattern c) (payload b) 0 (fill_bytes (m_cbSize c));
     let c1 = c\<lparr>blocks := (blocks c)(pMemory \<mapsto> \<lparr>dwSignature = FREE_SIGNATURE, payload = pl\<rparr>)\<rparr>;
     pc \<leftarrow> m_pFreeLists c1;
     l \<leftarrow> pc_get sizeof_SLIST_HEADER pc (GetLocal pc cpu);
     if int (QueryDepthSList l) \<ge> m_nThreshold c1
     then Some (c1\<lparr>blocks := (blocks c1)(pMemory := None)\<rparr>)
     else do {
       pc1 \<leftarrow> pc_put sizeof_SLIST_HEADER pc (GetLocal pc cpu) (InterlockedPushEntrySList pMemory l);
       Some (c1\<lparr>m_pFreeLists := Some pc1\<rparr>) } }"

text \<open>Emptying one list: at most as many blocks as its depth said at the start. The arguments are the
  list the next pop sees and \<open>NodesToDelete\<close>; the state is the counter and the heap.\<close>

fun cleanup_list ::
  "SLIST_HEADER \<Rightarrow> int \<Rightarrow> int \<times> (nat \<Rightarrow> block option) \<Rightarrow> SLIST_HEADER \<times> int \<times> (nat \<Rightarrow> block option)" where
  "cleanup_list [] n (cnt, bs) = ([], cnt, bs)"
| "cleanup_list (pl # l) n (cnt, bs) =
     (if n - 1 \<ge> 0 then cleanup_list l (n - 1) (long_decr cnt, bs(pl := None)) else (l, cnt, bs))"

definition CleanupLookaside :: "alloc_cache \<Rightarrow> alloc_cache option" where
  "CleanupLookaside c = do {
     pc \<leftarrow> m_pFreeLists c;
     (pc1, cnt, bs) \<leftarrow> ForEach sizeof_SLIST_HEADER (\<lambda>l s. cleanup_list l (int (QueryDepthSList l)) s) pc
       (m_nTotal c, blocks c);
     Some (c\<lparr>m_pFreeLists := Some pc1, m_nTotal := cnt, blocks := bs\<rparr>) }"

definition cache_dtor :: "alloc_cache \<Rightarrow> world \<Rightarrow> (alloc_cache \<times> world) option" where
  "cache_dtor c w =
     (if m_pFreeLists c \<noteq> None then do {
        c1 \<leftarrow> CleanupLookaside c;
        Some (c1\<lparr>m_pFreeLists := None\<rparr>, pc_Dispose w) }
      else Some (c, w))"

definition QueryDepthForAllSLists :: "alloc_cache \<Rightarrow> nat option" where
  "QueryDepthForAllSLists c =
     (case m_pFreeLists c of
        None \<Rightarrow> Some 0
      | Some pc \<Rightarrow> do {
          (_, count) \<leftarrow> ForEach sizeof_SLIST_HEADER (\<lambda>l s. (l, dword (s + QueryDepthSList l))) pc 0;
          Some count })"

section \<open>Invariant\<close>

text \<open>The blocks are those the clients hold, \<open>U\<close>, and those on the lists, each once.\<close>

definition lists_inv :: "SLIST_HEADER list \<Rightarrow> int \<Rightarrow> (nat \<Rightarrow> block option) \<Rightarrow> nat set \<Rightarrow> bool" where
  "lists_inv vs threshold bs U \<longleftrightarrow>
     distinct (concat vs) \<and> set (concat vs) \<inter> U = {} \<and> dom bs = U \<union> set (concat vs) \<and>
     (\<forall>l\<in>set vs. int (length l) \<le> max 0 threshold) \<and>
     (\<forall>p\<in>set (concat vs). \<exists>b. bs p = Some b \<and> dwSignature b = FREE_SIGNATURE)"

definition cache_inv :: "alloc_cache \<Rightarrow> nat set \<Rightarrow> bool" where
  "cache_inv c U \<longleftrightarrow>
     (\<exists>pc. m_pFreeLists c = Some pc \<and> pc_ok sizeof_SLIST_HEADER pc \<and>
        lists_inv (pc_values pc) (m_nThreshold c) (blocks c) U) \<and>
     m_nThreshold c \<le> 65535 \<and> sizeof_FREE_LIST_HEADER \<le> m_cbSize c"

definition cache_cpus :: "alloc_cache \<Rightarrow> nat" where
  "cache_cpus c = (case m_pFreeLists c of None \<Rightarrow> 0 | Some pc \<Rightarrow> m_VariablesCount pc)"

text \<open>On this target the header is larger than the 24 bytes the loop means to cover, so it never runs.\<close>

lemma fill_nothing: "32 \<le> cb \<Longrightarrow> fill_bytes cb = -8"
  by (simp add: fill_bytes_def sizeof_LONG_def sizeof_FREE_LIST_HEADER_def qword_def dword_def long_of_dword_def min_def)

lemma fill_loop_nothing: "32 \<le> cb \<Longrightarrow> fill_loop pat pl i (fill_bytes cb) = Some pl"
  by (subst fill_loop.simps) (simp add: fill_nothing)


section \<open>Alloc and Free keep the invariant\<close>

lemma concat_split: "i < length vs \<Longrightarrow> concat vs = concat (take i vs) @ vs ! i @ concat (drop (Suc i) vs)"
  by (metis append_take_drop_id concat.simps(2) concat_append Cons_nth_drop_Suc)

lemma concat_update: "i < length vs \<Longrightarrow> concat (vs[i := l]) = concat (take i vs) @ l @ concat (drop (Suc i) vs)"
  by (simp add: upd_conv_take_nth_drop)

lemma lists_inv_write: "lists_inv vs n bs U \<Longrightarrow> p \<in> U \<Longrightarrow> lists_inv vs n (bs(p \<mapsto> b)) U"
  by (auto simp: lists_inv_def)

lemma lists_inv_alloc: "lists_inv vs n bs U \<Longrightarrow> p \<notin> dom bs \<Longrightarrow> lists_inv vs n (bs(p \<mapsto> b)) (insert p U)"
  by (auto simp: lists_inv_def)

lemma lists_inv_release: "lists_inv vs n bs U \<Longrightarrow> p \<in> U \<Longrightarrow> lists_inv vs n (bs(p := None)) (U - {p})"
  by (auto simp: lists_inv_def)

lemma lists_inv_pop:
  assumes "lists_inv vs n bs U" "i < length vs" "vs ! i = p # l"
  shows "lists_inv (vs[i := l]) n bs (insert p U)" "p \<in> dom bs" "p \<notin> U"
proof -
  note C = concat_split [OF assms(2), unfolded assms(3)] and D = concat_update [OF assms(2), of l]
  have len: "int (length l) \<le> max 0 n" using assms nth_mem [OF assms(2)] by (fastforce simp: lists_inv_def)
  show "lists_inv (vs[i := l]) n bs (insert p U)"
    unfolding lists_inv_def D using assms(1) len set_update_subset_insert [of vs i l]
    unfolding lists_inv_def C by auto
  show "p \<in> dom bs" "p \<notin> U" using assms(1) unfolding lists_inv_def C by auto
qed

lemma lists_inv_push:
  assumes "lists_inv vs n bs U" "i < length vs" "p \<in> U" "bs p = Some b" "dwSignature b = FREE_SIGNATURE"
    "int (length (vs ! i)) < n"
  shows "lists_inv (vs[i := p # vs ! i]) n bs (U - {p})"
proof -
  note C = concat_split [OF assms(2)] and D = concat_update [OF assms(2), of "p # vs ! i"]
  have "\<forall>l\<in>set (vs[i := p # vs ! i]). int (length l) \<le> max 0 n"
    using assms(1,6) set_update_subset_insert [of vs i "p # vs ! i"] unfolding lists_inv_def by auto
  then show ?thesis
    unfolding lists_inv_def D using assms(1,3,4,5) unfolding lists_inv_def C by auto
qed

lemma pop_local_cases:
  assumes inv: "cache_inv c U" and cpu: "cpu < cache_cpus c"
  obtains (empty) c' where "pop_local cpu c = Some (None, c')" "cache_inv c' U" "cache_cpus c' = cache_cpus c"
      "m_nThreshold c' = m_nThreshold c" "blocks c' = blocks c"
  | (hit) p c' where "pop_local cpu c = Some (Some p, c')" "cache_inv c' (insert p U)" "cache_cpus c' = cache_cpus c"
      "m_nThreshold c' = m_nThreshold c" "blocks c' = blocks c" "p \<in> dom (blocks c)" "p \<notin> U"
proof -
  obtain pc where pc: "m_pFreeLists c = Some pc" "pc_ok sizeof_SLIST_HEADER pc"
    "lists_inv (pc_values pc) (m_nThreshold c) (blocks c) U" using inv by (auto simp: cache_inv_def)
  have i: "cpu < m_VariablesCount pc" using cpu pc(1) by (simp add: cache_cpus_def)
  note G = pc_get_value [OF pc(2) i, folded GetLocal_def]
  obtain pc1 where P: "pc_put sizeof_SLIST_HEADER pc (GetLocal pc cpu) (snd (InterlockedPopEntrySList (pc_values pc ! cpu))) = Some pc1"
    "pc_ok sizeof_SLIST_HEADER pc1" "m_VariablesCount pc1 = m_VariablesCount pc"
    "pc_values pc1 = (pc_values pc)[cpu := snd (InterlockedPopEntrySList (pc_values pc ! cpu))]"
    using pc_put_value [OF pc(2) i, of "snd (InterlockedPopEntrySList (pc_values pc ! cpu))", folded GetLocal_def] by blast
  let ?c = "c\<lparr>m_pFreeLists := Some pc1\<rparr>"
  have pop: "pop_local cpu c = Some (fst (InterlockedPopEntrySList (pc_values pc ! cpu)), ?c)"
    by (simp add: pop_local_def pc(1) G P(1))
  have cpus: "cache_cpus ?c = cache_cpus c" by (simp add: cache_cpus_def pc(1) P(3))
  show thesis
  proof (cases "pc_values pc ! cpu")
    case Nil
    then have "pc_values pc1 = pc_values pc" using P(4) by simp (metis list_update_id)
    then have "cache_inv ?c U" using inv pc P(2) by (auto simp: cache_inv_def)
    then show ?thesis using empty pop cpus Nil by simp
  next
    case (Cons p l)
    then have "pc_values pc1 = (pc_values pc)[cpu := l]" using P(4) by simp
    then have "cache_inv ?c (insert p U)"
      using inv P(2) lists_inv_pop(1) [OF pc(3) _ Cons] i by (auto simp: cache_inv_def)
    then show ?thesis using hit pop cpus Cons lists_inv_pop(2,3) [OF pc(3) _ Cons] i by simp
  qed
qed

lemma cache_inv_write: "cache_inv c U \<Longrightarrow> p \<in> U \<Longrightarrow> cache_inv (c\<lparr>blocks := (blocks c)(p \<mapsto> b)\<rparr>) U"
  using lists_inv_write by (auto simp: cache_inv_def)

lemma cache_inv_dom: "cache_inv c U \<Longrightarrow> U \<subseteq> dom (blocks c)"
  by (auto simp: cache_inv_def lists_inv_def)

text \<open>\<open>Alloc\<close> hands out a block nobody holds, or nothing when the heap refuses and the list is empty.\<close>

lemma cache_Alloc_correct:
  assumes inv: "cache_inv c U" and cpu: "cpu < cache_cpus c" and fresh: "\<And>p b. ret = Some (p, b) \<Longrightarrow> p \<notin> dom (blocks c)"
  obtains (block) p c' where "cache_Alloc cpu ret c w = Some (Some p, c', w)" "p \<notin> U" "cache_inv c' (insert p U)"
      "cache_cpus c' = cache_cpus c" "\<exists>b. blocks c' p = Some b \<and> dwSignature b = 0"
  | (none) c' where "cache_Alloc cpu ret c w = Some (None, c', SetLastError ERROR_NOT_ENOUGH_MEMORY w)" "ret = None"
      "cache_inv c' U" "cache_cpus c' = cache_cpus c" "blocks c' = blocks c"
proof -
  have miss: thesis if c1: "(if m_nThreshold c > 0 then pop_local cpu c else Some (None, c)) = Some (None, c1)" "cache_inv c1 U"
    "cache_cpus c1 = cache_cpus c" "blocks c1 = blocks c" for c1
  proof (cases ret)
    case None
    then show ?thesis using none [of c1] c1 by (simp add: cache_Alloc_def)
  next
    case (Some pb)
    then obtain p b where r: "ret = Some (p, b)" by (cases pb) auto
    let ?c = "c1\<lparr>blocks := (blocks c1)(p \<mapsto> b), m_nTotal := long_incr (m_nTotal c1)\<rparr>"
    have "cache_inv ?c (insert p U)"
      using c1(2) lists_inv_alloc fresh [OF r] c1(4) by (fastforce simp: cache_inv_def)
    from cache_inv_write [OF this, of p "b\<lparr>dwSignature := 0\<rparr>"]
    have i: "cache_inv (?c\<lparr>blocks := (blocks ?c)(p \<mapsto> b\<lparr>dwSignature := 0\<rparr>)\<rparr>) (insert p U)" by simp
    have "p \<notin> U" using fresh [OF r] cache_inv_dom [OF inv] by auto
    then show ?thesis
      using block [of p "?c\<lparr>blocks := (blocks ?c)(p \<mapsto> b\<lparr>dwSignature := 0\<rparr>)\<rparr>"] i c1
      by (simp add: cache_Alloc_def r cache_cpus_def)
  qed
  show thesis
  proof (cases "m_nThreshold c > 0")
    case True
    from inv cpu show ?thesis
    proof (cases rule: pop_local_cases)
      case (empty c1)
      then show ?thesis using miss [of c1] True by simp
    next
      case (hit p c1)
      obtain b where b: "blocks c1 p = Some b" using hit(5,6) by auto
      then show ?thesis
        using block [of p "c1\<lparr>blocks := (blocks c1)(p \<mapsto> b\<lparr>dwSignature := 0\<rparr>)\<rparr>"] hit True
          cache_inv_write [OF hit(2), of p "b\<lparr>dwSignature := 0\<rparr>"]
        by (simp add: cache_Alloc_def cache_cpus_def)
    qed
  next
    case False
    then show ?thesis using miss [of c] inv by simp
  qed
qed


text \<open>\<open>Free\<close> takes the block back, to the list or to the heap.\<close>

lemma cache_Free_correct:
  assumes inv: "cache_inv c U" and cpu: "cpu < cache_cpus c" and p: "p \<in> U"
  obtains c' where "cache_Free cpu p c = Some c'" "cache_inv c' (U - {p})" "cache_cpus c' = cache_cpus c"
proof -
  obtain pc where pc: "m_pFreeLists c = Some pc" "pc_ok sizeof_SLIST_HEADER pc"
    "lists_inv (pc_values pc) (m_nThreshold c) (blocks c) U" "m_nThreshold c \<le> 65535" "sizeof_FREE_LIST_HEADER \<le> m_cbSize c"
    using inv by (auto simp: cache_inv_def)
  have i: "cpu < m_VariablesCount pc" using cpu pc(1) by (simp add: cache_cpus_def)
  note G = pc_get_value [OF pc(2) i, folded GetLocal_def]
  obtain b where b: "blocks c p = Some b" using p cache_inv_dom [OF inv] by auto
  let ?b = "\<lparr>dwSignature = FREE_SIGNATURE, payload = payload b\<rparr>"
  let ?c = "c\<lparr>blocks := (blocks c)(p \<mapsto> ?b)\<rparr>"
  let ?l = "pc_values pc ! cpu"
  have L: "lists_inv (pc_values pc) (m_nThreshold c) (blocks ?c) U" using lists_inv_write [OF pc(3) p] by simp
  have "int (length ?l) \<le> max 0 (m_nThreshold c)" using pc(3) i by (simp add: lists_inv_def)
  then have "length ?l \<le> 65535" using pc(4) by (simp add: max_def split: if_splits)
  then have depth: "QueryDepthSList ?l = length ?l" by (simp add: QueryDepthSList_def)
  have fill: "fill_loop (m_nFillPattern c) (payload b) 0 (fill_bytes (m_cbSize c)) = Some (payload b)"
    using pc(5) by (intro fill_loop_nothing) (simp add: sizeof_FREE_LIST_HEADER_def)
  obtain pc1 where P: "pc_put sizeof_SLIST_HEADER pc (GetLocal pc cpu) (p # ?l) = Some pc1" "pc_ok sizeof_SLIST_HEADER pc1"
    "m_VariablesCount pc1 = m_VariablesCount pc" "pc_values pc1 = (pc_values pc)[cpu := p # ?l]"
    using pc_put_value [OF pc(2) i, of "p # ?l", folded GetLocal_def] by blast
  have run: "cache_Free cpu p c =
    (if m_nThreshold c \<le> int (length ?l) then Some (?c\<lparr>blocks := (blocks ?c)(p := None)\<rparr>)
     else Some (?c\<lparr>m_pFreeLists := Some pc1\<rparr>))"
    using pc(1) P(1) by (simp add: cache_Free_def b fill G depth InterlockedPushEntrySList_def)
  show thesis
  proof (cases "m_nThreshold c \<le> int (length ?l)")
    case True
    have "cache_inv (?c\<lparr>blocks := (blocks ?c)(p := None)\<rparr>) (U - {p})"
      using pc lists_inv_release [OF L p] by (auto simp: cache_inv_def)
    then show ?thesis using that run True by (simp add: cache_cpus_def)
  next
    case False
    have "lists_inv ((pc_values pc)[cpu := p # ?l]) (m_nThreshold c) (blocks ?c) (U - {p})"
      using L i p False by (intro lists_inv_push [where b = ?b]) auto
    then have "cache_inv (?c\<lparr>m_pFreeLists := Some pc1\<rparr>) (U - {p})"
      using pc P by (auto simp: cache_inv_def)
    then show ?thesis using that run False P(3) pc(1) by (simp add: cache_cpus_def)
  qed
qed

section \<open>Creation and destruction\<close>

lemma round_up_4:
  assumes "cb \<le> 4294967292"
  defines "r \<equiv> dword (max cb 32 + 4 - 1 - (max cb 32 + 4 - 1) mod 4)"
  shows "32 \<le> r" "cb \<le> r" "r mod 4 = 0"
proof -
  have "max cb 32 + 4 - 1 - (max cb 32 + 4 - 1) mod 4 = (max cb 32 + 3) div 4 * 4"
    by (simp add: minus_mod_eq_div_mult add.commute)
  moreover have "(max cb 32 + 3) div 4 * 4 \<le> MAXDWORD" using assms(1) unfolding MAXDWORD_def by simp
  ultimately have r: "r = (max cb 32 + 3) div 4 * 4" unfolding r_def by (simp add: dword_id)
  show "32 \<le> r" "cb \<le> r" unfolding r by linarith+
  show "r mod 4 = 0" unfolding r by simp
qed

lemma cache_Initialize_correct:
  assumes n: "n < 67108863" and cb: "cbSize \<le> 4294967292" and b: "blocks c = Map.empty"
  shows "(\<exists>c' w'. cache_Initialize pageheap n cbSize nThreshold sm c w = Some (E_OUTOFMEMORY, c', sm, w') \<and>
      m_pFreeLists c' = m_pFreeLists c \<and> \<not> generous w) \<or>
    (\<exists>c' w'. cache_Initialize pageheap n cbSize nThreshold sm c w = Some (S_OK, c', long_incr sm, w') \<and>
      cache_inv c' {} \<and> cache_cpus c' = n \<and> m_nThreshold c' = (if pageheap then 0 else min nThreshold 65535) \<and>
      cbSize \<le> m_cbSize c' \<and> m_cbSize c' mod 4 = 0)"
proof -
  note R = round_up_4 [OF cb]
  define thr where "thr = (if pageheap then 0 else if nThreshold > 65535 then 65535 else nThreshold)"
  define r where "r = dword (max cbSize 32 + 4 - 1 - (max cbSize 32 + 4 - 1) mod 4)"
  have thr: "thr \<le> 65535" "thr = (if pageheap then 0 else min nThreshold 65535)" by (auto simp: thr_def)
  have run: "cache_Initialize pageheap n cbSize nThreshold sm c w = do {
      (hr, lists, w1) \<leftarrow> pc_Create 16 [] (\<lambda>_. []) n w;
      Some (if FAILED hr then (hr, c\<lparr>m_nThreshold := thr, m_cbSize := r\<rparr>, sm, w1)
            else (hr, c\<lparr>m_nThreshold := thr, m_cbSize := r\<rparr>\<lparr>m_pFreeLists := lists, m_nFillPattern := long_incr sm\<rparr>,
              long_incr sm, w1)) }"
    unfolding cache_Initialize_def Let_def sizeof_FREE_LIST_HEADER_def sizeof_LONG_def sizeof_SLIST_HEADER_def
      thr_def r_def by (rule refl)
  note R = R [folded r_def]
  from pc_Create_correct [of 16 n "[]" "\<lambda>_. []" w] n
  consider (no) w' where "pc_Create 16 [] (\<lambda>_. []) n w = Some (E_OUTOFMEMORY, None :: SLIST_HEADER per_cpu option, w')" "\<not> generous w"
    | (yes) pc w' where "pc_Create 16 [] (\<lambda>_. []) n w = Some (S_OK, Some (pc :: SLIST_HEADER per_cpu), w')" "pc_ok 16 pc"
      "m_VariablesCount pc = n" "pc_values pc = replicate n []" by auto
  then show ?thesis
  proof cases
    case no
    then show ?thesis unfolding run by simp
  next
    case yes
    have "lists_inv (replicate n []) thr Map.empty {}" by (simp add: lists_inv_def)
    then show ?thesis using yes R thr(1) b unfolding run thr(2) [symmetric]
      by (simp add: cache_inv_def cache_cpus_def sizeof_FREE_LIST_HEADER_def sizeof_SLIST_HEADER_def)
  qed
qed

lemma cleanup_list_all:
  "int (length l) \<le> n \<Longrightarrow>
   cleanup_list l n (t, bs) = ([], (long_decr ^^ length l) t, \<lambda>p. if p \<in> set l then None else bs p)"
proof (induction l arbitrary: n t bs)
  case (Cons p l)
  have "(\<lambda>q. if q \<in> set l then None else (bs(p := None)) q) = (\<lambda>q. if q \<in> set (p # l) then None else bs q)" by auto
  then show ?case using Cons by (simp add: funpow_swap1)
qed simp

lemma funpow_swap: "(f ^^ m) ((f ^^ n) x) = (f ^^ n) ((f ^^ m) x)"
  by (metis add.commute comp_apply funpow_add)

lemma each_cleanup:
  assumes "\<forall>l\<in>set vs. length l \<le> 65535"
  shows "each (\<lambda>l s. cleanup_list l (int (QueryDepthSList l)) s) vs (t, bs) =
    (map (\<lambda>_. []) vs, (long_decr ^^ length (concat vs)) t, \<lambda>p. if p \<in> set (concat vs) then None else bs p)"
  using assms
proof (induction vs arbitrary: t bs)
  case (Cons l vs)
  have d: "QueryDepthSList l = length l" using Cons.prems by (simp add: QueryDepthSList_def)
  have "(\<lambda>q. if q \<in> set (concat vs) then None else if q \<in> set l then None else bs q) =
    (\<lambda>q. if q \<in> set (concat (l # vs)) then None else bs q)" by auto
  then show ?case using Cons by (simp add: d cleanup_list_all funpow_add funpow_swap [where f = long_decr and n = "length l"])
qed simp

lemma lists_short:
  assumes "cache_inv c U" "m_pFreeLists c = Some pc" "l \<in> set (pc_values pc)"
  shows "length l \<le> 65535"
proof -
  have "int (length l) \<le> max 0 (m_nThreshold c)" "m_nThreshold c \<le> 65535"
    using assms by (auto simp: cache_inv_def lists_inv_def)
  then show ?thesis by (simp add: max_def split: if_splits)
qed

text \<open>The destructor gives every cached block back, and only those.\<close>

lemma cache_dtor_correct:
  assumes inv: "cache_inv c U"
  obtains c' where "cache_dtor c w = Some (c', HeapFree w)" "m_pFreeLists c' = None"
    "dom (blocks c') = U" "\<forall>p\<in>U. blocks c' p = blocks c p"
proof -
  obtain pc where pc: "m_pFreeLists c = Some pc" "pc_ok sizeof_SLIST_HEADER pc"
    "lists_inv (pc_values pc) (m_nThreshold c) (blocks c) U" using inv by (auto simp: cache_inv_def)
  have E: "each (\<lambda>l s. cleanup_list l (int (QueryDepthSList l)) s) (pc_values pc) (m_nTotal c, blocks c) =
    (map (\<lambda>_. []) (pc_values pc), (long_decr ^^ length (concat (pc_values pc))) (m_nTotal c),
     \<lambda>p. if p \<in> set (concat (pc_values pc)) then None else blocks c p)"
    by (rule each_cleanup) (use lists_short [OF inv pc(1)] in blast)
  from ForEach_correct [OF pc(2), of "\<lambda>l s. cleanup_list l (int (QueryDepthSList l)) s" "(m_nTotal c, blocks c)"]
  obtain pc1 where F: "ForEach sizeof_SLIST_HEADER (\<lambda>l s. cleanup_list l (int (QueryDepthSList l)) s) pc (m_nTotal c, blocks c) =
    Some (pc1, (long_decr ^^ length (concat (pc_values pc))) (m_nTotal c),
      \<lambda>p. if p \<in> set (concat (pc_values pc)) then None else blocks c p)" unfolding E by auto
  let ?bs = "\<lambda>p. if p \<in> set (concat (pc_values pc)) then None else blocks c p"
  have "dom ?bs = U" "\<forall>p\<in>U. ?bs p = blocks c p" using pc(3) by (auto simp: lists_inv_def dom_def)
  then show thesis using that F by (simp add: cache_dtor_def CleanupLookaside_def pc(1) pc_Dispose_def)
qed

lemma QueryDepth_correct:
  assumes inv: "cache_inv c U" and pc: "m_pFreeLists c = Some pc"
  shows "QueryDepthForAllSLists c = Some (dword (length (concat (pc_values pc))))"
proof -
  let ?f = "\<lambda>l s. (l, dword (s + QueryDepthSList l))"
  have "snd (each ?f vs s) = dword (s + length (concat vs))"
    if "\<forall>l\<in>set vs. length l \<le> 65535" "dword s = s" for vs :: "SLIST_HEADER list" and s
    using that
  proof (induction vs arbitrary: s)
    case (Cons l vs)
    have "QueryDepthSList l = length l" using Cons.prems(1) by (simp add: QueryDepthSList_def)
    moreover have "dword (dword (s + length l) + k) = dword (s + length l + k)" for k by (simp add: dword_def mod_simps)
    ultimately show ?case using Cons by (simp add: split_beta add.assoc)
  qed simp
  from this [of "pc_values pc" 0] lists_short [OF inv pc]
  have e: "snd (each ?f (pc_values pc) 0) = dword (length (concat (pc_values pc)))" by auto
  have "pc_ok sizeof_SLIST_HEADER pc" using inv pc by (auto simp: cache_inv_def)
  from ForEach_correct [OF this, of ?f 0] show ?thesis using e pc by (auto simp: QueryDepthForAllSLists_def)
qed

section \<open>Runs\<close>

text \<open>Any interleaving of calls by the clients, on any processors; \<open>U\<close> is what they hold.\<close>

inductive cache_run :: "world \<Rightarrow> alloc_cache \<Rightarrow> nat set \<Rightarrow> alloc_cache \<Rightarrow> nat set \<Rightarrow> bool" for w where
  start: "cache_run w c U c U"
| alloc: "cache_run w c U c1 U1 \<Longrightarrow> cpu < cache_cpus c1 \<Longrightarrow> (\<And>p b. ret = Some (p, b) \<Longrightarrow> p \<notin> dom (blocks c1)) \<Longrightarrow>
    cache_Alloc cpu ret c1 w = Some (r, c2, w2) \<Longrightarrow> cache_run w c U c2 (U1 \<union> set_option r)"
| free: "cache_run w c U c1 U1 \<Longrightarrow> cpu < cache_cpus c1 \<Longrightarrow> p \<in> U1 \<Longrightarrow> cache_Free cpu p c1 = Some c2 \<Longrightarrow>
    cache_run w c U c2 (U1 - {p})"

lemma cache_run_inv:
  "cache_run w c U c1 U1 \<Longrightarrow> cache_inv c U \<Longrightarrow> cache_inv c1 U1 \<and> cache_cpus c1 = cache_cpus c"
proof (induction rule: cache_run.induct)
  case (alloc c U c1 U1 cpu ret r c2 w2)
  then have inv: "cache_inv c1 U1" by blast
  show ?case
  proof (rule cache_Alloc_correct [OF inv alloc.hyps(2), of ret w])
    show "p \<notin> dom (blocks c1)" if "ret = Some (p, b)" for p b using alloc.hyps(3) that .
  qed (use alloc in simp_all)
next
  case (free c U c1 U1 cpu p c2)
  then have inv: "cache_inv c1 U1" by blast
  from cache_Free_correct [OF inv free.hyps(2,3)] obtain c' where
    "cache_Free cpu p c1 = Some c'" "cache_inv c' (U1 - {p})" "cache_cpus c' = cache_cpus c1" .
  then show ?case using free by simp
qed simp

end
