(* ===== verification/TreeHash.thy ===== *)
theory TreeHash
  imports HashTable Stru
begin

text \<open>
  \<open>treehash.h\<close>: TREE_HASH_TABLE, a chained hash table of paths whose nodes are also linked into
  trees: the parent of a path is the path cut at its last separator.

  Nodes are shared by a bucket chain and a tree, so they live in a store: a node pointer is the serial
  number of the heap request that allocated it, and \<open>th_nodes\<close> holds the nodes that are allocated. The
  chain hanging from a bucket is the list of its node pointers, so a pointer to some node's \<open>_pNext\<close> is a
  position in it; the list of \<open>_pFirstChild\<close> and the \<open>_pNextSibling\<close> links behind it is \<open>tn_children\<close>.
  \<open>None\<close> is an access to a node that is not allocated, through a null pointer, or outside a buffer.

  CompareStringOrdinal compares the characters, after mapping them through the operating system's
  uppercase table \<open>upcase\<close> when case is ignored.
\<close>

section \<open>Data\<close>

record 'r tree_node =
  tn_pParentNode :: "nat option"
  tn_children :: "nat list"
  tn_pRecord :: "'r option"
  tn_pszPath :: "WCHAR list"
  tn_dwHash :: DWORD

abbreviation (input) sizeof_tree_node :: nat where "sizeof_tree_node \<equiv> 56"

record 'r tree_table =
  th_ppBuckets :: "nat list list option"
  th_nBuckets :: nat
  th_nItems :: nat
  th_fCaseSensitive :: bool
  th_nodes :: "nat \<Rightarrow> 'r tree_node option"
  th_calls :: "'r call list"

definition th_emit :: "'r call list \<Rightarrow> 'r tree_table \<Rightarrow> 'r tree_table" where
  "th_emit cs t = t\<lparr>th_calls := th_calls t @ cs\<rparr>"

definition set_node :: "nat \<Rightarrow> 'r tree_node \<Rightarrow> 'r tree_table \<Rightarrow> 'r tree_table" where
  "set_node p nd t = t\<lparr>th_nodes := (th_nodes t)(p \<mapsto> nd)\<rparr>"

definition CompareStringOrdinal :: "(WCHAR \<Rightarrow> WCHAR) \<Rightarrow> WCHAR list \<Rightarrow> WCHAR list \<Rightarrow> bool \<Rightarrow> bool" where
  "CompareStringOrdinal upcase a b bIgnoreCase \<longleftrightarrow>
     (if bIgnoreCase then map upcase (cstr a) = map upcase (cstr b) else cstr a = cstr b)"

section \<open>Life cycle\<close>

definition tree_ctor :: "bool \<Rightarrow> 'r tree_table" where
  "tree_ctor fCaseSensitive =
     \<lparr>th_ppBuckets = None, th_nBuckets = 0, th_nItems = 0, th_fCaseSensitive = fCaseSensitive,
      th_nodes = Map.empty, th_calls = []\<rparr>"

definition tree_Count :: "'r tree_table \<Rightarrow> nat" where
  "tree_Count t = th_nItems t"

definition CalcHash :: "'r tree_table \<Rightarrow> WCHAR list \<Rightarrow> DWORD" where
  "CalcHash t pszKey = (if th_fCaseSensitive t then HashStringW pszKey 0 else HashStringNoCaseW pszKey 0)"

text \<open>The Failed label.\<close>

definition tree_Initialize_Failed ::
  "HRESULT \<Rightarrow> 'r tree_table \<Rightarrow> world \<Rightarrow> HRESULT \<times> 'r tree_table \<times> world" where
  "tree_Initialize_Failed hr t w =
     (case th_ppBuckets t of
        Some _ \<Rightarrow> (hr, t\<lparr>th_ppBuckets := None\<rparr>, HeapFree w)
      | None \<Rightarrow> (hr, t, w))"

text \<open>\<open>lock_hr\<close> is the result of \<open>_tableLock.Init()\<close>.\<close>

definition tree_Initialize ::
  "HRESULT \<Rightarrow> nat \<Rightarrow> 'r tree_table \<Rightarrow> world \<Rightarrow> HRESULT \<times> 'r tree_table \<times> world" where
  "tree_Initialize lock_hr n t w =
     (if n = 0 then tree_Initialize_Failed E_INVALIDARG t w
      else if FAILED lock_hr then tree_Initialize_Failed lock_hr t w
      else if n \<ge> MAXDWORD div sizeof_pointer then tree_Initialize_Failed E_INVALIDARG t w
      else
        (let (granted, w1) = heap_request (n * sizeof_pointer) w
         in if \<not> granted
            then (HRESULT_FROM_WIN32 ERROR_NOT_ENOUGH_MEMORY, t\<lparr>th_ppBuckets := None\<rparr>, w1)
            else (S_OK, t\<lparr>th_ppBuckets := Some (replicate n []), th_nBuckets := n\<rparr>, w1)))"

definition tree_dtor :: "'r tree_table \<Rightarrow> world \<Rightarrow> 'r tree_table \<times> world" where
  "tree_dtor t w =
     (case th_ppBuckets t of
        None \<Rightarrow> (t, w)
      | Some _ \<Rightarrow> (t\<lparr>th_ppBuckets := None, th_nBuckets := 0\<rparr>, HeapFree w))"

text \<open>A node starts outside the chain and the tree.\<close>

definition AllocateNode ::
  "WCHAR list \<Rightarrow> DWORD \<Rightarrow> 'r option \<Rightarrow> nat option \<Rightarrow> 'r tree_table \<Rightarrow> world \<Rightarrow>
     (HRESULT \<times> nat \<times> 'r tree_table \<times> world) option" where
  "AllocateNode pszPath h r pParentNode t w =
     (let cchPath = dword (strlen pszPath) in
      if cchPath \<ge> (MAXDWORD - sizeof_tree_node) div sizeof_WCHAR - 1
      then Some (HRESULT_FROM_WIN32 ERROR_NOT_ENOUGH_MEMORY, 0, t, w)
      else
        (let (granted, w1) = heap_request (sizeof_tree_node + dword (cchPath + 1) * sizeof_WCHAR) w
         in if \<not> granted then Some (HRESULT_FROM_WIN32 ERROR_NOT_ENOUGH_MEMORY, 0, t, w1)
            else do {
              path \<leftarrow> mem_read 0 (cchPath + 1) pszPath;
              Some (S_OK, heap_calls w,
                set_node (heap_calls w)
                  \<lparr>tn_pParentNode = pParentNode, tn_children = [], tn_pRecord = r, tn_pszPath = path, tn_dwHash = h\<rparr> t,
                w1) }))"

definition tree_DeleteNode :: "nat \<Rightarrow> 'r tree_table \<Rightarrow> world \<Rightarrow> ('r tree_table \<times> world) option" where
  "tree_DeleteNode pNode t w = do {
     nd \<leftarrow> th_nodes t pNode;
     let t1 = (case tn_pRecord nd of Some r \<Rightarrow> th_emit [DereferenceRecord r] t | None \<Rightarrow> t);
     Some (t1\<lparr>th_nodes := (th_nodes t1)(pNode := None)\<rparr>, HeapFree w) }"

fun tree_delete_chain :: "nat list \<Rightarrow> 'r tree_table \<Rightarrow> world \<Rightarrow> ('r tree_table \<times> world) option" where
  "tree_delete_chain [] t w = Some (t, w)"
| "tree_delete_chain (pCurrent # pNext) t w = do {
     (t1, w1) \<leftarrow> tree_DeleteNode pCurrent t w;
     tree_delete_chain pNext t1 w1 }"

fun tree_clear_loop :: "nat \<Rightarrow> nat \<Rightarrow> 'r tree_table \<Rightarrow> world \<Rightarrow> ('r tree_table \<times> world) option" where
  "tree_clear_loop i 0 t w = Some (t, w)"
| "tree_clear_loop i (Suc left) t w = do {
     bs \<leftarrow> th_ppBuckets t;
     pCurrent \<leftarrow> mem_get i bs;
     (t1, w1) \<leftarrow> tree_delete_chain pCurrent (t\<lparr>th_ppBuckets := Some (bs[i := []])\<rparr>) w;
     tree_clear_loop (Suc i) left t1 w1 }"

definition tree_Clear :: "'r tree_table \<Rightarrow> world \<Rightarrow> ('r tree_table \<times> world) option" where
  "tree_Clear t w = do {
     (t1, w1) \<leftarrow> tree_clear_loop 0 (th_nBuckets t) (th_emit [ExclusiveAcquire] t) w;
     Some (th_emit [ExclusiveRelease] (t1\<lparr>th_nItems := 0\<rparr>), w1) }"

section \<open>Finding\<close>

text \<open>The walk down a chain: whether the path was found, the position and the node where it stopped.\<close>

fun tree_find ::
  "(WCHAR \<Rightarrow> WCHAR) \<Rightarrow> 'r tree_table \<Rightarrow> WCHAR list \<Rightarrow> DWORD \<Rightarrow> nat list \<Rightarrow> nat \<Rightarrow> (bool \<times> nat \<times> nat option) option" where
  "tree_find upcase t pszKey h [] pos = Some (False, pos, None)"
| "tree_find upcase t pszKey h (pNode # rest) pos = do {
     nd \<leftarrow> th_nodes t pNode;
     if tn_dwHash nd = h
     then (if CompareStringOrdinal upcase pszKey (tn_pszPath nd) (\<not> th_fCaseSensitive t)
           then Some (True, pos, Some pNode)
           else tree_find upcase t pszKey h rest (pos + 1))
     else if tn_dwHash nd > h then Some (False, pos, Some pNode)
     else tree_find upcase t pszKey h rest (pos + 1) }"

definition tree_FindNodeInternal ::
  "(WCHAR \<Rightarrow> WCHAR) \<Rightarrow> WCHAR list \<Rightarrow> DWORD \<Rightarrow> 'r tree_table \<Rightarrow> (bool \<times> nat \<times> nat \<times> nat option) option" where
  "tree_FindNodeInternal upcase pszKey h t =
     (if th_nBuckets t = 0 then None
      else do {
        bs \<leftarrow> th_ppBuckets t;
        let b = unat h mod th_nBuckets t;
        chain \<leftarrow> mem_get b bs;
        (fFound, pos, pNode) \<leftarrow> tree_find upcase t pszKey h chain 0;
        Some (fFound, b, pos, pNode) })"

definition tree_FindKey ::
  "(WCHAR \<Rightarrow> WCHAR) \<Rightarrow> WCHAR list \<Rightarrow> 'r tree_table \<Rightarrow> ('r option \<times> 'r tree_table) option" where
  "tree_FindKey upcase pszKey t = do {
     let h = CalcHash t pszKey;
     let t1 = th_emit [SharedAcquire] t;
     (fFound, _, _, pNode) \<leftarrow> tree_FindNodeInternal upcase pszKey h t1;
     r \<leftarrow> (if fFound then do { p \<leftarrow> pNode; nd \<leftarrow> th_nodes t1 p; Some (tn_pRecord nd) } else Some None);
     let t2 = (case r of Some x \<Rightarrow> th_emit [ReferenceRecord x] t1 | None \<Rightarrow> t1);
     Some (r, th_emit [SharedRelease] t2) }"

section \<open>Inserting\<close>

definition tree_link :: "nat \<Rightarrow> nat \<Rightarrow> nat \<Rightarrow> nat list list \<Rightarrow> nat list list" where
  "tree_link b pos p bs = bs[b := take pos (bs ! b) @ p # drop pos (bs ! b)]"

definition tree_unlink :: "nat \<Rightarrow> nat \<Rightarrow> nat list list \<Rightarrow> nat list list" where
  "tree_unlink b pos bs = bs[b := take pos (bs ! b) @ drop (Suc pos) (bs ! b)]"

text \<open>The new node becomes the first child of its parent.\<close>

definition add_child :: "nat option \<Rightarrow> nat \<Rightarrow> 'r tree_table \<Rightarrow> 'r tree_table option" where
  "add_child pParentNode pNewNode t =
     (case pParentNode of
        None \<Rightarrow> Some t
      | Some q \<Rightarrow> do {
          qd \<leftarrow> th_nodes t q;
          Some (set_node q (qd\<lparr>tn_children := pNewNode # tn_children qd\<rparr>) t) })"

text \<open>The compare-and-swaps succeed at the first attempt when nothing else inserts. The result gives
  the node of the path, old or new.\<close>

definition AddNodeInternal ::
  "(WCHAR \<Rightarrow> WCHAR) \<Rightarrow> WCHAR list \<Rightarrow> DWORD \<Rightarrow> 'r option \<Rightarrow> nat option \<Rightarrow> 'r tree_table \<Rightarrow> world \<Rightarrow>
     (HRESULT \<times> nat option \<times> 'r tree_table \<times> world) option" where
  "AddNodeInternal upcase pszPath h r pParentNode t w = do {
     (hr, pNewNode, t1, w1) \<leftarrow> AllocateNode pszPath h r pParentNode t w;
     if FAILED hr then Some (hr, pParentNode, t1, w1)
     else do {
       (fFound, b, pos, pNextNode) \<leftarrow> tree_FindNodeInternal upcase pszPath h t1;
       if fFound then do {
         q \<leftarrow> pNextNode;
         qd \<leftarrow> th_nodes t1 q;
         let (hr1, t2) =
           (case r of
              Some x \<Rightarrow>
                if tn_pRecord qd = None
                then (S_OK, th_emit [ReferenceRecord x] (set_node q (qd\<lparr>tn_pRecord := Some x\<rparr>) t1))
                else (HRESULT_FROM_WIN32 ERROR_ALREADY_EXISTS, t1)
            | None \<Rightarrow> (HRESULT_FROM_WIN32 ERROR_ALREADY_EXISTS, t1));
         nd \<leftarrow> th_nodes t2 pNewNode;
         (t3, w2) \<leftarrow> tree_DeleteNode pNewNode (set_node pNewNode (nd\<lparr>tn_pRecord := None\<rparr>) t2) w1;
         Some (hr1, Some q, t3, w2) }
       else do {
         bs \<leftarrow> th_ppBuckets t1;
         let t2 = t1\<lparr>th_ppBuckets := Some (tree_link b pos pNewNode bs)\<rparr>;
         let t3 = (case r of Some x \<Rightarrow> th_emit [ReferenceRecord x] t2 | None \<Rightarrow> t2);
         let t4 = t3\<lparr>th_nItems := dword (th_nItems t3 + 1)\<rparr>;
         t5 \<leftarrow> add_child pParentNode pNewNode t4;
         Some (S_OK, Some pNewNode, t5, w1) } } }"

text \<open>A moved node is put behind the nodes of its new chain with a hash not above its own.\<close>

fun tree_rehash_link :: "(nat \<Rightarrow> 'r tree_node option) \<Rightarrow> DWORD \<Rightarrow> nat \<Rightarrow> nat list \<Rightarrow> nat list option" where
  "tree_rehash_link store h pNode [] = Some [pNode]"
| "tree_rehash_link store h pNode (x # xs) = do {
     nd \<leftarrow> store x;
     if tn_dwHash nd \<le> h then do { ys \<leftarrow> tree_rehash_link store h pNode xs; Some (x # ys) }
     else Some (pNode # x # xs) }"

fun tree_rehash_loop :: "(nat \<Rightarrow> 'r tree_node option) \<Rightarrow> nat \<Rightarrow> nat list \<Rightarrow> nat list list \<Rightarrow> nat list list option" where
  "tree_rehash_loop store n [] ppNew = Some ppNew"
| "tree_rehash_loop store n (pNode # pNextNode) ppNew = do {
     nd \<leftarrow> store pNode;
     let b = unat (tn_dwHash nd) mod n;
     chain \<leftarrow> mem_get b ppNew;
     chain1 \<leftarrow> tree_rehash_link store (tn_dwHash nd) pNode chain;
     tree_rehash_loop store n pNextNode (ppNew[b := chain1]) }"

definition tree_RehashTableIfNeeded :: "'r tree_table \<Rightarrow> world \<Rightarrow> ('r tree_table \<times> world) option" where
  "tree_RehashTableIfNeeded t w =
     (if th_nItems t \<le> GetPrime (dword (2 * th_nBuckets t)) then Some (t, w)
      else
        (let t1 = th_emit [ExclusiveAcquire] t;
             nNewBuckets = GetPrime (dword (2 * th_nBuckets t1))
         in if th_nItems t1 \<le> nNewBuckets then Some (th_emit [ExclusiveRelease] t1, w)
            else if nNewBuckets \<ge> MAXDWORD div sizeof_pointer then Some (th_emit [ExclusiveRelease] t1, w)
            else
              (let (granted, w1) = heap_request (nNewBuckets * sizeof_pointer) w
               in if \<not> granted then Some (th_emit [ExclusiveRelease] t1, w1)
                  else do {
                    bs \<leftarrow> th_ppBuckets t1;
                    old \<leftarrow> mem_read 0 (th_nBuckets t1) bs;
                    new \<leftarrow> tree_rehash_loop (th_nodes t1) nNewBuckets (concat old) (replicate nNewBuckets []);
                    Some (th_emit [ExclusiveRelease] (t1\<lparr>th_ppBuckets := Some new, th_nBuckets := nNewBuckets\<rparr>),
                          HeapFree w1) })))"

definition is_separator :: "WCHAR \<Rightarrow> bool" where
  "is_separator c \<longleftrightarrow> c = 47 \<or> c = 92"

text \<open>The lowest ancestor present: from \<open>cchEnd\<close> down, the path is cut at each separator and looked up. The
  result is where the scan stopped, the partial path as the cuts left it, and the ancestor.\<close>

fun find_parent ::
  "(WCHAR \<Rightarrow> WCHAR) \<Rightarrow> WCHAR list \<Rightarrow> 'r tree_table \<Rightarrow> nat \<Rightarrow> WCHAR list \<Rightarrow> (nat \<times> WCHAR list \<times> nat option) option" where
  "find_parent upcase pszKey t 0 m = Some (0, m, None)"
| "find_parent upcase pszKey t (Suc e) m = do {
     c \<leftarrow> mem_get (Suc e) m;
     if is_separator c then do {
       m1 \<leftarrow> mem_put (Suc e) 0 m;
       (fFound, _, _, pNode) \<leftarrow> tree_FindNodeInternal upcase m1 (CalcHash t m1) t;
       if fFound then do {
         k \<leftarrow> mem_get (Suc e) pszKey;
         m2 \<leftarrow> mem_put (Suc e) k m1;
         Some (Suc e, m2, pNode) }
       else find_parent upcase pszKey t e m1 }
     else find_parent upcase pszKey t e m }"

text \<open>From \<open>cchEnd\<close> up, a node is added for the path as far as each cut, the cut is undone, and that node is
  the parent of the next. The second argument counts the rounds left.\<close>

fun add_rest ::
  "(WCHAR \<Rightarrow> WCHAR) \<Rightarrow> WCHAR list \<Rightarrow> 'r \<Rightarrow> nat \<Rightarrow> nat \<Rightarrow> nat \<Rightarrow> WCHAR list \<Rightarrow> nat option \<Rightarrow> HRESULT \<Rightarrow>
     'r tree_table \<Rightarrow> world \<Rightarrow> (HRESULT \<times> 'r tree_table \<times> world) option" where
  "add_rest upcase pszKey r cch cchEnd 0 m pParentNode hr t w = Some (hr, t, w)"
| "add_rest upcase pszKey r cch cchEnd (Suc left) m pParentNode hr t w = do {
     c \<leftarrow> mem_get cchEnd m;
     if c = 0 then do {
       (hr1, pNode, t1, w1) \<leftarrow>
         AddNodeInternal upcase m (CalcHash t m) (if cchEnd = cch then Some r else None) pParentNode t w;
       if FAILED hr1 \<and> hr1 \<noteq> HRESULT_FROM_WIN32 ERROR_ALREADY_EXISTS then Some (hr1, t1, w1)
       else do {
         k \<leftarrow> mem_get cchEnd pszKey;
         m1 \<leftarrow> mem_put cchEnd k m;
         add_rest upcase pszKey r cch (Suc cchEnd) left m1 pNode hr1 t1 w1 } }
     else add_rest upcase pszKey r cch (Suc cchEnd) left m pParentNode hr t w }"

text \<open>\<open>ach\<close> is the stack array behind \<open>strPartialPath\<close>; its destructor runs on every return. A failed Copy jumps
  to the release of a lock that was not taken.\<close>

definition tree_InsertRecord ::
  "(WCHAR \<Rightarrow> WCHAR) \<Rightarrow> ('r \<Rightarrow> WCHAR list) \<Rightarrow> WCHAR list \<Rightarrow> 'r \<Rightarrow> 'r tree_table \<Rightarrow> world \<Rightarrow>
     (HRESULT \<times> 'r tree_table \<times> world) option" where
  "tree_InsertRecord upcase GetKey ach r t w = do {
     let pszKey = GetKey r;
     (hr, s, w1) \<leftarrow> STRU_Copy_psz (str_ctor_buf sizeof_WCHAR (ach[0 := 0]) 256) pszKey w;
     (hr1, t1, w2) \<leftarrow>
       (if FAILED hr then Some (hr, t, w1)
        else do {
          let t0 = th_emit [SharedAcquire] t;
          (cchEnd, m, pParentNode) \<leftarrow> find_parent upcase pszKey t0 (dword_sub (QueryCCH s) 1) (QueryStr s);
          add_rest upcase pszKey r (QueryCCH s) cchEnd (QueryCCH s + 1 - cchEnd) m pParentNode hr t0 w1 });
     let t2 = th_emit [SharedRelease] t1;
     (t3, w3) \<leftarrow> (if SUCCEEDED hr1 then tree_RehashTableIfNeeded t2 w2 else Some (t2, w2));
     Some (hr1, t3, snd (buffer_dtor (m_Buff s) w3)) }"

section \<open>Deleting\<close>

text \<open>The position of a node in a list reached by walking it; \<open>None\<close> runs off the end.\<close>

definition walk_to :: "nat \<Rightarrow> nat list \<Rightarrow> nat option" where
  "walk_to p xs = find_index (\<lambda>x. x = p) xs"

definition remove_child :: "nat option \<Rightarrow> nat \<Rightarrow> 'r tree_table \<Rightarrow> 'r tree_table option" where
  "remove_child pParentNode pNode t =
     (case pParentNode of
        None \<Rightarrow> Some t
      | Some q \<Rightarrow> do {
          qd \<leftarrow> th_nodes t q;
          i \<leftarrow> walk_to pNode (tn_children qd);
          Some (set_node q (qd\<lparr>tn_children := take i (tn_children qd) @ drop (Suc i) (tn_children qd)\<rparr>) t) })"

text \<open>The recursion is as deep as the tree below the node; the first argument bounds its depth. The node to
  delete is the one at position \<open>pos\<close> of bucket \<open>b\<close>.\<close>

fun DeleteNodeInternal ::
    "nat \<Rightarrow> nat \<Rightarrow> nat \<Rightarrow> nat \<Rightarrow> 'r tree_table \<Rightarrow> world \<Rightarrow> ('r tree_table \<times> world) option"
  and delete_children :: "nat \<Rightarrow> nat list \<Rightarrow> 'r tree_table \<Rightarrow> world \<Rightarrow> ('r tree_table \<times> world) option" where
  "DeleteNodeInternal 0 b pos pNode t w = None"
| "DeleteNodeInternal (Suc depth) b pos pNode t w = do {
     bs \<leftarrow> th_ppBuckets t;
     nd \<leftarrow> th_nodes t pNode;
     t1 \<leftarrow> remove_child (tn_pParentNode nd) pNode (t\<lparr>th_ppBuckets := Some (tree_unlink b pos bs)\<rparr>);
     nd1 \<leftarrow> th_nodes t1 pNode;
     (t2, w2) \<leftarrow> delete_children depth (tn_children nd1) t1 w;
     (t3, w3) \<leftarrow> tree_DeleteNode pNode t2 w2;
     Some (t3\<lparr>th_nItems := dword_sub (th_nItems t3) 1\<rparr>, w3) }"
| "delete_children depth [] t w = Some (t, w)"
| "delete_children depth (pChild # pNextChild) t w = do {
     nd \<leftarrow> th_nodes t pChild;
     if th_nBuckets t = 0 then None
     else do {
       bs \<leftarrow> th_ppBuckets t;
       let b = unat (tn_dwHash nd) mod th_nBuckets t;
       chain \<leftarrow> mem_get b bs;
       pos \<leftarrow> walk_to pChild chain;
       (t1, w1) \<leftarrow> DeleteNodeInternal depth b pos pChild (set_node pChild (nd\<lparr>tn_pParentNode := None\<rparr>) t) w;
       delete_children depth pNextChild t1 w1 } }"

text \<open>A tree is never deeper than the table has nodes.\<close>

definition tree_depth :: "'r tree_table \<Rightarrow> nat" where
  "tree_depth t = (case th_ppBuckets t of None \<Rightarrow> 0 | Some bs \<Rightarrow> length (concat bs))"

definition tree_DeleteKey ::
  "(WCHAR \<Rightarrow> WCHAR) \<Rightarrow> WCHAR list \<Rightarrow> 'r tree_table \<Rightarrow> world \<Rightarrow> ('r tree_table \<times> world) option" where
  "tree_DeleteKey upcase pszKey t w = do {
     let h = CalcHash t pszKey;
     let t1 = th_emit [ExclusiveAcquire] t;
     (fFound, b, pos, pNode) \<leftarrow> tree_FindNodeInternal upcase pszKey h t1;
     (t2, w2) \<leftarrow> (if fFound then do { p \<leftarrow> pNode; DeleteNodeInternal (tree_depth t1) b pos p t1 w }
                  else Some (t1, w));
     Some (th_emit [ExclusiveRelease] t2, w2) }"

text \<open>One bucket from position \<open>pos\<close> on. A node that only loses its record is looked at once more.\<close>

partial_function (option) delete_if_walk ::
  "('r \<Rightarrow> 'c \<Rightarrow> bool \<times> 'c) \<Rightarrow> nat \<Rightarrow> nat \<Rightarrow> 'r tree_table \<Rightarrow> 'c \<Rightarrow> world \<Rightarrow> ('r tree_table \<times> 'c \<times> world) option" where
  "delete_if_walk pfnDeleteIf i pos t c w = do {
     bs \<leftarrow> th_ppBuckets t;
     chain \<leftarrow> mem_get i bs;
     if pos < length chain then do {
       nd \<leftarrow> th_nodes t (chain ! pos);
       let (fDelete, c1) =
         (case tn_pRecord nd of
            Some r \<Rightarrow> pfnDeleteIf r c
          | None \<Rightarrow> (tn_children nd = [], c));
       if fDelete then
         (if tn_children nd = [] then do {
            (t1, w1) \<leftarrow> DeleteNodeInternal (tree_depth t) i pos (chain ! pos) t w;
            delete_if_walk pfnDeleteIf i pos t1 c1 w1 }
          else do {
            r \<leftarrow> tn_pRecord nd;
            delete_if_walk pfnDeleteIf i pos
              (th_emit [DereferenceRecord r] (set_node (chain ! pos) (nd\<lparr>tn_pRecord := None\<rparr>) t)) c1 w })
       else delete_if_walk pfnDeleteIf i (pos + 1) t c1 w }
     else Some (t, c, w) }"

fun tree_delete_if_loop ::
  "('r \<Rightarrow> 'c \<Rightarrow> bool \<times> 'c) \<Rightarrow> nat \<Rightarrow> nat \<Rightarrow> 'r tree_table \<Rightarrow> 'c \<Rightarrow> world \<Rightarrow> ('r tree_table \<times> 'c \<times> world) option" where
  "tree_delete_if_loop pfnDeleteIf i 0 t c w = Some (t, c, w)"
| "tree_delete_if_loop pfnDeleteIf i (Suc left) t c w = do {
     (t1, c1, w1) \<leftarrow> delete_if_walk pfnDeleteIf i 0 t c w;
     tree_delete_if_loop pfnDeleteIf (Suc i) left t1 c1 w1 }"

definition tree_DeleteIf ::
  "('r \<Rightarrow> 'c \<Rightarrow> bool \<times> 'c) \<Rightarrow> 'c \<Rightarrow> 'r tree_table \<Rightarrow> world \<Rightarrow> ('r tree_table \<times> 'c \<times> world) option" where
  "tree_DeleteIf pfnDeleteIf c t w = do {
     (t1, c1, w1) \<leftarrow> tree_delete_if_loop pfnDeleteIf 0 (th_nBuckets t) (th_emit [ExclusiveAcquire] t) c w;
     Some (th_emit [ExclusiveRelease] t1, c1, w1) }"

section \<open>Visiting\<close>

fun tree_apply_chain :: "('r \<Rightarrow> 'c \<Rightarrow> 'c) \<Rightarrow> (nat \<Rightarrow> 'r tree_node option) \<Rightarrow> nat list \<Rightarrow> 'c \<Rightarrow> 'c option" where
  "tree_apply_chain pfnApply store [] c = Some c"
| "tree_apply_chain pfnApply store (pNode # pNext) c = do {
     nd \<leftarrow> store pNode;
     tree_apply_chain pfnApply store pNext (case tn_pRecord nd of Some r \<Rightarrow> pfnApply r c | None \<Rightarrow> c) }"

fun tree_apply_loop :: "('r \<Rightarrow> 'c \<Rightarrow> 'c) \<Rightarrow> nat \<Rightarrow> nat \<Rightarrow> 'r tree_table \<Rightarrow> 'c \<Rightarrow> 'c option" where
  "tree_apply_loop pfnApply i 0 t c = Some c"
| "tree_apply_loop pfnApply i (Suc left) t c = do {
     bs \<leftarrow> th_ppBuckets t;
     chain \<leftarrow> mem_get i bs;
     c1 \<leftarrow> tree_apply_chain pfnApply (th_nodes t) chain c;
     tree_apply_loop pfnApply (Suc i) left t c1 }"

definition tree_Apply :: "('r \<Rightarrow> 'c \<Rightarrow> 'c) \<Rightarrow> 'c \<Rightarrow> 'r tree_table \<Rightarrow> ('c \<times> 'r tree_table) option" where
  "tree_Apply pfnApply c t = do {
     let t1 = th_emit [SharedAcquire] t;
     c1 \<leftarrow> tree_apply_loop pfnApply 0 (th_nBuckets t1) t1 c;
     Some (c1, th_emit [SharedRelease] t1) }"

end
