(* ===== verification/TreePath.thy ===== *)
theory TreePath
  imports TreeHash
begin

unbundle bit_operations_syntax

text \<open>
  The order the trees of TREE_HASH_TABLE follow: the ancestors of a path are the path cut at each of its
  separators but a leading one, shortest first, and its parent is the longest. Paths are compared
  after \<open>tree_norm\<close>, the case mapping of the table; \<open>case_ok\<close> is what is asked of the uppercase table on the
  characters \<open>A\<close> used in keys: it keeps separators apart from other characters and only identifies
  characters that differ in bit 5, the bit HashStringNoCase strips.
\<close>

section \<open>Ancestors\<close>

definition ancestors :: "WCHAR list \<Rightarrow> WCHAR list list" where
  "ancestors s = map (\<lambda>j. take j s) (filter (\<lambda>j. is_separator (s ! j)) [1..<length s])"

definition parent_path :: "WCHAR list \<Rightarrow> WCHAR list option" where
  "parent_path s = (if ancestors s = [] then None else Some (last (ancestors s)))"

definition up_to :: "WCHAR list \<Rightarrow> WCHAR list set" where
  "up_to s = insert s (set (ancestors s))"

lemma in_ancestors: "a \<in> set (ancestors s) \<longleftrightarrow> (\<exists>j. 0 < j \<and> j < length s \<and> is_separator (s ! j) \<and> a = take j s)"
  by (fastforce simp: ancestors_def Suc_le_eq)

lemma ancestors_length: "a \<in> set (ancestors s) \<Longrightarrow> 0 < length a \<and> length a < length s"
  by (auto simp: in_ancestors)

lemma ancestors_take:
  assumes "j \<le> length s"
  shows "ancestors (take j s) = filter (\<lambda>a. length a < j) (ancestors s)"
proof -
  have u: "[1..<length s] = [1..<j] @ [max 1 j..<length s]"
  proof (cases "1 \<le> j")
    case True
    then show ?thesis using upt_add_eq_append [of 1 j "length s - j"] assms by (simp add: max_def)
  qed (simp add: max_def)
  have "filter (\<lambda>i. is_separator (s ! i) \<and> i < j) [max 1 j..<length s] = []"
    by (auto simp: filter_empty_conv)
  moreover have "filter (\<lambda>i. is_separator (s ! i) \<and> i < j) [1..<j] = filter (\<lambda>i. is_separator (take j s ! i)) [1..<j]"
    by (rule filter_cong) auto
  ultimately have "filter (\<lambda>i. is_separator (s ! i) \<and> i < j) [1..<length s] = filter (\<lambda>i. is_separator (take j s ! i)) [1..<j]"
    unfolding u filter_append by (simp only: append_Nil2)
  moreover have "filter (\<lambda>a. length a < j) (ancestors s)
      = map (\<lambda>i. take i s) (filter (\<lambda>i. is_separator (s ! i) \<and> i < j) [1..<length s])"
    unfolding ancestors_def filter_map filter_filter comp_def
    by (rule arg_cong [of _ _ "map (\<lambda>i. take i s)"], rule filter_cong) auto
  moreover have "map (\<lambda>i. take i s) (filter (\<lambda>i. is_separator (take j s ! i)) [1..<j]) = ancestors (take j s)"
    using assms by (auto simp: ancestors_def min_def)
  ultimately show ?thesis by simp
qed

lemma ancestors_ancestors:
  assumes "b \<in> set (ancestors s)"
  shows "ancestors b = filter (\<lambda>a. length a < length b) (ancestors s)"
proof -
  obtain j where "j < length s" "b = take j s" using assms by (auto simp: in_ancestors)
  then show ?thesis using ancestors_take [of j s] by simp
qed

lemma ancestors_trans: "a \<in> set (ancestors b) \<Longrightarrow> b \<in> set (ancestors s) \<Longrightarrow> a \<in> set (ancestors s)"
  by (auto simp: ancestors_ancestors)

lemma ancestors_linear:
  "a \<in> set (ancestors s) \<Longrightarrow> b \<in> set (ancestors s) \<Longrightarrow> length a < length b \<Longrightarrow> a \<in> set (ancestors b)"
  by (simp add: ancestors_ancestors)

lemma ancestors_same_length: "a \<in> set (ancestors s) \<Longrightarrow> b \<in> set (ancestors s) \<Longrightarrow> length a = length b \<Longrightarrow> a = b"
  by (auto simp: in_ancestors)

lemma ancestors_sorted: "sorted (map length (ancestors s))"
proof -
  have "map length (ancestors s) = filter (\<lambda>j. is_separator (s ! j)) [1..<length s]"
    unfolding ancestors_def map_map comp_def by (rule map_idI) auto
  then show ?thesis by (simp add: sorted_filter [where f = id, simplified])
qed

lemma parent_path_None: "parent_path s = None \<longleftrightarrow> ancestors s = []"
  by (simp add: parent_path_def)

lemma parent_path_Some:
  assumes "parent_path s = Some q"
  shows "q \<in> set (ancestors s)" "set (ancestors s) = up_to q" "length q < length s"
proof -
  have ne: "ancestors s \<noteq> []" and q: "q = last (ancestors s)"
    using assms by (auto simp: parent_path_def split: if_splits)
  show m: "q \<in> set (ancestors s)" using ne q by simp
  then show "length q < length s" using ancestors_length by blast
  have "length a \<le> length q" if "a \<in> set (ancestors s)" for a
  proof -
    obtain xs where xs: "ancestors s = xs @ [q]" using ne q append_butlast_last_id by metis
    then show ?thesis using that ancestors_sorted [of s] by (auto simp: sorted_append)
  qed
  then have "a = q \<or> a \<in> set (ancestors q)" if "a \<in> set (ancestors s)" for a
    using that m ancestors_linear [OF that m] ancestors_same_length [OF that m] by (metis nat_less_le)
  then show "set (ancestors s) = up_to q" using m ancestors_trans [of _ q s] by (auto simp: up_to_def)
qed

lemma parent_path_eqI:
  assumes "q \<in> set (ancestors s)" "\<And>a. a \<in> set (ancestors s) \<Longrightarrow> length a \<le> length q"
  shows "parent_path s = Some q"
proof -
  have "ancestors s \<noteq> []" using assms(1) by auto
  then obtain q' where p: "parent_path s = Some q'" by (simp add: parent_path_def)
  have "q' \<in> up_to q'" by (simp add: up_to_def)
  then have "length q' \<le> length q" using parent_path_Some(2) [OF p] assms(2) by blast
  moreover have "q \<in> up_to q'" using parent_path_Some(2) [OF p] assms(1) by simp
  ultimately have "q = q'" using ancestors_length [of q q'] by (auto simp: up_to_def)
  with p show ?thesis by simp
qed

lemma up_to_trans: "a \<in> up_to b \<Longrightarrow> b \<in> up_to s \<Longrightarrow> a \<in> up_to s"
  unfolding up_to_def using ancestors_trans by blast

lemma up_to_self [simp]: "s \<in> up_to s"
  by (simp add: up_to_def)

lemma up_to_length: "a \<in> up_to s \<Longrightarrow> length a \<le> length s"
  using ancestors_length [of a s] by (auto simp: up_to_def)

lemma up_to_antisym: "a \<in> up_to b \<Longrightarrow> b \<in> up_to a \<Longrightarrow> a = b"
  using ancestors_length [of a b] ancestors_length [of b a] by (auto simp: up_to_def)

lemma up_to_linear: "a \<in> up_to s \<Longrightarrow> b \<in> up_to s \<Longrightarrow> a \<in> up_to b \<or> b \<in> up_to a"
  unfolding up_to_def using ancestors_linear [of a s b] ancestors_linear [of b s a] ancestors_same_length [of a s b]
  by (metis insert_iff nat_neq_iff)

lemma up_to_parent: "up_to s = insert s (case parent_path s of None \<Rightarrow> {} | Some q \<Rightarrow> up_to q)"
  using parent_path_Some(2) [of s] parent_path_None [of s] by (auto simp: up_to_def split: option.splits)

lemma ancestors_map:
  assumes "\<forall>c\<in>set s. is_separator (f c) \<longleftrightarrow> is_separator c"
  shows "ancestors (map f s) = map (map f) (ancestors s)"
  unfolding ancestors_def map_map comp_def length_map take_map
  by (rule arg_cong [of _ _ "map (\<lambda>x. map f (take x s))"], rule filter_cong) (use assms in auto)

lemma parent_path_map:
  assumes "\<forall>c\<in>set s. is_separator (f c) \<longleftrightarrow> is_separator c"
  shows "parent_path (map f s) = map_option (map f) (parent_path s)"
  by (simp add: parent_path_def ancestors_map [OF assms] last_map)

section \<open>Comparison of paths\<close>

definition tree_norm :: "(WCHAR \<Rightarrow> WCHAR) \<Rightarrow> 'r tree_table \<Rightarrow> WCHAR list \<Rightarrow> WCHAR list" where
  "tree_norm upcase t s = map (if th_fCaseSensitive t then id else upcase) s"

definition case_ok :: "(WCHAR \<Rightarrow> WCHAR) \<Rightarrow> WCHAR set \<Rightarrow> 'r tree_table \<Rightarrow> bool" where
  "case_ok upcase A t \<longleftrightarrow> th_fCaseSensitive t \<or>
     (\<forall>c\<in>A. (is_separator (upcase c) \<longleftrightarrow> is_separator c) \<and>
       (\<forall>d\<in>A. upcase c = upcase d \<longrightarrow> c AND 0xFFDF = d AND 0xFFDF))"

lemma tree_norm_length [simp]: "length (tree_norm u t s) = length s"
  by (simp add: tree_norm_def)

lemma tree_norm_take: "tree_norm u t (take j s) = take j (tree_norm u t s)"
  by (simp add: tree_norm_def take_map)

lemma CompareStringOrdinal_norm:
  "CompareStringOrdinal u a b (\<not> th_fCaseSensitive t) \<longleftrightarrow> tree_norm u t (cstr a) = tree_norm u t (cstr b)"
  by (simp add: CompareStringOrdinal_def tree_norm_def)

lemma tree_norm_ancestors:
  assumes "case_ok u A t" "set s \<subseteq> A"
  shows "ancestors (tree_norm u t s) = map (tree_norm u t) (ancestors s)"
    "parent_path (tree_norm u t s) = map_option (tree_norm u t) (parent_path s)"
proof -
  have "\<forall>c\<in>set s. is_separator ((if th_fCaseSensitive t then id else u) c) \<longleftrightarrow> is_separator c"
    using assms by (auto simp: case_ok_def)
  from ancestors_map [OF this] parent_path_map [OF this]
  show "ancestors (tree_norm u t s) = map (tree_norm u t) (ancestors s)"
    "parent_path (tree_norm u t s) = map_option (tree_norm u t) (parent_path s)"
    unfolding tree_norm_def by auto
qed

lemma CalcHash_cstr: "CalcHash t (cstr s) = CalcHash t s"
  by (simp add: CalcHash_def HashStringW_def HashStringNoCaseW_def cstr_simps cstr_nonzero)

lemma CalcHash_norm:
  assumes "case_ok u A t" "set (cstr a) \<subseteq> A" "set (cstr b) \<subseteq> A" "tree_norm u t (cstr a) = tree_norm u t (cstr b)"
  shows "CalcHash t a = CalcHash t b"
proof (cases "th_fCaseSensitive t")
  case True
  then show ?thesis using assms(4) by (simp add: CalcHash_def HashStringW_def tree_norm_def)
next
  case False
  have len: "length (cstr a) = length (cstr b)" using arg_cong [OF assms(4), of length] by simp
  have "map (\<lambda>c. c AND 0xFFDF) (cstr a) = map (\<lambda>c. c AND 0xFFDF) (cstr b)"
  proof (rule nth_equalityI)
    fix i assume "i < length (map (\<lambda>c. c AND 0xFFDF) (cstr a))"
    then have i: "i < length (cstr a)" "i < length (cstr b)" using len by simp_all
    have "u (cstr a ! i) = u (cstr b ! i)"
      using arg_cong [OF assms(4), of "\<lambda>xs. xs ! i"] i False by (simp add: tree_norm_def)
    moreover have "cstr a ! i \<in> A" "cstr b ! i \<in> A"
      using nth_mem [OF i(1)] nth_mem [OF i(2)] assms(2,3) by blast+
    ultimately have "cstr a ! i AND 0xFFDF = cstr b ! i AND 0xFFDF"
      using assms(1) False unfolding case_ok_def by blast
    then show "map (\<lambda>c. c AND 0xFFDF) (cstr a) ! i = map (\<lambda>c. c AND 0xFFDF) (cstr b) ! i" using i by simp
  qed (simp add: len)
  from hash_loop_cong [OF this] False show ?thesis by (simp add: CalcHash_def HashStringNoCaseW_def)
qed

end
