(* ===== verification/TreeHashFacts.thy ===== *)
theory TreeHashFacts
  imports TreePath HashTableFacts StruFacts
begin

text \<open>
  The invariant of TREE_HASH_TABLE and its insertion. \<open>tree_ok\<close>: every allocated node is linked into
  exactly one chain, chains are sorted by hash and hold the right hashes, no two nodes have equal
  paths, and the trees mirror the ancestor order of the paths. The contents of a table are its
  \<open>tree_entries\<close>: the normalized paths with their records. \<open>tree_same\<close> relates the states around an
  operation: references, heap blocks and the lock balance.
\<close>

section \<open>Invariant and contents\<close>

definition tn_path :: "'r tree_node \<Rightarrow> WCHAR list" where
  "tn_path nd = cstr (tn_pszPath nd)"

definition tn_key :: "(WCHAR \<Rightarrow> WCHAR) \<Rightarrow> 'r tree_table \<Rightarrow> 'r tree_node \<Rightarrow> WCHAR list" where
  "tn_key u t nd = tree_norm u t (tn_path nd)"

definition hash_at :: "(nat \<Rightarrow> 'r tree_node option) \<Rightarrow> nat \<Rightarrow> DWORD" where
  "hash_at store p = tn_dwHash (the (store p))"

definition bucket_ok :: "(nat \<Rightarrow> 'r tree_node option) \<Rightarrow> nat \<Rightarrow> nat \<Rightarrow> nat list \<Rightarrow> bool" where
  "bucket_ok store n b c \<longleftrightarrow> sorted (map (hash_at store) c) \<and> (\<forall>p\<in>set c. unat (hash_at store p) mod n = b)"

definition chains_ok :: "'r tree_table \<Rightarrow> nat list list \<Rightarrow> bool" where
  "chains_ok t bs \<longleftrightarrow> th_ppBuckets t = Some bs \<and> length bs = th_nBuckets t \<and> 0 < th_nBuckets t \<and>
     th_nBuckets t < MAXDWORD div sizeof_pointer \<and> distinct (concat bs) \<and> set (concat bs) = dom (th_nodes t) \<and>
     (\<forall>b<length bs. bucket_ok (th_nodes t) (length bs) b (bs ! b)) \<and> th_nItems t = dword (length (concat bs))"

definition node_ok :: "WCHAR set \<Rightarrow> 'r tree_table \<Rightarrow> 'r tree_node \<Rightarrow> bool" where
  "node_ok A t nd \<longleftrightarrow> (\<exists>s. tn_pszPath nd = s @ [0] \<and> 0 \<notin> set s \<and> set s \<subseteq> A) \<and>
     tn_dwHash nd = CalcHash t (tn_pszPath nd)"

definition store_ok :: "(WCHAR \<Rightarrow> WCHAR) \<Rightarrow> WCHAR set \<Rightarrow> 'r tree_table \<Rightarrow> bool" where
  "store_ok u A t \<longleftrightarrow> (\<forall>p nd. th_nodes t p = Some nd \<longrightarrow> node_ok A t nd) \<and>
     (\<forall>p q nd md. th_nodes t p = Some nd \<longrightarrow> th_nodes t q = Some md \<longrightarrow> tn_key u t nd = tn_key u t md \<longrightarrow> p = q)"

text \<open>The parent pointer a node with the path \<open>s\<close> must have.\<close>

definition parent_is :: "(WCHAR \<Rightarrow> WCHAR) \<Rightarrow> 'r tree_table \<Rightarrow> WCHAR list \<Rightarrow> nat option \<Rightarrow> bool" where
  "parent_is u t s p \<longleftrightarrow>
     (case parent_path s of
        None \<Rightarrow> p = None
      | Some a \<Rightarrow> \<exists>q qd. p = Some q \<and> th_nodes t q = Some qd \<and> tn_key u t qd = a)"

definition child_set :: "'r tree_table \<Rightarrow> nat \<Rightarrow> nat set" where
  "child_set t p = {c. \<exists>cd. th_nodes t c = Some cd \<and> tn_pParentNode cd = Some p}"

definition forest_ok :: "(WCHAR \<Rightarrow> WCHAR) \<Rightarrow> 'r tree_table \<Rightarrow> bool" where
  "forest_ok u t \<longleftrightarrow> (\<forall>p nd. th_nodes t p = Some nd \<longrightarrow>
     parent_is u t (tn_key u t nd) (tn_pParentNode nd) \<and>
     distinct (tn_children nd) \<and> set (tn_children nd) = child_set t p)"

definition tree_ok :: "(WCHAR \<Rightarrow> WCHAR) \<Rightarrow> WCHAR set \<Rightarrow> 'r tree_table \<Rightarrow> bool" where
  "tree_ok u A t \<longleftrightarrow> (\<exists>bs. chains_ok t bs) \<and> store_ok u A t \<and> forest_ok u t"

text \<open>Node addresses are serial numbers of past heap requests, so the next one is new.\<close>

definition fresh_ok :: "'r tree_table \<Rightarrow> world \<Rightarrow> bool" where
  "fresh_ok t w \<longleftrightarrow> (\<forall>p\<in>dom (th_nodes t). p < heap_calls w)"

lemma fresh_ok_mono: "fresh_ok t w \<Longrightarrow> heap_calls w \<le> heap_calls w' \<Longrightarrow> fresh_ok t w'"
  unfolding fresh_ok_def by (blast intro: less_le_trans)

definition tree_entries :: "(WCHAR \<Rightarrow> WCHAR) \<Rightarrow> 'r tree_table \<Rightarrow> (WCHAR list \<times> 'r option) set" where
  "tree_entries u t = {(tn_key u t nd, tn_pRecord nd) | p nd. th_nodes t p = Some nd}"

lemma in_entries:
  "(k, x) \<in> tree_entries u t \<longleftrightarrow> (\<exists>p nd. th_nodes t p = Some nd \<and> k = tn_key u t nd \<and> x = tn_pRecord nd)"
  by (auto simp: tree_entries_def)

definition tree_refs :: "'r \<Rightarrow> 'r tree_table \<Rightarrow> int" where
  "tree_refs r t = balance r (th_calls t) - int (card {p. \<exists>nd. th_nodes t p = Some nd \<and> tn_pRecord nd = Some r})"

definition tree_blocks :: "'r tree_table \<Rightarrow> world \<Rightarrow> int" where
  "tree_blocks t w = heap_live w - int (card (dom (th_nodes t))) - (if th_ppBuckets t = None then 0 else 1)"

text \<open>Between two states in the same lock mode.\<close>

definition tree_same :: "lock_mode \<Rightarrow> 'r tree_table \<Rightarrow> world \<Rightarrow> 'r tree_table \<Rightarrow> world \<Rightarrow> bool" where
  "tree_same mode t w t' w' \<longleftrightarrow> th_fCaseSensitive t' = th_fCaseSensitive t \<and>
     (\<exists>cs. th_calls t' = th_calls t @ cs \<and> lock_run mode cs = Some mode) \<and>
     (\<forall>r. tree_refs r t' = tree_refs r t) \<and> tree_blocks t' w' = tree_blocks t w \<and> heap_calls w \<le> heap_calls w' \<and>
     (generous w \<longrightarrow> generous w')"

lemma tree_same_refl [simp]: "tree_same mode t w t w"
  by (auto simp: tree_same_def intro: exI [of _ "[]"])

lemma tree_same_trans:
  assumes "tree_same mode t w t1 w1" "tree_same mode t1 w1 t2 w2"
  shows "tree_same mode t w t2 w2"
proof -
  obtain cs ds where "th_calls t1 = th_calls t @ cs" "lock_run mode cs = Some mode"
    "th_calls t2 = th_calls t1 @ ds" "lock_run mode ds = Some mode" using assms by (auto simp: tree_same_def)
  then have "\<exists>cs. th_calls t2 = th_calls t @ cs \<and> lock_run mode cs = Some mode"
    by (intro exI [of _ "cs @ ds"]) (simp add: lock_run_append)
  with assms show ?thesis by (simp add: tree_same_def)
qed

section \<open>What depends on what\<close>

lemma CalcHash_cong: "th_fCaseSensitive t = th_fCaseSensitive t' \<Longrightarrow> CalcHash t s = CalcHash t' s"
  by (simp add: CalcHash_def)

lemma tree_norm_cong: "th_fCaseSensitive t = th_fCaseSensitive t' \<Longrightarrow> tree_norm u t s = tree_norm u t' s"
  by (simp add: tree_norm_def)

lemma th_emit_simps [simp]:
  "th_ppBuckets (th_emit cs t) = th_ppBuckets t" "th_nBuckets (th_emit cs t) = th_nBuckets t"
  "th_nItems (th_emit cs t) = th_nItems t" "th_fCaseSensitive (th_emit cs t) = th_fCaseSensitive t"
  "th_nodes (th_emit cs t) = th_nodes t" "th_calls (th_emit cs t) = th_calls t @ cs"
  by (simp_all add: th_emit_def)

lemma set_node_simps [simp]:
  "th_ppBuckets (set_node p nd t) = th_ppBuckets t" "th_nBuckets (set_node p nd t) = th_nBuckets t"
  "th_nItems (set_node p nd t) = th_nItems t" "th_fCaseSensitive (set_node p nd t) = th_fCaseSensitive t"
  "th_nodes (set_node p nd t) = (th_nodes t)(p \<mapsto> nd)" "th_calls (set_node p nd t) = th_calls t"
  by (simp_all add: set_node_def)

lemma norm_simps [simp]:
  "CalcHash (th_emit cs t) = CalcHash t" "CalcHash (set_node p nd t) = CalcHash t"
  "CalcHash (t\<lparr>th_ppBuckets := b\<rparr>) = CalcHash t" "CalcHash (t\<lparr>th_nBuckets := n\<rparr>) = CalcHash t"
  "CalcHash (t\<lparr>th_nItems := n\<rparr>) = CalcHash t" "CalcHash (t\<lparr>th_nodes := s\<rparr>) = CalcHash t"
  "tree_norm u (th_emit cs t) = tree_norm u t" "tree_norm u (set_node p nd t) = tree_norm u t"
  "tree_norm u (t\<lparr>th_ppBuckets := b\<rparr>) = tree_norm u t" "tree_norm u (t\<lparr>th_nBuckets := n\<rparr>) = tree_norm u t"
  "tree_norm u (t\<lparr>th_nItems := n\<rparr>) = tree_norm u t" "tree_norm u (t\<lparr>th_nodes := s\<rparr>) = tree_norm u t"
  by (simp_all add: fun_eq_iff CalcHash_def tree_norm_def)

lemma tn_key_cong: "th_fCaseSensitive t = th_fCaseSensitive t' \<Longrightarrow> tn_key u t = tn_key u t'"
  by (simp add: fun_eq_iff tn_key_def tree_norm_def)

lemma node_ok_cong: "th_fCaseSensitive t = th_fCaseSensitive t' \<Longrightarrow> node_ok A t = node_ok A t'"
  by (simp add: fun_eq_iff node_ok_def CalcHash_def)

lemma case_ok_cong: "th_fCaseSensitive t = th_fCaseSensitive t' \<Longrightarrow> case_ok u A t = case_ok u A t'"
  by (simp add: case_ok_def)

lemma key_simps [simp]:
  "tn_key u (th_emit cs t) = tn_key u t" "tn_key u (set_node p nd t) = tn_key u t"
  "tn_key u (t\<lparr>th_ppBuckets := b\<rparr>) = tn_key u t" "tn_key u (t\<lparr>th_nBuckets := n\<rparr>) = tn_key u t"
  "tn_key u (t\<lparr>th_nItems := n\<rparr>) = tn_key u t" "tn_key u (t\<lparr>th_nodes := s\<rparr>) = tn_key u t"
  "node_ok A (th_emit cs t) = node_ok A t" "node_ok A (set_node p nd t) = node_ok A t"
  "node_ok A (t\<lparr>th_ppBuckets := b\<rparr>) = node_ok A t" "node_ok A (t\<lparr>th_nBuckets := n\<rparr>) = node_ok A t"
  "node_ok A (t\<lparr>th_nItems := n\<rparr>) = node_ok A t" "node_ok A (t\<lparr>th_nodes := s\<rparr>) = node_ok A t"
  "case_ok u A (th_emit cs t) = case_ok u A t" "case_ok u A (set_node p nd t) = case_ok u A t"
  by (simp_all add: fun_eq_iff tn_key_def node_ok_def case_ok_def)

lemma tree_okE:
  assumes "tree_ok u A t"
  obtains bs where "chains_ok t bs" "store_ok u A t" "forest_ok u t"
  using assms by (auto simp: tree_ok_def)

lemma tree_ok_th_emit [simp]: "tree_ok u A (th_emit cs t) = tree_ok u A t"
  by (simp add: tree_ok_def chains_ok_def store_ok_def forest_ok_def parent_is_def child_set_def cong: option.case_cong)

lemma tree_entries_th_emit [simp]: "tree_entries u (th_emit cs t) = tree_entries u t"
  by (simp add: tree_entries_def)

lemma fresh_ok_th_emit [simp]: "fresh_ok (th_emit cs t) w = fresh_ok t w"
  by (simp add: fresh_ok_def)

lemma node_okD:
  assumes "node_ok A t nd"
  shows "tn_pszPath nd = tn_path nd @ [0]" "0 \<notin> set (tn_path nd)" "set (tn_path nd) \<subseteq> A"
    "tn_dwHash nd = CalcHash t (tn_path nd)"
proof -
  obtain s where s: "tn_pszPath nd = s @ [0]" "0 \<notin> set s" "set s \<subseteq> A" "tn_dwHash nd = CalcHash t (tn_pszPath nd)"
    using assms by (auto simp: node_ok_def)
  then have p: "tn_path nd = s" by (simp add: tn_path_def cstr_append_nul)
  with s show "tn_pszPath nd = tn_path nd @ [0]" "0 \<notin> set (tn_path nd)" "set (tn_path nd) \<subseteq> A" by auto
  show "tn_dwHash nd = CalcHash t (tn_path nd)"
    using s(4) CalcHash_cstr [of t "tn_pszPath nd"] by (simp add: tn_path_def)
qed

lemma chains_okD:
  assumes "chains_ok t bs"
  shows "th_ppBuckets t = Some bs" "length bs = th_nBuckets t" "0 < th_nBuckets t" "distinct (concat bs)"
    "set (concat bs) = dom (th_nodes t)" "\<And>b. b < length bs \<Longrightarrow> bucket_ok (th_nodes t) (length bs) b (bs ! b)"
    "th_nItems t = dword (length (concat bs))" "finite (dom (th_nodes t))"
    "th_nBuckets t < MAXDWORD div sizeof_pointer"
  using assms finite_set [of "concat bs"] by (auto simp: chains_ok_def)

lemma in_chain: "b < length bs \<Longrightarrow> p \<in> set (bs ! b) \<Longrightarrow> p \<in> set (concat bs)"
  using nth_mem [of b bs] by auto

lemma chains_ok_bucket:
  assumes "chains_ok t bs" "th_nodes t p = Some nd"
  shows "unat (tn_dwHash nd) mod th_nBuckets t < length bs" "p \<in> set (bs ! (unat (tn_dwHash nd) mod th_nBuckets t))"
proof -
  note D = chains_okD [OF assms(1)]
  show "unat (tn_dwHash nd) mod th_nBuckets t < length bs" using D(2,3) by simp
  have "p \<in> set (concat bs)" using D(5) assms(2) by auto
  then obtain b where b: "b < length bs" "p \<in> set (bs ! b)" by (auto simp: in_set_conv_nth [of _ bs])
  have "unat (hash_at (th_nodes t) p) mod length bs = b" using D(6) [OF b(1)] b(2) by (simp add: bucket_ok_def)
  then show "p \<in> set (bs ! (unat (tn_dwHash nd) mod th_nBuckets t))"
    using b(2) assms(2) D(2) by (simp add: hash_at_def)
qed

section \<open>Finding\<close>

lemma tree_find_cong:
  assumes "\<forall>p\<in>set c. th_nodes t p = th_nodes t' p" "th_fCaseSensitive t = th_fCaseSensitive t'"
  shows "tree_find u t key h c pos = tree_find u t' key h c pos"
  using assms(1) by (induction c arbitrary: pos) (simp_all add: assms(2) cong: if_cong)

lemma tree_find_spec:
  fixes u :: "WCHAR \<Rightarrow> WCHAR" and key :: "WCHAR list"
  assumes "\<forall>p\<in>set c. th_nodes t p \<noteq> None" "sorted (map (hash_at (th_nodes t)) c)"
  defines "eq \<equiv> \<lambda>p. tree_norm u t (cstr key) = tn_key u t (the (th_nodes t p))"
  shows "\<exists>f i. tree_find u t key h c pos = Some (f, pos + i, if i < length c then Some (c ! i) else None) \<and>
    (if f then i < length c \<and> eq (c ! i)
     else (\<forall>p\<in>set c. hash_at (th_nodes t) p = h \<longrightarrow> \<not> eq p) \<and>
       (\<forall>x\<in>set (take i c). hash_at (th_nodes t) x \<le> h) \<and> (\<forall>x\<in>set (drop i c). h \<le> hash_at (th_nodes t) x))"
  using assms(1,2)
proof (induction c arbitrary: pos)
  case (Cons p c)
  obtain nd where nd: "th_nodes t p = Some nd" using Cons.prems(1) by auto
  then have h: "hash_at (th_nodes t) p = tn_dwHash nd" by (simp add: hash_at_def)
  have e: "CompareStringOrdinal u key (tn_pszPath nd) (\<not> th_fCaseSensitive t) \<longleftrightarrow> eq p"
    by (simp add: CompareStringOrdinal_norm eq_def nd tn_key_def tn_path_def)
  have le: "\<forall>x\<in>set c. tn_dwHash nd \<le> hash_at (th_nodes t) x" using Cons.prems(2) h by simp
  consider (here) "tn_dwHash nd = h" "eq p" | (beyond) "h < tn_dwHash nd"
    | (on) "tn_dwHash nd \<le> h" "tn_dwHash nd = h \<longrightarrow> \<not> eq p" by force
  then show ?case
  proof cases
    case here
    then show ?thesis by (intro exI [of _ True] exI [of _ 0]) (simp add: nd e)
  next
    case beyond
    then show ?thesis using le h by (intro exI [of _ False] exI [of _ 0]) (auto simp: nd)
  next
    case on
    have r: "tree_find u t key h (p # c) pos = tree_find u t key h c (pos + 1)" using on by (auto simp: nd e)
    from Cons.IH [of "pos + 1"] Cons.prems obtain f i where
      "tree_find u t key h c (pos + 1) = Some (f, pos + 1 + i, if i < length c then Some (c ! i) else None)"
      "if f then i < length c \<and> eq (c ! i) else (\<forall>p\<in>set c. hash_at (th_nodes t) p = h \<longrightarrow> \<not> eq p) \<and>
       (\<forall>x\<in>set (take i c). hash_at (th_nodes t) x \<le> h) \<and> (\<forall>x\<in>set (drop i c). h \<le> hash_at (th_nodes t) x)"
      by auto
    then show ?thesis unfolding r using on h by (intro exI [of _ f] exI [of _ "Suc i"]) (auto split: if_splits)
  qed
qed (auto intro: exI [of _ False])

lemma FindNode_cases:
  assumes "tree_ok u A t" "case_ok u A t" "set (cstr key) \<subseteq> A"
  obtains (found) bs b pos p nd where
      "tree_FindNodeInternal u key (CalcHash t key) t = Some (True, b, pos, Some p)"
      "th_ppBuckets t = Some bs" "b < length bs" "pos < length (bs ! b)" "bs ! b ! pos = p"
      "th_nodes t p = Some nd" "tn_key u t nd = tree_norm u t (cstr key)"
  | (missing) bs b pos q where
      "tree_FindNodeInternal u key (CalcHash t key) t = Some (False, b, pos, q)"
      "th_ppBuckets t = Some bs" "b < length bs" "b = unat (CalcHash t key) mod length bs"
      "\<forall>x\<in>set (take pos (bs ! b)). hash_at (th_nodes t) x \<le> CalcHash t key"
      "\<forall>x\<in>set (drop pos (bs ! b)). CalcHash t key \<le> hash_at (th_nodes t) x"
      "\<And>p nd. th_nodes t p = Some nd \<Longrightarrow> tn_key u t nd \<noteq> tree_norm u t (cstr key)"
proof -
  obtain bs where C: "chains_ok t bs" and S: "store_ok u A t" using assms(1) by (auto simp: tree_ok_def)
  note D = chains_okD [OF C]
  let ?b = "unat (CalcHash t key) mod th_nBuckets t"
  have b: "?b < length bs" using D(2,3) by simp
  have ch: "\<forall>p\<in>set (bs ! ?b). th_nodes t p \<noteq> None" using D(5) in_chain [OF b] by blast
  have so: "sorted (map (hash_at (th_nodes t)) (bs ! ?b))" using D(6) [OF b] by (simp add: bucket_ok_def)
  from tree_find_spec [OF ch so, of u key "CalcHash t key" 0]
  obtain f i where F: "tree_find u t key (CalcHash t key) (bs ! ?b) 0
      = Some (f, i, if i < length (bs ! ?b) then Some (bs ! ?b ! i) else None)"
    and P: "if f then i < length (bs ! ?b) \<and> tree_norm u t (cstr key) = tn_key u t (the (th_nodes t (bs ! ?b ! i)))
      else (\<forall>p\<in>set (bs ! ?b). hash_at (th_nodes t) p = CalcHash t key \<longrightarrow>
          tree_norm u t (cstr key) \<noteq> tn_key u t (the (th_nodes t p))) \<and>
        (\<forall>x\<in>set (take i (bs ! ?b)). hash_at (th_nodes t) x \<le> CalcHash t key) \<and>
        (\<forall>x\<in>set (drop i (bs ! ?b)). CalcHash t key \<le> hash_at (th_nodes t) x)" by auto
  have R: "tree_FindNodeInternal u key (CalcHash t key) t
      = Some (f, ?b, i, if i < length (bs ! ?b) then Some (bs ! ?b ! i) else None)"
    using F D(1,3) b by (simp add: tree_FindNodeInternal_def mem_get_Some Let_def)
  show thesis
  proof (cases f)
    case True
    then have i: "i < length (bs ! ?b)" using P by simp
    then obtain nd where "th_nodes t (bs ! ?b ! i) = Some nd" using ch nth_mem by blast
    then show ?thesis using True P R i D(1) b by (intro found [of ?b i "bs ! ?b ! i" bs nd]) simp_all
  next
    case False
    have "tn_key u t nd \<noteq> tree_norm u t (cstr key)" if nd: "th_nodes t p = Some nd" for p nd
    proof
      assume e: "tn_key u t nd = tree_norm u t (cstr key)"
      have ok: "node_ok A t nd" using S nd by (auto simp: store_ok_def)
      have "CalcHash t (tn_pszPath nd) = CalcHash t key"
        by (rule CalcHash_norm [OF assms(2)])
           (use node_okD [OF ok] assms(3) e in \<open>simp_all add: tn_key_def tn_path_def\<close>)
      then have h: "tn_dwHash nd = CalcHash t key" using ok by (simp add: node_ok_def)
      then have "p \<in> set (bs ! ?b)" using chains_ok_bucket(2) [OF C nd] by simp
      then show False using False P nd h e by (auto simp: hash_at_def)
    qed
    then show ?thesis using False P R D(1,2) b
      by (intro missing [of ?b i _ bs]) simp_all
  qed
qed

section \<open>Changing a record\<close>

definition erase :: "'r tree_node \<Rightarrow> 'r tree_node" where
  "erase nd = nd\<lparr>tn_pRecord := None\<rparr>"

lemma erase_eqD:
  assumes "erase nd = erase md"
  shows "tn_pParentNode nd = tn_pParentNode md" "tn_children nd = tn_children md" "tn_pszPath nd = tn_pszPath md"
    "tn_dwHash nd = tn_dwHash md"
  using assms by (cases nd; cases md; simp add: erase_def)+

lemma tree_ok_erase:
  assumes ok: "tree_ok u A t"
    and t': "th_ppBuckets t' = th_ppBuckets t" "th_nBuckets t' = th_nBuckets t" "th_nItems t' = th_nItems t"
      "th_fCaseSensitive t' = th_fCaseSensitive t"
    and rel: "\<And>p. map_option erase (th_nodes t' p) = map_option erase (th_nodes t p)"
  shows "tree_ok u A t'"
proof -
  obtain bs where C: "chains_ok t bs" and S: "store_ok u A t" and F: "forest_ok u t" by (rule tree_okE [OF ok])
  have fwd: "\<exists>nd. th_nodes t p = Some nd \<and> erase nd = erase nd'" if "th_nodes t' p = Some nd'" for p nd'
    using rel [of p] that by (cases "th_nodes t p") auto
  have bwd: "\<exists>nd. th_nodes t' p = Some nd \<and> erase nd = erase nd'" if "th_nodes t p = Some nd'" for p nd'
    using rel [of p] that by (cases "th_nodes t' p") auto
  have dom: "dom (th_nodes t') = dom (th_nodes t)" using fwd bwd by blast
  have hash: "hash_at (th_nodes t') = hash_at (th_nodes t)"
  proof
    fix p show "hash_at (th_nodes t') p = hash_at (th_nodes t) p"
      using rel [of p] by (cases "th_nodes t p"; cases "th_nodes t' p") (auto simp: hash_at_def dest: erase_eqD)
  qed
  have key: "tn_key u t' nd = tn_key u t md" and okn: "node_ok A t' nd \<longleftrightarrow> node_ok A t md" if "erase nd = erase md" for nd md
    using erase_eqD [OF that] t'(4) by (simp_all add: tn_key_def tn_path_def node_ok_def tree_norm_def CalcHash_def)
  have "chains_ok t' bs" using C unfolding chains_ok_def t' dom bucket_ok_def hash .
  moreover have "store_ok u A t'"
    unfolding store_ok_def
  proof (intro conjI allI impI)
    fix p nd assume "th_nodes t' p = Some nd"
    then show "node_ok A t' nd" using fwd S okn unfolding store_ok_def by metis
  next
    fix p q nd md assume "th_nodes t' p = Some nd" "th_nodes t' q = Some md" "tn_key u t' nd = tn_key u t' md"
    then show "p = q" using fwd S key unfolding store_ok_def by metis
  qed
  moreover have "forest_ok u t'"
    unfolding forest_ok_def
  proof (intro allI impI)
    fix p nd assume "th_nodes t' p = Some nd"
    then obtain md where md: "th_nodes t p = Some md" "erase md = erase nd" using fwd by blast
    have cs: "child_set t' p = child_set t p"
      unfolding child_set_def using fwd bwd erase_eqD(1) by (metis (no_types, lifting))
    have "parent_is u t (tn_key u t md) (tn_pParentNode md) \<and> distinct (tn_children md) \<and> set (tn_children md) = child_set t p"
      using F md(1) by (simp add: forest_ok_def)
    moreover have "parent_is u t' s q" if "parent_is u t s q" for s q
      using that bwd key unfolding parent_is_def by (cases "parent_path s") (auto, metis)
    ultimately show "parent_is u t' (tn_key u t' nd) (tn_pParentNode nd) \<and> distinct (tn_children nd) \<and>
        set (tn_children nd) = child_set t' p"
      using erase_eqD [OF md(2)] key [OF md(2) [symmetric]] cs by auto
  qed
  ultimately show ?thesis by (auto simp: tree_ok_def)
qed

lemma set_record:
  fixes r :: "'r option"
  assumes "tree_ok u A t" "th_nodes t p = Some nd"
  defines "t' \<equiv> set_node p (nd\<lparr>tn_pRecord := r\<rparr>) t"
  shows "tree_ok u A t'"
    "tree_entries u t' = {(k, x) \<in> tree_entries u t. k \<noteq> tn_key u t nd} \<union> {(tn_key u t nd, r)}"
proof -
  show "tree_ok u A t'"
    unfolding t'_def by (rule tree_ok_erase [OF assms(1)]) (simp_all add: erase_def assms(2))
  have S: "store_ok u A t" using assms(1) by (simp add: tree_ok_def)
  have k: "tn_key u t (nd\<lparr>tn_pRecord := r\<rparr>) = tn_key u t nd" by (simp add: tn_key_def tn_path_def)
  have "q = p" if "th_nodes t q = Some md" "tn_key u t md = tn_key u t nd" for q md
    using S that assms(2) by (simp add: store_ok_def)
  then have other: "tn_key u t md \<noteq> tn_key u t nd \<longleftrightarrow> q \<noteq> p" if "th_nodes t q = Some md" for q md
    using that assms(2) by (metis option.inject)
  have "tree_entries u t' = {(tn_key u t md, tn_pRecord md) | q md. th_nodes t q = Some md \<and> q \<noteq> p} \<union> {(tn_key u t nd, r)}"
    unfolding tree_entries_def t'_def using k by auto
  moreover have "{(tn_key u t md, tn_pRecord md) | q md. th_nodes t q = Some md \<and> q \<noteq> p}
      = {(k, x) \<in> tree_entries u t. k \<noteq> tn_key u t nd}"
    unfolding tree_entries_def by (auto simp: other; metis other)
  ultimately show "tree_entries u t' = {(k, x) \<in> tree_entries u t. k \<noteq> tn_key u t nd} \<union> {(tn_key u t nd, r)}" by simp
qed

end
