(* ===== verification/TreeInsertFacts.thy ===== *)
theory TreeInsertFacts
  imports TreeHashFacts
begin

text \<open>
  Insertion into TREE_HASH_TABLE: linking one node, AddNodeInternal on each of its branches, growing the
  table, and the two scans of InsertRecord. A successful insertion adds exactly the path with its
  record and those of its ancestors that were missing, without records.
\<close>

section \<open>Linking a node\<close>

lemma mset_tree_link: "b < length bs \<Longrightarrow> mset (concat (tree_link b pos p bs)) = mset (p # concat bs)"
proof -
  assume b: "b < length bs"
  have "mset (take pos (bs ! b) @ p # drop pos (bs ! b)) = add_mset p (mset (bs ! b))"
    by (metis append_take_drop_id mset.simps(2) mset_append union_mset_add_mset_right)
  with mset_concat_update [OF b, of "take pos (bs ! b) @ p # drop pos (bs ! b)"]
  show ?thesis unfolding tree_link_def by simp
qed

lemma bucket_ok_link:
  assumes "bucket_ok store n b c" "unat (hash_at store p) mod n = b"
    "\<forall>x\<in>set (take i c). hash_at store x \<le> hash_at store p" "\<forall>x\<in>set (drop i c). hash_at store p \<le> hash_at store x"
  shows "bucket_ok store n b (take i c @ p # drop i c)"
proof -
  have s: "sorted (map (hash_at store) (take i c) @ map (hash_at store) (drop i c))"
    using assms(1) by (simp add: bucket_ok_def flip: map_append)
  have "sorted (map (hash_at store) (take i c @ p # drop i c))"
    using s assms(3,4) unfolding map_append list.map sorted_append by auto
  then show ?thesis using assms(1,2) by (auto simp: bucket_ok_def dest: in_set_takeD in_set_dropD)
qed

lemma bucket_ok_cong: "\<forall>p\<in>set c. hash_at store' p = hash_at store p \<Longrightarrow> bucket_ok store' n b c = bucket_ok store n b c"
  by (simp add: bucket_ok_def cong: map_cong)

text \<open>The store with a new node that is the first child of its parent.\<close>

definition with_node :: "nat \<Rightarrow> 'r tree_node \<Rightarrow> (nat \<Rightarrow> 'r tree_node option) \<Rightarrow> nat \<Rightarrow> 'r tree_node option" where
  "with_node p nd store x =
     (if x = p then Some nd
      else if tn_pParentNode nd = Some x then map_option (\<lambda>qd. qd\<lparr>tn_children := p # tn_children qd\<rparr>) (store x)
      else store x)"

lemma dom_with_node [simp]: "dom (with_node p nd store) = insert p (dom store)"
  by (auto simp: with_node_def split: if_splits)

lemma with_node_old:
  assumes "with_node p nd store x = Some md" "x \<noteq> p"
  obtains od where "store x = Some od" "tn_pParentNode md = tn_pParentNode od" "tn_pszPath md = tn_pszPath od"
    "tn_dwHash md = tn_dwHash od" "tn_pRecord md = tn_pRecord od"
    "tn_children md = (if tn_pParentNode nd = Some x then p # tn_children od else tn_children od)"
  using assms by (cases "store x") (auto simp: with_node_def split: if_splits)

lemma with_node_Some:
  assumes "store x = Some od" "x \<noteq> p"
  obtains md where "with_node p nd store x = Some md" "tn_pParentNode md = tn_pParentNode od" "tn_pszPath md = tn_pszPath od"
    "tn_dwHash md = tn_dwHash od" "tn_pRecord md = tn_pRecord od"
  by (rule that [of "if tn_pParentNode nd = Some x then od\<lparr>tn_children := p # tn_children od\<rparr> else od"])
    (use assms in \<open>simp_all add: with_node_def\<close>)

definition link_new :: "nat \<Rightarrow> nat \<Rightarrow> nat \<Rightarrow> 'r tree_node \<Rightarrow> nat list list \<Rightarrow> 'r tree_table \<Rightarrow> 'r tree_table" where
  "link_new b pos p nd bs t = t\<lparr>th_ppBuckets := Some (tree_link b pos p bs), th_nodes := with_node p nd (th_nodes t),
     th_nItems := dword (th_nItems t + 1)\<rparr>"

lemma link_new_simps [simp]:
  "th_ppBuckets (link_new b pos p nd bs t) = Some (tree_link b pos p bs)"
  "th_nodes (link_new b pos p nd bs t) = with_node p nd (th_nodes t)"
  "th_nItems (link_new b pos p nd bs t) = dword (th_nItems t + 1)" "th_nBuckets (link_new b pos p nd bs t) = th_nBuckets t"
  "th_fCaseSensitive (link_new b pos p nd bs t) = th_fCaseSensitive t" "th_calls (link_new b pos p nd bs t) = th_calls t"
  "tn_key u (link_new b pos p nd bs t) = tn_key u t" "node_ok A (link_new b pos p nd bs t) = node_ok A t"
  by (simp_all add: link_new_def fun_eq_iff tn_key_def tree_norm_def node_ok_def CalcHash_def)

lemma link_new_chains:
  assumes C: "chains_ok t bs" and b: "b < length bs" "b = unat (tn_dwHash nd) mod length bs" and p: "p \<notin> dom (th_nodes t)"
    and le: "\<forall>x\<in>set (take pos (bs ! b)). hash_at (th_nodes t) x \<le> tn_dwHash nd"
      "\<forall>x\<in>set (drop pos (bs ! b)). tn_dwHash nd \<le> hash_at (th_nodes t) x"
  shows "chains_ok (link_new b pos p nd bs t) (tree_link b pos p bs)"
proof -
  note D = chains_okD [OF C]
  let ?st = "with_node p nd (th_nodes t)"
  have m: "mset (concat (tree_link b pos p bs)) = mset (p # concat bs)" by (rule mset_tree_link [OF b(1)])
  have h: "hash_at ?st x = hash_at (th_nodes t) x" if "x \<in> set (concat bs)" for x
  proof -
    have "x \<noteq> p" "th_nodes t x \<noteq> None" using that p D(5) by auto
    then show ?thesis by (auto simp: hash_at_def with_node_def)
  qed
  have hp: "hash_at ?st p = tn_dwHash nd" by (simp add: hash_at_def with_node_def)
  have "bucket_ok ?st (length bs) i (tree_link b pos p bs ! i)" if i: "i < length bs" for i
  proof -
    have old: "bucket_ok ?st (length bs) i (bs ! i)"
      using D(6) [OF i] bucket_ok_cong [of "bs ! i" ?st "th_nodes t"] h in_chain [OF i] by blast
    show ?thesis
    proof (cases "i = b")
      case True
      have "\<forall>x\<in>set (take pos (bs ! b)). hash_at ?st x \<le> hash_at ?st p" "\<forall>x\<in>set (drop pos (bs ! b)). hash_at ?st p \<le> hash_at ?st x"
        using le h in_chain [OF b(1)] hp in_set_takeD [of _ pos "bs ! b"] in_set_dropD [of _ pos "bs ! b"] by metis+
      then have "bucket_ok ?st (length bs) b (take pos (bs ! b) @ p # drop pos (bs ! b))"
        using bucket_ok_link [of ?st "length bs" b "bs ! b" p pos] old True b hp by simp
      then show ?thesis using True b(1) by (simp add: tree_link_def)
    qed (use old in \<open>simp add: tree_link_def\<close>)
  qed
  moreover have "distinct (concat (tree_link b pos p bs))"
    using mset_eq_imp_distinct_iff [OF m] D(4) p unfolding D(5) [symmetric] by simp
  moreover have "set (concat (tree_link b pos p bs)) = insert p (dom (th_nodes t))"
    using mset_eq_setD [OF m] D(5) by simp
  moreover have "length (concat (tree_link b pos p bs)) = Suc (length (concat bs))"
    using mset_eq_length [OF m] by simp
  moreover have "dword (th_nItems t + 1) = dword (Suc (length (concat bs)))"
    unfolding D(7) dword_plus_1 by simp
  ultimately show ?thesis
    using D(2,3,9) by (simp add: chains_ok_def tree_link_def del: set_concat)
qed

lemma link_new_store:
  assumes S: "store_ok u A t" and nd: "node_ok A t nd" and p: "p \<notin> dom (th_nodes t)"
    and new: "\<And>q md. th_nodes t q = Some md \<Longrightarrow> tn_key u t md \<noteq> tn_key u t nd"
  shows "store_ok u A (link_new b pos p nd bs t)"
proof -
  let ?st = "with_node p nd (th_nodes t)"
  have key: "(q = p \<and> md = nd) \<or> (\<exists>od. q \<noteq> p \<and> th_nodes t q = Some od \<and> tn_key u t md = tn_key u t od \<and> node_ok A t md)"
    if "?st q = Some md" for q md
  proof (cases "q = p")
    case True
    then show ?thesis using that by (simp add: with_node_def)
  next
    case False
    from with_node_old [OF that False] obtain od where od: "th_nodes t q = Some od" "tn_pszPath md = tn_pszPath od"
      "tn_dwHash md = tn_dwHash od" by metis
    then have "node_ok A t md" using S by (simp add: store_ok_def node_ok_def)
    with od False show ?thesis by (simp add: tn_key_def tn_path_def)
  qed
  show ?thesis
    unfolding store_ok_def link_new_simps
  proof (intro conjI allI impI)
    fix q md assume "?st q = Some md"
    then show "node_ok A t md" using key nd by blast
  next
    fix q r md kd assume h: "?st q = Some md" "?st r = Some kd" "tn_key u t md = tn_key u t kd"
    then show "q = r" using key [OF h(1)] key [OF h(2)] new S unfolding store_ok_def by metis
  qed
qed

lemma link_new_forest:
  assumes F: "forest_ok u t" and p: "p \<notin> dom (th_nodes t)" and nd: "parent_is u t (tn_key u t nd) (tn_pParentNode nd)"
    "tn_children nd = []"
  shows "forest_ok u (link_new b pos p nd bs t)"
proof -
  let ?st = "with_node p nd (th_nodes t)" and ?t = "link_new b pos p nd bs t"
  have par: "parent_is u ?t s q" if h: "parent_is u t s q" for s q
  proof (cases "parent_path s")
    case (Some a)
    then obtain q' qd where q: "q = Some q'" "th_nodes t q' = Some qd" "tn_key u t qd = a"
      using h by (auto simp: parent_is_def)
    moreover have "q' \<noteq> p" using p q(2) by auto
    ultimately obtain qd' where "?st q' = Some qd'" "tn_pszPath qd' = tn_pszPath qd" by (metis with_node_Some)
    then show ?thesis using Some q by (simp add: parent_is_def tn_key_def tn_path_def)
  qed (use h in \<open>simp add: parent_is_def\<close>)
  have noparent: "tn_pParentNode od \<noteq> Some p" if "th_nodes t q = Some od" for q od
    using F that p unfolding forest_ok_def parent_is_def
    by (cases "parent_path (tn_key u t od)") force+
  have self: "tn_pParentNode nd \<noteq> Some p" using nd(1) p by (cases "parent_path (tn_key u t nd)") (auto simp: parent_is_def)
  have kids: "child_set ?t q = (if tn_pParentNode nd = Some q then insert p (child_set t q) else child_set t q)" for q
  proof -
    have "(\<exists>cd. ?st c = Some cd \<and> tn_pParentNode cd = Some q) \<longleftrightarrow>
        (c = p \<and> tn_pParentNode nd = Some q) \<or> (\<exists>cd. th_nodes t c = Some cd \<and> tn_pParentNode cd = Some q)" for c
    proof (cases "c = p")
      case True
      then show ?thesis using p by (auto simp: with_node_def)
    next
      case False
      then show ?thesis by (auto simp: with_node_def)
    qed
    then show ?thesis unfolding child_set_def link_new_simps by auto
  qed
  show ?thesis
    unfolding forest_ok_def link_new_simps
  proof (intro allI impI)
    fix q md assume md: "?st q = Some md"
    show "parent_is u ?t (tn_key u t md) (tn_pParentNode md) \<and> distinct (tn_children md) \<and>
        set (tn_children md) = child_set ?t q"
    proof (cases "q = p")
      case True
      then have "md = nd" using md by (simp add: with_node_def)
      moreover have "child_set t p = {}" using noparent by (auto simp: child_set_def)
      ultimately show ?thesis using nd par self True kids [of p] by simp
    next
      case False
      from with_node_old [OF md False] obtain od where od: "th_nodes t q = Some od"
        "tn_pParentNode md = tn_pParentNode od" "tn_key u t md = tn_key u t od"
        "tn_children md = (if tn_pParentNode nd = Some q then p # tn_children od else tn_children od)"
        by (metis tn_key_def tn_path_def)
      have "p \<notin> child_set t q" using p by (auto simp: child_set_def)
      then show ?thesis using F od par kids [of q] by (simp add: forest_ok_def)
    qed
  qed
qed

lemma link_new_ok:
  assumes ok: "tree_ok u A t" and bs: "th_ppBuckets t = Some bs"
    and b: "b < length bs" "b = unat (tn_dwHash nd) mod length bs" and p: "p \<notin> dom (th_nodes t)"
    and le: "\<forall>x\<in>set (take pos (bs ! b)). hash_at (th_nodes t) x \<le> tn_dwHash nd"
      "\<forall>x\<in>set (drop pos (bs ! b)). tn_dwHash nd \<le> hash_at (th_nodes t) x"
    and nd: "node_ok A t nd" "parent_is u t (tn_key u t nd) (tn_pParentNode nd)" "tn_children nd = []"
    and new: "\<And>q md. th_nodes t q = Some md \<Longrightarrow> tn_key u t md \<noteq> tn_key u t nd"
  shows "tree_ok u A (link_new b pos p nd bs t)"
    "tree_entries u (link_new b pos p nd bs t) = insert (tn_key u t nd, tn_pRecord nd) (tree_entries u t)"
proof -
  obtain bs' where C: "chains_ok t bs'" and S: "store_ok u A t" and F: "forest_ok u t" by (rule tree_okE [OF ok])
  have "bs' = bs" using chains_okD(1) [OF C] bs by simp
  then have "chains_ok (link_new b pos p nd bs t) (tree_link b pos p bs)" using link_new_chains [OF _ b p le] C by blast
  moreover have "store_ok u A (link_new b pos p nd bs t)" by (rule link_new_store [OF S nd(1) p new])
  ultimately show "tree_ok u A (link_new b pos p nd bs t)"
    using link_new_forest [OF F p nd(2,3)] unfolding tree_ok_def by blast
  have "(\<exists>q md. with_node p nd (th_nodes t) q = Some md \<and> k = tn_key u t md \<and> x = tn_pRecord md) \<longleftrightarrow>
      k = tn_key u t nd \<and> x = tn_pRecord nd \<or> (\<exists>q md. th_nodes t q = Some md \<and> k = tn_key u t md \<and> x = tn_pRecord md)"
    (is "?L \<longleftrightarrow> ?R") for k x
  proof
    assume ?L
    then obtain q md where m: "with_node p nd (th_nodes t) q = Some md" "k = tn_key u t md" "x = tn_pRecord md" by blast
    show ?R
    proof (cases "q = p")
      case False
      from with_node_old [OF m(1) this] show ?thesis using m by (metis tn_key_def tn_path_def)
    qed (use m in \<open>simp add: with_node_def\<close>)
  next
    assume ?R
    then show ?L
    proof
      assume "\<exists>q md. th_nodes t q = Some md \<and> k = tn_key u t md \<and> x = tn_pRecord md"
      then obtain q md where m: "th_nodes t q = Some md" "k = tn_key u t md" "x = tn_pRecord md" by blast
      moreover have "q \<noteq> p" using m(1) p by auto
      ultimately show ?thesis by (metis tn_key_def tn_path_def with_node_Some)
    qed (auto simp: with_node_def)
  qed
  then show "tree_entries u (link_new b pos p nd bs t) = insert (tn_key u t nd, tn_pRecord nd) (tree_entries u t)"
    unfolding set_eq_iff split_paired_All insert_iff in_entries link_new_simps prod.inject by blast
qed

section \<open>The ledger\<close>

definition holders :: "'r \<Rightarrow> 'r tree_table \<Rightarrow> nat set" where
  "holders r t = {p. \<exists>nd. th_nodes t p = Some nd \<and> tn_pRecord nd = Some r}"

lemma tree_refs_holders: "tree_refs r t = balance r (th_calls t) - int (card (holders r t))"
  by (simp add: tree_refs_def holders_def)

lemma finite_holders: "finite (dom (th_nodes t)) \<Longrightarrow> finite (holders r t)"
  by (rule finite_subset [of _ "dom (th_nodes t)"]) (auto simp: holders_def)

lemma holders_set_record:
  assumes "th_nodes t p = Some nd" "tn_pRecord nd = None"
  shows "holders x (set_node p (nd\<lparr>tn_pRecord := Some y\<rparr>) t) = (if y = x then insert p (holders x t) else holders x t)"
    "p \<notin> holders x t"
  using assms by (auto simp: holders_def split: if_splits)

lemma holders_link_new:
  assumes "p \<notin> dom (th_nodes t)"
  shows "holders x (link_new b pos p nd bs t) = (if tn_pRecord nd = Some x then insert p (holders x t) else holders x t)"
    "p \<notin> holders x t"
proof -
  have "(\<exists>md. with_node p nd (th_nodes t) q = Some md \<and> tn_pRecord md = Some x) \<longleftrightarrow>
      q = p \<and> tn_pRecord nd = Some x \<or> (\<exists>md. th_nodes t q = Some md \<and> tn_pRecord md = Some x)" for q
    using assms by (cases "q = p") (auto simp: with_node_def)
  then show "holders x (link_new b pos p nd bs t) = (if tn_pRecord nd = Some x then insert p (holders x t) else holders x t)"
    by (auto simp: holders_def)
  show "p \<notin> holders x t" using assms by (auto simp: holders_def)
qed

section \<open>AddNodeInternal\<close>

text \<open>The entries after an attempt to add the path \<open>k\<close> with the record \<open>r\<close>, and whether it is one that succeeds.\<close>

definition add_entry :: "'k \<Rightarrow> 'r option \<Rightarrow> ('k \<times> 'r option) set \<Rightarrow> ('k \<times> 'r option) set" where
  "add_entry k r E =
     (if k \<in> fst ` E then (if r \<noteq> None \<and> (k, None) \<in> E then {e \<in> E. fst e \<noteq> k} \<union> {(k, r)} else E)
      else insert (k, r) E)"

definition add_succeeds :: "'k \<Rightarrow> 'r option \<Rightarrow> ('k \<times> 'r option) set \<Rightarrow> bool" where
  "add_succeeds k r E \<longleftrightarrow> k \<notin> fst ` E \<or> r \<noteq> None \<and> (k, None) \<in> E"

lemma fst_add_entry: "fst ` add_entry k r E = insert k (fst ` E)"
  by (force simp: add_entry_def image_iff)

lemma in_fst_entries: "k \<in> fst ` tree_entries u t \<longleftrightarrow> (\<exists>p nd. th_nodes t p = Some nd \<and> tn_key u t nd = k)"
  by (auto simp: tree_entries_def image_iff)

lemma entry_unique:
  assumes "tree_ok u A t" "th_nodes t p = Some nd"
  shows "(tn_key u t nd, x) \<in> tree_entries u t \<longleftrightarrow> x = tn_pRecord nd"
proof -
  have "p' = p" if "th_nodes t p' = Some md" "tn_key u t md = tn_key u t nd" for p' md
    using assms that by (simp add: tree_ok_def store_ok_def)
  then show ?thesis unfolding in_entries using assms(2) by (metis option.inject)
qed

definition short_path :: "WCHAR list \<Rightarrow> bool" where
  "short_path s \<longleftrightarrow> length s < (MAXDWORD - sizeof_tree_node) div sizeof_WCHAR - 1"

text \<open>What AddNodeInternal for the path \<open>s\<close> leaves.\<close>

definition added ::
  "(WCHAR \<Rightarrow> WCHAR) \<Rightarrow> WCHAR set \<Rightarrow> WCHAR list \<Rightarrow> 'r option \<Rightarrow> 'r tree_table \<Rightarrow> world \<Rightarrow>
     HRESULT \<Rightarrow> nat option \<Rightarrow> 'r tree_table \<Rightarrow> world \<Rightarrow> bool" where
  "added u A s r t w hr q t' w' \<longleftrightarrow>
     tree_ok u A t' \<and> fresh_ok t' w' \<and> tree_same Shared t w t' w' \<and>
     (if hr = S_OK \<or> hr = HRESULT_FROM_WIN32 ERROR_ALREADY_EXISTS
      then (\<exists>p pd. q = Some p \<and> th_nodes t' p = Some pd \<and> tn_key u t' pd = tree_norm u t s) \<and>
        tree_entries u t' = add_entry (tree_norm u t s) r (tree_entries u t) \<and>
        (hr = S_OK \<longleftrightarrow> add_succeeds (tree_norm u t s) r (tree_entries u t))
      else FAILED hr \<and> t' = t \<and> \<not> (generous w \<and> short_path s))"

lemma heap_request_facts:
  assumes "heap_request n w = (g, w')"
  shows "heap_live w' = heap_live w + (if g then 1 else 0)" "heap_calls w' = Suc (heap_calls w)"
    "generous w \<Longrightarrow> g \<and> generous w'"
  using assms by (auto simp: heap_request_def generous_def split: if_splits)

lemma AllocateNode_cases:
  assumes "terminated m" "strlen m \<le> MAXDWORD"
  obtains (refused) w' where
      "AllocateNode m h r par t w = Some (HRESULT_FROM_WIN32 ERROR_NOT_ENOUGH_MEMORY, 0, t, w')"
      "heap_live w' = heap_live w" "heap_calls w \<le> heap_calls w'" "\<not> (generous w \<and> short_path (cstr m))"
      "generous w \<Longrightarrow> generous w'"
  | (granted) w' nd where
      "AllocateNode m h r par t w = Some (S_OK, heap_calls w, set_node (heap_calls w) nd t, w')"
      "nd = \<lparr>tn_pParentNode = par, tn_children = [], tn_pRecord = r, tn_pszPath = cstr m @ [0], tn_dwHash = h\<rparr>"
      "heap_live w' = heap_live w + 1" "heap_calls w' = Suc (heap_calls w)" "generous w \<Longrightarrow> generous w'"
proof (cases "short_path (cstr m)")
  case short: True
  obtain g w' where g: "heap_request (sizeof_tree_node + dword (strlen m + 1) * sizeof_WCHAR) w = (g, w')" by fastforce
  note G = heap_request_facts [OF g]
  have d: "dword (strlen m) = strlen m" using assms(2) by (rule dword_id)
  have nb: "\<not> (MAXDWORD - sizeof_tree_node) div sizeof_WCHAR - 1 \<le> strlen m"
    using short by (simp add: short_path_def strlen_def)
  have rd: "mem_read 0 (strlen m + 1) m = Some (cstr m @ [0])"
    using terminated_strlen [OF assms(1)] by (simp add: mem_read_def cstr_take take_Suc_conv_app_nth)
  show ?thesis
  proof (cases g)
    case True
    then show ?thesis using G g rd nb d
      by (intro granted [of _ w'] refl) (simp_all add: AllocateNode_def Let_def)
  next
    case False
    then show ?thesis using G g nb d by (intro refused [of w']) (auto simp: AllocateNode_def Let_def)
  qed
next
  case False
  then show ?thesis using dword_id [OF assms(2)]
    by (intro refused [of w]) (simp_all add: AllocateNode_def short_path_def strlen_def)
qed

lemma FindNode_set_node:
  assumes "chains_ok t bs" "p \<notin> dom (th_nodes t)"
  shows "tree_FindNodeInternal u key h (set_node p nd t) = tree_FindNodeInternal u key h t"
proof -
  note D = chains_okD [OF assms(1)]
  have b: "unat h mod th_nBuckets t < length bs" using D(2,3) by simp
  have "\<forall>x\<in>set (bs ! (unat h mod th_nBuckets t)). th_nodes (set_node p nd t) x = th_nodes t x"
    using in_chain [OF b] D(5) assms(2) by auto
  from tree_find_cong [OF this] show ?thesis
    using D(1,3) b by (simp add: tree_FindNodeInternal_def mem_get_Some Let_def)
qed

lemma DeleteNode_new:
  assumes "p \<notin> dom (th_nodes t)" "tn_pRecord nd = None"
  shows "tree_DeleteNode p (set_node p nd t) w = Some (t, HeapFree w)"
proof -
  have "(th_nodes t)(p := None) = th_nodes t" using assms(1) by (auto simp: fun_eq_iff)
  then show ?thesis using assms(2) by (simp add: tree_DeleteNode_def set_node_def)
qed

lemma tree_same_add:
  assumes bal: "\<And>x. tree_refs x t' = tree_refs x t" and "th_calls t' = th_calls t @ cs" "lock_run mode cs = Some mode"
    "tree_blocks t' w' = tree_blocks t w" "heap_calls w \<le> heap_calls w'" "generous w \<Longrightarrow> generous w'"
    "th_fCaseSensitive t' = th_fCaseSensitive t"
  shows "tree_same mode t w t' w'"
  using assms by (auto simp: tree_same_def)

definition ref_of :: "'r option \<Rightarrow> 'r call list" where
  "ref_of r = (case r of Some x \<Rightarrow> [ReferenceRecord x] | None \<Rightarrow> [])"

lemma ref_of_simps [simp]: "lock_run Shared (ref_of r) = Some Shared" "balance x (ref_of r) = (if r = Some x then 1 else 0)"
  by (cases r; simp add: ref_of_def)+

lemma added_existing:
  assumes ok: "tree_ok u A t" and nd: "th_nodes t q = Some qd" "tn_key u t qd = tree_norm u t s"
    and w: "heap_live w' = heap_live w" "heap_calls w \<le> heap_calls w'" "generous w \<Longrightarrow> generous w'" and f: "fresh_ok t w"
  shows "if r \<noteq> None \<and> tn_pRecord qd = None
    then added u A s r t w S_OK (Some q) (th_emit (ref_of r) (set_node q (qd\<lparr>tn_pRecord := r\<rparr>) t)) w'
    else added u A s r t w (HRESULT_FROM_WIN32 ERROR_ALREADY_EXISTS) (Some q) t w'"
proof -
  have e: "(tree_norm u t s, x) \<in> tree_entries u t \<longleftrightarrow> x = tn_pRecord qd" for x
    using entry_unique [OF ok nd(1), of x] nd(2) by simp
  have k: "tree_norm u t s \<in> fst ` tree_entries u t" using nd by (auto simp: in_fst_entries)
  have f': "fresh_ok t w'" using f w(2) by (rule fresh_ok_mono)
  show ?thesis
  proof (cases "r \<noteq> None \<and> tn_pRecord qd = None")
    case True
    then obtain x where x: "r = Some x" by auto
    let ?t = "th_emit (ref_of r) (set_node q (qd\<lparr>tn_pRecord := r\<rparr>) t)"
    obtain bs where "chains_ok t bs" using ok by (rule tree_okE)
    then have fin: "finite (holders y t)" for y by (intro finite_holders chains_okD(8))
    have "holders y ?t = holders y (set_node q (qd\<lparr>tn_pRecord := Some x\<rparr>) t)" for y by (simp add: holders_def x)
    then have "tree_refs y ?t = tree_refs y t" for y
      using holders_set_record(1) [of t q qd y x] holders_set_record(2) [of t q qd y] True nd(1) fin x by (simp add: tree_refs_holders)
    then have same: "tree_same Shared t w ?t w'"
      by (rule tree_same_add [where cs = "ref_of r"]) (use w nd(1) in \<open>simp_all add: tree_blocks_def insert_absorb domI\<close>)
    have "tree_entries u ?t = add_entry (tree_norm u t s) r (tree_entries u t)"
      using set_record(2) [OF ok nd(1), of r] True e nd(2) k by (auto simp: add_entry_def)
    moreover have "add_succeeds (tree_norm u t s) r (tree_entries u t)" using True e nd(2) by (simp add: add_succeeds_def)
    moreover have "fresh_ok ?t w'" using f' nd(1) by (auto simp: fresh_ok_def)
    moreover have "\<exists>pd. th_nodes ?t q = Some pd \<and> tn_key u ?t pd = tree_norm u t s"
      using nd by (simp add: tn_key_def tn_path_def)
    moreover have "tree_ok u A ?t" using set_record(1) [OF ok nd(1), of r] by simp
    ultimately show ?thesis using True same unfolding added_def by simp
  next
    case False
    then have "add_entry (tree_norm u t s) r (tree_entries u t) = tree_entries u t"
      "\<not> add_succeeds (tree_norm u t s) r (tree_entries u t)"
      by (simp_all only: add_entry_def add_succeeds_def e k if_True eq_commute [of None] if_False simp_thms)
    moreover have "tree_same Shared t w t w'"
      by (rule tree_same_add [where cs = "[]"]) (use w in \<open>simp_all add: tree_blocks_def\<close>)
    ultimately show ?thesis using False ok nd f' by (auto simp: added_def)
  qed
qed

lemma added_new:
  assumes ok: "tree_ok u A t" and f: "fresh_ok t w" and bs: "th_ppBuckets t = Some bs"
    and b: "b < length bs" "b = unat (CalcHash t s) mod length bs"
    and le: "\<forall>x\<in>set (take pos (bs ! b)). hash_at (th_nodes t) x \<le> CalcHash t s"
      "\<forall>x\<in>set (drop pos (bs ! b)). CalcHash t s \<le> hash_at (th_nodes t) x"
    and new: "\<And>q md. th_nodes t q = Some md \<Longrightarrow> tn_key u t md \<noteq> tree_norm u t s"
    and s: "0 \<notin> set s" "set s \<subseteq> A" and par: "parent_is u t (tree_norm u t s) par"
    and nd: "nd = \<lparr>tn_pParentNode = par, tn_children = [], tn_pRecord = r, tn_pszPath = s @ [0], tn_dwHash = CalcHash t s\<rparr>"
    and w: "heap_live w' = heap_live w + 1" "heap_calls w' = Suc (heap_calls w)" "generous w \<Longrightarrow> generous w'"
  shows "added u A s r t w S_OK (Some (heap_calls w)) (th_emit (ref_of r) (link_new b pos (heap_calls w) nd bs t)) w'"
proof -
  let ?p = "heap_calls w" and ?t = "th_emit (ref_of r) (link_new b pos (heap_calls w) nd bs t)"
  have p: "?p \<notin> dom (th_nodes t)" using f unfolding fresh_ok_def by force
  have path: "tn_path nd = s" using s(1) by (simp add: nd tn_path_def cstr_append_nul)
  then have key: "tn_key u t nd = tree_norm u t s" by (simp add: tn_key_def)
  have "CalcHash t (s @ [0]) = CalcHash t s"
    using CalcHash_cstr [of t "s @ [0]"] s(1) by (simp add: cstr_append_nul)
  then have nok: "node_ok A t nd" using s by (auto simp: node_ok_def nd)
  have hd: "tn_dwHash nd = CalcHash t s" "tn_pParentNode nd = par" "tn_children nd = []" "tn_pRecord nd = r"
    by (simp_all add: nd)
  note L = link_new_ok [where pos = pos and b = b, OF ok bs b(1) _ p _ _ nok, unfolded hd key, OF b(2) le par refl new]
  obtain bs' where "chains_ok t bs'" using ok by (rule tree_okE)
  then have fin: "finite (dom (th_nodes t))" by (rule chains_okD(8))
  have "holders y ?t = holders y (link_new b pos ?p nd bs t)" for y by (simp add: holders_def)
  then have "tree_refs y ?t = tree_refs y t" for y
    using holders_link_new(1) [OF p, of y b pos nd bs] holders_link_new(2) [OF p, of y] finite_holders [OF fin, of y] hd(4) by (simp add: tree_refs_holders)
  then have same: "tree_same Shared t w ?t w'"
    by (rule tree_same_add [where cs = "ref_of r"]) (use w fin p bs in \<open>simp_all add: tree_blocks_def\<close>)
  have "tree_norm u t s \<notin> fst ` tree_entries u t" using new by (auto simp: in_fst_entries)
  moreover have "fresh_ok ?t w'" using f w(2) unfolding fresh_ok_def by (auto simp: less_Suc_eq)
  moreover have "with_node ?p nd (th_nodes t) ?p = Some nd" by (simp add: with_node_def)
  ultimately show ?thesis using L same key by (auto simp: added_def add_entry_def add_succeeds_def)
qed

lemma add_child_link:
  assumes "p \<notin> dom (th_nodes t)" "parent_is u t s (tn_pParentNode nd)"
  shows "add_child (tn_pParentNode nd) p
      ((th_emit cs ((set_node p nd t)\<lparr>th_ppBuckets := Some (tree_link b pos p bs)\<rparr>))\<lparr>th_nItems := dword (th_nItems t + 1)\<rparr>)
    = Some (th_emit cs (link_new b pos p nd bs t))"
proof (cases "tn_pParentNode nd")
  case None
  then have "with_node p nd (th_nodes t) = (th_nodes t)(p \<mapsto> nd)" by (simp add: with_node_def fun_eq_iff)
  then show ?thesis using None by (simp add: add_child_def link_new_def th_emit_def set_node_def)
next
  case (Some q)
  then obtain qd where qd: "th_nodes t q = Some qd" using assms(2) by (auto simp: parent_is_def split: option.splits)
  then have "q \<noteq> p" using assms(1) by auto
  then have "with_node p nd (th_nodes t) = (th_nodes t)(p \<mapsto> nd, q \<mapsto> qd\<lparr>tn_children := p # tn_children qd\<rparr>)"
    using Some qd by (simp add: with_node_def fun_eq_iff)
  then show ?thesis using Some qd \<open>q \<noteq> p\<close> by (simp add: add_child_def link_new_def th_emit_def set_node_def)
qed

lemma AddNode_correct:
  assumes ok: "tree_ok u A t" "case_ok u A t" "fresh_ok t w" and m: "terminated m" "strlen m \<le> MAXDWORD" "set (cstr m) \<subseteq> A"
    and par: "parent_is u t (tree_norm u t (cstr m)) par"
  shows "\<exists>hr q t' w'. AddNodeInternal u m (CalcHash t m) r par t w = Some (hr, q, t', w') \<and>
    added u A (cstr m) r t w hr q t' w'"
proof (rule AllocateNode_cases [OF m(1,2), of "CalcHash t m" r par t w])
  fix w' assume R: "AllocateNode m (CalcHash t m) r par t w = Some (HRESULT_FROM_WIN32 ERROR_NOT_ENOUGH_MEMORY, 0, t, w')"
    "heap_live w' = heap_live w" "heap_calls w \<le> heap_calls w'" "\<not> (generous w \<and> short_path (cstr m))"
    "generous w \<Longrightarrow> generous w'"
  have "tree_same Shared t w t w'"
    by (rule tree_same_add [where cs = "[]"]) (use R in \<open>simp_all add: tree_blocks_def\<close>)
  moreover have "fresh_ok t w'" using ok(3) R(3) by (rule fresh_ok_mono)
  moreover have "HRESULT_FROM_WIN32 ERROR_NOT_ENOUGH_MEMORY \<noteq> HRESULT_FROM_WIN32 ERROR_ALREADY_EXISTS"
    by (simp add: hresult_defs error_codes)
  ultimately show ?thesis using R(1,4) ok(1)
    by (intro exI [of _ "HRESULT_FROM_WIN32 ERROR_NOT_ENOUGH_MEMORY"] exI [of _ par] exI [of _ t] exI [of _ w'])
       (simp add: AddNodeInternal_def added_def)
next
  fix w1 nd
  let ?p = "heap_calls w"
  assume R: "AllocateNode m (CalcHash t m) r par t w = Some (S_OK, ?p, set_node ?p nd t, w1)"
    and nd: "nd = \<lparr>tn_pParentNode = par, tn_children = [], tn_pRecord = r, tn_pszPath = cstr m @ [0], tn_dwHash = CalcHash t m\<rparr>"
    and w1: "heap_live w1 = heap_live w + 1" "heap_calls w1 = Suc ?p" "generous w \<Longrightarrow> generous w1"
  obtain bs' where C: "chains_ok t bs'" using ok(1) by (rule tree_okE)
  have p: "?p \<notin> dom (th_nodes t)" using ok(3) unfolding fresh_ok_def by force
  note F = FindNode_set_node [OF C p]
  show ?thesis
  proof (rule FindNode_cases [OF ok(1,2) m(3)])
    fix bs b pos q qd
    assume found: "tree_FindNodeInternal u m (CalcHash t m) t = Some (True, b, pos, Some q)"
      and qd: "th_nodes t q = Some qd" "tn_key u t qd = tree_norm u t (cstr m)"
    have "q \<noteq> ?p" using p qd(1) by auto
    have w': "heap_live (HeapFree w1) = heap_live w" "heap_calls w \<le> heap_calls (HeapFree w1)"
        "generous w \<Longrightarrow> generous (HeapFree w1)"
      using w1 by (simp_all add: HeapFree_def generous_def)
    note E = added_existing [OF ok(1) qd w' ok(3), where r = r]
    show ?thesis
    proof (cases "r \<noteq> None \<and> tn_pRecord qd = None")
      case True
      then obtain x where x: "r = Some x" by auto
      let ?t = "th_emit [ReferenceRecord x] (set_node q (qd\<lparr>tn_pRecord := Some x\<rparr>) t)"
      have sw: "set_node ?p d (th_emit [ReferenceRecord x] (set_node q (qd\<lparr>tn_pRecord := Some x\<rparr>) (set_node ?p nd t)))
          = set_node ?p d ?t" for d
        using \<open>q \<noteq> ?p\<close> by (simp add: set_node_def th_emit_def fun_upd_twist)
      have "tree_DeleteNode ?p (set_node ?p (nd\<lparr>tn_pRecord := None\<rparr>) ?t) w1 = Some (?t, HeapFree w1)"
        by (rule DeleteNode_new) (use p \<open>q \<noteq> ?p\<close> in auto)
      then show ?thesis using E True R F found qd(1) \<open>q \<noteq> ?p\<close>
        by (simp add: AddNodeInternal_def x ref_of_def sw)
    next
      case False
      have "tree_DeleteNode ?p (set_node ?p (nd\<lparr>tn_pRecord := None\<rparr>) t) w1 = Some (t, HeapFree w1)"
        by (rule DeleteNode_new) (use p in auto)
      moreover have sw2: "set_node ?p d (set_node ?p nd t) = set_node ?p d t" for d by (simp add: set_node_def)
      ultimately show ?thesis using E False R F found qd(1) \<open>q \<noteq> ?p\<close>
        by (cases r) (auto simp: AddNodeInternal_def sw2)
    qed
  next
    fix bs b pos q
    assume miss: "tree_FindNodeInternal u m (CalcHash t m) t = Some (False, b, pos, q)"
      and bs: "th_ppBuckets t = Some bs" "b < length bs" "b = unat (CalcHash t m) mod length bs"
        "\<forall>x\<in>set (take pos (bs ! b)). hash_at (th_nodes t) x \<le> CalcHash t m"
        "\<forall>x\<in>set (drop pos (bs ! b)). CalcHash t m \<le> hash_at (th_nodes t) x"
        "\<And>p nd. th_nodes t p = Some nd \<Longrightarrow> tn_key u t nd \<noteq> tree_norm u t (cstr m)"
    have a: "added u A (cstr m) r t w S_OK (Some ?p) (th_emit (ref_of r) (link_new b pos ?p nd bs t)) w1"
      by (rule added_new [OF ok(1,3) bs(1,2) _ _ _ bs(6) cstr_nonzero m(3) par _ w1])
        (use bs nd in \<open>simp_all add: CalcHash_cstr\<close>)
    have pn: "tn_pParentNode nd = par" by (simp add: nd)
    have "add_child par ?p ((th_emit (ref_of r) ((set_node ?p nd t)\<lparr>th_ppBuckets := Some (tree_link b pos ?p bs)\<rparr>))
        \<lparr>th_nItems := dword (th_nItems t + 1)\<rparr>) = Some (th_emit (ref_of r) (link_new b pos ?p nd bs t))"
      using add_child_link [OF p, of u "tree_norm u t (cstr m)" nd] par pn by simp
    moreover have "(case r of Some x \<Rightarrow> th_emit [ReferenceRecord x] t2 | None \<Rightarrow> t2) = th_emit (ref_of r) t2" for t2
      by (simp add: ref_of_def th_emit_def split: option.splits)
    ultimately show ?thesis using a R F miss bs(1) by (simp add: AddNodeInternal_def)
  qed
qed

section \<open>Growing the table\<close>

lemma store_forest_cong:
  assumes "th_nodes t' = th_nodes t" "th_fCaseSensitive t' = th_fCaseSensitive t"
  shows "store_ok u A t' = store_ok u A t" "forest_ok u t' = forest_ok u t" "tree_entries u t' = tree_entries u t"
    "holders r t' = holders r t"
proof -
  have k: "tn_key u t' = tn_key u t" "node_ok A t' = node_ok A t" using assms(2) by (rule tn_key_cong, rule node_ok_cong)
  show "store_ok u A t' = store_ok u A t" by (simp only: store_ok_def assms k)
  show "forest_ok u t' = forest_ok u t" by (simp only: forest_ok_def parent_is_def child_set_def assms k)
  show "tree_entries u t' = tree_entries u t" by (simp only: tree_entries_def assms k)
  show "holders r t' = holders r t" by (simp only: holders_def assms)
qed

lemma tree_rehash_link_spec:
  assumes "\<forall>x\<in>set c. store x \<noteq> None" "bucket_ok store n b c" "unat (hash_at store p) mod n = b"
  shows "\<exists>c'. tree_rehash_link store (hash_at store p) p c = Some c' \<and> mset c' = add_mset p (mset c) \<and> bucket_ok store n b c'"
  using assms
proof (induction c)
  case Nil
  then show ?case by (simp add: bucket_ok_def)
next
  case (Cons x c)
  obtain nd where nd: "store x = Some nd" using Cons.prems(1) by auto
  then have h: "hash_at store x = tn_dwHash nd" by (simp add: hash_at_def)
  show ?case
  proof (cases "tn_dwHash nd \<le> hash_at store p")
    case True
    from Cons obtain c' where c': "tree_rehash_link store (hash_at store p) p c = Some c'" "mset c' = add_mset p (mset c)"
      "bucket_ok store n b c'" by (auto simp: bucket_ok_def)
    have "set c' = insert p (set c)" using mset_eq_setD [of c' "p # c"] c'(2) by simp
    then have "bucket_ok store n b (x # c')" using Cons.prems(2) c'(3) True h by (auto simp: bucket_ok_def)
    then show ?thesis using True nd c' by simp
  next
    case False
    then have "bucket_ok store n b (p # x # c)" using Cons.prems(2,3) h by (auto simp: bucket_ok_def)
    then show ?thesis using False nd by simp
  qed
qed

lemma tree_rehash_loop_spec:
  assumes "\<forall>x\<in>set ps \<union> set (concat new). store x \<noteq> None" "length new = n" "0 < n" "\<forall>i<n. bucket_ok store n i (new ! i)"
  shows "\<exists>new'. tree_rehash_loop store n ps new = Some new' \<and> length new' = n \<and> (\<forall>i<n. bucket_ok store n i (new' ! i)) \<and>
    mset (concat new') = mset (concat new) + mset ps"
  using assms
proof (induction ps arbitrary: new)
  case (Cons p ps)
  obtain nd where nd: "store p = Some nd" using Cons.prems(1) by auto
  let ?b = "unat (tn_dwHash nd) mod n"
  have h: "hash_at store p = tn_dwHash nd" using nd by (simp add: hash_at_def)
  have b: "?b < length new" using Cons.prems(2,3) by simp
  have "\<forall>x\<in>set (new ! ?b). store x \<noteq> None" using Cons.prems(1) in_chain [OF b] by auto
  then obtain c where c: "tree_rehash_link store (tn_dwHash nd) p (new ! ?b) = Some c" "mset c = add_mset p (mset (new ! ?b))"
    "bucket_ok store n ?b c"
    using tree_rehash_link_spec [of "new ! ?b" store n ?b p] Cons.prems(2,4) b h by auto
  have m: "mset (concat (new[?b := c])) = add_mset p (mset (concat new))"
    using mset_concat_update [OF b, of c] c(2) by (simp del: mset_concat)
  then have "set (concat (new[?b := c])) = insert p (set (concat new))"
    using mset_eq_setD [of "concat (new[?b := c])" "p # concat new"] by (simp del: mset_concat set_concat)
  then have "\<forall>x\<in>set ps \<union> set (concat (new[?b := c])). store x \<noteq> None" using Cons.prems(1) nd by (simp del: set_concat)
  moreover have "\<forall>i<n. bucket_ok store n i (new[?b := c] ! i)"
    using Cons.prems(2,4) c(3) by (simp add: nth_list_update)
  ultimately show ?case
    using Cons.IH [of "new[?b := c]"] Cons.prems(2,3) nd c(1) b m by (simp add: mem_get_Some Let_def del: mset_concat)
qed simp

lemma tree_Rehash_correct:
  assumes "tree_ok u A t"
  shows "\<exists>t' w'. tree_RehashTableIfNeeded t w = Some (t', w') \<and> tree_ok u A t' \<and> th_nodes t' = th_nodes t \<and>
    tree_entries u t' = tree_entries u t \<and> tree_same Free t w t' w'"
proof -
  obtain bs where C: "chains_ok t bs" and S: "store_ok u A t" and F: "forest_ok u t" by (rule tree_okE [OF assms])
  note D = chains_okD [OF C]
  let ?n = "GetPrime (dword (2 * th_nBuckets t))"
  have n: "2 * th_nBuckets t \<le> ?n"
    using GetPrime_ge [of "dword (2 * th_nBuckets t)"] D(9) by (simp add: dword_id MAXDWORD_def)
  let ?t1 = "th_emit [ExclusiveAcquire, ExclusiveRelease] t"
  have skip: "tree_same Free t w ?t1 w'" if "heap_live w' = heap_live w" "heap_calls w \<le> heap_calls w'"
      "generous w \<Longrightarrow> generous w'" for w'
    by (rule tree_same_add [where cs = "[ExclusiveAcquire, ExclusiveRelease]"])
       (use that in \<open>simp_all add: tree_refs_def tree_blocks_def\<close>)
  have twice: "th_emit b (th_emit a t) = th_emit (a @ b) t" for a b by (simp add: th_emit_def)
  show ?thesis
  proof (cases "th_nItems t \<le> ?n \<or> MAXDWORD div sizeof_pointer \<le> ?n")
    case True
    then show ?thesis using assms skip [of w] by (auto simp: tree_RehashTableIfNeeded_def Let_def twice)
  next
    case False
    obtain g w1 where g: "heap_request (?n * sizeof_pointer) w = (g, w1)" by fastforce
    note G = heap_request_facts [OF g]
    show ?thesis
    proof (cases g)
      case False' : False
      with False g skip [of w1] G assms show ?thesis
        by (auto simp: tree_RehashTableIfNeeded_def Let_def twice)
    next
      case True
      have "\<forall>x\<in>set (concat bs) \<union> set (concat (replicate ?n [])). th_nodes t x \<noteq> None" using D(5) by auto
      from tree_rehash_loop_spec [OF this, of ?n] obtain new where
        new: "tree_rehash_loop (th_nodes t) ?n (concat bs) (replicate ?n []) = Some new" "length new = ?n"
          "\<forall>i<?n. bucket_ok (th_nodes t) ?n i (new ! i)" "mset (concat new) = mset (concat bs)"
        using n D(3) by (auto simp: bucket_ok_def)
      define t2 where "t2 = th_emit [ExclusiveRelease]
        ((th_emit [ExclusiveAcquire] t)\<lparr>th_ppBuckets := Some new, th_nBuckets := ?n\<rparr>)"
      have E: "tree_RehashTableIfNeeded t w = Some (t2, HeapFree w1)"
        using False g True D(1,2) new(1) by (simp add: tree_RehashTableIfNeeded_def Let_def mem_read_Some t2_def)
      have N: "th_nodes t2 = th_nodes t" "th_fCaseSensitive t2 = th_fCaseSensitive t" by (simp_all add: t2_def th_emit_def)
      have "distinct (concat new)" "set (concat new) = dom (th_nodes t)" "length (concat new) = length (concat bs)"
        using mset_eq_imp_distinct_iff [OF new(4)] mset_eq_setD [OF new(4)] mset_eq_length [OF new(4)] D(4,5) by simp_all
      then have "chains_ok t2 new"
        using new(2,3) D(7) False n D(3) by (simp add: chains_ok_def t2_def th_emit_def del: set_concat)
      then have "tree_ok u A t2" using S F store_forest_cong [OF N] by (auto simp: tree_ok_def)
      moreover have "tree_same Free t w t2 (HeapFree w1)"
        by (rule tree_same_add [where cs = "[ExclusiveAcquire, ExclusiveRelease]"])
          (use G True N(2) D(1) store_forest_cong(4) [OF N] in
            \<open>simp_all add: tree_refs_holders tree_blocks_def HeapFree_def generous_def\<close>, simp_all add: t2_def th_emit_def)
      ultimately show ?thesis using E N store_forest_cong(3) [OF N] by blast
    qed
  qed
qed

end
