(* ===== verification/TreeInsertRecord.thy ===== *)
theory TreeInsertRecord
  imports TreeInsertFacts
begin

text \<open>
  InsertRecord of TREE_HASH_TABLE: the downward scan for the lowest ancestor present and the upward scan
  that adds the rest of the path. Together they add the path with its record and every missing
  ancestor; when memory runs out the ancestors added so far stay.
\<close>

section \<open>The tree has all ancestors\<close>

lemma entries_closed:
  assumes ok: "tree_ok u A t" and p: "th_nodes t p = Some nd"
  shows "up_to (tn_key u t nd) \<subseteq> fst ` tree_entries u t"
  using p
proof (induction "length (tn_key u t nd)" arbitrary: p nd rule: less_induct)
  case less
  have par: "parent_is u t (tn_key u t nd) (tn_pParentNode nd)"
    using ok less.prems by (simp add: tree_ok_def forest_ok_def)
  have self: "tn_key u t nd \<in> fst ` tree_entries u t" using less.prems by (auto simp: in_fst_entries)
  show ?case
  proof (cases "parent_path (tn_key u t nd)")
    case None
    then show ?thesis using self up_to_parent [of "tn_key u t nd"] by simp
  next
    case (Some a)
    then obtain q qd where q: "th_nodes t q = Some qd" "tn_key u t qd = a" using par by (auto simp: parent_is_def)
    have "length a < length (tn_key u t nd)" using parent_path_Some(3) [OF Some] .
    then have "up_to a \<subseteq> fst ` tree_entries u t" using less.hyps [OF _ q(1)] q(2) by simp
    then show ?thesis using self up_to_parent [of "tn_key u t nd"] Some by simp
  qed
qed

section \<open>Adding a whole path\<close>

definition add_ancestors :: "WCHAR list list \<Rightarrow> (WCHAR list \<times> 'r option) set \<Rightarrow> (WCHAR list \<times> 'r option) set" where
  "add_ancestors as E = fold (\<lambda>a. add_entry a None) as E"

definition insert_path :: "WCHAR list \<Rightarrow> 'r \<Rightarrow> (WCHAR list \<times> 'r option) set \<Rightarrow> (WCHAR list \<times> 'r option) set" where
  "insert_path k r E = add_entry k (Some r) (add_ancestors (ancestors k) E)"

lemma add_ancestors_eq: "add_ancestors as E = E \<union> {(a, None) | a. a \<in> set as \<and> a \<notin> fst ` E}"
proof (induction as arbitrary: E)
  case (Cons a as)
  have "add_ancestors (a # as) E = add_ancestors as (add_entry a None E)" by (simp add: add_ancestors_def)
  also have "\<dots> = add_entry a None E \<union> {(b, None) | b. b \<in> set as \<and> b \<notin> insert a (fst ` E)}"
    unfolding Cons.IH fst_add_entry ..
  also have "add_entry a None E = (if a \<in> fst ` E then E else insert (a, None) E)" by (simp add: add_entry_def)
  finally show ?case by auto
qed (simp add: add_ancestors_def)

lemma add_ancestors_snoc: "add_ancestors (as @ [a]) E = add_entry a None (add_ancestors as E)"
  by (simp add: add_ancestors_def)

lemma add_ancestors_present: "set as \<subseteq> fst ` E \<Longrightarrow> add_ancestors as E = E"
  unfolding add_ancestors_eq by auto

lemma ancestors_of_take:
  assumes "j \<le> length k"
  shows "ancestors (take j k) = map (\<lambda>i. take i k) (filter (\<lambda>i. is_separator (k ! i)) [1..<j])"
proof -
  have "filter (\<lambda>i. is_separator (take j k ! i)) [1..<j] = filter (\<lambda>i. is_separator (k ! i)) [1..<j]"
    by (rule filter_cong) auto
  moreover have "length (take j k) = j" using assms by simp
  moreover have "map (\<lambda>i. take i (take j k)) xs = map (\<lambda>i. take i k) xs" if "set xs \<subseteq> {..<j}" for xs
    using that by (auto simp: min_def)
  ultimately show ?thesis unfolding ancestors_def by (simp only:) auto
qed

lemma ancestors_take_Suc:
  assumes "e < length k"
  shows "ancestors (take (Suc e) k) = ancestors (take e k) @ (if 0 < e \<and> is_separator (k ! e) then [take e k] else [])"
  using ancestors_of_take [of "Suc e" k] ancestors_of_take [of e k] assms by (cases e) simp_all

lemma parent_is_norm:
  assumes "case_ok u A t" "set s \<subseteq> A"
  shows "parent_is u t (tree_norm u t s) p \<longleftrightarrow>
    (if ancestors s = [] then p = None
     else \<exists>q qd. p = Some q \<and> th_nodes t q = Some qd \<and> tn_key u t qd = tree_norm u t (last (ancestors s)))"
  unfolding parent_is_def tree_norm_ancestors(2) [OF assms] by (simp add: parent_path_def)

section \<open>The path with its tail cut\<close>

text \<open>The buffer while the path \<open>k\<close> is cut at the separators behind \<open>e\<close>.\<close>

definition cut_char :: "WCHAR list \<Rightarrow> nat \<Rightarrow> nat \<Rightarrow> WCHAR" where
  "cut_char k e i = (if e < i \<and> is_separator (k ! i) then 0 else k ! i)"

definition cut_behind :: "WCHAR list \<Rightarrow> nat \<Rightarrow> WCHAR list \<Rightarrow> bool" where
  "cut_behind k e m \<longleftrightarrow> length k < length m \<and> m ! length k = 0 \<and> (\<forall>i<length k. m ! i = cut_char k e i)"

lemma cut_char_before: "i \<le> e \<Longrightarrow> cut_char k e i = k ! i"
  by (simp add: cut_char_def)

lemma cut_char_Suc: "i \<noteq> Suc e \<Longrightarrow> cut_char k (Suc e) i = cut_char k e i"
  by (auto simp: cut_char_def)

lemma cut_char_at: "cut_char k e (Suc e) = (if is_separator (k ! Suc e) then 0 else k ! Suc e)"
  by (simp add: cut_char_def)

lemma cut_behindD:
  assumes "cut_behind k e m"
  shows "length k < length m" "m ! length k = 0" "i < length k \<Longrightarrow> m ! i = cut_char k e i"
  using assms by (simp_all add: cut_behind_def)

lemma cut_behind_cstr:
  assumes "cut_behind k e m" "0 \<notin> set k" "e < length k" "m ! Suc e = 0"
  shows "cstr m = take (Suc e) k" "terminated m"
proof -
  note D = cut_behindD [OF assms(1)]
  have l: "Suc e < length m" using D(1) assms(3) by simp
  have t: "take (Suc e) m = take (Suc e) k"
  proof (rule nth_equalityI)
    fix i assume "i < length (take (Suc e) m)"
    then have "i < length k" "i \<le> e" using assms(3) by simp_all
    then show "take (Suc e) m ! i = take (Suc e) k ! i" using D(3) by (simp add: cut_char_before)
  qed (use l assms(3) in simp)
  then have "0 \<notin> set (take (Suc e) m)" using assms(2) in_set_takeD by metis
  then show "cstr m = take (Suc e) k" using cstr_at_first_nul [OF l assms(4)] t by simp
  show "terminated m" using l assms(4) by (metis nth_mem terminated_def)
qed

text \<open>Writing one character moves the cut.\<close>

lemma cut_behind_cut:
  assumes "cut_behind k (Suc e) m" "Suc e < length k" "is_separator (k ! Suc e)"
  shows "cut_behind k e (m[Suc e := 0])"
  unfolding cut_behind_def
proof (intro conjI allI impI)
  note D = cut_behindD [OF assms(1)]
  show "length k < length (m[Suc e := 0])" "m[Suc e := 0] ! length k = 0" using D(1,2) assms(2) by simp_all
  show "m[Suc e := 0] ! i = cut_char k e i" if "i < length k" for i
    using that D(1,3) assms(3) cut_char_Suc [of i e k] cut_char_at [of k e] by (cases "i = Suc e") simp_all
qed

lemma cut_behind_restore:
  assumes "cut_behind k e m" "Suc e < length k"
  shows "cut_behind k (Suc e) (m[Suc e := k ! Suc e])"
  unfolding cut_behind_def
proof (intro conjI allI impI)
  note D = cut_behindD [OF assms(1)]
  let ?m = "m[Suc e := k ! Suc e]"
  show "length k < length ?m" "?m ! length k = 0" using D(1,2) assms(2) by simp_all
  show "?m ! i = cut_char k (Suc e) i" if "i < length k" for i
    using that D(1,3) cut_char_Suc [of i e k] cut_char_before [of i "Suc e" k] by (cases "i = Suc e") simp_all
qed

lemma cut_behind_skip:
  assumes "\<not> is_separator (k ! Suc e)"
  shows "cut_behind k (Suc e) m \<longleftrightarrow> cut_behind k e m"
proof -
  have "cut_char k (Suc e) i = cut_char k e i" for i
    using assms cut_char_Suc [of i e k] cut_char_at [of k e] cut_char_before [of i "Suc e" k] by (cases "i = Suc e") simp_all
  then show ?thesis by (simp only: cut_behind_def)
qed

lemma key_memory:
  assumes "cstr pszKey = k" "terminated pszKey" "i \<le> length k"
  shows "mem_get i pszKey = Some (if i < length k then k ! i else 0)"
proof -
  have "strlen pszKey = length k" unfolding strlen_def assms(1) ..
  with terminated_strlen [OF assms(2)] have l: "length k < length pszKey" "pszKey ! length k = 0" by simp_all
  have "take (length k) pszKey = k" unfolding assms(1) [symmetric] strlen_def [symmetric] cstr_take [symmetric] ..
  then have n: "k ! i = pszKey ! i" if "i < length k" using nth_take [OF that, of pszKey] by simp
  show ?thesis
  proof (cases "i < length k")
    case True
    then show ?thesis using n l(1) by (simp add: mem_get_Some)
  next
    case False
    then have "i = length k" using assms(3) by simp
    then show ?thesis using l by (simp add: mem_get_Some)
  qed
qed

section \<open>The scan for an ancestor\<close>

lemma find_parent_correct:
  assumes ok: "tree_ok u A t" "case_ok u A t" and k: "0 \<notin> set k" "set k \<subseteq> A"
    and key: "cstr pszKey = k" "terminated pszKey" and m: "cut_behind k e m" "e < length k"
  shows "\<exists>e' m' par. find_parent u pszKey t e m = Some (e', m', par) \<and> e' \<le> e \<and> cut_behind k e' m' \<and>
    parent_is u t (tree_norm u t (take (Suc e') k)) par"
  using m
proof (induction e arbitrary: m)
  case 0
  have "ancestors (take (Suc 0) k) = []" by (simp add: ancestors_def)
  moreover have "set (take (Suc 0) k) \<subseteq> A" by (rule subset_trans [OF set_take_subset k(2)])
  ultimately have "parent_is u t (tree_norm u t (take (Suc 0) k)) None" by (subst parent_is_norm [OF ok(2)]) simp_all
  with 0 show ?case by auto
next
  case (Suc e)
  have l: "Suc e < length m" using cut_behindD(1) [OF Suc.prems(1)] Suc.prems(2) by simp
  have mm: "mem_get (Suc e) m = Some (k ! Suc e)"
    using cut_behindD(3) [OF Suc.prems(1), of "Suc e"] Suc.prems(2) l cut_char_before [of "Suc e" "Suc e" k]
    by (simp add: mem_get_Some)
  show ?case
  proof (cases "is_separator (k ! Suc e)")
    case sep: True
    let ?m = "m[Suc e := 0]"
    have c: "cut_behind k e ?m" using cut_behind_cut [OF Suc.prems sep] .
    then have cs: "cstr ?m = take (Suc e) k" using cut_behind_cstr(1) [OF c k(1)] Suc.prems(2) l by simp
    have A: "set (cstr ?m) \<subseteq> A" unfolding cs by (rule subset_trans [OF set_take_subset k(2)])
    have e0: "(if 0 < Suc e \<and> is_separator (k ! Suc e) then [take (Suc e) k] else []) = [take (Suc e) k]" using sep by simp
    have a: "ancestors (take (Suc (Suc e)) k) = ancestors (take (Suc e) k) @ [take (Suc e) k]"
      using ancestors_take_Suc [OF Suc.prems(2)] unfolding e0 .
    show ?thesis
    proof (rule FindNode_cases [OF ok A])
      fix bs b pos q qd
      assume F: "tree_FindNodeInternal u ?m (CalcHash t ?m) t = Some (True, b, pos, Some q)"
        "th_nodes t q = Some qd" "tn_key u t qd = tree_norm u t (cstr ?m)"
      have "?m[Suc e := k ! Suc e] = m" using mm l by (simp add: mem_get_def) (metis list_update_id)
      moreover have "set (take (Suc (Suc e)) k) \<subseteq> A" by (rule subset_trans [OF set_take_subset k(2)])
      ultimately show ?thesis
        using F Suc.prems key_memory [OF key, of "Suc e"] mm sep l parent_is_norm [OF ok(2)] a cs
        by (auto simp: mem_put_Some)
    next
      fix bs b pos q
      assume "tree_FindNodeInternal u ?m (CalcHash t ?m) t = Some (False, b, pos, q)"
      then show ?thesis using Suc.IH [OF c] Suc.prems(2) mm sep l by (auto simp: mem_put_Some)
    qed
  next
    case False
    then show ?thesis using Suc.IH [of m] cut_behind_skip [OF False] Suc.prems mm by auto
  qed
qed

section \<open>The scan that adds\<close>

lemma ancestors_take_prefix:
  assumes "j \<le> length k"
  shows "\<exists>n. ancestors (take j k) = take n (ancestors k)"
proof (cases "1 \<le> j")
  case True
  let ?f = "filter (\<lambda>i. is_separator (k ! i))"
  have "[1..<length k] = [1..<j] @ [j..<length k]" using upt_add_eq_append [OF True, of "length k - j"] assms by simp
  then have "ancestors k = map (\<lambda>i. take i k) (?f [1..<j]) @ map (\<lambda>i. take i k) (?f [j..<length k])"
    by (simp add: ancestors_def)
  then show ?thesis using ancestors_of_take [OF assms] by (metis append_eq_conv_conj)
qed (auto simp: ancestors_def intro: exI [of _ 0])

text \<open>What the whole insertion of \<open>k\<close> leaves, \<open>E\<close> being the entries before.\<close>

definition path_added ::
  "(WCHAR \<Rightarrow> WCHAR) \<Rightarrow> WCHAR list \<Rightarrow> 'r \<Rightarrow> (WCHAR list \<times> 'r option) set \<Rightarrow> world \<Rightarrow> HRESULT \<Rightarrow> 'r tree_table \<Rightarrow> bool" where
  "path_added u k r E w hr t' \<longleftrightarrow>
     (let as = map (tree_norm u t') (ancestors k) in
      if hr = S_OK \<or> hr = HRESULT_FROM_WIN32 ERROR_ALREADY_EXISTS
      then tree_entries u t' = add_entry (tree_norm u t' k) (Some r) (add_ancestors as E) \<and>
        (hr = S_OK \<longleftrightarrow> add_succeeds (tree_norm u t' k) (Some r) (add_ancestors as E))
      else FAILED hr \<and> \<not> (generous w \<and> short_path k) \<and> (\<exists>n. tree_entries u t' = add_ancestors (take n as) E))"

lemma path_added_earlier:
  "path_added u k r E w1 hr t' \<Longrightarrow> (generous w \<Longrightarrow> generous w1) \<Longrightarrow> path_added u k r E w hr t'"
  by (auto simp: path_added_def Let_def)

lemma path_refused:
  assumes "FAILED hr" "hr \<noteq> S_OK" "hr \<noteq> HRESULT_FROM_WIN32 ERROR_ALREADY_EXISTS" "j \<le> length k"
    "\<not> (generous w \<and> short_path (take j k))" "tree_entries u t = add_ancestors (map (tree_norm u t) (ancestors (take j k))) E"
  shows "path_added u k r E w hr t"
proof -
  obtain n where "ancestors (take j k) = take n (ancestors k)" using ancestors_take_prefix [OF assms(4)] ..
  moreover have "\<not> (generous w \<and> short_path k)" using assms(4,5) by (auto simp: short_path_def)
  ultimately show ?thesis using assms(1-3,6) by (auto simp: path_added_def Let_def take_map)
qed

lemma tree_same_norm:
  assumes "tree_same mode t w t' w'"
  shows "tree_norm u t' = tree_norm u t" "case_ok u A t' = case_ok u A t" "generous w \<Longrightarrow> generous w'"
  using assms by (auto simp: tree_same_def fun_eq_iff tree_norm_def case_ok_def)

lemma add_rest_correct:
  assumes "tree_ok u A t" "case_ok u A t" "fresh_ok t w" and k: "0 \<notin> set k" "set k \<subseteq> A" "length k \<le> MAXDWORD"
    and key: "cstr pszKey = k" "terminated pszKey" and "cut_behind k e m" "e < length k"
    and "parent_is u t (tree_norm u t (take (Suc e) k)) par"
    and "tree_entries u t = add_ancestors (map (tree_norm u t) (ancestors (take (Suc e) k))) E"
  shows "\<exists>hr' t' w'. add_rest u pszKey r (length k) (Suc e) (length k - e) m par hr t w = Some (hr', t', w') \<and>
    tree_ok u A t' \<and> fresh_ok t' w' \<and> tree_same Shared t w t' w' \<and> path_added u k r E w hr' t'"
  using assms(1-3,9-12)
proof (induction "length k - e" arbitrary: e m par hr t w)
  case (Suc d)
  note ok = Suc.prems(1-3) and m = Suc.prems(4) and e = Suc.prems(5) and par = Suc.prems(6) and E = Suc.prems(7)
  have l: "length k - e = Suc (length k - Suc e)" using e by simp
  have lm: "Suc e < length m" using cut_behindD(1) [OF m] e by simp
  have sA: "set (take j k) \<subseteq> A" for j by (rule subset_trans [OF set_take_subset k(2)])
  have add: "\<exists>hr' q t' w'. AddNodeInternal u m (CalcHash t m) x par t w = Some (hr', q, t', w') \<and>
      added u A (take (Suc e) k) x t w hr' q t' w'" if "m ! Suc e = 0" for x
  proof -
    note c = cut_behind_cstr [OF m k(1) e that]
    show ?thesis using AddNode_correct [OF ok c(2)] c(1) sA k(3) par by (simp add: strlen_def)
  qed
  show ?case
  proof (cases "Suc e < length k")
    case lt: True
    have c: "m ! Suc e = (if is_separator (k ! Suc e) then 0 else k ! Suc e)"
      using cut_behindD(3) [OF m lt] cut_char_at [of k e] by simp
    have g: "mem_get (Suc e) m = Some (m ! Suc e)" using lm by (simp add: mem_get_Some)
    show ?thesis
    proof (cases "is_separator (k ! Suc e)")
      case sep: True
      obtain hr1 q t1 w1 where R: "AddNodeInternal u m (CalcHash t m) None par t w = Some (hr1, q, t1, w1)"
        and a: "added u A (take (Suc e) k) None t w hr1 q t1 w1" using add [of None] c sep by auto
      note a' = a [unfolded added_def]
      have S: "tree_same Shared t w t1 w1" using a' by blast
      note N = tree_same_norm [OF S]
      have step: "add_rest u pszKey r (length k) (Suc e) (length k - e) m par hr t w =
          (if FAILED hr1 \<and> hr1 \<noteq> HRESULT_FROM_WIN32 ERROR_ALREADY_EXISTS then Some (hr1, t1, w1)
           else add_rest u pszKey r (length k) (Suc (Suc e)) (length k - Suc e) (m[Suc e := k ! Suc e]) q hr1 t1 w1)"
        using g c sep R key_memory [OF key, of "Suc e"] lt lm by (simp add: l mem_put_Some)
      show ?thesis
      proof (cases "hr1 = S_OK \<or> hr1 = HRESULT_FROM_WIN32 ERROR_ALREADY_EXISTS")
        case True
        then obtain p pd where P: "q = Some p" "th_nodes t1 p = Some pd" "tn_key u t1 pd = tree_norm u t (take (Suc e) k)"
          "tree_entries u t1 = add_entry (tree_norm u t (take (Suc e) k)) None (tree_entries u t)" using a' by auto
        have a2: "ancestors (take (Suc (Suc e)) k) = ancestors (take (Suc e) k) @ [take (Suc e) k]"
          using ancestors_take_Suc [OF lt] sep by simp
        have par': "parent_is u t1 (tree_norm u t1 (take (Suc (Suc e)) k)) q"
          using P(1-3) by (subst parent_is_norm [OF _ sA]) (simp_all add: a2 N ok(2))
        have E': "tree_entries u t1 = add_ancestors (map (tree_norm u t1) (ancestors (take (Suc (Suc e)) k))) E"
          unfolding P(4) E a2 N(1) by (simp add: add_ancestors_snoc)
        have "d = length k - Suc e" using Suc.hyps(2) by simp
        from Suc.hyps(1) [OF this, of t1 w1 "m[Suc e := k ! Suc e]" q hr1] a' N(2) ok(2) par' E' lt cut_behind_restore [OF m lt]
        obtain hr' t' w' where "add_rest u pszKey r (length k) (Suc (Suc e)) (length k - Suc e) (m[Suc e := k ! Suc e]) q hr1 t1 w1
            = Some (hr', t', w')" "tree_ok u A t'" "fresh_ok t' w'" "tree_same Shared t1 w1 t' w'" "path_added u k r E w1 hr' t'"
          by blast
        then show ?thesis using step True tree_same_trans [OF S] path_added_earlier [OF _ N(3)] by auto
      next
        case False
        then have "FAILED hr1" "t1 = t" "\<not> (generous w \<and> short_path (take (Suc e) k))" using a' by auto
        then show ?thesis using step False a' path_refused [of hr1 "Suc e" k w u t E r] E lt by auto
      qed
    next
      case False
      have "k ! Suc e \<noteq> 0" using k(1) lt nth_mem by metis
      moreover have "d = length k - Suc e" using Suc.hyps(2) by simp
      moreover have "ancestors (take (Suc (Suc e)) k) = ancestors (take (Suc e) k)"
        using ancestors_take_Suc [OF lt] False by simp
      moreover have "parent_is u t (tree_norm u t (take (Suc (Suc e)) k)) par"
        using par calculation(3) by (simp only: parent_is_norm [OF ok(2) sA])
      ultimately show ?thesis
        using Suc.hyps(1) [of "Suc e" t w m par hr] ok m lt E c g False cut_behind_skip [OF False]
        by (simp add: l)
    qed
  next
    case False
    then have e': "Suc e = length k" using e by simp
    have z: "m ! length k = 0" using cut_behindD(2) [OF m] .
    obtain hr1 q t1 w1 where R: "AddNodeInternal u m (CalcHash t m) (Some r) par t w = Some (hr1, q, t1, w1)"
      and a: "added u A k (Some r) t w hr1 q t1 w1" using add [of "Some r"] z e' by auto
    note a' = a [unfolded added_def]
    have S: "tree_same Shared t w t1 w1" using a' by blast
    have "mem_get (length k) pszKey = Some 0" using key_memory [OF key, of "length k"] by simp
    then have step: "add_rest u pszKey r (length k) (Suc e) (length k - e) m par hr t w = Some (hr1, t1, w1)"
      using R z lm e' by (simp add: l mem_put_Some mem_get_Some)
    have "path_added u k r E w hr1 t1"
    proof (cases "hr1 = S_OK \<or> hr1 = HRESULT_FROM_WIN32 ERROR_ALREADY_EXISTS")
      case True
      then show ?thesis using a' E e' tree_same_norm(1) [OF S] by (simp add: path_added_def Let_def)
    next
      case False
      then show ?thesis using a' path_refused [of hr1 "Suc e" k w u t E r] E e' by auto
    qed
    then show ?thesis using step a' by blast
  qed
qed simp

section \<open>InsertRecord\<close>

lemma STRU_Copy_psz_calls:
  assumes "STRU_Copy_psz s p w = Some (hr, s', w')"
  shows "heap_calls w \<le> heap_calls w'"
  using assms unfolding STRU_Copy_psz_def STRU_Copy_len_def STRU_AuxAppend_def str_AuxAppend_def Let_def
  by (auto simp: buffer_Resize_def HeapAlloc_def HeapReAlloc_def
      split: if_splits prod.splits option.splits sum.splits bind_splits)

lemma tree_same_shared:
  assumes "tree_same Shared (th_emit [SharedAcquire] t) w t' w'"
  shows "tree_same Free t w (th_emit [SharedRelease] t') w'"
proof -
  obtain cs where cs: "th_calls t' = th_calls t @ SharedAcquire # cs" "lock_run Shared cs = Some Shared"
    using assms by (auto simp: tree_same_def)
  have "tree_refs r (th_emit [SharedRelease] t') = tree_refs r t" for r
  proof -
    have "tree_refs r t' = tree_refs r (th_emit [SharedAcquire] t)" using assms by (simp add: tree_same_def)
    then show ?thesis by (simp add: tree_refs_def)
  qed
  then show ?thesis
    by (rule tree_same_add [where cs = "SharedAcquire # cs @ [SharedRelease]"])
       (use assms cs in \<open>simp_all add: tree_same_def lock_run_append tree_blocks_def\<close>)
qed

lemma ancestors_present:
  assumes ok: "tree_ok u A t" "case_ok u A t" "set s \<subseteq> A" and p: "parent_is u t (tree_norm u t s) p"
  shows "set (map (tree_norm u t) (ancestors s)) \<subseteq> fst ` tree_entries u t"
proof (cases "parent_path (tree_norm u t s)")
  case None
  then show ?thesis using tree_norm_ancestors(1) [OF ok(2,3)] by (simp add: parent_path_None)
next
  case (Some a)
  then obtain q qd where q: "th_nodes t q = Some qd" "tn_key u t qd = a" using p by (auto simp: parent_is_def)
  have "set (map (tree_norm u t) (ancestors s)) = up_to a"
    using parent_path_Some(2) [OF Some] tree_norm_ancestors(1) [OF ok(2,3)] by simp
  then show ?thesis using entries_closed [OF ok(1) q(1)] q(2) by simp
qed

lemma scans_correct:
  assumes ok: "tree_ok u A t" "case_ok u A t" "fresh_ok t w" and k: "0 \<notin> set k" "set k \<subseteq> A" "length k \<le> MAXDWORD" "k \<noteq> []"
    and key: "cstr pszKey = k" "terminated pszKey" and s: "str_ok sizeof_WCHAR s" "str_text s = k"
  shows "\<exists>e m par hr t' w'. find_parent u pszKey t (dword_sub (QueryCCH s) 1) (QueryStr s) = Some (e, m, par) \<and>
    add_rest u pszKey r (QueryCCH s) e (QueryCCH s + 1 - e) m par S_OK t w = Some (hr, t', w') \<and>
    tree_ok u A t' \<and> fresh_ok t' w' \<and> tree_same Shared t w t' w' \<and> path_added u k r (tree_entries u t) w hr t'"
proof -
  have n: "QueryCCH s = length k" using length_str_text [OF s(1)] s(2) by (simp add: QueryCCH_def)
  have l: "0 < length k" using k(4) by simp
  have d: "dword_sub (QueryCCH s) 1 = length k - 1" unfolding n using l k(3) by (intro dword_sub_id) (simp_all add: Suc_le_eq)
  have len: "length k < length (QueryStr s)" "QueryStr s ! length k = 0" "take (length k) (QueryStr s) = k"
    using s n by (simp_all add: str_ok_def str_text_def QueryCCH_def)
  have "QueryStr s ! i = cut_char k (length k - 1) i" if "i < length k" for i
    using that cut_char_before [of i "length k - 1" k] nth_take [OF that, of "QueryStr s"] len(3) by simp
  then have "cut_behind k (length k - 1) (QueryStr s)" using len(1,2) by (simp add: cut_behind_def)
  from find_parent_correct [OF ok(1,2) k(1,2) key this] l obtain e m par where
    F: "find_parent u pszKey t (length k - 1) (QueryStr s) = Some (e, m, par)" "e \<le> length k - 1" "cut_behind k e m"
      "parent_is u t (tree_norm u t (take (Suc e) k)) par" by auto
  have e: "e < length k" using F(2) l by linarith
  have sA: "set (take (Suc e) k) \<subseteq> A" by (rule subset_trans [OF set_take_subset k(2)])
  have E: "tree_entries u t = add_ancestors (map (tree_norm u t) (ancestors (take (Suc e) k))) (tree_entries u t)"
    using add_ancestors_present [OF ancestors_present [OF ok(1,2) sA F(4)]] by simp
  from add_rest_correct [OF ok k(1-3) key F(3) e F(4) E, of r S_OK] obtain hr t' w' where
    A: "add_rest u pszKey r (length k) (Suc e) (length k - e) m par S_OK t w = Some (hr, t', w')" "tree_ok u A t'"
      "fresh_ok t' w'" "tree_same Shared t w t' w'" "path_added u k r (tree_entries u t) w hr t'" by blast
  have "m ! e = k ! e" using cut_behindD(3) [OF F(3) e] cut_char_before [of e e k] by simp
  moreover have "k ! e \<noteq> 0" using k(1) e nth_mem by metis
  moreover have "e < length m" using cut_behindD(1) [OF F(3)] e by simp
  ultimately have "add_rest u pszKey r (length k) e (Suc (length k - e)) m par S_OK t w = Some (hr, t', w')"
    using A(1) by (simp add: mem_get_Some)
  moreover have "length k + 1 - e = Suc (length k - e)" using e by simp
  ultimately have "add_rest u pszKey r (length k) e (length k + 1 - e) m par S_OK t w = Some (hr, t', w')"
    by (simp only:)
  then show ?thesis using F(1) A(2-5) unfolding n d [unfolded n] by blast
qed

text \<open>The outcome of a whole InsertRecord: the copy of a long path can be refused, and then only the release of
  the lock is called; otherwise the path is added as \<open>path_added\<close> says.\<close>

definition record_inserted ::
  "(WCHAR \<Rightarrow> WCHAR) \<Rightarrow> WCHAR set \<Rightarrow> WCHAR list \<Rightarrow> 'r \<Rightarrow> 'r tree_table \<Rightarrow> world \<Rightarrow>
     HRESULT \<Rightarrow> 'r tree_table \<Rightarrow> world \<Rightarrow> bool" where
  "record_inserted u A k r t w hr t' w' \<longleftrightarrow>
     tree_ok u A t' \<and> fresh_ok t' w' \<and> tree_same Free t w t' w' \<and> path_added u k r (tree_entries u t) w hr t'"

lemma path_added_cong:
  assumes "tree_entries u t' = tree_entries u t''" "th_fCaseSensitive t' = th_fCaseSensitive t''"
  shows "path_added u k r E w hr t' = path_added u k r E w hr t''"
proof -
  have "tree_norm u t' = tree_norm u t''" using assms(2) by (simp add: fun_eq_iff tree_norm_def)
  then show ?thesis using assms(1) by (simp add: path_added_def)
qed

lemma buffer_dtor_facts:
  "heap_calls (snd (buffer_dtor b w)) = heap_calls w" "generous (snd (buffer_dtor b w)) = generous w"
  "heap_live (snd (buffer_dtor b w)) = heap_live w - (if m_fHeapAllocated b then 1 else 0)"
  by (simp_all add: buffer_dtor_def HeapFree_def generous_def)

lemma tree_same_dtor:
  assumes "tree_same mode t w1 t' w'" "heap_live w1 - owned s = heap_live w" "heap_calls w \<le> heap_calls w1"
    "generous w \<Longrightarrow> generous w1"
  shows "tree_same mode t w t' (snd (buffer_dtor (m_Buff s) w'))"
  using assms by (auto simp: tree_same_def tree_blocks_def buffer_dtor_facts owned_def)

lemma tree_InsertRecord_correct:
  assumes ok: "tree_ok u A t" "case_ok u A t" "fresh_ok t w"
    and key: "terminated (GetKey r)" "cstr (GetKey r) = k" "k \<noteq> []" "set k \<subseteq> A" "length k < STRSAFE_MAX_CCH"
    and ach: "length ach = 256"
  obtains (refused) hr w' where "tree_InsertRecord u GetKey ach r t w = Some (hr, th_emit [SharedRelease] t, w')"
      "FAILED hr" "256 \<le> length k" "\<not> generous w" "heap_live w' = heap_live w"
  | (inserted) hr t' w' where "tree_InsertRecord u GetKey ach r t w = Some (hr, t', w')" "record_inserted u A k r t w hr t' w'"
proof -
  let ?s = "str_ctor_buf sizeof_WCHAR (ach[0 := 0]) 256"
  have k0: "0 \<notin> set k" using key(2) cstr_nonzero by metis
  have sl: "strlen (GetKey r) = length k" using key(2) by (simp add: strlen_def)
  have st: "str_ok sizeof_WCHAR ?s" "owned ?s = 0" "m_cbBuffer (m_Buff ?s) = 512"
    using str_ctor_buf_ok [of sizeof_WCHAR 256 "ach[0 := 0]"] ach
    by (simp_all add: MAXDWORD_def owned_def str_ctor_buf_def buffer_init_def dword_def)
  have C: "delivers sizeof_WCHAR ?s k w (STRU_Copy_psz ?s (GetKey r) w)"
    using STRU_Copy_psz_delivers [OF st(1), of "GetKey r" w] key(2,5) sl by simp
  show thesis
  proof (rule deliversE [OF C])
    fix hr w' assume R: "STRU_Copy_psz ?s (GetKey r) w = Some (hr, ?s, w')" "FAILED hr" "heap_live w' = heap_live w"
      "\<not> (generous w \<and> (length k + 1) * sizeof_WCHAR \<le> MAXDWORD)" "m_cbBuffer (m_Buff ?s) < (length k + 1) * sizeof_WCHAR"
    have nd: "snd (buffer_dtor (m_Buff ?s) w') = w'" using st(2) by (auto simp: buffer_dtor_def owned_def split: if_splits)
    have "(length k + 1) * sizeof_WCHAR \<le> MAXDWORD" using key(5) by (simp add: STRSAFE_MAX_CCH_def MAXDWORD_def)
    then show thesis using R nd st(3)
      by (intro refused [of hr w']) (auto simp: tree_InsertRecord_def SUCCEEDED_not_FAILED)
  next
    fix s w1 assume R: "STRU_Copy_psz ?s (GetKey r) w = Some (S_OK, s, w1)" "str_ok sizeof_WCHAR s" "str_text s = k"
      "heap_live w1 - owned s = heap_live w - owned ?s" "generous w \<Longrightarrow> generous w1"
    have hc: "heap_calls w \<le> heap_calls w1" by (rule STRU_Copy_psz_calls [OF R(1)])
    let ?t0 = "th_emit [SharedAcquire] t"
    have "length k \<le> MAXDWORD" using key(5) by (simp add: STRSAFE_MAX_CCH_def MAXDWORD_def)
    from scans_correct [OF _ _ _ k0 key(4) this key(3,2,1) R(2,3), of u ?t0 w1 r] ok fresh_ok_mono [OF ok(3) hc]
    obtain e m par hr t1 w2 where S: "find_parent u (GetKey r) ?t0 (dword_sub (QueryCCH s) 1) (QueryStr s) = Some (e, m, par)"
      "add_rest u (GetKey r) r (QueryCCH s) e (QueryCCH s + 1 - e) m par S_OK ?t0 w1 = Some (hr, t1, w2)"
      "tree_ok u A t1" "fresh_ok t1 w2" "tree_same Shared ?t0 w1 t1 w2" "path_added u k r (tree_entries u ?t0) w1 hr t1"
      by auto
    let ?t2 = "th_emit [SharedRelease] t1"
    obtain t3 w3 where T: "(if SUCCEEDED hr then tree_RehashTableIfNeeded ?t2 w2 else Some (?t2, w2)) = Some (t3, w3)"
      "tree_ok u A t3" "th_nodes t3 = th_nodes t1" "tree_entries u t3 = tree_entries u t1" "tree_same Free ?t2 w2 t3 w3"
      using tree_Rehash_correct [of u A ?t2 w2] S(3) by (cases "SUCCEEDED hr") auto
    have same: "tree_same Free t w1 t3 w3" using tree_same_trans [OF tree_same_shared [OF S(5)] T(5)] .
    have "path_added u k r (tree_entries u t) w hr t3"
      using path_added_earlier [OF S(6) R(5)] path_added_cong [OF T(4)] T(5) by (simp add: tree_same_def)
    moreover have "heap_calls w2 \<le> heap_calls w3" using T(5) by (simp add: tree_same_def)
    then have "fresh_ok t3 w3" using fresh_ok_mono [OF S(4)] T(3) by (simp add: fresh_ok_def)
    moreover have "tree_same Free t w t3 (snd (buffer_dtor (m_Buff s) w3))"
      by (rule tree_same_dtor [OF same]) (use R(4,5) hc st(2) in simp_all)
    ultimately have "record_inserted u A k r t w hr t3 (snd (buffer_dtor (m_Buff s) w3))"
      using T(2) by (simp add: record_inserted_def fresh_ok_def buffer_dtor_facts)
    moreover have "tree_InsertRecord u GetKey ach r t w = Some (hr, t3, snd (buffer_dtor (m_Buff s) w3))"
      using R(1) S(1,2) T(1) by (simp add: tree_InsertRecord_def)
    ultimately show thesis by (rule inserted [rotated])
  qed
qed

end
