(* ===== verification/TreeDelete.thy ===== *)
theory TreeDelete
  imports TreeInsertRecord
begin

text \<open>
  Deletion from TREE_HASH_TABLE. DeleteNodeInternal, given as much depth as the subtree has nodes, frees
  exactly the subtree: every node whose path has the deleted one as an ancestor. The proof carries a
  snapshot \<open>t0\<close> of the table before the deletion, since the trees are inconsistent while it runs.
\<close>

section \<open>Subtrees\<close>

definition subtree :: "(WCHAR \<Rightarrow> WCHAR) \<Rightarrow> 'r tree_table \<Rightarrow> nat \<Rightarrow> nat set" where
  "subtree u t p = {q. \<exists>nd md. th_nodes t p = Some nd \<and> th_nodes t q = Some md \<and> tn_key u t nd \<in> up_to (tn_key u t md)}"

lemma subtree_self: "th_nodes t p = Some nd \<Longrightarrow> p \<in> subtree u t p"
  by (auto simp: subtree_def)

lemma subtree_dom: "subtree u t p \<subseteq> dom (th_nodes t)"
  by (auto simp: subtree_def)

lemma child_parent:
  assumes ok: "tree_ok u A t" and c: "c \<in> child_set t p"
  obtains cd nd where "th_nodes t c = Some cd" "th_nodes t p = Some nd"
    "parent_path (tn_key u t cd) = Some (tn_key u t nd)" "tn_pParentNode cd = Some p"
proof -
  obtain cd where cd: "th_nodes t c = Some cd" "tn_pParentNode cd = Some p" using c by (auto simp: child_set_def)
  then have "parent_is u t (tn_key u t cd) (Some p)" using ok by (force simp: tree_ok_def forest_ok_def)
  then obtain nd where "parent_path (tn_key u t cd) = Some (tn_key u t nd)" "th_nodes t p = Some nd"
    by (auto simp: parent_is_def split: option.splits)
  then show thesis using that cd by blast
qed

lemma same_key_same_node:
  assumes "tree_ok u A t" "th_nodes t p = Some nd" "th_nodes t q = Some md" "tn_key u t nd = tn_key u t md"
  shows "p = q"
  using assms by (auto simp: tree_ok_def store_ok_def)

text \<open>The subtree of a node is the node and the subtrees of its children, all disjoint.\<close>

lemma subtree_children:
  assumes ok: "tree_ok u A t" and p: "th_nodes t p = Some nd"
  shows "subtree u t p = insert p (\<Union>c\<in>child_set t p. subtree u t c)"
proof (rule set_eqI)
  have down: "q = p \<or> (\<exists>c\<in>child_set t p. q \<in> subtree u t c)"
    if "th_nodes t q = Some md" "tn_key u t nd \<in> up_to (tn_key u t md)" for q md
    using that
  proof (induction "length (tn_key u t md)" arbitrary: q md rule: less_induct)
    case less
    show ?case
    proof (cases "parent_path (tn_key u t md)")
      case None
      then have "tn_key u t nd = tn_key u t md" using less.prems(2) up_to_parent [of "tn_key u t md"] by simp
      then show ?thesis using same_key_same_node [OF ok p less.prems(1)] by simp
    next
      case (Some a)
      have "parent_is u t (tn_key u t md) (tn_pParentNode md)"
        using ok less.prems(1) by (simp add: tree_ok_def forest_ok_def)
      then obtain q' qd where q': "tn_pParentNode md = Some q'" "th_nodes t q' = Some qd" "tn_key u t qd = a"
        using Some by (auto simp: parent_is_def)
      consider "tn_key u t nd = tn_key u t md" | "tn_key u t nd \<in> up_to a"
        using less.prems(2) up_to_parent [of "tn_key u t md"] Some by auto
      then show ?thesis
      proof cases
        case 1
        then show ?thesis using same_key_same_node [OF ok p less.prems(1)] by simp
      next
        case 2
        have "length a < length (tn_key u t md)" using parent_path_Some(3) [OF Some] .
        then have "q' = p \<or> (\<exists>c\<in>child_set t p. q' \<in> subtree u t c)" using less.hyps [OF _ q'(2)] q'(3) 2 by simp
        moreover have "q \<in> child_set t q'" using less.prems(1) q'(1) by (auto simp: child_set_def)
        moreover have "q \<in> subtree u t q" using less.prems(1) by (rule subtree_self)
        moreover have "q \<in> subtree u t c" if h: "q' \<in> subtree u t c" for c
        proof -
          obtain cd where cd: "th_nodes t c = Some cd" "tn_key u t cd \<in> up_to a" using h q'(2,3) by (auto simp: subtree_def)
          then have "tn_key u t cd \<in> up_to (tn_key u t md)" using up_to_parent [of "tn_key u t md"] Some by simp
          then show ?thesis using cd(1) less.prems(1) by (auto simp: subtree_def)
        qed
        ultimately show ?thesis by blast
      qed
    qed
  qed
  have up: "q \<in> subtree u t p" if c: "c \<in> child_set t p" and q: "q \<in> subtree u t c" for c q
  proof -
    obtain cd nd' where cd: "th_nodes t c = Some cd" "th_nodes t p = Some nd'" "parent_path (tn_key u t cd) = Some (tn_key u t nd')"
      using child_parent [OF ok c] by metis
    obtain md where md: "th_nodes t q = Some md" "tn_key u t cd \<in> up_to (tn_key u t md)"
      using q cd(1) by (auto simp: subtree_def)
    have "tn_key u t nd' \<in> up_to (tn_key u t cd)" using parent_path_Some(1) [OF cd(3)] by (simp add: up_to_def)
    then have "tn_key u t nd' \<in> up_to (tn_key u t md)" using md(2) by (rule up_to_trans)
    then show ?thesis using cd(2) md(1) by (auto simp: subtree_def)
  qed
  show "q \<in> subtree u t p \<longleftrightarrow> q \<in> insert p (\<Union>c\<in>child_set t p. subtree u t c)" for q
  proof
    assume "q \<in> subtree u t p"
    then obtain md where "th_nodes t q = Some md" "tn_key u t nd \<in> up_to (tn_key u t md)" using p by (auto simp: subtree_def)
    from down [OF this] show "q \<in> insert p (\<Union>c\<in>child_set t p. subtree u t c)" by simp
  next
    assume "q \<in> insert p (\<Union>c\<in>child_set t p. subtree u t c)"
    then show "q \<in> subtree u t p" using up subtree_self [OF p] by blast
  qed
qed

lemma not_in_child:
  assumes ok: "tree_ok u A t" and c: "c \<in> child_set t p"
  shows "p \<notin> subtree u t c"
proof
  assume "p \<in> subtree u t c"
  obtain cd nd where cd: "th_nodes t c = Some cd" "th_nodes t p = Some nd" "parent_path (tn_key u t cd) = Some (tn_key u t nd)"
    using child_parent [OF ok c] by metis
  then have "tn_key u t cd \<in> up_to (tn_key u t nd)" using \<open>p \<in> subtree u t c\<close> by (auto simp: subtree_def)
  then show False using up_to_length parent_path_Some(3) [OF cd(3)] by fastforce
qed

lemma siblings_disjoint:
  assumes ok: "tree_ok u A t" and c: "c \<in> child_set t p" "d \<in> child_set t p" "c \<noteq> d"
  shows "subtree u t c \<inter> subtree u t d = {}"
proof (rule equals0I)
  fix q assume q: "q \<in> subtree u t c \<inter> subtree u t d"
  obtain cd nd where cd: "th_nodes t c = Some cd" "th_nodes t p = Some nd" "parent_path (tn_key u t cd) = Some (tn_key u t nd)"
    using child_parent [OF ok c(1)] by metis
  obtain dd where dd: "th_nodes t d = Some dd" "parent_path (tn_key u t dd) = Some (tn_key u t nd)"
    using child_parent [OF ok c(2)] cd(2) by (metis option.inject)
  obtain md where md: "tn_key u t cd \<in> up_to (tn_key u t md)" "tn_key u t dd \<in> up_to (tn_key u t md)"
    using q cd(1) dd(1) by (auto simp: subtree_def)
  have ne: "tn_key u t cd \<noteq> tn_key u t dd" using same_key_same_node [OF ok cd(1) dd(1)] c(3) by blast
  have "tn_key u t x \<in> up_to (tn_key u t nd)" if "tn_key u t x \<in> up_to (tn_key u t y)" "tn_key u t x \<noteq> tn_key u t y"
      "parent_path (tn_key u t y) = Some (tn_key u t nd)" for x y
    using that up_to_parent [of "tn_key u t y"] by simp
  then have "tn_key u t cd \<in> up_to (tn_key u t nd) \<or> tn_key u t dd \<in> up_to (tn_key u t nd)"
    using up_to_linear [OF md] ne cd(3) dd(2) by metis
  then show False using up_to_length parent_path_Some(3) [OF cd(3)] parent_path_Some(3) [OF dd(2)] by fastforce
qed

section \<open>What a deletion leaves\<close>

definition decr :: "nat \<Rightarrow> nat" where
  "decr n = dword_sub n 1"

definition deleted :: "'r tree_table \<Rightarrow> nat set \<Rightarrow> 'r tree_table \<Rightarrow> bool" where
  "deleted t D t' \<longleftrightarrow> th_fCaseSensitive t' = th_fCaseSensitive t \<and> th_nBuckets t' = th_nBuckets t \<and>
     th_nodes t' = th_nodes t |` (- D) \<and>
     th_ppBuckets t' = map_option (map (filter (\<lambda>x. x \<notin> D))) (th_ppBuckets t) \<and>
     th_nItems t' = (decr ^^ card D) (th_nItems t) \<and>
     (\<exists>ds. th_calls t' = th_calls t @ ds \<and> lock_run Exclusive ds = Some Exclusive \<and>
       (\<forall>r. balance r ds = - int (card (holders r t \<inter> D))))"

lemma deletedE:
  assumes "deleted t D t'"
  obtains ds where "th_fCaseSensitive t' = th_fCaseSensitive t" "th_nBuckets t' = th_nBuckets t"
    "th_nodes t' = th_nodes t |` (- D)" "th_ppBuckets t' = map_option (map (filter (\<lambda>x. x \<notin> D))) (th_ppBuckets t)"
    "th_nItems t' = (decr ^^ card D) (th_nItems t)" "th_calls t' = th_calls t @ ds"
    "lock_run Exclusive ds = Some Exclusive" "\<forall>r. balance r ds = - int (card (holders r t \<inter> D))"
  using assms that unfolding deleted_def by blast

lemma deletedI:
  assumes "th_fCaseSensitive t' = th_fCaseSensitive t" "th_nBuckets t' = th_nBuckets t"
    "th_nodes t' = th_nodes t |` (- D)" "th_ppBuckets t' = map_option (map (filter (\<lambda>x. x \<notin> D))) (th_ppBuckets t)"
    "th_nItems t' = (decr ^^ card D) (th_nItems t)" "th_calls t' = th_calls t @ ds"
    "lock_run Exclusive ds = Some Exclusive" "\<And>r. balance r ds = - int (card (holders r t \<inter> D))"
  shows "deleted t D t'"
  using assms by (auto simp: deleted_def)

lemma deleted_empty: "deleted t {} t"
  by (rule deletedI [where ds = "[]"]; cases "th_ppBuckets t"; simp add: restrict_map_def map_idI)

lemma deleted_trans:
  assumes 1: "deleted t D t1" and 2: "deleted t1 E t2" and fin: "finite D" "finite E" and dis: "D \<inter> E = {}"
  shows "deleted t (D \<union> E) t2"
proof -
  obtain ds where A: "th_fCaseSensitive t1 = th_fCaseSensitive t" "th_nBuckets t1 = th_nBuckets t"
    "th_nodes t1 = th_nodes t |` (- D)" "th_ppBuckets t1 = map_option (map (filter (\<lambda>x. x \<notin> D))) (th_ppBuckets t)"
    "th_nItems t1 = (decr ^^ card D) (th_nItems t)" "th_calls t1 = th_calls t @ ds"
    "lock_run Exclusive ds = Some Exclusive" "\<forall>r. balance r ds = - int (card (holders r t \<inter> D))"
    using 1 by (rule deletedE)
  obtain es where B: "th_fCaseSensitive t2 = th_fCaseSensitive t1" "th_nBuckets t2 = th_nBuckets t1"
    "th_nodes t2 = th_nodes t1 |` (- E)" "th_ppBuckets t2 = map_option (map (filter (\<lambda>x. x \<notin> E))) (th_ppBuckets t1)"
    "th_nItems t2 = (decr ^^ card E) (th_nItems t1)" "th_calls t2 = th_calls t1 @ es"
    "lock_run Exclusive es = Some Exclusive" "\<forall>r. balance r es = - int (card (holders r t1 \<inter> E))"
    using 2 by (rule deletedE)
  have c: "card (D \<union> E) = card E + card D" using card_Un_disjoint [OF fin dis] by simp
  show ?thesis
  proof (rule deletedI [where ds = "ds @ es"])
    show "th_nodes t2 = th_nodes t |` (- (D \<union> E))" unfolding B(3) A(3) by (simp add: Int_commute)
    show "th_ppBuckets t2 = map_option (map (filter (\<lambda>x. x \<notin> D \<union> E))) (th_ppBuckets t)"
      unfolding B(4) A(4) by (cases "th_ppBuckets t") simp_all
    show "th_nItems t2 = (decr ^^ card (D \<union> E)) (th_nItems t)" unfolding B(5) A(5) c by (simp add: funpow_add)
    show "balance r (ds @ es) = - int (card (holders r t \<inter> (D \<union> E)))" for r
    proof -
      have "holders r t1 \<inter> E = holders r t \<inter> E" using A(3) dis by (auto simp: holders_def restrict_map_def split: if_splits)
      moreover have "card (holders r t \<inter> (D \<union> E)) = card (holders r t \<inter> D) + card (holders r t \<inter> E)"
        unfolding Int_Un_distrib by (rule card_Un_disjoint) (use fin dis in auto)
      ultimately show ?thesis using A(8) B(8) by simp
    qed
  qed (use A B in \<open>simp_all add: lock_run_append\<close>)
qed

text \<open>As far as the nodes in \<open>D\<close> go, the table is as in the snapshot.\<close>

definition agrees :: "'r tree_table \<Rightarrow> 'r tree_table \<Rightarrow> nat set \<Rightarrow> bool" where
  "agrees t0 t D \<longleftrightarrow>
     (\<forall>x\<in>D. \<exists>nd nd0. th_nodes t x = Some nd \<and> th_nodes t0 x = Some nd0 \<and> tn_children nd = tn_children nd0) \<and>
     (\<exists>bs. th_ppBuckets t = Some bs \<and> length bs = th_nBuckets t \<and> 0 < th_nBuckets t \<and> distinct (concat bs) \<and>
       (\<forall>x\<in>D. x \<in> set (bs ! (unat (hash_at (th_nodes t) x) mod th_nBuckets t))))"

lemma agrees_subset: "agrees t0 t D \<Longrightarrow> E \<subseteq> D \<Longrightarrow> agrees t0 t E"
  unfolding agrees_def by blast

lemma distinct_concat_map_filter: "distinct (concat bs) \<Longrightarrow> distinct (concat (map (filter P) bs))"
  by (simp add: filter_concat [symmetric])

lemma agrees_deleted:
  assumes a: "agrees t0 t (D \<union> E)" and d: "deleted t D t1" and dis: "D \<inter> E = {}"
  shows "agrees t0 t1 E"
proof -
  obtain bs where bs: "th_ppBuckets t = Some bs" "length bs = th_nBuckets t" "0 < th_nBuckets t" "distinct (concat bs)"
    "\<forall>x\<in>D \<union> E. x \<in> set (bs ! (unat (hash_at (th_nodes t) x) mod th_nBuckets t))" using a by (auto simp: agrees_def)
  have t1: "th_nBuckets t1 = th_nBuckets t" "th_nodes t1 = th_nodes t |` (- D)"
    "th_ppBuckets t1 = Some (map (filter (\<lambda>x. x \<notin> D)) bs)" using d bs(1) by (auto simp: deleted_def)
  have n: "th_nodes t1 x = th_nodes t x" if "x \<in> E" for x using that dis t1(2) by (auto simp: restrict_map_def)
  have h: "hash_at (th_nodes t1) x = hash_at (th_nodes t) x" if "x \<in> E" for x using n [OF that] by (simp add: hash_at_def)
  have "x \<in> set (map (filter (\<lambda>x. x \<notin> D)) bs ! (unat (hash_at (th_nodes t1) x) mod th_nBuckets t1))" if "x \<in> E" for x
  proof -
    have "unat (hash_at (th_nodes t) x) mod th_nBuckets t < length bs" using bs(2,3) by simp
    then show ?thesis using bs(5) that dis h [OF that] t1(1) by auto
  qed
  moreover have "\<forall>x\<in>E. \<exists>nd nd0. th_nodes t1 x = Some nd \<and> th_nodes t0 x = Some nd0 \<and> tn_children nd = tn_children nd0"
    using a n unfolding agrees_def by (metis UnI2)
  ultimately show ?thesis
    unfolding agrees_def using t1(1,3) bs(2,3) distinct_concat_map_filter [OF bs(4)] by simp
qed

section \<open>Unlinking\<close>

lemma take_drop_filter: "distinct xs \<Longrightarrow> i < length xs \<Longrightarrow> take i xs @ drop (Suc i) xs = filter (\<lambda>x. x \<noteq> xs ! i) xs"
proof -
  assume d: "distinct xs" and i: "i < length xs"
  have e: "xs = take i xs @ xs ! i # drop (Suc i) xs" by (rule id_take_nth_drop [OF i])
  have "xs ! i \<notin> set (take i xs)" "xs ! i \<notin> set (drop (Suc i) xs)"
    using d by (subst (asm) e, simp)+
  then have "filter (\<lambda>x. x \<noteq> xs ! i) (take i xs) = take i xs" "filter (\<lambda>x. x \<noteq> xs ! i) (drop (Suc i) xs) = drop (Suc i) xs"
    by (auto simp: filter_id_conv)
  moreover have "filter (\<lambda>x. x \<noteq> xs ! i) xs = filter (\<lambda>x. x \<noteq> xs ! i) (take i xs @ xs ! i # drop (Suc i) xs)"
    using e by (rule arg_cong)
  ultimately show ?thesis by simp
qed

lemma distinct_concat_disjoint:
  assumes "distinct (concat bs)" "i < length bs" "j < length bs" "i \<noteq> j"
  shows "set (bs ! i) \<inter> set (bs ! j) = {}"
proof -
  have "concat bs = concat (take i bs) @ bs ! i @ concat (drop (Suc i) bs)"
    using arg_cong [OF id_take_nth_drop [OF assms(2)], of concat] by simp
  then have "set (bs ! i) \<inter> (set (concat (take i bs)) \<union> set (concat (drop (Suc i) bs))) = {}"
    using assms(1) by (simp del: set_concat) blast
  moreover have "bs ! j \<in> set (take i bs) \<or> bs ! j \<in> set (drop (Suc i) bs)"
  proof (cases "j < i")
    case True
    then show ?thesis using assms(2,3) by (metis in_set_conv_nth length_take min.absorb4 nth_take)
  next
    case False
    then have "bs ! j = drop (Suc i) bs ! (j - Suc i)" "j - Suc i < length (drop (Suc i) bs)" using assms(3,4) by simp_all
    then show ?thesis using nth_mem by metis
  qed
  ultimately show ?thesis by auto
qed

lemma tree_unlink_filter:
  assumes d: "distinct (concat bs)" and b: "b < length bs" "pos < length (bs ! b)"
  shows "tree_unlink b pos bs = map (filter (\<lambda>x. x \<noteq> bs ! b ! pos)) bs"
proof (rule nth_equalityI)
  fix i assume "i < length (tree_unlink b pos bs)"
  then have i: "i < length bs" by (simp add: tree_unlink_def)
  have db: "distinct (bs ! i)" using d i by (auto simp: distinct_concat_iff)
  show "tree_unlink b pos bs ! i = map (filter (\<lambda>x. x \<noteq> bs ! b ! pos)) bs ! i"
  proof (cases "i = b")
    case True
    then show ?thesis using take_drop_filter [OF db] b i by (simp add: tree_unlink_def)
  next
    case False
    have "set (bs ! i) \<inter> set (bs ! b) = {}"
      by (rule distinct_concat_disjoint [OF d i b(1) False])
    then have "filter (\<lambda>x. x \<noteq> bs ! b ! pos) (bs ! i) = bs ! i" using nth_mem [OF b(2)] by (auto simp: filter_id_conv)
    then show ?thesis using False i by (simp add: tree_unlink_def)
  qed
qed (simp add: tree_unlink_def)

lemma walk_to_Some: "p \<in> set xs \<Longrightarrow> \<exists>i. walk_to p xs = Some i \<and> i < length xs \<and> xs ! i = p"
  unfolding walk_to_def using find_index_None [of "\<lambda>x. x = p" xs] find_index_Some [of "\<lambda>x. x = p" xs]
  by (metis not_Some_eq)

section \<open>DeleteNodeInternal\<close>

definition drop_of :: "'r option \<Rightarrow> 'r call list" where
  "drop_of r = (case r of Some x \<Rightarrow> [DereferenceRecord x] | None \<Rightarrow> [])"

lemma drop_of_simps [simp]: "lock_run Exclusive (drop_of r) = Some Exclusive" "balance x (drop_of r) = (if r = Some x then - 1 else 0)"
  by (cases r; simp add: drop_of_def)+

lemma tree_DeleteNode_eq:
  "th_nodes t p = Some nd \<Longrightarrow>
   tree_DeleteNode p t w = Some ((th_emit (drop_of (tn_pRecord nd)) t)\<lparr>th_nodes := (th_nodes t)(p := None)\<rparr>, HeapFree w)"
  by (simp add: tree_DeleteNode_def drop_of_def th_emit_def split: option.splits)

lemma finite_subtree: "tree_ok u A t \<Longrightarrow> finite (subtree u t p)"
  using tree_okE chains_okD(8) finite_subset [OF subtree_dom] by metis

lemma agrees_nodes:
  assumes "agrees t0 t D" "\<And>x. x \<in> D \<Longrightarrow> \<exists>nd nd'. th_nodes t x = Some nd \<and> N x = Some nd' \<and>
      tn_children nd' = tn_children nd \<and> tn_dwHash nd' = tn_dwHash nd"
  shows "agrees t0 (t\<lparr>th_nodes := N\<rparr>) D"
proof -
  have "hash_at N x = hash_at (th_nodes t) x" if "x \<in> D" for x using assms(2) [OF that] by (auto simp: hash_at_def)
  moreover have "\<forall>x\<in>D. \<exists>nd nd0. N x = Some nd \<and> th_nodes t0 x = Some nd0 \<and> tn_children nd = tn_children nd0"
    using assms unfolding agrees_def by (metis option.inject)
  ultimately show ?thesis using assms(1) by (auto simp: agrees_def)
qed

lemma agrees_unlinked:
  assumes "agrees t0 t D" "th_ppBuckets t = Some bs" "p \<notin> D"
  shows "agrees t0 (t\<lparr>th_ppBuckets := Some (map (filter (\<lambda>x. x \<noteq> p)) bs)\<rparr>) D"
proof -
  have bs: "length bs = th_nBuckets t" "0 < th_nBuckets t" "distinct (concat bs)"
    "\<forall>x\<in>D. x \<in> set (bs ! (unat (hash_at (th_nodes t) x) mod th_nBuckets t))"
    using assms(1,2) by (auto simp: agrees_def)
  have "x \<in> set (map (filter (\<lambda>x. x \<noteq> p)) bs ! (unat (hash_at (th_nodes t) x) mod th_nBuckets t))" if "x \<in> D" for x
  proof -
    have "unat (hash_at (th_nodes t) x) mod th_nBuckets t < length bs" using bs(1,2) by simp
    then show ?thesis using bs(4) that assms(3) by auto
  qed
  then show ?thesis using assms(1) bs distinct_concat_map_filter [OF bs(3)] by (simp add: agrees_def)
qed

lemma delete_node_step:
  assumes ok0: "tree_ok u A t0"
    and kids: "\<And>cs t w. agrees t0 t (\<Union>c\<in>set cs. subtree u t0 c) \<Longrightarrow> distinct cs \<Longrightarrow> set cs \<subseteq> child_set t0 p \<Longrightarrow>
      \<exists>t'. delete_children depth cs t w = Some (t', (HeapFree ^^ card (\<Union>c\<in>set cs. subtree u t0 c)) w) \<and>
        deleted t (\<Union>c\<in>set cs. subtree u t0 c) t'"
    and ag: "agrees t0 (t\<lparr>th_nodes := N\<rparr>) (subtree u t0 p)"
    and bs: "th_ppBuckets t = Some bs" "b < length bs" "pos < length (bs ! b)" "bs ! b ! pos = p"
    and nd: "th_nodes t p = Some nd" "p \<in> dom (th_nodes t0)"
    and rc: "remove_child (tn_pParentNode nd) p (t\<lparr>th_ppBuckets := Some (tree_unlink b pos bs)\<rparr>)
      = Some (t\<lparr>th_ppBuckets := Some (tree_unlink b pos bs), th_nodes := N\<rparr>)"
  shows "\<exists>t'. DeleteNodeInternal (Suc depth) b pos p t w = Some (t', (HeapFree ^^ card (subtree u t0 p)) w) \<and>
    deleted (t\<lparr>th_nodes := N\<rparr>) (subtree u t0 p) t'"
proof -
  obtain nd0 where nd0: "th_nodes t0 p = Some nd0" using nd(2) by auto
  define C where "C = (\<Union>c\<in>child_set t0 p. subtree u t0 c)"
  have S: "subtree u t0 p = insert p C" unfolding C_def by (rule subtree_children [OF ok0 nd0])
  have pC: "p \<notin> C" unfolding C_def using not_in_child [OF ok0] by blast
  have finC: "finite C" using finite_subtree [OF ok0, of p] unfolding S by simp
  obtain nd1 where nd1: "N p = Some nd1" "tn_children nd1 = tn_children nd0" using ag nd0 unfolding S by (auto simp: agrees_def)
  have kc: "distinct (tn_children nd1)" "set (tn_children nd1) = child_set t0 p"
    using ok0 nd0 nd1(2) by (auto simp: tree_ok_def forest_ok_def)
  have db: "distinct (concat bs)" using ag bs(1) by (auto simp: agrees_def)
  let ?bs = "map (filter (\<lambda>x. x \<noteq> p)) bs"
  let ?t1 = "t\<lparr>th_ppBuckets := Some ?bs, th_nodes := N\<rparr>"
  have un: "tree_unlink b pos bs = ?bs" using tree_unlink_filter [OF db bs(2,3)] bs(4) by simp
  have "agrees t0 (t\<lparr>th_nodes := N\<rparr>) C" using ag S agrees_subset by blast
  from agrees_unlinked [OF this, of bs p]
  have "agrees t0 ((t\<lparr>th_nodes := N\<rparr>)\<lparr>th_ppBuckets := Some ?bs\<rparr>) C" using bs(1) pC by simp
  moreover have "(t\<lparr>th_nodes := N\<rparr>)\<lparr>th_ppBuckets := Some ?bs\<rparr> = ?t1" by (cases t) simp
  ultimately have "agrees t0 ?t1 C" by simp
  then have "agrees t0 ?t1 (\<Union>c\<in>set (tn_children nd1). subtree u t0 c)" unfolding C_def kc(2) .
  from kids [OF this kc(1), of w] kc(2) obtain t2
    where t2: "delete_children depth (tn_children nd1) ?t1 w = Some (t2, (HeapFree ^^ card C) w)" "deleted ?t1 C t2"
    unfolding C_def by auto
  obtain ds where D: "th_fCaseSensitive t2 = th_fCaseSensitive t" "th_nBuckets t2 = th_nBuckets t" "th_nodes t2 = N |` (- C)"
    "th_ppBuckets t2 = Some (map (filter (\<lambda>x. x \<notin> C)) ?bs)" "th_nItems t2 = (decr ^^ card C) (th_nItems t)"
    "th_calls t2 = th_calls t @ ds" "lock_run Exclusive ds = Some Exclusive" "\<forall>r. balance r ds = - int (card (holders r ?t1 \<inter> C))"
    using deletedE [OF t2(2)] by auto
  have n2: "th_nodes t2 p = Some nd1" using D(3) nd1(1) pC by simp
  define t3 where "t3 = ((th_emit (drop_of (tn_pRecord nd1)) t2)\<lparr>th_nodes := (th_nodes t2)(p := None)\<rparr>)
    \<lparr>th_nItems := decr (th_nItems t2)\<rparr>"
  have "DeleteNodeInternal (Suc depth) b pos p t w = Some (t3, HeapFree ((HeapFree ^^ card C) w))"
    using bs(1) nd(1) rc un nd1(1) t2(1) tree_DeleteNode_eq [OF n2] by (simp add: t3_def decr_def th_emit_def)
  moreover have "deleted (t\<lparr>th_nodes := N\<rparr>) (insert p C) t3"
  proof (rule deletedI [where ds = "ds @ drop_of (tn_pRecord nd1)"])
    show "th_nodes t3 = th_nodes (t\<lparr>th_nodes := N\<rparr>) |` (- insert p C)"
      using D(3) by (auto simp: t3_def restrict_map_def fun_eq_iff)
    show "th_ppBuckets t3 = map_option (map (filter (\<lambda>x. x \<notin> insert p C))) (th_ppBuckets (t\<lparr>th_nodes := N\<rparr>))"
      using D(4) bs(1) by (auto simp: t3_def th_emit_def intro!: filter_cong)
    show "th_nItems t3 = (decr ^^ card (insert p C)) (th_nItems (t\<lparr>th_nodes := N\<rparr>))"
      using D(5) finC pC by (simp add: t3_def)
    show "balance r (ds @ drop_of (tn_pRecord nd1)) = - int (card (holders r (t\<lparr>th_nodes := N\<rparr>) \<inter> insert p C))" for r
    proof -
      have h: "holders r ?t1 = holders r (t\<lparr>th_nodes := N\<rparr>)" "p \<in> holders r ?t1 \<longleftrightarrow> tn_pRecord nd1 = Some r"
        using nd1(1) by (simp_all add: holders_def)
      show ?thesis
        unfolding h(1) [symmetric] using D(8) finC pC h(2) by (simp add: Int_insert_right)
    qed
  qed (use D in \<open>simp_all add: t3_def th_emit_def lock_run_append\<close>)
  ultimately show ?thesis unfolding S using finC pC by auto
qed

text \<open>Setting the parent of a node that is about to go makes no difference.\<close>

lemma deleted_set_node:
  assumes "deleted (set_node c cd' t) D t'" "c \<in> D" "th_nodes t c = Some cd" "tn_pRecord cd' = tn_pRecord cd"
  shows "deleted t D t'"
proof -
  have "holders r (set_node c cd' t) = holders r t" for r using assms(3,4) by (auto simp: holders_def)
  moreover have "(th_nodes t)(c \<mapsto> cd') |` (- D) = th_nodes t |` (- D)" using assms(2) by (auto simp: restrict_map_def fun_eq_iff)
  ultimately show ?thesis using assms(1) by (simp add: deleted_def)
qed

definition deletes :: "(WCHAR \<Rightarrow> WCHAR) \<Rightarrow> 'r tree_table \<Rightarrow> nat \<Rightarrow> bool" where
  "deletes u t0 depth \<longleftrightarrow> (\<forall>t p bs b pos nd w. agrees t0 t (subtree u t0 p) \<longrightarrow> th_ppBuckets t = Some bs \<longrightarrow>
     b < length bs \<longrightarrow> pos < length (bs ! b) \<longrightarrow> bs ! b ! pos = p \<longrightarrow> th_nodes t p = Some nd \<longrightarrow>
     tn_pParentNode nd = None \<longrightarrow> p \<in> dom (th_nodes t0) \<longrightarrow> card (subtree u t0 p) \<le> depth \<longrightarrow>
     (\<exists>t'. DeleteNodeInternal depth b pos p t w = Some (t', (HeapFree ^^ card (subtree u t0 p)) w) \<and>
        deleted t (subtree u t0 p) t'))"

lemma deletesD:
  assumes "deletes u t0 depth" "agrees t0 t (subtree u t0 p)" "th_ppBuckets t = Some bs" "b < length bs"
    "pos < length (bs ! b)" "bs ! b ! pos = p" "th_nodes t p = Some nd" "tn_pParentNode nd = None" "p \<in> dom (th_nodes t0)"
    "card (subtree u t0 p) \<le> depth"
  shows "\<exists>t'. DeleteNodeInternal depth b pos p t w = Some (t', (HeapFree ^^ card (subtree u t0 p)) w) \<and>
    deleted t (subtree u t0 p) t'"
  using assms unfolding deletes_def by blast

lemma delete_children_step:
  assumes ok0: "tree_ok u A t0" and one: "deletes u t0 depth"
    and "agrees t0 t (\<Union>c\<in>set cs. subtree u t0 c)" "distinct cs" "set cs \<subseteq> child_set t0 p"
      "\<forall>c\<in>set cs. card (subtree u t0 c) \<le> depth"
  shows "\<exists>t'. delete_children depth cs t w = Some (t', (HeapFree ^^ card (\<Union>c\<in>set cs. subtree u t0 c)) w) \<and>
      deleted t (\<Union>c\<in>set cs. subtree u t0 c) t'"
  using assms(3-6)
proof (induction cs arbitrary: t w)
  case (Cons c cs)
  let ?C = "subtree u t0 c" and ?R = "\<Union>c\<in>set cs. subtree u t0 c"
  have cR: "?C \<inter> ?R = {}" using siblings_disjoint [OF ok0, of c p] Cons.prems(2,3) by fastforce
  have fin: "finite ?C" "finite ?R" using finite_subtree [OF ok0] by auto
  obtain cd0 where cd0: "th_nodes t0 c = Some cd0" using Cons.prems(3) by (auto simp: child_set_def)
  have cC: "c \<in> ?C" using subtree_self [OF cd0] .
  have U: "(\<Union>c\<in>set (c # cs). subtree u t0 c) = ?C \<union> ?R" by simp
  have agC: "agrees t0 t ?C" using Cons.prems(1) agrees_subset unfolding U by blast
  then obtain cd bs where cd: "th_nodes t c = Some cd" and bs: "th_ppBuckets t = Some bs" "length bs = th_nBuckets t"
    "0 < th_nBuckets t" "c \<in> set (bs ! (unat (tn_dwHash cd) mod th_nBuckets t))"
    using cC by (auto simp: agrees_def hash_at_def) (metis option.sel)
  let ?b = "unat (tn_dwHash cd) mod th_nBuckets t"
  have b: "?b < length bs" using bs(2,3) by simp
  obtain pos where pos: "walk_to c (bs ! ?b) = Some pos" "pos < length (bs ! ?b)" "bs ! ?b ! pos = c"
    using walk_to_Some [OF bs(4)] by blast
  let ?cd = "cd\<lparr>tn_pParentNode := None\<rparr>"
  have "agrees t0 (t\<lparr>th_nodes := (th_nodes t)(c \<mapsto> ?cd)\<rparr>) ?C"
    by (rule agrees_nodes [OF agC]) (use agC cd in \<open>auto simp: agrees_def\<close>)
  then have "agrees t0 (set_node c ?cd t) ?C" by (simp add: set_node_def)
  from deletesD [OF one this _ b pos(2,3), of ?cd w] bs(1) Cons.prems(4) cd0 obtain t1 where
    t1: "DeleteNodeInternal depth ?b pos c (set_node c ?cd t) w = Some (t1, (HeapFree ^^ card ?C) w)"
      "deleted (set_node c ?cd t) ?C t1"
    by auto
  have d1: "deleted t ?C t1" by (rule deleted_set_node [OF t1(2) cC cd]) simp
  have "agrees t0 t1 ?R" using agrees_deleted [OF _ d1 cR] Cons.prems(1) unfolding U by blast
  from Cons.IH [OF this, of "(HeapFree ^^ card ?C) w"] Cons.prems(2-4) obtain t2 where
    t2: "delete_children depth cs t1 ((HeapFree ^^ card ?C) w) = Some (t2, (HeapFree ^^ card ?R) ((HeapFree ^^ card ?C) w))"
      "deleted t1 ?R t2" by auto
  have "card (?C \<union> ?R) = card ?R + card ?C" using card_Un_disjoint [OF fin cR] by simp
  then have "(HeapFree ^^ card (?C \<union> ?R)) w = (HeapFree ^^ card ?R) ((HeapFree ^^ card ?C) w)" by (simp add: funpow_add)
  moreover have "deleted t (?C \<union> ?R) t2" by (rule deleted_trans [OF d1 t2(2) fin cR])
  moreover have "delete_children depth (c # cs) t w = delete_children depth cs t1 ((HeapFree ^^ card ?C) w)"
    using cd bs(1,3) b pos(1) t1(1) by (simp add: mem_get_Some Let_def)
  ultimately show ?case unfolding U using t2(1) by auto
qed (use deleted_empty in auto)

lemma child_subtree_smaller:
  assumes "tree_ok u A t0" "th_nodes t0 p = Some nd" "c \<in> child_set t0 p"
  shows "card (subtree u t0 c) < card (subtree u t0 p)"
  using subtree_children [OF assms(1,2)] not_in_child [OF assms(1,3)] assms(3)
  by (intro psubset_card_mono finite_subtree [OF assms(1)]) blast

text \<open>The recursion ends as soon as the bound on its depth is the number of nodes of the subtree.\<close>

lemma DeleteNodeInternal_deletes:
  assumes ok0: "tree_ok u A t0"
  shows "deletes u t0 depth"
proof (induction depth)
  case 0
  have "card (subtree u t0 p) \<noteq> 0" if h: "p \<in> dom (th_nodes t0)" for p
  proof -
    obtain nd where "th_nodes t0 p = Some nd" using h by auto
    then show ?thesis using subtree_self [of t0 p nd u] finite_subtree [OF ok0, of p] by auto
  qed
  then show ?case unfolding deletes_def by simp
next
  case (Suc depth)
  show ?case
    unfolding deletes_def
  proof (intro allI impI)
    fix t p bs b pos nd w
    assume ag: "agrees t0 t (subtree u t0 p)" and bs: "th_ppBuckets t = Some bs" "b < length bs" "pos < length (bs ! b)"
        "bs ! b ! pos = p" and nd: "th_nodes t p = Some nd" "tn_pParentNode nd = None" and p: "p \<in> dom (th_nodes t0)"
      and card: "card (subtree u t0 p) \<le> Suc depth"
    obtain nd0 where nd0: "th_nodes t0 p = Some nd0" using p by auto
    have small: "\<forall>c\<in>set cs. card (subtree u t0 c) \<le> depth" if "set cs \<subseteq> child_set t0 p" for cs
      using child_subtree_smaller [OF ok0 nd0] that card by fastforce
    have same: "t\<lparr>th_nodes := th_nodes t\<rparr> = t" by simp
    have up: "t\<lparr>th_ppBuckets := x, th_nodes := th_nodes t\<rparr> = t\<lparr>th_ppBuckets := x\<rparr>" for x by (cases t) simp
    show "\<exists>t'. DeleteNodeInternal (Suc depth) b pos p t w = Some (t', (HeapFree ^^ card (subtree u t0 p)) w) \<and>
        deleted t (subtree u t0 p) t'"
      by (rule delete_node_step [where N = "th_nodes t" and t = t, unfolded same up, OF ok0 _ ag bs nd(1) p])
        (rule delete_children_step [OF ok0 Suc.IH _ _ _ small], assumption+, simp add: remove_child_def nd(2))
  qed
qed

section \<open>The invariant after a deletion\<close>

text \<open>The store with a node taken off its parent's list.\<close>

definition without_child :: "nat option \<Rightarrow> nat \<Rightarrow> (nat \<Rightarrow> 'r tree_node option) \<Rightarrow> nat \<Rightarrow> 'r tree_node option" where
  "without_child q p store x =
     (if q = Some x then map_option (\<lambda>qd. qd\<lparr>tn_children := filter (\<lambda>c. c \<noteq> p) (tn_children qd)\<rparr>) (store x) else store x)"

lemma without_child_fields:
  "without_child q p store x = Some nd' \<longleftrightarrow> (\<exists>nd. store x = Some nd \<and>
     nd' = nd\<lparr>tn_children := if q = Some x then filter (\<lambda>c. c \<noteq> p) (tn_children nd) else tn_children nd\<rparr>)"
  by (cases "store x") (auto simp: without_child_def)

lemma dom_without_child [simp]: "dom (without_child q p store) = dom store"
  by (auto simp: without_child_def split: if_splits)

lemma remove_child_correct:
  assumes ok: "tree_ok u A t" and p: "th_nodes t p = Some nd"
  shows "remove_child (tn_pParentNode nd) p (t\<lparr>th_ppBuckets := bs\<rparr>)
    = Some (t\<lparr>th_ppBuckets := bs, th_nodes := without_child (tn_pParentNode nd) p (th_nodes t)\<rparr>)"
proof (cases "tn_pParentNode nd")
  case None
  then have "without_child (tn_pParentNode nd) p (th_nodes t) = th_nodes t" by (auto simp: without_child_def)
  then show ?thesis using None by (cases t) (simp add: remove_child_def)
next
  case (Some q)
  then have pc: "p \<in> child_set t q" using p by (auto simp: child_set_def)
  then obtain qd where q: "th_nodes t q = Some qd" using child_parent [OF ok pc] by metis
  then have c: "distinct (tn_children qd)" "p \<in> set (tn_children qd)"
    using ok pc by (auto simp: tree_ok_def forest_ok_def)
  obtain i where i: "walk_to p (tn_children qd) = Some i" "i < length (tn_children qd)" "tn_children qd ! i = p"
    using walk_to_Some [OF c(2)] by blast
  have f: "take i (tn_children qd) @ drop (Suc i) (tn_children qd) = filter (\<lambda>x. x \<noteq> p) (tn_children qd)"
    using take_drop_filter [OF c(1) i(2)] i(3) by simp
  have "without_child (Some q) p (th_nodes t) = (th_nodes t)(q \<mapsto> qd\<lparr>tn_children := filter (\<lambda>x. x \<noteq> p) (tn_children qd)\<rparr>)"
    using q by (auto simp: without_child_def fun_eq_iff)
  then show ?thesis using Some q i(1) f by (simp add: remove_child_def set_node_def)
qed

lemma decr_funpow: "k \<le> n \<Longrightarrow> (decr ^^ k) (dword n) = dword (n - k)"
proof (induction k)
  case (Suc k)
  then show ?case using dword_minus_1 [of "n - k"] by (simp add: decr_def)
qed simp

lemma length_filter_notin:
  assumes "distinct xs" "S \<subseteq> set xs"
  shows "length (filter (\<lambda>x. x \<notin> S) xs) = length xs - card S"
proof -
  have "length (filter (\<lambda>x. x \<notin> S) xs) = card (set xs - S)"
    using distinct_card [of "filter (\<lambda>x. x \<notin> S) xs"] assms(1) by (simp add: set_diff_eq)
  then show ?thesis using assms distinct_card [of xs] finite_subset [OF assms(2)] by (simp add: card_Diff_subset)
qed

text \<open>A table without a set of nodes that is closed downwards.\<close>

lemma chains_ok_deleted:
  assumes C: "chains_ok t bs" and N: "\<And>x nd'. N x = Some nd' \<Longrightarrow> \<exists>nd. th_nodes t x = Some nd \<and> tn_dwHash nd' = tn_dwHash nd"
    "dom N = dom (th_nodes t)" and S: "S \<subseteq> dom (th_nodes t)" and d: "deleted (t\<lparr>th_nodes := N\<rparr>) S t'"
  shows "chains_ok t' (map (filter (\<lambda>x. x \<notin> S)) bs)"
proof -
  note D = chains_okD [OF C]
  have t': "th_fCaseSensitive t' = th_fCaseSensitive t" "th_nBuckets t' = th_nBuckets t" "th_nodes t' = N |` (- S)"
    "th_ppBuckets t' = Some (map (filter (\<lambda>x. x \<notin> S)) bs)" "th_nItems t' = (decr ^^ card S) (th_nItems t)"
    using d D(1) by (simp_all add: deleted_def)
  let ?bs = "map (filter (\<lambda>x. x \<notin> S)) bs"
  have cc: "concat ?bs = filter (\<lambda>x. x \<notin> S) (concat bs)" by (simp add: filter_concat)
  have h: "hash_at (th_nodes t') x = hash_at (th_nodes t) x" if x: "x \<in> dom (th_nodes t)" "x \<notin> S" for x
  proof -
    obtain nd' where "N x = Some nd'" using x(1) N(2) by blast
    then show ?thesis using N(1) [of x nd'] x(2) by (auto simp: hash_at_def t'(3))
  qed
  have "bucket_ok (th_nodes t') (length ?bs) i (?bs ! i)" if i: "i < length ?bs" for i
  proof -
    have i': "i < length bs" using i by simp
    have b: "sorted (map (hash_at (th_nodes t)) (bs ! i))" "\<forall>p\<in>set (bs ! i). unat (hash_at (th_nodes t) p) mod length bs = i"
      using D(6) [OF i'] by (auto simp: bucket_ok_def)
    have "hash_at (th_nodes t') x = hash_at (th_nodes t) x" if "x \<in> set (?bs ! i)" for x
    proof -
      have "x \<in> set (bs ! i)" "x \<notin> S" using that i' by simp_all
      then have "x \<in> dom (th_nodes t)" "x \<notin> S" using in_chain [OF i', of x] D(5) by blast+
      then show ?thesis by (rule h)
    qed
    then have e: "map (hash_at (th_nodes t')) (?bs ! i) = map (hash_at (th_nodes t)) (?bs ! i)" 
      "\<forall>x\<in>set (?bs ! i). hash_at (th_nodes t') x = hash_at (th_nodes t) x" by simp_all
    have "sorted (map (hash_at (th_nodes t)) (?bs ! i))" using sorted_filter [OF b(1)] i' by simp
    moreover have "unat (hash_at (th_nodes t') x) mod length bs = i" if "x \<in> set (?bs ! i)" for x
      using e(2) b(2) that i' by simp
    ultimately show ?thesis unfolding bucket_ok_def e(1) by simp
  qed
  moreover have "length (concat ?bs) = length (concat bs) - card S"
    unfolding cc using length_filter_notin [OF D(4)] S D(5) by simp
  moreover have "card S \<le> length (concat bs)"
    using card_mono [OF _ S] D(8) distinct_card [OF D(4)] D(5) by simp
  moreover have "set (concat ?bs) = dom (th_nodes t')" unfolding cc t'(3) using D(5) N(2) by auto
  moreover have "distinct (concat ?bs)" unfolding cc using D(4) by simp
  ultimately show ?thesis
    unfolding chains_ok_def using t' D(2,3,7,9) decr_funpow [of "card S" "length (concat bs)"] by simp
qed

lemma store_ok_deleted:
  fixes t t' :: "'r tree_table"
  assumes S: "store_ok u A t" and cs: "th_fCaseSensitive t' = th_fCaseSensitive t"
    and N: "\<And>x nd'. th_nodes t' x = Some nd' \<Longrightarrow> \<exists>nd. th_nodes t x = Some nd \<and> tn_pszPath nd' = tn_pszPath nd \<and>
      tn_dwHash nd' = tn_dwHash nd"
  shows "store_ok u A t'"
proof -
  have k: "tn_key u t' = tn_key u t" "node_ok A t' = node_ok A t" using cs by (rule tn_key_cong, rule node_ok_cong)
  have old: "\<exists>nd. th_nodes t x = Some nd \<and> tn_key u t nd' = tn_key u t nd \<and> (node_ok A t nd' \<longleftrightarrow> node_ok A t nd)"
    if "th_nodes t' x = Some nd'" for x nd'
    using N [OF that] by (auto simp: tn_key_def tn_path_def node_ok_def)
  show ?thesis
    unfolding store_ok_def k
  proof (intro conjI allI impI)
    fix x nd' assume "th_nodes t' x = Some nd'"
    then show "node_ok A t nd'" using old S unfolding store_ok_def by blast
  next
    fix x y nd' md' assume "th_nodes t' x = Some nd'" "th_nodes t' y = Some md'" "tn_key u t nd' = tn_key u t md'"
    then show "x = y" using old S unfolding store_ok_def by metis
  qed
qed

lemma subtree_parent:
  assumes ok: "tree_ok u A t" and p: "th_nodes t p = Some nd" and c: "c \<in> child_set t x" "c \<in> subtree u t p" "x \<notin> subtree u t p"
  shows "c = p"
proof -
  obtain cd xd where cd: "th_nodes t c = Some cd" "th_nodes t x = Some xd" "parent_path (tn_key u t cd) = Some (tn_key u t xd)"
    using child_parent [OF ok c(1)] by metis
  have "tn_key u t nd \<in> up_to (tn_key u t cd)" "tn_key u t nd \<notin> up_to (tn_key u t xd)"
    using c(2,3) p cd(1,2) by (auto simp: subtree_def)
  then have "tn_key u t nd = tn_key u t cd" using up_to_parent [of "tn_key u t cd"] cd(3) by simp
  then show ?thesis using same_key_same_node [OF ok p cd(1)] by simp
qed

lemma forest_ok_deleted:
  assumes ok: "tree_ok u A t" and p: "th_nodes t p = Some nd" and cs: "th_fCaseSensitive t' = th_fCaseSensitive t"
    and N: "th_nodes t' = without_child (tn_pParentNode nd) p (th_nodes t) |` (- subtree u t p)"
  shows "forest_ok u t'"
proof -
  let ?S = "subtree u t p"
  have F: "forest_ok u t" using ok by (simp add: tree_ok_def)
  have k: "tn_key u t' = tn_key u t" using cs by (rule tn_key_cong)
  have new: "th_nodes t' x = Some xd' \<longleftrightarrow> x \<notin> ?S \<and> (\<exists>xd. th_nodes t x = Some xd \<and>
      xd' = xd\<lparr>tn_children := if tn_pParentNode nd = Some x then filter (\<lambda>c. c \<noteq> p) (tn_children xd) else tn_children xd\<rparr>)" for x xd'
    unfolding N restrict_map_def using without_child_fields [of "tn_pParentNode nd" p "th_nodes t" x xd'] by simp
  have "(\<exists>cd. th_nodes t' c = Some cd \<and> tn_pParentNode cd = Some x) \<longleftrightarrow>
      (\<exists>cd. th_nodes t c = Some cd \<and> tn_pParentNode cd = Some x) \<and> c \<notin> ?S" for c x
    by (cases "th_nodes t c") (auto simp add: new)
  then have kids: "child_set t' x = child_set t x - ?S" for x unfolding child_set_def by blast
  show ?thesis
    unfolding forest_ok_def k
  proof (intro allI impI)
    fix x xd' assume "th_nodes t' x = Some xd'"
    then obtain xd where x: "x \<notin> ?S" "th_nodes t x = Some xd" and xd': "xd' = xd\<lparr>tn_children :=
        if tn_pParentNode nd = Some x then filter (\<lambda>c. c \<noteq> p) (tn_children xd) else tn_children xd\<rparr>" unfolding new by blast
    have ke: "tn_key u t xd' = tn_key u t xd" "tn_pParentNode xd' = tn_pParentNode xd"
      by (simp_all add: xd' tn_key_def tn_path_def)
    have old: "parent_is u t (tn_key u t xd) (tn_pParentNode xd)" "distinct (tn_children xd)" "set (tn_children xd) = child_set t x"
      using F x(2) by (auto simp: forest_ok_def)
    have par: "parent_is u t' (tn_key u t xd) (tn_pParentNode xd)"
    proof (cases "parent_path (tn_key u t xd)")
      case (Some a)
      then obtain q qd where q: "tn_pParentNode xd = Some q" "th_nodes t q = Some qd" "tn_key u t qd = a"
        using old(1) by (auto simp: parent_is_def)
      have "tn_key u t nd \<notin> up_to (tn_key u t xd)" using x p by (auto simp: subtree_def)
      then have "q \<notin> ?S" using up_to_parent [of "tn_key u t xd"] Some q(2,3) p by (auto simp: subtree_def)
      then obtain qd' where "th_nodes t' q = Some qd'" "tn_key u t qd' = a" using new q(2,3) by (auto simp: tn_key_def tn_path_def)
      then show ?thesis using Some q(1) k by (simp add: parent_is_def)
    qed (use old(1) in \<open>simp add: parent_is_def\<close>)
    have "child_set t x - ?S = child_set t x - {p}"
      using subtree_parent [OF ok p _ _ x(1)] subtree_self [OF p] by blast
    moreover have "tn_pParentNode nd \<noteq> Some x \<Longrightarrow> p \<notin> child_set t x" using p by (auto simp: child_set_def)
    ultimately have "distinct (tn_children xd') \<and> set (tn_children xd') = child_set t' x"
      unfolding kids xd' using old(2,3) by auto
    then show "parent_is u t' (tn_key u t xd') (tn_pParentNode xd') \<and> distinct (tn_children xd') \<and>
        set (tn_children xd') = child_set t' x" using par ke by simp
  qed
qed

lemma HeapFree_funpow [simp]:
  "heap_calls ((HeapFree ^^ n) w) = heap_calls w" "generous ((HeapFree ^^ n) w) = generous w"
  by (induction n) (simp_all add: HeapFree_def generous_def)

text \<open>The effect of deleting one node, and with it its subtree.\<close>

definition node_deleted :: "(WCHAR \<Rightarrow> WCHAR) \<Rightarrow> WCHAR set \<Rightarrow> 'r tree_table \<Rightarrow> world \<Rightarrow> nat \<Rightarrow> 'r tree_table \<Rightarrow> world \<Rightarrow> bool" where
  "node_deleted u A t w p t' w' \<longleftrightarrow> tree_ok u A t' \<and> tree_same Exclusive t w t' w' \<and> heap_calls w' = heap_calls w \<and>
     th_nBuckets t' = th_nBuckets t \<and> dom (th_nodes t') = dom (th_nodes t) - subtree u t p \<and>
     th_ppBuckets t' = map_option (map (filter (\<lambda>x. x \<notin> subtree u t p))) (th_ppBuckets t) \<and>
     (\<forall>x nd'. th_nodes t' x = Some nd' \<longrightarrow> (\<exists>nd. th_nodes t x = Some nd \<and> tn_pRecord nd' = tn_pRecord nd \<and>
       tn_key u t nd' = tn_key u t nd))"

lemma node_deleted_entries:
  assumes "node_deleted u A t w p t' w'" "th_nodes t p = Some nd"
  shows "tree_entries u t' = {(k, x) \<in> tree_entries u t. tn_key u t nd \<notin> up_to k}"
proof -
  have cs: "tn_key u t' = tn_key u t" using assms(1) by (intro tn_key_cong) (simp add: node_deleted_def tree_same_def)
  have dom: "dom (th_nodes t') = dom (th_nodes t) - subtree u t p"
    and old: "\<And>x nd'. th_nodes t' x = Some nd' \<Longrightarrow> \<exists>nd. th_nodes t x = Some nd \<and> tn_pRecord nd' = tn_pRecord nd \<and>
       tn_key u t nd' = tn_key u t nd" using assms(1) by (auto simp: node_deleted_def)
  have sub: "x \<in> subtree u t p \<longleftrightarrow> tn_key u t nd \<in> up_to (tn_key u t xd)" if "th_nodes t x = Some xd" for x xd
    using that assms(2) by (auto simp: subtree_def)
  have "(\<exists>x xd'. th_nodes t' x = Some xd' \<and> k = tn_key u t xd' \<and> r = tn_pRecord xd') \<longleftrightarrow>
      (\<exists>x xd. th_nodes t x = Some xd \<and> k = tn_key u t xd \<and> r = tn_pRecord xd) \<and> tn_key u t nd \<notin> up_to k" (is "?L \<longleftrightarrow> ?R") for k r
  proof
    assume ?L
    then obtain x xd' where x: "th_nodes t' x = Some xd'" "k = tn_key u t xd'" "r = tn_pRecord xd'" by blast
    then obtain xd where "th_nodes t x = Some xd" "k = tn_key u t xd" "r = tn_pRecord xd" using old by metis
    moreover have "x \<notin> subtree u t p" using dom x(1) by blast
    ultimately show ?R using sub by blast
  next
    assume ?R
    then obtain x xd where x: "th_nodes t x = Some xd" "k = tn_key u t xd" "r = tn_pRecord xd" "tn_key u t nd \<notin> up_to k" by blast
    then have "x \<in> dom (th_nodes t')" using dom sub by blast
    then obtain xd' where "th_nodes t' x = Some xd'" by blast
    then show ?L using old x by (metis option.inject)
  qed
  then show ?thesis unfolding set_eq_iff split_paired_All mem_Collect_eq case_prod_conv in_entries cs by blast
qed

lemma parent_not_below:
  assumes ok: "tree_ok u A t" and p: "th_nodes t p = Some nd" and x: "x \<in> subtree u t p"
  shows "tn_pParentNode nd \<noteq> Some x"
proof
  assume "tn_pParentNode nd = Some x"
  then have "p \<in> child_set t x" using p by (auto simp: child_set_def)
  then obtain xd where "th_nodes t x = Some xd" "parent_path (tn_key u t nd) = Some (tn_key u t xd)"
    using child_parent [OF ok] p by (metis option.inject)
  moreover have "tn_key u t nd \<in> up_to (tn_key u t xd)" using x p calculation(1) by (auto simp: subtree_def)
  ultimately show False using up_to_length parent_path_Some(3) by fastforce
qed

lemma deleted_ledger:
  assumes C: "chains_ok t bs" and S: "S \<subseteq> dom (th_nodes t)"
    and del: "deleted (t\<lparr>th_nodes := without_child q p (th_nodes t)\<rparr>) S t'" (is "deleted ?t S t'")
  shows "tree_same Exclusive t w t' ((HeapFree ^^ card S) w)"
proof -
  note D = chains_okD [OF C]
  have fin: "finite S" using finite_subset [OF S D(8)] .
  obtain ds where T: "th_fCaseSensitive t' = th_fCaseSensitive t" "th_nodes t' = th_nodes ?t |` (- S)"
    "th_ppBuckets t' = map_option (map (filter (\<lambda>x. x \<notin> S))) (th_ppBuckets t)" "th_calls t' = th_calls t @ ds"
    "lock_run Exclusive ds = Some Exclusive" "\<forall>r. balance r ds = - int (card (holders r ?t \<inter> S))"
    using deletedE [OF del] by auto
  have H: "holders r ?t = holders r t" for r
    unfolding holders_def using without_child_fields [of q p "th_nodes t"] by fastforce
  have "tree_refs r t' = tree_refs r t" for r
  proof -
    have "holders r t' = holders r ?t - S" by (auto simp: holders_def T(2) restrict_map_def split: if_splits)
    then have h: "holders r t' = holders r t - S" unfolding H .
    have fh: "finite (holders r t)" by (rule finite_holders [OF D(8)])
    have "card (holders r t) = card (holders r t - S) + card (holders r t \<inter> S)"
      using card_Diff_subset_Int [of "holders r t" S] card_mono [OF fh, of "holders r t \<inter> S"] fh by simp
    then show ?thesis using T(4,6) h by (simp add: tree_refs_holders H)
  qed
  moreover have dom: "dom (th_nodes t') = dom (th_nodes t) - S" unfolding T(2) by auto
  have "card (dom (th_nodes t')) = card (dom (th_nodes t)) - card S" "card S \<le> card (dom (th_nodes t))"
    unfolding dom using card_Diff_subset [OF fin S] card_mono [OF D(8) S] by simp_all
  then have "tree_blocks t' ((HeapFree ^^ card S) w) = tree_blocks t w"
    using T(3) D(1) by (simp add: tree_blocks_def)
  ultimately show ?thesis using T(1,4,5) by (intro tree_same_add [where cs = ds]) simp_all
qed

lemma DeleteNodeInternal_correct:
  assumes ok: "tree_ok u A t" and bs: "th_ppBuckets t = Some bs" "b < length bs" "pos < length (bs ! b)"
    and p: "th_nodes t (bs ! b ! pos) = Some nd" and depth: "card (subtree u t (bs ! b ! pos)) \<le> depth"
  shows "\<exists>t' w'. DeleteNodeInternal depth b pos (bs ! b ! pos) t w = Some (t', w') \<and>
    node_deleted u A t w (bs ! b ! pos) t' w'"
proof -
  define p where "p = bs ! b ! pos"
  note nd = p [folded p_def]
  let ?S = "subtree u t p" and ?N = "without_child (tn_pParentNode nd) p (th_nodes t)"
  obtain bs' where C: "chains_ok t bs'" and St: "store_ok u A t" and F: "forest_ok u t" by (rule tree_okE [OF ok])
  note D = chains_okD [OF C]
  have bb: "bs' = bs" using D(1) bs(1) by simp
  have S: "?S \<subseteq> dom (th_nodes t)" "finite ?S" by (rule subtree_dom, rule finite_subtree [OF ok])
  obtain d where d: "depth = Suc d"
    using depth subtree_self [OF nd, of u] S(2) unfolding p_def [symmetric] by (cases depth) auto
  have "agrees t t ?S"
    unfolding agrees_def using S(1) D(1-4) chains_ok_bucket(2) [OF C] by (force simp: hash_at_def)
  moreover have "\<exists>xd xd'. th_nodes t x = Some xd \<and> ?N x = Some xd' \<and> tn_children xd' = tn_children xd \<and> tn_dwHash xd' = tn_dwHash xd"
    if "x \<in> ?S" for x
  proof -
    have "tn_pParentNode nd \<noteq> Some x" by (rule parent_not_below [OF ok nd that])
    then show ?thesis using that S(1) by (auto simp: without_child_def)
  qed
  ultimately have ag: "agrees t (t\<lparr>th_nodes := ?N\<rparr>) ?S" by (rule agrees_nodes)
  have kids: "\<exists>t'. delete_children d cs t1 w1 = Some (t', (HeapFree ^^ card (\<Union>c\<in>set cs. subtree u t c)) w1) \<and>
      deleted t1 (\<Union>c\<in>set cs. subtree u t c) t'"
    if "agrees t t1 (\<Union>c\<in>set cs. subtree u t c)" "distinct cs" "set cs \<subseteq> child_set t p" for cs t1 w1
  proof (rule delete_children_step [OF ok DeleteNodeInternal_deletes [OF ok] that])
    show "\<forall>c\<in>set cs. card (subtree u t c) \<le> d"
      using child_subtree_smaller [OF ok nd] that(3) depth unfolding d p_def [symmetric] by fastforce
  qed
  have "p \<in> dom (th_nodes t)" using nd by blast
  from delete_node_step [OF ok kids ag bs(1-3) p_def [symmetric] nd this remove_child_correct [OF ok nd], of w]
  obtain t' where R: "DeleteNodeInternal depth b pos p t w = Some (t', (HeapFree ^^ card ?S) w)"
    and del: "deleted (t\<lparr>th_nodes := ?N\<rparr>) ?S t'" unfolding d by auto
  have T: "th_fCaseSensitive t' = th_fCaseSensitive t" "th_nBuckets t' = th_nBuckets t" "th_nodes t' = ?N |` (- ?S)"
    "th_ppBuckets t' = map_option (map (filter (\<lambda>x. x \<notin> ?S))) (th_ppBuckets t)" using del by (auto simp: deleted_def)
  have old: "\<exists>xd. th_nodes t x = Some xd \<and> tn_pszPath xd' = tn_pszPath xd \<and> tn_dwHash xd' = tn_dwHash xd \<and>
      tn_pRecord xd' = tn_pRecord xd" if "?N x = Some xd'" for x xd'
    using that unfolding without_child_fields by auto
  have new: "?N x = Some xd'" if "th_nodes t' x = Some xd'" for x xd' using that T(3) by (simp add: restrict_map_def split: if_splits)
  have "chains_ok t' (map (filter (\<lambda>x. x \<notin> ?S)) bs')"
    by (rule chains_ok_deleted [OF C _ _ S(1) del]) (use old in auto)
  moreover have "store_ok u A t'" by (rule store_ok_deleted [OF St T(1)]) (use old new in blast)
  moreover have "forest_ok u t'" by (rule forest_ok_deleted [OF ok nd T(1,3)])
  ultimately have ok': "tree_ok u A t'" by (auto simp: tree_ok_def)
  have dom: "dom (th_nodes t') = dom (th_nodes t) - ?S" unfolding T(3) by auto
  have same: "tree_same Exclusive t w t' ((HeapFree ^^ card ?S) w)" by (rule deleted_ledger [OF C S(1) del])
  have "\<exists>xd. th_nodes t x = Some xd \<and> tn_pRecord xd' = tn_pRecord xd \<and> tn_key u t xd' = tn_key u t xd"
    if "th_nodes t' x = Some xd'" for x xd'
    using old [OF new [OF that]] by (auto simp: tn_key_def tn_path_def)
  then have "node_deleted u A t w p t' ((HeapFree ^^ card ?S) w)"
    unfolding node_deleted_def using ok' same T(2,4) dom by simp
  then show ?thesis using R unfolding p_def by blast
qed

lemma tree_depth_enough:
  assumes "tree_ok u A t"
  shows "card (subtree u t p) \<le> tree_depth t"
proof -
  obtain bs where "chains_ok t bs" using assms by (rule tree_okE)
  note D = chains_okD [OF this]
  have "card (subtree u t p) \<le> card (dom (th_nodes t))" by (rule card_mono [OF D(8) subtree_dom])
  then show ?thesis using D(1,5) distinct_card [OF D(4)] by (simp add: tree_depth_def)
qed

end
