(* ===== verification/TreeOps.thy ===== *)
theory TreeOps
  imports TreeDelete
begin

text \<open>
  The operations of TREE_HASH_TABLE as a client sees them: Initialize, FindKey, DeleteKey, DeleteIf,
  Clear and Apply on a table that satisfies the invariant, and the runs made of them. Each returns a
  table that satisfies the invariant again, with the entries its name promises.
\<close>

section \<open>Initialize and FindKey\<close>

lemma tree_Initialize_correct:
  assumes "0 < n" "n < MAXDWORD div sizeof_pointer" "\<not> FAILED lock_hr"
  shows "\<exists>hr t w'. tree_Initialize lock_hr n (tree_ctor cs :: 'r tree_table) w = (hr, t, w') \<and>
    (hr = S_OK \<longrightarrow> tree_ok u A t \<and> tree_entries u t = {} \<and> fresh_ok t w' \<and> th_calls t = [] \<and>
       th_fCaseSensitive t = cs \<and> tree_blocks t w' = heap_live w) \<and>
    (hr \<noteq> S_OK \<longrightarrow> hr = HRESULT_FROM_WIN32 ERROR_NOT_ENOUGH_MEMORY \<and> th_ppBuckets t = None \<and> heap_live w' = heap_live w) \<and>
    (generous w \<longrightarrow> hr = S_OK \<and> generous w')"
proof -
  obtain g w1 where g: "heap_request (n * sizeof_pointer) w = (g, w1)" by fastforce
  note G = heap_request_facts [OF g]
  define t1 :: "'r tree_table" where "t1 = (tree_ctor cs)\<lparr>th_ppBuckets := Some (replicate n []), th_nBuckets := n\<rparr>"
  define t0 :: "'r tree_table" where "t0 = (tree_ctor cs)\<lparr>th_ppBuckets := None\<rparr>"
  have R: "tree_Initialize lock_hr n (tree_ctor cs) w
      = (if g then (S_OK, t1, w1) else (HRESULT_FROM_WIN32 ERROR_NOT_ENOUGH_MEMORY, t0, w1))"
    using assms g by (simp add: tree_Initialize_def Let_def t1_def t0_def)
  show ?thesis
  proof (cases g)
    case True
    have "chains_ok t1 (replicate n [])"
      using assms(1,2) by (simp add: chains_ok_def t1_def tree_ctor_def bucket_ok_def concat_replicate_trivial)
    then have "tree_ok u A t1" by (auto simp: tree_ok_def store_ok_def forest_ok_def tree_ctor_def t1_def)
    moreover have "tree_entries u t1 = {}" "fresh_ok t1 w1" "th_calls t1 = []" "th_fCaseSensitive t1 = cs"
      "tree_blocks t1 w1 = heap_live w1 - 1"
      by (simp_all add: tree_entries_def fresh_ok_def tree_blocks_def tree_ctor_def t1_def)
    ultimately show ?thesis using R True G
      by (intro exI [of _ S_OK] exI [of _ t1] exI [of _ w1]) simp
  next
    case False
    have "th_ppBuckets t0 = None" by (simp add: t0_def)
    then show ?thesis using R False G
      by (intro exI [of _ "HRESULT_FROM_WIN32 ERROR_NOT_ENOUGH_MEMORY"] exI [of _ t0] exI [of _ w1]) (simp, blast)
  qed
qed

lemma tree_FindKey_correct:
  assumes ok: "tree_ok u A t" "case_ok u A t" "set (cstr key) \<subseteq> A"
  shows "\<exists>r t'. tree_FindKey u key t = Some (r, t') \<and>
    t' = th_emit (SharedAcquire # ref_of r @ [SharedRelease]) t \<and>
    (\<forall>x. r = Some x \<longleftrightarrow> (tree_norm u t (cstr key), Some x) \<in> tree_entries u t)"
proof -
  let ?t1 = "th_emit [SharedAcquire] t"
  have e: "(case r of Some x \<Rightarrow> th_emit [ReferenceRecord x] ?t1 | None \<Rightarrow> ?t1) = th_emit (SharedAcquire # ref_of r) t" for r
    by (cases r) (simp_all add: ref_of_def th_emit_def)
  have e2: "th_emit [SharedRelease] (th_emit (SharedAcquire # cs) t) = th_emit (SharedAcquire # cs @ [SharedRelease]) t" for cs
    by (simp add: th_emit_def)
  show ?thesis
  proof (rule FindNode_cases [of u A ?t1 key])
    fix bs b pos p nd
    assume F: "tree_FindNodeInternal u key (CalcHash ?t1 key) ?t1 = Some (True, b, pos, Some p)"
      "th_nodes ?t1 p = Some nd" "tn_key u ?t1 nd = tree_norm u ?t1 (cstr key)"
    then have i: "(tree_norm u t (cstr key), x) \<in> tree_entries u t \<longleftrightarrow> x = tn_pRecord nd" for x
      using entry_unique [OF ok(1), of p nd x] by simp
    have "tree_FindKey u key t = Some (tn_pRecord nd, th_emit (SharedAcquire # ref_of (tn_pRecord nd) @ [SharedRelease]) t)"
      using F(1,2) by (simp add: tree_FindKey_def e e2)
    then show ?thesis by (simp add: i eq_commute)
  next
    fix bs b pos q
    assume F: "tree_FindNodeInternal u key (CalcHash ?t1 key) ?t1 = Some (False, b, pos, q)"
      "\<And>p nd. th_nodes ?t1 p = Some nd \<Longrightarrow> tn_key u ?t1 nd \<noteq> tree_norm u ?t1 (cstr key)"
    have i: "(tree_norm u t (cstr key), x) \<notin> tree_entries u t" for x unfolding in_entries using F(2) by fastforce
    have "tree_FindKey u key t = Some (None, th_emit (SharedAcquire # ref_of None @ [SharedRelease]) t)"
      using F(1) e [of None] e2 [of "[]"] by (simp add: tree_FindKey_def ref_of_def)
    then show ?thesis by (simp add: i)
  qed (use ok in simp_all)
qed

section \<open>DeleteKey\<close>

lemma tree_same_exclusive:
  assumes "tree_same Exclusive (th_emit [ExclusiveAcquire] t) w t' w'"
  shows "tree_same Free t w (th_emit [ExclusiveRelease] t') w'"
proof -
  obtain cs where cs: "th_calls t' = th_calls t @ ExclusiveAcquire # cs" "lock_run Exclusive cs = Some Exclusive"
    using assms by (auto simp: tree_same_def)
  have "tree_refs r (th_emit [ExclusiveRelease] t') = tree_refs r t" for r
  proof -
    have "tree_refs r t' = tree_refs r (th_emit [ExclusiveAcquire] t)" using assms by (simp add: tree_same_def)
    then show ?thesis by (simp add: tree_refs_def)
  qed
  then show ?thesis
    by (rule tree_same_add [where cs = "ExclusiveAcquire # cs @ [ExclusiveRelease]"])
       (use assms cs in \<open>simp_all add: tree_same_def lock_run_append tree_blocks_def\<close>)
qed

lemma tree_DeleteKey_correct:
  assumes ok: "tree_ok u A t" "case_ok u A t" "set (cstr key) \<subseteq> A"
  shows "\<exists>t' w'. tree_DeleteKey u key t w = Some (t', w') \<and> tree_ok u A t' \<and> tree_same Free t w t' w' \<and>
    dom (th_nodes t') \<subseteq> dom (th_nodes t) \<and>
    tree_entries u t' = {(k, x) \<in> tree_entries u t. tree_norm u t (cstr key) \<notin> up_to k}"
proof -
  let ?t1 = "th_emit [ExclusiveAcquire] t"
  show ?thesis
  proof (rule FindNode_cases [of u A ?t1 key])
    fix bs b pos p nd
    assume F: "tree_FindNodeInternal u key (CalcHash ?t1 key) ?t1 = Some (True, b, pos, Some p)"
      and bs: "th_ppBuckets ?t1 = Some bs" "b < length bs" "pos < length (bs ! b)" "bs ! b ! pos = p"
      and nd: "th_nodes ?t1 p = Some nd" "tn_key u ?t1 nd = tree_norm u ?t1 (cstr key)"
    have ok1: "tree_ok u A ?t1" using ok by simp
    have "\<exists>t2 w2. DeleteNodeInternal (tree_depth ?t1) b pos p ?t1 w = Some (t2, w2) \<and> node_deleted u A ?t1 w p t2 w2"
      using DeleteNodeInternal_correct [OF ok1 bs(1-3), of nd "tree_depth ?t1" w] nd(1) bs(4) tree_depth_enough [OF ok1]
      by simp
    then obtain t2 w2 where D: "DeleteNodeInternal (tree_depth ?t1) b pos p ?t1 w = Some (t2, w2)"
      "node_deleted u A ?t1 w p t2 w2" by blast
    have "tree_entries u t2 = {(k, x) \<in> tree_entries u t. tree_norm u t (cstr key) \<notin> up_to k}"
      using node_deleted_entries [OF D(2) nd(1)] nd(2) by simp
    then show ?thesis using F D tree_same_exclusive
      by (auto simp: tree_DeleteKey_def node_deleted_def)
  next
    fix bs b pos q
    assume F: "tree_FindNodeInternal u key (CalcHash ?t1 key) ?t1 = Some (False, b, pos, q)"
      "\<And>p nd. th_nodes ?t1 p = Some nd \<Longrightarrow> tn_key u ?t1 nd \<noteq> tree_norm u ?t1 (cstr key)"
    have "tree_norm u t (cstr key) \<notin> up_to k" if e: "(k, x) \<in> tree_entries u t" for k x
    proof
      assume up: "tree_norm u t (cstr key) \<in> up_to k"
      obtain p nd where "th_nodes t p = Some nd" "k = tn_key u t nd" using e by (auto simp: in_entries)
      then have "tree_norm u t (cstr key) \<in> fst ` tree_entries u t" using entries_closed [OF ok(1)] up by blast
      then show False using F(2) by (auto simp: in_fst_entries)
    qed
    then have "{(k, x) \<in> tree_entries u t. tree_norm u t (cstr key) \<notin> up_to k} = tree_entries u t" by auto
    moreover have "tree_same Free t w (th_emit [ExclusiveRelease] ?t1) w" by (rule tree_same_exclusive) simp
    ultimately show ?thesis using F(1) ok(1) by (simp add: tree_DeleteKey_def)
  qed (use ok in simp_all)
qed

section \<open>DeleteIf\<close>

lemma leaf_subtree:
  assumes "tree_ok u A t" "th_nodes t p = Some nd" "tn_children nd = []"
  shows "subtree u t p = {p}"
proof -
  have "set (tn_children nd) = child_set t p" using assms(1,2) by (simp add: tree_ok_def forest_ok_def)
  then have "child_set t p = {}" using assms(3) by simp
  then show ?thesis using subtree_children [OF assms(1,2)] by simp
qed

text \<open>From \<open>t\<close> to \<open>t'\<close> nodes and records have gone, but no record that the predicate refuses in every context.\<close>

definition swept :: "('r \<Rightarrow> 'c \<Rightarrow> bool \<times> 'c) \<Rightarrow> (WCHAR \<Rightarrow> WCHAR) \<Rightarrow> 'r tree_table \<Rightarrow> 'r tree_table \<Rightarrow> bool" where
  "swept f u t t' \<longleftrightarrow> th_nBuckets t' = th_nBuckets t \<and>
     th_ppBuckets t' = map_option (map (filter (\<lambda>x. x \<in> dom (th_nodes t')))) (th_ppBuckets t) \<and>
     (\<forall>x nd'. th_nodes t' x = Some nd' \<longrightarrow> (\<exists>nd. th_nodes t x = Some nd \<and> tn_key u t nd' = tn_key u t nd \<and>
        (tn_pRecord nd' = tn_pRecord nd \<or> tn_pRecord nd' = None))) \<and>
     (\<forall>x nd r. th_nodes t x = Some nd \<longrightarrow> tn_pRecord nd = Some r \<longrightarrow> (\<forall>c. \<not> fst (f r c)) \<longrightarrow>
        (\<exists>nd'. th_nodes t' x = Some nd' \<and> tn_pRecord nd' = Some r))"

definition decided :: "('r \<Rightarrow> 'c \<Rightarrow> bool \<times> 'c) \<Rightarrow> 'r tree_table \<Rightarrow> nat set \<Rightarrow> bool" where
  "decided f t D \<longleftrightarrow> (\<forall>x\<in>D. \<forall>nd r. th_nodes t x = Some nd \<longrightarrow> tn_pRecord nd = Some r \<longrightarrow> (\<exists>c. \<not> fst (f r c)))"

lemma swept_dom: "swept f u t t' \<Longrightarrow> dom (th_nodes t') \<subseteq> dom (th_nodes t)"
  unfolding swept_def by blast

lemma swept_refl:
  assumes "tree_ok u A t"
  shows "swept f u t t"
proof -
  obtain bs where "chains_ok t bs" using assms by (rule tree_okE)
  note D = chains_okD [OF this]
  have "map (filter (\<lambda>x. x \<in> dom (th_nodes t))) bs = bs"
    unfolding D(5) [symmetric] by (rule map_idI) (auto simp: filter_id_conv)
  then show ?thesis using D(1) by (simp add: swept_def)
qed

lemma swept_trans:
  assumes 1: "swept f u t t1" and 2: "swept f u t1 t2" and cs: "th_fCaseSensitive t1 = th_fCaseSensitive t"
  shows "swept f u t t2"
proof -
  have k: "tn_key u t1 = tn_key u t" by (rule tn_key_cong [OF cs])
  have "filter (\<lambda>x. x \<in> dom (th_nodes t2)) (filter (\<lambda>x. x \<in> dom (th_nodes t1)) b) = filter (\<lambda>x. x \<in> dom (th_nodes t2)) b" for b
    unfolding filter_filter using swept_dom [OF 2] by (intro filter_cong) auto
  then have "th_ppBuckets t2 = map_option (map (filter (\<lambda>x. x \<in> dom (th_nodes t2)))) (th_ppBuckets t)"
    using 1 2 by (cases "th_ppBuckets t") (simp_all add: swept_def)
  moreover have "\<exists>nd. th_nodes t x = Some nd \<and> tn_key u t nd' = tn_key u t nd \<and> (tn_pRecord nd' = tn_pRecord nd \<or> tn_pRecord nd' = None)"
    if x: "th_nodes t2 x = Some nd'" for x nd'
  proof -
    obtain md where md: "th_nodes t1 x = Some md" "tn_key u t nd' = tn_key u t md" "tn_pRecord nd' = tn_pRecord md \<or> tn_pRecord nd' = None"
      using 2 x unfolding swept_def k by blast
    then obtain nd where "th_nodes t x = Some nd" "tn_key u t md = tn_key u t nd" "tn_pRecord md = tn_pRecord nd \<or> tn_pRecord md = None"
      using 1 unfolding swept_def by blast
    then show ?thesis using md by auto
  qed
  ultimately show ?thesis using 1 2 unfolding swept_def k by (simp, blast)
qed

lemma decided_swept: "decided f t D \<Longrightarrow> swept f u t t' \<Longrightarrow> decided f t' D"
  unfolding decided_def swept_def by (metis option.distinct(1))

lemma tree_same_case: "tree_same mode t w t' w' \<Longrightarrow> th_fCaseSensitive t' = th_fCaseSensitive t"
  by (simp add: tree_same_def)

lemma swept_leaf:
  assumes nd: "node_deleted u A t w p t' w'" "subtree u t p = {p}" "tree_ok u A t" "th_nodes t p = Some pd"
    and out: "\<And>r. tn_pRecord pd = Some r \<Longrightarrow> \<exists>c. fst (f r c)"
  shows "swept f u t t'"
proof -
  obtain bs where "chains_ok t bs" using assms(3) by (rule tree_okE)
  note D = chains_okD [OF this]
  have N: "th_nBuckets t' = th_nBuckets t" "dom (th_nodes t') = dom (th_nodes t) - {p}"
    "th_ppBuckets t' = Some (map (filter (\<lambda>x. x \<noteq> p)) bs)"
    and old: "\<And>x nd'. th_nodes t' x = Some nd' \<Longrightarrow> \<exists>nd. th_nodes t x = Some nd \<and> tn_pRecord nd' = tn_pRecord nd \<and>
       tn_key u t nd' = tn_key u t nd"
    using nd(1) D(1) unfolding node_deleted_def nd(2) by auto
  have "filter (\<lambda>x. x \<noteq> p) b = filter (\<lambda>x. x \<in> dom (th_nodes t')) b" if "b \<in> set bs" for b
    by (rule filter_cong) (use that N(2) D(5) in auto)
  then have "th_ppBuckets t' = map_option (map (filter (\<lambda>x. x \<in> dom (th_nodes t')))) (th_ppBuckets t)"
    using N(3) D(1) by simp
  moreover have "\<exists>nd'. th_nodes t' x = Some nd' \<and> tn_pRecord nd' = Some r"
    if x: "th_nodes t x = Some nd" "tn_pRecord nd = Some r" "\<forall>c. \<not> fst (f r c)" for x nd r
  proof -
    have "x \<noteq> p" using x nd(4) out by auto
    then have "x \<in> dom (th_nodes t')" using N(2) x(1) by blast
    then obtain nd' where "th_nodes t' x = Some nd'" by blast
    then show ?thesis using old x(1,2) by fastforce
  qed
  ultimately show ?thesis unfolding swept_def using N(1) old by blast
qed

lemma swept_drop:
  assumes "tree_ok u A t" "th_nodes t p = Some pd" "tn_pRecord pd = Some r0" "fst (f r0 c)"
  shows "swept f u t (th_emit [DereferenceRecord r0] (set_node p (pd\<lparr>tn_pRecord := None\<rparr>) t))"
proof -
  obtain bs where "chains_ok t bs" using assms(1) by (rule tree_okE)
  note D = chains_okD [OF this]
  have dom: "insert p (dom (th_nodes t)) = dom (th_nodes t)" using assms(2) by auto
  have "map (filter (\<lambda>x. x \<in> dom (th_nodes t))) bs = bs"
    unfolding D(5) [symmetric] by (rule map_idI) (auto simp: filter_id_conv)
  then have "th_ppBuckets t = map_option (map (filter (\<lambda>x. x \<in> insert p (dom (th_nodes t))))) (th_ppBuckets t)"
    unfolding dom using D(1) by simp
  then show ?thesis
    unfolding swept_def using assms(2-4) by (auto simp: tn_key_def tn_path_def)
qed

lemma drop_same:
  assumes "tree_ok u A t" "th_nodes t p = Some pd" "tn_pRecord pd = Some r0"
  defines "t' \<equiv> th_emit [DereferenceRecord r0] (set_node p (pd\<lparr>tn_pRecord := None\<rparr>) t)"
  shows "tree_same Exclusive t w t' w"
proof (rule tree_same_add [where cs = "[DereferenceRecord r0]"])
  obtain bs where "chains_ok t bs" using assms(1) by (rule tree_okE)
  note D = chains_okD [OF this]
  show "tree_refs x t' = tree_refs x t" for x
  proof -
    have h: "holders x t' = (if x = r0 then holders x t - {p} else holders x t)"
      unfolding t'_def holders_def using assms(2,3) by auto
    have "p \<in> holders r0 t" using assms(2,3) by (simp add: holders_def)
    then have "Suc (card (holders r0 t - {p})) = card (holders r0 t)"
      by (rule card_Suc_Diff1 [OF finite_holders [OF D(8)]])
    then show ?thesis by (simp add: tree_refs_holders h) (simp add: t'_def)
  qed
  have "insert p (dom (th_nodes t)) = dom (th_nodes t)" using assms(2) by auto
  then show "tree_blocks t' w = tree_blocks t w" by (simp add: tree_blocks_def t'_def)
qed (simp_all add: t'_def)

lemma walk_leaf:
  assumes ok: "tree_ok u A t" and bs: "th_ppBuckets t = Some bs" "i < length bs" "pos < length (bs ! i)"
    and nd: "th_nodes t (bs ! i ! pos) = Some nd" "tn_children nd = []"
    and out: "\<And>r. tn_pRecord nd = Some r \<Longrightarrow> \<exists>c. fst (f r c)"
  shows "\<exists>t1 w1 bs1. DeleteNodeInternal (tree_depth t) i pos (bs ! i ! pos) t w = Some (t1, w1) \<and> tree_ok u A t1 \<and>
    tree_same Exclusive t w t1 w1 \<and> swept f u t t1 \<and> bs ! i ! pos \<notin> dom (th_nodes t1) \<and>
    th_ppBuckets t1 = Some bs1 \<and> length bs1 = length bs \<and> bs1 ! i = take pos (bs ! i) @ drop (Suc pos) (bs ! i)"
proof -
  obtain bs' where "chains_ok t bs'" using ok by (rule tree_okE)
  note D = chains_okD [OF this]
  have sub: "subtree u t (bs ! i ! pos) = {bs ! i ! pos}" by (rule leaf_subtree [OF ok nd])
  obtain t1 w1 where R: "DeleteNodeInternal (tree_depth t) i pos (bs ! i ! pos) t w = Some (t1, w1)"
    "node_deleted u A t w (bs ! i ! pos) t1 w1"
    using DeleteNodeInternal_correct [OF ok bs nd(1) tree_depth_enough [OF ok], of w] by blast
  have B: "th_ppBuckets t1 = Some (map (filter (\<lambda>x. x \<noteq> bs ! i ! pos)) bs)" "bs ! i ! pos \<notin> dom (th_nodes t1)"
    "tree_ok u A t1" "tree_same Exclusive t w t1 w1"
    using R(2) bs(1) unfolding node_deleted_def sub by auto
  have "distinct (bs ! i)" using D(1,4) bs(1,2) by (auto simp: distinct_concat_iff)
  then have "map (filter (\<lambda>x. x \<noteq> bs ! i ! pos)) bs ! i = take pos (bs ! i) @ drop (Suc pos) (bs ! i)"
    using take_drop_filter [of "bs ! i" pos] bs(2,3) by simp
  then show ?thesis using R(1) B swept_leaf [OF R(2) sub ok nd(1) out] by simp
qed

lemma delete_if_walk_correct:
  assumes "tree_ok u A t" "th_ppBuckets t = Some bs" "i < length bs" "pos \<le> length (bs ! i)"
  shows "\<exists>t' c' w'. delete_if_walk f i pos t c w = Some (t', c', w') \<and> tree_ok u A t' \<and>
    tree_same Exclusive t w t' w' \<and> swept f u t t' \<and> decided f t' (set (drop pos (bs ! i)))"
  using assms
proof (induction "2 * (length (bs ! i) - pos) +
    (if pos < length (bs ! i) \<and> tn_pRecord (the (th_nodes t (bs ! i ! pos))) \<noteq> None then 1 else 0)"
    arbitrary: bs pos t c w rule: less_induct)
  case less
  note ok = less.prems(1) and bs = less.prems(2,3)
  show ?case
  proof (cases "pos < length (bs ! i)")
    case False
    then show ?thesis using swept_refl [OF ok, of f] bs ok
      by (subst delete_if_walk.simps) (simp add: mem_get_Some decided_def)
  next
    case pos: True
    obtain bs' where "chains_ok t bs'" using ok by (rule tree_okE)
    note D = chains_okD [OF this]
    let ?p = "bs ! i ! pos"
    have "?p \<in> dom (th_nodes t)" unfolding D(5) [symmetric] using in_chain [OF bs(2) nth_mem [OF pos]] D(1) bs(1) by simp
    then obtain nd where nd: "th_nodes t ?p = Some nd" by blast
    obtain del c1 where F: "(case tn_pRecord nd of Some r \<Rightarrow> f r c | None \<Rightarrow> (tn_children nd = [], c)) = (del, c1)" by fastforce
    have step: "delete_if_walk f i pos t c w = (if del then
         (if tn_children nd = [] then do {
            (t1, w1) \<leftarrow> DeleteNodeInternal (tree_depth t) i pos ?p t w;
            delete_if_walk f i pos t1 c1 w1 }
          else do {
            r \<leftarrow> tn_pRecord nd;
            delete_if_walk f i pos (th_emit [DereferenceRecord r] (set_node ?p (nd\<lparr>tn_pRecord := None\<rparr>) t)) c1 w })
       else delete_if_walk f i (pos + 1) t c1 w)"
      by (subst delete_if_walk.simps) (simp add: bs pos nd F mem_get_Some)
    have slack: "a + (if P then 1 else 0) < b + (if Q then 1 else 0 :: nat)" if "a + 1 < b" for a b P Q
      using that by (cases P; cases Q) simp_all
    have cons: "drop pos (bs ! i) = ?p # drop (Suc pos) (bs ! i)" using pos by (rule Cons_nth_drop_Suc [symmetric])
    consider (leaf) "del" "tn_children nd = []" | (inner) r where "del" "tn_children nd \<noteq> []" "tn_pRecord nd = Some r"
      | (keep) "\<not> del" using F by (cases "tn_pRecord nd") auto
    then show ?thesis
    proof cases
      case leaf
      have "\<exists>c. fst (f r c)" if "tn_pRecord nd = Some r" for r using that F leaf(1) by (intro exI [of _ c]) simp
      from walk_leaf [where f = f and w = w, OF ok bs pos nd leaf(2) this] obtain t1 w1 bs1 where
        L: "DeleteNodeInternal (tree_depth t) i pos ?p t w = Some (t1, w1)" "tree_ok u A t1"
          "tree_same Exclusive t w t1 w1" "swept f u t t1" "?p \<notin> dom (th_nodes t1)" "th_ppBuckets t1 = Some bs1"
          "length bs1 = length bs" "bs1 ! i = take pos (bs ! i) @ drop (Suc pos) (bs ! i)" by blast
      have "2 * (length (bs1 ! i) - pos) + 1 < 2 * (length (bs ! i) - pos)" "i < length bs1" "pos \<le> length (bs1 ! i)" "drop pos (bs1 ! i) = drop (Suc pos) (bs ! i)"
        using L(7,8) pos bs(2) by simp_all
      then obtain t' c' w' where
        W: "delete_if_walk f i pos t1 c1 w1 = Some (t', c', w')" "tree_ok u A t'" "tree_same Exclusive t1 w1 t' w'"
          "swept f u t1 t'" "decided f t' (set (drop (Suc pos) (bs ! i)))"
        using less.hyps [OF _ L(2,6), of pos c1 w1] slack by metis
      have "th_nodes t' ?p = None" using swept_dom [OF W(4)] L(5) by blast
      then have "decided f t' (set (drop pos (bs ! i)))" unfolding cons using W(5) by (simp add: decided_def)
      then show ?thesis using step leaf L(1) W(1,2) tree_same_trans [OF L(3) W(3)]
          swept_trans [OF L(4) W(4) tree_same_case [OF L(3)]] by simp
    next
      case inner
      let ?t1 = "th_emit [DereferenceRecord r] (set_node ?p (nd\<lparr>tn_pRecord := None\<rparr>) t)"
      have d: "fst (f r c)" using F inner by simp
      have S: "tree_ok u A ?t1" "tree_same Exclusive t w ?t1 w" "swept f u t ?t1"
        using set_record(1) [OF ok nd, of None] drop_same [OF ok nd inner(3)] swept_drop [OF ok nd inner(3), of f c, OF d] by simp_all
      have "th_ppBuckets ?t1 = Some bs" using bs(1) by simp
      from less.hyps [OF _ S(1) this bs(2), of pos c1 w] pos nd inner(3) obtain t' c' w' where
        W: "delete_if_walk f i pos ?t1 c1 w = Some (t', c', w')" "tree_ok u A t'" "tree_same Exclusive ?t1 w t' w'"
          "swept f u ?t1 t'" "decided f t' (set (drop pos (bs ! i)))" by auto
      show ?thesis using step inner W(1,2,5) tree_same_trans [OF S(2) W(3)]
          swept_trans [OF S(3) W(4) tree_same_case [OF S(2)]] by simp
    next
      case keep
      have "2 * (length (bs ! i) - Suc pos) + 1 < 2 * (length (bs ! i) - pos)" "Suc pos \<le> length (bs ! i)" using pos by simp_all
      then obtain t' c' w' where
        W: "delete_if_walk f i (Suc pos) t c1 w = Some (t', c', w')" "tree_ok u A t'" "tree_same Exclusive t w t' w'"
          "swept f u t t'" "decided f t' (set (drop (Suc pos) (bs ! i)))"
        using less.hyps [OF _ ok bs, of "Suc pos" c1 w] slack by metis
      have "\<exists>c. \<not> fst (f r c)" if "tn_pRecord nd = Some r" for r using that F keep by (intro exI [of _ c]) simp
      then have "decided f t {?p}" using nd by (simp add: decided_def)
      then have "decided f t' {?p}" using W(4) by (rule decided_swept)
      then have "decided f t' (set (drop pos (bs ! i)))" using W(5) unfolding cons decided_def by simp
      then show ?thesis using step keep W(1-4) by simp
    qed
  qed
qed

lemma delete_if_loop_correct:
  assumes "tree_ok u A t" "th_ppBuckets t = Some bs" "length bs = i + left"
  shows "\<exists>t' c' w'. tree_delete_if_loop f i left t c w = Some (t', c', w') \<and> tree_ok u A t' \<and>
    tree_same Exclusive t w t' w' \<and> swept f u t t' \<and> decided f t' (set (concat (drop i bs)))"
  using assms
proof (induction left arbitrary: i bs t c w)
  case 0
  then show ?case using swept_refl [OF 0(1), of f] by (simp add: decided_def)
next
  case (Suc left)
  have i: "i < length bs" using Suc.prems(3) by simp
  obtain t1 c1 w1 where W: "delete_if_walk f i 0 t c w = Some (t1, c1, w1)" "tree_ok u A t1" "tree_same Exclusive t w t1 w1"
    "swept f u t t1" "decided f t1 (set (bs ! i))"
    using delete_if_walk_correct [OF Suc.prems(1,2) i le0, where f = f and c = c and w = w] by auto
  let ?bs1 = "map (filter (\<lambda>x. x \<in> dom (th_nodes t1))) bs"
  have "th_ppBuckets t1 = Some ?bs1" using W(4) Suc.prems(2) by (simp add: swept_def)
  moreover have "length ?bs1 = Suc i + left" using Suc.prems(3) by simp
  ultimately obtain t' c' w' where L: "tree_delete_if_loop f (Suc i) left t1 c1 w1 = Some (t', c', w')" "tree_ok u A t'"
    "tree_same Exclusive t1 w1 t' w'" "swept f u t1 t'" "decided f t' (set (concat (drop (Suc i) ?bs1)))"
    using Suc.IH [where t = t1 and bs = ?bs1 and i = "Suc i" and c = c1 and w = w1] W(2) by blast
  have "concat (drop (Suc i) ?bs1) = filter (\<lambda>x. x \<in> dom (th_nodes t1)) (concat (drop (Suc i) bs))"
    by (simp add: filter_concat drop_map)
  then have "decided f t' (set (concat (drop (Suc i) bs)) \<inter> dom (th_nodes t1))" using L(5) by (simp add: Int_def)
  then have "decided f t' (set (concat (drop (Suc i) bs)))" using swept_dom [OF L(4)] unfolding decided_def by blast
  moreover have "decided f t' (set (bs ! i))" using decided_swept [OF W(5) L(4)] .
  moreover have "set (concat (drop i bs)) = set (bs ! i) \<union> set (concat (drop (Suc i) bs))"
    using Cons_nth_drop_Suc [OF i, symmetric] by (metis concat.simps(2) set_append)
  ultimately have "decided f t' (set (concat (drop i bs)))" unfolding decided_def by blast
  then show ?case using W(1) L(1,2) tree_same_trans [OF W(3) L(3)]
      swept_trans [OF W(4) L(4) tree_same_case [OF W(3)]] by simp
qed

lemma tree_DeleteIf_correct:
  assumes ok: "tree_ok u A t"
  shows "\<exists>t' c' w'. tree_DeleteIf f c t w = Some (t', c', w') \<and> tree_ok u A t' \<and> tree_same Free t w t' w' \<and>
    dom (th_nodes t') \<subseteq> dom (th_nodes t) \<and> fst ` tree_entries u t' \<subseteq> fst ` tree_entries u t \<and>
    (\<forall>k r. (k, Some r) \<in> tree_entries u t' \<longrightarrow> (k, Some r) \<in> tree_entries u t \<and> (\<exists>c. \<not> fst (f r c))) \<and>
    (\<forall>k r. (k, Some r) \<in> tree_entries u t \<longrightarrow> (\<forall>c. \<not> fst (f r c)) \<longrightarrow> (k, Some r) \<in> tree_entries u t')"
proof -
  obtain bs where C: "chains_ok t bs" using ok by (rule tree_okE)
  note D = chains_okD [OF C]
  let ?t1 = "th_emit [ExclusiveAcquire] t"
  have "tree_ok u A ?t1" "th_ppBuckets ?t1 = Some bs" "length bs = 0 + th_nBuckets t" using ok D(1,2) by simp_all
  from delete_if_loop_correct [OF this, where f = f and c = c and w = w] obtain t' c' w' where
    L: "tree_delete_if_loop f 0 (th_nBuckets t) ?t1 c w = Some (t', c', w')" "tree_ok u A t'"
      "tree_same Exclusive ?t1 w t' w'" "swept f u ?t1 t'" "decided f t' (set (concat bs))" by auto
  have k: "tn_key u t' = tn_key u t" using tree_same_case [OF L(3)] by (intro tn_key_cong) simp
  have dom: "dom (th_nodes t') \<subseteq> dom (th_nodes t)" using swept_dom [OF L(4)] by simp
  have old: "\<exists>nd. th_nodes t x = Some nd \<and> tn_key u t nd' = tn_key u t nd \<and>
      (tn_pRecord nd' = tn_pRecord nd \<or> tn_pRecord nd' = None)" if "th_nodes t' x = Some nd'" for x nd'
    using L(4) that by (simp add: swept_def)
  have "decided f t' (dom (th_nodes t))" using L(5) D(5) by simp
  then have out: "\<exists>c. \<not> fst (f r c)" if "th_nodes t' x = Some nd'" "tn_pRecord nd' = Some r" for x nd' r
    using that dom unfolding decided_def by blast
  have "fst ` tree_entries u t' \<subseteq> fst ` tree_entries u t"
    unfolding subset_iff in_fst_entries k using old by metis
  moreover have "(k', Some r) \<in> tree_entries u t \<and> (\<exists>c. \<not> fst (f r c))" if e: "(k', Some r) \<in> tree_entries u t'" for k' r
  proof -
    obtain x nd' where x: "th_nodes t' x = Some nd'" "k' = tn_key u t nd'" "tn_pRecord nd' = Some r"
      using e unfolding in_entries k by metis
    then show ?thesis using old [OF x(1)] out [OF x(1,3)] unfolding in_entries by (metis option.distinct(1))
  qed
  moreover have "(k', Some r) \<in> tree_entries u t'" if e: "(k', Some r) \<in> tree_entries u t" "\<forall>c. \<not> fst (f r c)" for k' r
  proof -
    obtain x nd where x: "th_nodes t x = Some nd" "k' = tn_key u t nd" "tn_pRecord nd = Some r"
      using e(1) unfolding in_entries by metis
    then obtain nd' where "th_nodes t' x = Some nd'" "tn_pRecord nd' = Some r" using L(4) e(2) unfolding swept_def th_emit_simps by blast
    then show ?thesis using old x unfolding in_entries k by (metis option.inject)
  qed
  ultimately show ?thesis using L(1,2) tree_same_exclusive [OF L(3)] dom by (simp add: tree_DeleteIf_def)
qed

section \<open>Clear\<close>

lemma tree_delete_chain_append:
  "tree_delete_chain (xs @ ys) t w = do { (t1, w1) \<leftarrow> tree_delete_chain xs t w; tree_delete_chain ys t1 w1 }"
  by (induction xs arbitrary: t w) (simp_all split: bind_splits)

lemma tree_delete_chain_buckets:
  "tree_delete_chain xs (t\<lparr>th_ppBuckets := b\<rparr>) w = map_option (\<lambda>(t1, w1). (t1\<lparr>th_ppBuckets := b\<rparr>, w1)) (tree_delete_chain xs t w)"
proof (induction xs arbitrary: t w)
  case (Cons x xs)
  have "tree_DeleteNode x (t\<lparr>th_ppBuckets := b\<rparr>) w = map_option (\<lambda>(t1, w1). (t1\<lparr>th_ppBuckets := b\<rparr>, w1)) (tree_DeleteNode x t w)"
    by (cases "th_nodes t x") (simp_all add: tree_DeleteNode_def th_emit_def Let_def split: option.splits)
  then show ?case using Cons.IH by (cases "tree_DeleteNode x t w") auto
qed simp

lemma tree_delete_chain_correct:
  assumes "distinct cs" "set cs \<subseteq> dom (th_nodes t)"
  shows "\<exists>N ds. tree_delete_chain cs t w = Some (th_emit ds (t\<lparr>th_nodes := N\<rparr>), (HeapFree ^^ length cs) w) \<and>
    N = th_nodes t |` (- set cs) \<and> lock_run Exclusive ds = Some Exclusive \<and>
    (\<forall>r. balance r ds = - int (card (holders r t \<inter> set cs)))"
  using assms
proof (induction cs arbitrary: t w)
  case Nil
  have "th_emit [] (t\<lparr>th_nodes := th_nodes t\<rparr>) = t" by (simp add: th_emit_def)
  then show ?case by (intro exI [of _ "th_nodes t"] exI [of _ "[]"]) (simp add: restrict_map_def)
next
  case (Cons p cs)
  obtain nd where nd: "th_nodes t p = Some nd" using Cons.prems(2) by auto
  let ?t1 = "(th_emit (drop_of (tn_pRecord nd)) t)\<lparr>th_nodes := (th_nodes t)(p := None)\<rparr>"
  have "set cs \<subseteq> dom (th_nodes ?t1)" "distinct cs" using Cons.prems by auto
  with Cons.IH [where t = ?t1 and w = "HeapFree w"] obtain ds where
    R: "tree_delete_chain cs ?t1 (HeapFree w)
      = Some (th_emit ds (?t1\<lparr>th_nodes := th_nodes ?t1 |` (- set cs)\<rparr>), (HeapFree ^^ length cs) (HeapFree w))"
      "lock_run Exclusive ds = Some Exclusive" "\<forall>r. balance r ds = - int (card (holders r ?t1 \<inter> set cs))" by blast
  have N: "th_nodes ?t1 |` (- set cs) = th_nodes t |` (- set (p # cs))" by (auto simp: restrict_map_def)
  have b: "balance r (drop_of (tn_pRecord nd) @ ds) = - int (card (holders r t \<inter> set (p # cs)))" for r
  proof -
    have "holders r ?t1 \<inter> set cs = holders r t \<inter> set cs" using Cons.prems(1) by (auto simp: holders_def)
    moreover have "holders r t \<inter> set (p # cs) = (if tn_pRecord nd = Some r then insert p (holders r t \<inter> set cs) else holders r t \<inter> set cs)"
      using nd by (auto simp: holders_def)
    ultimately show ?thesis using R(3) Cons.prems(1) by simp
  qed
  have e: "th_emit ds (?t1\<lparr>th_nodes := M\<rparr>) = th_emit (drop_of (tn_pRecord nd) @ ds) (t\<lparr>th_nodes := M\<rparr>)" for M
    by (simp add: th_emit_def)
  have "tree_delete_chain (p # cs) t w = Some (th_emit (drop_of (tn_pRecord nd) @ ds) (t\<lparr>th_nodes := th_nodes t |` (- set (p # cs))\<rparr>),
      (HeapFree ^^ length (p # cs)) w)"
    using R(1) unfolding e N by (simp add: tree_DeleteNode_eq nd funpow_swap1)
  then show ?case using R(2) b by (intro exI [of _ "th_nodes t |` (- set (p # cs))"] exI [of _ "drop_of (tn_pRecord nd) @ ds"])
      (simp add: lock_run_append del: balance_append)
qed

lemma tree_clear_loop_eq:
  fixes t :: "'r tree_table"
  assumes "th_ppBuckets t = Some bs" "length bs = i + left"
  shows "tree_clear_loop i left t w = map_option (\<lambda>(t1, w1). (t1\<lparr>th_ppBuckets := Some (take i bs @ replicate left [])\<rparr>, w1))
    (tree_delete_chain (concat (drop i bs)) t w)"
  using assms
proof (induction left arbitrary: i bs t w)
  case 0
  then have "t\<lparr>th_ppBuckets := Some bs\<rparr> = t" by simp
  with 0 show ?case by simp
next
  case (Suc left)
  have i: "i < length bs" using Suc.prems(2) by simp
  have d: "drop i bs = bs ! i # drop (Suc i) bs" using i by (rule Cons_nth_drop_Suc [symmetric])
  let ?bs1 = "bs[i := []]"
  have b: "take (Suc i) ?bs1 @ replicate left [] = take i bs @ replicate (Suc left) []" "drop (Suc i) ?bs1 = drop (Suc i) bs"
    using i by (simp_all add: take_Suc_conv_app_nth)
  have "tree_clear_loop (Suc i) left (t1\<lparr>th_ppBuckets := Some ?bs1\<rparr>) w1
      = map_option (\<lambda>(t2, w2). (t2\<lparr>th_ppBuckets := Some (take i bs @ replicate (Suc left) [])\<rparr>, w2))
          (tree_delete_chain (concat (drop (Suc i) bs)) t1 w1)" for t1 :: "'r tree_table" and w1
  proof -
    have "length ?bs1 = Suc i + left" using Suc.prems(2) by simp
    with Suc.IH [where bs = ?bs1 and i = "Suc i" and t = "t1\<lparr>th_ppBuckets := Some ?bs1\<rparr>" and w = w1]
    show ?thesis unfolding b tree_delete_chain_buckets by (simp add: option.map_comp comp_def split_def)
  qed
  then show ?case
    using Suc.prems(1) i unfolding d concat.simps tree_delete_chain_append
    by (simp add: mem_get_Some tree_delete_chain_buckets split_def del: replicate.simps split: option.splits bind_splits)
qed

lemma tree_Clear_correct:
  assumes ok: "tree_ok u A t"
  shows "\<exists>t' w'. tree_Clear t w = Some (t', w') \<and> tree_ok u A t' \<and> tree_same Free t w t' w' \<and>
    tree_entries u t' = {} \<and> th_nodes t' = Map.empty"
proof -
  obtain bs where C: "chains_ok t bs" using ok by (rule tree_okE)
  note D = chains_okD [OF C]
  let ?t1 = "th_emit [ExclusiveAcquire] t" and ?n = "th_nBuckets t"
  let ?w' = "(HeapFree ^^ length (concat bs)) w"
  have "set (concat bs) \<subseteq> dom (th_nodes ?t1)" using D(5) by simp
  from tree_delete_chain_correct [OF D(4) this, where w = w] obtain ds where
    R: "tree_delete_chain (concat bs) ?t1 w = Some (th_emit ds (?t1\<lparr>th_nodes := th_nodes ?t1 |` (- set (concat bs))\<rparr>), ?w')"
      "lock_run Exclusive ds = Some Exclusive" "\<forall>r. balance r ds = - int (card (holders r ?t1 \<inter> set (concat bs)))" by blast
  have N: "th_nodes ?t1 |` (- set (concat bs)) = Map.empty" unfolding D(5) by (auto simp: restrict_map_def fun_eq_iff)
  define t2 where "t2 = (th_emit ds (?t1\<lparr>th_nodes := Map.empty\<rparr>))\<lparr>th_ppBuckets := Some (replicate ?n []), th_nItems := 0\<rparr>"
  have T: "th_ppBuckets t2 = Some (replicate ?n [])" "th_nBuckets t2 = ?n" "th_nItems t2 = 0" "th_nodes t2 = Map.empty"
    "th_fCaseSensitive t2 = th_fCaseSensitive t" "th_calls t2 = th_calls t @ ExclusiveAcquire # ds"
    by (simp_all add: t2_def)
  have E: "tree_Clear t w = Some (th_emit [ExclusiveRelease] t2, ?w')"
    using tree_clear_loop_eq [of ?t1 bs 0 ?n w] D(1,2) R(1) unfolding N t2_def by (simp add: tree_Clear_def)
  have "chains_ok t2 (replicate ?n [])"
    using D(3,9) by (simp add: chains_ok_def T bucket_ok_def concat_replicate_trivial)
  then have ok2: "tree_ok u A t2" by (auto simp: tree_ok_def store_ok_def forest_ok_def T)
  have "tree_refs r (th_emit [ExclusiveRelease] t2) = tree_refs r t" for r
  proof -
    have "holders r ?t1 \<inter> set (concat bs) = holders r t" unfolding D(5) by (auto simp: holders_def)
    moreover have "holders r (th_emit [ExclusiveRelease] t2) = {}" by (simp add: holders_def T)
    ultimately show ?thesis using R(3) by (simp add: tree_refs_holders T)
  qed
  moreover have "length (concat bs) = card (dom (th_nodes t))" using distinct_card [OF D(4)] D(5) by metis
  then have "tree_blocks (th_emit [ExclusiveRelease] t2) ?w' = tree_blocks t w"
    using D(1) by (simp add: tree_blocks_def T del: length_concat)
  ultimately have "tree_same Free t w (th_emit [ExclusiveRelease] t2) ?w'"
    using R(2) by (intro tree_same_add [where cs = "ExclusiveAcquire # ds @ [ExclusiveRelease]"])
      (simp_all add: T lock_run_append del: length_concat)
  moreover have "tree_entries u t2 = {}" by (simp add: tree_entries_def T)
  ultimately show ?thesis using E ok2 T(4) by simp
qed

section \<open>Apply\<close>

text \<open>The records in a list of nodes, in its order.\<close>

definition records_in :: "'r tree_table \<Rightarrow> nat list \<Rightarrow> 'r list" where
  "records_in t ps = List.map_filter (\<lambda>p. tn_pRecord (the (th_nodes t p))) ps"

lemma tree_apply_chain_fold:
  "set ps \<subseteq> dom (th_nodes t) \<Longrightarrow> tree_apply_chain f (th_nodes t) ps c = Some (fold f (records_in t ps) c)"
  by (induction ps arbitrary: c) (auto simp: records_in_def map_filter_simps split: option.splits)

lemma tree_apply_loop_fold:
  assumes "th_ppBuckets t = Some bs" "length bs = i + left" "set (concat (drop i bs)) \<subseteq> dom (th_nodes t)"
  shows "tree_apply_loop f i left t c = Some (fold f (records_in t (concat (drop i bs))) c)"
  using assms(2,3)
proof (induction left arbitrary: i c)
  case (Suc left)
  have i: "i < length bs" using Suc.prems(1) by simp
  have d: "drop i bs = bs ! i # drop (Suc i) bs" using i by (rule Cons_nth_drop_Suc [symmetric])
  have s: "set (bs ! i) \<subseteq> dom (th_nodes t)" "set (concat (drop (Suc i) bs)) \<subseteq> dom (th_nodes t)"
    using Suc.prems(2) unfolding d by simp_all
  have "records_in t (concat (drop i bs)) = records_in t (bs ! i) @ records_in t (concat (drop (Suc i) bs))"
    unfolding d by (simp add: records_in_def map_filter_def)
  then show ?case
    using Suc.IH [of "Suc i" "fold f (records_in t (bs ! i)) c"] Suc.prems(1) s assms(1) i
    by (simp add: mem_get_Some tree_apply_chain_fold del: set_concat)
qed (simp add: records_in_def map_filter_simps)

text \<open>Apply visits the record of every node once, under the shared lock, and changes nothing.\<close>

lemma tree_Apply_correct:
  assumes "tree_ok u A t"
  shows "\<exists>ps. tree_Apply f c t = Some (fold f (records_in t ps) c, th_emit [SharedAcquire, SharedRelease] t) \<and>
    distinct ps \<and> set ps = dom (th_nodes t)"
proof -
  obtain bs where C: "chains_ok t bs" using assms by (rule tree_okE)
  note D = chains_okD [OF C]
  let ?t1 = "th_emit [SharedAcquire] t"
  have "tree_apply_loop f 0 (th_nBuckets ?t1) ?t1 c = Some (fold f (records_in ?t1 (concat (drop 0 bs))) c)"
    by (rule tree_apply_loop_fold) (use D(1,2,5) in simp_all)
  moreover have "records_in ?t1 = records_in t" by (simp add: fun_eq_iff records_in_def)
  moreover have "th_emit [SharedRelease] ?t1 = th_emit [SharedAcquire, SharedRelease] t" by (simp add: th_emit_def)
  ultimately show ?thesis using D(4,5) by (intro exI [of _ "concat bs"]) (simp add: tree_Apply_def)
qed

end
