(* ===== verification/TreeRuns.thy ===== *)
theory TreeRuns
  imports TreeOps
begin

text \<open>
  The life of a TREE_HASH_TABLE: every state the public operations can reach after a successful
  Initialize, with the references FindKey has handed out (\<open>given\<close>). Inserted paths are shorter than
  the 256 characters of the stack buffer of InsertRecord, so that copying them needs no heap; \<open>A\<close> is the
  set of characters the keys are made of.
\<close>

definition key_ok :: "WCHAR set \<Rightarrow> WCHAR list \<Rightarrow> bool" where
  "key_ok A k \<longleftrightarrow> terminated k \<and> cstr k \<noteq> [] \<and> set (cstr k) \<subseteq> A \<and> length (cstr k) < 256"

inductive tree_run ::
  "(WCHAR \<Rightarrow> WCHAR) \<Rightarrow> WCHAR set \<Rightarrow> ('r \<Rightarrow> WCHAR list) \<Rightarrow> world \<Rightarrow> 'r tree_table \<Rightarrow> world \<Rightarrow> ('r \<Rightarrow> int) \<Rightarrow> bool"
  for u A GetKey w0 where
  init: "tree_Initialize lock_hr n (tree_ctor cs) w0 = (S_OK, t, w) \<Longrightarrow> case_ok u A t \<Longrightarrow>
    tree_run u A GetKey w0 t w (\<lambda>_. 0)"
| findKey: "tree_run u A GetKey w0 t w given \<Longrightarrow> set (cstr key) \<subseteq> A \<Longrightarrow>
    tree_FindKey u key t = Some (Some r, t') \<Longrightarrow> tree_run u A GetKey w0 t' w (given(r := given r + 1))"
| miss: "tree_run u A GetKey w0 t w given \<Longrightarrow> set (cstr key) \<subseteq> A \<Longrightarrow>
    tree_FindKey u key t = Some (None, t') \<Longrightarrow> tree_run u A GetKey w0 t' w given"
| insert: "tree_run u A GetKey w0 t w given \<Longrightarrow> key_ok A (GetKey r) \<Longrightarrow> length ach = 256 \<Longrightarrow>
    tree_InsertRecord u GetKey ach r t w = Some (hr, t', w') \<Longrightarrow> tree_run u A GetKey w0 t' w' given"
| deleteKey: "tree_run u A GetKey w0 t w given \<Longrightarrow> set (cstr key) \<subseteq> A \<Longrightarrow>
    tree_DeleteKey u key t w = Some (t', w') \<Longrightarrow> tree_run u A GetKey w0 t' w' given"
| deleteIf: "tree_run u A GetKey w0 t w given \<Longrightarrow> tree_DeleteIf f (c :: nat) t w = Some (t', c', w') \<Longrightarrow>
    tree_run u A GetKey w0 t' w' given"
| visit: "tree_run u A GetKey w0 t w given \<Longrightarrow> tree_Apply f (c :: nat) t = Some (c', t') \<Longrightarrow>
    tree_run u A GetKey w0 t' w given"
| clear: "tree_run u A GetKey w0 t w given \<Longrightarrow> tree_Clear t w = Some (t', w') \<Longrightarrow> tree_run u A GetKey w0 t' w' given"

text \<open>What holds in every state: the invariant, the lock free and used in the right mode, one reference per
  record held and one per record handed out, one heap block per node and one for the buckets.\<close>

definition tree_accounts ::
  "(WCHAR \<Rightarrow> WCHAR) \<Rightarrow> WCHAR set \<Rightarrow> world \<Rightarrow> 'r tree_table \<Rightarrow> world \<Rightarrow> ('r \<Rightarrow> int) \<Rightarrow> bool" where
  "tree_accounts u A w0 t w given \<longleftrightarrow> tree_ok u A t \<and> case_ok u A t \<and> fresh_ok t w \<and>
     lock_run Free (th_calls t) = Some Free \<and> (\<forall>r. tree_refs r t = given r) \<and> tree_blocks t w = heap_live w0"

lemma tree_accounts_keep:
  assumes "tree_accounts u A w0 t w given" "tree_same Free t w t' w'" "tree_ok u A t'" "dom (th_nodes t') \<subseteq> dom (th_nodes t) \<or> fresh_ok t' w'"
  shows "tree_accounts u A w0 t' w' given"
proof -
  have "heap_calls w \<le> heap_calls w'" using assms(2) by (simp add: tree_same_def)
  then have "\<forall>p\<in>dom (th_nodes t). p < heap_calls w'" 
    using assms(1) less_le_trans unfolding tree_accounts_def fresh_ok_def by blast
  then have "fresh_ok t' w'" using assms(4) unfolding fresh_ok_def by blast
  moreover have "case_ok u A t'"
    using assms(1,2) case_ok_cong [of t' t u A] by (simp add: tree_accounts_def tree_same_def)
  moreover have "lock_run Free (th_calls t') = Some Free"
    using assms(1,2) by (auto simp: tree_accounts_def tree_same_def lock_run_append)
  ultimately show ?thesis using assms(1-3) by (simp add: tree_accounts_def tree_same_def)
qed

lemma key_ok_insert:
  assumes acc: "tree_accounts u A w0 t w given" and k: "key_ok A (GetKey r)" and ach: "length ach = 256"
  shows "\<exists>hr t' w'. tree_InsertRecord u GetKey ach r t w = Some (hr, t', w') \<and>
    record_inserted u A (cstr (GetKey r)) r t w hr t' w'"
proof -
  have ok: "tree_ok u A t" "case_ok u A t" "fresh_ok t w" using acc by (simp_all add: tree_accounts_def)
  have key: "terminated (GetKey r)" "cstr (GetKey r) \<noteq> []" "set (cstr (GetKey r)) \<subseteq> A" "length (cstr (GetKey r)) < 256"
    using k by (simp_all add: key_ok_def)
  have "length (cstr (GetKey r)) < STRSAFE_MAX_CCH" using key(4) by (simp add: STRSAFE_MAX_CCH_def)
  then show ?thesis
    using tree_InsertRecord_correct [where GetKey = GetKey and r = r, OF ok key(1) refl key(2,3) _ ach] key(4) by (metis leD)
qed

lemma tree_run_accounts: "tree_run u A (GetKey :: 'r \<Rightarrow> WCHAR list) w0 t w given \<Longrightarrow> tree_accounts u A w0 t w given"
proof (induction rule: tree_run.induct)
  case (init lock_hr n cs t w)
  have "0 < n" "\<not> FAILED lock_hr" "n < MAXDWORD div sizeof_pointer"
    using init(1) by (auto simp: tree_Initialize_def tree_Initialize_Failed_def tree_ctor_def split: if_splits)
  from tree_Initialize_correct [where 'r = 'r, OF this(1,3,2), of cs w0 u A]
  have "tree_ok u A t \<and> tree_entries u t = {} \<and> fresh_ok t w \<and> th_calls t = [] \<and> tree_blocks t w = heap_live w0"
    using init(1) by auto
  then have "tree_ok u A t" "tree_entries u t = {}" "fresh_ok t w" "th_calls t = []" "tree_blocks t w = heap_live w0"
    by simp_all
  moreover have "holders r t = {}" for r
    using \<open>tree_entries u t = {}\<close> by (fastforce simp: holders_def tree_entries_def)
  ultimately show ?case using init(2) by (simp add: tree_accounts_def tree_refs_holders)
next
  case (findKey t w given key r t')
  have ok: "tree_ok u A t" "case_ok u A t" using findKey.IH by (simp_all add: tree_accounts_def)
  have "t' = th_emit [SharedAcquire, ReferenceRecord r, SharedRelease] t"
    using tree_FindKey_correct [OF ok findKey.hyps(2)] findKey.hyps(3) by (auto simp: ref_of_def)
  then show ?case using findKey.IH
    by (auto simp: tree_accounts_def tree_refs_def tree_blocks_def lock_run_append case_ok_def)
next
  case (miss t w given key t')
  have ok: "tree_ok u A t" "case_ok u A t" using miss.IH by (simp_all add: tree_accounts_def)
  have "t' = th_emit [SharedAcquire, SharedRelease] t"
    using tree_FindKey_correct [OF ok miss.hyps(2)] miss.hyps(3) by (auto simp: ref_of_def)
  then show ?case using miss.IH
    by (auto simp: tree_accounts_def tree_refs_def tree_blocks_def lock_run_append case_ok_def)
next
  case (insert t w given r ach hr t' w')
  from key_ok_insert [where GetKey = GetKey and r = r, OF insert.IH insert.hyps(2,3)] insert.hyps(4)
  have "record_inserted u A (cstr (GetKey r)) r t w hr t' w'" by simp
  then show ?case using tree_accounts_keep [OF insert.IH] by (simp add: record_inserted_def)
next
  case (deleteKey t w given key t' w')
  have ok: "tree_ok u A t" "case_ok u A t" using deleteKey.IH by (simp_all add: tree_accounts_def)
  from tree_DeleteKey_correct [OF ok deleteKey.hyps(2), of w] deleteKey.hyps(3)
  show ?case by (intro tree_accounts_keep [OF deleteKey.IH]) auto
next
  case (deleteIf t w given f c t' c' w')
  have ok: "tree_ok u A t" using deleteIf.IH by (simp add: tree_accounts_def)
  from tree_DeleteIf_correct [OF ok, of f c w] deleteIf.hyps(2)
  show ?case by (intro tree_accounts_keep [OF deleteIf.IH]) auto
next
  case (visit t w given f c c' t')
  have ok: "tree_ok u A t" using visit.IH by (simp add: tree_accounts_def)
  have "t' = th_emit [SharedAcquire, SharedRelease] t" using tree_Apply_correct [OF ok, of f c] visit.hyps(2) by auto
  then show ?case using visit.IH
    by (auto simp: tree_accounts_def tree_refs_def tree_blocks_def lock_run_append case_ok_def)
next
  case (clear t w given t' w')
  have ok: "tree_ok u A t" using clear.IH by (simp add: tree_accounts_def)
  from tree_Clear_correct [OF ok, of w] clear.hyps(2)
  show ?case by (intro tree_accounts_keep [OF clear.IH]) auto
qed

text \<open>The paths of a table and its nodes are as many.\<close>

lemma card_tree_entries:
  assumes "tree_ok u A t"
  shows "finite (tree_entries u t)" "card (tree_entries u t) = card (dom (th_nodes t))"
proof -
  obtain bs where "chains_ok t bs" using assms by (rule tree_okE)
  note D = chains_okD [OF this]
  let ?e = "\<lambda>p. (tn_key u t (the (th_nodes t p)), tn_pRecord (the (th_nodes t p)))"
  have E: "tree_entries u t = ?e ` dom (th_nodes t)" by (force simp: tree_entries_def)
  have "inj_on ?e (dom (th_nodes t))"
    by (rule inj_onI) (use same_key_same_node [OF assms] in fastforce)
  then show "finite (tree_entries u t)" "card (tree_entries u t) = card (dom (th_nodes t))"
    unfolding E using D(8) by (simp_all add: card_image)
qed

lemma tree_entries_functional:
  assumes "tree_ok u A t" "(k, x) \<in> tree_entries u t" "(k, y) \<in> tree_entries u t"
  shows "x = y"
  using assms(2,3) same_key_same_node [OF assms(1)] unfolding in_entries by (metis option.inject)

section \<open>Outcomes of InsertRecord\<close>

text \<open>What InsertRecord for the path \<open>k\<close> returns and leaves, over the entries \<open>E\<close> before and \<open>E'\<close> after.\<close>

definition insert_outcome ::
  "WCHAR list \<Rightarrow> 'r \<Rightarrow> (WCHAR list \<times> 'r option) set \<Rightarrow> bool \<Rightarrow> HRESULT \<Rightarrow> (WCHAR list \<times> 'r option) set \<Rightarrow> bool" where
  "insert_outcome k r E memory hr E' \<longleftrightarrow>
     (if hr = S_OK then (\<forall>x. (k, Some x) \<notin> E) \<and>
        E' = {e \<in> E. fst e \<noteq> k} \<union> {(a, None) | a. a \<in> set (ancestors k) \<and> a \<notin> fst ` E} \<union> {(k, Some r)}
      else if hr = HRESULT_FROM_WIN32 ERROR_ALREADY_EXISTS then (\<exists>x. (k, Some x) \<in> E) \<and> E' = E
      else FAILED hr \<and> \<not> memory \<and> E \<subseteq> E' \<and> (\<forall>a x. (a, Some x) \<in> E' \<longrightarrow> (a, Some x) \<in> E))"

lemma entries_ancestors:
  assumes "tree_ok u A t" "k \<in> fst ` tree_entries u t"
  shows "set (ancestors k) \<subseteq> fst ` tree_entries u t"
proof -
  obtain p nd where "th_nodes t p = Some nd" "k = tn_key u t nd" using assms(2) by (auto simp: in_fst_entries)
  then show ?thesis using entries_closed [OF assms(1)] by (auto simp: up_to_def)
qed

lemma path_added_outcome:
  assumes ok: "tree_ok u A t" "case_ok u A t" "set k \<subseteq> A" and cs: "th_fCaseSensitive t' = th_fCaseSensitive t"
    and P: "path_added u k r (tree_entries u t) w hr t'" and short: "short_path k"
  shows "insert_outcome (tree_norm u t k) r (tree_entries u t) (generous w) hr (tree_entries u t')"
proof -
  let ?E = "tree_entries u t" and ?K = "tree_norm u t k" and ?E' = "tree_entries u t'"
  have n: "tree_norm u t' = tree_norm u t" using cs by (simp add: fun_eq_iff tree_norm_def)
  have a: "map (tree_norm u t) (ancestors k) = ancestors ?K" by (rule tree_norm_ancestors(1) [OF ok(2,3), symmetric])
  have K: "?K \<notin> set (ancestors ?K)" using ancestors_length by blast
  let ?B = "?E \<union> {(a, None) | a. a \<in> set (ancestors ?K) \<and> a \<notin> fst ` ?E}"
  have B: "add_ancestors (ancestors ?K) ?E = ?B" by (rule add_ancestors_eq)
  have kB: "(?K, x) \<in> ?B \<longleftrightarrow> (?K, x) \<in> ?E" "?K \<in> fst ` ?B \<longleftrightarrow> ?K \<in> fst ` ?E" for x using K by force+
  have old: "?B = ?E" if "?K \<in> fst ` ?E" using entries_ancestors [OF ok(1) that] by blast
  have Q: "?E' = add_entry ?K (Some r) ?B \<and> (hr = S_OK \<longleftrightarrow> add_succeeds ?K (Some r) ?B)"
    if "hr = S_OK \<or> hr = HRESULT_FROM_WIN32 ERROR_ALREADY_EXISTS"
    using P that unfolding path_added_def n a B Let_def by simp
  consider (ok) "hr = S_OK" | (dup) "hr = HRESULT_FROM_WIN32 ERROR_ALREADY_EXISTS" "hr \<noteq> S_OK"
    | (refused) "hr \<noteq> S_OK" "hr \<noteq> HRESULT_FROM_WIN32 ERROR_ALREADY_EXISTS" by blast
  then show ?thesis
  proof cases
    case ok': ok
    then have s: "?E' = add_entry ?K (Some r) ?B" "?K \<notin> fst ` ?E \<or> (?K, None) \<in> ?E"
      using Q unfolding add_succeeds_def kB by simp_all
    have no: "(?K, Some x) \<notin> ?E" for x using s(2) tree_entries_functional [OF ok(1)] by force
    have "?E' = {e \<in> ?B. fst e \<noteq> ?K} \<union> {(?K, Some r)}"
      using s(2) unfolding s(1) add_entry_def kB using K by (auto simp: image_iff split: if_splits)
    moreover have "{e \<in> ?B. fst e \<noteq> ?K} = {e \<in> ?E. fst e \<noteq> ?K} \<union> {(a, None) | a. a \<in> set (ancestors ?K) \<and> a \<notin> fst ` ?E}"
      using K by auto
    ultimately show ?thesis using ok' no by (simp add: insert_outcome_def)
  next
    case dup
    then have s: "?E' = add_entry ?K (Some r) ?B" "?K \<in> fst ` ?E" "(?K, None) \<notin> ?E"
      using Q unfolding add_succeeds_def kB by simp_all
    then have "?E' = ?E" unfolding s(1) old [OF s(2)] by (simp add: add_entry_def)
    moreover obtain x where "(?K, x) \<in> ?E" using s(2) by force
    then have "\<exists>x. (?K, Some x) \<in> ?E" using s(3) by (cases x) auto
    ultimately show ?thesis using dup by (simp add: insert_outcome_def)
  next
    case refused
    then obtain m where s: "FAILED hr" "\<not> generous w" "?E' = add_ancestors (take m (ancestors ?K)) ?E"
      using P short unfolding path_added_def n a Let_def by auto
    then show ?thesis using refused by (auto simp: insert_outcome_def add_ancestors_eq)
  qed
qed

end
