(* ===== verification/LkrClump.thy ===== *)
theory LkrClump
  imports HashFn
begin

text \<open>
  \<open>lkrhash.h\<close> and \<open>TestLKRHashing.cpp\<close>: the bucket chains of the LKR hash table and the routines that
  work on one chain (find a slot, delete a node, split and merge record sets).

  A bucket chain is the list of its \<open>CNodeClump\<close>s, the first one being the one inside the \<open>CBucket\<close>; a
  pointer to a clump is its position in that list and \<open>m_pncNext\<close> the position after it. A slot holds a
  hash signature and a record pointer, \<open>None\<close> being NULL. A free list is the number of its clumps: a
  clump is cleared when it is taken off. \<open>None\<close> as a result is an access outside an array or chain.
\<close>

section \<open>CNodeClump\<close>

definition NODES_PER_CLUMP :: nat where "NODES_PER_CLUMP = 4"

definition HASH_INVALID_SIGNATURE :: DWORD where "HASH_INVALID_SIGNATURE = 31678523"

abbreviation (input) sizeof_CNodeClump :: nat where "sizeof_CNodeClump \<equiv> 56"

record 'r clump =
  m_dwKeySigs :: "DWORD list"
  m_pvNode :: "'r option list"

type_synonym 'r bucket = "'r clump list"

text \<open>\<open>CNodeClump::Clear\<close>, also run by the constructor.\<close>

definition clump_Clear :: "'r clump" where
  "clump_Clear = \<lparr>m_dwKeySigs = replicate NODES_PER_CLUMP HASH_INVALID_SIGNATURE,
     m_pvNode = replicate NODES_PER_CLUMP None\<rparr>"

definition InvalidSignature :: "'r clump \<Rightarrow> nat \<Rightarrow> bool" where
  "InvalidSignature c i \<longleftrightarrow> m_dwKeySigs c ! i = HASH_INVALID_SIGNATURE"

definition IsEmptyNode :: "'r clump \<Rightarrow> nat \<Rightarrow> bool" where
  "IsEmptyNode c i \<longleftrightarrow> m_pvNode c ! i = None"

definition IsEmptySlot :: "'r clump \<Rightarrow> nat \<Rightarrow> bool" where
  "IsEmptySlot c i = InvalidSignature c i"

definition IsEmptyAndInvalid :: "'r clump \<Rightarrow> nat \<Rightarrow> bool" where
  "IsEmptyAndInvalid c i \<longleftrightarrow> IsEmptyNode c i \<and> InvalidSignature c i"

text \<open>The two assignments to slot \<open>i\<close> of clump \<open>j\<close>.\<close>

definition put_slot :: "nat \<Rightarrow> nat \<Rightarrow> DWORD \<Rightarrow> 'r option \<Rightarrow> 'r bucket \<Rightarrow> 'r bucket option" where
  "put_slot j i sig pv ch =
     do { c \<leftarrow> mem_get j ch;
          sigs \<leftarrow> mem_put i sig (m_dwKeySigs c);
          pvs \<leftarrow> mem_put i pv (m_pvNode c);
          mem_put j \<lparr>m_dwKeySigs = sigs, m_pvNode = pvs\<rparr> ch }"

section \<open>Walking a chain\<close>

text \<open>The loop shared by \<open>_InsertRecord\<close>, \<open>_DeleteKey\<close>, \<open>_DeleteRecord\<close>, \<open>_FindKey\<close> and \<open>_FindRecord\<close>: down
  the chain, slot by slot, until an empty slot or one that satisfies the test, or the end.\<close>

datatype walk = AtEmpty nat nat | AtHit nat nat | AtEnd

fun walk_slots :: "(DWORD \<Rightarrow> 'r option \<Rightarrow> bool) \<Rightarrow> 'r clump \<Rightarrow> nat \<Rightarrow> nat list \<Rightarrow> walk" where
  "walk_slots hit c j [] = AtEnd"
| "walk_slots hit c j (i # is) =
     (if IsEmptySlot c i then AtEmpty j i
      else if hit (m_dwKeySigs c ! i) (m_pvNode c ! i) then AtHit j i
      else walk_slots hit c j is)"

fun walk_chain :: "(DWORD \<Rightarrow> 'r option \<Rightarrow> bool) \<Rightarrow> nat \<Rightarrow> 'r bucket \<Rightarrow> walk" where
  "walk_chain hit j [] = AtEnd"
| "walk_chain hit j (c # cs) =
     (case walk_slots hit c j [0..<NODES_PER_CLUMP] of
        AtEnd \<Rightarrow> walk_chain hit (Suc j) cs
      | stopped \<Rightarrow> stopped)"

text \<open>The first empty slot of a clump among those listed; NODE_END when there is none.\<close>

fun first_empty :: "'r clump \<Rightarrow> nat list \<Rightarrow> nat" where
  "first_empty c [] = NODES_PER_CLUMP"
| "first_empty c (i # is) = (if IsEmptySlot c i then i else first_empty c is)"

section \<open>\<open>_IsNodeCompact\<close>\<close>

fun compact_slots :: "'r clump \<Rightarrow> bool \<Rightarrow> nat list \<Rightarrow> bool \<Rightarrow> nat \<Rightarrow> bool \<times> nat" where
  "compact_slots c isLast [] fEmpty cErrors = (fEmpty, cErrors)"
| "compact_slots c isLast (i # is) fEmpty cErrors =
     (if fEmpty
      then compact_slots c isLast is fEmpty
             (cErrors + of_bool (\<not> InvalidSignature c i) + of_bool (\<not> IsEmptyNode c i))
      else if InvalidSignature c i
      then compact_slots c isLast is True (cErrors + of_bool (\<not> IsEmptyNode c i) + of_bool (\<not> isLast))
      else compact_slots c isLast is fEmpty
             (cErrors + of_bool (InvalidSignature c i) + of_bool (IsEmptyNode c i)))"

fun compact_chain :: "'r bucket \<Rightarrow> bool \<Rightarrow> nat \<Rightarrow> nat" where
  "compact_chain [] fEmpty cErrors = cErrors"
| "compact_chain (c # cs) fEmpty cErrors =
     (let (e, n) = compact_slots c (cs = []) [0..<NODES_PER_CLUMP] fEmpty cErrors in compact_chain cs e n)"

definition IsNodeCompact :: "'r bucket \<Rightarrow> nat" where
  "IsNodeCompact ch =
     (let fEmpty = InvalidSignature (hd ch) 0
      in compact_chain ch fEmpty (if fEmpty then of_bool (tl ch \<noteq> []) else 0))"

section \<open>\<open>_DeleteNode\<close>\<close>

text \<open>Slot \<open>(j, i)\<close> takes over the last node of the chain, whose slot is blanked; when that was the first
  slot of a clump on the heap, the clump is unlinked and freed (the flag). The position is left one
  before the slot, so that the loop of the caller comes to the same spot again; \<open>- 1\<close> and
  \<open>NODES_PER_CLUMP\<close> are the out-of-range values the code uses for that. \<open>- 1\<close> as \<open>iNode2\<close> reads outside
  the clump.\<close>

definition DeleteNode_chain :: "'r bucket \<Rightarrow> nat \<Rightarrow> nat \<Rightarrow> ('r bucket \<times> bool \<times> nat \<times> int) option" where
  "DeleteNode_chain ch j i =
     do { let lst = length ch - 1;
          pnc2 \<leftarrow> mem_get lst ch;
          let iNode2 = first_empty pnc2 [(if j = lst then i else 0)..<NODES_PER_CLUMP];
          if iNode2 = 0 then None
          else do {
            let iNode2 = iNode2 - 1;
            sig \<leftarrow> mem_get iNode2 (m_dwKeySigs pnc2);
            pv \<leftarrow> mem_get iNode2 (m_pvNode pnc2);
            ch1 \<leftarrow> put_slot j i sig pv ch;
            ch2 \<leftarrow> put_slot lst iNode2 HASH_INVALID_SIGNATURE None ch1;
            let pos = (if i \<noteq> 0 then (j, int i - 1)
                       else if j = 0 then (j, - 1) else (j - 1, int NODES_PER_CLUMP));
            Some (if iNode2 = 0 \<and> lst \<noteq> 0 then (butlast ch2, True, pos) else (ch2, False, pos)) } }"

section \<open>\<open>_SplitRecordSet\<close>\<close>

text \<open>A chain under construction: its clumps, the slot to fill next in the last of them, and the free
  list. A full clump is followed by one off the free list, which must not be empty.\<close>

definition append_slot :: "DWORD \<Rightarrow> 'r option \<Rightarrow> 'r bucket \<times> nat \<Rightarrow> nat \<Rightarrow> (('r bucket \<times> nat) \<times> nat) option" where
  "append_slot sig pv tgt free =
     (let (ch, iSlot) = tgt in
      if iSlot = NODES_PER_CLUMP
      then (if free = 0 then None
            else do { ch' \<leftarrow> put_slot (length ch) 0 sig pv (ch @ [clump_Clear]);
                      Some ((ch', 1), free - 1) })
      else do { ch' \<leftarrow> put_slot (length ch - 1) iSlot sig pv ch;
                Some ((ch', iSlot + 1), free) })"

text \<open>\<open>H\<close> is the address computed from a signature with the values saved by the caller.\<close>

fun split_slots ::
  "(DWORD \<Rightarrow> nat) \<Rightarrow> nat \<Rightarrow> 'r clump \<Rightarrow> nat list \<Rightarrow> ('r bucket \<times> nat) \<times> ('r bucket \<times> nat) \<times> nat \<Rightarrow>
     (('r bucket \<times> nat) \<times> ('r bucket \<times> nat) \<times> nat) option" where
  "split_slots H dwNewBkt c [] st = Some st"
| "split_slots H dwNewBkt c (i # is) (old, new, free) =
     (if IsEmptySlot c i then split_slots H dwNewBkt c is (old, new, free)
      else if H (m_dwKeySigs c ! i) = dwNewBkt
      then do { (new', free') \<leftarrow> append_slot (m_dwKeySigs c ! i) (m_pvNode c ! i) new free;
                split_slots H dwNewBkt c is (old, new', free') }
      else do { (old', free') \<leftarrow> append_slot (m_dwKeySigs c ! i) (m_pvNode c ! i) old free;
                split_slots H dwNewBkt c is (old', new, free') })"

text \<open>The first clump is the copy on the stack; the others join the free list once they are emptied.\<close>

fun split_chain ::
  "(DWORD \<Rightarrow> nat) \<Rightarrow> nat \<Rightarrow> bool \<Rightarrow> 'r bucket \<Rightarrow> ('r bucket \<times> nat) \<times> ('r bucket \<times> nat) \<times> nat \<Rightarrow>
     (('r bucket \<times> nat) \<times> ('r bucket \<times> nat) \<times> nat) option" where
  "split_chain H dwNewBkt isFirst [] st = Some st"
| "split_chain H dwNewBkt isFirst (c # cs) st =
     do { (old, new, free) \<leftarrow> split_slots H dwNewBkt c [0..<NODES_PER_CLUMP] st;
          split_chain H dwNewBkt False cs (old, new, if isFirst then free else free + 1) }"

definition split_address :: "nat \<Rightarrow> nat \<Rightarrow> DWORD \<Rightarrow> nat" where
  "split_address iExpansionIdx dwBktAddrMask sig =
     (let dwBkt = unat sig AND dwBktAddrMask
      in if dwBkt < iExpansionIdx then unat sig AND dword (push_bit 1 dwBktAddrMask OR 1) else dwBkt)"

definition SplitRecordSet ::
  "'r bucket \<Rightarrow> nat \<Rightarrow> nat \<Rightarrow> nat \<Rightarrow> nat \<Rightarrow> world \<Rightarrow> ('r bucket \<times> 'r bucket \<times> world) option" where
  "SplitRecordSet ch iExpansionIdx dwBktAddrMask dwNewBkt free w =
     do { ((old, _), (new, _), left) \<leftarrow>
            split_chain (split_address iExpansionIdx dwBktAddrMask) dwNewBkt True ch
              (([clump_Clear], 0), ([clump_Clear], 0), free);
          Some (old, new, (HeapFree ^^ left) w) }"

section \<open>\<open>_MergeRecordSets\<close>\<close>

text \<open>The clump with an empty slot at or after position \<open>j\<close>, the last one if all are full.\<close>

fun merge_start :: "nat \<Rightarrow> 'r bucket \<Rightarrow> nat" where
  "merge_start j [] = j"
| "merge_start j [c] = j"
| "merge_start j (c # c' # cs) =
     (if first_empty c [0..<NODES_PER_CLUMP] = NODES_PER_CLUMP then merge_start (Suc j) (c' # cs) else j)"

text \<open>The walk to a later clump with an empty slot: the clumps after the current one.\<close>

fun merge_next :: "nat \<Rightarrow> 'r bucket \<Rightarrow> (nat \<times> nat) option" where
  "merge_next j [] = None"
| "merge_next j (c # cs) =
     (let i = first_empty c [0..<NODES_PER_CLUMP]
      in if i < NODES_PER_CLUMP then Some (j, i) else merge_next (Suc j) cs)"

definition merge_slot ::
  "DWORD \<Rightarrow> 'r option \<Rightarrow> 'r bucket \<times> nat \<times> nat \<times> nat \<Rightarrow> ('r bucket \<times> nat \<times> nat \<times> nat) option" where
  "merge_slot sig pv st =
     (let (ch, j, iNewSlot, free) = st in
      do { (ch, j, iNewSlot, free) \<leftarrow>
             (if iNewSlot = NODES_PER_CLUMP
              then (case merge_next (Suc j) (drop (Suc j) ch) of
                      Some (j', i') \<Rightarrow> Some (ch, j', i', free)
                    | None \<Rightarrow> if free = 0 then None
                              else Some (ch @ [clump_Clear], length ch, 0, free - 1))
              else Some (ch, j, iNewSlot, free));
           ch' \<leftarrow> put_slot j iNewSlot sig pv ch;
           c \<leftarrow> mem_get j ch';
           Some (ch', j, first_empty c [iNewSlot + 1..<NODES_PER_CLUMP], free) })"

fun merge_slots ::
  "'r clump \<Rightarrow> nat list \<Rightarrow> 'r bucket \<times> nat \<times> nat \<times> nat \<Rightarrow> ('r bucket \<times> nat \<times> nat \<times> nat) option" where
  "merge_slots c [] st = Some st"
| "merge_slots c (i # is) st =
     (if \<not> IsEmptySlot c i
      then do { st' \<leftarrow> merge_slot (m_dwKeySigs c ! i) (m_pvNode c ! i) st; merge_slots c is st' }
      else merge_slots c is st)"

fun merge_chain ::
  "bool \<Rightarrow> 'r bucket \<Rightarrow> 'r bucket \<times> nat \<times> nat \<times> nat \<Rightarrow> ('r bucket \<times> nat \<times> nat \<times> nat) option" where
  "merge_chain isFirst [] st = Some st"
| "merge_chain isFirst (c # cs) st =
     do { (ch, j, i, free) \<leftarrow> merge_slots c [0..<NODES_PER_CLUMP] st;
          merge_chain False cs (ch, j, i, if isFirst then free else free + 1) }"

definition MergeRecordSets :: "'r bucket \<Rightarrow> 'r bucket \<Rightarrow> nat \<Rightarrow> world \<Rightarrow> ('r bucket \<times> world) option" where
  "MergeRecordSets ch oldList free w =
     do { let j = merge_start 0 ch;
          c \<leftarrow> mem_get j ch;
          (ch', _, _, left) \<leftarrow> merge_chain True oldList (ch, j, first_empty c [0..<NODES_PER_CLUMP], free);
          Some (ch', (HeapFree ^^ left) w) }"

end
