(* ===== verification/Lkr.thy ===== *)
theory Lkr
  imports LkrClump HashTable Complex_Main
begin

text \<open>
  \<open>lkrhash.h\<close> and \<open>TestLKRHashing.cpp\<close>: CLKRLinearHashTable, a linear hash table that grows and shrinks
  by one bucket at a time.

  The directory \<open>m_paDirSegs\<close> is a list of segments, \<open>None\<close> for a NULL \<open>m_pseg\<close>; a segment is the list of
  its buckets. A bucket pointer is a bucket address. Calls of the record's reference callback and of
  the locks are appended to \<open>events\<close>. The products with the load factor \<open>m_MaxLoad\<close>, a double, are taken
  exactly: that is what the hardware returns as long as the factor has at most 24 significant bits, the
  number of buckets being below \<open>2 ^ 29\<close>. Every allocation may be refused and then yields NULL. \<open>None\<close> as
  a result is an access outside the directory, a segment or a chain, or through NULL.
\<close>

section \<open>Data\<close>

datatype lk_retcode = LK_UNUSABLE | LK_ALLOC_FAIL | LK_BAD_ITERATOR | LK_BAD_RECORD | LK_BAD_PARAMETERS
  | LK_NOT_INITIALIZED | LK_SUCCESS | LK_KEY_EXISTS | LK_NO_SUCH_KEY | LK_NO_MORE_ELEMENTS

datatype 'r event = AddRefRecord "'r option" int
  | TableWriteLock | TableWriteUnlock | TableReadLock | TableReadUnlock
  | TableReadOrWriteLock | TableReadOrWriteUnlock
  | BucketWriteLock nat | BucketWriteUnlock nat | BucketReadLock nat | BucketReadUnlock nat

definition LK_SMALL_TABLESIZE :: nat where "LK_SMALL_TABLESIZE = 1"
definition LK_MEDIUM_TABLESIZE :: nat where "LK_MEDIUM_TABLESIZE = 2"
definition LK_LARGE_TABLESIZE :: nat where "LK_LARGE_TABLESIZE = 3"
definition LK_DFLT_MAXLOAD :: rat where "LK_DFLT_MAXLOAD = 4"
definition MIN_DIRSIZE :: nat where "MIN_DIRSIZE = 8"
definition MAX_DIRSIZE :: nat where "MAX_DIRSIZE = 1048576"

lemmas lkr_sizes = LK_SMALL_TABLESIZE_def LK_MEDIUM_TABLESIZE_def LK_LARGE_TABLESIZE_def LK_DFLT_MAXLOAD_def
  MIN_DIRSIZE_def MAX_DIRSIZE_def NODES_PER_CLUMP_def

abbreviation (input) sizeof_CDirEntry :: nat where "sizeof_CDirEntry \<equiv> 8"
abbreviation (input) sizeof_CBucket :: nat where "sizeof_CBucket \<equiv> 64"

text \<open>What \<open>new[]\<close> stores in front of an array whose elements have a destructor.\<close>

abbreviation (input) sizeof_cookie :: nat where "sizeof_cookie \<equiv> 8"

record 'r lkr =
  m_lkrcState :: lk_retcode
  m_lkts :: nat
  m_dwSegBits :: nat
  m_dwSegSize :: nat
  m_dwSegMask :: nat
  m_MaxLoad :: rat
  m_dwBktAddrMask0 :: nat
  m_dwBktAddrMask1 :: nat
  m_iExpansionIdx :: nat
  m_paDirSegs :: "'r bucket list option list option"
  m_nLevel :: nat
  m_cDirSegs :: nat
  m_cRecords :: nat
  m_cActiveBuckets :: nat
  events :: "'r event list"

definition trace :: "'r event list \<Rightarrow> 'r lkr \<Rightarrow> 'r lkr" where
  "trace es t = t\<lparr>events := events t @ es\<rparr>"

text \<open>SEGBITS and INITSIZE of the three kinds of segments; an unknown size is treated as medium.\<close>

definition seg_bits :: "nat \<Rightarrow> nat" where
  "seg_bits lkts = (if lkts = LK_SMALL_TABLESIZE then 3 else if lkts = LK_LARGE_TABLESIZE then 9 else 6)"

definition init_size :: "nat \<Rightarrow> nat" where
  "init_size lkts = (if lkts = LK_SMALL_TABLESIZE then 8 else if lkts = LK_MEDIUM_TABLESIZE then 128
     else if lkts = LK_LARGE_TABLESIZE then 2048 else 0)"

section \<open>Addresses\<close>

definition BucketAddress :: "DWORD \<Rightarrow> 'r lkr \<Rightarrow> nat" where
  "BucketAddress sig t =
     (let dwBktAddr = unat sig AND m_dwBktAddrMask0 t
      in if dwBktAddr < m_iExpansionIdx t then unat sig AND m_dwBktAddrMask1 t else dwBktAddr)"

definition iSeg :: "nat \<Rightarrow> 'r lkr \<Rightarrow> nat" where
  "iSeg a t = drop_bit (m_dwSegBits t) a"

definition SegIndex :: "nat \<Rightarrow> 'r lkr \<Rightarrow> nat" where
  "SegIndex a t = a AND m_dwSegMask t"

definition Segment :: "nat \<Rightarrow> 'r lkr \<Rightarrow> 'r bucket list option option" where
  "Segment a t = do { dir \<leftarrow> m_paDirSegs t; mem_get (iSeg a t) dir }"

definition put_Segment :: "nat \<Rightarrow> 'r bucket list option \<Rightarrow> 'r lkr \<Rightarrow> 'r lkr option" where
  "put_Segment a seg t =
     do { dir \<leftarrow> m_paDirSegs t; dir' \<leftarrow> mem_put (iSeg a t) seg dir; Some (t\<lparr>m_paDirSegs := Some dir'\<rparr>) }"

definition Bucket :: "nat \<Rightarrow> 'r lkr \<Rightarrow> 'r bucket option" where
  "Bucket a t = do { pseg \<leftarrow> Segment a t; seg \<leftarrow> pseg; mem_get (SegIndex a t) seg }"

definition put_Bucket :: "nat \<Rightarrow> 'r bucket \<Rightarrow> 'r lkr \<Rightarrow> 'r lkr option" where
  "put_Bucket a ch t =
     do { pseg \<leftarrow> Segment a t; seg \<leftarrow> pseg; seg' \<leftarrow> mem_put (SegIndex a t) ch seg; put_Segment a (Some seg') t }"

section \<open>Allocation\<close>

definition AllocateSegment :: "'r lkr \<Rightarrow> world \<Rightarrow> 'r bucket list option \<times> world" where
  "AllocateSegment t w =
     (let n = 2 ^ seg_bits (m_lkts t); (granted, w1) = heap_request (n * sizeof_CBucket) w
      in (if granted then Some (replicate n [clump_Clear]) else None, w1))"

text \<open>The directory comes from the \<open>new[]\<close> of the language, which does not return NULL: a refused request leaves the
  operation by an exception, with the locks held that it had taken, and it has no result (\<open>None\<close>). The checks for
  NULL behind it are kept below as they are written.\<close>

definition AllocateSegmentDirectory :: "nat \<Rightarrow> world \<Rightarrow> ('r bucket list option list option \<times> world) option" where
  "AllocateSegmentDirectory n w =
     (let (granted, w1) = heap_request (n * sizeof_CDirEntry + sizeof_cookie) w
      in if granted then Some (Some (replicate n None), w1) else None)"

definition FreeSegment :: "'r bucket list option \<Rightarrow> world \<Rightarrow> world" where
  "FreeSegment pseg w = (if pseg = None then w else HeapFree w)"

text \<open>The destructor of a directory entry frees the segment it still points to.\<close>

definition FreeSegmentDirectory :: "'r lkr \<Rightarrow> world \<Rightarrow> 'r lkr \<times> world" where
  "FreeSegmentDirectory t w =
     (t\<lparr>m_paDirSegs := None, m_cDirSegs := 0\<rparr>,
      case m_paDirSegs t of None \<Rightarrow> w
      | Some dir \<Rightarrow> HeapFree ((HeapFree ^^ length (filter (\<lambda>pseg. pseg \<noteq> None) dir)) w))"

section \<open>Construction\<close>

text \<open>The loops that choose the level and its mask, and the size of the directory.\<close>

fun level_loop :: "nat \<Rightarrow> nat \<Rightarrow> nat \<Rightarrow> nat \<times> nat" where
  "level_loop tmp nLevel mask0 =
     (if tmp > 1 then level_loop (tmp div 2) (nLevel + 1) (dword (push_bit 1 mask0 OR 1)) else (nLevel, mask0))"

function dir_loop :: "nat \<Rightarrow> nat \<Rightarrow> nat" where
  "dir_loop cDirSegs n = (if 0 < cDirSegs \<and> cDirSegs < n then dir_loop (2 * cDirSegs) n else cDirSegs)"
  by auto
termination by (relation "measure (\<lambda>(c, n). n - c)") auto

declare level_loop.simps [simp del] dir_loop.simps [simp del]

fun free_segs :: "nat \<Rightarrow> 'r lkr \<Rightarrow> world \<Rightarrow> ('r lkr \<times> world) option" where
  "free_segs 0 t w = Some (t, w)"
| "free_segs (Suc j) t w =
     do { dir \<leftarrow> m_paDirSegs t; pseg \<leftarrow> mem_get j dir; dir' \<leftarrow> mem_put j None dir;
          free_segs j (t\<lparr>m_paDirSegs := Some dir'\<rparr>) (FreeSegment pseg w) }"

fun seg_loop :: "nat \<Rightarrow> nat \<Rightarrow> 'r lkr \<Rightarrow> world \<Rightarrow> ('r lkr \<times> world) option" where
  "seg_loop i 0 t w = Some (t, w)"
| "seg_loop i (Suc left) t w =
     (let (pSeg, w1) = AllocateSegment t w in
      if pSeg \<noteq> None
      then do { dir \<leftarrow> m_paDirSegs t; dir' \<leftarrow> mem_put i pSeg dir;
                seg_loop (i + 1) left (t\<lparr>m_paDirSegs := Some dir'\<rparr>) w1 }
      else do { (t2, w2) \<leftarrow> free_segs i (t\<lparr>m_lkrcState := LK_ALLOC_FAIL\<rparr>) w1;
                Some (FreeSegmentDirectory t2 w2) })"

definition SetSegVars :: "nat \<Rightarrow> nat \<Rightarrow> 'r lkr \<Rightarrow> world \<Rightarrow> (lk_retcode \<times> 'r lkr \<times> world) option" where
  "SetSegVars lkts cInitialBuckets t w =
     do { let bits = seg_bits lkts;
          let (nLevel, mask0) = level_loop (drop_bit bits cInitialBuckets) bits (2 ^ bits - 1);
          let t1 = t\<lparr>m_lkts := (if lkts = LK_SMALL_TABLESIZE \<or> lkts = LK_LARGE_TABLESIZE then lkts
                                else LK_MEDIUM_TABLESIZE),
                    m_dwSegBits := bits, m_dwSegSize := 2 ^ bits, m_dwSegMask := 2 ^ bits - 1,
                    m_dwBktAddrMask0 := mask0, m_dwBktAddrMask1 := dword (push_bit 1 mask0 OR 1),
                    m_nLevel := nLevel, m_cActiveBuckets := cInitialBuckets,
                    m_iExpansionIdx := cInitialBuckets AND mask0, m_lkrcState := LK_ALLOC_FAIL\<rparr>;
          let cDirSegs = min (dir_loop MIN_DIRSIZE (drop_bit bits cInitialBuckets)) MAX_DIRSIZE;
          (paDirSegs, w1) \<leftarrow> AllocateSegmentDirectory cDirSegs w;
          (t2, w2) \<leftarrow>
            (if paDirSegs \<noteq> None
             then seg_loop 0 (drop_bit bits (cInitialBuckets + 2 ^ bits - 1))
                    (t1\<lparr>m_paDirSegs := paDirSegs, m_cDirSegs := cDirSegs,
                       m_lkrcState := LK_SUCCESS\<rparr>) w1
             else Some (t1\<lparr>m_paDirSegs := None\<rparr>, w1));
          let t3 = (if m_lkrcState t2 \<noteq> LK_SUCCESS
                    then t2\<lparr>m_paDirSegs := None, m_cDirSegs := 0, m_cActiveBuckets := 0, m_iExpansionIdx := 0\<rparr>
                    else t2);
          Some (m_lkrcState t3, t3, w2) }"

text \<open>\<open>fInitialized\<close> is \<open>s_fInitialized\<close>; \<open>fns\<close> says that none of the four callbacks is NULL. The size is one of the
  three table sizes or a number of buckets, from which the size of the segments is guessed.\<close>

definition choose_size :: "nat \<Rightarrow> nat \<times> nat" where
  "choose_size initsize =
     (if initsize = LK_SMALL_TABLESIZE \<or> initsize = LK_MEDIUM_TABLESIZE \<or> initsize = LK_LARGE_TABLESIZE
      then (initsize, init_size initsize)
      else
        (let initsize = min (max initsize 8) (drop_bit 9 MAX_DIRSIZE * 2048)
         in (if initsize \<le> 8 * 8 then LK_SMALL_TABLESIZE
             else if initsize \<ge> 2048 then LK_LARGE_TABLESIZE else LK_MEDIUM_TABLESIZE, initsize)))"

definition lkr_blank :: "'r lkr" where
  "lkr_blank = \<lparr>m_lkrcState = LK_UNUSABLE, m_lkts = LK_MEDIUM_TABLESIZE, m_dwSegBits = 0, m_dwSegSize = 0,
     m_dwSegMask = 0, m_MaxLoad = LK_DFLT_MAXLOAD, m_dwBktAddrMask0 = 0, m_dwBktAddrMask1 = 0,
     m_iExpansionIdx = 0, m_paDirSegs = None, m_nLevel = 0, m_cDirSegs = 0, m_cRecords = 0,
     m_cActiveBuckets = 0, events = []\<rparr>"

definition lkr_Initialize :: "bool \<Rightarrow> bool \<Rightarrow> rat \<Rightarrow> nat \<Rightarrow> world \<Rightarrow> (lk_retcode \<times> 'r lkr \<times> world) option" where
  "lkr_Initialize fInitialized fns maxload initsize w =
     (if \<not> fInitialized then Some (LK_NOT_INITIALIZED, lkr_blank\<lparr>m_lkrcState := LK_NOT_INITIALIZED\<rparr>, w)
      else if \<not> fns then Some (LK_BAD_PARAMETERS, lkr_blank\<lparr>m_lkrcState := LK_BAD_PARAMETERS\<rparr>, w)
      else
        (let t = lkr_blank\<lparr>m_MaxLoad := min (if maxload \<le> 1 then LK_DFLT_MAXLOAD else maxload) (of_nat (10 * NODES_PER_CLUMP))\<rparr>;
             (lkts, cBuckets) = choose_size initsize
         in SetSegVars lkts cBuckets t w))"

definition IsUsable :: "'r lkr \<Rightarrow> bool" where
  "IsUsable t \<longleftrightarrow> m_lkrcState t = LK_SUCCESS"

definition IsValid :: "'r lkr \<Rightarrow> bool \<times> 'r lkr" where
  "IsValid t =
     (let f = (m_lkrcState t = LK_SUCCESS \<and> m_paDirSegs t \<noteq> None \<and> MIN_DIRSIZE \<le> m_cDirSegs t \<and>
               m_cDirSegs t \<le> MAX_DIRSIZE \<and> m_cDirSegs t AND (m_cDirSegs t - 1) = 0 \<and> m_cActiveBuckets t > 0)
      in (f, if f then t else t\<lparr>m_lkrcState := LK_UNUSABLE\<rparr>))"

section \<open>Expansion and contraction\<close>

text \<open>Doubling the directory: whether \<open>_Expand\<close> may go on.\<close>

definition GrowDirectory :: "'r lkr \<Rightarrow> world \<Rightarrow> (bool \<times> 'r lkr \<times> world) option" where
  "GrowDirectory t w =
     (if m_cActiveBuckets t \<ge> m_cDirSegs t * m_dwSegSize t
      then if dword (m_cDirSegs t * 2) < m_cDirSegs t \<or> dword (m_cDirSegs t * 2) < 2 then Some (False, t, w)
      else do { let cDirSegsNew = (if m_cDirSegs t = 0 then MIN_DIRSIZE else dword (m_cDirSegs t * 2));
                (paNew, w1) \<leftarrow> AllocateSegmentDirectory cDirSegsNew w;
                if paNew \<noteq> None
                then do { dir \<leftarrow> m_paDirSegs t;
                          paDirSegsNew \<leftarrow> do { old \<leftarrow> mem_read 0 (m_cDirSegs t) dir;
                                             mem_write 0 old (the paNew) };
                          let (t1, w2) = FreeSegmentDirectory
                            (t\<lparr>m_paDirSegs := Some (replicate (m_cDirSegs t) None @ drop (m_cDirSegs t) dir)\<rparr>) w1;
                          Some (True, t1\<lparr>m_paDirSegs := Some paDirSegsNew, m_cDirSegs := cDirSegsNew\<rparr>, w2) }
                else Some (False, t, w1) }
      else Some (True, t, w))"

text \<open>The state variables after one more bucket.\<close>

definition advance_level :: "'r lkr \<Rightarrow> 'r lkr" where
  "advance_level t =
     (let t1 = t\<lparr>m_iExpansionIdx := m_iExpansionIdx t + 1\<rparr>
      in if m_iExpansionIdx t1 = dword (2 ^ m_nLevel t)
         then t1\<lparr>m_nLevel := m_nLevel t + 1, m_iExpansionIdx := 0,
                 m_dwBktAddrMask0 := dword (push_bit 1 (m_dwBktAddrMask0 t) OR 1),
                 m_dwBktAddrMask1 := dword (push_bit 1 (dword (push_bit 1 (m_dwBktAddrMask0 t) OR 1)) OR 1)\<rparr>
         else t1)"

text \<open>The new bucket has a segment: both buckets are locked and the records are distributed.\<close>

definition split_bucket :: "nat \<Rightarrow> nat \<Rightarrow> 'r lkr \<Rightarrow> world \<Rightarrow> (lk_retcode \<times> 'r lkr \<times> world) option" where
  "split_bucket dwOldBkt dwNewBkt t w =
     do { pbktOld \<leftarrow> Bucket dwOldBkt t;
          pbktNew \<leftarrow> Bucket dwNewBkt t;
          let t1 = trace [BucketWriteLock dwOldBkt, BucketWriteLock dwNewBkt] t;
          let (granted, w1) = (if tl pbktOld \<noteq> [] then heap_request sizeof_CNodeClump w else (True, w));
          if \<not> granted
          then Some (LK_ALLOC_FAIL,
                     trace [TableWriteUnlock, BucketWriteUnlock dwNewBkt, BucketWriteUnlock dwOldBkt]
                       (t1\<lparr>m_cActiveBuckets := m_cActiveBuckets t1 - 1\<rparr>), w1)
          else do {
            let t2 = trace [TableWriteUnlock] (advance_level t1);
            (old, new, w2) \<leftarrow> SplitRecordSet pbktOld (m_iExpansionIdx t2) (m_dwBktAddrMask0 t2) dwNewBkt
                               (if tl pbktOld \<noteq> [] then 1 else 0) w1;
            t3 \<leftarrow> put_Bucket dwOldBkt old t2;
            t4 \<leftarrow> put_Bucket dwNewBkt new t3;
            Some (LK_SUCCESS, trace [BucketWriteUnlock dwNewBkt, BucketWriteUnlock dwOldBkt] t4, w2) } }"

definition Expand :: "'r lkr \<Rightarrow> world \<Rightarrow> (lk_retcode \<times> 'r lkr \<times> world) option" where
  "Expand t w =
     (if m_cActiveBuckets t \<ge> MAX_DIRSIZE * m_dwSegSize t - 1 then Some (LK_ALLOC_FAIL, t, w)
      else do {
        (grown, t, w) \<leftarrow> GrowDirectory (trace [TableWriteLock] t) w;
        if \<not> grown then Some (LK_ALLOC_FAIL, trace [TableWriteUnlock] t, w)
        else do {
          let dwOldBkt = m_iExpansionIdx t;
          let dwNewBkt = dword (2 ^ m_nLevel t) OR dwOldBkt;
          psegNew \<leftarrow> Segment dwNewBkt t;
          let (psegNew', w1) = (if psegNew = None then AllocateSegment t w else (psegNew, w));
          if psegNew' = None then Some (LK_ALLOC_FAIL, trace [TableWriteUnlock] t, w1)
          else do {
            t1 \<leftarrow> put_Segment dwNewBkt psegNew' (t\<lparr>m_cActiveBuckets := m_cActiveBuckets t + 1\<rparr>);
            split_bucket dwOldBkt dwNewBkt t1 w1 } } })"

text \<open>The state variables after one bucket less.\<close>

definition retreat_level :: "'r lkr \<Rightarrow> 'r lkr" where
  "retreat_level t =
     (if m_iExpansionIdx t > 0 then t\<lparr>m_iExpansionIdx := m_iExpansionIdx t - 1\<rparr>
      else t\<lparr>m_nLevel := m_nLevel t - 1, m_iExpansionIdx := dword_sub (dword (2 ^ (m_nLevel t - 1))) 1,
             m_dwBktAddrMask0 := drop_bit 1 (m_dwBktAddrMask0 t),
             m_dwBktAddrMask1 := drop_bit 1 (m_dwBktAddrMask1 t)\<rparr>)"

text \<open>The items of the bucket that goes away less the empty slots of the one that takes them.\<close>

definition count_slots :: "('r clump \<Rightarrow> nat \<Rightarrow> bool) \<Rightarrow> 'r bucket \<Rightarrow> nat" where
  "count_slots P ch = sum_list (map (\<lambda>pnc. length (filter (P pnc) [0..<NODES_PER_CLUMP])) ch)"

definition surplus_items :: "'r bucket \<Rightarrow> 'r bucket \<Rightarrow> int" where
  "surplus_items pbktLast pbktNew =
     int (count_slots (\<lambda>pnc i. \<not> IsEmptySlot pnc i) pbktLast) - int (count_slots IsEmptySlot pbktNew)"

text \<open>The clumps allocated in advance for \<open>_MergeRecordSets\<close>, \<open>None\<close> when one is refused.\<close>

definition merge_clumps :: "int \<Rightarrow> world \<Rightarrow> nat option \<times> world" where
  "merge_clumps c w =
     (if c > 0
      then (let (granted, w1) = heap_request sizeof_CNodeClump w in
            if \<not> granted then (None, w1)
            else if c > int NODES_PER_CLUMP
            then (let (granted2, w2) = heap_request sizeof_CNodeClump w1
                  in if \<not> granted2 then (None, HeapFree w2) else (Some 2, w2))
            else (Some 1, w1))
      else (Some 0, w))"

definition ShrinkDirectory :: "'r lkr \<Rightarrow> world \<Rightarrow> ('r lkr \<times> world) option" where
  "ShrinkDirectory t w =
     (if m_cActiveBuckets t \<le> drop_bit 1 (dword (m_cDirSegs t * m_dwSegSize t)) \<and> m_cDirSegs t > MIN_DIRSIZE
      then do { let cDirSegsNew = drop_bit 1 (m_cDirSegs t);
                (paNew, w1) \<leftarrow> AllocateSegmentDirectory cDirSegsNew w;
                if paNew \<noteq> None
                then do { dir \<leftarrow> m_paDirSegs t;
                          paDirSegsNew \<leftarrow> do { old \<leftarrow> mem_read 0 cDirSegsNew dir; mem_write 0 old (the paNew) };
                          let (t1, w2) = FreeSegmentDirectory
                            (t\<lparr>m_paDirSegs := Some (replicate (m_cDirSegs t) None @ drop (m_cDirSegs t) dir)\<rparr>) w1;
                          Some (t1\<lparr>m_paDirSegs := Some paDirSegsNew, m_cDirSegs := cDirSegsNew\<rparr>, w2) }
                else Some (t, w1) }
      else Some (t, w))"

text \<open>The last bucket is cleared, and its segment and half of the directory are given back where possible.\<close>

definition vacate_bucket :: "nat \<Rightarrow> 'r lkr \<Rightarrow> world \<Rightarrow> ('r lkr \<times> world) option" where
  "vacate_bucket dwLast t w =
     do { t1 \<leftarrow> put_Bucket dwLast [clump_Clear] t;
          let t1 = trace [BucketWriteUnlock dwLast] t1;
          (t2, w1) \<leftarrow> (if SegIndex dwLast t1 = 0
                       then do { pseg \<leftarrow> Segment dwLast t1;
                                 t2 \<leftarrow> put_Segment dwLast None t1;
                                 Some (t2, FreeSegment pseg w) }
                       else Some (t1, w));
          (t3, w2) \<leftarrow> ShrinkDirectory t2 w1;
          Some (trace [TableWriteUnlock] t3, w2) }"

definition Contract :: "'r lkr \<Rightarrow> world \<Rightarrow> (lk_retcode \<times> 'r lkr \<times> world) option" where
  "Contract t w =
     do { let t = trace [TableWriteLock] t;
          if m_cActiveBuckets t \<le> m_dwSegSize t then Some (LK_ALLOC_FAIL, trace [TableWriteUnlock] t, w)
          else do {
            let t1 = retreat_level t;
            let dwLast = m_cActiveBuckets t1 - 1;
            let dwNew = m_iExpansionIdx t1;
            pbktLast \<leftarrow> Bucket dwLast t1;
            pbktNew \<leftarrow> Bucket dwNew t1;
            let t2 = trace [BucketWriteLock dwLast, BucketWriteLock dwNew] (t1\<lparr>m_cActiveBuckets := dwLast\<rparr>);
            let (free, w1) = merge_clumps (surplus_items pbktLast pbktNew) w;
            if free = None
            then Some (LK_ALLOC_FAIL,
                       trace [BucketWriteUnlock dwLast, BucketWriteUnlock dwNew, TableWriteUnlock]
                         ((advance_level t2)\<lparr>m_cActiveBuckets := dwLast + 1\<rparr>), w1)
            else do {
              (t3, w2) \<leftarrow> vacate_bucket dwLast t2 w1;
              (merged, w3) \<leftarrow> MergeRecordSets pbktNew pbktLast (the free) w2;
              t4 \<leftarrow> put_Bucket dwNew merged t3;
              Some (LK_SUCCESS, trace [BucketWriteUnlock dwNew] t4, w3) } } }"

text \<open>The loops that restore the load factor. They stop when a step fails.\<close>

definition over_limit :: "'r lkr \<Rightarrow> bool" where
  "over_limit t \<longleftrightarrow> of_nat (m_cRecords t) > m_MaxLoad t * of_nat (m_cActiveBuckets t)"

partial_function (option) expand_loop :: "'r lkr \<Rightarrow> world \<Rightarrow> ('r lkr \<times> world) option" where
  "expand_loop t w =
     (if over_limit t
      then do { (lkrc, t1, w1) \<leftarrow> Expand t w;
                if lkrc \<noteq> LK_SUCCESS then Some (t1, w1) else expand_loop t1 w1 }
      else Some (t, w))"

definition under_limit :: "nat \<Rightarrow> 'r lkr \<Rightarrow> bool" where
  "under_limit nContractedRecords t \<longleftrightarrow>
     of_nat (m_cActiveBuckets t) * m_MaxLoad t > of_nat nContractedRecords \<and> m_cActiveBuckets t > m_dwSegSize t"

partial_function (option) contract_loop :: "nat \<Rightarrow> 'r lkr \<Rightarrow> world \<Rightarrow> ('r lkr \<times> world) option" where
  "contract_loop n t w =
     (if under_limit n t
      then do { (lkrc, t1, w1) \<leftarrow> Contract t w;
                if lkrc \<noteq> LK_SUCCESS then Some (t1, w1) else contract_loop n t1 w1 }
      else Some (t, w))"

text \<open>The hysteresis of the deletions.\<close>

definition contraction_mark :: "'r lkr \<Rightarrow> nat" where
  "contraction_mark t = dword (m_cRecords t + drop_bit 4 (m_cRecords t))"

end
