(* ===== verification/LkrOps.thy ===== *)
theory LkrOps
  imports Lkr
begin

text \<open>
  \<open>TestLKRHashing.cpp\<close>, continued: the operations of CLKRLinearHashTable on records (insert, find, delete,
  the walks with a predicate, Clear, CheckTable, the destructor) over the routines of \<open>Lkr\<close>.

  The callbacks that depend on the record type are the record \<open>methods\<close> of the theory HashTable; a key is a
  DWORD_PTR, compared by value before EqualKeys is asked. An iterator into the table is the bucket address,
  the position of the clump in its chain and the slot.
\<close>

type_synonym iterator = "nat \<times> nat \<times> nat"

definition lkr_CalcKeyHash :: "('r, 'k) methods \<Rightarrow> 'k \<Rightarrow> DWORD" where
  "lkr_CalcKeyHash M key = HashRandomizeBits (CalcKeyHash M key)"

section \<open>Insertion\<close>

text \<open>From the label \<open>exit\<close> on.\<close>

definition insert_exit ::
  "lk_retcode \<Rightarrow> iterator option \<Rightarrow> bool \<Rightarrow> 'r option \<Rightarrow> 'r lkr \<Rightarrow> world \<Rightarrow>
     (lk_retcode \<times> iterator option \<times> 'r lkr \<times> world) option" where
  "insert_exit lkrc it fIter pvRecord t w =
     (if lkrc \<noteq> LK_SUCCESS then Some (lkrc, None, t, w)
      else if fIter then Some (lkrc, it, trace [AddRefRecord pvRecord 1] t, w)
      else do { (t1, w1) \<leftarrow> expand_loop t w; Some (lkrc, None, t1, w1) })"

text \<open>The two assignments and what precedes them, in slot \<open>(j, i)\<close> of bucket \<open>a\<close>; \<open>old\<close> is the record that is
  overwritten.\<close>

definition store_record ::
  "nat \<Rightarrow> 'r bucket \<Rightarrow> nat \<Rightarrow> nat \<Rightarrow> DWORD \<Rightarrow> 'r \<Rightarrow> 'r option option \<Rightarrow> 'r lkr \<Rightarrow> 'r lkr option" where
  "store_record a ch j i sig r old t =
     do { ch' \<leftarrow> put_slot j i sig (Some r) ch;
          let t1 = (case old of Some pv \<Rightarrow> trace [AddRefRecord (Some r) 1, AddRefRecord pv (- 1)] t
                    | None \<Rightarrow> (trace [AddRefRecord (Some r) 1] t)\<lparr>m_cRecords := dword (m_cRecords t + 1)\<rparr>);
          put_Bucket a ch' t1 }"

definition lkr_InsertRecord ::
  "('r, 'k) methods \<Rightarrow> 'r \<Rightarrow> DWORD \<Rightarrow> bool \<Rightarrow> bool \<Rightarrow> 'r lkr \<Rightarrow> world \<Rightarrow>
     (lk_retcode \<times> iterator option \<times> 'r lkr \<times> world) option" where
  "lkr_InsertRecord M r dwSignature fOverwrite fIter t w =
     do { let a = BucketAddress dwSignature t;
          let t = trace [TableWriteLock, BucketWriteLock a, TableWriteUnlock] t;
          ch \<leftarrow> Bucket a t;
          let pnKey = ExtractKey M (Some r);
          let hit = (\<lambda>sig pv. dwSignature = sig \<and> (Some r = pv \<or> EqualKeys M pnKey (ExtractKey M pv)));
          case walk_chain hit 0 ch of
            AtHit j i \<Rightarrow>
              if fOverwrite
              then do { c \<leftarrow> mem_get j ch; pv \<leftarrow> mem_get i (m_pvNode c);
                        t1 \<leftarrow> store_record a ch j i dwSignature r (Some pv) t;
                        insert_exit LK_SUCCESS (Some (a, j, i)) fIter (Some r) (trace [BucketWriteUnlock a] t1) w }
              else insert_exit LK_KEY_EXISTS None fIter (Some r) (trace [BucketWriteUnlock a] t) w
          | AtEmpty j i \<Rightarrow>
              do { t1 \<leftarrow> store_record a ch j i dwSignature r None t;
                   insert_exit LK_SUCCESS (Some (a, j, i)) fIter (Some r) (trace [BucketWriteUnlock a] t1) w }
          | AtEnd \<Rightarrow>
              (let (granted, w1) = heap_request sizeof_CNodeClump w in
               if \<not> granted then insert_exit LK_ALLOC_FAIL None fIter (Some r) (trace [BucketWriteUnlock a] t) w1
               else do { t1 \<leftarrow> store_record a (ch @ [clump_Clear]) (length ch) 0 dwSignature r None t;
                         insert_exit LK_SUCCESS (Some (a, length ch, 0)) fIter (Some r)
                           (trace [BucketWriteUnlock a] t1) w1 }) }"

text \<open>The public InsertRecord; \<open>None\<close> as the record is NULL.\<close>

definition LinearHashTable_InsertRecord ::
  "('r, 'k) methods \<Rightarrow> 'r option \<Rightarrow> bool \<Rightarrow> 'r lkr \<Rightarrow> world \<Rightarrow> (lk_retcode \<times> 'r lkr \<times> world) option" where
  "LinearHashTable_InsertRecord M pvRecord fOverwrite t w =
     (if \<not> IsUsable t then Some (m_lkrcState t, t, w)
      else case pvRecord of
        None \<Rightarrow> Some (LK_BAD_RECORD, t, w)
      | Some r \<Rightarrow> do { (lkrc, _, t1, w1) \<leftarrow>
                        lkr_InsertRecord M r (lkr_CalcKeyHash M (ExtractKey M (Some r))) fOverwrite False t w;
                      Some (lkrc, t1, w1) })"

section \<open>Lookup\<close>

text \<open>The result, the record, the iterator position; a found record gets a reference.\<close>

definition lkr_FindKey ::
  "('r, 'k) methods \<Rightarrow> 'k \<Rightarrow> DWORD \<Rightarrow> 'r lkr \<Rightarrow> (lk_retcode \<times> 'r option \<times> iterator option \<times> 'r lkr) option" where
  "lkr_FindKey M pnKey dwSignature t =
     do { let a = BucketAddress dwSignature t;
          let t = trace [TableReadOrWriteLock, BucketReadLock a, TableReadOrWriteUnlock] t;
          ch \<leftarrow> Bucket a t;
          case walk_chain (\<lambda>sig pv. dwSignature = sig \<and>
                 (let pnKey2 = ExtractKey M pv in pnKey = pnKey2 \<or> EqualKeys M pnKey pnKey2)) 0 ch of
            AtHit j i \<Rightarrow>
              do { c \<leftarrow> mem_get j ch; pv \<leftarrow> mem_get i (m_pvNode c);
                   Some (LK_SUCCESS, pv, Some (a, j, i), trace [AddRefRecord pv 1, BucketReadUnlock a] t) }
          | _ \<Rightarrow> Some (LK_NO_SUCH_KEY, None, None, trace [BucketReadUnlock a] t) }"

text \<open>\<open>fPtr\<close> says that the pointer to the result is not NULL.\<close>

definition LinearHashTable_FindKey ::
  "('r, 'k) methods \<Rightarrow> 'k \<Rightarrow> bool \<Rightarrow> 'r lkr \<Rightarrow> (lk_retcode \<times> 'r option \<times> 'r lkr) option" where
  "LinearHashTable_FindKey M pnKey fPtr t =
     (if \<not> IsUsable t then Some (m_lkrcState t, None, t)
      else if \<not> fPtr then Some (LK_BAD_RECORD, None, t)
      else do { (lkrc, pv, _, t1) \<leftarrow> lkr_FindKey M pnKey (lkr_CalcKeyHash M pnKey) t; Some (lkrc, pv, t1) })"

definition lkr_FindRecord :: "'r \<Rightarrow> DWORD \<Rightarrow> 'r lkr \<Rightarrow> (lk_retcode \<times> 'r lkr) option" where
  "lkr_FindRecord r dwSignature t =
     do { let a = BucketAddress dwSignature t;
          let t = trace [TableReadOrWriteLock, BucketReadLock a, TableReadOrWriteUnlock] t;
          ch \<leftarrow> Bucket a t;
          Some (case walk_chain (\<lambda>sig pv. pv = Some r) 0 ch of AtHit j i \<Rightarrow> LK_SUCCESS | _ \<Rightarrow> LK_NO_SUCH_KEY,
                trace [BucketReadUnlock a] t) }"

definition LinearHashTable_FindRecord ::
  "('r, 'k) methods \<Rightarrow> 'r option \<Rightarrow> 'r lkr \<Rightarrow> (lk_retcode \<times> 'r lkr) option" where
  "LinearHashTable_FindRecord M pvRecord t =
     (if \<not> IsUsable t then Some (m_lkrcState t, t)
      else case pvRecord of
        None \<Rightarrow> Some (LK_BAD_RECORD, t)
      | Some r \<Rightarrow> lkr_FindRecord r (lkr_CalcKeyHash M (ExtractKey M (Some r))) t)"

section \<open>Deletion\<close>

text \<open>\<open>_DeleteNode\<close> on slot \<open>(j, i)\<close> of bucket \<open>a\<close>: the position it leaves, and whether a clump was freed.\<close>

definition lkr_DeleteNode :: "nat \<Rightarrow> nat \<Rightarrow> nat \<Rightarrow> 'r lkr \<Rightarrow> world \<Rightarrow> ((nat \<times> int) \<times> 'r lkr \<times> world) option" where
  "lkr_DeleteNode a j i t w =
     do { ch \<leftarrow> Bucket a t;
          c \<leftarrow> mem_get j ch;
          pv \<leftarrow> mem_get i (m_pvNode c);
          (ch', freed, pos) \<leftarrow> DeleteNode_chain ch j i;
          t1 \<leftarrow> put_Bucket a ch' (trace [AddRefRecord pv (- 1)] t);
          Some (pos, t1\<lparr>m_cRecords := dword_sub (m_cRecords t1) 1\<rparr>, if freed then HeapFree w else w) }"

text \<open>The part \<open>_DeleteKey\<close> and \<open>_DeleteRecord\<close> share: walk, delete, unlock, contract.\<close>

definition delete_hit ::
  "(DWORD \<Rightarrow> 'r option \<Rightarrow> bool) \<Rightarrow> DWORD \<Rightarrow> 'r lkr \<Rightarrow> world \<Rightarrow> (lk_retcode \<times> 'r lkr \<times> world) option" where
  "delete_hit hit dwSignature t w =
     do { let a = BucketAddress dwSignature t;
          let t = trace [TableWriteLock, BucketWriteLock a, TableWriteUnlock] t;
          ch \<leftarrow> Bucket a t;
          case walk_chain hit 0 ch of
            AtHit j i \<Rightarrow>
              do { (_, t1, w1) \<leftarrow> lkr_DeleteNode a j i t w;
                   let t1 = trace [BucketWriteUnlock a] t1;
                   (t2, w2) \<leftarrow> contract_loop (contraction_mark t1) t1 w1;
                   Some (LK_SUCCESS, t2, w2) }
          | _ \<Rightarrow> Some (LK_NO_SUCH_KEY, trace [BucketWriteUnlock a] t, w) }"

definition lkr_DeleteKey ::
  "('r, 'k) methods \<Rightarrow> 'k \<Rightarrow> DWORD \<Rightarrow> 'r lkr \<Rightarrow> world \<Rightarrow> (lk_retcode \<times> 'r lkr \<times> world) option" where
  "lkr_DeleteKey M pnKey dwSignature t w =
     delete_hit (\<lambda>sig pv. dwSignature = sig \<and>
       (let pnKey2 = ExtractKey M pv in pnKey = pnKey2 \<or> EqualKeys M pnKey pnKey2)) dwSignature t w"

definition lkr_DeleteRecord :: "'r \<Rightarrow> DWORD \<Rightarrow> 'r lkr \<Rightarrow> world \<Rightarrow> (lk_retcode \<times> 'r lkr \<times> world) option" where
  "lkr_DeleteRecord r dwSignature t w = delete_hit (\<lambda>sig pv. pv = Some r) dwSignature t w"

definition LinearHashTable_DeleteKey ::
  "('r, 'k) methods \<Rightarrow> 'k \<Rightarrow> 'r lkr \<Rightarrow> world \<Rightarrow> (lk_retcode \<times> 'r lkr \<times> world) option" where
  "LinearHashTable_DeleteKey M pnKey t w =
     (if \<not> IsUsable t then Some (m_lkrcState t, t, w)
      else lkr_DeleteKey M pnKey (lkr_CalcKeyHash M pnKey) t w)"

definition LinearHashTable_DeleteRecord ::
  "('r, 'k) methods \<Rightarrow> 'r option \<Rightarrow> 'r lkr \<Rightarrow> world \<Rightarrow> (lk_retcode \<times> 'r lkr \<times> world) option" where
  "LinearHashTable_DeleteRecord M pvRecord t w =
     (if \<not> IsUsable t then Some (m_lkrcState t, t, w)
      else case pvRecord of
        None \<Rightarrow> Some (LK_BAD_RECORD, t, w)
      | Some r \<Rightarrow> lkr_DeleteRecord r (lkr_CalcKeyHash M (ExtractKey M (Some r))) t w)"

section \<open>Walks with a predicate\<close>

datatype lk_predicate = LKP_ABORT | LKP_NO_ACTION | LKP_PERFORM | LKP_PERFORM_STOP | LKP_DELETE | LKP_DELETE_STOP

datatype lk_action = LKA_ABORT | LKA_FAILED | LKA_SUCCEEDED

datatype lk_locktype = LKL_READLOCK | LKL_WRITELOCK

text \<open>What the switch over the predicate's answer decides for a record: whether the node is deleted and
  whether the walk stops. The state of a walk is the last answer, the count of actions and what \<open>pvState\<close>
  points to.\<close>

type_synonym 's walking = "lk_predicate \<times> nat \<times> 's"
type_synonym ('r, 's) visitor = "'r option \<Rightarrow> 's walking \<Rightarrow> (bool \<times> bool) \<times> 's walking"

definition DeleteIf_visit :: "('r option \<Rightarrow> 's \<Rightarrow> lk_predicate \<times> 's) \<Rightarrow> ('r, 's) visitor" where
  "DeleteIf_visit pfnPredicate pv st =
     (let (_, cActions, s) = st; (lkp, s') = pfnPredicate pv s in
      case lkp of
        LKP_ABORT \<Rightarrow> ((False, True), lkp, cActions, s')
      | LKP_NO_ACTION \<Rightarrow> ((False, False), lkp, cActions, s')
      | _ \<Rightarrow> ((True, lkp = LKP_PERFORM_STOP \<or> lkp = LKP_DELETE_STOP), lkp, dword (cActions + 1), s'))"

definition ApplyIf_visit ::
  "('r option \<Rightarrow> 's \<Rightarrow> lk_predicate \<times> 's) \<Rightarrow> ('r option \<Rightarrow> 's \<Rightarrow> lk_action \<times> 's) \<Rightarrow> lk_locktype \<Rightarrow> ('r, 's) visitor" where
  "ApplyIf_visit pfnPredicate pfnAction lkl pv st =
     (let (_, cActions, s) = st; (lkp, s1) = pfnPredicate pv s in
      case lkp of
        LKP_ABORT \<Rightarrow> ((False, True), lkp, cActions, s1)
      | LKP_NO_ACTION \<Rightarrow> ((False, False), lkp, cActions, s1)
      | _ \<Rightarrow>
          if lkp = LKP_DELETE \<or> lkp = LKP_DELETE_STOP
          then if lkl \<noteq> LKL_WRITELOCK then ((False, True), lkp, cActions, s1)
               else ((True, lkp = LKP_DELETE_STOP), lkp, dword (cActions + 1), s1)
          else (let (lka, s2) = pfnAction pv s1 in
                case lka of
                  LKA_ABORT \<Rightarrow> ((False, True), lkp, cActions, s2)
                | LKA_FAILED \<Rightarrow> ((False, lkp = LKP_PERFORM_STOP), lkp, cActions, s2)
                | LKA_SUCCEEDED \<Rightarrow> ((False, lkp = LKP_PERFORM_STOP), lkp, dword (cActions + 1), s2)))"

text \<open>The two inner loops, from slot \<open>i\<close> of clump \<open>j\<close> on; the flag of the result says that the walk stops
  altogether. After a deletion the loop goes on one past the position that \<open>_DeleteNode\<close> leaves.\<close>

partial_function (option) visit_bucket ::
  "('r, 's) visitor \<Rightarrow> nat \<Rightarrow> nat \<Rightarrow> nat \<Rightarrow> 's walking \<Rightarrow> 'r lkr \<Rightarrow> world \<Rightarrow>
     (bool \<times> 's walking \<times> 'r lkr \<times> world) option" where
  "visit_bucket visit a j i st t w =
     do { ch \<leftarrow> Bucket a t;
          if j \<ge> length ch then Some (False, st, t, w)
          else if i \<ge> NODES_PER_CLUMP then visit_bucket visit a (j + 1) 0 st t w
          else if IsEmptySlot (ch ! j) i then Some (False, st, t, w)
          else do {
            pv \<leftarrow> mem_get i (m_pvNode (ch ! j));
            let ((del, stop), st1) = visit pv st;
            if del
            then do { ((j', i'), t1, w1) \<leftarrow> lkr_DeleteNode a j i t w;
                      if stop then Some (True, st1, t1, w1) else visit_bucket visit a j' (nat (i' + 1)) st1 t1 w1 }
            else if stop then Some (True, st1, t, w) else visit_bucket visit a j (i + 1) st1 t w } }"

definition lock_bucket :: "lk_locktype \<Rightarrow> nat \<Rightarrow> 'r event" where
  "lock_bucket lkl a = (if lkl = LKL_WRITELOCK then BucketWriteLock a else BucketReadLock a)"

definition unlock_bucket :: "lk_locktype \<Rightarrow> nat \<Rightarrow> 'r event" where
  "unlock_bucket lkl a = (if lkl = LKL_WRITELOCK then BucketWriteUnlock a else BucketReadUnlock a)"

fun visit_table ::
  "('r, 's) visitor \<Rightarrow> lk_locktype \<Rightarrow> nat \<Rightarrow> nat \<Rightarrow> 's walking \<Rightarrow> 'r lkr \<Rightarrow> world \<Rightarrow> ('s walking \<times> 'r lkr \<times> world) option" where
  "visit_table visit lkl iBkt 0 st t w = Some (st, t, w)"
| "visit_table visit lkl iBkt (Suc left) st t w =
     do { (stopped, st1, t1, w1) \<leftarrow> visit_bucket visit iBkt 0 0 st (trace [lock_bucket lkl iBkt] t) w;
          let t1 = trace [unlock_bucket lkl iBkt] t1;
          if stopped then Some (st1, t1, w1) else visit_table visit lkl (iBkt + 1) left st1 t1 w1 }"

text \<open>The public DeleteIf and ApplyIf of the linear table, with \<open>_DeleteIf\<close> and \<open>_ApplyIf\<close> inside: the count of
  actions, and what the callbacks made of their state. \<open>None\<close> as the count is the cast of LK_UNUSABLE.\<close>

definition LinearHashTable_DeleteIf ::
  "('r option \<Rightarrow> 's \<Rightarrow> lk_predicate \<times> 's) \<Rightarrow> 's \<Rightarrow> 'r lkr \<Rightarrow> world \<Rightarrow> (nat option \<times> 's \<times> 'r lkr \<times> world) option" where
  "LinearHashTable_DeleteIf pfnPredicate s t w =
     (if \<not> IsUsable t then Some (None, s, t, w)
      else do { let (valid, t) = IsValid (trace [TableWriteLock] t);
                ((_, dw, s'), t1, w1) \<leftarrow>
                  (if valid
                   then visit_table (DeleteIf_visit pfnPredicate) LKL_WRITELOCK 0 (m_cActiveBuckets t) (LKP_PERFORM, 0, s) t w
                   else Some ((LKP_PERFORM, 0, s), t, w));
                Some (Some dw, s', trace [TableWriteUnlock] t1, w1) })"

definition LinearHashTable_ApplyIf ::
  "('r option \<Rightarrow> 's \<Rightarrow> lk_predicate \<times> 's) \<Rightarrow> ('r option \<Rightarrow> 's \<Rightarrow> lk_action \<times> 's) \<Rightarrow> lk_locktype \<Rightarrow> 's \<Rightarrow> 'r lkr \<Rightarrow> world \<Rightarrow>
     (nat option \<times> 's \<times> 'r lkr \<times> world) option" where
  "LinearHashTable_ApplyIf pfnPredicate pfnAction lkl s t w =
     (if \<not> IsUsable t then Some (None, s, t, w)
      else do { let (valid, t) = IsValid (trace [if lkl = LKL_WRITELOCK then TableWriteLock else TableReadLock] t);
                ((_, dw, s'), t1, w1) \<leftarrow>
                  (if valid
                   then visit_table (ApplyIf_visit pfnPredicate pfnAction lkl) lkl 0 (m_cActiveBuckets t) (LKP_PERFORM, 0, s) t w
                   else Some ((LKP_PERFORM, 0, s), t, w));
                Some (Some dw, s', trace [if lkl = LKL_WRITELOCK then TableWriteUnlock else TableReadUnlock] t1, w1) })"

text \<open>Apply is ApplyIf with the predicate that always says LKP_PERFORM, without the check of IsValid.\<close>

definition LinearHashTable_Apply ::
  "('r option \<Rightarrow> 's \<Rightarrow> lk_action \<times> 's) \<Rightarrow> lk_locktype \<Rightarrow> 's \<Rightarrow> 'r lkr \<Rightarrow> world \<Rightarrow> (nat option \<times> 's \<times> 'r lkr \<times> world) option" where
  "LinearHashTable_Apply pfnAction lkl s t w =
     (if \<not> IsUsable t then Some (None, s, t, w)
      else do { let t = trace [if lkl = LKL_WRITELOCK then TableWriteLock else TableReadLock] t;
                ((_, dw, s'), t1, w1) \<leftarrow>
                  visit_table (ApplyIf_visit (\<lambda>_ s. (LKP_PERFORM, s)) pfnAction lkl) lkl 0 (m_cActiveBuckets t)
                    (LKP_PERFORM, 0, s) t w;
                Some (Some dw, s', trace [if lkl = LKL_WRITELOCK then TableWriteUnlock else TableReadUnlock] t1, w1) })"

section \<open>Clear and the destructor\<close>

text \<open>The slots of one clump up to the first empty one: the clump afterwards and the records released.\<close>

fun clear_slots :: "'r clump \<Rightarrow> nat list \<Rightarrow> 'r clump \<times> 'r option list" where
  "clear_slots c [] = (c, [])"
| "clear_slots c (i # is) =
     (if IsEmptySlot c i then (c, [])
      else (let (c', pvs) = clear_slots
              (c\<lparr>m_pvNode := (m_pvNode c)[i := None], m_dwKeySigs := (m_dwKeySigs c)[i := HASH_INVALID_SIGNATURE]\<rparr>) is
            in (c', m_pvNode c ! i # pvs)))"

fun clear_clumps :: "'r bucket \<Rightarrow> 'r lkr \<Rightarrow> world \<Rightarrow> 'r lkr \<times> world" where
  "clear_clumps [] t w = (t, w)"
| "clear_clumps (c # cs) t w =
     (let (_, pvs) = clear_slots c [0..<NODES_PER_CLUMP];
          t1 = (trace (map (\<lambda>pv. AddRefRecord pv (- 1)) pvs) t)\<lparr>m_cRecords := (dword_sub (m_cRecords t) (dword (length pvs)))\<rparr>
      in clear_clumps cs t1 (HeapFree w))"

fun clear_buckets :: "nat \<Rightarrow> nat \<Rightarrow> 'r lkr \<Rightarrow> world \<Rightarrow> ('r lkr \<times> world) option" where
  "clear_buckets iBkt 0 t w = Some (t, w)"
| "clear_buckets iBkt (Suc left) t w =
     do { ch \<leftarrow> Bucket iBkt t;
          c \<leftarrow> mem_get 0 ch;
          let (c', pvs) = clear_slots c [0..<NODES_PER_CLUMP];
          t1 \<leftarrow> put_Bucket iBkt [c'] (trace (BucketWriteLock iBkt # map (\<lambda>pv. AddRefRecord pv (- 1)) pvs) t);
          let (t2, w1) = clear_clumps (tl ch) (t1\<lparr>m_cRecords := dword_sub (m_cRecords t1) (dword (length pvs))\<rparr>) w;
          clear_buckets (iBkt + 1) left (trace [BucketWriteUnlock iBkt] t2) w1 }"

text \<open>Segment by segment, as long as the first address of the segment is below the number of buckets.\<close>

fun clear_segments :: "nat \<Rightarrow> nat \<Rightarrow> 'r lkr \<Rightarrow> world \<Rightarrow> ('r lkr \<times> world) option" where
  "clear_segments k 0 t w = Some (t, w)"
| "clear_segments k (Suc left) t w =
     do { pseg \<leftarrow> Segment (k * m_dwSegSize t) t;
          t1 \<leftarrow> put_Segment (k * m_dwSegSize t) None t;
          clear_segments (k + 1) left t1 (FreeSegment pseg w) }"

definition lkr_Clear :: "bool \<Rightarrow> 'r lkr \<Rightarrow> world \<Rightarrow> ('r lkr \<times> world) option" where
  "lkr_Clear fShrinkDirectory t w =
     (if \<not> IsUsable t then Some (t, w)
      else if fShrinkDirectory \<and> m_cRecords t = 0 then Some (t, w)
      else do {
        (t1, w1) \<leftarrow> clear_buckets 0 (m_cActiveBuckets t) t w;
        (t2, w2) \<leftarrow> clear_segments 0 ((m_cActiveBuckets t1 + m_dwSegSize t1 - 1) div m_dwSegSize t1) t1 w1;
        let (t3, w3) = FreeSegmentDirectory t2 w2;
        let t4 = t3\<lparr>m_nLevel := 0, m_cActiveBuckets := 0, m_iExpansionIdx := 0, m_dwBktAddrMask0 := 1,
                    m_dwBktAddrMask1 := 3\<rparr>;
        if fShrinkDirectory
        then do { (_, t5, w4) \<leftarrow> SetSegVars (m_lkts t4) (init_size (m_lkts t4)) t4 w3; Some (t5, w4) }
        else Some (t4, w3) })"

definition LinearHashTable_Clear :: "'r lkr \<Rightarrow> world \<Rightarrow> ('r lkr \<times> world) option" where
  "LinearHashTable_Clear t w =
     do { (t1, w1) \<leftarrow> lkr_Clear True (trace [TableWriteLock] t) w; Some (trace [TableWriteUnlock] t1, w1) }"

definition LinearHashTable_dtor :: "'r lkr \<Rightarrow> world \<Rightarrow> ('r lkr \<times> world) option" where
  "LinearHashTable_dtor t w =
     do { (t1, w1) \<leftarrow> lkr_Clear False (trace [TableWriteLock] t) w;
          Some ((trace [TableWriteUnlock] t1)\<lparr>m_lkrcState := LK_UNUSABLE\<rparr>, w1) }"

section \<open>CheckTable\<close>

text \<open>\<open>(cMisplaced, cRecords, retcode)\<close> over the slots of a clump; the last flag says that it is the last clump.\<close>

fun check_slots ::
  "('r, 'k) methods \<Rightarrow> 'r lkr \<Rightarrow> nat \<Rightarrow> 'r clump \<Rightarrow> bool \<Rightarrow> nat list \<Rightarrow> nat \<times> nat \<times> nat \<Rightarrow> nat \<times> nat \<times> nat" where
  "check_slots M t i c isLast [] st = st"
| "check_slots M t i c isLast (j # js) (cMisplaced, cRecords, retcode) =
     (if IsEmptySlot c j
      then (cMisplaced, cRecords, retcode + of_bool (\<not> isLast) +
             sum_list (map (\<lambda>k. of_bool (\<not> IsEmptyNode c k) + of_bool (\<not> InvalidSignature c k)) (j # js)))
      else (let dwSignature = lkr_CalcKeyHash M (ExtractKey M (m_pvNode c ! j));
                address = BucketAddress dwSignature t;
                ok = (dwSignature = m_dwKeySigs c ! j)
            in check_slots M t i c isLast js
                 (cMisplaced + of_bool (address \<noteq> i \<or> \<not> ok), cRecords + 1,
                  retcode + of_bool (dwSignature = HASH_INVALID_SIGNATURE) + of_bool (\<not> ok) + of_bool (address \<noteq> i))))"

fun check_clumps ::
  "('r, 'k) methods \<Rightarrow> 'r lkr \<Rightarrow> nat \<Rightarrow> 'r bucket \<Rightarrow> nat \<times> nat \<times> nat \<Rightarrow> nat \<times> nat \<times> nat" where
  "check_clumps M t i [] st = st"
| "check_clumps M t i (c # cs) st =
     check_clumps M t i cs (check_slots M t i c (cs = []) [0..<NODES_PER_CLUMP] st)"

fun check_buckets ::
  "('r, 'k) methods \<Rightarrow> nat \<Rightarrow> nat \<Rightarrow> nat \<times> nat \<times> nat \<Rightarrow> 'r lkr \<Rightarrow> ((nat \<times> nat \<times> nat) \<times> 'r lkr) option" where
  "check_buckets M i 0 st t = Some (st, t)"
| "check_buckets M i (Suc left) st t =
     do { pbkt \<leftarrow> Bucket i t;
          check_buckets M (i + 1) left (check_clumps M t i pbkt st) (trace [BucketReadLock i, BucketReadUnlock i] t) }"

text \<open>\<open>Inl\<close> is LK_UNUSABLE, \<open>Inr\<close> the number of errors found.\<close>

definition LinearHashTable_CheckTable :: "('r, 'k) methods \<Rightarrow> 'r lkr \<Rightarrow> ((lk_retcode + nat) \<times> 'r lkr) option" where
  "LinearHashTable_CheckTable M t =
     (if \<not> IsUsable t then Some (Inl LK_UNUSABLE, t)
      else do { let (valid, t) = IsValid (trace [TableReadOrWriteLock] t);
                if \<not> valid then Some (Inl LK_UNUSABLE, trace [TableReadOrWriteUnlock] t)
                else do {
                  ((cMisplaced, cRecords, retcode), t1) \<leftarrow> check_buckets M 0 (m_cActiveBuckets t) (0, 0, 0) t;
                  let retcode = retcode + 2 * of_bool (dword cRecords \<noteq> m_cRecords t1);
                  let retcode = (if cMisplaced > 0 then cMisplaced else retcode);
                  Some (Inr (retcode + of_bool (cMisplaced \<noteq> 0)), trace [TableReadOrWriteUnlock] t1) } })"

end
