(* ===== verification/LkrClumpFacts.thy ===== *)
theory LkrClumpFacts
  imports LkrClump "HOL-Library.Multiset"
begin

text \<open>
  What the chain routines of \<open>LkrClump\<close> do, stated over the list of entries a compact chain holds:
  \<open>chain_of xs ch\<close> says that the slots of \<open>ch\<close> hold exactly \<open>xs\<close>, in order and without gaps, in no more
  clumps than they need. It is the state in which the code's own check \<open>_IsNodeCompact\<close> finds no error.
\<close>

section \<open>Chains as lists of slots\<close>

type_synonym 'r entry = "DWORD \<times> 'r"

definition slots :: "'r bucket \<Rightarrow> (DWORD \<times> 'r option) list" where
  "slots ch = concat (map (\<lambda>c. zip (m_dwKeySigs c) (m_pvNode c)) ch)"

definition wf_clump :: "'r clump \<Rightarrow> bool" where
  "wf_clump c \<longleftrightarrow> length (m_dwKeySigs c) = 4 \<and> length (m_pvNode c) = 4"

abbreviation wf_chain :: "'r bucket \<Rightarrow> bool" where
  "wf_chain ch \<equiv> \<forall>c\<in>set ch. wf_clump c"

definition used :: "'r entry \<Rightarrow> DWORD \<times> 'r option" where
  "used e = (fst e, Some (snd e))"

abbreviation blank :: "DWORD \<times> 'r option" where
  "blank \<equiv> (HASH_INVALID_SIGNATURE, None)"

definition chain_of :: "'r entry list \<Rightarrow> 'r bucket \<Rightarrow> bool" where
  "chain_of xs ch \<longleftrightarrow> wf_chain ch \<and> (\<forall>e\<in>set xs. fst e \<noteq> HASH_INVALID_SIGNATURE) \<and>
     length xs \<le> 4 * length ch \<and> slots ch = map used xs @ replicate (4 * length ch - length xs) blank \<and>
     (4 * (length ch - 1) < length xs \<or> length ch = 1)"

lemma wf_clump_cases:
  assumes "wf_clump c"
  obtains a b d e p q r s where "c = \<lparr>m_dwKeySigs = [a, b, d, e], m_pvNode = [p, q, r, s]\<rparr>"
proof -
  obtain a b d e where k: "m_dwKeySigs c = [a, b, d, e]"
    using assms by (auto simp: wf_clump_def numeral_eq_Suc length_Suc_conv)
  obtain p q r s where n: "m_pvNode c = [p, q, r, s]"
    using assms by (auto simp: wf_clump_def numeral_eq_Suc length_Suc_conv)
  show thesis by (rule that [of a b d e p q r s]) (use k n in simp)
qed

lemma slots_simps [simp]: "slots [] = []" "slots (c # ch) = zip (m_dwKeySigs c) (m_pvNode c) @ slots ch"
  "slots (xs @ ys) = slots xs @ slots ys"
  by (simp_all add: slots_def)

lemma length_slots: "wf_chain ch \<Longrightarrow> length (slots ch) = 4 * length ch"
  by (induction ch) (auto simp: wf_clump_def)

lemma wf_clump_Clear [simp]: "wf_clump clump_Clear"
  by (simp add: wf_clump_def clump_Clear_def NODES_PER_CLUMP_def)

lemma slots_Clear: "zip (m_dwKeySigs clump_Clear) (m_pvNode clump_Clear) = replicate 4 blank"
  by (simp add: clump_Clear_def NODES_PER_CLUMP_def)

lemma chain_of_empty [simp]: "chain_of [] [clump_Clear]"
  by (simp add: chain_of_def slots_Clear)

lemma chain_of_length: "chain_of xs ch \<Longrightarrow> length ch = max 1 ((length xs + 3) div 4)"
  by (auto simp: chain_of_def max_def)

lemma chain_of_ne [simp]: "chain_of xs ch \<Longrightarrow> ch \<noteq> []"
  by (auto simp: chain_of_def)

text \<open>The entries and the chain determine each other.\<close>

lemma chain_of_entries:
  assumes "chain_of xs ch" "chain_of ys ch"
  shows "xs = ys"
proof -
  have t: "takeWhile (\<lambda>s. s \<noteq> blank) (map used zs @ replicate n blank) = map used zs"
    for zs :: "'a entry list" and n
  proof (induction zs)
    case Nil
    show ?case by (cases n) simp_all
  qed (simp add: used_def)
  have "map used xs = map used ys" using assms t by (metis chain_of_def)
  then show ?thesis by (simp add: inj_map_eq_map inj_on_def used_def prod_eq_iff)
qed

lemma slots_inject:
  assumes "wf_chain ch" "wf_chain ch'" "slots ch = slots ch'"
  shows "ch = ch'"
  using assms
proof (induction ch arbitrary: ch')
  case Nil
  then show ?case by (cases ch') (auto simp: wf_clump_def)
next
  case (Cons c ch)
  have "length (slots ch') = 4 * length (c # ch)"
    using Cons.prems(1,3) length_slots [of "c # ch"] by simp
  then obtain c' ds where ch': "ch' = c' # ds" by (cases ch') simp_all
  have w: "wf_clump c" "wf_clump c'" using Cons.prems(1,2) ch' by simp_all
  obtain a b d e p q r t where c: "c = \<lparr>m_dwKeySigs = [a, b, d, e], m_pvNode = [p, q, r, t]\<rparr>"
    using wf_clump_cases [OF w(1)] by blast
  obtain a' b' d' e' p' q' r' t' where c': "c' = \<lparr>m_dwKeySigs = [a', b', d', e'], m_pvNode = [p', q', r', t']\<rparr>"
    using wf_clump_cases [OF w(2)] by blast
  have "c = c'" "slots ch = slots ds" using Cons.prems(3) unfolding ch' c c' by simp_all
  moreover have "ch = ds" by (rule Cons.IH) (use Cons.prems(1,2) ch' calculation(2) in simp_all)
  ultimately show ?case using ch' by simp
qed

lemma chain_of_unique:
  assumes "chain_of xs ch" "chain_of xs ch'"
  shows "ch = ch'"
proof -
  have "length ch = length ch'" using assms by (simp add: chain_of_length)
  then show ?thesis using assms slots_inject [of ch ch'] by (simp add: chain_of_def)
qed

section \<open>Single slots\<close>

lemma nth_slots:
  assumes "wf_chain ch" "j < length ch" "i < 4"
  shows "slots ch ! (4 * j + i) = (m_dwKeySigs (ch ! j) ! i, m_pvNode (ch ! j) ! i)"
  using assms
proof (induction ch arbitrary: j)
  case (Cons c ch)
  have l: "length (m_dwKeySigs c) = 4" "length (m_pvNode c) = 4" using Cons.prems by (auto simp: wf_clump_def)
  show ?case
  proof (cases j)
    case 0
    then show ?thesis using Cons.prems l by (simp add: nth_append)
  next
    case (Suc k)
    then show ?thesis using Cons l by (simp add: nth_append)
  qed
qed simp

lemma put_slot_slots:
  assumes "wf_chain ch" "j < length ch" "i < 4"
  shows "\<exists>ch'. put_slot j i sig pv ch = Some ch' \<and> wf_chain ch' \<and> length ch' = length ch \<and>
    slots ch' = (slots ch)[4 * j + i := (sig, pv)]"
proof -
  let ?c = "\<lparr>m_dwKeySigs = (m_dwKeySigs (ch ! j))[i := sig], m_pvNode = (m_pvNode (ch ! j))[i := pv]\<rparr>"
  let ?ch = "ch[j := ?c]"
  have wj: "wf_clump (ch ! j)" using assms(1,2) by simp
  then have put: "put_slot j i sig pv ch = Some ?ch"
    using assms by (simp add: put_slot_def mem_get_def mem_put_def wf_clump_def)
  have wf: "wf_chain ?ch"
    using assms(1) wj set_update_subset_insert [of ch j ?c] by (auto simp: wf_clump_def)
  have "slots ?ch = (slots ch)[4 * j + i := (sig, pv)]"
  proof (rule nth_equalityI)
    show "length (slots ?ch) = length ((slots ch)[4 * j + i := (sig, pv)])"
      using length_slots [OF assms(1)] length_slots [OF wf] by simp
    fix n assume n: "n < length (slots ?ch)"
    then have b: "n div 4 < length ch" "n mod 4 < 4" using length_slots [OF wf] by auto
    have e: "n = 4 * (n div 4) + n mod 4" by simp
    have new: "slots ?ch ! n = (m_dwKeySigs (?ch ! (n div 4)) ! (n mod 4), m_pvNode (?ch ! (n div 4)) ! (n mod 4))"
      using nth_slots [OF wf, of "n div 4" "n mod 4"] b by simp
    have old: "slots ch ! n = (m_dwKeySigs (ch ! (n div 4)) ! (n mod 4), m_pvNode (ch ! (n div 4)) ! (n mod 4))"
      using nth_slots [OF assms(1), of "n div 4" "n mod 4"] b by simp
    have l: "length (m_dwKeySigs (ch ! j)) = 4" "length (m_pvNode (ch ! j)) = 4" using wj by (auto simp: wf_clump_def)
    show "slots ?ch ! n = (slots ch)[4 * j + i := (sig, pv)] ! n"
    proof (cases "n = 4 * j + i")
      case True
      then have "n div 4 = j" "n mod 4 = i" using assms(3) by auto
      then show ?thesis using new l assms(2,3) True n length_slots [OF wf] length_slots [OF assms(1)] by simp
    next
      case False
      then have ne: "n div 4 \<noteq> j \<or> n mod 4 \<noteq> i" using e by auto
      then have "slots ?ch ! n = slots ch ! n"
        unfolding new old using assms(2) l by (cases "n div 4 = j") auto
      then show ?thesis using False by simp
    qed
  qed
  then show ?thesis using put wf by (intro exI [of _ ?ch]) simp
qed

section \<open>Walking\<close>

text \<open>A walk over the list of slots, position by position.\<close>

fun walk_flat :: "(DWORD \<Rightarrow> 'r option \<Rightarrow> bool) \<Rightarrow> nat \<Rightarrow> (DWORD \<times> 'r option) list \<Rightarrow> (bool \<times> nat) option" where
  "walk_flat hit p [] = None"
| "walk_flat hit p ((s, n) # rest) =
     (if s = HASH_INVALID_SIGNATURE then Some (False, p)
      else if hit s n then Some (True, p) else walk_flat hit (Suc p) rest)"

definition stop_at :: "(bool \<times> nat) option \<Rightarrow> walk" where
  "stop_at r = (case r of None \<Rightarrow> AtEnd
     | Some (h, p) \<Rightarrow> if h then AtHit (p div 4) (p mod 4) else AtEmpty (p div 4) (p mod 4))"

lemma upt_4: "[0..<NODES_PER_CLUMP] = [0, 1, 2, 3]"
  by (simp add: NODES_PER_CLUMP_def upt_rec)

lemma walk_slots_flat:
  assumes "wf_clump c"
  shows "walk_chain hit j (c # cs) =
    (case walk_flat hit (4 * j) (zip (m_dwKeySigs c) (m_pvNode c)) of
       None \<Rightarrow> walk_chain hit (Suc j) cs | r \<Rightarrow> stop_at r)"
proof -
  have [simp]: "Suc (4 * j) div 4 = j" "Suc (4 * j) mod 4 = 1" "Suc (Suc (4 * j)) div 4 = j"
    "Suc (Suc (4 * j)) mod 4 = 2" "Suc (Suc (Suc (4 * j))) div 4 = j" "Suc (Suc (Suc (4 * j))) mod 4 = 3"
    by presburger+
  from assms show ?thesis
    by (elim wf_clump_cases) (simp add: upt_4 IsEmptySlot_def InvalidSignature_def stop_at_def)
qed

lemma walk_flat_append:
  "walk_flat hit p (xs @ ys) = (case walk_flat hit p xs of None \<Rightarrow> walk_flat hit (p + length xs) ys | r \<Rightarrow> r)"
  by (induction hit p xs rule: walk_flat.induct) (auto cong: option.case_cong)

lemma walk_chain_flat: "wf_chain ch \<Longrightarrow> walk_chain hit j ch = stop_at (walk_flat hit (4 * j) (slots ch))"
proof (induction ch arbitrary: j)
  case (Cons c cs)
  have "length (zip (m_dwKeySigs c) (m_pvNode c)) = 4" using Cons.prems by (simp add: wf_clump_def)
  moreover have "wf_clump c" using Cons.prems by simp
  ultimately show ?case using Cons
    by (simp add: walk_slots_flat walk_flat_append algebra_simps del: walk_chain.simps split: option.split)
qed (simp add: stop_at_def)

lemma walk_flat_used:
  assumes "\<forall>e\<in>set xs. fst e \<noteq> HASH_INVALID_SIGNATURE"
  shows "(\<exists>i<length xs. walk_flat hit p (map used xs @ replicate n blank) = Some (True, p + i) \<and>
      hit (fst (xs ! i)) (Some (snd (xs ! i))) \<and> (\<forall>k<i. \<not> hit (fst (xs ! k)) (Some (snd (xs ! k))))) \<or>
    (\<forall>e\<in>set xs. \<not> hit (fst e) (Some (snd e))) \<and>
    walk_flat hit p (map used xs @ replicate n blank) = (if n = 0 then None else Some (False, p + length xs))"
  using assms
proof (induction xs arbitrary: p)
  case Nil
  then show ?case by (cases n) auto
next
  case (Cons e xs)
  show ?case
  proof (cases "hit (fst e) (Some (snd e))")
    case True
    then show ?thesis using Cons.prems by (intro disjI1 exI [of _ 0]) (simp add: used_def)
  next
    case False
    then have step: "walk_flat hit p (map used (e # xs) @ replicate n blank) =
        walk_flat hit (Suc p) (map used xs @ replicate n blank)"
      using Cons.prems by (simp add: used_def)
    have "\<forall>e\<in>set xs. fst e \<noteq> HASH_INVALID_SIGNATURE" using Cons.prems by simp
    from Cons.IH [OF this, of "Suc p"] show ?thesis
    proof (elim disjE exE conjE)
      fix i assume i: "i < length xs" "walk_flat hit (Suc p) (map used xs @ replicate n blank) = Some (True, Suc p + i)"
        "hit (fst (xs ! i)) (Some (snd (xs ! i)))" "\<forall>k<i. \<not> hit (fst (xs ! k)) (Some (snd (xs ! k)))"
      have "\<not> hit (fst ((e # xs) ! k)) (Some (snd ((e # xs) ! k)))" if "k < Suc i" for k
        using that False i(4) by (cases k) auto
      then show ?thesis using i(1-3) step by (intro disjI1 exI [of _ "Suc i"]) auto
    qed (use step False in auto)
  qed
qed

text \<open>What a walk over a compact chain returns.\<close>

lemma walk_chain_spec:
  assumes "chain_of xs ch"
  shows "(\<exists>i<length xs. walk_chain hit 0 ch = AtHit (i div 4) (i mod 4) \<and>
      hit (fst (xs ! i)) (Some (snd (xs ! i))) \<and> (\<forall>k<i. \<not> hit (fst (xs ! k)) (Some (snd (xs ! k))))) \<or>
    (\<forall>e\<in>set xs. \<not> hit (fst e) (Some (snd e))) \<and>
    walk_chain hit 0 ch = (if length xs = 4 * length ch then AtEnd else AtEmpty (length xs div 4) (length xs mod 4))"
proof -
  let ?n = "4 * length ch - length xs"
  have s: "slots ch = map used xs @ replicate ?n blank" "wf_chain ch" "\<forall>e\<in>set xs. fst e \<noteq> HASH_INVALID_SIGNATURE"
    "length xs \<le> 4 * length ch" using assms by (auto simp: chain_of_def)
  have w: "walk_chain hit 0 ch = stop_at (walk_flat hit 0 (map used xs @ replicate ?n blank))"
    using walk_chain_flat [OF s(2), of hit 0] s(1) by simp
  from walk_flat_used [OF s(3), of hit 0 ?n] show ?thesis
  proof (elim disjE exE conjE)
    fix i assume "i < length xs" "walk_flat hit 0 (map used xs @ replicate ?n blank) = Some (True, 0 + i)"
      "hit (fst (xs ! i)) (Some (snd (xs ! i)))" "\<forall>k<i. \<not> hit (fst (xs ! k)) (Some (snd (xs ! k)))"
    then show ?thesis using w by (intro disjI1 exI [of _ i]) (simp add: stop_at_def)
  next
    assume "\<forall>e\<in>set xs. \<not> hit (fst e) (Some (snd e))"
      "walk_flat hit 0 (map used xs @ replicate ?n blank) = (if ?n = 0 then None else Some (False, 0 + length xs))"
    then show ?thesis using w s(4) by (intro disjI2) (auto simp: stop_at_def)
  qed
qed

section \<open>Changing a compact chain\<close>

lemma slot_empty_iff:
  assumes "chain_of xs ch" "j < length ch" "i < 4"
  shows "IsEmptySlot (ch ! j) i \<longleftrightarrow> length xs \<le> 4 * j + i"
proof -
  have c: "wf_chain ch" "slots ch = map used xs @ replicate (4 * length ch - length xs) blank"
    "\<forall>e\<in>set xs. fst e \<noteq> HASH_INVALID_SIGNATURE" "length xs \<le> 4 * length ch"
    using assms(1) by (auto simp: chain_of_def)
  have b: "4 * j + i < 4 * length ch" using assms(2,3) by simp
  have "fst (slots ch ! (4 * j + i)) = m_dwKeySigs (ch ! j) ! i" using nth_slots [OF c(1) assms(2,3)] by simp
  moreover have "fst (slots ch ! (4 * j + i)) = HASH_INVALID_SIGNATURE \<longleftrightarrow> length xs \<le> 4 * j + i"
  proof (cases "4 * j + i < length xs")
    case True
    then have "fst (xs ! (4 * j + i)) \<noteq> HASH_INVALID_SIGNATURE" using c(3) by simp
    then show ?thesis using True unfolding c(2) by (simp add: nth_append used_def)
  next
    case False
    then have "4 * j + i - length xs < 4 * length ch - length xs" using b c(4) by linarith
    then show ?thesis using False unfolding c(2) by (simp add: nth_append)
  qed
  ultimately show ?thesis by (simp add: IsEmptySlot_def InvalidSignature_def)
qed

lemma first_empty_from:
  assumes "\<And>i. i < 4 \<Longrightarrow> IsEmptySlot c i \<longleftrightarrow> m \<le> i" "k \<le> 4"
  shows "first_empty c [k..<NODES_PER_CLUMP] = min 4 (max k m)"
proof -
  have e: "IsEmptySlot c 0 \<longleftrightarrow> m = 0" "IsEmptySlot c 1 \<longleftrightarrow> m \<le> 1" "IsEmptySlot c 2 \<longleftrightarrow> m \<le> 2" "IsEmptySlot c 3 \<longleftrightarrow> m \<le> 3"
    using assms(1) [of 0] assms(1) [of 1] assms(1) [of 2] assms(1) [of 3] by simp_all
  have u: "[4..<4] = []" "[3..<4] = [3]" "[2..<4] = [2, 3]" "[1..<4] = [1, 2, 3]" "[0..<4] = [0, 1, 2, 3]"
    by (simp_all add: upt_rec)
  have fe: "first_empty c [4..<4] = 4" "first_empty c [3..<4] = (if m \<le> 3 then 3 else 4)"
    "first_empty c [2..<4] = (if m \<le> 2 then 2 else if m \<le> 3 then 3 else 4)"
    "first_empty c [1..<4] = (if m \<le> 1 then 1 else if m \<le> 2 then 2 else if m \<le> 3 then 3 else 4)"
    "first_empty c [0..<4] = (if m = 0 then 0 else if m \<le> 1 then 1 else if m \<le> 2 then 2 else if m \<le> 3 then 3 else 4)"
    by (simp_all only: u first_empty.simps e NODES_PER_CLUMP_def)
  consider "k = 0" | "k = 1" | "k = 2" | "k = 3" | "k = 4" using assms(2) by linarith
  then show ?thesis unfolding NODES_PER_CLUMP_def by cases (simp_all only: fe, auto simp: max_def min_def)
qed

lemma chain_first_empty:
  assumes "chain_of xs ch" "j < length ch" "k \<le> 4"
  shows "first_empty (ch ! j) [k..<NODES_PER_CLUMP] = min 4 (max k (length xs - 4 * j))"
  by (rule first_empty_from) (use slot_empty_iff [OF assms(1,2)] assms(3) in auto)

lemma chain_set:
  assumes "chain_of xs ch" "p < length xs" "s \<noteq> HASH_INVALID_SIGNATURE"
  shows "\<exists>ch'. put_slot (p div 4) (p mod 4) s (Some r) ch = Some ch' \<and> chain_of (xs[p := (s, r)]) ch' \<and>
    length ch' = length ch"
proof -
  have c: "wf_chain ch" "slots ch = map used xs @ replicate (4 * length ch - length xs) blank"
    using assms(1) by (auto simp: chain_of_def)
  have "p div 4 < length ch" using assms(1,2) by (auto simp: chain_of_def)
  from put_slot_slots [OF c(1) this, of "p mod 4" s "Some r"] obtain ch' where ch':
    "put_slot (p div 4) (p mod 4) s (Some r) ch = Some ch'" "wf_chain ch'" "length ch' = length ch"
    "slots ch' = (slots ch)[p := (s, Some r)]" by auto
  have "slots ch' = map used (xs[p := (s, r)]) @ replicate (4 * length ch - length xs) blank"
    using assms(2) unfolding ch'(4) c(2) by (simp add: list_update_append map_update used_def)
  moreover have "\<forall>e\<in>set (xs[p := (s, r)]). fst e \<noteq> HASH_INVALID_SIGNATURE"
    using assms(1,3) set_update_subset_insert [of xs p "(s, r)"] by (auto simp: chain_of_def)
  ultimately show ?thesis using ch' assms(1) by (auto simp: chain_of_def)
qed

text \<open>A chain that is appended to: its entries, and the slot in its last clump that comes next.\<close>

definition target :: "'r entry list \<Rightarrow> 'r bucket \<times> nat \<Rightarrow> bool" where
  "target ys tgt \<longleftrightarrow> chain_of ys (fst tgt) \<and> length ys = 4 * (length (fst tgt) - 1) + snd tgt"

lemma target_le: "target ys (ch, i) \<Longrightarrow> i \<le> 4 \<and> 0 < length ch \<and> length ys = 4 * (length ch - 1) + i"
  by (cases ch) (auto simp: target_def chain_of_def)

lemma chain_append_slot:
  assumes "wf_chain ch" "slots ch = map used xs @ replicate (Suc n) blank" "\<forall>e\<in>set xs. fst e \<noteq> HASH_INVALID_SIGNATURE"
    "s \<noteq> HASH_INVALID_SIGNATURE" "length xs = 4 * (length ch - 1) + i" "ch \<noteq> []"
  shows "\<exists>ch'. put_slot (length ch - 1) i s (Some r) ch = Some ch' \<and> target (xs @ [(s, r)]) (ch', Suc i) \<and>
    length ch' = length ch"
proof -
  have "length (slots ch) = 4 * length ch" using length_slots [OF assms(1)] .
  then have l: "length xs + Suc n = 4 * length ch" unfolding assms(2) by simp
  then have i: "i < 4" "length ch - 1 < length ch" using assms(5,6) by (cases ch; simp)+
  obtain ch' where ch': "put_slot (length ch - 1) i s (Some r) ch = Some ch'" "wf_chain ch'" "length ch' = length ch"
    "slots ch' = (slots ch)[4 * (length ch - 1) + i := (s, Some r)]"
    using put_slot_slots [OF assms(1) i(2,1), of s "Some r"] by blast
  have "slots ch' = map used (xs @ [(s, r)]) @ replicate n blank"
    unfolding ch'(4) assms(2) assms(5) [symmetric] by (simp add: list_update_append used_def)
  moreover have "4 * length ch' - length (xs @ [(s, r)]) = n" "length (xs @ [(s, r)]) \<le> 4 * length ch'"
    "4 * (length ch' - 1) < length (xs @ [(s, r)])" using ch'(3) l assms(5) by simp_all
  moreover have "\<forall>e\<in>set (xs @ [(s, r)]). fst e \<noteq> HASH_INVALID_SIGNATURE" using assms(3,4) by auto
  ultimately have "chain_of (xs @ [(s, r)]) ch'" using ch'(2) unfolding chain_of_def by metis
  then show ?thesis using ch'(1,3) assms(5) by (simp add: target_def)
qed

lemma append_slot_target:
  assumes "target ys (ch, i)" "s \<noteq> HASH_INVALID_SIGNATURE" "i = 4 \<Longrightarrow> 0 < free"
  shows "\<exists>ch' i' free'. append_slot s (Some r) (ch, i) free = Some ((ch', i'), free') \<and>
    target (ys @ [(s, r)]) (ch', i') \<and> free' + length ch' = free + length ch"
proof -
  have c: "wf_chain ch" "slots ch = map used ys @ replicate (4 * length ch - length ys) blank"
    "\<forall>e\<in>set ys. fst e \<noteq> HASH_INVALID_SIGNATURE" "ch \<noteq> []" "length ys = 4 * (length ch - 1) + i" "i \<le> 4"
    using assms(1) target_le [OF assms(1)] by (auto simp: target_def chain_of_def)
  show ?thesis
  proof (cases "i = 4")
    case True
    let ?ch = "ch @ [clump_Clear]"
    have "length ys = 4 * length ch" using c(4,5) True by (cases ch) auto
    then have "slots ?ch = map used ys @ replicate (Suc 3) blank" "length ys = 4 * (length ?ch - 1) + 0"
      using c(2) slots_Clear by (simp_all add: numeral_eq_Suc)
    from chain_append_slot [OF _ this(1) c(3) assms(2) this(2), of r] c(1)
    obtain ch' where "put_slot (length ch) 0 s (Some r) ?ch = Some ch'" "target (ys @ [(s, r)]) (ch', Suc 0)"
      "length ch' = Suc (length ch)" by auto
    then show ?thesis using True assms(3) by (simp add: append_slot_def NODES_PER_CLUMP_def)
  next
    case False
    then obtain n where n: "4 * length ch - length ys = Suc n"
      using c(4,5,6) by (cases "4 * length ch - length ys"; cases ch) auto
    from chain_append_slot [OF c(1) c(2) [unfolded n] c(3) assms(2) c(5,4), of r]
    show ?thesis using False by (auto simp: append_slot_def NODES_PER_CLUMP_def)
  qed
qed

section \<open>\<open>_DeleteNode\<close>\<close>

text \<open>Removing an entry: the last one takes its place.\<close>

definition remove_entry :: "nat \<Rightarrow> 'a list \<Rightarrow> 'a list" where
  "remove_entry p xs = butlast (xs[p := last xs])"

definition before :: "nat \<Rightarrow> nat \<times> int" where
  "before p = (if p mod 4 \<noteq> 0 then (p div 4, int (p mod 4) - 1)
     else if p div 4 = 0 then (0, - 1) else (p div 4 - 1, 4))"

lemma length_remove_entry [simp]: "length (remove_entry p xs) = length xs - 1"
  by (simp add: remove_entry_def)

lemma mset_remove_entry:
  assumes "p < length xs"
  shows "mset xs = add_mset (xs ! p) (mset (remove_entry p xs))"
proof -
  have ne: "xs \<noteq> []" using assms by auto
  obtain ys y where xs: "xs = ys @ [y]" using ne by (metis rev_exhaust)
  show ?thesis
  proof (cases "p = length ys")
    case True
    then show ?thesis by (simp add: remove_entry_def xs)
  next
    case False
    then have p: "p < length ys" using assms xs by simp
    then have "mset (ys[p := y]) = add_mset y (mset ys - {#ys ! p#})" by (rule mset_update)
    then show ?thesis using p by (simp add: remove_entry_def xs list_update_append nth_append)
  qed
qed

lemma slots_butlast:
  assumes "wf_chain ch" "ch \<noteq> []"
  shows "slots (butlast ch) = take (4 * (length ch - 1)) (slots ch)"
proof -
  have "slots ch = slots (butlast ch) @ slots [last ch]"
    using slots_simps(3) [of "butlast ch" "[last ch]"] assms(2) by (metis append_butlast_last_id)
  moreover have "length (slots (butlast ch)) = 4 * (length ch - 1)"
    using length_slots [of "butlast ch"] assms(1) in_set_butlastD [of _ ch] by auto
  ultimately show ?thesis by simp
qed

lemma DeleteNode_chain_correct:
  assumes "chain_of xs ch" "p < length xs"
  shows "\<exists>ch' fr. DeleteNode_chain ch (p div 4) (p mod 4) = Some (ch', fr, before p) \<and>
    chain_of (remove_entry p xs) ch' \<and> length ch = length ch' + of_bool fr"
proof -
  have c: "wf_chain ch" "slots ch = map used xs @ replicate (4 * length ch - length xs) blank"
    "\<forall>e\<in>set xs. fst e \<noteq> HASH_INVALID_SIGNATURE" "length xs \<le> 4 * length ch"
    "4 * (length ch - 1) < length xs \<or> length ch = 1" using assms(1) by (auto simp: chain_of_def)
  define l m where "l = length ch - 1" and "m = length xs - 4 * l"
  have m: "length xs = 4 * l + m" "0 < m" "m \<le> 4" "l < length ch" "length ch = Suc l"
    using c(4,5) assms(2) by (cases "length ch"; auto simp: l_def m_def)+
  have "p = 4 * (p div 4) + p mod 4" by simp
  then have pl: "p div 4 = l \<longrightarrow> p mod 4 < m" "p div 4 < length ch" using m assms(2) by linarith+
  have fe: "first_empty (ch ! l) [(if p div 4 = l then p mod 4 else 0)..<NODES_PER_CLUMP] = m"
    using chain_first_empty [OF assms(1) m(4), of "if p div 4 = l then p mod 4 else 0"] pl m
    by (auto simp: max_def)
  have q: "4 * l + (m - 1) = length xs - 1" using m by simp
  have lst: "(m_dwKeySigs (ch ! l) ! (m - 1), m_pvNode (ch ! l) ! (m - 1)) = used (last xs)"
  proof -
    have b: "m - 1 < 4" "length xs - 1 < length xs" "xs \<noteq> []" using m(2,3) assms(2) by auto
    have "slots ch ! (length xs - 1) = used (last xs)" unfolding c(2) using b by (simp add: nth_append last_conv_nth)
    then show ?thesis using nth_slots [OF c(1) m(4) b(1)] unfolding q by simp
  qed
  have wl: "length (m_dwKeySigs (ch ! l)) = 4" "length (m_pvNode (ch ! l)) = 4"
    using c(1) m(4) nth_mem [of l ch] by (auto simp: wf_clump_def)
  obtain ch1 where ch1: "put_slot (p div 4) (p mod 4) (fst (last xs)) (Some (snd (last xs))) ch = Some ch1"
    "wf_chain ch1" "length ch1 = length ch" "slots ch1 = (slots ch)[p := used (last xs)]"
    using put_slot_slots [OF c(1) pl(2), of "p mod 4" "fst (last xs)" "Some (snd (last xs))"] by (auto simp: used_def)
  obtain ch2 where ch2: "put_slot l (m - 1) HASH_INVALID_SIGNATURE None ch1 = Some ch2"
    "wf_chain ch2" "length ch2 = length ch" "slots ch2 = (slots ch1)[length xs - 1 := blank]"
  proof -
    have "l < length ch1" "m - 1 < 4" using m(2-4) ch1(3) by auto
    from put_slot_slots [OF ch1(2) this, of HASH_INVALID_SIGNATURE None] show thesis
      using that ch1(3) unfolding q by metis
  qed
  define ys where "ys = xs[p := last xs]"
  have ys: "length ys = length xs" "ys \<noteq> []" using assms(2) by (auto simp: ys_def)
  have "slots ch2 = (map used ys @ replicate (4 * length ch - length xs) blank)[length xs - 1 := blank]"
    unfolding ch2(4) ch1(4) c(2) ys_def using assms(2) by (simp add: list_update_append map_update)
  also have "\<dots> = (map used (butlast ys))  @ blank # replicate (4 * length ch - length xs) blank"
  proof -
    have "(map used ys)[length xs - 1 := blank] = map used (butlast ys) @ [blank]"
      using ys by (subst append_butlast_last_id [of ys, symmetric]) (simp_all add: list_update_append del: append_butlast_last_id)
    moreover have "length xs - 1 < length (map used ys)" using ys assms(2) by auto
    ultimately show ?thesis by (simp add: list_update_append)
  qed
  finally have s2: "slots ch2 = map used (remove_entry p xs) @ replicate (Suc (4 * length ch - length xs)) blank"
    by (simp add: remove_entry_def ys_def)
  have valid: "\<forall>e\<in>set (remove_entry p xs). fst e \<noteq> HASH_INVALID_SIGNATURE"
  proof
    fix e assume "e \<in> set (remove_entry p xs)"
    then have "e \<in># mset xs" using mset_remove_entry [OF assms(2)] by simp
    then show "fst e \<noteq> HASH_INVALID_SIGNATURE" using c(3) by simp
  qed
  have del: "DeleteNode_chain ch (p div 4) (p mod 4) =
      Some (if m - 1 = 0 \<and> l \<noteq> 0 then (butlast ch2, True, before p) else (ch2, False, before p))"
  proof -
    have g: "mem_get l ch = Some (ch ! l)" "mem_get (m - 1) (m_dwKeySigs (ch ! l)) = Some (fst (last xs))"
      "mem_get (m - 1) (m_pvNode (ch ! l)) = Some (Some (snd (last xs)))" "m \<noteq> 0"
      using m(2-4) wl lst by (simp_all add: mem_get_def used_def)
    have b: "(if p mod 4 \<noteq> 0 then (p div 4, int (p mod 4) - 1)
        else if p div 4 = 0 then (p div 4, - 1) else (p div 4 - 1, int NODES_PER_CLUMP)) = before p"
      by (auto simp: before_def NODES_PER_CLUMP_def)
    show ?thesis unfolding DeleteNode_chain_def Let_def l_def [symmetric] fe b
      by (simp only: g Option.bind.simps fe b ch1(1) ch2(1) Let_def if_False)
  qed
  show ?thesis
  proof (cases "m - 1 = 0 \<and> l \<noteq> 0")
    case True
    then have e: "length xs = 4 * l + 1" "length ch2 - 1 = l" "ch2 \<noteq> []" using m ch2(3) by auto
    have "slots (butlast ch2) = map used (remove_entry p xs)"
      using slots_butlast [OF ch2(2) e(3)] e s2 by simp
    moreover have "wf_chain (butlast ch2)" using ch2(2) in_set_butlastD [of _ ch2] by blast
    ultimately have "chain_of (remove_entry p xs) (butlast ch2)"
      using e valid True by (auto simp: chain_of_def)
    then show ?thesis using del True ch2(3) m(5) by auto
  next
    case False
    have k: "length xs - 1 \<le> 4 * length ch" "4 * length ch - (length xs - 1) = Suc (4 * length ch - length xs)"
      using c(4) assms(2) by auto
    have "4 * (length ch - 1) < length xs - 1 \<or> length ch = 1" using False m by auto
    then have "chain_of (remove_entry p xs) ch2" using s2 valid ch2(2,3) k by (auto simp: chain_of_def)
    then show ?thesis using del False ch2(3) by auto
  qed
qed

section \<open>Walking the entries of a chain clump by clump\<close>

text \<open>The clumps a loop has still to visit, and the entries in them.\<close>

definition pending :: "'r entry list \<Rightarrow> 'r bucket \<Rightarrow> bool" where
  "pending zs cs \<longleftrightarrow> wf_chain cs \<and> (\<forall>e\<in>set zs. fst e \<noteq> HASH_INVALID_SIGNATURE) \<and>
     length zs \<le> 4 * length cs \<and> slots cs = map used zs @ replicate (4 * length cs - length zs) blank"

lemma chain_of_pending: "chain_of xs ch \<Longrightarrow> pending xs ch"
  by (simp add: chain_of_def pending_def)

lemma pending_Nil [simp]: "pending zs [] \<longleftrightarrow> zs = []"
  by (auto simp: pending_def)

lemma pending_Cons:
  assumes "pending zs (c # cs)"
  shows "wf_clump c" "zip (m_dwKeySigs c) (m_pvNode c) = map used (take 4 zs) @ replicate (4 - length zs) blank"
    "pending (drop 4 zs) cs"
proof -
  have p: "wf_clump c" "wf_chain cs" "\<forall>e\<in>set zs. fst e \<noteq> HASH_INVALID_SIGNATURE" "length zs \<le> 4 + 4 * length cs"
    "zip (m_dwKeySigs c) (m_pvNode c) @ slots cs = map used zs @ replicate (4 + 4 * length cs - length zs) blank"
    using assms by (simp_all add: pending_def)
  have l: "length (zip (m_dwKeySigs c) (m_pvNode c)) = 4" using p(1) by (simp add: wf_clump_def)
  have "zip (m_dwKeySigs c) (m_pvNode c) = take 4 (zip (m_dwKeySigs c) (m_pvNode c) @ slots cs)" using l by simp
  also have "\<dots> = map used (take 4 zs) @ replicate (4 - length zs) blank"
    unfolding p(5) using p(4) by (simp add: take_map min_def)
  finally show "zip (m_dwKeySigs c) (m_pvNode c) = map used (take 4 zs) @ replicate (4 - length zs) blank" .
  have "slots cs = drop 4 (zip (m_dwKeySigs c) (m_pvNode c) @ slots cs)" using l by simp
  also have "\<dots> = map used (drop 4 zs) @ replicate (4 * length cs - length (drop 4 zs)) blank"
    unfolding p(5) using p(4) by (cases "length zs \<le> 4") (simp_all add: drop_map)
  finally show "pending (drop 4 zs) cs"
    using p by (auto simp: pending_def dest: in_set_dropD)
  show "wf_clump c" by (rule p(1))
qed

section \<open>\<open>_SplitRecordSet\<close>\<close>

fun split_flat ::
  "(DWORD \<Rightarrow> nat) \<Rightarrow> nat \<Rightarrow> (DWORD \<times> 'r option) list \<Rightarrow> ('r bucket \<times> nat) \<times> ('r bucket \<times> nat) \<times> nat \<Rightarrow>
     (('r bucket \<times> nat) \<times> ('r bucket \<times> nat) \<times> nat) option" where
  "split_flat H b [] st = Some st"
| "split_flat H b ((s, n) # rest) (old, new, free) =
     (if s = HASH_INVALID_SIGNATURE then split_flat H b rest (old, new, free)
      else if H s = b
      then do { (new', free') \<leftarrow> append_slot s n new free; split_flat H b rest (old, new', free') }
      else do { (old', free') \<leftarrow> append_slot s n old free; split_flat H b rest (old', new, free') })"

lemma split_slots_flat:
  assumes "wf_clump c"
  shows "split_slots H b c [0..<NODES_PER_CLUMP] st = split_flat H b (zip (m_dwKeySigs c) (m_pvNode c)) st"
proof -
  obtain a1 a2 a3 a4 p1 p2 p3 p4 where c: "c = \<lparr>m_dwKeySigs = [a1, a2, a3, a4], m_pvNode = [p1, p2, p3, p4]\<rparr>"
    using wf_clump_cases [OF assms] by blast
  have step: "split_slots H b c (i # is) st = split_flat H b ((m_dwKeySigs c ! i, m_pvNode c ! i) # rest) st"
    if "\<And>st. split_slots H b c is st = split_flat H b rest st" for i "is" rest st
    by (cases st) (simp add: that IsEmptySlot_def InvalidSignature_def)
  have "split_slots H b c [0, 1, 2, 3] st = split_flat H b [(m_dwKeySigs c ! 0, m_pvNode c ! 0),
      (m_dwKeySigs c ! 1, m_pvNode c ! 1), (m_dwKeySigs c ! 2, m_pvNode c ! 2), (m_dwKeySigs c ! 3, m_pvNode c ! 3)] st"
    by (intro step) simp
  then show ?thesis by (simp add: upt_4 c)
qed

lemma split_flat_blank [simp]: "split_flat H b (replicate n blank) st = Some st"
  by (induction n arbitrary: st) auto

text \<open>While the entries \<open>es\<close> of clump \<open>q\<close> are moved there is always a clump on the free list when one is
  needed: the two targets together never need more clumps than have been emptied.\<close>

lemma split_flat_correct:
  assumes "target olds (old, i)" "target news (new, k)" "\<forall>e\<in>set es. fst e \<noteq> HASH_INVALID_SIGNATURE"
    "length olds + length news + length es \<le> 4 * q + 4" "q + 2 \<le> free + length old + length new"
  shows "\<exists>old' i' new' k' free'.
    split_flat H b (map used es @ replicate n blank) ((old, i), (new, k), free) = Some ((old', i'), (new', k'), free') \<and>
    target (olds @ filter (\<lambda>e. H (fst e) \<noteq> b) es) (old', i') \<and> target (news @ filter (\<lambda>e. H (fst e) = b) es) (new', k') \<and>
    free' + length old' + length new' = free + length old + length new"
  using assms
proof (induction es arbitrary: olds old i news new k free)
  case (Cons e es)
  obtain s r where e: "e = (s, r)" by (cases e)
  have s: "s \<noteq> HASH_INVALID_SIGNATURE" using Cons.prems(3) e by simp
  have rest: "\<forall>e\<in>set es. fst e \<noteq> HASH_INVALID_SIGNATURE" using Cons.prems(3) by simp
  have o: "length olds = 4 * (length old - 1) + i" "0 < length old" "i \<le> 4"
    "length news = 4 * (length new - 1) + k" "0 < length new" "k \<le> 4"
    using target_le [OF Cons.prems(1)] target_le [OF Cons.prems(2)] by auto
  have n: "length olds + length news \<le> 4 * q + 3" using Cons.prems(4) by simp
  have room: "0 < free" if "i = 4 \<or> k = 4"
  proof -
    have "4 * (length old + length new) \<le> 4 * q + 3 + 4"
      using that o n by (cases "length old"; cases "length new") auto
    then have "length old + length new \<le> q + 1" by presburger
    then show ?thesis using Cons.prems(5) by linarith
  qed
  show ?case
  proof (cases "H s = b")
    case True
    from append_slot_target [OF Cons.prems(2) s, of free r] room obtain new1 k1 free1 where
      a: "append_slot s (Some r) (new, k) free = Some ((new1, k1), free1)" "target (news @ [(s, r)]) (new1, k1)"
      "free1 + length new1 = free + length new" by auto
    have "length olds + length (news @ [(s, r)]) + length es \<le> 4 * q + 4" "q + 2 \<le> free1 + length old + length new1"
      using Cons.prems(4,5) a(3) by auto
    from Cons.IH [OF Cons.prems(1) a(2) rest this] show ?thesis using e s True a(1,3) by (auto simp: used_def)
  next
    case False
    from append_slot_target [OF Cons.prems(1) s, of free r] room obtain old1 i1 free1 where
      a: "append_slot s (Some r) (old, i) free = Some ((old1, i1), free1)" "target (olds @ [(s, r)]) (old1, i1)"
      "free1 + length old1 = free + length old" by auto
    have "length (olds @ [(s, r)]) + length news + length es \<le> 4 * q + 4" "q + 2 \<le> free1 + length old1 + length new"
      using Cons.prems(4,5) a(3) by auto
    from Cons.IH [OF a(2) Cons.prems(2) rest this] show ?thesis using e s False a(1,3) by (auto simp: used_def)
  qed
qed simp

lemma split_chain_correct:
  assumes "pending zs cs" "target olds (old, i)" "target news (new, k)" "length olds + length news \<le> 4 * q"
    "cs \<noteq> [] \<Longrightarrow> q + 2 \<le> free + length old + length new"
    "isFirst \<Longrightarrow> tl cs \<noteq> [] \<Longrightarrow> q + 3 \<le> free + length old + length new"
  shows "\<exists>old' i' new' k' free'.
    split_chain H b isFirst cs ((old, i), (new, k), free) = Some ((old', i'), (new', k'), free') \<and>
    target (olds @ filter (\<lambda>e. H (fst e) \<noteq> b) zs) (old', i') \<and> target (news @ filter (\<lambda>e. H (fst e) = b) zs) (new', k') \<and>
    free' + length old' + length new' = free + length old + length new + length cs - of_bool (isFirst \<and> cs \<noteq> [])"
  using assms
proof (induction cs arbitrary: zs olds old i news new k free q isFirst)
  case Nil
  then show ?case by simp
next
  case (Cons c cs)
  note p = pending_Cons [OF Cons.prems(1)]
  let ?es = "take 4 zs"
  have "\<forall>e\<in>set ?es. fst e \<noteq> HASH_INVALID_SIGNATURE"
    using Cons.prems(1) by (auto simp: pending_def dest: in_set_takeD)
  moreover have "length olds + length news + length ?es \<le> 4 * q + 4" using Cons.prems(4) by simp
  moreover have "q + 2 \<le> free + length old + length new" using Cons.prems(5) by simp
  ultimately obtain old1 i1 new1 k1 free1 where a:
    "split_slots H b c [0..<NODES_PER_CLUMP] ((old, i), (new, k), free) = Some ((old1, i1), (new1, k1), free1)"
    "target (olds @ filter (\<lambda>e. H (fst e) \<noteq> b) ?es) (old1, i1)" "target (news @ filter (\<lambda>e. H (fst e) = b) ?es) (new1, k1)"
    "free1 + length old1 + length new1 = free + length old + length new"
    using split_flat_correct [OF Cons.prems(2,3), of ?es q free H b "4 - length zs"]
    unfolding split_slots_flat [OF p(1)] p(2) by blast
  let ?free = "if isFirst then free1 else free1 + 1"
  have n: "length (olds @ filter (\<lambda>e. H (fst e) \<noteq> b) ?es) + length (news @ filter (\<lambda>e. H (fst e) = b) ?es) \<le> 4 * (q + 1)"
    using Cons.prems(4) sum_length_filter_compl [of "\<lambda>e. H (fst e) = b" ?es] by simp
  have "q + 1 + 2 \<le> ?free + length old1 + length new1" if "cs \<noteq> []"
    using Cons.prems(5,6) that a(4) by auto
  from Cons.IH [where isFirst = False, OF p(3) a(2,3) n this] obtain old2 i2 new2 k2 free2 where b:
    "split_chain H b False cs ((old1, i1), (new1, k1), ?free) = Some ((old2, i2), (new2, k2), free2)"
    "target ((olds @ filter (\<lambda>e. H (fst e) \<noteq> b) ?es) @ filter (\<lambda>e. H (fst e) \<noteq> b) (drop 4 zs)) (old2, i2)"
    "target ((news @ filter (\<lambda>e. H (fst e) = b) ?es) @ filter (\<lambda>e. H (fst e) = b) (drop 4 zs)) (new2, k2)"
    "free2 + length old2 + length new2 = ?free + length old1 + length new1 + length cs" by auto
  have f: "filter P ?es @ filter P (drop 4 zs) = filter P zs" for P
    by (metis append_take_drop_id filter_append)
  show ?case using a(1,4) b f by (auto simp del: split_slots.simps)
qed

definition fits :: "'r bucket \<Rightarrow> nat \<Rightarrow> bool" where
  "fits ch free \<longleftrightarrow> free = of_bool (tl ch \<noteq> [])"

lemma SplitRecordSet_correct:
  assumes "chain_of xs ch" "fits ch free"
  shows "\<exists>old new left. SplitRecordSet ch e m b free w = Some (old, new, (HeapFree ^^ left) w) \<and>
    chain_of (filter (\<lambda>x. split_address e m (fst x) \<noteq> b) xs) old \<and>
    chain_of (filter (\<lambda>x. split_address e m (fst x) = b) xs) new \<and>
    left + length old + length new = length ch + 1 + free"
proof -
  have t: "target [] ([clump_Clear], 0)" by (simp add: target_def)
  have ne: "ch \<noteq> []" using assms(1) by simp
  have "0 + 2 \<le> free + length [clump_Clear] + length [clump_Clear]" by simp
  moreover have "0 + 3 \<le> free + length [clump_Clear] + length [clump_Clear]" if "tl ch \<noteq> []"
    using assms(2) that by (simp add: fits_def)
  ultimately obtain old i new k left where
    "split_chain (split_address e m) b True ch (([clump_Clear], 0), ([clump_Clear], 0), free) = Some ((old, i), (new, k), left)"
    "target (filter (\<lambda>x. split_address e m (fst x) \<noteq> b) xs) (old, i)"
    "target (filter (\<lambda>x. split_address e m (fst x) = b) xs) (new, k)"
    "left + length old + length new = free + 2 + length ch - 1"
    using split_chain_correct [OF chain_of_pending [OF assms(1)] t t, of 0 free True "split_address e m" b] ne by auto
  then show ?thesis by (auto simp: SplitRecordSet_def target_def)
qed

section \<open>\<open>_MergeRecordSets\<close>\<close>

text \<open>A merge appends to a compact chain: the slot to fill next is the one \<open>append_slot\<close> fills.\<close>

lemma merge_start_target:
  assumes "chain_of ys ch"
  shows "\<exists>i. merge_start 0 ch = length ch - 1 \<and> first_empty (ch ! (length ch - 1)) [0..<NODES_PER_CLUMP] = i \<and>
    target ys (ch, i)"
proof -
  have start: "merge_start j cs = j + length cs - 1"
    if "cs \<noteq> []" "\<forall>c\<in>set (butlast cs). first_empty c [0..<NODES_PER_CLUMP] = NODES_PER_CLUMP" for j and cs :: "'a clump list"
    using that by (induction j cs rule: merge_start.induct) auto
  have l: "4 * (length ch - 1) < length ys \<or> length ch = 1" "length ys \<le> 4 * length ch" "0 < length ch"
    using assms by (auto simp: chain_of_def)
  have "first_empty c [0..<NODES_PER_CLUMP] = NODES_PER_CLUMP" if "c \<in> set (butlast ch)" for c
  proof -
    obtain j where j: "j < length ch - 1" "c = ch ! j" using \<open>c \<in> set (butlast ch)\<close>
      by (metis in_set_conv_nth length_butlast nth_butlast)
    then have "4 \<le> length ys - 4 * j" using l by linarith
    then show ?thesis using chain_first_empty [OF assms, of j 0] j by (simp add: NODES_PER_CLUMP_def)
  qed
  then have "merge_start 0 ch = length ch - 1" using start [of ch 0] l(3) by auto
  moreover have "first_empty (ch ! (length ch - 1)) [0..<NODES_PER_CLUMP] = length ys - 4 * (length ch - 1)"
    using chain_first_empty [OF assms, of "length ch - 1" 0] l by (cases "length ch") auto
  moreover have "target ys (ch, length ys - 4 * (length ch - 1))" using assms l by (auto simp: target_def)
  ultimately show ?thesis by simp
qed

lemma merge_slot_append:
  assumes "target ys (ch, i)" "s \<noteq> HASH_INVALID_SIGNATURE" "append_slot s (Some r) (ch, i) free = Some ((ch', i'), free')"
    "target (ys @ [(s, r)]) (ch', i')"
  shows "merge_slot s (Some r) (ch, length ch - 1, i, free) = Some (ch', length ch' - 1, i', free')"
proof -
  have i: "0 < length ch" "i \<le> 4" "length ys = 4 * (length ch - 1) + i" using target_le [OF assms(1)] by auto
  have c': "chain_of (ys @ [(s, r)]) ch'" "0 < length ch'" "i' \<le> 4" "length ys + 1 = 4 * (length ch' - 1) + i'"
    using assms(4) target_le [OF assms(4)] by (auto simp: target_def)
  have len: "length (x :: 'a bucket) = length y" if "put_slot j k sg pv y = Some x" for j k sg pv x y
    using that by (auto simp: put_slot_def mem_put_def split: option.splits bind_splits if_splits)
  have fe: "first_empty (ch' ! (length ch' - 1)) [k..<NODES_PER_CLUMP] = i'" if "k \<le> i'" for k
    using chain_first_empty [OF c'(1), of "length ch' - 1" k] c'(2-4) that by (simp add: max_def)
  have get: "mem_get (length ch' - 1) ch' = Some (ch' ! (length ch' - 1))" using c'(2) by (simp add: mem_get_def)
  show ?thesis
  proof (cases "i = 4")
    case True
    then have a: "0 < free" "put_slot (length ch) 0 s (Some r) (ch @ [clump_Clear]) = Some ch'" "i' = 1" "free' = free - 1"
      using assms(3) by (auto simp: append_slot_def NODES_PER_CLUMP_def split: if_splits bind_splits)
    have l: "length ch' - 1 = length ch" using len [OF a(2)] by simp
    have d: "merge_next (Suc (length ch - 1)) (drop (Suc (length ch - 1)) ch) = None" using i(1) by simp
    show ?thesis using True a fe [of 1] get unfolding merge_slot_def Let_def d l
      by (simp add: NODES_PER_CLUMP_def)
  next
    case False
    then have a: "put_slot (length ch - 1) i s (Some r) ch = Some ch'" "i' = i + 1" "free' = free"
      using assms(3) by (auto simp: append_slot_def NODES_PER_CLUMP_def split: if_splits bind_splits)
    have l: "length ch' - 1 = length ch - 1" using len [OF a(1)] by simp
    show ?thesis using False a fe [of "i + 1"] get unfolding merge_slot_def Let_def l
      by (simp add: NODES_PER_CLUMP_def)
  qed
qed

fun merge_flat ::
  "(DWORD \<times> 'r option) list \<Rightarrow> 'r bucket \<times> nat \<times> nat \<times> nat \<Rightarrow> ('r bucket \<times> nat \<times> nat \<times> nat) option" where
  "merge_flat [] st = Some st"
| "merge_flat ((s, n) # rest) st =
     (if s = HASH_INVALID_SIGNATURE then merge_flat rest st
      else do { st' \<leftarrow> merge_slot s n st; merge_flat rest st' })"

lemma merge_slots_flat:
  assumes "wf_clump c"
  shows "merge_slots c [0..<NODES_PER_CLUMP] st = merge_flat (zip (m_dwKeySigs c) (m_pvNode c)) st"
proof -
  obtain a1 a2 a3 a4 p1 p2 p3 p4 where c: "c = \<lparr>m_dwKeySigs = [a1, a2, a3, a4], m_pvNode = [p1, p2, p3, p4]\<rparr>"
    using wf_clump_cases [OF assms] by blast
  have step: "merge_slots c (i # is) st = merge_flat ((m_dwKeySigs c ! i, m_pvNode c ! i) # rest) st"
    if "\<And>st. merge_slots c is st = merge_flat rest st" for i "is" rest st
  proof -
    have "merge_slots c is = merge_flat rest" using that by blast
    then show ?thesis by (simp add: IsEmptySlot_def InvalidSignature_def)
  qed
  have "merge_slots c [0, 1, 2, 3] st = merge_flat [(m_dwKeySigs c ! 0, m_pvNode c ! 0),
      (m_dwKeySigs c ! 1, m_pvNode c ! 1), (m_dwKeySigs c ! 2, m_pvNode c ! 2), (m_dwKeySigs c ! 3, m_pvNode c ! 3)] st"
    by (intro step) simp
  then show ?thesis by (simp add: upt_4 c)
qed

lemma merge_flat_blank [simp]: "merge_flat (replicate n blank) st = Some st"
  by (induction n) auto

lemma merge_flat_correct:
  assumes "target ys (ch, i)" "\<forall>e\<in>set es. fst e \<noteq> HASH_INVALID_SIGNATURE"
    "length ys + length es \<le> 4 * (free + length ch)"
  shows "\<exists>ch' i' free'. merge_flat (map used es @ replicate n blank) (ch, length ch - 1, i, free) =
      Some (ch', length ch' - 1, i', free') \<and> target (ys @ es) (ch', i') \<and> free' + length ch' = free + length ch"
  using assms
proof (induction es arbitrary: ys ch i free)
  case (Cons e es)
  obtain s r where e: "e = (s, r)" by (cases e)
  have s: "s \<noteq> HASH_INVALID_SIGNATURE" "\<forall>e\<in>set es. fst e \<noteq> HASH_INVALID_SIGNATURE" using Cons.prems(2) e by auto
  have room: "0 < free" if "i = 4"
    using Cons.prems(3) target_le [OF Cons.prems(1)] that by (cases "length ch") auto
  obtain ch1 i1 free1 where a: "append_slot s (Some r) (ch, i) free = Some ((ch1, i1), free1)"
    "target (ys @ [(s, r)]) (ch1, i1)" "free1 + length ch1 = free + length ch"
    using append_slot_target [OF Cons.prems(1) s(1), of free r] room by blast
  have "length (ys @ [(s, r)]) + length es \<le> 4 * (free1 + length ch1)" using Cons.prems(3) a(3) by simp
  from Cons.IH [OF a(2) s(2) this] show ?case
    using merge_slot_append [OF Cons.prems(1) s(1) a(1,2)] s(1) a(3) e by (auto simp: used_def)
qed simp

lemma merge_chain_correct:
  assumes "pending zs cs" "target ys (ch, i)"
    "length ys + min (if isFirst then 8 else 4) (length zs) \<le> 4 * (free + length ch)"
  shows "\<exists>ch' i' free'. merge_chain isFirst cs (ch, length ch - 1, i, free) = Some (ch', length ch' - 1, i', free') \<and>
    target (ys @ zs) (ch', i') \<and> free' + length ch' = free + length ch + length cs - of_bool (isFirst \<and> cs \<noteq> [])"
  using assms
proof (induction cs arbitrary: zs ys ch i free isFirst)
  case (Cons c cs)
  note p = pending_Cons [OF Cons.prems(1)]
  let ?es = "take 4 zs"
  have es: "\<forall>e\<in>set ?es. fst e \<noteq> HASH_INVALID_SIGNATURE"
    using Cons.prems(1) by (auto simp: pending_def dest: in_set_takeD)
  have "length ys + length ?es \<le> 4 * (free + length ch)" using Cons.prems(3) by (cases isFirst) auto
  then obtain ch1 i1 free1 where
    a: "merge_slots c [0..<NODES_PER_CLUMP] (ch, length ch - 1, i, free) = Some (ch1, length ch1 - 1, i1, free1)"
    "target (ys @ ?es) (ch1, i1)" "free1 + length ch1 = free + length ch"
    using merge_flat_correct [OF Cons.prems(2) es, of free "4 - length zs"]
    unfolding merge_slots_flat [OF p(1)] p(2) by blast
  let ?free = "if isFirst then free1 else free1 + 1"
  have "length (ys @ ?es) + min (if False then 8 else 4) (length (drop 4 zs)) \<le> 4 * (?free + length ch1)"
    using Cons.prems(3) a(3) by (cases isFirst) (auto simp: min_def split: if_splits)
  from Cons.IH [OF p(3) a(2) this] obtain ch2 i2 free2 where
    b: "merge_chain False cs (ch1, length ch1 - 1, i1, ?free) = Some (ch2, length ch2 - 1, i2, free2)"
    "target ((ys @ ?es) @ drop 4 zs) (ch2, i2)" "free2 + length ch2 = ?free + length ch1 + length cs" by auto
  show ?case using a(1,3) b by auto
qed simp

text \<open>The number of clumps \<open>_Contract\<close> allocates for a merge, from the entries to move and the empty slots.\<close>

definition surplus :: "int \<Rightarrow> nat" where
  "surplus c = (if c > 0 then if c > 4 then 2 else 1 else 0)"

lemma MergeRecordSets_correct:
  assumes "chain_of ys ch" "chain_of zs old" "free = surplus (int (length zs) - int (4 * length ch - length ys))"
  shows "\<exists>ch' left. MergeRecordSets ch old free w = Some (ch', (HeapFree ^^ left) w) \<and> chain_of (ys @ zs) ch' \<and>
    left + length ch' = length ch + (length old - 1) + free"
proof -
  obtain i where i: "merge_start 0 ch = length ch - 1" "first_empty (ch ! (length ch - 1)) [0..<NODES_PER_CLUMP] = i"
    "target ys (ch, i)" using merge_start_target [OF assms(1)] by blast
  have le: "length ys \<le> 4 * length ch" "ch \<noteq> []" "old \<noteq> []" using assms(1,2) by (auto simp: chain_of_def)
  have "length ys + min (if True then 8 else 4) (length zs) \<le> 4 * (free + length ch)"
    using assms(3) le(1) by (auto simp: surplus_def split: if_splits)
  from merge_chain_correct [OF chain_of_pending [OF assms(2)] i(3) this] obtain ch' i' left where
    "merge_chain True old (ch, length ch - 1, i, free) = Some (ch', length ch' - 1, i', left)" "target (ys @ zs) (ch', i')"
    "left + length ch' = free + length ch + length old - 1" using le(3) by auto
  moreover have "left + length ch' = length ch + (length old - 1) + free" using calculation(3) le(3) by (cases old) auto
  ultimately show ?thesis using i le(2) by (auto simp: MergeRecordSets_def mem_get_def target_def)
qed

section \<open>\<open>_IsNodeCompact\<close>\<close>

text \<open>The check that the debug build asserts around every change finds no error in a compact chain.\<close>

fun compact_flat :: "bool \<Rightarrow> (DWORD \<times> 'r option) list \<Rightarrow> bool \<Rightarrow> nat \<Rightarrow> bool \<times> nat" where
  "compact_flat isLast [] e n = (e, n)"
| "compact_flat isLast ((s, v) # rest) e n =
     (if e then compact_flat isLast rest e (n + of_bool (s \<noteq> HASH_INVALID_SIGNATURE) + of_bool (v \<noteq> None))
      else if s = HASH_INVALID_SIGNATURE then compact_flat isLast rest True (n + of_bool (v \<noteq> None) + of_bool (\<not> isLast))
      else compact_flat isLast rest e (n + of_bool (v = None)))"

lemma compact_slots_flat:
  assumes "wf_clump c"
  shows "compact_slots c l [0..<NODES_PER_CLUMP] e n = compact_flat l (zip (m_dwKeySigs c) (m_pvNode c)) e n"
proof -
  obtain a1 a2 a3 a4 p1 p2 p3 p4 where c: "c = \<lparr>m_dwKeySigs = [a1, a2, a3, a4], m_pvNode = [p1, p2, p3, p4]\<rparr>"
    using wf_clump_cases [OF assms] by blast
  have step: "compact_slots c l (i # is) e n = compact_flat l ((m_dwKeySigs c ! i, m_pvNode c ! i) # rest) e n"
    if "\<And>e n. compact_slots c l is e n = compact_flat l rest e n" for i "is" rest e n
    by (simp add: that InvalidSignature_def IsEmptyNode_def)
  have "compact_slots c l [0, 1, 2, 3] e n = compact_flat l [(m_dwKeySigs c ! 0, m_pvNode c ! 0),
      (m_dwKeySigs c ! 1, m_pvNode c ! 1), (m_dwKeySigs c ! 2, m_pvNode c ! 2), (m_dwKeySigs c ! 3, m_pvNode c ! 3)] e n"
    by (intro step) simp
  then show ?thesis by (simp add: upt_4 c)
qed

lemma compact_flat_used:
  assumes "\<forall>e\<in>set es. fst e \<noteq> HASH_INVALID_SIGNATURE" "l \<or> k = 0"
  shows "compact_flat l (map used es @ replicate k blank) False n = (k \<noteq> 0, n)"
  using assms
proof (induction es)
  case Nil
  have "compact_flat l (replicate k blank) True n = (True, n)" for k :: nat by (induction k) simp_all
  then show ?case using Nil by (cases k) auto
qed (simp add: used_def)

lemma compact_chain_correct:
  "pending zs cs \<Longrightarrow> cs = [] \<or> 4 * (length cs - 1) < length zs \<Longrightarrow> compact_chain cs False n = n"
proof (induction cs arbitrary: zs)
  case (Cons c cs)
  note p = pending_Cons [OF Cons.prems(1)]
  have es: "\<forall>e\<in>set (take 4 zs). fst e \<noteq> HASH_INVALID_SIGNATURE"
    using Cons.prems(1) by (auto simp: pending_def dest: in_set_takeD)
  have "cs = [] \<or> 4 - length zs = 0" using Cons.prems(2) by (cases cs) auto
  then have "compact_slots c (cs = []) [0..<NODES_PER_CLUMP] False n = (4 - length zs \<noteq> 0, n)"
    unfolding compact_slots_flat [OF p(1)] p(2) by (rule compact_flat_used [OF es])
  moreover have "compact_chain cs False n = n"
    by (rule Cons.IH [OF p(3)]) (use Cons.prems(2) in \<open>cases cs; auto\<close>)
  moreover have "compact_chain cs True n = n" if "4 - length zs \<noteq> 0" using Cons.prems(2) that by (cases cs) auto
  ultimately show ?case by (cases "4 \<le> length zs") auto
qed simp

lemma IsNodeCompact_chain_of:
  assumes "chain_of xs ch"
  shows "IsNodeCompact ch = 0"
proof (cases xs)
  case Nil
  then obtain c where c: "ch = [c]" "wf_clump c" "zip (m_dwKeySigs c) (m_pvNode c) = replicate 4 blank"
    using assms by (cases ch) (auto simp: chain_of_def)
  have "InvalidSignature c 0"
    using c(2,3) by (elim wf_clump_cases) (simp add: InvalidSignature_def numeral_eq_Suc)
  moreover have "compact_flat True (replicate k blank) True n = (True, n)" for k n :: nat by (induction k) simp_all
  then have "compact_slots c True [0..<NODES_PER_CLUMP] True 0 = (True, 0)"
    unfolding compact_slots_flat [OF c(2)] c(3) by blast
  ultimately show ?thesis using c(1) by (simp add: IsNodeCompact_def del: upt_Suc)
next
  case (Cons x rest)
  have "0 < length ch" "4 * (length ch - 1) < length xs" using assms Cons by (auto simp: chain_of_def)
  moreover have "\<not> InvalidSignature (hd ch) 0"
    using slot_empty_iff [OF assms, of 0 0] calculation Cons by (cases ch) (auto simp: IsEmptySlot_def)
  ultimately show ?thesis using compact_chain_correct [OF chain_of_pending [OF assms]]
    by (simp add: IsNodeCompact_def)
qed

end
