(* ===== verification/LkrSignature.thy ===== *)
theory LkrSignature
  imports LkrClump
begin

text \<open>
  The value that marks an empty slot of a clump, HASH_INVALID_SIGNATURE, is not the scrambled form of any
  hash. \<open>HashRandomizeBits\<close> takes 16 bits from each of two linear functions of its argument modulo
  \<open>2 ^ 32\<close>; two short integer combinations of the remainders bound them to two candidates, and neither fits.
\<close>

lemma scramble_arith:
  fixes x p q z l :: int
  assumes "x * 1103515245 + 12345 = 4294967296 * p + 1614479360 + z" "x * 69069 + 1 = 4294967296 * q + 31653888 + l"
    "0 \<le> z" "z < 65536" "0 \<le> l" "l < 65536"
  shows False
proof -
  have k: "44629 * z - 38901 * l = 4294967296 * (11466 * x + 38901 * q - 44629 * p) - 70820680554248"
    "73942 * l + 25578 * z = 4294967296 * (6573 * x - 73942 * q - 25578 * p) - 43635389022224"
    using assms(1,2) by (simp_all add: algebra_simps)
  obtain k1 k2 where k1: "44629 * z - 38901 * l = 4294967296 * k1 - 70820680554248"
    "73942 * l + 25578 * z = 4294967296 * k2 - 43635389022224" using k by blast
  have e1: "k1 = 16489" using k1(1) assms(3-6) by linarith
  have "k2 = 10160 \<or> k2 = 10161" using k1(2) assms(3-6) by linarith
  then show False
  proof
    assume "k2 = 10160"
    then have "l = 21111" using k1 e1 by linarith
    then show False using k1(1) e1 assms(3) by linarith
  next
    assume "k2 = 10161"
    then have "l = 65740" using k1 e1 by linarith
    then show False using assms(6) by linarith
  qed
qed

lemma drop_bit_parts:
  fixes a b :: DWORD
  assumes "drop_bit 16 a OR (b AND 0xffff0000) = 31678523"
  shows "drop_bit 16 a = 24635" "drop_bit 16 b = 483"
proof -
  have t: "take_bit 16 (drop_bit 16 c) = drop_bit 16 c" for c :: DWORD
    
    by (rule bit_word_eqI) (auto simp: bit_simps dest: bit_imp_le_length)
  have "take_bit 16 (drop_bit 16 a OR (b AND 0xffff0000)) = drop_bit 16 a"
    by (simp add: take_bit_or take_bit_and t)
  then show "drop_bit 16 a = 24635" unfolding assms by simp
  have m: "drop_bit 16 (0xffff0000 :: DWORD) = mask 16" by (simp add: mask_eq_exp_minus_1)
  have z: "drop_bit 16 (drop_bit 16 a) = 0" by (rule bit_word_eqI) (auto simp: bit_simps dest: bit_imp_le_length)
  have "drop_bit 16 (drop_bit 16 a OR (b AND 0xffff0000)) = drop_bit 16 b"
    unfolding drop_bit_or drop_bit_and m z take_bit_eq_mask [symmetric] t by simp
  then show "drop_bit 16 b = 483" unfolding assms by simp
qed

text \<open>No 32-bit number at all is scrambled to the signature that marks an empty slot.\<close>

lemma HashRandomizeBits_valid: "HashRandomizeBits dw \<noteq> HASH_INVALID_SIGNATURE"
proof
  assume "HashRandomizeBits dw = HASH_INVALID_SIGNATURE"
  then have p: "drop_bit 16 (dw * 1103515245 + 12345) OR ((dw * 69069 + 1) AND 0xffff0000) = (31678523 :: DWORD)"
    by (simp add: HashRandomizeBits_def HASH_INVALID_SIGNATURE_def)
  have u16: "uint (drop_bit 16 v) = uint v div 65536" for v :: DWORD
  proof -
    have "uint (drop_bit 16 v) = drop_bit 16 (take_bit 32 (uint v))" by (rule unsigned_drop_bit_eq [where 'b = 32, simplified])
    moreover have "take_bit 32 (uint v) = uint v" by (rule bintr_uint) simp
    ultimately show ?thesis by (simp only: drop_bit_eq_div) simp
  qed
  have d: "uint (dw * 1103515245 + 12345) div 65536 = 24635" "uint (dw * 69069 + 1) div 65536 = 483"
    unfolding u16 [symmetric] drop_bit_parts [OF p] by simp_all
  define x where "x = uint dw"
  have u: "uint (dw * 1103515245 + 12345) = (x * 1103515245 + 12345) mod 4294967296"
    "uint (dw * 69069 + 1) = (x * 69069 + 1) mod 4294967296"
    by (simp_all add: x_def uint_word_ariths mod_simps take_bit_eq_mod)
  have part: "\<exists>p z. v = 4294967296 * p + 65536 * c + z \<and> 0 \<le> z \<and> z < 65536"
    if "v mod 4294967296 div 65536 = c" for v c :: int
  proof -
    have "v = 4294967296 * (v div 4294967296) + v mod 4294967296" by (rule mult_div_mod_eq [symmetric])
    moreover have "v mod 4294967296 = 65536 * c + v mod 4294967296 mod 65536"
      using mult_div_mod_eq [of 65536 "v mod 4294967296"] unfolding that by (rule sym)
    ultimately have "v = 4294967296 * (v div 4294967296) + 65536 * c + v mod 4294967296 mod 65536"
      by (metis add.assoc)
    then show ?thesis using pos_mod_bound [of 65536 "v mod 4294967296"] pos_mod_sign [of 65536 "v mod 4294967296"]
      by (intro exI [of _ "v div 4294967296"] exI [of _ "v mod 4294967296 mod 65536"] conjI) (assumption, simp, simp)
  qed
  obtain p z where "x * 1103515245 + 12345 = 4294967296 * p + 65536 * 24635 + z" "0 \<le> z" "z < 65536"
    using part [OF d(1) [unfolded u]] by blast
  moreover obtain q l where "x * 69069 + 1 = 4294967296 * q + 65536 * 483 + l" "0 \<le> l" "l < 65536"
    using part [OF d(2) [unfolded u]] by blast
  ultimately show False using scramble_arith [of x p z q l] by simp
qed

end
