(* ===== verification/LkrTable.thy ===== *)
theory LkrTable
  imports LkrOps LkrClumpFacts LkrSignature
begin

text \<open>
  The representation of a linear hash table. \<open>shape\<close> is the part that does not mention records: the level and
  the expansion index give the number of buckets, the masks and the directory fit them. \<open>rep t E\<close> says that the
  buckets of \<open>t\<close> hold exactly the entries \<open>E\<close>, each in a compact chain of the bucket its signature leads to.
\<close>

section \<open>Masks and addresses\<close>

lemma and_mask: "(n :: nat) AND (2 ^ k - 1) = n mod 2 ^ k"
  by (metis mask_eq_exp_minus_1 take_bit_eq_mask take_bit_eq_mod)

lemma shift_mask: "push_bit 1 (2 ^ k - 1) OR 1 = (2 ^ Suc k - 1 :: nat)"
proof -
  have "push_bit 1 (2 ^ k - 1 :: nat) = 2 * (2 ^ k - 1)" by (simp add: push_bit_eq_mult)
  moreover have "2 * (2 ^ k - 1) OR Suc 0 = 2 * (2 ^ k - 1) + (1 :: nat)" by (simp add: or_Suc_0_eq)
  moreover have "2 * ((2 :: nat) ^ k - 1) + 1 = 2 ^ Suc k - 1" by (cases "(2 :: nat) ^ k") simp_all
  ultimately show ?thesis by simp
qed

lemma dword_mask: "k \<le> 32 \<Longrightarrow> dword (2 ^ k - 1) = 2 ^ k - 1"
proof -
  assume "k \<le> 32"
  then have "(2 :: nat) ^ k \<le> 2 ^ 32" by (rule power_increasing) simp
  then show ?thesis by (simp add: dword_def)
qed

lemma dword_power: "k < 32 \<Longrightarrow> dword (2 ^ k) = 2 ^ k"
proof -
  assume "k < 32"
  then have "(2 :: nat) ^ k < 2 ^ 32" by (rule power_strict_increasing) simp
  then show ?thesis by (simp add: dword_def)
qed

lemma power_or:
  assumes "(i :: nat) < 2 ^ l"
  shows "2 ^ l OR i = 2 ^ l + i"
proof -
  have "\<not> bit i l" using assms by (simp add: bit_iff_odd)
  then have "2 ^ l AND i = 0" by (intro bit_eqI) (auto simp: bit_simps)
  then show ?thesis by (simp add: disjunctive_add_eq_or)
qed

text \<open>The address of linear hashing, as arithmetic: level \<open>l\<close>, expansion index \<open>i\<close>.\<close>

definition lin_addr :: "nat \<Rightarrow> nat \<Rightarrow> nat \<Rightarrow> nat" where
  "lin_addr l i x = (if x mod 2 ^ l < i then x mod 2 ^ Suc l else x mod 2 ^ l)"

lemma mod_double: "(x :: nat) mod 2 ^ Suc l = x mod 2 ^ l \<or> x mod 2 ^ Suc l = 2 ^ l + x mod 2 ^ l"
proof -
  have "x mod (2 ^ l * 2) = 2 ^ l * (x div 2 ^ l mod 2) + x mod 2 ^ l" by (rule mod_mult2_eq)
  then show ?thesis by (cases "x div 2 ^ l mod 2 = 0") (auto simp: mult.commute)
qed

lemma lin_addr_less: "lin_addr l i x < 2 ^ l + i"
proof -
  have "x mod 2 ^ l < 2 ^ l" by simp
  moreover have "lin_addr l i x \<le> 2 ^ l + x mod 2 ^ l \<and> x mod 2 ^ l < i \<or> lin_addr l i x = x mod 2 ^ l"
    using mod_double [of x l] unfolding lin_addr_def by auto
  ultimately show ?thesis by linarith
qed

lemma lin_addr_wrap: "lin_addr (Suc l) 0 x = lin_addr l (2 ^ l) x"
  by (simp add: lin_addr_def)

lemma lin_addr_Suc:
  assumes "i < 2 ^ l"
  shows "lin_addr l (Suc i) x = (if lin_addr l i x = i then x mod 2 ^ Suc l else lin_addr l i x)"
  using assms mod_double [of x l] by (auto simp: lin_addr_def less_Suc_eq)

lemma lin_addr_split:
  assumes "i < 2 ^ l"
  shows "lin_addr l i x = i \<Longrightarrow> lin_addr l (Suc i) x = i \<or> lin_addr l (Suc i) x = 2 ^ l + i"
    and "lin_addr l i x \<noteq> i \<Longrightarrow> lin_addr l (Suc i) x = lin_addr l i x"
  using assms mod_double [of x l] by (auto simp: lin_addr_def less_Suc_eq split: if_splits)

section \<open>The shape of a table\<close>

definition shape :: "'r lkr \<Rightarrow> bool" where
  "shape t \<longleftrightarrow> m_lkrcState t = LK_SUCCESS \<and> m_lkts t \<in> {1, 2, 3} \<and>
     m_dwSegBits t = seg_bits (m_lkts t) \<and> m_dwSegSize t = 2 ^ m_dwSegBits t \<and> m_dwSegMask t = 2 ^ m_dwSegBits t - 1 \<and>
     m_dwSegBits t \<le> m_nLevel t \<and> m_dwBktAddrMask0 t = 2 ^ m_nLevel t - 1 \<and>
     m_dwBktAddrMask1 t = 2 ^ Suc (m_nLevel t) - 1 \<and> m_iExpansionIdx t < 2 ^ m_nLevel t \<and>
     m_cActiveBuckets t = 2 ^ m_nLevel t + m_iExpansionIdx t \<and>
     (\<exists>k. 3 \<le> k \<and> k \<le> 20 \<and> m_cDirSegs t = 2 ^ k) \<and> m_cActiveBuckets t \<le> m_cDirSegs t * m_dwSegSize t \<and>
     (\<exists>dir. m_paDirSegs t = Some dir \<and> length dir = m_cDirSegs t \<and> (\<forall>seg. Some seg \<in> set dir \<longrightarrow> length seg = m_dwSegSize t))"

definition bucket_rep :: "'r lkr \<Rightarrow> 'r entry multiset \<Rightarrow> nat \<Rightarrow> bool" where
  "bucket_rep t E a \<longleftrightarrow> (\<exists>ch xs. Bucket a t = Some ch \<and> chain_of xs ch \<and>
     mset xs = filter_mset (\<lambda>e. BucketAddress (fst e) t = a) E)"

definition rep :: "'r lkr \<Rightarrow> 'r entry multiset \<Rightarrow> bool" where
  "rep t E \<longleftrightarrow> shape t \<and> (\<forall>a < m_cActiveBuckets t. bucket_rep t E a) \<and>
     (\<forall>a ch. m_cActiveBuckets t \<le> a \<longrightarrow> Bucket a t = Some ch \<longrightarrow> chain_of [] ch)"

lemma shapeD:
  assumes "shape t"
  shows "m_lkrcState t = LK_SUCCESS" "m_lkts t = 1 \<or> m_lkts t = 2 \<or> m_lkts t = 3"
    "m_dwSegBits t = seg_bits (m_lkts t)" "m_dwSegSize t = 2 ^ m_dwSegBits t" "m_dwSegMask t = 2 ^ m_dwSegBits t - 1"
    "m_dwSegBits t \<le> m_nLevel t" "m_dwBktAddrMask0 t = 2 ^ m_nLevel t - 1" "m_dwBktAddrMask1 t = 2 ^ Suc (m_nLevel t) - 1"
    "m_iExpansionIdx t < 2 ^ m_nLevel t" "m_cActiveBuckets t = 2 ^ m_nLevel t + m_iExpansionIdx t"
    "m_cActiveBuckets t \<le> m_cDirSegs t * m_dwSegSize t"
    "\<exists>k. 3 \<le> k \<and> k \<le> 20 \<and> m_cDirSegs t = 2 ^ k"
    "\<exists>dir. m_paDirSegs t = Some dir \<and> length dir = m_cDirSegs t \<and> (\<forall>seg. Some seg \<in> set dir \<longrightarrow> length seg = m_dwSegSize t)"
  using assms unfolding shape_def by blast+

lemma shape_bits:
  assumes "shape t"
  shows "3 \<le> m_dwSegBits t" "m_dwSegBits t \<le> 9" "m_nLevel t \<le> 29" "m_cActiveBuckets t \<le> 536870912"
    "m_cDirSegs t \<le> MAX_DIRSIZE" "8 \<le> m_dwSegSize t" "m_dwSegSize t \<le> 512" "MIN_DIRSIZE \<le> m_cDirSegs t"
proof -
  note D = shapeD [OF assms]
  show b: "3 \<le> m_dwSegBits t" "m_dwSegBits t \<le> 9" using D(3) by (auto simp: seg_bits_def)
  note s = D(4)
  have "(2 :: nat) ^ 3 \<le> 2 ^ m_dwSegBits t" "(2 :: nat) ^ m_dwSegBits t \<le> 2 ^ 9"
    using b by (simp_all only: power_increasing_iff one_less_numeral_iff Num.num.simps semiring_norm)
  then show ss: "8 \<le> m_dwSegSize t" "m_dwSegSize t \<le> 512" using s by simp_all
  obtain k where k: "3 \<le> k" "k \<le> 20" "m_cDirSegs t = 2 ^ k" using D(12) by blast
  have "(2 :: nat) ^ 3 \<le> 2 ^ k" "(2 :: nat) ^ k \<le> 2 ^ 20" using k(1,2) by (simp_all only: power_increasing_iff one_less_numeral_iff Num.num.simps semiring_norm)
  then show d: "m_cDirSegs t \<le> MAX_DIRSIZE" "MIN_DIRSIZE \<le> m_cDirSegs t" using k by (simp_all add: lkr_sizes)
  have "m_cDirSegs t * m_dwSegSize t \<le> 1048576 * 512" by (rule mult_le_mono) (use d ss in \<open>simp_all add: lkr_sizes\<close>)
  then show a: "m_cActiveBuckets t \<le> 536870912" using D(11) by simp
  have "(2 :: nat) ^ m_nLevel t \<le> 2 ^ 29" using a D(10) by simp
  then show "m_nLevel t \<le> 29" by (simp only: power_increasing_iff)
qed

lemma BucketAddress_lin:
  assumes "shape t"
  shows "BucketAddress s t = lin_addr (m_nLevel t) (m_iExpansionIdx t) (unat s)"
proof -
  show ?thesis unfolding BucketAddress_def lin_addr_def Let_def
    by (simp only: and_mask shapeD(7,8) [OF assms])
qed

lemma BucketAddress_less: "shape t \<Longrightarrow> BucketAddress s t < m_cActiveBuckets t"
  using lin_addr_less [of "m_nLevel t" "m_iExpansionIdx t"] by (simp add: BucketAddress_lin shapeD(10))

lemma SegIndex_shape: "shape t \<Longrightarrow> SegIndex a t = a mod m_dwSegSize t"
  unfolding SegIndex_def by (simp only: shapeD(4,5) and_mask)

lemma iSeg_shape: "shape t \<Longrightarrow> iSeg a t = a div m_dwSegSize t"
  by (simp add: iSeg_def shapeD(4) drop_bit_eq_div)

section \<open>Reading and writing buckets\<close>

text \<open>Reading depends on the directory and on the size of the segments only.\<close>

lemma Bucket_cong:
  assumes "m_paDirSegs t' = m_paDirSegs t" "m_dwSegBits t' = m_dwSegBits t" "m_dwSegMask t' = m_dwSegMask t"
  shows "Bucket a t' = Bucket a t" "Segment a t' = Segment a t"
  using assms by (simp_all add: Bucket_def Segment_def iSeg_def SegIndex_def)

definition dir_ok :: "'r lkr \<Rightarrow> 'r bucket list option list \<Rightarrow> bool" where
  "dir_ok t dir \<longleftrightarrow> length dir = m_cDirSegs t \<and> (\<forall>seg. Some seg \<in> set dir \<longrightarrow> length seg = m_dwSegSize t)"

lemma shape_dir:
  assumes "shape t"
  obtains dir where "m_paDirSegs t = Some dir" "dir_ok t dir"
  using shapeD(13) [OF assms] by (auto simp: dir_ok_def)

lemma shape_cong:
  assumes "shape t" "dir_ok t dir" and e: "m_lkrcState t' = m_lkrcState t" "m_lkts t' = m_lkts t"
    "m_dwSegBits t' = m_dwSegBits t" "m_dwSegSize t' = m_dwSegSize t" "m_dwSegMask t' = m_dwSegMask t"
    "m_dwBktAddrMask0 t' = m_dwBktAddrMask0 t" "m_dwBktAddrMask1 t' = m_dwBktAddrMask1 t"
    "m_iExpansionIdx t' = m_iExpansionIdx t" "m_nLevel t' = m_nLevel t" "m_cDirSegs t' = m_cDirSegs t"
    "m_cActiveBuckets t' = m_cActiveBuckets t" "m_paDirSegs t' = Some dir"
  shows "shape t'"
  using assms(1,2) unfolding shape_def dir_ok_def e by blast

lemma shape_put: "shape t \<Longrightarrow> dir_ok t dir \<Longrightarrow> shape (t\<lparr>m_paDirSegs := Some dir\<rparr>)"
  by (rule shape_cong [of t dir]) simp_all

lemma shape_trace [simp]: "shape (trace es t) = shape t"
  by (simp add: shape_def trace_def)

lemma Bucket_trace [simp]: "Bucket a (trace es t) = Bucket a t" "BucketAddress s (trace es t) = BucketAddress s t"
  by (simp_all add: Bucket_def Segment_def iSeg_def SegIndex_def trace_def BucketAddress_def Let_def)

lemma bucket_rep_trace [simp]: "bucket_rep (trace es t) E a = bucket_rep t E a"
  by (simp add: bucket_rep_def)

lemma trace_fields [simp]:
  "m_lkrcState (trace es t) = m_lkrcState t" "m_lkts (trace es t) = m_lkts t" "m_dwSegBits (trace es t) = m_dwSegBits t"
  "m_dwSegSize (trace es t) = m_dwSegSize t" "m_dwSegMask (trace es t) = m_dwSegMask t" "m_MaxLoad (trace es t) = m_MaxLoad t"
  "m_dwBktAddrMask0 (trace es t) = m_dwBktAddrMask0 t" "m_dwBktAddrMask1 (trace es t) = m_dwBktAddrMask1 t"
  "m_iExpansionIdx (trace es t) = m_iExpansionIdx t" "m_paDirSegs (trace es t) = m_paDirSegs t"
  "m_nLevel (trace es t) = m_nLevel t" "m_cDirSegs (trace es t) = m_cDirSegs t" "m_cRecords (trace es t) = m_cRecords t"
  "m_cActiveBuckets (trace es t) = m_cActiveBuckets t" "events (trace es t) = events t @ es"
  "trace fs (trace es t) = trace (es @ fs) t"
  by (simp_all add: trace_def)

lemma rep_trace [simp]: "rep (trace es t) E = rep t E"
  by (simp add: rep_def)

lemma Bucket_dir:
  assumes "shape t" "dir_ok t dir"
  shows "Bucket a (t\<lparr>m_paDirSegs := Some dir\<rparr>) = (if a div m_dwSegSize t < length dir
    then map_option (\<lambda>seg. seg ! (a mod m_dwSegSize t)) (dir ! (a div m_dwSegSize t)) else None)"
proof -
  let ?t = "t\<lparr>m_paDirSegs := Some dir\<rparr>"
  have s: "shape ?t" by (rule shape_put [OF assms])
  have S: "0 < m_dwSegSize t" using shape_bits(6) [OF assms(1)] by simp
  have "length seg = m_dwSegSize t" if "a div m_dwSegSize t < length dir" "dir ! (a div m_dwSegSize t) = Some seg" for seg
    using assms(2) that unfolding dir_ok_def by (metis nth_mem)
  then show ?thesis using iSeg_shape [OF s, of a] SegIndex_shape [OF s, of a] S
    by (cases "dir ! (a div m_dwSegSize t)") (auto simp: Bucket_def Segment_def mem_get_def)
qed

lemma Bucket_shape:
  assumes "shape t" "m_paDirSegs t = Some dir"
  shows "Bucket a t = (if a div m_dwSegSize t < length dir
    then map_option (\<lambda>seg. seg ! (a mod m_dwSegSize t)) (dir ! (a div m_dwSegSize t)) else None)"
proof -
  have "dir_ok t dir" using shape_dir [OF assms(1)] assms(2) by auto
  moreover have "t\<lparr>m_paDirSegs := Some dir\<rparr> = t" using assms(2) by simp
  ultimately show ?thesis using Bucket_dir [OF assms(1), of dir a] by simp
qed

lemma put_Bucket_get:
  assumes "shape t" "Bucket a t = Some ch0"
  shows "\<exists>dir. put_Bucket a ch t = Some (t\<lparr>m_paDirSegs := Some dir\<rparr>) \<and> dir_ok t dir \<and>
    (\<forall>b. Bucket b (t\<lparr>m_paDirSegs := Some dir\<rparr>) = (if b = a then Some ch else Bucket b t)) \<and>
    (\<forall>k. m_paDirSegs t \<noteq> None \<longrightarrow> (dir ! k = None) = (the (m_paDirSegs t) ! k = None))"
proof -
  obtain dir where dir: "m_paDirSegs t = Some dir" "dir_ok t dir" using shape_dir [OF assms(1)] by blast
  let ?S = "m_dwSegSize t" and ?i = "a div m_dwSegSize t" and ?j = "a mod m_dwSegSize t"
  have S: "0 < ?S" using shape_bits(6) [OF assms(1)] by simp
  obtain seg where seg: "?i < length dir" "dir ! ?i = Some seg"
    using assms(2) unfolding Bucket_shape [OF assms(1) dir(1)] by (auto split: if_splits)
  have ls: "length seg = ?S" using dir(2) seg unfolding dir_ok_def by (metis nth_mem)
  let ?dir = "dir[?i := Some (seg[?j := ch])]"
  have ok: "dir_ok t ?dir"
    using dir(2) ls set_update_subset_insert [of dir ?i "Some (seg[?j := ch])"] by (auto simp: dir_ok_def)
  have put: "put_Bucket a ch t = Some (t\<lparr>m_paDirSegs := Some ?dir\<rparr>)"
    using seg ls S dir(1) iSeg_shape [OF assms(1), of a] SegIndex_shape [OF assms(1), of a]
    by (simp add: put_Bucket_def Segment_def put_Segment_def mem_get_def mem_put_def)
  have "Bucket b (t\<lparr>m_paDirSegs := Some ?dir\<rparr>) = (if b = a then Some ch else Bucket b t)" for b
  proof (cases "b div ?S = ?i")
    case True
    have "b = a \<longleftrightarrow> b mod ?S = ?j" using True by (metis div_mult_mod_eq)
    then show ?thesis using True seg ls S unfolding Bucket_dir [OF assms(1) ok] Bucket_shape [OF assms(1) dir(1)]
      by auto
  next
    case False
    then show ?thesis unfolding Bucket_dir [OF assms(1) ok] Bucket_shape [OF assms(1) dir(1)] by auto
  qed
  moreover have "(?dir ! k = None) = (dir ! k = None)" for k using seg by (cases "k = ?i") auto
  ultimately show ?thesis using put ok dir(1) by (intro exI [of _ ?dir]) auto
qed

text \<open>Writing a chain that holds the entries \<open>E'\<close> has for the bucket.\<close>

lemma put_Bucket_rep:
  assumes "rep t E" "a < m_cActiveBuckets t" "chain_of xs ch"
    "mset xs = filter_mset (\<lambda>e. BucketAddress (fst e) t = a) E'"
    "\<And>b. b \<noteq> a \<Longrightarrow> filter_mset (\<lambda>e. BucketAddress (fst e) t = b) E' = filter_mset (\<lambda>e. BucketAddress (fst e) t = b) E"
  shows "\<exists>dir. put_Bucket a ch t = Some (t\<lparr>m_paDirSegs := Some dir\<rparr>) \<and> rep (t\<lparr>m_paDirSegs := Some dir\<rparr>) E' \<and>
    (\<forall>b. Bucket b (t\<lparr>m_paDirSegs := Some dir\<rparr>) = (if b = a then Some ch else Bucket b t))"
proof -
  have s: "shape t" and all: "\<forall>a<m_cActiveBuckets t. bucket_rep t E a"
    and out: "\<forall>a ch. m_cActiveBuckets t \<le> a \<longrightarrow> Bucket a t = Some ch \<longrightarrow> chain_of [] ch"
    using assms(1) by (auto simp: rep_def)
  obtain ch0 where ch0: "Bucket a t = Some ch0" using all assms(2) by (auto simp: bucket_rep_def)
  obtain dir where d: "put_Bucket a ch t = Some (t\<lparr>m_paDirSegs := Some dir\<rparr>)" "dir_ok t dir"
    "\<forall>b. Bucket b (t\<lparr>m_paDirSegs := Some dir\<rparr>) = (if b = a then Some ch else Bucket b t)"
    using put_Bucket_get [OF s ch0] by blast
  have addr: "BucketAddress x (t\<lparr>m_paDirSegs := Some dir\<rparr>) = BucketAddress x t" for x
    by (simp add: BucketAddress_def Let_def)
  have "bucket_rep (t\<lparr>m_paDirSegs := Some dir\<rparr>) E' b" if "b < m_cActiveBuckets t" for b
  proof (cases "b = a")
    case True
    then show ?thesis unfolding bucket_rep_def addr using d(3) assms(3,4) by auto
  next
    case False
    then show ?thesis using all that assms(5) [OF False] d(3) unfolding bucket_rep_def addr by auto
  qed
  then have "rep (t\<lparr>m_paDirSegs := Some dir\<rparr>) E'"
    using shape_put [OF s d(2)] out assms(2) d(3) by (auto simp: rep_def)
  then show ?thesis using d(1,3) by blast
qed

end
