(* ===== verification/LkrRecords.thy ===== *)
theory LkrRecords
  imports LkrTable HashTableFacts
begin

text \<open>
  Operations on one bucket: what they do to the entries of the table, and the books they keep. \<open>books\<close> relates
  two states of a table: between them the locks were taken and released properly, each record got as many
  references as copies of it were added, and the heap has at least as many more blocks as the table; exactly
  as many when no request was refused and the table started without a segment it has no use for (\<open>tight\<close>).
\<close>

section \<open>Books\<close>

datatype held = Unheld | Shared | Exclusive

type_synonym locks = "held \<times> (nat \<Rightarrow> held)"

fun locks_step :: "'r event \<Rightarrow> locks \<Rightarrow> locks option" where
  "locks_step (AddRefRecord pv n) (T, B) = Some (T, B)"
| "locks_step TableWriteLock (T, B) = (if T = Unheld then Some (Exclusive, B) else None)"
| "locks_step TableWriteUnlock (T, B) = (if T = Exclusive then Some (Unheld, B) else None)"
| "locks_step TableReadLock (T, B) = (if T = Unheld then Some (Shared, B) else None)"
| "locks_step TableReadUnlock (T, B) = (if T = Shared then Some (Unheld, B) else None)"
| "locks_step TableReadOrWriteLock (T, B) = (if T = Unheld then Some (Shared, B) else None)"
| "locks_step TableReadOrWriteUnlock (T, B) = (if T = Shared then Some (Unheld, B) else None)"
| "locks_step (BucketWriteLock a) (T, B) = (if B a = Unheld then Some (T, B(a := Exclusive)) else None)"
| "locks_step (BucketWriteUnlock a) (T, B) = (if B a = Exclusive then Some (T, B(a := Unheld)) else None)"
| "locks_step (BucketReadLock a) (T, B) = (if B a = Unheld then Some (T, B(a := Shared)) else None)"
| "locks_step (BucketReadUnlock a) (T, B) = (if B a = Shared then Some (T, B(a := Unheld)) else None)"

fun locks_run :: "'r event list \<Rightarrow> locks \<Rightarrow> locks option" where
  "locks_run [] l = Some l"
| "locks_run (e # es) l = do { l' \<leftarrow> locks_step e l; locks_run es l' }"

definition no_locks :: locks where "no_locks = (Unheld, \<lambda>_. Unheld)"

fun net_refs :: "'r event list \<Rightarrow> 'r \<Rightarrow> int" where
  "net_refs [] r = 0"
| "net_refs (AddRefRecord pv n # es) r = (if pv = Some r then n else 0) + net_refs es r"
| "net_refs (_ # es) r = net_refs es r"

lemma locks_run_append: "locks_run (xs @ ys) l = do { l' \<leftarrow> locks_run xs l; locks_run ys l' }"
  by (induction xs arbitrary: l) (auto split: bind_splits)

lemma net_refs_append [simp]: "net_refs (xs @ ys) r = net_refs xs r + net_refs ys r"
  by (induction xs r rule: net_refs.induct) auto

text \<open>The heap blocks of a table: the directory, its segments, the clumps that are not inside a bucket.\<close>

definition seg_blocks :: "'r bucket list option \<Rightarrow> nat" where
  "seg_blocks pseg = (case pseg of None \<Rightarrow> 0 | Some seg \<Rightarrow> 1 + sum_list (map (\<lambda>ch. length ch - 1) seg))"

definition table_blocks :: "'r lkr \<Rightarrow> nat" where
  "table_blocks t = (case m_paDirSegs t of None \<Rightarrow> 0 | Some dir \<Rightarrow> 1 + sum_list (map seg_blocks dir))"

lemma table_blocks_trace [simp]: "table_blocks (trace es t) = table_blocks t"
  by (simp add: table_blocks_def)

text \<open>No segment beyond the buckets in use.\<close>

definition tight :: "'r lkr \<Rightarrow> bool" where
  "tight t \<longleftrightarrow> (\<forall>k. m_cActiveBuckets t \<le> k * m_dwSegSize t \<longrightarrow> Bucket (k * m_dwSegSize t) t = None)"

lemma tight_trace [simp]: "tight (trace es t) = tight t"
  by (simp add: tight_def)

lemma tight_cong:
  assumes "m_cActiveBuckets t' = m_cActiveBuckets t" "m_dwSegSize t' = m_dwSegSize t"
    "\<And>b. m_cActiveBuckets t \<le> b \<Longrightarrow> Bucket b t' = Bucket b t"
  shows "tight t' = tight t"
  using assms by (simp add: tight_def)

text \<open>The runtime grants every directory, whatever else the heap refuses. The sizes are not those of a clump or a
  segment, so that this says nothing about the other requests.\<close>

definition directories :: "world \<Rightarrow> bool" where
  "directories w \<longleftrightarrow> (\<forall>k i. i \<le> 20 \<longrightarrow> heap_grants w k (2 ^ i * sizeof_CDirEntry + sizeof_cookie))"

lemma generous_directories: "generous w \<Longrightarrow> directories w"
  by (simp add: generous_def directories_def)

text \<open>A heap that grants directories and nothing else.\<close>

definition barren :: world where
  "barren = plenty\<lparr>heap_grants := (\<lambda>_ n. \<exists>i\<in>{..20}. n = 2 ^ i * sizeof_CDirEntry + sizeof_cookie)\<rparr>"

lemma barren_directories: "directories barren"
  unfolding directories_def barren_def by auto

lemma barren_refuses: "\<not> heap_grants barren k sizeof_CNodeClump" "b \<in> {3, 6, 9} \<Longrightarrow> \<not> heap_grants barren k (2 ^ b * sizeof_CBucket)"
proof -
  have "(56 :: nat) \<noteq> 2 ^ i * 8 + 8" for i
  proof
    assume "(56 :: nat) = 2 ^ i * 8 + 8"
    then have "(2 :: nat) ^ i = 6" by simp
    have "2 ^ 3 \<le> (2 :: nat) ^ i" if "3 \<le> i" using that by (rule power_increasing) simp
    then have "i = 0 \<or> i = 1 \<or> i = 2" using \<open>2 ^ i = 6\<close> by (cases "3 \<le> i") auto
    then show False using \<open>2 ^ i = 6\<close> by auto
  qed
  then show "\<not> heap_grants barren k sizeof_CNodeClump" by (simp add: barren_def)
  have "(2 :: nat) ^ b * 64 \<noteq> 2 ^ i * 8 + 8" if "b \<in> {3, 6, 9}" for i
  proof
    assume "(2 :: nat) ^ b * 64 = 2 ^ i * 8 + 8"
    then have "2 ^ b * 8 = 2 ^ i + (1 :: nat)" by simp
    then have "even (2 ^ i + (1 :: nat))" by (metis dvd_triv_right even_mult_iff even_numeral)
    then have "i = 0" by (cases i) auto
    then show False using \<open>2 ^ b * 8 = 2 ^ i + (1 :: nat)\<close> that by auto
  qed
  then show "b \<in> {3, 6, 9} \<Longrightarrow> \<not> heap_grants barren k (2 ^ b * sizeof_CBucket)" by (auto simp: barren_def)
qed

text \<open>What an operation keeps of the heap's ways.\<close>

abbreviation (input) same_heap :: "world \<Rightarrow> world \<Rightarrow> bool" where
  "same_heap w' w \<equiv> generous w' = generous w \<and> directories w' = directories w"

type_synonym 'r state = "'r entry multiset \<times> 'r lkr \<times> world"

definition books :: "'r state \<Rightarrow> 'r state \<Rightarrow> bool" where
  "books = (\<lambda>(E, t, w) (E', t', w').
     (\<exists>es. events t' = events t @ es \<and> locks_run es no_locks = Some no_locks \<and>
        (\<forall>r. net_refs es r = int (count (image_mset snd E') r) - int (count (image_mset snd E) r))) \<and>
     heap_live w' - heap_live w \<ge> int (table_blocks t') - int (table_blocks t) \<and>
     same_heap w' w \<and>
     (tight t \<and> generous w \<longrightarrow> tight t' \<and> heap_live w' - heap_live w = int (table_blocks t') - int (table_blocks t)))"

lemma books_trans [trans]:
  assumes "books s s'" "books s' s''"
  shows "books s s''"
proof -
  obtain E t w E' t' w' E'' t'' w'' where s: "s = (E, t, w)" "s' = (E', t', w')" "s'' = (E'', t'', w'')"
    by (metis prod_cases3)
  note a = assms [unfolded s books_def prod.case]
  obtain es where e: "events t' = events t @ es" "locks_run es no_locks = Some no_locks"
    "\<forall>r. net_refs es r = int (count (image_mset snd E') r) - int (count (image_mset snd E) r)" using a(1) by blast
  obtain fs where f: "events t'' = events t' @ fs" "locks_run fs no_locks = Some no_locks"
    "\<forall>r. net_refs fs r = int (count (image_mset snd E'') r) - int (count (image_mset snd E') r)" using a(2) by blast
  have "events t'' = events t @ (es @ fs)" "locks_run (es @ fs) no_locks = Some no_locks"
    using e f by (simp_all add: locks_run_append)
  moreover have "net_refs (es @ fs) r = int (count (image_mset snd E'') r) - int (count (image_mset snd E) r)" for r
    using e(3) f(3) by (simp del: count_image_mset)
  ultimately have one: "\<exists>es. events t'' = events t @ es \<and> locks_run es no_locks = Some no_locks \<and>
      (\<forall>r. net_refs es r = int (count (image_mset snd E'') r) - int (count (image_mset snd E) r))" by blast
  have "int (table_blocks t'') - int (table_blocks t) \<le> heap_live w'' - heap_live w" using a by linarith
  moreover have "same_heap w'' w" using a by simp
  moreover have "tight t \<and> generous w \<longrightarrow> tight t'' \<and> heap_live w'' - heap_live w = int (table_blocks t'') - int (table_blocks t)"
    using a by auto
  ultimately show ?thesis unfolding s books_def prod.case using one by blast
qed

lemma books_refl [simp]: "books s s"
  by (cases s) (auto simp: books_def)

lemma booksI:
  assumes "events t' = events t @ es" "locks_run es no_locks = Some no_locks"
    "\<And>r. net_refs es r = int (count (image_mset snd E') r) - int (count (image_mset snd E) r)"
    "heap_live w' - heap_live w = int (table_blocks t') - int (table_blocks t)" "tight t \<Longrightarrow> generous w \<Longrightarrow> tight t'"
    "same_heap w' w"
  shows "books (E, t, w) (E', t', w')"
  unfolding books_def prod.case using assms by auto

section \<open>The heap and a bucket\<close>

lemma sum_list_set_slot:
  "i < length xs \<Longrightarrow> int (sum_list (map f (xs[i := x]))) = int (sum_list (map f xs)) + int (f x) - int (f (xs ! i))"
proof (induction xs arbitrary: i)
  case (Cons y ys)
  then show ?case by (cases i) (simp_all add: algebra_simps)
qed simp

lemma put_Bucket_blocks:
  assumes "shape t" "Bucket a t = Some ch0" "put_Bucket a ch t = Some t'"
  shows "int (table_blocks t') = int (table_blocks t) + int (length ch - 1) - int (length ch0 - 1)"
proof -
  obtain dir where dir: "m_paDirSegs t = Some dir" "dir_ok t dir" using shape_dir [OF assms(1)] by blast
  let ?i = "a div m_dwSegSize t" and ?j = "a mod m_dwSegSize t"
  obtain seg where seg: "?i < length dir" "dir ! ?i = Some seg" "ch0 = seg ! ?j"
    using assms(2) unfolding Bucket_shape [OF assms(1) dir(1)] by (auto split: if_splits)
  have ls: "?j < length seg" using dir(2) seg(1,2) shape_bits(6) [OF assms(1)] unfolding dir_ok_def by (metis nth_mem mod_less_divisor not_numeral_le_zero gr0I)
  have t': "t' = t\<lparr>m_paDirSegs := Some (dir[?i := Some (seg[?j := ch])])\<rparr>"
    using assms(3) seg ls dir(1) iSeg_shape [OF assms(1), of a] SegIndex_shape [OF assms(1), of a]
    by (simp add: put_Bucket_def Segment_def put_Segment_def mem_get_def mem_put_def)
  have "int (seg_blocks (Some (seg[?j := ch]))) = int (seg_blocks (Some seg)) + int (length ch - 1) - int (length ch0 - 1)"
    using sum_list_set_slot [OF ls, of "\<lambda>ch. length ch - 1" ch] seg(3) by (simp add: seg_blocks_def)
  then show ?thesis using sum_list_set_slot [OF seg(1), of seg_blocks "Some (seg[?j := ch])"] seg(2) dir(1)
    by (simp add: t' table_blocks_def)
qed

lemma heap_request_live:
  "heap_request n w = (granted, w') \<Longrightarrow> heap_live w' = heap_live w + of_bool granted"
  by (auto simp: heap_request_def split: if_splits)

lemma heap_request_generous: "heap_request n w = (granted, w') \<Longrightarrow> same_heap w' w \<and> (generous w \<longrightarrow> granted)"
  by (auto simp: heap_request_def generous_def directories_def split: if_splits)

lemma AllocateSegmentDirectory_granted:
  assumes "directories w" "i \<le> 20"
  obtains w' where "AllocateSegmentDirectory (2 ^ i) w = Some (Some (replicate (2 ^ i) None), w')" "heap_live w' = heap_live w + 1" "same_heap w' w"
proof -
  have g: "heap_grants w k (2 ^ i * sizeof_CDirEntry + sizeof_cookie)" for k using assms by (simp add: directories_def)
  obtain granted w' where h: "heap_request (2 ^ i * sizeof_CDirEntry + sizeof_cookie) w = (granted, w')" by fastforce
  moreover have "granted" using h g by (auto simp: heap_request_def)
  ultimately show thesis using that [of w'] heap_request_live [OF h] heap_request_generous [OF h] by (simp add: AllocateSegmentDirectory_def)
qed

lemma HeapFree_generous [simp]: "same_heap (HeapFree w) w" "same_heap ((HeapFree ^^ n) w) w"
proof -
  show f: "same_heap (HeapFree v) v" for v by (simp add: HeapFree_def generous_def directories_def)
  show "same_heap ((HeapFree ^^ n) w) w" by (induction n) (simp_all add: f)
qed

lemma lkr_HeapFree_live [simp]: "heap_live (HeapFree w) = heap_live w - 1" "heap_live ((HeapFree ^^ n) w) = heap_live w - int n"
proof -
  show f: "heap_live (HeapFree v) = heap_live v - 1" for v by (simp add: HeapFree_def)
  show "heap_live ((HeapFree ^^ n) w) = heap_live w - int n" by (induction n) (simp_all add: f)
qed

lemma cRecords_simps [simp]:
  "shape (t\<lparr>m_cRecords := n\<rparr>) = shape t" "Bucket a (t\<lparr>m_cRecords := n\<rparr>) = Bucket a t"
  "BucketAddress s (t\<lparr>m_cRecords := n\<rparr>) = BucketAddress s t" "rep (t\<lparr>m_cRecords := n\<rparr>) E = rep t E"
  "table_blocks (t\<lparr>m_cRecords := n\<rparr>) = table_blocks t" "tight (t\<lparr>m_cRecords := n\<rparr>) = tight t"
proof -
  show a: "shape (t\<lparr>m_cRecords := n\<rparr>) = shape t" "BucketAddress s (t\<lparr>m_cRecords := n\<rparr>) = BucketAddress s t" for s
    by (simp_all add: shape_def BucketAddress_def Let_def)
  show b: "Bucket a (t\<lparr>m_cRecords := n\<rparr>) = Bucket a t" for a by (rule Bucket_cong) simp_all
  show "rep (t\<lparr>m_cRecords := n\<rparr>) E = rep t E" by (simp add: rep_def bucket_rep_def a b)
  show "table_blocks (t\<lparr>m_cRecords := n\<rparr>) = table_blocks t" by (simp add: table_blocks_def)
  show "tight (t\<lparr>m_cRecords := n\<rparr>) = tight t" by (rule tight_cong) (simp_all add: b)
qed

section \<open>The records of a table\<close>

definition rec_key :: "('r, 'k) methods \<Rightarrow> 'r \<Rightarrow> 'k" where
  "rec_key M r = ExtractKey M (Some r)"

definition rec_sig :: "('r, 'k) methods \<Rightarrow> 'r \<Rightarrow> DWORD" where
  "rec_sig M r = lkr_CalcKeyHash M (rec_key M r)"

definition keyed :: "('r, 'k) methods \<Rightarrow> 'r entry multiset \<Rightarrow> bool" where
  "keyed M E \<longleftrightarrow> (\<forall>e\<in>#E. fst e = rec_sig M (snd e)) \<and>
     (\<forall>e\<in>#E. \<forall>f\<in>#E - {#e#}. \<not> EqualKeys M (rec_key M (snd e)) (rec_key M (snd f)))"

definition lkr_ok :: "('r, 'k) methods \<Rightarrow> 'r lkr \<Rightarrow> 'r entry multiset \<Rightarrow> bool" where
  "lkr_ok M t E \<longleftrightarrow> rep t E \<and> keyed M E \<and> m_cRecords t = dword (size E)"

lemma lkr_ok_trace [simp]: "lkr_ok M (trace es t) E = lkr_ok M t E"
  by (simp add: lkr_ok_def)

lemma sig_valid: "rec_sig M r \<noteq> HASH_INVALID_SIGNATURE"
  unfolding rec_sig_def lkr_CalcKeyHash_def by (rule HashRandomizeBits_valid)

lemma rep_shape: "rep t E \<Longrightarrow> shape t"
  by (simp add: rep_def)

lemma rep_bucket:
  assumes "rep t E"
  obtains ch xs where "Bucket (BucketAddress s t) t = Some ch" "chain_of xs ch"
    "mset xs = filter_mset (\<lambda>e. BucketAddress (fst e) t = BucketAddress s t) E" "BucketAddress s t < m_cActiveBuckets t"
proof -
  have "BucketAddress s t < m_cActiveBuckets t" by (rule BucketAddress_less [OF rep_shape [OF assms]])
  then show thesis using assms that by (auto simp: rep_def bucket_rep_def)
qed

text \<open>Storing a record in a slot of the bucket its signature leads to.\<close>

lemma store_new:
  assumes "rep t E" "Bucket (BucketAddress s t) t = Some ch0" "put_slot j i s (Some r) ch = Some ch2"
    "chain_of xs ch2" "mset xs = add_mset (s, r) (filter_mset (\<lambda>e. BucketAddress (fst e) t = BucketAddress s t) E)"
  shows "\<exists>t1. store_record (BucketAddress s t) ch j i s r None t = Some t1 \<and> rep t1 (add_mset (s, r) E) \<and>
    events t1 = events t @ [AddRefRecord (Some r) 1] \<and> m_cRecords t1 = dword (m_cRecords t + 1) \<and>
    int (table_blocks t1) = int (table_blocks t) + int (length ch2 - 1) - int (length ch0 - 1) \<and> tight t1 = tight t"
proof -
  let ?a = "BucketAddress s t"
  let ?t = "(trace [AddRefRecord (Some r) 1] t)\<lparr>m_cRecords := dword (m_cRecords t + 1)\<rparr>"
  have a: "?a < m_cActiveBuckets ?t" "rep ?t E" "shape ?t" "Bucket ?a ?t = Some ch0"
    using assms(1,2) BucketAddress_less [OF rep_shape [OF assms(1)]] rep_shape [OF assms(1)] by simp_all
  have "\<exists>dir. put_Bucket ?a ch2 ?t = Some (?t\<lparr>m_paDirSegs := Some dir\<rparr>) \<and> rep (?t\<lparr>m_paDirSegs := Some dir\<rparr>) (add_mset (s, r) E) \<and>
      (\<forall>b. Bucket b (?t\<lparr>m_paDirSegs := Some dir\<rparr>) = (if b = ?a then Some ch2 else Bucket b ?t))"
    by (rule put_Bucket_rep [OF a(2,1) assms(4)]) (use assms(5) in simp_all)
  then obtain dir where d: "put_Bucket ?a ch2 ?t = Some (?t\<lparr>m_paDirSegs := Some dir\<rparr>)"
    "rep (?t\<lparr>m_paDirSegs := Some dir\<rparr>) (add_mset (s, r) E)"
    "\<forall>b. Bucket b (?t\<lparr>m_paDirSegs := Some dir\<rparr>) = (if b = ?a then Some ch2 else Bucket b ?t)" by blast
  have tg: "tight (?t\<lparr>m_paDirSegs := Some dir\<rparr>) = tight t"
    by (rule tight_cong) (use d(3) a(1) in auto)
  have "int (table_blocks (?t\<lparr>m_paDirSegs := Some dir\<rparr>)) = int (table_blocks t) + int (length ch2 - 1) - int (length ch0 - 1)"
    using put_Bucket_blocks [OF a(3,4) d(1)] by simp
  then show ?thesis using d(1,2) tg assms(3) by (intro exI [of _ "?t\<lparr>m_paDirSegs := Some dir\<rparr>"]) (simp add: store_record_def)
qed

lemma store_old:
  assumes "rep t E" "Bucket (BucketAddress s t) t = Some ch0" "put_slot j i s (Some r) ch0 = Some ch2"
    "chain_of xs ch2" "length ch2 = length ch0" "e \<in># E" "BucketAddress (fst e) t = BucketAddress s t"
    "mset xs = filter_mset (\<lambda>e. BucketAddress (fst e) t = BucketAddress s t) (add_mset (s, r) (E - {#e#}))"
  shows "\<exists>t1. store_record (BucketAddress s t) ch0 j i s r (Some pv) t = Some t1 \<and> rep t1 (add_mset (s, r) (E - {#e#})) \<and>
    events t1 = events t @ [AddRefRecord (Some r) 1, AddRefRecord pv (- 1)] \<and> m_cRecords t1 = m_cRecords t \<and> table_blocks t1 = table_blocks t \<and> tight t1 = tight t"
proof -
  let ?a = "BucketAddress s t" and ?t = "trace [AddRefRecord (Some r) 1, AddRefRecord pv (- 1)] t"
  have a: "?a < m_cActiveBuckets ?t" "rep ?t E" "shape ?t" "Bucket ?a ?t = Some ch0"
    using assms(1,2) BucketAddress_less [OF rep_shape [OF assms(1)]] rep_shape [OF assms(1)] by simp_all
  have "\<exists>dir. put_Bucket ?a ch2 ?t = Some (?t\<lparr>m_paDirSegs := Some dir\<rparr>) \<and>
      rep (?t\<lparr>m_paDirSegs := Some dir\<rparr>) (add_mset (s, r) (E - {#e#})) \<and>
      (\<forall>b. Bucket b (?t\<lparr>m_paDirSegs := Some dir\<rparr>) = (if b = ?a then Some ch2 else Bucket b ?t))"
  proof (rule put_Bucket_rep [OF a(2,1) assms(4)])
    show "mset xs = filter_mset (\<lambda>e. BucketAddress (fst e) ?t = ?a) (add_mset (s, r) (E - {#e#}))" using assms(8) by simp
    fix b assume "b \<noteq> ?a"
    then show "filter_mset (\<lambda>x. BucketAddress (fst x) ?t = b) (add_mset (s, r) (E - {#e#})) =
        filter_mset (\<lambda>x. BucketAddress (fst x) ?t = b) E"
      using assms(6,7) by (metis (mono_tags, lifting) Bucket_trace(2) filter_mset_add_mset fst_conv insert_DiffM)
  qed
  then obtain dir where d: "put_Bucket ?a ch2 ?t = Some (?t\<lparr>m_paDirSegs := Some dir\<rparr>)"
    "rep (?t\<lparr>m_paDirSegs := Some dir\<rparr>) (add_mset (s, r) (E - {#e#}))"
    "\<forall>b. Bucket b (?t\<lparr>m_paDirSegs := Some dir\<rparr>) = (if b = ?a then Some ch2 else Bucket b ?t)" by blast
  have tg: "tight (?t\<lparr>m_paDirSegs := Some dir\<rparr>) = tight t"
    by (rule tight_cong) (use d(3) a(1) in auto)
  have "int (table_blocks (?t\<lparr>m_paDirSegs := Some dir\<rparr>)) = int (table_blocks t)"
    using put_Bucket_blocks [OF a(3,4) d(1)] assms(5) by simp
  then show ?thesis using d(1,2) tg assms(3) by (intro exI [of _ "?t\<lparr>m_paDirSegs := Some dir\<rparr>"]) (simp add: store_record_def)
qed

lemma chain_insert_pos:
  assumes "chain_of xs ch" "s \<noteq> HASH_INVALID_SIGNATURE"
  shows "length xs \<noteq> 4 * length ch \<Longrightarrow>
      \<exists>ch2. put_slot (length xs div 4) (length xs mod 4) s (Some r) ch = Some ch2 \<and> chain_of (xs @ [(s, r)]) ch2 \<and> length ch2 = length ch"
    and "length xs = 4 * length ch \<Longrightarrow>
      \<exists>ch2. put_slot (length ch) 0 s (Some r) (ch @ [clump_Clear]) = Some ch2 \<and> chain_of (xs @ [(s, r)]) ch2 \<and> length ch2 = length ch + 1"
proof -
  have c: "length xs \<le> 4 * length ch" "4 * (length ch - 1) < length xs \<or> length ch = 1" "0 < length ch"
    using assms(1) by (auto simp: chain_of_def)
  define i where "i = length xs - 4 * (length ch - 1)"
  have i: "target xs (ch, i)" "length xs = 4 * (length ch - 1) + i" "i \<le> 4"
    using assms(1) c by (auto simp: target_def i_def)
  obtain ch' i' free' where a: "append_slot s (Some r) (ch, i) 1 = Some ((ch', i'), free')"
    "target (xs @ [(s, r)]) (ch', i')" "free' + length ch' = 1 + length ch"
    using append_slot_target [OF i(1) assms(2), of 1 r] by auto
  {
    assume "length xs \<noteq> 4 * length ch"
    then have "i < 4" "length xs div 4 = length ch - 1" "length xs mod 4 = i"
      using i(2,3) c(3) by (cases "length ch"; auto)+
    then show "\<exists>ch2. put_slot (length xs div 4) (length xs mod 4) s (Some r) ch = Some ch2 \<and>
        chain_of (xs @ [(s, r)]) ch2 \<and> length ch2 = length ch"
      using a by (auto simp: append_slot_def NODES_PER_CLUMP_def target_def split: bind_splits)
  next
    assume "length xs = 4 * length ch"
    then have "i = 4" using i(2) c(3) by (cases "length ch") auto
    then show "\<exists>ch2. put_slot (length ch) 0 s (Some r) (ch @ [clump_Clear]) = Some ch2 \<and>
        chain_of (xs @ [(s, r)]) ch2 \<and> length ch2 = length ch + 1"
      using a by (auto simp: append_slot_def NODES_PER_CLUMP_def target_def split: bind_splits)
  }
qed

lemma keyed_add:
  assumes "keyed M E" "\<forall>e\<in>#E. \<not> EqualKeys M (rec_key M r) (rec_key M (snd e)) \<and> \<not> EqualKeys M (rec_key M (snd e)) (rec_key M r)"
  shows "keyed M (add_mset (rec_sig M r, r) E)"
  using assms unfolding keyed_def by (auto simp: add_mset_remove_trivial_eq dest: in_diffD split: if_splits)

lemma keyed_subset:
  assumes "keyed M E" "F \<subseteq># E"
  shows "keyed M F"
  unfolding keyed_def
proof (intro conjI ballI)
  fix e assume e: "e \<in># F"
  then have eE: "e \<in># E" using assms(2) by (rule mset_subset_eqD [rotated])
  then show "fst e = rec_sig M (snd e)" using assms(1) by (simp add: keyed_def)
  fix f assume "f \<in># F - {#e#}"
  moreover have "F - {#e#} \<subseteq># E - {#e#}" using assms(2) by (simp add: subseteq_mset_def diff_le_mono)
  ultimately have "f \<in># E - {#e#}" by (rule mset_subset_eqD [rotated])
  then show "\<not> EqualKeys M (rec_key M (snd e)) (rec_key M (snd f))" using assms(1) eE by (simp add: keyed_def)
qed

lemma chain_read:
  assumes "chain_of xs ch" "i < length xs"
  shows "do { c \<leftarrow> mem_get (i div 4) ch; mem_get (i mod 4) (m_pvNode c) } = Some (Some (snd (xs ! i)))"
    "\<exists>c. mem_get (i div 4) ch = Some c \<and> mem_get (i mod 4) (m_pvNode c) = Some (Some (snd (xs ! i)))"
proof -
  have c: "wf_chain ch" "slots ch = map used xs @ replicate (4 * length ch - length xs) blank" "length xs \<le> 4 * length ch"
    using assms(1) by (auto simp: chain_of_def)
  have j: "i div 4 < length ch" using c(3) assms(2) by auto
  have "slots ch ! i = used (xs ! i)" unfolding c(2) using assms(2) by (simp add: nth_append)
  then have "m_pvNode (ch ! (i div 4)) ! (i mod 4) = Some (snd (xs ! i))"
    using nth_slots [OF c(1) j, of "i mod 4"] by (simp add: used_def)
  moreover have "length (m_pvNode (ch ! (i div 4))) = 4" using c(1) j nth_mem [OF j] by (auto simp: wf_clump_def)
  ultimately show "\<exists>c. mem_get (i div 4) ch = Some c \<and> mem_get (i mod 4) (m_pvNode c) = Some (Some (snd (xs ! i)))"
    "do { c \<leftarrow> mem_get (i div 4) ch; mem_get (i mod 4) (m_pvNode c) } = Some (Some (snd (xs ! i)))"
    using j by (simp_all add: mem_get_def)
qed

lemma mset_set_slot: "i < length xs \<Longrightarrow> mset (xs[i := x]) = add_mset x (mset xs - {#xs ! i#})"
  by (rule mset_update)

lemmas bracket_simps = no_locks_def fun_eq_iff

context key_contract
begin

lemma hit_iff:
  assumes "keyed M E" "e \<in># E"
  shows "rec_sig M r = fst e \<and> (Some r = Some (snd e) \<or> EqualKeys M (ExtractKey M (Some r)) (ExtractKey M (Some (snd e))))
    \<longleftrightarrow> EqualKeys M (rec_key M r) (rec_key M (snd e))"
proof -
  have e: "fst e = rec_sig M (snd e)" using assms by (simp add: keyed_def)
  have "rec_sig M r = rec_sig M (snd e)" if "EqualKeys M (rec_key M r) (rec_key M (snd e))"
    using eq_hash [OF that] by (simp add: rec_sig_def lkr_CalcKeyHash_def)
  then show ?thesis using e eq_refl by (auto simp: rec_key_def)
qed

text \<open>The walk of an insertion in the bucket of the record: it stops at a record with an equal key, if any.\<close>

lemma insert_walk:
  assumes "lkr_ok M t E" "chain_of xs ch"
    "mset xs = filter_mset (\<lambda>e. BucketAddress (fst e) t = BucketAddress (rec_sig M r) t) E"
  shows "let wk = walk_chain (\<lambda>sig pv. rec_sig M r = sig \<and> (Some r = pv \<or> EqualKeys M (ExtractKey M (Some r)) (ExtractKey M pv))) 0 ch
    in (\<exists>i<length xs. wk = AtHit (i div 4) (i mod 4) \<and> EqualKeys M (rec_key M r) (rec_key M (snd (xs ! i)))) \<or>
       (\<forall>e\<in>#E. \<not> EqualKeys M (rec_key M r) (rec_key M (snd e))) \<and>
       wk = (if length xs = 4 * length ch then AtEnd else AtEmpty (length xs div 4) (length xs mod 4))"
proof -
  let ?hit = "\<lambda>sig pv. rec_sig M r = sig \<and> (Some r = pv \<or> EqualKeys M (ExtractKey M (Some r)) (ExtractKey M pv))"
  have k: "keyed M E" using assms(1) by (simp add: lkr_ok_def)
  have in_E: "e \<in># E" if "e \<in> set xs" for e
  proof -
    have "e \<in># mset xs" using that by simp
    then show ?thesis unfolding assms(3) by simp
  qed
  have none: "\<not> EqualKeys M (rec_key M r) (rec_key M (snd e))"
    if "\<forall>e\<in>set xs. \<not> ?hit (fst e) (Some (snd e))" "e \<in># E" for e
  proof
    assume eq: "EqualKeys M (rec_key M r) (rec_key M (snd e))"
    then have h: "?hit (fst e) (Some (snd e))" using hit_iff [OF k that(2)] by blast
    then have "e \<in># mset xs" unfolding assms(3) using that(2) by simp
    then show False using that(1) h by simp
  qed
  from walk_chain_spec [OF assms(2), of ?hit] consider
    (found) i where "i < length xs" "walk_chain ?hit 0 ch = AtHit (i div 4) (i mod 4)" "?hit (fst (xs ! i)) (Some (snd (xs ! i)))"
    | (absent) "\<forall>e\<in>set xs. \<not> ?hit (fst e) (Some (snd e))"
        "walk_chain ?hit 0 ch = (if length xs = 4 * length ch then AtEnd else AtEmpty (length xs div 4) (length xs mod 4))" by blast
  then show ?thesis
  proof cases
    case found
    then have "EqualKeys M (rec_key M r) (rec_key M (snd (xs ! i)))" using hit_iff [OF k in_E [OF nth_mem]] by blast
    then show ?thesis unfolding Let_def using found(1,2) by blast
  next
    case absent
    then show ?thesis unfolding Let_def using none by blast
  qed
qed

lemma overwrite_store:
  assumes "lkr_ok M t E" "Bucket (BucketAddress (rec_sig M r) t) t = Some ch" "chain_of xs ch"
    "mset xs = filter_mset (\<lambda>e. BucketAddress (fst e) t = BucketAddress (rec_sig M r) t) E"
    "i < length xs" "EqualKeys M (rec_key M r) (rec_key M (snd (xs ! i)))"
  shows "\<exists>t1. store_record (BucketAddress (rec_sig M r) t) ch (i div 4) (i mod 4) (rec_sig M r) r (Some (Some (snd (xs ! i)))) t = Some t1 \<and>
    xs ! i \<in># E \<and> lkr_ok M t1 (add_mset (rec_sig M r, r) (E - {#xs ! i#})) \<and> table_blocks t1 = table_blocks t \<and> tight t1 = tight t \<and>
    events t1 = events t @ [AddRefRecord (Some r) 1, AddRefRecord (Some (snd (xs ! i))) (- 1)]"
proof -
  let ?s = "rec_sig M r" and ?e = "xs ! i"
  have ok: "rep t E" "keyed M E" "m_cRecords t = dword (size E)" using assms(1) by (simp_all add: lkr_ok_def)
  have "?e \<in># mset xs" using assms(5) by simp
  then have "?e \<in># filter_mset (\<lambda>e. BucketAddress (fst e) t = BucketAddress ?s t) E" unfolding assms(4) .
  then have e: "?e \<in># E" "BucketAddress (fst ?e) t = BucketAddress ?s t" by simp_all
  obtain ch2 where ch2: "put_slot (i div 4) (i mod 4) ?s (Some r) ch = Some ch2" "chain_of (xs[i := (?s, r)]) ch2" "length ch2 = length ch"
    using chain_set [OF assms(3,5) sig_valid [of M r], of r] by blast
  have m: "mset (xs[i := (?s, r)]) = filter_mset (\<lambda>e. BucketAddress (fst e) t = BucketAddress ?s t) (add_mset (?s, r) (E - {#?e#}))"
    unfolding mset_set_slot [OF assms(5)] assms(4) using e(2) by simp
  obtain t1 where t1: "store_record (BucketAddress ?s t) ch (i div 4) (i mod 4) ?s r (Some (Some (snd ?e))) t = Some t1"
    "rep t1 (add_mset (?s, r) (E - {#?e#}))" "events t1 = events t @ [AddRefRecord (Some r) 1, AddRefRecord (Some (snd ?e)) (- 1)]"
    "m_cRecords t1 = m_cRecords t" "table_blocks t1 = table_blocks t" "tight t1 = tight t"
    using store_old [OF ok(1) assms(2) ch2(1,2,3) e m] by blast
  have "keyed M (add_mset (?s, r) (E - {#?e#}))"
  proof (rule keyed_add [OF keyed_subset [OF ok(2) diff_subset_eq_self]], intro ballI)
    fix f assume f: "f \<in># E - {#?e#}"
    have ne: "\<not> EqualKeys M (rec_key M (snd ?e)) (rec_key M (snd f))" using ok(2) e(1) f by (simp add: keyed_def)
    then show "\<not> EqualKeys M (rec_key M r) (rec_key M (snd f)) \<and> \<not> EqualKeys M (rec_key M (snd f)) (rec_key M r)"
      using eq_trans eq_sym assms(6) by blast
  qed
  moreover have "size (add_mset (?s, r) (E - {#?e#})) = size E" using e(1) by (metis insert_DiffM size_add_mset)
  ultimately have "lkr_ok M t1 (add_mset (?s, r) (E - {#?e#}))" using t1(2,4) ok(3) by (simp add: lkr_ok_def)
  then show ?thesis using t1 e(1) by blast
qed

lemma new_store:
  assumes "lkr_ok M t E" "Bucket (BucketAddress (rec_sig M r) t) t = Some ch" "chain_of xs ch"
    "mset xs = filter_mset (\<lambda>e. BucketAddress (fst e) t = BucketAddress (rec_sig M r) t) E"
    "\<forall>e\<in>#E. \<not> EqualKeys M (rec_key M r) (rec_key M (snd e))" "full = (length xs = 4 * length ch)"
  shows "\<exists>t1. store_record (BucketAddress (rec_sig M r) t) (if full then ch @ [clump_Clear] else ch)
      (if full then length ch else length xs div 4) (if full then 0 else length xs mod 4) (rec_sig M r) r None t = Some t1 \<and>
    lkr_ok M t1 (add_mset (rec_sig M r, r) E) \<and> int (table_blocks t1) = int (table_blocks t) + of_bool full \<and> tight t1 = tight t \<and>
    events t1 = events t @ [AddRefRecord (Some r) 1]"
proof -
  let ?s = "rec_sig M r"
  have ok: "rep t E" "keyed M E" "m_cRecords t = dword (size E)" using assms(1) by (simp_all add: lkr_ok_def)
  obtain ch2 where ch2: "put_slot (if full then length ch else length xs div 4) (if full then 0 else length xs mod 4) ?s (Some r)
      (if full then ch @ [clump_Clear] else ch) = Some ch2" "chain_of (xs @ [(?s, r)]) ch2" "length ch2 = length ch + of_bool full"
    using chain_insert_pos [OF assms(3) sig_valid [of M r], where r = r] assms(6) by (cases full) auto
  have m: "mset (xs @ [(?s, r)]) = add_mset (?s, r) (filter_mset (\<lambda>e. BucketAddress (fst e) t = BucketAddress ?s t) E)"
    using assms(4) by simp
  obtain t1 where t1: "store_record (BucketAddress ?s t) (if full then ch @ [clump_Clear] else ch)
      (if full then length ch else length xs div 4) (if full then 0 else length xs mod 4) ?s r None t = Some t1"
    "rep t1 (add_mset (?s, r) E)" "events t1 = events t @ [AddRefRecord (Some r) 1]" "m_cRecords t1 = dword (m_cRecords t + 1)"
    "int (table_blocks t1) = int (table_blocks t) + int (length ch2 - 1) - int (length ch - 1)" "tight t1 = tight t"
    using store_new [OF ok(1) assms(2) ch2(1,2) m] by blast
  have "keyed M (add_mset (?s, r) E)" by (rule keyed_add [OF ok(2)]) (use assms(5) eq_sym in blast)
  moreover have "dword (m_cRecords t + 1) = dword (size (add_mset (?s, r) E))"
    using ok(3) by (simp add: dword_def mod_Suc_eq)
  ultimately have "lkr_ok M t1 (add_mset (?s, r) E)" using t1(2,4) by (simp add: lkr_ok_def)
  moreover have "int (length ch2 - 1) - int (length ch - 1) = of_bool full"
    using ch2(3) chain_of_ne [OF assms(3)] by (cases ch) auto
  ultimately show ?thesis using t1(1,3,5,6) by auto
qed

text \<open>What an insertion has done when it comes to the label \<open>exit\<close>.\<close>

lemma InsertRecord_steps:
  assumes "lkr_ok M t E"
  shows "\<exists>lkrc it t1 w1 E1. lkr_InsertRecord M r (rec_sig M r) fOverwrite fIter t w = insert_exit lkrc it fIter (Some r) t1 w1 \<and>
    lkr_ok M t1 E1 \<and> books (E, t, w) (E1, t1, w1) \<and>
    (if \<exists>e\<in>#E. EqualKeys M (rec_key M r) (rec_key M (snd e))
     then if fOverwrite then lkrc = LK_SUCCESS \<and> (\<exists>e\<in>#E. EqualKeys M (rec_key M r) (rec_key M (snd e)) \<and>
         E1 = add_mset (rec_sig M r, r) (E - {#e#})) else lkrc = LK_KEY_EXISTS \<and> E1 = E
     else lkrc = LK_SUCCESS \<and> E1 = add_mset (rec_sig M r, r) E \<or> lkrc = LK_ALLOC_FAIL \<and> E1 = E \<and> \<not> generous w)"
    (is "\<exists>lkrc it t1 w1 E1. ?res = _ \<and> _ \<and> _ \<and> ?out lkrc E1")
proof -
  let ?s = "rec_sig M r"
  define a t0 where "a = BucketAddress ?s t" and "t0 = trace [TableWriteLock, BucketWriteLock a, TableWriteUnlock] t"
  define u :: "'r event list" where "u = [BucketWriteUnlock a]"
  have ok: "rep t E" using assms by (simp add: lkr_ok_def)
  obtain ch xs where b: "Bucket a t = Some ch" "chain_of xs ch" "mset xs = filter_mset (\<lambda>e. BucketAddress (fst e) t = a) E"
    using rep_bucket [OF ok] unfolding a_def by metis
  have t0: "lkr_ok M t0 E" "Bucket (BucketAddress ?s t0) t0 = Some ch" "BucketAddress ?s t0 = a" "Bucket a t0 = Some ch"
    "mset xs = filter_mset (\<lambda>e. BucketAddress (fst e) t0 = BucketAddress ?s t0) E"
    using assms b by (simp_all add: t0_def a_def)
  let ?wk = "walk_chain (\<lambda>sig pv. ?s = sig \<and> (Some r = pv \<or> EqualKeys M (ExtractKey M (Some r)) (ExtractKey M pv))) 0 ch"
  note core = lkr_InsertRecord_def [of M r ?s fOverwrite fIter t w, unfolded Let_def, folded a_def, folded t0_def u_def,
      unfolded t0(4) Option.bind.simps]
  have bk: "books (E, t, w) (E1, trace u t1, w1)"
    if "events t1 = events t0 @ es" "\<forall>r. net_refs es r = int (count (image_mset snd E1) r) - int (count (image_mset snd E) r)"
      "\<forall>l. locks_run es l = Some l" "heap_live w1 - heap_live w = int (table_blocks t1) - int (table_blocks t)" "tight t1 = tight t"
      "same_heap w1 w" for E1 t1 w1 es
    by (rule booksI [of _ _ "[TableWriteLock, BucketWriteLock a, TableWriteUnlock] @ es @ u"])
      (use that in \<open>simp_all add: t0_def u_def locks_run_append no_locks_def fun_upd_idem\<close>)
  from insert_walk [OF assms b(2) b(3) [unfolded a_def], unfolded Let_def]
  consider (hit) i where "i < length xs" "?wk = AtHit (i div 4) (i mod 4)" "EqualKeys M (rec_key M r) (rec_key M (snd (xs ! i)))"
    | (new) "\<forall>e\<in>#E. \<not> EqualKeys M (rec_key M r) (rec_key M (snd e))"
        "?wk = (if length xs = 4 * length ch then AtEnd else AtEmpty (length xs div 4) (length xs mod 4))" by blast
  then show ?thesis
  proof cases
    case hit
    note st = overwrite_store [OF t0(1,2) b(2) t0(5) hit(1,3)]
    show ?thesis
    proof (cases fOverwrite)
      case False
      have "?res = insert_exit LK_KEY_EXISTS None fIter (Some r) (trace u t0) w"
        unfolding core hit(2) walk.case using False by simp
      moreover have "books (E, t, w) (E, trace u t0, w)" by (rule bk [of _ "[]"]) (simp_all add: t0_def)
      moreover have "?out LK_KEY_EXISTS E" using st hit(3) False by auto
      ultimately show ?thesis using t0(1) by (metis lkr_ok_trace)
    next
      case True
      obtain c where c: "mem_get (i div 4) ch = Some c" "mem_get (i mod 4) (m_pvNode c) = Some (Some (snd (xs ! i)))"
        using chain_read(2) [OF b(2) hit(1)] by blast
      from st obtain t1 where t1: "store_record a ch (i div 4) (i mod 4) ?s r (Some (Some (snd (xs ! i)))) t0 = Some t1"
        "xs ! i \<in># E" "lkr_ok M t1 (add_mset (?s, r) (E - {#xs ! i#}))" "table_blocks t1 = table_blocks t0" "tight t1 = tight t0"
        "events t1 = events t0 @ [AddRefRecord (Some r) 1, AddRefRecord (Some (snd (xs ! i))) (- 1)]" unfolding t0(3) by blast
      have "?res = insert_exit LK_SUCCESS (Some (a, i div 4, i mod 4)) fIter (Some r) (trace u t1) w"
        unfolding core hit(2) walk.case using True c t1(1) by simp
      moreover have "books (E, t, w) (add_mset (?s, r) (E - {#xs ! i#}), trace u t1, w)"
        by (rule bk [OF t1(6)]) (use t1(2,4,5) in \<open>auto simp: t0_def image_mset_Diff simp del: count_image_mset\<close>)
      moreover have "?out LK_SUCCESS (add_mset (?s, r) (E - {#xs ! i#}))" using t1(2) hit(3) True by auto
      ultimately show ?thesis using t1(3) by (metis lkr_ok_trace)
    qed
  next
    case new
    define full where "full = (length xs = 4 * length ch)"
    from new_store [OF t0(1,2) b(2) t0(5) new(1) full_def] obtain t1 where t1:
      "store_record a (if full then ch @ [clump_Clear] else ch) (if full then length ch else length xs div 4)
         (if full then 0 else length xs mod 4) ?s r None t0 = Some t1" "lkr_ok M t1 (add_mset (?s, r) E)"
      "int (table_blocks t1) = int (table_blocks t0) + of_bool full" "tight t1 = tight t0" "events t1 = events t0 @ [AddRefRecord (Some r) 1]" unfolding t0(3) by blast
    obtain granted w1 where g: "(if full then heap_request sizeof_CNodeClump w else (True, w)) = (granted, w1)" by fastforce
    have gen: "same_heap w1 w" using g by (auto dest: heap_request_generous split: if_splits)
    have live: "granted \<Longrightarrow> heap_live w1 = heap_live w + of_bool full" "\<not> granted \<Longrightarrow> heap_live w1 = heap_live w"
      using g by (auto dest: heap_request_live split: if_splits)
    show ?thesis
    proof (cases granted)
      case True
      have "?res = insert_exit LK_SUCCESS (Some (a, if full then length ch else length xs div 4, if full then 0 else length xs mod 4))
          fIter (Some r) (trace u t1) w1"
        unfolding core new(2) using True g t1(1) full_def by (cases full) simp_all
      moreover have "books (E, t, w) (add_mset (?s, r) E, trace u t1, w1)"
        by (rule bk [OF t1(5)]) (use t1(3,4) live True gen in \<open>auto simp: t0_def simp del: count_image_mset\<close>)
      ultimately show ?thesis using t1(2) new(1) by (metis (no_types, lifting) lkr_ok_trace)
    next
      case False
      then have f: "full" "\<not> generous w" using g by (auto simp: heap_request_def generous_def split: if_splits)
      have "?res = insert_exit LK_ALLOC_FAIL None fIter (Some r) (trace u t0) w1"
        unfolding core new(2) using False g f(1) full_def by simp
      moreover have "books (E, t, w) (E, trace u t0, w1)"
        by (rule bk [of _ "[]"]) (use live False gen in \<open>simp_all add: t0_def\<close>)
      ultimately show ?thesis using t0(1) new(1) f(2) by (metis (no_types, lifting) lkr_ok_trace)
    qed
  qed
qed

end

end
