(* ===== verification/LkrGrow.thy ===== *)
theory LkrGrow
  imports LkrRecords
begin

text \<open>
  \<open>_Expand\<close> and \<open>_Contract\<close>: both keep the entries of the table and move each one to the bucket that the new
  level and expansion index give it.
\<close>

section \<open>Level and expansion index\<close>

lemma shapeI:
  assumes "m_lkrcState t = LK_SUCCESS" "m_lkts t = 1 \<or> m_lkts t = 2 \<or> m_lkts t = 3"
    "m_dwSegBits t = seg_bits (m_lkts t)" "m_dwSegSize t = 2 ^ m_dwSegBits t" "m_dwSegMask t = 2 ^ m_dwSegBits t - 1"
    "m_dwSegBits t \<le> m_nLevel t" "m_dwBktAddrMask0 t = 2 ^ m_nLevel t - 1" "m_dwBktAddrMask1 t = 2 ^ Suc (m_nLevel t) - 1"
    "m_iExpansionIdx t < 2 ^ m_nLevel t" "m_cActiveBuckets t = 2 ^ m_nLevel t + m_iExpansionIdx t"
    "m_cActiveBuckets t \<le> m_cDirSegs t * m_dwSegSize t"
    "\<exists>k. 3 \<le> k \<and> k \<le> 20 \<and> m_cDirSegs t = 2 ^ k" "m_paDirSegs t = Some dir" "dir_ok t dir"
  shows "shape t"
  using assms unfolding shape_def dir_ok_def by blast

lemma shape_dir_ok: "shape t \<Longrightarrow> m_paDirSegs t = Some dir \<Longrightarrow> dir_ok t dir"
  using shape_dir by fastforce

lemma next_mask: "k \<le> 31 \<Longrightarrow> dword (push_bit 1 (2 ^ k - 1) OR 1) = 2 ^ Suc k - 1"
  unfolding shift_mask by (rule dword_mask) simp

text \<open>One more bucket: the table with the counters advanced is in shape, and addresses are those of linear
  hashing for the next expansion index.\<close>

definition grown :: "'r lkr \<Rightarrow> 'r lkr" where
  "grown t = advance_level (t\<lparr>m_cActiveBuckets := m_cActiveBuckets t + 1\<rparr>)"

lemma grown_fields [simp]:
  "m_lkrcState (grown t) = m_lkrcState t" "m_lkts (grown t) = m_lkts t" "m_dwSegBits (grown t) = m_dwSegBits t"
  "m_dwSegSize (grown t) = m_dwSegSize t" "m_dwSegMask (grown t) = m_dwSegMask t" "m_MaxLoad (grown t) = m_MaxLoad t"
  "m_paDirSegs (grown t) = m_paDirSegs t" "m_cDirSegs (grown t) = m_cDirSegs t" "m_cRecords (grown t) = m_cRecords t"
  "m_cActiveBuckets (grown t) = m_cActiveBuckets t + 1" "events (grown t) = events t" "table_blocks (grown t) = table_blocks t"
  by (simp_all add: grown_def advance_level_def Let_def table_blocks_def)

lemma Bucket_grown [simp]: "Bucket a (grown t) = Bucket a t"
  by (rule Bucket_cong) simp_all

lemma grown_level:
  assumes "shape t"
  shows "m_iExpansionIdx t + 1 \<noteq> 2 ^ m_nLevel t \<Longrightarrow> grown t = t\<lparr>m_cActiveBuckets := m_cActiveBuckets t + 1,
      m_iExpansionIdx := m_iExpansionIdx t + 1\<rparr>"
    and "m_iExpansionIdx t + 1 = 2 ^ m_nLevel t \<Longrightarrow> grown t = t\<lparr>m_cActiveBuckets := m_cActiveBuckets t + 1,
      m_nLevel := m_nLevel t + 1, m_iExpansionIdx := 0, m_dwBktAddrMask0 := 2 ^ Suc (m_nLevel t) - 1,
      m_dwBktAddrMask1 := 2 ^ Suc (Suc (m_nLevel t)) - 1\<rparr>"
proof -
  have l: "m_nLevel t \<le> 29" using shape_bits [OF assms] by simp
  then have d: "dword (2 ^ m_nLevel t) = 2 ^ m_nLevel t" by (intro dword_power) simp
  have m: "dword (push_bit 1 (m_dwBktAddrMask0 t) OR 1) = 2 ^ Suc (m_nLevel t) - 1"
    unfolding shapeD(7) [OF assms] by (rule next_mask) (use l in simp)
  have m': "dword (push_bit 1 (2 ^ Suc (m_nLevel t) - 1) OR 1) = 2 ^ Suc (Suc (m_nLevel t)) - 1"
    by (rule next_mask) (use l in simp)
  show "m_iExpansionIdx t + 1 \<noteq> 2 ^ m_nLevel t \<Longrightarrow> grown t = t\<lparr>m_cActiveBuckets := m_cActiveBuckets t + 1,
      m_iExpansionIdx := m_iExpansionIdx t + 1\<rparr>"
    by (simp add: grown_def advance_level_def Let_def d)
  have g: "grown t = (if m_iExpansionIdx t + 1 = dword (2 ^ m_nLevel t)
      then t\<lparr>m_cActiveBuckets := m_cActiveBuckets t + 1, m_nLevel := m_nLevel t + 1, m_iExpansionIdx := 0,
        m_dwBktAddrMask0 := dword (push_bit 1 (m_dwBktAddrMask0 t) OR 1),
        m_dwBktAddrMask1 := dword (push_bit 1 (dword (push_bit 1 (m_dwBktAddrMask0 t) OR 1)) OR 1)\<rparr>
      else t\<lparr>m_cActiveBuckets := m_cActiveBuckets t + 1, m_iExpansionIdx := m_iExpansionIdx t + 1\<rparr>)"
    by (simp add: grown_def advance_level_def Let_def)
  show "m_iExpansionIdx t + 1 = 2 ^ m_nLevel t \<Longrightarrow> grown t = t\<lparr>m_cActiveBuckets := m_cActiveBuckets t + 1,
      m_nLevel := m_nLevel t + 1, m_iExpansionIdx := 0, m_dwBktAddrMask0 := 2 ^ Suc (m_nLevel t) - 1,
      m_dwBktAddrMask1 := 2 ^ Suc (Suc (m_nLevel t)) - 1\<rparr>"
    by (simp only: g d m m' refl if_True)
qed

lemma shape_grown:
  assumes "shape t" "m_cActiveBuckets t < m_cDirSegs t * m_dwSegSize t"
  shows "shape (grown t)" "BucketAddress s (grown t) = lin_addr (m_nLevel t) (Suc (m_iExpansionIdx t)) (unat s)"
    "split_address (m_iExpansionIdx (grown t)) (m_dwBktAddrMask0 (grown t)) s = BucketAddress s (grown t)"
proof -
  note D = shapeD [OF assms(1)]
  obtain dir where dir: "m_paDirSegs t = Some dir" "dir_ok t dir" using shape_dir [OF assms(1)] by blast
  have ok: "dir_ok (grown t) dir" using dir(2) by (simp add: dir_ok_def)
  have level: "m_dwSegBits t \<le> m_nLevel (grown t) \<and> m_dwBktAddrMask0 (grown t) = 2 ^ m_nLevel (grown t) - 1 \<and>
      m_dwBktAddrMask1 (grown t) = 2 ^ Suc (m_nLevel (grown t)) - 1 \<and> m_iExpansionIdx (grown t) < 2 ^ m_nLevel (grown t) \<and>
      m_cActiveBuckets (grown t) = 2 ^ m_nLevel (grown t) + m_iExpansionIdx (grown t) \<and>
      lin_addr (m_nLevel (grown t)) (m_iExpansionIdx (grown t)) (unat s) = lin_addr (m_nLevel t) (Suc (m_iExpansionIdx t)) (unat s)"
  proof (cases "m_iExpansionIdx t + 1 = 2 ^ m_nLevel t")
    case True
    then have g: "m_nLevel (grown t) = Suc (m_nLevel t)" "m_iExpansionIdx (grown t) = 0"
      "m_dwBktAddrMask0 (grown t) = 2 ^ Suc (m_nLevel t) - 1" "m_dwBktAddrMask1 (grown t) = 2 ^ Suc (Suc (m_nLevel t)) - 1"
      unfolding grown_level(2) [OF assms(1) True] by simp_all
    have "lin_addr (Suc (m_nLevel t)) 0 (unat s) = lin_addr (m_nLevel t) (Suc (m_iExpansionIdx t)) (unat s)"
      unfolding lin_addr_wrap using True by simp
    then show ?thesis unfolding g using D(6,10) True by auto
  next
    case False
    then have g: "m_nLevel (grown t) = m_nLevel t" "m_iExpansionIdx (grown t) = Suc (m_iExpansionIdx t)"
      "m_dwBktAddrMask0 (grown t) = m_dwBktAddrMask0 t" "m_dwBktAddrMask1 (grown t) = m_dwBktAddrMask1 t"
      unfolding grown_level(1) [OF assms(1) False] by simp_all
    show ?thesis unfolding g using D(6-10) False by auto
  qed
  show sh: "shape (grown t)"
    by (rule shapeI [of _ dir]) (use D(1-5,12) level assms(2) dir(1) ok in simp_all)
  show "BucketAddress s (grown t) = lin_addr (m_nLevel t) (Suc (m_iExpansionIdx t)) (unat s)"
    using BucketAddress_lin [OF sh, of s] level by simp
  have "m_nLevel (grown t) \<le> 31" using shape_bits(3) [OF sh] by simp
  then have "dword (push_bit 1 (m_dwBktAddrMask0 (grown t)) OR 1) = m_dwBktAddrMask1 (grown t)"
    unfolding shapeD(7,8) [OF sh] by (rule next_mask)
  then show "split_address (m_iExpansionIdx (grown t)) (m_dwBktAddrMask0 (grown t)) s = BucketAddress s (grown t)"
    unfolding split_address_def BucketAddress_def Let_def by simp
qed

text \<open>Where the entries go when the table grows.\<close>

lemma grown_address:
  assumes "shape t" "m_cActiveBuckets t < m_cDirSegs t * m_dwSegSize t"
  shows "BucketAddress s t = m_iExpansionIdx t \<Longrightarrow>
      BucketAddress s (grown t) = m_iExpansionIdx t \<or> BucketAddress s (grown t) = m_cActiveBuckets t"
    and "BucketAddress s t \<noteq> m_iExpansionIdx t \<Longrightarrow> BucketAddress s (grown t) = BucketAddress s t"
  using lin_addr_split [OF shapeD(9) [OF assms(1)], of "unat s"]
  unfolding shape_grown(2) [OF assms] BucketAddress_lin [OF assms(1)] shapeD(10) [OF assms(1)] by auto

end
