(* ===== verification/LkrDelete.thy ===== *)
theory LkrDelete
  imports LkrRecords
begin

text \<open>
  Deletion of a node and lookup: \<open>_DeleteNode\<close>, \<open>_FindKey\<close> and \<open>_FindRecord\<close> on the entries of a table.
\<close>

lemma dword_sub_dword:
  assumes "1 \<le> n"
  shows "dword_sub (dword n) 1 = dword (n - 1)"
proof -
  obtain k where k: "n = Suc k" using assms by (cases n) auto
  have "dword_sub (dword n) 1 = (Suc k mod 4294967296 + 4294967295) mod 4294967296"
  proof -
    have "x + 4294967296 - 1 = x + 4294967295" for x :: nat by simp
    then show ?thesis unfolding dword_sub_def dword_def k by (simp only:)
  qed
  also have "\<dots> = (Suc k + 4294967295) mod 4294967296" by (rule mod_add_left_eq)
  also have "\<dots> = k mod 4294967296" by simp
  finally show ?thesis by (simp add: dword_def k)
qed

lemma DeleteNode_steps:
  assumes "lkr_ok M t E" "Bucket a t = Some ch" "a < m_cActiveBuckets t" "chain_of xs ch"
    "mset xs = filter_mset (\<lambda>e. BucketAddress (fst e) t = a) E" "p < length xs"
  shows "\<exists>t1 w1 ch1. lkr_DeleteNode a (p div 4) (p mod 4) t w = Some (before p, t1, w1) \<and>
    xs ! p \<in># E \<and> lkr_ok M t1 (E - {#xs ! p#}) \<and> Bucket a t1 = Some ch1 \<and> chain_of (remove_entry p xs) ch1 \<and>
    events t1 = events t @ [AddRefRecord (Some (snd (xs ! p))) (- 1)] \<and>
    heap_live w1 - heap_live w = int (table_blocks t1) - int (table_blocks t) \<and>
    m_cActiveBuckets t1 = m_cActiveBuckets t \<and> (\<forall>s. BucketAddress s t1 = BucketAddress s t) \<and>
    (\<forall>b. b \<noteq> a \<longrightarrow> Bucket b t1 = Bucket b t) \<and> tight t1 = tight t \<and> same_heap w1 w \<and>
    m_MaxLoad t1 = m_MaxLoad t"
proof -
  let ?e = "xs ! p"
  have ok: "rep t E" "keyed M E" "m_cRecords t = dword (size E)" using assms(1) by (simp_all add: lkr_ok_def)
  have s: "shape t" using ok(1) by (simp add: rep_def)
  have "?e \<in># mset xs" using assms(6) by simp
  then have e: "?e \<in># E" "BucketAddress (fst ?e) t = a" unfolding assms(5) by simp_all
  obtain c where c: "mem_get (p div 4) ch = Some c" "mem_get (p mod 4) (m_pvNode c) = Some (Some (snd ?e))"
    using chain_read(2) [OF assms(4,6)] by blast
  obtain ch1 fr where d: "DeleteNode_chain ch (p div 4) (p mod 4) = Some (ch1, fr, before p)"
    "chain_of (remove_entry p xs) ch1" "length ch = length ch1 + of_bool fr"
    using DeleteNode_chain_correct [OF assms(4,6)] by blast
  let ?t = "trace [AddRefRecord (Some (snd ?e)) (- 1)] t"
  have m: "mset (remove_entry p xs) = filter_mset (\<lambda>e. BucketAddress (fst e) t = a) (E - {#?e#})"
    using mset_remove_entry [OF assms(6)] e(2) unfolding assms(5) by simp
  have "\<exists>dir. put_Bucket a ch1 ?t = Some (?t\<lparr>m_paDirSegs := Some dir\<rparr>) \<and> rep (?t\<lparr>m_paDirSegs := Some dir\<rparr>) (E - {#?e#})"
    using put_Bucket_rep [OF _ _ d(2), of ?t E a "E - {#?e#}"] ok(1) assms(3) m e(2) by auto
  then obtain dir where dir: "put_Bucket a ch1 ?t = Some (?t\<lparr>m_paDirSegs := Some dir\<rparr>)"
    "rep (?t\<lparr>m_paDirSegs := Some dir\<rparr>) (E - {#?e#})" by blast
  have bkt: "Bucket b (?t\<lparr>m_paDirSegs := Some dir\<rparr>) = (if b = a then Some ch1 else Bucket b t)" for b
    using put_Bucket_get [of ?t a ch ch1] s assms(2) dir(1) by auto
  have bl: "int (table_blocks (?t\<lparr>m_paDirSegs := Some dir\<rparr>)) = int (table_blocks t) + int (length ch1 - 1) - int (length ch - 1)"
    using put_Bucket_blocks [of ?t a ch, OF _ _ dir(1)] s assms(2) by simp
  have tg: "tight (?t\<lparr>m_paDirSegs := Some dir\<rparr>) = tight t" by (rule tight_cong) (use bkt assms(3) in auto)
  let ?t1 = "?t\<lparr>m_paDirSegs := Some dir, m_cRecords := dword_sub (m_cRecords t) 1\<rparr>"
  have "1 \<le> size E" "size (E - {#?e#}) = size E - 1" using e(1) by (cases E; auto simp: size_Diff_singleton)+
  then have "lkr_ok M ?t1 (E - {#?e#})"
    using dir(2) keyed_subset [OF ok(2) diff_subset_eq_self] ok(3) dword_sub_dword by (simp add: lkr_ok_def)
  moreover have "lkr_DeleteNode a (p div 4) (p mod 4) t w = Some (before p, ?t1, if fr then HeapFree w else w)"
    by (simp add: lkr_DeleteNode_def assms(2) c d(1) dir(1))
  moreover have "heap_live (if fr then HeapFree w else w) - heap_live w = int (table_blocks ?t1) - int (table_blocks t)"
    using bl d(3) chain_of_ne [OF d(2)] by (cases fr; cases ch1) auto
  ultimately show ?thesis using e(1) bkt d(2) s tg
    by (intro exI [of _ ?t1] exI [of _ "if fr then HeapFree w else w"] exI [of _ ch1]) (simp add: BucketAddress_def Let_def)
qed

lemma count_remove:
  assumes "e \<in># E"
  shows "int (count (image_mset snd (E - {#e#})) r) - int (count (image_mset snd E) r) = (if snd e = r then - 1 else 0)"
proof -
  have "image_mset snd E = add_mset (snd e) (image_mset snd (E - {#e#}))" using assms by (metis image_mset_add_mset insert_DiffM)
  then show ?thesis by (simp del: count_image_mset)
qed

section \<open>Walks by key and by record\<close>

definition key_hit :: "('r, 'k) methods \<Rightarrow> 'k \<Rightarrow> DWORD \<Rightarrow> 'r option \<Rightarrow> bool" where
  "key_hit M key sig pv \<longleftrightarrow> lkr_CalcKeyHash M key = sig \<and>
     (let pnKey2 = ExtractKey M pv in key = pnKey2 \<or> EqualKeys M key pnKey2)"

text \<open>A walk over the bucket of a signature decides whether some entry of the table satisfies \<open>P\<close>, provided
  the test agrees with \<open>P\<close> on entries and \<open>P\<close> holds in that bucket only.\<close>

lemma decide_walk:
  assumes "chain_of xs ch" "mset xs = filter_mset (\<lambda>e. BucketAddress (fst e) t = BucketAddress s t) E"
    "\<And>e. e \<in># E \<Longrightarrow> hit (fst e) (Some (snd e)) \<longleftrightarrow> P e" "\<And>e. e \<in># E \<Longrightarrow> P e \<Longrightarrow> fst e = s"
  shows "(\<exists>i<length xs. walk_chain hit 0 ch = AtHit (i div 4) (i mod 4) \<and> P (xs ! i) \<and> xs ! i \<in># E) \<or>
    (\<forall>e\<in>#E. \<not> P e) \<and> (\<forall>j i. walk_chain hit 0 ch \<noteq> AtHit j i)"
proof -
  have in_E: "e \<in># E" if "e \<in> set xs" for e
  proof -
    have "e \<in># mset xs" using that by simp
    then show ?thesis unfolding assms(2) by simp
  qed
  have xs_P: "e \<in> set xs" if "e \<in># E" "P e" for e
  proof -
    have "e \<in># mset xs" unfolding assms(2) using that assms(4) by simp
    then show ?thesis by simp
  qed
  have miss: "(if length xs = 4 * length ch then AtEnd else AtEmpty (length xs div 4) (length xs mod 4)) \<noteq> AtHit j i" for j i
    by simp
  from walk_chain_spec [OF assms(1), of hit] miss consider
    (found) i where "i < length xs" "walk_chain hit 0 ch = AtHit (i div 4) (i mod 4)" "hit (fst (xs ! i)) (Some (snd (xs ! i)))"
    | (absent) "\<forall>e\<in>set xs. \<not> hit (fst e) (Some (snd e))" "\<forall>j i. walk_chain hit 0 ch \<noteq> AtHit j i" by metis
  then show ?thesis
  proof cases
    case found
    then show ?thesis using in_E [OF nth_mem [OF found(1)]] assms(3) by blast
  next
    case absent
    then show ?thesis using xs_P assms(3) by blast
  qed
qed

context key_contract
begin

lemma key_hit_iff:
  assumes "keyed M E" "e \<in># E"
  shows "key_hit M key (fst e) (Some (snd e)) \<longleftrightarrow> EqualKeys M key (rec_key M (snd e))"
proof -
  have e: "fst e = lkr_CalcKeyHash M (rec_key M (snd e))" using assms by (simp add: keyed_def rec_sig_def)
  have "lkr_CalcKeyHash M key = fst e" if "EqualKeys M key (rec_key M (snd e))"
    unfolding e lkr_CalcKeyHash_def eq_hash [OF that] ..
  then show ?thesis using eq_refl [of key] e unfolding rec_key_def key_hit_def Let_def by blast
qed

lemma equal_sig:
  assumes "keyed M E" "e \<in># E" "EqualKeys M key (rec_key M (snd e))"
  shows "fst e = lkr_CalcKeyHash M key"
  using assms eq_hash [OF assms(3)] by (simp add: keyed_def rec_sig_def lkr_CalcKeyHash_def)

end

lemma delete_hit_steps:
  assumes "lkr_ok M t E" "\<And>e. e \<in># E \<Longrightarrow> hit (fst e) (Some (snd e)) \<longleftrightarrow> P e" "\<And>e. e \<in># E \<Longrightarrow> P e \<Longrightarrow> fst e = s"
  shows "(\<exists>e t1 w1. e \<in># E \<and> P e \<and> lkr_ok M t1 (E - {#e#}) \<and> books (E, t, w) (E - {#e#}, t1, w1) \<and>
      delete_hit hit s t w = do { (t2, w2) \<leftarrow> contract_loop (contraction_mark t1) t1 w1; Some (LK_SUCCESS, t2, w2) }) \<or>
    (\<forall>e\<in>#E. \<not> P e) \<and> (\<exists>t1. lkr_ok M t1 E \<and> books (E, t, w) (E, t1, w) \<and> delete_hit hit s t w = Some (LK_NO_SUCH_KEY, t1, w))"
proof -
  define a where "a = BucketAddress s t"
  define t0 where "t0 = trace [TableWriteLock, BucketWriteLock a, TableWriteUnlock] t"
  have ok: "rep t E" using assms(1) by (simp add: lkr_ok_def)
  obtain ch xs where b: "Bucket a t = Some ch" "chain_of xs ch" "mset xs = filter_mset (\<lambda>e. BucketAddress (fst e) t = a) E"
    "a < m_cActiveBuckets t" using rep_bucket [OF ok] unfolding a_def by metis
  have t0: "lkr_ok M t0 E" "Bucket a t0 = Some ch" "a < m_cActiveBuckets t0"
    "mset xs = filter_mset (\<lambda>e. BucketAddress (fst e) t0 = a) E" using assms(1) b by (simp_all add: t0_def)
  note core = delete_hit_def [of hit s t w, unfolded Let_def, folded a_def, folded t0_def, unfolded t0(2) Option.bind.simps]
  from decide_walk [where hit = hit and P = P, OF b(2) b(3) [unfolded a_def] assms(2,3)] consider
    (found) i where "i < length xs" "walk_chain hit 0 ch = AtHit (i div 4) (i mod 4)" "P (xs ! i)"
    | (absent) "\<forall>e\<in>#E. \<not> P e" "\<forall>j i. walk_chain hit 0 ch \<noteq> AtHit j i" by blast
  then show ?thesis
  proof cases
    case found
    from DeleteNode_steps [OF t0(1,2,3) b(2) t0(4) found(1), of w] obtain t1 w1 where
      d: "lkr_DeleteNode a (i div 4) (i mod 4) t0 w = Some (before i, t1, w1)" "xs ! i \<in># E" "lkr_ok M t1 (E - {#xs ! i#})"
      "events t1 = events t0 @ [AddRefRecord (Some (snd (xs ! i))) (- 1)]"
      "heap_live w1 - heap_live w = int (table_blocks t1) - int (table_blocks t0)" "tight t1 = tight t0" "same_heap w1 w" by blast
    have "books (E, t, w) (E - {#xs ! i#}, trace [BucketWriteUnlock a] t1, w1)"
      by (rule booksI [of _ _ "[TableWriteLock, BucketWriteLock a, TableWriteUnlock, AddRefRecord (Some (snd (xs ! i))) (- 1), BucketWriteUnlock a]"])
        (use d count_remove [OF d(2)] in \<open>simp_all add: t0_def no_locks_def fun_upd_idem del: image_mset_Diff\<close>)
    moreover have "delete_hit hit s t w = do { (t2, w2) \<leftarrow> contract_loop (contraction_mark (trace [BucketWriteUnlock a] t1))
        (trace [BucketWriteUnlock a] t1) w1; Some (LK_SUCCESS, t2, w2) }"
      unfolding core found(2) walk.case using d(1) by simp
    ultimately show ?thesis using d(2,3) found(3) by (metis lkr_ok_trace)
  next
    case absent
    have "books (E, t, w) (E, trace [BucketWriteUnlock a] t0, w)"
      by (rule booksI [of _ _ "[TableWriteLock, BucketWriteLock a, TableWriteUnlock, BucketWriteUnlock a]"])
        (simp_all add: t0_def no_locks_def fun_upd_idem)
    moreover have "delete_hit hit s t w = Some (LK_NO_SUCH_KEY, trace [BucketWriteUnlock a] t0, w)"
      unfolding core using absent(2) by (cases "walk_chain hit 0 ch") simp_all
    ultimately show ?thesis using absent(1) t0(1) by (metis lkr_ok_trace)
  qed
qed

section \<open>Lookup\<close>

text \<open>Lookups change nothing but the log, in which a record handed out has one more reference.\<close>

definition handed :: "'r option \<Rightarrow> 'r \<Rightarrow> int" where
  "handed pv r = (if pv = Some r then 1 else 0)"

definition looked :: "'r lkr \<Rightarrow> 'r lkr \<Rightarrow> 'r option \<Rightarrow> bool" where
  "looked t t' pv \<longleftrightarrow> (\<exists>es. t' = trace es t \<and> locks_run es no_locks = Some no_locks \<and> (\<forall>r. net_refs es r = handed pv r))"

context key_contract
begin

lemma FindKey_steps:
  assumes "lkr_ok M t E"
  shows "\<exists>it t1. (\<exists>e\<in>#E. EqualKeys M key (rec_key M (snd e)) \<and> looked t t1 (Some (snd e)) \<and>
      lkr_FindKey M key (lkr_CalcKeyHash M key) t = Some (LK_SUCCESS, Some (snd e), it, t1)) \<or>
    (\<forall>e\<in>#E. \<not> EqualKeys M key (rec_key M (snd e))) \<and> looked t t1 None \<and>
      lkr_FindKey M key (lkr_CalcKeyHash M key) t = Some (LK_NO_SUCH_KEY, None, None, t1)"
proof -
  let ?s = "lkr_CalcKeyHash M key"
  define a where "a = BucketAddress ?s t"
  define t0 where "t0 = trace [TableReadOrWriteLock, BucketReadLock a, TableReadOrWriteUnlock] t"
  have ok: "rep t E" "keyed M E" using assms by (simp_all add: lkr_ok_def)
  obtain ch xs where b: "Bucket a t = Some ch" "chain_of xs ch" "mset xs = filter_mset (\<lambda>e. BucketAddress (fst e) t = a) E"
    using rep_bucket [OF ok(1)] unfolding a_def by metis
  have t0: "Bucket a t0 = Some ch" using b(1) by (simp add: t0_def)
  have hit: "(\<lambda>sig pv. ?s = sig \<and> (let pnKey2 = ExtractKey M pv in key = pnKey2 \<or> EqualKeys M key pnKey2)) = key_hit M key"
    by (intro ext) (simp add: key_hit_def)
  note core = lkr_FindKey_def [of M key ?s t, unfolded hit, unfolded Let_def, folded a_def, folded t0_def,
      unfolded t0 Option.bind.simps]
  from decide_walk [OF b(2) b(3) [unfolded a_def], of "key_hit M key" "\<lambda>e. EqualKeys M key (rec_key M (snd e))"]
    key_hit_iff [OF ok(2)] equal_sig [OF ok(2)] consider
    (found) i where "i < length xs" "walk_chain (key_hit M key) 0 ch = AtHit (i div 4) (i mod 4)"
      "EqualKeys M key (rec_key M (snd (xs ! i)))" "xs ! i \<in># E"
    | (absent) "\<forall>e\<in>#E. \<not> EqualKeys M key (rec_key M (snd e))" "\<forall>j i. walk_chain (key_hit M key) 0 ch \<noteq> AtHit j i" by blast
  then show ?thesis
  proof cases
    case found
    obtain c where c: "mem_get (i div 4) ch = Some c" "mem_get (i mod 4) (m_pvNode c) = Some (Some (snd (xs ! i)))"
      using chain_read(2) [OF b(2) found(1)] by blast
    let ?t1 = "trace [AddRefRecord (Some (snd (xs ! i))) 1, BucketReadUnlock a] t0"
    have "looked t ?t1 (Some (snd (xs ! i)))"
      by (simp add: looked_def t0_def) (rule exI, rule conjI [OF refl], simp add: no_locks_def fun_upd_idem handed_def)
    moreover have "lkr_FindKey M key ?s t = Some (LK_SUCCESS, Some (snd (xs ! i)), Some (a, i div 4, i mod 4), ?t1)"
      unfolding core found(2) walk.case using c by simp
    ultimately show ?thesis using found(3,4) by blast
  next
    case absent
    let ?t1 = "trace [BucketReadUnlock a] t0"
    have "looked t ?t1 None"
      by (simp add: looked_def t0_def) (rule exI, rule conjI [OF refl], simp add: no_locks_def fun_upd_idem handed_def)
    moreover have "lkr_FindKey M key ?s t = Some (LK_NO_SUCH_KEY, None, None, ?t1)"
      unfolding core using absent(2) by (cases "walk_chain (key_hit M key) 0 ch") simp_all
    ultimately show ?thesis using absent(1) by blast
  qed
qed

end

lemma FindRecord_steps:
  assumes "lkr_ok M t E"
  shows "\<exists>t1. looked t t1 None \<and> lkr_FindRecord r (rec_sig M r) t =
    Some (if (rec_sig M r, r) \<in># E then LK_SUCCESS else LK_NO_SUCH_KEY, t1)"
proof -
  let ?s = "rec_sig M r" and ?hit = "\<lambda>sig pv. pv = Some r"
  define a where "a = BucketAddress ?s t"
  define t0 where "t0 = trace [TableReadOrWriteLock, BucketReadLock a, TableReadOrWriteUnlock] t"
  have ok: "rep t E" "keyed M E" using assms by (simp_all add: lkr_ok_def)
  obtain ch xs where b: "Bucket a t = Some ch" "chain_of xs ch" "mset xs = filter_mset (\<lambda>e. BucketAddress (fst e) t = a) E"
    using rep_bucket [OF ok(1)] unfolding a_def by metis
  have t0: "Bucket a t0 = Some ch" using b(1) by (simp add: t0_def)
  let ?t1 = "trace [BucketReadUnlock a] t0"
  have l: "looked t ?t1 None"
    by (simp add: looked_def t0_def) (rule exI, rule conjI [OF refl], simp add: no_locks_def fun_upd_idem handed_def)
  note core = lkr_FindRecord_def [of r ?s t, unfolded Let_def, folded a_def, folded t0_def, unfolded t0 Option.bind.simps]
  have mem: "(\<exists>e\<in>#E. snd e = r) \<longleftrightarrow> (?s, r) \<in># E" using ok(2) by (auto simp: keyed_def) force+
  from decide_walk [OF b(2) b(3) [unfolded a_def], of ?hit "\<lambda>e. snd e = r"] ok(2) show ?thesis
    unfolding keyed_def core using l mem by (cases "walk_chain ?hit 0 ch") auto
qed

end
