(* ===== verification/LkrExpand.thy ===== *)
theory LkrExpand
  imports LkrGrow LkrDelete
begin

text \<open>
  \<open>_Expand\<close>: it adds one bucket, moves to it the entries of one other bucket that belong there now, and leaves
  every other bucket alone. The directory is doubled and a segment is added when there is no room left.
\<close>

section \<open>The same buckets\<close>

definition kept :: "'r lkr \<Rightarrow> 'r lkr \<Rightarrow> bool" where
  "kept t t' \<longleftrightarrow> m_cRecords t' = m_cRecords t \<and> m_MaxLoad t' = m_MaxLoad t \<and> m_dwSegSize t' = m_dwSegSize t"

lemma kept_refl [simp]: "kept t t" "kept t (trace es t') = kept t t'" "kept (trace es t) t' = kept t t'"
  by (simp_all add: kept_def)

lemma kept_trans: "kept t t' \<Longrightarrow> kept t' t'' \<Longrightarrow> kept t t''"
  by (simp add: kept_def)

lemma kept_lkr_ok: "kept t t' \<Longrightarrow> rep t' E \<Longrightarrow> lkr_ok M t E \<Longrightarrow> lkr_ok M t' E"
  by (simp add: lkr_ok_def kept_def)

lemma chain_of_Nil_iff: "chain_of [] ch \<longleftrightarrow> ch = [clump_Clear]"
proof
  show "chain_of [] ch \<Longrightarrow> ch = [clump_Clear]" by (rule chain_of_unique [of "[]"]) simp_all
qed simp

lemma rep_cong:
  assumes "rep t E" "shape t'" "\<And>s. BucketAddress s t' = BucketAddress s t" "m_cActiveBuckets t' = m_cActiveBuckets t"
    "\<And>b. b < m_cActiveBuckets t \<Longrightarrow> Bucket b t' = Bucket b t"
    "\<And>b ch. m_cActiveBuckets t \<le> b \<Longrightarrow> Bucket b t' = Some ch \<Longrightarrow> Bucket b t = Some ch \<or> ch = [clump_Clear]"
  shows "rep t' E"
proof -
  have "bucket_rep t' E a" if "a < m_cActiveBuckets t'" for a
    using assms(1) that assms(5) [of a] unfolding rep_def bucket_rep_def assms(3,4) by simp
  moreover have "chain_of [] ch" if "m_cActiveBuckets t' \<le> a" "Bucket a t' = Some ch" for a ch
    using assms(1) assms(6) [of a ch] that unfolding rep_def assms(4) by (auto simp: chain_of_Nil_iff)
  ultimately show ?thesis using assms(2) by (auto simp: rep_def)
qed

text \<open>A changed directory.\<close>

lemma address_dir [simp]: "BucketAddress s (t\<lparr>m_paDirSegs := d, m_cDirSegs := c\<rparr>) = BucketAddress s t"
  "BucketAddress s (t\<lparr>m_paDirSegs := d\<rparr>) = BucketAddress s t"
  by (simp_all add: BucketAddress_def Let_def)

lemma shape_resized:
  assumes "shape t" "length dir = 2 ^ k" "3 \<le> k" "k \<le> 20" "\<forall>seg. Some seg \<in> set dir \<longrightarrow> length seg = m_dwSegSize t"
    "m_cActiveBuckets t \<le> 2 ^ k * m_dwSegSize t"
  shows "shape (t\<lparr>m_paDirSegs := Some dir, m_cDirSegs := 2 ^ k\<rparr>)"
  by (rule shapeI [of _ dir]) (use shapeD [OF assms(1)] assms(2-6) in \<open>auto simp: dir_ok_def\<close>)

section \<open>The directory\<close>

lemma seg_blocks_None [simp]: "seg_blocks None = 0"
  by (simp add: seg_blocks_def)

lemma sum_None [simp]: "sum_list (map seg_blocks (replicate n None)) = 0"
  by (induction n) simp_all

lemma GrowDirectory_correct:
  assumes "shape t" "m_cActiveBuckets t < MAX_DIRSIZE * m_dwSegSize t - 1" "directories w"
  shows "\<exists>t1 w1. GrowDirectory t w = Some (True, t1, w1) \<and> shape t1 \<and> (\<forall>b. Bucket b t1 = Bucket b t) \<and>
    t1 = t\<lparr>m_paDirSegs := m_paDirSegs t1, m_cDirSegs := m_cDirSegs t1\<rparr> \<and> m_cActiveBuckets t < m_cDirSegs t1 * m_dwSegSize t \<and>
    heap_live w1 = heap_live w \<and> table_blocks t1 = table_blocks t \<and> same_heap w1 w"
proof (cases "m_cActiveBuckets t \<ge> m_cDirSegs t * m_dwSegSize t")
  case False
  then show ?thesis using assms(1) by (simp add: GrowDirectory_def)
next
  case True
  note D = shapeD [OF assms(1)]
  obtain dir where dir: "m_paDirSegs t = Some dir" "length dir = m_cDirSegs t"
    "\<forall>seg. Some seg \<in> set dir \<longrightarrow> length seg = m_dwSegSize t" using D(13) by blast
  obtain k where k: "3 \<le> k" "k \<le> 20" "m_cDirSegs t = 2 ^ k" using D(12) by blast
  have S: "0 < m_dwSegSize t" using shape_bits(6) [OF assms(1)] by simp
  have "m_cDirSegs t \<noteq> MAX_DIRSIZE" using True assms(2) by auto
  then have "k \<noteq> 20" using k(3) by (auto simp: lkr_sizes)
  then have k20: "k \<le> 19" using k(2) by simp
  have dw: "dword (m_cDirSegs t * 2) = 2 ^ Suc k" unfolding k(3) using k20 dword_power [of "Suc k"] by (simp add: mult.commute)
  have nz: "m_cDirSegs t \<noteq> 0" "\<not> (2 ^ Suc k < m_cDirSegs t \<or> 2 ^ Suc k < (2 :: nat))" using k(3) by simp_all
  let ?dir = "dir @ replicate (2 ^ k) None"
  have copy: "do { old \<leftarrow> mem_read 0 (m_cDirSegs t) dir; mem_write 0 old (replicate (2 ^ Suc k) None) } = Some ?dir"
    using dir(2) k(3) by (simp add: mem_read_def mem_write_def)
  have drop: "replicate (m_cDirSegs t) None @ drop (m_cDirSegs t) dir = replicate (m_cDirSegs t) None" using dir(2) by simp
  have "Suc k \<le> 20" using k20 by simp
  then obtain w1 where g: "AllocateSegmentDirectory (2 ^ Suc k) w = Some (Some (replicate (2 ^ Suc k) (None :: 'a bucket list option)), w1)"
    "heap_live w1 = heap_live w + 1" "same_heap w1 w" using AllocateSegmentDirectory_granted [OF assms(3)] by blast
  have big: "m_cActiveBuckets t < 2 ^ Suc k * m_dwSegSize t" proof -
    have "2 ^ Suc k * m_dwSegSize t = m_cDirSegs t * m_dwSegSize t + m_cDirSegs t * m_dwSegSize t" using k(3) by simp
    moreover have "0 < m_cDirSegs t * m_dwSegSize t" using S nz(1) by simp
    ultimately show ?thesis using D(11) by linarith
  qed
  note core = GrowDirectory_def [of t w, unfolded dw Let_def]
  let ?t = "t\<lparr>m_paDirSegs := Some ?dir, m_cDirSegs := 2 ^ Suc k\<rparr>"
  have res: "GrowDirectory t w = Some (True, ?t, HeapFree w1)"
    unfolding core using True nz g(1) dir(1) copy drop
    by (simp add: FreeSegmentDirectory_def bind_assoc [symmetric] del: bind_assoc)
  have sh: "shape ?t" by (rule shape_resized [OF assms(1)]) (use k(1) k20 k(3) dir(2,3) big in auto)
  have "Bucket b ?t = Bucket b t" for b
    unfolding Bucket_shape [OF assms(1) dir(1)] using Bucket_shape [OF sh, of ?dir b] by (auto simp: nth_append)
  moreover have "table_blocks ?t = table_blocks t" using dir(1) by (simp add: table_blocks_def)
  ultimately show ?thesis unfolding res using sh g(2,3) big by auto
qed

section \<open>The segment of the new bucket\<close>

lemma EnsureSegment:
  assumes "rep t E" "m_cActiveBuckets t < m_cDirSegs t * m_dwSegSize t"
  obtains pseg where "Segment (m_cActiveBuckets t) t = Some pseg"
    "\<And>seg. seg = (if pseg = None then replicate (m_dwSegSize t) [clump_Clear] else the pseg) \<Longrightarrow>
       \<exists>t'. put_Segment (m_cActiveBuckets t) (Some seg) (t\<lparr>m_cActiveBuckets := m_cActiveBuckets t + 1\<rparr>) =
          Some (t'\<lparr>m_cActiveBuckets := m_cActiveBuckets t + 1\<rparr>) \<and> t' = t\<lparr>m_paDirSegs := m_paDirSegs t'\<rparr> \<and> rep t' E \<and>
          Bucket (m_cActiveBuckets t) t' = Some [clump_Clear] \<and> table_blocks t' = table_blocks t + of_bool (pseg = None) \<and>
          (tight t \<longrightarrow> tight (t'\<lparr>m_cActiveBuckets := m_cActiveBuckets t + 1\<rparr>)) \<and> (\<forall>b < m_cActiveBuckets t. Bucket b t' = Bucket b t)"
proof -
  let ?n = "m_cActiveBuckets t" and ?S = "m_dwSegSize t" and ?t = "t\<lparr>m_cActiveBuckets := m_cActiveBuckets t + 1\<rparr>"
  have sh: "shape t" by (rule rep_shape [OF assms(1)])
  obtain dir where dir: "m_paDirSegs t = Some dir" "dir_ok t dir" using shape_dir [OF sh] by blast
  have S: "0 < ?S" using shape_bits(6) [OF sh] by simp
  have i: "?n div ?S < length dir" using assms(2) dir(2) S by (simp add: dir_ok_def div_less_iff_less_mult)
  have sg: "iSeg ?n t = ?n div ?S" by (rule iSeg_shape [OF sh])
  have sg': "iSeg ?n ?t = ?n div ?S" using sg by (simp add: iSeg_def)
  let ?p = "dir ! (?n div ?S)"
  have "Segment ?n t = Some ?p" using dir(1) i sg by (simp add: Segment_def mem_get_def)
  moreover have "\<exists>t'. put_Segment ?n (Some seg) ?t = Some (t'\<lparr>m_cActiveBuckets := ?n + 1\<rparr>) \<and> t' = t\<lparr>m_paDirSegs := m_paDirSegs t'\<rparr> \<and>
      rep t' E \<and> Bucket ?n t' = Some [clump_Clear] \<and> table_blocks t' = table_blocks t + of_bool (?p = None) \<and>
      (tight t \<longrightarrow> tight (t'\<lparr>m_cActiveBuckets := ?n + 1\<rparr>)) \<and> (\<forall>b < ?n. Bucket b t' = Bucket b t)"
    if seg: "seg = (if ?p = None then replicate ?S [clump_Clear] else the ?p)" for seg
  proof -
    let ?dir = "dir[?n div ?S := Some seg]"
    let ?t' = "t\<lparr>m_paDirSegs := Some ?dir\<rparr>"
    have ok: "dir_ok t ?dir" unfolding dir_ok_def
      by (use dir(2) i seg in \<open>auto simp: dir_ok_def dest!: set_mp [OF set_update_subset_insert] dest: nth_mem\<close>)
    have put: "put_Segment ?n (Some seg) ?t = Some (?t'\<lparr>m_cActiveBuckets := ?n + 1\<rparr>)"
      using dir(1) i sg' by (simp add: put_Segment_def mem_put_def)
    have B: "Bucket b ?t' = (if ?p = None \<and> b div ?S = ?n div ?S then Some [clump_Clear] else Bucket b t)" for b
      using i S seg unfolding Bucket_dir [OF sh ok] Bucket_shape [OF sh dir(1)] by auto
    have below: "Bucket b t \<noteq> None" if "b < ?n" for b using assms(1) that by (auto simp: rep_def bucket_rep_def)
    have out: "\<not> b < ?n" if "?p = None" "b div ?S = ?n div ?S" for b
      using that i below [of b] by (auto simp: Bucket_shape [OF sh dir(1)])
    have r: "rep ?t' E" by (rule rep_cong [OF assms(1) shape_put [OF sh ok]]) (use B below out in \<open>auto split: if_splits\<close>)
    have n: "Bucket ?n ?t' = Some [clump_Clear]"
    proof (cases "?p = None")
      case False
      then obtain ch where ch: "Bucket ?n t = Some ch" using i by (auto simp: Bucket_shape [OF sh dir(1)])
      then have "chain_of [] ch" using assms(1) by (auto simp: rep_def)
      then show ?thesis using B False ch by (simp add: chain_of_Nil_iff)
    qed (use B in simp)
    have bl: "table_blocks ?t' = table_blocks t + of_bool (?p = None)"
    proof -
      have z: "sum_list (map (\<lambda>ch. length ch - 1) (replicate ?S [clump_Clear])) = 0" by (simp add: sum_list_replicate)
      have "int (sum_list (map seg_blocks ?dir)) = int (sum_list (map seg_blocks dir)) + of_bool (?p = None)"
        unfolding sum_list_set_slot [OF i] using seg z by (auto simp: seg_blocks_def)
      then have "sum_list (map seg_blocks ?dir) = sum_list (map seg_blocks dir) + of_bool (?p = None)" by (cases ?p) auto
      then show ?thesis using dir(1) by (simp add: table_blocks_def)
    qed
    have "tight (?t'\<lparr>m_cActiveBuckets := ?n + 1\<rparr>)" if "tight t"
    proof -
      have "Bucket (k * ?S) ?t' = None" if k: "?n + 1 \<le> k * ?S" for k
      proof -
        have "?n div ?S < k" using k S by (simp add: div_less_iff_less_mult)
        then have "k * ?S div ?S \<noteq> ?n div ?S" using S by simp
        then show ?thesis using B \<open>tight t\<close> k by (simp add: tight_def)
      qed
      moreover have "Bucket b (?t'\<lparr>m_cActiveBuckets := ?n + 1\<rparr>) = Bucket b ?t'" for b by (rule Bucket_cong) simp_all
      ultimately show ?thesis by (simp add: tight_def)
    qed
    moreover have "\<forall>b < ?n. Bucket b ?t' = Bucket b t" using B out by auto
    ultimately show ?thesis using put r n bl by (intro exI [of _ ?t']) simp
  qed
  ultimately show thesis by (rule that)
qed

section \<open>The split\<close>

lemma grown_trace [simp]: "grown (trace es t) = trace es (grown t)"
  by (simp add: grown_def advance_level_def Let_def trace_def)

lemma advance_grown: "advance_level (trace es (t\<lparr>m_cActiveBuckets := m_cActiveBuckets t + 1\<rparr>)) = trace es (grown t)"
  by (simp add: grown_def advance_level_def Let_def trace_def)

lemma kept_grown [simp]: "kept t (grown t') = kept t t'"
  by (simp add: kept_def)

text \<open>The entries of the bucket that is split, by their new address.\<close>

lemma split_entries:
  assumes "shape t" "m_cActiveBuckets t < m_cDirSegs t * m_dwSegSize t"
    "mset xs = filter_mset (\<lambda>e. BucketAddress (fst e) t = m_iExpansionIdx t) E" "b \<le> m_cActiveBuckets t"
  shows "filter_mset (\<lambda>e. BucketAddress (fst e) (grown t) = b) E =
    (if b = m_cActiveBuckets t then mset (filter (\<lambda>e. BucketAddress (fst e) (grown t) = b) xs)
     else if b = m_iExpansionIdx t then mset (filter (\<lambda>e. BucketAddress (fst e) (grown t) \<noteq> m_cActiveBuckets t) xs)
     else filter_mset (\<lambda>e. BucketAddress (fst e) t = b) E)"
proof -
  let ?n = "m_cActiveBuckets t" and ?i = "m_iExpansionIdx t"
  note G = grown_address [OF assms(1,2)]
  have ne: "?n \<noteq> ?i" using shapeD(9,10) [OF assms(1)] by simp
  have less: "BucketAddress s t < ?n" for s by (rule BucketAddress_less [OF assms(1)])
  have n: "BucketAddress s (grown t) = ?n \<longleftrightarrow> BucketAddress s t = ?i \<and> BucketAddress s (grown t) = ?n" for s
    using G [of s] less [of s] by fastforce
  have i: "BucketAddress s (grown t) = ?i \<longleftrightarrow> BucketAddress s t = ?i \<and> BucketAddress s (grown t) \<noteq> ?n" for s
    using G [of s] ne by fastforce
  have o: "BucketAddress s (grown t) = b \<longleftrightarrow> BucketAddress s t = b" if "b \<noteq> ?n" "b \<noteq> ?i" for s b
    using G [of s] that by fastforce
  consider "b = ?n" | "b = ?i" "b \<noteq> ?n" | "b \<noteq> ?n" "b \<noteq> ?i" by blast
  then show ?thesis
  proof cases
    case 1
    show ?thesis unfolding 1 if_P [OF refl] mset_filter assms(3) filter_filter_mset
      by (rule filter_mset_cong0) (use n in blast)
  next
    case 2
    then have "mset (filter (\<lambda>e. BucketAddress (fst e) (grown t) \<noteq> ?n) xs) = filter_mset (\<lambda>e. BucketAddress (fst e) (grown t) = ?i) E"
      unfolding mset_filter assms(3) filter_filter_mset by (intro filter_mset_cong0) (use i in blast)
    then show ?thesis using 2 by simp
  qed (simp add: o)
qed

lemma split_rep:
  assumes "rep t E" "m_cActiveBuckets t < m_cDirSegs t * m_dwSegSize t" "Bucket (m_cActiveBuckets t) t = Some [clump_Clear]"
    "Bucket (m_iExpansionIdx t) t = Some ch" "chain_of xs ch"
    "mset xs = filter_mset (\<lambda>e. BucketAddress (fst e) t = m_iExpansionIdx t) E"
    "chain_of (filter (\<lambda>x. BucketAddress (fst x) (grown t) \<noteq> m_cActiveBuckets t) xs) old"
    "chain_of (filter (\<lambda>x. BucketAddress (fst x) (grown t) = m_cActiveBuckets t) xs) new"
  shows "\<exists>t3 t4. put_Bucket (m_iExpansionIdx t) old (grown t) = Some t3 \<and> put_Bucket (m_cActiveBuckets t) new t3 = Some t4 \<and>
    rep t4 E \<and> t4 = (grown t)\<lparr>m_paDirSegs := m_paDirSegs t4\<rparr> \<and>
    int (table_blocks t4) = int (table_blocks t) + int (length old) + int (length new) - 1 - int (length ch) \<and> (tight (grown t) \<longrightarrow> tight t4)"
proof -
  let ?n = "m_cActiveBuckets t" and ?i = "m_iExpansionIdx t" and ?g = "grown t"
  have sh: "shape t" by (rule rep_shape [OF assms(1)])
  have sg: "shape ?g" by (rule shape_grown(1) [OF sh assms(2)])
  have ne: "?n \<noteq> ?i" using shapeD(9,10) [OF sh] by simp
  obtain dir where d: "put_Bucket ?i old ?g = Some (?g\<lparr>m_paDirSegs := Some dir\<rparr>)" "dir_ok ?g dir"
    "\<forall>b. Bucket b (?g\<lparr>m_paDirSegs := Some dir\<rparr>) = (if b = ?i then Some old else Bucket b ?g)"
    using put_Bucket_get [OF sg, of ?i ch old] assms(4) by auto
  let ?t3 = "?g\<lparr>m_paDirSegs := Some dir\<rparr>"
  have s3: "shape ?t3" by (rule shape_put [OF sg d(2)])
  obtain dir' where d': "put_Bucket ?n new ?t3 = Some (?t3\<lparr>m_paDirSegs := Some dir'\<rparr>)" "dir_ok ?t3 dir'"
    "\<forall>b. Bucket b (?t3\<lparr>m_paDirSegs := Some dir'\<rparr>) = (if b = ?n then Some new else Bucket b ?t3)"
    using put_Bucket_get [OF s3, of ?n "[clump_Clear]" new] assms(3) d(3) ne by auto
  let ?t4 = "?g\<lparr>m_paDirSegs := Some dir'\<rparr>"
  have e4: "?t3\<lparr>m_paDirSegs := Some dir'\<rparr> = ?t4" by simp
  have s4: "shape ?t4" using shape_put [OF s3 d'(2)] by simp
  have B: "Bucket b ?t4 = (if b = ?n then Some new else if b = ?i then Some old else Bucket b t)" for b
    using d(3) d'(3) unfolding e4 by simp
  note S = split_entries [OF sh assms(2,6)]
  have "bucket_rep ?t4 E b" if "b < m_cActiveBuckets ?t4" for b
  proof -
    have b: "b \<le> ?n" using that by simp
    consider "b = ?n" | "b = ?i" | "b \<noteq> ?n" "b \<noteq> ?i" by blast
    then show ?thesis
    proof cases
      case 1
      then show ?thesis unfolding bucket_rep_def address_dir using B S [OF b] assms(8) by auto
    next
      case 2
      then show ?thesis unfolding bucket_rep_def address_dir using B S [OF b] assms(7) ne by auto
    next
      case 3
      have "bucket_rep t E b" using assms(1) 3 b by (auto simp: rep_def)
      then show ?thesis unfolding bucket_rep_def address_dir using B S [OF b] 3 by auto
    qed
  qed
  moreover have "chain_of [] ch'" if "m_cActiveBuckets ?t4 \<le> b" "Bucket b ?t4 = Some ch'" for b ch'
  proof -
    have "?n \<le> b" "Bucket b t = Some ch'" using that B [of b] shapeD(9,10) [OF sh] by simp_all
    then show ?thesis using assms(1) unfolding rep_def by blast
  qed
  ultimately have r: "rep ?t4 E" using s4 by (auto simp: rep_def)
  have "int (table_blocks ?t3) = int (table_blocks t) + int (length old - 1) - int (length ch - 1)"
    using put_Bucket_blocks [OF sg _ d(1), of ch] assms(4) by simp
  moreover have "int (table_blocks ?t4) = int (table_blocks ?t3) + int (length new - 1) - int (length [clump_Clear] - 1)"
    using put_Bucket_blocks [OF s3 _ d'(1) [unfolded e4], of "[clump_Clear]"] assms(3) d(3) ne by simp
  moreover have "0 < length old" "0 < length new" "0 < length ch" using assms(5,7,8) by auto
  ultimately have bl: "int (table_blocks ?t4) = int (table_blocks t) + int (length old) + int (length new) - 1 - int (length ch)" by simp
  have "tight ?t4 = tight ?g" by (rule tight_cong) (use B shapeD(9,10) [OF sh] in auto)
  then show ?thesis using d(1) d'(1) r bl unfolding e4 by (intro exI conjI) (assumption | simp)+
qed

text \<open>A step that failed leaves every bucket where it was.\<close>

definition unmoved :: "'r lkr \<Rightarrow> 'r lkr \<Rightarrow> bool" where
  "unmoved t t' \<longleftrightarrow> m_cActiveBuckets t' = m_cActiveBuckets t \<and> (\<forall>s. BucketAddress s t' = BucketAddress s t) \<and>
     (\<forall>b < m_cActiveBuckets t. Bucket b t' = Bucket b t)"

lemma split_bucket_correct:
  assumes "rep t E" "m_cActiveBuckets t < m_cDirSegs t * m_dwSegSize t" "Bucket (m_cActiveBuckets t) t = Some [clump_Clear]"
  shows "\<exists>rc t' w' es. split_bucket (m_iExpansionIdx t) (m_cActiveBuckets t) (t\<lparr>m_cActiveBuckets := m_cActiveBuckets t + 1\<rparr>) w = Some (rc, t', w') \<and>
    rep t' E \<and> kept t t' \<and> events t' = events t @ es \<and> locks_run (TableWriteLock # es) no_locks = Some no_locks \<and> (\<forall>r. net_refs es r = 0) \<and>
    heap_live w' - heap_live w = int (table_blocks t') - int (table_blocks t) \<and> same_heap w' w \<and> (generous w \<longrightarrow> rc = LK_SUCCESS) \<and>
    (tight (grown t) \<and> generous w \<longrightarrow> tight t') \<and>
    (rc = LK_SUCCESS \<and> m_cActiveBuckets t' = m_cActiveBuckets t + 1 \<or> rc = LK_ALLOC_FAIL \<and> m_cActiveBuckets t' = m_cActiveBuckets t) \<and>
    (rc = LK_ALLOC_FAIL \<longrightarrow> unmoved t t' \<and> table_blocks t' = table_blocks t)"
proof -
  let ?n = "m_cActiveBuckets t" and ?i = "m_iExpansionIdx t"
  let ?t1 = "t\<lparr>m_cActiveBuckets := ?n + 1\<rparr>" and ?es = "[BucketWriteLock ?i, BucketWriteLock ?n]"
  have sh: "shape t" by (rule rep_shape [OF assms(1)])
  have i: "?i < ?n" using shapeD(9,10) [OF sh] by simp
  then obtain ch xs where b: "Bucket ?i t = Some ch" "chain_of xs ch" "mset xs = filter_mset (\<lambda>e. BucketAddress (fst e) t = ?i) E"
    using assms(1) unfolding rep_def bucket_rep_def by blast
  have B1: "Bucket b ?t1 = Bucket b t" for b by (rule Bucket_cong) simp_all
  obtain granted w1 where g: "(if tl ch \<noteq> [] then heap_request sizeof_CNodeClump w else (True, w)) = (granted, w1)" by fastforce
  have gen: "same_heap w1 w" "generous w \<longrightarrow> granted" using g by (auto dest: heap_request_generous split: if_splits)
  have live: "heap_live w1 = heap_live w + of_bool (tl ch \<noteq> [] \<and> granted)"
    using g by (auto dest: heap_request_live split: if_splits)
  note core = split_bucket_def [of ?i ?n ?t1 w, unfolded B1 b(1) assms(3) Option.bind.simps Let_def g prod.case]
  show ?thesis
  proof (cases granted)
    case False
    let ?u = "?es @ [TableWriteUnlock, BucketWriteUnlock ?n, BucketWriteUnlock ?i]"
    have "split_bucket ?i ?n ?t1 w = Some (LK_ALLOC_FAIL, trace ?u t, w1)" unfolding core using False by (simp add: trace_def)
    moreover have "locks_run (TableWriteLock # ?u) no_locks = Some no_locks" using i by (simp add: bracket_simps)
    ultimately show ?thesis using assms(1) live gen False
      by (intro exI [of _ LK_ALLOC_FAIL] exI conjI) (assumption | simp add: unmoved_def)+
  next
    case True
    let ?free = "if tl ch \<noteq> [] then 1 else 0" and ?g = "trace (?es @ [TableWriteUnlock]) (grown t)"
    let ?u = "[BucketWriteUnlock ?n, BucketWriteUnlock ?i] :: 'a event list"
    have adv: "trace [TableWriteUnlock] (advance_level (trace ?es ?t1)) = ?g" unfolding advance_grown by simp
    have fit: "fits ch ?free" by (simp add: fits_def)
    have sa: "split_address (m_iExpansionIdx ?g) (m_dwBktAddrMask0 ?g) s = BucketAddress s (grown t)" for s
      using shape_grown(3) [OF sh assms(2), of s] by simp
    obtain old new left where sp:
      "SplitRecordSet ch (m_iExpansionIdx ?g) (m_dwBktAddrMask0 ?g) ?n ?free w1 = Some (old, new, (HeapFree ^^ left) w1)"
      "chain_of (filter (\<lambda>x. BucketAddress (fst x) (grown t) \<noteq> ?n) xs) old"
      "chain_of (filter (\<lambda>x. BucketAddress (fst x) (grown t) = ?n) xs) new" "left + length old + length new = length ch + 1 + ?free"
      using SplitRecordSet_correct [OF b(2) fit, of "m_iExpansionIdx ?g" "m_dwBktAddrMask0 ?g" ?n w1, unfolded sa] by blast
    let ?tt = "trace (?es @ [TableWriteUnlock]) t"
    obtain t3 t4 where st: "put_Bucket ?i old ?g = Some t3" "put_Bucket ?n new t3 = Some t4" "rep t4 E" "t4 = ?g\<lparr>m_paDirSegs := m_paDirSegs t4\<rparr>"
      "int (table_blocks t4) = int (table_blocks t) + int (length old) + int (length new) - 1 - int (length ch)" "tight (grown t) \<longrightarrow> tight t4"
      using split_rep [of ?tt E ch xs old new] assms b(1-3) sp(2,3) by auto
    have ev: "events t4 = events t @ ?es @ [TableWriteUnlock]" and k: "kept t t4" and n: "m_cActiveBuckets t4 = ?n + 1"
      by (subst st(4), simp add: kept_def)+
    have "split_bucket ?i ?n ?t1 w = Some (LK_SUCCESS, trace ?u t4, (HeapFree ^^ left) w1)"
      unfolding core adv using True sp(1) st(1,2) by simp
    moreover have "locks_run (TableWriteLock # (?es @ [TableWriteUnlock] @ ?u)) no_locks = Some no_locks" using i by (simp add: bracket_simps)
    moreover have "heap_live ((HeapFree ^^ left) w1) - heap_live w = int (table_blocks t4) - int (table_blocks t)"
      using st(5) sp(4) live True by (simp split: if_splits)
    ultimately show ?thesis using st(3,6) k n ev gen by (intro exI [of _ LK_SUCCESS] exI conjI) (assumption | simp)+
  qed
qed

section \<open>\<open>_Expand\<close>\<close>

lemma AllocateSegment_cases:
  assumes "m_dwSegSize t = 2 ^ seg_bits (m_lkts t)" "AllocateSegment t w = (pSeg, w1)"
  shows "pSeg \<noteq> None \<longrightarrow> pSeg = Some (replicate (m_dwSegSize t) [clump_Clear])"
    "heap_live w1 = heap_live w + of_bool (pSeg \<noteq> None)" "same_heap w1 w" "generous w \<Longrightarrow> pSeg \<noteq> None"
proof -
  obtain granted where g: "heap_request (2 ^ seg_bits (m_lkts t) * sizeof_CBucket) w = (granted, w1)"
    "pSeg = (if granted then Some (replicate (m_dwSegSize t) [clump_Clear]) else None)"
    using assms by (auto simp: AllocateSegment_def Let_def split: prod.splits)
  show "pSeg \<noteq> None \<longrightarrow> pSeg = Some (replicate (m_dwSegSize t) [clump_Clear])" using g(2) by simp
  show "heap_live w1 = heap_live w + of_bool (pSeg \<noteq> None)" using heap_request_live [OF g(1)] g(2) by simp
  show "same_heap w1 w" "generous w \<Longrightarrow> pSeg \<noteq> None" using heap_request_generous [OF g(1)] g(2) by simp_all
qed

lemma new_bucket:
  assumes "shape t"
  shows "dword (2 ^ m_nLevel t) OR m_iExpansionIdx t = m_cActiveBuckets t"
  using power_or [OF shapeD(9) [OF assms]] shapeD(10) [OF assms] shape_bits(3) [OF assms] by (simp add: dword_power)

text \<open>The outcome of a step of the expansion, and of the loop.\<close>

definition stepped :: "'r entry multiset \<Rightarrow> 'r lkr \<Rightarrow> world \<Rightarrow> 'r lkr \<Rightarrow> world \<Rightarrow> bool" where
  "stepped E t w t' w' \<longleftrightarrow> rep t' E \<and> kept t t' \<and> books (E, t, w) (E, t', w')"

lemma stepped_refl: "rep t E \<Longrightarrow> stepped E t w t w"
  by (simp add: stepped_def)

lemma stepped_trans: "stepped E t w t' w' \<Longrightarrow> stepped E t' w' t'' w'' \<Longrightarrow> stepped E t w t'' w''"
  unfolding stepped_def using books_trans kept_trans by blast

lemma Expand_correct:
  assumes "rep t E" "directories w"
  shows "\<exists>rc t' w'. Expand t w = Some (rc, t', w') \<and> stepped E t w t' w' \<and> same_heap w' w \<and>
    (rc = LK_SUCCESS \<and> m_cActiveBuckets t' = m_cActiveBuckets t + 1 \<or> rc = LK_ALLOC_FAIL \<and> m_cActiveBuckets t' = m_cActiveBuckets t \<and>
      (generous w \<longrightarrow> m_cActiveBuckets t \<ge> MAX_DIRSIZE * m_dwSegSize t - 1)) \<and>
    heap_live w' - heap_live w = int (table_blocks t') - int (table_blocks t) \<and>
    (rc = LK_ALLOC_FAIL \<longrightarrow> unmoved t t' \<and> table_blocks t \<le> table_blocks t' \<and> table_blocks t' \<le> table_blocks t + 1)"
proof (cases "m_cActiveBuckets t \<ge> MAX_DIRSIZE * m_dwSegSize t - 1")
  case True
  then show ?thesis using assms by (simp add: Expand_def stepped_refl unmoved_def)
next
  case False
  let ?t0 = "trace [TableWriteLock] t" and ?n = "m_cActiveBuckets t"
  have sh: "shape t" by (rule rep_shape [OF assms(1)])
  obtain t1 w1 where gd: "GrowDirectory ?t0 w = Some (True, t1, w1)" "shape t1" "\<forall>b. Bucket b t1 = Bucket b t"
    "t1 = ?t0\<lparr>m_paDirSegs := m_paDirSegs t1, m_cDirSegs := m_cDirSegs t1\<rparr>" "?n < m_cDirSegs t1 * m_dwSegSize t"
    "heap_live w1 = heap_live w" "table_blocks t1 = table_blocks t" "same_heap w1 w"
    using GrowDirectory_correct [of ?t0 w, unfolded trace_fields Bucket_trace table_blocks_trace shape_trace, OF sh _ assms(2)] False
    unfolding not_le by blast
  have f: "m_cActiveBuckets t1 = ?n" "m_dwSegSize t1 = m_dwSegSize t" "events t1 = events t @ [TableWriteLock]" "kept t t1"
    "\<And>s. BucketAddress s t1 = BucketAddress s t" by (subst gd(4), simp add: kept_def)+
  have r1: "rep t1 E" by (rule rep_cong [OF assms(1) gd(2) f(5) f(1)]) (use gd(3) in auto)
  have tg1: "tight t1 = tight t" by (rule tight_cong) (use f gd(3) in auto)
  note core = Expand_def [of t w, unfolded if_not_P [OF False] gd(1) Option.bind.simps prod.case Let_def new_bucket [OF gd(2)]]
  have fail: ?thesis if "Expand t w = Some (LK_ALLOC_FAIL, trace [TableWriteUnlock] t1, w2)" "\<not> generous w"
    "heap_live w2 = heap_live w" "same_heap w2 w" for w2
  proof -
    have "books (E, t, w) (E, trace [TableWriteUnlock] t1, w2)"
      by (rule booksI [of _ _ "[TableWriteLock, TableWriteUnlock]"]) (use that f(3) gd(7) tg1 in \<open>simp_all add: bracket_simps\<close>)
    moreover have "unmoved t (trace [TableWriteUnlock] t1)" using f(1,5) gd(3) by (simp add: unmoved_def)
    ultimately show ?thesis using that r1 f(1,4) gd(7) by (simp add: stepped_def)
  qed
  show ?thesis
  proof -
    have room: "m_cActiveBuckets t1 < m_cDirSegs t1 * m_dwSegSize t1" using gd(5) f(1,2) by simp
    obtain pseg where ps: "Segment (m_cActiveBuckets t1) t1 = Some pseg" and put: "\<And>seg. seg = (if pseg = None then
        replicate (m_dwSegSize t1) [clump_Clear] else the pseg) \<Longrightarrow>
       \<exists>t'. put_Segment (m_cActiveBuckets t1) (Some seg) (t1\<lparr>m_cActiveBuckets := m_cActiveBuckets t1 + 1\<rparr>) =
          Some (t'\<lparr>m_cActiveBuckets := m_cActiveBuckets t1 + 1\<rparr>) \<and> t' = t1\<lparr>m_paDirSegs := m_paDirSegs t'\<rparr> \<and> rep t' E \<and>
          Bucket (m_cActiveBuckets t1) t' = Some [clump_Clear] \<and> table_blocks t' = table_blocks t1 + of_bool (pseg = None) \<and>
          (tight t1 \<longrightarrow> tight (t'\<lparr>m_cActiveBuckets := m_cActiveBuckets t1 + 1\<rparr>)) \<and> (\<forall>b < m_cActiveBuckets t1. Bucket b t' = Bucket b t1)"
      using EnsureSegment [OF r1 room] by blast
    obtain pseg' w2 where al: "(if pseg = None then AllocateSegment t1 w1 else (pseg, w1)) = (pseg', w2)" by fastforce
    have sz: "m_dwSegSize t1 = 2 ^ seg_bits (m_lkts t1)" using shapeD(3,4) [OF gd(2)] by simp
    have al': "heap_live w2 = heap_live w + of_bool (pseg = None \<and> pseg' \<noteq> None)" "same_heap w2 w" "generous w \<Longrightarrow> pseg' \<noteq> None"
      "pseg' \<noteq> None \<Longrightarrow> pseg' = Some (if pseg = None then replicate (m_dwSegSize t1) [clump_Clear] else the pseg)"
      using al gd(6,8) AllocateSegment_cases [OF sz, of w1 pseg' w2] by (auto split: if_splits)
    show ?thesis
    proof (cases "pseg' = None")
      case none: True
      then show ?thesis using fail [of w2] al' core ps al f(1) by auto
    next
      case some: False
      obtain t2 where t2: "put_Segment (m_cActiveBuckets t1) pseg' (t1\<lparr>m_cActiveBuckets := m_cActiveBuckets t1 + 1\<rparr>) =
          Some (t2\<lparr>m_cActiveBuckets := m_cActiveBuckets t1 + 1\<rparr>)" "t2 = t1\<lparr>m_paDirSegs := m_paDirSegs t2\<rparr>" "rep t2 E"
          "Bucket (m_cActiveBuckets t1) t2 = Some [clump_Clear]" "table_blocks t2 = table_blocks t1 + of_bool (pseg = None)"
          "tight t1 \<longrightarrow> tight (t2\<lparr>m_cActiveBuckets := m_cActiveBuckets t1 + 1\<rparr>)" "\<forall>b < m_cActiveBuckets t1. Bucket b t2 = Bucket b t1"
        using put [OF refl] al'(4) [OF some] by auto
      have f2: "m_cActiveBuckets t2 = ?n" "m_dwSegSize t2 = m_dwSegSize t" "events t2 = events t @ [TableWriteLock]" "kept t t2"
        "m_iExpansionIdx t2 = m_iExpansionIdx t1" "m_cDirSegs t2 = m_cDirSegs t1" "\<And>s. BucketAddress s t2 = BucketAddress s t" by (subst t2(2), use f in \<open>simp add: kept_def\<close>)+
      have room2: "m_cActiveBuckets t2 < m_cDirSegs t2 * m_dwSegSize t2" using room f f2 by simp
      have tg2: "tight t \<Longrightarrow> tight (grown t2)"
      proof -
        assume "tight t"
        then have "tight (t2\<lparr>m_cActiveBuckets := ?n + 1\<rparr>)" using t2(6) tg1 f(1) by simp
        moreover have "Bucket b (t2\<lparr>m_cActiveBuckets := ?n + 1\<rparr>) = Bucket b t2" for b by (rule Bucket_cong) simp_all
        ultimately show ?thesis using f2(1) by (simp add: tight_def)
      qed
      obtain rc t' w' es where sp: "split_bucket (m_iExpansionIdx t2) (m_cActiveBuckets t2) (t2\<lparr>m_cActiveBuckets := m_cActiveBuckets t2 + 1\<rparr>) w2 = Some (rc, t', w')"
        "rep t' E" "kept t2 t'" "events t' = events t2 @ es" "locks_run (TableWriteLock # es) no_locks = Some no_locks" "\<forall>r. net_refs es r = 0"
        "heap_live w' - heap_live w2 = int (table_blocks t') - int (table_blocks t2)" "same_heap w' w2" "generous w2 \<longrightarrow> rc = LK_SUCCESS"
        "tight (grown t2) \<and> generous w2 \<longrightarrow> tight t'"
        "rc = LK_SUCCESS \<and> m_cActiveBuckets t' = m_cActiveBuckets t2 + 1 \<or> rc = LK_ALLOC_FAIL \<and> m_cActiveBuckets t' = m_cActiveBuckets t2"
        "rc = LK_ALLOC_FAIL \<longrightarrow> unmoved t2 t' \<and> table_blocks t' = table_blocks t2"
        using split_bucket_correct [OF t2(3) room2, of w2] t2(4) f(1) f2(1) by auto
      have "books (E, t, w) (E, t', w')"
        by (rule booksI [of _ _ "TableWriteLock # es"]) (use sp f2(3) t2(5) gd(7) al' some tg2 in \<open>auto split: if_splits\<close>)
      then have st: "stepped E t w t' w'" using sp(2,3) f2(4) kept_trans by (auto simp: stepped_def)
      have "Expand t w = Some (rc, t', w')"
        unfolding core using ps al some t2(1) sp(1) f(1) f2(1,5) by (simp del: not_None_eq)
      moreover have "heap_live w' - heap_live w = int (table_blocks t') - int (table_blocks t)"
        using sp(7) t2(5) gd(7) al'(1) some by (simp split: if_splits)
      moreover have "unmoved t t2" using t2(7) gd(3) f(1) f2(1,7) by (simp add: unmoved_def)
      then have "rc = LK_ALLOC_FAIL \<longrightarrow> unmoved t t' \<and> table_blocks t \<le> table_blocks t' \<and> table_blocks t' \<le> table_blocks t + 1"
        using sp(12) t2(5) gd(7) by (simp add: unmoved_def)
      ultimately show ?thesis using st sp(8,9,11) al'(2) f2(1) by auto
    qed
  qed
qed

end
