(* ===== verification/LkrContract.thy ===== *)
theory LkrContract
  imports LkrExpand
begin

text \<open>
  \<open>_Contract\<close>: it removes the last bucket and moves its entries to the bucket it was split from. The segment
  and half of the directory are given back when they are no longer needed.
\<close>

section \<open>One bucket less\<close>

definition shrunk :: "'r lkr \<Rightarrow> 'r lkr" where
  "shrunk t = (retreat_level t)\<lparr>m_cActiveBuckets := m_cActiveBuckets t - 1\<rparr>"

lemma shrunk_fields [simp]:
  "m_lkrcState (shrunk t) = m_lkrcState t" "m_lkts (shrunk t) = m_lkts t" "m_dwSegBits (shrunk t) = m_dwSegBits t"
  "m_dwSegSize (shrunk t) = m_dwSegSize t" "m_dwSegMask (shrunk t) = m_dwSegMask t" "m_MaxLoad (shrunk t) = m_MaxLoad t"
  "m_paDirSegs (shrunk t) = m_paDirSegs t" "m_cDirSegs (shrunk t) = m_cDirSegs t" "m_cRecords (shrunk t) = m_cRecords t"
  "m_cActiveBuckets (shrunk t) = m_cActiveBuckets t - 1" "events (shrunk t) = events t" "table_blocks (shrunk t) = table_blocks t"
  by (simp_all add: shrunk_def retreat_level_def table_blocks_def)

lemma Bucket_shrunk [simp]: "Bucket a (shrunk t) = Bucket a t"
  by (rule Bucket_cong) simp_all

lemma half_mask: "drop_bit 1 (2 ^ Suc k - 1) = (2 ^ k - 1 :: nat)"
proof -
  have "(2 ^ Suc k - 1) div 2 = (2 ^ k - 1 :: nat)" by (cases "(2 :: nat) ^ k") simp_all
  then show ?thesis by (simp add: drop_bit_eq_div)
qed

lemma shrunk_level:
  assumes "shape t" "m_dwSegSize t < m_cActiveBuckets t"
  shows "shape (shrunk t)" "grown (shrunk t) = t"
proof -
  note D = shapeD [OF assms(1)]
  obtain dir where dir: "m_paDirSegs t = Some dir" "dir_ok t dir" using shape_dir [OF assms(1)] by blast
  have ok: "dir_ok (shrunk t) dir" using dir(2) by (simp add: dir_ok_def)
  have "shape (shrunk t) \<and> grown (shrunk t) = t"
  proof (cases "m_iExpansionIdx t > 0")
    case True
    then have s: "shrunk t = t\<lparr>m_iExpansionIdx := m_iExpansionIdx t - 1, m_cActiveBuckets := m_cActiveBuckets t - 1\<rparr>"
      by (simp add: shrunk_def retreat_level_def)
    have sh: "shape (shrunk t)"
      by (rule shapeI [of _ dir]) (use D dir(1) ok True in \<open>simp_all add: s\<close>)
    have "grown (shrunk t) = (shrunk t)\<lparr>m_cActiveBuckets := m_cActiveBuckets (shrunk t) + 1, m_iExpansionIdx := m_iExpansionIdx (shrunk t) + 1\<rparr>"
      by (rule grown_level(1) [OF sh]) (use D(9) True s in simp)
    then show ?thesis using sh True D(10) by (simp add: s)
  next
    case False
    then have i: "m_iExpansionIdx t = 0" by simp
    have "(2 :: nat) ^ m_dwSegBits t < 2 ^ m_nLevel t" using assms(2) D(4,10) i by simp
    then have "m_dwSegBits t < m_nLevel t" by (simp only: power_strict_increasing_iff)
    then obtain l where l: "m_nLevel t = Suc l" "m_dwSegBits t \<le> l" by (cases "m_nLevel t") auto
    have "l \<le> 28" using shape_bits(3) [OF assms(1)] l(1) by simp
    then have dw: "dword_sub (dword (2 ^ l)) 1 = 2 ^ l - 1"
    proof -
      have "(4294967295 + 2 ^ l :: nat) = 4294967296 + (2 ^ l - 1)" by simp
      then have "(4294967295 + 2 ^ l :: nat) mod 4294967296 = (2 ^ l - 1) mod 4294967296" by (simp only: mod_add_self1)
      then show ?thesis using \<open>l \<le> 28\<close> dword_power [of l] dword_mask [of l] by (simp add: dword_sub_def dword_def)
    qed
    have s: "shrunk t = t\<lparr>m_nLevel := l, m_iExpansionIdx := 2 ^ l - 1, m_dwBktAddrMask0 := 2 ^ l - 1,
        m_dwBktAddrMask1 := 2 ^ Suc l - 1, m_cActiveBuckets := 2 ^ Suc l - 1\<rparr>"
      using False D(7,8,10) l(1) unfolding shrunk_def retreat_level_def by (simp add: dw half_mask i del: power_Suc One_nat_def)
    have sh: "shape (shrunk t)"
      by (rule shapeI [of _ dir]) (use D dir(1) ok l in \<open>simp_all add: s i\<close>)
    have "grown (shrunk t) = (shrunk t)\<lparr>m_cActiveBuckets := m_cActiveBuckets (shrunk t) + 1, m_nLevel := m_nLevel (shrunk t) + 1,
        m_iExpansionIdx := 0, m_dwBktAddrMask0 := 2 ^ Suc (m_nLevel (shrunk t)) - 1, m_dwBktAddrMask1 := 2 ^ Suc (Suc (m_nLevel (shrunk t))) - 1\<rparr>"
      by (rule grown_level(2) [OF sh]) (simp add: s)
    also have "\<dots> = t" using D(7,8,10) l(1) i by (simp add: s del: power_Suc One_nat_def)
    finally show ?thesis using sh by simp
  qed
  then show "shape (shrunk t)" "grown (shrunk t) = t" by simp_all
qed

text \<open>Where the entries are before and after.\<close>

lemma shrunk_address:
  assumes "shape t" "m_dwSegSize t < m_cActiveBuckets t"
  shows "BucketAddress s (shrunk t) = (if BucketAddress s t = m_cActiveBuckets t - 1 then m_iExpansionIdx (shrunk t) else BucketAddress s t)"
    and "m_iExpansionIdx (shrunk t) < m_cActiveBuckets t - 1"
proof -
  note u = shrunk_level [OF assms]
  have room: "m_cActiveBuckets (shrunk t) < m_cDirSegs (shrunk t) * m_dwSegSize (shrunk t)"
    using shapeD(11) [OF assms(1)] assms(2) by simp
  show less: "m_iExpansionIdx (shrunk t) < m_cActiveBuckets t - 1" using shapeD(9,10) [OF u(1)] by simp
  show "BucketAddress s (shrunk t) = (if BucketAddress s t = m_cActiveBuckets t - 1 then m_iExpansionIdx (shrunk t) else BucketAddress s t)"
    using grown_address [OF u(1) room, of s] BucketAddress_less [OF u(1), of s] less unfolding u(2)
    by (cases "BucketAddress s (shrunk t) = m_iExpansionIdx (shrunk t)") auto
qed

section \<open>Counting slots\<close>

lemma count_slots_flat:
  "\<forall>c\<in>set ch. wf_clump c \<Longrightarrow> count_slots IsEmptySlot ch = length (filter (\<lambda>e. fst e = HASH_INVALID_SIGNATURE) (slots ch)) \<and>
     count_slots (\<lambda>c i. \<not> IsEmptySlot c i) ch = length (filter (\<lambda>e. fst e \<noteq> HASH_INVALID_SIGNATURE) (slots ch))"
proof (induction ch)
  case (Cons c cs)
  obtain a1 a2 a3 a4 p1 p2 p3 p4 where c: "c = \<lparr>m_dwKeySigs = [a1, a2, a3, a4], m_pvNode = [p1, p2, p3, p4]\<rparr>"
    using wf_clump_cases Cons.prems by (metis list.set_intros(1))
  have up: "[0..<NODES_PER_CLUMP] = [0, 1, 2, 3]" by (simp add: NODES_PER_CLUMP_def upt_rec)
  show ?case using Cons unfolding count_slots_def up
    by (simp add: slots_def c IsEmptySlot_def InvalidSignature_def)
qed (simp add: count_slots_def slots_def)

lemma count_slots_chain:
  assumes "chain_of xs ch"
  shows "count_slots IsEmptySlot ch = 4 * length ch - length xs" "count_slots (\<lambda>c i. \<not> IsEmptySlot c i) ch = length xs"
proof -
  have c: "\<forall>c\<in>set ch. wf_clump c" "slots ch = map used xs @ replicate (4 * length ch - length xs) blank"
    "\<forall>e\<in>set xs. fst e \<noteq> HASH_INVALID_SIGNATURE" using assms by (auto simp: chain_of_def)
  have "filter (\<lambda>e. fst e = HASH_INVALID_SIGNATURE) (map used xs) = []"
    "filter (\<lambda>e. fst e \<noteq> HASH_INVALID_SIGNATURE) (map used xs) = map used xs" using c(3) by (auto simp: used_def filter_empty_conv)
  then show "count_slots IsEmptySlot ch = 4 * length ch - length xs" "count_slots (\<lambda>c i. \<not> IsEmptySlot c i) ch = length xs"
    using count_slots_flat [OF c(1)] unfolding c(2) by simp_all
qed

lemma merge_clumps_cases:
  assumes "merge_clumps c w = (free, w1)"
  shows "free \<noteq> None \<longrightarrow> free = Some (surplus c)" "heap_live w1 = heap_live w + (case free of None \<Rightarrow> 0 | Some n \<Rightarrow> int n)"
    "same_heap w1 w" "generous w \<Longrightarrow> free \<noteq> None"
proof -
  obtain g1 v1 where v1: "heap_request sizeof_CNodeClump w = (g1, v1)" by fastforce
  obtain g2 v2 where v2: "heap_request sizeof_CNodeClump v1 = (g2, v2)" by fastforce
  note facts = heap_request_live [OF v1] heap_request_generous [OF v1] heap_request_live [OF v2] heap_request_generous [OF v2]
  show "free \<noteq> None \<longrightarrow> free = Some (surplus c)" "heap_live w1 = heap_live w + (case free of None \<Rightarrow> 0 | Some n \<Rightarrow> int n)"
    "same_heap w1 w" "generous w \<Longrightarrow> free \<noteq> None"
    using assms facts unfolding merge_clumps_def v1 v2 surplus_def NODES_PER_CLUMP_def by (auto split: if_splits simp: v2)
qed

section \<open>Giving memory back\<close>

text \<open>The entries that are not in the last bucket: what the table holds until the merge.\<close>

lemma cleared_rep:
  assumes "rep t E" "m_dwSegSize t < m_cActiveBuckets t" "L = m_cActiveBuckets t - 1" "Bucket L t = Some ch"
  shows "\<exists>dir. put_Bucket L [clump_Clear] (trace es (shrunk t)) = Some ((trace es (shrunk t))\<lparr>m_paDirSegs := Some dir\<rparr>) \<and>
    rep ((trace es (shrunk t))\<lparr>m_paDirSegs := Some dir\<rparr>) (filter_mset (\<lambda>e. BucketAddress (fst e) t \<noteq> L) E) \<and>
    (\<forall>b. Bucket b ((trace es (shrunk t))\<lparr>m_paDirSegs := Some dir\<rparr>) = (if b = L then Some [clump_Clear] else Bucket b t))"
proof -
  let ?u = "trace es (shrunk t)"
  have sh: "shape t" by (rule rep_shape [OF assms(1)])
  have su: "shape ?u" using shrunk_level(1) [OF sh assms(2)] by simp
  obtain dir where d: "put_Bucket L [clump_Clear] ?u = Some (?u\<lparr>m_paDirSegs := Some dir\<rparr>)" "dir_ok ?u dir"
    "\<forall>b. Bucket b (?u\<lparr>m_paDirSegs := Some dir\<rparr>) = (if b = L then Some [clump_Clear] else Bucket b ?u)"
    using put_Bucket_get [OF su, of L ch "[clump_Clear]"] assms(4) by auto
  let ?v = "?u\<lparr>m_paDirSegs := Some dir\<rparr>"
  have addr: "BucketAddress s ?v = (if BucketAddress s t = L then m_iExpansionIdx (shrunk t) else BucketAddress s t)" for s
    using shrunk_address(1) [OF sh assms(2), of s] assms(3) by simp
  have "bucket_rep ?v (filter_mset (\<lambda>e. BucketAddress (fst e) t \<noteq> L) E) b" if "b < m_cActiveBuckets ?v" for b
  proof -
    have b: "b < L" "b < m_cActiveBuckets t" using that assms(3) by simp_all
    have "filter_mset (\<lambda>e. BucketAddress (fst e) ?v = b) (filter_mset (\<lambda>e. BucketAddress (fst e) t \<noteq> L) E) =
        filter_mset (\<lambda>e. BucketAddress (fst e) t = b) E"
      unfolding filter_filter_mset by (rule filter_mset_cong0) (use addr b in auto)
    then show ?thesis using assms(1) b d(3) unfolding rep_def bucket_rep_def by auto
  qed
  moreover have "chain_of [] ch'" if "m_cActiveBuckets ?v \<le> b" "Bucket b ?v = Some ch'" for b ch'
  proof (cases "b = L")
    case False
    then have "m_cActiveBuckets t \<le> b" "Bucket b t = Some ch'" using that d(3) assms(3) by simp_all
    then show ?thesis using assms(1) unfolding rep_def by blast
  qed (use that d(3) in \<open>simp add: chain_of_Nil_iff\<close>)
  ultimately have "rep ?v (filter_mset (\<lambda>e. BucketAddress (fst e) t \<noteq> L) E)"
    using shape_put [OF su d(2)] by (auto simp: rep_def)
  then show ?thesis using d(1,3) by auto
qed

lemma drop_segment:
  assumes "rep t E" "Bucket (m_cActiveBuckets t) t = Some [clump_Clear]" "m_cActiveBuckets t mod m_dwSegSize t = 0"
  obtains pseg t' where "Segment (m_cActiveBuckets t) t = Some pseg" "put_Segment (m_cActiveBuckets t) None t = Some t'"
    "t' = t\<lparr>m_paDirSegs := m_paDirSegs t'\<rparr>" "rep t' E" "FreeSegment pseg w = HeapFree w" "table_blocks t = table_blocks t' + 1"
    "\<And>b. Bucket b t' = (if b div m_dwSegSize t = m_cActiveBuckets t div m_dwSegSize t then None else Bucket b t)"
proof -
  let ?n = "m_cActiveBuckets t" and ?S = "m_dwSegSize t"
  have sh: "shape t" by (rule rep_shape [OF assms(1)])
  have S: "0 < ?S" using shape_bits(6) [OF sh] by simp
  obtain dir where dir: "m_paDirSegs t = Some dir" "dir_ok t dir" using shape_dir [OF sh] by blast
  obtain seg where seg: "?n div ?S < length dir" "dir ! (?n div ?S) = Some seg"
    using assms(2) unfolding Bucket_shape [OF sh dir(1)] by (auto split: if_splits)
  have ls: "length seg = ?S" using dir(2) seg unfolding dir_ok_def by (metis nth_mem)
  have sg: "iSeg ?n t = ?n div ?S" by (rule iSeg_shape [OF sh])
  let ?dir = "dir[?n div ?S := None]" and ?t' = "t\<lparr>m_paDirSegs := Some (dir[m_cActiveBuckets t div m_dwSegSize t := None])\<rparr>"
  have "Segment ?n t = Some (Some seg)" using dir(1) seg sg by (simp add: Segment_def mem_get_def)
  moreover have "put_Segment ?n None t = Some ?t'" using dir(1) seg(1) sg by (simp add: put_Segment_def mem_put_def)
  moreover have ok: "dir_ok t ?dir"
    using dir(2) by (auto simp: dir_ok_def dest!: set_mp [OF set_update_subset_insert])
  have B: "Bucket b ?t' = (if b div ?S = ?n div ?S then None else Bucket b t)" for b
    using seg(1) unfolding Bucket_dir [OF sh ok] Bucket_shape [OF sh dir(1)] by auto
  have out: "?n \<le> b" if "b div ?S = ?n div ?S" for b
    using that assms(3) by (metis div_mult_mod_eq add.right_neutral le_add1)
  have "rep ?t' E" by (rule rep_cong [OF assms(1) shape_put [OF sh ok]]) (use B out in \<open>auto split: if_splits simp: not_less [symmetric]\<close>)
  moreover have "table_blocks t = table_blocks ?t' + 1"
  proof -
    have "length (seg ! j) = 1" if "j < ?S" for j
    proof -
      let ?b = "?S * (?n div ?S) + j"
      have b: "?b div ?S = ?n div ?S" "?b mod ?S = j" using that S by simp_all
      then have "Bucket ?b t = Some (seg ! j)" using seg by (simp add: Bucket_shape [OF sh dir(1)])
      then have "chain_of [] (seg ! j)" using assms(1) out [OF b(1)] unfolding rep_def by blast
      then show ?thesis by (simp add: chain_of_Nil_iff)
    qed
    then have "\<forall>ch\<in>set seg. length ch - 1 = 0" using ls by (auto simp: in_set_conv_nth)
    then have "seg_blocks (Some seg) = 1" by (simp add: seg_blocks_def sum_list_0 cong: map_cong)
    then have "int (sum_list (map seg_blocks dir)) = int (sum_list (map seg_blocks ?dir)) + 1"
      unfolding sum_list_set_slot [OF seg(1)] using seg(2) by simp
    then show ?thesis using dir(1) by (simp add: table_blocks_def)
  qed
  ultimately show thesis using that [of "Some seg" ?t'] B by (simp add: FreeSegment_def)
qed

lemma sum_list_drop_blocks:
  "sum_list (map seg_blocks dir) = sum_list (map seg_blocks (take k dir)) + sum_list (map seg_blocks (drop k dir))"
  by (simp flip: sum_list_append map_append)

lemma ShrinkDirectory_correct:
  assumes "rep t E" "directories w"
  shows "\<exists>t1 w1. ShrinkDirectory t w = Some (t1, w1) \<and> rep t1 E \<and> t1 = t\<lparr>m_paDirSegs := m_paDirSegs t1, m_cDirSegs := m_cDirSegs t1\<rparr> \<and>
    (\<forall>b < m_cActiveBuckets t. Bucket b t1 = Bucket b t) \<and>
    heap_live w1 = heap_live w \<and> same_heap w1 w \<and> table_blocks t1 \<le> table_blocks t \<and> (tight t \<longrightarrow> tight t1 \<and> table_blocks t1 = table_blocks t)"
proof (cases "m_cActiveBuckets t \<le> drop_bit 1 (dword (m_cDirSegs t * m_dwSegSize t)) \<and> m_cDirSegs t > MIN_DIRSIZE")
  case False
  then show ?thesis using assms(1) unfolding ShrinkDirectory_def if_not_P [OF False] by simp
next
  case True
  have sh: "shape t" by (rule rep_shape [OF assms(1)])
  note D = shapeD [OF sh]
  obtain dir where dir: "m_paDirSegs t = Some dir" "dir_ok t dir" using shape_dir [OF sh] by blast
  obtain k where k: "3 \<le> k" "k \<le> 20" "m_cDirSegs t = 2 ^ k" using D(12) by blast
  have "k \<noteq> 3" using True k(3) by (auto simp: lkr_sizes)
  then obtain j where j: "k = Suc j" "3 \<le> j" using k(1) by (cases k) auto
  have half: "drop_bit 1 (m_cDirSegs t) = 2 ^ j" using k(3) j(1) by (simp add: drop_bit_eq_div)
  have S: "0 < m_dwSegSize t" using shape_bits(6) [OF sh] by simp
  have "m_cDirSegs t * m_dwSegSize t \<le> 1048576 * 512"
    by (rule mult_le_mono) (use shape_bits(5,7) [OF sh] in \<open>simp_all add: lkr_sizes\<close>)
  then have "dword (m_cDirSegs t * m_dwSegSize t) = m_cDirSegs t * m_dwSegSize t" by (simp add: dword_def)
  then have small: "m_cActiveBuckets t \<le> 2 ^ j * m_dwSegSize t" using True k(3) j(1) by (simp add: drop_bit_eq_div)
  have "j \<le> 20" using k(2) j(1) by simp
  then obtain w1 where g: "AllocateSegmentDirectory (2 ^ j) w = Some (Some (replicate (2 ^ j) (None :: 'a bucket list option)), w1)"
    "heap_live w1 = heap_live w + 1" "same_heap w1 w" using AllocateSegmentDirectory_granted [OF assms(2)] by blast
  have ld: "length dir = 2 ^ Suc j" using dir(2) k(3) j(1) by (simp add: dir_ok_def)
  note core = ShrinkDirectory_def [of t w, unfolded if_P [OF True] half Let_def g(1) prod.case dir(1) Option.bind.simps]
  show ?thesis
  proof -
    let ?t = "t\<lparr>m_paDirSegs := Some (take (2 ^ j) dir), m_cDirSegs := 2 ^ j\<rparr>"
    have "replicate (m_cDirSegs t) None @ drop (m_cDirSegs t) dir = replicate (m_cDirSegs t) None" using ld k(3) j(1) by simp
    then have res: "ShrinkDirectory t w = Some (?t, HeapFree w1)"
      using ld unfolding core by (simp add: mem_read_def mem_write_def FreeSegmentDirectory_def)
    have st: "shape ?t"
      by (rule shape_resized [OF sh]) (use j k(2) ld dir(2) small in \<open>auto simp: dir_ok_def dest: in_set_takeD\<close>)
    have B: "Bucket b ?t = (if b div m_dwSegSize t < 2 ^ j then Bucket b t else None)" for b
      using Bucket_shape [OF st, of "take (2 ^ j) dir" b] ld unfolding Bucket_shape [OF sh dir(1)] by simp
    have low: "b div m_dwSegSize t < 2 ^ j" if "b < m_cActiveBuckets t" for b
      using that small S by (simp add: div_less_iff_less_mult)
    have r: "rep ?t E" by (rule rep_cong [OF assms(1) st]) (use B low in \<open>auto split: if_splits\<close>)
    have bl: "table_blocks t = table_blocks ?t + sum_list (map seg_blocks (drop (2 ^ j) dir))"
      using sum_list_drop_blocks [of dir "2 ^ j"] dir(1) by (simp add: table_blocks_def)
    have "tight ?t \<and> sum_list (map seg_blocks (drop (2 ^ j) dir)) = 0" if tg: "tight t"
    proof
      show "tight ?t" using tg B unfolding tight_def by auto
      have "dir ! i = None" if i: "2 ^ j \<le> i" "i < length dir" for i
      proof -
        have "m_cActiveBuckets t \<le> i * m_dwSegSize t" using small i(1) mult_le_mono1 le_trans by blast
        then have "Bucket (i * m_dwSegSize t) t = None" using tg by (simp add: tight_def)
        then show ?thesis using i(2) S by (simp add: Bucket_shape [OF sh dir(1)])
      qed
      then have "drop (2 ^ j) dir = replicate (length dir - 2 ^ j) None" by (intro nth_equalityI) simp_all
      then show "sum_list (map seg_blocks (drop (2 ^ j) dir)) = 0" by simp
    qed
    then show ?thesis unfolding res using r B low g(2,3) bl by auto
  qed
qed

lemma free_last_segment:
  assumes "rep v E" "L = m_cActiveBuckets v" "Bucket L v = Some [clump_Clear]"
  shows "\<exists>v2 w2. (if SegIndex L v = 0 then do { pseg \<leftarrow> Segment L v; t2 \<leftarrow> put_Segment L None v; Some (t2, FreeSegment pseg w) }
      else Some (v, w)) = Some (v2, w2) \<and> rep v2 E \<and> v2 = v\<lparr>m_paDirSegs := m_paDirSegs v2\<rparr> \<and> (\<forall>b < L. Bucket b v2 = Bucket b v) \<and>
      heap_live w2 - heap_live w = int (table_blocks v2) - int (table_blocks v) \<and> same_heap w2 w \<and>
      ((\<forall>k. L < k * m_dwSegSize v \<longrightarrow> Bucket (k * m_dwSegSize v) v = None) \<longrightarrow> tight v2)"
proof -
  let ?S = "m_dwSegSize v"
  have sh: "shape v" by (rule rep_shape [OF assms(1)])
  have S: "0 < ?S" using shape_bits(6) [OF sh] by simp
  have si: "SegIndex L v = L mod ?S" by (rule SegIndex_shape [OF sh])
  show ?thesis
  proof (cases "L mod ?S = 0")
    case True
    obtain pseg t' where dr: "Segment L v = Some pseg" "put_Segment L None v = Some t'" "t' = v\<lparr>m_paDirSegs := m_paDirSegs t'\<rparr>" "rep t' E"
      "FreeSegment pseg w = HeapFree w" "table_blocks v = table_blocks t' + 1" "\<And>b. Bucket b t' = (if b div ?S = L div ?S then None else Bucket b v)"
      using drop_segment [OF assms(1), of w] assms(2,3) True by auto
    have f: "m_cActiveBuckets t' = L" "m_dwSegSize t' = ?S" by (subst dr(3), simp add: assms(2))+
    have "Bucket b t' = Bucket b v" if b: "b < L" for b
    proof -
      have "b div ?S \<noteq> L div ?S" using b True S by (metis div_mult_mod_eq add.right_neutral less_le_not_le div_times_less_eq_dividend)
      then show ?thesis using dr(7) by simp
    qed
    moreover have "tight t'" if tg: "\<forall>k. L < k * ?S \<longrightarrow> Bucket (k * ?S) v = None"
    proof -
      have "Bucket (k * ?S) t' = None" if k: "L \<le> k * ?S" for k
      proof (cases "k = L div ?S")
        case False
        then have "L \<noteq> k * ?S" using S by auto
        then show ?thesis using dr(7) [of "k * ?S"] tg k S False by simp
      qed (use dr(7) S in simp)
      then show ?thesis by (simp add: tight_def f)
    qed
    ultimately show ?thesis using dr si True by simp
  next
    case False
    have "tight v" if tg: "\<forall>k. L < k * ?S \<longrightarrow> Bucket (k * ?S) v = None"
    proof -
      have "Bucket (k * ?S) v = None" if k: "L \<le> k * ?S" for k
        using False tg k by (cases "L = k * ?S") auto
      then show ?thesis by (simp add: tight_def assms(2))
    qed
    then show ?thesis using assms si False by simp
  qed
qed

lemma vacate_bucket_correct:
  assumes "rep t E" "m_dwSegSize t < m_cActiveBuckets t" "L = m_cActiveBuckets t - 1" "Bucket L t = Some ch" "directories w"
  shows "\<exists>t' w'. vacate_bucket L (trace es (shrunk t)) w = Some (t', w') \<and> rep t' (filter_mset (\<lambda>e. BucketAddress (fst e) t \<noteq> L) E) \<and>
    t' = (trace (es @ [BucketWriteUnlock L, TableWriteUnlock]) (shrunk t))\<lparr>m_paDirSegs := m_paDirSegs t', m_cDirSegs := m_cDirSegs t'\<rparr> \<and>
    (\<forall>b < L. Bucket b t' = Bucket b t) \<and>
    heap_live w' - heap_live w \<ge> int (table_blocks t') - int (table_blocks t) + int (length ch) - 1 \<and> same_heap w' w \<and>
    (tight t \<longrightarrow> tight t' \<and> heap_live w' - heap_live w = int (table_blocks t') - int (table_blocks t) + int (length ch) - 1)"
proof -
  let ?E = "filter_mset (\<lambda>e. BucketAddress (fst e) t \<noteq> L) E" and ?u = "trace es (shrunk t)" and ?S = "m_dwSegSize t"
  have sh: "shape t" by (rule rep_shape [OF assms(1)])
  have su: "shape ?u" using shrunk_level(1) [OF sh assms(2)] by simp
  obtain dir where d: "put_Bucket L [clump_Clear] ?u = Some (?u\<lparr>m_paDirSegs := Some dir\<rparr>)" "rep (?u\<lparr>m_paDirSegs := Some dir\<rparr>) ?E"
    "\<forall>b. Bucket b (?u\<lparr>m_paDirSegs := Some dir\<rparr>) = (if b = L then Some [clump_Clear] else Bucket b t)"
    using cleared_rep [OF assms(1-4)] by blast
  define v where "v = trace [BucketWriteUnlock L] (?u\<lparr>m_paDirSegs := Some dir\<rparr>)"
  have v: "rep v ?E" "m_cActiveBuckets v = L" "m_dwSegSize v = ?S" "\<forall>b. Bucket b v = (if b = L then Some [clump_Clear] else Bucket b t)"
    using d assms(3) by (simp_all add: v_def)
  have v5: "v = (trace (es @ [BucketWriteUnlock L]) (shrunk t))\<lparr>m_paDirSegs := m_paDirSegs v\<rparr>" by (simp add: v_def trace_def)
  have "L < m_cActiveBuckets t" using assms(2,3) by simp
  then have "0 < length ch" using assms(1,4) unfolding rep_def bucket_rep_def by (auto dest: chain_of_ne)
  moreover have "int (table_blocks (?u\<lparr>m_paDirSegs := Some dir\<rparr>)) = int (table_blocks ?u) + int (length [clump_Clear :: 'a clump] - 1) - int (length ch - 1)"
    by (rule put_Bucket_blocks [OF su _ d(1)]) (use assms(4) in simp)
  ultimately have bv: "int (table_blocks v) = int (table_blocks t) + 1 - int (length ch)" by (cases ch) (simp_all add: v_def)
  have tg: "tight t \<Longrightarrow> \<forall>k. L < k * ?S \<longrightarrow> Bucket (k * ?S) v = None" using v(4) assms(3) unfolding tight_def by auto
  have "Bucket L v = Some [clump_Clear]" using v(4) by simp
  from free_last_segment [OF v(1) v(2) [symmetric] this, of w, unfolded v(3)]
  obtain v2 w2 where v2: "(if SegIndex L v = 0 then do { pseg \<leftarrow> Segment L v; t2 \<leftarrow> put_Segment L None v; Some (t2, FreeSegment pseg w) }
      else Some (v, w)) = Some (v2, w2)" "rep v2 ?E" "v2 = v\<lparr>m_paDirSegs := m_paDirSegs v2\<rparr>" "\<forall>b < L. Bucket b v2 = Bucket b v"
    "heap_live w2 - heap_live w = int (table_blocks v2) - int (table_blocks v)" "same_heap w2 w" "tight t \<longrightarrow> tight v2" using tg by blast
  obtain v3 w3 where v3: "ShrinkDirectory v2 w2 = Some (v3, w3)" "rep v3 ?E" "v3 = v2\<lparr>m_paDirSegs := m_paDirSegs v3, m_cDirSegs := m_cDirSegs v3\<rparr>"
    "\<forall>b < m_cActiveBuckets v2. Bucket b v3 = Bucket b v2" "heap_live w3 = heap_live w2" "same_heap w3 w2" "table_blocks v3 \<le> table_blocks v2"
    "tight v2 \<longrightarrow> tight v3 \<and> table_blocks v3 = table_blocks v2" using ShrinkDirectory_correct [OF v2(2), of w2] v2(6) assms(5) by blast
  have n2: "m_cActiveBuckets v2 = L" by (subst v2(3), simp add: v(2))
  have "vacate_bucket L ?u w = Some (trace [TableWriteUnlock] v3, w3)"
    unfolding vacate_bucket_def d(1) Option.bind.simps Let_def v_def [symmetric] v2(1) prod.case v3(1) by simp
  moreover have "trace [TableWriteUnlock] v3 = (trace (es @ [BucketWriteUnlock L, TableWriteUnlock]) (shrunk t))\<lparr>m_paDirSegs := m_paDirSegs v3, m_cDirSegs := m_cDirSegs v3\<rparr>"
    by (subst v3(3), subst v2(3), subst v5) (simp add: trace_def)
  moreover have "rep (trace [TableWriteUnlock] v3) ?E" using v3(2) by simp
  moreover have "\<forall>b < L. Bucket b (trace [TableWriteUnlock] v3) = Bucket b t" using v3(4) v2(4) n2 v(4) by simp
  moreover have "heap_live w3 - heap_live w \<ge> int (table_blocks (trace [TableWriteUnlock] v3)) - int (table_blocks t) + int (length ch) - 1"
    using v3(5,7) v2(5) bv by simp
  moreover have "tight t \<longrightarrow> tight (trace [TableWriteUnlock] v3) \<and>
      heap_live w3 - heap_live w = int (table_blocks (trace [TableWriteUnlock] v3)) - int (table_blocks t) + int (length ch) - 1"
    using v3(5,8) v2(5,7) bv by simp
  ultimately show ?thesis using v3(6) v2(6) by (intro exI [of _ "trace [TableWriteUnlock] v3"] exI [of _ w3] conjI) simp_all
qed

section \<open>\<open>_Contract\<close>\<close>

lemma advance_shrunk:
  assumes "shape t" "m_dwSegSize t < m_cActiveBuckets t"
  shows "(advance_level (trace es (shrunk t)))\<lparr>m_cActiveBuckets := m_cActiveBuckets t - 1 + 1\<rparr> = trace es t"
proof -
  have "(advance_level (trace es (shrunk t)))\<lparr>m_cActiveBuckets := m_cActiveBuckets t - 1 + 1\<rparr> = trace es (grown (shrunk t))"
    by (simp add: grown_def advance_level_def Let_def trace_def)
  then show ?thesis using shrunk_level(2) [OF assms] by simp
qed

lemma shrunk_trace [simp]: "shrunk (trace es t) = trace es (shrunk t)"
  by (simp add: shrunk_def retreat_level_def trace_def)

lemma Contract_correct:
  assumes "rep t E" "directories w"
  shows "\<exists>rc t' w'. Contract t w = Some (rc, t', w') \<and> stepped E t w t' w' \<and> same_heap w' w \<and>
    (rc = LK_SUCCESS \<and> m_cActiveBuckets t' + 1 = m_cActiveBuckets t \<or> rc = LK_ALLOC_FAIL \<and> m_cActiveBuckets t' = m_cActiveBuckets t \<and>
      (generous w \<longrightarrow> m_cActiveBuckets t \<le> m_dwSegSize t)) \<and>
    (tight t \<longrightarrow> tight t' \<and> heap_live w' - heap_live w = int (table_blocks t') - int (table_blocks t)) \<and>
    (rc = LK_ALLOC_FAIL \<longrightarrow> (\<exists>es. t' = trace es t) \<and> heap_live w' = heap_live w)"
proof (cases "m_cActiveBuckets t \<le> m_dwSegSize t")
  case True
  have "books (E, t, w) (E, trace [TableWriteLock, TableWriteUnlock] t, w)"
    by (rule booksI [of _ _ "[TableWriteLock, TableWriteUnlock]"]) (simp_all add: bracket_simps)
  then show ?thesis using assms(1) True
      exI [of "\<lambda>es. trace [TableWriteLock, TableWriteUnlock] t = trace es t" "[TableWriteLock, TableWriteUnlock]"]
    by (simp add: Contract_def stepped_def)
next
  case False
  then have more: "m_dwSegSize t < m_cActiveBuckets t" by simp
  have sh: "shape t" by (rule rep_shape [OF assms(1)])
  define L N where "L = m_cActiveBuckets t - 1" and "N = m_iExpansionIdx (shrunk t)"
  have N: "N < L" using shrunk_address(2) [OF sh more] by (simp add: L_def N_def)
  have L: "L < m_cActiveBuckets t" "L + 1 = m_cActiveBuckets t" using more by (simp_all add: L_def)
  obtain old zs where old: "Bucket L t = Some old" "chain_of zs old" "mset zs = filter_mset (\<lambda>e. BucketAddress (fst e) t = L) E"
    using assms(1) L(1) unfolding rep_def bucket_rep_def by blast
  obtain ch ys where ch: "Bucket N t = Some ch" "chain_of ys ch" "mset ys = filter_mset (\<lambda>e. BucketAddress (fst e) t = N) E"
    using assms(1) N L(1) less_trans unfolding rep_def bucket_rep_def by blast
  let ?u = "trace [TableWriteLock] t" and ?es = "[TableWriteLock, BucketWriteLock L, BucketWriteLock N]"
  have t1: "m_cActiveBuckets (retreat_level ?u) - 1 = L" "m_iExpansionIdx (retreat_level ?u) = N" "Bucket b (retreat_level ?u) = Bucket b t" for b
    by (simp_all add: L_def N_def shrunk_def retreat_level_def trace_def Bucket_def Segment_def iSeg_def SegIndex_def)
  have t2: "trace [BucketWriteLock L, BucketWriteLock N] ((retreat_level ?u)\<lparr>m_cActiveBuckets := L\<rparr>) = trace ?es (shrunk t)"
    by (simp add: shrunk_def retreat_level_def trace_def L_def)
  obtain free w1 where mc: "merge_clumps (surplus_items old ch) w = (free, w1)" by fastforce
  note mcs = merge_clumps_cases [OF mc]
  have act: "m_cActiveBuckets ?u = m_cActiveBuckets t" "m_dwSegSize ?u = m_dwSegSize t" by simp_all
  note core = Contract_def [of t w, unfolded Let_def act if_not_P [OF False] t1 old(1) ch(1) Option.bind.simps t2 mc prod.case]
  show ?thesis
  proof (cases "free = None")
    case True
    let ?fs = "?es @ [BucketWriteUnlock L, BucketWriteUnlock N, TableWriteUnlock]"
    have "Contract t w = Some (LK_ALLOC_FAIL, trace ?fs t, w1)"
      using True advance_shrunk [OF sh more, of ?es, folded L_def] unfolding core by simp
    moreover have "books (E, t, w) (E, trace ?fs t, w1)"
      by (rule booksI [of _ _ ?fs]) (use True mcs N in \<open>simp_all add: bracket_simps\<close>)
    moreover have "heap_live w1 = heap_live w" "same_heap w1 w" "\<not> generous w" using True mcs by auto
    moreover have "\<exists>es. trace ?fs t = trace es t" by blast
    ultimately show ?thesis using assms(1) by (simp add: stepped_def)
  next
    case some: False
    let ?fs = "?es @ [BucketWriteUnlock L, TableWriteUnlock]" and ?E = "filter_mset (\<lambda>e. BucketAddress (fst e) t \<noteq> L) E"
    have free: "the free = surplus (int (length zs) - int (4 * length ch - length ys))" "heap_live w1 = heap_live w + int (the free)"
      using some mcs(1,2) count_slots_chain [OF old(2)] count_slots_chain [OF ch(2)] unfolding surplus_items_def by auto
    obtain t3 w2 where v: "vacate_bucket L (trace ?es (shrunk t)) w1 = Some (t3, w2)" "rep t3 ?E"
      "t3 = (trace ?fs (shrunk t))\<lparr>m_paDirSegs := m_paDirSegs t3, m_cDirSegs := m_cDirSegs t3\<rparr>" "\<forall>b < L. Bucket b t3 = Bucket b t"
      "heap_live w2 - heap_live w1 \<ge> int (table_blocks t3) - int (table_blocks t) + int (length old) - 1" "same_heap w2 w1"
      "tight t \<longrightarrow> tight t3 \<and> heap_live w2 - heap_live w1 = int (table_blocks t3) - int (table_blocks t) + int (length old) - 1"
      using vacate_bucket_correct [OF assms(1) more L_def old(1), of w1 ?es] mcs(3) assms(2) by (auto simp del: trace_fields)
    have f: "m_cActiveBuckets t3 = L" "kept t t3" "events t3 = events t @ ?fs" "\<And>s. BucketAddress s t3 = BucketAddress s (shrunk t)"
      by (subst v(3), simp add: kept_def L_def)+
    have addr: "BucketAddress s t3 = (if BucketAddress s t = L then N else BucketAddress s t)" for s
      unfolding f(4) using shrunk_address(1) [OF sh more, of s] by (simp add: L_def N_def)
    obtain merged left where mg: "MergeRecordSets ch old (the free) w2 = Some (merged, (HeapFree ^^ left) w2)" "chain_of (ys @ zs) merged"
      "left + length merged = length ch + (length old - 1) + the free"
      using MergeRecordSets_correct [OF ch(2) old(2) free(1), of w2] by blast
    have "mset (ys @ zs) = filter_mset (\<lambda>e. BucketAddress (fst e) t3 = N) E"
      unfolding mset_append ch(3) old(3) addr using N by (intro multiset_eqI) auto
    moreover have "filter_mset (\<lambda>e. BucketAddress (fst e) t3 = b) E = filter_mset (\<lambda>e. BucketAddress (fst e) t3 = b) ?E" if "b \<noteq> N" for b
      unfolding filter_filter_mset by (rule filter_mset_cong0) (use that addr in auto)
    ultimately obtain dir where d: "put_Bucket N merged t3 = Some (t3\<lparr>m_paDirSegs := Some dir\<rparr>)" "rep (t3\<lparr>m_paDirSegs := Some dir\<rparr>) E"
      "\<forall>b. Bucket b (t3\<lparr>m_paDirSegs := Some dir\<rparr>) = (if b = N then Some merged else Bucket b t3)"
      using put_Bucket_rep [OF v(2) _ mg(2), of N E] N f(1) by auto
    let ?t = "trace [BucketWriteUnlock N] (t3\<lparr>m_paDirSegs := Some dir\<rparr>)"
    have "int (table_blocks (t3\<lparr>m_paDirSegs := Some dir\<rparr>)) = int (table_blocks t3) + int (length merged - 1) - int (length ch - 1)"
      by (rule put_Bucket_blocks [OF rep_shape [OF v(2)] _ d(1)]) (use v(4) N ch(1) in simp)
    moreover have "0 < length merged" "0 < length ch" "0 < length old" using mg(2) ch(2) old(2) by auto
    ultimately have bl: "int (table_blocks ?t) = int (table_blocks t3) + int (length merged) - int (length ch)" by simp
    have heap: "heap_live ((HeapFree ^^ left) w2) - heap_live w = heap_live w2 - heap_live w1 + int (the free) - int left" using free(2) by simp
    have left: "int (the free) - int left = int (length merged) - int (length ch) - int (length old) + 1"
      using mg(3) \<open>0 < length old\<close> by linarith
    have tg: "tight t \<Longrightarrow> tight ?t"
    proof -
      assume "tight t"
      moreover have "tight (t3\<lparr>m_paDirSegs := Some dir\<rparr>) = tight t3" by (rule tight_cong) (use d(3) N f(1) in auto)
      ultimately show ?thesis using v(7) by simp
    qed
    have lk: "locks_run (?fs @ [BucketWriteUnlock N]) no_locks = Some no_locks" using N by (simp add: bracket_simps)
    have "books (E, t, w) (E, ?t, (HeapFree ^^ left) w2)"
      unfolding books_def prod.case
    proof (intro conjI exI [of _ "?fs @ [BucketWriteUnlock N]"] impI)
      show "int (table_blocks ?t) - int (table_blocks t) \<le> heap_live ((HeapFree ^^ left) w2) - heap_live w" using heap left bl v(5) by linarith
      show "heap_live ((HeapFree ^^ left) w2) - heap_live w = int (table_blocks ?t) - int (table_blocks t)" if "tight t \<and> generous w"
        using heap left bl v(7) that by linarith
    qed (use f(3) lk tg v(6) mcs(3) in \<open>simp_all\<close>)
    then have "stepped E t w ?t ((HeapFree ^^ left) w2)" using d(2) f(2) by (simp add: stepped_def kept_def)
    moreover have "Contract t w = Some (LK_SUCCESS, ?t, (HeapFree ^^ left) w2)"
      unfolding core using some v(1) mg(1) d(1) by simp
    moreover have "tight t \<longrightarrow> tight ?t \<and> heap_live ((HeapFree ^^ left) w2) - heap_live w = int (table_blocks ?t) - int (table_blocks t)"
      using tg heap left bl v(7) by auto
    ultimately show ?thesis using L(2) f(1) v(6) mcs(3) by simp
  qed
qed

end
