(* ===== verification/LkrDict.thy ===== *)
theory LkrDict
  imports LkrContract
begin

text \<open>
  The loops that restore the load factor end, and with them the operations on single records: a linear hash
  table is a dictionary whose keys are compared by EqualKeys.
\<close>

section \<open>The loops\<close>

lemma rep_active_less:
  assumes "rep t E"
  shows "m_cActiveBuckets t \<le> MAX_DIRSIZE * m_dwSegSize t" "0 < m_cActiveBuckets t"
proof -
  note s = rep_shape [OF assms]
  show "m_cActiveBuckets t \<le> MAX_DIRSIZE * m_dwSegSize t"
    using shapeD(11) [OF s] shape_bits(5) [OF s] mult_le_mono1 le_trans by blast
  show "0 < m_cActiveBuckets t" using shapeD(10) [OF s] by simp
qed

lemma expand_loop_correct:
  assumes "rep t E" "directories w"
  shows "\<exists>t' w'. expand_loop t w = Some (t', w') \<and> stepped E t w t' w' \<and> same_heap w' w \<and>
    m_cActiveBuckets t \<le> m_cActiveBuckets t' \<and>
    (generous w \<longrightarrow> \<not> over_limit t' \<or> m_cActiveBuckets t' \<ge> MAX_DIRSIZE * m_dwSegSize t' - 1)"
  using assms
proof (induction "MAX_DIRSIZE * m_dwSegSize t - m_cActiveBuckets t" arbitrary: t w rule: less_induct)
  case less
  show ?case
  proof (cases "over_limit t")
    case False
    then show ?thesis using less.prems by (subst expand_loop.simps) (simp add: stepped_refl)
  next
    case True
    obtain rc t1 w1 where e: "Expand t w = Some (rc, t1, w1)" "stepped E t w t1 w1" "same_heap w1 w"
      "rc = LK_SUCCESS \<and> m_cActiveBuckets t1 = m_cActiveBuckets t + 1 \<or> rc = LK_ALLOC_FAIL \<and> m_cActiveBuckets t1 = m_cActiveBuckets t \<and>
        (generous w \<longrightarrow> m_cActiveBuckets t \<ge> MAX_DIRSIZE * m_dwSegSize t - 1)" using Expand_correct [OF less.prems] by blast
    have k: "m_dwSegSize t1 = m_dwSegSize t" "rep t1 E" using e(2) by (simp_all add: stepped_def kept_def)
    show ?thesis
    proof (cases "rc = LK_SUCCESS")
      case False
      then have "expand_loop t w = Some (t1, w1)" using e(1) True by (subst expand_loop.simps) simp
      then show ?thesis using e False k(1) by auto
    next
      case ok: True
      then have n: "m_cActiveBuckets t1 = m_cActiveBuckets t + 1" using e(4) by simp
      have "MAX_DIRSIZE * m_dwSegSize t1 - m_cActiveBuckets t1 < MAX_DIRSIZE * m_dwSegSize t - m_cActiveBuckets t"
        using rep_active_less(1) [OF k(2)] k(1) n by simp
      have "directories w1" using e(3) less.prems(2) by simp
      from less.hyps [OF \<open>MAX_DIRSIZE * m_dwSegSize t1 - m_cActiveBuckets t1 < MAX_DIRSIZE * m_dwSegSize t - m_cActiveBuckets t\<close> k(2) this] obtain t2 w2 where r: "expand_loop t1 w1 = Some (t2, w2)" "stepped E t1 w1 t2 w2"
        "same_heap w2 w1" "m_cActiveBuckets t1 \<le> m_cActiveBuckets t2"
        "generous w1 \<longrightarrow> \<not> over_limit t2 \<or> m_cActiveBuckets t2 \<ge> MAX_DIRSIZE * m_dwSegSize t2 - 1" by blast
      have "expand_loop t w = Some (t2, w2)" using e(1) True ok r(1) by (subst expand_loop.simps) simp
      then show ?thesis using stepped_trans [OF e(2) r(2)] r(3-5) e(3) n by auto
    qed
  qed
qed

lemma contract_loop_correct:
  assumes "rep t E" "directories w"
  shows "\<exists>t' w'. contract_loop n t w = Some (t', w') \<and> stepped E t w t' w' \<and> same_heap w' w \<and>
    m_cActiveBuckets t' \<le> m_cActiveBuckets t \<and> (generous w \<longrightarrow> \<not> under_limit n t')"
  using assms
proof (induction "m_cActiveBuckets t" arbitrary: t w rule: less_induct)
  case less
  show ?case
  proof (cases "under_limit n t")
    case False
    then show ?thesis using less.prems by (subst contract_loop.simps) (simp add: stepped_refl)
  next
    case True
    obtain rc t1 w1 where e: "Contract t w = Some (rc, t1, w1)" "stepped E t w t1 w1" "same_heap w1 w"
      "rc = LK_SUCCESS \<and> m_cActiveBuckets t1 + 1 = m_cActiveBuckets t \<or> rc = LK_ALLOC_FAIL \<and> m_cActiveBuckets t1 = m_cActiveBuckets t \<and>
        (generous w \<longrightarrow> m_cActiveBuckets t \<le> m_dwSegSize t)" using Contract_correct [OF less.prems] by blast
    have k: "rep t1 E" using e(2) by (simp add: stepped_def)
    show ?thesis
    proof (cases "rc = LK_SUCCESS")
      case False
      then have "contract_loop n t w = Some (t1, w1)" using e(1) True by (subst contract_loop.simps) simp
      moreover have "\<not> generous w" using e(4) False True by (auto simp: under_limit_def)
      ultimately show ?thesis using e False by auto
    next
      case ok: True
      then have n: "m_cActiveBuckets t1 < m_cActiveBuckets t" using e(4) by auto
      have "directories w1" using e(3) less.prems(2) by simp
      from less.hyps [OF n k this] obtain t2 w2 where r: "contract_loop n t1 w1 = Some (t2, w2)" "stepped E t1 w1 t2 w2"
        "same_heap w2 w1" "m_cActiveBuckets t2 \<le> m_cActiveBuckets t1" "generous w1 \<longrightarrow> \<not> under_limit n t2" by blast
      have "contract_loop n t w = Some (t2, w2)" using e(1) True ok r(1) by (subst contract_loop.simps) simp
      then show ?thesis using stepped_trans [OF e(2) r(2)] r(3-5) e(3) n by auto
    qed
  qed
qed

lemma stepped_lkr_ok: "stepped E t w t' w' \<Longrightarrow> lkr_ok M t E \<Longrightarrow> lkr_ok M t' E"
  unfolding stepped_def using kept_lkr_ok by blast

lemma lkr_ok_usable: "lkr_ok M t E \<Longrightarrow> IsUsable t"
  using rep_shape shapeD(1) unfolding lkr_ok_def IsUsable_def by blast

section \<open>Insertion\<close>

text \<open>What an insertion leaves: the entries, and the result.\<close>

definition inserted :: "('r, 'k) methods \<Rightarrow> 'r \<Rightarrow> bool \<Rightarrow> 'r entry multiset \<Rightarrow> bool \<Rightarrow> lk_retcode \<Rightarrow> 'r entry multiset \<Rightarrow> bool" where
  "inserted M r fOverwrite E ample rc E' \<longleftrightarrow>
    (if \<exists>e\<in>#E. EqualKeys M (rec_key M r) (rec_key M (snd e))
     then if fOverwrite then rc = LK_SUCCESS \<and> (\<exists>e\<in>#E. EqualKeys M (rec_key M r) (rec_key M (snd e)) \<and>
         E' = add_mset (rec_sig M r, r) (E - {#e#})) else rc = LK_KEY_EXISTS \<and> E' = E
     else rc = LK_SUCCESS \<and> E' = add_mset (rec_sig M r, r) E \<or> rc = LK_ALLOC_FAIL \<and> E' = E \<and> \<not> ample)"

text \<open>At most as many records per bucket as the load factor says, or as many buckets as a table can have.\<close>

definition loaded :: "'r lkr \<Rightarrow> bool" where
  "loaded t \<longleftrightarrow> \<not> over_limit t \<or> m_cActiveBuckets t \<ge> MAX_DIRSIZE * m_dwSegSize t - 1"

lemma loaded_trace [simp]: "loaded (trace es t) = loaded t"
  by (simp add: loaded_def over_limit_def)

context key_contract
begin

lemma lkr_InsertRecord_correct:
  assumes "lkr_ok M t E" "directories w"
  shows "\<exists>rc t' w' E'. LinearHashTable_InsertRecord M (Some r) fOverwrite t w = Some (rc, t', w') \<and>
    lkr_ok M t' E' \<and> books (E, t, w) (E', t', w') \<and> inserted M r fOverwrite E (generous w) rc E' \<and>
    (generous w \<and> rc = LK_SUCCESS \<longrightarrow> loaded t')"
proof -
  obtain lkrc it t1 w1 E1 where s: "lkr_InsertRecord M r (rec_sig M r) fOverwrite False t w = insert_exit lkrc it False (Some r) t1 w1"
    "lkr_ok M t1 E1" "books (E, t, w) (E1, t1, w1)" "inserted M r fOverwrite E (generous w) lkrc E1"
    using InsertRecord_steps [OF assms(1), of r fOverwrite False w] unfolding inserted_def by blast
  have core: "LinearHashTable_InsertRecord M (Some r) fOverwrite t w = do { (rc, _, t', w') \<leftarrow> insert_exit lkrc it False (Some r) t1 w1; Some (rc, t', w') }"
    using lkr_ok_usable [OF assms(1)] s(1) by (simp add: LinearHashTable_InsertRecord_def rec_sig_def rec_key_def)
  show ?thesis
  proof (cases "lkrc = LK_SUCCESS")
    case False
    then have "LinearHashTable_InsertRecord M (Some r) fOverwrite t w = Some (lkrc, t1, w1)"
      unfolding core by (simp add: insert_exit_def)
    then show ?thesis using s(2-4) False by blast
  next
    case True
    have r: "rep t1 E1" using s(2) by (simp add: lkr_ok_def)
    obtain t2 w2 where l: "expand_loop t1 w1 = Some (t2, w2)" "stepped E1 t1 w1 t2 w2" "same_heap w2 w1"
      "generous w1 \<longrightarrow> \<not> over_limit t2 \<or> m_cActiveBuckets t2 \<ge> MAX_DIRSIZE * m_dwSegSize t2 - 1"
      using expand_loop_correct [OF r, of w1] s(3) assms(2) by (auto simp: books_def)
    have "LinearHashTable_InsertRecord M (Some r) fOverwrite t w = Some (lkrc, t2, w2)"
      unfolding core using True l(1) by (simp add: insert_exit_def)
    moreover have "lkr_ok M t2 E1" by (rule stepped_lkr_ok [OF l(2) s(2)])
    moreover have "books (E, t, w) (E1, t2, w2)" using books_trans [OF s(3)] l(2) by (simp add: stepped_def)
    moreover have "same_heap w1 w" using s(3) by (simp add: books_def)
    then have "generous w \<longrightarrow> loaded t2" using l(4) unfolding loaded_def by simp
    ultimately show ?thesis using s(4) by blast
  qed
qed

end

section \<open>Deletion and lookup\<close>

lemma delete_hit_correct:
  assumes "lkr_ok M t E" "\<And>e. e \<in># E \<Longrightarrow> hit (fst e) (Some (snd e)) \<longleftrightarrow> P e" "\<And>e. e \<in># E \<Longrightarrow> P e \<Longrightarrow> fst e = s"
    "directories w"
  shows "\<exists>rc t' w' E'. delete_hit hit s t w = Some (rc, t', w') \<and> lkr_ok M t' E' \<and> books (E, t, w) (E', t', w') \<and>
    (if \<exists>e\<in>#E. P e then rc = LK_SUCCESS \<and> (\<exists>e\<in>#E. P e \<and> E' = E - {#e#}) else rc = LK_NO_SUCH_KEY \<and> E' = E)"
proof -
  from delete_hit_steps [where hit = hit and P = P and s = s, OF assms(1-3), of w] consider
    (found) e t1 w1 where "e \<in># E" "P e" "lkr_ok M t1 (E - {#e#})" "books (E, t, w) (E - {#e#}, t1, w1)"
      "delete_hit hit s t w = do { (t2, w2) \<leftarrow> contract_loop (contraction_mark t1) t1 w1; Some (LK_SUCCESS, t2, w2) }"
    | (absent) t1 where "\<forall>e\<in>#E. \<not> P e" "lkr_ok M t1 E" "books (E, t, w) (E, t1, w)" "delete_hit hit s t w = Some (LK_NO_SUCH_KEY, t1, w)"
    by blast
  then show ?thesis
  proof cases
    case found
    have r: "rep t1 (E - {#e#})" using found(3) by (simp add: lkr_ok_def)
    obtain t2 w2 where l: "contract_loop (contraction_mark t1) t1 w1 = Some (t2, w2)" "stepped (E - {#e#}) t1 w1 t2 w2"
      using contract_loop_correct [OF r, of w1 "contraction_mark t1"] found(4) assms(4) by (auto simp: books_def)
    have "delete_hit hit s t w = Some (LK_SUCCESS, t2, w2)" using found(5) l(1) by simp
    moreover have "lkr_ok M t2 (E - {#e#})" by (rule stepped_lkr_ok [OF l(2) found(3)])
    moreover have "books (E, t, w) (E - {#e#}, t2, w2)" using books_trans [OF found(4)] l(2) by (simp add: stepped_def)
    ultimately show ?thesis using found(1,2) by auto
  next
    case absent
    then show ?thesis by auto
  qed
qed

lemma DeleteRecord_correct:
  assumes "lkr_ok M t E" "directories w"
  shows "\<exists>rc t' w' E'. LinearHashTable_DeleteRecord M (Some r) t w = Some (rc, t', w') \<and> lkr_ok M t' E' \<and> books (E, t, w) (E', t', w') \<and>
    (if (rec_sig M r, r) \<in># E then rc = LK_SUCCESS \<and> E' = E - {#(rec_sig M r, r)#} else rc = LK_NO_SUCH_KEY \<and> E' = E)"
proof -
  have k: "fst e = rec_sig M (snd e)" if "e \<in># E" for e using assms(1) that by (simp add: lkr_ok_def keyed_def)
  have "\<exists>rc t' w' E'. delete_hit (\<lambda>sig pv. pv = Some r) (rec_sig M r) t w = Some (rc, t', w') \<and> lkr_ok M t' E' \<and> books (E, t, w) (E', t', w') \<and>
    (if \<exists>e\<in>#E. snd e = r then rc = LK_SUCCESS \<and> (\<exists>e\<in>#E. snd e = r \<and> E' = E - {#e#}) else rc = LK_NO_SUCH_KEY \<and> E' = E)"
    by (rule delete_hit_correct [OF assms(1)]) (use k assms(2) in auto)
  moreover have "snd e = r \<longleftrightarrow> e = (rec_sig M r, r)" if "e \<in># E" for e using k [OF that] by (auto simp: prod_eq_iff)
  moreover have "LinearHashTable_DeleteRecord M (Some r) t w = delete_hit (\<lambda>sig pv. pv = Some r) (rec_sig M r) t w"
    using lkr_ok_usable [OF assms(1)] by (simp add: LinearHashTable_DeleteRecord_def lkr_DeleteRecord_def rec_sig_def rec_key_def)
  ultimately show ?thesis by (cases "(rec_sig M r, r) \<in># E") auto
qed

lemma FindRecord_correct:
  assumes "lkr_ok M t E"
  shows "\<exists>t'. LinearHashTable_FindRecord M (Some r) t = Some (if (rec_sig M r, r) \<in># E then LK_SUCCESS else LK_NO_SUCH_KEY, t') \<and>
    looked t t' None"
  using FindRecord_steps [OF assms, of r] lkr_ok_usable [OF assms]
  by (auto simp: LinearHashTable_FindRecord_def rec_sig_def rec_key_def)

lemma looked_lkr_ok: "looked t t' pv \<Longrightarrow> lkr_ok M t E \<Longrightarrow> lkr_ok M t' E"
  by (auto simp: looked_def)

context key_contract
begin

lemma lkr_DeleteKey_correct:
  assumes "lkr_ok M t E" "directories w"
  shows "\<exists>rc t' w' E'. LinearHashTable_DeleteKey M key t w = Some (rc, t', w') \<and> lkr_ok M t' E' \<and> books (E, t, w) (E', t', w') \<and>
    (if \<exists>e\<in>#E. EqualKeys M key (rec_key M (snd e))
     then rc = LK_SUCCESS \<and> (\<exists>e\<in>#E. EqualKeys M key (rec_key M (snd e)) \<and> E' = E - {#e#}) else rc = LK_NO_SUCH_KEY \<and> E' = E)"
proof -
  have k: "keyed M E" using assms(1) by (simp add: lkr_ok_def)
  have "LinearHashTable_DeleteKey M key t w = delete_hit (key_hit M key) (lkr_CalcKeyHash M key) t w"
    using lkr_ok_usable [OF assms(1)]
    by (simp add: LinearHashTable_DeleteKey_def lkr_DeleteKey_def) (simp add: key_hit_def [abs_def])
  then show ?thesis
    using delete_hit_correct [where P = "\<lambda>e. EqualKeys M key (rec_key M (snd e))" and hit = "key_hit M key" and w = w, OF assms(1)] assms(2) key_hit_iff [OF k] equal_sig [OF k]
    by presburger
qed

lemma lkr_FindKey_correct:
  assumes "lkr_ok M t E"
  shows "\<exists>t' pv. LinearHashTable_FindKey M key True t = Some (if pv = None then LK_NO_SUCH_KEY else LK_SUCCESS, pv, t') \<and> looked t t' pv \<and>
    (case pv of Some r \<Rightarrow> (rec_sig M r, r) \<in># E \<and> EqualKeys M key (rec_key M r)
     | None \<Rightarrow> \<forall>e\<in>#E. \<not> EqualKeys M key (rec_key M (snd e)))"
proof -
  have k: "(rec_sig M (snd e), snd e) = e" if "e \<in># E" for e using assms that by (simp add: lkr_ok_def keyed_def prod_eq_iff)
  from FindKey_steps [OF assms, of key] consider
    (found) e it t1 where "e \<in># E" "EqualKeys M key (rec_key M (snd e))" "looked t t1 (Some (snd e))"
      "lkr_FindKey M key (lkr_CalcKeyHash M key) t = Some (LK_SUCCESS, Some (snd e), it, t1)"
    | (absent) t1 where "\<forall>e\<in>#E. \<not> EqualKeys M key (rec_key M (snd e))" "looked t t1 None"
      "lkr_FindKey M key (lkr_CalcKeyHash M key) t = Some (LK_NO_SUCH_KEY, None, None, t1)" by blast
  then show ?thesis
  proof cases
    case found
    then show ?thesis using k [OF found(1)] lkr_ok_usable [OF assms]
      by (intro exI [of _ t1] exI [of _ "Some (snd e)"]) (simp add: LinearHashTable_FindKey_def)
  next
    case absent
    then show ?thesis using lkr_ok_usable [OF assms]
      by (intro exI [of _ t1] exI [of _ None]) (simp add: LinearHashTable_FindKey_def)
  qed
qed

text \<open>Keys are unique, so that a search by the key of a record in the table finds that record.\<close>

lemma keyed_unique:
  assumes "keyed M E" "e \<in># E" "f \<in># E" "EqualKeys M (rec_key M (snd e)) (rec_key M (snd f))"
  shows "e = f"
proof (rule ccontr)
  assume "e \<noteq> f"
  then have "f \<in># E - {#e#}" using assms(3) by (simp add: in_diff_count)
  then show False using assms(1,2,4) unfolding keyed_def by blast
qed

lemma FindKey_member:
  assumes "lkr_ok M t E" "(rec_sig M r, r) \<in># E"
  shows "\<exists>t'. LinearHashTable_FindKey M (rec_key M r) True t = Some (LK_SUCCESS, Some r, t') \<and> looked t t' (Some r)"
proof -
  obtain t' pv where f: "LinearHashTable_FindKey M (rec_key M r) True t = Some (if pv = None then LK_NO_SUCH_KEY else LK_SUCCESS, pv, t')"
    "looked t t' pv" "case pv of Some r' \<Rightarrow> (rec_sig M r', r') \<in># E \<and> EqualKeys M (rec_key M r) (rec_key M r')
     | None \<Rightarrow> \<forall>e\<in>#E. \<not> EqualKeys M (rec_key M r) (rec_key M (snd e))"
    using lkr_FindKey_correct [OF assms(1)] by blast
  show ?thesis
  proof (cases pv)
    case None
    then show ?thesis using f(3) assms(2) eq_refl by fastforce
  next
    case (Some r')
    then have "(rec_sig M r, r) = (rec_sig M r', r')"
      using keyed_unique [of E "(rec_sig M r, r)" "(rec_sig M r', r')"] f(3) assms by (simp add: lkr_ok_def)
    then show ?thesis using f(1,2) Some by simp
  qed
qed

lemma FindKey_absent:
  assumes "lkr_ok M t E" "\<forall>e\<in>#E. \<not> EqualKeys M key (rec_key M (snd e))"
  shows "\<exists>t'. LinearHashTable_FindKey M key True t = Some (LK_NO_SUCH_KEY, None, t') \<and> looked t t' None"
proof -
  obtain t' pv where f: "LinearHashTable_FindKey M key True t = Some (if pv = None then LK_NO_SUCH_KEY else LK_SUCCESS, pv, t')"
    "looked t t' pv" "case pv of Some r' \<Rightarrow> (rec_sig M r', r') \<in># E \<and> EqualKeys M key (rec_key M r')
     | None \<Rightarrow> \<forall>e\<in>#E. \<not> EqualKeys M key (rec_key M (snd e))"
    using lkr_FindKey_correct [OF assms(1)] by blast
  have "pv = None" using f(3) assms(2) by (cases pv) fastforce+
  then show ?thesis using f by simp
qed

lemma keyed_removed:
  assumes "keyed M E" "e \<in># E" "EqualKeys M key (rec_key M (snd e))" "f \<in># E - {#e#}"
  shows "\<not> EqualKeys M key (rec_key M (snd f))"
proof
  assume "EqualKeys M key (rec_key M (snd f))"
  then have "EqualKeys M (rec_key M (snd e)) (rec_key M (snd f))" using assms(3) eq_sym eq_trans by blast
  then show False using assms(1,2,4) unfolding keyed_def by blast
qed

end

end
