(* ===== verification/LkrInit.thy ===== *)
theory LkrInit
  imports LkrContract
begin

text \<open>
  Construction of a linear hash table: the loops of \<open>_SetSegVars\<close> choose the level, the size of the directory and
  allocate the segments; every failure gives back what was allocated. The directory is one entry short when the
  number of segments in full is a power of two of eight or more and a further one is begun.
\<close>

section \<open>The loops\<close>

lemma level_loop_spec:
  assumes "0 < m" "m < 2 ^ j" "l + j \<le> 32"
  shows "\<exists>k. level_loop m l (2 ^ l - 1) = (l + k, 2 ^ (l + k) - 1) \<and> 2 ^ k \<le> m \<and> m < 2 ^ Suc k"
  using assms
proof (induction j arbitrary: m l)
  case (Suc j)
  show ?case
  proof (cases "m > 1")
    case False
    then have "m = 1" using Suc.prems(1) by simp
    then show ?thesis by (intro exI [of _ 0]) (simp add: level_loop.simps)
  next
    case True
    have nm: "dword (push_bit 1 (2 ^ l - 1) OR 1) = 2 ^ Suc l - 1" by (rule next_mask) (use Suc.prems(3) in simp)
    have "0 < m div 2" "m div 2 < 2 ^ j" using True Suc.prems(2) by (simp_all add: div_less_iff_less_mult mult.commute)
    from Suc.IH [OF this, of "Suc l"] Suc.prems(3) obtain k where
      k: "level_loop (m div 2) (Suc l) (2 ^ Suc l - 1) = (Suc l + k, 2 ^ (Suc l + k) - 1)" "2 ^ k \<le> m div 2" "m div 2 < 2 ^ Suc k" by auto
    have "level_loop m l (2 ^ l - 1) = (l + Suc k, 2 ^ (l + Suc k) - 1)"
      by (subst level_loop.simps) (simp only: True if_True nm Suc_eq_plus1 [symmetric] k(1) add_Suc add_Suc_right)
    moreover have "2 ^ Suc k \<le> m" "m < 2 ^ Suc (Suc k)" using k(2,3) by (simp_all add: less_eq_div_iff_mult_less_eq div_less_iff_less_mult mult.commute)
    ultimately show ?thesis by blast
  qed
qed simp

lemma dir_loop_spec: "\<exists>k. dir_loop (2 ^ c) n = 2 ^ k \<and> c \<le> k \<and> n \<le> 2 ^ k \<and> (k = c \<or> 2 ^ k < 2 * n)"
proof (induction "n - 2 ^ c" arbitrary: c rule: less_induct)
  case less
  show ?case
  proof (cases "(2 :: nat) ^ c < n")
    case False
    then show ?thesis by (intro exI [of _ c]) (simp add: dir_loop.simps)
  next
    case True
    then have "n - 2 ^ Suc c < n - 2 ^ c" by (intro diff_less_mono2) simp_all
    from less [OF this] obtain k where k: "dir_loop (2 ^ Suc c) n = 2 ^ k" "Suc c \<le> k" "n \<le> 2 ^ k" "k = Suc c \<or> 2 ^ k < 2 * n" by blast
    have "dir_loop (2 ^ c) n = dir_loop (2 ^ Suc c) n" using True by (subst dir_loop.simps) simp
    then show ?thesis using k True by (intro exI [of _ k]) auto
  qed
qed

text \<open>The segments: the first \<open>i\<close> of \<open>D\<close> entries are allocated.\<close>

definition part_dir :: "nat \<Rightarrow> 'r bucket list \<Rightarrow> nat \<Rightarrow> 'r bucket list option list" where
  "part_dir D seg i = replicate i (Some seg) @ replicate (D - i) None"

lemma length_part_dir [simp]: "i \<le> D \<Longrightarrow> length (part_dir D seg i) = D"
  by (simp add: part_dir_def)

lemma part_dir_nth: "i \<le> D \<Longrightarrow> k < D \<Longrightarrow> part_dir D seg i ! k = (if k < i then Some seg else None)"
  by (simp add: part_dir_def nth_append del: replicate.simps)

lemma part_dir_put: "i < D \<Longrightarrow> (part_dir D seg i)[i := Some seg] = part_dir D seg (Suc i)"
  by (intro nth_equalityI) (auto simp: part_dir_nth nth_list_update)

lemma part_dir_clear: "Suc j \<le> D \<Longrightarrow> (part_dir D seg (Suc j))[j := None] = part_dir D seg j"
  by (intro nth_equalityI) (auto simp: part_dir_nth nth_list_update)

lemma free_segs_spec:
  "j \<le> D \<Longrightarrow> free_segs j (t\<lparr>m_paDirSegs := Some (part_dir D seg j)\<rparr>) w =
     Some (t\<lparr>m_paDirSegs := Some (replicate D None)\<rparr>, (HeapFree ^^ j) w)"
proof (induction j arbitrary: w)
  case (Suc j)
  have "part_dir D seg (Suc j) ! j = Some seg" using Suc.prems by (simp add: part_dir_nth)
  then show ?case using Suc part_dir_clear [OF Suc.prems, of seg]
    by (simp add: mem_get_def mem_put_def FreeSegment_def funpow_swap1)
qed (simp add: part_dir_def)

lemma seg_loop_spec:
  assumes "i + left \<le> D" "seg = replicate (2 ^ seg_bits (m_lkts t)) [clump_Clear]"
  shows "(\<exists>w'. seg_loop i left (t\<lparr>m_paDirSegs := Some (part_dir D seg i)\<rparr>) w = Some (t\<lparr>m_paDirSegs := Some (part_dir D seg (i + left))\<rparr>, w') \<and>
      heap_live w' = heap_live w + int left \<and> same_heap w' w) \<or>
    (\<exists>w'. seg_loop i left (t\<lparr>m_paDirSegs := Some (part_dir D seg i)\<rparr>) w =
        Some (t\<lparr>m_lkrcState := LK_ALLOC_FAIL, m_paDirSegs := None, m_cDirSegs := 0\<rparr>, w') \<and>
      heap_live w' = heap_live w - int i - 1 \<and> same_heap w' w \<and> \<not> generous w)"
  using assms(1)
proof (induction left arbitrary: i w)
  case (Suc left)
  let ?t = "t\<lparr>m_paDirSegs := Some (part_dir D seg i)\<rparr>"
  obtain pSeg w1 where al: "AllocateSegment ?t w = (pSeg, w1)" by fastforce
  have al': "pSeg \<noteq> None \<longrightarrow> pSeg = Some seg" "heap_live w1 = heap_live w + of_bool (pSeg \<noteq> None)" "same_heap w1 w"
    "generous w \<Longrightarrow> pSeg \<noteq> None"
    using AllocateSegment_cases [of "?t\<lparr>m_dwSegSize := 2 ^ seg_bits (m_lkts t)\<rparr>" w pSeg w1] al assms(2)
    by (simp_all add: AllocateSegment_def)
  show ?case
  proof (cases "pSeg = None")
    case True
    have swap: "?t\<lparr>m_lkrcState := LK_ALLOC_FAIL\<rparr> = t\<lparr>m_lkrcState := LK_ALLOC_FAIL, m_paDirSegs := Some (part_dir D seg i)\<rparr>" by simp
    have "free_segs i (?t\<lparr>m_lkrcState := LK_ALLOC_FAIL\<rparr>) w1 =
        Some (t\<lparr>m_lkrcState := LK_ALLOC_FAIL, m_paDirSegs := Some (replicate D None)\<rparr>, (HeapFree ^^ i) w1)"
      using free_segs_spec [where j = i and D = D and t = "t\<lparr>m_lkrcState := LK_ALLOC_FAIL\<rparr>" and seg = seg and w = w1] Suc.prems
      unfolding swap by simp
    then have "seg_loop i (Suc left) ?t w = Some (t\<lparr>m_lkrcState := LK_ALLOC_FAIL, m_paDirSegs := None, m_cDirSegs := 0\<rparr>,
        HeapFree ((HeapFree ^^ i) w1))" using True al by (simp add: FreeSegmentDirectory_def)
    then show ?thesis using al' True by auto
  next
    case False
    then have p: "pSeg = Some seg" using al'(1) by simp
    have "seg_loop i (Suc left) ?t w = seg_loop (Suc i) left (t\<lparr>m_paDirSegs := Some (part_dir D seg (Suc i))\<rparr>) w1"
      using p al Suc.prems part_dir_put [of i D seg] by (simp add: mem_put_def)
    then show ?thesis using Suc.IH [of "Suc i" w1] Suc.prems al'(2,3) p by auto
  qed
qed simp

section \<open>\<open>_SetSegVars\<close>\<close>

text \<open>The number of buckets is one that the directory has room for.\<close>

definition roomy :: "nat \<Rightarrow> nat \<Rightarrow> bool" where
  "roomy S n \<longleftrightarrow> n mod S = 0 \<or> (\<forall>k\<ge>3. n div S \<noteq> 2 ^ k)"

text \<open>A table without records, with one allocated chain per bucket.\<close>

lemma fresh_rep:
  assumes "m_lkrcState t = LK_SUCCESS" "m_lkts t = 1 \<or> m_lkts t = 2 \<or> m_lkts t = 3"
    "m_dwSegBits t = seg_bits (m_lkts t)" "m_dwSegSize t = 2 ^ m_dwSegBits t" "m_dwSegMask t = 2 ^ m_dwSegBits t - 1"
    "m_dwSegBits t \<le> m_nLevel t" "m_dwBktAddrMask0 t = 2 ^ m_nLevel t - 1" "m_dwBktAddrMask1 t = 2 ^ Suc (m_nLevel t) - 1"
    "m_iExpansionIdx t < 2 ^ m_nLevel t" "m_cActiveBuckets t = 2 ^ m_nLevel t + m_iExpansionIdx t"
    "3 \<le> k" "k \<le> 20" "m_cDirSegs t = 2 ^ k" "segs = (m_cActiveBuckets t + m_dwSegSize t - 1) div m_dwSegSize t" "segs \<le> 2 ^ k"
    "m_paDirSegs t = Some (part_dir (2 ^ k) (replicate (m_dwSegSize t) [clump_Clear]) segs)"
  shows "rep t {#}" "tight t" "table_blocks t = 1 + segs"
proof -
  let ?S = "m_dwSegSize t" and ?n = "m_cActiveBuckets t"
  let ?seg = "replicate (m_dwSegSize t) [clump_Clear]"
  have S: "0 < ?S" using assms(4) by simp
  have seg_less: "a div ?S < segs \<longleftrightarrow> a div ?S * ?S < ?n" for a
  proof -
    have "a div ?S < segs \<longleftrightarrow> Suc (a div ?S) * ?S \<le> ?n + ?S - 1"
      unfolding assms(14) using S by (simp add: less_eq_div_iff_mult_less_eq Suc_le_eq [symmetric] del: mult_Suc)
    then show ?thesis using S by (auto simp: algebra_simps)
  qed
  have cap: "?n \<le> 2 ^ k * ?S"
  proof -
    have "?n < Suc segs * ?S" using seg_less [of "segs * ?S"] S by (simp add: not_less)
    moreover have "\<not> segs * ?S < ?n" using seg_less [of "segs * ?S"] S by simp
    ultimately show ?thesis using assms(15) mult_le_mono1 [OF assms(15), of ?S] by linarith
  qed
  have ok: "dir_ok t (part_dir (2 ^ k) ?seg segs)" using assms(13,15) by (auto simp: dir_ok_def part_dir_def)
  have sh: "shape t"
    by (rule shapeI [OF assms(1-10) _ _ assms(16) ok]) (use cap assms(11-13) in auto)
  have B: "Bucket a t = (if a div ?S < segs then Some [clump_Clear] else None)" for a
    using assms(15) S unfolding Bucket_shape [OF sh assms(16)] by (auto simp: part_dir_nth)
  have "a div ?S < segs" if "a < ?n" for a
  proof -
    have "a div ?S * ?S \<le> a" by simp
    then show ?thesis using that unfolding seg_less by linarith
  qed
  then show "rep t {#}" using sh B unfolding rep_def bucket_rep_def by (auto split: if_splits simp: chain_of_Nil_iff)
  have "Bucket (j * ?S) t = None" if "?n \<le> j * ?S" for j
    using B [of "j * ?S"] seg_less [of "j * ?S"] that S by simp
  then show "tight t" by (simp add: tight_def)
  have "sum_list (map seg_blocks (part_dir (2 ^ k) ?seg segs)) = segs"
    by (simp add: part_dir_def sum_list_replicate seg_blocks_def)
  then show "table_blocks t = 1 + segs" using assms(16) by (simp add: table_blocks_def)
qed

text \<open>The level, the masks and the directory that \<open>_SetSegVars\<close> computes for \<open>n\<close> buckets.\<close>

lemma level_of:
  assumes "n < 2 ^ 23" "2 ^ b \<le> n" "b \<le> 9"
  obtains l where "level_loop (drop_bit b n) b (2 ^ b - 1) = (l, 2 ^ l - 1)" "b \<le> l" "l \<le> 22" "2 ^ l \<le> n" "n < 2 ^ Suc l"
proof -
  have "n div 2 ^ b < 2 ^ 23" using assms(1) by (meson div_le_dividend le_less_trans)
  moreover have "0 < n div 2 ^ b" using assms(2) by (simp add: div_greater_zero_iff)
  ultimately obtain k where k: "level_loop (n div 2 ^ b) b (2 ^ b - 1) = (b + k, 2 ^ (b + k) - 1)" "2 ^ k \<le> n div 2 ^ b" "n div 2 ^ b < 2 ^ Suc k"
    using level_loop_spec [of "n div 2 ^ b" 23 b] assms(3) by auto
  have lo: "2 ^ (b + k) \<le> n" using k(2) by (simp add: less_eq_div_iff_mult_less_eq power_add mult.commute)
  have hi: "n < 2 ^ Suc (b + k)" using k(3) by (simp add: div_less_iff_less_mult power_add mult.commute mult.left_commute)
  have "(2 :: nat) ^ (b + k) < 2 ^ 23" using lo assms(1) by (rule le_less_trans)
  then have "b + k < 23" by (simp only: power_strict_increasing_iff)
  then show thesis using that [of "b + k"] k(1) lo hi by (simp add: drop_bit_eq_div)
qed

lemma directory_of:
  assumes "n < 2 ^ 23" "8 \<le> S"
  obtains k where "min (dir_loop MIN_DIRSIZE (n div S)) MAX_DIRSIZE = 2 ^ k" "3 \<le> k" "k \<le> 20" "n div S \<le> 2 ^ k"
    "roomy S n \<Longrightarrow> (n + S - 1) div S \<le> 2 ^ k" "\<not> roomy S n \<Longrightarrow> (n + S - 1) div S = Suc (2 ^ k)"
proof -
  have "MIN_DIRSIZE = 2 ^ 3" by (simp add: MIN_DIRSIZE_def)
  then obtain k where k: "dir_loop MIN_DIRSIZE (n div S) = 2 ^ k" "3 \<le> k" "n div S \<le> 2 ^ k" "k = 3 \<or> 2 ^ k < 2 * (n div S)"
    using dir_loop_spec [of 3 "n div S"] by auto
  have S: "0 < S" using assms(2) by simp
  have "n div S < 2 ^ 20"
  proof -
    have "n < 2 ^ 20 * 8" using assms(1) by simp
    also have "\<dots> \<le> 2 ^ 20 * S" using assms(2) by (intro mult_le_mono) simp_all
    finally show ?thesis using S by (simp add: div_less_iff_less_mult)
  qed
  then have "(2 :: nat) ^ k < 2 ^ 21" using k(4) by auto
  then have k20: "k \<le> 20" by (simp only: power_strict_increasing_iff)
  then have "(2 :: nat) ^ k \<le> 2 ^ 20" by (simp only: power_increasing_iff)
  then have m: "min (dir_loop MIN_DIRSIZE (n div S)) MAX_DIRSIZE = 2 ^ k" using k(1) by (simp add: MAX_DIRSIZE_def)
  have ceil: "(n + S - 1) div S = n div S + of_bool (n mod S \<noteq> 0)"
  proof -
    have "n + S - 1 = (n mod S + (S - 1)) + S * (n div S)" using S mult_div_mod_eq [of S n] by simp
    then have "(n + S - 1) div S = (n mod S + (S - 1)) div S + n div S" using S by (simp only: div_mult_self2)
    also have "(n mod S + (S - 1)) div S = of_bool (n mod S \<noteq> 0)"
    proof (cases "n mod S = 0")
      case False
      have e: "n mod S + (S - 1) = (n mod S - 1) + S" using False S by simp
      have "(n mod S + (S - 1)) div S = (n mod S - 1) div S + 1" unfolding e using S by simp
      moreover have "(n mod S - 1) div S = 0" using S by (simp add: less_imp_diff_less)
      ultimately show ?thesis using False by simp
    qed (use S in simp)
    finally show ?thesis by simp
  qed
  have "roomy S n \<Longrightarrow> (n + S - 1) div S \<le> 2 ^ k"
    using k(2,3) le_neq_implies_less unfolding ceil roomy_def by (cases "n mod S = 0") fastforce+
  moreover have "n div S = 2 ^ k" if rm: "\<not> roomy S n"
  proof -
    obtain j where j: "n mod S \<noteq> 0" "3 \<le> j" "n div S = 2 ^ j" using rm unfolding roomy_def by blast
    have "j \<le> k" using k(3) unfolding j(3) by (simp only: power_increasing_iff)
    moreover have "k \<le> j"
    proof (rule ccontr)
      assume "\<not> k \<le> j"
      then have "(2 :: nat) ^ Suc j \<le> 2 ^ k" by (intro power_increasing) simp_all
      then show False using k(4) j \<open>\<not> k \<le> j\<close> by auto
    qed
    ultimately show ?thesis using j(3) by simp
  qed
  moreover have "\<not> roomy S n \<Longrightarrow> n mod S \<noteq> 0" by (simp add: roomy_def)
  ultimately show thesis using that [OF m k(2) k20 k(3)] ceil by simp
qed

lemma seg_loop_overflow:
  assumes "seg = replicate (2 ^ seg_bits (m_lkts t)) [clump_Clear]" "generous w" "i \<le> D" "D < i + left"
  shows "seg_loop i left (t\<lparr>m_paDirSegs := Some (part_dir D seg i)\<rparr>) w = None"
  using assms(2-4)
proof (induction left arbitrary: i w)
  case (Suc left)
  let ?t = "t\<lparr>m_paDirSegs := Some (part_dir D seg i)\<rparr>"
  obtain pSeg w1 where al: "AllocateSegment ?t w = (pSeg, w1)" by fastforce
  then have al': "pSeg = Some seg" "generous w1"
    using AllocateSegment_cases [of "?t\<lparr>m_dwSegSize := 2 ^ seg_bits (m_lkts t)\<rparr>" w pSeg w1] assms(1) Suc.prems(1)
    by (auto simp: AllocateSegment_def)
  show ?case
  proof (cases "i < D")
    case True
    have "seg_loop i (Suc left) ?t w = seg_loop (Suc i) left (t\<lparr>m_paDirSegs := Some (part_dir D seg (Suc i))\<rparr>) w1"
      using al' al True part_dir_put [of i D seg] by (simp add: mem_put_def)
    then show ?thesis using Suc.IH [OF al'(2), of "Suc i"] Suc.prems True by simp
  next
    case False
    then show ?thesis using al al'(1) Suc.prems by (simp add: mem_put_def)
  qed
qed simp

text \<open>The outcome of \<open>_SetSegVars\<close>: a table without records and with \<open>n\<close> buckets, or nothing left allocated.\<close>

definition fresh :: "nat \<Rightarrow> 'r lkr \<Rightarrow> world \<Rightarrow> lk_retcode \<Rightarrow> 'r lkr \<Rightarrow> world \<Rightarrow> bool" where
  "fresh n t w rc t' w' \<longleftrightarrow> m_MaxLoad t' = m_MaxLoad t \<and> m_cRecords t' = m_cRecords t \<and> events t' = events t \<and> same_heap w' w \<and>
     (rc = LK_SUCCESS \<and> rep t' {#} \<and> tight t' \<and> m_cActiveBuckets t' = n \<and> heap_live w' = heap_live w + int (table_blocks t') \<or>
      rc = LK_ALLOC_FAIL \<and> \<not> generous w \<and> heap_live w' = heap_live w \<and> m_paDirSegs t' = None \<and> m_lkrcState t' = LK_ALLOC_FAIL)"

lemma SetSegVars_cases:
  fixes t :: "'r lkr"
  assumes "lkts = 1 \<or> lkts = 2 \<or> lkts = 3" "S = 2 ^ seg_bits lkts" "S \<le> n" "n < 2 ^ 23"
  shows "roomy S n \<Longrightarrow> directories w \<Longrightarrow> \<exists>rc t' w'. SetSegVars lkts n t w = Some (rc, t', w') \<and> fresh n t w rc t' w'"
    and "\<not> roomy S n \<Longrightarrow> generous w \<Longrightarrow> SetSegVars lkts n t w = None"
proof -
  let ?b = "seg_bits lkts" and ?segs = "(n + S - 1) div S" and ?seg = "replicate S [clump_Clear] :: 'r bucket list"
  have b: "3 \<le> ?b" "?b \<le> 9" by (simp_all add: seg_bits_def)
  then have "(2 :: nat) ^ 3 \<le> 2 ^ ?b" by (intro power_increasing) simp_all
  then have S8: "8 \<le> S" using assms(2) by simp
  obtain l where l: "level_loop (drop_bit ?b n) ?b (2 ^ ?b - 1) = (l, 2 ^ l - 1)" "?b \<le> l" "l \<le> 22" "2 ^ l \<le> n" "n < 2 ^ Suc l"
    using level_of [OF assms(4) _ b(2)] assms(2,3) by auto
  obtain k where k: "min (dir_loop MIN_DIRSIZE (n div S)) MAX_DIRSIZE = 2 ^ k" "3 \<le> k" "k \<le> 20" "n div S \<le> 2 ^ k"
    "roomy S n \<Longrightarrow> ?segs \<le> 2 ^ k" "\<not> roomy S n \<Longrightarrow> ?segs = Suc (2 ^ k)" using directory_of [OF assms(4) S8] by blast
  define t1 where "t1 = t\<lparr>m_lkts := lkts, m_dwSegBits := ?b, m_dwSegSize := S, m_dwSegMask := S - 1, m_dwBktAddrMask0 := 2 ^ l - 1,
    m_dwBktAddrMask1 := 2 ^ Suc l - 1, m_nLevel := l, m_cActiveBuckets := n, m_iExpansionIdx := n - 2 ^ l, m_lkrcState := LK_ALLOC_FAIL\<rparr>"
  have msk: "dword (push_bit 1 (2 ^ l - 1) OR 1) = 2 ^ Suc l - 1" by (rule next_mask) (use l(3) in simp)
  have "n mod 2 ^ l = (n - 2 ^ l) mod 2 ^ l" using l(4) by (simp add: le_mod_geq)
  then have ix: "n AND (2 ^ l - 1) = n - 2 ^ l" unfolding and_mask using l(5) by simp
  have lk: "(if lkts = LK_SMALL_TABLESIZE \<or> lkts = LK_LARGE_TABLESIZE then lkts else LK_MEDIUM_TABLESIZE) = lkts"
    using assms(1) by (auto simp: lkr_sizes)
  have t1: "t\<lparr>m_lkts := lkts, m_dwSegBits := ?b, m_dwSegSize := 2 ^ ?b, m_dwSegMask := 2 ^ ?b - 1, m_dwBktAddrMask0 := 2 ^ l - 1,
      m_dwBktAddrMask1 := 2 ^ Suc l - 1, m_nLevel := l, m_cActiveBuckets := n, m_iExpansionIdx := n - 2 ^ l, m_lkrcState := LK_ALLOC_FAIL\<rparr> = t1"
    by (simp add: t1_def assms(2))
  have dv: "drop_bit ?b n = n div S" "drop_bit ?b (n + 2 ^ ?b - 1) = ?segs" by (simp_all add: drop_bit_eq_div assms(2))
  note core = SetSegVars_def [of lkts n t w, unfolded Let_def l(1) prod.case lk msk ix t1, unfolded dv k(1)]
  let ?t2 = "t1\<lparr>m_cDirSegs := 2 ^ k, m_lkrcState := LK_SUCCESS\<rparr>"
  have dir: "t1\<lparr>m_paDirSegs := Some (replicate (2 ^ k) None), m_cDirSegs := 2 ^ k, m_lkrcState := LK_SUCCESS\<rparr> =
      ?t2\<lparr>m_paDirSegs := Some (part_dir (2 ^ k) ?seg 0)\<rparr>" by (simp add: part_dir_def)
  have granted: thesis if "directories w"
      "\<And>w1. AllocateSegmentDirectory (2 ^ k) w = Some (Some (replicate (2 ^ k) (None :: 'r bucket list option)), w1) \<Longrightarrow>
         heap_live w1 = heap_live w + 1 \<Longrightarrow> same_heap w1 w \<Longrightarrow> thesis" for thesis
    using AllocateSegmentDirectory_granted [OF that(1) k(3)] that(2) by blast
  have sg: "?seg = replicate (2 ^ seg_bits (m_lkts ?t2)) [clump_Clear]" by (simp add: t1_def assms(2))
  show "\<exists>rc t' w'. SetSegVars lkts n t w = Some (rc, t', w') \<and> fresh n t w rc t' w'" if room: "roomy S n" and dw: "directories w"
  proof -
    obtain w1 where g: "AllocateSegmentDirectory (2 ^ k) w = Some (Some (replicate (2 ^ k) (None :: 'r bucket list option)), w1)"
      "heap_live w1 = heap_live w + 1" "same_heap w1 w" using granted [OF dw] by blast
    have le: "0 + ?segs \<le> 2 ^ k" using k(5) room by simp
    from seg_loop_spec [OF le sg, of w1] consider
      (full) w2 where "seg_loop 0 ?segs (?t2\<lparr>m_paDirSegs := Some (part_dir (2 ^ k) ?seg 0)\<rparr>) w1 =
          Some (?t2\<lparr>m_paDirSegs := Some (part_dir (2 ^ k) ?seg (0 + ?segs))\<rparr>, w2)" "heap_live w2 = heap_live w1 + int ?segs" "same_heap w2 w1"
      | (failed) w2 where "seg_loop 0 ?segs (?t2\<lparr>m_paDirSegs := Some (part_dir (2 ^ k) ?seg 0)\<rparr>) w1 =
          Some (?t2\<lparr>m_lkrcState := LK_ALLOC_FAIL, m_paDirSegs := None, m_cDirSegs := 0\<rparr>, w2)" "heap_live w2 = heap_live w1 - 1"
          "same_heap w2 w1" "\<not> generous w1" by fastforce
    then show ?thesis
    proof cases
      case full
      let ?t = "?t2\<lparr>m_paDirSegs := Some (part_dir (2 ^ k) ?seg (0 + ?segs))\<rparr>"
      have F: "rep ?t {#}" "tight ?t" "table_blocks ?t = 1 + ?segs"
        by (rule fresh_rep [of ?t k ?segs]; use assms l k(2,3) le in \<open>simp add: t1_def\<close>)+
      have "SetSegVars lkts n t w = Some (LK_SUCCESS, ?t, w2)" unfolding core g(1) using full(1) by (simp add: dir)
      then show ?thesis using F full(2,3) g(2,3) by (simp add: fresh_def t1_def)
    next
      case failed
      let ?t = "?t2\<lparr>m_lkrcState := LK_ALLOC_FAIL, m_paDirSegs := None, m_cDirSegs := 0, m_cActiveBuckets := 0, m_iExpansionIdx := 0\<rparr>"
      have "SetSegVars lkts n t w = Some (LK_ALLOC_FAIL, ?t, w2)" unfolding core g(1) using failed(1) by (simp add: dir)
      then show ?thesis using failed(2-4) g(2,3) by (simp add: fresh_def t1_def)
    qed
  qed
  show "SetSegVars lkts n t w = None" if nr: "\<not> roomy S n" and gw: "generous w"
  proof -
    obtain w1 where g: "AllocateSegmentDirectory (2 ^ k) w = Some (Some (replicate (2 ^ k) (None :: 'r bucket list option)), w1)"
      "same_heap w1 w" using granted [OF generous_directories [OF gw]] by blast
    have "seg_loop 0 ?segs (?t2\<lparr>m_paDirSegs := Some (part_dir (2 ^ k) ?seg 0)\<rparr>) w1 = None"
      by (rule seg_loop_overflow [OF sg]) (use nr gw k(6) g in simp_all)
    then show ?thesis unfolding core g(1) by (simp add: dir)
  qed
qed

section \<open>\<open>_Initialize\<close>\<close>

lemma choose_size_bounds:
  assumes "choose_size initsize = (lkts, n)"
  shows "lkts = 1 \<or> lkts = 2 \<or> lkts = 3" "2 ^ seg_bits lkts \<le> n" "n < 2 ^ 23"
  using assms unfolding choose_size_def Let_def
  by (auto simp: lkr_sizes seg_bits_def init_size_def drop_bit_eq_div split: if_splits)

lemma fresh_lkr_ok:
  "fresh n t w LK_SUCCESS t' w' \<Longrightarrow> m_cRecords t = 0 \<Longrightarrow> lkr_ok M t' {#}"
  by (simp add: fresh_def lkr_ok_def keyed_def dword_def)

lemma init_size_roomy: "lkts = 1 \<or> lkts = 2 \<or> lkts = 3 \<Longrightarrow> roomy (2 ^ seg_bits lkts) (init_size lkts)"
  by (auto simp: roomy_def lkr_sizes seg_bits_def init_size_def)

lemma Initialize_cases:
  assumes "choose_size initsize = (lkts, n)"
  shows "roomy (2 ^ seg_bits lkts) n \<Longrightarrow> directories w \<Longrightarrow> \<exists>t0 rc t' w'. lkr_Initialize True True maxload initsize w = Some (rc, t', w') \<and>
      m_cRecords t0 = 0 \<and> events t0 = [] \<and> m_MaxLoad t0 \<ge> 1 \<and> fresh n t0 w rc (t' :: 'r lkr) w'"
    and "\<not> roomy (2 ^ seg_bits lkts) n \<Longrightarrow> generous w \<Longrightarrow> (lkr_Initialize True True maxload initsize w :: (lk_retcode \<times> 'r lkr \<times> world) option) = None"
proof -
  note b = choose_size_bounds [OF assms]
  define t0 :: "'r lkr" where "t0 = lkr_blank\<lparr>m_MaxLoad := min (if maxload \<le> 1 then LK_DFLT_MAXLOAD else maxload) (of_nat (10 * NODES_PER_CLUMP))\<rparr>"
  have t0: "m_cRecords t0 = 0" "events t0 = []" "m_MaxLoad t0 \<ge> 1" by (simp_all add: t0_def lkr_blank_def lkr_sizes)
  have core: "lkr_Initialize True True maxload initsize w = SetSegVars lkts n t0 w"
    unfolding lkr_Initialize_def Let_def assms t0_def by simp
  note S = SetSegVars_cases [OF b(1) refl b(2,3), where t = t0 and w = w]
  show "roomy (2 ^ seg_bits lkts) n \<Longrightarrow> directories w \<Longrightarrow> \<exists>t0 rc t' w'. lkr_Initialize True True maxload initsize w = Some (rc, t', w') \<and>
      m_cRecords t0 = 0 \<and> events t0 = [] \<and> m_MaxLoad t0 \<ge> 1 \<and> fresh n t0 w rc (t' :: 'r lkr) w'"
    using S(1) t0 unfolding core by blast
  show "\<not> roomy (2 ^ seg_bits lkts) n \<Longrightarrow> generous w \<Longrightarrow> (lkr_Initialize True True maxload initsize w :: (lk_retcode \<times> 'r lkr \<times> world) option) = None"
    using S(2) unfolding core by blast
qed

end
