(* ===== verification/LkrWalk.thy ===== *)
theory LkrWalk
  imports LkrDict LkrInit
begin

text \<open>
  The operations that go over all buckets with a predicate or an action: DeleteIf, ApplyIf and Apply. A
  deletion moves the last record of the chain to the slot and the walk looks at that slot again, so that every
  record is looked at once.
\<close>

section \<open>Events inside a table lock\<close>

definition bucket_events :: "'r event list \<Rightarrow> bool" where
  "bucket_events es \<longleftrightarrow> (\<forall>T. locks_run es (T, \<lambda>_. Unheld) = Some (T, \<lambda>_. Unheld))"

lemma bucket_events_Nil [simp]: "bucket_events []"
  by (simp add: bucket_events_def)

lemma bucket_events_append: "bucket_events xs \<Longrightarrow> bucket_events ys \<Longrightarrow> bucket_events (xs @ ys)"
  by (simp add: bucket_events_def locks_run_append)

text \<open>Calls of the reference callback only, and what holding a bucket's lock around them comes to.\<close>

definition ref_events :: "'r event list \<Rightarrow> bool" where
  "ref_events es \<longleftrightarrow> (\<forall>l. locks_run es l = Some l)"

lemma ref_events_Nil [simp]: "ref_events []"
  by (simp add: ref_events_def)

lemma ref_events_append: "ref_events xs \<Longrightarrow> ref_events ys \<Longrightarrow> ref_events (xs @ ys)"
  by (simp add: ref_events_def locks_run_append)

lemma bucket_events_locked: "ref_events es \<Longrightarrow> bucket_events (lock_bucket lkl a # es @ [unlock_bucket lkl a])"
  by (simp add: ref_events_def bucket_events_def locks_run_append lock_bucket_def unlock_bucket_def fun_upd_idem)

definition walked :: "'r state \<Rightarrow> 'r event list \<Rightarrow> 'r state \<Rightarrow> bool" where
  "walked = (\<lambda>(E, t, w) es (E', t', w').
     events t' = events t @ es \<and>
     (\<forall>r. net_refs es r = int (count (image_mset snd E') r) - int (count (image_mset snd E) r)) \<and>
     heap_live w' - heap_live w = int (table_blocks t') - int (table_blocks t) \<and> same_heap w' w \<and> (tight t \<longrightarrow> tight t') \<and>
     m_cActiveBuckets t' = m_cActiveBuckets t \<and> (\<forall>s. BucketAddress s t' = BucketAddress s t) \<and> m_MaxLoad t' = m_MaxLoad t)"

lemma walked_refl [simp]: "walked (E, t, w) [] (E, t, w)"
  by (simp add: walked_def)

lemma walked_trans: "walked s es s' \<Longrightarrow> walked s' fs s'' \<Longrightarrow> walked s (es @ fs) s''"
  by (cases s; cases s'; cases s'') (simp add: walked_def del: count_image_mset)

lemma net_refs_locks [simp]:
  "net_refs [lock_bucket lkl a] r = 0" "net_refs [unlock_bucket lkl a] r = 0"
  by (simp_all add: lock_bucket_def unlock_bucket_def)

lemma walked_trace: "(\<And>r. net_refs es r = 0) \<Longrightarrow> walked (E, t, w) es (E, trace es t, w)"
  by (simp add: walked_def)

lemma walked_books:
  assumes "walked (E, trace [lk] t, w) es (E', t', w')" "bucket_events es"
    "(lk, uk) \<in> {(TableWriteLock, TableWriteUnlock), (TableReadLock, TableReadUnlock), (TableReadOrWriteLock, TableReadOrWriteUnlock)}"
  shows "books (E, t, w) (E', trace [uk] t', w')"
  by (rule booksI [of _ _ "lk # es @ [uk]"])
    (use assms in \<open>auto simp: walked_def bucket_events_def locks_run_append no_locks_def\<close>)

section \<open>One bucket\<close>

text \<open>The walk over the list of entries a chain holds.\<close>

function visit_list :: "('r, 's) visitor \<Rightarrow> nat \<Rightarrow> 'r entry list \<Rightarrow> 's walking \<Rightarrow> bool \<times> 's walking \<times> 'r entry list" where
  "visit_list visit p xs st =
     (if p \<ge> length xs then (False, st, xs)
      else let ((del, stop), st1) = visit (Some (snd (xs ! p))) st in
        if del then (if stop then (True, st1, remove_entry p xs) else visit_list visit p (remove_entry p xs) st1)
        else if stop then (True, st1, xs) else visit_list visit (Suc p) xs st1)"
  by auto
termination by (relation "measure (\<lambda>(_, p, xs, _). length xs - p)") auto

declare visit_list.simps [simp del]

lemma visit_at:
  assumes "Bucket a t = Some ch" "chain_of xs ch" "p < length xs"
  shows "visit_bucket visit a (p div 4) (p mod 4) st t w =
    (let ((del, stop), st1) = visit (Some (snd (xs ! p))) st in
     if del then do { ((j', i'), t1, w1) \<leftarrow> lkr_DeleteNode a (p div 4) (p mod 4) t w;
                      if stop then Some (True, st1, t1, w1) else visit_bucket visit a j' (nat (i' + 1)) st1 t1 w1 }
     else if stop then Some (True, st1, t, w) else visit_bucket visit a (p div 4) (p mod 4 + 1) st1 t w)"
proof -
  obtain c where c: "mem_get (p div 4) ch = Some c" "mem_get (p mod 4) (m_pvNode c) = Some (Some (snd (xs ! p)))"
    using chain_read(2) [OF assms(2,3)] by blast
  then have j: "p div 4 < length ch" "ch ! (p div 4) = c" by (auto simp: mem_get_def split: if_splits)
  have "\<not> IsEmptySlot (ch ! (p div 4)) (p mod 4)"
    using slot_empty_iff [OF assms(2) j(1), of "p mod 4"] assms(3) by simp
  moreover have "\<not> NODES_PER_CLUMP \<le> p mod 4" by (simp add: NODES_PER_CLUMP_def not_le)
  ultimately show ?thesis using assms(1) c j by (subst visit_bucket.simps) simp
qed

lemma visit_end:
  assumes "Bucket a t = Some ch" "chain_of xs ch" "length xs \<le> p" "p div 4 \<le> length ch"
  shows "visit_bucket visit a (p div 4) (p mod 4) st t w = Some (False, st, t, w)"
proof (cases "p div 4 < length ch")
  case True
  then have "IsEmptySlot (ch ! (p div 4)) (p mod 4)" using slot_empty_iff [OF assms(2) True, of "p mod 4"] assms(3) by simp
  moreover have "\<not> NODES_PER_CLUMP \<le> p mod 4" by (simp add: NODES_PER_CLUMP_def not_le)
  ultimately show ?thesis using assms(1) True by (subst visit_bucket.simps) simp
next
  case False
  then show ?thesis using assms(1) by (subst visit_bucket.simps) simp
qed

text \<open>The two ways the code writes the position after the slots of a clump.\<close>

lemma visit_Suc:
  assumes "Bucket a t = Some ch" "p div 4 < length ch"
  shows "visit_bucket visit a (p div 4) (p mod 4 + 1) st t w = visit_bucket visit a (Suc p div 4) (Suc p mod 4) st t w"
proof (cases "p mod 4 = 3")
  case True
  then have "Suc p div 4 = p div 4 + 1" "Suc p mod 4 = 0" by presburger+
  then show ?thesis using True assms by (subst visit_bucket.simps) (simp add: NODES_PER_CLUMP_def)
next
  case False
  then have "Suc p div 4 = p div 4" "Suc p mod 4 = p mod 4 + 1" by presburger+
  then show ?thesis by simp
qed

lemma visit_before:
  assumes "Bucket a t = Some ch" "p div 4 \<le> length ch"
  shows "(case before p of (j, i) \<Rightarrow> visit_bucket visit a j (nat (i + 1)) st t w) = visit_bucket visit a (p div 4) (p mod 4) st t w"
proof -
  consider "p mod 4 \<noteq> 0" | "p mod 4 = 0" "p div 4 = 0" | "p mod 4 = 0" "p div 4 \<noteq> 0" by blast
  then show ?thesis
  proof cases
    case 1
    then show ?thesis by (simp add: before_def)
  next
    case 2
    then show ?thesis by (simp add: before_def)
  next
    case 3
    then have "p div 4 - 1 < length ch" using assms(2) by simp
    then show ?thesis using 3 assms(1)
      by (simp add: before_def, subst visit_bucket.simps) (simp add: NODES_PER_CLUMP_def)
  qed
qed

lemma chain_of_div: "chain_of xs ch \<Longrightarrow> p \<le> length xs \<Longrightarrow> p div 4 \<le> length ch"
proof -
  assume "chain_of xs ch" "p \<le> length xs"
  then have "p \<le> 4 * length ch" by (simp add: chain_of_def)
  then show ?thesis by (simp add: div_le_mono [of p "4 * length ch" 4, simplified])
qed

lemma chain_of_div_less: "chain_of xs ch \<Longrightarrow> p < length xs \<Longrightarrow> p div 4 < length ch"
  by (auto simp: chain_of_def div_less_iff_less_mult mult.commute)

lemma visit_bucket_correct:
  assumes "lkr_ok M t E" "Bucket a t = Some ch" "a < m_cActiveBuckets t" "chain_of xs ch"
    "mset xs = filter_mset (\<lambda>e. BucketAddress (fst e) t = a) E" "p \<le> length xs"
  shows "\<exists>stop st' xs' t' w' E' es. visit_list visit p xs st = (stop, st', xs') \<and>
    visit_bucket visit a (p div 4) (p mod 4) st t w = Some (stop, st', t', w') \<and>
    lkr_ok M t' E' \<and> walked (E, t, w) es (E', t', w') \<and> ref_events es \<and>
    mset xs' = filter_mset (\<lambda>e. BucketAddress (fst e) t = a) E' \<and>
    filter_mset (\<lambda>e. BucketAddress (fst e) t \<noteq> a) E' = filter_mset (\<lambda>e. BucketAddress (fst e) t \<noteq> a) E"
  using assms
proof (induction "length xs - p" arbitrary: p xs ch E t w st rule: less_induct)
  case less
  note H = less.prems
  show ?case
  proof (cases "p < length xs")
    case False
    then have "visit_bucket visit a (p div 4) (p mod 4) st t w = Some (False, st, t, w)"
      using visit_end [OF H(2,4) _ chain_of_div [OF H(4,6)]] by simp
    then show ?thesis using False H by (subst visit_list.simps) (auto intro!: exI [of _ E] exI [of _ "[]"])
  next
    case True
    obtain del stop st1 where v: "visit (Some (snd (xs ! p))) st = ((del, stop), st1)" by (metis prod.exhaust)
    note vb = visit_at [OF H(2,4) True, of visit st w, unfolded v Let_def prod.case]
    note vl = visit_list.simps [of visit p xs st, unfolded v Let_def prod.case]
    show ?thesis
    proof (cases del)
      case del: True
      obtain t1 w1 ch1 where d: "lkr_DeleteNode a (p div 4) (p mod 4) t w = Some (before p, t1, w1)" "xs ! p \<in># E"
        "lkr_ok M t1 (E - {#xs ! p#})" "Bucket a t1 = Some ch1" "chain_of (remove_entry p xs) ch1"
        "events t1 = events t @ [AddRefRecord (Some (snd (xs ! p))) (- 1)]" "heap_live w1 - heap_live w = int (table_blocks t1) - int (table_blocks t)"
        "m_cActiveBuckets t1 = m_cActiveBuckets t" "\<forall>s. BucketAddress s t1 = BucketAddress s t" "tight t1 = tight t" "same_heap w1 w"
        "m_MaxLoad t1 = m_MaxLoad t"
        using DeleteNode_steps [OF H(1-5) True, of w] by blast
      let ?E = "E - {#xs ! p#}" and ?es = "[AddRefRecord (Some (snd (xs ! p))) (- 1)]"
      have w1: "walked (E, t, w) ?es (?E, t1, w1)"
        using d count_remove [OF d(2)] by (simp add: walked_def del: count_image_mset image_mset_Diff)
      have be: "ref_events ?es" by (simp add: ref_events_def)
      have "xs ! p \<in># mset xs" using True by simp
      then have a: "BucketAddress (fst (xs ! p)) t = a" unfolding H(5) by simp
      have m: "mset (remove_entry p xs) = filter_mset (\<lambda>e. BucketAddress (fst e) t = a) ?E"
        using mset_remove_entry [OF True] a unfolding H(5) by simp
      have o: "filter_mset (\<lambda>e. BucketAddress (fst e) t \<noteq> a) ?E = filter_mset (\<lambda>e. BucketAddress (fst e) t \<noteq> a) E" using a by simp
      show ?thesis
      proof (cases stop)
        case True
        then have "visit_bucket visit a (p div 4) (p mod 4) st t w = Some (True, st1, t1, w1)"
          "visit_list visit p xs st = (True, st1, remove_entry p xs)" unfolding vb vl using del d(1) \<open>p < length xs\<close> by simp_all
        then show ?thesis using d(3) w1 be m o by blast
      next
        case False
        have p: "p \<le> length (remove_entry p xs)" "length (remove_entry p xs) - p < length xs - p" using True by simp_all
        have m1: "mset (remove_entry p xs) = filter_mset (\<lambda>e. BucketAddress (fst e) t1 = a) ?E" using m d(9) by simp
        from less.hyps [OF p(2) d(3,4) _ d(5) m1 p(1), of st1 w1] obtain stop' st' xs' t' w' E' es where
          r: "visit_list visit p (remove_entry p xs) st1 = (stop', st', xs')"
          "visit_bucket visit a (p div 4) (p mod 4) st1 t1 w1 = Some (stop', st', t', w')" "lkr_ok M t' E'"
          "walked (?E, t1, w1) es (E', t', w')" "ref_events es" "mset xs' = filter_mset (\<lambda>e. BucketAddress (fst e) t1 = a) E'"
          "filter_mset (\<lambda>e. BucketAddress (fst e) t1 \<noteq> a) E' = filter_mset (\<lambda>e. BucketAddress (fst e) t1 \<noteq> a) ?E"
          using H(3) d(8) by auto
        have "visit_bucket visit a (p div 4) (p mod 4) st t w = Some (stop', st', t', w')"
          unfolding vb using del False d(1) r(2) visit_before [OF d(4) chain_of_div [OF d(5) p(1)], of visit st1 w1]
          by (simp add: case_prod_beta)
        moreover have "visit_list visit p xs st = (stop', st', xs')" unfolding vl using del False True r(1) by simp
        ultimately show ?thesis using r(3,6,7) walked_trans [OF w1 r(4)] ref_events_append [OF be r(5)] d(9) o by auto
      qed
    next
      case keep: False
      show ?thesis
      proof (cases stop)
        case stop: True
        have "visit_bucket visit a (p div 4) (p mod 4) st t w = Some (True, st1, t, w)" unfolding vb using keep stop by simp
        moreover have "visit_list visit p xs st = (True, st1, xs)" unfolding vl using keep stop True by simp
        ultimately show ?thesis using H by (auto intro!: exI [of _ E] exI [of _ "[]"])
      next
        case False
        have p: "length xs - Suc p < length xs - p" "Suc p \<le> length xs" using True by simp_all
        from less.hyps [OF p(1) H(1-5) p(2), of st1 w] show ?thesis
          unfolding vb vl visit_Suc [OF H(2) chain_of_div_less [OF H(4) True]] using keep False True by simp
      qed
    qed
  qed
qed

section \<open>The whole table\<close>

text \<open>A visitor that never stops: which records it deletes, which count as actions, and the log of the records
  it was called with.\<close>

definition steady :: "('r, 's) visitor \<Rightarrow> ('r \<Rightarrow> bool) \<Rightarrow> ('r \<Rightarrow> bool) \<Rightarrow> ('s walking \<Rightarrow> 'r multiset) \<Rightarrow> bool" where
  "steady visit del act seen \<longleftrightarrow> (\<forall>r st. fst (visit (Some r) st) = (del r, False) \<and>
     seen (snd (visit (Some r) st)) = add_mset r (seen st) \<and>
     fst (snd (snd (visit (Some r) st))) = (if act r then dword (fst (snd st) + 1) else fst (snd st)))"

lemma drop_remove_entry:
  assumes "p < length xs"
  shows "take p (remove_entry p xs) = take p xs" "mset (drop p xs) = add_mset (xs ! p) (mset (drop p (remove_entry p xs)))"
proof -
  show t: "take p (remove_entry p xs) = take p xs"
    using assms by (simp add: remove_entry_def take_butlast)
  have "mset xs = mset (take p xs) + mset (drop p xs)" by (simp flip: mset_append)
  moreover have "mset (remove_entry p xs) = mset (take p (remove_entry p xs)) + mset (drop p (remove_entry p xs))" by (simp flip: mset_append)
  ultimately show "mset (drop p xs) = add_mset (xs ! p) (mset (drop p (remove_entry p xs)))"
    using mset_remove_entry [OF assms] unfolding t by simp
qed

lemma dword_add_Suc: "c < 2 ^ 32 \<Longrightarrow> dword (dword (c + 1) + n) = dword (c + Suc n)"
  by (simp add: dword_def mod_add_left_eq)

lemma visit_list_steady:
  assumes "steady visit del act seen" "fst (snd st) < 2 ^ 32"
  shows "\<exists>st' xs'. visit_list visit p xs st = (False, st', xs') \<and>
    mset xs' = mset (take p xs) + filter_mset (\<lambda>e. \<not> del (snd e)) (mset (drop p xs)) \<and>
    seen st' = seen st + image_mset snd (mset (drop p xs)) \<and>
    fst (snd st') = dword (fst (snd st) + size (filter_mset (\<lambda>e. act (snd e)) (mset (drop p xs))))"
  using assms(2)
proof (induction "length xs - p" arbitrary: p xs st rule: less_induct)
  case less
  show ?case
  proof (cases "p < length xs")
    case False
    then show ?thesis using less.prems by (subst visit_list.simps) (simp add: dword_def)
  next
    case True
    let ?r = "snd (xs ! p)"
    obtain st1 where v: "visit (Some ?r) st = ((del ?r, False), st1)" "seen st1 = add_mset ?r (seen st)"
      "fst (snd st1) = (if act ?r then dword (fst (snd st) + 1) else fst (snd st))"
      using assms(1) unfolding steady_def by (metis prod.collapse)
    have c: "fst (snd st1) < 2 ^ 32" using v(3) less.prems by (simp add: dword_def)
    have d: "mset (drop p xs) = add_mset (xs ! p) (mset (drop (Suc p) xs))" "take (Suc p) xs = take p xs @ [xs ! p]"
      using True by (simp_all flip: Cons_nth_drop_Suc add: take_Suc_conv_app_nth)
    note R = drop_remove_entry [OF True]
    have cnt: "dword (fst (snd st1) + n) = dword (fst (snd st) + (if act ?r then Suc n else n))" for n
      using v(3) dword_add_Suc [OF less.prems, of n] by simp
    note vl = visit_list.simps [of visit p xs st, unfolded v(1) Let_def prod.case]
    show ?thesis
    proof (cases "del ?r")
      case del: True
      have "length (remove_entry p xs) - p < length xs - p" using True by simp
      from less.hyps [OF this c] obtain st' xs' where r: "visit_list visit p (remove_entry p xs) st1 = (False, st', xs')"
        "mset xs' = mset (take p (remove_entry p xs)) + filter_mset (\<lambda>e. \<not> del (snd e)) (mset (drop p (remove_entry p xs)))"
        "seen st' = seen st1 + image_mset snd (mset (drop p (remove_entry p xs)))"
        "fst (snd st') = dword (fst (snd st1) + size (filter_mset (\<lambda>e. act (snd e)) (mset (drop p (remove_entry p xs)))))" by blast
      have "visit_list visit p xs st = (False, st', xs')" unfolding vl using del True r(1) by simp
      then show ?thesis using r(2-4) v(2) del unfolding R cnt by (simp split: if_splits)
    next
      case False
      have "length xs - Suc p < length xs - p" using True by simp
      from less.hyps [OF this c] obtain st' xs' where r: "visit_list visit (Suc p) xs st1 = (False, st', xs')"
        "mset xs' = mset (take (Suc p) xs) + filter_mset (\<lambda>e. \<not> del (snd e)) (mset (drop (Suc p) xs))"
        "seen st' = seen st1 + image_mset snd (mset (drop (Suc p) xs))"
        "fst (snd st') = dword (fst (snd st1) + size (filter_mset (\<lambda>e. act (snd e)) (mset (drop (Suc p) xs))))" by blast
      have "visit_list visit p xs st = (False, st', xs')" unfolding vl using False True r(1) by simp
      then show ?thesis using r(2-4) v(2) False unfolding d cnt by (simp split: if_splits)
    qed
  qed
qed

lemma visit_table_correct:
  assumes "lkr_ok M t E" "k + left \<le> m_cActiveBuckets t"
  shows "\<exists>st' t' w' E' es. visit_table visit lkl k left st t w = Some (st', t', w') \<and>
    lkr_ok M t' E' \<and> walked (E, t, w) es (E', t', w') \<and> bucket_events es \<and>
    (steady visit del act seen \<and> fst (snd st) < 2 ^ 32 \<longrightarrow>
      (let here = (\<lambda>e. k \<le> BucketAddress (fst e) t \<and> BucketAddress (fst e) t < k + left) in
       E' = filter_mset (\<lambda>e. \<not> (here e \<and> del (snd e))) E \<and> seen st' = seen st + image_mset snd (filter_mset here E) \<and>
       fst (snd st') = dword (fst (snd st) + size (filter_mset (\<lambda>e. here e \<and> act (snd e)) E))))"
  using assms
proof (induction left arbitrary: k t E w st)
  case 0
  have e: "(\<lambda>e. k \<le> BucketAddress (fst e) t \<and> BucketAddress (fst e) t < k + 0) = (\<lambda>_. False)" by auto
  show ?case unfolding e Let_def using 0 by (auto simp: dword_def intro!: exI [of _ E] exI [of _ "[]"])
next
  case (Suc left)
  have r: "rep t E" using Suc.prems(1) by (simp add: lkr_ok_def)
  have k: "k < m_cActiveBuckets t" using Suc.prems(2) by simp
  obtain ch xs where b: "Bucket k t = Some ch" "chain_of xs ch" "mset xs = filter_mset (\<lambda>e. BucketAddress (fst e) t = k) E"
    using r k unfolding rep_def bucket_rep_def by blast
  let ?t = "trace [lock_bucket lkl k] t"
  from visit_bucket_correct [of M ?t E k ch xs 0 visit st w] Suc.prems(1) k b obtain stop st1 xs1 t1 w1 E1 es where
    v: "visit_list visit 0 xs st = (stop, st1, xs1)" "visit_bucket visit k 0 0 st ?t w = Some (stop, st1, t1, w1)"
    "lkr_ok M t1 E1" "walked (E, ?t, w) es (E1, t1, w1)" "ref_events es" "mset xs1 = filter_mset (\<lambda>e. BucketAddress (fst e) t = k) E1"
    "filter_mset (\<lambda>e. BucketAddress (fst e) t \<noteq> k) E1 = filter_mset (\<lambda>e. BucketAddress (fst e) t \<noteq> k) E" by auto
  let ?t1 = "trace [unlock_bucket lkl k] t1" and ?es = "lock_bucket lkl k # es @ [unlock_bucket lkl k]"
  have w: "walked (E, t, w) ?es (E1, ?t1, w1)"
    using walked_trans [OF walked_trans [OF walked_trace [of "[lock_bucket lkl k]"] v(4)] walked_trace [of "[unlock_bucket lkl k]"]] by simp
  have be: "bucket_events ?es" by (rule bucket_events_locked [OF v(5)])
  have core: "visit_table visit lkl k (Suc left) st t w = (if stop then Some (st1, ?t1, w1) else visit_table visit lkl (Suc k) left st1 ?t1 w1)"
    using v(2) by simp
  have E1: "E1 = mset xs1 + filter_mset (\<lambda>e. BucketAddress (fst e) t \<noteq> k) E" unfolding v(6) v(7) [symmetric] by (rule multiset_partition)
  have addr: "BucketAddress s ?t1 = BucketAddress s t" "m_cActiveBuckets ?t1 = m_cActiveBuckets t" for s using v(4) by (simp_all add: walked_def)
  show ?case
  proof (cases stop)
    case True
    have "\<not> (steady visit del act seen \<and> fst (snd st) < 2 ^ 32)" using visit_list_steady [of visit del act seen st 0 xs] v(1) True by auto
    then show ?thesis unfolding core using True v(3) w be by auto
  next
    case False
    have p: "lkr_ok M ?t1 E1" "Suc k + left \<le> m_cActiveBuckets ?t1" using v(3) Suc.prems(2) addr by simp_all
    obtain st' t' w' E' fs where IH: "visit_table visit lkl (Suc k) left st1 ?t1 w1 = Some (st', t', w')" "lkr_ok M t' E'"
      "walked (E1, ?t1, w1) fs (E', t', w')" "bucket_events fs"
      "steady visit del act seen \<and> fst (snd st1) < 2 ^ 32 \<longrightarrow>
        (let here = (\<lambda>e. Suc k \<le> BucketAddress (fst e) ?t1 \<and> BucketAddress (fst e) ?t1 < Suc k + left) in
         E' = filter_mset (\<lambda>e. \<not> (here e \<and> del (snd e))) E1 \<and> seen st' = seen st1 + image_mset snd (filter_mset here E1) \<and>
         fst (snd st') = dword (fst (snd st1) + size (filter_mset (\<lambda>e. here e \<and> act (snd e)) E1)))"
      using Suc.IH [OF p, of st1 w1] by blast
    have "let here = (\<lambda>e. k \<le> BucketAddress (fst e) t \<and> BucketAddress (fst e) t < k + Suc left) in
       E' = filter_mset (\<lambda>e. \<not> (here e \<and> del (snd e))) E \<and> seen st' = seen st + image_mset snd (filter_mset here E) \<and>
       fst (snd st') = dword (fst (snd st) + size (filter_mset (\<lambda>e. here e \<and> act (snd e)) E))"
      if st: "steady visit del act seen" "fst (snd st) < 2 ^ 32"
    proof -
      from visit_list_steady [OF st, of 0 xs] v(1) have L: "mset xs1 = filter_mset (\<lambda>e. \<not> del (snd e)) (mset xs)"
        "seen st1 = seen st + image_mset snd (mset xs)" "fst (snd st1) = dword (fst (snd st) + size (filter_mset (\<lambda>e. act (snd e)) (mset xs)))" by auto
      have c1: "fst (snd st1) < 2 ^ 32" using L(3) by (simp add: dword_def)
      from IH(5) [unfolded Let_def addr, THEN mp, OF conjI [OF st(1) c1]] have I: "E' = filter_mset (\<lambda>e. \<not> ((Suc k \<le> BucketAddress (fst e) t \<and> BucketAddress (fst e) t < Suc k + left) \<and> del (snd e))) E1"
        "seen st' = seen st1 + image_mset snd (filter_mset (\<lambda>e. Suc k \<le> BucketAddress (fst e) t \<and> BucketAddress (fst e) t < Suc k + left) E1)"
        "fst (snd st') = dword (fst (snd st1) + size (filter_mset (\<lambda>e. (Suc k \<le> BucketAddress (fst e) t \<and> BucketAddress (fst e) t < Suc k + left) \<and> act (snd e)) E1))"
        by blast+
      have cE: "count E1 e = count E e" if "BucketAddress (fst e) t \<noteq> k" for e
        using arg_cong [OF v(7), of "\<lambda>N. count N e"] that by simp
      have out: "filter_mset (\<lambda>e. (Suc k \<le> BucketAddress (fst e) t \<and> BucketAddress (fst e) t < Suc k + left) \<and> Q e) E1 =
          filter_mset (\<lambda>e. (Suc k \<le> BucketAddress (fst e) t \<and> BucketAddress (fst e) t < Suc k + left) \<and> Q e) E" for Q
        by (intro multiset_eqI) (auto simp: cE)
      have one: "E' = filter_mset (\<lambda>e. \<not> ((k \<le> BucketAddress (fst e) t \<and> BucketAddress (fst e) t < k + Suc left) \<and> del (snd e))) E"
        unfolding I(1) E1 L(1) b(3) by (intro multiset_eqI) auto
      have two: "filter_mset (\<lambda>e. (k \<le> BucketAddress (fst e) t \<and> BucketAddress (fst e) t < k + Suc left) \<and> Q e) E =
          filter_mset Q (mset xs) + filter_mset (\<lambda>e. (Suc k \<le> BucketAddress (fst e) t \<and> BucketAddress (fst e) t < Suc k + left) \<and> Q e) E" for Q
        unfolding b(3) by (intro multiset_eqI) auto
      have "seen st' = seen st + image_mset snd (filter_mset (\<lambda>e. k \<le> BucketAddress (fst e) t \<and> BucketAddress (fst e) t < k + Suc left) E)"
        using two [of "\<lambda>_. True"] out [of "\<lambda>_. True"] unfolding I(2) L(2) by simp
      moreover have "fst (snd st') = dword (fst (snd st) + size (filter_mset (\<lambda>e. (k \<le> BucketAddress (fst e) t \<and> BucketAddress (fst e) t < k + Suc left) \<and> act (snd e)) E))"
        unfolding I(3) L(3) two out size_union by (simp add: dword_def mod_add_left_eq add.assoc)
      ultimately show ?thesis unfolding Let_def using one by blast
    qed
    then show ?thesis unfolding core using False IH(1,2) walked_trans [OF w IH(3)] bucket_events_append [OF be IH(4)] by auto
  qed
qed

section \<open>DeleteIf, ApplyIf, Apply\<close>

lemma IsValid_shape: "shape t \<Longrightarrow> IsValid t = (True, t)"
proof -
  assume s: "shape t"
  obtain k where k: "m_cDirSegs t = 2 ^ k" using shapeD(12) [OF s] by blast
  have "m_cDirSegs t AND (m_cDirSegs t - 1) = 0" unfolding k and_mask by simp
  moreover have "0 < m_cActiveBuckets t" using shapeD(10) [OF s] by simp
  moreover obtain dir where "m_paDirSegs t = Some dir" using shape_dir [OF s] by blast
  ultimately show ?thesis unfolding IsValid_def Let_def using shapeD(1) [OF s] shape_bits(5,8) [OF s] by simp
qed

text \<open>The walk over all buckets under a table lock.\<close>

lemma table_walk:
  assumes "lkr_ok M t E" "(lk, uk) \<in> {(TableWriteLock, TableWriteUnlock), (TableReadLock, TableReadUnlock)}"
  shows "\<exists>st' t' w' E'. visit_table visit lkl 0 (m_cActiveBuckets t) st (trace [lk] t) w = Some (st', t', w') \<and>
    lkr_ok M (trace [uk] t') E' \<and> books (E, t, w) (E', trace [uk] t', w') \<and>
    (steady visit del act seen \<and> fst (snd st) < 2 ^ 32 \<longrightarrow> E' = filter_mset (\<lambda>e. \<not> del (snd e)) E \<and>
      seen st' = seen st + image_mset snd E \<and> fst (snd st') = dword (fst (snd st) + size (filter_mset (\<lambda>e. act (snd e)) E)))"
proof -
  have s: "shape t" using assms(1) by (simp add: lkr_ok_def rep_def)
  have p: "lkr_ok M (trace [lk] t) E" "0 + m_cActiveBuckets t \<le> m_cActiveBuckets (trace [lk] t)" using assms(1) by simp_all
  have here: "(\<lambda>e. 0 \<le> BucketAddress (fst e) (trace [lk] t) \<and> BucketAddress (fst e) (trace [lk] t) < 0 + m_cActiveBuckets t) = (\<lambda>_. True)"
    using BucketAddress_less [OF s] by auto
  obtain st' t' w' E' es where v: "visit_table visit lkl 0 (m_cActiveBuckets t) st (trace [lk] t) w = Some (st', t', w')" "lkr_ok M t' E'"
    "walked (E, trace [lk] t, w) es (E', t', w')" "bucket_events es"
    "steady visit del act seen \<and> fst (snd st) < 2 ^ 32 \<longrightarrow> E' = filter_mset (\<lambda>e. \<not> (True \<and> del (snd e))) E \<and>
      seen st' = seen st + image_mset snd (filter_mset (\<lambda>_. True) E) \<and> fst (snd st') = dword (fst (snd st) + size (filter_mset (\<lambda>e. True \<and> act (snd e)) E))"
    using visit_table_correct [OF p, of visit lkl st w del act seen, unfolded Let_def here] by blast
  have "books (E, t, w) (E', trace [uk] t', w')" by (rule walked_books [OF v(3,4)]) (use assms(2) in auto)
  then show ?thesis using v by auto
qed

text \<open>Predicates that never stop the walk: which records they select, and a log of their calls.\<close>

definition logging :: "('r option \<Rightarrow> lk_predicate) \<Rightarrow> 'r option \<Rightarrow> 'r multiset \<Rightarrow> lk_predicate \<times> 'r multiset" where
  "logging P pv s = (P pv, add_mset (the pv) s)"

lemma DeleteIf_steady:
  assumes "\<And>pv. P pv \<in> {LKP_NO_ACTION, LKP_PERFORM, LKP_DELETE}"
  shows "steady (DeleteIf_visit (logging P)) (\<lambda>r. P (Some r) \<noteq> LKP_NO_ACTION) (\<lambda>r. P (Some r) \<noteq> LKP_NO_ACTION) (\<lambda>st. snd (snd st))"
  unfolding steady_def
proof (intro allI)
  fix r and st :: "'a multiset walking"
  obtain a b c where "st = (a, b, c)" by (rule prod_cases3)
  then show "fst (DeleteIf_visit (logging P) (Some r) st) = (P (Some r) \<noteq> LKP_NO_ACTION, False) \<and>
     snd (snd (snd (DeleteIf_visit (logging P) (Some r) st))) = add_mset r (snd (snd st)) \<and>
     fst (snd (snd (DeleteIf_visit (logging P) (Some r) st))) = (if P (Some r) \<noteq> LKP_NO_ACTION then dword (fst (snd st) + 1) else fst (snd st))"
    using assms [of "Some r"] by (auto simp: DeleteIf_visit_def logging_def)
qed

lemma lkr_DeleteIf_correct:
  assumes "lkr_ok M t E"
  shows "\<exists>n s' t' w' E'. LinearHashTable_DeleteIf pfn s t w = Some (Some n, s', t', w') \<and> lkr_ok M t' E' \<and> books (E, t, w) (E', t', w') \<and>
    (steady (DeleteIf_visit pfn) del act (\<lambda>st. f (snd (snd st))) \<longrightarrow> E' = filter_mset (\<lambda>e. \<not> del (snd e)) E \<and>
      f s' = f s + image_mset snd E \<and> n = dword (size (filter_mset (\<lambda>e. act (snd e)) E)))"
proof -
  have s: "shape t" using assms by (simp add: lkr_ok_def rep_def)
  have v: "IsValid (trace [TableWriteLock] t) = (True, trace [TableWriteLock] t)" by (rule IsValid_shape) (use s in simp)
  from table_walk [OF assms, of TableWriteLock TableWriteUnlock "DeleteIf_visit pfn" LKL_WRITELOCK "(LKP_PERFORM, 0, s)" w del act "\<lambda>st. f (snd (snd st))"]
  show ?thesis using lkr_ok_usable [OF assms] by (auto simp: LinearHashTable_DeleteIf_def v)
qed

lemma lkr_Apply_correct:
  assumes "lkr_ok M t E"
  shows "\<exists>n s' t' w' E'. LinearHashTable_Apply pfn lkl s t w = Some (Some n, s', t', w') \<and> lkr_ok M t' E' \<and> books (E, t, w) (E', t', w') \<and>
    (steady (ApplyIf_visit (\<lambda>_ s. (LKP_PERFORM, s)) pfn lkl) del act (\<lambda>st. f (snd (snd st))) \<longrightarrow> E' = filter_mset (\<lambda>e. \<not> del (snd e)) E \<and>
      f s' = f s + image_mset snd E \<and> n = dword (size (filter_mset (\<lambda>e. act (snd e)) E)))"
  using lkr_ok_usable [OF assms]
    table_walk [OF assms, of TableWriteLock TableWriteUnlock "ApplyIf_visit (\<lambda>_ s. (LKP_PERFORM, s)) pfn lkl" lkl "(LKP_PERFORM, 0, s)" w del act "\<lambda>st. f (snd (snd st))"]
    table_walk [OF assms, of TableReadLock TableReadUnlock "ApplyIf_visit (\<lambda>_ s. (LKP_PERFORM, s)) pfn lkl" lkl "(LKP_PERFORM, 0, s)" w del act "\<lambda>st. f (snd (snd st))"]
  by (cases "lkl = LKL_WRITELOCK") (auto simp: LinearHashTable_Apply_def)

lemma ApplyIf_correct:
  assumes "lkr_ok M t E"
  shows "\<exists>n s' t' w' E'. LinearHashTable_ApplyIf pfn act lkl s t w = Some (Some n, s', t', w') \<and> lkr_ok M t' E' \<and> books (E, t, w) (E', t', w')"
proof -
  have s: "shape t" using assms by (simp add: lkr_ok_def rep_def)
  have v: "IsValid (trace es t) = (True, trace es t)" for es by (rule IsValid_shape) (use s in simp)
  show ?thesis using lkr_ok_usable [OF assms]
      table_walk [OF assms, of TableWriteLock TableWriteUnlock "ApplyIf_visit pfn act lkl" lkl "(LKP_PERFORM, 0, s)" w "\<lambda>_. False" "\<lambda>_. False" "\<lambda>_. {#}"]
      table_walk [OF assms, of TableReadLock TableReadUnlock "ApplyIf_visit pfn act lkl" lkl "(LKP_PERFORM, 0, s)" w "\<lambda>_. False" "\<lambda>_. False" "\<lambda>_. {#}"]
    by (cases "lkl = LKL_WRITELOCK") (auto simp: LinearHashTable_ApplyIf_def v)
qed

end
