(* ===== verification/LkrClear.thy ===== *)
theory LkrClear
  imports LkrWalk
begin

text \<open>
  Clear and the destructor release every record and give back every block of the table; CheckTable finds no
  error in a table that satisfies the invariant.
\<close>

section \<open>Clearing a chain\<close>

lemma four_cases:
  assumes "length xs \<le> 4"
  obtains "xs = []" | a where "xs = [a]" | a b where "xs = [a, b]" | a b c where "xs = [a, b, c]" | a b c d where "xs = [a, b, c, d]"
proof (cases xs)
  case (Cons a ys)
  show thesis
  proof (cases ys)
    case (Cons b zs)
    show thesis
    proof (cases zs)
      case (Cons c us)
      show thesis using assms \<open>xs = a # ys\<close> \<open>ys = b # zs\<close> Cons that(4,5) by (cases us) auto
    qed (use \<open>xs = a # ys\<close> Cons that(3) in simp)
  qed (use Cons that(2) in simp)
qed (use that(1) in simp)

lemma clear_slots_clump:
  assumes "wf_clump c" "zip (m_dwKeySigs c) (m_pvNode c) = map used es @ replicate (4 - length es) blank"
    "\<forall>e\<in>set es. fst e \<noteq> HASH_INVALID_SIGNATURE" "length es \<le> 4"
  shows "clear_slots c [0..<NODES_PER_CLUMP] = (clump_Clear, map (\<lambda>e. Some (snd e)) es)"
proof -
  obtain a1 a2 a3 a4 p1 p2 p3 p4 where c: "c = \<lparr>m_dwKeySigs = [a1, a2, a3, a4], m_pvNode = [p1, p2, p3, p4]\<rparr>"
    using wf_clump_cases [OF assms(1)] by blast
  have up: "[0..<NODES_PER_CLUMP] = [0, 1, 2, 3]" by (simp add: NODES_PER_CLUMP_def upt_rec)
  have cl: "clump_Clear = \<lparr>m_dwKeySigs = [HASH_INVALID_SIGNATURE, HASH_INVALID_SIGNATURE, HASH_INVALID_SIGNATURE, HASH_INVALID_SIGNATURE],
      m_pvNode = [None, None, None, None]\<rparr>" by (simp add: clump_Clear_def NODES_PER_CLUMP_def numeral_eq_Suc)
  from assms(4) show ?thesis
    by (cases rule: four_cases)
      (use assms(2,3) in \<open>auto simp: up c cl used_def IsEmptySlot_def InvalidSignature_def numeral_eq_Suc\<close>)
qed

definition releases :: "'r entry list \<Rightarrow> 'r event list" where
  "releases xs = map (\<lambda>e. AddRefRecord (Some (snd e)) (- 1)) xs"

lemma releases_simps [simp]: "releases [] = []" "releases (xs @ ys) = releases xs @ releases ys" "ref_events (releases xs)"
  "net_refs (releases xs) r = - int (count (image_mset snd (mset xs)) r)"
proof -
  show "releases [] = []" "releases (xs @ ys) = releases xs @ releases ys" by (simp_all add: releases_def)
  show "ref_events (releases xs)"
  proof (induction xs)
    case (Cons x xs)
    then show ?case by (simp add: releases_def ref_events_def)
  qed (simp add: releases_def)
  show "net_refs (releases xs) r = - int (count (image_mset snd (mset xs)) r)"
    by (induction xs) (simp_all add: releases_def del: count_image_mset)
qed

lemma dword_sub_diff:
  assumes "k \<le> n"
  shows "dword_sub (dword n) (dword k) = dword (n - k)"
proof -
  have "(dword n + 4294967296 - dword k) mod 4294967296 = (n - k) mod 4294967296"
  proof -
    have "int ((dword n + 4294967296 - dword k) mod 4294967296) = (int n mod 4294967296 + 4294967296 - int k mod 4294967296) mod 4294967296"
    proof -
      have "dword k \<le> dword n + 4294967296" by (simp add: dword_def le_SucI trans_le_add2)
      then show ?thesis by (simp add: dword_def of_nat_diff zmod_int)
    qed
    also have "\<dots> = ((int n mod 4294967296 - int k mod 4294967296) + 4294967296) mod 4294967296" by (simp only: diff_add_eq)
    also have "\<dots> = (int n - int k) mod 4294967296" by (simp only: mod_add_self2 mod_diff_eq)
    also have "\<dots> = int ((n - k) mod 4294967296)" using assms by (simp add: of_nat_diff zmod_int)
    finally show ?thesis by (simp only: of_nat_eq_iff)
  qed
  then show ?thesis by (simp add: dword_sub_def dword_def)
qed

lemma clear_clumps_correct:
  assumes "pending zs cs" "m_cRecords t = dword n" "length zs \<le> n"
  shows "clear_clumps cs t w = ((trace (releases zs) t)\<lparr>m_cRecords := dword (n - length zs)\<rparr>, (HeapFree ^^ length cs) w)"
  using assms
proof (induction cs arbitrary: zs t w n)
  case Nil
  then show ?case by (simp add: trace_def)
next
  case (Cons c cs)
  note P = pending_Cons [OF Cons.prems(1)]
  have ok: "\<forall>e\<in>set (take 4 zs). fst e \<noteq> HASH_INVALID_SIGNATURE" using Cons.prems(1) by (auto simp: pending_def dest: in_set_takeD)
  have cl: "clear_slots c [0..<NODES_PER_CLUMP] = (clump_Clear, map (\<lambda>e. Some (snd e)) (take 4 zs))"
  proof (rule clear_slots_clump [OF P(1) _ ok])
    have "4 - length (take 4 zs) = 4 - length zs" by simp
    then show "zip (m_dwKeySigs c) (m_pvNode c) = map used (take 4 zs) @ replicate (4 - length (take 4 zs)) blank" using P(2) by simp
  qed simp
  let ?k = "min 4 (length zs)"
  let ?t = "(trace (releases (take 4 zs)) t)\<lparr>m_cRecords := dword (n - ?k)\<rparr>"
  have k: "?k \<le> n" "length (drop 4 zs) \<le> n - ?k" using Cons.prems(3) by auto
  have sub: "dword_sub (m_cRecords t) (dword (length (take 4 zs))) = dword (n - ?k)"
    unfolding Cons.prems(2) using dword_sub_diff [OF k(1)] by (simp add: min.commute)
  have "clear_clumps (c # cs) t w = clear_clumps cs ?t (HeapFree w)"
    using sub by (simp add: cl releases_def comp_def del: length_take)
  also have "\<dots> = ((trace (releases (drop 4 zs)) ?t)\<lparr>m_cRecords := dword (n - ?k - length (drop 4 zs))\<rparr>, (HeapFree ^^ length cs) (HeapFree w))"
    by (rule Cons.IH [OF P(3) _ k(2)]) simp
  also have "n - ?k - length (drop 4 zs) = n - length zs" by auto
  also have "(trace (releases (drop 4 zs)) ?t)\<lparr>m_cRecords := dword (n - length zs)\<rparr> = (trace (releases zs) t)\<lparr>m_cRecords := dword (n - length zs)\<rparr>"
    using releases_simps(2) [of "take 4 zs" "drop 4 zs"] by (simp add: trace_def)
  finally show ?case by (simp add: funpow_swap1)
qed

section \<open>Clearing the buckets\<close>

lemma chain_head:
  assumes "chain_of xs ch"
  obtains c cs where "ch = c # cs" "clear_slots c [0..<NODES_PER_CLUMP] = (clump_Clear, map (\<lambda>e. Some (snd e)) (take 4 xs))"
    "pending (drop 4 xs) cs"
proof -
  obtain c cs where c: "ch = c # cs" using chain_of_ne [OF assms] by (cases ch) auto
  note P = pending_Cons [OF chain_of_pending [OF assms, unfolded c]]
  have "4 - length (take 4 xs) = 4 - length xs" by simp
  then have "zip (m_dwKeySigs c) (m_pvNode c) = map used (take 4 xs) @ replicate (4 - length (take 4 xs)) blank" using P(2) by simp
  moreover have "\<forall>e\<in>set (take 4 xs). fst e \<noteq> HASH_INVALID_SIGNATURE" using assms by (auto simp: chain_of_def dest: in_set_takeD)
  ultimately show thesis using that [OF c _ P(3)] clear_slots_clump [OF P(1)] by simp
qed

text \<open>One bucket.\<close>

definition clear_bucket :: "nat \<Rightarrow> 'r lkr \<Rightarrow> world \<Rightarrow> ('r lkr \<times> world) option" where
  "clear_bucket k t w = clear_buckets k 1 t w"

lemma clear_buckets_Suc: "clear_buckets k (Suc left) t w = do { (t1, w1) \<leftarrow> clear_bucket k t w; clear_buckets (k + 1) left t1 w1 }"
  by (auto simp: clear_bucket_def split: prod.splits bind_splits)

lemma clear_bucket_correct:
  assumes "lkr_ok M t E" "k < m_cActiveBuckets t"
  shows "\<exists>t' w' es. clear_bucket k t w = Some (t', w') \<and> lkr_ok M t' (filter_mset (\<lambda>e. BucketAddress (fst e) t \<noteq> k) E) \<and>
    walked (E, t, w) es (filter_mset (\<lambda>e. BucketAddress (fst e) t \<noteq> k) E, t', w') \<and> bucket_events es \<and> m_lkts t' = m_lkts t"
proof -
  let ?E = "filter_mset (\<lambda>e. BucketAddress (fst e) t \<noteq> k) E"
  have ok: "rep t E" "keyed M E" "m_cRecords t = dword (size E)" using assms(1) by (simp_all add: lkr_ok_def)
  have sh: "shape t" by (rule rep_shape [OF ok(1)])
  obtain ch xs where b: "Bucket k t = Some ch" "chain_of xs ch" "mset xs = filter_mset (\<lambda>e. BucketAddress (fst e) t = k) E"
    using ok(1) assms(2) unfolding rep_def bucket_rep_def by blast
  obtain c cs where c: "ch = c # cs" "clear_slots c [0..<NODES_PER_CLUMP] = (clump_Clear, map (\<lambda>e. Some (snd e)) (take 4 xs))"
    "pending (drop 4 xs) cs" by (rule chain_head [OF b(2)])
  have E: "E = mset xs + ?E" unfolding b(3) by (rule multiset_partition)
  then have n: "size E = length xs + size ?E" by (metis size_mset size_union)
  let ?u = "trace (BucketWriteLock k # releases (take 4 xs)) t"
  have "\<exists>dir. put_Bucket k [clump_Clear] ?u = Some (?u\<lparr>m_paDirSegs := Some dir\<rparr>) \<and> rep (?u\<lparr>m_paDirSegs := Some dir\<rparr>) ?E \<and>
      (\<forall>b. Bucket b (?u\<lparr>m_paDirSegs := Some dir\<rparr>) = (if b = k then Some [clump_Clear] else Bucket b ?u))"
    by (rule put_Bucket_rep [where xs = "[]" and E = E])
      (use ok(1) assms(2) in \<open>auto simp: filter_filter_mset filter_mset_False [symmetric] simp del: filter_mset_False intro!: filter_mset_cong0\<close>)
  then obtain dir where d: "put_Bucket k [clump_Clear] ?u = Some (?u\<lparr>m_paDirSegs := Some dir\<rparr>)" "rep (?u\<lparr>m_paDirSegs := Some dir\<rparr>) ?E"
    "\<forall>b. Bucket b (?u\<lparr>m_paDirSegs := Some dir\<rparr>) = (if b = k then Some [clump_Clear] else Bucket b t)" by auto
  let ?v = "?u\<lparr>m_paDirSegs := Some dir\<rparr>" and ?n = "size E - length (take 4 xs)"
  have sub: "dword_sub (m_cRecords ?v) (dword (length (take 4 xs))) = dword ?n"
    using dword_sub_diff [of "length (take 4 xs)" "size E"] n ok(3) by simp
  have le: "length (drop 4 xs) \<le> ?n" "?n - length (drop 4 xs) = size ?E" using n by simp_all
  let ?t' = "trace [BucketWriteUnlock k] ((trace (releases (drop 4 xs)) (?v\<lparr>m_cRecords := dword ?n\<rparr>))\<lparr>m_cRecords := dword (size ?E)\<rparr>)"
  have cc: "clear_clumps cs (?v\<lparr>m_cRecords := dword ?n\<rparr>) w =
      ((trace (releases (drop 4 xs)) (?v\<lparr>m_cRecords := dword ?n\<rparr>))\<lparr>m_cRecords := dword (size ?E)\<rparr>, (HeapFree ^^ length cs) w)"
    using clear_clumps_correct [OF c(3) _ le(1), of "?v\<lparr>m_cRecords := dword ?n\<rparr>" w] le(2) by simp
  have rel: "map (\<lambda>pv. AddRefRecord pv (- 1)) (map (\<lambda>e. Some (snd e)) (take 4 xs)) = releases (take 4 xs)" by (simp add: releases_def)
  have res: "clear_bucket k t w = Some (?t', (HeapFree ^^ length cs) w)"
    unfolding clear_bucket_def One_nat_def clear_buckets.simps b(1) Option.bind.simps c(1) Let_def
    by (simp only: mem_get_def list.size add_Suc_right zero_less_Suc if_True nth_Cons_0 Option.bind.simps c(2) prod.case rel d(1) length_map sub list.sel cc)
  let ?es = "lock_bucket LKL_WRITELOCK k # releases xs @ [unlock_bucket LKL_WRITELOCK k]"
  have lkr: "lkr_ok M ?t' ?E" using d(2) keyed_subset [OF ok(2), of ?E] by (simp add: lkr_ok_def)
  have bl: "int (table_blocks ?v) = int (table_blocks t) - int (length cs)"
    using put_Bucket_blocks [OF _ _ d(1), of ch] sh b(1) c(1) by simp
  have tg: "tight ?v = tight t" by (rule tight_cong) (use d(3) assms(2) in auto)
  have ev: "events ?t' = events t @ ?es" using releases_simps(2) [of "take 4 xs" "drop 4 xs"] by (simp add: lock_bucket_def unlock_bucket_def)
  have net: "net_refs ?es r = int (count (image_mset snd ?E) r) - int (count (image_mset snd E) r)" for r
    by (subst (2) E) (simp add: lock_bucket_def unlock_bucket_def del: count_image_mset)
  have "walked (E, t, w) ?es (?E, ?t', (HeapFree ^^ length cs) w)"
    unfolding walked_def prod.case using ev net bl tg by simp
  moreover have "m_lkts ?t' = m_lkts t" by simp
  ultimately show ?thesis using res lkr bucket_events_locked [OF releases_simps(3)] by blast
qed

lemma clear_buckets_correct:
  assumes "lkr_ok M t E" "k + left \<le> m_cActiveBuckets t"
  shows "\<exists>t' w' es. clear_buckets k left t w = Some (t', w') \<and>
    lkr_ok M t' (filter_mset (\<lambda>e. \<not> (k \<le> BucketAddress (fst e) t \<and> BucketAddress (fst e) t < k + left)) E) \<and>
    walked (E, t, w) es (filter_mset (\<lambda>e. \<not> (k \<le> BucketAddress (fst e) t \<and> BucketAddress (fst e) t < k + left)) E, t', w') \<and>
    bucket_events es \<and> m_lkts t' = m_lkts t"
  using assms
proof (induction left arbitrary: k t w E)
  case 0
  have "filter_mset (\<lambda>e. \<not> (k \<le> BucketAddress (fst e) t \<and> BucketAddress (fst e) t < k)) E = E" by (auto simp: filter_mset_eq_conv)
  then show ?case using 0 by (auto intro!: exI [of _ "[]"])
next
  case (Suc left)
  let ?E1 = "filter_mset (\<lambda>e. BucketAddress (fst e) t \<noteq> k) E"
  have k: "k < m_cActiveBuckets t" using Suc.prems(2) by simp
  obtain t1 w1 es where one: "clear_bucket k t w = Some (t1, w1)" "lkr_ok M t1 ?E1" "walked (E, t, w) es (?E1, t1, w1)"
    "bucket_events es" "m_lkts t1 = m_lkts t" using clear_bucket_correct [OF Suc.prems(1) k, of w] by blast
  have a: "m_cActiveBuckets t1 = m_cActiveBuckets t" "\<forall>s. BucketAddress s t1 = BucketAddress s t" using one(3) by (simp_all add: walked_def)
  then have "k + 1 + left \<le> m_cActiveBuckets t1" using Suc.prems(2) by simp
  from Suc.IH [OF one(2) this, of w1] obtain t' w' fs where
    r: "clear_buckets (k + 1) left t1 w1 = Some (t', w')"
      "lkr_ok M t' (filter_mset (\<lambda>e. \<not> (k + 1 \<le> BucketAddress (fst e) t \<and> BucketAddress (fst e) t < k + 1 + left)) ?E1)"
      "walked (?E1, t1, w1) fs (filter_mset (\<lambda>e. \<not> (k + 1 \<le> BucketAddress (fst e) t \<and> BucketAddress (fst e) t < k + 1 + left)) ?E1, t', w')"
      "bucket_events fs" "m_lkts t' = m_lkts t1" unfolding a(2) [rule_format] by blast
  have eq: "filter_mset (\<lambda>e. \<not> (k + 1 \<le> BucketAddress (fst e) t \<and> BucketAddress (fst e) t < k + 1 + left)) ?E1 =
      filter_mset (\<lambda>e. \<not> (k \<le> BucketAddress (fst e) t \<and> BucketAddress (fst e) t < k + Suc left)) E"
    unfolding filter_filter_mset by (rule filter_mset_cong0) auto
  have "clear_buckets k (Suc left) t w = Some (t', w')" using one(1) r(1) by (simp only: clear_buckets_Suc) simp
  then show ?case using r(2-5) walked_trans [OF one(3) r(3)] bucket_events_append [OF one(4) r(4)] one(5) unfolding eq by auto
qed

lemma clear_all_buckets:
  assumes "lkr_ok M t E"
  shows "\<exists>t' w' es. clear_buckets 0 (m_cActiveBuckets t) t w = Some (t', w') \<and> lkr_ok M t' {#} \<and> walked (E, t, w) es ({#}, t', w') \<and>
    bucket_events es \<and> m_lkts t' = m_lkts t"
proof -
  have "shape t" using assms rep_shape unfolding lkr_ok_def by blast
  then have "filter_mset (\<lambda>e. \<not> (0 \<le> BucketAddress (fst e) t \<and> BucketAddress (fst e) t < 0 + m_cActiveBuckets t)) E = {#}"
    by (simp add: BucketAddress_less)
  note E = this
  show ?thesis using clear_buckets_correct [OF assms, of 0 "m_cActiveBuckets t" w] unfolding E by simp
qed

section \<open>Freeing the segments\<close>

text \<open>The number of segments a directory points to.\<close>

definition segments :: "'r bucket list option list \<Rightarrow> nat" where
  "segments dir = length (filter (\<lambda>pseg. pseg \<noteq> None) dir)"

lemma segments_clear:
  "i < length dir \<Longrightarrow> segments dir = segments (dir[i := None]) + of_bool (dir ! i \<noteq> None)"
proof (induction dir arbitrary: i)
  case (Cons p dir)
  then show ?case by (cases i) (auto simp: segments_def)
qed simp

lemma FreeSegment_live: "heap_live (FreeSegment pseg w) = heap_live w - of_bool (pseg \<noteq> None)" "same_heap (FreeSegment pseg w) w"
  by (simp_all add: FreeSegment_def)

lemma clear_segments_correct:
  assumes "m_paDirSegs t = Some dir" "k + left \<le> length dir" "m_dwSegSize t = 2 ^ m_dwSegBits t"
  shows "\<exists>dir' w'. clear_segments k left t w = Some (t\<lparr>m_paDirSegs := Some dir'\<rparr>, w') \<and>
    heap_live w' - heap_live w = int (segments dir') - int (segments dir) \<and> same_heap w' w"
  using assms
proof (induction left arbitrary: k t w dir)
  case 0
  then show ?case by (auto intro!: exI [of _ dir])
next
  case (Suc left)
  have i: "iSeg (k * m_dwSegSize t) t = k" "k < length dir" using Suc.prems(2,3) by (simp_all add: iSeg_def drop_bit_eq_div)
  let ?t = "t\<lparr>m_paDirSegs := Some (dir[k := None])\<rparr>"
  have "k + 1 + left \<le> length (dir[k := None])" using Suc.prems(2) by simp
  from Suc.IH [of ?t "dir[k := None]" "k + 1" "FreeSegment (dir ! k) w", OF _ this] Suc.prems(3) obtain dir' w' where
    r: "clear_segments (k + 1) left ?t (FreeSegment (dir ! k) w) = Some (?t\<lparr>m_paDirSegs := Some dir'\<rparr>, w')"
      "heap_live w' - heap_live (FreeSegment (dir ! k) w) = int (segments dir') - int (segments (dir[k := None]))"
      "same_heap w' (FreeSegment (dir ! k) w)" by auto
  have "clear_segments k (Suc left) t w = Some (t\<lparr>m_paDirSegs := Some dir'\<rparr>, w')"
    using i r(1) Suc.prems(1) by (simp add: Segment_def put_Segment_def mem_get_def mem_put_def)
  moreover have "heap_live w' - heap_live w = int (segments dir') - int (segments dir)"
    using r(2) segments_clear [OF i(2)] by (auto simp: FreeSegment_live)
  ultimately show ?case using r(3) by (auto simp: FreeSegment_live)
qed

lemma FreeSegmentDirectory_live:
  assumes "m_paDirSegs t = Some dir" "FreeSegmentDirectory t w = (t', w')"
  shows "t' = t\<lparr>m_paDirSegs := None, m_cDirSegs := 0\<rparr>" "heap_live w' = heap_live w - int (segments dir) - 1" "same_heap w' w"
  using assms by (auto simp: FreeSegmentDirectory_def segments_def)

text \<open>The blocks of a table without records: the directory and its segments.\<close>

lemma empty_blocks:
  assumes "rep t {#}" "m_paDirSegs t = Some dir"
  shows "table_blocks t = 1 + segments dir"
proof -
  have sh: "shape t" by (rule rep_shape [OF assms(1)])
  have S: "0 < m_dwSegSize t" using shape_bits(6) [OF sh] by simp
  have ls: "\<And>seg. Some seg \<in> set dir \<Longrightarrow> length seg = m_dwSegSize t" using shapeD(13) [OF sh] assms(2) by auto
  have one: "seg_blocks pseg = of_bool (pseg \<noteq> None)" if mem: "pseg \<in> set dir" for pseg
  proof (cases pseg)
    case (Some seg)
    obtain i where i: "i < length dir" "dir ! i = Some seg" using mem Some by (auto simp: in_set_conv_nth)
    have "length (seg ! j) = 1" if "j < m_dwSegSize t" for j
    proof -
      let ?b = "m_dwSegSize t * i + j"
      have b: "?b div m_dwSegSize t = i" "?b mod m_dwSegSize t = j" using that S by simp_all
      then have B: "Bucket ?b t = Some (seg ! j)" using i by (simp add: Bucket_shape [OF sh assms(2)])
      have "chain_of [] (seg ! j)"
      proof (cases "?b < m_cActiveBuckets t")
        case True
        then show ?thesis using assms(1) B unfolding rep_def bucket_rep_def by fastforce
      next
        case False
        then show ?thesis using assms(1) B unfolding rep_def by (metis not_less)
      qed
      then show ?thesis by (simp add: chain_of_Nil_iff)
    qed
    then have "\<forall>ch\<in>set seg. length ch - 1 = 0" using ls [of seg] mem Some by (auto simp: in_set_conv_nth)
    then show ?thesis using Some by (simp add: seg_blocks_def sum_list_0 cong: map_cong)
  qed (simp add: seg_blocks_def)
  then have "sum_list (map seg_blocks dir) = sum_list (map (\<lambda>pseg. of_bool (pseg \<noteq> None)) dir)" by (simp cong: map_cong)
  also have "\<dots> = segments dir" unfolding segments_def by (induction dir) simp_all
  finally show ?thesis using assms(2) by (simp add: table_blocks_def)
qed

section \<open>Clear and the destructor\<close>

lemma lkr_sizes_init: "lkts = 1 \<or> lkts = 2 \<or> lkts = 3 \<Longrightarrow> 2 ^ seg_bits lkts \<le> init_size lkts \<and> init_size lkts < 2 ^ 23"
  by (auto simp: lkr_sizes seg_bits_def init_size_def)

text \<open>The common part: everything is released, given back, and the table has no directory.\<close>

lemma lkr_Clear_strip:
  assumes "lkr_ok M t E"
  obtains t1 w1 t2 w2 t3 w3 es where "clear_buckets 0 (m_cActiveBuckets t) t w = Some (t1, w1)"
    "clear_segments 0 ((m_cActiveBuckets t1 + m_dwSegSize t1 - 1) div m_dwSegSize t1) t1 w1 = Some (t2, w2)"
    "FreeSegmentDirectory t2 w2 = (t3, w3)" "m_paDirSegs t3 = None" "m_lkts t3 = m_lkts t" "m_cRecords t3 = 0" "m_MaxLoad t3 = m_MaxLoad t"
    "events t3 = events t @ es" "bucket_events es" "\<forall>r. net_refs es r = - int (count (image_mset snd E) r)"
    "heap_live w3 = heap_live w - int (table_blocks t)" "same_heap w3 w"
proof -
  obtain t1 w1 es where a: "clear_buckets 0 (m_cActiveBuckets t) t w = Some (t1, w1)" "lkr_ok M t1 {#}" "walked (E, t, w) es ({#}, t1, w1)"
    "bucket_events es" "m_lkts t1 = m_lkts t" using clear_all_buckets [OF assms, of w] by blast
  have r: "rep t1 {#}" "m_cRecords t1 = 0" using a(2) by (simp_all add: lkr_ok_def dword_def)
  have sh: "shape t1" by (rule rep_shape [OF r(1)])
  obtain dir where dir: "m_paDirSegs t1 = Some dir" "dir_ok t1 dir" using shape_dir [OF sh] by blast
  have S: "0 < m_dwSegSize t1" using shape_bits(6) [OF sh] by simp
  have "m_cActiveBuckets t1 + m_dwSegSize t1 - 1 < Suc (length dir) * m_dwSegSize t1"
    using shapeD(11) [OF sh] dir(2) S by (simp add: dir_ok_def)
  then have k: "0 + (m_cActiveBuckets t1 + m_dwSegSize t1 - 1) div m_dwSegSize t1 \<le> length dir"
    using S by (metis add_0 div_less_iff_less_mult less_Suc_eq_le)
  obtain dir' w2 where b: "clear_segments 0 ((m_cActiveBuckets t1 + m_dwSegSize t1 - 1) div m_dwSegSize t1) t1 w1 =
      Some (t1\<lparr>m_paDirSegs := Some dir'\<rparr>, w2)" "heap_live w2 - heap_live w1 = int (segments dir') - int (segments dir)" "same_heap w2 w1"
    using clear_segments_correct [OF dir(1) k shapeD(4) [OF sh], of w1] by blast
  obtain t3 w3 where c: "FreeSegmentDirectory (t1\<lparr>m_paDirSegs := Some dir'\<rparr>) w2 = (t3, w3)" by fastforce
  note d = FreeSegmentDirectory_live [OF _ c, of dir', simplified]
  show thesis
    by (rule that [OF a(1) b(1) c _ _ _ _ _ a(4)])
      (use d r(2) a(3,5) b(2,3) empty_blocks [OF r(1) dir(1)] in \<open>auto simp: walked_def simp del: count_image_mset\<close>)
qed

text \<open>\<open>Clear\<close> ends with a table as the constructor makes it, or, when the heap refused a request, with one that is not usable.\<close>

definition cleared :: "('r, 'k) methods \<Rightarrow> 'r lkr \<Rightarrow> world \<Rightarrow> 'r lkr \<Rightarrow> world \<Rightarrow> bool" where
  "cleared M t w t' w' \<longleftrightarrow> heap_live w' - heap_live w = int (table_blocks t') - int (table_blocks t) \<and> same_heap w' w \<and>
     m_cRecords t' = 0 \<and> m_MaxLoad t' = m_MaxLoad t \<and>
     (lkr_ok M t' {#} \<and> tight t' \<and> m_cActiveBuckets t' = init_size (m_lkts t) \<or> \<not> generous w \<and> \<not> IsUsable t' \<and> m_paDirSegs t' = None)"

text \<open>Every reference is released and the locks are those before.\<close>

definition released :: "'r entry multiset \<Rightarrow> 'r lkr \<Rightarrow> 'r lkr \<Rightarrow> bool" where
  "released E t t' \<longleftrightarrow> (\<exists>es. events t' = events t @ es \<and> locks_run es no_locks = Some no_locks \<and>
     (\<forall>r. net_refs es r = - int (count (image_mset snd E) r)))"

lemma releasedI:
  assumes "events t' = events t @ TableWriteLock # es @ [TableWriteUnlock]" "bucket_events es"
    "\<forall>r. net_refs es r = - int (count (image_mset snd E) r)"
  shows "released E t t'"
  unfolding released_def using assms
  by (intro exI [of _ "TableWriteLock # es @ [TableWriteUnlock]"])
    (auto simp: bucket_events_def locks_run_append no_locks_def simp del: count_image_mset)

lemma IsUsable_shape: "shape t \<Longrightarrow> IsUsable t"
  by (simp add: IsUsable_def shapeD(1))

lemma lkr_Clear_correct:
  assumes "lkr_ok M t E" "m_cRecords t \<noteq> 0" "directories w"
  shows "\<exists>t' w'. LinearHashTable_Clear t w = Some (t', w') \<and> cleared M t w t' w' \<and> released E t t'"
proof -
  let ?t = "trace [TableWriteLock] t"
  have sh: "shape t" using assms(1) rep_shape unfolding lkr_ok_def by blast
  have us: "IsUsable ?t" using sh by (simp add: IsUsable_shape)
  have ok: "lkr_ok M ?t E" using assms(1) by simp
  obtain t1 w1 t2 w2 t3 w3 es where s: "clear_buckets 0 (m_cActiveBuckets ?t) ?t w = Some (t1, w1)"
    "clear_segments 0 ((m_cActiveBuckets t1 + m_dwSegSize t1 - 1) div m_dwSegSize t1) t1 w1 = Some (t2, w2)"
    "FreeSegmentDirectory t2 w2 = (t3, w3)" "m_paDirSegs t3 = None" "m_lkts t3 = m_lkts ?t" "m_cRecords t3 = 0" "m_MaxLoad t3 = m_MaxLoad ?t"
    "events t3 = events ?t @ es" "bucket_events es" "\<forall>r. net_refs es r = - int (count (image_mset snd E) r)"
    "heap_live w3 = heap_live w - int (table_blocks ?t)" "same_heap w3 w" by (rule lkr_Clear_strip [OF ok, of w])
  let ?t4 = "t3\<lparr>m_nLevel := 0, m_cActiveBuckets := 0, m_iExpansionIdx := 0, m_dwBktAddrMask0 := 1, m_dwBktAddrMask1 := 3\<rparr>"
  note lk = shapeD(2) [OF sh]
  obtain rc t5 w4 where v: "SetSegVars (m_lkts t) (init_size (m_lkts t)) ?t4 w3 = Some (rc, t5, w4)" "fresh (init_size (m_lkts t)) ?t4 w3 rc t5 w4"
    using SetSegVars_cases(1) [OF lk refl _ _ init_size_roomy [OF lk], of w3 ?t4] lkr_sizes_init [OF lk] s(12) assms(3) by blast
  have "lkr_Clear True ?t w = Some (t5, w4)" using us assms(2) s(1-3,5) v(1) by (simp add: lkr_Clear_def)
  then have "LinearHashTable_Clear t w = Some (trace [TableWriteUnlock] t5, w4)" by (simp add: LinearHashTable_Clear_def)
  moreover have "cleared M t w (trace [TableWriteUnlock] t5) w4"
    using v(2) s(6,7,11,12) fresh_lkr_ok [of "init_size (m_lkts t)" ?t4 w3 t5 w4 M]
    by (auto simp: cleared_def fresh_def table_blocks_def IsUsable_def)
  moreover have "released E t (trace [TableWriteUnlock] t5)"
    by (rule releasedI [OF _ s(9,10)]) (use v(2) s(8) in \<open>simp add: fresh_def\<close>)
  ultimately show ?thesis by blast
qed

lemma lkr_Clear_empty:
  "m_cRecords t = 0 \<Longrightarrow> LinearHashTable_Clear t w = Some (trace [TableWriteLock, TableWriteUnlock] t, w)"
  by (simp add: LinearHashTable_Clear_def lkr_Clear_def)

lemma lkr_dtor_correct:
  assumes "lkr_ok M t E"
  shows "\<exists>t' w'. LinearHashTable_dtor t w = Some (t', w') \<and> m_paDirSegs t' = None \<and> \<not> IsUsable t' \<and>
    heap_live w' = heap_live w - int (table_blocks t) \<and> released E t t'"
proof -
  let ?t = "trace [TableWriteLock] t"
  have sh: "shape t" using assms(1) rep_shape unfolding lkr_ok_def by blast
  have us: "IsUsable ?t" using sh by (simp add: IsUsable_shape)
  have ok: "lkr_ok M ?t E" using assms(1) by simp
  obtain t1 w1 t2 w2 t3 w3 es where s: "clear_buckets 0 (m_cActiveBuckets ?t) ?t w = Some (t1, w1)"
    "clear_segments 0 ((m_cActiveBuckets t1 + m_dwSegSize t1 - 1) div m_dwSegSize t1) t1 w1 = Some (t2, w2)"
    "FreeSegmentDirectory t2 w2 = (t3, w3)" "m_paDirSegs t3 = None" "m_lkts t3 = m_lkts ?t" "m_cRecords t3 = 0" "m_MaxLoad t3 = m_MaxLoad ?t"
    "events t3 = events ?t @ es" "bucket_events es" "\<forall>r. net_refs es r = - int (count (image_mset snd E) r)"
    "heap_live w3 = heap_live w - int (table_blocks ?t)" "same_heap w3 w" by (rule lkr_Clear_strip [OF ok, of w])
  let ?t4 = "t3\<lparr>m_nLevel := 0, m_cActiveBuckets := 0, m_iExpansionIdx := 0, m_dwBktAddrMask0 := 1, m_dwBktAddrMask1 := 3\<rparr>"
  let ?t' = "(trace [TableWriteUnlock] ?t4)\<lparr>m_lkrcState := LK_UNUSABLE\<rparr>"
  have "LinearHashTable_dtor t w = Some (?t', w3)" using us s(1-3) by (simp add: lkr_Clear_def LinearHashTable_dtor_def)
  moreover have "released E t ?t'" by (rule releasedI [OF _ s(9,10)]) (use s(8) in simp)
  moreover have "m_paDirSegs ?t' = None" using s(4) by simp
  moreover have "\<not> IsUsable ?t'" by (simp add: IsUsable_def)
  ultimately show ?thesis using s(11) by auto
qed

section \<open>CheckTable\<close>

text \<open>The entries that bucket \<open>i\<close> may hold.\<close>

definition placed :: "('r, 'k) methods \<Rightarrow> 'r lkr \<Rightarrow> nat \<Rightarrow> 'r entry list \<Rightarrow> bool" where
  "placed M t i xs \<longleftrightarrow> (\<forall>e\<in>set xs. fst e = rec_sig M (snd e) \<and> BucketAddress (fst e) t = i)"

lemma check_slots_clump:
  assumes "wf_clump c" "zip (m_dwKeySigs c) (m_pvNode c) = map used es @ replicate (4 - length es) blank"
    "length es \<le> 4" "length es = 4 \<or> isLast" "placed M t i es"
  shows "check_slots M t i c isLast [0..<NODES_PER_CLUMP] (m, n, rc) = (m, n + length es, rc)"
proof -
  obtain a1 a2 a3 a4 p1 p2 p3 p4 where c: "c = \<lparr>m_dwKeySigs = [a1, a2, a3, a4], m_pvNode = [p1, p2, p3, p4]\<rparr>"
    using wf_clump_cases [OF assms(1)] by blast
  have up: "[0..<NODES_PER_CLUMP] = [0, 1, 2, 3]" by (simp add: NODES_PER_CLUMP_def upt_rec)
  have sig: "\<And>e. e \<in> set es \<Longrightarrow> lkr_CalcKeyHash M (ExtractKey M (Some (snd e))) = fst e \<and> BucketAddress (fst e) t = i \<and> fst e \<noteq> HASH_INVALID_SIGNATURE"
    using assms(5) sig_valid [of M] unfolding placed_def rec_sig_def rec_key_def by metis
  from assms(3) show ?thesis
    by (cases rule: four_cases)
      (use assms(2,4) sig in \<open>auto simp: up c used_def IsEmptySlot_def IsEmptyNode_def InvalidSignature_def numeral_eq_Suc\<close>)
qed

lemma check_clumps_correct:
  assumes "pending zs cs" "4 * (length cs - 1) < length zs \<or> length cs \<le> 1" "placed M t i zs"
  shows "check_clumps M t i cs (m, n, rc) = (m, n + length zs, rc)"
  using assms
proof (induction cs arbitrary: zs n)
  case (Cons c cs)
  note P = pending_Cons [OF Cons.prems(1)]
  have l: "length (take 4 zs) = 4 \<or> cs = []" using Cons.prems(2) by (cases cs) auto
  have pl: "placed M t i (take 4 zs)" "placed M t i (drop 4 zs)"
    using Cons.prems(3) by (auto simp: placed_def dest: in_set_takeD in_set_dropD)
  have "4 - length (take 4 zs) = 4 - length zs" by simp
  then have z: "zip (m_dwKeySigs c) (m_pvNode c) = map used (take 4 zs) @ replicate (4 - length (take 4 zs)) blank" using P(2) by simp
  have "check_clumps M t i (c # cs) (m, n, rc) = check_clumps M t i cs (m, n + length (take 4 zs), rc)"
    using check_slots_clump [OF P(1) z _ l pl(1)] by simp
  also have "\<dots> = (m, n + length (take 4 zs) + length (drop 4 zs), rc)"
    by (rule Cons.IH [OF P(3) _ pl(2)]) (use Cons.prems(2) in \<open>cases cs; auto\<close>)
  finally show ?case by (simp add: min_def)
qed simp

lemma check_buckets_correct:
  assumes "lkr_ok M t E" "i + left \<le> m_cActiveBuckets t"
  shows "\<exists>es. check_buckets M i left (m, n, rc) t =
      Some ((m, n + size (filter_mset (\<lambda>e. i \<le> BucketAddress (fst e) t \<and> BucketAddress (fst e) t < i + left) E), rc), trace es t) \<and>
    bucket_events es \<and> (\<forall>r. net_refs es r = 0)"
  using assms
proof (induction left arbitrary: i n t)
  case 0
  have "filter_mset (\<lambda>e. i \<le> BucketAddress (fst e) t \<and> BucketAddress (fst e) t < i + 0) E = {#}" by (simp add: filter_mset_eq_conv)
  then show ?case by (auto simp: trace_def intro!: exI [of _ "[]"])
next
  case (Suc left)
  have ok: "rep t E" "keyed M E" using Suc.prems(1) by (simp_all add: lkr_ok_def)
  have "i < m_cActiveBuckets t" using Suc.prems(2) by simp
  then obtain ch xs where b: "Bucket i t = Some ch" "chain_of xs ch" "mset xs = filter_mset (\<lambda>e. BucketAddress (fst e) t = i) E"
    using ok(1) unfolding rep_def bucket_rep_def by blast
  have "set xs = set_mset (filter_mset (\<lambda>e. BucketAddress (fst e) t = i) E)" by (simp flip: b(3))
  then have pl: "placed M t i xs" using ok(2) by (auto simp: placed_def keyed_def)
  have fl: "4 * (length ch - 1) < length xs \<or> length ch \<le> 1" using b(2) by (auto simp: chain_of_def)
  let ?lk = "[BucketReadLock i, BucketReadUnlock i]" and ?t = "trace [BucketReadLock i, BucketReadUnlock i] t"
  have "lkr_ok M ?t E" "i + 1 + left \<le> m_cActiveBuckets ?t" using Suc.prems by simp_all
  from Suc.IH [OF this, of "n + length xs"] obtain es where
    r: "check_buckets M (i + 1) left (m, n + length xs, rc) ?t =
      Some ((m, n + length xs + size (filter_mset (\<lambda>e. i + 1 \<le> BucketAddress (fst e) t \<and> BucketAddress (fst e) t < i + 1 + left) E), rc), trace es ?t)"
    "bucket_events es" "\<forall>r. net_refs es r = 0" by auto
  have "length xs = size (filter_mset (\<lambda>e. BucketAddress (fst e) t = i) E)" by (simp flip: b(3))
  also have "\<dots> + size (filter_mset (\<lambda>e. i + 1 \<le> BucketAddress (fst e) t \<and> BucketAddress (fst e) t < i + 1 + left) E) =
      size (filter_mset (\<lambda>e. i \<le> BucketAddress (fst e) t \<and> BucketAddress (fst e) t < i + Suc left) E)"
  proof -
    have "filter_mset (\<lambda>e. i \<le> BucketAddress (fst e) t \<and> BucketAddress (fst e) t < i + Suc left) E =
        filter_mset (\<lambda>e. BucketAddress (fst e) t = i) E + filter_mset (\<lambda>e. i + 1 \<le> BucketAddress (fst e) t \<and> BucketAddress (fst e) t < i + 1 + left) E"
      by (rule multiset_eqI) auto
    then show ?thesis by simp
  qed
  finally have n: "length xs + size (filter_mset (\<lambda>e. i + 1 \<le> BucketAddress (fst e) t \<and> BucketAddress (fst e) t < i + 1 + left) E) =
      size (filter_mset (\<lambda>e. i \<le> BucketAddress (fst e) t \<and> BucketAddress (fst e) t < i + Suc left) E)" .
  have "check_clumps M t i ch (m, n, rc) = (m, n + length xs, rc)" by (rule check_clumps_correct [OF chain_of_pending [OF b(2)] fl pl])
  then have "check_buckets M i (Suc left) (m, n, rc) t =
      Some ((m, n + size (filter_mset (\<lambda>e. i \<le> BucketAddress (fst e) t \<and> BucketAddress (fst e) t < i + Suc left) E), rc), trace (?lk @ es) t)"
    using b(1) r(1) by (simp only: check_buckets.simps Option.bind.simps n [symmetric] trace_fields add.assoc)
  moreover have "bucket_events (?lk @ es)"
    by (rule bucket_events_append [OF _ r(2)]) (simp add: bucket_events_def fun_upd_idem)
  moreover have "\<forall>r. net_refs (?lk @ es) r = 0" using r(3) by simp
  ultimately show ?case by blast
qed

lemma CheckTable_correct:
  assumes "lkr_ok M t E"
  shows "\<exists>t'. LinearHashTable_CheckTable M t = Some (Inr 0, t') \<and> looked t t' None"
proof -
  let ?t = "trace [TableReadOrWriteLock] t"
  have sh: "shape t" using assms(1) rep_shape unfolding lkr_ok_def by blast
  have us: "IsUsable t" "IsValid ?t = (True, ?t)" using sh by (simp_all add: IsUsable_shape IsValid_shape)
  have ok: "lkr_ok M ?t E" "0 + m_cActiveBuckets t \<le> m_cActiveBuckets ?t" using assms by simp_all
  have all: "filter_mset (\<lambda>e. 0 \<le> BucketAddress (fst e) ?t \<and> BucketAddress (fst e) ?t < 0 + m_cActiveBuckets t) E = E"
    using BucketAddress_less [OF sh] by (simp add: filter_mset_eq_conv)
  obtain es where r: "check_buckets M 0 (m_cActiveBuckets t) (0, 0, 0) ?t = Some ((0, size E, 0), trace es ?t)"
    "bucket_events es" "\<forall>r. net_refs es r = 0" using check_buckets_correct [OF ok, of 0 0 0] unfolding all by auto
  have n: "dword (size E) = m_cRecords t" using assms by (simp add: lkr_ok_def)
  have "LinearHashTable_CheckTable M t = Some (Inr 0, trace ([TableReadOrWriteLock] @ es @ [TableReadOrWriteUnlock]) t)"
    using us r(1) n by (simp add: LinearHashTable_CheckTable_def)
  moreover have "looked t (trace ([TableReadOrWriteLock] @ es @ [TableReadOrWriteUnlock]) t) None"
    unfolding looked_def using r(2,3)
    by (intro exI [of _ "[TableReadOrWriteLock] @ es @ [TableReadOrWriteUnlock]"])
      (auto simp: bucket_events_def locks_run_append no_locks_def handed_def)
  ultimately show ?thesis by blast
qed

end
