(* ===== verification/LkrRuns.thy ===== *)
theory LkrRuns
  imports LkrClear
begin

text \<open>
  The life of a CLKRLinearHashTable: any sequence of calls of its public operations from the constructor on, the
  references handed out by FindKey (\<open>given\<close>) kept beside the table. No call gets stuck, and the accounts of
  references, locks and heap blocks hold throughout.
\<close>

datatype ('r, 'k, 's) lkr_call =
    CallInsertRecord "'r option" bool
  | CallFindKey 'k bool
  | CallFindRecord "'r option"
  | CallDeleteKey 'k
  | CallDeleteRecord "'r option"
  | CallDeleteIf "'r option \<Rightarrow> 's \<Rightarrow> lk_predicate \<times> 's" 's
  | CallApplyIf "'r option \<Rightarrow> 's \<Rightarrow> lk_predicate \<times> 's" "'r option \<Rightarrow> 's \<Rightarrow> lk_action \<times> 's" lk_locktype 's
  | CallApply "'r option \<Rightarrow> 's \<Rightarrow> lk_action \<times> 's" lk_locktype 's
  | CallClear
  | CallCheckTable

fun lkr_perform :: "('r, 'k) methods \<Rightarrow> ('r, 'k, 's) lkr_call \<Rightarrow> 'r lkr \<Rightarrow> world \<Rightarrow> ('r option \<times> 'r lkr \<times> world) option" where
  "lkr_perform M (CallInsertRecord pv fOverwrite) t w =
     do { (_, t', w') \<leftarrow> LinearHashTable_InsertRecord M pv fOverwrite t w; Some (None, t', w') }"
| "lkr_perform M (CallFindKey key fPtr) t w = do { (_, pv, t') \<leftarrow> LinearHashTable_FindKey M key fPtr t; Some (pv, t', w) }"
| "lkr_perform M (CallFindRecord pv) t w = do { (_, t') \<leftarrow> LinearHashTable_FindRecord M pv t; Some (None, t', w) }"
| "lkr_perform M (CallDeleteKey key) t w = do { (_, t', w') \<leftarrow> LinearHashTable_DeleteKey M key t w; Some (None, t', w') }"
| "lkr_perform M (CallDeleteRecord pv) t w = do { (_, t', w') \<leftarrow> LinearHashTable_DeleteRecord M pv t w; Some (None, t', w') }"
| "lkr_perform M (CallDeleteIf pfn s) t w = do { (_, _, t', w') \<leftarrow> LinearHashTable_DeleteIf pfn s t w; Some (None, t', w') }"
| "lkr_perform M (CallApplyIf pfn act lkl s) t w = do { (_, _, t', w') \<leftarrow> LinearHashTable_ApplyIf pfn act lkl s t w; Some (None, t', w') }"
| "lkr_perform M (CallApply act lkl s) t w = do { (_, _, t', w') \<leftarrow> LinearHashTable_Apply act lkl s t w; Some (None, t', w') }"
| "lkr_perform M CallClear t w = do { (t', w') \<leftarrow> LinearHashTable_Clear t w; Some (None, t', w') }"
| "lkr_perform M CallCheckTable t w = do { (_, t') \<leftarrow> LinearHashTable_CheckTable M t; Some (None, t', w) }"

definition hand :: "'r option \<Rightarrow> 'r multiset \<Rightarrow> 'r multiset" where
  "hand pv given = (case pv of None \<Rightarrow> given | Some r \<Rightarrow> add_mset r given)"

lemma hand_None [simp]: "hand None given = given"
  by (simp add: hand_def)

fun lkr_calls ::
  "('r, 'k) methods \<Rightarrow> ('r, 'k, 's) lkr_call list \<Rightarrow> 'r multiset \<Rightarrow> 'r lkr \<Rightarrow> world \<Rightarrow> ('r multiset \<times> 'r lkr \<times> world) option" where
  "lkr_calls M [] given t w = Some (given, t, w)"
| "lkr_calls M (c # cs) given t w = do { (pv, t', w') \<leftarrow> lkr_perform M c t w; lkr_calls M cs (hand pv given) t' w' }"

text \<open>What holds between two calls: the table is in order, or a refused request of the constructor or of Clear
  has left it unusable and without memory.\<close>

definition lkr_state :: "('r, 'k) methods \<Rightarrow> world \<Rightarrow> 'r entry multiset \<Rightarrow> 'r multiset \<Rightarrow> 'r lkr \<Rightarrow> world \<Rightarrow> bool" where
  "lkr_state M w0 E given t w \<longleftrightarrow>
     (lkr_ok M t E \<or> \<not> IsUsable t \<and> m_paDirSegs t = None \<and> E = {#} \<and> \<not> generous w0) \<and>
     locks_run (events t) no_locks = Some no_locks \<and>
     (\<forall>r. net_refs (events t) r = int (count (image_mset snd E) r) + int (count given r)) \<and>
     same_heap w w0 \<and> directories w0 \<and> heap_live w0 + int (table_blocks t) \<le> heap_live w \<and>
     (generous w0 \<longrightarrow> tight t \<and> heap_live w = heap_live w0 + int (table_blocks t))"

lemma state_books:
  assumes "lkr_state M w0 E given t w" "lkr_ok M t' E'" "books (E, t, w) (E', t', w')"
  shows "lkr_state M w0 E' given t' w'"
proof -
  obtain es where es: "events t' = events t @ es" "locks_run es no_locks = Some no_locks"
    "\<forall>r. net_refs es r = int (count (image_mset snd E') r) - int (count (image_mset snd E) r)"
    using assms(3) unfolding books_def prod.case by blast
  show ?thesis using assms es unfolding lkr_state_def books_def prod.case
    by (auto simp: locks_run_append simp del: count_image_mset)
qed

lemma state_looked:
  assumes "lkr_state M w0 E given t w" "looked t t' pv"
  shows "lkr_state M w0 E (hand pv given) t' w"
proof -
  obtain es where es: "t' = trace es t" "locks_run es no_locks = Some no_locks" "\<forall>r. net_refs es r = handed pv r"
    using assms(2) unfolding looked_def by blast
  have u: "IsUsable t' = IsUsable t" unfolding es(1) by (simp add: IsUsable_def)
  have h: "int (count (hand pv given) r) = int (count given r) + handed pv r" for r
    by (auto simp: hand_def handed_def split: option.split)
  show ?thesis using assms(1) u h es by (simp add: lkr_state_def locks_run_append del: count_image_mset)
qed

lemma state_cleared:
  assumes "lkr_state M w0 E given t w" "cleared M t w t' w'" "released E t t'"
  shows "lkr_state M w0 {#} given t' w'"
proof -
  obtain es where es: "events t' = events t @ es" "locks_run es no_locks = Some no_locks" "\<forall>r. net_refs es r = - int (count (image_mset snd E) r)"
    using assms(3) unfolding released_def by blast
  show ?thesis using assms(1,2) es unfolding lkr_state_def cleared_def
    by (auto simp: locks_run_append simp del: count_image_mset)
qed

text \<open>On a table that is not usable every call returns at once.\<close>

lemma perform_unusable:
  assumes "\<not> IsUsable t"
  shows "\<exists>es. lkr_perform M c t w = Some (None, trace es t, w) \<and> locks_run es no_locks = Some no_locks \<and> (\<forall>r. net_refs es r = 0)"
proof -
  have s: "trace [] t = t" by (simp add: trace_def)
  have c: "LinearHashTable_Clear t w = Some (trace [TableWriteLock, TableWriteUnlock] t, w)"
    using assms by (simp add: LinearHashTable_Clear_def lkr_Clear_def IsUsable_def)
  have "lkr_perform M c t w = Some (None, trace [] t, w) \<or> c = CallClear"
    unfolding s using assms
    by (cases c) (simp_all add: LinearHashTable_InsertRecord_def LinearHashTable_FindKey_def LinearHashTable_FindRecord_def
        LinearHashTable_DeleteKey_def LinearHashTable_DeleteRecord_def LinearHashTable_DeleteIf_def LinearHashTable_ApplyIf_def
        LinearHashTable_Apply_def LinearHashTable_CheckTable_def)
  then show ?thesis
  proof
    assume "lkr_perform M c t w = Some (None, trace [] t, w)"
    then show ?thesis by (intro exI [of _ "[]"]) simp
  next
    assume "c = CallClear"
    then show ?thesis using c by (intro exI [of _ "[TableWriteLock, TableWriteUnlock]"]) (simp add: no_locks_def)
  qed
qed

lemma state_nothing: "lkr_state M w0 E given t w \<Longrightarrow> locks_run es no_locks = Some no_locks \<Longrightarrow> (\<forall>r. net_refs es r = 0) \<Longrightarrow>
  lkr_state M w0 E given (trace es t) w"
  using state_looked [of M w0 E given t w "trace es t" None] by (auto simp: looked_def handed_def)

context key_contract
begin

lemma perform_ok:
  assumes "lkr_ok M t E" "lkr_state M w0 E given t w"
  shows "\<exists>pv t' w' E'. lkr_perform M c t w = Some (pv, t', w') \<and> lkr_state M w0 E' (hand pv given) t' w'"
proof -
  have dw: "directories w" using assms(2) by (simp add: lkr_state_def)
  show ?thesis
  proof (cases c)
    case (CallInsertRecord pv fOverwrite)
    show ?thesis
    proof (cases pv)
      case None
      then show ?thesis using assms lkr_ok_usable [OF assms(1)]
        by (auto simp: CallInsertRecord LinearHashTable_InsertRecord_def intro!: exI [of _ E])
    next
      case (Some r)
      from lkr_InsertRecord_correct [OF assms(1) dw, of r fOverwrite] state_books [OF assms(2)] show ?thesis
        unfolding CallInsertRecord Some by fastforce
    qed
  next
    case (CallFindKey key fPtr)
    show ?thesis
    proof (cases fPtr)
      case False
      then show ?thesis using assms lkr_ok_usable [OF assms(1)]
        by (auto simp: CallFindKey LinearHashTable_FindKey_def intro!: exI [of _ E])
    next
      case True
      from lkr_FindKey_correct [OF assms(1), of key] state_looked [OF assms(2)] show ?thesis
        unfolding CallFindKey using True by fastforce
    qed
  next
    case (CallFindRecord pv)
    show ?thesis
    proof (cases pv)
      case None
      then show ?thesis using assms lkr_ok_usable [OF assms(1)]
        by (auto simp: CallFindRecord LinearHashTable_FindRecord_def intro!: exI [of _ E])
    next
      case (Some r)
      from FindRecord_correct [OF assms(1), of r] state_looked [OF assms(2), of _ None] show ?thesis
        unfolding CallFindRecord Some by fastforce
    qed
  next
    case (CallDeleteKey key)
    from lkr_DeleteKey_correct [OF assms(1) dw, of key] state_books [OF assms(2)] show ?thesis unfolding CallDeleteKey by fastforce
  next
    case (CallDeleteRecord pv)
    show ?thesis
    proof (cases pv)
      case None
      then show ?thesis using assms lkr_ok_usable [OF assms(1)]
        by (auto simp: CallDeleteRecord LinearHashTable_DeleteRecord_def intro!: exI [of _ E])
    next
      case (Some r)
      from DeleteRecord_correct [OF assms(1) dw, of r] state_books [OF assms(2)] show ?thesis unfolding CallDeleteRecord Some by fastforce
    qed
  next
    case (CallDeleteIf pfn s)
    from lkr_DeleteIf_correct [OF assms(1), where pfn = pfn and s = s and w = w] obtain n s' t' w' E' where
      "LinearHashTable_DeleteIf pfn s t w = Some (Some n, s', t', w')" "lkr_ok M t' E'" "books (E, t, w) (E', t', w')" by blast
    then show ?thesis using state_books [OF assms(2)] unfolding CallDeleteIf by fastforce
  next
    case (CallApplyIf pfn act lkl s)
    from ApplyIf_correct [OF assms(1), where pfn = pfn and act = act and lkl = lkl and s = s and w = w] obtain n s' t' w' E' where
      "LinearHashTable_ApplyIf pfn act lkl s t w = Some (Some n, s', t', w')" "lkr_ok M t' E'" "books (E, t, w) (E', t', w')" by blast
    then show ?thesis using state_books [OF assms(2)] unfolding CallApplyIf by fastforce
  next
    case (CallApply act lkl s)
    from lkr_Apply_correct [OF assms(1), where pfn = act and lkl = lkl and s = s and w = w] obtain n s' t' w' E' where
      "LinearHashTable_Apply act lkl s t w = Some (Some n, s', t', w')" "lkr_ok M t' E'" "books (E, t, w) (E', t', w')" by blast
    then show ?thesis using state_books [OF assms(2)] unfolding CallApply by fastforce
  next
    case CallClear
    show ?thesis
    proof (cases "m_cRecords t = 0")
      case True
      then show ?thesis using lkr_Clear_empty [OF True, of w] state_nothing [OF assms(2), of "[TableWriteLock, TableWriteUnlock]"]
        by (auto simp: CallClear no_locks_def)
    next
      case False
      from lkr_Clear_correct [OF assms(1) False dw] state_cleared [OF assms(2)] show ?thesis unfolding CallClear by fastforce
    qed
  next
    case CallCheckTable
    from CheckTable_correct [OF assms(1)] state_looked [OF assms(2), of _ None] show ?thesis unfolding CallCheckTable by fastforce
  qed
qed

lemma perform_state:
  assumes "lkr_state M w0 E given t w"
  shows "\<exists>pv t' w' E'. lkr_perform M c t w = Some (pv, t', w') \<and> lkr_state M w0 E' (hand pv given) t' w'"
proof (cases "lkr_ok M t E")
  case True
  then show ?thesis using perform_ok assms by blast
next
  case False
  then have "\<not> IsUsable t" using assms by (simp add: lkr_state_def)
  from perform_unusable [OF this, of M c w] state_nothing [OF assms] show ?thesis by fastforce
qed

lemma calls_state:
  "lkr_state M w0 E given t w \<Longrightarrow> \<exists>given' t' w' E'. lkr_calls M cs given t w = Some (given', t', w') \<and> lkr_state M w0 E' given' t' w'"
proof (induction cs arbitrary: E given t w)
  case (Cons c cs)
  obtain pv t1 w1 E1 where "lkr_perform M c t w = Some (pv, t1, w1)" "lkr_state M w0 E1 (hand pv given) t1 w1"
    using perform_state [OF Cons.prems] by blast
  then show ?case using Cons.IH by fastforce
qed fastforce

end

text \<open>The end of the life: the destructor gives everything back.\<close>

lemma dtor_state:
  assumes "lkr_state M w0 E given t w"
  shows "\<exists>t' w'. LinearHashTable_dtor t w = Some (t', w') \<and> heap_live w0 \<le> heap_live w' \<and> (generous w0 \<longrightarrow> heap_live w' = heap_live w0) \<and>
    locks_run (events t') no_locks = Some no_locks \<and> (\<forall>r. net_refs (events t') r = int (count given r))"
proof (cases "lkr_ok M t E")
  case True
  from lkr_dtor_correct [OF True, of w] obtain t' w' es where d: "LinearHashTable_dtor t w = Some (t', w')"
    "heap_live w' = heap_live w - int (table_blocks t)" "events t' = events t @ es" "locks_run es no_locks = Some no_locks"
    "\<forall>r. net_refs es r = - int (count (image_mset snd E) r)" unfolding released_def by blast
  then show ?thesis using assms by (auto simp: lkr_state_def locks_run_append simp del: count_image_mset)
next
  case False
  then have u: "\<not> IsUsable t" "E = {#}" "m_paDirSegs t = None" using assms by (simp_all add: lkr_state_def)
  have "LinearHashTable_dtor t w = Some ((trace [TableWriteLock, TableWriteUnlock] t)\<lparr>m_lkrcState := LK_UNUSABLE\<rparr>, w)"
    using u(1) by (simp add: LinearHashTable_dtor_def lkr_Clear_def IsUsable_def)
  then show ?thesis using assms u by (simp add: lkr_state_def locks_run_append table_blocks_def no_locks_def)
qed

lemma initial_state:
  assumes "fresh n t0 w0 rc t w" "m_cRecords t0 = 0" "events t0 = []" "directories w0"
  shows "lkr_state M w0 {#} {#} t w"
  using assms fresh_lkr_ok [of n t0 w0 t w M]
  by (auto simp: fresh_def lkr_state_def IsUsable_def table_blocks_def)

end
