(* ===== verification/Spec2Isabelle.thy ===== *)
theory Spec2Isabelle
  imports StraEscape StruFacts MultiszFacts Base64 HashTableLive HashTableRuns RwLock
    ListEntry TraceLog AllocCache TreeRuns LkrRuns
begin

text \<open>
  This development models \<^verbatim>\<open>IISLib\<close>, the C++ utility library under
  \<^verbatim>\<open>src/projects/NativeAPITest/IISLib\<close> that the rest of the repository's web-server
  samples are built on, and the LKR hash table of \<^verbatim>\<open>src/projects/NativeAPITest\<close>
  (\<^verbatim>\<open>lkrhash.h\<close> and \<^verbatim>\<open>TestLKRHashing.cpp\<close>).

  \<^bold>\<open>The parts and how they interact.\<close> Strings: BUFFER_T is a growable array; the string classes STRA and
  STRU keep a length and a terminator in one, MULTISZ and MULTISZA a list of strings; Base64 is a pair of
  functions on buffers. Tables: HASH_TABLE chains records by the hashes of HASHFN, takes its bucket counts
  from PRIME and is guarded by CWSDRWLock; TREE_HASH_TABLE is the same for paths, cut up with a STRU, and
  links its nodes into trees; CLKRLinearHashTable is a linear hash table that grows and shrinks a bucket
  at a time. Memory and diagnostics: ALLOC_CACHE_HANDLER caches blocks on interlocked lists,
  PER_CPU lays out one object per processor, LIST_ENTRY lists are intrusive, the trace log is a circular
  buffer and the reference trace writes entries into it.

  \<^bold>\<open>Theories.\<close>
  \<^item> Prelude, Win32: DWORD and SIZE_T arithmetic with its wrap-around, memory accesses that fail when out
    of bounds, HRESULTs, the process heap and the string functions of the C library.
  \<^item> Buffer: buffer.h. Str: what stringa.cpp and stringu.cpp share, over the character width. Stra, StraConv,
    StraEscape: stringa.cpp, stringa.h, macros.h. Stru: stringu.cpp, stringu.h, util.cxx. CodePage: the interface
    to the system's converters. StrFacts, StraFacts, StruFacts: their proofs.
  \<^item> Multisz, MultiszFacts: multisz.cpp, multisza.cpp and their headers, again over the width.
  \<^item> Base64: base64.cpp at both widths. Prime: prime.h. HashFn: hashfn.h.
  \<^item> HashTable: hashtable.h. HashTableFacts, HashTableRuns: its invariant, each operation, every reachable state.
    HashTableConc, HashTableLive: concurrent InsertRecord as interleaved steps, its invariant and its progress.
  \<^item> RwLock: rwlock.h, the XP lock as a transition system.
  \<^item> TreeHash: treehash.h. TreePath, TreeHashFacts, TreeInsertFacts, TreeInsertRecord, TreeDelete, TreeOps,
    TreeRuns: the order of paths, the invariant, insertion, deletion, the other operations, every reachable state.
  \<^item> ListEntry: listentry.h. TraceLog: tracelog.c and reftrace.c. PerCpu: percpu.h. AllocCache: acache.cxx.
  \<^item> LkrClump, Lkr, LkrOps: CLKRLinearHashTable of lkrhash.h and TestLKRHashing.cpp: bucket chains, the directory
    and its growth, the operations. LkrClumpFacts: chains as lists. LkrSignature: the value of empty slots. LkrTable,
    LkrRecords: the representation, with \<open>lkr_ok\<close> its invariant and \<open>books\<close> the accounts. LkrDelete, LkrGrow,
    LkrExpand, LkrContract, LkrInit, LkrDict, LkrWalk, LkrClear, LkrRuns: deletion and lookup, expansion, contraction,
    construction, the loops and the dictionary operations, the walks over all buckets, Clear, the destructor and
    CheckTable, and the runs of any sequence of calls.

  \<^bold>\<open>How the model corresponds to the code.\<close> A class is a record with the members' names; a method is a
  function of the same name (with the class as a prefix where names clash) from the object and the world to
  the result, the new object and the new world. Memory is a list of elements: reading or writing outside it, or
  through a null or freed pointer, is the value None of the option monad, so every theorem that gives a
  result in Some also says that the code stays in bounds. None is also an exception that leaves a call (the
  \<^verbatim>\<open>new[]\<close> of a directory of the linear table, refused) and the overflow of a signed index. Failures are
  HRESULT or Win32 codes as in the code. DWORDs, UINTs and SIZE_Ts are natural numbers with the modulus written
  out; hash values, characters and the counters that wrap are words; the lock count is a LONG that wraps. The target is 64-bit Windows. Distinct pointer arguments point to distinct memory.

  \<^bold>\<open>Parameters.\<close> What is not in the sources is an argument: whether the heap grants a request (any
  predicate; \<open>generous\<close> and \<open>plenty\<close> are heaps that do, \<open>directories\<close> says only that the directories of the
  linear table are granted, \<open>barren\<close> is a heap that grants nothing else), code-page conversion, environment expansion, ordinal
  comparison and the uppercase table, the output of the printf engine, the result of a lock's Init, stack
  backtraces, processor numbers. The callbacks of the hash tables are constrained by the locale
  \<open>key_contract\<close> (equal keys are an equivalence and have equal hashes), interpreted on the library's own
  hash functions; the string append is proved over the locale \<open>growable\<close>, interpreted on BUFFER_T.

  \<^bold>\<open>Termination.\<close> Loops are structural or have measures; loops that may not end are partial functions, and the
  theorems state that they return. DeleteNodeInternal of the tree table recurses as deep as the tree: the
  bound \<open>tree_depth\<close> is the number of nodes and \<open>tree_depth_enough\<close> shows that it suffices. Unescape counts
  its rounds by the length of the text.

  \<^bold>\<open>What the theorems show.\<close> The most important ones: concurrent insertion keeps the chain sorted, unique and
  complete, and ends; in every reachable state of a hash table, a tree table and a linear hash table the
  invariant holds and references, heap blocks and locks balance, and the linear table never gets stuck; escaping, Base64 and trace entries round-trip; Unescape
  and Base64 stay in bounds on any input; the lock excludes when its two windows are not interrupted, and does
  not when they are; string and multi-string appends meet one contract for every behaviour of the heap.
  Theorems named after a defect (\<open>lock_violation\<close>, \<open>empty_conversion_keeps_old\<close>,
  \<open>reinitialize_destroys\<close>, \<open>multisz_stack_append\<close>, \<open>trace_log_reset\<close>) state what the code does, not what it should.

  \<^bold>\<open>Not modelled.\<close> ahutil.cpp is COM calls into the configuration system, pudebug.h and dbgutil.h are debug
  output. Of the LKR hash table the model is that of one linear table used by one thread at a
  time, its locks recorded as a log: CLKRHashTable, which forwards to one of several such tables, the iterators and
  the statistics are left out, and so are the debugging lists of all tables. The other directories hold independent samples (sockets, processes, COM, DTC, an IIS
  module, test programs) whose code is calls into Windows; they share no logic with the library.
\<close>

section \<open>Sample objects\<close>

text \<open>A string on the stack with text \<open>xs\<close> and no spare room, for the witnesses.\<close>

definition stack_string :: "nat \<Rightarrow> 'a::len word list \<Rightarrow> 'a word str" where
  "stack_string sz xs =
     \<lparr>m_Buff = \<lparr>m_pBuffer = xs @ [0], m_fHeapAllocated = False, m_cbBuffer = (length xs + 1) * sz\<rparr>,
      m_cchLen = length xs\<rparr>"

lemma stack_string_ok:
  assumes "0 < sz" "(length xs + 1) * sz \<le> MAXDWORD"
  shows "str_ok sz (stack_string sz xs)" "str_text (stack_string sz xs) = xs"
    "m_cchLen (stack_string sz xs) = length xs" "QueryStr (stack_string sz xs) = xs @ [0]"
  using assms
  by (simp_all add: str_ok_def buffer_ok_def stack_string_def QueryStr_def QueryPtr_def str_text_def)

lemma stack_string_plain: "0 < sz \<Longrightarrow> (length xs + 1) * sz \<le> MAXDWORD \<Longrightarrow> str_plain (stack_string sz xs) \<longleftrightarrow> 0 \<notin> set xs"
  by (simp add: str_plain_def stack_string_ok)

lemma stack_string_size: "0 < sz \<Longrightarrow> QuerySizeCCH sz (stack_string sz xs) = length xs + 1"
  by (simp add: QuerySizeCCH_def buffer_QuerySize_def stack_string_def)

lemmas samples = stack_string_size stack_string_ok stack_string_plain MAXDWORD_def STRSAFE_MAX_CCH_def

lemma length_escape_text_le: "length (escape_text f xs) \<le> 3 * length xs"
  by (induction xs) auto

section \<open>Strings\<close>

text \<open>C16. Escape followed by Unescape gives the text back: when the heap grants every
  request and the escaped text fits 32-bit sizes, \<open>STRA::Escape\<close> succeeds, and whatever code page
  converter is installed \<open>STRA::Unescape\<close> then restores exactly the original text.\<close>

theorem escape_unescape_roundtrip:
  assumes "str_ok sizeof_CHAR s" "str_plain s" "length InlineBuffer = 512" "generous w"
    "3 * m_cchLen s + 3 \<le> MAXDWORD"
  shows "\<exists>s1 w1 s2 w2. STRA_Escape s InlineBuffer w = Some (S_OK, s1, w1) \<and>
    STRA_Unescape cv s1 w1 = Some (s2, w2) \<and> str_ok sizeof_CHAR s2 \<and> str_text s2 = str_text s"
proof -
  have len: "length (escape_text FShouldEscapeUrl (str_text s)) \<le> 3 * m_cchLen s"
    using length_escape_text_le [of FShouldEscapeUrl "str_text s"] length_str_text [OF assms(1)] by simp
  have x0: "0 \<notin> set (str_text s)" using assms(2) by (simp add: str_plain_def)
  have small: "m_cchLen s < 2147483648" using assms(5) by (simp add: MAXDWORD_def)
  obtain s1 w1 where E: "STRA_Escape s InlineBuffer w = Some (S_OK, s1, w1)" "str_ok sizeof_CHAR s1"
    "str_text s1 = escape_text FShouldEscapeUrl (str_text s)"
    using EscapeInternal_correct [OF assms(1-3) small, of FShouldEscapeUrl w] assms(4,5) len
    by (auto simp: STRA_Escape_def)
  have "str_plain s1" using escape_text_nonzero [OF x0] E(3) by (simp add: str_plain_def)
  from STRA_Unescape_correct [OF E(2) this, of cv w1]
  obtain s2 w2 where U: "STRA_Unescape cv s1 w1 = Some (s2, w2)" "str_ok sizeof_CHAR s2"
    "str_text s2 = unescape_text cv (escape_text FShouldEscapeUrl (str_text s))" unfolding E(3) by blast
  have "unescape_text cv (escape_text FShouldEscapeUrl (str_text s)) = str_text s"
    by (rule unescape_escape_text [OF _ x0]) (auto simp: FShouldEscapeUrl_def)
  with E(1) U show ?thesis by auto
qed

theorem escape_unescape_roundtrip_witness:
  "\<exists>s1 w1 s2 w2. STRA_Escape (stack_string 1 [97, 37, 32, 98]) (replicate 512 7) plenty = Some (S_OK, s1, w1) \<and>
    STRA_Unescape latin1 s1 w1 = Some (s2, w2) \<and> str_ok 1 s2 \<and> str_text s2 = [97, 37, 32, 98]"
  using escape_unescape_roundtrip [of "stack_string 1 [97, 37, 32, 98]" "replicate 512 7" plenty latin1]
  by (simp add: samples)

text \<open>C34. \<open>STRA::Escape\<close> of a text of fewer than 2^31 characters never leaves its buffers and
  releases its temporary, whatever the heap refuses. A failure leaves the string as it was. A success
  leaves every character that needs an escape escaped, in order, and of the others a part: the code
  ignores a refused append of a character that needs no escape. When the heap grants every request and
  the sizes fit, the call succeeds and the text is exactly the percent-escaped one. The same holds for
  \<open>EscapeUtf8\<close>.\<close>

theorem escape_exact:
  assumes "str_ok sizeof_CHAR s" "str_plain s" "length InlineBuffer = 512" "m_cchLen s < 2147483648"
    "(op, f) \<in> {(STRA_Escape, FShouldEscapeUrl), (STRA_EscapeUtf8, FShouldEscapeUtf8)}"
  shows "\<exists>hr s' w'. op s InlineBuffer w = Some (hr, s', w') \<and> str_ok sizeof_CHAR s' \<and>
    heap_live w' - owned s' = heap_live w - owned s \<and>
    (if hr = S_OK
     then \<exists>zs. subseq zs (str_text s) \<and> filter f zs = filter f (str_text s) \<and> str_text s' = escape_text f zs
     else FAILED hr \<and> s' = s) \<and>
    (generous w \<and> 3 * m_cchLen s + 3 \<le> MAXDWORD \<longrightarrow> hr = S_OK \<and> str_text s' = escape_text f (str_text s))"
proof -
  have len: "length (escape_text f (str_text s)) \<le> 3 * m_cchLen s"
    using length_escape_text_le [of f "str_text s"] length_str_text [OF assms(1)] by simp
  have "op = EscapeInternal f" using assms(5) by (auto simp: STRA_Escape_def STRA_EscapeUtf8_def)
  with EscapeInternal_correct [OF assms(1-4), of f w] len show ?thesis
    unfolding escape_keeps_def conj_assoc by fastforce
qed

theorem escape_exact_witness:
  "\<exists>s' w'. STRA_Escape (stack_string 1 [97, 37]) (replicate 512 7) plenty = Some (S_OK, s', w') \<and>
     str_text s' = [97, 37, 50, 53]"
  using escape_exact [of "stack_string 1 [97, 37]" "replicate 512 7" STRA_Escape FShouldEscapeUrl plenty]
  by (auto simp: samples hex_escape_def TODIGIT_def FShouldEscapeUrl_def)

lemma unescape_samples:
  "unescape_text latin1 [97, 37, 52, 49] = [97, 65]"
  by code_simp

text \<open>C18. \<open>STRA::Unescape\<close> stays inside the buffer for every text and every converter, keeps the
  object sound and allocates nothing, and leaves the text \<open>unescape_text\<close> describes.\<close>

theorem unescape_exact:
  assumes "str_ok sizeof_CHAR s" "str_plain s"
  shows "\<exists>s' w'. STRA_Unescape cv s w = Some (s', w') \<and> str_ok sizeof_CHAR s' \<and>
    str_text s' = unescape_text cv (str_text s) \<and> m_cbBuffer (m_Buff s') = m_cbBuffer (m_Buff s) \<and>
    heap_live w' = heap_live w"
  using STRA_Unescape_correct [OF assms, of cv w] by fastforce

theorem unescape_exact_witness:
  "\<exists>s' w'. STRA_Unescape latin1 (stack_string 1 [97, 37, 52, 49]) plenty = Some (s', w') \<and> str_text s' = [97, 65]"
  using unescape_exact [of "stack_string 1 [97, 37, 52, 49]" latin1 plenty]
  by (auto simp: samples unescape_samples)

text \<open>C21. \<open>STRA::Copy\<close> and \<open>STRA::Append\<close> of a C string, for every behaviour of the heap: they stay
  in bounds, either deliver exactly the new text or fail and leave the object untouched, never leak
  and never shrink the buffer, allocate nothing when the text fits, and fail only when memory is
  refused or the size does not fit a DWORD.\<close>

theorem stra_append:
  assumes "str_ok sizeof_CHAR s" "strlen p < STRSAFE_MAX_CCH"
  shows "delivers sizeof_CHAR s (cstr p) w (STRA_Copy_psz s p w) \<and>
    delivers sizeof_CHAR s (str_text s @ cstr p) w (STRA_Append_psz s p w)"
  using STRA_Copy_psz_delivers [OF assms] STRA_Append_psz_delivers [OF assms] by blast

theorem stra_append_witness:
  "delivers 1 (stack_string 1 [97]) [97, 98, 99] plenty (STRA_Append_psz (stack_string 1 [97]) [98, 99, 0] plenty)"
  using stra_append [of "stack_string 1 [97]" "[98, 99, 0]" plenty] by (simp add: samples cstr_simps strlen_def)

text \<open>C35. \<open>STRU::Append\<close> of an array of strings appends all of them in order with one
  allocation, or fails with the object untouched; \<open>STRU::Copy\<close> of an array empties the object first.\<close>

theorem stru_append_array:
  assumes "str_ok sizeof_WCHAR s" "\<forall>p \<in> set ps. strlen p < STRSAFE_MAX_CCH"
  shows "delivers sizeof_WCHAR s (str_text s @ concat (map cstr ps)) w (STRU_Append_array s (map Some ps) w) \<and>
    (\<exists>hr s' w'. STRU_Copy_array s (map Some ps) w = Some (hr, s', w') \<and> str_ok sizeof_WCHAR s' \<and>
      (if hr = S_OK then str_text s' = concat (map cstr ps) else FAILED hr \<and> str_text s' = []))"
proof (rule conjI)
  show "delivers sizeof_WCHAR s (str_text s @ concat (map cstr ps)) w (STRU_Append_array s (map Some ps) w)"
    unfolding STRU_Append_array_def by (rule STRU_AuxAppend_array_delivers [OF assms])
qed (use STRU_Copy_array_correct [OF assms, of w] in blast)

theorem stru_append_array_witness:
  "delivers 2 (stack_string 2 [120]) [120, 97, 98] plenty
     (STRU_Append_array (stack_string 2 [120]) [Some [97, 0], Some [0], Some [98, 0]] plenty)"
  using stru_append_array [of "stack_string 2 [120]" "[[97, 0], [0], [98, 0]]" plenty]
  by (simp add: samples cstr_simps strlen_def)

text \<open>C22. Appending a wide string to a byte string through any code page: when it succeeds the new
  text is the old text up to the offset followed by exactly what the converter gives, also when the
  first conversion ran out of room; on failure the old text up to the offset and the length are kept
  and the string is still terminated. And when the heap grants every request and the sizes fit signed
  integers the result is the converter's own: success whenever the conversion succeeds, however much
  longer than the input its output is, and otherwise its error code.\<close>

theorem append_wide:
  assumes "str_ok sizeof_CHAR s" "off \<le> m_cchLen s" "converter_ok cv" "0 < n" "n \<le> length p" "n < 2147483648"
    "\<forall>out. wc_convert cv cp fl p (int n) = Inr out \<longrightarrow> off + length out < MAXDWORD"
  shows "converts off (wc_convert cv cp fl p (int n)) s w (STRA_AuxAppendW cv s p n off cp fl w) \<and>
    (generous w \<and> conversion_fits off n (wc_convert cv cp fl p (int n)) s \<longrightarrow>
      (\<exists>s' w'. STRA_AuxAppendW cv s p n off cp fl w =
         Some (case wc_convert cv cp fl p (int n) of Inl e \<Rightarrow> HRESULT_FROM_WIN32 e | Inr _ \<Rightarrow> S_OK, s', w')))"
proof
  show c: "converts off (wc_convert cv cp fl p (int n)) s w (STRA_AuxAppendW cv s p n off cp fl w)"
    by (rule STRA_AuxAppendW_correct [OF assms(1-6)]) (use assms(7) in blast)
  then obtain hr s' w' where "STRA_AuxAppendW cv s p n off cp fl w = Some (hr, s', w')"
    by (auto simp: converts_def split: option.splits)
  then show "generous w \<and> conversion_fits off n (wc_convert cv cp fl p (int n)) s \<longrightarrow>
      (\<exists>s' w'. STRA_AuxAppendW cv s p n off cp fl w =
         Some (case wc_convert cv cp fl p (int n) of Inl e \<Rightarrow> HRESULT_FROM_WIN32 e | Inr _ \<Rightarrow> S_OK, s', w'))"
    using STRA_AuxAppendW_result [OF assms(1-6)] by (auto simp: conversion_result_def)
qed

text \<open>A converter that makes three bytes of every character, as UTF-8 does of U+2080 to U+20BF: the first
  conversion has room for two, and the retry delivers.\<close>

definition three_bytes :: converter where
  "three_bytes = latin1\<lparr>wc_convert := (\<lambda>cp fl src n.
     if n \<le> 0 \<or> src = [] then Inl ERROR_INVALID_PARAMETER
     else Inr (concat (map (\<lambda>c. [226, 130, ucast c]) (take (nat n) src))))\<rparr>"

lemma three_bytes_ok: "converter_ok three_bytes"
  using latin1_ok by (auto simp: converter_ok_def three_bytes_def error_codes)

theorem append_wide_witness:
  "\<exists>s' w'. STRA_AuxAppendW three_bytes (stack_string 1 [65]) [8364] 1 1 CP_UTF8 0 plenty = Some (S_OK, s', w') \<and>
     str_text s' = [65, 226, 130, 172]"
proof -
  have c: "wc_convert three_bytes CP_UTF8 0 [8364] (int 1) = Inr [226, 130, 172]" by (simp add: three_bytes_def)
  have "converts 1 (Inr [226, 130, 172]) (stack_string 1 [65]) plenty
      (STRA_AuxAppendW three_bytes (stack_string 1 [65]) [8364] 1 1 CP_UTF8 0 plenty) \<and>
    (generous plenty \<and> conversion_fits 1 1 (Inr [226, 130, 172]) (stack_string 1 [65]) \<longrightarrow>
      (\<exists>s' w'. STRA_AuxAppendW three_bytes (stack_string 1 [65]) [8364] 1 1 CP_UTF8 0 plenty = Some (S_OK, s', w')))"
    using append_wide [of "stack_string 1 [65]" 1 three_bytes 1 "[8364]" CP_UTF8 0 plenty] three_bytes_ok
    unfolding c by (simp add: samples)
  moreover have "conversion_fits 1 1 (Inr [226, 130, 172]) (stack_string 1 [65])"
    by (simp add: conversion_fits_def stack_string_def)
  ultimately show ?thesis by (auto simp: converts_def samples split: option.splits if_splits)
qed

text \<open>\<open>STRA::CopyW\<close> and \<open>STRU::CopyA\<close> of the empty string report success and keep the
  old text, while \<open>Copy\<close> of the empty string clears the object.\<close>

theorem empty_conversion_keeps_old:
  "(\<exists>w1. STRA_CopyW_psz latin1 (stack_string 1 [97, 98]) [0] plenty = Some (S_OK, stack_string 1 [97, 98], w1)) \<and>
   (\<exists>w1. STRU_CopyA_psz latin1 (stack_string 2 [97, 98]) [0] plenty = Some (S_OK, stack_string 2 [97, 98], w1)) \<and>
   (\<exists>s1 w1. STRA_Copy_psz (stack_string 1 [97, 98]) [0] plenty = Some (S_OK, s1, w1) \<and> str_text s1 = [])"
proof (intro conjI)
  show "\<exists>w1. STRA_CopyW_psz latin1 (stack_string 1 [97, 98]) [0] plenty = Some (S_OK, stack_string 1 [97, 98], w1)"
    by (simp add: STRA_CopyW_psz_def STRA_CopyW_len_def StringCchLength_def strlen_def cstr_simps STRSAFE_MAX_CCH_def
        STRA_AuxAppendW_def AuxAppendW_Finished_def stack_string_def QueryStr_def QueryPtr_def mem_simps)
  show "\<exists>w1. STRU_CopyA_psz latin1 (stack_string 2 [97, 98]) [0] plenty = Some (S_OK, stack_string 2 [97, 98], w1)"
    by (simp add: STRU_CopyA_psz_def STRU_CopyA_len_def StringCchLength_def strlen_def cstr_simps STRSAFE_MAX_CCH_def
        STRU_AuxAppendA_def)
  have "delivers 1 (stack_string 1 [97, 98]) [] plenty (STRA_Copy_psz (stack_string 1 [97, 98]) [0] plenty)"
    using STRA_Copy_psz_delivers [of "stack_string 1 [97, 98]" "[0]" plenty] by (simp add: samples cstr_simps strlen_def)
  then show "\<exists>s1 w1. STRA_Copy_psz (stack_string 1 [97, 98]) [0] plenty = Some (S_OK, s1, w1) \<and> str_text s1 = []"
    by (auto simp: delivers_def MAXDWORD_def split: option.splits)
qed

text \<open>\<open>SafeSnprintf\<close> either leaves exactly the rendered text or fails with an empty string; it
  needs no heap when the text fits, and refuses texts beyond its limit of 64 K characters.\<close>

theorem formatted_text:
  assumes "str_ok sizeof_CHAR s" "0 \<notin> set r" "QuerySizeCCH sizeof_CHAR s \<le> STRSAFE_MAX_CCH"
  shows "\<exists>hr s' w'. STRA_SafeSnprintf s r w = Some (hr, s', w') \<and> str_ok sizeof_CHAR s' \<and>
    (if hr = S_OK then str_text s' = r else FAILED hr \<and> str_text s' = []) \<and>
    (length r < QuerySizeCCH sizeof_CHAR s \<longrightarrow> hr = S_OK \<and> w' = w) \<and>
    (QuerySizeCCH sizeof_CHAR s \<le> length r \<and> 65536 < length r \<longrightarrow> hr = HRESULT_FROM_WIN32 ERROR_INVALID_DATA)"
  using stra_fmt.formatted [OF assms, of w] by (simp add: STRA_SafeSnprintf_def STRA_SafeVsnprintf_def)

theorem formatted_text_witness:
  "\<exists>s' w'. STRA_SafeSnprintf (stack_string 1 [48, 48, 48]) [52, 50] plenty = Some (S_OK, s', w') \<and> str_text s' = [52, 50]"
  using formatted_text [of "stack_string 1 [48, 48, 48]" "[52, 50]" plenty]
  by (auto simp: samples)

text \<open>C36. \<open>MakePathCanonicalizationProof\<close> gives the path its \<open>\\?\\<close> form: a UNC path gets the UNC
  prefix, a path that has a prefix keeps it with a dot turned into a question mark, any other path
  gets the plain prefix.\<close>

theorem canonical_path_exact:
  assumes "str_ok sizeof_WCHAR s" "terminated p" "strlen p < STRSAFE_MAX_CCH"
  shows "path_post s w (canonical_path (cstr p)) (MakePathCanonicalizationProof p s w)"
  by (rule MakePathCanonicalizationProof_correct [OF assms])

theorem canonical_path_exact_witness:
  "path_post (stack_string 2 []) plenty [92, 92, 63, 92, 67, 58] (MakePathCanonicalizationProof [67, 58, 0] (stack_string 2 []) plenty)"
  using canonical_path_exact [of "stack_string 2 []" "[67, 58, 0]" plenty]
  by (simp add: samples cstr_simps strlen_def terminated_def canonical_path_def prefix_plain_def)

text \<open>C37. \<open>CopyAndExpandEnvironmentStrings\<close>, when the expansion has the same result at both calls,
  leaves exactly the expanded text or fails for lack of memory with an empty string.\<close>

theorem expansion_exact:
  assumes "str_ok sizeof_WCHAR s" "ex_result ex 0 src = Inr t" "ex_result ex 1 src = Inr t" "0 \<notin> set t"
    "(length t + 1) * sizeof_WCHAR \<le> MAXDWORD"
  shows "\<exists>hr s' w'. CopyAndExpandEnvironmentStrings ex s src w = Some (hr, s', w') \<and>
    heap_live w' - owned s' = heap_live w - owned s \<and>
    (if hr = S_OK then str_ok sizeof_WCHAR s' \<and> str_text s' = t else hr = E_OUTOFMEMORY \<and> m_cchLen s' = 0) \<and>
    (generous w \<longrightarrow> hr = S_OK)"
  by (rule CopyAndExpand_correct [OF assms])

theorem expansion_exact_witness:
  "\<exists>s' w'. CopyAndExpandEnvironmentStrings \<lparr>ex_result = (\<lambda>_ _. Inr [67, 58]), ex_spill = (\<lambda>_. [])\<rparr>
     (stack_string 2 []) [37, 88, 37, 0] plenty = Some (S_OK, s', w') \<and> str_text s' = [67, 58]"
  using expansion_exact [of "stack_string 2 []" "\<lparr>ex_result = (\<lambda>_ _. Inr [67, 58]), ex_spill = (\<lambda>_. [])\<rparr>"
    "[37, 88, 37, 0]" "[67, 58]" plenty]
  by (auto simp: samples)

section \<open>Base64\<close>

text \<open>C17. Base64Decode undoes Base64Encode: for non-empty data whose encoded size fits a DWORD,
  encoding into a large enough buffer and decoding the result, at either character width, gives the
  data back with its exact length.\<close>

theorem base64_roundtrip:
  fixes out :: "'a::len word list"
  assumes "8 \<le> LENGTH('a)" "data \<noteq> []" "(length data + 2) div 3 * 4 + 1 \<le> MAXDWORD"
    "(length data + 2) div 3 * 4 + 1 \<le> length out" "length data \<le> length dec"
  shows "\<exists>enc. Base64Encode data (length data) (Some out) (length out) =
      Some (ERROR_SUCCESS, Some enc, (length data + 2) div 3 * 4 + 1) \<and>
    Base64Decode enc (Some dec) (length dec) = Some (ERROR_SUCCESS, Some (data @ drop (length data) dec), length data)"
proof -
  have "length (b64 data :: 'a word list) = (length data + 2) div 3 * 4"
    by (simp add: length_b64)
  then have "length (b64 data :: 'a word list) \<le> MAXDWORD" using assms(3) by simp
  from Base64Decode_b64 [OF assms(1,2) this assms(5) order_refl]
    Base64Encode_correct [of "length data" data "length out" out] assms(3,4)
  show ?thesis by auto
qed

theorem base64_roundtrip_witness:
  "\<exists>enc. Base64Encode [1, 2, 255, 7] 4 (Some (replicate 9 0 :: 16 word list)) 9 = Some (ERROR_SUCCESS, Some enc, 9) \<and>
     Base64Decode enc (Some [0, 0, 0, 0]) 4 = Some (ERROR_SUCCESS, Some [1, 2, 255, 7], 4)"
proof -
  have l: "length [1, 2, 255, 7 :: 8 word] = 4" "length (replicate 9 (0 :: 16 word)) = 9" "length [0, 0, 0, 0 :: 8 word] = 4"
    by simp_all
  show ?thesis
    using base64_roundtrip [of "[1, 2, 255, 7]" "replicate 9 0 :: 16 word list" "[0, 0, 0, 0]"]
    unfolding l by (simp add: MAXDWORD_def)
qed

text \<open>C27. Neither routine ever touches memory outside the sizes it was given, for any input: not
  Base64Encode even when its size computation wraps, and not Base64Decode for any string.\<close>

theorem base64_bounds:
  assumes "room \<le> length out" "cb \<le> length data" "droom \<le> length dec"
  shows "(\<exists>err out'. Base64Encode data cb (Some out) room = Some (err, Some out', cch_encoded cb) \<and>
      length out' = length out \<and> drop room out' = drop room out) \<and>
    (\<exists>err dec' n. Base64Decode s (Some dec) droom = Some (err, Some dec', n) \<and>
      length dec' = length dec \<and> drop droom dec' = drop droom dec \<and> (err = ERROR_SUCCESS \<longrightarrow> n \<le> droom))"
  using Base64Encode_safe [OF assms(1,2)] Base64Decode_safe [OF assms(3), of s] by blast

theorem base64_bounds_witness:
  "\<exists>err dec' n. Base64Decode [65, 65, 65, 65, 0 :: 8 word] (Some [1, 2, 3, 4]) 3 = Some (err, Some dec', n) \<and> drop 3 dec' = [4]"
  using base64_bounds [of 0 "[] :: 8 word list" 0 "[]" 3 "[1, 2, 3, 4]" "[65, 65, 65, 65, 0]"] by auto

section \<open>Multi-strings\<close>

text \<open>A multi-string on the stack holding \<open>ss\<close>, with one spare element.\<close>

definition stack_multi :: "nat \<Rightarrow> 'a::len word list list \<Rightarrow> 'a word multisz" where
  "stack_multi sz ss =
     \<lparr>msz_Buff = \<lparr>m_pBuffer = multi ss @ [0], m_fHeapAllocated = False, m_cbBuffer = (length (joined ss) + 2) * sz\<rparr>,
      msz_cchLen = length (joined ss) + 1, m_cStrings = length ss\<rparr>"

lemma stack_multi_ok:
  "0 < sz \<Longrightarrow> (length (joined ss) + 2) * sz \<le> MAXDWORD \<Longrightarrow> \<forall>x\<in>set ss. proper x \<Longrightarrow> msz_ok sz (stack_multi sz ss) ss"
  by (simp add: msz_ok_def stack_multi_def buffer_ok_def msz_QueryStr_def QueryPtr_def)

lemmas multi_samples = stack_multi_ok proper_def cstr_def strlen_def MAXDWORD_def

text \<open>C31. \<open>Append\<close> of a string to a multi-string that holds \<open>ss\<close> leaves it holding \<open>ss\<close> and
  the new string behind, or leaves it holding \<open>ss\<close> and reports why; an empty string is never stored.
  Which of the two is decided by the bytes needed, the old strings, the new one and two terminators:
  when the buffer has them the call succeeds and leaves the heap alone; ERROR_ARITHMETIC_OVERFLOW is
  reported exactly when the buffer has not and they do not fit 32 bits with the 128 bytes of slop; in
  every other case it succeeds unless memory is refused, and then the error is
  ERROR_NOT_ENOUGH_MEMORY.\<close>

theorem multisz_append:
  assumes "msz_ok sz s ss" "strlen p * sz \<le> MAXDWORD"
    "needed = (length (concat (map (\<lambda>x. x @ [0]) ss)) + strlen p + 2) * sz"
    "too_large \<longleftrightarrow> m_cbBuffer (msz_Buff s) < needed \<and> MAXDWORD < needed + 128"
  shows "\<exists>ok s' w'. msz_Append_psz sz s (Some p) w = Some (ok, s', w') \<and>
    msz_ok sz s' (if ok then ss @ (if cstr p = [] then [] else [cstr p]) else ss) \<and>
    (\<not> ok \<longrightarrow> GetLastError w' = (if too_large then ERROR_ARITHMETIC_OVERFLOW else ERROR_NOT_ENOUGH_MEMORY)) \<and>
    (too_large \<longrightarrow> \<not> ok) \<and> (generous w \<and> \<not> too_large \<longrightarrow> ok) \<and>
    (needed \<le> m_cbBuffer (msz_Buff s) \<longrightarrow> ok \<and> w' = w)"
proof -
  obtain ok s' w' where r: "msz_Append_psz sz s (Some p) w = Some (ok, s', w')"
    and d: "msz_ok sz s' (if ok then ss @ piece (cstr p) else ss)"
      "\<not> ok \<longrightarrow> last_error w' \<in> {ERROR_NOT_ENOUGH_MEMORY, ERROR_ARITHMETIC_OVERFLOW}"
    using Append_psz_delivers [OF assms(1,2), of w] unfolding msz_delivers_def by blast
  from Append_psz_outcome [OF assms(1,2), of w] r assms(3,4) have
    "\<not> ok \<and> last_error w' = ERROR_ARITHMETIC_OVERFLOW \<longleftrightarrow> too_large" "generous w \<longrightarrow> ok \<or> too_large"
    "needed \<le> m_cbBuffer (msz_Buff s) \<longrightarrow> ok \<and> w' = w"
    by (auto simp: append_outcome_def append_too_large_def joined_def)
  with r d show ?thesis
    by (intro exI [of _ ok] exI [of _ s'] exI [of _ w']) (cases ok; auto simp: piece_def GetLastError_def)
qed

theorem multisz_append_witness:
  "\<exists>s' w'. msz_Append_psz 1 (stack_multi 1 [[97, 98]] :: MULTISZA) (Some [99, 0]) plenty = Some (True, s', w') \<and>
    msz_ok 1 s' [[97, 98], [99]]"
proof -
  have "msz_ok 1 (stack_multi 1 [[97, 98]] :: MULTISZA) [[97, 98]]" by (simp add: multi_samples)
  moreover have p: "strlen [99, 0 :: CHAR_t] * 1 \<le> MAXDWORD" "cstr [99, 0 :: CHAR_t] = [99]" by (simp_all add: multi_samples)
  moreover have "6 = (length (concat (map (\<lambda>x. x @ [0]) [[97, 98 :: CHAR_t]])) + strlen [99, 0 :: CHAR_t] + 2) * 1"
    by (simp add: multi_samples)
  moreover have "False \<longleftrightarrow> m_cbBuffer (msz_Buff (stack_multi 1 [[97, 98]] :: MULTISZA)) < 6 \<and> MAXDWORD < (6::nat) + 128"
    by (simp add: MAXDWORD_def)
  ultimately have "\<exists>ok s' w'. msz_Append_psz 1 (stack_multi 1 [[97, 98]] :: MULTISZA) (Some [99, 0]) plenty = Some (ok, s', w') \<and>
      msz_ok 1 s' (if ok then [[97, 98]] @ (if cstr [99, 0 :: CHAR_t] = [] then [] else [cstr [99, 0]]) else [[97, 98]]) \<and>
      (generous plenty \<and> \<not> False \<longrightarrow> ok)"
    using multisz_append [of 1 "stack_multi 1 [[97, 98]] :: MULTISZA" "[[97, 98]]" "[99, 0]" 6 False plenty] by blast
  then show ?thesis by (auto simp: p(2))
qed

text \<open>C38. A clone is equal: when \<open>Clone\<close> succeeds the copy holds the same strings, \<open>Equals\<close>
  says so, and \<open>FindString\<close> finds in it exactly the strings of the original; when it fails the
  target is empty. \<open>Equals\<close> on any two multi-strings decides equality of the lists they hold.\<close>

theorem multisz_clone:
  assumes "msz_ok sz s ss" "msz_ok sz t ts"
  shows "(\<exists>ok t' w'. msz_Clone sz s (Some t) w = Some (ok, Some t', w') \<and> msz_ok sz t' (if ok then ss else []) \<and>
      (ok \<longrightarrow> msz_Equals s t' = Some True \<and> (\<forall>str. msz_FindString t' str = Some (cstr str \<in> set ss)))) \<and>
    msz_Equals s t = Some (ss = ts)"
proof
  obtain ok t' w' where c: "msz_Clone sz s (Some t) w = Some (ok, Some t', w')" "msz_ok sz t' (if ok then ss else [])"
    using Clone_delivers [OF assms, of w] by metis
  then have "ok \<Longrightarrow> msz_ok sz t' ss" by simp
  then have "ok \<longrightarrow> msz_Equals s t' = Some True \<and> (\<forall>str. msz_FindString t' str = Some (cstr str \<in> set ss))"
    using Equals_correct [OF assms(1), of t' ss] FindString_correct(1) [of sz t' ss] by simp
  then show "\<exists>ok t' w'. msz_Clone sz s (Some t) w = Some (ok, Some t', w') \<and> msz_ok sz t' (if ok then ss else []) \<and>
      (ok \<longrightarrow> msz_Equals s t' = Some True \<and> (\<forall>str. msz_FindString t' str = Some (cstr str \<in> set ss)))"
    using c by blast
qed (rule Equals_correct [OF assms])

theorem multisz_clone_witness:
  "msz_Equals (stack_multi 2 [[97], [98]] :: MULTISZ) (stack_multi 2 [[97], [99]]) = Some False"
  using multisz_clone [of 2 "stack_multi 2 [[97], [98]] :: MULTISZ" "[[97], [98]]" "stack_multi 2 [[97], [99]]" "[[97], [99]]"]
  by (simp add: multi_samples)

text \<open>\<open>SplitCommaDelimitedString\<close> leaves in the list exactly the entries between the
  commas, each trimmed of blanks, tabs and carriage returns when asked, in order and without the empty
  ones, whether or not their removal was requested. A failure is an error code and leaves a prefix of them;
  with a heap that grants every request and a text that fits 32-bit sizes there is none.\<close>

theorem multisz_split:
  assumes "(44::'a::len word) \<noteq> 0" "msz_ok sz (s :: 'a word multisz) ss" "strlen p * sz \<le> MAXDWORD"
  shows "\<exists>hr s' w' k. msz_Split sz (Some p) fTrim fRemove (Some s) w = Some (hr, Some s', w') \<and>
    msz_ok sz s' (take k (filter (\<lambda>x. x \<noteq> []) (map (if fTrim then trim_white else id) (commas (cstr p))))) \<and>
    (hr = S_OK \<and> length (filter (\<lambda>x. x \<noteq> []) (map (if fTrim then trim_white else id) (commas (cstr p)))) \<le> k \<or> FAILED hr) \<and>
    (generous w \<longrightarrow> (strlen p + 3) * sz + 128 \<le> MAXDWORD \<longrightarrow> hr = S_OK)"
  by (rule Split_correct [OF assms, unfolded split_strings_def])

text \<open>The text " a,,b " with trimming, and with the removal of empty entries not asked for.\<close>

theorem multisz_split_witness:
  "\<exists>s' w'. msz_Split 1 (Some [32, 97, 44, 44, 98, 32, 0]) True False (Some (stack_multi 1 [] :: MULTISZA)) plenty
     = Some (S_OK, Some s', w') \<and> msz_ok 1 s' [[97], [98]]"
proof -
  have "msz_ok 1 (stack_multi 1 [] :: MULTISZA) []" by (simp add: multi_samples)
  from multisz_split [OF _ this, of "[32, 97, 44, 44, 98, 32, 0]" True False plenty] show ?thesis
    by (auto simp: multi_samples trim_white_def ISWHITE_def)
qed

text \<open>A multi-string constructed on caller-supplied memory cannot be appended to before
  it is reset: its length is zero, the subtraction of the final terminator wraps, and every \<open>Append\<close>
  fails with ERROR_ARITHMETIC_OVERFLOW. After \<open>Reset\<close> it is an empty multi-string.\<close>

theorem multisz_stack_append:
  assumes "sz \<in> {1, 2}" "cbInit = length mem * sz" "cbInit \<le> MAXDWORD" "2 \<le> length mem"
  shows "msz_Append_psz sz (msz_ctor_buf mem cbInit) (Some p) w =
      Some (False, msz_ctor_buf mem cbInit, SetLastError ERROR_ARITHMETIC_OVERFLOW w) \<and>
    (\<exists>s. msz_Reset (msz_ctor_buf mem cbInit) = Some s \<and> msz_ok sz s [])"
proof
  have sz: "0 < sz" "sz \<le> 2" using assms(1) by auto
  show "msz_Append_psz sz (msz_ctor_buf mem cbInit) (Some p) w =
      Some (False, msz_ctor_buf mem cbInit, SetLastError ERROR_ARITHMETIC_OVERFLOW w)"
    using ctor_buf_append [OF sz dword_le] by (simp add: msz_Append_psz_def)
  show "\<exists>s. msz_Reset (msz_ctor_buf mem cbInit) = Some s \<and> msz_ok sz s []"
    using ctor_buf_reset [OF sz(1) assms(2-4)] by blast
qed

theorem multisz_stack_append_witness:
  "msz_Append_psz 1 (msz_ctor_buf [7, 7, 7, 7, 7, 7, 7, 7] 8 :: MULTISZA) (Some [97, 0]) plenty =
     Some (False, msz_ctor_buf [7, 7, 7, 7, 7, 7, 7, 7] 8, SetLastError ERROR_ARITHMETIC_OVERFLOW plenty)"
  using multisz_stack_append [of 1 8 "[7, 7, 7, 7, 7, 7, 7, 7] :: CHAR_t list" "[97, 0]" plenty] by (simp add: MAXDWORD_def)

section \<open>Hash table\<close>

text \<open>Records that are their own key text, with keys compared without regard to case.\<close>

definition text_table :: "(CHAR_t list, CHAR_t list) methods" where
  "text_table = nocase_methods (\<lambda>r. case r of None \<Rightarrow> [] | Some s \<Rightarrow> s)"

definition sample_table :: "CHAR_t list hash_table" where
  "sample_table = fst (snd (Initialize S_OK 3 (hash_table_ctor True) plenty))"

lemma sample_table_ok: "ht_ok text_table sample_table" "records sample_table = {#}"
proof -
  from Initialize_correct [of "hash_table_ctor True :: CHAR_t list hash_table" S_OK 3 plenty text_table]
  obtain hr t' w' where "Initialize S_OK 3 (hash_table_ctor True :: CHAR_t list hash_table) plenty = (hr, t', w')"
    "ht_ok text_table t'" "records t' = {#}"
    by (auto simp: hash_table_ctor_def MAXDWORD_def plenty_def)
  then show "ht_ok text_table sample_table" "records sample_table = {#}" by (simp_all add: sample_table_def)
qed

lemma text_table_contract: "key_contract text_table"
  unfolding text_table_def by (rule ht_nocase.key_contract_axioms)

text \<open>C1. Concurrent \<open>InsertRecord\<close> calls under the shared lock, in any interleaving of their
  shared-memory accesses, keep the chain sorted by hash and free of equal keys, lose no node that
  was in it, link exactly the nodes of the threads past their compare-and-swap, count each
  insertion once (modulo the width of \<open>_nItems\<close>), and a thread reports ERROR_ALREADY_EXISTS only when an equal key is in the chain.\<close>

theorem concurrent_insert:
  assumes "key_contract M" "hashed M N" "conc_inv M N s xs" "insert_run M N s s'"
  shows "\<exists>ys. path (pNext s') (bucket s') ys \<and> chain_inv M N ys \<and> subseq xs ys \<and>
    set ys = {a. thread s' a \<in> {Linked, Finished}} \<and>
    items s' + of_nat (card {a. thread s a = Finished}) = items s + of_nat (card {a. thread s' a = Finished}) \<and>
    (\<forall>a. thread s' a = AlreadyExists \<longrightarrow>
       (\<exists>x\<in>set ys. EqualKeys M (ExtractKey M (pRecord (N a))) (ExtractKey M (pRecord (N x)))))"
proof -
  obtain ys where y: "conc_inv M N s' ys" "subseq xs ys"
    "items s' + of_nat (card {a. thread s a = Finished}) = items s + of_nat (card {a. thread s' a = Finished})"
    using key_contract.insert_run_inv [OF assms(1,4,3,2)] by blast
  have "\<exists>x\<in>set ys. EqualKeys M (ExtractKey M (pRecord (N a))) (ExtractKey M (pRecord (N x)))"
    if "thread s' a = AlreadyExists" for a
    using y(1) that unfolding conc_inv_def by (metis thread_ok.simps(6))
  then show ?thesis using y key_contract.conc_inv_members [OF assms(1) y(1)] by (auto simp: conc_inv_def)
qed

text \<open>Two threads insert the equal keys "a" and "A" into an empty bucket: both walk it, thread 1 links
  its node, and the compare-and-swap of thread 2 then fails.\<close>

definition race_nodes :: "nat \<Rightarrow> CHAR_t list hash_node" where
  "race_nodes a = \<lparr>pRecord = Some (if a = 1 then [97, 0] else [65, 0]), dwHash = 65\<rparr>"

definition race_start :: conc where
  "race_start = \<lparr>bucket = None, pNext = (\<lambda>_. None), items = 0, thread = (\<lambda>_. Begin)\<rparr>"

definition race_end :: conc where
  "race_end = goto 2 Begin (goto 1 Linked (write_loc location.Bucket (Some 1)
     (goto 2 (Swap location.Bucket None) ((goto 1 (Swap location.Bucket None) ((goto 2 (Walk location.Bucket None)
       (goto 1 (Walk location.Bucket None) race_start))\<lparr>pNext := (\<lambda>_. None)(1 := None)\<rparr>))
         \<lparr>pNext := (\<lambda>_. None)(1 := None, 2 := None)\<rparr>))))"

lemma race_run: "insert_run text_table race_nodes race_start race_end"
proof -
  let ?a = "goto 1 (Walk location.Bucket None) race_start"
  let ?b = "goto 2 (Walk location.Bucket None) ?a"
  let ?c = "goto 1 (Swap location.Bucket None) (?b\<lparr>pNext := (\<lambda>_. None)(1 := None)\<rparr>)"
  let ?d = "goto 2 (Swap location.Bucket None) (?c\<lparr>pNext := (\<lambda>_. None)(1 := None, 2 := None)\<rparr>)"
  let ?e = "goto 1 Linked (write_loc location.Bucket (Some 1) ?d)"
  have "insert_step text_table race_nodes race_start ?a"
    using insert_step.start [of race_start 1 text_table race_nodes] by (simp add: race_start_def)
  moreover have "insert_step text_table race_nodes ?a ?b"
    using insert_step.start [of ?a 2 text_table race_nodes] by (simp add: race_start_def)
  moreover have "insert_step text_table race_nodes ?b ?c"
    using insert_step.stop [of ?b 1 location.Bucket None race_nodes text_table] by (simp add: race_start_def)
  moreover have "insert_step text_table race_nodes ?c ?d"
    using insert_step.stop [of ?c 2 location.Bucket None race_nodes text_table] by (simp add: race_start_def)
  moreover have "insert_step text_table race_nodes ?d ?e"
    using insert_step.swapped [of ?d 1 location.Bucket None text_table race_nodes] by (simp add: race_start_def read_loc_def)
  moreover have "insert_step text_table race_nodes ?e race_end"
    using insert_step.retry [of ?e 2 location.Bucket None text_table race_nodes]
    by (simp add: race_start_def race_end_def read_loc_def write_loc_def)
  ultimately show ?thesis by (meson insert_run.refl insert_run.step)
qed

lemma race_hashed: "hashed text_table race_nodes"
  by (auto simp: hashed_def race_nodes_def text_table_def nocase_methods_def HashStringNoCase_def cstr_simps
      HASH_MULTIPLY_def)

theorem concurrent_insert_witness:
  "\<exists>ys. path (pNext race_end) (bucket race_end) ys \<and> set ys = {a. thread race_end a \<in> {Linked, Finished}} \<and>
    chain_inv text_table race_nodes ys"
  using concurrent_insert [OF text_table_contract race_hashed _ race_run, of "[]"]
  by (auto simp: conc_inv_def race_start_def chain_inv_def)

text \<open>C6. Finitely many threads inside \<open>InsertRecord\<close> make progress whatever the
  interleaving: no schedule of their steps goes on for ever (a compare-and-swap can only fail because
  another one succeeded), a thread that has not returned always has a step, so every schedule can be
  continued until all of them have returned.\<close>

theorem concurrent_insert_ends:
  assumes "key_contract M" "hashed M N" "conc_inv M N s xs" "finite T"
  shows "\<not> (\<exists>f. f 0 = s \<and> (\<forall>i. step_of M N T (f i) (f (Suc i)))) \<and>
    (\<forall>s' a. a \<in> busy s' \<inter> T \<longrightarrow> (\<exists>s2 pc. step_of M N T s' s2 \<and> thread s2 = (thread s')(a := pc))) \<and>
    (\<exists>s'. (step_of M N T)\<^sup>*\<^sup>* s s' \<and> busy s' \<inter> T = {})"
  using key_contract.no_infinite_run [OF assms(1), of N "(s, xs)" T] assms
    key_contract.run_finishes [OF assms(1), of N "(s, xs)" T] busy_moves [where M = M and N = N and T = T]
  by simp

theorem concurrent_insert_ends_witness:
  "\<exists>s'. (step_of text_table race_nodes {1, 2})\<^sup>*\<^sup>* race_start s' \<and> busy s' \<inter> {1, 2} = {}"
  using concurrent_insert_ends [OF text_table_contract race_hashed, of race_start "[]" "{1, 2}"]
  by (simp add: conc_inv_def race_start_def chain_inv_def)

text \<open>C7. In every state a table reaches from a successful \<open>Initialize\<close> through FindKey,
  InsertRecord, DeleteKey, DeleteIf, Apply and Clear, whatever the heap grants, the representation
  invariant holds (sorted chains in the right buckets, unique keys, the item count, a free lock taken
  in the right mode around every call) and the accounts balance: one reference per record held plus
  one per record FindKey handed out, one heap block per node plus the bucket array.\<close>

theorem hash_table_accounts:
  assumes "key_contract M" "table_run M w0 t w given"
  shows "ht_ok M t \<and> accounts w0 t w given"
  by (rule key_contract.table_run_ok [OF assms])

theorem hash_table_accounts_witness:
  "ht_ok text_table sample_table \<and>
   accounts plenty sample_table (snd (snd (Initialize S_OK 3 (hash_table_ctor True :: CHAR_t list hash_table) plenty))) (\<lambda>_. 0)"
proof (rule hash_table_accounts [OF text_table_contract], rule table_run.init)
  show "Initialize S_OK 3 (hash_table_ctor True) plenty =
    (S_OK, sample_table, snd (snd (Initialize S_OK 3 (hash_table_ctor True :: CHAR_t list hash_table) plenty)))"
    by (simp add: sample_table_def Initialize_def hash_table_ctor_def heap_request_def plenty_def MAXDWORD_def)
qed

text \<open>C20. After a successful InsertRecord every key equal to the record's finds that record,
  and every other key finds what it found before.\<close>

theorem insert_then_find:
  assumes "key_contract M" "ht_ok M t" "InsertRecord M (Some x) t w = Some (S_OK, t', w')"
    "FindKey M key t = Some (u, t1)" "FindKey M key t' = Some (u', t2)"
  shows "u' = (if EqualKeys M key (ExtractKey M (Some x)) then Some x else u)"
proof -
  note C = assms(1)
  have i: "ht_ok M t'" "matching M (ExtractKey M (Some x)) t = {#}" "records t' = add_mset (Some x) (records t)"
    using key_contract.InsertRecord_correct [OF C assms(2), of "Some x" w] assms(3) by (auto split: if_splits)
  have m: "matching M key t' = (if EqualKeys M key (ExtractKey M (Some x)) then {#Some x#} else {#}) + matching M key t"
    using i(3) by (simp add: matching_def)
  have none: "matching M key t = {#}" if "EqualKeys M key (ExtractKey M (Some x))"
  proof -
    have "\<not> EqualKeys M (ExtractKey M (Some x)) (ExtractKey M r)" if "r \<in># records t" for r
      using i(2) that by (auto simp: matching_def)
    moreover have "EqualKeys M (ExtractKey M (Some x)) key" by (rule key_contract.eq_sym [OF C that])
    ultimately show ?thesis unfolding matching_def using key_contract.eq_trans [OF C] by auto
  qed
  have f1: "case u of Some y \<Rightarrow> matching M key t = {#Some y#} | None \<Rightarrow> \<forall>y. Some y \<notin># matching M key t"
    using key_contract.FindKey_correct [OF C assms(2), of key] assms(4) by (auto split: option.splits)
  have f2: "case u' of Some y \<Rightarrow> matching M key t' = {#Some y#} | None \<Rightarrow> \<forall>y. Some y \<notin># matching M key t'"
    using key_contract.FindKey_correct [OF C i(1), of key] assms(5) by (auto split: option.splits)
  show ?thesis
  proof (cases "EqualKeys M key (ExtractKey M (Some x))")
    case True
    then show ?thesis using f2 m none by (cases u') auto
  next
    case False
    then show ?thesis using f1 f2 m by (cases u; cases u') auto
  qed
qed

theorem insert_then_find_witness:
  "\<exists>t' w' t1 t2. InsertRecord text_table (Some [102, 111, 111, 0]) sample_table plenty = Some (S_OK, t', w') \<and>
    FindKey text_table [70, 79, 79, 0] sample_table = Some (None, t1) \<and>
    FindKey text_table [70, 79, 79, 0] t' = Some (Some [102, 111, 111, 0], t2)"
proof -
  note C = text_table_contract
  obtain t' w' where I: "InsertRecord text_table (Some [102, 111, 111, 0]) sample_table plenty = Some (S_OK, t', w')"
    "ht_ok text_table t'"
    using key_contract.InsertRecord_correct [OF C sample_table_ok(1), of "Some [102, 111, 111, 0]" plenty]
    by (auto simp: plenty_def matching_def sample_table_ok(2))
  obtain t1 where F1: "FindKey text_table [70, 79, 79, 0] sample_table = Some (None, t1)"
    using key_contract.FindKey_correct [OF C sample_table_ok(1), of "[70, 79, 79, 0]"]
    by (auto simp: matching_def sample_table_ok(2) split: option.splits)
  obtain u t2 where F2: "FindKey text_table [70, 79, 79, 0] t' = Some (u, t2)"
    using key_contract.FindKey_correct [OF C I(2), of "[70, 79, 79, 0]"] by blast
  have "EqualKeys text_table [70, 79, 79, 0] (ExtractKey text_table (Some [102, 111, 111, 0]))"
    by (simp add: text_table_def nocase_methods_def stricmp_eq_def cstr_simps tolower_def)
  with insert_then_find [OF C sample_table_ok(1) I(1) F1 F2] I(1) F1 F2 show ?thesis by auto
qed



text \<open>C25. DeleteKey on a sound table always returns; afterwards a key equal to the deleted
  one finds nothing and every other key finds what it found before.\<close>

theorem delete_then_find:
  assumes "key_contract M" "ht_ok M t"
  shows "\<exists>t' w' u t1 u' t2. DeleteKey M key t w = Some (t', w') \<and> ht_ok M t' \<and>
    FindKey M k t = Some (u, t1) \<and> FindKey M k t' = Some (u', t2) \<and>
    u' = (if EqualKeys M key k then None else u)"
proof -
  note C = assms(1)
  obtain t' w' where d: "DeleteKey M key t w = Some (t', w')" "ht_ok M t'" "records t' = records t - matching M key t"
    using key_contract.DeleteKey_correct [OF assms, of key w] by blast
  have r: "records t' = {#r \<in># records t. \<not> EqualKeys M key (ExtractKey M r)#}"
    unfolding d(3) matching_def by (rule multiset_eqI) simp
  have m: "matching M k t' = (if EqualKeys M key k then {#} else matching M k t)"
  proof (cases "EqualKeys M key k")
    case True
    then show ?thesis using key_contract.eq_trans [OF C] unfolding matching_def r by (auto simp: filter_filter_mset)
  next
    case False
    then have "EqualKeys M k (ExtractKey M x) \<Longrightarrow> \<not> EqualKeys M key (ExtractKey M x)" for x
      using key_contract.eq_trans [OF C] key_contract.eq_sym [OF C] by metis
    with False show ?thesis unfolding matching_def r filter_filter_mset by (auto intro!: filter_mset_cong)
  qed
  obtain u t1 where "FindKey M k t = Some (u, t1)"
    and f1: "case u of Some x \<Rightarrow> matching M k t = {#Some x#} | None \<Rightarrow> \<forall>x. Some x \<notin># matching M k t"
    using key_contract.FindKey_correct [OF assms, of k] by (auto split: option.splits)
  moreover obtain u' t2 where "FindKey M k t' = Some (u', t2)"
    and f2: "case u' of Some x \<Rightarrow> matching M k t' = {#Some x#} | None \<Rightarrow> \<forall>x. Some x \<notin># matching M k t'"
    using key_contract.FindKey_correct [OF C d(2), of k] by (auto split: option.splits)
  moreover have "u' = (if EqualKeys M key k then None else u)"
    using f1 f2 m by (cases u; cases u') (auto split: if_splits)
  ultimately show ?thesis using d(1,2) by blast
qed

theorem delete_then_find_witness:
  "\<exists>t' w' t1 t2. DeleteKey text_table [97, 0] sample_table plenty = Some (t', w') \<and>
     FindKey text_table [65, 0] t' = Some (None, t2)"
  using delete_then_find [OF text_table_contract sample_table_ok(1), of "[97, 0]" plenty "[65, 0]"]
  by (auto simp: text_table_def nocase_methods_def stricmp_eq_def cstr_simps tolower_def)



text \<open>C24. RehashTableIfNeeded moves every node to its new bucket and keeps the invariant
  (chains sorted again, the same nodes, references, blocks and item count) and never shrinks the table.\<close>

theorem rehash_keeps_table:
  assumes "ht_ok M t"
  shows "\<exists>t' w'. RehashTableIfNeeded t w = Some (t', w') \<and> ht_ok M t' \<and> nodes t' = nodes t \<and>
    Count t' = Count t \<and> nBuckets t \<le> nBuckets t' \<and> same_ledger t w t' w'"
  using Rehash_correct [OF assms, of w] by (simp add: Count_def)

theorem rehash_keeps_table_witness:
  "\<exists>t' w'. RehashTableIfNeeded sample_table plenty = Some (t', w') \<and> nodes t' = nodes sample_table"
  using rehash_keeps_table [OF sample_table_ok(1), of plenty] by blast

text \<open>Initialize on a table in use returns E_INVALIDARG but frees the bucket array under
  it and keeps the bucket count: the nodes leak and the next FindKey goes through a NULL array.\<close>

theorem reinitialize_destroys:
  assumes "ht_ok M t"
  shows "\<exists>t' w'. Initialize lock_hr n t w = (E_INVALIDARG, t', w') \<and> nBuckets t' = nBuckets t \<and>
    Count t' = Count t \<and> FindKey M key t' = None \<and> heap_live w' = heap_live w - 1"
  using Initialize_live [OF assms, of lock_hr n w]
  by (auto simp: Count_def FindKey_def FindNodeInternal_def Let_def)

theorem reinitialize_destroys_witness:
  "\<exists>t' w'. Initialize S_OK 3 sample_table plenty = (E_INVALIDARG, t', w') \<and> FindKey text_table [97, 0] t' = None"
  using reinitialize_destroys [OF sample_table_ok(1), of S_OK 3 plenty "[97, 0]"] by auto

section \<open>Primes and hashes\<close>

text \<open>C33. For requests up to 36353, and for those above its table, GetPrime returns a prime that is at
  least the request: above the table the least such prime below MAXDWORD, or the request itself when
  there is none. In between, the table has composite entries, and GetPrime returns them.\<close>

theorem get_prime:
  assumes "n \<le> 36353 \<or> 10049369 < n \<and> n \<le> MAXDWORD"
  shows "(is_prime (GetPrime n) \<and> n \<le> GetPrime n \<and>
      (10049369 < n \<longrightarrow> GetPrime n < MAXDWORD \<and> (\<forall>p. is_prime p \<and> n \<le> p \<longrightarrow> GetPrime n \<le> p)) \<or>
      10049369 < n \<and> GetPrime n = n \<and> (\<forall>p. is_prime p \<and> n \<le> p \<longrightarrow> MAXDWORD \<le> p)) \<and>
    GetPrime 7199370 = 11 * 541 * 1319 \<and> GetPrime 7849370 = 3 * 2883123 \<and>
    GetPrime 8649370 = 3 * 3083123 \<and> GetPrime 9249370 = 11 * 913579"
proof -
  have small: "is_prime (GetPrime n) \<and> n \<le> GetPrime n" if "n \<le> 36353"
    using GetPrime_table [OF that] GetPrime_ge by blast
  have large: "(is_prime (GetPrime n) \<and> n \<le> GetPrime n \<and> GetPrime n < MAXDWORD \<and>
      (\<forall>p. is_prime p \<and> n \<le> p \<longrightarrow> GetPrime n \<le> p)) \<or>
    GetPrime n = n \<and> (\<forall>p. is_prime p \<and> n \<le> p \<longrightarrow> MAXDWORD \<le> p)" if "10049369 < n" "n \<le> MAXDWORD"
    using GetPrime_above [OF that] GetPrime_ge [of n] by blast
  have table: "GetPrime 7199370 = 11 * 541 * 1319 \<and> GetPrime 7849370 = 3 * 2883123 \<and>
    GetPrime 8649370 = 3 * 3083123 \<and> GetPrime 9249370 = 11 * 913579"
    by (simp add: GetPrime_def g_Primes_def)
  show ?thesis
  proof (cases "n \<le> 36353")
    case True
    then have "\<not> 10049369 < n" by simp
    then show ?thesis using small [OF True] table by blast
  next
    case False
    then have "10049369 < n" "n \<le> MAXDWORD" using assms by auto
    then show ?thesis using large table by blast
  qed
qed

theorem get_prime_witness:
  "is_prime (GetPrime 1000) \<and> GetPrime 9249370 = 11 * 913579 \<and>
   (is_prime (GetPrime 4000000000) \<or> GetPrime 4000000000 = 4000000000)"
  using get_prime [of 1000] get_prime [of 4000000000] by (auto simp: MAXDWORD_def)

text \<open>Texts that _stricmp calls equal have the same HashStringNoCase, so the function can be the
  CalcKeyHash of a table whose EqualKeys ignores case.\<close>

theorem nocase_hash:
  assumes "stricmp_eq a b"
  shows "HashStringNoCase a h = HashStringNoCase b h"
  by (rule stricmp_hash [OF assms])

theorem nocase_hash_witness: "HashStringNoCase [70, 111, 0] 5 = HashStringNoCase [102, 79, 0] 5"
  by (rule nocase_hash) (simp add: stricmp_eq_def cstr_simps tolower_def)

section \<open>Reader/writer lock\<close>

text \<open>C19. The XP lock excludes as long as no other thread runs inside two windows (between a
  reader's decrement and its SetEvent, between a writer's flag and its look at the counter): while a
  thread writes nobody reads and nobody else writes. There are at most 2^30 threads, one for each possible
  identifier, and the count is a LONG.\<close>

theorem lock_exclusion:
  assumes "calm_reach s" "pc s t = Writing"
  shows "pc s u \<noteq> Reading \<and> (pc s u = Writing \<longrightarrow> u = t)"
  using lock_inv_exclusion [OF calm_reach_inv [OF assms(1)] assms(2)] by blast

text \<open>Thread 0 alone takes the lock exclusively.\<close>

definition writer_in :: lock_state where
  "writer_in = the (schedule_run [(0, True), (0, True), (0, True), (0, True)] lock_start)"

lemma writer_in_calm: "calm_reach writer_in" "pc writer_in 0 = Writing"
proof -
  let ?s1 = "moves 0 X_Entered (\<lambda>l. l\<lparr>critsec := Some 0\<rparr>) lock_start"
  let ?s2 = "moves 0 X_Flagged (\<lambda>l. l\<lparr>fWriterWaiting := True\<rparr>) ?s1"
  let ?s3 = "moves 0 X_Granted id ?s2"
  let ?s4 = "moves 0 Writing (\<lambda>l. l\<lparr>LockCount := - 1\<rparr>) ?s3"
  have "calm_reach ?s1"
    by (rule calm_reach.step [OF calm_reach.start, where x = True and t = 0]) (simp_all add: lock_start_def lock_threads_def)
  then have "calm_reach ?s2" by (rule calm_reach.step [where x = True and t = 0]) (simp_all add: lock_start_def lock_threads_def)
  then have "calm_reach ?s3" by (rule calm_reach.step [where x = True and t = 0]) (simp_all add: lock_start_def lock_threads_def)
  then have "calm_reach ?s4" by (rule calm_reach.step [where x = True and t = 0]) (simp_all add: lock_start_def lock_threads_def)
  moreover have e: "writer_in = ?s4" by (simp add: writer_in_def lock_start_def lock_threads_def)
  ultimately show "calm_reach writer_in" by simp
  show "pc writer_in 0 = Writing" unfolding e by simp
qed

theorem lock_exclusion_witness: "pc writer_in 1 \<noteq> Reading"
  using lock_exclusion [OF writer_in_calm] by blast

text \<open>C23. Without that restriction the XP lock can hold a reader and a writer at once: a release
  interrupted before it looks at fWriterWaiting leaves ReadersDoneEvent signalled, and a later writer
  does not wait for the readers that are in.\<close>

theorem lock_violation:
  "\<exists>s. lock_reach s \<and> pc s 3 = Reading \<and> pc s 4 = Writing"
  using stale_run schedule_run_reach [OF lock_reach.start] by blast

section \<open>Tree hash table\<close>

text \<open>Paths that are their own records, in a case-sensitive table with three buckets.\<close>

definition path_tree :: "WCHAR list tree_table" where
  "path_tree = (tree_ctor True)\<lparr>th_ppBuckets := Some (replicate 3 []), th_nBuckets := 3\<rparr>"

definition path_world :: world where
  "path_world = snd (heap_request (3 * sizeof_pointer) plenty)"

definition own_path :: "WCHAR list \<Rightarrow> WCHAR list" where
  "own_path r = r"

lemma own_path_sample: "own_path [47, 97, 47, 98, 0] = [47, 97, 47, 98, 0]"
  by (simp add: own_path_def)

lemma sample_ancestors: "ancestors [47, 97, 47, 98 :: WCHAR] = [[47, 97]]" "ancestors [47, 97 :: WCHAR] = []"
  by (simp_all add: ancestors_def is_separator_def upt_rec)

lemma path_tree_run: "tree_run id UNIV own_path plenty path_tree path_world (\<lambda>_. 0)"
proof (rule tree_run.init)
  show "tree_Initialize S_OK 3 (tree_ctor True) plenty = (S_OK, path_tree, path_world)"
    by (simp add: tree_Initialize_def path_tree_def path_world_def heap_request_def plenty_def MAXDWORD_def split_def)
  show "case_ok id UNIV path_tree" by (simp add: case_ok_def path_tree_def tree_ctor_def)
qed

lemma path_tree_facts:
  "tree_entries u path_tree = {}" "tree_norm u path_tree s = s" "generous path_world" "heap_live path_world = 1"
  by (simp_all add: tree_entries_def path_tree_def tree_ctor_def tree_norm_def path_world_def heap_request_def
      plenty_def generous_def)

lemma empty_path_out_of_bounds:
  assumes "cstr (GetKey r) = []" "length ach = 256"
  shows "tree_InsertRecord u GetKey ach r t w = None"
proof -
  define s where "s = (str_ctor_buf sizeof_WCHAR (ach[0 := 0]) 256 :: STRU)"
  have s: "str_ok sizeof_WCHAR s" "2 \<le> m_cbBuffer (m_Buff s)"
    using str_ctor_buf_ok [of sizeof_WCHAR 256 "ach[0 := 0]"] assms(2)
    by (simp_all add: s_def MAXDWORD_def str_ctor_buf_def buffer_init_def dword_def)
  have l: "strlen (GetKey r) < STRSAFE_MAX_CCH" using assms(1) by (simp add: strlen_def STRSAFE_MAX_CCH_def)
  note D = STRU_Copy_psz_delivers [OF s(1) l, of w, unfolded assms(1)]
  obtain s1 where C: "STRU_Copy_psz s (GetKey r) w = Some (S_OK, s1, w)" "str_ok sizeof_WCHAR s1" "str_text s1 = []"
    using D s(2) by (auto simp: delivers_def split: option.splits)
  have "m_cchLen s1 = 0" using length_str_text [OF C(2)] C(3) by simp
  then have d: "dword_sub (QueryCCH s1) 1 = Suc 4294967294" by (simp add: QueryCCH_def dword_sub_def dword_def)
  have "length (QueryStr s1) \<le> 4294967295" using str_okD(5,6) [OF C(2)] by (simp add: MAXDWORD_def)
  then have "find_parent u (GetKey r) t0 (Suc 4294967294) (QueryStr s1) = None" for t0 :: "'a tree_table"
    by (simp add: mem_get_def del: Suc_numeral)
  then show ?thesis using C(1) d by (simp add: tree_InsertRecord_def Let_def flip: s_def)
qed

text \<open>C8. In every state a TREE_HASH_TABLE reaches from a successful Initialize through InsertRecord,
  FindKey, DeleteKey, DeleteIf, Apply and Clear, whatever the heap grants, the invariant holds (nodes
  on exactly the right sorted chain, unique paths, trees that mirror the paths, the lock free and taken
  in the right mode, one reference per record held and per record handed out, one heap block per node
  and one for the buckets), no operation reads a freed node or runs off a chain or a list of children,
  and Clear followed by the destructor gives back every block and every reference the table took. This
  is about runs whose insertions keep to keys (\<open>key_ok\<close>) that are not empty, are shorter than the 256
  characters of the stack buffer of InsertRecord, and are made of characters \<open>A\<close> on which the comparison
  and the hash agree about case (\<open>case_ok\<close>; every character in a case-sensitive table); lookups and
  deletions take any key over \<open>A\<close>. The restriction is the code's: inserting the empty path reads far
  outside the buffer, as the theorem says too, and inserting a longer path releases a lock it does not
  hold when the heap refuses the copy.\<close>

theorem tree_runs:
  assumes "tree_run u A GetKey w0 t w given"
  shows "tree_accounts u A w0 t w given \<and>
    (\<forall>key. set (cstr key) \<subseteq> A \<longrightarrow> tree_FindKey u key t \<noteq> None \<and> tree_DeleteKey u key t w \<noteq> None) \<and>
    (\<forall>r ach. key_ok A (GetKey r) \<longrightarrow> length ach = 256 \<longrightarrow> tree_InsertRecord u GetKey ach r t w \<noteq> None) \<and>
    (\<forall>r ach. cstr (GetKey r) = [] \<longrightarrow> length ach = 256 \<longrightarrow> tree_InsertRecord u GetKey ach r t w = None) \<and>
    (\<forall>f g c. tree_DeleteIf f (c :: nat) t w \<noteq> None \<and> tree_Apply g c t \<noteq> None) \<and>
    (\<exists>t1 w1. tree_Clear t w = Some (t1, w1) \<and> heap_live (snd (tree_dtor t1 w1)) = heap_live w0 \<and>
      (\<forall>r. balance r (th_calls t1) = given r))"
proof (intro conjI allI impI)
  show acc: "tree_accounts u A w0 t w given" using assms by (rule tree_run_accounts)
  then have ok: "tree_ok u A t" "case_ok u A t" by (simp_all add: tree_accounts_def)
  show "tree_FindKey u key t \<noteq> None" "tree_DeleteKey u key t w \<noteq> None" if "set (cstr key) \<subseteq> A" for key
    using tree_FindKey_correct [OF ok that] tree_DeleteKey_correct [OF ok that, of w] by auto
  show "tree_InsertRecord u GetKey ach r t w \<noteq> None" if "key_ok A (GetKey r)" "length ach = 256" for r ach
    using key_ok_insert [where GetKey = GetKey and r = r, OF acc that] by auto
  show "tree_InsertRecord u GetKey ach r t w = None" if "cstr (GetKey r) = []" "length ach = 256" for r ach
    by (rule empty_path_out_of_bounds [where GetKey = GetKey and r = r, OF that])
  show "tree_DeleteIf f (c :: nat) t w \<noteq> None" "tree_Apply g c t \<noteq> None" for f g c
    using tree_DeleteIf_correct [OF ok(1), of f c w] tree_Apply_correct [OF ok(1), of g c] by auto
  obtain t1 w1 where C: "tree_Clear t w = Some (t1, w1)" "tree_ok u A t1" "tree_same Free t w t1 w1" "th_nodes t1 = Map.empty"
    using tree_Clear_correct [OF ok(1), of w] by blast
  obtain bs where "th_ppBuckets t1 = Some bs" using C(2) tree_okE chains_okD(1) by metis
  then have "heap_live (snd (tree_dtor t1 w1)) = heap_live w0 \<and> (\<forall>r. balance r (th_calls t1) = given r)"
    using C(3,4) acc by (simp add: tree_same_def tree_accounts_def tree_blocks_def tree_refs_def tree_dtor_def HeapFree_def)
  then show "\<exists>t1 w1. tree_Clear t w = Some (t1, w1) \<and> heap_live (snd (tree_dtor t1 w1)) = heap_live w0 \<and>
      (\<forall>r. balance r (th_calls t1) = given r)" using C(1) by blast
qed

theorem tree_runs_witness:
  "tree_accounts id UNIV plenty path_tree path_world (\<lambda>_. 0) \<and> tree_FindKey id [47, 97, 0] path_tree \<noteq> None"
  using tree_runs [OF path_tree_run] by simp

text \<open>C13. InsertRecord of a path shorter than 256 characters always returns. S_OK: no record had the
  path, and now it has this one and FindKey finds it; besides it exactly its missing ancestors are
  added, without records. ERROR_ALREADY_EXISTS: a record has the path, and nothing has changed. Any
  other error needs a refused allocation; then no record is added and none lost.\<close>

theorem tree_insert:
  assumes "tree_run u A GetKey w0 t w given" "key_ok A (GetKey r)" "length ach = 256"
  shows "\<exists>hr t' w'. tree_InsertRecord u GetKey ach r t w = Some (hr, t', w') \<and>
    insert_outcome (tree_norm u t (cstr (GetKey r))) r (tree_entries u t) (generous w) hr (tree_entries u t') \<and>
    (hr = S_OK \<longrightarrow> (\<exists>t2. tree_FindKey u (GetKey r) t' = Some (Some r, t2)))"
proof -
  have acc: "tree_accounts u A w0 t w given" using assms(1) by (rule tree_run_accounts)
  then have ok: "tree_ok u A t" "case_ok u A t" by (simp_all add: tree_accounts_def)
  have k: "set (cstr (GetKey r)) \<subseteq> A" "short_path (cstr (GetKey r))"
    using assms(2) by (simp_all add: key_ok_def short_path_def MAXDWORD_def)
  obtain hr t' w' where I: "tree_InsertRecord u GetKey ach r t w = Some (hr, t', w')"
    "record_inserted u A (cstr (GetKey r)) r t w hr t' w'"
    using key_ok_insert [where GetKey = GetKey and r = r, OF acc assms(2,3)] by blast
  then have R: "tree_ok u A t'" "th_fCaseSensitive t' = th_fCaseSensitive t"
    "path_added u (cstr (GetKey r)) r (tree_entries u t) w hr t'" by (simp_all add: record_inserted_def tree_same_def)
  have out: "insert_outcome (tree_norm u t (cstr (GetKey r))) r (tree_entries u t) (generous w) hr (tree_entries u t')"
    by (rule path_added_outcome [OF ok k(1) R(2,3) k(2)])
  have ok': "case_ok u A t'" using ok(2) case_ok_cong [OF R(2)] by simp
  have "\<exists>t2. tree_FindKey u (GetKey r) t' = Some (Some r, t2)" if "hr = S_OK"
  proof -
    have "(tree_norm u t' (cstr (GetKey r)), Some r) \<in> tree_entries u t'"
      using out that tree_norm_cong [OF R(2), of u "cstr (GetKey r)"] by (simp add: insert_outcome_def)
    then show ?thesis using tree_FindKey_correct [OF R(1) ok' k(1)] by metis
  qed
  then show ?thesis using I(1) out by blast
qed

theorem tree_insert_witness:
  "\<exists>t' w'. tree_InsertRecord id own_path (replicate 256 1) [47, 97, 47, 98, 0] path_tree path_world = Some (S_OK, t', w') \<and>
    tree_entries id t' = {([47, 97, 47, 98], Some [47, 97, 47, 98, 0]), ([47, 97], None)} \<and>
    (\<exists>t2. tree_FindKey id [47, 97, 47, 98, 0] t' = Some (Some [47, 97, 47, 98, 0], t2))"
proof -
  have "key_ok UNIV (own_path [47, 97, 47, 98, 0 :: WCHAR])" by (simp add: key_ok_def terminated_def cstr_def own_path_sample)
  from tree_insert [where r = "[47, 97, 47, 98, 0]" and ach = "replicate 256 1", OF path_tree_run this] obtain hr t' w' where
    I: "tree_InsertRecord id own_path (replicate 256 1) [47, 97, 47, 98, 0] path_tree path_world = Some (hr, t', w')"
    "insert_outcome [47, 97, 47, 98] [47, 97, 47, 98, 0] {} True hr (tree_entries id t')"
    "hr = S_OK \<longrightarrow> (\<exists>t2. tree_FindKey id [47, 97, 47, 98, 0] t' = Some (Some [47, 97, 47, 98, 0], t2))"
    by (auto simp: path_tree_facts cstr_def own_path_sample)
  have "hr = S_OK" using I(2) by (auto simp: insert_outcome_def split: if_splits)
  then show ?thesis using I by (auto simp: insert_outcome_def sample_ancestors)
qed

text \<open>C14. DeleteKey always returns: the recursion of DeleteNodeInternal is no deeper than the table has
  nodes. It removes the path and every path below it, nothing else, and frees one heap block for each.\<close>

theorem tree_delete:
  assumes "tree_run u A GetKey w0 t w given" "set (cstr key) \<subseteq> A"
  shows "\<exists>t' w'. tree_DeleteKey u key t w = Some (t', w') \<and>
    tree_entries u t' = {(k, x) \<in> tree_entries u t. tree_norm u t (cstr key) \<notin> up_to k} \<and>
    heap_live w' = heap_live w - int (card {(k, x) \<in> tree_entries u t. tree_norm u t (cstr key) \<in> up_to k})"
proof -
  let ?K = "tree_norm u t (cstr key)" and ?E = "tree_entries u t"
  have acc: "tree_accounts u A w0 t w given" using assms(1) by (rule tree_run_accounts)
  then have ok: "tree_ok u A t" "case_ok u A t" by (simp_all add: tree_accounts_def)
  obtain t' w' where D: "tree_DeleteKey u key t w = Some (t', w')" "tree_ok u A t'" "tree_same Free t w t' w'"
    "tree_entries u t' = {(k, x) \<in> ?E. ?K \<notin> up_to k}"
    using tree_DeleteKey_correct [OF ok assms(2), of w] by blast
  obtain bs bs' where "th_ppBuckets t = Some bs" "th_ppBuckets t' = Some bs'"
    using ok(1) D(2) tree_okE chains_okD(1) by metis
  then have "heap_live w' - int (card (tree_entries u t')) = heap_live w - int (card ?E)"
    using D(3) card_tree_entries(2) [OF ok(1)] card_tree_entries(2) [OF D(2)] by (simp add: tree_same_def tree_blocks_def)
  moreover have "?E = tree_entries u t' \<union> {(k, x) \<in> ?E. ?K \<in> up_to k}" unfolding D(4) by auto
  then have "card ?E = card (tree_entries u t') + card {(k, x) \<in> ?E. ?K \<in> up_to k}"
    using card_tree_entries(1) [OF ok(1)] card_Un_disjoint [of "tree_entries u t'" "{(k, x) \<in> ?E. ?K \<in> up_to k}"] D(4)
    by (metis (no_types, lifting) Int_emptyI case_prodE finite_Un mem_Collect_eq prod.simps(2))
  ultimately show ?thesis using D(1,4) by simp
qed

theorem tree_delete_witness:
  "\<exists>t w t' w'. tree_InsertRecord id own_path (replicate 256 1) [47, 97, 47, 98, 0] path_tree path_world = Some (S_OK, t, w) \<and>
    tree_DeleteKey id [47, 97, 0] t w = Some (t', w') \<and> tree_entries id t' = {}"
proof -
  have key: "key_ok UNIV (own_path [47, 97, 47, 98, 0 :: WCHAR])" by (simp add: key_ok_def terminated_def cstr_def own_path_sample)
  obtain hr t w where I: "tree_InsertRecord id own_path (replicate 256 1) [47, 97, 47, 98, 0] path_tree path_world = Some (hr, t, w)"
    "record_inserted id UNIV [47, 97, 47, 98] [47, 97, 47, 98, 0] path_tree path_world hr t w"
    using key_ok_insert [where GetKey = own_path and r = "[47, 97, 47, 98, 0]" and ach = "replicate 256 1",
        OF tree_run_accounts [OF path_tree_run] key] by (auto simp: cstr_def own_path_sample)
  have run: "tree_run id UNIV own_path plenty t w (\<lambda>_. 0)" by (rule tree_run.insert [OF path_tree_run key _ I(1)]) simp
  have cs: "th_fCaseSensitive t" using I(2) by (simp add: record_inserted_def tree_same_def path_tree_def tree_ctor_def)
  have "insert_outcome [47, 97, 47, 98] [47, 97, 47, 98, 0] {} True hr (tree_entries id t)"
    using path_added_outcome [of id UNIV path_tree "[47, 97, 47, 98]" t "[47, 97, 47, 98, 0]" path_world hr]
      tree_run_accounts [OF path_tree_run] I(2)
    by (simp add: tree_accounts_def path_tree_facts record_inserted_def tree_same_def short_path_def MAXDWORD_def)
  then have hr: "hr = S_OK" and E: "tree_entries id t = {([47, 97], None), ([47, 97, 47, 98], Some [47, 97, 47, 98, 0])}"
    by (auto simp: insert_outcome_def sample_ancestors split: if_splits)
  from tree_delete [OF run, of "[47, 97, 0]"] obtain t' w' where
    "tree_DeleteKey id [47, 97, 0] t w = Some (t', w')"
    "tree_entries id t' = {(k, x) \<in> tree_entries id t. [47, 97] \<notin> up_to k}"
    using cs by (auto simp: tree_norm_def cstr_def)
  moreover have "{(k, x) \<in> tree_entries id t. [47, 97] \<notin> up_to k} = {}"
    unfolding E by (auto simp: up_to_def sample_ancestors)
  ultimately show ?thesis using I(1) hr by auto
qed

section \<open>LKR hash table\<close>

text \<open>A small table with room for 32 records before it grows.\<close>

definition sample_lkr :: "CHAR_t list lkr" where
  "sample_lkr = fst (snd (the (lkr_Initialize True True 4 1 plenty)))"

lemma sample_lkr_ok: "lkr_ok text_table sample_lkr {#}"
proof -
  have c: "choose_size 1 = (1, 8)" by (simp add: choose_size_def lkr_sizes init_size_def)
  have r: "roomy (2 ^ seg_bits 1) 8" by (simp add: roomy_def seg_bits_def lkr_sizes)
  from Initialize_cases(1) [OF c r generous_directories [OF generous_plenty], of 4] obtain t0 :: "CHAR_t list lkr" and rc t' w' where
    i: "lkr_Initialize True True 4 1 plenty = Some (rc, t', w')" "m_cRecords t0 = 0" "fresh 8 t0 plenty rc t' w'" by blast
  then have "rc = LK_SUCCESS" by (auto simp: fresh_def)
  then show ?thesis using i fresh_lkr_ok [of 8 t0 plenty t' w' text_table] by (simp add: sample_lkr_def)
qed

text \<open>C2. \<open>InsertRecord\<close> of CLKRLinearHashTable returns, whatever clumps and segments the heap refuses and however
  many buckets it adds on the way, provided that the runtime grants the directories (\<open>directories\<close>; a refused one is an
  exception that leaves the operation): without an equal key the record is added (or, when the heap refuses a clump, nothing changes and the
  result is LK_ALLOC_FAIL); with one it is replaced if \<open>fOverwrite\<close> is set and LK_KEY_EXISTS is returned otherwise.
  On success \<open>FindKey\<close> with its key hands out that record, and if the heap refused nothing the load factor holds
  or the table is as large as it can get. The representation invariant, references, locks and heap blocks are kept.\<close>

theorem lkr_insert:
  assumes "key_contract M" "lkr_ok M t E" "directories w"
  shows "\<exists>rc t' w' E'. LinearHashTable_InsertRecord M (Some r) fOverwrite t w = Some (rc, t', w') \<and>
    lkr_ok M t' E' \<and> books (E, t, w) (E', t', w') \<and> inserted M r fOverwrite E (generous w) rc E' \<and>
    (rc = LK_SUCCESS \<longrightarrow> (generous w \<longrightarrow> loaded t') \<and>
      (\<exists>t2. LinearHashTable_FindKey M (rec_key M r) True t' = Some (LK_SUCCESS, Some r, t2) \<and> looked t' t2 (Some r)))"
proof -
  obtain rc t' w' E' where i: "LinearHashTable_InsertRecord M (Some r) fOverwrite t w = Some (rc, t', w')" "lkr_ok M t' E'"
    "books (E, t, w) (E', t', w')" "inserted M r fOverwrite E (generous w) rc E'" "generous w \<and> rc = LK_SUCCESS \<longrightarrow> loaded t'"
    using key_contract.lkr_InsertRecord_correct [OF assms, of r fOverwrite] by blast
  have "(rec_sig M r, r) \<in># E'" if "rc = LK_SUCCESS" using i(4) that by (auto simp: inserted_def split: if_splits)
  then show ?thesis using i key_contract.FindKey_member [OF assms(1) i(2)] by blast
qed

theorem lkr_insert_witness:
  "(\<exists>rc t' w'. LinearHashTable_InsertRecord text_table (Some [97, 0]) False sample_lkr plenty = Some (rc, t', w') \<and> rc = LK_SUCCESS \<and>
    lkr_ok text_table t' {#(rec_sig text_table [97, 0], [97, 0])#}) \<and>
   (\<exists>rc t' w'. LinearHashTable_InsertRecord text_table (Some [97, 0]) False sample_lkr barren = Some (rc, t', w'))"
  using lkr_insert [OF text_table_contract sample_lkr_ok generous_directories [OF generous_plenty], of "[97, 0]" False]
    lkr_insert [OF text_table_contract sample_lkr_ok barren_directories, of "[97, 0]" False]
  by (auto simp: inserted_def)

text \<open>C3. \<open>DeleteKey\<close> returns and removes one record with an equal key, if there is one, and nothing else; \<open>FindKey\<close>
  then finds none. The buckets the table gives up on the way change nothing about its records, and references,
  locks and heap blocks balance. The runtime grants the smaller directories.\<close>

theorem lkr_delete:
  assumes "key_contract M" "lkr_ok M t E" "directories w"
  shows "\<exists>rc t' w' E' t2. LinearHashTable_DeleteKey M key t w = Some (rc, t', w') \<and> lkr_ok M t' E' \<and> books (E, t, w) (E', t', w') \<and>
    (if \<exists>e\<in>#E. EqualKeys M key (rec_key M (snd e))
     then rc = LK_SUCCESS \<and> (\<exists>e\<in>#E. EqualKeys M key (rec_key M (snd e)) \<and> E' = E - {#e#}) else rc = LK_NO_SUCH_KEY \<and> E' = E) \<and>
    LinearHashTable_FindKey M key True t' = Some (LK_NO_SUCH_KEY, None, t2) \<and> looked t' t2 None"
proof -
  obtain rc t' w' E' where d: "LinearHashTable_DeleteKey M key t w = Some (rc, t', w')" "lkr_ok M t' E'" "books (E, t, w) (E', t', w')"
    "if \<exists>e\<in>#E. EqualKeys M key (rec_key M (snd e))
     then rc = LK_SUCCESS \<and> (\<exists>e\<in>#E. EqualKeys M key (rec_key M (snd e)) \<and> E' = E - {#e#}) else rc = LK_NO_SUCH_KEY \<and> E' = E"
    using key_contract.lkr_DeleteKey_correct [OF assms, of key] by blast
  have "\<forall>e\<in>#E'. \<not> EqualKeys M key (rec_key M (snd e))"
  proof (cases "\<exists>e\<in>#E. EqualKeys M key (rec_key M (snd e))")
    case True
    then obtain e where "e \<in># E" "EqualKeys M key (rec_key M (snd e))" "E' = E - {#e#}" using d(4) by auto
    moreover have "keyed M E" using assms(2) by (simp add: lkr_ok_def)
    ultimately show ?thesis using key_contract.keyed_removed [OF assms(1)] by blast
  next
    case False
    then show ?thesis using d(4) by simp
  qed
  then show ?thesis using d key_contract.FindKey_absent [OF assms(1) d(2)] by blast
qed

theorem lkr_delete_witness:
  "\<exists>t' w'. LinearHashTable_DeleteKey text_table [97] sample_lkr plenty = Some (LK_NO_SUCH_KEY, t', w') \<and> lkr_ok text_table t' {#}"
  using lkr_delete [OF text_table_contract sample_lkr_ok generous_directories [OF generous_plenty], of "[97]"] by auto

text \<open>C5. A step of the expansion and a step of the contraction keep the records and the invariant, directory,
  segments and clumps included, when the runtime grants the directories. \<open>_Expand\<close> adds exactly one bucket and every block it
  takes belongs to the table afterwards; or it fails with LK_ALLOC_FAIL and leaves every bucket as it was, at most with a
  larger directory and one more segment, which the table owns. \<open>_Contract\<close> removes exactly one bucket and gives back every
  block the table no longer has, if no segment lies beyond the buckets in use (after a failed \<open>_Expand\<close> one may, and is lost
  with its half of the directory); or it fails and leaves the table and the heap unchanged. With a heap that refuses nothing
  they fail only at the limits of the table's size.\<close>

theorem lkr_resize:
  assumes "lkr_ok M t E" "directories w"
  shows "\<exists>rc t' w' rc2 t2 w2. Expand t w = Some (rc, t', w') \<and> lkr_ok M t' E \<and> books (E, t, w) (E, t', w') \<and>
    heap_live w' - heap_live w = int (table_blocks t') - int (table_blocks t) \<and>
    (rc = LK_SUCCESS \<and> m_cActiveBuckets t' = m_cActiveBuckets t + 1 \<or>
     rc = LK_ALLOC_FAIL \<and> unmoved t t' \<and> table_blocks t \<le> table_blocks t' \<and> table_blocks t' \<le> table_blocks t + 1 \<and>
       (generous w \<longrightarrow> m_cActiveBuckets t \<ge> MAX_DIRSIZE * m_dwSegSize t - 1)) \<and>
    Contract t w = Some (rc2, t2, w2) \<and> lkr_ok M t2 E \<and> books (E, t, w) (E, t2, w2) \<and>
    (tight t \<longrightarrow> tight t2 \<and> heap_live w2 - heap_live w = int (table_blocks t2) - int (table_blocks t)) \<and>
    (rc2 = LK_SUCCESS \<and> m_cActiveBuckets t2 + 1 = m_cActiveBuckets t \<or>
     rc2 = LK_ALLOC_FAIL \<and> (\<exists>es. t2 = trace es t) \<and> heap_live w2 = heap_live w \<and> (generous w \<longrightarrow> m_cActiveBuckets t \<le> m_dwSegSize t))"
proof -
  have r: "rep t E" using assms(1) by (simp add: lkr_ok_def)
  obtain rc t' w' where e: "Expand t w = Some (rc, t', w')" "stepped E t w t' w'"
    "rc = LK_SUCCESS \<and> m_cActiveBuckets t' = m_cActiveBuckets t + 1 \<or> rc = LK_ALLOC_FAIL \<and> m_cActiveBuckets t' = m_cActiveBuckets t \<and>
      (generous w \<longrightarrow> m_cActiveBuckets t \<ge> MAX_DIRSIZE * m_dwSegSize t - 1)"
    "heap_live w' - heap_live w = int (table_blocks t') - int (table_blocks t)"
    "rc = LK_ALLOC_FAIL \<longrightarrow> unmoved t t' \<and> table_blocks t \<le> table_blocks t' \<and> table_blocks t' \<le> table_blocks t + 1"
    using Expand_correct [OF r assms(2)] by blast
  obtain rc2 t2 w2 where c: "Contract t w = Some (rc2, t2, w2)" "stepped E t w t2 w2"
    "rc2 = LK_SUCCESS \<and> m_cActiveBuckets t2 + 1 = m_cActiveBuckets t \<or> rc2 = LK_ALLOC_FAIL \<and> m_cActiveBuckets t2 = m_cActiveBuckets t \<and>
      (generous w \<longrightarrow> m_cActiveBuckets t \<le> m_dwSegSize t)"
    "tight t \<longrightarrow> tight t2 \<and> heap_live w2 - heap_live w = int (table_blocks t2) - int (table_blocks t)"
    "rc2 = LK_ALLOC_FAIL \<longrightarrow> (\<exists>es. t2 = trace es t) \<and> heap_live w2 = heap_live w"
    using Contract_correct [OF r assms(2)] by blast
  have "lkr_ok M t' E" "lkr_ok M t2 E" "books (E, t, w) (E, t', w')" "books (E, t, w) (E, t2, w2)"
    using stepped_lkr_ok [OF _ assms(1)] e(2) c(2) unfolding stepped_def by blast+
  then show ?thesis using e(1,3-5) c(1,3-5) by blast
qed

theorem lkr_resize_witness:
  "(\<exists>t' w' rc. Expand sample_lkr plenty = Some (rc, t', w') \<and> lkr_ok text_table t' {#}) \<and>
   (\<exists>t2 w2 rc. Contract sample_lkr barren = Some (rc, t2, w2) \<and> lkr_ok text_table t2 {#})"
  using lkr_resize [OF sample_lkr_ok generous_directories [OF generous_plenty]] lkr_resize [OF sample_lkr_ok barren_directories] by blast

text \<open>C9. The two loops that restore the load factor return for every behaviour of the heap under which the runtime grants
  the directories: the table has the same
  records, and with a heap that refuses nothing the condition of the loop is false at the end (or the table
  is as large as it can get).\<close>

theorem lkr_loops:
  assumes "lkr_ok M t E" "directories w"
  shows "\<exists>t' w' t2 w2. expand_loop t w = Some (t', w') \<and> lkr_ok M t' E \<and> books (E, t, w) (E, t', w') \<and> (generous w \<longrightarrow> loaded t') \<and>
    contract_loop n t w = Some (t2, w2) \<and> lkr_ok M t2 E \<and> books (E, t, w) (E, t2, w2) \<and> (generous w \<longrightarrow> \<not> under_limit n t2)"
proof -
  have r: "rep t E" using assms(1) by (simp add: lkr_ok_def)
  show ?thesis using expand_loop_correct [OF r assms(2)] contract_loop_correct [OF r assms(2), of n] stepped_lkr_ok [OF _ assms(1)]
    unfolding stepped_def loaded_def by metis
qed

theorem lkr_loops_witness: "\<exists>t' w'. contract_loop 5 sample_lkr plenty = Some (t', w') \<and> \<not> under_limit 5 t'"
  using lkr_loops [OF sample_lkr_ok generous_directories [OF generous_plenty], of 5] by auto

text \<open>C12. When the runtime grants the directory, the constructor gives an empty table with the chosen number of buckets that owns every block it
  allocated, or fails with LK_ALLOC_FAIL and gives everything back; unless the directory is one entry short,
  which is when the number of full segments is a power of two of eight or more and another one is begun: then it
  writes behind the directory. The witness shows both for 512 and 513 buckets.\<close>

theorem lkr_initialize:
  fixes M :: "('r, 'k) methods"
  assumes "choose_size initsize = (lkts, n)"
  shows "(roomy (2 ^ seg_bits lkts) n \<and> directories w \<longrightarrow> (\<exists>rc t' w'. lkr_Initialize True True maxload initsize w = Some (rc, t', w') \<and>
      (rc = LK_SUCCESS \<and> lkr_ok M t' {#} \<and> tight t' \<and> m_cActiveBuckets t' = n \<and> heap_live w' = heap_live w + int (table_blocks t') \<or>
       rc = LK_ALLOC_FAIL \<and> \<not> generous w \<and> heap_live w' = heap_live w))) \<and>
    (\<not> roomy (2 ^ seg_bits lkts) n \<and> generous w \<longrightarrow>
      (lkr_Initialize True True maxload initsize w :: (lk_retcode \<times> 'r lkr \<times> world) option) = None)"
proof (intro conjI impI)
  assume "roomy (2 ^ seg_bits lkts) n \<and> directories w"
  then have rd: "roomy (2 ^ seg_bits lkts) n" "directories w" by simp_all
  from Initialize_cases(1) [OF assms rd, of maxload] obtain t0 :: "'r lkr" and rc t' w' where
    i: "lkr_Initialize True True maxload initsize w = Some (rc, t', w')" "m_cRecords t0 = 0" "fresh n t0 w rc t' w'" by blast
  then show "\<exists>rc t' w'. lkr_Initialize True True maxload initsize w = Some (rc, t', w') \<and>
      (rc = LK_SUCCESS \<and> lkr_ok M t' {#} \<and> tight t' \<and> m_cActiveBuckets t' = n \<and> heap_live w' = heap_live w + int (table_blocks t') \<or>
       rc = LK_ALLOC_FAIL \<and> \<not> generous w \<and> heap_live w' = heap_live w)"
    using fresh_lkr_ok [of n t0 w t' w' M] by (auto simp: fresh_def)
qed (use Initialize_cases(2) [OF assms] in blast)

theorem lkr_initialize_witness:
  "(\<exists>rc t' w'. (lkr_Initialize True True 4 512 plenty :: (lk_retcode \<times> CHAR_t list lkr \<times> world) option) = Some (rc, t', w') \<and>
      rc = LK_SUCCESS \<and> m_cActiveBuckets t' = 512) \<and>
    (lkr_Initialize True True 4 513 plenty :: (lk_retcode \<times> CHAR_t list lkr \<times> world) option) = None"
proof -
  have c: "choose_size 512 = (2, 512)" "choose_size 513 = (2, 513)" by (simp_all add: choose_size_def lkr_sizes drop_bit_eq_div)
  have "roomy (2 ^ seg_bits 2) 512" by (simp add: roomy_def seg_bits_def lkr_sizes)
  moreover have "\<not> roomy (2 ^ seg_bits 2) 513"
    by (simp add: roomy_def seg_bits_def lkr_sizes) (rule exI [of _ 3], simp)
  ultimately show ?thesis
    using lkr_initialize [OF c(1), where M = text_table and maxload = 4 and w = plenty]
      lkr_initialize [OF c(2), where M = text_table and maxload = 4 and w = plenty] generous_directories [OF generous_plenty] by fastforce
qed

text \<open>C10. \<open>DeleteIf\<close> with a predicate that never stops the walk asks it once about every record, although each
  deletion moves the last record of a chain into the gap, deletes exactly the records it selects, and returns
  their number.\<close>

theorem lkr_delete_if:
  assumes "lkr_ok M t E" "\<And>pv. P pv \<in> {LKP_NO_ACTION, LKP_PERFORM, LKP_DELETE}"
  shows "\<exists>t' w'. LinearHashTable_DeleteIf (logging P) {#} t w =
      Some (Some (dword (size (filter_mset (\<lambda>e. P (Some (snd e)) \<noteq> LKP_NO_ACTION) E))), image_mset snd E, t', w') \<and>
    lkr_ok M t' (filter_mset (\<lambda>e. P (Some (snd e)) = LKP_NO_ACTION) E) \<and>
    books (E, t, w) (filter_mset (\<lambda>e. P (Some (snd e)) = LKP_NO_ACTION) E, t', w')"
  using lkr_DeleteIf_correct [OF assms(1), where pfn = "logging P" and s = "{#}" and w = w and f = "\<lambda>s. s"] DeleteIf_steady [OF assms(2)]
  by fastforce

theorem lkr_delete_if_witness:
  "\<exists>t' w'. LinearHashTable_DeleteIf (logging (\<lambda>_. LKP_DELETE)) {#} sample_lkr plenty = Some (Some 0, {#}, t', w') \<and> lkr_ok text_table t' {#}"
  using lkr_delete_if [OF sample_lkr_ok, of "\<lambda>_. LKP_DELETE" plenty] by (auto simp: dword_def)





text \<open>C40. The value that marks an empty slot is not the signature of any key: \<open>HashRandomizeBits\<close> never returns it,
  for any of the \<open>2 ^ 32\<close> hashes (the comment at its definition claims it for half of them).\<close>

theorem lkr_signature: "HashRandomizeBits dw \<noteq> HASH_INVALID_SIGNATURE"
  by (rule HashRandomizeBits_valid)

section \<open>Lists\<close>

text \<open>C28. A doubly-linked list is a queue: entries inserted at the tail of a new list come out at its
  head in the same order and leave it empty, while another list in the same memory keeps its entries.\<close>

theorem list_fifo:
  assumes "ring m g zs" "distinct (h # es)" "set (h # es) \<inter> set (g # zs) = {}"
  shows "\<exists>m'. pops (RemoveHeadList h) (length es) (fold (InsertTailList h) es (InitializeListHead h m)) = (es, m') \<and>
    IsListEmpty h m' \<and> ring m' g zs"
proof -
  have "\<exists>m'. pops (RemoveHeadList h) (length es) (fold (InsertTailList h) es (InitializeListHead h m)) = (es, m') \<and>
      IsListEmpty h m' \<and> beside g zs m' h []"
    by (rule entries.fifo) (use assms in auto)
  then show ?thesis by (auto simp: beside_def)
qed

definition empty_memory :: list_memory where
  "empty_memory = \<lparr>Flink = (\<lambda>_. 0), Blink = (\<lambda>_. 0), Next = (\<lambda>_. 0)\<rparr>"

theorem list_fifo_witness:
  "\<exists>m'. pops (RemoveHeadList 1) (length [10::nat, 20, 30]) (fold (InsertTailList 1) [10, 20, 30]
      (InitializeListHead 1 (InitializeListHead 2 empty_memory))) = ([10, 20, 30], m') \<and> IsListEmpty 1 m' \<and> ring m' 2 []"
  by (rule list_fifo [OF InitializeListHead_ring]) simp_all

text \<open>\<open>RemoveEntryList\<close> takes exactly its entry out of the list, wherever it is, and says whether the
  list became empty; \<open>AppendTailList\<close> appends the entries of a second list, whose head link becomes an
  entry in front of them.\<close>

theorem list_edit:
  assumes "ring m h (xs @ e # ys)" "ring m l zs" "set (h # xs @ e # ys) \<inter> set (l # zs) = {}"
  shows "ring (snd (RemoveEntryList e m)) h (xs @ ys) \<and> (fst (RemoveEntryList e m) \<longleftrightarrow> xs @ ys = []) \<and>
    ring (AppendTailList h l m) h (xs @ e # ys @ l # zs)"
  using RemoveEntryList_ring [OF assms(1)] AppendTailList_ring [OF assms] by simp

theorem list_edit_witness:
  "ring (snd (RemoveEntryList 10 (InsertTailList 1 10 (InitializeListHead 1 (InitializeListHead 2 empty_memory))))) 1 [] \<and>
   fst (RemoveEntryList 10 (InsertTailList 1 10 (InitializeListHead 1 (InitializeListHead 2 empty_memory))))"
  using list_edit [of "InsertTailList 1 10 (InitializeListHead 1 (InitializeListHead 2 empty_memory))" 1 "[]" 10 "[]" 2 "[]"]
  by (simp add: ring_def linked_def InsertTailList_def InitializeListHead_def Let_def)

section \<open>Trace logs\<close>

text \<open>C29. A trace log holds the last entries written to it: of any run of up to \<open>2^32\<close> writes to a log fresh
  from \<open>CreateTraceLog\<close>, the \<open>j\<close>-th goes to slot \<open>j mod LogSize\<close> and returns that index, no write leaves the
  block or touches the extra header bytes, and afterwards each of the last \<open>LogSize\<close> entries is in its slot.\<close>

theorem trace_log_last:
  assumes "is_long n" "is_long e" "is_long s" "n \<noteq> 0" "s \<noteq> 0" "CreateTraceLog n e s w = (Some lg, w')"
    "\<forall>x\<in>set es. length x = nat s" "length es \<le> 4294967296"
  shows "\<exists>lg'. write_all lg es = Some (map (\<lambda>j. j mod nat n) [0..<length es], lg') \<and> log_extra lg' = log_extra lg \<and>
    (\<forall>j<length es. length es \<le> j + nat n \<longrightarrow> log_slot lg' (j mod nat n) = es ! j)"
proof -
  note C = CreateTraceLog_correct [OF assms(1-6)]
  then have "written_before lg 0" by (intro written_before_start) simp
  from write_all_correct [OF _ _ this, of es] C assms(7,8) show ?thesis by auto
qed

text \<open>A log of two entries of one byte, three writes.\<close>

theorem trace_log_last_witness:
  "\<exists>lg lg'. fst (CreateTraceLog 2 0 1 plenty) = Some lg \<and> write_all lg [[7], [8], [9]] = Some ([0, 1, 0], lg') \<and>
    log_slot lg' 0 = [9] \<and> log_slot lg' 1 = [8]"
proof -
  obtain lg w' where c: "CreateTraceLog 2 0 1 plenty = (Some lg, w')"
    by (auto simp: CreateTraceLog_def ULongMult_def ULongAdd_def sizeof_TRACE_LOG_def heap_request_def plenty_def MAXDWORD_def)
  from trace_log_last [OF _ _ _ _ _ c, of "[[7], [8], [9]]"] obtain lg' where
    "write_all lg [[7], [8], [9]] = Some ([0, 1, 0], lg')"
    "\<forall>j<3. 3 \<le> j + 2 \<longrightarrow> log_slot lg' (j mod 2) = [[7], [8], [9]] ! j"
    by (auto simp: is_long_def upt_rec numeral_3_eq_3)
  moreover from this(2) have "log_slot lg' 1 = [8]" "log_slot lg' 0 = [9]"
    by (auto dest: spec [of _ 1] spec [of _ 2])
  ultimately show ?thesis using c by auto
qed

text \<open>\<open>ResetTraceLog\<close> clears from behind the header fields, not from the first entry: with \<open>k\<close> extra header
  bytes it zeroes those and leaves the last \<open>k\<close> bytes of the entries as they were, so with an extra
  header as large as an entry the last entry survives the reset.\<close>

theorem trace_log_reset:
  assumes "log_ok lg" "0 < LogSize lg" "LogBuffer lg = nat (EntrySize lg)"
  shows "\<exists>lg'. ResetTraceLog lg = Some lg' \<and> NextEntry lg' = -1 \<and> log_extra lg' = replicate (LogBuffer lg) 0 \<and>
    log_slot lg' (nat (LogSize lg) - 1) = log_slot lg (nat (LogSize lg) - 1)"
proof -
  let ?n = "nat (LogSize lg)" and ?s = "nat (EntrySize lg)" and ?b = "log_bytes lg"
  have len: "length ?b = ?s + ?n * ?s" using assms by (simp add: log_ok_def)
  have "?s + (?n - 1) * ?s = ?n * ?s" using assms(2) by (cases "?n") auto
  moreover have "?s \<le> ?n * ?s" using assms(2) by (cases "?n") auto
  ultimately show ?thesis
    using ResetTraceLog_correct [OF assms(1)] assms(3) len by (simp add: log_slot_def log_extra_def)
qed

theorem trace_log_reset_witness:
  "\<exists>lg lg'. log_slot lg 0 = [5] \<and> ResetTraceLog lg = Some lg' \<and> log_slot lg' 0 = [5]"
proof -
  let ?lg = "\<lparr>Signature = TRACE_LOG_SIGNATURE, LogSize = 1, NextEntry = 0, EntrySize = 1, LogBuffer = 1, log_bytes = [6, 5]\<rparr>"
  have "log_ok ?lg" by (simp add: log_ok_def sizeof_TRACE_LOG_def)
  from trace_log_reset [OF this] obtain lg' where "ResetTraceLog ?lg = Some lg'" "log_slot lg' 0 = log_slot ?lg 0" by auto
  moreover have "log_slot ?lg 0 = [5]" by (simp add: log_slot_def)
  ultimately show ?thesis by metis
qed

text \<open>C39. An entry of the reference trace can be read back: the slot whose index \<open>WriteRefTraceLogEx\<close> returns
  decodes to the reference count, contexts and thread it was given and the captured return addresses,
  padded with nulls; two frames are skipped when all extra contexts are null and one otherwise.\<close>

theorem ref_trace_entry:
  assumes "log_ok lg" "0 < LogSize lg" "EntrySize lg = 120" "written_before lg k"
    and "length (backtrace s 9) \<le> 9" "\<forall>p\<in>set (backtrace s 9). p < 2 ^ 64" "s = (if c1 = 0 \<and> c2 = 0 \<and> c3 = 0 then 2 else 1)"
    and "is_long r" "c < 2 ^ 64" "c1 < 2 ^ 64" "c2 < 2 ^ 64" "c3 < 2 ^ 64" "tid < 2 ^ 32"
  shows "\<exists>i lg'. WriteRefTraceLogEx tid backtrace lg r c c1 c2 c3 = Some (i, lg') \<and> i < nat (LogSize lg) \<and> log_ok lg' \<and>
    decode_entry (log_slot lg' i) =
      \<lparr>NewRefCount = r, Context = c, Context1 = c1, Context2 = c2, Context3 = c3, Thread = tid,
       Stack = backtrace s 9 @ replicate (9 - length (backtrace s 9)) 0\<rparr>"
proof -
  have m: "x mod nat (LogSize lg) < nat (LogSize lg)" for x using assms(2) by simp
  show ?thesis by (rule WriteRefTraceLogEx_correct [where backtrace = backtrace and s = s, OF assms]) (use m in blast)
qed

definition sample_log :: trace_log where
  "sample_log = \<lparr>Signature = TRACE_LOG_SIGNATURE, LogSize = 1, NextEntry = -1, EntrySize = 120, LogBuffer = 0,
     log_bytes = replicate 120 0\<rparr>"

theorem ref_trace_entry_witness:
  "\<exists>i lg'. WriteRefTraceLogEx 77 (\<lambda>skip depth. [skip + 4096]) sample_log (-1) 5 0 0 0 = Some (i, lg') \<and>
    decode_entry (log_slot lg' i) =
      \<lparr>NewRefCount = -1, Context = 5, Context1 = 0, Context2 = 0, Context3 = 0, Thread = 77,
       Stack = [4098] @ replicate 8 0\<rparr>"
proof -
  have "log_ok sample_log" "written_before sample_log 0"
    by (simp_all add: log_ok_def sample_log_def sizeof_TRACE_LOG_def written_before_start)
  moreover have "LogSize sample_log = 1" "EntrySize sample_log = 120" by (simp_all add: sample_log_def)
  ultimately show ?thesis
    using ref_trace_entry [of sample_log 0 "\<lambda>skip depth. [skip + 4096]" 2 0 0 0 "-1" 5 77]
    by (intro exI [of _ 0]) (auto simp: is_long_def)
qed

section \<open>Per-processor objects and the allocation cache\<close>

text \<open>C30. \<open>PER_CPU::Create\<close> gives every processor an initialized object of its own inside the block when an object fits
  a cache line of 64 bytes. When it does not, the slot size is the remainder of the rounded size instead
  of its next multiple, and initialization writes outside the block.\<close>

theorem per_cpu_create:
  assumes "0 < sz" "sz \<le> MAXDWORD" "0 < n" "n < 67108863" "generous w"
  shows "if sz \<le> 64
    then \<exists>pc w'. pc_Create sz zero f n w = Some (S_OK, Some pc, w') \<and> pc_values pc = replicate n (f zero) \<and>
      (\<forall>i<n. pc_get sz pc (GetObject pc i) = Some (f zero)) \<and>
      (\<forall>i<n. \<forall>j<n. i \<noteq> j \<longrightarrow> GetObject pc i + sz \<le> GetObject pc j \<or> GetObject pc j + sz \<le> GetObject pc i)
    else pc_Create sz zero f n w = None"
proof (cases "sz \<le> 64")
  case True
  from pc_Create_correct [OF assms(1) True assms(4), of zero f w] assms(5) obtain pc w' where
    P: "pc_Create sz zero f n w = Some (S_OK, Some pc, w')" "pc_ok sz pc" "m_VariablesCount pc = n"
      "pc_values pc = replicate n (f zero)" by auto
  then show ?thesis using True pc_get_value [OF P(2)] objects_apart [OF P(2)] by simp
next
  case False
  then show ?thesis using pc_Create_large [of sz n w zero f] assms by simp
qed

theorem per_cpu_create_witness: "pc_Create 65 (0::nat) Suc 4 plenty = None"
  using per_cpu_create [of 65 4 plenty 0 Suc] by (simp add: MAXDWORD_def)

text \<open>C15. In every run of \<open>Alloc\<close> and \<open>Free\<close> calls on a cache fresh from \<open>Initialize\<close>, on any processors and with any
  behaviour of the heap, the invariant holds: the allocated blocks are those the clients hold and those
  on the lists, each once, and no list is longer than the threshold. A block handed out is one nobody
  holds, and destroying the cache leaves allocated exactly what the clients hold.\<close>

theorem alloc_cache:
  assumes "n < 67108863" "cbSize \<le> 4294967292"
    "cache_Initialize pageheap n cbSize nThreshold sm (cache_ctor fill Map.empty) w = Some (S_OK, c, sm', w')"
    "cache_run w c {} c1 U" "cpu < n" "\<And>p b. ret = Some (p, b) \<Longrightarrow> p \<notin> dom (blocks c1)"
  shows "cache_inv c1 U \<and>
    (\<exists>r c2 w2. cache_Alloc cpu ret c1 w = Some (r, c2, w2) \<and> (r = None \<longrightarrow> ret = None) \<and>
      (\<forall>p. r = Some p \<longrightarrow> p \<notin> U) \<and> cache_inv c2 (U \<union> set_option r)) \<and>
    (\<exists>c2. cache_dtor c1 w = Some (c2, HeapFree w) \<and> dom (blocks c2) = U)"
proof -
  have "cache_inv c {} \<and> cache_cpus c = n"
    using cache_Initialize_correct [OF assms(1,2), of "cache_ctor fill Map.empty" pageheap nThreshold sm w] assms(3)
    by (auto simp: cache_ctor_def)
  with cache_run_inv [OF assms(4)] assms(5) have inv: "cache_inv c1 U" "cpu < cache_cpus c1" by auto
  have "\<exists>r c2 w2. cache_Alloc cpu ret c1 w = Some (r, c2, w2) \<and> (r = None \<longrightarrow> ret = None) \<and>
      (\<forall>p. r = Some p \<longrightarrow> p \<notin> U) \<and> cache_inv c2 (U \<union> set_option r)"
    by (rule cache_Alloc_correct [OF inv assms(6), where w = w]) auto
  moreover have "\<exists>c2. cache_dtor c1 w = Some (c2, HeapFree w) \<and> dom (blocks c2) = U"
    by (rule cache_dtor_correct [OF inv(1), where w = w]) auto
  ultimately show ?thesis using inv(1) by blast
qed

theorem alloc_cache_witness:
  "\<exists>c sm' w'. cache_Initialize False 2 100 5 0 (cache_ctor 0 Map.empty) plenty = Some (S_OK, c, sm', w') \<and>
    (\<exists>c2. cache_dtor c plenty = Some (c2, HeapFree plenty) \<and> dom (blocks c2) = {})"
proof -
  obtain c sm' w' where i: "cache_Initialize False 2 100 5 0 (cache_ctor 0 Map.empty) plenty = Some (S_OK, c, sm', w')"
    using cache_Initialize_correct [of 2 100 "cache_ctor 0 Map.empty" False 5 0 plenty] by (auto simp: cache_ctor_def)
  from alloc_cache [OF _ _ i cache_run.start, of 0 None] i show ?thesis by auto
qed

end
